(* ===== verification/VM_Prelude.thy ===== *)
theory VM_Prelude
  imports Main "HOL-Library.Word" "HOL-Library.Multiset" "HOL-Library.Signed_Division"
begin

text \<open>
  Shared vocabulary of the development: the machine types of the kernel (32-bit addresses,
  8-bit bytes, C \<open>int\<close> process ids), the constants of
  \<^verbatim>\<open>kern/arch/mips/include/vm.h\<close>, the result type of kernel code that may panic,
  fail an assertion, dereference a bad pointer or block, byte-addressed kernel memory with
  \<open>bzero\<close> and \<open>memmove\<close>, and linked lists threaded through a heap of cells.
  The lemmas here are the generic ones the component theories share.
\<close>

unbundle bit_operations_syntax

section \<open>Machine types and constants\<close>

type_synonym vaddr = "32 word"
type_synonym paddr = "32 word"
type_synonym ptr = "32 word"
type_synonym byte = "8 word"
type_synonym pid = int

text \<open>Byte-addressed memory, indexed by kernel virtual address.\<close>

type_synonym kmem = "32 word \<Rightarrow> 8 word"

abbreviation NULL :: ptr where
  "NULL \<equiv> 0"

definition PAGE_SIZE :: "32 word" where
  "PAGE_SIZE = 4096"

definition PAGE_FRAME :: "32 word" where
  "PAGE_FRAME = 0xfffff000"

definition MIPS_KSEG0 :: "32 word" where
  "MIPS_KSEG0 = 0x80000000"

definition USERSTACK :: "32 word" where
  "USERSTACK = MIPS_KSEG0"

definition PADDR_TO_KVADDR :: "paddr \<Rightarrow> vaddr" where
  "PADDR_TO_KVADDR p = p + MIPS_KSEG0"

definition KVADDR_TO_PADDR :: "vaddr \<Rightarrow> paddr" where
  "KVADDR_TO_PADDR v = v - MIPS_KSEG0"

definition MAX_PROC :: nat where
  "MAX_PROC = 100"

named_theorems vm_consts "values of the machine constants"

declare PAGE_SIZE_def [vm_consts] PAGE_FRAME_def [vm_consts] MIPS_KSEG0_def [vm_consts]
  USERSTACK_def [vm_consts] PADDR_TO_KVADDR_def [vm_consts] KVADDR_TO_PADDR_def [vm_consts]
  MAX_PROC_def [vm_consts]

text \<open>Rounding down to a page boundary and the offset inside the page.\<close>

lemma and_PAGE_FRAME: "x AND PAGE_FRAME = x - x mod PAGE_SIZE"
proof -
  have F: "PAGE_FRAME = NOT (mask 12)" by (simp add: PAGE_FRAME_def mask_eq_exp_minus_1)
  have "x AND NOT (mask 12) = push_bit 12 (drop_bit 12 x)"
    by (rule bit_eqI) (auto simp: bit_simps)
  moreover have "push_bit 12 (drop_bit 12 x) + x mod 4096 = x"
    using bits_ident [of 12 x] by (simp add: take_bit_eq_mod)
  ultimately show ?thesis by (simp add: F PAGE_SIZE_def eq_diff_eq)
qed

lemma and_not_PAGE_FRAME: "x AND NOT PAGE_FRAME = x mod PAGE_SIZE"
proof -
  have "NOT PAGE_FRAME = mask 12" by (simp add: PAGE_FRAME_def mask_eq_exp_minus_1)
  then show ?thesis by (simp add: PAGE_SIZE_def take_bit_eq_mod flip: take_bit_eq_mask)
qed

lemma unat_page_mod: "unat (x mod PAGE_SIZE) = unat x mod 4096"
  by (simp add: unat_mod_distrib PAGE_SIZE_def)

lemma unat_and_PAGE_FRAME: "unat (x AND PAGE_FRAME) = unat x - unat x mod 4096"
proof -
  have "x mod PAGE_SIZE \<le> x" by (simp add: word_le_nat_alt unat_page_mod)
  then show ?thesis by (simp add: and_PAGE_FRAME unat_sub unat_page_mod)
qed

section \<open>Results of kernel code\<close>

text \<open>
  Kernel code either returns, or stops: \<open>Panic\<close> is a call of \<open>panic\<close> (the string names
  the call), \<open>KAssert\<close> a failed \<open>KASSERT\<close>, \<open>OutOfBounds\<close> an array access
  outside the array and \<open>NullDeref\<close> a read or write through a null pointer (both undefined
  behaviour in C), \<open>Hang\<close> a loop that does not end, \<open>Blocked\<close> a sleep that nothing
  wakes, \<open>ProcExit\<close> the termination of the current process by \<open>sys__exit\<close>.
\<close>

datatype kerror =
    Panic string
  | KAssert
  | OutOfBounds
  | NullDeref
  | Hang
  | Blocked
  | ProcExit int

datatype 'a kres = Ok 'a | Fail kerror

definition kbind :: "'a kres \<Rightarrow> ('a \<Rightarrow> 'b kres) \<Rightarrow> 'b kres" where
  "kbind m f = (case m of Ok x \<Rightarrow> f x | Fail e \<Rightarrow> Fail e)"

definition kassert :: "bool \<Rightarrow> 'a kres \<Rightarrow> 'a kres" where
  "kassert b k = (if b then k else Fail KAssert)"

fun from_loop :: "'a kres option \<Rightarrow> 'a kres" where
  "from_loop None = Fail Hang"
| "from_loop (Some r) = r"

lemma kbind_Ok [simp]: "kbind (Ok x) f = f x"
  by (simp add: kbind_def)

lemma kbind_Fail [simp]: "kbind (Fail e) f = Fail e"
  by (simp add: kbind_def)

lemma kbind_eq_Ok [simp]: "kbind m f = Ok y \<longleftrightarrow> (\<exists>x. m = Ok x \<and> f x = Ok y)"
  by (cases m) auto

lemma kassert_True [simp]: "kassert True k = k"
  by (simp add: kassert_def)

lemma kassert_False [simp]: "kassert False k = Fail KAssert"
  by (simp add: kassert_def)

lemma kassert_eq_Ok [simp]: "kassert b k = Ok y \<longleftrightarrow> b \<and> k = Ok y"
  by (simp add: kassert_def)

text \<open>\<open>for\<close> loops whose body may fail: the body runs on each index in order.\<close>

fun kfold :: "('i \<Rightarrow> 's \<Rightarrow> 's kres) \<Rightarrow> 'i list \<Rightarrow> 's \<Rightarrow> 's kres" where
  "kfold f [] s = Ok s"
| "kfold f (i # is) s = kbind (f i s) (kfold f is)"

lemma kfold_append [simp]:
  "kfold f (xs @ ys) s = kbind (kfold f xs s) (kfold f ys)"
  by (induction xs arbitrary: s) (auto simp: kbind_def split: kres.splits)

text \<open>The loop rule: an invariant indexed by the iterations already done.\<close>

lemma kfold_inv:
  assumes "P [] s"
    and "\<And>done i rest t. is = done @ i # rest \<Longrightarrow> P done t \<Longrightarrow> \<exists>t'. f i t = Ok t' \<and> P (done @ [i]) t'"
  shows "\<exists>t. kfold f is s = Ok t \<and> P is t"
proof -
  have "\<exists>t. kfold f xs s = Ok t \<and> P xs t" if "is = xs @ ys" for xs ys
    using that
  proof (induction xs arbitrary: ys rule: rev_induct)
    case Nil
    then show ?case using assms(1) by simp
  next
    case (snoc x xs)
    then obtain t where "kfold f xs s = Ok t" "P xs t" by fastforce
    moreover from this(2) obtain t' where "f x t = Ok t'" "P (xs @ [x]) t'"
      using assms(2) [of xs x ys t] snoc.prems by auto
    ultimately show ?case by simp
  qed
  then show ?thesis by simp
qed

section \<open>Kernel memory\<close>

text \<open>\<open>bzero(p, n)\<close> and \<open>memmove(d, s, n)\<close> on byte-addressed memory.\<close>

definition bzero :: "vaddr \<Rightarrow> nat \<Rightarrow> kmem \<Rightarrow> kmem" where
  "bzero p n m = (\<lambda>a. if unat (a - p) < n then 0 else m a)"

definition memmove :: "vaddr \<Rightarrow> vaddr \<Rightarrow> nat \<Rightarrow> kmem \<Rightarrow> kmem" where
  "memmove d s n m = (\<lambda>a. if unat (a - d) < n then m (s + (a - d)) else m a)"

definition mem_put :: "vaddr \<Rightarrow> nat \<Rightarrow> (nat \<Rightarrow> byte) \<Rightarrow> kmem \<Rightarrow> kmem" where
  "mem_put p n f m = (\<lambda>a. if unat (a - p) < n then f (unat (a - p)) else m a)"

definition mem_get :: "vaddr \<Rightarrow> kmem \<Rightarrow> nat \<Rightarrow> byte" where
  "mem_get p m = (\<lambda>k. m (p + of_nat k))"

lemma unat_of_nat_32 [simp]: "n < 4294967296 \<Longrightarrow> unat (of_nat n :: 32 word) = n"
  by (simp add: unat_of_nat take_bit_nat_eq_self)

lemma unat_lt_32: "unat (x :: 32 word) < 4294967296"
  using unsigned_less [of x, where 'a = nat] by simp

lemma smod_nonneg: "0 \<le> a \<Longrightarrow> 0 < b \<Longrightarrow> (a :: int) smod b = a mod b"
  by (auto simp: smod_int_alt_def sgn_if)

lemma sdiv_nonneg: "0 \<le> a \<Longrightarrow> 0 < b \<Longrightarrow> (a :: int) sdiv b = a div b"
  by (auto simp: signed_divide_int_def sgn_if)

lemma unat_plus_nat:
  assumes "unat p + j < 4294967296"
  shows "unat (p + of_nat j :: 32 word) = unat p + j"
proof -
  have "unat (of_nat j :: 32 word) = j" using assms by simp
  then show ?thesis using assms unat_add_lem [of p "of_nat j"] by simp
qed

text \<open>Membership in the \<open>n\<close> bytes at \<open>p\<close>, for an area that does not wrap around.\<close>

lemma unat_sub_less_iff:
  assumes "unat p + n \<le> 4294967296"
  shows "unat (a - p :: 32 word) < n \<longleftrightarrow> unat p \<le> unat a \<and> unat a < unat p + n"
proof (cases "unat p \<le> unat a")
  case True
  then have "unat (a - p) = unat a - unat p" by (simp add: unat_sub word_le_nat_alt)
  then show ?thesis using True by auto
next
  case False
  then have "unat (a - p) = unat a + 4294967296 - unat p"
    using unat_sub_if' [of a p] by simp
  then show ?thesis using False assms unat_lt_32 [of a] by auto
qed

lemma mem_get_put: "k < n \<Longrightarrow> n \<le> 4294967296 \<Longrightarrow> mem_get p (mem_put p n f m) k = f k"
  by (simp add: mem_get_def mem_put_def)

lemma mem_put_outside: "n \<le> unat (a - p) \<Longrightarrow> mem_put p n f m a = m a"
  by (simp add: mem_put_def)

lemma mem_put_split:
  assumes "n1 + n2 \<le> 4294967296"
  shows "mem_put (p + of_nat n1) n2 (\<lambda>k. f (n1 + k)) (mem_put p n1 f m) = mem_put p (n1 + n2) f m"
proof
  fix a :: "32 word"
  let ?d = "unat (a - p)"
  have d: "a - (p + of_nat n1) = (a - p) - of_nat n1" by simp
  show "mem_put (p + of_nat n1) n2 (\<lambda>k. f (n1 + k)) (mem_put p n1 f m) a = mem_put p (n1 + n2) f m a"
  proof (cases "n1 = 4294967296 \<or> n2 = 0")
    case True
    then show ?thesis using assms unsigned_less [of "a - p"] by (auto simp: mem_put_def)
  next
    case False
    with assms have n1: "unat (of_nat n1 :: 32 word) = n1" by simp
    show ?thesis
    proof (cases "n1 \<le> ?d")
      case True
      then have "of_nat n1 \<le> a - p" using n1 by (simp add: word_le_nat_alt)
      then have "unat (a - (p + of_nat n1)) = ?d - n1"
        using n1 by (simp add: d unat_sub)
      then show ?thesis using True by (auto simp: mem_put_def)
    next
      case lt: False
      have "unat (a - (p + of_nat n1)) = ?d + 4294967296 - n1"
        using lt n1 unat_sub_if' [of "a - p" "of_nat n1 :: 32 word"] by (simp add: d)
      then show ?thesis using lt assms by (auto simp: mem_put_def)
    qed
  qed
qed

text \<open>A 32-bit word in memory, its most significant byte first.\<close>

definition ld32 :: "vaddr \<Rightarrow> kmem \<Rightarrow> 32 word" where
  "ld32 a m = push_bit 24 (ucast (m a)) OR push_bit 16 (ucast (m (a + 1)))
     OR push_bit 8 (ucast (m (a + 2))) OR ucast (m (a + 3))"

definition st32 :: "vaddr \<Rightarrow> 32 word \<Rightarrow> kmem \<Rightarrow> kmem" where
  "st32 a w m = m(a := ucast (drop_bit 24 w), a + 1 := ucast (drop_bit 16 w), a + 2 := ucast (drop_bit 8 w), a + 3 := ucast w)"

lemma word_bytes:
  fixes w :: "32 word"
  shows "push_bit 24 (ucast (ucast (drop_bit 24 w) :: byte)) OR push_bit 16 (ucast (ucast (drop_bit 16 w) :: byte))
    OR push_bit 8 (ucast (ucast (drop_bit 8 w) :: byte)) OR ucast (ucast w :: byte) = w"
proof (rule bit_word_eqI)
  fix n assume "n < LENGTH(32)"
  then consider "n < 8" | "8 \<le> n" "n < 16" | "16 \<le> n" "n < 24" | "24 \<le> n" "n < 32" by fastforce
  then show "bit (push_bit 24 (ucast (ucast (drop_bit 24 w) :: byte)) OR push_bit 16 (ucast (ucast (drop_bit 16 w) :: byte))
    OR push_bit 8 (ucast (ucast (drop_bit 8 w) :: byte)) OR ucast (ucast w :: byte) :: 32 word) n = bit w n"
    by cases (simp_all add: bit_simps less_diff_conv2)
qed

lemma ld_st [simp]: "ld32 a (st32 a w m) = w"
proof -
  have "a + 1 \<noteq> a" "a + 2 \<noteq> a" "a + 3 \<noteq> a" "a + 1 \<noteq> a + 2" "a + 1 \<noteq> a + 3" "a + 2 \<noteq> a + 3" by simp_all
  then show ?thesis using word_bytes [of w] by (simp add: ld32_def st32_def)
qed

lemma st32_outside: "4 \<le> unat (x - a) \<Longrightarrow> st32 a w m x = m x"
proof -
  assume 4: "4 \<le> unat (x - a)"
  have "x \<noteq> a + of_nat k" if "k < 4" for k :: nat
  proof
    assume "x = a + of_nat k"
    then have "unat (x - a) = k" using that by simp
    then show False using 4 that by simp
  qed
  from this [of 0] this [of 1] this [of 2] this [of 3] show ?thesis by (simp add: st32_def)
qed

lemma ld32_cong:
  assumes "\<And>x. unat (x - a) < 4 \<Longrightarrow> m' x = m x"
  shows "ld32 a m' = ld32 a m"
proof -
  have "m' (a + of_nat k) = m (a + of_nat k)" if "k < 4" for k :: nat using that by (intro assms) simp
  from this [of 0] this [of 1] this [of 2] this [of 3] show ?thesis by (simp add: ld32_def)
qed

section \<open>Linked lists threaded through a heap\<close>

text \<open>
  \<open>hlist nx p as\<close>: starting at the pointer \<open>p\<close> and following \<open>nx\<close>, the cells
  \<open>as\<close> are visited in this order and the chain ends in \<open>NULL\<close>.
\<close>

primrec hlist :: "(ptr \<Rightarrow> ptr) \<Rightarrow> ptr \<Rightarrow> ptr list \<Rightarrow> bool" where
  "hlist nx p [] \<longleftrightarrow> p = NULL"
| "hlist nx p (a # as) \<longleftrightarrow> p = a \<and> a \<noteq> NULL \<and> hlist nx (nx a) as"

lemma hlist_NULL [simp]: "hlist nx NULL as \<longleftrightarrow> as = []"
  by (cases as) auto

lemma hlist_nonNULL: "hlist nx p as \<Longrightarrow> p \<noteq> NULL \<Longrightarrow> \<exists>bs. as = p # bs \<and> hlist nx (nx p) bs"
  by (cases as) auto

lemma hlist_unique: "hlist nx p as \<Longrightarrow> hlist nx p bs \<Longrightarrow> as = bs"
proof (induction as arbitrary: p bs)
  case Nil
  then show ?case by simp
next
  case (Cons a as)
  then show ?case by (cases bs) auto
qed

lemma hlist_suffix: "hlist nx p (xs @ q # ys) \<Longrightarrow> hlist nx q (q # ys)"
  by (induction xs arbitrary: p) auto

lemma hlist_distinct: "hlist nx p as \<Longrightarrow> distinct as"
proof (induction as arbitrary: p)
  case Nil
  then show ?case by simp
next
  case (Cons a as)
  have "a \<notin> set as"
  proof
    assume "a \<in> set as"
    then obtain xs ys where as: "as = xs @ a # ys" by (meson split_list)
    have "hlist nx a (a # as)" using Cons.prems by simp
    moreover have "hlist nx a (a # ys)"
      using Cons.prems hlist_suffix [of nx "nx a" xs a ys] as by simp
    ultimately have "a # as = a # ys" by (rule hlist_unique)
    then show False using as by simp
  qed
  then show ?case using Cons by auto
qed

lemma hlist_upd [simp]: "a \<notin> set as \<Longrightarrow> hlist (nx(a := b)) p as = hlist nx p as"
  by (induction as arbitrary: p) auto

lemma hlist_no_NULL: "hlist nx p as \<Longrightarrow> NULL \<notin> set as"
  by (induction as arbitrary: p) auto

lemma hlist_unlink:
  "hlist nx p (xs @ q # t # ys) \<Longrightarrow> hlist (nx(q := nx t)) p (xs @ q # ys)"
proof (induction xs arbitrary: p)
  case Nil
  then have "distinct (q # t # ys)" by (metis append_Nil hlist_distinct)
  then show ?case using Nil by (auto simp del: fun_upd_apply simp add: fun_upd_same)
next
  case (Cons x xs)
  then have "distinct (x # xs @ q # t # ys)" by (metis append_Cons hlist_distinct)
  then show ?case using Cons by (auto simp del: fun_upd_apply simp add: fun_upd_other)
qed

lemma hlist_push:
  "hlist nx p as \<Longrightarrow> a \<notin> set as \<Longrightarrow> a \<noteq> NULL \<Longrightarrow> hlist (nx(a := p)) a (a # as)"
  by simp

lemma hlist_cong: "(\<And>a. a \<in> set as \<Longrightarrow> f a = g a) \<Longrightarrow> hlist f p as = hlist g p as"
  by (induction as arbitrary: p) auto

text \<open>The first \<open>n\<close> cells of a chain, computed.\<close>

primrec list_from :: "nat \<Rightarrow> (ptr \<Rightarrow> ptr) \<Rightarrow> ptr \<Rightarrow> ptr list" where
  "list_from 0 nx p = []"
| "list_from (Suc n) nx p = (if p = NULL then [] else p # list_from n nx (nx p))"

lemma list_from_hlist: "hlist nx p as \<Longrightarrow> length as \<le> n \<Longrightarrow> list_from n nx p = as"
proof (induction as arbitrary: p n)
  case Nil
  then show ?case by (cases n) auto
next
  case (Cons a as)
  then show ?case by (cases n) auto
qed

section \<open>Lists\<close>

lemma distinct_concat_nthD:
  assumes "distinct (concat xss)" "i < length xss" "j < length xss" "i \<noteq> j"
    "a \<in> set (xss ! i)"
  shows "a \<notin> set (xss ! j)"
  using assms
proof (induction xss arbitrary: i j)
  case Nil
  then show ?case by simp
next
  case (Cons ys yss)
  have sub: "set (yss ! k) \<subseteq> set (concat yss)" if "k < length yss" for k
    using that by (force dest: nth_mem)
  show ?case
  proof (cases i)
    case 0
    then obtain k where "j = Suc k" "k < length yss" using Cons.prems by (cases j) auto
    then show ?thesis using 0 Cons.prems sub by auto
  next
    case (Suc l)
    then show ?thesis
    proof (cases j)
      case 0
      have "l < length yss" using Suc Cons.prems by simp
      then show ?thesis using 0 Suc Cons.prems sub by fastforce
    next
      case j: (Suc k)
      then show ?thesis using Suc Cons.prems Cons.IH [of l k] by simp
    qed
  qed
qed

lemma find_skip: "(\<And>a. a \<in> set xs \<Longrightarrow> \<not> P a) \<Longrightarrow> P t \<Longrightarrow> find P (xs @ t # ys) = Some t"
  by (induction xs) auto

lemma map_eqI: "(\<And>k j. f k = Some j \<longleftrightarrow> g k = Some j) \<Longrightarrow> f = (g :: 'k \<rightharpoonup> 'v)"
  by (intro ext option.expand) (metis option.collapse option.distinct(1) option.sel)+

lemma in_concat_nth: "a \<in> set (concat xss) \<longleftrightarrow> (\<exists>i < length xss. a \<in> set (xss ! i))"
proof -
  have "a \<in> set (concat xss) \<longleftrightarrow> (\<exists>xs \<in> set xss. a \<in> set xs)" by simp
  then show ?thesis by (metis in_set_conv_nth)
qed

lemma concat_memI: "i < length xss \<Longrightarrow> a \<in> set (xss ! i) \<Longrightarrow> a \<in> set (concat xss)"
  by (metis in_concat_nth)

lemma mset_concat_update:
  "i < length xss \<Longrightarrow> mset (concat (xss[i := ys])) + mset (xss ! i) = mset (concat xss) + mset ys"
proof (induction xss arbitrary: i)
  case Nil
  then show ?case by simp
next
  case (Cons zs zss)
  show ?case
  proof (cases i)
    case 0
    then show ?thesis by (simp add: ac_simps)
  next
    case (Suc k)
    then have "mset (concat (zss[k := ys])) + mset (zss ! k) = mset (concat zss) + mset ys"
      using Cons by simp
    then show ?thesis using Suc by (simp add: ac_simps)
  qed
qed

lemma concat_update_set:
  "i < length xss \<Longrightarrow> distinct (concat xss) \<Longrightarrow>
    set (concat (xss[i := ys])) = (set (concat xss) - set (xss ! i)) \<union> set ys"
  using distinct_concat_nthD [of xss] 
  by (auto simp only: in_concat_nth length_list_update nth_list_update split: if_splits) blast+

lemma distinct_concat_update:
  assumes "i < length xss" "mset ys + mset us' = mset (xss ! i) + mset us"
  shows "distinct (concat (xss[i := ys]) @ us') = distinct (concat xss @ us)"
proof (rule mset_eq_imp_distinct_iff)
  have "mset (concat (xss[i := ys])) + mset us' + mset (xss ! i) =
      mset (concat xss) + (mset ys + mset us')"
    using mset_concat_update [OF assms(1), of ys] by (simp add: ac_simps)
  also have "\<dots> = mset (concat xss) + mset us + mset (xss ! i)"
    using assms(2) by (simp add: ac_simps)
  finally show "mset (concat (xss[i := ys]) @ us') = mset (concat xss @ us)" by simp
qed

end
