(* ===== verification/Disk_IO.thy ===== *)
theory Disk_IO
  imports VM_Prelude
begin

text \<open>
  Block I/O below the swap file: the transfer routine \<open>uiomove\<close>
  (\<^verbatim>\<open>kern/lib/uio.c\<close>), the device vnode operations
  (\<^verbatim>\<open>kern/vfs/device.c\<close>) and the disk driver (\<^verbatim>\<open>kern/dev/lamebus/lhd.c\<close>).
  The disk hardware is a parameter, carried in the driver's state as \<open>lh_hw\<close>; the predicate
  \<open>lhd_hw_ok\<close> states its documented behaviour. The locale \<open>page_device\<close> is the contract
  the swap file relies on: a page written is the page read back.
\<close>

section \<open>Error codes\<close>

definition ENOSYS :: int where "ENOSYS = 1"
definition ENOMEM :: int where "ENOMEM = 3"
definition EAGAIN :: int where "EAGAIN = 4"
definition EINVAL :: int where "EINVAL = 8"
definition ENOEXEC :: int where "ENOEXEC = 13"
definition ENOENT :: int where "ENOENT = 19"
definition EIOCTL :: int where "EIOCTL = 31"
definition EIO :: int where "EIO = 32"
definition ENOSPC :: int where "ENOSPC = 36"

lemmas errno_defs = ENOSYS_def ENOMEM_def EAGAIN_def EINVAL_def ENOEXEC_def ENOENT_def EIOCTL_def
  EIO_def ENOSPC_def

section \<open>Transfers: uio\<close>

datatype uio_rw = UIO_READ | UIO_WRITE
datatype uio_seg = UIO_USERISPACE | UIO_USERSPACE | UIO_SYSSPACE

record iovec =
  iov_kbase :: vaddr
  iov_len :: nat

text \<open>\<open>uio_iov\<close> holds the \<open>uio_iovcnt\<close> vectors that are left.\<close>

record uio =
  uio_iov :: "iovec list"
  uio_offset :: int
  uio_resid :: nat
  uio_segflg :: uio_seg
  uio_dir :: uio_rw
  uio_space :: ptr

text \<open>
  What \<open>uiomove\<close> takes from its surroundings: the address space of the current process and
  the user-memory copy routines (kernel address, user address, length).
\<close>

record ucopy =
  uc_space :: ptr
  uc_copyout :: "vaddr \<Rightarrow> vaddr \<Rightarrow> nat \<Rightarrow> kmem \<Rightarrow> int \<times> kmem"
  uc_copyin :: "vaddr \<Rightarrow> vaddr \<Rightarrow> nat \<Rightarrow> kmem \<Rightarrow> int \<times> kmem"

definition uio_move1 :: "ucopy \<Rightarrow> vaddr \<Rightarrow> nat \<Rightarrow> vaddr \<Rightarrow> uio \<Rightarrow> kmem \<Rightarrow> int \<times> kmem" where
  "uio_move1 uc ptr sz base u m =
     (case uio_segflg u of
        UIO_SYSSPACE \<Rightarrow>
          (0, if uio_dir u = UIO_READ then memmove base ptr sz m else memmove ptr base sz m)
      | _ \<Rightarrow> if uio_dir u = UIO_READ then uc_copyout uc ptr base sz m else uc_copyin uc base ptr sz m)"

text \<open>
  The loop of \<open>uiomove\<close>. The size of a step is limited by the vector and by \<open>n\<close>, not by
  \<open>uio_resid\<close>, whose subtraction wraps at 32 bits.
\<close>

function uiomove_loop :: "ucopy \<Rightarrow> vaddr \<Rightarrow> nat \<Rightarrow> uio \<Rightarrow> kmem \<Rightarrow> (int \<times> uio \<times> kmem) kres" where
  "uiomove_loop uc ptr n u m =
     (if 0 < n \<and> 0 < uio_resid u then
        (case uio_iov u of
           [] \<Rightarrow> Fail OutOfBounds
         | iov # rest \<Rightarrow>
             let sz = (if iov_len iov > n then n else iov_len iov)
             in if sz = 0 then
                  (if rest = [] then Fail (Panic ''uiomove: ran out of buffers'')
                   else uiomove_loop uc ptr n (u\<lparr>uio_iov := rest\<rparr>) m)
                else
                  let (result, m') = uio_move1 uc ptr sz (iov_kbase iov) u m
                  in if result \<noteq> 0 then Ok (result, u, m')
                     else uiomove_loop uc (ptr + of_nat sz) (n - sz)
                            (u\<lparr>uio_iov := \<lparr>iov_kbase = iov_kbase iov + of_nat sz,
                                           iov_len = iov_len iov - sz\<rparr> # rest,
                               uio_resid := (uio_resid u + 2 ^ 32 - sz) mod 2 ^ 32,
                               uio_offset := uio_offset u + int sz\<rparr>) m')
      else Ok (0, u, m))"
  by pat_completeness auto
termination
  by (relation "measures [\<lambda>(uc, ptr, n, u, m). n, \<lambda>(uc, ptr, n, u, m). length (uio_iov u)]") auto

declare uiomove_loop.simps [simp del]

definition uiomove :: "ucopy \<Rightarrow> vaddr \<Rightarrow> nat \<Rightarrow> uio \<Rightarrow> kmem \<Rightarrow> (int \<times> uio \<times> kmem) kres" where
  "uiomove uc ptr n u m =
     kassert (if uio_segflg u = UIO_SYSSPACE then uio_space u = NULL else uio_space u = uc_space uc)
       (uiomove_loop uc ptr n u m)"

text \<open>\<open>uiomovezeros\<close>: \<open>zeros\<close> is the address of its static array of 16 zero bytes.\<close>

function uiomovezeros_loop ::
  "ucopy \<Rightarrow> vaddr \<Rightarrow> nat \<Rightarrow> uio \<Rightarrow> kmem \<Rightarrow> (int \<times> uio \<times> kmem) kres" where
  "uiomovezeros_loop uc zeros n u m =
     (if 0 < n then
        let amt = (if 16 > n then n else 16)
        in kbind (uiomove uc zeros amt u m) (\<lambda>(result, u', m').
             if result \<noteq> 0 then Ok (result, u', m')
             else uiomovezeros_loop uc zeros (n - amt) u' m')
      else Ok (0, u, m))"
  by pat_completeness auto
termination
  by (relation "measure (\<lambda>(uc, zeros, n, u, m). n)") auto

declare uiomovezeros_loop.simps [simp del]

definition uiomovezeros :: "ucopy \<Rightarrow> vaddr \<Rightarrow> nat \<Rightarrow> uio \<Rightarrow> kmem \<Rightarrow> (int \<times> uio \<times> kmem) kres" where
  "uiomovezeros uc zeros n u m = kassert (uio_dir u = UIO_READ) (uiomovezeros_loop uc zeros n u m)"

definition uio_kinit :: "vaddr \<Rightarrow> nat \<Rightarrow> int \<Rightarrow> uio_rw \<Rightarrow> uio" where
  "uio_kinit kbuf len pos rw =
     \<lparr>uio_iov = [\<lparr>iov_kbase = kbuf, iov_len = len\<rparr>], uio_offset = pos, uio_resid = len,
      uio_segflg = UIO_SYSSPACE, uio_dir = rw, uio_space = NULL\<rparr>"

section \<open>The disk driver\<close>

type_synonym sectors = "32 word \<Rightarrow> nat \<Rightarrow> byte"

definition LHD_SECTSIZE :: nat where "LHD_SECTSIZE = 512"
definition LHD_IDLE :: "32 word" where "LHD_IDLE = 0"
definition LHD_WORKING :: "32 word" where "LHD_WORKING = 1"
definition LHD_OK :: "32 word" where "LHD_OK = 4"
definition LHD_INVSECT :: "32 word" where "LHD_INVSECT = 12"
definition LHD_MEDIA :: "32 word" where "LHD_MEDIA = 20"
definition LHD_ISWRITE :: "32 word" where "LHD_ISWRITE = 2"
definition LHD_STATEMASK :: "32 word" where "LHD_STATEMASK = 0x1d"

lemmas lhd_codes = LHD_IDLE_def LHD_WORKING_def LHD_OK_def LHD_INVSECT_def LHD_MEDIA_def
  LHD_ISWRITE_def LHD_STATEMASK_def

text \<open>
  The driver's state with its device structure. \<open>lh_hw sector statval disk buf\<close> is the
  hardware: the final status register, the disk and the on-card buffer after the command
  \<open>statval\<close> on \<open>sector\<close>.
\<close>

record lhd_softc =
  lh_buf :: vaddr
  d_blocks :: "32 word"
  d_blocksize :: "32 word"
  d_devnumber :: "32 word"
  lh_result :: int
  lh_disk :: sectors
  lh_hw :: "32 word \<Rightarrow> 32 word \<Rightarrow> sectors \<Rightarrow> (nat \<Rightarrow> byte) \<Rightarrow> 32 word \<times> sectors \<times> (nat \<Rightarrow> byte)"

definition lhd_code_to_errno :: "32 word \<Rightarrow> int" where
  "lhd_code_to_errno code =
     (let c = code AND LHD_STATEMASK
      in if c = LHD_OK then 0
         else if c = LHD_INVSECT then EINVAL
         else if c = LHD_MEDIA then EIO
         else EAGAIN)"

text \<open>
  \<open>lhd_irq\<close> on the status \<open>val\<close>: the result it hands to \<open>lhd_iodone\<close>, or nothing if the
  operation has not finished (then the thread waiting on \<open>lh_done\<close> stays blocked).
\<close>

definition lhd_irq :: "32 word \<Rightarrow> int option" where
  "lhd_irq val =
     (let c = val AND LHD_STATEMASK
      in if c = LHD_IDLE \<or> c = LHD_WORKING then None
         else if c = LHD_OK \<or> c = LHD_INVSECT \<or> c = LHD_MEDIA then Some (lhd_code_to_errno val)
         else None)"

definition lhd_eachopen :: "int \<Rightarrow> int" where
  "lhd_eachopen openflags = 0"

definition lhd_ioctl :: "int \<Rightarrow> int" where
  "lhd_ioctl cmd = EIOCTL"

text \<open>One round of the loop of \<open>lhd_io\<close>: the sector \<open>sect\<close>.\<close>

definition lhd_sector ::
  "ucopy \<Rightarrow> 32 word \<Rightarrow> 32 word \<Rightarrow> lhd_softc \<Rightarrow> uio \<Rightarrow> kmem \<Rightarrow> (int \<times> lhd_softc \<times> uio \<times> kmem) kres" where
  "lhd_sector uc statval sect lh u m =
     kbind (if uio_dir u = UIO_WRITE then uiomove uc (lh_buf lh) LHD_SECTSIZE u m else Ok (0, u, m))
       (\<lambda>(result, u, m).
          if result \<noteq> 0 then Ok (result, lh, u, m)
          else
            let (val, disk, buf) = lh_hw lh sect statval (lh_disk lh) (mem_get (lh_buf lh) m);
                m = mem_put (lh_buf lh) LHD_SECTSIZE buf m
            in (case lhd_irq val of
                  None \<Rightarrow> Fail Blocked
                | Some err \<Rightarrow>
                    let lh = lh\<lparr>lh_disk := disk, lh_result := err\<rparr>
                    in if err = 0 \<and> uio_dir u = UIO_READ
                       then kbind (uiomove uc (lh_buf lh) LHD_SECTSIZE u m) (\<lambda>(result, u, m).
                              Ok (result, lh, u, m))
                       else Ok (err, lh, u, m)))"

fun lhd_loop ::
  "nat \<Rightarrow> ucopy \<Rightarrow> 32 word \<Rightarrow> 32 word \<Rightarrow> lhd_softc \<Rightarrow> uio \<Rightarrow> kmem \<Rightarrow> (int \<times> lhd_softc \<times> uio \<times> kmem) kres" where
  "lhd_loop 0 uc statval sect lh u m = Ok (0, lh, u, m)"
| "lhd_loop (Suc k) uc statval sect lh u m =
     kbind (lhd_sector uc statval sect lh u m) (\<lambda>(result, lh, u, m).
       if result \<noteq> 0 then Ok (result, lh, u, m)
       else lhd_loop k uc statval (sect + 1) lh u m)"

definition lhd_io :: "ucopy \<Rightarrow> lhd_softc \<Rightarrow> uio \<Rightarrow> kmem \<Rightarrow> (int \<times> lhd_softc \<times> uio \<times> kmem) kres" where
  "lhd_io uc lh u m =
     (let sect = word_of_int (uio_offset u sdiv int LHD_SECTSIZE) :: 32 word;
          sectoff = word_of_int (uio_offset u smod int LHD_SECTSIZE) :: 32 word;
          len = of_nat (uio_resid u div LHD_SECTSIZE) :: 32 word;
          lenoff = of_nat (uio_resid u mod LHD_SECTSIZE) :: 32 word
      in if sectoff \<noteq> 0 \<or> lenoff \<noteq> 0 then Ok (EINVAL, lh, u, m)
         else if sect + len > d_blocks lh then Ok (EINVAL, lh, u, m)
         else
           let statval = (if uio_dir u = UIO_WRITE then LHD_WORKING OR LHD_ISWRITE else LHD_WORKING)
           in lhd_loop (unat len) uc statval sect lh u m)"

section \<open>Device vnode operations\<close>

definition O_CREAT :: int where "O_CREAT = 4"
definition O_EXCL :: int where "O_EXCL = 8"
definition O_TRUNC :: int where "O_TRUNC = 16"
definition O_APPEND :: int where "O_APPEND = 32"

definition dev_eachopen :: "lhd_softc \<Rightarrow> int \<Rightarrow> int" where
  "dev_eachopen d flags =
     (if flags AND (O_CREAT OR O_TRUNC OR O_EXCL OR O_APPEND) \<noteq> 0 then EINVAL else lhd_eachopen flags)"

definition dev_tryseek :: "lhd_softc \<Rightarrow> int \<Rightarrow> int" where
  "dev_tryseek d pos =
     (if 0 < d_blocks d then
        (if pos smod uint (d_blocksize d) \<noteq> 0 then EINVAL
         else if uint (d_blocks d) \<le> pos sdiv uint (d_blocksize d) then EINVAL
         else 0)
      else 0)"

definition dev_read :: "ucopy \<Rightarrow> lhd_softc \<Rightarrow> uio \<Rightarrow> kmem \<Rightarrow> (int \<times> lhd_softc \<times> uio \<times> kmem) kres" where
  "dev_read uc d u m =
     (let result = dev_tryseek d (uio_offset u)
      in if result \<noteq> 0 then Ok (result, d, u, m)
         else kassert (uio_dir u = UIO_READ) (lhd_io uc d u m))"

definition dev_write :: "ucopy \<Rightarrow> lhd_softc \<Rightarrow> uio \<Rightarrow> kmem \<Rightarrow> (int \<times> lhd_softc \<times> uio \<times> kmem) kres" where
  "dev_write uc d u m =
     (let result = dev_tryseek d (uio_offset u)
      in if result \<noteq> 0 then Ok (result, d, u, m)
         else kassert (uio_dir u = UIO_WRITE) (lhd_io uc d u m))"

definition dev_ioctl :: "lhd_softc \<Rightarrow> int \<Rightarrow> int" where
  "dev_ioctl d cmd = lhd_ioctl cmd"

definition S_IFBLK :: "32 word" where "S_IFBLK = 0x7000"
definition S_IFCHR :: "32 word" where "S_IFCHR = 0x6000"

definition dev_gettype :: "lhd_softc \<Rightarrow> 32 word" where
  "dev_gettype d = (if 0 < d_blocks d then S_IFBLK else S_IFCHR)"

record stat_buf =
  st_size :: int
  st_blksize :: "32 word"
  st_mode :: "32 word"
  st_nlink :: nat
  st_blocks :: "32 word"
  st_dev :: "32 word"
  st_rdev :: "32 word"

text \<open>\<open>st_size\<close> is the 32-bit product of block count and block size.\<close>

definition dev_stat :: "lhd_softc \<Rightarrow> stat_buf" where
  "dev_stat d =
     \<lparr>st_size = (if 0 < d_blocks d then uint (d_blocks d * d_blocksize d) else 0),
      st_blksize = (if 0 < d_blocks d then d_blocksize d else 0),
      st_mode = dev_gettype d OR 0x180, st_nlink = 1, st_blocks = d_blocks d, st_dev = 0,
      st_rdev = d_devnumber d\<rparr>"

definition dev_isseekable :: "lhd_softc \<Rightarrow> bool" where
  "dev_isseekable d = (if d_blocks d = 0 then False else True)"

definition dev_truncate :: "lhd_softc \<Rightarrow> int \<Rightarrow> int" where
  "dev_truncate d len =
     (if 0 < d_blocks d \<and> uint (d_blocks d * d_blocksize d) = len then 0 else EINVAL)"

text \<open>\<open>dev_lookup\<close>: only the empty path names the device itself, whose count goes up by one.\<close>

definition dev_lookup :: "nat \<Rightarrow> string \<Rightarrow> int + nat" where
  "dev_lookup refcount pathname = (if 0 < length pathname then Inl ENOENT else Inr (refcount + 1))"


section \<open>What the disk hardware promises\<close>

text \<open>
  \<open>lhd_hw_ok\<close>: every command on an existing sector completes with status OK; a write puts the
  on-card buffer on the sector and changes no other sector, a read changes no sector and leaves
  the sector's 512 bytes in the buffer.
\<close>

definition lhd_hw_ok :: "lhd_softc \<Rightarrow> bool" where
  "lhd_hw_ok lh \<longleftrightarrow>
     (\<forall>s dk buf. s < d_blocks lh \<longrightarrow>
        (\<exists>st dk' buf'. lh_hw lh s (LHD_WORKING OR LHD_ISWRITE) dk buf = (st, dk', buf')
           \<and> lhd_irq st = Some 0 \<and> (\<forall>k < 512. dk' s k = buf k) \<and> (\<forall>t. t \<noteq> s \<longrightarrow> dk' t = dk t))
      \<and> (\<exists>st dk' buf'. lh_hw lh s LHD_WORKING dk buf = (st, dk', buf')
           \<and> lhd_irq st = Some 0 \<and> (\<forall>t. dk' t = dk t) \<and> (\<forall>k < 512. buf' k = dk s k)))"

definition disk_byte :: "lhd_softc \<Rightarrow> nat \<Rightarrow> byte" where
  "disk_byte lh a = lh_disk lh (of_nat (a div 512)) (a mod 512)"

text \<open>\<open>lhd_wf\<close>: sane geometry, a buffer that does not wrap around the address space.\<close>

definition lhd_wf :: "lhd_softc \<Rightarrow> bool" where
  "lhd_wf lh \<longleftrightarrow> lhd_hw_ok lh \<and> d_blocksize lh = 512 \<and> unat (lh_buf lh) + 512 \<le> 2 ^ 32"

definition same_dev :: "lhd_softc \<Rightarrow> lhd_softc \<Rightarrow> bool" where
  "same_dev lh lh' \<longleftrightarrow> lh' = lh\<lparr>lh_disk := lh_disk lh', lh_result := lh_result lh'\<rparr>"

definition below_buf :: "lhd_softc \<Rightarrow> vaddr \<Rightarrow> nat \<Rightarrow> bool" where
  "below_buf lh kb n \<longleftrightarrow> unat kb + n \<le> unat (lh_buf lh)"

definition in_buf :: "lhd_softc \<Rightarrow> vaddr \<Rightarrow> bool" where
  "in_buf lh a \<longleftrightarrow> unat (a - lh_buf lh) < 512"

lemma same_dev_simps:
  assumes "same_dev lh lh'"
  shows "lh_buf lh' = lh_buf lh" "d_blocks lh' = d_blocks lh" "lh_hw lh' = lh_hw lh"
    "lhd_hw_ok lh' = lhd_hw_ok lh" "lhd_wf lh' = lhd_wf lh" "below_buf lh' = below_buf lh"
    "in_buf lh' = in_buf lh"
proof -
  obtain dk r where lh': "lh' = lh\<lparr>lh_disk := dk, lh_result := r\<rparr>"
    using assms by (metis same_dev_def)
  show "lh_buf lh' = lh_buf lh" "d_blocks lh' = d_blocks lh" "lh_hw lh' = lh_hw lh"
    "lhd_hw_ok lh' = lhd_hw_ok lh" "lhd_wf lh' = lhd_wf lh" "below_buf lh' = below_buf lh"
    "in_buf lh' = in_buf lh"
    by (auto simp: lh' lhd_hw_ok_def lhd_wf_def below_buf_def in_buf_def fun_eq_iff)
qed

lemma same_dev_refl [simp, intro]: "same_dev lh lh"
  by (simp add: same_dev_def)

lemma same_dev_upd [simp]: "same_dev lh (lh\<lparr>lh_disk := dk, lh_result := r\<rparr>)"
  by (simp add: same_dev_def)

lemma same_dev_trans [trans]: "same_dev a b \<Longrightarrow> same_dev b c \<Longrightarrow> same_dev a c"
  unfolding same_dev_def by (cases a; cases b; cases c) simp

section \<open>Transfers of whole sectors\<close>

lemma resid_step: "512 \<le> n \<Longrightarrow> n < 2 ^ 32 \<Longrightarrow> (n + 2 ^ 32 - 512) mod 2 ^ 32 = n - (512::nat)"
proof -
  assume n: "512 \<le> n" "n < 2 ^ 32"
  then have "n + 2 ^ 32 - 512 = (n - 512) + 2 ^ 32" by simp
  moreover have "((n - 512) + 2 ^ 32) mod 2 ^ 32 = n - (512::nat)"
    using n by (simp only: mod_add_self2 mod_less)
  ultimately show ?thesis by argo
qed

lemma uiomove_sector:
  assumes "512 \<le> n" "n < 2 ^ 32"
  shows "uiomove uc buf 512 (uio_kinit kb n off rw) m =
    Ok (0, uio_kinit (kb + 512) (n - 512) (off + 512) rw,
        if rw = UIO_READ then memmove kb buf 512 m else memmove buf kb 512 m)"
  using assms resid_step [OF assms]
  by (simp add: uiomove_def uio_kinit_def uio_move1_def uiomove_loop.simps)

text \<open>A page or a run of sectors at \<open>kb\<close> that lies below the card's buffer.\<close>

lemma below_buf_index:
  assumes "below_buf lh kb n" "j < n"
  shows "unat (kb + of_nat j) = unat kb + j"
  using assms unat_lt_32 [of "lh_buf lh"] by (intro unat_plus_nat) (simp add: below_buf_def)

lemma in_buf_iff:
  "lhd_wf lh \<Longrightarrow> in_buf lh a \<longleftrightarrow> unat (lh_buf lh) \<le> unat a \<and> unat a < unat (lh_buf lh) + 512"
  by (simp add: lhd_wf_def in_buf_def unat_sub_less_iff)

lemma below_buf_area:
  "below_buf lh kb n \<Longrightarrow> unat (a - kb) < n \<longleftrightarrow> unat kb \<le> unat a \<and> unat a < unat kb + n"
  using unat_lt_32 [of "lh_buf lh"] by (intro unat_sub_less_iff) (simp add: below_buf_def)

lemma lhd_wf_write:
  "lhd_wf lh \<Longrightarrow> s < d_blocks lh \<Longrightarrow>
     \<exists>st dk' buf'. lh_hw lh s (LHD_WORKING OR LHD_ISWRITE) dk buf = (st, dk', buf')
       \<and> lhd_irq st = Some 0 \<and> (\<forall>k < 512. dk' s k = buf k) \<and> (\<forall>t. t \<noteq> s \<longrightarrow> dk' t = dk t)"
  by (simp add: lhd_wf_def lhd_hw_ok_def)

lemma lhd_wf_read:
  "lhd_wf lh \<Longrightarrow> s < d_blocks lh \<Longrightarrow>
     \<exists>st dk' buf'. lh_hw lh s LHD_WORKING dk buf = (st, dk', buf')
       \<and> lhd_irq st = Some 0 \<and> (\<forall>t. dk' t = dk t) \<and> (\<forall>k < 512. buf' k = dk s k)"
  by (simp add: lhd_wf_def lhd_hw_ok_def)

lemma lhd_sector_write:
  assumes wf: "lhd_wf lh" and s: "sect < d_blocks lh" and n: "512 \<le> n" "below_buf lh kb n"
  obtains lh' m' where
    "lhd_sector uc (LHD_WORKING OR LHD_ISWRITE) sect lh (uio_kinit kb n off UIO_WRITE) m =
       Ok (0, lh', uio_kinit (kb + 512) (n - 512) (off + 512) UIO_WRITE, m')"
    and "same_dev lh lh'" "\<forall>k < 512. lh_disk lh' sect k = m (kb + of_nat k)"
    and "\<forall>t. t \<noteq> sect \<longrightarrow> lh_disk lh' t = lh_disk lh t" "\<forall>a. \<not> in_buf lh a \<longrightarrow> m' a = m a"
proof -
  let ?b = "lh_buf lh" and ?m1 = "memmove (lh_buf lh) kb 512 m"
  have n32: "n < 2 ^ 32" using n unat_lt_32 [of ?b] by (simp add: below_buf_def)
  from wf s obtain st dk' buf' where hw:
      "lh_hw lh sect (LHD_WORKING OR LHD_ISWRITE) (lh_disk lh) (mem_get ?b ?m1) = (st, dk', buf')"
      "lhd_irq st = Some 0" "\<forall>k < 512. dk' sect k = mem_get ?b ?m1 k"
      "\<forall>t. t \<noteq> sect \<longrightarrow> dk' t = lh_disk lh t"
    using lhd_wf_write [OF wf s, of "lh_disk lh" "mem_get ?b ?m1"] by blast
  let ?lh' = "lh\<lparr>lh_disk := dk', lh_result := 0\<rparr>" and ?m2 = "mem_put ?b 512 buf' ?m1"
  show thesis
  proof (rule that)
    show "lhd_sector uc (LHD_WORKING OR LHD_ISWRITE) sect lh (uio_kinit kb n off UIO_WRITE) m =
       Ok (0, ?lh', uio_kinit (kb + 512) (n - 512) (off + 512) UIO_WRITE, ?m2)"
      using uiomove_sector [OF n(1) n32, of uc ?b kb off UIO_WRITE m] hw(1,2)
      by (simp add: lhd_sector_def LHD_SECTSIZE_def uio_kinit_def)
    show "\<forall>k < 512. lh_disk ?lh' sect k = m (kb + of_nat k)"
      using hw(3) by (simp add: mem_get_def memmove_def)
    show "\<forall>a. \<not> in_buf lh a \<longrightarrow> ?m2 a = m a"
      by (simp add: in_buf_def mem_put_def memmove_def)
  qed (use hw in simp_all)
qed

lemma lhd_sector_read:
  assumes wf: "lhd_wf lh" and s: "sect < d_blocks lh" and n: "512 \<le> n" "below_buf lh kb n"
  obtains lh' m' where
    "lhd_sector uc LHD_WORKING sect lh (uio_kinit kb n off UIO_READ) m =
       Ok (0, lh', uio_kinit (kb + 512) (n - 512) (off + 512) UIO_READ, m')"
    and "same_dev lh lh'" "lh_disk lh' = lh_disk lh"
    and "\<forall>k < 512. m' (kb + of_nat k) = lh_disk lh sect k"
    and "\<forall>a. \<not> in_buf lh a \<longrightarrow> \<not> unat (a - kb) < 512 \<longrightarrow> m' a = m a"
proof -
  let ?b = "lh_buf lh"
  have n32: "n < 2 ^ 32" using n unat_lt_32 [of ?b] by (simp add: below_buf_def)
  from wf s obtain st dk' buf' where hw:
      "lh_hw lh sect LHD_WORKING (lh_disk lh) (mem_get ?b m) = (st, dk', buf')"
      "lhd_irq st = Some 0" "\<forall>t. dk' t = lh_disk lh t" "\<forall>k < 512. buf' k = lh_disk lh sect k"
    using lhd_wf_read [OF wf s, of "lh_disk lh" "mem_get ?b m"] by blast
  let ?lh' = "lh\<lparr>lh_disk := dk', lh_result := 0\<rparr>" and ?m1 = "mem_put ?b 512 buf' m"
  let ?m2 = "memmove kb ?b 512 ?m1"
  show thesis
  proof (rule that)
    show "lhd_sector uc LHD_WORKING sect lh (uio_kinit kb n off UIO_READ) m =
       Ok (0, ?lh', uio_kinit (kb + 512) (n - 512) (off + 512) UIO_READ, ?m2)"
      using uiomove_sector [OF n(1) n32, of uc ?b kb off UIO_READ ?m1] hw(1,2)
      by (simp add: lhd_sector_def LHD_SECTSIZE_def uio_kinit_def)
    show "\<forall>k < 512. ?m2 (kb + of_nat k) = lh_disk lh sect k"
      using hw(4) by (simp add: mem_put_def memmove_def)
    show "\<forall>a. \<not> in_buf lh a \<longrightarrow> \<not> unat (a - kb) < 512 \<longrightarrow> ?m2 a = m a"
      by (simp add: in_buf_def mem_put_def memmove_def)
    show "lh_disk ?lh' = lh_disk lh" using hw(3) by auto
  qed (use hw in simp_all)
qed

lemma below_buf_not_in_buf: "lhd_wf lh \<Longrightarrow> below_buf lh kb n \<Longrightarrow> j < n \<Longrightarrow> \<not> in_buf lh (kb + of_nat j)"
  by (simp add: in_buf_iff below_buf_index) (simp add: below_buf_def)

lemma below_buf_shift: "below_buf lh kb (512 + n) \<Longrightarrow> below_buf lh (kb + 512) n"
  using unat_plus_nat [of kb 512] unat_lt_32 [of "lh_buf lh"] by (simp add: below_buf_def)

lemma next_sector:
  fixes t sect :: "32 word"
  assumes "\<not> unat (t - sect) < Suc k"
  shows "t \<noteq> sect" "\<not> unat (t - (sect + 1)) < k"
proof -
  show "t \<noteq> sect" using assms by auto
  then have "unat ((t - sect) - 1) = unat (t - sect) - 1" by (intro unat_minus_one) simp
  then show "\<not> unat (t - (sect + 1)) < k" using assms by (simp add: algebra_simps)
qed

lemma prev_sector: "k < 4294967296 \<Longrightarrow> \<not> unat (sect - (sect + 1) :: 32 word) < k"
  by (simp add: unsigned_minus_1_eq_mask mask_eq_exp_minus_1)

lemma lhd_loop_write:
  assumes "lhd_wf lh" "unat sect + k \<le> unat (d_blocks lh)" "below_buf lh kb (512 * k)"
  shows "\<exists>lh' u' m'. lhd_loop k uc (LHD_WORKING OR LHD_ISWRITE) sect lh (uio_kinit kb (512 * k) off UIO_WRITE) m =
       Ok (0, lh', u', m') \<and> same_dev lh lh'
     \<and> (\<forall>j < k. \<forall>i < 512. lh_disk lh' (sect + of_nat j) i = m (kb + of_nat (512 * j + i)))
     \<and> (\<forall>t. \<not> unat (t - sect) < k \<longrightarrow> lh_disk lh' t = lh_disk lh t)
     \<and> (\<forall>a. \<not> in_buf lh a \<longrightarrow> m' a = m a)"
  using assms
proof (induction k arbitrary: sect lh kb off m)
  case 0
  then show ?case by auto
next
  case (Suc k)
  have k: "k < 4294967296" using Suc.prems(2) unat_lt_32 [of "d_blocks lh"] by simp
  have s: "sect < d_blocks lh" using Suc.prems(2) by (simp add: word_less_nat_alt)
  then have s1: "unat (sect + 1) + k \<le> unat (d_blocks lh)"
    using Suc.prems(2) unat_plus_nat [of sect 1] unat_lt_32 [of "d_blocks lh"] by simp
  obtain lh1 m1 where 1:
      "lhd_sector uc (LHD_WORKING OR LHD_ISWRITE) sect lh (uio_kinit kb (512 * Suc k) off UIO_WRITE) m =
         Ok (0, lh1, uio_kinit (kb + 512) (512 * k) (off + 512) UIO_WRITE, m1)"
      "same_dev lh lh1" "\<forall>i < 512. lh_disk lh1 sect i = m (kb + of_nat i)"
      "\<forall>t. t \<noteq> sect \<longrightarrow> lh_disk lh1 t = lh_disk lh t" "\<forall>a. \<not> in_buf lh a \<longrightarrow> m1 a = m a"
    using lhd_sector_write [OF Suc.prems(1) s, of "512 * Suc k" kb uc off m] Suc.prems(3) by auto
  note sd = same_dev_simps [OF 1(2)]
  have b1: "below_buf lh1 (kb + 512) (512 * k)"
    using below_buf_shift [of lh kb "512 * k"] Suc.prems(3) by (simp add: sd)
  obtain lh2 u2 m2 where 2:
      "lhd_loop k uc (LHD_WORKING OR LHD_ISWRITE) (sect + 1) lh1
         (uio_kinit (kb + 512) (512 * k) (off + 512) UIO_WRITE) m1 = Ok (0, lh2, u2, m2)"
      "same_dev lh1 lh2"
      "\<forall>j < k. \<forall>i < 512. lh_disk lh2 (sect + 1 + of_nat j) i = m1 (kb + 512 + of_nat (512 * j + i))"
      "\<forall>t. \<not> unat (t - (sect + 1)) < k \<longrightarrow> lh_disk lh2 t = lh_disk lh1 t"
      "\<forall>a. \<not> in_buf lh1 a \<longrightarrow> m2 a = m1 a"
    using Suc.IH [of lh1 "sect + 1" "kb + 512" "off + 512" m1] Suc.prems(1) s1 b1 by (auto simp: sd)
  have rows: "lh_disk lh2 (sect + of_nat j) i = m (kb + of_nat (512 * j + i))"
    if "j < Suc k" "i < 512" for j i
  proof (cases j)
    case 0
    then show ?thesis using 1(3) 2(4) prev_sector [OF k] that by simp
  next
    case (Suc l)
    then have "512 * j + i < 512 * Suc k" using that by simp
    then have "m1 (kb + of_nat (512 * j + i)) = m (kb + of_nat (512 * j + i))"
      using 1(5) below_buf_not_in_buf [OF Suc.prems(1,3)] by blast
    moreover have "lh_disk lh2 (sect + 1 + of_nat l) i = m1 (kb + 512 + of_nat (512 * l + i))"
      using 2(3) Suc that by simp
    ultimately show ?thesis using Suc by (simp add: ac_simps)
  qed
  show ?case
    using 1(1,4,5) 2(1,4,5) rows same_dev_trans [OF 1(2) 2(2)] next_sector
    by (auto simp: sd)
qed

lemma lhd_loop_read:
  assumes "lhd_wf lh" "unat sect + k \<le> unat (d_blocks lh)" "below_buf lh kb (512 * k)"
  shows "\<exists>lh' u' m'. lhd_loop k uc LHD_WORKING sect lh (uio_kinit kb (512 * k) off UIO_READ) m =
       Ok (0, lh', u', m') \<and> same_dev lh lh' \<and> lh_disk lh' = lh_disk lh
     \<and> (\<forall>j < k. \<forall>i < 512. m' (kb + of_nat (512 * j + i)) = lh_disk lh (sect + of_nat j) i)
     \<and> (\<forall>a. \<not> in_buf lh a \<longrightarrow> \<not> unat (a - kb) < 512 * k \<longrightarrow> m' a = m a)"
  using assms
proof (induction k arbitrary: sect lh kb off m)
  case 0
  then show ?case by auto
next
  case (Suc k)
  have s: "sect < d_blocks lh" using Suc.prems(2) by (simp add: word_less_nat_alt)
  then have s1: "unat (sect + 1) + k \<le> unat (d_blocks lh)"
    using Suc.prems(2) unat_plus_nat [of sect 1] unat_lt_32 [of "d_blocks lh"] by simp
  obtain lh1 m1 where 1:
      "lhd_sector uc LHD_WORKING sect lh (uio_kinit kb (512 * Suc k) off UIO_READ) m =
         Ok (0, lh1, uio_kinit (kb + 512) (512 * k) (off + 512) UIO_READ, m1)"
      "same_dev lh lh1" "lh_disk lh1 = lh_disk lh"
      "\<forall>i < 512. m1 (kb + of_nat i) = lh_disk lh sect i"
      "\<forall>a. \<not> in_buf lh a \<longrightarrow> \<not> unat (a - kb) < 512 \<longrightarrow> m1 a = m a"
    using lhd_sector_read [OF Suc.prems(1) s, of "512 * Suc k" kb uc off m] Suc.prems(3) by auto
  note sd = same_dev_simps [OF 1(2)]
  have bk: "below_buf lh (kb + 512) (512 * k)"
    using below_buf_shift [of lh kb "512 * k"] Suc.prems(3) by simp
  obtain lh2 u2 m2 where 2:
      "lhd_loop k uc LHD_WORKING (sect + 1) lh1
         (uio_kinit (kb + 512) (512 * k) (off + 512) UIO_READ) m1 = Ok (0, lh2, u2, m2)"
      "same_dev lh1 lh2" "lh_disk lh2 = lh_disk lh1"
      "\<forall>j < k. \<forall>i < 512. m2 (kb + 512 + of_nat (512 * j + i)) = lh_disk lh1 (sect + 1 + of_nat j) i"
      "\<forall>a. \<not> in_buf lh1 a \<longrightarrow> \<not> unat (a - (kb + 512)) < 512 * k \<longrightarrow> m2 a = m1 a"
    using Suc.IH [of lh1 "sect + 1" "kb + 512" "off + 512" m1] Suc.prems(1) s1 bk by (auto simp: sd)
  have kb512: "unat (kb + 512) = unat kb + 512"
    using unat_plus_nat [of kb 512] Suc.prems(3) unat_lt_32 [of "lh_buf lh"] by (simp add: below_buf_def)
  have split: "unat (a - (kb + 512)) < 512 * k \<longrightarrow> unat (a - kb) < 512 * Suc k"
      "unat (a - kb) < 512 \<longrightarrow> unat (a - kb) < 512 * Suc k" for a
    using below_buf_area [OF bk, of a] below_buf_area [OF Suc.prems(3), of a] kb512 by auto
  have rows: "m2 (kb + of_nat (512 * j + i)) = lh_disk lh (sect + of_nat j) i"
    if "j < Suc k" "i < 512" for j i
  proof (cases j)
    case 0
    have "\<not> in_buf lh (kb + of_nat i)"
      using below_buf_not_in_buf [OF Suc.prems(1,3)] that by simp
    moreover have "\<not> unat (kb + of_nat i - (kb + 512)) < 512 * k"
      unfolding below_buf_area [OF bk] using kb512 below_buf_index [OF Suc.prems(3), of i] that by simp
    ultimately show ?thesis using 0 1(4) 2(5) that by (simp add: sd)
  next
    case (Suc l)
    then show ?thesis using 2(4) 1(3) that by (simp add: ac_simps)
  qed
  have frame: "m2 a = m a" if "\<not> in_buf lh a" "\<not> unat (a - kb) < 512 * Suc k" for a
    using that split [of a] 1(5) 2(5) by (metis sd(7))
  show ?case
    using 1(1,3) 2(1,3) rows frame same_dev_trans [OF 1(2) 2(2)] by auto
qed

section \<open>Whole pages\<close>

text \<open>
  The pair of calls with which the swap file transfers one page: \<open>uio_kinit\<close> on the page's
  kernel address and a read or write of the device's vnode.
\<close>

definition read_page :: "ucopy \<Rightarrow> lhd_softc \<Rightarrow> 32 word \<Rightarrow> vaddr \<Rightarrow> kmem \<Rightarrow> (int \<times> lhd_softc \<times> kmem) kres" where
  "read_page uc d off kb m =
     kbind (dev_read uc d (uio_kinit kb 4096 (uint off) UIO_READ) m) (\<lambda>(r, d, u, m). Ok (r, d, m))"

definition write_page :: "ucopy \<Rightarrow> lhd_softc \<Rightarrow> 32 word \<Rightarrow> vaddr \<Rightarrow> kmem \<Rightarrow> (int \<times> lhd_softc \<times> kmem) kres" where
  "write_page uc d off kb m =
     kbind (dev_write uc d (uio_kinit kb 4096 (uint off) UIO_WRITE) m) (\<lambda>(r, d, u, m). Ok (r, d, m))"

text \<open>The page stored at byte offset \<open>off\<close>, and the page-aligned offsets on the disk.\<close>

definition disk_page :: "lhd_softc \<Rightarrow> 32 word \<Rightarrow> nat \<Rightarrow> byte" where
  "disk_page lh off k = lh_disk lh (of_nat (unat off div 512 + k div 512)) (k mod 512)"

definition page_off :: "lhd_softc \<Rightarrow> 32 word \<Rightarrow> bool" where
  "page_off lh off \<longleftrightarrow> unat off mod 4096 = 0 \<and> unat off div 512 + 8 \<le> unat (d_blocks lh)"

lemma page_off_sector:
  assumes "page_off lh off"
  shows "unat off mod 512 = 0" "uint off smod 512 = 0"
    "word_of_int (uint off sdiv 512) = (of_nat (unat off div 512) :: 32 word)"
    "unat (of_nat (unat off div 512) :: 32 word) = unat off div 512"
proof -
  show m: "unat off mod 512 = 0"
    using assms by (auto simp: page_off_def mod_eq_0_iff_dvd intro: dvd_trans [of 512 4096])
  define n where "n = unat off"
  have u: "uint off = int n" by (simp add: n_def)
  show "uint off smod 512 = 0"
    using m zmod_int [of n 512] by (simp add: u smod_nonneg flip: n_def)
  have "int n sdiv 512 = int (n div 512)" by (simp add: sdiv_nonneg zdiv_int)
  then show "word_of_int (uint off sdiv 512) = (of_nat (unat off div 512) :: 32 word)"
    by (simp only: u n_def of_int_of_nat_eq)
  show "unat (of_nat (unat off div 512) :: 32 word) = unat off div 512"
    using unat_lt_32 [of off] by simp
qed

lemma page_off_seek:
  assumes "lhd_wf lh" "page_off lh off"
  shows "dev_tryseek lh (uint off) = 0"
proof -
  have "int (unat off div 512) < int (unat (d_blocks lh))"
    using assms(2) unfolding of_nat_less_iff by (simp add: page_off_def)
  then have "uint off sdiv 512 < uint (d_blocks lh)"
    using zdiv_int [of "unat off" 512] by (simp add: sdiv_nonneg)
  then show ?thesis
    using assms page_off_sector [OF assms(2)] by (simp add: dev_tryseek_def lhd_wf_def)
qed

lemma lhd_io_page:
  assumes "lhd_wf lh" "page_off lh off"
  shows "lhd_io uc lh (uio_kinit kb 4096 (uint off) rw) m =
    lhd_loop 8 uc (if rw = UIO_WRITE then LHD_WORKING OR LHD_ISWRITE else LHD_WORKING)
      (of_nat (unat off div 512)) lh (uio_kinit kb 4096 (uint off) rw) m"
proof -
  let ?s = "of_nat (unat off div 512) :: 32 word"
  have "unat (?s + of_nat 8) = unat off div 512 + 8"
    using assms(2) unat_lt_32 [of "d_blocks lh"] page_off_sector(4) [OF assms(2)]
    by (subst unat_plus_nat) (auto simp: page_off_def)
  then have "\<not> d_blocks lh < ?s + 8"
    using assms(2) by (simp add: page_off_def word_less_nat_alt)
  then show ?thesis
    using page_off_sector [OF assms(2)]
    by (simp add: lhd_io_def uio_kinit_def LHD_SECTSIZE_def)
qed

lemma page_rows:
  assumes "k < (4096 :: nat)"
  shows "k div 512 < 8" "k mod 512 < 512" "512 * (k div 512) + k mod 512 = k"
  using assms by auto

lemma read_page_ok:
  assumes "lhd_wf lh" "page_off lh off" "below_buf lh kb 4096"
  shows "\<exists>lh' m'. read_page uc lh off kb m = Ok (0, lh', m') \<and> same_dev lh lh' \<and> disk_page lh' = disk_page lh
     \<and> (\<forall>k < 4096. mem_get kb m' k = disk_page lh off k)
     \<and> (\<forall>a. \<not> in_buf lh a \<longrightarrow> \<not> unat (a - kb) < 4096 \<longrightarrow> m' a = m a)"
proof -
  let ?s = "of_nat (unat off div 512) :: 32 word"
  have "unat ?s + 8 \<le> unat (d_blocks lh)"
    using assms(2) page_off_sector(4) [OF assms(2)] by (simp add: page_off_def)
  then obtain lh' u' m' where L:
      "lhd_loop 8 uc LHD_WORKING ?s lh (uio_kinit kb 4096 (uint off) UIO_READ) m = Ok (0, lh', u', m')"
      "same_dev lh lh'" "lh_disk lh' = lh_disk lh"
      "\<forall>j < 8. \<forall>i < 512. m' (kb + of_nat (512 * j + i)) = lh_disk lh (?s + of_nat j) i"
      "\<forall>a. \<not> in_buf lh a \<longrightarrow> \<not> unat (a - kb) < 4096 \<longrightarrow> m' a = m a"
    using lhd_loop_read [OF assms(1), of ?s 8 kb uc "uint off" m] assms(3) by auto
  have "mem_get kb m' k = disk_page lh off k" if "k < 4096" for k
    using L(4) [rule_format, OF page_rows(1,2) [OF that]] unfolding page_rows(3) [OF that]
    by (simp add: disk_page_def mem_get_def)
  moreover have "disk_page lh' = disk_page lh" using L(3) by (simp add: disk_page_def fun_eq_iff)
  moreover have "read_page uc lh off kb m = Ok (0, lh', m')"
    using L(1) lhd_io_page [OF assms(1,2), of uc kb UIO_READ m] page_off_seek [OF assms(1,2)]
    by (simp add: read_page_def dev_read_def uio_kinit_def)
  ultimately show ?thesis using L(2,5) by blast
qed

lemma page_sectors_apart:
  assumes "page_off lh off" "page_off lh off'" "off' \<noteq> off" "i < 8"
  shows "\<not> unat (of_nat (unat off' div 512 + i) - of_nat (unat off div 512) :: 32 word) < 8"
proof -
  obtain q q' where q: "unat off = 4096 * q" "unat off' = 4096 * q'"
    using assms(1,2) unfolding page_off_def by (meson dvdE mod_0_imp_dvd)
  then have ne: "q \<noteq> q'" using assms(3) by (metis word_unat_eq_iff)
  have "unat off' div 512 + i < 4294967296"
    using assms(2,4) unat_lt_32 [of "d_blocks lh"] by (simp add: page_off_def)
  then have "unat (of_nat (unat off' div 512 + i) :: 32 word) = 8 * q' + i"
    using q by (subst unat_of_nat_32) auto
  moreover have "unat (of_nat (unat off div 512) :: 32 word) = 8 * q"
    using q page_off_sector(4) [OF assms(1)] by simp
  moreover have "8 * q + 8 \<le> 4294967296"
    using assms(1) q unat_lt_32 [of "d_blocks lh"] by (simp add: page_off_def)
  ultimately show ?thesis using ne assms(4) by (subst unat_sub_less_iff) auto
qed

lemma write_page_ok:
  assumes "lhd_wf lh" "page_off lh off" "below_buf lh kb 4096"
  shows "\<exists>lh' m'. write_page uc lh off kb m = Ok (0, lh', m') \<and> same_dev lh lh'
     \<and> (\<forall>k < 4096. disk_page lh' off k = mem_get kb m k)
     \<and> (\<forall>off'. page_off lh off' \<longrightarrow> off' \<noteq> off \<longrightarrow> (\<forall>k < 4096. disk_page lh' off' k = disk_page lh off' k))
     \<and> (\<forall>a. \<not> in_buf lh a \<longrightarrow> m' a = m a)"
proof -
  let ?s = "of_nat (unat off div 512) :: 32 word"
  have "unat ?s + 8 \<le> unat (d_blocks lh)"
    using assms(2) page_off_sector(4) [OF assms(2)] by (simp add: page_off_def)
  then obtain lh' u' m' where L:
      "lhd_loop 8 uc (LHD_WORKING OR LHD_ISWRITE) ?s lh (uio_kinit kb 4096 (uint off) UIO_WRITE) m = Ok (0, lh', u', m')"
      "same_dev lh lh'"
      "\<forall>j < 8. \<forall>i < 512. lh_disk lh' (?s + of_nat j) i = m (kb + of_nat (512 * j + i))"
      "\<forall>t. \<not> unat (t - ?s) < 8 \<longrightarrow> lh_disk lh' t = lh_disk lh t"
      "\<forall>a. \<not> in_buf lh a \<longrightarrow> m' a = m a"
    using lhd_loop_write [OF assms(1), of ?s 8 kb uc "uint off" m] assms(3) by auto
  have "disk_page lh' off k = mem_get kb m k" if "k < 4096" for k
    using L(3) [rule_format, OF page_rows(1,2) [OF that]] unfolding page_rows(3) [OF that]
    by (simp add: disk_page_def mem_get_def)
  moreover have "disk_page lh' off' k = disk_page lh off' k"
    if "page_off lh off'" "off' \<noteq> off" "k < 4096" for off' k
    using L(4) page_sectors_apart [OF assms(2) that(1,2) page_rows(1) [OF that(3)]]
    by (simp add: disk_page_def)
  moreover have "write_page uc lh off kb m = Ok (0, lh', m')"
    using L(1) lhd_io_page [OF assms(1,2), of uc kb UIO_WRITE m] page_off_seek [OF assms(1,2)]
    by (simp add: write_page_def dev_write_def uio_kinit_def)
  ultimately show ?thesis using L(2,5) by blast
qed

section \<open>The contract of a page device\<close>

text \<open>
  What the swap file needs of the device below it. \<open>pg d o\<close> is the page stored at offset
  \<open>o\<close>, \<open>slot d o\<close> says that \<open>o\<close> is a page of the device, \<open>room d kb\<close> that the
  page of memory at \<open>kb\<close> may be transferred, \<open>scratch d a\<close> that the address \<open>a\<close> belongs to
  the device's own buffer, \<open>eqd\<close> that two states belong to the same device.
\<close>

locale page_device =
  fixes rd wr :: "'d \<Rightarrow> 32 word \<Rightarrow> vaddr \<Rightarrow> kmem \<Rightarrow> (int \<times> 'd \<times> kmem) kres"
    and wf :: "'d \<Rightarrow> bool" and pg :: "'d \<Rightarrow> 32 word \<Rightarrow> nat \<Rightarrow> byte"
    and slot :: "'d \<Rightarrow> 32 word \<Rightarrow> bool" and room :: "'d \<Rightarrow> vaddr \<Rightarrow> bool"
    and scratch :: "'d \<Rightarrow> vaddr \<Rightarrow> bool" and eqd :: "'d \<Rightarrow> 'd \<Rightarrow> bool"
  assumes eqd_same: "eqd d d' \<Longrightarrow> wf d' = wf d \<and> slot d' = slot d \<and> room d' = room d \<and> scratch d' = scratch d"
    and eqd_trans: "eqd d1 d2 \<Longrightarrow> eqd d2 d3 \<Longrightarrow> eqd d1 d3"
    and room_apart: "wf d \<Longrightarrow> room d kb \<Longrightarrow> k < 4096 \<Longrightarrow> \<not> scratch d (kb + of_nat k)"
    and rd_ok: "wf d \<Longrightarrow> slot d off \<Longrightarrow> room d kb \<Longrightarrow>
      \<exists>d' m'. rd d off kb m = Ok (0, d', m') \<and> eqd d d' \<and> pg d' = pg d
        \<and> (\<forall>k < 4096. mem_get kb m' k = pg d off k)
        \<and> (\<forall>a. \<not> scratch d a \<longrightarrow> \<not> unat (a - kb) < 4096 \<longrightarrow> m' a = m a)"
    and wr_ok: "wf d \<Longrightarrow> slot d off \<Longrightarrow> room d kb \<Longrightarrow>
      \<exists>d' m'. wr d off kb m = Ok (0, d', m') \<and> eqd d d'
        \<and> (\<forall>k < 4096. pg d' off k = mem_get kb m k)
        \<and> (\<forall>off'. slot d off' \<longrightarrow> off' \<noteq> off \<longrightarrow> (\<forall>k < 4096. pg d' off' k = pg d off' k))
        \<and> (\<forall>a. \<not> scratch d a \<longrightarrow> m' a = m a)"
begin

lemma wr_rd:
  assumes "wf d" "slot d off" "room d kb" "room d kb'"
  shows "\<exists>d1 m1 d2 m2. wr d off kb m = Ok (0, d1, m1) \<and> rd d1 off kb' m1 = Ok (0, d2, m2)
    \<and> (\<forall>k < 4096. mem_get kb' m2 k = mem_get kb m k)"
proof -
  obtain d1 m1 where 1: "wr d off kb m = Ok (0, d1, m1)" "eqd d d1"
      "\<forall>k < 4096. pg d1 off k = mem_get kb m k"
    using wr_ok [OF assms(1-3), of m] by blast
  then have "wf d1" "slot d1 off" "room d1 kb'" using assms eqd_same by simp_all
  then show ?thesis using rd_ok [of d1 off kb' m1] 1 by fastforce
qed

lemma rd_wr:
  assumes "wf d" "slot d off" "slot d off'" "room d kb"
  shows "\<exists>d1 m1 d2 m2. rd d off kb m = Ok (0, d1, m1) \<and> wr d1 off' kb m1 = Ok (0, d2, m2)
    \<and> eqd d d2 \<and> (\<forall>k < 4096. pg d2 off' k = pg d off k)
    \<and> (\<forall>o2. slot d o2 \<longrightarrow> o2 \<noteq> off' \<longrightarrow> (\<forall>k < 4096. pg d2 o2 k = pg d o2 k))
    \<and> (\<forall>a. \<not> scratch d a \<longrightarrow> \<not> unat (a - kb) < 4096 \<longrightarrow> m2 a = m a)"
proof -
  obtain d1 m1 where 1: "rd d off kb m = Ok (0, d1, m1)" "eqd d d1" "pg d1 = pg d"
      "\<forall>k < 4096. mem_get kb m1 k = pg d off k"
      "\<forall>a. \<not> scratch d a \<longrightarrow> \<not> unat (a - kb) < 4096 \<longrightarrow> m1 a = m a"
    using rd_ok [OF assms(1,2,4), of m] by blast
  then have s: "wf d1" "slot d1 = slot d" "room d1 = room d" "scratch d1 = scratch d"
    using assms eqd_same by simp_all
  obtain d2 m2 where 2: "wr d1 off' kb m1 = Ok (0, d2, m2)" "eqd d1 d2"
      "\<forall>k < 4096. pg d2 off' k = mem_get kb m1 k"
      "\<forall>o2. slot d1 o2 \<longrightarrow> o2 \<noteq> off' \<longrightarrow> (\<forall>k < 4096. pg d2 o2 k = pg d1 o2 k)"
      "\<forall>a. \<not> scratch d1 a \<longrightarrow> m2 a = m1 a"
    using wr_ok [of d1 off' kb m1] s assms by auto
  show ?thesis using 1 2 s eqd_trans [OF 1(2) 2(2)] by auto
qed

end

interpretation lhd_pages: page_device "read_page uc" "write_page uc" lhd_wf disk_page page_off
  "\<lambda>d kb. below_buf d kb 4096" in_buf same_dev for uc
proof unfold_locales
  fix d d' assume "same_dev d d'"
  then show "lhd_wf d' = lhd_wf d \<and> page_off d' = page_off d
      \<and> (\<lambda>kb. below_buf d' kb 4096) = (\<lambda>kb. below_buf d kb 4096) \<and> in_buf d' = in_buf d"
    by (auto simp: page_off_def fun_eq_iff same_dev_simps)
qed (fact same_dev_trans below_buf_not_in_buf read_page_ok write_page_ok)+

section \<open>Properties\<close>

text \<open>
  A page written to the swap disk and read back, possibly to another place in memory, is
  the same 4096 bytes, through the device vnode, the driver's loop over sectors and its buffer.
\<close>

theorem disk_page_roundtrip:
  assumes "lhd_wf d" "page_off d off" "below_buf d kb 4096" "below_buf d kb' 4096"
  shows "\<exists>d1 m1 d2 m2. write_page uc d off kb m = Ok (0, d1, m1) \<and> read_page uc d1 off kb' m1 = Ok (0, d2, m2)
    \<and> (\<forall>k < 4096. mem_get kb' m2 k = mem_get kb m k)"
  by (rule lhd_pages.wr_rd [OF assms])

text \<open>A disk of 16 sectors whose hardware completes every command.\<close>

definition ex_hw :: "32 word \<Rightarrow> 32 word \<Rightarrow> sectors \<Rightarrow> (nat \<Rightarrow> byte) \<Rightarrow> 32 word \<times> sectors \<times> (nat \<Rightarrow> byte)" where
  "ex_hw s st dk buf =
     (if st = LHD_WORKING OR LHD_ISWRITE then (LHD_OK OR LHD_ISWRITE, dk(s := buf), buf) else (LHD_OK, dk, dk s))"

definition ex_lhd :: lhd_softc where
  "ex_lhd = \<lparr>lh_buf = 0xb0000000, d_blocks = 16, d_blocksize = 512, d_devnumber = 0, lh_result = 0,
     lh_disk = (\<lambda>s k. of_nat k), lh_hw = ex_hw\<rparr>"

definition ex_uc :: ucopy where
  "ex_uc = \<lparr>uc_space = NULL, uc_copyout = (\<lambda>a b n m. (0, m)), uc_copyin = (\<lambda>a b n m. (0, m))\<rparr>"

lemma ex_lhd_wf: "lhd_wf ex_lhd"
  by (simp add: lhd_wf_def lhd_hw_ok_def ex_lhd_def ex_hw_def lhd_irq_def lhd_code_to_errno_def lhd_codes Let_def)

theorem disk_page_roundtrip_witness:
  "\<exists>d1 m1 d2 m2. write_page ex_uc ex_lhd 0x1000 0x80100000 (\<lambda>a. 7) = Ok (0, d1, m1)
     \<and> read_page ex_uc d1 0x1000 0x80200000 m1 = Ok (0, d2, m2) \<and> mem_get 0x80200000 m2 5 = 7"
proof -
  have "page_off ex_lhd 0x1000" "below_buf ex_lhd 0x80100000 4096" "below_buf ex_lhd 0x80200000 4096"
    by (simp_all add: page_off_def below_buf_def ex_lhd_def)
  from disk_page_roundtrip [OF ex_lhd_wf this, of ex_uc "\<lambda>a. 7"]
  obtain d1 m1 d2 m2 where R: "write_page ex_uc ex_lhd 0x1000 0x80100000 (\<lambda>a. 7) = Ok (0, d1, m1)"
      "read_page ex_uc d1 0x1000 0x80200000 m1 = Ok (0, d2, m2)"
      "\<forall>k < 4096. mem_get 0x80200000 m2 k = mem_get 0x80100000 (\<lambda>a. 7) k"
    by blast
  have "mem_get 0x80200000 m2 5 = mem_get 0x80100000 (\<lambda>a. 7) 5" using R(3) by (rule allE [of _ 5]) simp
  then show ?thesis using R(1,2) by (simp add: mem_get_def)
qed

text \<open>
  Bad requests: the driver refuses, with EINVAL and with disk, memory and request
  unchanged, a transfer whose offset is not at a sector boundary, whose length is not a whole
  number of sectors, or whose last sector is beyond the disk.
\<close>

theorem lhd_io_rejects:
  assumes "uio_offset u = int (512 * b + r)" "r < 512" "512 * b + r < 2 ^ 40" "uio_resid u < 2 ^ 32"
    and "r \<noteq> 0 \<or> uio_resid u mod 512 \<noteq> 0 \<or> (b + uio_resid u div 512 < 2 ^ 32 \<and> unat (d_blocks d) < b + uio_resid u div 512)"
  shows "lhd_io uc d u m = Ok (EINVAL, d, u, m)"
proof -
  have so: "uio_offset u sdiv 512 = int b" "uio_offset u smod 512 = int r"
    using assms(1,2) by (simp_all add: sdiv_nonneg smod_nonneg)
  have r: "(of_nat r :: 32 word) = 0 \<longleftrightarrow> r = 0" "(of_nat (uio_resid u mod 512) :: 32 word) = 0 \<longleftrightarrow> uio_resid u mod 512 = 0"
    using assms(2) unat_of_nat_32 [of r] unat_of_nat_32 [of "uio_resid u mod 512"]
    by (auto simp: unat_eq_zero [symmetric] simp del: unat_eq_zero)
  show ?thesis
  proof (cases "r \<noteq> 0 \<or> uio_resid u mod 512 \<noteq> 0")
    case True
    then show ?thesis using r so by (auto simp: lhd_io_def Let_def LHD_SECTSIZE_def)
  next
    case False
    then have b: "b + uio_resid u div 512 < 2 ^ 32" "unat (d_blocks d) < b + uio_resid u div 512" using assms(5) by auto
    have "(of_nat b + of_nat (uio_resid u div 512) :: 32 word) = of_nat (b + uio_resid u div 512)" by simp
    then have "unat (of_nat b + of_nat (uio_resid u div 512) :: 32 word) = b + uio_resid u div 512"
      using unat_of_nat_32 [of "b + uio_resid u div 512"] b(1) by simp
    then have "d_blocks d < of_nat b + of_nat (uio_resid u div 512)" using b(2) by (simp add: word_less_nat_alt)
    then show ?thesis using False so by (simp add: lhd_io_def Let_def LHD_SECTSIZE_def)
  qed
qed

theorem lhd_io_rejects_witness:
  "lhd_io ex_uc ex_lhd (uio_kinit 0x80100000 4096 0x2000 UIO_READ) (\<lambda>a. 7) =
     Ok (EINVAL, ex_lhd, uio_kinit 0x80100000 4096 0x2000 UIO_READ, \<lambda>a. 7)"
  using lhd_io_rejects [of "uio_kinit 0x80100000 4096 0x2000 UIO_READ" 16 0 ex_lhd ex_uc "\<lambda>a. 7"]
  by (simp add: uio_kinit_def ex_lhd_def)

end
