(* ===== verification/VM_Stats.thy ===== *)
theory VM_Stats
  imports VM_Prelude
begin

text \<open>
  The statistics of the virtual memory system (\<^verbatim>\<open>kern/vm/vmstats.c\<close>): 32-bit
  counters, the functions that increment them, and the self-check run when they are printed.
\<close>

section \<open>Counters\<close>

record stats =
  tlb_faults :: "32 word"
  tlb_free_faults :: "32 word"
  tlb_replace_faults :: "32 word"
  tlb_invalidations :: "32 word"
  tlb_reloads :: "32 word"
  page_zeroed_faults :: "32 word"
  page_disk_faults :: "32 word"
  page_elf_faults :: "32 word"
  page_swapfile_faults :: "32 word"
  swapfile_writes :: "32 word"

definition FAULT :: int where "FAULT = 0"
definition FREE_FAULT :: int where "FREE_FAULT = 1"
definition REPLACE_FAULT :: int where "REPLACE_FAULT = 2"
definition ZEROED_FAULT :: int where "ZEROED_FAULT = 3"
definition DISK_FAULT :: int where "DISK_FAULT = 4"
definition ELF_FAULT :: int where "ELF_FAULT = 5"
definition SWAPFILE_FAULT :: int where "SWAPFILE_FAULT = 6"

lemmas fault_codes = FAULT_def FREE_FAULT_def REPLACE_FAULT_def ZEROED_FAULT_def DISK_FAULT_def
  ELF_FAULT_def SWAPFILE_FAULT_def

section \<open>Operations\<close>

definition stats_init :: "stats \<Rightarrow> stats" where
  "stats_init s = s\<lparr>tlb_faults := 0, tlb_free_faults := 0, tlb_replace_faults := 0,
     tlb_invalidations := 0, tlb_reloads := 0, page_zeroed_faults := 0, page_disk_faults := 0,
     page_elf_faults := 0, page_swapfile_faults := 0, swapfile_writes := 0\<rparr>"

text \<open>An unknown code only prints a message.\<close>

definition add_tlb_fault :: "int \<Rightarrow> stats \<Rightarrow> stats" where
  "add_tlb_fault faulttype s =
     (if faulttype = FAULT then s\<lparr>tlb_faults := tlb_faults s + 1\<rparr>
      else if faulttype = FREE_FAULT then s\<lparr>tlb_free_faults := tlb_free_faults s + 1\<rparr>
      else if faulttype = REPLACE_FAULT then s\<lparr>tlb_replace_faults := tlb_replace_faults s + 1\<rparr>
      else s)"

definition add_tlb_invalidation :: "stats \<Rightarrow> stats" where
  "add_tlb_invalidation s = s\<lparr>tlb_invalidations := tlb_invalidations s + 1\<rparr>"

definition add_tlb_reload :: "stats \<Rightarrow> stats" where
  "add_tlb_reload s = s\<lparr>tlb_reloads := tlb_reloads s + 1\<rparr>"

definition add_page_fault :: "int \<Rightarrow> stats \<Rightarrow> stats" where
  "add_page_fault faulttype s =
     (if faulttype = ZEROED_FAULT then s\<lparr>page_zeroed_faults := page_zeroed_faults s + 1\<rparr>
      else if faulttype = DISK_FAULT then s\<lparr>page_disk_faults := page_disk_faults s + 1\<rparr>
      else if faulttype = ELF_FAULT then s\<lparr>page_elf_faults := page_elf_faults s + 1\<rparr>
      else if faulttype = SWAPFILE_FAULT then s\<lparr>page_swapfile_faults := page_swapfile_faults s + 1\<rparr>
      else s)"

definition add_swapfile_write :: "stats \<Rightarrow> stats" where
  "add_swapfile_write s = s\<lparr>swapfile_writes := swapfile_writes s + 1\<rparr>"

text \<open>\<open>stats_verify\<close> prints one line per equation that fails; here, the list of these lines.\<close>

definition stats_verify :: "stats \<Rightarrow> string list" where
  "stats_verify s =
     (if tlb_faults s \<noteq> tlb_free_faults s + tlb_replace_faults s
      then [''TLB faults != TLB free faults + TLB replace faults''] else []) @
     (if tlb_faults s \<noteq> tlb_reloads s + page_disk_faults s + page_zeroed_faults s
      then [''TLB faults != TLB reloads + page disk fault + page zeroed fault''] else []) @
     (if page_disk_faults s \<noteq> page_elf_faults s + page_swapfile_faults s
      then [''page disk fault != page elf faults + page swapfile faults''] else [])"

text \<open>\<open>stats_print\<close>: the counters it prints with their labels, the complaints of
  \<open>stats_verify\<close>, and the counters reset.\<close>

definition stats_print :: "stats \<Rightarrow> (string \<times> 32 word) list \<times> string list \<times> stats" where
  "stats_print s =
     ([(''TLB faults'', tlb_faults s), (''TLB free faults'', tlb_free_faults s),
       (''TLB replace faults'', tlb_replace_faults s), (''TLB invalidations'', tlb_invalidations s),
       (''TLB reloads'', tlb_reloads s), (''Page zeroed faults'', page_zeroed_faults s),
       (''Page disk faults'', page_disk_faults s), (''Page ELF faults'', page_elf_faults s),
       (''Page swapfile faults'', page_swapfile_faults s), (''Swapfile writes'', swapfile_writes s)],
      stats_verify s, stats_init s)"

section \<open>The balance the documentation promises\<close>

text \<open>
  What each fault contributes to the three equations, as the differences of their two sides.
  A fault that is counted correctly leaves all three unchanged.
\<close>

definition tlb_balance :: "stats \<Rightarrow> 32 word" where
  "tlb_balance s = tlb_faults s - (tlb_free_faults s + tlb_replace_faults s)"

definition fault_balance :: "stats \<Rightarrow> 32 word" where
  "fault_balance s = tlb_faults s - (tlb_reloads s + page_disk_faults s + page_zeroed_faults s)"

definition disk_balance :: "stats \<Rightarrow> 32 word" where
  "disk_balance s = page_disk_faults s - (page_elf_faults s + page_swapfile_faults s)"

named_theorems stat_simps "effect of each counter update on the three balances"

lemma balance_add_tlb_fault [stat_simps]:
  "tlb_balance (add_tlb_fault FAULT s) = tlb_balance s + 1"
  "tlb_balance (add_tlb_fault FREE_FAULT s) = tlb_balance s - 1"
  "tlb_balance (add_tlb_fault REPLACE_FAULT s) = tlb_balance s - 1"
  "fault_balance (add_tlb_fault FAULT s) = fault_balance s + 1"
  "fault_balance (add_tlb_fault FREE_FAULT s) = fault_balance s"
  "fault_balance (add_tlb_fault REPLACE_FAULT s) = fault_balance s"
  "disk_balance (add_tlb_fault c s) = disk_balance s"
  by (simp_all add: tlb_balance_def fault_balance_def disk_balance_def add_tlb_fault_def fault_codes)

lemma balance_add_page_fault [stat_simps]:
  "tlb_balance (add_page_fault c s) = tlb_balance s"
  "fault_balance (add_page_fault ZEROED_FAULT s) = fault_balance s - 1"
  "fault_balance (add_page_fault DISK_FAULT s) = fault_balance s - 1"
  "fault_balance (add_page_fault ELF_FAULT s) = fault_balance s"
  "fault_balance (add_page_fault SWAPFILE_FAULT s) = fault_balance s"
  "disk_balance (add_page_fault ZEROED_FAULT s) = disk_balance s"
  "disk_balance (add_page_fault DISK_FAULT s) = disk_balance s + 1"
  "disk_balance (add_page_fault ELF_FAULT s) = disk_balance s - 1"
  "disk_balance (add_page_fault SWAPFILE_FAULT s) = disk_balance s - 1"
  by (simp_all add: tlb_balance_def fault_balance_def disk_balance_def add_page_fault_def fault_codes)

lemma balance_other [stat_simps]:
  "tlb_balance (add_tlb_reload s) = tlb_balance s"
  "fault_balance (add_tlb_reload s) = fault_balance s - 1"
  "disk_balance (add_tlb_reload s) = disk_balance s"
  "tlb_balance (add_tlb_invalidation s) = tlb_balance s"
  "fault_balance (add_tlb_invalidation s) = fault_balance s"
  "disk_balance (add_tlb_invalidation s) = disk_balance s"
  "tlb_balance (add_swapfile_write s) = tlb_balance s"
  "fault_balance (add_swapfile_write s) = fault_balance s"
  "disk_balance (add_swapfile_write s) = disk_balance s"
  by (simp_all add: tlb_balance_def fault_balance_def disk_balance_def add_tlb_reload_def
      add_tlb_invalidation_def add_swapfile_write_def)

lemma stats_verify_silent:
  "stats_verify s = [] \<longleftrightarrow> tlb_balance s = 0 \<and> fault_balance s = 0 \<and> disk_balance s = 0"
  by (simp add: stats_verify_def tlb_balance_def fault_balance_def disk_balance_def)

lemma stats_init_silent: "stats_verify (stats_init s) = []"
  by (simp add: stats_verify_def stats_init_def)

end
