(* ===== verification/Addr_Space.thy ===== *)
theory Addr_Space
  imports Disk_IO VM_Stats
begin

text \<open>
  Address spaces (\<^verbatim>\<open>kern/vm/addrspace.c\<close>): the record kept per process, its
  creation, the definition of the text and data regions and of the stack, the reference count of
  the executable's vnode (\<^verbatim>\<open>kern/vfs/vnode.c\<close>), and the part of the kernel state
  shared by the paging code. The operations that touch the page table (\<open>as_copy\<close>,
  \<open>alloc_kpages\<close>, \<open>free_kpages\<close>) are in the theory of the whole system.
\<close>

section \<open>Data\<close>

record elf_phdr =
  p_type :: "32 word"
  p_offset :: "32 word"
  p_vaddr :: "32 word"
  p_paddr :: "32 word"
  p_filesz :: "32 word"
  p_memsz :: "32 word"
  p_flags :: "32 word"
  p_align :: "32 word"

record addrspace =
  as_vbase1 :: vaddr
  as_npages1 :: "32 word"
  as_vbase2 :: vaddr
  as_npages2 :: "32 word"
  ph1 :: elf_phdr
  ph2 :: elf_phdr
  as_v :: ptr
  initial_offset1 :: "32 word"
  initial_offset2 :: "32 word"

text \<open>
  A vnode: its reference count and the read and reclaim operations of its function table, which
  belong to the file system it comes from.
\<close>

record vnode =
  vn_refcount :: int
  vop_read :: "uio \<Rightarrow> kmem \<Rightarrow> (int \<times> uio \<times> kmem) kres"
  vop_reclaim :: int
  vn_reclaims :: nat

section \<open>Reference counts\<close>

definition vnode_incref :: "ptr \<Rightarrow> (ptr \<Rightarrow> vnode) \<Rightarrow> (ptr \<Rightarrow> vnode) kres" where
  "vnode_incref vn vs =
     kassert (vn \<noteq> NULL) (Ok (vs(vn := (vs vn)\<lparr>vn_refcount := vn_refcount (vs vn) + 1\<rparr>)))"

text \<open>\<open>vn_reclaims\<close> counts the calls of \<open>VOP_RECLAIM\<close>; a non-zero result only prints a warning.\<close>

definition vnode_decref :: "ptr \<Rightarrow> (ptr \<Rightarrow> vnode) \<Rightarrow> (ptr \<Rightarrow> vnode) kres" where
  "vnode_decref vn vs =
     kassert (vn \<noteq> NULL)
       (kassert (0 < vn_refcount (vs vn))
         (if 1 < vn_refcount (vs vn)
          then Ok (vs(vn := (vs vn)\<lparr>vn_refcount := vn_refcount (vs vn) - 1\<rparr>))
          else Ok (vs(vn := (vs vn)\<lparr>vn_reclaims := vn_reclaims (vs vn) + 1\<rparr>))))"

definition vfs_close :: "ptr \<Rightarrow> (ptr \<Rightarrow> vnode) \<Rightarrow> (ptr \<Rightarrow> vnode) kres" where
  "vfs_close vn vs = vnode_decref vn vs"

section \<open>Operations on address spaces\<close>

text \<open>\<open>as_create\<close> on what \<open>kmalloc\<close> returns: nothing, or a block with arbitrary contents, of
  which only the four region fields are set.\<close>

definition as_create :: "addrspace option \<Rightarrow> addrspace option" where
  "as_create blk =
     (case blk of
        None \<Rightarrow> None
      | Some as \<Rightarrow> Some (as\<lparr>as_vbase1 := 0, as_npages1 := 0, as_vbase2 := 0, as_npages2 := 0\<rparr>))"

definition as_define_region :: "addrspace \<Rightarrow> vaddr \<Rightarrow> 32 word \<Rightarrow> int \<times> addrspace" where
  "as_define_region as vaddr memsize =
     (let memsize = memsize + (vaddr AND NOT PAGE_FRAME);
          initial_offset = vaddr mod PAGE_SIZE;
          vaddr = vaddr AND PAGE_FRAME;
          memsize = (memsize + initial_offset + PAGE_SIZE - 1) AND PAGE_FRAME;
          npages = memsize div PAGE_SIZE
      in if as_vbase1 as = 0
         then (0, as\<lparr>as_vbase1 := vaddr, as_npages1 := npages, initial_offset1 := initial_offset\<rparr>)
         else if as_vbase2 as = 0
         then (0, as\<lparr>as_vbase2 := vaddr, as_npages2 := npages, initial_offset2 := initial_offset\<rparr>)
         else (ENOSYS, as))"

definition as_prepare_load :: "addrspace \<Rightarrow> int" where
  "as_prepare_load as = 0"

definition as_complete_load :: "addrspace \<Rightarrow> int" where
  "as_complete_load as = 0"

definition as_define_stack :: "addrspace \<Rightarrow> int \<times> vaddr" where
  "as_define_stack as = (0, USERSTACK)"

definition as_is_ok :: "addrspace option \<Rightarrow> int" where
  "as_is_ok mas =
     (case mas of
        None \<Rightarrow> 0
      | Some as \<Rightarrow>
          if as_vbase1 as = 0 \<or> as_vbase2 as = 0 \<or> as_npages1 as = 0 \<or> as_npages2 as = 0
          then 0 else 1)"

text \<open>\<open>as_destroy\<close> up to the \<open>kfree\<close> of the record.\<close>

definition as_destroy :: "addrspace \<Rightarrow> (ptr \<Rightarrow> vnode) \<Rightarrow> (ptr \<Rightarrow> vnode) kres" where
  "as_destroy as vs =
     (let vn = as_v as
      in if vn = NULL then Fail NullDeref
         else if vn_refcount (vs vn) = 1 then vfs_close vn vs
         else Ok (vs(vn := (vs vn)\<lparr>vn_refcount := vn_refcount (vs vn) - 1\<rparr>)))"

section \<open>The segment of an address\<close>

text \<open>
  The three tests the paging code makes; the upper bound of the text and data tests is the first
  address after the segment, included.
\<close>

definition in_text :: "addrspace \<Rightarrow> vaddr \<Rightarrow> bool" where
  "in_text as v \<longleftrightarrow> v \<ge> as_vbase1 as \<and> v \<le> as_vbase1 as + as_npages1 as * PAGE_SIZE"

definition in_data :: "addrspace \<Rightarrow> vaddr \<Rightarrow> bool" where
  "in_data as v \<longleftrightarrow> v \<ge> as_vbase2 as \<and> v \<le> as_vbase2 as + as_npages2 as * PAGE_SIZE"

definition above_data :: "addrspace \<Rightarrow> vaddr \<Rightarrow> bool" where
  "above_data as v \<longleftrightarrow> v > as_vbase2 as + as_npages2 as * PAGE_SIZE"

section \<open>Regions\<close>

text \<open>
  The pages a region needs: those that meet the bytes from \<open>v\<close> up to \<open>v + sz\<close>.
\<close>

definition pages_needed :: "nat \<Rightarrow> nat \<Rightarrow> nat" where
  "pages_needed v sz = (v mod 4096 + sz + 4095) div 4096"

text \<open>The fields a call of \<open>as_define_region\<close> computes, for a region that does not wrap around.\<close>

lemma region_pages:
  fixes v sz :: "32 word"
  assumes "unat sz + 2 * (unat v mod 4096) + 4095 < 2 ^ 32"
  shows "unat (((sz + (v AND NOT PAGE_FRAME) + v mod PAGE_SIZE + PAGE_SIZE - 1) AND PAGE_FRAME) div PAGE_SIZE) =
    (unat sz + 2 * (unat v mod 4096) + 4095) div 4096"
proof -
  let ?o = "unat v mod 4096"
  let ?n = "unat sz + 2 * ?o + 4095"
  have "sz + (v AND NOT PAGE_FRAME) + v mod PAGE_SIZE + PAGE_SIZE - 1 = of_nat ?n"
    by (simp add: and_not_PAGE_FRAME PAGE_SIZE_def flip: unat_page_mod [unfolded PAGE_SIZE_def])
  moreover have "unat (of_nat ?n :: 32 word) = ?n" by (rule unat_of_nat_32) (use assms in simp)
  ultimately have "unat (sz + (v AND NOT PAGE_FRAME) + v mod PAGE_SIZE + PAGE_SIZE - 1) = ?n"
    by argo
  then show ?thesis
    by (simp only: unat_div unat_and_PAGE_FRAME)
       (simp add: PAGE_SIZE_def minus_mod_eq_mult_div)
qed

lemma as_define_region_fields:
  assumes "as_vbase1 as = 0 \<or> as_vbase2 as = 0" and "as_define_region as v sz = (r, as')"
    and "unat sz + 2 * (unat v mod 4096) + 4095 < 2 ^ 32"
  shows "r = 0"
    and "as_vbase1 as = 0 \<Longrightarrow> as_vbase1 as' = v AND PAGE_FRAME
           \<and> unat (as_npages1 as') = (unat sz + 2 * (unat v mod 4096) + 4095) div 4096
           \<and> initial_offset1 as' = v mod PAGE_SIZE \<and> as_vbase2 as' = as_vbase2 as"
    and "as_vbase1 as \<noteq> 0 \<Longrightarrow> as_vbase2 as' = v AND PAGE_FRAME
           \<and> unat (as_npages2 as') = (unat sz + 2 * (unat v mod 4096) + 4095) div 4096
           \<and> initial_offset2 as' = v mod PAGE_SIZE \<and> as_vbase1 as' = as_vbase1 as"
  using assms(1,2) region_pages [OF assms(3)]
  by (auto simp: as_define_region_def Let_def split: if_splits)

lemma round_up_pages:
  fixes r n :: nat
  assumes "r < 4096"
  shows "(r + n + 4095) div 4096 \<le> (n + 2 * r + 4095) div 4096"
    and "(n + 2 * r + 4095) div 4096 \<le> (r + n + 4095) div 4096 + 1"
    and "a < n \<Longrightarrow> r + a < 4096 * ((n + 2 * r + 4095) div 4096)"
proof -
  show "(r + n + 4095) div 4096 \<le> (n + 2 * r + 4095) div 4096" by (rule div_le_mono) simp
  have "(n + 2 * r + 4095) div 4096 \<le> (r + n + 4095 + 4096) div 4096"
    using assms by (intro div_le_mono) simp
  then show "(n + 2 * r + 4095) div 4096 \<le> (r + n + 4095) div 4096 + 1"
    by (simp only: div_add_self2)
  let ?x = "n + 2 * r + 4095"
  have "?x = 4096 * (?x div 4096) + ?x mod 4096" "?x mod 4096 < 4096" by simp_all
  then show "a < n \<Longrightarrow> r + a < 4096 * (?x div 4096)" by linarith
qed

text \<open>An address space with every field zero.\<close>

definition zero_phdr :: elf_phdr where
  "zero_phdr = \<lparr>p_type = 0, p_offset = 0, p_vaddr = 0, p_paddr = 0, p_filesz = 0, p_memsz = 0,
     p_flags = 0, p_align = 0\<rparr>"

definition zero_as :: addrspace where
  "zero_as = \<lparr>as_vbase1 = 0, as_npages1 = 0, as_vbase2 = 0, as_npages2 = 0, ph1 = zero_phdr,
     ph2 = zero_phdr, as_v = NULL, initial_offset1 = 0, initial_offset2 = 0\<rparr>"

text \<open>
  The page-aligned region at \<open>base\<close> with \<open>n\<close> pages fits the bytes from \<open>v\<close> up to \<open>v + sz\<close>: it starts
  with the page of \<open>v\<close>, every one of the bytes lies in one of its pages, and it has at most one page
  more than they need.
\<close>

definition region_fits :: "32 word \<Rightarrow> 32 word \<Rightarrow> vaddr \<Rightarrow> 32 word \<Rightarrow> bool" where
  "region_fits base n v sz \<longleftrightarrow>
     unat base = unat v - unat v mod 4096
     \<and> (\<forall>a<unat sz. unat v + a < unat base + 4096 * unat n)
     \<and> pages_needed (unat v) (unat sz) \<le> unat n \<and> unat n \<le> pages_needed (unat v) (unat sz) + 1
     \<and> (unat v mod 4096 = 0 \<longrightarrow> unat n = pages_needed (unat v) (unat sz))"

lemma region_fitsI:
  assumes base: "base = v AND PAGE_FRAME"
    and n: "unat n = (unat sz + 2 * (unat v mod 4096) + 4095) div 4096"
  shows "region_fits base n v sz"
proof -
  have o: "unat v mod 4096 < 4096" and le: "unat v mod 4096 \<le> unat v" by simp_all
  have B: "unat base = unat v - unat v mod 4096" using unat_and_PAGE_FRAME [of v] base by simp
  have "unat v + a < unat base + 4096 * unat n" if "a < unat sz" for a
    using round_up_pages(3) [OF o that] le unfolding n B by linarith
  then show ?thesis
    using round_up_pages(1,2) [OF o, of "unat sz"] B n
    by (auto simp: region_fits_def pages_needed_def)
qed

text \<open>
  (C40) \<open>as_define_region\<close> on every branch, for a segment below 2 GB: the first call fills the fields
  of the first region and the second call those of the second one, each with a region that fits the
  segment (the in-page offset of the start is counted twice, hence the page that may be too many),
  and leaves the other region alone; a third call returns \<open>ENOSYS\<close> and changes nothing.
\<close>

theorem as_define_region_covers:
  assumes "unat v + unat sz \<le> 2 ^ 31"
  shows "\<exists>base n. region_fits base n v sz \<and> as_define_region as v sz =
    (if as_vbase1 as = 0
     then (0, as\<lparr>as_vbase1 := base, as_npages1 := n, initial_offset1 := v mod PAGE_SIZE\<rparr>)
     else if as_vbase2 as = 0
     then (0, as\<lparr>as_vbase2 := base, as_npages2 := n, initial_offset2 := v mod PAGE_SIZE\<rparr>)
     else (ENOSYS, as))"
proof -
  let ?n = "((sz + (v AND NOT PAGE_FRAME) + v mod PAGE_SIZE + PAGE_SIZE - 1) AND PAGE_FRAME) div PAGE_SIZE"
  have "unat v mod 4096 < 4096" by simp
  then have "unat sz + 2 * (unat v mod 4096) + 4095 < 2 ^ 32" using assms by simp
  from region_fitsI [OF refl region_pages [OF this]]
  have "region_fits (v AND PAGE_FRAME) ?n v sz" .
  then show ?thesis
    by (intro exI [of _ "v AND PAGE_FRAME"] exI [of _ ?n]) (simp add: as_define_region_def Let_def)
qed

theorem as_define_region_covers_witness:
  "\<exists>base n. region_fits base n 0x10000ffc 0x1004
     \<and> as_define_region (zero_as\<lparr>as_vbase1 := 0x400000\<rparr>) 0x10000ffc 0x1004 =
         (0, zero_as\<lparr>as_vbase1 := 0x400000, as_vbase2 := base, as_npages2 := n, initial_offset2 := 0xffc\<rparr>)"
  using as_define_region_covers [of "0x10000ffc" "0x1004" "zero_as\<lparr>as_vbase1 := 0x400000\<rparr>"]
  by (simp add: zero_as_def PAGE_SIZE_def)

end
