(* ===== verification/Swapfile.thy ===== *)
theory Swapfile
  imports Addr_Space
begin

text \<open>
  The swap file (\<^verbatim>\<open>kern/vm/swapfile.c\<close>, list version): one cell per page of the swap
  disk, linked either in the list of free cells or in one of the three lists (text, data, stack) of
  a process. Cells live in a heap indexed by their kernel address. The record \<open>ksys\<close> is the part
  of the kernel state the paging code works on.

  Every operation runs to its end before the next one starts. A wait for the end of a store that
  is in progress is therefore a wait that nothing ends, \<open>Fail Blocked\<close>; \<open>store_swap\<close> is
  composed of the steps before and after its disk write, so that the state in between can be
  spoken about.
\<close>

section \<open>Data\<close>

record swap_cell =
  sc_vaddr :: vaddr
  sc_store :: bool
  sc_next :: ptr
  sc_offset :: paddr

datatype swap_seg = Text | Data | Stack

record swapfile =
  sw_cells :: "ptr \<Rightarrow> swap_cell"
  sw_text :: "ptr list"
  sw_data :: "ptr list"
  sw_stack :: "ptr list"
  sw_free :: ptr
  sw_kbuf :: vaddr
  sw_v :: lhd_softc
  sw_size :: int

record ksys =
  k_mem :: kmem
  k_stats :: stats
  k_swap :: swapfile
  k_vnodes :: "ptr \<Rightarrow> vnode"
  k_pid :: pid
  k_as :: "addrspace option"
  k_uc :: ucopy

definition MAX_SIZE :: int where
  "MAX_SIZE = 9 * 1024 * 1024"

section \<open>Accesses\<close>

primrec seg_heads :: "swap_seg \<Rightarrow> swapfile \<Rightarrow> ptr list" where
  "seg_heads Text sw = sw_text sw"
| "seg_heads Data sw = sw_data sw"
| "seg_heads Stack sw = sw_stack sw"

primrec set_heads :: "swap_seg \<Rightarrow> ptr list \<Rightarrow> swapfile \<Rightarrow> swapfile" where
  "set_heads Text hs sw = sw\<lparr>sw_text := hs\<rparr>"
| "set_heads Data hs sw = sw\<lparr>sw_data := hs\<rparr>"
| "set_heads Stack hs sw = sw\<lparr>sw_stack := hs\<rparr>"

text \<open>\<open>swap->text[pid]\<close> and its likes: the arrays have \<open>MAX_PROC\<close> elements.\<close>

definition get_head :: "swap_seg \<Rightarrow> pid \<Rightarrow> swapfile \<Rightarrow> ptr kres" where
  "get_head g pid sw =
     (if 0 \<le> pid \<and> pid < int (length (seg_heads g sw)) then Ok (seg_heads g sw ! nat pid)
      else Fail OutOfBounds)"

definition set_head :: "swap_seg \<Rightarrow> pid \<Rightarrow> ptr \<Rightarrow> swapfile \<Rightarrow> swapfile" where
  "set_head g pid c sw = set_heads g ((seg_heads g sw)[nat pid := c]) sw"

definition upd_cell :: "ptr \<Rightarrow> (swap_cell \<Rightarrow> swap_cell) \<Rightarrow> swapfile \<Rightarrow> swapfile" where
  "upd_cell c f sw = sw\<lparr>sw_cells := (sw_cells sw)(c := f (sw_cells sw c))\<rparr>"

text \<open>
  The segment \<open>load_swap\<close> searches: three tests in a row, the last that holds decides; none
  leaves \<open>seg\<close> at \<open>-1\<close>.
\<close>

definition swap_seg_of :: "addrspace \<Rightarrow> vaddr \<Rightarrow> swap_seg option" where
  "swap_seg_of as v =
     (let seg = None;
          seg = (if in_text as v then Some Text else seg);
          seg = (if in_data as v then Some Data else seg);
          seg = (if v \<le> USERSTACK \<and> above_data as v then Some Stack else seg)
      in seg)"

section \<open>Loading a page\<close>

partial_function (option) swap_walk ::
  "(ptr \<Rightarrow> swap_cell) \<Rightarrow> ptr \<Rightarrow> ptr \<Rightarrow> vaddr \<Rightarrow> (ptr \<times> ptr) option kres option" where
  "swap_walk h prev c v =
     (if c = NULL then Some (Ok None)
      else if sc_vaddr (h c) = v then Some (Ok (Some (prev, c)))
      else swap_walk h c (sc_next (h c)) v)"

definition unlink_cell :: "swap_seg \<Rightarrow> pid \<Rightarrow> ptr \<Rightarrow> ptr \<Rightarrow> swapfile \<Rightarrow> swapfile kres" where
  "unlink_cell g pid prev c sw =
     (if prev \<noteq> NULL
      then kassert (sc_next (sw_cells sw prev) = c)
             (Ok (upd_cell prev (\<lambda>e. e\<lparr>sc_next := sc_next (sw_cells sw c)\<rparr>) sw))
      else Ok (set_head g pid (sc_next (sw_cells sw c)) sw))"

text \<open>Insertion at the head of the free list.\<close>

definition release_cell :: "ptr \<Rightarrow> swapfile \<Rightarrow> swapfile" where
  "release_cell c sw = (upd_cell c (\<lambda>e. e\<lparr>sc_next := sw_free sw\<rparr>) sw)\<lparr>sw_free := c\<rparr>"

definition load_swap :: "vaddr \<Rightarrow> pid \<Rightarrow> paddr \<Rightarrow> 'a ksys_scheme \<Rightarrow> (int \<times> 'a ksys_scheme) kres" where
  "load_swap v pid paddr s =
     kassert (pid = k_pid s)
       (case k_as s of
          None \<Rightarrow> Fail NullDeref
        | Some as \<Rightarrow>
            (case swap_seg_of as v of
               None \<Rightarrow> Fail (Panic ''load_swap: wrong virtual address'')
             | Some g \<Rightarrow>
                 kbind (get_head g pid (k_swap s)) (\<lambda>list.
                 kbind (from_loop (swap_walk (sw_cells (k_swap s)) NULL list v)) (\<lambda>found.
                   case found of
                     None \<Rightarrow> Ok (0, s)
                   | Some (prev, c) \<Rightarrow>
                       kbind (unlink_cell g pid prev c (k_swap s)) (\<lambda>sw.
                         if sc_store (sw_cells sw c) then Fail Blocked
                         else
                           let s = s\<lparr>k_swap := sw, k_stats := add_page_fault DISK_FAULT (k_stats s)\<rparr>
                           in kbind (read_page (k_uc s) (sw_v sw) (sc_offset (sw_cells sw c))
                                       (PADDR_TO_KVADDR paddr) (k_mem s)) (\<lambda>(result, dev, m).
                                if result \<noteq> 0 then Fail (Panic ''VOP_READ on the swap file failed'')
                                else
                                  let sw = release_cell c (sw\<lparr>sw_v := dev\<rparr>);
                                      sw = upd_cell c (\<lambda>e. e\<lparr>sc_vaddr := 0\<rparr>) sw
                                  in Ok (1, s\<lparr>k_swap := sw, k_mem := m,
                                       k_stats := add_page_fault SWAPFILE_FAULT (k_stats s)\<rparr>)))))))"

section \<open>Storing a page\<close>

text \<open>Insertion of the cell \<open>c\<close> at the head of a list of process \<open>pid\<close>.\<close>

definition push_cell :: "swap_seg \<Rightarrow> pid \<Rightarrow> ptr \<Rightarrow> swapfile \<Rightarrow> swapfile kres" where
  "push_cell g pid c sw =
     kbind (get_head g pid sw) (\<lambda>head.
       Ok (set_head g pid c (upd_cell c (\<lambda>e. e\<lparr>sc_next := head\<rparr>) sw)))"

text \<open>
  \<open>store_swap\<close> up to the disk write: the three tests are made one after the other, and each that
  holds links the cell.
\<close>

definition store_begin :: "vaddr \<Rightarrow> pid \<Rightarrow> 'a ksys_scheme \<Rightarrow> (ptr \<times> 'a ksys_scheme) kres" where
  "store_begin v pid s =
     (let sw = k_swap s; c = sw_free sw
      in if c = NULL then Fail (Panic ''the swap file is full'')
         else kassert (\<not> sc_store (sw_cells sw c))
           (let sw = sw\<lparr>sw_free := sc_next (sw_cells sw c)\<rparr>
            in case k_as s of
                 None \<Rightarrow> Fail NullDeref
               | Some as \<Rightarrow>
                   let t = in_text as v; d = in_data as v; k = (v \<le> USERSTACK \<and> above_data as v)
                   in kbind (if t then push_cell Text pid c sw else Ok sw) (\<lambda>sw.
                      kbind (if d then push_cell Data pid c sw else Ok sw) (\<lambda>sw.
                      kbind (if k then push_cell Stack pid c sw else Ok sw) (\<lambda>sw.
                        if \<not> (t \<or> d \<or> k) then Fail (Panic ''store_swap: wrong virtual address'')
                        else Ok (c, s\<lparr>k_swap := upd_cell c (\<lambda>e. e\<lparr>sc_vaddr := v, sc_store := True\<rparr>) sw\<rparr>))))))"

definition store_end :: "ptr \<Rightarrow> 'a ksys_scheme \<Rightarrow> 'a ksys_scheme" where
  "store_end c s =
     s\<lparr>k_swap := upd_cell c (\<lambda>e. e\<lparr>sc_store := False\<rparr>) (k_swap s),
       k_stats := add_swapfile_write (k_stats s)\<rparr>"

definition store_swap :: "vaddr \<Rightarrow> pid \<Rightarrow> paddr \<Rightarrow> 'a ksys_scheme \<Rightarrow> (int \<times> 'a ksys_scheme) kres" where
  "store_swap v pid paddr s =
     kbind (store_begin v pid s) (\<lambda>(c, s).
       let sw = k_swap s
       in kbind (write_page (k_uc s) (sw_v sw) (sc_offset (sw_cells sw c))
                   (PADDR_TO_KVADDR paddr) (k_mem s)) (\<lambda>(result, dev, m).
            if result \<noteq> 0 then Fail (Panic ''VOP_WRITE on the swap file failed'')
            else Ok (1, store_end c (s\<lparr>k_swap := sw\<lparr>sw_v := dev\<rparr>, k_mem := m\<rparr>))))"

section \<open>Initialisation\<close>

text \<open>
  \<open>swap_init\<close>: \<open>al k\<close> is the pointer the \<open>k\<close>-th \<open>kmalloc\<close> returns (0 the structure, 1 the
  copy buffer, 2 to 4 the arrays, from 5 on the cells), \<open>opened\<close> the outcome of
  \<open>vfs_open\<close> on \<^verbatim>\<open>lhd0raw:\<close>, \<open>h\<close> the heap before.
\<close>

definition new_cell :: "(nat \<Rightarrow> ptr) \<Rightarrow> nat \<Rightarrow> nat \<Rightarrow> (ptr \<Rightarrow> swap_cell) \<times> ptr \<Rightarrow> ((ptr \<Rightarrow> swap_cell) \<times> ptr) kres" where
  "new_cell al n i = (\<lambda>(h, free).
     let tmp = al (5 + (n - 1 - i))
     in if tmp = NULL then Fail (Panic ''swap cell allocation'')
        else Ok (h(tmp := (h tmp)\<lparr>sc_offset := of_nat i * PAGE_SIZE, sc_store := False, sc_next := free\<rparr>), tmp))"

definition swap_init :: "(nat \<Rightarrow> ptr) \<Rightarrow> int + lhd_softc \<Rightarrow> (ptr \<Rightarrow> swap_cell) \<Rightarrow> (int + swapfile) kres" where
  "swap_init al opened h =
     (if al 0 = NULL then Fail (Panic ''swap allocation'')
      else case opened of
        Inl result \<Rightarrow> Ok (Inl result)
      | Inr dev \<Rightarrow>
          let size = MAX_SIZE sdiv uint PAGE_SIZE
          in if al 1 = NULL then Fail (Panic ''kbuf allocation'')
             else if al 2 = NULL then Fail (Panic ''text allocation'')
             else if al 3 = NULL then Fail (Panic ''data allocation'')
             else if al 4 = NULL then Fail (Panic ''stack allocation'')
             else kbind (kfold (new_cell al (nat size)) (rev [0..<nat size]) (h, NULL)) (\<lambda>(h, free).
               Ok (Inr \<lparr>sw_cells = h, sw_text = replicate MAX_PROC NULL,
                        sw_data = replicate MAX_PROC NULL, sw_stack = replicate MAX_PROC NULL,
                        sw_free = free, sw_kbuf = al 1, sw_v = dev, sw_size = size\<rparr>)))"

section \<open>Removing and copying the pages of a process\<close>

partial_function (option) remove_loop :: "ptr \<Rightarrow> swapfile \<Rightarrow> swapfile kres option" where
  "remove_loop elem sw =
     (if elem = NULL then Some (Ok sw)
      else if sc_store (sw_cells sw elem) then Some (Fail Blocked)
      else remove_loop (sc_next (sw_cells sw elem)) (release_cell elem sw))"

definition remove_seg :: "pid \<Rightarrow> swap_seg \<Rightarrow> swapfile \<Rightarrow> swapfile kres" where
  "remove_seg pid g sw =
     kbind (get_head g pid sw) (\<lambda>head.
       if head \<noteq> NULL
       then kbind (from_loop (remove_loop head sw)) (\<lambda>sw. Ok (set_head g pid NULL sw))
       else Ok sw)"

definition remove_process_from_swap :: "pid \<Rightarrow> 'a ksys_scheme \<Rightarrow> 'a ksys_scheme kres" where
  "remove_process_from_swap pid s =
     kbind (kfold (remove_seg pid) [Text, Data, Stack] (k_swap s)) (\<lambda>sw. Ok (s\<lparr>k_swap := sw\<rparr>))"

text \<open>One round of the loops of \<open>copy_swap_pages\<close>: the cell \<open>c\<close> of the old process.\<close>

definition copy_cell :: "swap_seg \<Rightarrow> pid \<Rightarrow> ptr \<Rightarrow> 'a ksys_scheme \<Rightarrow> 'a ksys_scheme kres" where
  "copy_cell g new_pid c s =
     (let sw = k_swap s; free = sw_free sw
      in if free = NULL then Fail (Panic ''the swap file is full'')
         else kbind (push_cell g new_pid free (sw\<lparr>sw_free := sc_next (sw_cells sw free)\<rparr>)) (\<lambda>sw.
           kassert (\<not> sc_store (sw_cells sw free))
             (if sc_store (sw_cells sw c) then Fail Blocked
              else kbind (read_page (k_uc s) (sw_v sw) (sc_offset (sw_cells sw c)) (sw_kbuf sw) (k_mem s))
                (\<lambda>(result, dev, m).
                  if result \<noteq> 0 then Fail (Panic ''VOP_READ on the swap file failed'')
                  else kbind (write_page (k_uc s) dev (sc_offset (sw_cells sw free)) (sw_kbuf sw) m)
                    (\<lambda>(result, dev, m).
                      if result \<noteq> 0 then Fail (Panic ''VOP_READ on the swap file failed'')
                      else
                        let sw = sw\<lparr>sw_v := dev\<rparr>;
                            sw = upd_cell free (\<lambda>e. e\<lparr>sc_vaddr := sc_vaddr (sw_cells sw c)\<rparr>) sw
                        in Ok (s\<lparr>k_swap := sw, k_mem := m\<rparr>))))))"

partial_function (option) copy_loop ::
  "swap_seg \<Rightarrow> pid \<Rightarrow> ptr \<Rightarrow> 'a ksys_scheme \<Rightarrow> 'a ksys_scheme kres option" where
  "copy_loop g new_pid c s =
     (if c = NULL then Some (Ok s)
      else case copy_cell g new_pid c s of
        Fail e \<Rightarrow> Some (Fail e)
      | Ok s' \<Rightarrow> copy_loop g new_pid (sc_next (sw_cells (k_swap s') c)) s')"

definition copy_seg :: "pid \<Rightarrow> pid \<Rightarrow> swap_seg \<Rightarrow> 'a ksys_scheme \<Rightarrow> 'a ksys_scheme kres" where
  "copy_seg new_pid old_pid g s =
     kbind (get_head g old_pid (k_swap s)) (\<lambda>head.
       if head \<noteq> NULL then from_loop (copy_loop g new_pid head s) else Ok s)"

definition copy_swap_pages :: "pid \<Rightarrow> pid \<Rightarrow> 'a ksys_scheme \<Rightarrow> 'a ksys_scheme kres" where
  "copy_swap_pages new_pid old_pid s = kfold (copy_seg new_pid old_pid) [Text, Data, Stack] s"

text \<open>\<open>reorder_swapfile\<close>: the walk does not test the pointer.\<close>

definition reorder_cell :: "nat \<Rightarrow> swapfile \<times> ptr \<Rightarrow> (swapfile \<times> ptr) kres" where
  "reorder_cell i = (\<lambda>(sw, tmp).
     if tmp = NULL then Fail NullDeref
     else Ok (upd_cell tmp (\<lambda>e. e\<lparr>sc_offset := of_nat i * PAGE_SIZE\<rparr>) sw, sc_next (sw_cells sw tmp)))"

definition reorder_swapfile :: "swapfile \<Rightarrow> swapfile kres" where
  "reorder_swapfile sw =
     kbind (kfold reorder_cell [0..<nat (sw_size sw)] (sw, sw_free sw)) (\<lambda>(sw, tmp). Ok sw)"

section \<open>Representation\<close>

text \<open>
  A list of the swap file is the free list (\<open>None\<close>) or the list of a segment of a process.
  \<open>sw_rep sw ch\<close>: \<open>ch x\<close> are the cells of the list \<open>x\<close>, and no cell is in two lists.
\<close>

type_synonym lidx = "(swap_seg \<times> nat) option"

definition nexts :: "swapfile \<Rightarrow> ptr \<Rightarrow> ptr" where
  "nexts sw = (\<lambda>a. sc_next (sw_cells sw a))"

fun head_of :: "swapfile \<Rightarrow> lidx \<Rightarrow> ptr" where
  "head_of sw None = sw_free sw"
| "head_of sw (Some (g, i)) = seg_heads g sw ! i"

fun idx_ok :: "lidx \<Rightarrow> bool" where
  "idx_ok None \<longleftrightarrow> True"
| "idx_ok (Some (g, i)) \<longleftrightarrow> i < MAX_PROC"

definition sw_rep :: "swapfile \<Rightarrow> (lidx \<Rightarrow> ptr list) \<Rightarrow> bool" where
  "sw_rep sw ch \<longleftrightarrow>
     (\<forall>g. length (seg_heads g sw) = MAX_PROC) \<and>
     (\<forall>x. idx_ok x \<longrightarrow> hlist (nexts sw) (head_of sw x) (ch x)) \<and>
     (\<forall>x y. idx_ok x \<longrightarrow> idx_ok y \<longrightarrow> x \<noteq> y \<longrightarrow> set (ch x) \<inter> set (ch y) = {})"

definition sw_all :: "(lidx \<Rightarrow> ptr list) \<Rightarrow> ptr set" where
  "sw_all ch = (\<Union>x \<in> {x. idx_ok x}. set (ch x))"

text \<open>Distinct cells own distinct pages of the disk, and no store is in progress.\<close>

definition cells_ok :: "swapfile \<Rightarrow> ptr set \<Rightarrow> bool" where
  "cells_ok sw A \<longleftrightarrow>
     (\<forall>c \<in> A. \<not> sc_store (sw_cells sw c) \<and> page_off (sw_v sw) (sc_offset (sw_cells sw c))) \<and>
     inj_on (\<lambda>c. sc_offset (sw_cells sw c)) A"

definition swap_ok :: "swapfile \<Rightarrow> (lidx \<Rightarrow> ptr list) \<Rightarrow> bool" where
  "swap_ok sw ch \<longleftrightarrow>
     sw_rep sw ch \<and> cells_ok sw (sw_all ch) \<and> lhd_wf (sw_v sw) \<and> below_buf (sw_v sw) (sw_kbuf sw) 4096 \<and>
     card (sw_all ch) = nat (sw_size sw)"

text \<open>The pages a list holds: virtual address and contents, in list order.\<close>

definition cell_page :: "swapfile \<Rightarrow> ptr \<Rightarrow> vaddr \<times> byte list" where
  "cell_page sw c =
     (sc_vaddr (sw_cells sw c), map (disk_page (sw_v sw) (sc_offset (sw_cells sw c))) [0..<4096])"

definition frame_bytes :: "kmem \<Rightarrow> paddr \<Rightarrow> byte list" where
  "frame_bytes m p = map (mem_get (PADDR_TO_KVADDR p) m) [0..<4096]"

lemma nexts_upd_cell [simp]:
  "nexts (upd_cell c f sw) = (nexts sw)(c := sc_next (f (sw_cells sw c)))"
  by (auto simp: nexts_def upd_cell_def)

lemma nexts_other [simp]:
  "nexts (sw\<lparr>sw_free := c\<rparr>) = nexts sw" "nexts (sw\<lparr>sw_v := d\<rparr>) = nexts sw"
  "nexts (set_head g pid c sw) = nexts sw"
  by (auto simp: nexts_def set_head_def) (cases g; simp)

lemma swapfile_upd_simps [simp]:
  "seg_heads g (upd_cell c f sw) = seg_heads g sw" "seg_heads g (sw\<lparr>sw_free := c\<rparr>) = seg_heads g sw"
  "seg_heads g (sw\<lparr>sw_v := d\<rparr>) = seg_heads g sw"
  "sw_free (upd_cell c f sw) = sw_free sw" "sw_v (upd_cell c f sw) = sw_v sw"
  "sw_kbuf (upd_cell c f sw) = sw_kbuf sw" "sw_size (upd_cell c f sw) = sw_size sw"
  "sw_free (set_head g pid c sw) = sw_free sw" "sw_v (set_head g pid c sw) = sw_v sw"
  "sw_kbuf (set_head g pid c sw) = sw_kbuf sw" "sw_size (set_head g pid c sw) = sw_size sw"
  "sw_cells (set_head g pid c sw) = sw_cells sw"
  "seg_heads g' (set_head g pid c sw) = (if g' = g then (seg_heads g sw)[nat pid := c] else seg_heads g' sw)"
  by (cases g; cases g'; simp add: upd_cell_def set_head_def)+

lemma sw_cells_upd_cell [simp]: "sw_cells (upd_cell c f sw) = (sw_cells sw)(c := f (sw_cells sw c))"
  by (simp add: upd_cell_def)

lemma set_heads_upd_v [simp]: "(set_head g pid c sw)\<lparr>sw_v := d\<rparr> = set_head g pid c (sw\<lparr>sw_v := d\<rparr>)"
  by (cases g) (simp_all add: set_head_def)

lemma head_of_simps [simp]:
  "head_of (upd_cell c f sw) x = head_of sw x" "head_of (sw\<lparr>sw_v := d\<rparr>) x = head_of sw x"
  "head_of (sw\<lparr>sw_free := c\<rparr>) x = (if x = None then c else head_of sw x)"
  by (cases x rule: idx_ok.cases; simp)+

lemma head_of_set_head:
  "i < length (seg_heads g sw) \<Longrightarrow>
     head_of (set_head g (int i) c sw) x = (if x = Some (g, i) then c else head_of sw x)"
  by (cases x rule: idx_ok.cases) auto

lemma sw_repD:
  assumes "sw_rep sw ch"
  shows "length (seg_heads g sw) = MAX_PROC"
    and "idx_ok x \<Longrightarrow> hlist (nexts sw) (head_of sw x) (ch x)"
    and "idx_ok x \<Longrightarrow> idx_ok y \<Longrightarrow> x \<noteq> y \<Longrightarrow> set (ch x) \<inter> set (ch y) = {}"
  using assms by (auto simp: sw_rep_def)

text \<open>Moving one cell from a list to the head of another.\<close>

definition moved :: "lidx \<Rightarrow> lidx \<Rightarrow> ptr \<Rightarrow> (lidx \<Rightarrow> ptr list) \<Rightarrow> lidx \<Rightarrow> ptr list" where
  "moved x y c ch = ch(x := remove1 c (ch x), y := c # ch y)"

lemma sw_all_moved:
  assumes "idx_ok x" "idx_ok y" "x \<noteq> y" "c \<in> set (ch x)" "distinct (ch x)"
  shows "sw_all (moved x y c ch) = sw_all ch"
proof -
  have "set (moved x y c ch z) \<subseteq> sw_all ch" if "idx_ok z" for z
    using assms that by (auto simp: moved_def sw_all_def)
  moreover have "a \<in> sw_all (moved x y c ch)" if "idx_ok z" "a \<in> set (ch z)" for a z
  proof (cases "a = c")
    case True
    then show ?thesis using assms by (auto simp: moved_def sw_all_def)
  next
    case False
    then have "a \<in> set (moved x y c ch z)" using that assms by (auto simp: moved_def)
    then show ?thesis using that by (auto simp: sw_all_def)
  qed
  ultimately show ?thesis by (auto simp: sw_all_def)
qed

lemma sw_rep_moved:
  assumes R: "sw_rep sw ch" and x: "idx_ok x" and y: "idx_ok y" "x \<noteq> y" and c: "c \<in> set (ch x)"
    and len: "\<And>g. length (seg_heads g sw') = MAX_PROC"
    and heads: "\<And>z. idx_ok z \<Longrightarrow> z \<noteq> x \<Longrightarrow> z \<noteq> y \<Longrightarrow> head_of sw' z = head_of sw z"
    and nx: "\<And>a. a \<notin> set (ch x) \<Longrightarrow> nexts sw' a = nexts sw a"
    and from_x: "hlist (nexts sw') (head_of sw' x) (remove1 c (ch x))"
    and to_y: "nexts sw' c = head_of sw y" "head_of sw' y = c"
  shows "sw_rep sw' (moved x y c ch)"
proof -
  have keep: "hlist (nexts sw') p (ch z) = hlist (nexts sw) p (ch z)" if "idx_ok z" "z \<noteq> x" for z p
    using sw_repD(3) [OF R x that(1)] that nx by (intro hlist_cong) auto
  have "c \<noteq> NULL" using hlist_no_NULL [OF sw_repD(2) [OF R x]] c by auto
  then have ny: "hlist (nexts sw') c (c # ch y)"
    using to_y keep [of y] y sw_repD(2) [OF R y(1)] by simp
  have "hlist (nexts sw') (head_of sw' z) (moved x y c ch z)" if "idx_ok z" for z
    using that from_x ny to_y y heads keep sw_repD(2) [OF R that] by (auto simp: moved_def)
  moreover have "set (moved x y c ch z) \<inter> set (moved x y c ch w) = {}"
    if "idx_ok z" "idx_ok w" "z \<noteq> w" for z w
  proof -
    have d: "distinct (ch x)" using hlist_distinct [OF sw_repD(2) [OF R x]] .
    have cz: "c \<notin> set (ch u)" if "idx_ok u" "u \<noteq> x" for u
      using sw_repD(3) [OF R x that(1)] that c by blast
    have "set (ch u) \<inter> set (ch v) = {}" if "idx_ok u" "idx_ok v" "u \<noteq> v" for u v
      using sw_repD(3) [OF R that] .
    then show ?thesis using that cz d y x by (auto simp: moved_def dest: notin_set_remove1)
  qed
  ultimately show ?thesis using len by (auto simp: sw_rep_def)
qed

section \<open>Storing: correctness\<close>

text \<open>A cell whose \<open>cell_page\<close> is untouched: same address, offset and page of the disk.\<close>

lemma cell_page_cong:
  assumes "sc_vaddr (sw_cells sw' a) = sc_vaddr (sw_cells sw a)"
    and "sc_offset (sw_cells sw' a) = sc_offset (sw_cells sw a)"
    and "\<And>k. k < 4096 \<Longrightarrow> disk_page (sw_v sw') (sc_offset (sw_cells sw a)) k =
                       disk_page (sw_v sw) (sc_offset (sw_cells sw a)) k"
  shows "cell_page sw' a = cell_page sw a"
  using assms by (simp add: cell_page_def)

lemma cells_ok_cong:
  assumes "cells_ok sw A" "page_off (sw_v sw') = page_off (sw_v sw)"
    and "\<And>a. a \<in> A \<Longrightarrow> sc_offset (sw_cells sw' a) = sc_offset (sw_cells sw a)"
    and "\<And>a. a \<in> A \<Longrightarrow> \<not> sc_store (sw_cells sw' a)"
  shows "cells_ok sw' A"
  using assms inj_on_cong [of A "\<lambda>c. sc_offset (sw_cells sw' c)" "\<lambda>c. sc_offset (sw_cells sw c)"]
  by (simp add: cells_ok_def)

lemma swap_ok_intro:
  assumes "swap_ok sw ch" "sw_rep sw' ch'" "sw_all ch' = sw_all ch" "same_dev (sw_v sw) (sw_v sw')"
    and "sw_kbuf sw' = sw_kbuf sw" "sw_size sw' = sw_size sw"
    and "\<And>a. a \<in> sw_all ch \<Longrightarrow> sc_offset (sw_cells sw' a) = sc_offset (sw_cells sw a)"
    and "\<And>a. a \<in> sw_all ch \<Longrightarrow> \<not> sc_store (sw_cells sw' a)"
  shows "swap_ok sw' ch'"
proof -
  have pf: "page_off (sw_v sw') = page_off (sw_v sw)" using lhd_pages.eqd_same [OF assms(4)] by simp
  have ok: "cells_ok sw (sw_all ch)" "lhd_wf (sw_v sw)" "below_buf (sw_v sw) (sw_kbuf sw) 4096"
      "card (sw_all ch) = nat (sw_size sw)"
    using assms(1) by (simp_all add: swap_ok_def)
  have "cells_ok sw' (sw_all ch)" by (rule cells_ok_cong [OF ok(1) pf assms(7,8)])
  then show ?thesis
    unfolding swap_ok_def using assms(2) ok(2-4) 
    by (simp only: assms(3,5,6) same_dev_simps [OF assms(4)] simp_thms)
qed

definition one_seg :: "addrspace \<Rightarrow> vaddr \<Rightarrow> swap_seg \<Rightarrow> bool" where
  "one_seg as v g \<longleftrightarrow>
     (in_text as v \<longleftrightarrow> g = Text) \<and> (in_data as v \<longleftrightarrow> g = Data) \<and>
     (v \<le> USERSTACK \<and> above_data as v \<longleftrightarrow> g = Stack)"

lemma one_seg_unique: "one_seg as v g \<Longrightarrow> swap_seg_of as v = Some g"
  by (cases g) (auto simp: one_seg_def swap_seg_of_def)

lemma push_cell_ok:
  "sw_rep sw ch \<Longrightarrow> i < MAX_PROC \<Longrightarrow> sw' = sw\<lparr>sw_free := f\<rparr> \<Longrightarrow>
     push_cell g (int i) c sw' =
       Ok (set_head g (int i) c (upd_cell c (\<lambda>e. e\<lparr>sc_next := head_of sw (Some (g, i))\<rparr>) sw'))"
  by (simp add: push_cell_def get_head_def sw_repD)

lemma store_begin_run:
  assumes "sw_rep (k_swap s) ch" "ch None = c # fr" "\<not> sc_store (sw_cells (k_swap s) c)"
    and "k_as s = Some as" "one_seg as v g" "i < MAX_PROC"
  shows "store_begin v (int i) s = Ok (c, s\<lparr>k_swap :=
    upd_cell c (\<lambda>e. e\<lparr>sc_vaddr := v, sc_store := True\<rparr>)
      (set_head g (int i) c (upd_cell c (\<lambda>e. e\<lparr>sc_next := head_of (k_swap s) (Some (g, i))\<rparr>)
        ((k_swap s)\<lparr>sw_free := nexts (k_swap s) c\<rparr>)))\<rparr>)"
proof -
  have c: "sw_free (k_swap s) = c" "c \<noteq> NULL"
    using sw_repD(2) [OF assms(1), of None] assms(2) by auto
  show ?thesis
    using assms(3-6) c push_cell_ok [OF assms(1,6) refl, where g = g and c = c and f = "nexts (k_swap s) c"]
    by (cases g) (auto simp: store_begin_def one_seg_def nexts_def Let_def)
qed

text \<open>What an operation leaves alone: everything but memory, counters and swap file.\<close>

definition same_proc :: "'a ksys_scheme \<Rightarrow> 'a ksys_scheme \<Rightarrow> bool" where
  "same_proc s s' \<longleftrightarrow>
     s' = s\<lparr>k_mem := k_mem s', k_stats := k_stats s', k_swap := k_swap s'\<rparr>"

lemma same_proc_upd [simp]: "same_proc s (s\<lparr>k_swap := sw, k_mem := m, k_stats := st\<rparr>)"
  by (simp add: same_proc_def)

lemma hlist_head: "hlist nx p (c # fr) \<Longrightarrow> p = c \<and> c \<noteq> NULL \<and> hlist nx (nx c) fr"
  by simp

lemma sw_all_memI: "idx_ok x \<Longrightarrow> c \<in> set (ch x) \<Longrightarrow> c \<in> sw_all ch"
  by (auto simp: sw_all_def)

lemma store_swap_correct:
  assumes ok: "swap_ok (k_swap s) ch" and free: "ch None = c # fr"
    and as: "k_as s = Some as" "one_seg as v g" and i: "i < MAX_PROC"
    and room: "below_buf (sw_v (k_swap s)) (PADDR_TO_KVADDR p) 4096"
  obtains s' where "store_swap v (int i) p s = Ok (1, s')" "same_proc s s'"
    and "k_stats s' = add_swapfile_write (k_stats s)"
    and "swap_ok (k_swap s') (moved None (Some (g, i)) c ch)"
    and "cell_page (k_swap s') c = (v, frame_bytes (k_mem s) p)"
    and "\<forall>a \<in> sw_all ch - {c}. cell_page (k_swap s') a = cell_page (k_swap s) a"
    and "\<forall>a. \<not> in_buf (sw_v (k_swap s)) a \<longrightarrow> k_mem s' a = k_mem s a"
    and "same_dev (sw_v (k_swap s)) (sw_v (k_swap s'))"
proof -
  let ?sw = "k_swap s" and ?y = "Some (g, i)"
  have R: "sw_rep ?sw ch" and C: "cells_ok ?sw (sw_all ch)" and W: "lhd_wf (sw_v ?sw)"
    using ok by (auto simp: swap_ok_def)
  have hd: "sw_free ?sw = c" "c \<noteq> NULL" "hlist (nexts ?sw) (nexts ?sw c) fr"
    using sw_repD(2) [OF R, of None] free by auto
  have cA: "c \<in> sw_all ch" using free by (intro sw_all_memI [of None]) auto
  have po: "page_off (sw_v ?sw) (sc_offset (sw_cells ?sw c))" and st: "\<not> sc_store (sw_cells ?sw c)"
    using C cA by (auto simp: cells_ok_def)
  let ?sw1 = "upd_cell c (\<lambda>e. e\<lparr>sc_vaddr := v, sc_store := True\<rparr>)
      (set_head g (int i) c (upd_cell c (\<lambda>e. e\<lparr>sc_next := head_of ?sw ?y\<rparr>)
        (?sw\<lparr>sw_free := nexts ?sw c\<rparr>)))"
  obtain d' m' where D: "write_page (k_uc s) (sw_v ?sw) (sc_offset (sw_cells ?sw c)) (PADDR_TO_KVADDR p) (k_mem s) =
        Ok (0, d', m')" "same_dev (sw_v ?sw) d'"
      "\<forall>k < 4096. disk_page d' (sc_offset (sw_cells ?sw c)) k = mem_get (PADDR_TO_KVADDR p) (k_mem s) k"
      "\<forall>off'. page_off (sw_v ?sw) off' \<longrightarrow> off' \<noteq> sc_offset (sw_cells ?sw c) \<longrightarrow>
         (\<forall>k < 4096. disk_page d' off' k = disk_page (sw_v ?sw) off' k)"
      "\<forall>a. \<not> in_buf (sw_v ?sw) a \<longrightarrow> m' a = k_mem s a"
    using lhd_pages.wr_ok [OF W po room, of "k_uc s" "k_mem s"] by blast
  let ?s' = "store_end c (s\<lparr>k_swap := ?sw1\<lparr>sw_v := d'\<rparr>, k_mem := m'\<rparr>)"
  let ?sw' = "k_swap ?s'"
  have run: "store_swap v (int i) p s = Ok (1, ?s')"
    using store_begin_run [OF R free st as i] D(1) by (simp add: store_swap_def)
  have rep: "sw_rep ?sw' (moved None ?y c ch)"
  proof (rule sw_rep_moved [OF R, of None ?y c])
    show "hlist (nexts ?sw') (head_of ?sw' None) (remove1 c (ch None))"
      using hd free hlist_distinct [OF sw_repD(2) [OF R, of None]] by (simp add: store_end_def)
  qed (use i free sw_repD(1) [OF R] in \<open>auto simp: store_end_def head_of_set_head nexts_def\<close>)
  have all: "sw_all (moved None ?y c ch) = sw_all ch"
    using i free hlist_distinct [OF sw_repD(2) [OF R, of None]] by (intro sw_all_moved) auto
  have ok': "swap_ok ?sw' (moved None ?y c ch)"
    using D(2) C by (intro swap_ok_intro [OF ok rep all]) (auto simp: store_end_def cells_ok_def)
  have page: "cell_page ?sw' a = cell_page ?sw a" if "a \<in> sw_all ch" "a \<noteq> c" for a
  proof (rule cell_page_cong)
    have "sc_offset (sw_cells ?sw a) \<noteq> sc_offset (sw_cells ?sw c)"
      using C that cA by (auto simp: cells_ok_def inj_on_def)
    then show "disk_page (sw_v ?sw') (sc_offset (sw_cells ?sw a)) k = disk_page (sw_v ?sw) (sc_offset (sw_cells ?sw a)) k"
      if "k < 4096" for k
      using D(4) C \<open>a \<in> sw_all ch\<close> that by (simp add: store_end_def cells_ok_def)
  qed (use that in \<open>simp_all add: store_end_def\<close>)
  show thesis
    by (rule that [OF run _ _ ok'])
       (use D page in \<open>auto simp: store_end_def same_proc_def cell_page_def frame_bytes_def\<close>)
qed

section \<open>Loading: correctness\<close>

lemma swap_walk_absent:
  "hlist (\<lambda>a. sc_next (h a)) q as \<Longrightarrow> (\<And>a. a \<in> set as \<Longrightarrow> sc_vaddr (h a) \<noteq> v) \<Longrightarrow>
     swap_walk h prev q v = Some (Ok None)"
proof (induction as arbitrary: q prev)
  case Nil
  then show ?case by (subst swap_walk.simps) simp
next
  case (Cons a as)
  then show ?case by (subst swap_walk.simps) auto
qed

lemma swap_walk_found:
  "hlist (\<lambda>a. sc_next (h a)) q (xs @ c # ys) \<Longrightarrow> (\<And>a. a \<in> set xs \<Longrightarrow> sc_vaddr (h a) \<noteq> v) \<Longrightarrow>
     sc_vaddr (h c) = v \<Longrightarrow>
     swap_walk h prev q v = Some (Ok (Some (if xs = [] then prev else last xs, c)))"
proof (induction xs arbitrary: q prev)
  case Nil
  then show ?case by (subst swap_walk.simps) simp
next
  case (Cons a xs)
  then show ?case by (subst swap_walk.simps) auto
qed

text \<open>The state after unlinking the cell behind \<open>xs\<close>.\<close>

lemma unlink_cell_ok:
  assumes R: "sw_rep sw ch" and i: "i < MAX_PROC" and ch: "ch (Some (g, i)) = xs @ c # ys"
  obtains sw' where
    "unlink_cell g (int i) (if xs = [] then NULL else last xs) c sw = Ok sw'"
    and "hlist (nexts sw') (head_of sw' (Some (g, i))) (xs @ ys)"
    and "\<forall>z. z \<noteq> Some (g, i) \<longrightarrow> head_of sw' z = head_of sw z"
    and "\<forall>g. length (seg_heads g sw') = MAX_PROC"
    and "\<forall>a. sw_cells sw' a = (sw_cells sw a)\<lparr>sc_next := nexts sw' a\<rparr>"
    and "\<forall>a. a \<notin> set xs \<longrightarrow> nexts sw' a = nexts sw a"
    and "sw_v sw' = sw_v sw" "sw_kbuf sw' = sw_kbuf sw" "sw_size sw' = sw_size sw" "sw_free sw' = sw_free sw"
proof -
  have h: "hlist (nexts sw) (head_of sw (Some (g, i))) (xs @ c # ys)"
    using sw_repD(2) [OF R, of "Some (g, i)"] i ch by simp
  show thesis
  proof (cases "xs = []")
    case True
    let ?sw' = "set_head g (int i) (sc_next (sw_cells sw c)) sw"
    show thesis
      by (rule that [of ?sw'])
        (use True h sw_repD(1) [OF R] i in \<open>auto simp: unlink_cell_def head_of_set_head nexts_def\<close>)
  next
    case False
    then obtain us q where xs: "xs = us @ [q]" by (metis append_butlast_last_id)
    let ?sw' = "upd_cell q (\<lambda>e. e\<lparr>sc_next := sc_next (sw_cells sw c)\<rparr>) sw"
    have q: "q \<noteq> NULL" "sc_next (sw_cells sw q) = c"
      using h hlist_no_NULL [OF h] hlist_suffix [of "nexts sw" _ us q "c # ys"] 
      by (auto simp: xs nexts_def)
    have hl: "hlist (nexts ?sw') (head_of ?sw' (Some (g, i))) (xs @ ys)"
      using hlist_unlink [of "nexts sw" _ us q c ys] h xs by (simp add: nexts_def [of sw, THEN fun_cong, of c, symmetric])
    show thesis
      by (rule that [OF _ hl]) (use xs q sw_repD(1) [OF R] in \<open>auto simp: unlink_cell_def nexts_def\<close>)
  qed
qed

lemma load_swap_correct:
  assumes ok: "swap_ok (k_swap s) ch" and as: "k_as s = Some as" "swap_seg_of as v = Some g"
    and i: "i < MAX_PROC" "k_pid s = int i"
    and ch: "ch (Some (g, i)) = xs @ c # ys" "sc_vaddr (sw_cells (k_swap s) c) = v"
      "\<And>a. a \<in> set xs \<Longrightarrow> sc_vaddr (sw_cells (k_swap s) a) \<noteq> v"
    and room: "below_buf (sw_v (k_swap s)) (PADDR_TO_KVADDR p) 4096"
  obtains s' where "load_swap v (int i) p s = Ok (1, s')" "same_proc s s'"
    and "k_stats s' = add_page_fault SWAPFILE_FAULT (add_page_fault DISK_FAULT (k_stats s))"
    and "swap_ok (k_swap s') (moved (Some (g, i)) None c ch)"
    and "(v, frame_bytes (k_mem s') p) = cell_page (k_swap s) c"
    and "\<forall>a. a \<noteq> c \<longrightarrow> cell_page (k_swap s') a = cell_page (k_swap s) a"
    and "\<forall>a. \<not> in_buf (sw_v (k_swap s)) a \<longrightarrow> \<not> unat (a - PADDR_TO_KVADDR p) < 4096 \<longrightarrow> k_mem s' a = k_mem s a"
    and "same_dev (sw_v (k_swap s)) (sw_v (k_swap s'))"
proof -
  let ?sw = "k_swap s" and ?x = "Some (g, i)"
  have R: "sw_rep ?sw ch" and C: "cells_ok ?sw (sw_all ch)" and W: "lhd_wf (sw_v ?sw)"
    using ok by (auto simp: swap_ok_def)
  have hl: "hlist (\<lambda>a. sc_next (sw_cells ?sw a)) (seg_heads g ?sw ! i) (xs @ c # ys)"
    using sw_repD(2) [OF R, of ?x] i ch(1) by (simp add: nexts_def)
  have d: "distinct (xs @ c # ys)" by (rule hlist_distinct [OF hl])
  have cA: "c \<in> sw_all ch" using ch i by (intro sw_all_memI [of ?x]) auto
  have po: "page_off (sw_v ?sw) (sc_offset (sw_cells ?sw c))" and st: "\<not> sc_store (sw_cells ?sw c)"
    using C cA by (auto simp: cells_ok_def)
  obtain sw1 where U: "unlink_cell g (int i) (if xs = [] then NULL else last xs) c ?sw = Ok sw1"
      "hlist (nexts sw1) (head_of sw1 ?x) (xs @ ys)" "\<forall>z. z \<noteq> ?x \<longrightarrow> head_of sw1 z = head_of ?sw z"
      "\<forall>g. length (seg_heads g sw1) = MAX_PROC"
      "\<forall>a. sw_cells sw1 a = (sw_cells ?sw a)\<lparr>sc_next := nexts sw1 a\<rparr>"
      "\<forall>a. a \<notin> set xs \<longrightarrow> nexts sw1 a = nexts ?sw a"
      "sw_v sw1 = sw_v ?sw" "sw_kbuf sw1 = sw_kbuf ?sw" "sw_size sw1 = sw_size ?sw" "sw_free sw1 = sw_free ?sw"
    using unlink_cell_ok [OF R i(1) ch(1)] .
  have cell1: "sc_offset (sw_cells sw1 a) = sc_offset (sw_cells ?sw a)"
      "sc_vaddr (sw_cells sw1 a) = sc_vaddr (sw_cells ?sw a)"
      "sc_store (sw_cells sw1 a) = sc_store (sw_cells ?sw a)" for a
    using U(5) [rule_format, of a] by simp_all
  obtain d' m' where D: "read_page (k_uc s) (sw_v ?sw) (sc_offset (sw_cells ?sw c)) (PADDR_TO_KVADDR p) (k_mem s) =
        Ok (0, d', m')" "same_dev (sw_v ?sw) d'" "disk_page d' = disk_page (sw_v ?sw)"
      "\<forall>k < 4096. mem_get (PADDR_TO_KVADDR p) m' k = disk_page (sw_v ?sw) (sc_offset (sw_cells ?sw c)) k"
      "\<forall>a. \<not> in_buf (sw_v ?sw) a \<longrightarrow> \<not> unat (a - PADDR_TO_KVADDR p) < 4096 \<longrightarrow> m' a = k_mem s a"
    using lhd_pages.rd_ok [OF W po room, of "k_uc s" "k_mem s"] by blast
  let ?sw' = "upd_cell c (\<lambda>e. e\<lparr>sc_vaddr := 0\<rparr>) (release_cell c (sw1\<lparr>sw_v := d'\<rparr>))"
  let ?s' = "s\<lparr>k_swap := ?sw', k_mem := m',
    k_stats := add_page_fault SWAPFILE_FAULT (add_page_fault DISK_FAULT (k_stats s))\<rparr>"
  have run: "load_swap v (int i) p s = Ok (1, ?s')"
    using as i sw_repD(1) [OF R] swap_walk_found [OF hl ch(3) ch(2), of NULL] U(1) D(1) st
    by (simp add: load_swap_def get_head_def cell1 U(7))
  have nx: "nexts ?sw' = (nexts sw1)(c := sw_free ?sw)"
    by (simp add: release_cell_def U(10))
  have hx: "hlist (nexts ?sw') (head_of ?sw' ?x) (remove1 c (ch ?x))"
    using U(2) d by (simp add: nx ch(1) remove1_append release_cell_def)
  have rep: "sw_rep ?sw' (moved ?x None c ch)"
    by (rule sw_rep_moved [OF R _ _ _ _ _ _ _ hx])
       (use i ch(1) U(3,4,6,10) nx in \<open>auto simp: release_cell_def\<close>)
  have all: "sw_all (moved ?x None c ch) = sw_all ch"
    using i ch(1) d by (intro sw_all_moved) auto
  have ok': "swap_ok ?sw' (moved ?x None c ch)"
    using D(2) C U(8,9) by (intro swap_ok_intro [OF ok rep all]) (auto simp: release_cell_def cells_ok_def cell1)
  show thesis
    by (rule that [OF run])
       (use ok' D ch(2) in \<open>auto simp: same_proc_def cell_page_def frame_bytes_def release_cell_def cell1\<close>)
qed

lemma load_swap_absent:
  assumes "sw_rep (k_swap s) ch" "k_as s = Some as" "swap_seg_of as v = Some g"
    and "i < MAX_PROC" "k_pid s = int i"
    and "\<And>a. a \<in> set (ch (Some (g, i))) \<Longrightarrow> sc_vaddr (sw_cells (k_swap s) a) \<noteq> v"
  shows "load_swap v (int i) p s = Ok (0, s)"
proof -
  have "hlist (\<lambda>a. sc_next (sw_cells (k_swap s) a)) (seg_heads g (k_swap s) ! i) (ch (Some (g, i)))"
    using sw_repD(2) [OF assms(1), of "Some (g, i)"] assms(4) by (simp add: nexts_def)
  from swap_walk_absent [OF this assms(6), of NULL] show ?thesis
    using assms(2-5) sw_repD(1) [OF assms(1)] by (simp add: load_swap_def get_head_def)
qed

section \<open>Removing a process: correctness\<close>

definition same_data :: "swapfile \<Rightarrow> swapfile \<Rightarrow> bool" where
  "same_data sw sw' \<longleftrightarrow>
     (\<forall>a. sw_cells sw' a = (sw_cells sw a)\<lparr>sc_next := nexts sw' a\<rparr>) \<and>
     sw_v sw' = sw_v sw \<and> sw_kbuf sw' = sw_kbuf sw \<and> sw_size sw' = sw_size sw"

lemma same_dataD:
  assumes "same_data sw sw'"
  shows "sc_vaddr (sw_cells sw' a) = sc_vaddr (sw_cells sw a)"
    "sc_store (sw_cells sw' a) = sc_store (sw_cells sw a)"
    "sc_offset (sw_cells sw' a) = sc_offset (sw_cells sw a)"
    "sw_v sw' = sw_v sw" "sw_kbuf sw' = sw_kbuf sw" "sw_size sw' = sw_size sw"
proof -
  have "sw_cells sw' a = (sw_cells sw a)\<lparr>sc_next := nexts sw' a\<rparr>" using assms by (simp add: same_data_def)
  then show "sc_vaddr (sw_cells sw' a) = sc_vaddr (sw_cells sw a)"
    "sc_store (sw_cells sw' a) = sc_store (sw_cells sw a)"
    "sc_offset (sw_cells sw' a) = sc_offset (sw_cells sw a)" by simp_all
  show "sw_v sw' = sw_v sw" "sw_kbuf sw' = sw_kbuf sw" "sw_size sw' = sw_size sw"
    using assms by (simp_all add: same_data_def)
qed

lemma same_data_trans: "same_data a b \<Longrightarrow> same_data b c \<Longrightarrow> same_data a c"
  by (simp add: same_data_def)

lemma same_data_page: "same_data sw sw' \<Longrightarrow> cell_page sw' a = cell_page sw a"
  by (simp add: cell_page_def same_dataD)

lemma same_data_ok:
  "swap_ok sw ch \<Longrightarrow> same_data sw sw' \<Longrightarrow> sw_rep sw' ch' \<Longrightarrow> sw_all ch' = sw_all ch \<Longrightarrow> swap_ok sw' ch'"
  by (rule swap_ok_intro [of sw ch]) (auto simp: same_dataD swap_ok_def cells_ok_def)

lemma same_data_release: "same_data sw (release_cell c sw)"
  by (auto simp: same_data_def release_cell_def nexts_def)

lemma same_data_set_head: "same_data sw (set_head g pid c sw)"
  by (auto simp: same_data_def nexts_def)

text \<open>The loop pushes the cells of the list, one by one, on the free list.\<close>

lemma remove_loop_ok:
  assumes "hlist (nexts sw) e as" "hlist (nexts sw) (sw_free sw) fr" "set as \<inter> set fr = {}"
    and "\<And>a. a \<in> set as \<Longrightarrow> \<not> sc_store (sw_cells sw a)"
  shows "\<exists>sw'. remove_loop e sw = Some (Ok sw') \<and> same_data sw sw'
    \<and> hlist (nexts sw') (sw_free sw') (rev as @ fr)
    \<and> (\<forall>a. a \<notin> set as \<longrightarrow> nexts sw' a = nexts sw a) \<and> (\<forall>g. seg_heads g sw' = seg_heads g sw)"
  using assms
proof (induction as arbitrary: e sw fr)
  case Nil
  then show ?case by (subst remove_loop.simps) (auto simp: same_data_def nexts_def)
next
  case (Cons a as)
  let ?sw = "release_cell a sw"
  have e: "e = a" "a \<noteq> NULL" "hlist (nexts sw) (nexts sw a) as" using Cons.prems(1) by auto
  have a: "a \<notin> set as" using hlist_distinct [OF Cons.prems(1)] by simp
  have nx: "nexts ?sw = (nexts sw)(a := sw_free sw)" "sw_free ?sw = a" by (simp_all add: release_cell_def)
  have "\<exists>sw'. remove_loop (nexts sw a) ?sw = Some (Ok sw') \<and> same_data ?sw sw'
      \<and> hlist (nexts sw') (sw_free sw') (rev as @ a # fr)
      \<and> (\<forall>b. b \<notin> set as \<longrightarrow> nexts sw' b = nexts ?sw b) \<and> (\<forall>g. seg_heads g sw' = seg_heads g ?sw)"
  proof (rule Cons.IH)
    show "hlist (nexts ?sw) (nexts sw a) as" using e(3) by (simp only: nx hlist_upd [OF a])
    have af: "a \<notin> set fr" using Cons.prems(3) by auto
    show "hlist (nexts ?sw) (sw_free ?sw) (a # fr)"
      unfolding nx by (rule hlist_push [OF Cons.prems(2) af e(2)])
  qed (use Cons.prems a in \<open>auto simp: same_dataD [OF same_data_release]\<close>)
  then show ?case
    using e Cons.prems(4) a same_data_trans [OF same_data_release]
    by (subst remove_loop.simps) (auto simp: nexts_def release_cell_def)
qed

lemma remove_seg_ok:
  assumes ok: "swap_ok sw ch" and i: "i < MAX_PROC"
  shows "\<exists>sw'. remove_seg (int i) g sw = Ok sw' \<and> same_data sw sw'
    \<and> swap_ok sw' (ch(Some (g, i) := [], None := rev (ch (Some (g, i))) @ ch None))"
proof -
  let ?x = "Some (g, i)" and ?ch' = "ch(Some (g, i) := [], None := rev (ch (Some (g, i))) @ ch None)"
  have R: "sw_rep sw ch" and C: "cells_ok sw (sw_all ch)" using ok by (auto simp: swap_ok_def)
  have hx: "hlist (nexts sw) (seg_heads g sw ! i) (ch ?x)" and hf: "hlist (nexts sw) (sw_free sw) (ch None)"
    using sw_repD(2) [OF R, of ?x] sw_repD(2) [OF R, of None] i by auto
  have dis: "set (ch ?x) \<inter> set (ch None) = {}" using sw_repD(3) [OF R, of ?x None] i by simp
  have st: "\<not> sc_store (sw_cells sw a)" if "a \<in> set (ch ?x)" for a
    using C that sw_all_memI [of ?x a ch] i by (auto simp: cells_ok_def)
  obtain sw1 where L: "remove_loop (seg_heads g sw ! i) sw = Some (Ok sw1)" "same_data sw sw1"
      "hlist (nexts sw1) (sw_free sw1) (rev (ch ?x) @ ch None)"
      "\<forall>a. a \<notin> set (ch ?x) \<longrightarrow> nexts sw1 a = nexts sw a" "\<forall>g. seg_heads g sw1 = seg_heads g sw"
    using remove_loop_ok [OF hx hf dis st] by blast
  let ?sw' = "set_head g (int i) NULL sw1"
  have all: "sw_all ?ch' = sw_all ch"
  proof -
    have "set (?ch' z) \<subseteq> sw_all ch" if "idx_ok z" for z
      using that i sw_all_memI [of ?x _ ch] sw_all_memI [of z _ ch] sw_all_memI [of None _ ch] by auto
    moreover have "a \<in> sw_all ?ch'" if "idx_ok z" "a \<in> set (ch z)" for a z
    proof (cases "z = ?x \<or> z = None")
      case True
      then show ?thesis using that by (intro sw_all_memI [of None a ?ch']) auto
    next
      case False
      then show ?thesis using that by (intro sw_all_memI [of z a ?ch']) auto
    qed
    ultimately show ?thesis by (auto simp: sw_all_def)
  qed
  have heads: "head_of ?sw' z = (if z = ?x then NULL else if z = None then sw_free sw1 else head_of sw z)" for z
    using L(5) sw_repD(1) [OF R, of g] i by (cases z rule: idx_ok.cases) auto
  have keep: "hlist (nexts sw1) p (ch z) = hlist (nexts sw) p (ch z)" if "idx_ok z" "z \<noteq> ?x" for z p
    using sw_repD(3) [OF R, of ?x z] that i L(4) by (intro hlist_cong) auto
  have hl: "hlist (nexts ?sw') (head_of ?sw' z) (?ch' z)" if "idx_ok z" for z
    using that L(3) keep sw_repD(2) [OF R that] by (auto simp: heads)
  have ds: "set (?ch' z) \<inter> set (?ch' w) = {}" if "idx_ok z" "idx_ok w" "z \<noteq> w" for z w
    using that i sw_repD(3) [OF R, of z w] sw_repD(3) [OF R, of ?x z] sw_repD(3) [OF R, of ?x w] by auto
  have rep: "sw_rep ?sw' ?ch'"
    using hl ds L(5) sw_repD(1) [OF R] by (simp add: sw_rep_def)
  have sd: "same_data sw ?sw'" by (rule same_data_trans [OF L(2) same_data_set_head])
  show ?thesis
  proof (cases "seg_heads g sw ! i = NULL")
    case True
    then have e: "ch ?x = []" using hx by simp
    then have "?ch' = ch" by (simp add: fun_upd_idem)
    moreover have "remove_seg (int i) g sw = Ok sw"
      using True sw_repD(1) [OF R] i by (simp add: remove_seg_def get_head_def)
    ultimately show ?thesis using ok by (auto simp: same_data_def nexts_def)
  next
    case False
    then have "remove_seg (int i) g sw = Ok ?sw'"
      using sw_repD(1) [OF R] i L(1) by (simp add: remove_seg_def get_head_def)
    then show ?thesis using sd same_data_ok [OF ok sd rep all] by blast
  qed
qed

text \<open>The three lists of the process one after the other.\<close>

definition removed :: "nat \<Rightarrow> (lidx \<Rightarrow> ptr list) \<Rightarrow> lidx \<Rightarrow> ptr list" where
  "removed i ch = (\<lambda>x. case x of
     None \<Rightarrow> rev (ch (Some (Stack, i))) @ rev (ch (Some (Data, i))) @ rev (ch (Some (Text, i))) @ ch None
   | Some (g, j) \<Rightarrow> if j = i then [] else ch x)"

lemma remove_process_correct:
  assumes ok: "swap_ok (k_swap s) ch" and i: "i < MAX_PROC"
  shows "\<exists>sw'. remove_process_from_swap (int i) s = Ok (s\<lparr>k_swap := sw'\<rparr>) \<and> swap_ok sw' (removed i ch)
    \<and> same_data (k_swap s) sw'"
proof -
  obtain sw1 where 1: "remove_seg (int i) Text (k_swap s) = Ok sw1" "same_data (k_swap s) sw1"
      "swap_ok sw1 (ch(Some (Text, i) := [], None := rev (ch (Some (Text, i))) @ ch None))"
    using remove_seg_ok [OF ok i, of Text] by blast
  obtain sw2 where 2: "remove_seg (int i) Data sw1 = Ok sw2" "same_data sw1 sw2"
      "swap_ok sw2 (ch(Some (Text, i) := [], Some (Data, i) := [],
         None := rev (ch (Some (Data, i))) @ rev (ch (Some (Text, i))) @ ch None))"
    using remove_seg_ok [OF 1(3) i, of Data] by (auto simp: fun_upd_twist)
  obtain sw3 where 3: "remove_seg (int i) Stack sw2 = Ok sw3" "same_data sw2 sw3"
      "swap_ok sw3 (ch(Some (Text, i) := [], Some (Data, i) := [], Some (Stack, i) := [],
         None := rev (ch (Some (Stack, i))) @ rev (ch (Some (Data, i))) @ rev (ch (Some (Text, i))) @ ch None))"
    using remove_seg_ok [OF 2(3) i, of Stack] by (auto simp: fun_upd_twist)
  have "ch(Some (Text, i) := [], Some (Data, i) := [], Some (Stack, i) := [],
      None := rev (ch (Some (Stack, i))) @ rev (ch (Some (Data, i))) @ rev (ch (Some (Text, i))) @ ch None)
      = removed i ch"
  proof
    fix x show "(ch(Some (Text, i) := [], Some (Data, i) := [], Some (Stack, i) := [],
      None := rev (ch (Some (Stack, i))) @ rev (ch (Some (Data, i))) @ rev (ch (Some (Text, i))) @ ch None)) x
      = removed i ch x"
    proof (cases x rule: idx_ok.cases)
      case (2 g j)
      then show ?thesis by (cases g) (auto simp: removed_def)
    qed (simp add: removed_def)
  qed
  then have "swap_ok sw3 (removed i ch)" using 3(3) by argo
  moreover have "same_data (k_swap s) sw3"
    by (rule same_data_trans [OF 1(2) same_data_trans [OF 2(2) 3(2)]])
  ultimately show ?thesis
    using 1(1) 2(1) 3(1) by (intro exI [of _ sw3]) (simp add: remove_process_from_swap_def)
qed

section \<open>Copying the pages of a process: correctness\<close>

text \<open>Memory outside the driver's buffer and the copy buffer.\<close>

definition mem_frame :: "swapfile \<Rightarrow> kmem \<Rightarrow> kmem \<Rightarrow> bool" where
  "mem_frame sw m m' \<longleftrightarrow>
     (\<forall>a. \<not> in_buf (sw_v sw) a \<longrightarrow> \<not> unat (a - sw_kbuf sw) < 4096 \<longrightarrow> m' a = m a)"

lemma copy_cell_ok:
  assumes ok: "swap_ok (k_swap s) ch" and i: "i < MAX_PROC"
    and c: "c \<in> sw_all ch" "c \<noteq> f" and free: "ch None = f # fr"
  obtains s' where "copy_cell g (int i) c s = Ok s'" "same_proc s s'" "k_stats s' = k_stats s"
    and "swap_ok (k_swap s') (moved None (Some (g, i)) f ch)"
    and "cell_page (k_swap s') f = cell_page (k_swap s) c"
    and "\<forall>a \<in> sw_all ch - {f}. cell_page (k_swap s') a = cell_page (k_swap s) a"
    and "\<forall>a. a \<noteq> f \<longrightarrow> nexts (k_swap s') a = nexts (k_swap s) a"
    and "mem_frame (k_swap s) (k_mem s) (k_mem s')"
    and "same_dev (sw_v (k_swap s)) (sw_v (k_swap s'))" "sw_kbuf (k_swap s') = sw_kbuf (k_swap s)"
proof -
  let ?sw = "k_swap s" and ?y = "Some (g, i)"
  have R: "sw_rep ?sw ch" and C: "cells_ok ?sw (sw_all ch)" and W: "lhd_wf (sw_v ?sw)"
    and K: "below_buf (sw_v ?sw) (sw_kbuf ?sw) 4096"
    using ok by (auto simp: swap_ok_def)
  have hd: "sw_free ?sw = f" "f \<noteq> NULL" "hlist (nexts ?sw) (nexts ?sw f) fr"
    using sw_repD(2) [OF R, of None] free by auto
  have fA: "f \<in> sw_all ch" using free by (intro sw_all_memI [of None]) auto
  let ?oc = "sc_offset (sw_cells ?sw c)" and ?of = "sc_offset (sw_cells ?sw f)"
  have po: "page_off (sw_v ?sw) ?oc" "page_off (sw_v ?sw) ?of"
    and st: "\<not> sc_store (sw_cells ?sw c)" "\<not> sc_store (sw_cells ?sw f)"
    using C fA c by (auto simp: cells_ok_def)
  obtain d1 m1 d2 m2 where D: "read_page (k_uc s) (sw_v ?sw) ?oc (sw_kbuf ?sw) (k_mem s) = Ok (0, d1, m1)"
      "write_page (k_uc s) d1 ?of (sw_kbuf ?sw) m1 = Ok (0, d2, m2)" "same_dev (sw_v ?sw) d2"
      "\<forall>k < 4096. disk_page d2 ?of k = disk_page (sw_v ?sw) ?oc k"
      "\<forall>o2. page_off (sw_v ?sw) o2 \<longrightarrow> o2 \<noteq> ?of \<longrightarrow> (\<forall>k < 4096. disk_page d2 o2 k = disk_page (sw_v ?sw) o2 k)"
      "\<forall>a. \<not> in_buf (sw_v ?sw) a \<longrightarrow> \<not> unat (a - sw_kbuf ?sw) < 4096 \<longrightarrow> m2 a = k_mem s a"
    using lhd_pages.rd_wr [OF W po(1) po(2) K, of "k_uc s" "k_mem s"] by blast
  let ?sw1 = "set_head g (int i) f (upd_cell f (\<lambda>e. e\<lparr>sc_next := head_of ?sw ?y\<rparr>)
        (?sw\<lparr>sw_free := nexts ?sw f\<rparr>))"
  let ?sw' = "upd_cell f (\<lambda>e. e\<lparr>sc_vaddr := sc_vaddr (sw_cells ?sw c)\<rparr>) (?sw1\<lparr>sw_v := d2\<rparr>)"
  let ?s' = "s\<lparr>k_swap := ?sw', k_mem := m2\<rparr>"
  have run: "copy_cell g (int i) c s = Ok ?s'"
    using hd st D(1,2) c(2) push_cell_ok [OF R i refl, where g = g and c = f and f = "nexts ?sw f"]
    by (simp add: copy_cell_def Let_def nexts_def)
  have df: "distinct (f # fr)" using hlist_distinct [OF sw_repD(2) [OF R, of None]] free by simp
  have rep: "sw_rep ?sw' (moved None ?y f ch)"
  proof (rule sw_rep_moved [OF R, of None ?y f])
    show "hlist (nexts ?sw') (head_of ?sw' None) (remove1 f (ch None))" using hd free df by simp
  qed (use i free sw_repD(1) [OF R] in \<open>auto simp: head_of_set_head\<close>)
  have all: "sw_all (moved None ?y f ch) = sw_all ch"
    using i free df by (intro sw_all_moved) auto
  have ok': "swap_ok ?sw' (moved None ?y f ch)"
    using D(3) C by (intro swap_ok_intro [OF ok rep all]) (auto simp: cells_ok_def)
  have page: "cell_page ?sw' a = cell_page ?sw a" if "a \<in> sw_all ch" "a \<noteq> f" for a
  proof (rule cell_page_cong)
    have "sc_offset (sw_cells ?sw a) \<noteq> ?of"
      using C that fA by (auto simp: cells_ok_def inj_on_def)
    then show "disk_page (sw_v ?sw') (sc_offset (sw_cells ?sw a)) k = disk_page (sw_v ?sw) (sc_offset (sw_cells ?sw a)) k"
      if "k < 4096" for k
      using D(5) C \<open>a \<in> sw_all ch\<close> that by (simp add: cells_ok_def)
  qed (use that in simp_all)
  have pf: "cell_page ?sw' f = cell_page ?sw c" using D(4) by (simp add: cell_page_def)
  show thesis
    by (rule that [OF run])
       (use D(3,6) page pf ok' in \<open>auto simp: same_proc_def mem_frame_def\<close>)
qed

text \<open>\<open>copied g i fs fr ch\<close>: the cells \<open>fs\<close> went from the free list to the list of process \<open>i\<close>.\<close>

definition copied :: "swap_seg \<Rightarrow> nat \<Rightarrow> ptr list \<Rightarrow> ptr list \<Rightarrow> (lidx \<Rightarrow> ptr list) \<Rightarrow> lidx \<Rightarrow> ptr list" where
  "copied g i fs fr ch = ch(None := fr, Some (g, i) := rev fs @ ch (Some (g, i)))"

definition copy_post :: "'a ksys_scheme \<Rightarrow> 'a ksys_scheme \<Rightarrow> (lidx \<Rightarrow> ptr list) \<Rightarrow> ptr list \<Rightarrow> bool" where
  "copy_post s s' ch fs \<longleftrightarrow>
     same_proc s s' \<and> k_stats s' = k_stats s \<and>
     (\<forall>a \<in> sw_all ch - set fs. cell_page (k_swap s') a = cell_page (k_swap s) a) \<and>
     mem_frame (k_swap s) (k_mem s) (k_mem s') \<and>
     same_dev (sw_v (k_swap s)) (sw_v (k_swap s')) \<and> sw_kbuf (k_swap s') = sw_kbuf (k_swap s)"

lemma same_proc_trans: "same_proc a b \<Longrightarrow> same_proc b c \<Longrightarrow> same_proc a c"
  unfolding same_proc_def by (cases a; cases b; cases c) simp

lemma copy_post_refl: "copy_post s s ch []"
  by (simp add: copy_post_def same_proc_def mem_frame_def)

lemma copy_post_trans:
  assumes "copy_post s s1 ch fs" "copy_post s1 s2 ch1 fs1" "sw_all ch1 = sw_all ch"
  shows "copy_post s s2 ch (fs @ fs1)"
proof -
  have b: "in_buf (sw_v (k_swap s1)) = in_buf (sw_v (k_swap s))" "sw_kbuf (k_swap s1) = sw_kbuf (k_swap s)"
    using assms(1) same_dev_simps(7) [of "sw_v (k_swap s)" "sw_v (k_swap s1)"] by (auto simp: copy_post_def)
  have "mem_frame (k_swap s) (k_mem s) (k_mem s2)"
    using assms(1,2) b by (simp add: copy_post_def mem_frame_def)
  moreover have "same_proc s s2" "same_dev (sw_v (k_swap s)) (sw_v (k_swap s2))"
    using assms(1,2) by (auto simp: copy_post_def intro: same_proc_trans same_dev_trans)
  ultimately show ?thesis using assms b by (simp add: copy_post_def)
qed

lemma copy_loop_ok:
  assumes "swap_ok (k_swap s) ch" "i < MAX_PROC" "j < MAX_PROC" "i \<noteq> j"
    and "ch (Some (g, j)) = before @ rest" "hlist (nexts (k_swap s)) p rest" "length rest \<le> length (ch None)"
  shows "\<exists>s' fs fr. copy_loop g (int i) p s = Some (Ok s') \<and> ch None = fs @ fr \<and> length fs = length rest
    \<and> swap_ok (k_swap s') (copied g i fs fr ch) \<and> copy_post s s' ch fs
    \<and> map (cell_page (k_swap s')) fs = map (cell_page (k_swap s)) rest"
  using assms
proof (induction rest arbitrary: s ch p before)
  case Nil
  then show ?case
    by (subst copy_loop.simps) (auto simp: copied_def fun_upd_idem copy_post_refl)
next
  case (Cons c rest)
  let ?y = "Some (g, i)" and ?x = "Some (g, j)"
  have R: "sw_rep (k_swap s) ch" using Cons.prems(1) by (simp add: swap_ok_def)
  obtain f fr0 where free: "ch None = f # fr0" using Cons.prems(7) by (cases "ch None") auto
  have df: "distinct (f # fr0)" using hlist_distinct [OF sw_repD(2) [OF R, of None]] free by simp
  have fx: "f \<notin> set (ch ?x)" using sw_repD(3) [OF R, of None ?x] Cons.prems(3) free by auto
  have xA: "a \<in> sw_all ch" if "a \<in> set (c # rest)" for a
    using that Cons.prems(3,5) by (intro sw_all_memI [of ?x]) auto
  have p: "p = c" "c \<noteq> NULL" "c \<noteq> f" "hlist (nexts (k_swap s)) (nexts (k_swap s) c) rest"
    using Cons.prems(5,6) fx by auto
  obtain s1 where 1: "copy_cell g (int i) c s = Ok s1" "same_proc s s1" "k_stats s1 = k_stats s"
      "swap_ok (k_swap s1) (moved None ?y f ch)" "cell_page (k_swap s1) f = cell_page (k_swap s) c"
      "\<forall>a \<in> sw_all ch - {f}. cell_page (k_swap s1) a = cell_page (k_swap s) a"
      "\<forall>a. a \<noteq> f \<longrightarrow> nexts (k_swap s1) a = nexts (k_swap s) a"
      "mem_frame (k_swap s) (k_mem s) (k_mem s1)" "same_dev (sw_v (k_swap s)) (sw_v (k_swap s1))"
      "sw_kbuf (k_swap s1) = sw_kbuf (k_swap s)"
    using copy_cell_ok [OF Cons.prems(1,2) xA p(3) free] by auto
  let ?ch1 = "moved None ?y f ch"
  have all: "sw_all ?ch1 = sw_all ch" using Cons.prems(2) free df by (intro sw_all_moved) auto
  have ch1: "?ch1 None = fr0" "?ch1 ?x = (before @ [c]) @ rest" "?ch1 ?y = f # ch ?y"
    using free df Cons.prems(4,5) by (auto simp: moved_def)
  have h1: "hlist (nexts (k_swap s1)) (nexts (k_swap s1) c) rest"
    using p 1(7) fx Cons.prems(5) by (subst hlist_cong [of _ _ "nexts (k_swap s)"]) auto
  have "length rest \<le> length (?ch1 None)" using Cons.prems(7) free ch1(1) by simp
  from Cons.IH [OF 1(4) Cons.prems(2-4) ch1(2) h1 this]
  obtain s2 fs fr where 2: "copy_loop g (int i) (nexts (k_swap s1) c) s1 = Some (Ok s2)" "fr0 = fs @ fr"
      "length fs = length rest" "swap_ok (k_swap s2) (copied g i fs fr ?ch1)" "copy_post s1 s2 ?ch1 fs"
      "map (cell_page (k_swap s2)) fs = map (cell_page (k_swap s1)) rest"
    unfolding ch1(1) by blast
  have cp1: "copy_post s s1 ch [f]" using 1 by (simp add: copy_post_def)
  have "map (cell_page (k_swap s1)) rest = map (cell_page (k_swap s)) rest"
    using 1(6) xA fx Cons.prems(5) by auto
  moreover have "cell_page (k_swap s2) f = cell_page (k_swap s1) f"
    using 2(5) df 2(2) all sw_all_memI [of None f ch] free by (simp add: copy_post_def)
  ultimately have pages: "map (cell_page (k_swap s2)) (f # fs) = map (cell_page (k_swap s)) (c # rest)"
    using 2(6) 1(5) by simp
  have "copied g i fs fr ?ch1 = copied g i (f # fs) fr ch"
    by (auto simp: copied_def moved_def fun_eq_iff)
  then have ok2: "swap_ok (k_swap s2) (copied g i (f # fs) fr ch)" using 2(4) by argo
  have run: "copy_loop g (int i) p s = Some (Ok s2)"
    using p 1(1) 2(1) by (subst copy_loop.simps) (simp add: nexts_def)
  show ?case
    using run ok2 pages copy_post_trans [OF cp1 2(5) all] 2(2,3) free
    by (intro exI [of _ s2] exI [of _ "f # fs"] exI [of _ fr]) simp
qed

lemma copy_seg_ok:
  assumes "swap_ok (k_swap s) ch" "i < MAX_PROC" "j < MAX_PROC" "i \<noteq> j"
    and "length (ch (Some (g, j))) \<le> length (ch None)"
  shows "\<exists>s' fs fr. copy_seg (int i) (int j) g s = Ok s' \<and> ch None = fs @ fr
    \<and> length fs = length (ch (Some (g, j)))
    \<and> swap_ok (k_swap s') (copied g i fs fr ch) \<and> copy_post s s' ch fs
    \<and> map (cell_page (k_swap s')) fs = map (cell_page (k_swap s)) (ch (Some (g, j)))"
proof -
  let ?p = "seg_heads g (k_swap s) ! j"
  have R: "sw_rep (k_swap s) ch" using assms(1) by (simp add: swap_ok_def)
  have h: "hlist (nexts (k_swap s)) ?p (ch (Some (g, j)))"
    using sw_repD(2) [OF R, of "Some (g, j)"] assms(3) by simp
  have g: "get_head g (int j) (k_swap s) = Ok ?p"
    using sw_repD(1) [OF R] assms(3) by (simp add: get_head_def)
  note L = copy_loop_ok [OF assms(1-4) append_Nil [symmetric] h assms(5)]
  show ?thesis
  proof (cases "?p = NULL")
    case True
    then have "ch (Some (g, j)) = []" using h by simp
    then show ?thesis
      using True g assms(1) copy_post_refl [of s ch]
      by (intro exI [of _ s] exI [of _ "[]"] exI [of _ "ch None"])
         (simp add: copy_seg_def copied_def fun_upd_idem)
  next
    case False
    then have "copy_seg (int i) (int j) g s = from_loop (copy_loop g (int i) ?p s)"
      using g by (simp add: copy_seg_def)
    then show ?thesis using L by (metis from_loop.simps(2))
  qed
qed

section \<open>The swap file as lists of pages\<close>

text \<open>
  The lists, computed by following the pointers for at most \<open>swap->size\<close> steps; the pages each
  process has in the swap file, as an association list; the invariant.
\<close>

definition chain :: "swapfile \<Rightarrow> lidx \<Rightarrow> ptr list" where
  "chain sw x = list_from (nat (sw_size sw)) (nexts sw) (head_of sw x)"

definition swap_list :: "swapfile \<Rightarrow> swap_seg \<Rightarrow> nat \<Rightarrow> (vaddr \<times> byte list) list" where
  "swap_list sw g i = map (cell_page sw) (chain sw (Some (g, i)))"

definition free_cells :: "swapfile \<Rightarrow> nat" where
  "free_cells sw = length (chain sw None)"

definition swap_inv :: "swapfile \<Rightarrow> bool" where
  "swap_inv sw \<longleftrightarrow> swap_ok sw (chain sw)"

lemma finite_idx: "finite {x. idx_ok x}"
proof -
  have "(UNIV :: swap_seg set) = {Text, Data, Stack}" by (auto intro: swap_seg.exhaust)
  then have "finite (UNIV :: swap_seg set)" by (metis finite.emptyI finite_insert)
  then have "finite (insert None (Some ` ((UNIV :: swap_seg set) \<times> {..<MAX_PROC})))"
    by (intro finite.insertI finite_imageI finite_cartesian_product finite_lessThan)
  moreover have "{x. idx_ok x} \<subseteq> insert None (Some ` (UNIV \<times> {..<MAX_PROC}))"
    by (auto elim: idx_ok.elims)
  ultimately show ?thesis by (rule finite_subset [rotated])
qed

lemma finite_sw_all: "finite (sw_all ch)"
  using finite_idx by (auto simp: sw_all_def)

lemma swap_ok_chain:
  assumes "swap_ok sw ch" "idx_ok x"
  shows "chain sw x = ch x"
proof -
  have h: "hlist (nexts sw) (head_of sw x) (ch x)" using assms by (simp add: swap_ok_def sw_repD)
  have "length (ch x) = card (set (ch x))" using distinct_card [OF hlist_distinct [OF h]] by simp
  also have "\<dots> \<le> card (sw_all ch)"
    using assms(2) by (intro card_mono finite_sw_all) (auto simp: sw_all_def)
  also have "\<dots> = nat (sw_size sw)" using assms(1) by (simp add: swap_ok_def)
  finally show ?thesis using list_from_hlist [OF h] by (simp add: chain_def)
qed

lemma sw_all_cong: "(\<And>x. idx_ok x \<Longrightarrow> ch x = ch' x) \<Longrightarrow> sw_all ch = sw_all ch'"
  by (auto simp: sw_all_def)

lemma swap_ok_inv: "swap_ok sw ch \<Longrightarrow> swap_inv sw"
proof -
  assume ok: "swap_ok sw ch"
  have "sw_all (chain sw) = sw_all ch" by (rule sw_all_cong) (rule swap_ok_chain [OF ok])
  moreover have "sw_rep sw (chain sw)"
    using ok by (auto simp: swap_ok_def sw_rep_def swap_ok_chain [OF ok])
  ultimately show ?thesis using ok by (simp add: swap_inv_def swap_ok_def)
qed

lemma swap_ok_list:
  "swap_ok sw ch \<Longrightarrow> i < MAX_PROC \<Longrightarrow> swap_list sw g i = map (cell_page sw) (ch (Some (g, i)))"
  by (simp add: swap_list_def swap_ok_chain)

lemma swap_ok_free: "swap_ok sw ch \<Longrightarrow> free_cells sw = length (ch None)"
  by (simp add: free_cells_def swap_ok_chain)

lemma store_swap_spec:
  assumes inv: "swap_inv (k_swap s)" and free: "free_cells (k_swap s) \<noteq> 0"
    and as: "k_as s = Some as" "one_seg as v g" and i: "i < MAX_PROC"
    and room: "below_buf (sw_v (k_swap s)) (PADDR_TO_KVADDR p) 4096"
  shows "\<exists>s'. store_swap v (int i) p s = Ok (1, s') \<and> swap_inv (k_swap s')
    \<and> swap_list (k_swap s') g i = (v, frame_bytes (k_mem s) p) # swap_list (k_swap s) g i
    \<and> (\<forall>h j. j < MAX_PROC \<longrightarrow> (h, j) \<noteq> (g, i) \<longrightarrow> swap_list (k_swap s') h j = swap_list (k_swap s) h j)
    \<and> free_cells (k_swap s') = free_cells (k_swap s) - 1
    \<and> k_stats s' = add_swapfile_write (k_stats s)
    \<and> (\<forall>a. \<not> in_buf (sw_v (k_swap s)) a \<longrightarrow> k_mem s' a = k_mem s a)
    \<and> same_proc s s' \<and> same_dev (sw_v (k_swap s)) (sw_v (k_swap s'))"
proof -
  let ?ch = "chain (k_swap s)"
  have ok: "swap_ok (k_swap s) ?ch" using inv by (simp add: swap_inv_def)
  obtain c fr where cf: "?ch None = c # fr" using free by (cases "?ch None") (auto simp: free_cells_def)
  obtain s' where S: "store_swap v (int i) p s = Ok (1, s')" "same_proc s s'"
      "k_stats s' = add_swapfile_write (k_stats s)" "swap_ok (k_swap s') (moved None (Some (g, i)) c ?ch)"
      "cell_page (k_swap s') c = (v, frame_bytes (k_mem s) p)"
      "\<forall>a \<in> sw_all ?ch - {c}. cell_page (k_swap s') a = cell_page (k_swap s) a"
      "\<forall>a. \<not> in_buf (sw_v (k_swap s)) a \<longrightarrow> k_mem s' a = k_mem s a"
      "same_dev (sw_v (k_swap s)) (sw_v (k_swap s'))"
    using store_swap_correct [OF ok cf as i room] .
  have R: "sw_rep (k_swap s) ?ch" using ok by (simp add: swap_ok_def)
  have cs: "map (cell_page (k_swap s')) (?ch (Some (h, j))) = swap_list (k_swap s) h j" if "j < MAX_PROC" for h j
  proof -
    have "c \<notin> set (?ch (Some (h, j)))" using sw_repD(3) [OF R, of None "Some (h, j)"] that cf by auto
    moreover have "set (?ch (Some (h, j))) \<subseteq> sw_all ?ch" using that by (auto intro: sw_all_memI [of "Some (h, j)"])
    ultimately show ?thesis using S(6) by (auto simp: swap_list_def)
  qed
  have fr: "free_cells (k_swap s') = free_cells (k_swap s) - 1"
    using cf by (simp add: swap_ok_free [OF S(4)] swap_ok_free [OF ok] moved_def)
  show ?thesis
    using S(1,2,3,5,7,8) swap_ok_inv [OF S(4)] fr i cs
    by (auto simp: swap_ok_list [OF S(4)] moved_def)
qed

end
