(* ===== verification/Swapfile_Spec.thy ===== *)
theory Swapfile_Spec
  imports Swapfile
begin

text \<open>
  The swap file against its specification. Each process has, per segment, a list of pages;
  \<open>store_swap\<close> adds one (in the theory before this one), \<open>load_swap\<close> takes the first one with
  the wanted address out, \<open>remove_process_from_swap\<close> empties the three lists,
  \<open>copy_swap_pages\<close> gives the child the parent's pages. The locale \<open>page_store\<close> is what the page
  table relies on: an evicted page comes back unchanged.
\<close>

section \<open>Loading\<close>

fun del_first :: "vaddr \<Rightarrow> (vaddr \<times> byte list) list \<Rightarrow> (vaddr \<times> byte list) list" where
  "del_first v [] = []"
| "del_first v ((w, b) # ps) = (if w = v then ps else (w, b) # del_first v ps)"

lemma del_first_split: "\<forall>p \<in> set xs. fst p \<noteq> v \<Longrightarrow> del_first v (xs @ (v, b) # ys) = xs @ ys"
  by (induction xs) auto

lemma map_of_split: "map_of xs v = Some b \<Longrightarrow> \<exists>us ws. xs = us @ (v, b) # ws \<and> (\<forall>p \<in> set us. fst p \<noteq> v)"
proof (induction xs)
  case Nil
  then show ?case by simp
next
  case (Cons p xs)
  show ?case
  proof (cases "fst p = v")
    case True
    then have "p = (v, b)" using Cons.prems by (cases p) simp
    then show ?thesis by (intro exI [of _ "[]"] exI [of _ xs]) simp
  next
    case False
    then obtain us ws where "xs = us @ (v, b) # ws" "\<forall>p \<in> set us. fst p \<noteq> v"
      using Cons by (cases p) auto
    then show ?thesis using False by (intro exI [of _ "p # us"] exI [of _ ws]) simp
  qed
qed

lemma load_swap_spec:
  assumes inv: "swap_inv (k_swap s)" and as: "k_as s = Some as" "swap_seg_of as v = Some g"
    and i: "i < MAX_PROC" "k_pid s = int i" and hit: "map_of (swap_list (k_swap s) g i) v = Some b"
    and room: "below_buf (sw_v (k_swap s)) (PADDR_TO_KVADDR p) 4096"
  shows "\<exists>s'. load_swap v (int i) p s = Ok (1, s') \<and> swap_inv (k_swap s')
    \<and> frame_bytes (k_mem s') p = b
    \<and> swap_list (k_swap s') g i = del_first v (swap_list (k_swap s) g i)
    \<and> (\<forall>h j. j < MAX_PROC \<longrightarrow> (h, j) \<noteq> (g, i) \<longrightarrow> swap_list (k_swap s') h j = swap_list (k_swap s) h j)
    \<and> free_cells (k_swap s') = free_cells (k_swap s) + 1
    \<and> k_stats s' = add_page_fault SWAPFILE_FAULT (add_page_fault DISK_FAULT (k_stats s))
    \<and> (\<forall>a. \<not> in_buf (sw_v (k_swap s)) a \<longrightarrow> \<not> unat (a - PADDR_TO_KVADDR p) < 4096 \<longrightarrow> k_mem s' a = k_mem s a)
    \<and> same_proc s s' \<and> same_dev (sw_v (k_swap s)) (sw_v (k_swap s'))"
proof -
  let ?ch = "chain (k_swap s)" and ?x = "Some (g, i)"
  have ok: "swap_ok (k_swap s) ?ch" using inv by (simp add: swap_inv_def)
  have R: "sw_rep (k_swap s) ?ch" using ok by (simp add: swap_ok_def)
  obtain us ws where L: "swap_list (k_swap s) g i = us @ (v, b) # ws" "\<forall>p \<in> set us. fst p \<noteq> v"
    using map_of_split [OF hit] by blast
  then obtain xs c ys where X: "?ch ?x = xs @ c # ys" "us = map (cell_page (k_swap s)) xs"
      "cell_page (k_swap s) c = (v, b)" "ws = map (cell_page (k_swap s)) ys"
    unfolding swap_list_def by (auto simp: map_eq_append_conv map_eq_Cons_conv)
  have vc: "sc_vaddr (sw_cells (k_swap s) c) = v" using X(3) by (simp add: cell_page_def)
  have vx: "sc_vaddr (sw_cells (k_swap s) a) \<noteq> v" if "a \<in> set xs" for a
    using L(2) X(2) that by (force simp: cell_page_def)
  obtain s' where S: "load_swap v (int i) p s = Ok (1, s')" "same_proc s s'"
      "k_stats s' = add_page_fault SWAPFILE_FAULT (add_page_fault DISK_FAULT (k_stats s))"
      "swap_ok (k_swap s') (moved ?x None c ?ch)"
      "(v, frame_bytes (k_mem s') p) = cell_page (k_swap s) c"
      "\<forall>a. a \<noteq> c \<longrightarrow> cell_page (k_swap s') a = cell_page (k_swap s) a"
      "\<forall>a. \<not> in_buf (sw_v (k_swap s)) a \<longrightarrow> \<not> unat (a - PADDR_TO_KVADDR p) < 4096 \<longrightarrow> k_mem s' a = k_mem s a"
      "same_dev (sw_v (k_swap s)) (sw_v (k_swap s'))"
    using load_swap_correct [OF ok as i X(1) vc vx room] .
  have d: "distinct (xs @ c # ys)" using hlist_distinct [OF sw_repD(2) [OF R, of ?x]] X(1) i by simp
  have own: "swap_list (k_swap s') g i = del_first v (swap_list (k_swap s) g i)"
  proof -
    have "swap_list (k_swap s') g i = map (cell_page (k_swap s')) (xs @ ys)"
      using i d by (simp add: swap_ok_list [OF S(4)] moved_def X(1) remove1_append)
    also have "\<dots> = us @ ws" using S(6) d X(2,4) by auto
    finally show ?thesis using del_first_split [OF L(2)] L(1) by simp
  qed
  have rest: "swap_list (k_swap s') h j = swap_list (k_swap s) h j" if "j < MAX_PROC" "(h, j) \<noteq> (g, i)" for h j
  proof -
    have "c \<notin> set (?ch (Some (h, j)))"
      using sw_repD(3) [OF R, of ?x "Some (h, j)"] that i X(1) by auto
    then show ?thesis
      using S(6) that by (auto simp: swap_ok_list [OF S(4)] swap_ok_list [OF ok] moved_def)
  qed
  have "free_cells (k_swap s') = free_cells (k_swap s) + 1"
    by (simp add: swap_ok_free [OF S(4)] swap_ok_free [OF ok] moved_def)
  then show ?thesis
    using S(1,2,3,5,7,8) X(3) swap_ok_inv [OF S(4)] own rest by auto
qed

lemma load_swap_none:
  assumes "swap_inv (k_swap s)" "k_as s = Some as" "swap_seg_of as v = Some g"
    and "i < MAX_PROC" "k_pid s = int i" and "map_of (swap_list (k_swap s) g i) v = None"
  shows "load_swap v (int i) p s = Ok (0, s)"
proof (rule load_swap_absent)
  show "sw_rep (k_swap s) (chain (k_swap s))" using assms(1) by (simp add: swap_inv_def swap_ok_def)
  fix a assume "a \<in> set (chain (k_swap s) (Some (g, i)))"
  then show "sc_vaddr (sw_cells (k_swap s) a) \<noteq> v"
    using assms(6) by (force simp: swap_list_def map_of_eq_None_iff cell_page_def)
qed (use assms in simp_all)

section \<open>Exhaustion and bad addresses\<close>

text \<open>
  The error branches of \<open>store_swap\<close>: with no free cell the kernel panics, whatever the
  page; so it does for an address in no segment of the current process.
\<close>

theorem store_swap_panics:
  assumes "swap_inv (k_swap s)" "k_as s = Some as"
  shows "(free_cells (k_swap s) = 0 \<longrightarrow> store_swap v pid p s = Fail (Panic ''the swap file is full'')) \<and>
    (free_cells (k_swap s) \<noteq> 0 \<and> swap_seg_of as v = None \<longrightarrow>
      store_swap v pid p s = Fail (Panic ''store_swap: wrong virtual address''))"
proof -
  have ok: "swap_ok (k_swap s) (chain (k_swap s))" using assms(1) by (simp add: swap_inv_def)
  have h: "hlist (nexts (k_swap s)) (sw_free (k_swap s)) (chain (k_swap s) None)"
    using ok sw_repD(2) [of "k_swap s" "chain (k_swap s)" None] by (simp add: swap_ok_def)
  have "store_swap v pid p s = Fail (Panic ''the swap file is full'')" if "free_cells (k_swap s) = 0"
    using h that by (simp add: free_cells_def store_swap_def store_begin_def Let_def)
  moreover have "store_swap v pid p s = Fail (Panic ''store_swap: wrong virtual address'')"
    if f: "free_cells (k_swap s) \<noteq> 0" and n: "swap_seg_of as v = None"
  proof -
  obtain c fr where c: "chain (k_swap s) None = c # fr"
    using f by (cases "chain (k_swap s) None") (auto simp: free_cells_def)
  have "c \<in> sw_all (chain (k_swap s))" using c by (intro sw_all_memI [of None]) auto
  then have "\<not> sc_store (sw_cells (k_swap s) c)" using ok by (simp add: swap_ok_def cells_ok_def)
  moreover have "\<not> in_text as v" "\<not> in_data as v" "\<not> (v \<le> USERSTACK \<and> above_data as v)"
    using n by (auto simp: swap_seg_of_def split: if_splits)
  ultimately show ?thesis
    using h c assms(2) by (auto simp: store_swap_def store_begin_def Let_def)
  qed
  ultimately show ?thesis by blast
qed

section \<open>Process exit\<close>

lemma remove_process_spec:
  assumes inv: "swap_inv (k_swap s)" and i: "i < MAX_PROC"
  shows "\<exists>sw'. remove_process_from_swap (int i) s = Ok (s\<lparr>k_swap := sw'\<rparr>) \<and> swap_inv sw'
    \<and> (\<forall>g j. j < MAX_PROC \<longrightarrow> swap_list sw' g j = (if j = i then [] else swap_list (k_swap s) g j))
    \<and> free_cells sw' = free_cells (k_swap s) + length (swap_list (k_swap s) Text i)
        + length (swap_list (k_swap s) Data i) + length (swap_list (k_swap s) Stack i)
    \<and> sw_v sw' = sw_v (k_swap s)"
proof -
  let ?ch = "chain (k_swap s)"
  have ok: "swap_ok (k_swap s) ?ch" using inv by (simp add: swap_inv_def)
  obtain sw' where S: "remove_process_from_swap (int i) s = Ok (s\<lparr>k_swap := sw'\<rparr>)"
      "swap_ok sw' (removed i ?ch)" "same_data (k_swap s) sw'"
    using remove_process_correct [OF ok i] by blast
  have "swap_list sw' g j = (if j = i then [] else swap_list (k_swap s) g j)" if "j < MAX_PROC" for g j
    using that by (simp add: swap_ok_list [OF S(2)] swap_ok_list [OF ok] removed_def same_data_page [OF S(3)])
  moreover have "free_cells sw' = free_cells (k_swap s) + length (swap_list (k_swap s) Text i)
      + length (swap_list (k_swap s) Data i) + length (swap_list (k_swap s) Stack i)"
    using i by (simp add: swap_ok_free [OF S(2)] swap_ok_free [OF ok] swap_ok_list [OF ok] removed_def)
  ultimately show ?thesis using S(1,3) swap_ok_inv [OF S(2)] by (auto simp: same_data_def)
qed

text \<open>
  \<open>remove_process_from_swap\<close> succeeds, leaves the process without pages in the swap file,
  changes no list of another process, and gives all its cells back to the free list.
\<close>

theorem remove_process_refines:
  assumes inv: "swap_inv (k_swap s)" and i: "i < MAX_PROC"
  shows "\<exists>s'. remove_process_from_swap (int i) s = Ok s' \<and> swap_inv (k_swap s')
    \<and> (\<forall>g. swap_list (k_swap s') g i = [])
    \<and> (\<forall>g j. j < MAX_PROC \<longrightarrow> j \<noteq> i \<longrightarrow> swap_list (k_swap s') g j = swap_list (k_swap s) g j)
    \<and> free_cells (k_swap s') = free_cells (k_swap s) + length (swap_list (k_swap s) Text i)
        + length (swap_list (k_swap s) Data i) + length (swap_list (k_swap s) Stack i)
    \<and> k_mem s' = k_mem s \<and> k_stats s' = k_stats s"
  using remove_process_spec [OF assms] i by auto

section \<open>Fork\<close>

lemma copy_seg_refines:
  assumes inv: "swap_inv (k_swap s)" and i: "i < MAX_PROC" "j < MAX_PROC" "i \<noteq> j"
    and room: "length (swap_list (k_swap s) g j) \<le> free_cells (k_swap s)"
  obtains s' where "copy_seg (int i) (int j) g s = Ok s'" "swap_inv (k_swap s')"
    "swap_list (k_swap s') g i = rev (swap_list (k_swap s) g j) @ swap_list (k_swap s) g i"
    "\<forall>h k. k < MAX_PROC \<longrightarrow> (h, k) \<noteq> (g, i) \<longrightarrow> swap_list (k_swap s') h k = swap_list (k_swap s) h k"
    "free_cells (k_swap s') = free_cells (k_swap s) - length (swap_list (k_swap s) g j)"
    "copy_post s s' (\<lambda>x. []) []"
proof -
  let ?ch = "chain (k_swap s)"
  have ok: "swap_ok (k_swap s) ?ch" using inv by (simp add: swap_inv_def)
  have R: "sw_rep (k_swap s) ?ch" using ok by (simp add: swap_ok_def)
  obtain s' fs fr where S: "copy_seg (int i) (int j) g s = Ok s'" "?ch None = fs @ fr"
      "length fs = length (?ch (Some (g, j)))" "swap_ok (k_swap s') (copied g i fs fr ?ch)"
      "copy_post s s' ?ch fs"
      "map (cell_page (k_swap s')) fs = map (cell_page (k_swap s)) (?ch (Some (g, j)))"
    using copy_seg_ok [OF ok i, of g] room by (auto simp: swap_list_def free_cells_def)
  have keep: "map (cell_page (k_swap s')) (?ch (Some (h, k))) = swap_list (k_swap s) h k" if "k < MAX_PROC" for h k
  proof -
    have "set (?ch (Some (h, k))) \<inter> set fs = {}"
      using sw_repD(3) [OF R, of None "Some (h, k)"] that S(2) by auto
    moreover have "set (?ch (Some (h, k))) \<subseteq> sw_all ?ch" using that by (auto intro: sw_all_memI [of "Some (h, k)"])
    ultimately show ?thesis using S(5) by (auto simp: swap_list_def copy_post_def)
  qed
  show thesis
  proof (rule that [OF S(1) swap_ok_inv [OF S(4)]])
    show "swap_list (k_swap s') g i = rev (swap_list (k_swap s) g j) @ swap_list (k_swap s) g i"
    proof -
      have "swap_list (k_swap s') g i = rev (map (cell_page (k_swap s')) fs) @ map (cell_page (k_swap s')) (?ch (Some (g, i)))"
        using i(1) by (simp add: swap_ok_list [OF S(4)] copied_def rev_map)
      then show ?thesis by (simp only: S(6) keep [OF i(1)] swap_ok_list [OF ok i(2)])
    qed
    show "\<forall>h k. k < MAX_PROC \<longrightarrow> (h, k) \<noteq> (g, i) \<longrightarrow> swap_list (k_swap s') h k = swap_list (k_swap s) h k"
      using keep by (auto simp: swap_ok_list [OF S(4)] copied_def)
    show "free_cells (k_swap s') = free_cells (k_swap s) - length (swap_list (k_swap s) g j)"
      using S(2,3) by (simp add: swap_ok_free [OF S(4)] swap_ok_free [OF ok] copied_def swap_list_def)
    show "copy_post s s' (\<lambda>x. []) []" using S(5) by (simp add: copy_post_def sw_all_def)
  qed
qed

lemma copy_swap_pages_spec:
  assumes inv: "swap_inv (k_swap s)" and i: "i < MAX_PROC" "j < MAX_PROC" "i \<noteq> j"
    and room: "length (swap_list (k_swap s) Text j) + length (swap_list (k_swap s) Data j)
      + length (swap_list (k_swap s) Stack j) \<le> free_cells (k_swap s)"
  shows "\<exists>s'. copy_swap_pages (int i) (int j) s = Ok s' \<and> swap_inv (k_swap s')
    \<and> (\<forall>g. swap_list (k_swap s') g i = rev (swap_list (k_swap s) g j) @ swap_list (k_swap s) g i)
    \<and> (\<forall>g k. k < MAX_PROC \<longrightarrow> k \<noteq> i \<longrightarrow> swap_list (k_swap s') g k = swap_list (k_swap s) g k)
    \<and> free_cells (k_swap s') = free_cells (k_swap s) - (length (swap_list (k_swap s) Text j)
        + length (swap_list (k_swap s) Data j) + length (swap_list (k_swap s) Stack j))
    \<and> copy_post s s' (\<lambda>x. []) []"
proof -
  let ?L = "\<lambda>g. length (swap_list (k_swap s) g j)"
  obtain s1 where 1: "copy_seg (int i) (int j) Text s = Ok s1" "swap_inv (k_swap s1)"
      "swap_list (k_swap s1) Text i = rev (swap_list (k_swap s) Text j) @ swap_list (k_swap s) Text i"
      "\<forall>h k. k < MAX_PROC \<longrightarrow> (h, k) \<noteq> (Text, i) \<longrightarrow> swap_list (k_swap s1) h k = swap_list (k_swap s) h k"
      "free_cells (k_swap s1) = free_cells (k_swap s) - ?L Text" "copy_post s s1 (\<lambda>x. []) []"
    by (rule copy_seg_refines [OF inv i, of Text]) (use room in auto)
  obtain s2 where 2: "copy_seg (int i) (int j) Data s1 = Ok s2" "swap_inv (k_swap s2)"
      "swap_list (k_swap s2) Data i = rev (swap_list (k_swap s1) Data j) @ swap_list (k_swap s1) Data i"
      "\<forall>h k. k < MAX_PROC \<longrightarrow> (h, k) \<noteq> (Data, i) \<longrightarrow> swap_list (k_swap s2) h k = swap_list (k_swap s1) h k"
      "free_cells (k_swap s2) = free_cells (k_swap s1) - length (swap_list (k_swap s1) Data j)"
      "copy_post s1 s2 (\<lambda>x. []) []"
    by (rule copy_seg_refines [OF 1(2) i, of Data]) (use room 1(4,5) i in auto)
  obtain s3 where 3: "copy_seg (int i) (int j) Stack s2 = Ok s3" "swap_inv (k_swap s3)"
      "swap_list (k_swap s3) Stack i = rev (swap_list (k_swap s2) Stack j) @ swap_list (k_swap s2) Stack i"
      "\<forall>h k. k < MAX_PROC \<longrightarrow> (h, k) \<noteq> (Stack, i) \<longrightarrow> swap_list (k_swap s3) h k = swap_list (k_swap s2) h k"
      "free_cells (k_swap s3) = free_cells (k_swap s2) - length (swap_list (k_swap s2) Stack j)"
      "copy_post s2 s3 (\<lambda>x. []) []"
    by (rule copy_seg_refines [OF 2(2) i, of Stack]) (use room 1(4,5) 2(4,5) i in auto)
  have "swap_list (k_swap s3) g i = rev (swap_list (k_swap s) g j) @ swap_list (k_swap s) g i" for g
    using 1(3,4) 2(3,4) 3(3,4) i by (cases g) auto
  moreover have "copy_post s s3 (\<lambda>x. []) []"
    using copy_post_trans [OF copy_post_trans [OF 1(6) 2(6) refl] 3(6) refl] by simp
  moreover have "copy_swap_pages (int i) (int j) s = Ok s3"
    using 1(1) 2(1) 3(1) by (simp add: copy_swap_pages_def)
  ultimately show ?thesis
    using 3(2) 1(4,5) 2(4,5) 3(4,5) i by (intro exI [of _ s3]) auto
qed

text \<open>
  \<open>copy_swap_pages\<close>, called by \<open>fork\<close> for a child that is not the parent, with enough free
  cells: it succeeds, the child's lists receive the parent's pages (same addresses, same contents,
  in reverse order), the parent's lists and those of all others are unchanged, as many cells are
  used as the parent has pages, and memory changes only in the two transfer buffers.
\<close>

theorem copy_swap_pages_refines:
  assumes inv: "swap_inv (k_swap s)" and i: "i < MAX_PROC" "j < MAX_PROC" "i \<noteq> j"
    and room: "length (swap_list (k_swap s) Text j) + length (swap_list (k_swap s) Data j)
      + length (swap_list (k_swap s) Stack j) \<le> free_cells (k_swap s)"
  shows "\<exists>s'. copy_swap_pages (int i) (int j) s = Ok s' \<and> swap_inv (k_swap s')
    \<and> (\<forall>g. swap_list (k_swap s') g i = rev (swap_list (k_swap s) g j) @ swap_list (k_swap s) g i)
    \<and> (\<forall>g k. k < MAX_PROC \<longrightarrow> k \<noteq> i \<longrightarrow> swap_list (k_swap s') g k = swap_list (k_swap s) g k)
    \<and> free_cells (k_swap s') = free_cells (k_swap s) - (length (swap_list (k_swap s) Text j)
        + length (swap_list (k_swap s) Data j) + length (swap_list (k_swap s) Stack j))
    \<and> k_stats s' = k_stats s \<and> mem_frame (k_swap s) (k_mem s) (k_mem s')"
  using copy_swap_pages_spec [OF assms] unfolding copy_post_def by blast

section \<open>Initialisation\<close>

definition cell_at :: "(nat \<Rightarrow> ptr) \<Rightarrow> nat \<Rightarrow> nat \<Rightarrow> ptr" where
  "cell_at al n i = al (5 + (n - 1 - i))"

lemma new_cells_ok:
  assumes al: "inj_on (cell_at al n) {..<n}" "\<And>i. i < n \<Longrightarrow> cell_at al n i \<noteq> NULL"
  shows "k \<le> n \<Longrightarrow> \<exists>h' u. kfold (new_cell al n) (rev [n - k..<n]) (h, NULL) = Ok (h', u) \<and>
    hlist (\<lambda>a. sc_next (h' a)) u (map (cell_at al n) [n - k..<n]) \<and>
    (\<forall>i. n - k \<le> i \<longrightarrow> i < n \<longrightarrow>
       sc_offset (h' (cell_at al n i)) = of_nat i * PAGE_SIZE \<and> \<not> sc_store (h' (cell_at al n i)))"
proof (induction k)
  case 0
  then show ?case by simp
next
  case (Suc k)
  let ?i = "n - Suc k"
  let ?c = "cell_at al n ?i"
  obtain h1 u where IH: "kfold (new_cell al n) (rev [n - k..<n]) (h, NULL) = Ok (h1, u)"
      "hlist (\<lambda>a. sc_next (h1 a)) u (map (cell_at al n) [n - k..<n])"
      "\<forall>i. n - k \<le> i \<longrightarrow> i < n \<longrightarrow>
         sc_offset (h1 (cell_at al n i)) = of_nat i * PAGE_SIZE \<and> \<not> sc_store (h1 (cell_at al n i))"
    using Suc by auto
  have lt: "?i < n" "Suc ?i = n - k" using Suc.prems by auto
  have up: "[?i..<n] = ?i # [n - k..<n]" using upt_conv_Cons [OF lt(1)] lt(2) by simp
  have other: "cell_at al n i \<noteq> ?c" if "n - k \<le> i" "i < n" for i
    using that lt inj_onD [OF al(1), of i ?i] by auto
  define h2 where "h2 = h1(?c := (h1 ?c)\<lparr>sc_offset := of_nat ?i * PAGE_SIZE, sc_store := False, sc_next := u\<rparr>)"
  have run: "kfold (new_cell al n) (rev [?i..<n]) (h, NULL) = Ok (h2, ?c)"
    using IH(1) al(2) [OF lt(1)] by (simp add: up new_cell_def h2_def cell_at_def Let_def)
  have nin: "?c \<notin> set (map (cell_at al n) [n - k..<n])" 
  proof
    assume "?c \<in> set (map (cell_at al n) [n - k..<n])"
    then obtain x where "?c = cell_at al n x" "n - k \<le> x" "x < n" by auto
    then show False using other [of x] by argo
  qed
  have "(\<lambda>a. sc_next (h2 a)) = (\<lambda>a. sc_next (h1 a))(?c := u)" by (auto simp: h2_def)
  then have "hlist (\<lambda>a. sc_next (h2 a)) ?c (map (cell_at al n) [?i..<n])"
    using hlist_push [OF IH(2) nin al(2) [OF lt(1)]] by (simp only: up list.map)
  moreover have "sc_offset (h2 (cell_at al n i)) = of_nat i * PAGE_SIZE \<and> \<not> sc_store (h2 (cell_at al n i))"
    if "?i \<le> i" "i < n" for i
    using IH(3) other that lt(2) by (cases "i = ?i") (auto simp: h2_def)
  ultimately show ?case using run by blast
qed

lemma page_offsets:
  assumes "i < 2304" "18432 \<le> d_blocks dev"
  shows "unat (of_nat i * PAGE_SIZE) = i * 4096" "page_off dev (of_nat i * PAGE_SIZE)"
proof -
  have e: "of_nat i * PAGE_SIZE = (of_nat (i * 4096) :: 32 word)" by (simp add: PAGE_SIZE_def)
  show u: "unat (of_nat i * PAGE_SIZE) = i * 4096" unfolding e using assms(1) by (intro unat_of_nat_32) simp
  have "18432 \<le> unat (d_blocks dev)" using assms(2) by (simp add: word_le_nat_alt)
  then show "page_off dev (of_nat i * PAGE_SIZE)" using assms(1) by (simp add: page_off_def u)
qed

lemma swap_init_spec:
  assumes al: "inj_on al {..2308}" "\<And>k. k \<le> 2308 \<Longrightarrow> al k \<noteq> NULL"
    and dev: "lhd_wf dev" "18432 \<le> d_blocks dev" "below_buf dev (al 1) 4096"
  shows "\<exists>sw. swap_init al (Inr dev) h = Ok (Inr sw) \<and> swap_inv sw \<and> free_cells sw = 2304
    \<and> (\<forall>g i. i < MAX_PROC \<longrightarrow> swap_list sw g i = []) \<and> sw_v sw = dev \<and> sw_kbuf sw = al 1"
proof -
  have size: "MAX_SIZE sdiv uint PAGE_SIZE = 2304"
    by (simp add: MAX_SIZE_def PAGE_SIZE_def sdiv_nonneg)
  have inj: "inj_on (cell_at al 2304) {..<2304}"
  proof (rule inj_onI)
    fix x y assume xy: "x \<in> {..<2304}" "y \<in> {..<2304}" "cell_at al 2304 x = cell_at al 2304 y"
    have "5 + (2304 - 1 - x) = 5 + (2304 - 1 - y)"
      by (rule inj_onD [OF al(1)]) (use xy in \<open>auto simp: cell_at_def\<close>)
    then show "x = y" using xy by auto
  qed
  have nn: "cell_at al 2304 i \<noteq> NULL" if "i < 2304" for i using al(2) that by (simp add: cell_at_def)
  obtain h' u where K: "kfold (new_cell al 2304) (rev [0..<2304]) (h, NULL) = Ok (h', u)"
      "hlist (\<lambda>a. sc_next (h' a)) u (map (cell_at al 2304) [0..<2304])"
      "\<forall>i < 2304. sc_offset (h' (cell_at al 2304 i)) = of_nat i * PAGE_SIZE \<and> \<not> sc_store (h' (cell_at al 2304 i))"
    using new_cells_ok [OF inj nn, of 2304 h] by auto
  define sw where "sw = \<lparr>sw_cells = h', sw_text = replicate MAX_PROC NULL, sw_data = replicate MAX_PROC NULL,
    sw_stack = replicate MAX_PROC NULL, sw_free = u, sw_kbuf = al 1, sw_v = dev, sw_size = 2304\<rparr>"
  define ch where "ch = (\<lambda>x :: lidx. if x = None then map (cell_at al 2304) [0..<2304] else [])"
  have run: "swap_init al (Inr dev) h = Ok (Inr sw)"
    using al(2) K(1) by (simp add: swap_init_def size sw_def Let_def)
  have heads: "seg_heads g sw = replicate MAX_PROC NULL" for g by (cases g) (simp_all add: sw_def)
  have "hlist (nexts sw) (head_of sw x) (ch x)" if "idx_ok x" for x
  proof -
    have "nexts sw = (\<lambda>a. sc_next (h' a))" "sw_free sw = u" by (simp_all add: nexts_def sw_def)
    then show ?thesis using that K(2) by (cases x rule: idx_ok.cases) (simp_all add: ch_def heads)
  qed
  then have rep: "sw_rep sw ch" by (auto simp: sw_rep_def heads ch_def)
  have all: "sw_all ch = cell_at al 2304 ` {..<2304}"
    by (auto simp: sw_all_def ch_def intro!: exI [of _ None])
  have "inj_on (\<lambda>c. sc_offset (sw_cells sw c)) (cell_at al 2304 ` {..<2304})"
  proof (rule inj_onI)
    fix c d assume "c \<in> cell_at al 2304 ` {..<2304}" "d \<in> cell_at al 2304 ` {..<2304}"
      and e: "sc_offset (sw_cells sw c) = sc_offset (sw_cells sw d)"
    then obtain x y where x: "c = cell_at al 2304 x" "x < 2304" and y: "d = cell_at al 2304 y" "y < 2304" by auto
    have "of_nat x * PAGE_SIZE = of_nat y * PAGE_SIZE"
      using e K(3) x y by (simp add: sw_def)
    then have "x * 4096 = y * 4096"
      using page_offsets(1) [OF x(2) dev(2)] page_offsets(1) [OF y(2) dev(2)] by argo
    then show "c = d" using x y by simp
  qed
  moreover have "\<not> sc_store (sw_cells sw c) \<and> page_off (sw_v sw) (sc_offset (sw_cells sw c))"
    if "c \<in> cell_at al 2304 ` {..<2304}" for c
    using that K(3) page_offsets(2) dev(2) by (auto simp: sw_def)
  ultimately have "cells_ok sw (sw_all ch)" by (simp add: cells_ok_def all)
  moreover have "card (sw_all ch) = nat (sw_size sw)" by (simp add: all card_image [OF inj] sw_def)
  ultimately have ok: "swap_ok sw ch" using rep dev by (simp add: swap_ok_def sw_def)
  show ?thesis
    using run swap_ok_inv [OF ok]
    by (intro exI [of _ sw]) (simp add: swap_ok_free [OF ok] swap_ok_list [OF ok] ch_def, simp add: sw_def)
qed

text \<open>
  \<open>swap_init\<close> on a disk of at least 9 MB, with allocations that succeed: the swap file
  satisfies the invariant, no process has a page in it, and all 2304 cells are free.
\<close>

theorem swap_init_establishes:
  assumes al: "inj_on al {..2308}" "\<And>k. k \<le> 2308 \<Longrightarrow> al k \<noteq> NULL"
    and dev: "lhd_wf dev" "18432 \<le> d_blocks dev" "below_buf dev (al 1) 4096"
  shows "\<exists>sw. swap_init al (Inr dev) h = Ok (Inr sw) \<and> swap_inv sw \<and> free_cells sw = 2304
    \<and> (\<forall>g i. i < MAX_PROC \<longrightarrow> swap_list sw g i = [])"
  using swap_init_spec [OF assms] by blast

section \<open>Renumbering the free cells\<close>

lemma heads_upd_cells [simp]:
  "seg_heads g (sw\<lparr>sw_cells := cs\<rparr>) = seg_heads g sw" "head_of (sw\<lparr>sw_cells := cs\<rparr>) x = head_of sw x"
proof -
  show h: "seg_heads g (sw\<lparr>sw_cells := cs\<rparr>) = seg_heads g sw" for g by (cases g) simp_all
  show "head_of (sw\<lparr>sw_cells := cs\<rparr>) x = head_of sw x" by (cases x rule: idx_ok.cases) (simp_all add: h)
qed

lemma reorder_loop_ok:
  assumes "hlist (nexts sw) p (as @ bs)"
  shows "\<exists>sw' q. kfold reorder_cell [k..<k + length as] (sw, p) = Ok (sw', q) \<and> hlist (nexts sw') q bs
    \<and> nexts sw' = nexts sw \<and> (\<forall>i < length as. sc_offset (sw_cells sw' (as ! i)) = of_nat (k + i) * PAGE_SIZE)
    \<and> (\<forall>a. a \<notin> set as \<longrightarrow> sw_cells sw' a = sw_cells sw a)
    \<and> (\<forall>a. sw_cells sw' a = (sw_cells sw a)\<lparr>sc_offset := sc_offset (sw_cells sw' a)\<rparr>)
    \<and> sw' = sw\<lparr>sw_cells := sw_cells sw'\<rparr>"
  using assms
proof (induction as arbitrary: sw p k)
  case Nil
  then show ?case by simp
next
  case (Cons a as)
  let ?sw = "upd_cell a (\<lambda>e. e\<lparr>sc_offset := of_nat k * PAGE_SIZE\<rparr>) sw"
  have p: "p = a" "a \<noteq> NULL" "hlist (nexts sw) (nexts sw a) (as @ bs)" using Cons.prems by auto
  have d: "a \<notin> set as" using hlist_distinct [OF Cons.prems] by simp
  have nx: "nexts ?sw = nexts sw" by (auto simp: nexts_def upd_cell_def)
  obtain sw' q where L: "kfold reorder_cell [Suc k..<Suc k + length as] (?sw, nexts sw a) = Ok (sw', q)"
      "hlist (nexts sw') q bs" "nexts sw' = nexts ?sw"
      "\<forall>i < length as. sc_offset (sw_cells sw' (as ! i)) = of_nat (Suc k + i) * PAGE_SIZE"
      "\<forall>b. b \<notin> set as \<longrightarrow> sw_cells sw' b = sw_cells ?sw b"
      "\<forall>b. sw_cells sw' b = (sw_cells ?sw b)\<lparr>sc_offset := sc_offset (sw_cells sw' b)\<rparr>"
      "sw' = ?sw\<lparr>sw_cells := sw_cells sw'\<rparr>"
    using Cons.IH [of ?sw "nexts sw a" "Suc k"] p(3) unfolding nx by blast
  have run: "kfold reorder_cell [k..<k + length (a # as)] (sw, p) = Ok (sw', q)"
    using L(1) p upt_conv_Cons [of k "k + length (a # as)"]
    by (simp add: reorder_cell_def nexts_def)
  have off: "sc_offset (sw_cells sw' ((a # as) ! i)) = of_nat (k + i) * PAGE_SIZE" if "i < length (a # as)" for i
    using that L(4,5) d by (cases i) (simp_all add: ac_simps)
  have "sw_cells sw' b = (sw_cells sw b)\<lparr>sc_offset := sc_offset (sw_cells sw' b)\<rparr>" for b
    using L(6) [rule_format, of b] by (cases "b = a") auto
  moreover have "sw' = sw\<lparr>sw_cells := sw_cells sw'\<rparr>" using L(7) by (simp add: upd_cell_def)
  ultimately show ?case using run off L(2,3,5) nx by (intro exI [of _ sw'] exI [of _ q]) auto
qed

text \<open>
  \<open>reorder_swapfile\<close>, run when no process has a page in the swap file: it succeeds, the
  \<open>i\<close>-th free cell gets the \<open>i\<close>-th page of the disk, and the invariant is kept.
\<close>

theorem reorder_swapfile_sorts:
  assumes inv: "swap_inv sw" and all_free: "free_cells sw = nat (sw_size sw)"
    and size: "nat (sw_size sw) \<le> 2304" "18432 \<le> d_blocks (sw_v sw)"
  shows "\<exists>sw'. reorder_swapfile sw = Ok sw' \<and> swap_inv sw' \<and> chain sw' None = chain sw None
    \<and> (\<forall>i < nat (sw_size sw). sc_offset (sw_cells sw' (chain sw None ! i)) = of_nat i * PAGE_SIZE)"
proof -
  let ?fr = "chain sw None" and ?n = "nat (sw_size sw)"
  have ok: "swap_ok sw (chain sw)" using inv by (simp add: swap_inv_def)
  have R: "sw_rep sw (chain sw)" and C: "cells_ok sw (sw_all (chain sw))"
    and card: "card (sw_all (chain sw)) = ?n" using ok by (auto simp: swap_ok_def)
  have h: "hlist (nexts sw) (sw_free sw) (?fr @ [])" using sw_repD(2) [OF R, of None] by simp
  have len: "length ?fr = ?n" using all_free by (simp add: free_cells_def)
  have d: "distinct ?fr" using hlist_distinct [OF h] by simp
  have A: "sw_all (chain sw) = set ?fr"
  proof (rule card_subset_eq [symmetric])
    show "set ?fr \<subseteq> sw_all (chain sw)" by (auto intro: sw_all_memI [of None])
    show "card (set ?fr) = card (sw_all (chain sw))" using distinct_card [OF d] len card by simp
  qed (rule finite_sw_all)
  obtain sw' q where L: "kfold reorder_cell [0..<?n] (sw, sw_free sw) = Ok (sw', q)" "nexts sw' = nexts sw"
      "\<forall>i < ?n. sc_offset (sw_cells sw' (?fr ! i)) = of_nat i * PAGE_SIZE"
      "\<forall>a. sw_cells sw' a = (sw_cells sw a)\<lparr>sc_offset := sc_offset (sw_cells sw' a)\<rparr>"
      "sw' = sw\<lparr>sw_cells := sw_cells sw'\<rparr>"
    using reorder_loop_ok [OF h, of 0] len by auto
  have hd: "head_of sw' x = head_of sw x" "seg_heads g sw' = seg_heads g sw" for x g
    by (subst L(5), simp)+
  have rep: "sw_rep sw' (chain sw)" using R L(2) hd by (simp add: sw_rep_def)
  have cell: "\<exists>i < ?n. c = ?fr ! i" if "c \<in> set ?fr" for c using that len by (metis in_set_conv_nth)
  have v': "sw_v sw' = sw_v sw" "sw_kbuf sw' = sw_kbuf sw" "sw_size sw' = sw_size sw" by (subst L(5), simp)+
  have "\<not> sc_store (sw_cells sw' c) \<and> page_off (sw_v sw') (sc_offset (sw_cells sw' c))" if c: "c \<in> set ?fr" for c
  proof -
    have "sc_store (sw_cells sw' c) = sc_store (sw_cells sw c)" by (subst L(4)) simp
    moreover obtain i where "i < ?n" "c = ?fr ! i" using cell [OF c] by blast
    ultimately show ?thesis
      using C A c L(3) page_offsets(2) [of i "sw_v sw"] size by (auto simp: cells_ok_def v')
  qed
  moreover have "inj_on (\<lambda>c. sc_offset (sw_cells sw' c)) (set ?fr)"
  proof (rule inj_onI)
    fix c e assume "c \<in> set ?fr" "e \<in> set ?fr" and eq: "sc_offset (sw_cells sw' c) = sc_offset (sw_cells sw' e)"
    then obtain i j where i: "i < ?n" "c = ?fr ! i" and j: "j < ?n" "e = ?fr ! j" using cell by metis
    then have "of_nat i * PAGE_SIZE = of_nat j * PAGE_SIZE" using eq L(3) by simp
    then have "i * 4096 = j * 4096"
      using page_offsets(1) [OF less_le_trans [OF i(1) size(1)] size(2)]
        page_offsets(1) [OF less_le_trans [OF j(1) size(1)] size(2)] by argo
    then show "c = e" using i j by simp
  qed
  ultimately have "cells_ok sw' (sw_all (chain sw))" by (simp add: cells_ok_def A)
  then have ok': "swap_ok sw' (chain sw)" using ok rep by (simp add: swap_ok_def v')
  show ?thesis
    using L(1,3) swap_ok_inv [OF ok'] swap_ok_chain [OF ok', of None] by (simp add: reorder_swapfile_def)
qed

section \<open>The contract of a page store\<close>

text \<open>
  What the paging code relies on: \<open>st v p\<close> saves the frame \<open>p\<close> as page \<open>v\<close>, \<open>ld v p\<close> brings
  it back. \<open>look\<close> is the contents saved for a page, \<open>fr\<close> the contents of a frame, \<open>avail\<close>
  the room left.
\<close>

locale page_store =
  fixes st ld :: "vaddr \<Rightarrow> paddr \<Rightarrow> 's \<Rightarrow> (int \<times> 's) kres"
    and inv :: "'s \<Rightarrow> bool" and avail :: "'s \<Rightarrow> nat" and dom_ok :: "'s \<Rightarrow> vaddr \<Rightarrow> bool"
    and room :: "'s \<Rightarrow> paddr \<Rightarrow> bool" and look :: "'s \<Rightarrow> vaddr \<Rightarrow> byte list option"
    and fr :: "'s \<Rightarrow> paddr \<Rightarrow> byte list"
  assumes st_ok: "inv s \<Longrightarrow> avail s \<noteq> 0 \<Longrightarrow> dom_ok s v \<Longrightarrow> room s p \<Longrightarrow>
      \<exists>s'. st v p s = Ok (1, s') \<and> inv s' \<and> dom_ok s' = dom_ok s \<and> room s' = room s
        \<and> avail s' = avail s - 1 \<and> look s' v = Some (fr s p)
        \<and> (\<forall>w. dom_ok s w \<longrightarrow> w \<noteq> v \<longrightarrow> look s' w = look s w) \<and> (\<forall>q. room s q \<longrightarrow> fr s' q = fr s q)"
    and ld_ok: "inv s \<Longrightarrow> dom_ok s v \<Longrightarrow> room s p \<Longrightarrow> look s v = Some b \<Longrightarrow>
      \<exists>s'. ld v p s = Ok (1, s') \<and> inv s' \<and> dom_ok s' = dom_ok s \<and> room s' = room s
        \<and> avail s' = avail s + 1 \<and> fr s' p = b
        \<and> (\<forall>w. dom_ok s w \<longrightarrow> w \<noteq> v \<longrightarrow> look s' w = look s w)"
    and ld_none: "inv s \<Longrightarrow> dom_ok s v \<Longrightarrow> look s v = None \<Longrightarrow> ld v p s = Ok (0, s)"
begin

lemma evict_reload:
  assumes "inv s" "avail s \<noteq> 0" "dom_ok s v" "room s p" "room s q"
  shows "\<exists>s1 s2. st v p s = Ok (1, s1) \<and> ld v q s1 = Ok (1, s2) \<and> inv s2 \<and> fr s2 q = fr s p
    \<and> avail s2 = avail s \<and> (\<forall>w. dom_ok s w \<longrightarrow> w \<noteq> v \<longrightarrow> look s2 w = look s w)"
proof -
  obtain s1 where 1: "st v p s = Ok (1, s1)" "inv s1" "dom_ok s1 = dom_ok s" "room s1 = room s"
      "avail s1 = avail s - 1" "look s1 v = Some (fr s p)"
      "\<forall>w. dom_ok s w \<longrightarrow> w \<noteq> v \<longrightarrow> look s1 w = look s w"
    using st_ok [OF assms(1-4)] by blast
  then obtain s2 where "ld v q s1 = Ok (1, s2)" "inv s2" "avail s2 = avail s1 + 1" "fr s2 q = fr s p"
      "\<forall>w. dom_ok s1 w \<longrightarrow> w \<noteq> v \<longrightarrow> look s2 w = look s1 w"
    using ld_ok [of s1 v q "fr s p"] assms by auto
  then show ?thesis using 1 assms(2) by auto
qed

text \<open>Page replacement: the frame of \<open>v\<close> is given to \<open>w\<close>.\<close>

lemma replace_page:
  assumes "inv s" "avail s \<noteq> 0" "dom_ok s v" "dom_ok s w" "v \<noteq> w" "room s p" "look s w = Some b"
  shows "\<exists>s1 s2. st v p s = Ok (1, s1) \<and> ld w p s1 = Ok (1, s2) \<and> inv s2 \<and> fr s2 p = b
    \<and> look s2 v = Some (fr s p) \<and> avail s2 = avail s"
proof -
  obtain s1 where 1: "st v p s = Ok (1, s1)" "inv s1" "dom_ok s1 = dom_ok s" "room s1 = room s"
      "avail s1 = avail s - 1" "look s1 v = Some (fr s p)" "look s1 w = look s w"
    using st_ok [OF assms(1-3,6)] assms(4,5) by metis
  then obtain s2 where "ld w p s1 = Ok (1, s2)" "inv s2" "avail s2 = avail s1 + 1" "fr s2 p = b"
      "look s2 v = look s1 v"
    using ld_ok [of s1 w p b] assms by auto
  then show ?thesis using 1 assms(2) by auto
qed

end

text \<open>The swap file as the page store of the current process \<open>i\<close>.\<close>

definition own_inv :: "nat \<Rightarrow> 'a ksys_scheme \<Rightarrow> bool" where
  "own_inv i s \<longleftrightarrow> swap_inv (k_swap s) \<and> i < MAX_PROC \<and> k_pid s = int i"

definition own_page :: "'a ksys_scheme \<Rightarrow> vaddr \<Rightarrow> bool" where
  "own_page s v \<longleftrightarrow> (\<exists>as g. k_as s = Some as \<and> one_seg as v g)"

definition own_look :: "nat \<Rightarrow> 'a ksys_scheme \<Rightarrow> vaddr \<Rightarrow> byte list option" where
  "own_look i s v =
     (case k_as s of
        None \<Rightarrow> None
      | Some as \<Rightarrow> (case swap_seg_of as v of None \<Rightarrow> None | Some g \<Rightarrow> map_of (swap_list (k_swap s) g i) v))"

definition frame_room :: "'a ksys_scheme \<Rightarrow> paddr \<Rightarrow> bool" where
  "frame_room s p \<longleftrightarrow> below_buf (sw_v (k_swap s)) (PADDR_TO_KVADDR p) 4096"

lemma same_proc_fields: "same_proc s s' \<Longrightarrow> k_as s' = k_as s \<and> k_pid s' = k_pid s"
  unfolding same_proc_def by (metis ksys.ext_inject ksys.surjective ksys.update_convs(1-3))

lemma map_of_del_first: "w \<noteq> v \<Longrightarrow> map_of (del_first v ps) w = map_of ps w"
  by (induction v ps rule: del_first.induct) auto

lemma frame_bytes_keep:
  assumes "lhd_wf d" "below_buf d (PADDR_TO_KVADDR q) 4096" "\<And>a. \<not> in_buf d a \<Longrightarrow> m' a = m a"
  shows "frame_bytes m' q = frame_bytes m q"
  using assms below_buf_not_in_buf [OF assms(1,2)] by (simp add: frame_bytes_def mem_get_def)

lemma own_store:
  assumes "own_inv i s" "free_cells (k_swap s) \<noteq> 0" "own_page s v" "frame_room s p"
  shows "\<exists>s'. store_swap v (int i) p s = Ok (1, s') \<and> own_inv i s' \<and> own_page s' = own_page s
    \<and> frame_room s' = frame_room s \<and> free_cells (k_swap s') = free_cells (k_swap s) - 1
    \<and> own_look i s' v = Some (frame_bytes (k_mem s) p)
    \<and> (\<forall>w. own_page s w \<longrightarrow> w \<noteq> v \<longrightarrow> own_look i s' w = own_look i s w)
    \<and> (\<forall>q. frame_room s q \<longrightarrow> frame_bytes (k_mem s') q = frame_bytes (k_mem s) q)"
proof -
  obtain as g where as: "k_as s = Some as" "one_seg as v g" using assms(3) by (auto simp: own_page_def)
  have inv: "swap_inv (k_swap s)" "i < MAX_PROC" "k_pid s = int i" using assms(1) by (auto simp: own_inv_def)
  obtain s' where S: "store_swap v (int i) p s = Ok (1, s')" "swap_inv (k_swap s')"
      "swap_list (k_swap s') g i = (v, frame_bytes (k_mem s) p) # swap_list (k_swap s) g i"
      "\<forall>h j. j < MAX_PROC \<longrightarrow> (h, j) \<noteq> (g, i) \<longrightarrow> swap_list (k_swap s') h j = swap_list (k_swap s) h j"
      "free_cells (k_swap s') = free_cells (k_swap s) - 1"
      "\<forall>a. \<not> in_buf (sw_v (k_swap s)) a \<longrightarrow> k_mem s' a = k_mem s a"
      "same_proc s s'" "same_dev (sw_v (k_swap s)) (sw_v (k_swap s'))"
    using store_swap_spec [OF inv(1) assms(2) as inv(2)] assms(4) unfolding frame_room_def by blast
  note P = same_proc_fields [OF S(7)]
  have wf: "lhd_wf (sw_v (k_swap s))" using inv(1) by (simp add: swap_inv_def swap_ok_def)
  have look: "own_look i s' w = (if w = v then Some (frame_bytes (k_mem s) p) else own_look i s w)"
    if w: "own_page s w" for w
  proof -
    obtain h where "one_seg as w h" using w as(1) by (auto simp: own_page_def)
    then have h: "swap_seg_of as w = Some h" by (rule one_seg_unique)
    show ?thesis
      using S(3,4) P as(1) h one_seg_unique [OF as(2)] inv(2)
      by (cases "h = g") (auto simp: own_look_def)
  qed
  have "frame_room s' = frame_room s" by (simp add: fun_eq_iff frame_room_def same_dev_simps [OF S(8)])
  moreover have "frame_bytes (k_mem s') q = frame_bytes (k_mem s) q" if "frame_room s q" for q
    by (rule frame_bytes_keep [OF wf]) (use that S(6) in \<open>auto simp: frame_room_def\<close>)
  moreover have "own_page s' = own_page s" using P by (simp add: own_page_def fun_eq_iff)
  ultimately show ?thesis
    using S(1,2,5) P inv look [OF assms(3)] look by (simp add: own_inv_def)
qed

lemma own_load:
  assumes "own_inv i s" "own_page s v" "frame_room s p" "own_look i s v = Some b"
  shows "\<exists>s'. load_swap v (int i) p s = Ok (1, s') \<and> own_inv i s' \<and> own_page s' = own_page s
    \<and> frame_room s' = frame_room s \<and> free_cells (k_swap s') = free_cells (k_swap s) + 1
    \<and> frame_bytes (k_mem s') p = b
    \<and> (\<forall>w. own_page s w \<longrightarrow> w \<noteq> v \<longrightarrow> own_look i s' w = own_look i s w)"
proof -
  obtain as g where as: "k_as s = Some as" "one_seg as v g" using assms(2) by (auto simp: own_page_def)
  note g = one_seg_unique [OF as(2)]
  have inv: "swap_inv (k_swap s)" "i < MAX_PROC" "k_pid s = int i" using assms(1) by (auto simp: own_inv_def)
  have hit: "map_of (swap_list (k_swap s) g i) v = Some b" using assms(4) as(1) g by (simp add: own_look_def)
  obtain s' where S: "load_swap v (int i) p s = Ok (1, s')" "swap_inv (k_swap s')"
      "frame_bytes (k_mem s') p = b" "swap_list (k_swap s') g i = del_first v (swap_list (k_swap s) g i)"
      "\<forall>h j. j < MAX_PROC \<longrightarrow> (h, j) \<noteq> (g, i) \<longrightarrow> swap_list (k_swap s') h j = swap_list (k_swap s) h j"
      "free_cells (k_swap s') = free_cells (k_swap s) + 1"
      "same_proc s s'" "same_dev (sw_v (k_swap s)) (sw_v (k_swap s'))"
    using load_swap_spec [OF inv(1) as(1) g inv(2,3) hit] assms(3) unfolding frame_room_def by blast
  note P = same_proc_fields [OF S(7)]
  have "own_look i s' w = own_look i s w" if w: "own_page s w" "w \<noteq> v" for w
  proof -
    obtain h where "one_seg as w h" using w(1) as(1) by (auto simp: own_page_def)
    then have "swap_seg_of as w = Some h" by (rule one_seg_unique)
    then show ?thesis
      using S(4,5) P as(1) inv(2) map_of_del_first [OF w(2)]
      by (cases "h = g") (auto simp: own_look_def)
  qed
  moreover have "frame_room s' = frame_room s" by (simp add: fun_eq_iff frame_room_def same_dev_simps [OF S(8)])
  moreover have "own_page s' = own_page s" using P by (simp add: own_page_def fun_eq_iff)
  ultimately show ?thesis using S(1-3,6) P inv by (simp add: own_inv_def)
qed

interpretation swap_pages: page_store "\<lambda>v p s. store_swap v (int i) p s" "\<lambda>v p s. load_swap v (int i) p s"
  "own_inv i" "\<lambda>s. free_cells (k_swap s)" own_page frame_room "own_look i" "\<lambda>s p. frame_bytes (k_mem s) p" for i
proof unfold_locales
  show "own_inv i s \<Longrightarrow> own_page s v \<Longrightarrow> own_look i s v = None \<Longrightarrow> load_swap v (int i) p s = Ok (0, s)"
    for s :: "'a ksys_scheme" and v p
    using load_swap_none [of s _ v _ i p] one_seg_unique
    by (auto simp: own_inv_def own_page_def own_look_def)
qed (fact own_store own_load)+

section \<open>A small swap file\<close>

text \<open>
  A disk of two pages and a swap file of two cells: process 1 has the text page at
  \<open>0x400000\<close> in the swap file, the other cell is free.
\<close>

definition ex_swap :: swapfile where
  "ex_swap = \<lparr>sw_cells = (\<lambda>a. if a = 0x80003000 then \<lparr>sc_vaddr = 0x400000, sc_store = False, sc_next = NULL, sc_offset = 0\<rparr>
       else \<lparr>sc_vaddr = 0, sc_store = False, sc_next = NULL, sc_offset = 4096\<rparr>),
     sw_text = (replicate 100 NULL)[1 := 0x80003000], sw_data = replicate 100 NULL, sw_stack = replicate 100 NULL,
     sw_free = 0x80004000, sw_kbuf = 0x80005000, sw_v = ex_lhd, sw_size = 2\<rparr>"

definition ex_as :: addrspace where
  "ex_as = zero_as\<lparr>as_vbase1 := 0x400000, as_npages1 := 2, as_vbase2 := 0x10000000, as_npages2 := 2, as_v := 0x80006000\<rparr>"

definition ex_stats :: stats where
  "ex_stats = \<lparr>tlb_faults = 0, tlb_free_faults = 0, tlb_replace_faults = 0, tlb_invalidations = 0,
     tlb_reloads = 0, page_zeroed_faults = 0, page_disk_faults = 0, page_elf_faults = 0,
     page_swapfile_faults = 0, swapfile_writes = 0\<rparr>"

definition ex_sys :: ksys where
  "ex_sys = \<lparr>k_mem = (\<lambda>a. 7), k_stats = ex_stats, k_swap = ex_swap,
     k_vnodes = (\<lambda>a. \<lparr>vn_refcount = 1, vop_read = (\<lambda>u m. Ok (0, u, m)), vop_reclaim = 0, vn_reclaims = 0\<rparr>),
     k_pid = 1, k_as = Some ex_as,
     k_uc = ex_uc\<rparr>"

definition ex_chains :: "lidx \<Rightarrow> ptr list" where
  "ex_chains = (\<lambda>x. if x = None then [0x80004000] else if x = Some (Text, 1) then [0x80003000] else [])"

lemma ex_swap_ok: "swap_ok ex_swap ex_chains"
proof -
  have "hlist (nexts ex_swap) (head_of ex_swap x) (ex_chains x)" if "idx_ok x" for x
  proof (cases x rule: idx_ok.cases)
    case (2 g i)
    then show ?thesis using that
      by (cases g) (auto simp: ex_chains_def ex_swap_def nexts_def MAX_PROC_def nth_list_update)
  qed (simp add: ex_chains_def ex_swap_def nexts_def)
  moreover have "length (seg_heads g ex_swap) = MAX_PROC" for g
    by (cases g) (simp_all add: ex_swap_def MAX_PROC_def)
  ultimately have rep: "sw_rep ex_swap ex_chains" by (auto simp: sw_rep_def ex_chains_def)
  have all: "sw_all ex_chains = {0x80003000, 0x80004000}"
  proof -
    have "sw_all ex_chains \<subseteq> {0x80003000, 0x80004000}" by (auto simp: sw_all_def ex_chains_def split: if_splits)
    moreover have "{0x80003000, 0x80004000} \<subseteq> sw_all ex_chains"
      using sw_all_memI [of None "0x80004000" ex_chains] sw_all_memI [of "Some (Text, 1)" "0x80003000" ex_chains]
      by (simp add: ex_chains_def MAX_PROC_def)
    ultimately show ?thesis by blast
  qed
  have "cells_ok ex_swap (sw_all ex_chains)"
    by (auto simp: all cells_ok_def ex_swap_def ex_lhd_def page_off_def)
  then show ?thesis
    using rep ex_lhd_wf by (simp add: swap_ok_def all) (simp add: ex_swap_def below_buf_def ex_lhd_def)
qed

lemma ex_sys_facts:
  "own_inv 1 ex_sys" "swap_inv (k_swap ex_sys)" "free_cells (k_swap ex_sys) = 1" "k_as ex_sys = Some ex_as"
  "k_pid ex_sys = int 1" "below_buf (sw_v (k_swap ex_sys)) (PADDR_TO_KVADDR 0x100000) 4096"
  "one_seg ex_as 0x400000 Text" "one_seg ex_as 0x401000 Text" "one_seg ex_as 0x7ffff000 Stack"
  "length (swap_list (k_swap ex_sys) Text 1) = 1" "swap_list (k_swap ex_sys) Data 1 = []"
  "swap_list (k_swap ex_sys) Stack 1 = []"
  "map_of (swap_list (k_swap ex_sys) Text 1) 0x400000 = Some (map (disk_page ex_lhd 0) [0..<4096])"
proof -
  have M: "1 < MAX_PROC" by (simp add: MAX_PROC_def)
  have k: "k_swap ex_sys = ex_swap" by (simp add: ex_sys_def)
  show i: "swap_inv (k_swap ex_sys)" using swap_ok_inv [OF ex_swap_ok] by (simp add: k)
  show "free_cells (k_swap ex_sys) = 1" by (simp add: k swap_ok_free [OF ex_swap_ok] ex_chains_def)
  show "k_as ex_sys = Some ex_as" and p: "k_pid ex_sys = int 1" by (simp_all add: ex_sys_def)
  show "own_inv 1 ex_sys" using i p M by (simp add: own_inv_def)
  show "below_buf (sw_v (k_swap ex_sys)) (PADDR_TO_KVADDR 0x100000) 4096"
    by (simp add: k ex_swap_def ex_lhd_def below_buf_def vm_consts)
  show "one_seg ex_as 0x400000 Text" "one_seg ex_as 0x401000 Text" "one_seg ex_as 0x7ffff000 Stack"
    by (simp_all add: one_seg_def in_text_def in_data_def above_data_def ex_as_def zero_as_def vm_consts)
  show "length (swap_list (k_swap ex_sys) Text 1) = 1" "swap_list (k_swap ex_sys) Data 1 = []"
    "swap_list (k_swap ex_sys) Stack 1 = []"
    using swap_ok_list [OF ex_swap_ok M] by (simp_all add: k ex_chains_def)
  show "map_of (swap_list (k_swap ex_sys) Text 1) 0x400000 = Some (map (disk_page ex_lhd 0) [0..<4096])"
    using swap_ok_list [OF ex_swap_ok M, of Text] by (simp add: k ex_chains_def cell_page_def ex_swap_def)
qed

section \<open>Properties\<close>

text \<open>
  Storing a page, on every state that satisfies the invariant and has a free cell: the call
  succeeds, puts the page in front of the list of its segment, changes no other list, uses one
  free cell, counts one write, keeps the invariant, and changes memory only in the driver's buffer.
\<close>

theorem store_swap_refines:
  assumes "swap_inv (k_swap s)" and "free_cells (k_swap s) \<noteq> 0" and "k_as s = Some as" "one_seg as v g"
    and "i < MAX_PROC" and "below_buf (sw_v (k_swap s)) (PADDR_TO_KVADDR p) 4096"
  shows "\<exists>s'. store_swap v (int i) p s = Ok (1, s') \<and> swap_inv (k_swap s')
    \<and> swap_list (k_swap s') g i = (v, frame_bytes (k_mem s) p) # swap_list (k_swap s) g i
    \<and> (\<forall>h j. j < MAX_PROC \<longrightarrow> (h, j) \<noteq> (g, i) \<longrightarrow> swap_list (k_swap s') h j = swap_list (k_swap s) h j)
    \<and> free_cells (k_swap s') = free_cells (k_swap s) - 1
    \<and> k_stats s' = add_swapfile_write (k_stats s)
    \<and> (\<forall>a. \<not> in_buf (sw_v (k_swap s)) a \<longrightarrow> k_mem s' a = k_mem s a)"
  using store_swap_spec [OF assms] by blast

theorem store_swap_refines_witness:
  "\<exists>s'. store_swap 0x401000 1 0x100000 ex_sys = Ok (1, s') \<and> swap_inv (k_swap s')
     \<and> swap_list (k_swap s') Text 1 = (0x401000, frame_bytes (k_mem ex_sys) 0x100000) # swap_list (k_swap ex_sys) Text 1"
  using store_swap_refines [of ex_sys ex_as "0x401000" Text 1 "0x100000"] ex_sys_facts(2,3,4,6,8)
  by (auto simp: MAX_PROC_def)

text \<open>
  Loading a page that the swap list of the process holds: the call returns 1, the frame gets
  the stored bytes, the first page with that address leaves the list, its cell becomes free, no
  other list changes, a disk fault and a swap fault are counted, the invariant is kept and memory
  changes only in the frame and in the driver's buffer.
\<close>

theorem load_swap_refines:
  assumes "swap_inv (k_swap s)" and "k_as s = Some as" "swap_seg_of as v = Some g"
    and "i < MAX_PROC" "k_pid s = int i" and "map_of (swap_list (k_swap s) g i) v = Some b"
    and "below_buf (sw_v (k_swap s)) (PADDR_TO_KVADDR p) 4096"
  shows "\<exists>s'. load_swap v (int i) p s = Ok (1, s') \<and> swap_inv (k_swap s')
    \<and> frame_bytes (k_mem s') p = b
    \<and> swap_list (k_swap s') g i = del_first v (swap_list (k_swap s) g i)
    \<and> (\<forall>h j. j < MAX_PROC \<longrightarrow> (h, j) \<noteq> (g, i) \<longrightarrow> swap_list (k_swap s') h j = swap_list (k_swap s) h j)
    \<and> free_cells (k_swap s') = free_cells (k_swap s) + 1
    \<and> k_stats s' = add_page_fault SWAPFILE_FAULT (add_page_fault DISK_FAULT (k_stats s))
    \<and> (\<forall>a. \<not> in_buf (sw_v (k_swap s)) a \<longrightarrow> \<not> unat (a - PADDR_TO_KVADDR p) < 4096 \<longrightarrow> k_mem s' a = k_mem s a)"
  using load_swap_spec [OF assms] by blast

theorem load_swap_refines_witness:
  "\<exists>s'. load_swap 0x400000 1 0x100000 ex_sys = Ok (1, s') \<and> swap_inv (k_swap s')
     \<and> frame_bytes (k_mem s') 0x100000 = map (disk_page ex_lhd 0) [0..<4096] \<and> free_cells (k_swap s') = 2"
  using load_swap_refines [of ex_sys ex_as "0x400000" Text 1 "map (disk_page ex_lhd 0) [0..<4096]" "0x100000"]
    ex_sys_facts(2,3,4,5,6,13) one_seg_unique [OF ex_sys_facts(7)]
  by (auto simp: MAX_PROC_def)

text \<open>
  (C37) Eviction and reload: a page of the current process stored from frame \<open>p\<close> and later
  loaded in frame \<open>q\<close> is there byte for byte, every other page the process has in the swap
  file is what it was, and the room in the swap file is what it was.
\<close>

theorem swap_roundtrip:
  assumes "own_inv i s" "free_cells (k_swap s) \<noteq> 0" "own_page s v" "frame_room s p" "frame_room s q"
  shows "\<exists>s1 s2. store_swap v (int i) p s = Ok (1, s1) \<and> load_swap v (int i) q s1 = Ok (1, s2) \<and> own_inv i s2
    \<and> frame_bytes (k_mem s2) q = frame_bytes (k_mem s) p \<and> free_cells (k_swap s2) = free_cells (k_swap s)
    \<and> (\<forall>w. own_page s w \<longrightarrow> w \<noteq> v \<longrightarrow> own_look i s2 w = own_look i s w)"
  by (rule swap_pages.evict_reload [OF assms])

theorem swap_roundtrip_witness:
  "\<exists>s1 s2. store_swap 0x401000 1 0x100000 ex_sys = Ok (1, s1) \<and> load_swap 0x401000 1 0x100000 s1 = Ok (1, s2)
     \<and> frame_bytes (k_mem s2) 0x100000 = frame_bytes (k_mem ex_sys) 0x100000"
proof -
  have "own_page ex_sys 0x401000" "frame_room ex_sys 0x100000"
    using ex_sys_facts(4,6,8) by (auto simp: own_page_def frame_room_def)
  then show ?thesis
    using swap_roundtrip [of 1 ex_sys "0x401000" "0x100000" "0x100000"] ex_sys_facts(1,3) by auto
qed

text \<open>
  Page replacement: when the page \<open>v\<close> leaves the frame \<open>p\<close> for the page \<open>w\<close>, which
  the swap file holds, the frame ends with the contents saved for \<open>w\<close> and the swap file with the
  contents the frame had for \<open>v\<close>.
\<close>

theorem swap_replacement:
  assumes "own_inv i s" "free_cells (k_swap s) \<noteq> 0" "own_page s v" "own_page s w" "v \<noteq> w" "frame_room s p"
    and "own_look i s w = Some b"
  shows "\<exists>s1 s2. store_swap v (int i) p s = Ok (1, s1) \<and> load_swap w (int i) p s1 = Ok (1, s2) \<and> own_inv i s2
    \<and> frame_bytes (k_mem s2) p = b \<and> own_look i s2 v = Some (frame_bytes (k_mem s) p)
    \<and> free_cells (k_swap s2) = free_cells (k_swap s)"
  by (rule swap_pages.replace_page [OF assms])

theorem swap_replacement_witness:
  "\<exists>s1 s2. store_swap 0x401000 1 0x100000 ex_sys = Ok (1, s1) \<and> load_swap 0x400000 1 0x100000 s1 = Ok (1, s2)
     \<and> frame_bytes (k_mem s2) 0x100000 = map (disk_page ex_lhd 0) [0..<4096]"
proof -
  have "own_page ex_sys 0x401000" "own_page ex_sys 0x400000" "frame_room ex_sys 0x100000"
    using ex_sys_facts(4,6,7,8) by (auto simp: own_page_def frame_room_def)
  moreover have "own_look 1 ex_sys 0x400000 = Some (map (disk_page ex_lhd 0) [0..<4096])"
    using ex_sys_facts(4,13) one_seg_unique [OF ex_sys_facts(7)] by (simp add: own_look_def)
  ultimately show ?thesis
    using swap_replacement [of 1 ex_sys "0x401000" "0x400000" "0x100000" "map (disk_page ex_lhd 0) [0..<4096]"]
      ex_sys_facts(1,3) by auto
qed

theorem store_swap_panics_witness:
  "store_swap 0x80001000 1 0x100000 ex_sys = Fail (Panic ''store_swap: wrong virtual address'')"
proof -
  have "swap_seg_of ex_as 0x80001000 = None"
    by (simp add: swap_seg_of_def in_text_def in_data_def above_data_def ex_as_def zero_as_def vm_consts)
  then show ?thesis
    using store_swap_panics [of ex_sys ex_as "0x80001000" 1 "0x100000"] ex_sys_facts(2,3,4) by simp
qed

theorem remove_process_refines_witness:
  "\<exists>s'. remove_process_from_swap 1 ex_sys = Ok s' \<and> swap_list (k_swap s') Text 1 = [] \<and> free_cells (k_swap s') = 2"
  using remove_process_refines [of ex_sys 1] ex_sys_facts(2,3,10,11,12) by (auto simp: MAX_PROC_def)

theorem copy_swap_pages_refines_witness:
  "\<exists>s'. copy_swap_pages 2 1 ex_sys = Ok s' \<and> swap_inv (k_swap s') \<and> free_cells (k_swap s') = 0
     \<and> swap_list (k_swap s') Text 1 = swap_list (k_swap ex_sys) Text 1"
  using copy_swap_pages_refines [of ex_sys 2 1] ex_sys_facts(2,3,10,11,12) by (auto simp: MAX_PROC_def)

definition ex_al :: "nat \<Rightarrow> ptr" where
  "ex_al k = 0x80010000 + of_nat (4096 * k)"

lemma ex_al_unat: "k \<le> 2308 \<Longrightarrow> unat (ex_al k) = 0x80010000 + 4096 * k"
  unfolding ex_al_def by (subst unat_plus_nat) simp_all

lemma ex_al_ok: "inj_on ex_al {..2308}" "k \<le> 2308 \<Longrightarrow> ex_al k \<noteq> NULL"
proof -
  show "inj_on ex_al {..2308}"
  proof (rule inj_onI)
    fix x y assume xy: "x \<in> {..2308}" "y \<in> {..2308}" "ex_al x = ex_al y"
    have "0x80010000 + 4096 * x = 0x80010000 + 4096 * y"
      using ex_al_unat [of x] ex_al_unat [of y] xy by (metis atMost_iff)
    then show "x = y" by simp
  qed
  show "k \<le> 2308 \<Longrightarrow> ex_al k \<noteq> NULL" using ex_al_unat [of k] by auto
qed

definition ex_disk :: lhd_softc where
  "ex_disk = ex_lhd\<lparr>d_blocks := 18432\<rparr>"

lemma ex_disk_ok: "lhd_wf ex_disk" "18432 \<le> d_blocks ex_disk" "below_buf ex_disk (ex_al 1) 4096"
proof -
  show "lhd_wf ex_disk"
    by (simp add: lhd_wf_def lhd_hw_ok_def ex_disk_def ex_lhd_def ex_hw_def lhd_irq_def lhd_code_to_errno_def lhd_codes Let_def)
  show "18432 \<le> d_blocks ex_disk" by (simp add: ex_disk_def)
  show "below_buf ex_disk (ex_al 1) 4096"
    using ex_al_unat [of 1] by (simp add: below_buf_def ex_disk_def ex_lhd_def)
qed

theorem swap_init_establishes_witness:
  "\<exists>sw. swap_init ex_al (Inr ex_disk) (sw_cells ex_swap) = Ok (Inr sw) \<and> swap_inv sw \<and> free_cells sw = 2304"
  using swap_init_establishes [OF ex_al_ok ex_disk_ok] by blast

text \<open>A swap file of one free cell, for the renumbering.\<close>

definition ex_free_swap :: swapfile where
  "ex_free_swap = ex_swap\<lparr>sw_text := replicate 100 NULL, sw_v := ex_lhd\<lparr>d_blocks := 18432\<rparr>, sw_size := 1\<rparr>"

lemma ex_free_swap_ok:
  "swap_ok ex_free_swap (\<lambda>x. if x = None then [0x80004000] else [])" (is "swap_ok _ ?ch")
proof -
  have "hlist (nexts ex_free_swap) (head_of ex_free_swap x) (?ch x)" if "idx_ok x" for x
  proof (cases x rule: idx_ok.cases)
    case (2 g i)
    then show ?thesis using that
      by (cases g) (auto simp: ex_free_swap_def ex_swap_def nexts_def MAX_PROC_def)
  qed (simp add: ex_free_swap_def ex_swap_def nexts_def)
  moreover have "length (seg_heads g ex_free_swap) = MAX_PROC" for g
    by (cases g) (simp_all add: ex_free_swap_def ex_swap_def MAX_PROC_def)
  ultimately have rep: "sw_rep ex_free_swap ?ch" by (auto simp: sw_rep_def)
  have all: "sw_all ?ch = {0x80004000}"
    using sw_all_memI [of None "0x80004000" ?ch] by (auto simp: sw_all_def split: if_splits)
  have "lhd_wf (sw_v ex_free_swap)"
    by (simp add: ex_free_swap_def lhd_wf_def lhd_hw_ok_def ex_lhd_def ex_hw_def lhd_irq_def
        lhd_code_to_errno_def lhd_codes Let_def)
  then show ?thesis
    using rep unfolding swap_ok_def all
    by (simp add: cells_ok_def ex_free_swap_def ex_swap_def ex_lhd_def page_off_def below_buf_def)
qed

theorem reorder_swapfile_sorts_witness:
  "\<exists>sw'. reorder_swapfile ex_free_swap = Ok sw' \<and> swap_inv sw' \<and> sc_offset (sw_cells sw' 0x80004000) = 0"
proof -
  have f: "free_cells ex_free_swap = 1" "chain ex_free_swap None = [0x80004000]"
    using swap_ok_free [OF ex_free_swap_ok] swap_ok_chain [OF ex_free_swap_ok, of None] by simp_all
  have s: "sw_size ex_free_swap = 1" "d_blocks (sw_v ex_free_swap) = 18432"
    by (simp_all add: ex_free_swap_def)
  show ?thesis
    using reorder_swapfile_sorts [OF swap_ok_inv [OF ex_free_swap_ok]] f s by auto
qed

end
