(* ===== verification/Hash_Table.thy ===== *)
theory Hash_Table
  imports VM_Prelude
begin

text \<open>
  The hash table that speeds up the search of the inverted page table
  (\<^verbatim>\<open>kern/vm/pt.c\<close>, from \<open>hashtable_init\<close> to \<open>remove_from_hash\<close>, data types in
  \<^verbatim>\<open>kern/include/pt.h\<close>): an array of singly linked chains whose cells come from, and
  go back to, the list of unused cells. Cells live in a heap indexed by their kernel address.
  The table is shown to implement a finite map from (virtual page, process) to page table
  index, through the locale \<open>frame_index\<close>.
\<close>

section \<open>Data\<close>

record hash_entry =
  ipt_entry :: int
  vad :: vaddr
  he_pid :: pid
  he_next :: ptr

record hash_table =
  ht_mem :: "ptr \<Rightarrow> hash_entry"
  ht_table :: "ptr list"
  ht_size :: int
  unused_ptr_list :: ptr

section \<open>Operations\<close>

text \<open>\<open>%\<close> truncates towards zero in C, hence \<open>smod\<close>; \<open>sint\<close> is the cast \<open>(int)v\<close>.\<close>

definition get_hash_func :: "int \<Rightarrow> vaddr \<Rightarrow> pid \<Rightarrow> int" where
  "get_hash_func sz v p =
     (let val = (sint v smod 24) + push_bit 8 (p smod 8);
          val = val XOR 1234567891
      in val smod sz)"

definition ht_slot :: "hash_table \<Rightarrow> int \<Rightarrow> ptr kres" where
  "ht_slot ht val =
     (if 0 \<le> val \<and> val < int (length (ht_table ht)) then Ok (ht_table ht ! nat val)
      else Fail OutOfBounds)"

partial_function (option) hash_walk ::
  "(ptr \<Rightarrow> hash_entry) \<Rightarrow> ptr \<Rightarrow> vaddr \<Rightarrow> pid \<Rightarrow> int kres option" where
  "hash_walk h tmp v p =
     (if tmp = NULL then Some (Ok (- 1))
      else if \<not> (0x80000000 < tmp \<and> tmp \<le> 0x9FFFFFFF) then Some (Fail KAssert)
      else if vad (h tmp) = v \<and> he_pid (h tmp) = p then Some (Ok (ipt_entry (h tmp)))
      else hash_walk h (he_next (h tmp)) v p)"

definition get_index_from_hash :: "hash_table \<Rightarrow> vaddr \<Rightarrow> pid \<Rightarrow> int kres" where
  "get_index_from_hash ht v p =
     (let val = get_hash_func (ht_size ht) v p
      in kbind (ht_slot ht val) (\<lambda>tmp. from_loop (hash_walk (ht_mem ht) tmp v p)))"

definition add_in_hash :: "hash_table \<Rightarrow> vaddr \<Rightarrow> pid \<Rightarrow> int \<Rightarrow> hash_table kres" where
  "add_in_hash ht v p i =
     (let val = get_hash_func (ht_size ht) v p;
          tmp = unused_ptr_list ht
      in kassert (tmp \<noteq> NULL)
           (let unused = he_next (ht_mem ht tmp)
            in kbind (ht_slot ht val) (\<lambda>head.
                 Ok (ht\<lparr>unused_ptr_list := unused,
                       ht_mem := (ht_mem ht)(tmp := \<lparr>ipt_entry = i, vad = v, he_pid = p, he_next = head\<rparr>),
                       ht_table := (ht_table ht)[nat val := tmp]\<rparr>))))"

text \<open>The search loop of \<open>remove_from_hash\<close>: the cell to unlink and its predecessor.\<close>

partial_function (option) remove_walk ::
  "(ptr \<Rightarrow> hash_entry) \<Rightarrow> ptr \<Rightarrow> ptr \<Rightarrow> vaddr \<Rightarrow> pid \<Rightarrow> (ptr \<times> ptr) kres option" where
  "remove_walk h prev tmp v p =
     (if tmp = NULL then Some (Fail (Panic ''remove_from_hash: not found''))
      else if vad (h tmp) = v \<and> he_pid (h tmp) = p then Some (Ok (prev, tmp))
      else remove_walk h tmp (he_next (h tmp)) v p)"

definition remove_from_hash :: "hash_table \<Rightarrow> vaddr \<Rightarrow> pid \<Rightarrow> hash_table kres" where
  "remove_from_hash ht v p =
     (let val = get_hash_func (ht_size ht) v p; h = ht_mem ht
      in kbind (ht_slot ht val) (\<lambda>tmp.
           if tmp = NULL then Fail (Panic ''remove_from_hash: empty chain'')
           else if vad (h tmp) = v \<and> he_pid (h tmp) = p
           then Ok (ht\<lparr>ht_table := (ht_table ht)[nat val := he_next (h tmp)],
                      ht_mem := h(tmp := (h tmp)\<lparr>vad := 0, he_pid := 0, he_next := unused_ptr_list ht\<rparr>),
                      unused_ptr_list := tmp\<rparr>)
           else kbind (from_loop (remove_walk h tmp (he_next (h tmp)) v p)) (\<lambda>(prev, cur).
             let h1 = h(prev := (h prev)\<lparr>he_next := he_next (h cur)\<rparr>);
                 h2 = h1(cur := (h1 cur)\<lparr>vad := 0, he_pid := 0, ipt_entry := - 1,
                                        he_next := unused_ptr_list ht\<rparr>)
             in Ok (ht\<lparr>ht_mem := h2, unused_ptr_list := cur\<rparr>))))"

text \<open>
  \<open>hashtable_init\<close>: \<open>km\<close> is \<open>kmalloc\<close> on the state \<open>'s\<close> of the kernel, which it changes, since the page table
  is active by then and new heap pages are frames of it; the sizes are those of the array of pointers and of a cell. \<open>h\<close> is the
  memory of the cells before. The array pointer is written through without a test.
\<close>

type_synonym 's kmalloc_op = "32 word \<Rightarrow> 's \<Rightarrow> (ptr \<times> 's) kres"

definition init_cell :: "'s kmalloc_op \<Rightarrow> nat \<Rightarrow> (ptr \<Rightarrow> hash_entry) \<times> ptr \<times> 's \<Rightarrow> ((ptr \<Rightarrow> hash_entry) \<times> ptr \<times> 's) kres" where
  "init_cell km j = (\<lambda>(h, unused, s).
     kbind (km 16 s) (\<lambda>(tmp, s).
       kassert (0x80000000 < tmp)
         (if tmp = NULL then Fail (Panic ''Error during hashpt elements allocation'')
          else Ok (h(tmp := (h tmp)\<lparr>he_next := unused\<rparr>), tmp, s))))"

definition hashtable_init :: "int \<Rightarrow> 's kmalloc_op \<Rightarrow> (ptr \<Rightarrow> hash_entry) \<Rightarrow> 's \<Rightarrow> (hash_table \<times> 's) kres" where
  "hashtable_init n_entry km h s =
     (let sz = 2 * n_entry
      in kbind (km (4 * word_of_int sz) s) (\<lambda>(tbl, s).
           if tbl = NULL \<and> 0 < sz then Fail NullDeref
           else kbind (kfold (init_cell km) [0..<nat n_entry] (h, NULL, s)) (\<lambda>(h', unused, s).
             Ok (\<lparr>ht_mem = h', ht_table = replicate (nat sz) NULL, ht_size = sz, unused_ptr_list = unused\<rparr>, s))))"

section \<open>Abstraction and invariant\<close>

definition he_nexts :: "(ptr \<Rightarrow> hash_entry) \<Rightarrow> ptr \<Rightarrow> ptr" where
  "he_nexts h = (\<lambda>a. he_next (h a))"

definition he_key :: "(ptr \<Rightarrow> hash_entry) \<Rightarrow> ptr \<Rightarrow> vaddr \<times> pid" where
  "he_key h a = (vad (h a), he_pid (h a))"

text \<open>Keys the virtual memory system uses: user addresses and process ids.\<close>

definition key_ok :: "vaddr \<times> pid \<Rightarrow> bool" where
  "key_ok k \<longleftrightarrow> fst k < 0x80000000 \<and> 0 \<le> snd k"

definition kseg0_ptr :: "ptr \<Rightarrow> bool" where
  "kseg0_ptr a \<longleftrightarrow> 0x80000000 < a \<and> a \<le> 0x9FFFFFFF"

text \<open>
  \<open>ht_rep ht cs us\<close>: \<open>cs\<close> are the cells of each chain and \<open>us\<close> the unused cells. No cell
  is in two places, every chained cell is in the chain its key hashes to, and no key occurs
  twice.
\<close>

definition ht_rep :: "hash_table \<Rightarrow> ptr list list \<Rightarrow> ptr list \<Rightarrow> bool" where
  "ht_rep ht cs us \<longleftrightarrow>
     0 < ht_size ht \<and> length (ht_table ht) = nat (ht_size ht) \<and> length cs = length (ht_table ht) \<and>
     (\<forall>i < length cs. hlist (he_nexts (ht_mem ht)) (ht_table ht ! i) (cs ! i)) \<and>
     hlist (he_nexts (ht_mem ht)) (unused_ptr_list ht) us \<and>
     distinct (concat cs @ us) \<and>
     (\<forall>a \<in> set (concat cs @ us). kseg0_ptr a) \<and>
     (\<forall>i < length cs. \<forall>a \<in> set (cs ! i). key_ok (he_key (ht_mem ht) a) \<and>
        get_hash_func (ht_size ht) (vad (ht_mem ht a)) (he_pid (ht_mem ht a)) = int i \<and>
        0 \<le> ipt_entry (ht_mem ht a)) \<and>
     (\<forall>i < length cs. distinct (map (he_key (ht_mem ht)) (cs ! i)))"

text \<open>\<open>ht_inv ht f\<close>: the table is well formed and \<open>f\<close> cells are unused.\<close>

definition ht_inv :: "hash_table \<Rightarrow> nat \<Rightarrow> bool" where
  "ht_inv ht f \<longleftrightarrow> (\<exists>cs us. ht_rep ht cs us \<and> length us = f)"

text \<open>The finite map the table stands for: what the lookup answers.\<close>

definition ht_lookup :: "hash_table \<Rightarrow> vaddr \<times> pid \<Rightarrow> int option" where
  "ht_lookup ht k =
     (case get_index_from_hash ht (fst k) (snd k) of
        Ok i \<Rightarrow> if i = - 1 then None else Some i
      | Fail _ \<Rightarrow> None)"

section \<open>The hash function stays inside the array\<close>

lemma sint_user: "v < 0x80000000 \<Longrightarrow> sint (v :: 32 word) = uint v"
proof -
  assume "v < 0x80000000"
  then have "uint v < 2 ^ 31" by (simp add: word_less_def)
  then show ?thesis
    by (simp add: sint_uint signed_take_bit_int_eq_self order.trans [of _ 0])
qed

lemma get_hash_func_bounds:
  assumes "key_ok (v, p)" "0 < sz"
  shows "0 \<le> get_hash_func sz v p" "get_hash_func sz v p < sz"
proof -
  let ?x = "((sint v smod 24) + push_bit 8 (p smod 8)) XOR 1234567891"
  have "0 \<le> ?x"
    using assms(1) by (simp add: key_ok_def sint_user smod_nonneg)
  then show "0 \<le> get_hash_func sz v p" "get_hash_func sz v p < sz"
    using assms(2) by (simp_all add: get_hash_func_def Let_def smod_nonneg)
qed

section \<open>Walking a chain\<close>

lemma he_nexts_upd [simp]: "he_nexts (h(a := e)) = (he_nexts h)(a := he_next e)"
  by (auto simp: he_nexts_def)

lemma he_nexts_apply [simp]: "he_nexts h a = he_next (h a)"
  by (simp add: he_nexts_def)

lemma he_key_upd_other [simp]: "b \<noteq> a \<Longrightarrow> he_key (h(a := e)) b = he_key h b"
  by (simp add: he_key_def)

lemma he_key_upd_same [simp]: "he_key (h(a := e)) a = (vad e, he_pid e)"
  by (simp add: he_key_def)

lemma hash_walk_hlist:
  assumes "hlist (he_nexts h) p as" "\<forall>a \<in> set as. kseg0_ptr a"
  shows "hash_walk h p v pid =
    Some (Ok (case find (\<lambda>a. he_key h a = (v, pid)) as of None \<Rightarrow> - 1 | Some a \<Rightarrow> ipt_entry (h a)))"
  using assms
proof (induction as arbitrary: p)
  case Nil
  then show ?case by (simp add: hash_walk.simps)
next
  case (Cons a as)
  then have "hash_walk h (he_next (h a)) v pid = Some (Ok (case find (\<lambda>a. he_key h a = (v, pid)) as of
      None \<Rightarrow> - 1 | Some a \<Rightarrow> ipt_entry (h a)))"
    by (simp add: he_nexts_def)
  moreover have "p = a" "a \<noteq> NULL" "0x80000000 < a" "a \<le> 0x9FFFFFFF"
    using Cons.prems by (simp_all add: kseg0_ptr_def)
  ultimately show ?case
    by (subst hash_walk.simps) (auto simp: he_key_def)
qed

lemma remove_walk_hlist:
  assumes "hlist (he_nexts h) (he_next (h q)) as"
  shows "remove_walk h q (he_next (h q)) v pid =
    (case find (\<lambda>a. he_key h a = (v, pid)) as of
       None \<Rightarrow> Some (Fail (Panic ''remove_from_hash: not found''))
     | Some t \<Rightarrow> Some (Ok (last (q # takeWhile (\<lambda>a. he_key h a \<noteq> (v, pid)) as), t)))"
  using assms
proof (induction as arbitrary: q)
  case Nil
  then show ?case by (simp add: remove_walk.simps)
next
  case (Cons a as)
  then have a: "he_next (h q) = a" "a \<noteq> NULL" and l: "hlist (he_nexts h) (he_next (h a)) as"
    by (simp_all add: he_nexts_def)
  show ?case
    using Cons.IH [OF l] a by (subst remove_walk.simps) (auto simp: he_key_def split: option.splits)
qed

section \<open>The map the table stands for\<close>

lemma ht_repD:
  assumes "ht_rep ht cs us"
  shows "0 < ht_size ht" "length (ht_table ht) = nat (ht_size ht)" "length cs = nat (ht_size ht)"
    "i < length cs \<Longrightarrow> hlist (he_nexts (ht_mem ht)) (ht_table ht ! i) (cs ! i)"
    "hlist (he_nexts (ht_mem ht)) (unused_ptr_list ht) us"
    "distinct (concat cs)" "distinct us" "set (concat cs) \<inter> set us = {}"
    "a \<in> set (concat cs) \<Longrightarrow> kseg0_ptr a" "a \<in> set us \<Longrightarrow> kseg0_ptr a"
    "i < length cs \<Longrightarrow> distinct (map (he_key (ht_mem ht)) (cs ! i))"
    "i < length cs \<Longrightarrow> a \<in> set (cs ! i) \<Longrightarrow> key_ok (he_key (ht_mem ht) a)"
    "i < length cs \<Longrightarrow> a \<in> set (cs ! i) \<Longrightarrow>
       get_hash_func (ht_size ht) (vad (ht_mem ht a)) (he_pid (ht_mem ht a)) = int i"
    "i < length cs \<Longrightarrow> a \<in> set (cs ! i) \<Longrightarrow> 0 \<le> ipt_entry (ht_mem ht a)"
  using assms unfolding ht_rep_def by auto

lemma ht_slot_rep:
  assumes "ht_rep ht cs us" "key_ok (v, p)"
  defines "val \<equiv> get_hash_func (ht_size ht) v p"
  shows "ht_slot ht val = Ok (ht_table ht ! nat val)" "nat val < length cs" "int (nat val) = val"
  using get_hash_func_bounds [OF assms(2) ht_repD(1) [OF assms(1)]] ht_repD(1-3) [OF assms(1)]
  unfolding val_def ht_slot_def by auto

text \<open>A cell with key \<open>k\<close> can only be in the chain of \<open>k\<close>.\<close>

lemma ht_rep_chain_of_key:
  assumes "ht_rep ht cs us" "a \<in> set (concat cs)" "he_key (ht_mem ht) a = (v, p)"
  shows "key_ok (v, p)" "a \<in> set (cs ! nat (get_hash_func (ht_size ht) v p))"
proof -
  obtain i where i: "i < length cs" "a \<in> set (cs ! i)"
    using assms(2) by (auto simp only: in_concat_nth)
  show "key_ok (v, p)" using ht_repD(12) [OF assms(1) i] assms(3) by simp
  have "get_hash_func (ht_size ht) v p = int i"
    using ht_repD(13) [OF assms(1) i] assms(3) by (simp add: he_key_def)
  then show "a \<in> set (cs ! nat (get_hash_func (ht_size ht) v p))" using i by simp
qed

lemma ht_rep_key_inj:
  assumes "ht_rep ht cs us" "a \<in> set (concat cs)" "b \<in> set (concat cs)"
    "he_key (ht_mem ht) a = he_key (ht_mem ht) b"
  shows "a = b"
proof -
  obtain v p where k: "he_key (ht_mem ht) b = (v, p)" by fastforce
  let ?i = "nat (get_hash_func (ht_size ht) v p)"
  have "a \<in> set (cs ! ?i)" "b \<in> set (cs ! ?i)" "?i < length cs"
    using ht_rep_chain_of_key [OF assms(1)] ht_slot_rep(2) [OF assms(1)] assms(2-4) k by auto
  then show ?thesis
    using ht_repD(11) [OF assms(1)] assms(4) by (meson distinct_map inj_on_def)
qed


text \<open>The lookup answers from the cells of the chains.\<close>

lemma get_index_rep:
  assumes "ht_rep ht cs us" "key_ok (v, p)"
  shows "get_index_from_hash ht v p =
    Ok (case find (\<lambda>a. he_key (ht_mem ht) a = (v, p)) (cs ! nat (get_hash_func (ht_size ht) v p)) of
          None \<Rightarrow> - 1 | Some a \<Rightarrow> ipt_entry (ht_mem ht a))"
proof -
  note slot = ht_slot_rep [OF assms]
  have "\<forall>a \<in> set (cs ! nat (get_hash_func (ht_size ht) v p)). kseg0_ptr a"
    using ht_repD(9) [OF assms(1)] slot(2) by (auto simp only: in_concat_nth)
  then show ?thesis
    using hash_walk_hlist [OF ht_repD(4) [OF assms(1) slot(2)]] slot(1)
    by (simp add: get_index_from_hash_def Let_def)
qed

lemma get_index_bad_key:
  assumes "ht_rep ht cs us" "\<not> key_ok (v, p)"
  shows "ht_lookup ht (v, p) = None"
proof (cases "ht_slot ht (get_hash_func (ht_size ht) v p)")
  case (Fail e)
  then show ?thesis by (simp add: ht_lookup_def get_index_from_hash_def Let_def)
next
  case (Ok q)
  define i where "i = nat (get_hash_func (ht_size ht) v p)"
  have i: "i < length cs" and q: "q = ht_table ht ! i"
    using Ok ht_repD(2,3) [OF assms(1)] by (auto simp: ht_slot_def i_def split: if_splits)
  have "\<forall>a \<in> set (cs ! i). kseg0_ptr a \<and> he_key (ht_mem ht) a \<noteq> (v, p)"
    using ht_repD(9,12) [OF assms(1)] i assms(2) by (metis in_concat_nth)
  moreover from this have "find (\<lambda>a. he_key (ht_mem ht) a = (v, p)) (cs ! i) = None"
    by (simp add: find_None_iff)
  ultimately have "hash_walk (ht_mem ht) q v p = Some (Ok (- 1))"
    using hash_walk_hlist [OF ht_repD(4) [OF assms(1) i], of v p] q by simp
  then show ?thesis using Ok by (simp add: ht_lookup_def get_index_from_hash_def Let_def)
qed

lemma ht_lookup_iff:
  assumes "ht_rep ht cs us"
  shows "ht_lookup ht k = Some i \<longleftrightarrow>
    (\<exists>a \<in> set (concat cs). he_key (ht_mem ht) a = k \<and> ipt_entry (ht_mem ht a) = i)"
proof -
  obtain v p where k: "k = (v, p)" by fastforce
  show ?thesis
  proof (cases "key_ok (v, p)")
    case False
    then show ?thesis
      using get_index_bad_key [OF assms] ht_rep_chain_of_key(1) [OF assms] k by fastforce
  next
    case True
    let ?c = "cs ! nat (get_hash_func (ht_size ht) v p)"
    note slot = ht_slot_rep(2) [OF assms True]
    have in_c: "a \<in> set (concat cs) \<Longrightarrow> he_key (ht_mem ht) a = (v, p) \<Longrightarrow> a \<in> set ?c" for a
      using ht_rep_chain_of_key(2) [OF assms] by blast
    have c_in: "a \<in> set ?c \<Longrightarrow> a \<in> set (concat cs) \<and> ipt_entry (ht_mem ht a) \<noteq> - 1" for a
      using slot ht_repD(14) [OF assms slot, of a] by (fastforce simp only: in_concat_nth)
    show ?thesis
    proof (cases "find (\<lambda>a. he_key (ht_mem ht) a = (v, p)) ?c")
      case None
      then have "ht_lookup ht k = None"
        using get_index_rep [OF assms True] k by (simp add: ht_lookup_def)
      moreover have "he_key (ht_mem ht) a \<noteq> k" if "a \<in> set (concat cs)" for a
        using that None in_c [OF that] k by (auto simp: find_None_iff)
      ultimately show ?thesis by auto
    next
      case (Some a)
      then have a: "a \<in> set ?c" "he_key (ht_mem ht) a = (v, p)"
        by (auto simp: find_Some_iff)
      then have "ht_lookup ht k = Some (ipt_entry (ht_mem ht a))"
        using get_index_rep [OF assms True] Some c_in k by (simp add: ht_lookup_def)
      then show ?thesis
        using a c_in ht_rep_key_inj [OF assms] k by (metis option.inject)
    qed
  qed
qed

section \<open>Insertion and removal\<close>

lemma add_in_hash_rep:
  assumes rep: "ht_rep ht cs (t # us)" and ok: "key_ok (v, p)"
    and fresh: "ht_lookup ht (v, p) = None" and i: "0 \<le> i"
  defines "n \<equiv> nat (get_hash_func (ht_size ht) v p)"
  defines "ht' \<equiv> ht\<lparr>unused_ptr_list := he_next (ht_mem ht t),
      ht_mem := (ht_mem ht)(t := \<lparr>ipt_entry = i, vad = v, he_pid = p, he_next = ht_table ht ! n\<rparr>),
      ht_table := (ht_table ht)[n := t]\<rparr>"
  shows "add_in_hash ht v p i = Ok ht'" "ht_rep ht' (cs[n := t # cs ! n]) us"
proof -
  note slot = ht_slot_rep [OF rep ok, folded n_def]
  have t: "unused_ptr_list ht = t" "t \<noteq> NULL" "hlist (he_nexts (ht_mem ht)) (he_next (ht_mem ht t)) us"
    using ht_repD(5) [OF rep] by (simp_all add: he_nexts_def)
  show "add_in_hash ht v p i = Ok ht'"
    using slot t by (simp add: add_in_hash_def ht'_def Let_def n_def)
  have tn: "t \<notin> set (cs ! j)" if "j < length cs" for j
    using ht_repD(8) [OF rep] that by (auto simp only: in_concat_nth) auto
  have tus: "t \<notin> set us" using ht_repD(7) [OF rep] by simp
  have key_new: "he_key (ht_mem ht) a \<noteq> (v, p)" if "j < length cs" "a \<in> set (cs ! j)" for a j
    using fresh ht_lookup_iff [OF rep, of "(v, p)" "ipt_entry (ht_mem ht a)"] concat_memI [OF that]
    by (metis option.distinct(1))
  have d: "distinct (concat (cs[n := t # cs ! n]) @ us)"
    using distinct_concat_update [OF slot(2), of "t # cs ! n" us "t # us"] ht_repD(6-8) [OF rep] by simp
  have ptrs: "\<forall>a \<in> set (concat (cs[n := t # cs ! n]) @ us). kseg0_ptr a"
    using ht_repD(9,10) [OF rep] concat_memI [OF slot(2)]
    by (auto simp: concat_update_set [OF slot(2) ht_repD(6) [OF rep]] simp del: set_concat)
  have tbl: "length (ht_table ht) = length cs" using ht_repD(2,3) [OF rep] by simp
  show "ht_rep ht' (cs[n := t # cs ! n]) us"
    unfolding ht_rep_def
  proof (intro conjI allI impI ballI)
    fix j assume j: "j < length (cs[n := t # cs ! n])"
    show "hlist (he_nexts (ht_mem ht')) (ht_table ht' ! j) (cs[n := t # cs ! n] ! j)"
      using j slot(2) tn [of j] t(2) ht_repD(4) [OF rep, of j] tbl
      by (cases "j = n") (auto simp: ht'_def simp del: fun_upd_apply simp add: fun_upd_same)
    show "distinct (map (he_key (ht_mem ht')) (cs[n := t # cs ! n] ! j))"
    proof -
      have eq: "map (he_key (ht_mem ht')) (cs ! j) = map (he_key (ht_mem ht)) (cs ! j)"
        using j tn [of j] by (auto simp: ht'_def intro!: he_key_upd_other)
      have kt: "he_key (ht_mem ht') t = (v, p)" by (simp add: ht'_def)
      have "(v, p) \<notin> set (map (he_key (ht_mem ht')) (cs ! j))"
        unfolding eq using key_new [of j] j by force
      moreover have "distinct (map (he_key (ht_mem ht')) (cs ! j))"
        unfolding eq using ht_repD(11) [OF rep, of j] j by simp
      ultimately show ?thesis
        using j kt by (cases "j = n") simp_all
    qed
    fix a assume "a \<in> set (cs[n := t # cs ! n] ! j)"
    then have a: "a = t \<and> j = n \<or> a \<noteq> t \<and> a \<in> set (cs ! j)"
      using j tn [of j] by (cases "j = n") auto
    then show "key_ok (he_key (ht_mem ht') a)" "0 \<le> ipt_entry (ht_mem ht' a)"
      "get_hash_func (ht_size ht') (vad (ht_mem ht' a)) (he_pid (ht_mem ht' a)) = int j"
      using ok i slot(3) j ht_repD(12-14) [OF rep, of j a]
      by (auto simp: ht'_def n_def)
  qed (use ht_repD(1,2) [OF rep] tbl t(3) tus d ptrs in \<open>auto simp: ht'_def\<close>)
qed


text \<open>The table after the cell \<open>t\<close>, preceded by \<open>xs\<close> in chain \<open>n\<close>, is unlinked.\<close>

definition ht_unlinked :: "hash_table \<Rightarrow> nat \<Rightarrow> ptr list \<Rightarrow> ptr \<Rightarrow> hash_table" where
  "ht_unlinked ht n xs t =
     (let h = ht_mem ht; u = unused_ptr_list ht
      in if xs = []
         then ht\<lparr>ht_mem := h(t := (h t)\<lparr>vad := 0, he_pid := 0, he_next := u\<rparr>),
                 unused_ptr_list := t, ht_table := (ht_table ht)[n := he_next (h t)]\<rparr>
         else let h1 = h(last xs := (h (last xs))\<lparr>he_next := he_next (h t)\<rparr>)
              in ht\<lparr>ht_mem := h1(t := (h1 t)\<lparr>vad := 0, he_pid := 0, ipt_entry := - 1, he_next := u\<rparr>),
                    unused_ptr_list := t\<rparr>)"

lemma ht_unlinked_simps [simp]:
  "ht_size (ht_unlinked ht n xs t) = ht_size ht"
  "unused_ptr_list (ht_unlinked ht n xs t) = t"
  "length (ht_table (ht_unlinked ht n xs t)) = length (ht_table ht)"
  by (simp_all add: ht_unlinked_def Let_def)

lemma ht_unlinked_other:
  "a \<noteq> t \<Longrightarrow> he_key (ht_mem (ht_unlinked ht n xs t)) a = he_key (ht_mem ht) a"
  "a \<noteq> t \<Longrightarrow> vad (ht_mem (ht_unlinked ht n xs t) a) = vad (ht_mem ht a)"
  "a \<noteq> t \<Longrightarrow> he_pid (ht_mem (ht_unlinked ht n xs t) a) = he_pid (ht_mem ht a)"
  "a \<noteq> t \<Longrightarrow> ipt_entry (ht_mem (ht_unlinked ht n xs t) a) = ipt_entry (ht_mem ht a)"
  by (auto simp: ht_unlinked_def he_key_def Let_def)

lemma ht_unlinked_nexts:
  "he_nexts (ht_mem (ht_unlinked ht n xs t)) =
     (if xs = [] then (he_nexts (ht_mem ht))(t := unused_ptr_list ht)
      else (he_nexts (ht_mem ht))(last xs := he_next (ht_mem ht t), t := unused_ptr_list ht))"
  by (simp add: ht_unlinked_def Let_def)

lemma remove_from_hash_run:
  assumes rep: "ht_rep ht cs us" and ok: "key_ok (v, p)"
    and chain: "cs ! nat (get_hash_func (ht_size ht) v p) = xs @ t # ys"
    and t: "he_key (ht_mem ht) t = (v, p)" and xs: "\<And>a. a \<in> set xs \<Longrightarrow> he_key (ht_mem ht) a \<noteq> (v, p)"
  shows "remove_from_hash ht v p = Ok (ht_unlinked ht (nat (get_hash_func (ht_size ht) v p)) xs t)"
proof -
  let ?h = "ht_mem ht"
  define n where "n = nat (get_hash_func (ht_size ht) v p)"
  note slot = ht_slot_rep [OF rep ok, folded n_def]
  have hl: "hlist (he_nexts ?h) (ht_table ht ! n) (xs @ t # ys)"
    using ht_repD(4) [OF rep slot(2)] chain by (simp add: n_def)
  show ?thesis
  proof (cases xs)
    case Nil
    then show ?thesis
      using slot(1) t hl
      by (simp add: remove_from_hash_def Let_def n_def [symmetric] ht_unlinked_def he_key_def)
  next
    case (Cons x zs)
    have x: "ht_table ht ! n = x" "x \<noteq> NULL" "hlist (he_nexts ?h) (he_next (?h x)) (zs @ t # ys)"
      using hl Cons by (simp_all add: he_nexts_def)
    have "find (\<lambda>a. he_key ?h a = (v, p)) (zs @ t # ys) = Some t"
      using xs Cons t by (intro find_skip) auto
    moreover have "takeWhile (\<lambda>a. he_key ?h a \<noteq> (v, p)) (zs @ t # ys) = zs"
      using xs Cons t by (simp add: takeWhile_append2)
    ultimately have walk: "remove_walk ?h x (he_next (?h x)) v p = Some (Ok (last xs, t))"
      using remove_walk_hlist [OF x(3), of v p] Cons by simp
    have "(x = NULL) = False" "(vad (?h x) = v \<and> he_pid (?h x) = p) = False" "(xs = []) = False"
      using x(2) xs [of x] Cons by (auto simp: he_key_def)
    then show ?thesis
      unfolding remove_from_hash_def ht_unlinked_def Let_def n_def [symmetric] slot(1) kbind_Ok x(1)
      by (simp only: if_False walk from_loop.simps kbind_Ok prod.case)
  qed
qed

lemma ht_unlinked_chain:
  assumes rep: "ht_rep ht cs us" and n: "n < length cs" and chain: "cs ! n = xs @ t # ys"
  shows "hlist (he_nexts (ht_mem (ht_unlinked ht n xs t))) (ht_table (ht_unlinked ht n xs t) ! n) (xs @ ys)"
proof -
  let ?nx = "he_nexts (ht_mem ht)"
  have hl: "hlist ?nx (ht_table ht ! n) (xs @ t # ys)" using ht_repD(4) [OF rep n] chain by simp
  have dist: "distinct (xs @ t # ys)" using hlist_distinct [OF hl] .
  have len: "n < length (ht_table ht)" using n ht_repD(2,3) [OF rep] by simp
  show ?thesis
  proof (cases "xs = []")
    case True
    then show ?thesis
      using hl dist len by (simp add: ht_unlinked_nexts) (simp add: ht_unlinked_def Let_def)
  next
    case False
    then have "xs @ t # ys = butlast xs @ last xs # t # ys" by simp
    then have "hlist (?nx(last xs := ?nx t)) (ht_table ht ! n) (butlast xs @ last xs # ys)"
      using hlist_unlink hl by metis
    then have "hlist (?nx(last xs := ?nx t)) (ht_table ht ! n) (xs @ ys)"
      using False by (metis append.assoc append_Cons append_Nil append_butlast_last_id)
    then show ?thesis
      using False dist by (simp add: ht_unlinked_nexts) (simp add: ht_unlinked_def Let_def)
  qed
qed

lemma ht_unlinked_rep:
  assumes rep: "ht_rep ht cs us" and n: "n < length cs" and chain: "cs ! n = xs @ t # ys"
  shows "ht_rep (ht_unlinked ht n xs t) (cs[n := xs @ ys]) (t # us)"
proof -
  let ?ht = "ht_unlinked ht n xs t"
  have tbl: "length (ht_table ht) = length cs" using ht_repD(2,3) [OF rep] by simp
  have t: "t \<in> set (cs ! n)" using chain by simp
  have tin: "t \<in> set (concat cs)" using concat_memI [OF n t] .
  have tnz: "t \<noteq> NULL" using ht_repD(9) [OF rep tin] by (auto simp: kseg0_ptr_def)
  have xin: "last xs \<in> set (cs ! n)" if "xs \<noteq> []" using chain that by simp
  have oth: "t \<notin> set (cs ! j)" "xs \<noteq> [] \<Longrightarrow> last xs \<notin> set (cs ! j)" if "j < length cs" "j \<noteq> n" for j
    using distinct_concat_nthD [OF ht_repD(6) [OF rep] n] that t xin by auto
  have us: "t \<notin> set us" "xs \<noteq> [] \<Longrightarrow> last xs \<notin> set us"
    using ht_repD(8) [OF rep] tin concat_memI [OF n xin] by auto
  have dn: "distinct (xs @ t # ys)"
    using hlist_distinct [OF ht_repD(4) [OF rep n]] chain by simp
  have sub: "a \<in> set (cs[n := xs @ ys] ! j) \<Longrightarrow> a \<noteq> t \<and> a \<in> set (cs ! j)"
    if "j < length cs" for a j
    using that chain dn oth(1) [of j] by (cases "j = n") auto
  have d: "distinct (concat (cs[n := xs @ ys]) @ t # us)"
    using distinct_concat_update [OF n, of "xs @ ys" "t # us" us] chain ht_repD(6-8) [OF rep] by simp
  have ptrs: "\<forall>a \<in> set (concat (cs[n := xs @ ys]) @ t # us). kseg0_ptr a"
    using ht_repD(9,10) [OF rep] concat_memI [OF n] chain tin
    by (auto simp: concat_update_set [OF n ht_repD(6) [OF rep]] simp del: set_concat)
  show ?thesis
    unfolding ht_rep_def
  proof (intro conjI allI impI ballI)
    fix j assume j: "j < length (cs[n := xs @ ys])"
    show "hlist (he_nexts (ht_mem ?ht)) (ht_table ?ht ! j) (cs[n := xs @ ys] ! j)"
    proof (cases "j = n")
      case True
      then show ?thesis using ht_unlinked_chain [OF rep n chain] n by simp
    next
      case False
      then show ?thesis
        using j oth [of j] ht_repD(4) [OF rep, of j]
        by (simp add: ht_unlinked_nexts) (simp add: ht_unlinked_def Let_def)
    qed
    have eq: "map (he_key (ht_mem ?ht)) (cs[n := xs @ ys] ! j) = map (he_key (ht_mem ht)) (cs[n := xs @ ys] ! j)"
      using sub [of j] j by (auto intro!: ht_unlinked_other(1))
    show "distinct (map (he_key (ht_mem ?ht)) (cs[n := xs @ ys] ! j))"
      unfolding eq using ht_repD(11) [OF rep, of j] j chain by (cases "j = n") auto
    fix a assume "a \<in> set (cs[n := xs @ ys] ! j)"
    then have "a \<noteq> t" "a \<in> set (cs ! j)" "j < length cs" using sub [of j a] j by auto
    then show "key_ok (he_key (ht_mem ?ht) a)" "0 \<le> ipt_entry (ht_mem ?ht a)"
      "get_hash_func (ht_size ?ht) (vad (ht_mem ?ht a)) (he_pid (ht_mem ?ht a)) = int j"
      using ht_repD(12-14) [OF rep, of j a] by (simp_all add: ht_unlinked_other)
  qed (use ht_repD(1,2,5) [OF rep] tbl us d ptrs tnz in
       \<open>auto simp: ht_unlinked_nexts simp del: set_concat\<close>)
qed

section \<open>The interface: an index from pages to frames\<close>

lemma add_in_hash_correct:
  assumes inv: "ht_inv ht (Suc f)" and ok: "key_ok (v, p)"
    and fresh: "ht_lookup ht (v, p) = None" and i: "0 \<le> i"
  shows "\<exists>ht'. add_in_hash ht v p i = Ok ht' \<and> ht_inv ht' f \<and> ht_lookup ht' = (ht_lookup ht)((v, p) \<mapsto> i)"
proof -
  obtain cs t us where rep: "ht_rep ht cs (t # us)" and f: "length us = f"
    using inv by (auto simp: ht_inv_def length_Suc_conv)
  define n where "n = nat (get_hash_func (ht_size ht) v p)"
  obtain ht' where run: "add_in_hash ht v p i = Ok ht'" and rep': "ht_rep ht' (cs[n := t # cs ! n]) us"
    and mem: "ht_mem ht' = (ht_mem ht)(t := \<lparr>ipt_entry = i, vad = v, he_pid = p, he_next = ht_table ht ! n\<rparr>)"
    using add_in_hash_rep [OF rep ok fresh i] unfolding n_def by auto
  have n: "n < length cs" using ht_slot_rep(2) [OF rep ok] by (simp add: n_def)
  have t: "t \<notin> set (concat cs)" using ht_repD(8) [OF rep] by auto
  have cells: "set (concat (cs[n := t # cs ! n])) = insert t (set (concat cs))"
    using concat_update_set [OF n ht_repD(6) [OF rep]] concat_memI [OF n] by auto
  have "ht_lookup ht' k = Some j \<longleftrightarrow> ((ht_lookup ht)((v, p) \<mapsto> i)) k = Some j" for k j
  proof -
    have old: "(\<exists>a \<in> set (concat cs). he_key (ht_mem ht') a = k \<and> ipt_entry (ht_mem ht' a) = j) \<longleftrightarrow>
        ht_lookup ht k = Some j"
      unfolding ht_lookup_iff [OF rep] mem using t by (metis fun_upd_other he_key_upd_other)
    show ?thesis
      unfolding ht_lookup_iff [OF rep'] cells
      using old fresh by (auto simp: mem simp del: set_concat)
  qed
  then have "ht_lookup ht' = (ht_lookup ht)((v, p) \<mapsto> i)"
    by (rule map_eqI)
  then show ?thesis using run rep' f by (auto simp: ht_inv_def)
qed

lemma remove_from_hash_correct:
  assumes inv: "ht_inv ht f" and found: "ht_lookup ht (v, p) = Some i"
  shows "\<exists>ht'. remove_from_hash ht v p = Ok ht' \<and> ht_inv ht' (Suc f) \<and> ht_lookup ht' = (ht_lookup ht)((v, p) := None)"
proof -
  obtain cs us where rep: "ht_rep ht cs us" and f: "length us = f" using inv by (auto simp: ht_inv_def)
  obtain t where t: "t \<in> set (concat cs)" "he_key (ht_mem ht) t = (v, p)"
    using found ht_lookup_iff [OF rep] by blast
  define n where "n = nat (get_hash_func (ht_size ht) v p)"
  have ok: "key_ok (v, p)" and tn: "t \<in> set (cs ! n)"
    using ht_rep_chain_of_key [OF rep t] by (simp_all add: n_def)
  have n: "n < length cs" using ht_slot_rep(2) [OF rep ok] by (simp add: n_def)
  obtain xs ys where chain: "cs ! n = xs @ t # ys" using tn by (meson split_list)
  let ?ht = "ht_unlinked ht n xs t"
  have xs: "he_key (ht_mem ht) a \<noteq> (v, p)" if "a \<in> set xs" for a
    using ht_repD(11) [OF rep n] chain t(2) that by force
  have run: "remove_from_hash ht v p = Ok ?ht"
    using remove_from_hash_run [OF rep ok chain [unfolded n_def] t(2) xs] by (simp add: n_def)
  have rep': "ht_rep ?ht (cs[n := xs @ ys]) (t # us)" by (rule ht_unlinked_rep [OF rep n chain])
  have "distinct (xs @ t # ys)" using hlist_distinct [OF ht_repD(4) [OF rep n]] chain by simp
  then have cells: "set (concat (cs[n := xs @ ys])) = set (concat cs) - {t}"
    using concat_update_set [OF n ht_repD(6) [OF rep]] concat_memI [OF n] chain by auto
  have "ht_lookup ?ht k = Some j \<longleftrightarrow> ((ht_lookup ht)((v, p) := None)) k = Some j" for k j
  proof -
    have "ht_lookup ?ht k = Some j \<longleftrightarrow> (\<exists>a \<in> set (concat cs) - {t}.
        he_key (ht_mem ht) a = k \<and> ipt_entry (ht_mem ht a) = j)"
      unfolding ht_lookup_iff [OF rep'] cells by (rule bex_cong) (simp_all add: ht_unlinked_other)
    also have "\<dots> \<longleftrightarrow> k \<noteq> (v, p) \<and> ht_lookup ht k = Some j"
      unfolding ht_lookup_iff [OF rep] using ht_rep_key_inj [OF rep t(1)] t(2)
      by (metis DiffD1 DiffD2 DiffI singletonD singletonI)
    finally show ?thesis by simp
  qed
  then have "ht_lookup ?ht = (ht_lookup ht)((v, p) := None)"
    by (rule map_eqI)
  moreover have "ht_inv ?ht (Suc f)"
    unfolding ht_inv_def using rep' f by (intro exI [of _ "cs[n := xs @ ys]"] exI [of _ "t # us"]) simp
  ultimately show ?thesis using run by auto
qed

lemma remove_from_hash_absent:
  assumes inv: "ht_inv ht f" and ok: "key_ok (v, p)" and absent: "ht_lookup ht (v, p) = None"
  shows "\<exists>msg. remove_from_hash ht v p = Fail (Panic msg)"
proof -
  obtain cs us where rep: "ht_rep ht cs us" using inv by (auto simp: ht_inv_def)
  define n where "n = nat (get_hash_func (ht_size ht) v p)"
  note slot = ht_slot_rep [OF rep ok, folded n_def]
  note hl = ht_repD(4) [OF rep slot(2)]
  have no: "he_key (ht_mem ht) a \<noteq> (v, p)" if "a \<in> set (cs ! n)" for a
    using absent ht_lookup_iff [OF rep] concat_memI [OF slot(2) that] by (metis option.distinct(1))
  show ?thesis
  proof (cases "cs ! n")
    case Nil
    then show ?thesis using hl slot(1) by (simp add: remove_from_hash_def Let_def)
  next
    case (Cons x zs)
    then have x: "ht_table ht ! n = x" "x \<noteq> NULL" "hlist (he_nexts (ht_mem ht)) (he_next (ht_mem ht x)) zs"
      using hl by simp_all
    have "find (\<lambda>a. he_key (ht_mem ht) a = (v, p)) zs = None" using no Cons by (simp add: find_None_iff)
    then have "remove_walk (ht_mem ht) x (he_next (ht_mem ht x)) v p =
        Some (Fail (Panic ''remove_from_hash: not found''))"
      using remove_walk_hlist [OF x(3)] by simp
    then show ?thesis
      using slot(1) x(1,2) no [of x] Cons by (simp add: remove_from_hash_def Let_def he_key_def)
  qed
qed

lemma add_in_hash_full:
  assumes "ht_inv ht 0"
  shows "add_in_hash ht v p i = Fail KAssert"
  using assms by (auto simp: ht_inv_def ht_rep_def add_in_hash_def Let_def)

locale frame_index =
  fixes inv :: "'h \<Rightarrow> nat \<Rightarrow> bool"
    and ok :: "'k \<Rightarrow> bool"
    and lookup :: "'h \<Rightarrow> 'k \<Rightarrow> int option"
    and add :: "'h \<Rightarrow> 'k \<Rightarrow> int \<Rightarrow> 'h kres"
    and rem :: "'h \<Rightarrow> 'k \<Rightarrow> 'h kres"
  assumes add_ok: "inv h (Suc f) \<Longrightarrow> ok k \<Longrightarrow> lookup h k = None \<Longrightarrow> 0 \<le> i \<Longrightarrow>
      \<exists>h'. add h k i = Ok h' \<and> inv h' f \<and> lookup h' = (lookup h)(k \<mapsto> i)"
    and add_full: "inv h 0 \<Longrightarrow> add h k i = Fail KAssert"
    and rem_ok: "inv h f \<Longrightarrow> lookup h k = Some i \<Longrightarrow>
      \<exists>h'. rem h k = Ok h' \<and> inv h' (Suc f) \<and> lookup h' = (lookup h)(k := None)"
    and rem_absent: "inv h f \<Longrightarrow> ok k \<Longrightarrow> lookup h k = None \<Longrightarrow> \<exists>m. rem h k = Fail (Panic m)"
begin

lemma add_rem_roundtrip:
  assumes "inv h (Suc f)" "ok k" "lookup h k = None" "0 \<le> i"
  shows "\<exists>h'. kbind (add h k i) (\<lambda>h. rem h k) = Ok h' \<and> inv h' (Suc f) \<and> lookup h' = lookup h"
proof -
  obtain h1 where h1: "add h k i = Ok h1" "inv h1 f" "lookup h1 = (lookup h)(k \<mapsto> i)"
    using add_ok [OF assms] by blast
  then obtain h2 where "rem h1 k = Ok h2" "inv h2 (Suc f)" "lookup h2 = (lookup h1)(k := None)"
    using rem_ok [of h1 f k i] by auto
  then show ?thesis using h1 assms(3) by (auto simp: fun_upd_idem)
qed

text \<open>The exchange a page replacement performs: forget the victim, enter the newcomer.\<close>

lemma exchange:
  assumes "inv h f" "lookup h old = Some i" "ok new" "lookup h new = None" "0 \<le> j"
  shows "\<exists>h'. kbind (rem h old) (\<lambda>h. add h new j) = Ok h' \<and> inv h' f \<and>
    lookup h' = (lookup h)(old := None, new \<mapsto> j)"
proof -
  obtain h1 where h1: "rem h old = Ok h1" "inv h1 (Suc f)" "lookup h1 = (lookup h)(old := None)"
    using rem_ok [OF assms(1,2)] by blast
  moreover have "lookup h1 new = None" using h1(3) assms(4) by simp
  ultimately show ?thesis using add_ok [of h1 f new j] assms(3,5) by auto
qed

lemma rem_twice_panics:
  assumes "inv h f" "lookup h k = Some i" "ok k"
  shows "\<exists>m. kbind (rem h k) (\<lambda>h. rem h k) = Fail (Panic m)"
proof -
  obtain h1 where "rem h k = Ok h1" "inv h1 (Suc f)" "lookup h1 = (lookup h)(k := None)"
    using rem_ok [OF assms(1,2)] by blast
  then show ?thesis using rem_absent [of h1 "Suc f" k] assms(3) by auto
qed

end

interpretation hash_index: frame_index ht_inv key_ok ht_lookup
  "\<lambda>ht k i. add_in_hash ht (fst k) (snd k) i" "\<lambda>ht k. remove_from_hash ht (fst k) (snd k)"
proof unfold_locales
  fix ht f i and k :: "vaddr \<times> pid"
  show "ht_inv ht (Suc f) \<Longrightarrow> key_ok k \<Longrightarrow> ht_lookup ht k = None \<Longrightarrow> 0 \<le> i \<Longrightarrow>
      \<exists>h'. add_in_hash ht (fst k) (snd k) i = Ok h' \<and> ht_inv h' f \<and> ht_lookup h' = (ht_lookup ht)(k \<mapsto> i)"
    using add_in_hash_correct [of ht f "fst k" "snd k" i] by simp
  show "ht_inv ht f \<Longrightarrow> ht_lookup ht k = Some i \<Longrightarrow>
      \<exists>h'. remove_from_hash ht (fst k) (snd k) = Ok h' \<and> ht_inv h' (Suc f) \<and>
           ht_lookup h' = (ht_lookup ht)(k := None)"
    using remove_from_hash_correct [of ht f "fst k" "snd k" i] by simp
  show "ht_inv ht f \<Longrightarrow> key_ok k \<Longrightarrow> ht_lookup ht k = None \<Longrightarrow>
      \<exists>m. remove_from_hash ht (fst k) (snd k) = Fail (Panic m)"
    using remove_from_hash_absent [of ht f "fst k" "snd k"] by simp
qed (rule add_in_hash_full)

section \<open>Initialisation\<close>

text \<open>The run of \<open>kmalloc\<close>: \<open>S j\<close> is the state before the \<open>j\<close>-th cell, \<open>alloc j\<close> the address of the cell.\<close>

lemma init_cells_rep:
  assumes "inj_on alloc {..<n}" "\<And>j. j < n \<Longrightarrow> kseg0_ptr (alloc j)" "\<And>j. j < n \<Longrightarrow> km 16 (S j) = Ok (alloc j, S (Suc j))"
  shows "\<exists>h' u. kfold (init_cell km) [0..<n] (h, NULL, S 0) = Ok (h', u, S n) \<and>
    hlist (he_nexts h') u (rev (map alloc [0..<n]))"
  using assms
proof (induction n)
  case 0
  then show ?case by simp
next
  case (Suc n)
  have "inj_on alloc {..<n}" using Suc.prems(1) by (rule inj_on_subset) auto
  then obtain h' u where IH: "kfold (init_cell km) [0..<n] (h, NULL, S 0) = Ok (h', u, S n)"
    "hlist (he_nexts h') u (rev (map alloc [0..<n]))"
    using Suc.IH Suc.prems(2,3) by (meson less_Suc_eq)
  have n: "0x80000000 < alloc n" "alloc n \<noteq> NULL" using Suc.prems(2) [of n] by (auto simp: kseg0_ptr_def)
  have "alloc n \<notin> set (rev (map alloc [0..<n]))"
    by (auto dest!: inj_onD [OF Suc.prems(1)])
  then have "hlist (he_nexts (h'(alloc n := (h' (alloc n))\<lparr>he_next := u\<rparr>))) (alloc n)
      (rev (map alloc [0..<Suc n]))"
    using IH(2) n hlist_push by simp
  moreover have "init_cell km n (h', u, S n) = Ok (h'(alloc n := (h' (alloc n))\<lparr>he_next := u\<rparr>), alloc n, S (Suc n))"
    using n Suc.prems(3) [of n] by (simp add: init_cell_def)
  then have "kfold (init_cell km) [0..<Suc n] (h, NULL, S 0) =
      Ok (h'(alloc n := (h' (alloc n))\<lparr>he_next := u\<rparr>), alloc n, S (Suc n))"
    using IH(1) by simp
  ultimately show ?case by blast
qed

lemma hashtable_init_correct:
  assumes n: "0 < n" and tbl: "km (4 * word_of_int (2 * n)) s = Ok (tbl, S 0)" "tbl \<noteq> NULL"
    and cells: "\<And>j. j < nat n \<Longrightarrow> km 16 (S j) = Ok (alloc j, S (Suc j))"
    and alloc: "inj_on alloc {..<nat n}" "\<And>j. j < nat n \<Longrightarrow> kseg0_ptr (alloc j)"
  shows "\<exists>ht. hashtable_init n km h s = Ok (ht, S (nat n)) \<and> ht_inv ht (nat n) \<and> ht_lookup ht = Map.empty"
proof -
  obtain h' u where cells: "kfold (init_cell km) [0..<nat n] (h, NULL, S 0) = Ok (h', u, S (nat n))"
    "hlist (he_nexts h') u (rev (map alloc [0..<nat n]))"
    using init_cells_rep [where S = S and alloc = alloc and n = "nat n" and km = km, OF alloc cells] by blast
  define ht where "ht = \<lparr>ht_mem = h', ht_table = replicate (nat (2 * n)) NULL, ht_size = 2 * n,
      unused_ptr_list = u\<rparr>"
  have run: "hashtable_init n km h s = Ok (ht, S (nat n))"
    using tbl cells(1) by (simp add: hashtable_init_def Let_def ht_def)
  have rep: "ht_rep ht (replicate (nat (2 * n)) []) (rev (map alloc [0..<nat n]))"
    unfolding ht_rep_def
    using n cells(2) hlist_distinct [OF cells(2)] alloc(2) by (auto simp: ht_def)
  have "ht_lookup ht k = None" for k
    using ht_lookup_iff [OF rep, of k] by (cases "ht_lookup ht k") auto
  moreover have "ht_inv ht (nat n)"
    unfolding ht_inv_def using rep
    by (intro exI [of _ "replicate (nat (2 * n)) []"] exI [of _ "rev (map alloc [0..<nat n])"]) simp
  ultimately show ?thesis using run by auto
qed

section \<open>Properties\<close>

text \<open>
  For every user address and non-negative process id, the hash function yields an index
  inside the bucket array, so the lookup, the insertion and the removal never leave it.
\<close>

theorem get_hash_func_in_table:
  assumes "0 < htsize" "v < 0x80000000" "0 \<le> p"
  shows "0 \<le> get_hash_func htsize v p \<and> get_hash_func htsize v p < htsize"
  using get_hash_func_bounds [of v p htsize] assms by (simp add: key_ok_def)

theorem get_hash_func_in_table_witness:
  "0 \<le> get_hash_func 16 0x400000 3 \<and> get_hash_func 16 0x400000 3 < 16"
  using get_hash_func_in_table [of 16 "0x400000" 3] by simp

text \<open>Two cells at distinct kernel addresses, as \<open>kmalloc\<close> would return them.\<close>

definition ex_cells :: "nat \<Rightarrow> ptr" where
  "ex_cells j = 0x80002000 + 32 * of_nat j"

definition ex_heap :: "ptr \<Rightarrow> hash_entry" where
  "ex_heap = (\<lambda>a. \<lparr>ipt_entry = 0, vad = 0, he_pid = 0, he_next = NULL\<rparr>)"

lemma ex_cells_ok: "inj_on ex_cells {..<nat 2}" "j < nat 2 \<Longrightarrow> kseg0_ptr (ex_cells j)"
  by (auto simp: ex_cells_def inj_on_def kseg0_ptr_def less_2_cases_iff)

text \<open>An index built with given addresses: the state of this allocator is the number of its calls.\<close>

definition init_with :: "int \<Rightarrow> ptr \<Rightarrow> (nat \<Rightarrow> ptr) \<Rightarrow> (ptr \<Rightarrow> hash_entry) \<Rightarrow> hash_table kres" where
  "init_with n tbl alloc h =
     kbind (hashtable_init n (\<lambda>sz k. Ok (if k = 0 then tbl else alloc (k - 1), Suc k)) h 0) (\<lambda>(ht, k). Ok ht)"

lemma init_with_correct:
  assumes "0 < n" "tbl \<noteq> NULL" "inj_on alloc {..<nat n}" "\<And>j. j < nat n \<Longrightarrow> kseg0_ptr (alloc j)"
  shows "\<exists>ht. init_with n tbl alloc h = Ok ht \<and> ht_inv ht (nat n) \<and> ht_lookup ht = Map.empty"
  using hashtable_init_correct [where S = Suc and km = "\<lambda>sz k. Ok (if k = 0 then tbl else alloc (k - 1), Suc k)" and s = 0,
      OF assms(1) _ assms(2) _ assms(3,4)]
  by (fastforce simp: init_with_def)

lemma ex_table:
  obtains h0 h1 where "init_with 2 0x80001000 ex_cells ex_heap = Ok h0" "ht_inv h0 2" "ht_lookup h0 = Map.empty"
    "add_in_hash h0 0x400000 1 0 = Ok h1" "ht_inv h1 1" "ht_lookup h1 = [(0x400000, 1) \<mapsto> 0]"
proof -
  obtain h0 where h0: "init_with 2 0x80001000 ex_cells ex_heap = Ok h0" "ht_inv h0 2" "ht_lookup h0 = Map.empty"
    using init_with_correct [of 2 "0x80001000" ex_cells ex_heap] ex_cells_ok by auto
  obtain h1 where "add_in_hash h0 0x400000 1 0 = Ok h1" "ht_inv h1 1" "ht_lookup h1 = [(0x400000, 1) \<mapsto> 0]"
    using add_in_hash_correct [of h0 1 "0x400000" 1 0, unfolded Suc_1] h0(2,3) by (auto simp: key_ok_def)
  then show thesis using that h0 by blast
qed

text \<open>
  Insertion: with an unused cell left and the page not yet in the table, \<open>add_in_hash\<close>
  succeeds, maps the page to the given index, changes no other mapping, uses one cell and keeps
  the invariant.
\<close>

theorem add_in_hash_refines:
  assumes "ht_inv ht (Suc f)" "key_ok (v, p)" "ht_lookup ht (v, p) = None" "0 \<le> i"
  shows "\<exists>ht'. add_in_hash ht v p i = Ok ht' \<and> ht_inv ht' f \<and> ht_lookup ht' = (ht_lookup ht)((v, p) \<mapsto> i)"
  using hash_index.add_ok [of ht f "(v, p)" i] assms by simp

theorem add_in_hash_refines_witness:
  "\<exists>ht ht'. init_with 2 0x80001000 ex_cells ex_heap = Ok ht \<and> add_in_hash ht 0x10000000 3 1 = Ok ht'
     \<and> ht_inv ht' 1 \<and> ht_lookup ht' = [(0x10000000, 3) \<mapsto> 1]"
proof -
  obtain h0 h1 where h: "init_with 2 0x80001000 ex_cells ex_heap = Ok h0" "ht_inv h0 2" "ht_lookup h0 = Map.empty"
    using ex_table by metis
  then show ?thesis
    using add_in_hash_refines [of h0 1 "0x10000000" 3 1, unfolded Suc_1] by (auto simp: key_ok_def)
qed

text \<open>
  The exchange made when a frame changes hands: removing the old page and adding the new one
  succeeds without a spare cell, whatever the chains look like, and the result maps the new page
  instead of the old one, all else unchanged.
\<close>

theorem hash_exchange:
  assumes "ht_inv ht f" "ht_lookup ht (v, p) = Some i" "key_ok (w, q)" "ht_lookup ht (w, q) = None" "0 \<le> j"
  shows "\<exists>ht'. kbind (remove_from_hash ht v p) (\<lambda>ht. add_in_hash ht w q j) = Ok ht' \<and> ht_inv ht' f
    \<and> ht_lookup ht' = (ht_lookup ht)((v, p) := None, (w, q) \<mapsto> j)"
  using hash_index.exchange [of ht f "(v, p)" i "(w, q)" j] assms by simp

theorem hash_exchange_witness:
  "\<exists>h1 h2. kbind (init_with 2 0x80001000 ex_cells ex_heap) (\<lambda>ht. add_in_hash ht 0x400000 1 0) = Ok h1
     \<and> kbind (remove_from_hash h1 0x400000 1) (\<lambda>ht. add_in_hash ht 0x10000000 3 0) = Ok h2
     \<and> ht_lookup h2 (0x400000, 1) = None \<and> ht_lookup h2 (0x10000000, 3) = Some 0"
proof -
  obtain h0 h1 where h: "init_with 2 0x80001000 ex_cells ex_heap = Ok h0"
      "add_in_hash h0 0x400000 1 0 = Ok h1" "ht_inv h1 1" "ht_lookup h1 = [(0x400000, 1) \<mapsto> 0]"
    by (rule ex_table)
  then obtain h2 where "kbind (remove_from_hash h1 0x400000 1) (\<lambda>ht. add_in_hash ht 0x10000000 3 0) = Ok h2"
      "ht_lookup h2 = (ht_lookup h1)((0x400000, 1) := None, (0x10000000, 3) \<mapsto> 0)"
    using hash_exchange [of h1 1 "0x400000" 1 0 "0x10000000" 3 0] by (auto simp: key_ok_def)
  then show ?thesis using h by (intro exI [of _ h1] exI [of _ h2]) simp
qed

text \<open>
  Removing a page that the table does not hold is detected: the kernel panics and never
  unlinks another page's cell.
\<close>

theorem remove_from_hash_missing:
  assumes "ht_inv ht f" "key_ok (v, p)" "ht_lookup ht (v, p) = None"
  shows "\<exists>msg. remove_from_hash ht v p = Fail (Panic msg)"
  using hash_index.rem_absent [of ht f "(v, p)"] assms by simp

theorem remove_from_hash_missing_witness:
  "\<exists>h msg. kbind (init_with 2 0x80001000 ex_cells ex_heap) (\<lambda>ht. add_in_hash ht 0x400000 1 0) = Ok h
     \<and> remove_from_hash h 0x401000 1 = Fail (Panic msg)"
proof -
  obtain h0 h1 where h: "init_with 2 0x80001000 ex_cells ex_heap = Ok h0"
      "add_in_hash h0 0x400000 1 0 = Ok h1" "ht_inv h1 1" "ht_lookup h1 = [(0x400000, 1) \<mapsto> 0]"
    by (rule ex_table)
  then show ?thesis
    using remove_from_hash_missing [of h1 1 "0x401000" 1] by (auto simp: key_ok_def)
qed

end
