(* ===== verification/Segments.thy ===== *)
theory Segments
  imports Swapfile_Spec Hash_Table
begin

text \<open>
  Demand loading of a page (\<^verbatim>\<open>kern/vm/segments.c\<close>): from the swap file if the page is
  there, else from the executable for a text or data page, else a page of zeros for the stack. The
  executable's read operation is the one of its vnode; \<open>elf_file\<close> states what it
  promises.
\<close>

section \<open>Operations\<close>

definition elf_uio :: "32 word \<Rightarrow> vaddr \<Rightarrow> 32 word \<Rightarrow> 32 word \<Rightarrow> uio" where
  "elf_uio offset vaddr memsize filesize =
     \<lparr>uio_iov = [\<lparr>iov_kbase = vaddr, iov_len = unat memsize\<rparr>], uio_offset = uint offset,
      uio_resid = unat filesize, uio_segflg = UIO_SYSSPACE, uio_dir = UIO_READ, uio_space = NULL\<rparr>"

definition load_elf_page ::
  "ptr \<Rightarrow> 32 word \<Rightarrow> vaddr \<Rightarrow> 32 word \<Rightarrow> 32 word \<Rightarrow> 'a ksys_scheme \<Rightarrow> (int \<times> 'a ksys_scheme) kres" where
  "load_elf_page vn offset vaddr memsize filesize s =
     (let filesize = (if filesize > memsize then memsize else filesize)
      in if vn = NULL then Fail (Panic ''vnode_check: null vnode'')
         else kbind (vop_read (k_vnodes s vn) (elf_uio offset vaddr memsize filesize) (k_mem s))
           (\<lambda>(result, u, m). Ok (result, s\<lparr>k_mem := m\<rparr>)))"

definition count_page_fault :: "int \<Rightarrow> 'a ksys_scheme \<Rightarrow> 'a ksys_scheme" where
  "count_page_fault c s = s\<lparr>k_stats := add_page_fault c (k_stats s)\<rparr>"

definition zero_frame :: "paddr \<Rightarrow> 'a ksys_scheme \<Rightarrow> 'a ksys_scheme" where
  "zero_frame p s = s\<lparr>k_mem := bzero (PADDR_TO_KVADDR p) 4096 (k_mem s)\<rparr>"

definition load_text :: "addrspace \<Rightarrow> vaddr \<Rightarrow> paddr \<Rightarrow> 'a ksys_scheme \<Rightarrow> (int \<times> 'a ksys_scheme) kres" where
  "load_text as v p s =
     (let s = count_page_fault DISK_FAULT s;
          ph = ph1 as; d = v - as_vbase1 as; io = initial_offset1 as;
          read = (\<lambda>s add memsz sz.
            kbind (load_elf_page (as_v as) (p_offset ph + d) (PADDR_TO_KVADDR (p + add)) memsz (sz - add) s)
              (\<lambda>(result, s).
                 if result \<noteq> 0 then Fail (Panic ''error while reading the text segment'')
                 else Ok (0, count_page_fault ELF_FAULT s)))
      in if io \<noteq> 0 \<and> d = 0
         then read (zero_frame p s) io PAGE_SIZE
                (if p_filesz ph \<ge> PAGE_SIZE - io then PAGE_SIZE - io else p_filesz ph)
         else
           let partial = (p_filesz ph + io - d < PAGE_SIZE);
               s = (if partial then zero_frame p s else s);
               sz = (if partial then p_filesz ph + io - d else PAGE_SIZE);
               memsz = (if partial then p_memsz ph + io - d else PAGE_SIZE)
           in if sint (p_filesz ph + io) - sint d < 0 then Ok (0, zero_frame p s)
              else read s 0 memsz sz)"

definition load_data :: "addrspace \<Rightarrow> vaddr \<Rightarrow> paddr \<Rightarrow> 'a ksys_scheme \<Rightarrow> (int \<times> 'a ksys_scheme) kres" where
  "load_data as v p s =
     (let s = count_page_fault DISK_FAULT s;
          ph = ph2 as; d = v - as_vbase2 as; io = initial_offset2 as;
          read = (\<lambda>s add memsz sz.
            kbind (load_elf_page (as_v as) (p_offset ph + d) (PADDR_TO_KVADDR (p + add)) memsz sz s)
              (\<lambda>(result, s).
                 if result \<noteq> 0 then Fail (Panic ''error while reading the data segment'')
                 else Ok (0, count_page_fault ELF_FAULT s)))
      in if io \<noteq> 0 \<and> d = 0
         then read (zero_frame p s) io PAGE_SIZE
                (if p_filesz ph \<ge> PAGE_SIZE - io then PAGE_SIZE - io else p_filesz ph)
         else
           let partial = (p_filesz ph + io - d < PAGE_SIZE);
               s = (if partial then zero_frame p s else s);
               sz = (if partial then p_filesz ph + io - d else PAGE_SIZE);
               memsz = (if partial then p_memsz ph + io - d else PAGE_SIZE)
           in if sint (p_filesz ph + io) - sint d < 0
              then Ok (0, count_page_fault ELF_FAULT (zero_frame p s))
              else read s 0 memsz sz)"

text \<open>The call \<open>sys__exit(-1)\<close> at the end ends the process and does not return.\<close>

definition load_page :: "vaddr \<Rightarrow> pid \<Rightarrow> paddr \<Rightarrow> 'a ksys_scheme \<Rightarrow> (int \<times> 'a ksys_scheme) kres" where
  "load_page v pid p s =
     kbind (load_swap v pid p s) (\<lambda>(swap_found, s).
       if swap_found \<noteq> 0 then Ok (0, s)
       else case k_as s of
         None \<Rightarrow> Fail NullDeref
       | Some as \<Rightarrow>
           if in_text as v then load_text as v p s
           else if in_data as v then load_data as v p s
           else if above_data as v \<and> v < USERSTACK
           then Ok (0, count_page_fault ZEROED_FAULT (zero_frame p s))
           else Fail (ProcExit (- 1)))"

section \<open>Reading the executable\<close>

text \<open>
  \<open>elf_file vn img len\<close>: reading the vnode at an offset copies the next bytes of the file to the
  buffer, as many as are wanted and left in the file, and succeeds.
\<close>

definition elf_file :: "vnode \<Rightarrow> (nat \<Rightarrow> byte) \<Rightarrow> nat \<Rightarrow> bool" where
  "elf_file vn img len \<longleftrightarrow>
     (\<forall>off kb msz fsz m. unat fsz \<le> unat msz \<longrightarrow>
        (\<exists>u'. vop_read vn (elf_uio off kb msz fsz) m =
          Ok (0, u', mem_put kb (min (unat fsz) (len - unat off)) (\<lambda>k. img (unat off + k)) m)))"

lemma load_elf_page_ok:
  assumes "elf_file (k_vnodes s vn) img len" "vn \<noteq> NULL" "unat fsz \<le> unat msz"
  shows "load_elf_page vn off kb msz fsz s =
    Ok (0, s\<lparr>k_mem := mem_put kb (min (unat fsz) (len - unat off)) (\<lambda>k. img (unat off + k)) (k_mem s)\<rparr>)"
proof -
  obtain u' where "vop_read (k_vnodes s vn) (elf_uio off kb msz fsz) (k_mem s) =
      Ok (0, u', mem_put kb (min (unat fsz) (len - unat off)) (\<lambda>k. img (unat off + k)) (k_mem s))"
    using assms(1,3) unfolding elf_file_def by blast
  moreover have "\<not> msz < fsz" using assms(3) by (simp add: word_less_nat_alt)
  ultimately show ?thesis using assms(2) by (simp add: load_elf_page_def)
qed

section \<open>Fault counters\<close>

lemma load_swap_stats:
  assumes "load_swap v pid p s = Ok (r, s')"
  shows "(r = 0 \<and> s' = s) \<or>
    (r = 1 \<and> same_proc s s' \<and> k_stats s' = add_page_fault SWAPFILE_FAULT (add_page_fault DISK_FAULT (k_stats s)))"
  using assms
  by (auto simp: load_swap_def Let_def same_proc_def split: option.splits prod.splits if_splits)

lemma load_elf_page_stats:
  assumes "load_elf_page vn off kb msz fsz s = Ok (r, s')"
  shows "k_stats s' = k_stats s"
  using assms by (auto simp: load_elf_page_def Let_def split: if_splits)

text \<open>
  A text page that lies wholly beyond the bytes of the segment present in the executable: the
  branch of \<open>load_page\<close> that counts a disk fault but no ELF fault.
\<close>

definition text_tail :: "addrspace \<Rightarrow> vaddr \<Rightarrow> bool" where
  "text_tail as v \<longleftrightarrow> in_text as v \<and> \<not> (initial_offset1 as \<noteq> 0 \<and> v = as_vbase1 as) \<and>
     sint (p_filesz (ph1 as) + initial_offset1 as) - sint (v - as_vbase1 as) < 0"

lemma balance_fault_pair:
  "disk_balance (add_page_fault ELF_FAULT (add_page_fault DISK_FAULT st)) = disk_balance st"
  "fault_balance (add_page_fault ELF_FAULT (add_page_fault DISK_FAULT st)) = fault_balance st - 1"
  "disk_balance (add_page_fault SWAPFILE_FAULT (add_page_fault DISK_FAULT st)) = disk_balance st"
  "fault_balance (add_page_fault SWAPFILE_FAULT (add_page_fault DISK_FAULT st)) = fault_balance st - 1"
  by (simp_all add: stat_simps)

lemma load_text_stats:
  assumes "load_text as v p s = Ok (r, s')" "in_text as v"
  shows "k_stats s' = (if text_tail as v then add_page_fault DISK_FAULT (k_stats s)
    else add_page_fault ELF_FAULT (add_page_fault DISK_FAULT (k_stats s)))"
  using assms
  by (auto simp: load_text_def Let_def count_page_fault_def zero_frame_def text_tail_def
      split: if_splits prod.splits dest!: load_elf_page_stats)

lemma load_data_stats:
  assumes "load_data as v p s = Ok (r, s')"
  shows "k_stats s' = add_page_fault ELF_FAULT (add_page_fault DISK_FAULT (k_stats s))"
  using assms
  by (auto simp: load_data_def Let_def count_page_fault_def zero_frame_def
      split: if_splits prod.splits dest!: load_elf_page_stats)

lemma load_page_balance:
  assumes "load_page v pid p s = Ok (r, s')" "k_as s = Some as"
  shows "tlb_balance (k_stats s') = tlb_balance (k_stats s)"
    and "fault_balance (k_stats s') = fault_balance (k_stats s) - 1"
    and "\<not> text_tail as v \<Longrightarrow> disk_balance (k_stats s') = disk_balance (k_stats s)"
proof -
  obtain r1 s1 where L: "load_swap v pid p s = Ok (r1, s1)" and
    rest: "(if r1 \<noteq> 0 then Ok (0, s1)
       else case k_as s1 of
         None \<Rightarrow> Fail NullDeref
       | Some as \<Rightarrow>
           if in_text as v then load_text as v p s1
           else if in_data as v then load_data as v p s1
           else if above_data as v \<and> v < USERSTACK
           then Ok (0, count_page_fault ZEROED_FAULT (zero_frame p s1))
           else Fail (ProcExit (- 1))) = Ok (r, s')"
    using assms(1) by (auto simp: load_page_def)
  consider "r1 = 1" "k_stats s' = add_page_fault SWAPFILE_FAULT (add_page_fault DISK_FAULT (k_stats s))"
    | "s1 = s" "in_text as v" "load_text as v p s = Ok (r, s')"
    | "s1 = s" "load_data as v p s = Ok (r, s')" "\<not> in_text as v"
    | "k_stats s' = add_page_fault ZEROED_FAULT (k_stats s)" "\<not> in_text as v"
    using load_swap_stats [OF L] rest assms(2)
    by (auto simp: count_page_fault_def zero_frame_def split: if_splits)
  then have "tlb_balance (k_stats s') = tlb_balance (k_stats s) \<and>
      fault_balance (k_stats s') = fault_balance (k_stats s) - 1 \<and>
      (\<not> text_tail as v \<longrightarrow> disk_balance (k_stats s') = disk_balance (k_stats s))"
  proof cases
    case 2
    then show ?thesis using load_text_stats [OF 2(3,2)] by (simp add: stat_simps)
  next
    case 3
    then show ?thesis using load_data_stats [OF 3(2)] by (simp add: stat_simps)
  qed (simp_all add: stat_simps)
  then show "tlb_balance (k_stats s') = tlb_balance (k_stats s)"
    "fault_balance (k_stats s') = fault_balance (k_stats s) - 1"
    "\<not> text_tail as v \<Longrightarrow> disk_balance (k_stats s') = disk_balance (k_stats s)" by blast+
qed

text \<open>Loading from the executable changes only memory and counters.\<close>

lemma load_elf_page_frame:
  assumes "load_elf_page vn off kb msz fsz s = Ok (r, s')"
  shows "\<exists>m. s' = s\<lparr>k_mem := m\<rparr>"
  using assms by (auto simp: load_elf_page_def Let_def split: if_splits)

definition only_mem :: "'a ksys_scheme \<Rightarrow> 'a ksys_scheme \<Rightarrow> bool" where
  "only_mem s s' \<longleftrightarrow> (\<exists>m st. s' = s\<lparr>k_mem := m, k_stats := st\<rparr>)"

lemma only_mem_upd:
  "only_mem s (s\<lparr>k_mem := m, k_stats := st\<rparr>)" "only_mem s (s\<lparr>k_stats := st, k_mem := m\<rparr>)"
  "only_mem s (s\<lparr>k_stats := st\<rparr>)" "only_mem s (s\<lparr>k_mem := m\<rparr>)"
proof -
  show "only_mem s (s\<lparr>k_mem := m, k_stats := st\<rparr>)" by (auto simp: only_mem_def)
  show "only_mem s (s\<lparr>k_stats := st, k_mem := m\<rparr>)"
    unfolding only_mem_def by (intro exI [of _ m] exI [of _ st]) simp
  show "only_mem s (s\<lparr>k_stats := st\<rparr>)"
    unfolding only_mem_def by (intro exI [of _ "k_mem s"] exI [of _ st]) simp
  show "only_mem s (s\<lparr>k_mem := m\<rparr>)"
    unfolding only_mem_def by (intro exI [of _ m] exI [of _ "k_stats s"]) simp
qed

lemma only_mem_trans:
  assumes "only_mem a b" "only_mem b c"
  shows "only_mem a c"
proof -
  obtain m1 t1 m2 t2 where "b = a\<lparr>k_mem := m1, k_stats := t1\<rparr>" "c = b\<lparr>k_mem := m2, k_stats := t2\<rparr>"
    using assms unfolding only_mem_def by blast
  then have "c = a\<lparr>k_mem := m2, k_stats := t2\<rparr>" by simp
  then show ?thesis unfolding only_mem_def by blast
qed

lemma only_memD: "only_mem s s' \<Longrightarrow> k_swap s' = k_swap s \<and> same_proc s s'"
  by (auto simp: only_mem_def same_proc_def)

lemma only_mem_helpers:
  "only_mem s (count_page_fault c s)" "only_mem s (zero_frame p s)"
  by (simp_all add: count_page_fault_def zero_frame_def only_mem_upd)

lemma only_mem_elf: "load_elf_page vn off kb msz fsz s = Ok (r, s') \<Longrightarrow> only_mem s s'"
  using load_elf_page_frame by (metis only_mem_upd(4))

lemmas only_mem_intros = only_mem_helpers only_mem_elf only_mem_trans

lemma load_text_frame: "load_text as v p s = Ok (r, s') \<Longrightarrow> only_mem s s'"
  by (auto simp: load_text_def Let_def split: if_splits prod.splits dest!: only_mem_elf;
      meson only_mem_helpers only_mem_trans)

lemma load_data_frame: "load_data as v p s = Ok (r, s') \<Longrightarrow> only_mem s s'"
  by (auto simp: load_data_def Let_def split: if_splits prod.splits dest!: only_mem_elf;
      meson only_mem_helpers only_mem_trans)

section \<open>Contents of a loaded page\<close>

text \<open>
  What a page of a segment should hold: the bytes of the file, then zeros. \<open>d\<close> is the distance of
  the page from the start of the segment.
\<close>

definition seg_byte :: "elf_phdr \<Rightarrow> (nat \<Rightarrow> byte) \<Rightarrow> nat \<Rightarrow> nat \<Rightarrow> byte" where
  "seg_byte ph img d k = (if d + k < unat (p_filesz ph) then img (unat (p_offset ph) + d + k) else 0)"

definition seg_sane :: "elf_phdr \<Rightarrow> nat \<Rightarrow> bool" where
  "seg_sane ph len \<longleftrightarrow> unat (p_filesz ph) \<le> unat (p_memsz ph) \<and> unat (p_memsz ph) < 2 ^ 31 \<and>
     unat (p_offset ph) + unat (p_filesz ph) \<le> len \<and> len < 2 ^ 32"

lemma frame_zero_put:
  assumes "n \<le> 4096" "k < 4096"
  shows "mem_get kb (mem_put kb n f (bzero kb 4096 m)) k = (if k < n then f k else 0)"
  using assms by (simp add: mem_get_def mem_put_def bzero_def)

lemma frame_zero: "k < 4096 \<Longrightarrow> mem_get kb (bzero kb 4096 m) k = 0"
  by (simp add: mem_get_def bzero_def)

lemma frame_put_outside:
  "n \<le> 4096 \<Longrightarrow> \<not> unat (a - kb) < 4096 \<Longrightarrow> mem_put kb n f m a = m a"
  "\<not> unat (a - kb) < 4096 \<Longrightarrow> bzero kb 4096 m a = m a"
  by (simp_all add: mem_put_def bzero_def)

text \<open>The unsigned and signed size computations of \<open>load_page\<close>, for a page-aligned segment.\<close>

lemma seg_sizes:
  fixes d :: "32 word"
  assumes "seg_sane ph len" "unat d < 2 ^ 31"
  shows "sint (p_filesz ph) - sint d < 0 \<longleftrightarrow> unat (p_filesz ph) < unat d"
    and "unat d \<le> unat (p_filesz ph) \<Longrightarrow> unat (p_filesz ph - d) = unat (p_filesz ph) - unat d
           \<and> unat (p_memsz ph - d) = unat (p_memsz ph) - unat d \<and> unat (p_offset ph + d) = unat (p_offset ph) + unat d"
proof -
  have F: "unat (p_filesz ph) < 2 ^ 31" using assms(1) by (simp add: seg_sane_def)
  have "sint x = int (unat x)" if "unat x < 2 ^ 31" for x :: "32 word"
    using that by (subst sint_user) (simp_all add: word_less_nat_alt)
  then show "sint (p_filesz ph) - sint d < 0 \<longleftrightarrow> unat (p_filesz ph) < unat d"
    using F assms(2) by (simp flip: word_less_def word_less_nat_alt)
  assume le: "unat d \<le> unat (p_filesz ph)"
  then have "d \<le> p_filesz ph" "d \<le> p_memsz ph"
    using assms(1) by (simp_all add: word_le_nat_alt seg_sane_def)
  moreover have "unat (p_offset ph + d) = unat (p_offset ph) + unat d"
    using le assms(1) unat_plus_nat [of "p_offset ph" "unat d"] by (simp add: seg_sane_def)
  ultimately show "unat (p_filesz ph - d) = unat (p_filesz ph) - unat d
      \<and> unat (p_memsz ph - d) = unat (p_memsz ph) - unat d \<and> unat (p_offset ph + d) = unat (p_offset ph) + unat d"
    by (simp add: unat_sub)
qed

lemma load_data_contents:
  assumes img: "elf_file (k_vnodes s (as_v as)) img len" "as_v as \<noteq> NULL"
    and seg: "initial_offset2 as = 0" "seg_sane (ph2 as) len" "unat (v - as_vbase2 as) < 2 ^ 31"
  shows "\<exists>s'. load_data as v p s = Ok (0, s')
    \<and> (\<forall>k < 4096. mem_get (PADDR_TO_KVADDR p) (k_mem s') k = seg_byte (ph2 as) img (unat (v - as_vbase2 as)) k)
    \<and> (\<forall>a. \<not> unat (a - PADDR_TO_KVADDR p) < 4096 \<longrightarrow> k_mem s' a = k_mem s a)"
proof -
  let ?d = "v - as_vbase2 as" and ?ph = "ph2 as" and ?kb = "PADDR_TO_KVADDR p"
  note Z = seg_sizes [OF seg(2,3)]
  have sane: "unat (p_filesz ?ph) \<le> unat (p_memsz ?ph)" "unat (p_offset ?ph) + unat (p_filesz ?ph) \<le> len"
    using seg(2) by (simp_all add: seg_sane_def)
  consider (tail) "unat (p_filesz ?ph) < unat ?d"
    | (part) "unat ?d \<le> unat (p_filesz ?ph)" "unat (p_filesz ?ph) - unat ?d < 4096"
    | (full) "unat ?d \<le> unat (p_filesz ?ph)" "4096 \<le> unat (p_filesz ?ph) - unat ?d"
    by linarith
  then show ?thesis
  proof cases
    case tail
    then show ?thesis
      using Z(1) seg(1) frame_put_outside(2)
      by (auto simp: load_data_def Let_def count_page_fault_def zero_frame_def frame_zero seg_byte_def)
  next
    case part
    then have n: "min (unat (p_filesz ?ph - ?d)) (len - unat (p_offset ?ph + ?d)) = unat (p_filesz ?ph) - unat ?d"
      "unat (p_filesz ?ph - ?d) \<le> unat (p_memsz ?ph - ?d)"
      using Z(2) [OF part(1)] sane by simp_all
    let ?s = "count_page_fault ELF_FAULT (zero_frame p (count_page_fault DISK_FAULT s))"
    have small: "p_filesz ?ph - ?d < PAGE_SIZE" using part Z(2) by (simp add: word_less_nat_alt PAGE_SIZE_def)
    have run: "load_data as v p s = Ok (0, ?s\<lparr>k_mem := mem_put ?kb (unat (p_filesz ?ph) - unat ?d)
        (\<lambda>k. img (unat (p_offset ?ph + ?d) + k)) (k_mem ?s)\<rparr>)"
      using seg(1) small part(1) Z(1) load_elf_page_ok [OF _ img(2) n(2), of "zero_frame p (count_page_fault DISK_FAULT s)" img len] img(1) n(1)
      by (simp add: load_data_def Let_def count_page_fault_def zero_frame_def)
    show ?thesis
      unfolding run using part Z(2) [OF part(1)] frame_put_outside
      by (auto simp: count_page_fault_def zero_frame_def frame_zero_put seg_byte_def)
  next
    case full
    let ?s = "count_page_fault ELF_FAULT (count_page_fault DISK_FAULT s)"
    have n: "min (unat PAGE_SIZE) (len - unat (p_offset ?ph + ?d)) = 4096"
      using Z(2) [OF full(1)] sane full by (simp add: PAGE_SIZE_def)
    have big: "\<not> p_filesz ?ph - ?d < PAGE_SIZE" using full Z(2) by (simp add: word_less_nat_alt PAGE_SIZE_def)
    have run: "load_data as v p s = Ok (0, ?s\<lparr>k_mem := mem_put ?kb 4096
        (\<lambda>k. img (unat (p_offset ?ph + ?d) + k)) (k_mem ?s)\<rparr>)"
      using seg(1) big full(1) Z(1) load_elf_page_ok [OF _ img(2), of "count_page_fault DISK_FAULT s" img len PAGE_SIZE PAGE_SIZE] img(1) n
      by (simp add: load_data_def Let_def count_page_fault_def)
    show ?thesis
      unfolding run using full Z(2) [OF full(1)] frame_put_outside(1)
      by (auto simp: count_page_fault_def mem_get_put seg_byte_def)
  qed
qed

lemma load_text_contents:
  assumes img: "elf_file (k_vnodes s (as_v as)) img len" "as_v as \<noteq> NULL"
    and seg: "initial_offset1 as = 0" "seg_sane (ph1 as) len" "unat (v - as_vbase1 as) < 2 ^ 31"
  shows "\<exists>s'. load_text as v p s = Ok (0, s')
    \<and> (\<forall>k < 4096. mem_get (PADDR_TO_KVADDR p) (k_mem s') k = seg_byte (ph1 as) img (unat (v - as_vbase1 as)) k)
    \<and> (\<forall>a. \<not> unat (a - PADDR_TO_KVADDR p) < 4096 \<longrightarrow> k_mem s' a = k_mem s a)"
proof -
  let ?d = "v - as_vbase1 as" and ?ph = "ph1 as" and ?kb = "PADDR_TO_KVADDR p"
  note Z = seg_sizes [OF seg(2,3)]
  have sane: "unat (p_filesz ?ph) \<le> unat (p_memsz ?ph)" "unat (p_offset ?ph) + unat (p_filesz ?ph) \<le> len"
    using seg(2) by (simp_all add: seg_sane_def)
  consider (tail) "unat (p_filesz ?ph) < unat ?d"
    | (part) "unat ?d \<le> unat (p_filesz ?ph)" "unat (p_filesz ?ph) - unat ?d < 4096"
    | (full) "unat ?d \<le> unat (p_filesz ?ph)" "4096 \<le> unat (p_filesz ?ph) - unat ?d"
    by linarith
  then show ?thesis
  proof cases
    case tail
    then show ?thesis
      using Z(1) seg(1) frame_put_outside(2)
      by (auto simp: load_text_def Let_def count_page_fault_def zero_frame_def frame_zero seg_byte_def)
  next
    case part
    then have n: "min (unat (p_filesz ?ph - ?d)) (len - unat (p_offset ?ph + ?d)) = unat (p_filesz ?ph) - unat ?d"
      "unat (p_filesz ?ph - ?d) \<le> unat (p_memsz ?ph - ?d)"
      using Z(2) [OF part(1)] sane by simp_all
    let ?s = "count_page_fault ELF_FAULT (zero_frame p (count_page_fault DISK_FAULT s))"
    have small: "p_filesz ?ph - ?d < PAGE_SIZE" using part Z(2) by (simp add: word_less_nat_alt PAGE_SIZE_def)
    have run: "load_text as v p s = Ok (0, ?s\<lparr>k_mem := mem_put ?kb (unat (p_filesz ?ph) - unat ?d)
        (\<lambda>k. img (unat (p_offset ?ph + ?d) + k)) (k_mem ?s)\<rparr>)"
      using seg(1) small part(1) Z(1) load_elf_page_ok [OF _ img(2) n(2), of "zero_frame p (count_page_fault DISK_FAULT s)" img len] img(1) n(1)
      by (simp add: load_text_def Let_def count_page_fault_def zero_frame_def)
    show ?thesis
      unfolding run using part Z(2) [OF part(1)] frame_put_outside
      by (auto simp: count_page_fault_def zero_frame_def frame_zero_put seg_byte_def)
  next
    case full
    let ?s = "count_page_fault ELF_FAULT (count_page_fault DISK_FAULT s)"
    have n: "min (unat PAGE_SIZE) (len - unat (p_offset ?ph + ?d)) = 4096"
      using Z(2) [OF full(1)] sane full by (simp add: PAGE_SIZE_def)
    have big: "\<not> p_filesz ?ph - ?d < PAGE_SIZE" using full Z(2) by (simp add: word_less_nat_alt PAGE_SIZE_def)
    have run: "load_text as v p s = Ok (0, ?s\<lparr>k_mem := mem_put ?kb 4096
        (\<lambda>k. img (unat (p_offset ?ph + ?d) + k)) (k_mem ?s)\<rparr>)"
      using seg(1) big full(1) Z(1) load_elf_page_ok [OF _ img(2), of "count_page_fault DISK_FAULT s" img len PAGE_SIZE PAGE_SIZE] img(1) n
      by (simp add: load_text_def Let_def count_page_fault_def)
    show ?thesis
      unfolding run using full Z(2) [OF full(1)] frame_put_outside(1)
      by (auto simp: count_page_fault_def mem_get_put seg_byte_def)
  qed
qed

section \<open>Properties\<close>

text \<open>What a page of the segment \<open>g\<close> holds the first time it is touched.\<close>

definition fresh_byte :: "addrspace \<Rightarrow> (nat \<Rightarrow> byte) \<Rightarrow> swap_seg \<Rightarrow> vaddr \<Rightarrow> nat \<Rightarrow> byte" where
  "fresh_byte as img g v k =
     (case g of
        Text \<Rightarrow> seg_byte (ph1 as) img (unat (v - as_vbase1 as)) k
      | Data \<Rightarrow> seg_byte (ph2 as) img (unat (v - as_vbase2 as)) k
      | Stack \<Rightarrow> 0)"

lemma load_page_fresh:
  assumes inv: "swap_inv (k_swap s)" "i < MAX_PROC" "k_pid s = int i"
    and as: "k_as s = Some as" "one_seg as v g" "v < USERSTACK"
    and miss: "map_of (swap_list (k_swap s) g i) v = None"
    and img: "elf_file (k_vnodes s (as_v as)) img len" "as_v as \<noteq> NULL"
    and tx: "g = Text \<Longrightarrow> initial_offset1 as = 0 \<and> seg_sane (ph1 as) len \<and> unat (v - as_vbase1 as) < 2 ^ 31"
    and da: "g = Data \<Longrightarrow> initial_offset2 as = 0 \<and> seg_sane (ph2 as) len \<and> unat (v - as_vbase2 as) < 2 ^ 31"
  shows "\<exists>s'. load_page v (int i) p s = Ok (0, s') \<and> only_mem s s'
    \<and> (\<forall>k < 4096. mem_get (PADDR_TO_KVADDR p) (k_mem s') k = fresh_byte as img g v k)
    \<and> (\<forall>a. \<not> unat (a - PADDR_TO_KVADDR p) < 4096 \<longrightarrow> k_mem s' a = k_mem s a)"
proof -
  have L: "load_swap v (int i) p s = Ok (0, s)"
    by (rule load_swap_none [OF inv(1) as(1) one_seg_unique [OF as(2)] inv(2,3) miss])
  show ?thesis
  proof (cases g)
    case Text
    then have "load_page v (int i) p s = load_text as v p s"
      using L as by (simp add: load_page_def one_seg_def)
    then show ?thesis using load_text_contents [OF img, of v p] tx Text load_text_frame by (fastforce simp: fresh_byte_def)
  next
    case Data
    then have "load_page v (int i) p s = load_data as v p s"
      using L as by (simp add: load_page_def one_seg_def)
    then show ?thesis using load_data_contents [OF img, of v p] da Data load_data_frame by (fastforce simp: fresh_byte_def)
  next
    case Stack
    then have "load_page v (int i) p s = Ok (0, count_page_fault ZEROED_FAULT (zero_frame p s))"
      using L as by (simp add: load_page_def one_seg_def)
    moreover have "only_mem s (count_page_fault ZEROED_FAULT (zero_frame p s))"
      using only_mem_helpers only_mem_trans by meson
    ultimately show ?thesis
      using Stack by (simp add: fresh_byte_def count_page_fault_def zero_frame_def frame_zero frame_put_outside(2))
  qed
qed

text \<open>
  (C38) The first touch of a page, with segments that start on a page boundary: \<open>load_page\<close>
  succeeds and the frame holds the bytes of the executable at the page's place in its segment,
  followed by zeros where the file part of the segment ends, or only zeros for a stack page; no
  other byte of memory changes.
\<close>

theorem load_page_contents:
  assumes "swap_inv (k_swap s)" "i < MAX_PROC" "k_pid s = int i"
    and "k_as s = Some as" "one_seg as v g" "v < USERSTACK"
    and "map_of (swap_list (k_swap s) g i) v = None"
    and "elf_file (k_vnodes s (as_v as)) img len" "as_v as \<noteq> NULL"
    and "g = Text \<Longrightarrow> initial_offset1 as = 0 \<and> seg_sane (ph1 as) len \<and> unat (v - as_vbase1 as) < 2 ^ 31"
    and "g = Data \<Longrightarrow> initial_offset2 as = 0 \<and> seg_sane (ph2 as) len \<and> unat (v - as_vbase2 as) < 2 ^ 31"
  shows "\<exists>s'. load_page v (int i) p s = Ok (0, s')
    \<and> (\<forall>k < 4096. mem_get (PADDR_TO_KVADDR p) (k_mem s') k = fresh_byte as img g v k)
    \<and> (\<forall>a. \<not> unat (a - PADDR_TO_KVADDR p) < 4096 \<longrightarrow> k_mem s' a = k_mem s a)"
  using load_page_fresh [OF assms] by blast

text \<open>An executable of 20000 bytes, read by a vnode that behaves as documented.\<close>

definition ex_vnode :: vnode where
  "ex_vnode = \<lparr>vn_refcount = 1,
     vop_read = (\<lambda>u m. case uio_iov u of
         [] \<Rightarrow> Ok (EINVAL, u, m)
       | iov # _ \<Rightarrow> Ok (0, u, mem_put (iov_kbase iov) (min (uio_resid u) (20000 - nat (uio_offset u)))
                            (\<lambda>k. of_nat (nat (uio_offset u) + k)) m)),
     vop_reclaim = 0, vn_reclaims = 0\<rparr>"

lemma ex_vnode_elf: "elf_file ex_vnode (\<lambda>k. of_nat k) 20000"
  by (simp add: elf_file_def ex_vnode_def elf_uio_def)

definition ex_elf_as :: addrspace where
  "ex_elf_as = ex_as\<lparr>ph1 := zero_phdr\<lparr>p_offset := 0x1000, p_filesz := 0x1800, p_memsz := 0x2000\<rparr>,
     ph2 := zero_phdr\<lparr>p_offset := 0x100, p_filesz := 0x40, p_memsz := 0x1100\<rparr>\<rparr>"

definition ex_elf_sys :: ksys where
  "ex_elf_sys = ex_sys\<lparr>k_as := Some ex_elf_as, k_vnodes := (\<lambda>a. ex_vnode)\<rparr>"

lemma ex_elf_facts:
  "swap_inv (k_swap ex_elf_sys)" "k_pid ex_elf_sys = int 1" "k_as ex_elf_sys = Some ex_elf_as"
  "one_seg ex_elf_as 0x401000 Text" "map_of (swap_list (k_swap ex_elf_sys) Text 1) 0x401000 = None"
  "elf_file (k_vnodes ex_elf_sys (as_v ex_elf_as)) (\<lambda>k. of_nat k) 20000" "as_v ex_elf_as \<noteq> NULL"
  "initial_offset1 ex_elf_as = 0" "seg_sane (ph1 ex_elf_as) 20000"
  "initial_offset2 ex_elf_as = 0" "seg_sane (ph2 ex_elf_as) 20000"
  "unat (0x401000 - as_vbase1 ex_elf_as) < 2 ^ 31"
proof -
  have k: "k_swap ex_elf_sys = k_swap ex_sys" by (simp add: ex_elf_sys_def)
  show "swap_inv (k_swap ex_elf_sys)" using ex_sys_facts(2) by (simp add: k)
  show "k_pid ex_elf_sys = int 1" using ex_sys_facts(5) by (simp add: ex_elf_sys_def)
  show "k_as ex_elf_sys = Some ex_elf_as" by (simp add: ex_elf_sys_def)
  show "one_seg ex_elf_as 0x401000 Text"
    using ex_sys_facts(8) by (simp add: ex_elf_as_def one_seg_def in_text_def in_data_def above_data_def)
  show "map_of (swap_list (k_swap ex_elf_sys) Text 1) 0x401000 = None"
    using swap_ok_list [OF ex_swap_ok, of 1 Text]
    by (simp add: ex_elf_sys_def ex_sys_def ex_chains_def cell_page_def MAX_PROC_def) (simp add: ex_swap_def)
  show "elf_file (k_vnodes ex_elf_sys (as_v ex_elf_as)) (\<lambda>k. of_nat k) 20000"
    using ex_vnode_elf by (simp add: ex_elf_sys_def)
qed (simp_all add: ex_elf_as_def ex_as_def zero_as_def seg_sane_def zero_phdr_def)

theorem load_page_contents_witness:
  "\<exists>s'. load_page 0x401000 1 0x100000 ex_elf_sys = Ok (0, s')
     \<and> mem_get 0x80100000 (k_mem s') 5 = of_nat 0x2005 \<and> mem_get 0x80100000 (k_mem s') 0x900 = 0"
  using load_page_contents [OF ex_elf_facts(1) _ ex_elf_facts(2,3,4) _ ex_elf_facts(5,6,7), of "0x100000"]
    ex_elf_facts(8,9,12)
  by (auto simp: MAX_PROC_def vm_consts fresh_byte_def seg_byte_def ex_elf_as_def ex_as_def zero_phdr_def)

text \<open>
  The first page of a text segment that starts in the upper half of a page: the in-page offset
  is subtracted twice from the length, the difference wraps around and is cut to a whole page,
  so a whole page is read to the middle of the frame and the first bytes of the next frame, which
  belongs to someone else, are overwritten.
\<close>

theorem load_text_overruns_frame:
  assumes "elf_file (k_vnodes s (as_v as)) img len" "as_v as \<noteq> NULL"
    and "2048 < unat (initial_offset1 as)" "unat (initial_offset1 as) < 4096"
    and "PAGE_SIZE - initial_offset1 as \<le> p_filesz (ph1 as)" "unat (p_offset (ph1 as)) + 4096 \<le> len"
    and "k < unat (initial_offset1 as)"
  shows "\<exists>s'. load_text as (as_vbase1 as) p s = Ok (0, s')
    \<and> k_mem s' (PADDR_TO_KVADDR p + PAGE_SIZE + of_nat k) =
        img (unat (p_offset (ph1 as)) + (4096 - unat (initial_offset1 as)) + k)"
proof -
  let ?io = "initial_offset1 as" and ?ph = "ph1 as"
  obtain n where n: "n = unat ?io" "2048 < n" "n < 4096" "?io = of_nat n" using assms(3,4) by simp
  define m where "m = 2 * n - 4096"
  have m: "0 < m" "m < 4096" using n by (auto simp: m_def)
  then have um: "unat (of_nat m :: 32 word) = m" by simp
  have "PAGE_SIZE - ?io - ?io = 0 - of_nat m"
    using n by (simp add: PAGE_SIZE_def of_nat_diff m_def)
  moreover have "unat (0 - of_nat m :: 32 word) = 4294967296 - m"
    using m um by (subst unat_sub_if') simp
  ultimately have "PAGE_SIZE < PAGE_SIZE - ?io - ?io"
    using m by (simp add: word_less_nat_alt PAGE_SIZE_def)
  then have ef: "load_elf_page (as_v as) (p_offset ?ph) kb PAGE_SIZE (PAGE_SIZE - ?io - ?io) t =
      Ok (0, t\<lparr>k_mem := mem_put kb 4096 (\<lambda>k. img (unat (p_offset ?ph) + k)) (k_mem t)\<rparr>)"
    if "k_vnodes t = k_vnodes s" for t :: "'a ksys_scheme" and kb
    using load_elf_page_ok [of t "as_v as" img len PAGE_SIZE PAGE_SIZE "p_offset ?ph" kb] assms(1,2,6) that
    by (simp add: load_elf_page_def Let_def PAGE_SIZE_def)
  have "PADDR_TO_KVADDR p + PAGE_SIZE + of_nat k - PADDR_TO_KVADDR (p + ?io) = of_nat (4096 - n + k)"
    using n by (simp add: vm_consts of_nat_diff)
  moreover have "unat (of_nat (4096 - n + k) :: 32 word) = 4096 - n + k"
    using n assms(7) by (intro unat_of_nat_32) simp
  ultimately have ix: "unat (PADDR_TO_KVADDR p + PAGE_SIZE + of_nat k - PADDR_TO_KVADDR (p + ?io)) = 4096 - n + k"
    by argo
  have nz: "?io \<noteq> 0" using n(1,2) by force
  let ?t = "zero_frame p (count_page_fault DISK_FAULT s)"
  let ?s' = "count_page_fault ELF_FAULT (?t\<lparr>k_mem :=
      mem_put (PADDR_TO_KVADDR (p + ?io)) 4096 (\<lambda>k. img (unat (p_offset ?ph) + k)) (k_mem ?t)\<rparr>)"
  have "k_vnodes ?t = k_vnodes s" by (simp add: zero_frame_def count_page_fault_def)
  note E = ef [OF this, of "PADDR_TO_KVADDR (p + ?io)"]
  have run: "load_text as (as_vbase1 as) p s = Ok (0, ?s')"
    by (simp only: load_text_def Let_def nz assms(5) diff_self add_0_right E kbind_Ok prod.case if_True if_False simp_thms)
  have "4096 - n + k < 4096" using assms(7) n(1,3) by linarith
  moreover have km: "k_mem (count_page_fault c (t\<lparr>k_mem := mm\<rparr>)) = mm" for c and t :: "'a ksys_scheme" and mm
    by (simp add: count_page_fault_def)
  ultimately have "k_mem ?s' (PADDR_TO_KVADDR p + PAGE_SIZE + of_nat k) = img (unat (p_offset ?ph) + (4096 - n + k))"
    by (simp only: km mem_put_def ix if_True)
  then show ?thesis unfolding run n(1) by (simp add: add.assoc)
qed

theorem load_text_overruns_frame_witness:
  "\<exists>s'. load_text (ex_elf_as\<lparr>initial_offset1 := 0xffc\<rparr>) 0x400000 0x100000 ex_elf_sys = Ok (0, s')
     \<and> k_mem s' 0x80101000 = of_nat 0x1004"
  using load_text_overruns_frame [of ex_elf_sys "ex_elf_as\<lparr>initial_offset1 := 0xffc\<rparr>" "\<lambda>k. of_nat k" 20000 0 "0x100000"]
    ex_elf_facts(6,7)
  by (simp add: vm_consts) (simp add: ex_elf_as_def ex_as_def zero_phdr_def)

end
