(* ===== verification/Page_Table.thy ===== *)
theory Page_Table
  imports Segments
begin

text \<open>
  The inverted page table (\<^verbatim>\<open>kern/vm/pt.c\<close>): one entry per physical frame with the
  virtual page, the owner and a byte of control bits; allocation of frames to pages with
  second-chance replacement, allocation of contiguous frames to the kernel, release, and the
  copy made by \<open>fork\<close>. The record \<open>vm\<close> extends \<open>ksys\<close> with the table, its hash index, the
  allocator of early boot and the pool of frames.

  A wait on the table's condition variable (\<open>cv_wait\<close>) is a wait for another thread; in this
  model of uninterrupted operations it is \<open>Fail Blocked\<close>.
\<close>

section \<open>Control bits\<close>

definition GetValidityBit :: "8 word \<Rightarrow> bool" where "GetValidityBit x \<longleftrightarrow> x AND 1 \<noteq> 0"
definition GetReferenceBit :: "8 word \<Rightarrow> bool" where "GetReferenceBit x \<longleftrightarrow> drop_bit 1 x AND 1 \<noteq> 0"
definition GetTlbBit :: "8 word \<Rightarrow> bool" where "GetTlbBit x \<longleftrightarrow> drop_bit 2 x AND 1 \<noteq> 0"
definition GetIOBit :: "8 word \<Rightarrow> bool" where "GetIOBit x \<longleftrightarrow> drop_bit 3 x AND 1 \<noteq> 0"
definition GetSwapBit :: "8 word \<Rightarrow> bool" where "GetSwapBit x \<longleftrightarrow> drop_bit 4 x AND 1 \<noteq> 0"

definition SetValidityBitOne :: "8 word \<Rightarrow> 8 word" where "SetValidityBitOne x = x OR 1"
definition SetReferenceBitOne :: "8 word \<Rightarrow> 8 word" where "SetReferenceBitOne x = x OR 2"
definition SetTlbBitOne :: "8 word \<Rightarrow> 8 word" where "SetTlbBitOne x = x OR 4"
definition SetIOBitOne :: "8 word \<Rightarrow> 8 word" where "SetIOBitOne x = x OR 8"
definition SetSwapBitOne :: "8 word \<Rightarrow> 8 word" where "SetSwapBitOne x = x OR 16"

definition SetValidityBitZero :: "8 word \<Rightarrow> 8 word" where "SetValidityBitZero x = x AND NOT 1"
definition SetReferenceBitZero :: "8 word \<Rightarrow> 8 word" where "SetReferenceBitZero x = x AND NOT 2"
definition SetTlbBitZero :: "8 word \<Rightarrow> 8 word" where "SetTlbBitZero x = x AND NOT 4"
definition SetIOBitZero :: "8 word \<Rightarrow> 8 word" where "SetIOBitZero x = x AND NOT 8"
definition SetSwapBitZero :: "8 word \<Rightarrow> 8 word" where "SetSwapBitZero x = x AND NOT 16"

lemmas get_bits = GetValidityBit_def GetReferenceBit_def GetTlbBit_def GetIOBit_def GetSwapBit_def

lemmas set_bits = SetValidityBitOne_def SetReferenceBitOne_def SetTlbBitOne_def SetIOBitOne_def
  SetSwapBitOne_def SetValidityBitZero_def SetReferenceBitZero_def SetTlbBitZero_def
  SetIOBitZero_def SetSwapBitZero_def

text \<open>Each macro reads or writes the bit of its name and no other.\<close>

lemma get_bit_iff:
  "GetValidityBit x = bit x 0" "GetReferenceBit x = bit x 1" "GetTlbBit x = bit x 2"
  "GetIOBit x = bit x 3" "GetSwapBit x = bit x 4"
  by (simp_all add: get_bits bit_iff_odd_drop_bit and_one_eq odd_iff_mod_2_eq_one flip: bit_0)

lemma ctrl_simps [simp]:
  "GetValidityBit (SetValidityBitOne c) \<longleftrightarrow> True"
  "GetValidityBit (SetValidityBitZero c) \<longleftrightarrow> False"
  "GetValidityBit (SetReferenceBitOne c) \<longleftrightarrow> GetValidityBit c"
  "GetValidityBit (SetReferenceBitZero c) \<longleftrightarrow> GetValidityBit c"
  "GetValidityBit (SetTlbBitOne c) \<longleftrightarrow> GetValidityBit c"
  "GetValidityBit (SetTlbBitZero c) \<longleftrightarrow> GetValidityBit c"
  "GetValidityBit (SetIOBitOne c) \<longleftrightarrow> GetValidityBit c"
  "GetValidityBit (SetIOBitZero c) \<longleftrightarrow> GetValidityBit c"
  "GetValidityBit (SetSwapBitOne c) \<longleftrightarrow> GetValidityBit c"
  "GetValidityBit (SetSwapBitZero c) \<longleftrightarrow> GetValidityBit c"
  "GetReferenceBit (SetValidityBitOne c) \<longleftrightarrow> GetReferenceBit c"
  "GetReferenceBit (SetValidityBitZero c) \<longleftrightarrow> GetReferenceBit c"
  "GetReferenceBit (SetReferenceBitOne c) \<longleftrightarrow> True"
  "GetReferenceBit (SetReferenceBitZero c) \<longleftrightarrow> False"
  "GetReferenceBit (SetTlbBitOne c) \<longleftrightarrow> GetReferenceBit c"
  "GetReferenceBit (SetTlbBitZero c) \<longleftrightarrow> GetReferenceBit c"
  "GetReferenceBit (SetIOBitOne c) \<longleftrightarrow> GetReferenceBit c"
  "GetReferenceBit (SetIOBitZero c) \<longleftrightarrow> GetReferenceBit c"
  "GetReferenceBit (SetSwapBitOne c) \<longleftrightarrow> GetReferenceBit c"
  "GetReferenceBit (SetSwapBitZero c) \<longleftrightarrow> GetReferenceBit c"
  "GetTlbBit (SetValidityBitOne c) \<longleftrightarrow> GetTlbBit c"
  "GetTlbBit (SetValidityBitZero c) \<longleftrightarrow> GetTlbBit c"
  "GetTlbBit (SetReferenceBitOne c) \<longleftrightarrow> GetTlbBit c"
  "GetTlbBit (SetReferenceBitZero c) \<longleftrightarrow> GetTlbBit c"
  "GetTlbBit (SetTlbBitOne c) \<longleftrightarrow> True"
  "GetTlbBit (SetTlbBitZero c) \<longleftrightarrow> False"
  "GetTlbBit (SetIOBitOne c) \<longleftrightarrow> GetTlbBit c"
  "GetTlbBit (SetIOBitZero c) \<longleftrightarrow> GetTlbBit c"
  "GetTlbBit (SetSwapBitOne c) \<longleftrightarrow> GetTlbBit c"
  "GetTlbBit (SetSwapBitZero c) \<longleftrightarrow> GetTlbBit c"
  "GetIOBit (SetValidityBitOne c) \<longleftrightarrow> GetIOBit c"
  "GetIOBit (SetValidityBitZero c) \<longleftrightarrow> GetIOBit c"
  "GetIOBit (SetReferenceBitOne c) \<longleftrightarrow> GetIOBit c"
  "GetIOBit (SetReferenceBitZero c) \<longleftrightarrow> GetIOBit c"
  "GetIOBit (SetTlbBitOne c) \<longleftrightarrow> GetIOBit c"
  "GetIOBit (SetTlbBitZero c) \<longleftrightarrow> GetIOBit c"
  "GetIOBit (SetIOBitOne c) \<longleftrightarrow> True"
  "GetIOBit (SetIOBitZero c) \<longleftrightarrow> False"
  "GetIOBit (SetSwapBitOne c) \<longleftrightarrow> GetIOBit c"
  "GetIOBit (SetSwapBitZero c) \<longleftrightarrow> GetIOBit c"
  "GetSwapBit (SetValidityBitOne c) \<longleftrightarrow> GetSwapBit c"
  "GetSwapBit (SetValidityBitZero c) \<longleftrightarrow> GetSwapBit c"
  "GetSwapBit (SetReferenceBitOne c) \<longleftrightarrow> GetSwapBit c"
  "GetSwapBit (SetReferenceBitZero c) \<longleftrightarrow> GetSwapBit c"
  "GetSwapBit (SetTlbBitOne c) \<longleftrightarrow> GetSwapBit c"
  "GetSwapBit (SetTlbBitZero c) \<longleftrightarrow> GetSwapBit c"
  "GetSwapBit (SetIOBitOne c) \<longleftrightarrow> GetSwapBit c"
  "GetSwapBit (SetIOBitZero c) \<longleftrightarrow> GetSwapBit c"
  "GetSwapBit (SetSwapBitOne c) \<longleftrightarrow> True"
  "GetSwapBit (SetSwapBitZero c) \<longleftrightarrow> False"
  by (simp_all add: get_bit_iff set_bits bit_simps)

lemma ctrl_zero [simp]:
  "\<not> GetValidityBit 0" "\<not> GetReferenceBit 0" "\<not> GetTlbBit 0" "\<not> GetIOBit 0" "\<not> GetSwapBit 0"
  by (simp_all add: get_bits)

section \<open>Data\<close>

record pt_entry =
  page :: vaddr
  pe_pid :: pid
  ctrl :: "8 word"

record pt_info =
  entries :: "pt_entry list"
  n_entry :: int
  first_free_paddr :: paddr
  contiguous :: "int list"

text \<open>\<open>firstpaddr\<close> and \<open>lastpaddr\<close> are the variables of \<^verbatim>\<open>kern/arch/mips/vm/ram.c\<close>.\<close>

record vm = ksys +
  page_table :: pt_info
  lastIndex :: int
  pt_active :: bool
  htable :: hash_table
  firstpaddr :: paddr
  lastpaddr :: paddr

definition KMALLOC_PAGE :: vaddr where
  "KMALLOC_PAGE = 1"

abbreviation ents :: "'a vm_scheme \<Rightarrow> pt_entry list" where
  "ents s \<equiv> entries (page_table s)"

abbreviation nent :: "'a vm_scheme \<Rightarrow> int" where
  "nent s \<equiv> n_entry (page_table s)"

definition get_entry :: "int \<Rightarrow> 'a vm_scheme \<Rightarrow> pt_entry kres" where
  "get_entry i s = (if 0 \<le> i \<and> i < int (length (ents s)) then Ok (ents s ! nat i) else Fail OutOfBounds)"

definition upd_entry :: "int \<Rightarrow> (pt_entry \<Rightarrow> pt_entry) \<Rightarrow> 'a vm_scheme \<Rightarrow> 'a vm_scheme" where
  "upd_entry i f s =
     s\<lparr>page_table := (page_table s)\<lparr>entries := (ents s)[nat i := f (ents s ! nat i)]\<rparr>\<rparr>"

text \<open>The address of the frame of entry \<open>i\<close>.\<close>

definition frame_addr :: "'a vm_scheme \<Rightarrow> int \<Rightarrow> paddr" where
  "frame_addr s i = word_of_int i * PAGE_SIZE + first_free_paddr (page_table s)"

section \<open>Physical memory of early boot\<close>

definition ram_bootstrap :: "32 word \<Rightarrow> vaddr \<Rightarrow> paddr \<times> paddr" where
  "ram_bootstrap ramsize firstfree =
     (let ramsize = (if ramsize > 512 * 1024 * 1024 then 512 * 1024 * 1024 else ramsize)
      in (firstfree - MIPS_KSEG0, ramsize))"

definition ram_stealmem :: "32 word \<Rightarrow> 'a vm_scheme \<Rightarrow> paddr \<times> 'a vm_scheme" where
  "ram_stealmem npages s =
     (let size = npages * PAGE_SIZE
      in if firstpaddr s + size > lastpaddr s then (0, s)
         else (firstpaddr s, s\<lparr>firstpaddr := firstpaddr s + size\<rparr>))"

definition ram_getsize :: "'a vm_scheme \<Rightarrow> paddr" where
  "ram_getsize s = lastpaddr s"

definition ram_getfirstfree :: "'a vm_scheme \<Rightarrow> paddr \<times> 'a vm_scheme" where
  "ram_getfirstfree s = (firstpaddr s, s\<lparr>firstpaddr := 0, lastpaddr := 0\<rparr>)"

section \<open>Initialisation\<close>

text \<open>
  \<open>pt_init\<close>: \<open>ramsize\<close> is the answer of \<open>mainbus_ramsize\<close>; the two \<open>kmalloc\<close> calls made while
  the table is not yet active take pages with \<open>ram_stealmem\<close>; \<open>pages1\<close> and \<open>pages2\<close> are
  how many, and \<open>junk\<close> is what the new array holds, of which only the control bytes are set.
\<close>

definition pt_init :: "32 word \<Rightarrow> 32 word \<Rightarrow> 32 word \<Rightarrow> (nat \<Rightarrow> pt_entry) \<Rightarrow> 'a vm_scheme \<Rightarrow> 'a vm_scheme kres" where
  "pt_init ramsize pages1 pages2 junk s =
     (let (first, s) = ram_stealmem 0 s;
          num_frames = unat ((ramsize - first) div PAGE_SIZE);
          (ents_mem, s) = ram_stealmem pages1 s
      in if ents_mem = 0 then Fail (Panic ''page table allocation'')
         else
           let (cont_mem, s) = ram_stealmem pages2 s
           in if cont_mem = 0 then Fail (Panic ''contiguous flags allocation'')
              else
                let (first, s) = ram_stealmem 0 s
                in Ok (s\<lparr>page_table :=
                          \<lparr>entries = map (\<lambda>i. (junk i)\<lparr>ctrl := 0\<rparr>) [0..<num_frames],
                           n_entry = sint ((ramsize - first) div PAGE_SIZE - 1),
                           first_free_paddr = first,
                           contiguous = replicate num_frames (- 1)\<rparr>,
                         pt_active := True\<rparr>))"

section \<open>Free frames and victims\<close>

text \<open>A frame that no page, no transfer, no fork in progress and no kernel allocation uses.\<close>

definition entry_free :: "pt_entry \<Rightarrow> bool" where
  "entry_free e \<longleftrightarrow>
     \<not> (GetValidityBit (ctrl e) \<or> GetIOBit (ctrl e) \<or> GetSwapBit (ctrl e)) \<and> page e \<noteq> KMALLOC_PAGE"

function findspace_from :: "int \<Rightarrow> 'a vm_scheme \<Rightarrow> int kres" where
  "findspace_from i s =
     (if i < nent s then
        kbind (get_entry i s) (\<lambda>e. if entry_free e then Ok i else findspace_from (i + 1) s)
      else Ok (- 1))"
  by pat_completeness auto
termination
  by (relation "measure (\<lambda>(i, s). nat (nent s - i))") auto

declare findspace_from.simps [simp del]

definition findspace :: "'a vm_scheme \<Rightarrow> int kres" where
  "findspace s = findspace_from 0 s"

definition evictable :: "pt_entry \<Rightarrow> bool" where
  "evictable e \<longleftrightarrow>
     \<not> GetTlbBit (ctrl e) \<and> \<not> GetIOBit (ctrl e) \<and> page e \<noteq> KMALLOC_PAGE \<and> \<not> GetSwapBit (ctrl e)"

text \<open>The frame of entry \<open>i\<close> changes hands: its page is written to the swap file.\<close>

definition evict :: "vaddr \<Rightarrow> pid \<Rightarrow> paddr \<Rightarrow> 'a vm_scheme \<Rightarrow> 'a vm_scheme kres" where
  "evict old_v old_pid p s =
     kbind (remove_from_hash (htable s) old_v old_pid) (\<lambda>ht.
     kbind (store_swap old_v old_pid p (s\<lparr>htable := ht\<rparr>)) (\<lambda>(r, s). Ok s))"

definition take_victim :: "vaddr \<Rightarrow> pid \<Rightarrow> int \<Rightarrow> pt_entry \<Rightarrow> 'a vm_scheme \<Rightarrow> (int \<times> 'a vm_scheme) kres" where
  "take_victim v pid i e s =
     kassert (\<not> GetIOBit (ctrl e)) (kassert (\<not> GetSwapBit (ctrl e))
     (kassert (\<not> GetTlbBit (ctrl e)) (kassert (page e \<noteq> KMALLOC_PAGE)
       (let s = upd_entry i (\<lambda>x. x\<lparr>pe_pid := pid, page := v,
                               ctrl := SetValidityBitOne (SetIOBitOne (ctrl x))\<rparr>) s
        in kbind (if GetValidityBit (ctrl e) then evict (page e) (pe_pid e) (frame_addr s i) s else Ok s) (\<lambda>s.
           kbind (add_in_hash (htable s) v pid i) (\<lambda>ht.
             Ok (i, s\<lparr>htable := ht, lastIndex := (i + 1) smod nent s\<rparr>)))))))"

partial_function (option) victim_loop ::
  "vaddr \<Rightarrow> pid \<Rightarrow> int \<Rightarrow> int \<Rightarrow> nat \<Rightarrow> 'a vm_scheme \<Rightarrow> (int \<times> 'a vm_scheme) kres option" where
  "victim_loop v pid start i n_iter s =
     (case get_entry i s of
        Fail x \<Rightarrow> Some (Fail x)
      | Ok e \<Rightarrow>
          if evictable e \<and> \<not> GetReferenceBit (ctrl e) then Some (take_victim v pid i e s)
          else
            let s = (if evictable e
                     then upd_entry i (\<lambda>x. x\<lparr>ctrl := SetReferenceBitZero (ctrl x)\<rparr>) s else s);
                next = (i + 1) smod nent s
            in if next = start
               then (if n_iter < 2 then victim_loop v pid start next (n_iter + 1) s
                     else Some (Fail Blocked))
               else victim_loop v pid start next n_iter s)"

definition find_victim :: "vaddr \<Rightarrow> pid \<Rightarrow> 'a vm_scheme \<Rightarrow> (int \<times> 'a vm_scheme) kres" where
  "find_victim v pid s = from_loop (victim_loop v pid (lastIndex s) (lastIndex s) 0 s)"

section \<open>Translating and loading pages\<close>

definition pt_get_paddr :: "vaddr \<Rightarrow> pid \<Rightarrow> 'a vm_scheme \<Rightarrow> (int \<times> 'a vm_scheme) kres" where
  "pt_get_paddr v pid s =
     kbind (get_index_from_hash (htable s) v pid) (\<lambda>i.
       if i = - 1 then Ok (- 1, s)
       else kbind (get_entry i s) (\<lambda>e.
         kassert (pe_pid e = pid) (kassert (page e = v) (kassert (page e \<noteq> KMALLOC_PAGE)
         (kassert (\<not> GetIOBit (ctrl e)) (kassert (\<not> GetTlbBit (ctrl e))
           (Ok (sint (frame_addr s i),
                upd_entry i (\<lambda>x. x\<lparr>ctrl := SetTlbBitOne (ctrl x)\<rparr>) s))))))))"

text \<open>The part of \<open>get_page\<close> that finds a frame: a free one, else a victim's.\<close>

definition claim_frame :: "vaddr \<Rightarrow> pid \<Rightarrow> 'a vm_scheme \<Rightarrow> (int \<times> 'a vm_scheme) kres" where
  "claim_frame v pid s =
     kbind (findspace s) (\<lambda>pos.
       if pos = - 1
       then kbind (find_victim v pid s) (\<lambda>(pos, s). kassert (pos < nent s) (Ok (pos, s)))
       else kassert (pos < nent s)
         (kbind (add_in_hash (htable s) v pid pos) (\<lambda>ht.
            Ok (pos, upd_entry pos (\<lambda>x. \<lparr>page = v, pe_pid = pid,
                  ctrl = SetIOBitOne (SetValidityBitOne (ctrl x))\<rparr>) (s\<lparr>htable := ht\<rparr>)))))"

definition get_page :: "vaddr \<Rightarrow> 'a vm_scheme \<Rightarrow> (paddr \<times> 'a vm_scheme) kres" where
  "get_page v s =
     (let pid = k_pid s
      in kbind (pt_get_paddr v pid s) (\<lambda>(res, s).
           if res \<noteq> - 1 then Ok (word_of_int res, s\<lparr>k_stats := add_tlb_reload (k_stats s)\<rparr>)
           else
             kbind (claim_frame v pid s) (\<lambda>(pos, s).
               let phisical = frame_addr s pos
               in kbind (get_entry pos s) (\<lambda>e.
                  kassert (page e \<noteq> KMALLOC_PAGE)
                    (kbind (load_page v pid phisical s) (\<lambda>(r, s).
                       Ok (phisical,
                           upd_entry pos (\<lambda>x. x\<lparr>ctrl := SetTlbBitOne (SetIOBitZero (ctrl x))\<rparr>) s)))))))"

section \<open>Releasing pages and the TLB bit\<close>

text \<open>A valid entry of process \<open>pid\<close> that holds one of its pages.\<close>

definition owned_by :: "pid \<Rightarrow> pt_entry \<Rightarrow> bool" where
  "owned_by pid e \<longleftrightarrow> pe_pid e = pid \<and> GetValidityBit (ctrl e) \<and> page e \<noteq> KMALLOC_PAGE"

definition free_entry :: "pid \<Rightarrow> int \<Rightarrow> 'a vm_scheme \<Rightarrow> 'a vm_scheme kres" where
  "free_entry pid i s =
     kbind (get_entry i s) (\<lambda>e.
       if owned_by pid e
       then kassert (\<not> GetIOBit (ctrl e)) (kassert (page e \<noteq> KMALLOC_PAGE) (kassert (\<not> GetSwapBit (ctrl e))
              (kbind (remove_from_hash (htable s) (page e) pid) (\<lambda>ht.
                 Ok (upd_entry i (\<lambda>x. \<lparr>page = 0, pe_pid = 0, ctrl = 0\<rparr>) (s\<lparr>htable := ht\<rparr>))))))
       else Ok s)"

definition free_pages :: "pid \<Rightarrow> 'a vm_scheme \<Rightarrow> 'a vm_scheme kres" where
  "free_pages pid s = kfold (free_entry pid) [0..nent s - 1] s"

function update_tlb_from :: "int \<Rightarrow> vaddr \<Rightarrow> pid \<Rightarrow> 'a vm_scheme \<Rightarrow> (int \<times> 'a vm_scheme) kres" where
  "update_tlb_from i v p s =
     (if i < nent s then
        kbind (get_entry i s) (\<lambda>e.
          if pe_pid e = p \<and> page e = v \<and> GetValidityBit (ctrl e)
          then kassert (page e \<noteq> KMALLOC_PAGE) (kassert (GetTlbBit (ctrl e))
                 (Ok (1, upd_entry i (\<lambda>x. x\<lparr>ctrl := SetReferenceBitOne (SetTlbBitZero (ctrl x))\<rparr>) s)))
          else update_tlb_from (i + 1) v p s)
      else Ok (- 1, s))"
  by pat_completeness auto
termination
  by (relation "measure (\<lambda>(i, v, p, s). nat (nent s - i))") auto

declare update_tlb_from.simps [simp del]

definition update_tlb_bit :: "vaddr \<Rightarrow> pid \<Rightarrow> 'a vm_scheme \<Rightarrow> (int \<times> 'a vm_scheme) kres" where
  "update_tlb_bit v p s = update_tlb_from 0 v p s"

section \<open>Contiguous frames for the kernel\<close>

definition valid_entry :: "8 word \<Rightarrow> vaddr \<Rightarrow> bool" where
  "valid_entry c v =
     (if GetTlbBit c then True
      else if GetValidityBit c \<and> GetReferenceBit c then True
      else if v = KMALLOC_PAGE then True
      else if GetIOBit c \<or> GetSwapBit c then True
      else False)"

definition run_free :: "pt_entry \<Rightarrow> bool" where
  "run_free e \<longleftrightarrow>
     \<not> GetValidityBit (ctrl e) \<and> \<not> GetTlbBit (ctrl e) \<and> \<not> GetIOBit (ctrl e) \<and> \<not> GetSwapBit (ctrl e) \<and>
     page e \<noteq> KMALLOC_PAGE"

definition prev_in_use :: "int \<Rightarrow> 'a vm_scheme \<Rightarrow> bool kres" where
  "prev_in_use i s =
     (if i = 0 then Ok True
      else kbind (get_entry (i - 1) s) (\<lambda>q. Ok (valid_entry (ctrl q) (page q))))"

text \<open>
  The first loop of \<open>get_contiguous_pages\<close>: the value of \<open>first_pos\<close> at its end and, if a
  run was found, its last index.
\<close>

function scan_free :: "int \<Rightarrow> int \<Rightarrow> int \<Rightarrow> 'a vm_scheme \<Rightarrow> (int \<times> int option) kres" where
  "scan_free n i fp s =
     (if i < nent s then
        kbind (get_entry i s) (\<lambda>e.
        kbind (prev_in_use i s) (\<lambda>prec.
          let fp = (if run_free e \<and> prec then i else fp)
          in if 0 \<le> fp \<and> run_free e \<and> i - fp = n - 1 then Ok (fp, Some i)
             else scan_free n (i + 1) fp s))
      else Ok (fp, None))"
  by pat_completeness auto
termination
  by (relation "measure (\<lambda>(n, i, fp, s). nat (nent s - i))") auto

declare scan_free.simps [simp del]

text \<open>The loop that claims the run: it tests entry \<open>j\<close> and writes entry \<open>i\<close>.\<close>

definition claim_entry :: "int \<Rightarrow> int \<Rightarrow> 'a vm_scheme \<Rightarrow> 'a vm_scheme kres" where
  "claim_entry i j s =
     kbind (get_entry j s) (\<lambda>e.
       kassert (page e \<noteq> KMALLOC_PAGE) (kassert (\<not> GetValidityBit (ctrl e)) (kassert (\<not> GetTlbBit (ctrl e))
       (kassert (\<not> GetIOBit (ctrl e)) (kassert (\<not> GetSwapBit (ctrl e))
         (Ok (upd_entry i (\<lambda>x. \<lparr>page = KMALLOC_PAGE, pe_pid = k_pid s,
                               ctrl = SetValidityBitOne (ctrl e)\<rparr>) s)))))))"

definition set_contiguous :: "int \<Rightarrow> int \<Rightarrow> 'a vm_scheme \<Rightarrow> 'a vm_scheme kres" where
  "set_contiguous i n s =
     (if 0 \<le> i \<and> i < int (length (contiguous (page_table s)))
      then Ok (s\<lparr>page_table := (page_table s)\<lparr>contiguous := (contiguous (page_table s))[nat i := n]\<rparr>\<rparr>)
      else Fail OutOfBounds)"

text \<open>The \<open>for\<close> loop of the replacement part.\<close>

lemma nent_upd_entry [simp]: "nent (upd_entry i f s) = nent s"
  by (simp add: upd_entry_def)

function scan_victims :: "int \<Rightarrow> int \<Rightarrow> int \<Rightarrow> 'a vm_scheme \<Rightarrow> ((int \<times> int) option \<times> 'a vm_scheme) kres" where
  "scan_victims n i fp s =
     (if i < nent s then
        kbind (get_entry i s) (\<lambda>e.
          if evictable e
          then if GetReferenceBit (ctrl e) \<and> GetValidityBit (ctrl e)
               then scan_victims n (i + 1) fp (upd_entry i (\<lambda>x. x\<lparr>ctrl := SetReferenceBitZero (ctrl x)\<rparr>) s)
               else kbind (prev_in_use i s) (\<lambda>prec.
                 let fp = (if prec then i else fp)
                 in if 0 \<le> fp \<and> i - fp = n - 1 then Ok (Some (fp, i), s)
                    else scan_victims n (i + 1) fp s)
          else scan_victims n (i + 1) fp s)
      else Ok (None, s))"
  by pat_completeness auto
termination
  by (relation "measure (\<lambda>(n, i, fp, s). nat (nent s - i))") auto

declare scan_victims.simps [simp del]

definition seize_entry :: "int \<Rightarrow> 'a vm_scheme \<Rightarrow> 'a vm_scheme kres" where
  "seize_entry j s =
     kbind (get_entry j s) (\<lambda>e.
       kassert (page e \<noteq> KMALLOC_PAGE)
       (kassert (\<not> GetValidityBit (ctrl e) \<or> \<not> GetReferenceBit (ctrl e))
       (kassert (\<not> GetTlbBit (ctrl e)) (kassert (\<not> GetIOBit (ctrl e)) (kassert (\<not> GetSwapBit (ctrl e))
         (let s = upd_entry j (\<lambda>x. x\<lparr>pe_pid := k_pid s, page := KMALLOC_PAGE,
                                 ctrl := SetValidityBitOne (ctrl x)\<rparr>) s
          in if GetValidityBit (ctrl e)
             then let s = upd_entry j (\<lambda>x. x\<lparr>ctrl := SetIOBitOne (ctrl x)\<rparr>) s
                  in kbind (evict (page e) (pe_pid e) (frame_addr s j) s) (\<lambda>s.
                       Ok (upd_entry j (\<lambda>x. x\<lparr>ctrl := SetIOBitZero (ctrl x)\<rparr>) s))
             else Ok s))))))"

function contig_rounds :: "nat \<Rightarrow> int \<Rightarrow> int \<Rightarrow> 'a vm_scheme \<Rightarrow> (paddr \<times> 'a vm_scheme) kres" where
  "contig_rounds first_it n fp s =
     kbind (scan_victims n (lastIndex s) fp s) (\<lambda>(found, s).
       case found of
         Some (fp, i) \<Rightarrow>
           kbind (kfold seize_entry [fp..i] s) (\<lambda>s.
           kbind (set_contiguous fp n s) (\<lambda>s.
             Ok (frame_addr s fp, s\<lparr>lastIndex := (i + 1) smod nent s\<rparr>)))
       | None \<Rightarrow>
           if first_it < 2 then contig_rounds (first_it + 1) n (- 1) (s\<lparr>lastIndex := 0\<rparr>)
           else Fail Blocked)"
  by pat_completeness auto
termination
  by (relation "measure (\<lambda>(first_it, n, fp, s). 2 - first_it)") auto

declare contig_rounds.simps [simp del]

definition get_contiguous_pages :: "int \<Rightarrow> 'a vm_scheme \<Rightarrow> (paddr \<times> 'a vm_scheme) kres" where
  "get_contiguous_pages n_pages s =
     (if n_pages > nent s then Fail (Panic ''not enough pages in the page table'')
      else kbind (scan_free n_pages 0 (- 1) s) (\<lambda>(fp, last).
        case last of
          Some i \<Rightarrow>
            kbind (kfold (claim_entry i) [fp..i] s) (\<lambda>s.
            kbind (set_contiguous fp n_pages s) (\<lambda>s. Ok (frame_addr s fp, s)))
        | None \<Rightarrow> contig_rounds 0 n_pages fp s))"

definition release_entry :: "int \<Rightarrow> 'a vm_scheme \<Rightarrow> 'a vm_scheme kres" where
  "release_entry i s =
     kbind (get_entry i s) (\<lambda>e.
       kassert (page e = KMALLOC_PAGE)
         (Ok (upd_entry i (\<lambda>x. x\<lparr>ctrl := SetValidityBitZero (ctrl x), page := 0\<rparr>) s)))"

definition free_contiguous_pages :: "vaddr \<Rightarrow> 'a vm_scheme \<Rightarrow> 'a vm_scheme kres" where
  "free_contiguous_pages addr s =
     (let p = KVADDR_TO_PADDR addr;
          index = sint ((p - first_free_paddr (page_table s)) div PAGE_SIZE)
      in if \<not> (0 \<le> index \<and> index < int (length (contiguous (page_table s)))) then Fail OutOfBounds
         else
           let niter = contiguous (page_table s) ! nat index
           in kbind (kfold release_entry [index..index + niter - 1] s) (\<lambda>s. set_contiguous index (- 1) s))"

section \<open>Fork\<close>

definition copy_entry :: "pid \<Rightarrow> pid \<Rightarrow> int \<Rightarrow> 'a vm_scheme \<Rightarrow> 'a vm_scheme kres" where
  "copy_entry old new i s =
     kbind (get_entry i s) (\<lambda>e.
       if owned_by old e
       then kbind (findspace s) (\<lambda>pos.
         if pos = - 1
         then kassert (\<not> GetIOBit (ctrl e)) (kassert (GetSwapBit (ctrl e)) (kassert (page e \<noteq> KMALLOC_PAGE)
                (kbind (store_swap (page e) new (frame_addr s i) s) (\<lambda>(r, s). Ok s))))
         else
           let s = upd_entry pos (\<lambda>x. \<lparr>page = page e, pe_pid = new, ctrl = SetValidityBitOne (ctrl x)\<rparr>) s
           in kbind (get_entry i s) (\<lambda>e'.
              kbind (add_in_hash (htable s) (page e') new pos) (\<lambda>ht.
                let s = s\<lparr>htable := ht,
                          k_mem := memmove (PADDR_TO_KVADDR (frame_addr s pos))
                                     (PADDR_TO_KVADDR (frame_addr s i)) 4096 (k_mem s)\<rparr>
                in kbind (get_entry pos s) (\<lambda>q.
                   kassert (\<not> GetIOBit (ctrl q)) (kassert (\<not> GetSwapBit (ctrl q))
                   (kassert (\<not> GetTlbBit (ctrl q)) (kassert (page q \<noteq> KMALLOC_PAGE) (Ok s))))))))
       else Ok s)"

definition copy_pt_entries :: "pid \<Rightarrow> pid \<Rightarrow> 'a vm_scheme \<Rightarrow> 'a vm_scheme kres" where
  "copy_pt_entries old new s = kfold (copy_entry old new) [0..nent s - 1] s"

definition end_copy_entry :: "pid \<Rightarrow> int \<Rightarrow> 'a vm_scheme \<Rightarrow> 'a vm_scheme kres" where
  "end_copy_entry pid i s =
     kbind (get_entry i s) (\<lambda>e.
       if owned_by pid e
       then kassert (GetSwapBit (ctrl e)) (Ok (upd_entry i (\<lambda>x. x\<lparr>ctrl := SetSwapBitZero (ctrl x)\<rparr>) s))
       else Ok s)"

definition end_copy_pt :: "pid \<Rightarrow> 'a vm_scheme \<Rightarrow> 'a vm_scheme kres" where
  "end_copy_pt pid s = kfold (end_copy_entry pid) [0..nent s - 1] s"

definition prepare_copy_entry :: "pid \<Rightarrow> int \<Rightarrow> 'a vm_scheme \<Rightarrow> 'a vm_scheme kres" where
  "prepare_copy_entry pid i s =
     kbind (get_entry i s) (\<lambda>e.
       if owned_by pid e
       then kassert (\<not> GetIOBit (ctrl e)) (Ok (upd_entry i (\<lambda>x. x\<lparr>ctrl := SetSwapBitOne (ctrl x)\<rparr>) s))
       else Ok s)"

definition prepare_copy_pt :: "pid \<Rightarrow> 'a vm_scheme \<Rightarrow> 'a vm_scheme kres" where
  "prepare_copy_pt pid s = kfold (prepare_copy_entry pid) [0..nent s - 1] s"

end
