(* ===== verification/Page_Clock.thy ===== *)
theory Page_Clock
  imports Page_Table
begin

text \<open>
  The choice of a frame: \<open>findspace\<close> finds the first free frame if there is one, and the loop
  of \<open>find_victim\<close> is the second-chance algorithm. It always ends: with the first unreferenced
  evictable frame in clock order, else with the first evictable frame, else (every frame
  pinned) by waiting.
\<close>

section \<open>Entries\<close>

lemma get_entry_nat [simp]: "p < length (ents s) \<Longrightarrow> get_entry (int p) s = Ok (ents s ! p)"
  by (simp add: get_entry_def)

lemma ents_upd_entry [simp]: "ents (upd_entry i f s) = (ents s)[nat i := f (ents s ! nat i)]"
  by (simp add: upd_entry_def)

lemma upd_entry_fields [simp]:
  "htable (upd_entry i f s) = htable s" "lastIndex (upd_entry i f s) = lastIndex s"
  "k_mem (upd_entry i f s) = k_mem s" "k_stats (upd_entry i f s) = k_stats s"
  "k_swap (upd_entry i f s) = k_swap s" "k_pid (upd_entry i f s) = k_pid s"
  "k_as (upd_entry i f s) = k_as s" "k_vnodes (upd_entry i f s) = k_vnodes s"
  "k_uc (upd_entry i f s) = k_uc s"
  "first_free_paddr (page_table (upd_entry i f s)) = first_free_paddr (page_table s)"
  "contiguous (page_table (upd_entry i f s)) = contiguous (page_table s)"
  "frame_addr (upd_entry i f s) = frame_addr s"
  by (simp_all add: upd_entry_def frame_addr_def fun_eq_iff)

text \<open>\<open>npt s\<close>: the number of entries in use, as a natural number.\<close>

definition npt :: "'a vm_scheme \<Rightarrow> nat" where
  "npt s = nat (nent s)"

definition pt_shape :: "'a vm_scheme \<Rightarrow> bool" where
  "pt_shape s \<longleftrightarrow> 0 < nent s \<and> npt s \<le> length (ents s) \<and> 0 \<le> lastIndex s \<and> lastIndex s < nent s"

lemma pt_shapeD:
  assumes "pt_shape s"
  shows "0 < npt s" "nent s = int (npt s)" "npt s \<le> length (ents s)" "nat (lastIndex s) < npt s"
    "lastIndex s = int (nat (lastIndex s))"
  using assms by (auto simp: pt_shape_def npt_def)

section \<open>Free frames\<close>

lemma findspace_from_spec:
  assumes "npt s \<le> length (ents s)" "i \<le> npt s"
  shows "findspace_from (int i) s =
    (case find (\<lambda>p. entry_free (ents s ! p)) [i..<npt s] of None \<Rightarrow> Ok (- 1) | Some p \<Rightarrow> Ok (int p))"
  using assms(2)
proof (induction "npt s - i" arbitrary: i)
  case 0
  then show ?case by (subst findspace_from.simps) (simp add: npt_def)
next
  case (Suc k)
  then have lt: "i < npt s" by simp
  then have u: "[i..<npt s] = i # [Suc i..<npt s]" by (rule upt_conv_Cons)
  have IH: "findspace_from (int (Suc i)) s =
      (case find (\<lambda>p. entry_free (ents s ! p)) [Suc i..<npt s] of None \<Rightarrow> Ok (- 1) | Some p \<Rightarrow> Ok (int p))"
    using Suc by (intro Suc.hyps) auto
  have c: "int i < nent s" using lt by (simp add: npt_def)
  have "findspace_from (int i) s =
      kbind (get_entry (int i) s) (\<lambda>e. if entry_free e then Ok (int i) else findspace_from (int i + 1) s)"
    using c by (subst findspace_from.simps) simp
  also have "\<dots> = (if entry_free (ents s ! i) then Ok (int i) else findspace_from (int (Suc i)) s)"
    using lt assms(1) by (simp add: add.commute)
  finally show ?case using IH by (simp add: u)
qed

lemma findspace_spec:
  assumes "pt_shape s"
  shows "findspace s =
    (case find (\<lambda>p. entry_free (ents s ! p)) [0..<npt s] of None \<Rightarrow> Ok (- 1) | Some p \<Rightarrow> Ok (int p))"
  using findspace_from_spec [of s 0] pt_shapeD(3) [OF assms] by (simp add: findspace_def)

section \<open>The clock\<close>

definition clr :: "pt_entry \<Rightarrow> pt_entry" where
  "clr e = (if evictable e then e\<lparr>ctrl := SetReferenceBitZero (ctrl e)\<rparr> else e)"

definition ripe :: "pt_entry \<Rightarrow> bool" where
  "ripe e \<longleftrightarrow> evictable e \<and> \<not> GetReferenceBit (ctrl e)"

lemma evictable_clr [simp]: "evictable (clr e) = evictable e"
  by (simp add: clr_def evictable_def)

lemma ripe_clr [simp]: "ripe (clr e) = evictable e"
  by (simp add: ripe_def) (auto simp: clr_def)

text \<open>The state after the hand passed over the entries in \<open>A\<close>.\<close>

definition clr_set :: "nat set \<Rightarrow> 'a vm_scheme \<Rightarrow> 'a vm_scheme" where
  "clr_set A s = s\<lparr>page_table := (page_table s)\<lparr>entries :=
     map (\<lambda>p. if p \<in> A then clr (ents s ! p) else ents s ! p) [0..<length (ents s)]\<rparr>\<rparr>"

lemma clr_set_fields [simp]:
  "nent (clr_set A s) = nent s" "npt (clr_set A s) = npt s" "length (ents (clr_set A s)) = length (ents s)"
  "htable (clr_set A s) = htable s" "lastIndex (clr_set A s) = lastIndex s"
  "k_mem (clr_set A s) = k_mem s" "k_stats (clr_set A s) = k_stats s" "k_swap (clr_set A s) = k_swap s"
  "k_pid (clr_set A s) = k_pid s" "k_as (clr_set A s) = k_as s" "k_vnodes (clr_set A s) = k_vnodes s"
  "frame_addr (clr_set A s) = frame_addr s"
  by (simp_all add: clr_set_def npt_def frame_addr_def fun_eq_iff)

lemma ents_clr_set [simp]:
  "p < length (ents s) \<Longrightarrow> ents (clr_set A s) ! p = (if p \<in> A then clr (ents s ! p) else ents s ! p)"
  by (simp add: clr_set_def)

lemma clr_set_empty: "clr_set {} s = s"
  by (simp add: clr_set_def map_nth)

lemma clr_set_insert:
  assumes "p < length (ents s)" "p \<notin> A"
  shows "clr_set (insert p A) s =
    (if evictable (ents s ! p)
     then upd_entry (int p) (\<lambda>x. x\<lparr>ctrl := SetReferenceBitZero (ctrl x)\<rparr>) (clr_set A s) else clr_set A s)"
proof -
  have "map (\<lambda>q. if q \<in> insert p A then clr (ents s ! q) else ents s ! q) [0..<length (ents s)] =
      (map (\<lambda>q. if q \<in> A then clr (ents s ! q) else ents s ! q) [0..<length (ents s)])[p := clr (ents s ! p)]"
    using assms by (intro nth_equalityI) (auto simp: nth_list_update)
  moreover have "clr (ents s ! p) = ents s ! p" if "\<not> evictable (ents s ! p)"
    using that by (simp add: clr_def)
  moreover have "(map (\<lambda>q. if q \<in> A then clr (ents s ! q) else ents s ! q) [0..<length (ents s)]) ! p = ents s ! p"
    using assms by simp
  moreover have "(map (\<lambda>q. if q \<in> A then clr (ents s ! q) else ents s ! q) [0..<length (ents s)])[p := ents s ! p] =
      map (\<lambda>q. if q \<in> A then clr (ents s ! q) else ents s ! q) [0..<length (ents s)]"
    using assms by (simp add: list_update_same_conv)
  ultimately show ?thesis
    by (auto simp: clr_set_def upd_entry_def clr_def)
qed

text \<open>Position \<open>j\<close> of the clock that starts at entry \<open>k\<close>.\<close>

definition hand :: "'a vm_scheme \<Rightarrow> nat \<Rightarrow> nat \<Rightarrow> nat" where
  "hand s k j = (k + j) mod npt s"

lemma hand_eq: "k < npt s \<Longrightarrow> j < npt s \<Longrightarrow> hand s k j = (if k + j < npt s then k + j else k + j - npt s)"
  by (simp add: hand_def mod_if)

lemma hand_inj: "k < npt s \<Longrightarrow> j < npt s \<Longrightarrow> l < npt s \<Longrightarrow> hand s k j = hand s k l \<Longrightarrow> j = l"
  by (simp add: hand_eq split: if_splits)

lemma hand_notin:
  assumes "k < npt s" "j < npt s"
  shows "hand s k j \<notin> hand s k ` {..<j}"
proof
  assume "hand s k j \<in> hand s k ` {..<j}"
  then obtain x where x: "x < j" "hand s k j = hand s k x" by auto
  then show False using hand_inj [OF assms, of x] assms by simp
qed

lemma hand_less: "0 < npt s \<Longrightarrow> hand s k j < npt s"
  by (simp add: hand_def)

lemma hand_0 [simp]: "k < npt s \<Longrightarrow> hand s k 0 = k"
  by (simp add: hand_def)

lemma hand_next:
  assumes "nent s = int (npt s)" "0 < npt s"
  shows "(int (hand s k j) + 1) smod nent s = int (hand s k (Suc j))"
proof -
  have "(int (hand s k j) + 1) smod nent s = int (Suc (hand s k j) mod npt s)"
    using assms by (simp add: smod_nonneg zmod_int add.commute)
  also have "Suc (hand s k j) mod npt s = hand s k (Suc j)"
    by (simp add: hand_def mod_Suc_eq)
  finally show ?thesis .
qed

text \<open>The hand passes over entries that are not ripe, clearing reference bits.\<close>

lemma clock_pass:
  assumes sh: "pt_shape s" and k: "k < npt s"
    and skip: "\<And>a. a < j \<Longrightarrow> \<not> ripe (ents s ! hand s k a)" and j: "j < npt s"
  shows "victim_loop v pid (int k) (int k) it s =
    victim_loop v pid (int k) (int (hand s k j)) it (clr_set (hand s k ` {..<j}) s)"
  using skip j
proof (induction j)
  case 0
  then show ?case using k by (simp add: clr_set_empty)
next
  case (Suc j)
  let ?A = "hand s k ` {..<j}" and ?p = "hand s k j"
  note D = pt_shapeD [OF sh]
  have p: "?p < npt s" using D(1) by (rule hand_less)
  then have pl: "?p < length (ents s)" using D(3) by simp
  have pA: "?p \<notin> ?A" using hand_notin [OF k, of j] Suc.prems(2) by simp
  have IH: "victim_loop v pid (int k) (int k) it s = victim_loop v pid (int k) (int ?p) it (clr_set ?A s)"
    using Suc by simp
  have nr: "\<not> ripe (ents s ! ?p)" using Suc.prems(1) by simp
  have ne: "hand s k (Suc j) \<noteq> k" using hand_inj [OF k, of "Suc j" 0] Suc.prems(2) k by auto
  have ins: "hand s k ` {..<Suc j} = insert ?p ?A" by (auto simp: lessThan_Suc)
  have nx: "(int ?p + 1) smod nent s = int (hand s k (Suc j))" by (rule hand_next [OF D(2,1)])
  show ?case
    unfolding IH
    by (subst victim_loop.simps)
       (use nr pl pA ne nx in \<open>auto simp: ripe_def ins clr_set_insert Let_def\<close>)
qed

text \<open>It stops at the first ripe entry.\<close>

lemma clock_stop:
  assumes "pt_shape s" "k < npt s" "j < npt s" "ripe (ents s ! hand s k j)"
    and "\<And>a. a < j \<Longrightarrow> \<not> ripe (ents s ! hand s k a)"
  shows "victim_loop v pid (int k) (int k) it s =
    Some (take_victim v pid (int (hand s k j)) (ents s ! hand s k j) (clr_set (hand s k ` {..<j}) s))"
proof -
  note D = pt_shapeD [OF assms(1)]
  have pl: "hand s k j < length (ents s)" using hand_less [OF D(1), of k j] D(3) by simp
  have "hand s k j \<notin> hand s k ` {..<j}" by (rule hand_notin [OF assms(2,3)])
  then have "victim_loop v pid (int k) (int (hand s k j)) it (clr_set (hand s k ` {..<j}) s) =
      Some (take_victim v pid (int (hand s k j)) (ents s ! hand s k j) (clr_set (hand s k ` {..<j}) s))"
    by (subst victim_loop.simps) (use pl assms(4) in \<open>auto simp: ripe_def\<close>)
  then show ?thesis using clock_pass [OF assms(1,2,5,3)] by simp
qed

lemma hand_surj:
  assumes "k < npt s" "p < npt s"
  shows "\<exists>j < npt s. hand s k j = p"
proof (cases "k \<le> p")
  case True
  then show ?thesis using assms by (intro exI [of _ "p - k"]) (simp add: hand_eq)
next
  case False
  then show ?thesis using assms by (intro exI [of _ "p + npt s - k"]) (simp add: hand_eq)
qed

lemma hand_all: "k < npt s \<Longrightarrow> hand s k ` {..<npt s} = {..<npt s}"
  using hand_surj [of k s] hand_less [of s k] by (auto simp: image_iff)

text \<open>A whole round without a ripe entry.\<close>

lemma clock_round:
  assumes sh: "pt_shape s" and k: "k < npt s" and none: "\<And>p. p < npt s \<Longrightarrow> \<not> ripe (ents s ! p)"
  shows "victim_loop v pid (int k) (int k) it s =
    (if it < 2 then victim_loop v pid (int k) (int k) (it + 1) (clr_set {..<npt s} s) else Some (Fail Blocked))"
proof -
  note D = pt_shapeD [OF sh]
  let ?j = "npt s - 1"
  let ?A = "hand s k ` {..<?j}" and ?p = "hand s k ?j"
  have j: "?j < npt s" "Suc ?j = npt s" using D(1) by auto
  have pl: "?p < length (ents s)" using hand_less [OF D(1), of k ?j] D(3) by simp
  have pA: "?p \<notin> ?A" by (rule hand_notin [OF k j(1)])
  have nr: "\<not> ripe (ents s ! ?p)" using none hand_less [OF D(1)] by blast
  have "insert ?p ?A = hand s k ` {..<npt s}" using j(2) by (metis image_insert lessThan_Suc)
  then have ins: "insert ?p ?A = {..<npt s}" using hand_all [OF k] by simp
  have "hand s k (npt s) = k" using k by (simp add: hand_def)
  then have nx: "(int ?p + 1) smod nent s = int k" using hand_next [OF D(2,1), of k ?j] j(2) by simp
  have P: "victim_loop v pid (int k) (int k) it s = victim_loop v pid (int k) (int ?p) it (clr_set ?A s)"
    using none hand_less [OF D(1)] by (intro clock_pass [OF sh k _ j(1)]) blast
  show ?thesis
    unfolding P
    by (subst victim_loop.simps)
       (use nr pl pA nx clr_set_insert [OF pl pA] ins in \<open>auto simp: ripe_def Let_def\<close>)
qed

section \<open>The choice\<close>

text \<open>
  The entry the second-chance algorithm chooses, and the reference bits it clears on the way:
  the first ripe entry in clock order; if there is none, the first evictable one, all reference
  bits having been cleared; none if every frame is pinned.
\<close>

definition clock_choice :: "'a vm_scheme \<Rightarrow> (nat \<times> nat set) option" where
  "clock_choice s =
     (let k = nat (lastIndex s)
      in case find (\<lambda>j. ripe (ents s ! hand s k j)) [0..<npt s] of
           Some j \<Rightarrow> Some (hand s k j, hand s k ` {..<j})
         | None \<Rightarrow>
             (case find (\<lambda>j. evictable (ents s ! hand s k j)) [0..<npt s] of
                Some j \<Rightarrow> Some (hand s k j, {..<npt s})
              | None \<Rightarrow> None))"

lemma find_upt_Some:
  "find P [0..<n] = Some j \<longleftrightarrow> j < n \<and> P j \<and> (\<forall>a < j. \<not> P a)"
  by (auto simp: find_Some_iff)

lemma find_upt_None: "find P [0..<n] = None \<longleftrightarrow> (\<forall>j < n. \<not> P j)"
  by (auto simp: find_None_iff)

lemma clr_set_twice:
  assumes "B \<subseteq> A"
  shows "clr_set B (clr_set A s) = clr_set A s"
proof -
  have "clr (clr e) = clr e" for e
    by (simp add: clr_def evictable_def set_bits and.assoc)
  then have "ents (clr_set B (clr_set A s)) = ents (clr_set A s)"
    using assms by (intro nth_equalityI) auto
  moreover have "clr_set B t = t\<lparr>page_table := (page_table t)\<lparr>entries := entries (page_table (clr_set B t))\<rparr>\<rparr>" for t
    by (simp add: clr_set_def)
  ultimately show ?thesis by (metis pt_info.surjective pt_info.update_convs(1) vm.surjective vm.update_convs(1))
qed

lemma pt_shape_clr_set [simp]: "pt_shape (clr_set A s) = pt_shape s"
  by (simp add: pt_shape_def)

lemma hand_clr_set [simp]: "hand (clr_set A s) = hand s"
  by (simp add: hand_def fun_eq_iff)

lemma find_victim_choice:
  assumes sh: "pt_shape s"
  shows "find_victim v pid s =
    (case clock_choice s of
       None \<Rightarrow> Fail Blocked
     | Some (p, A) \<Rightarrow> take_victim v pid (int p) (ents (clr_set A s) ! p) (clr_set A s))"
proof -
  note D = pt_shapeD [OF sh]
  let ?k = "nat (lastIndex s)" and ?s1 = "clr_set {..<npt s} s"
  have fv: "find_victim v pid s = from_loop (victim_loop v pid (int ?k) (int ?k) 0 s)"
    using D(5) by (simp add: find_victim_def)
  have sh1: "pt_shape ?s1" and k1: "?k < npt ?s1" using sh D(4) by simp_all
  have e1: "ents ?s1 ! p = clr (ents s ! p)" if "p < npt s" for p using that D(3) by simp
  have all: "\<exists>j < npt s. p = hand s ?k j" if "p < npt s" for p using hand_surj [OF D(4) that] by metis
  show ?thesis
  proof (cases "find (\<lambda>j. ripe (ents s ! hand s ?k j)) [0..<npt s]")
    case (Some j)
    then have j: "j < npt s" "ripe (ents s ! hand s ?k j)" "\<And>a. a < j \<Longrightarrow> \<not> ripe (ents s ! hand s ?k a)"
      by (auto simp: find_upt_Some)
    have "hand s ?k j < length (ents s)" using hand_less [OF D(1), of ?k j] D(3) by simp
    then show ?thesis
      using Some clock_stop [OF sh D(4) j, of v pid 0] hand_notin [OF D(4) j(1)] fv
      by (simp add: clock_choice_def Let_def)
  next
    case None
    then have none: "\<not> ripe (ents s ! p)" if "p < npt s" for p using all [OF that] by (auto simp: find_upt_None)
    have R1: "victim_loop v pid (int ?k) (int ?k) 0 s = victim_loop v pid (int ?k) (int ?k) 1 ?s1"
      using clock_round [OF sh D(4) none, of v pid 0] by simp
    show ?thesis
    proof (cases "find (\<lambda>j. evictable (ents s ! hand s ?k j)) [0..<npt s]")
      case (Some j)
      then have j: "j < npt s" "evictable (ents s ! hand s ?k j)" "\<And>a. a < j \<Longrightarrow> \<not> evictable (ents s ! hand s ?k a)"
        by (auto simp: find_upt_Some)
      have "victim_loop v pid (int ?k) (int ?k) 1 ?s1 =
          Some (take_victim v pid (int (hand s ?k j)) (ents ?s1 ! hand s ?k j) (clr_set (hand s ?k ` {..<j}) ?s1))"
        using clock_stop [OF sh1 k1, of j v pid 1] j hand_less [OF D(1)] e1 by simp
      moreover have "clr_set (hand s ?k ` {..<j}) ?s1 = ?s1"
        using hand_less [OF D(1)] by (intro clr_set_twice) auto
      ultimately show ?thesis using None Some R1 fv by (simp add: clock_choice_def Let_def)
    next
      case none2: None
      then have ne: "\<not> evictable (ents s ! p)" if "p < npt s" for p using all [OF that] by (auto simp: find_upt_None)
      have n1: "\<not> ripe (ents ?s1 ! p)" if "p < npt ?s1" for p using that ne e1 by simp
      have id: "clr_set {..<npt s} ?s1 = ?s1" by (intro clr_set_twice) simp
      have "victim_loop v pid (int ?k) (int ?k) 1 ?s1 = Some (Fail Blocked)"
        using clock_round [OF sh1 k1 n1, of v pid 1] clock_round [OF sh1 k1 n1, of v pid 2] id
        by (simp add: numeral_2_eq_2)
      then show ?thesis using None none2 R1 fv by (simp add: clock_choice_def Let_def)
    qed
  qed
qed

lemma clock_choice_evictable:
  assumes "pt_shape s" "clock_choice s = Some (p, A)"
  shows "p < npt s" "A \<subseteq> {..<npt s}" "evictable (ents s ! p)" "ripe (ents (clr_set A s) ! p)"
proof -
  note D = pt_shapeD [OF assms(1)]
  let ?k = "nat (lastIndex s)"
  have "p < npt s \<and> A \<subseteq> {..<npt s} \<and> evictable (ents s ! p) \<and> (p \<in> A \<or> ripe (ents s ! p))"
    using assms(2) hand_less [OF D(1), of ?k]
    by (auto simp: clock_choice_def Let_def find_upt_Some ripe_def split: option.splits)
  then show "p < npt s" "A \<subseteq> {..<npt s}" "evictable (ents s ! p)" "ripe (ents (clr_set A s) ! p)"
    using D(3) by auto
qed

lemma clock_choice_None:
  assumes "pt_shape s"
  shows "clock_choice s = None \<longleftrightarrow> (\<forall>p < npt s. \<not> evictable (ents s ! p))"
proof -
  note D = pt_shapeD [OF assms]
  let ?k = "nat (lastIndex s)"
  have "(\<forall>p < npt s. \<not> evictable (ents s ! p)) \<longleftrightarrow> (\<forall>j < npt s. \<not> evictable (ents s ! hand s ?k j))"
    using hand_surj [OF D(4)] hand_less [OF D(1)] by metis
  then show ?thesis
    by (auto simp: clock_choice_def Let_def find_upt_None find_upt_Some ripe_def split: option.splits)
qed

section \<open>Properties\<close>

text \<open>
  (C36) The loop of \<open>find_victim\<close> is the second-chance algorithm, and it always ends: it takes
  the first evictable frame in clock order whose reference bit is clear, having cleared the bits
  of the frames it passed; if there is none, the first evictable frame, all bits cleared; if no
  frame is evictable it waits.
\<close>

theorem find_victim_second_chance:
  assumes "pt_shape s"
  shows "find_victim v pid s =
    (case clock_choice s of
       None \<Rightarrow> Fail Blocked
     | Some (p, A) \<Rightarrow> take_victim v pid (int p) (ents (clr_set A s) ! p) (clr_set A s))"
  by (rule find_victim_choice [OF assms])

text \<open>
  A page that the TLB maps, that is being transferred, that takes part in a fork or that the
  kernel allocated is never chosen for eviction; the search waits exactly when every frame is of
  that kind.
\<close>

theorem clock_choice_sound:
  assumes "pt_shape s"
  shows "(clock_choice s = None \<longleftrightarrow> (\<forall>p < npt s. \<not> evictable (ents s ! p)))
    \<and> (\<forall>p A. clock_choice s = Some (p, A) \<longrightarrow> p < npt s \<and> \<not> GetTlbBit (ctrl (ents s ! p)) \<and> \<not> GetIOBit (ctrl (ents s ! p))
          \<and> \<not> GetSwapBit (ctrl (ents s ! p)) \<and> page (ents s ! p) \<noteq> KMALLOC_PAGE)"
  using clock_choice_None [OF assms] clock_choice_evictable(1,3) [OF assms] by (auto simp: evictable_def)

text \<open>
  \<open>findspace\<close> returns the lowest free frame, and \<open>- 1\<close> exactly when there is none.
\<close>

theorem findspace_first:
  assumes "pt_shape s"
  shows "findspace s = (case find (\<lambda>p. entry_free (ents s ! p)) [0..<npt s] of None \<Rightarrow> Ok (- 1) | Some p \<Rightarrow> Ok (int p))"
  by (rule findspace_spec [OF assms])

end
