(* ===== verification/Page_Inv.thy ===== *)
theory Page_Inv
  imports Page_Clock
begin

text \<open>
  The invariant of the page table: the hash index maps exactly the pages that valid entries
  hold, no page has two frames, and one hash cell is spare per frame that holds no page. Every
  operation of the table keeps it.
\<close>

section \<open>Coupling of the table and its hash index\<close>

definition user :: "pt_entry \<Rightarrow> bool" where
  "user e \<longleftrightarrow> GetValidityBit (ctrl e) \<and> page e \<noteq> KMALLOC_PAGE"

definition ekey :: "pt_entry \<Rightarrow> vaddr \<times> pid" where
  "ekey e = (page e, pe_pid e)"

definition users :: "nat \<Rightarrow> pt_entry list \<Rightarrow> nat set" where
  "users n es = {p. p < n \<and> user (es ! p)}"

definition coupled :: "hash_table \<Rightarrow> nat \<Rightarrow> pt_entry list \<Rightarrow> bool" where
  "coupled ht n es \<longleftrightarrow>
     (\<forall>k i. ht_lookup ht k = Some i \<longleftrightarrow> (\<exists>p \<in> users n es. i = int p \<and> ekey (es ! p) = k)) \<and>
     (\<forall>p \<in> users n es. key_ok (ekey (es ! p))) \<and>
     ht_inv ht (n - card (users n es))"

lemma finite_users [simp]: "finite (users n es)"
  by (simp add: users_def)

lemma coupled_same:
  assumes "coupled ht n es" "\<And>p. p < n \<Longrightarrow> user (es' ! p) = user (es ! p)"
    and "\<And>p. p < n \<Longrightarrow> user (es ! p) \<Longrightarrow> ekey (es' ! p) = ekey (es ! p)"
  shows "coupled ht n es'"
proof -
  have "users n es' = users n es" using assms(2) by (auto simp: users_def)
  moreover have "ekey (es' ! p) = ekey (es ! p)" if "p \<in> users n es" for p
    using that assms(3) by (simp add: users_def)
  ultimately show ?thesis using assms(1) by (simp add: coupled_def)
qed

lemma coupled_lookup:
  "coupled ht n es \<Longrightarrow> ht_lookup ht k = Some i \<longleftrightarrow> (\<exists>p \<in> users n es. i = int p \<and> ekey (es ! p) = k)"
  unfolding coupled_def by blast

lemma coupledD:
  assumes "coupled ht n es"
  shows "ht_lookup ht k = Some i \<Longrightarrow> \<exists>p \<in> users n es. i = int p \<and> ekey (es ! p) = k"
    and "p \<in> users n es \<Longrightarrow> ht_lookup ht (ekey (es ! p)) = Some (int p)"
    and "p \<in> users n es \<Longrightarrow> key_ok (ekey (es ! p))"
    and "ht_inv ht (n - card (users n es))"
proof -
  note * = coupled_lookup [OF assms]
  show "ht_lookup ht k = Some i \<Longrightarrow> \<exists>p \<in> users n es. i = int p \<and> ekey (es ! p) = k"
    and "p \<in> users n es \<Longrightarrow> ht_lookup ht (ekey (es ! p)) = Some (int p)"
    using * by metis+
  show "p \<in> users n es \<Longrightarrow> key_ok (ekey (es ! p))" "ht_inv ht (n - card (users n es))"
    using assms unfolding coupled_def by blast+
qed

lemma coupled_lookup_None:
  "coupled ht n es \<Longrightarrow> ht_lookup ht k = None \<longleftrightarrow> (\<forall>p \<in> users n es. ekey (es ! p) \<noteq> k)"
  unfolding coupled_def by (metis not_Some_eq)

lemma users_upd:
  assumes "p < n" "n \<le> length es"
  shows "users n (es[p := e]) = (if user e then insert p (users n es) else users n es - {p})"
  using assms by (auto simp: users_def nth_list_update split: if_splits)

text \<open>A frame without a page receives the page \<open>k\<close>.\<close>

lemma coupled_add:
  assumes C: "coupled ht n es" and p: "p < n" "n \<le> length es" "\<not> user (es ! p)"
    and e: "user e" "ekey e = k" "key_ok k" and fresh: "ht_lookup ht k = None"
  shows "\<exists>ht'. add_in_hash ht (fst k) (snd k) (int p) = Ok ht' \<and> coupled ht' n (es[p := e])
    \<and> ht_lookup ht' = (ht_lookup ht)(k \<mapsto> int p)"
proof -
  let ?U = "users n es"
  have pU: "p \<notin> ?U" using p by (simp add: users_def)
  have U': "users n (es[p := e]) = insert p ?U" using users_upd [OF p(1,2)] e(1) by simp
  have "card (insert p ?U) \<le> card {..<n}" using p by (intro card_mono) (auto simp: users_def)
  then have c: "n - card ?U = Suc (n - card (insert p ?U))" using pU by simp
  obtain ht' where H: "add_in_hash ht (fst k) (snd k) (int p) = Ok ht'" "ht_inv ht' (n - card (insert p ?U))"
      "ht_lookup ht' = (ht_lookup ht)(k \<mapsto> int p)"
    using hash_index.add_ok [of ht "n - card (insert p ?U)" k "int p"] coupledD(4) [OF C] e(3) fresh c by auto
  have nk: "ekey (es ! q) \<noteq> k" if "q \<in> ?U" for q using coupled_lookup_None [OF C] fresh that by blast
  have es': "es[p := e] ! q = (if q = p then e else es ! q)" for q using p by (auto simp: nth_list_update)
  have "ht_lookup ht' l = Some i \<longleftrightarrow> (\<exists>q \<in> insert p ?U. i = int q \<and> ekey (es[p := e] ! q) = l)" for l i
  proof (cases "l = k")
    case True
    then show ?thesis using nk e(2) by (auto simp: H(3) es')
  next
    case False
    then have "ht_lookup ht' l = Some i \<longleftrightarrow> ht_lookup ht l = Some i" by (simp add: H(3))
    also have "\<dots> \<longleftrightarrow> (\<exists>q \<in> ?U. i = int q \<and> ekey (es ! q) = l)" using coupled_lookup [OF C] .
    also have "\<dots> \<longleftrightarrow> (\<exists>q \<in> insert p ?U. i = int q \<and> ekey (es[p := e] ! q) = l)"
      using False pU e(2) by (metis es' insert_iff)
    finally show ?thesis .
  qed
  moreover have "key_ok (ekey (es[p := e] ! q))" if "q \<in> insert p ?U" for q
    using that coupledD(3) [OF C] e(2,3) by (auto simp: es')
  ultimately show ?thesis using H unfolding coupled_def U' by blast
qed

text \<open>A frame loses its page.\<close>

lemma coupled_rem:
  assumes C: "coupled ht n es" and p: "p < n" "n \<le> length es" "user (es ! p)" and e: "\<not> user e"
  shows "\<exists>ht'. remove_from_hash ht (page (es ! p)) (pe_pid (es ! p)) = Ok ht' \<and> coupled ht' n (es[p := e])
    \<and> ht_lookup ht' = (ht_lookup ht)(ekey (es ! p) := None)"
proof -
  let ?U = "users n es" and ?k = "ekey (es ! p)"
  have pU: "p \<in> ?U" using p by (simp add: users_def)
  have U': "users n (es[p := e]) = ?U - {p}" using users_upd [OF p(1,2)] e by simp
  have "card ?U \<le> card {..<n}" by (intro card_mono) (auto simp: users_def)
  moreover have "card ?U = Suc (card (?U - {p}))" by (rule card.remove [OF finite_users pU])
  ultimately have c: "n - card (?U - {p}) = Suc (n - card ?U)" by simp
  obtain ht' where H: "remove_from_hash ht (fst ?k) (snd ?k) = Ok ht'" "ht_inv ht' (Suc (n - card ?U))"
      "ht_lookup ht' = (ht_lookup ht)(?k := None)"
    using hash_index.rem_ok [OF coupledD(4) [OF C] coupledD(2) [OF C pU]] by blast
  have inj: "q = p" if "q \<in> ?U" "ekey (es ! q) = ?k" for q
  proof -
    have "Some (int q) = Some (int p)"
      using coupledD(2) [OF C that(1)] coupledD(2) [OF C pU] unfolding that(2) by argo
    then show ?thesis by simp
  qed
  have es': "es[p := e] ! q = (if q = p then e else es ! q)" for q using p by (auto simp: nth_list_update)
  have "ht_lookup ht' l = Some i \<longleftrightarrow> (\<exists>q \<in> ?U - {p}. i = int q \<and> ekey (es[p := e] ! q) = l)" for l i
  proof (cases "l = ?k")
    case True
    then show ?thesis using inj by (auto simp: H(3) es')
  next
    case False
    then have "ht_lookup ht' l = Some i \<longleftrightarrow> ht_lookup ht l = Some i" by (simp add: H(3))
    also have "\<dots> \<longleftrightarrow> (\<exists>q \<in> ?U. i = int q \<and> ekey (es ! q) = l)" using coupled_lookup [OF C] .
    also have "\<dots> \<longleftrightarrow> (\<exists>q \<in> ?U - {p}. i = int q \<and> ekey (es[p := e] ! q) = l)"
      using False by (metis es' DiffD1 DiffD2 DiffI singletonD singletonI)
    finally show ?thesis .
  qed
  moreover have "key_ok (ekey (es[p := e] ! q))" if "q \<in> ?U - {p}" for q
    using that coupledD(3) [OF C] by (auto simp: es')
  ultimately have "coupled ht' n (es[p := e])" using H(2) unfolding coupled_def U' c by blast
  moreover have "remove_from_hash ht (page (es ! p)) (pe_pid (es ! p)) = Ok ht'"
    using H(1) by (simp add: ekey_def)
  ultimately show ?thesis using H(3) by blast
qed

section \<open>Frames\<close>

text \<open>
  The frames lie in the 512 MB that the kernel reaches through \<open>kseg0\<close>, below the buffer of the
  swap disk.
\<close>

definition frames_ok :: "'a vm_scheme \<Rightarrow> bool" where
  "frames_ok s \<longleftrightarrow>
     0 < unat (first_free_paddr (page_table s)) \<and>
     unat (first_free_paddr (page_table s)) + 4096 * npt s \<le> 0x20000000 \<and>
     0xa0000000 \<le> unat (lh_buf (sw_v (k_swap s)))"

lemma frame_addr_unat:
  assumes "frames_ok s" "p < npt s"
  shows "unat (frame_addr s (int p)) = 4096 * p + unat (first_free_paddr (page_table s))"
    and "unat (PADDR_TO_KVADDR (frame_addr s (int p))) = 0x80000000 + 4096 * p + unat (first_free_paddr (page_table s))"
proof -
  let ?f = "first_free_paddr (page_table s)"
  have b: "4096 * p + unat ?f < 0x20000000" using assms by (simp add: frames_ok_def)
  have e: "frame_addr s (int p) = ?f + of_nat (4096 * p)"
    by (simp add: frame_addr_def PAGE_SIZE_def)
  show u: "unat (frame_addr s (int p)) = 4096 * p + unat ?f"
    unfolding e using b by (subst unat_plus_nat) auto
  have "unat (frame_addr s (int p) + of_nat 0x80000000) = unat (frame_addr s (int p)) + 0x80000000"
    using b u by (intro unat_plus_nat) simp
  then show "unat (PADDR_TO_KVADDR (frame_addr s (int p))) = 0x80000000 + 4096 * p + unat ?f"
    using u by (simp add: vm_consts)
qed

lemma frame_addr_room:
  assumes "frames_ok s" "p < npt s"
  shows "below_buf (sw_v (k_swap s)) (PADDR_TO_KVADDR (frame_addr s (int p))) 4096"
  using assms frame_addr_unat(2) [OF assms] by (simp add: below_buf_def frames_ok_def)

lemma frames_apart:
  assumes "frames_ok s" "p < npt s" "q < npt s" "p \<noteq> q" "k < 4096"
  shows "\<not> unat (PADDR_TO_KVADDR (frame_addr s (int q)) + of_nat k - PADDR_TO_KVADDR (frame_addr s (int p))) < 4096"
proof -
  let ?a = "PADDR_TO_KVADDR (frame_addr s (int p))" and ?b = "PADDR_TO_KVADDR (frame_addr s (int q))"
  have lim: "4096 * p + unat (first_free_paddr (page_table s)) + 4096 \<le> 0x20000000"
    "4096 * q + unat (first_free_paddr (page_table s)) + 4096 \<le> 0x20000000"
    using assms(1-3) by (auto simp: frames_ok_def)
  have ub: "unat (?b + of_nat k) = unat ?b + k"
    using frame_addr_unat(2) [OF assms(1,3)] lim assms(5) by (intro unat_plus_nat) simp
  have "unat ?a + 4096 \<le> 4294967296" using frame_addr_unat(2) [OF assms(1,2)] lim by simp
  then show ?thesis
    unfolding unat_sub_less_iff [OF \<open>unat ?a + 4096 \<le> 4294967296\<close>] ub
    using frame_addr_unat(2) [OF assms(1,2)] frame_addr_unat(2) [OF assms(1,3)] assms(4,5)
    by (cases "p < q") auto
qed

text \<open>A change confined to one frame and the disk buffer leaves every other frame as it is.\<close>

lemma frame_bytes_other:
  assumes "frames_ok s" "lhd_wf (sw_v (k_swap s))" "p < npt s" "q < npt s" "p \<noteq> q"
    and "\<And>a. \<not> in_buf (sw_v (k_swap s)) a \<Longrightarrow> \<not> unat (a - PADDR_TO_KVADDR (frame_addr s (int p))) < 4096 \<Longrightarrow> m' a = m a"
  shows "frame_bytes m' (frame_addr s (int q)) = frame_bytes m (frame_addr s (int q))"
  using assms(6) frames_apart [OF assms(1,3,4,5)]
    below_buf_not_in_buf [OF assms(2) frame_addr_room [OF assms(1,4)]]
  by (auto simp: frame_bytes_def mem_get_def)

section \<open>The invariant\<close>

definition pt_inv :: "'a vm_scheme \<Rightarrow> bool" where
  "pt_inv s \<longleftrightarrow> pt_shape s \<and> coupled (htable s) (npt s) (ents s)"

text \<open>Fields the swap file and the loader leave alone.\<close>

lemma same_proc_vm:
  assumes "same_proc s s'"
  shows "page_table s' = page_table s" "htable s' = htable s" "lastIndex s' = lastIndex s"
    "k_pid s' = k_pid s" "k_as s' = k_as s" "k_vnodes s' = k_vnodes s" "k_uc s' = k_uc s"
    "frame_addr s' = frame_addr s" "npt s' = npt s"
proof -
  obtain m st sw where s': "s' = s\<lparr>k_mem := m, k_stats := st, k_swap := sw\<rparr>"
    using assms by (metis same_proc_def)
  show "page_table s' = page_table s" "htable s' = htable s" "lastIndex s' = lastIndex s"
    "k_pid s' = k_pid s" "k_as s' = k_as s" "k_vnodes s' = k_vnodes s" "k_uc s' = k_uc s"
    "frame_addr s' = frame_addr s" "npt s' = npt s"
    by (simp_all add: s' frame_addr_def npt_def fun_eq_iff)
qed

lemma pt_inv_same_proc: "same_proc s s' \<Longrightarrow> pt_inv s' = pt_inv s"
  by (simp add: pt_inv_def pt_shape_def same_proc_vm)

lemma npt_upd_entry [simp]: "npt (upd_entry i f s) = npt s"
  by (simp add: npt_def)

lemma pt_shape_upd_entry [simp]: "pt_shape (upd_entry i f s) = pt_shape s"
  by (simp add: pt_shape_def)

text \<open>A change of control bits other than the validity bit.\<close>

lemma pt_inv_ctrl:
  assumes "pt_inv s" and "\<And>x. page (f x) = page x \<and> pe_pid (f x) = pe_pid x
    \<and> GetValidityBit (ctrl (f x)) = GetValidityBit (ctrl x)"
  shows "pt_inv (upd_entry i f s)"
proof -
  have "user (f x) = user x \<and> ekey (f x) = ekey x" for x using assms(2) by (simp add: user_def ekey_def)
  then have "user ((ents s)[nat i := f (ents s ! nat i)] ! p) = user (ents s ! p)
      \<and> ekey ((ents s)[nat i := f (ents s ! nat i)] ! p) = ekey (ents s ! p)" for p
    by (cases "p = nat i"; cases "nat i < length (ents s)") (simp_all add: list_update_beyond)
  then show ?thesis using assms(1) coupled_same [of "htable s" "npt s" "ents s"] by (simp add: pt_inv_def)
qed

lemma pt_inv_clr_set: "A \<subseteq> {..<npt s} \<Longrightarrow> pt_inv s \<Longrightarrow> pt_inv (clr_set A s)"
proof -
  assume A: "A \<subseteq> {..<npt s}" and inv: "pt_inv s"
  have "user (clr e) = user e \<and> ekey (clr e) = ekey e" for e by (simp add: user_def ekey_def clr_def)
  then have "user (ents (clr_set A s) ! p) = user (ents s ! p) \<and> ekey (ents (clr_set A s) ! p) = ekey (ents s ! p)"
    if "p < npt s" for p
    using that inv pt_shapeD(3) [of s] by (simp add: pt_inv_def)
  then show ?thesis using inv coupled_same [of "htable s" "npt s" "ents s"] by (simp add: pt_inv_def)
qed

end
