(* ===== verification/VM_Paging.thy ===== *)
theory VM_Paging
  imports Page_Inv
begin

text \<open>
  Paging is transparent. The logical contents of a page are those of its frame if it has one,
  else those saved in the swap file; a page with neither has never been touched. Whatever frame
  \<open>get_page\<close> chooses, it returns one that holds the contents of the page wanted, and the
  logical contents of every other page are unchanged, the victim's included.
\<close>

section \<open>Logical contents\<close>

definition sw_look :: "'a ksys_scheme \<Rightarrow> vaddr \<times> pid \<Rightarrow> byte list option" where
  "sw_look s k =
     (case k_as s of
        None \<Rightarrow> None
      | Some as \<Rightarrow>
          (case swap_seg_of as (fst k) of
             None \<Rightarrow> None
           | Some g \<Rightarrow> map_of (swap_list (k_swap s) g (nat (snd k))) (fst k)))"

lemma sw_look_cong: "k_as s' = k_as s \<Longrightarrow> k_swap s' = k_swap s \<Longrightarrow> sw_look s' l = sw_look s l"
  by (cases "k_as s"; cases "swap_seg_of (the (k_as s)) (fst l)") (simp_all add: sw_look_def)

definition vpage :: "'a vm_scheme \<Rightarrow> vaddr \<times> pid \<Rightarrow> byte list option" where
  "vpage s k =
     (case ht_lookup (htable s) k of
        Some i \<Rightarrow> Some (frame_bytes (k_mem s) (frame_addr s i))
      | None \<Rightarrow> sw_look s k)"

text \<open>
  Pages the system handles: a process that fits in the swap file's arrays and an address in one
  segment of the address space in use. The swap file sorts every page by the current process's
  address space, whoever owns it.
\<close>

definition page_ok :: "addrspace \<Rightarrow> vaddr \<times> pid \<Rightarrow> bool" where
  "page_ok as k \<longleftrightarrow> 0 \<le> snd k \<and> snd k < int MAX_PROC \<and> fst k < USERSTACK \<and> fst k \<noteq> KMALLOC_PAGE \<and>
     (\<exists>g. one_seg as (fst k) g)"

lemma page_ok_key: "page_ok as k \<Longrightarrow> key_ok k"
  by (simp add: page_ok_def key_ok_def vm_consts)

definition vm_ok :: "addrspace \<Rightarrow> 'a vm_scheme \<Rightarrow> bool" where
  "vm_ok as s \<longleftrightarrow>
     pt_inv s \<and> frames_ok s \<and> swap_inv (k_swap s) \<and> k_as s = Some as \<and>
     (\<forall>p \<in> users (npt s) (ents s). page_ok as (ekey (ents s ! p)))"

section \<open>Eviction\<close>

lemma store_look:
  assumes inv: "swap_inv (k_swap s)" "free_cells (k_swap s) \<noteq> 0" "k_as s = Some as" "page_ok as k"
    and room: "below_buf (sw_v (k_swap s)) (PADDR_TO_KVADDR p) 4096"
  obtains s' where "store_swap (fst k) (snd k) p s = Ok (1, s')" "same_proc s s'" "swap_inv (k_swap s')"
    and "free_cells (k_swap s') = free_cells (k_swap s) - 1"
    and "\<forall>l. page_ok as l \<longrightarrow> sw_look s' l = (if l = k then Some (frame_bytes (k_mem s) p) else sw_look s l)"
    and "\<forall>a. \<not> in_buf (sw_v (k_swap s)) a \<longrightarrow> k_mem s' a = k_mem s a"
    and "same_dev (sw_v (k_swap s)) (sw_v (k_swap s'))" "k_stats s' = add_swapfile_write (k_stats s)"
proof -
  obtain g where g: "one_seg as (fst k) g" and j: "snd k = int (nat (snd k))" "nat (snd k) < MAX_PROC"
    using assms(4) by (auto simp: page_ok_def)
  obtain s' where S: "store_swap (fst k) (snd k) p s = Ok (1, s')" "swap_inv (k_swap s')"
      "swap_list (k_swap s') g (nat (snd k)) = (fst k, frame_bytes (k_mem s) p) # swap_list (k_swap s) g (nat (snd k))"
      "\<forall>h j. j < MAX_PROC \<longrightarrow> (h, j) \<noteq> (g, nat (snd k)) \<longrightarrow> swap_list (k_swap s') h j = swap_list (k_swap s) h j"
      "free_cells (k_swap s') = free_cells (k_swap s) - 1" "k_stats s' = add_swapfile_write (k_stats s)"
      "\<forall>a. \<not> in_buf (sw_v (k_swap s)) a \<longrightarrow> k_mem s' a = k_mem s a"
      "same_proc s s'" "same_dev (sw_v (k_swap s)) (sw_v (k_swap s'))"
    using store_swap_spec [OF inv(1,2,3) g j(2) room] j(1) by auto
  have as': "k_as s' = Some as" using same_proc_fields [OF S(8)] inv(3) by simp
  have "sw_look s' l = (if l = k then Some (frame_bytes (k_mem s) p) else sw_look s l)" if l: "page_ok as l" for l
  proof -
    obtain h where h: "one_seg as (fst l) h" and lj: "nat (snd l) < MAX_PROC" "0 \<le> snd l"
      using l by (auto simp: page_ok_def)
    have kl: "l = k \<longleftrightarrow> fst l = fst k \<and> nat (snd l) = nat (snd k)"
      using lj(2) assms(4) by (auto simp: prod_eq_iff page_ok_def)
    show ?thesis
    proof (cases "h = g \<and> nat (snd l) = nat (snd k)")
      case True
      then show ?thesis
        using S(3) as' inv(3) one_seg_unique [OF h] by (auto simp: sw_look_def kl)
    next
      case False
      then have "swap_list (k_swap s') h (nat (snd l)) = swap_list (k_swap s) h (nat (snd l))"
        using S(4) lj(1) by blast
      moreover have "l \<noteq> k" using False one_seg_unique [OF h] one_seg_unique [OF g] by (auto simp: kl)
      ultimately show ?thesis using as' inv(3) one_seg_unique [OF h] by (simp add: sw_look_def)
    qed
  qed
  then show thesis using that S(1,2,5-9) by blast
qed

lemma frames_ok_upd [simp]:
  "frames_ok (upd_entry i f s) = frames_ok s" "frames_ok (clr_set A s) = frames_ok s"
  "frames_ok (s\<lparr>htable := ht\<rparr>) = frames_ok s" "frames_ok (s\<lparr>lastIndex := j\<rparr>) = frames_ok s"
  by (simp_all add: frames_ok_def clr_set_def npt_def)

lemma npt_upd [simp]:
  "npt (s\<lparr>htable := ht\<rparr>) = npt s" "npt (s\<lparr>lastIndex := j\<rparr>) = npt s"
  "frame_addr (s\<lparr>htable := ht\<rparr>) = frame_addr s" "frame_addr (s\<lparr>lastIndex := j\<rparr>) = frame_addr s"
  by (simp_all add: npt_def frame_addr_def fun_eq_iff)

lemma frames_ok_same:
  assumes "same_proc s s'" "same_dev (sw_v (k_swap s)) (sw_v (k_swap s'))"
  shows "frames_ok s' = frames_ok s"
  using same_proc_vm(1) [OF assms(1)] same_proc_vm(9) [OF assms(1)] same_dev_simps(1) [OF assms(2)]
  by (simp add: frames_ok_def)

text \<open>
  The outcome of giving the frame \<open>p\<close> to the page \<open>k\<close>: the frame's former page \<open>lost\<close>, if any,
  leaves the index and is in the swap file; frames are not touched.
\<close>

definition given :: "addrspace \<Rightarrow> nat \<Rightarrow> vaddr \<times> pid \<Rightarrow> (vaddr \<times> pid) option \<Rightarrow> 'a vm_scheme \<Rightarrow> 'a vm_scheme \<Rightarrow> bool" where
  "given as p k lost s s' \<longleftrightarrow>
     vm_ok as s' \<and> npt s' = npt s \<and> frame_addr s' = frame_addr s \<and> k_pid s' = k_pid s \<and> k_vnodes s' = k_vnodes s \<and>
     user (ents s' ! p) \<and> ekey (ents s' ! p) = k \<and>
     ht_lookup (htable s') =
       (case lost of None \<Rightarrow> ht_lookup (htable s) | Some l \<Rightarrow> (ht_lookup (htable s))(l := None))(k \<mapsto> int p) \<and>
     (\<forall>l. page_ok as l \<longrightarrow> sw_look s' l =
        (if lost = Some l then Some (frame_bytes (k_mem s) (frame_addr s (int p))) else sw_look s l)) \<and>
     (\<forall>q < npt s. frame_bytes (k_mem s') (frame_addr s (int q)) = frame_bytes (k_mem s) (frame_addr s (int q)))"

lemma vm_okD:
  assumes "vm_ok as s"
  shows "pt_inv s" "pt_shape s" "coupled (htable s) (npt s) (ents s)" "frames_ok s" "swap_inv (k_swap s)"
    "k_as s = Some as" "p \<in> users (npt s) (ents s) \<Longrightarrow> page_ok as (ekey (ents s ! p))"
    "lhd_wf (sw_v (k_swap s))"
  using assms by (auto simp: vm_ok_def pt_inv_def swap_inv_def swap_ok_def)

lemma pt_entry_all: "e\<lparr>pe_pid := a, page := b, ctrl := c\<rparr> = \<lparr>page = b, pe_pid = a, ctrl = c\<rparr>"
  by (cases e) simp

lemma take_victim_ok:
  assumes ok: "vm_ok as s" and free: "free_cells (k_swap s) \<noteq> 0" and p: "p < npt s" "ripe (ents s ! p)"
    and k: "page_ok as (v, pid)" "ht_lookup (htable s) (v, pid) = None"
  shows "\<exists>s'. take_victim v pid (int p) (ents s ! p) s = Ok (int p, s')
    \<and> given as p (v, pid) (if user (ents s ! p) then Some (ekey (ents s ! p)) else None) s s'
    \<and> ents s' = (ents s)[p := \<lparr>page = v, pe_pid = pid, ctrl = SetValidityBitOne (SetIOBitOne (ctrl (ents s ! p)))\<rparr>]
    \<and> tlb_balance (k_stats s') = tlb_balance (k_stats s) \<and> fault_balance (k_stats s') = fault_balance (k_stats s)
    \<and> disk_balance (k_stats s') = disk_balance (k_stats s)"
proof -
  note D = vm_okD [OF ok] and S = pt_shapeD [OF vm_okD(2) [OF ok]]
  let ?e = "ents s ! p" and ?n = "npt s"
  let ?e' = "\<lparr>page = v, pe_pid = pid, ctrl = SetValidityBitOne (SetIOBitOne (ctrl ?e))\<rparr>"
  let ?s1 = "upd_entry (int p) (\<lambda>x. x\<lparr>pe_pid := pid, page := v, ctrl := SetValidityBitOne (SetIOBitOne (ctrl x))\<rparr>) s"
  have pl: "p < length (ents s)" using p(1) S(3) by simp
  have es1: "ents ?s1 = (ents s)[p := ?e']" by (simp add: pt_entry_all)
  have ev: "evictable ?e" using p(2) by (simp add: ripe_def)
  have e': "user ?e'" "ekey ?e' = (v, pid)" using k(1) by (simp_all add: user_def ekey_def page_ok_def)
  have key: "key_ok (v, pid)" by (rule page_ok_key [OF k(1)])
  have li: "0 \<le> (int p + 1) smod nent s" "(int p + 1) smod nent s < nent s"
    using S(1,2) by (simp_all add: smod_nonneg)
  show ?thesis
  proof (cases "user ?e")
    case True
    let ?z = "\<lparr>page = 0, pe_pid = 0, ctrl = 0\<rparr> :: pt_entry"
    have pU: "p \<in> users ?n (ents s)" using True p(1) by (simp add: users_def)
    obtain ht1 where R: "remove_from_hash (htable s) (page ?e) (pe_pid ?e) = Ok ht1"
        "coupled ht1 ?n ((ents s)[p := ?z])" "ht_lookup ht1 = (ht_lookup (htable s))(ekey ?e := None)"
      using coupled_rem [OF D(3) p(1) S(3) True, of ?z] by (auto simp: user_def)
    let ?s2 = "?s1\<lparr>htable := ht1\<rparr>"
    have fields: "k_swap ?s2 = k_swap s" "k_mem ?s2 = k_mem s" "k_stats ?s2 = k_stats s" "k_as ?s2 = Some as"
      using D(6) by simp_all
    note store = store_look [of ?s2 as "ekey ?e" "frame_addr s (int p)", unfolded fields,
        OF D(5) free refl D(7) [OF pU] frame_addr_room [OF D(4) p(1)]]
    obtain s3 where T: "store_swap (page ?e) (pe_pid ?e) (frame_addr s (int p)) ?s2 = Ok (1, s3)" "same_proc ?s2 s3"
        "swap_inv (k_swap s3)"
        "\<forall>l. page_ok as l \<longrightarrow> sw_look s3 l = (if l = ekey ?e then Some (frame_bytes (k_mem s) (frame_addr s (int p))) else sw_look ?s2 l)"
        "\<forall>a. \<not> in_buf (sw_v (k_swap s)) a \<longrightarrow> k_mem s3 a = k_mem s a"
        "same_dev (sw_v (k_swap s)) (sw_v (k_swap s3))" "k_stats s3 = add_swapfile_write (k_stats s)"
      by (rule store) (simp add: ekey_def)
    note P = same_proc_vm [OF T(2)]
    have look: "sw_look ?s2 l = sw_look s l" for l by (rule sw_look_cong) simp_all
    have kn: "(v, pid) \<noteq> ekey ?e" using k(2) coupledD(2) [OF D(3) pU] by auto
    obtain ht2 where A: "add_in_hash ht1 v pid (int p) = Ok ht2" "coupled ht2 ?n ((ents s)[p := ?e'])"
        "ht_lookup ht2 = (ht_lookup ht1)((v, pid) \<mapsto> int p)"
    proof -
      have "ht_lookup ht1 (v, pid) = None" using k(2) kn by (simp add: R(3))
      from coupled_add [OF R(2) p(1) _ _ e' key this] show thesis
        using S(3) pl that by (auto simp: user_def)
    qed
    let ?s' = "s3\<lparr>htable := ht2, lastIndex := (int p + 1) smod nent s\<rparr>"
    have pt: "page_table ?s' = page_table ?s1" using P(1) by simp
    then have ents': "ents ?s' = (ents s)[p := ?e']" and n': "nent ?s' = nent s" using es1 by simp_all
    have n'': "npt ?s' = ?n" using n' by (simp add: npt_def)
    have fa: "frame_addr ?s' = frame_addr s" using P(8) by simp
    have run: "take_victim v pid (int p) ?e s = Ok (int p, ?s')"
      using ev True R(1) T(1) A(1) P(2) n' 
      by (simp add: take_victim_def Let_def evictable_def user_def evict_def)
    have "pt_shape ?s'" using D(2) li n' n'' ents' by (simp add: pt_shape_def)
    moreover have "frames_ok ?s'"
      using frames_ok_same [OF T(2)] T(6) D(4) by simp
    moreover have "page_ok as (ekey (ents ?s' ! q))" if "q \<in> users ?n (ents ?s')" for q
      using that D(7) [of q] k(1) e' users_upd [OF p(1) S(3), of ?e'] pl
      unfolding ents' by (cases "q = p") (auto simp: nth_list_update)
    ultimately have ok': "vm_ok as ?s'"
      using A(2) T(3) P(5) D(6) ents' n'' by (simp add: vm_ok_def pt_inv_def)
    have fr: "frame_bytes (k_mem ?s') (frame_addr s (int q)) = frame_bytes (k_mem s) (frame_addr s (int q))"
      if "q < ?n" for q
      using frame_bytes_keep [OF D(8) frame_addr_room [OF D(4) that], of "k_mem s3" "k_mem s"] T(5) by simp
    have lk: "sw_look ?s' l = sw_look s3 l" for l by (rule sw_look_cong) simp_all
    have "given as p (v, pid) (Some (ekey ?e)) s ?s'"
      unfolding given_def using ok' n'' fa P(4,6) e' ents' pl A(3) R(3) T(4) look lk fr by simp
    then show ?thesis using run True ents' T(7) by (simp add: stat_simps)
  next
    case False
    then have nv: "\<not> GetValidityBit (ctrl ?e)" using ev by (simp add: user_def evictable_def)
    obtain ht2 where A: "add_in_hash (htable s) v pid (int p) = Ok ht2" "coupled ht2 ?n ((ents s)[p := ?e'])"
        "ht_lookup ht2 = (ht_lookup (htable s))((v, pid) \<mapsto> int p)"
      using coupled_add [OF D(3) p(1) S(3) False e' key k(2)] by auto
    let ?s' = "?s1\<lparr>htable := ht2, lastIndex := (int p + 1) smod nent s\<rparr>"
    have ents': "ents ?s' = (ents s)[p := ?e']" using es1 by simp
    have run: "take_victim v pid (int p) ?e s = Ok (int p, ?s')"
      using ev nv A(1) by (simp add: take_victim_def Let_def evictable_def)
    have "pt_shape ?s'" using D(2) li by (simp add: pt_shape_def)
    moreover have "page_ok as (ekey (ents ?s' ! q))" if "q \<in> users ?n (ents ?s')" for q
      using that D(7) [of q] k(1) e' users_upd [OF p(1) S(3), of ?e'] pl
      unfolding ents' by (cases "q = p") (auto simp: nth_list_update)
    ultimately have ok': "vm_ok as ?s'"
      using A(2) D(4,5,6) ents' by (simp add: vm_ok_def pt_inv_def)
    have lk: "sw_look ?s' l = sw_look s l" for l by (rule sw_look_cong) simp_all
    have "given as p (v, pid) None s ?s'"
      unfolding given_def using ok' e' ents' pl A(3) lk by simp
    then show ?thesis using run False ents' by simp
  qed
qed

section \<open>A free frame\<close>

lemma claim_free_ok:
  assumes ok: "vm_ok as s" and p: "p < npt s" "entry_free (ents s ! p)"
    and k: "page_ok as (v, pid)" "ht_lookup (htable s) (v, pid) = None"
  shows "\<exists>ht'. add_in_hash (htable s) v pid (int p) = Ok ht' \<and>
    given as p (v, pid) None s (upd_entry (int p) (\<lambda>x. \<lparr>page = v, pe_pid = pid,
      ctrl = SetIOBitOne (SetValidityBitOne (ctrl x))\<rparr>) (s\<lparr>htable := ht'\<rparr>))"
proof -
  note D = vm_okD [OF ok] and S = pt_shapeD [OF vm_okD(2) [OF ok]]
  let ?e' = "\<lparr>page = v, pe_pid = pid, ctrl = SetIOBitOne (SetValidityBitOne (ctrl (ents s ! p)))\<rparr>"
  have pl: "p < length (ents s)" using p(1) S(3) by simp
  have nu: "\<not> user (ents s ! p)" using p(2) by (simp add: user_def entry_free_def)
  have e': "user ?e'" "ekey ?e' = (v, pid)" using k(1) by (simp_all add: user_def ekey_def page_ok_def)
  obtain ht' where A: "add_in_hash (htable s) v pid (int p) = Ok ht'" "coupled ht' (npt s) ((ents s)[p := ?e'])"
      "ht_lookup ht' = (ht_lookup (htable s))((v, pid) \<mapsto> int p)"
    using coupled_add [OF D(3) p(1) S(3) nu e' page_ok_key [OF k(1)] k(2)] by auto
  let ?s' = "upd_entry (int p) (\<lambda>x. \<lparr>page = v, pe_pid = pid, ctrl = SetIOBitOne (SetValidityBitOne (ctrl x))\<rparr>) (s\<lparr>htable := ht'\<rparr>)"
  have "page_ok as (ekey (ents ?s' ! q))" if "q \<in> users (npt s) (ents ?s')" for q
    using that D(7) [of q] k(1) e' users_upd [OF p(1) S(3), of ?e'] pl
    by (cases "q = p") (auto simp: nth_list_update)
  moreover have "pt_shape (s\<lparr>htable := ht'\<rparr>)" using D(2) by (simp add: pt_shape_def)
  ultimately have ok': "vm_ok as ?s'" using A(2) D(4,5,6) by (simp add: vm_ok_def pt_inv_def)
  have lk: "sw_look ?s' l = sw_look s l" for l by (rule sw_look_cong) simp_all
  have "given as p (v, pid) None s ?s'"
    unfolding given_def using ok' e' pl A(3) lk by simp
  then show ?thesis using A(1) by blast
qed

section \<open>Filling the frame\<close>

definition fresh_page :: "addrspace \<Rightarrow> (nat \<Rightarrow> byte) \<Rightarrow> vaddr \<Rightarrow> byte list" where
  "fresh_page as img v = map (fresh_byte as img (the (swap_seg_of as v)) v) [0..<4096]"

text \<open>The executable: readable, with page-aligned segments whose headers are consistent.\<close>

definition elf_ok :: "addrspace \<Rightarrow> (ptr \<Rightarrow> vnode) \<Rightarrow> (nat \<Rightarrow> byte) \<Rightarrow> nat \<Rightarrow> bool" where
  "elf_ok as vs img len \<longleftrightarrow>
     elf_file (vs (as_v as)) img len \<and> as_v as \<noteq> NULL \<and> initial_offset1 as = 0 \<and> initial_offset2 as = 0 \<and>
     seg_sane (ph1 as) len \<and> seg_sane (ph2 as) len"

lemma seg_distance:
  "v < USERSTACK \<Longrightarrow> b \<le> v \<Longrightarrow> unat (v - b) < 2 ^ 31"
  by (simp add: unat_sub word_le_nat_alt word_less_nat_alt vm_consts)

lemma load_into_frame:
  assumes ok: "vm_ok as s" and p: "p < npt s" and i: "k_pid s = int i" and k: "page_ok as (v, int i)"
    and elf: "elf_ok as (k_vnodes s) img len"
  shows "\<exists>s'. load_page v (int i) (frame_addr s (int p)) s = Ok (0, s') \<and> same_proc s s' \<and> vm_ok as s'
    \<and> frame_bytes (k_mem s') (frame_addr s (int p)) =
        (case sw_look s (v, int i) of Some b \<Rightarrow> b | None \<Rightarrow> fresh_page as img v)
    \<and> (\<forall>q < npt s. q \<noteq> p \<longrightarrow> frame_bytes (k_mem s') (frame_addr s (int q)) = frame_bytes (k_mem s) (frame_addr s (int q)))
    \<and> (\<forall>l. page_ok as l \<longrightarrow> l \<noteq> (v, int i) \<longrightarrow> sw_look s' l = sw_look s l)"
proof -
  note D = vm_okD [OF ok]
  let ?p = "frame_addr s (int p)"
  obtain g where g: "one_seg as v g" and v: "v < USERSTACK" "i < MAX_PROC" using k by (auto simp: page_ok_def)
  note seg = one_seg_unique [OF g]
  have look: "sw_look s (v, int i) = map_of (swap_list (k_swap s) g i) v"
    using D(6) seg by (simp add: sw_look_def)
  note room = frame_addr_room [OF D(4) p]
  show ?thesis
  proof (cases "map_of (swap_list (k_swap s) g i) v")
    case (Some b)
    obtain s' where L: "load_swap v (int i) ?p s = Ok (1, s')" "swap_inv (k_swap s')" "frame_bytes (k_mem s') ?p = b"
        "swap_list (k_swap s') g i = del_first v (swap_list (k_swap s) g i)"
        "\<forall>h j. j < MAX_PROC \<longrightarrow> (h, j) \<noteq> (g, i) \<longrightarrow> swap_list (k_swap s') h j = swap_list (k_swap s) h j"
        "\<forall>a. \<not> in_buf (sw_v (k_swap s)) a \<longrightarrow> \<not> unat (a - PADDR_TO_KVADDR ?p) < 4096 \<longrightarrow> k_mem s' a = k_mem s a"
        "same_proc s s'" "same_dev (sw_v (k_swap s)) (sw_v (k_swap s'))"
      using load_swap_spec [OF D(5,6) seg v(2) i Some room] by blast
    note P = same_proc_vm [OF L(7)]
    have "sw_look s' l = sw_look s l" if l: "page_ok as l" "l \<noteq> (v, int i)" for l
    proof -
      obtain h where h: "one_seg as (fst l) h" and lj: "nat (snd l) < MAX_PROC" "0 \<le> snd l"
        using l(1) by (auto simp: page_ok_def)
      note hs = one_seg_unique [OF h]
      show ?thesis
      proof (cases "(h, nat (snd l)) = (g, i)")
        case True
        then have "fst l \<noteq> v" using l(2) lj(2) by (auto simp: prod_eq_iff)
        then show ?thesis using True L(4) P(5) D(6) hs by (auto simp: sw_look_def map_of_del_first)
      next
        case False
        then show ?thesis using L(5) lj(1) P(5) D(6) hs by (simp add: sw_look_def)
      qed
    qed
    moreover have "vm_ok as s'"
      using ok L(2) P pt_inv_same_proc [OF L(7)] frames_ok_same [OF L(7,8)] by (simp add: vm_ok_def)
    moreover have "load_page v (int i) ?p s = Ok (0, s')" using L(1) by (simp add: load_page_def)
    moreover have "frame_bytes (k_mem s') (frame_addr s (int q)) = frame_bytes (k_mem s) (frame_addr s (int q))"
      if "q < npt s" "q \<noteq> p" for q
      by (rule frame_bytes_other [OF D(4,8) p that(1)]) (use that L(6) in auto)
    ultimately show ?thesis
      using L(3,7) Some look by (intro exI [of _ s']) simp
  next
    case None
    have dist: "g = Text \<Longrightarrow> unat (v - as_vbase1 as) < 2 ^ 31" "g = Data \<Longrightarrow> unat (v - as_vbase2 as) < 2 ^ 31"
      using seg_distance [OF v(1)] g by (auto simp: one_seg_def in_text_def in_data_def)
    obtain s' where F: "load_page v (int i) ?p s = Ok (0, s')" "only_mem s s'"
        "\<forall>k < 4096. mem_get (PADDR_TO_KVADDR ?p) (k_mem s') k = fresh_byte as img g v k"
        "\<forall>a. \<not> unat (a - PADDR_TO_KVADDR ?p) < 4096 \<longrightarrow> k_mem s' a = k_mem s a"
      using load_page_fresh [OF D(5) v(2) i D(6) g v(1) None, of img len ?p] elf dist
      unfolding elf_ok_def by blast
    have sp: "same_proc s s'" "k_swap s' = k_swap s" using only_memD [OF F(2)] by auto
    note P = same_proc_vm [OF sp(1)]
    have "vm_ok as s'"
      using ok sp(2) P pt_inv_same_proc [OF sp(1)] frames_ok_same [OF sp(1)] by (simp add: vm_ok_def)
    moreover have "frame_bytes (k_mem s') ?p = fresh_page as img v"
      using F(3) seg by (simp add: frame_bytes_def fresh_page_def)
    moreover have "sw_look s' l = sw_look s l" for l by (rule sw_look_cong [OF P(5) sp(2)])
    moreover have "frame_bytes (k_mem s') (frame_addr s (int q)) = frame_bytes (k_mem s) (frame_addr s (int q))"
      if "q < npt s" "q \<noteq> p" for q
      by (rule frame_bytes_other [OF D(4,8) p that(1)]) (use that F(4) in auto)
    ultimately show ?thesis
      using F(1) None look sp(1) by (intro exI [of _ s']) simp
  qed
qed

section \<open>Finding a frame\<close>

lemma vm_ok_clr_set:
  assumes "vm_ok as s" "A \<subseteq> {..<npt s}"
  shows "vm_ok as (clr_set A s)"
proof -
  note D = vm_okD [OF assms(1)] and S = pt_shapeD [OF vm_okD(2) [OF assms(1)]]
  have e: "user (ents (clr_set A s) ! p) = user (ents s ! p) \<and> ekey (ents (clr_set A s) ! p) = ekey (ents s ! p)"
    if "p < npt s" for p
    using that S(3) by (simp add: user_def ekey_def clr_def)
  have "page_ok as (ekey (ents (clr_set A s) ! p))" if "p \<in> users (npt s) (ents (clr_set A s))" for p
    using that e D(7) [of p] by (auto simp: users_def)
  then show ?thesis using pt_inv_clr_set [OF assms(2) D(1)] D by (simp add: vm_ok_def)
qed

lemma given_clr_set: "given as p k lost (clr_set A s) s' \<Longrightarrow> given as p k lost s s'"
proof -
  have "sw_look (clr_set A s) l = sw_look s l" for l by (rule sw_look_cong) simp_all
  then show "given as p k lost (clr_set A s) s' \<Longrightarrow> given as p k lost s s'"
    unfolding given_def clr_set_fields by simp
qed

text \<open>The page that held the frame before, if there was one, is the page that is lost.\<close>

definition holder :: "'a vm_scheme \<Rightarrow> nat \<Rightarrow> (vaddr \<times> pid) option" where
  "holder s p = (if user (ents s ! p) then Some (ekey (ents s ! p)) else None)"

definition same_balance :: "'a vm_scheme \<Rightarrow> 'a vm_scheme \<Rightarrow> bool" where
  "same_balance s s' \<longleftrightarrow>
     tlb_balance (k_stats s') = tlb_balance (k_stats s) \<and> fault_balance (k_stats s') = fault_balance (k_stats s) \<and>
     disk_balance (k_stats s') = disk_balance (k_stats s)"

lemma claim_frame_ok:
  assumes ok: "vm_ok as s" and free: "free_cells (k_swap s) \<noteq> 0"
    and k: "page_ok as (v, pid)" "ht_lookup (htable s) (v, pid) = None"
    and usable: "\<exists>p < npt s. entry_free (ents s ! p) \<or> evictable (ents s ! p)"
  shows "\<exists>p s'. claim_frame v pid s = Ok (int p, s') \<and> p < npt s \<and> given as p (v, pid) (holder s p) s s'
    \<and> (entry_free (ents s ! p) \<or> evictable (ents s ! p))
    \<and> (\<forall>q < npt s. q \<noteq> p \<longrightarrow> ents s' ! q \<in> {ents s ! q, clr (ents s ! q)}) \<and> same_balance s s'"
proof -
  note D = vm_okD [OF ok] and S = pt_shapeD [OF vm_okD(2) [OF ok]]
  show ?thesis
  proof (cases "find (\<lambda>p. entry_free (ents s ! p)) [0..<npt s]")
    case (Some p)
    then have p: "p < npt s" "entry_free (ents s ! p)" by (auto simp: find_upt_Some)
    then have "holder s p = None" by (simp add: holder_def user_def entry_free_def)
    moreover obtain ht' where "add_in_hash (htable s) v pid (int p) = Ok ht'"
      "given as p (v, pid) None s (upd_entry (int p) (\<lambda>x. \<lparr>page = v, pe_pid = pid,
         ctrl = SetIOBitOne (SetValidityBitOne (ctrl x))\<rparr>) (s\<lparr>htable := ht'\<rparr>))"
      using claim_free_ok [OF ok p k] by blast
    moreover have "int p < nent s" using p(1) S(2) by simp
    ultimately show ?thesis
      using Some p findspace_spec [OF D(2)]
      by (intro exI [of _ p]) (simp add: claim_frame_def same_balance_def)
  next
    case None
    then obtain q where q: "q < npt s" "evictable (ents s ! q)" using usable by (auto simp: find_upt_None)
    then obtain p A where ch: "clock_choice s = Some (p, A)"
      using clock_choice_None [OF D(2)] by (cases "clock_choice s") auto
    note C = clock_choice_evictable [OF D(2) ch]
    have pl: "p < length (ents s)" using C(1) S(3) by simp
    have h: "(if user (ents (clr_set A s) ! p) then Some (ekey (ents (clr_set A s) ! p)) else None) = holder s p"
      using pl by (simp add: holder_def user_def ekey_def clr_def)
    obtain s' where T: "take_victim v pid (int p) (ents (clr_set A s) ! p) (clr_set A s) = Ok (int p, s')"
        "given as p (v, pid) (holder s p) (clr_set A s) s'" "same_balance s s'"
        "ents s' = (ents (clr_set A s))[p := \<lparr>page = v, pe_pid = pid,
           ctrl = SetValidityBitOne (SetIOBitOne (ctrl (ents (clr_set A s) ! p)))\<rparr>]"
      using take_victim_ok [OF vm_ok_clr_set [OF ok C(2)], of p v pid] free C(1,4) k
      unfolding h by (auto simp: same_balance_def)
    have "ents s' ! q \<in> {ents s ! q, clr (ents s ! q)}" if "q < npt s" "q \<noteq> p" for q
      using that S(3) by (simp add: T(4))
    moreover have "find_victim v pid s = Ok (int p, s')"
      using T(1) find_victim_choice [OF D(2)] ch by simp
    moreover have g: "given as p (v, pid) (holder s p) s s'" by (rule given_clr_set [OF T(2)])
    moreover have "int p < nent s'"
    proof -
      have "npt s' = npt s" "pt_shape s'" using g vm_okD(2) by (auto simp: given_def)
      then show ?thesis using C(1) pt_shapeD(2) [of s'] by simp
    qed
    ultimately show ?thesis
      using None C(1,3) T(3) findspace_spec [OF D(2)] by (intro exI [of _ p]) (simp add: claim_frame_def)
  qed
qed

section \<open>Transparency\<close>

lemma get_index_lookup:
  assumes "ht_inv ht f" "key_ok (v, p)"
  shows "get_index_from_hash ht v p = Ok (case ht_lookup ht (v, p) of None \<Rightarrow> - 1 | Some i \<Rightarrow> i)"
proof -
  obtain cs us where rep: "ht_rep ht cs us" using assms(1) by (auto simp: ht_inv_def)
  show ?thesis
    using get_index_rep [OF rep assms(2)] by (simp add: ht_lookup_def split: option.splits)
qed

lemma given_vpage:
  assumes ok: "vm_ok as s" and p: "p < npt s" and G: "given as p k (holder s p) s s'"
    and l: "page_ok as l" "l \<noteq> k"
  shows "vpage s' l = vpage s l"
    and "ht_lookup (htable s') l = Some (int q) \<Longrightarrow> q \<noteq> p"
proof -
  note D = vm_okD [OF ok]
  have ht: "ht_lookup (htable s') l = (if holder s p = Some l then None else ht_lookup (htable s) l)"
    using G l(2) by (auto simp: given_def split: option.splits)
  have own: "ht_lookup (htable s) m = Some (int p) \<longleftrightarrow> holder s p = Some m" for m
    using coupled_lookup [OF D(3), of m "int p"] p by (auto simp: holder_def users_def)
  show q: "ht_lookup (htable s') l = Some (int q) \<Longrightarrow> q \<noteq> p" for q
    using ht own [of l] by (auto split: if_splits)
  have fr: "\<forall>q < npt s. frame_bytes (k_mem s') (frame_addr s (int q)) = frame_bytes (k_mem s) (frame_addr s (int q))"
    and fa: "frame_addr s' = frame_addr s"
    and look: "sw_look s' l = (if holder s p = Some l then Some (frame_bytes (k_mem s) (frame_addr s (int p))) else sw_look s l)"
    using G l(1) unfolding given_def by blast+
  show "vpage s' l = vpage s l"
  proof (cases "holder s p = Some l")
    case True
    then show ?thesis using ht own [of l] look by (simp add: vpage_def)
  next
    case False
    show ?thesis
    proof (cases "ht_lookup (htable s) l")
      case None
      then show ?thesis using False ht look by (simp add: vpage_def)
    next
      case (Some i)
      then obtain q where "i = int q" "q < npt s" using coupledD(1) [OF D(3) Some] by (auto simp: users_def)
      then show ?thesis using Some False ht fr fa by (simp add: vpage_def)
    qed
  qed
qed

lemma user_ekey_ctrl:
  assumes "\<And>x. page (f x) = page x \<and> pe_pid (f x) = pe_pid x \<and> GetValidityBit (ctrl (f x)) = GetValidityBit (ctrl x)"
  shows "user (ents (upd_entry i f s) ! q) = user (ents s ! q)" "ekey (ents (upd_entry i f s) ! q) = ekey (ents s ! q)"
proof -
  have "user (f x) = user x \<and> ekey (f x) = ekey x" for x using assms by (simp add: user_def ekey_def)
  then show "user (ents (upd_entry i f s) ! q) = user (ents s ! q)" "ekey (ents (upd_entry i f s) ! q) = ekey (ents s ! q)"
    by (cases "q = nat i"; cases "nat i < length (ents s)"; simp add: list_update_beyond)+
qed

lemma frame_addr_upd_entry [simp]: "frame_addr (upd_entry i f s) = frame_addr s"
  by (simp add: frame_addr_def fun_eq_iff)

lemma vm_ok_ctrl:
  assumes "vm_ok as s" and f: "\<And>x. page (f x) = page x \<and> pe_pid (f x) = pe_pid x
    \<and> GetValidityBit (ctrl (f x)) = GetValidityBit (ctrl x)"
  shows "vm_ok as (upd_entry i f s)" "vpage (upd_entry i f s) l = vpage s l"
proof -
  note D = vm_okD [OF assms(1)] and E = user_ekey_ctrl [of f i s, OF f]
  have "users (npt s) (ents (upd_entry i f s)) = users (npt s) (ents s)" unfolding users_def E by simp
  then have "page_ok as (ekey (ents (upd_entry i f s) ! q))" if "q \<in> users (npt s) (ents (upd_entry i f s))" for q
    using that D(7) unfolding E by simp
  then show "vm_ok as (upd_entry i f s)"
    using pt_inv_ctrl [OF D(1) f] D by (simp add: vm_ok_def del: ents_upd_entry)
  have "sw_look (upd_entry i f s) l = sw_look s l" by (rule sw_look_cong) simp_all
  then show "vpage (upd_entry i f s) l = vpage s l"
    by (cases "ht_lookup (htable s) l") (simp_all add: vpage_def)
qed

lemma frame_addr_signed:
  assumes "frames_ok s" "p < npt s"
  shows "sint (frame_addr s (int p)) \<noteq> - 1" "word_of_int (sint (frame_addr s (int p))) = frame_addr s (int p)"
proof -
  have "unat (frame_addr s (int p)) < 0x20000000"
    using frame_addr_unat(1) [OF assms] assms by (simp add: frames_ok_def)
  moreover have "unat (- 1 :: 32 word) = 4294967295" by (simp add: unsigned_minus_1_eq_mask mask_eq_exp_minus_1)
  ultimately have ne: "frame_addr s (int p) \<noteq> - 1" by force
  show "sint (frame_addr s (int p)) \<noteq> - 1"
  proof
    assume "sint (frame_addr s (int p)) = - 1"
    then have "of_int (sint (frame_addr s (int p))) = (of_int (- 1) :: 32 word)" by (rule arg_cong)
    then show False using ne by simp
  qed
  show "word_of_int (sint (frame_addr s (int p))) = frame_addr s (int p)" by simp
qed

text \<open>What \<open>get_page\<close> owes its caller when it answers frame \<open>p\<close> for page \<open>k\<close>.\<close>

definition served :: "addrspace \<Rightarrow> (nat \<Rightarrow> byte) \<Rightarrow> nat \<Rightarrow> vaddr \<times> pid \<Rightarrow> 'a vm_scheme \<Rightarrow> 'a vm_scheme \<Rightarrow> bool" where
  "served as img p k s s' \<longleftrightarrow>
     p < npt s \<and> vm_ok as s' \<and> npt s' = npt s \<and> frame_addr s' = frame_addr s \<and> k_pid s' = k_pid s \<and>
     k_vnodes s' = k_vnodes s \<and>
     user (ents s' ! p) \<and> ekey (ents s' ! p) = k \<and> GetTlbBit (ctrl (ents s' ! p)) \<and> \<not> GetIOBit (ctrl (ents s' ! p)) \<and>
     frame_bytes (k_mem s') (frame_addr s (int p)) =
       (case vpage s k of Some b \<Rightarrow> b | None \<Rightarrow> fresh_page as img (fst k)) \<and>
     (\<forall>l. page_ok as l \<longrightarrow> l \<noteq> k \<longrightarrow> vpage s' l = vpage s l) \<and>
     (\<forall>q < npt s. q \<noteq> p \<longrightarrow> ents s' ! q \<in> {ents s ! q, clr (ents s ! q)}) \<and>
     (GetTlbBit (ctrl (ents s ! p)) \<longrightarrow> \<not> GetValidityBit (ctrl (ents s ! p))) \<and>
     tlb_balance (k_stats s') = tlb_balance (k_stats s) \<and>
     fault_balance (k_stats s') = fault_balance (k_stats s) - 1 \<and>
     (\<not> text_tail as (fst k) \<longrightarrow> disk_balance (k_stats s') = disk_balance (k_stats s))"

lemma get_page_resident:
  assumes ok: "vm_ok as s" and i: "k_pid s = int i" and k: "page_ok as (v, int i)"
    and p: "ht_lookup (htable s) (v, int i) = Some (int p)"
    and quiet: "\<not> GetTlbBit (ctrl (ents s ! p))" "\<not> GetIOBit (ctrl (ents s ! p))"
  shows "\<exists>s'. get_page v s = Ok (frame_addr s (int p), s') \<and> served as img p (v, int i) s s'"
proof -
  note D = vm_okD [OF ok] and S = pt_shapeD [OF vm_okD(2) [OF ok]]
  have pU: "p < npt s" "user (ents s ! p)" "ekey (ents s ! p) = (v, int i)"
    using coupledD(1) [OF D(3) p] by (auto simp: users_def)
  then have e: "page (ents s ! p) = v" "pe_pid (ents s ! p) = int i" "page (ents s ! p) \<noteq> KMALLOC_PAGE"
    by (auto simp: ekey_def user_def)
  have pl: "p < length (ents s)" using pU(1) S(3) by simp
  let ?u = "upd_entry (int p) (\<lambda>x. x\<lparr>ctrl := SetTlbBitOne (ctrl x)\<rparr>) s"
  let ?s' = "?u\<lparr>k_stats := add_tlb_reload (k_stats s)\<rparr>"
  note sg = frame_addr_signed [OF D(4) pU(1)]
  have "get_index_from_hash (htable s) v (int i) = Ok (int p)"
    using get_index_lookup [OF coupledD(4) [OF D(3)] page_ok_key [OF k]] p by simp
  then have run: "get_page v s = Ok (frame_addr s (int p), ?s')"
    using pl e quiet sg i by (simp add: get_page_def pt_get_paddr_def Let_def kassert_def)
  have U: "vm_ok as ?u" "\<And>l. vpage ?u l = vpage s l" by (intro vm_ok_ctrl [OF ok]; simp)+
  have "vm_ok as ?s'" using U(1) by (simp add: vm_ok_def pt_inv_def pt_shape_def frames_ok_def npt_def)
  moreover have "vpage ?s' l = vpage s l" for l
  proof -
    have "vpage ?s' l = vpage ?u l"
      by (cases "ht_lookup (htable s) l") (simp_all add: vpage_def sw_look_def frame_addr_def cong: option.case_cong)
    then show ?thesis using U(2) by simp
  qed
  ultimately show ?thesis
    using run pU e quiet pl p
    by (intro exI [of _ ?s'])
       (simp add: served_def npt_def frame_addr_def fun_eq_iff user_def ekey_def vpage_def stat_simps)
qed

lemma get_page_absent:
  assumes ok: "vm_ok as s" and i: "k_pid s = int i" and k: "page_ok as (v, int i)"
    and elf: "elf_ok as (k_vnodes s) img len" and free: "free_cells (k_swap s) \<noteq> 0"
    and none: "ht_lookup (htable s) (v, int i) = None"
    and usable: "\<exists>p < npt s. entry_free (ents s ! p) \<or> evictable (ents s ! p)"
  shows "\<exists>p s'. get_page v s = Ok (frame_addr s (int p), s') \<and> served as img p (v, int i) s s'"
proof -
  note D = vm_okD [OF ok] and S = pt_shapeD [OF vm_okD(2) [OF ok]]
  obtain p s1 where C: "claim_frame v (int i) s = Ok (int p, s1)" "p < npt s"
      "given as p (v, int i) (holder s p) s s1" "entry_free (ents s ! p) \<or> evictable (ents s ! p)"
      "\<forall>q < npt s. q \<noteq> p \<longrightarrow> ents s1 ! q \<in> {ents s ! q, clr (ents s ! q)}" "same_balance s s1"
    using claim_frame_ok [OF ok free k none usable] by blast
  have G: "vm_ok as s1" "npt s1 = npt s" "frame_addr s1 = frame_addr s" "k_pid s1 = int i" "k_vnodes s1 = k_vnodes s"
      "user (ents s1 ! p)" "ekey (ents s1 ! p) = (v, int i)"
      "ht_lookup (htable s1) (v, int i) = Some (int p)"
    using C(3) i unfolding given_def by simp_all
  have look1: "sw_look s1 (v, int i) = sw_look s (v, int i)"
  proof -
    have "holder s p \<noteq> Some (v, int i)"
      using none coupledD(2) [OF D(3), of p] C(2) by (auto simp: holder_def users_def)
    then show ?thesis using C(3) k unfolding given_def by simp
  qed
  obtain s2 where L: "load_page v (int i) (frame_addr s (int p)) s1 = Ok (0, s2)" "same_proc s1 s2" "vm_ok as s2"
      "frame_bytes (k_mem s2) (frame_addr s (int p)) =
         (case sw_look s1 (v, int i) of Some b \<Rightarrow> b | None \<Rightarrow> fresh_page as img v)"
      "\<forall>q < npt s. q \<noteq> p \<longrightarrow> frame_bytes (k_mem s2) (frame_addr s (int q)) = frame_bytes (k_mem s1) (frame_addr s (int q))"
      "\<forall>l. page_ok as l \<longrightarrow> l \<noteq> (v, int i) \<longrightarrow> sw_look s2 l = sw_look s1 l"
    using load_into_frame [OF G(1), of p i v img len] C(2) G k elf by auto
  note P = same_proc_vm [OF L(2)]
  let ?f = "\<lambda>x :: pt_entry. x\<lparr>ctrl := SetTlbBitOne (SetIOBitZero (ctrl x))\<rparr>"
  let ?s' = "upd_entry (int p) ?f s2"
  have pl: "p < length (ents s1)" "p < length (ents s2)" using C(2) G(1,2) P(1) pt_shapeD(3) [OF vm_okD(2) [OF G(1)]] by auto
  have run: "get_page v s = Ok (frame_addr s (int p), ?s')"
    using get_index_lookup [OF coupledD(4) [OF D(3)] page_ok_key [OF k]] none C(1) G pl L(1) i
    by (simp add: get_page_def pt_get_paddr_def Let_def kassert_def user_def)
  have other: "vpage ?s' l = vpage s l" if l: "page_ok as l" "l \<noteq> (v, int i)" for l
  proof -
    have "vpage ?s' l = vpage s2 l" by (rule vm_ok_ctrl(2) [OF L(3)]) simp
    also have "\<dots> = vpage s1 l"
    proof (cases "ht_lookup (htable s1) l")
      case None
      moreover have "sw_look s2 l = sw_look s1 l" using L(6) l by blast
      ultimately show ?thesis using P(2) by (simp add: vpage_def)
    next
      case (Some j)
      then obtain q where q: "j = int q" "q < npt s"
        using coupledD(1) [OF vm_okD(3) [OF G(1)] Some] G(2) by (auto simp: users_def)
      moreover have "q \<noteq> p" using given_vpage(2) [OF ok C(2,3) l] Some q(1) by simp
      ultimately show ?thesis using Some L(5) P(2,8) G(3) by (simp add: vpage_def)
    qed
    also have "\<dots> = vpage s l" by (rule given_vpage(1) [OF ok C(2,3) l])
    finally show ?thesis .
  qed
  have ok': "vm_ok as ?s'" by (rule vm_ok_ctrl(1) [OF L(3)]) simp
  have bal: "tlb_balance (k_stats ?s') = tlb_balance (k_stats s)" "fault_balance (k_stats ?s') = fault_balance (k_stats s) - 1"
      "\<not> text_tail as v \<Longrightarrow> disk_balance (k_stats ?s') = disk_balance (k_stats s)"
    using load_page_balance [OF L(1) vm_okD(6) [OF G(1)]] C(6) by (simp_all add: same_balance_def)
  have notlb: "GetTlbBit (ctrl (ents s ! p)) \<longrightarrow> \<not> GetValidityBit (ctrl (ents s ! p))"
    using C(4) by (auto simp: entry_free_def evictable_def)
  have bytes: "frame_bytes (k_mem ?s') (frame_addr s (int p)) =
      (case vpage s (v, int i) of Some b \<Rightarrow> b | None \<Rightarrow> fresh_page as img (fst (v, int i)))"
    using L(4) none look1 by (simp add: vpage_def fst_conv cong: option.case_cong)
  have e': "ents ?s' ! p = ?f (ents s1 ! p)" "\<forall>q < npt s. q \<noteq> p \<longrightarrow> ents ?s' ! q \<in> {ents s ! q, clr (ents s ! q)}"
    using pl P(1) C(5) by simp_all
  have "served as img p (v, int i) s ?s'"
    unfolding served_def e'(1)
    using C(2) i ok' G(2-7) P e'(2) other bal notlb bytes by (simp add: user_def ekey_def)
  then show ?thesis using run by blast
qed

text \<open>A page is usable now if it is resident and idle, or if some frame can be given to it.\<close>

definition can_serve :: "vaddr \<times> pid \<Rightarrow> 'a vm_scheme \<Rightarrow> bool" where
  "can_serve k s \<longleftrightarrow>
     (case ht_lookup (htable s) k of
        Some i \<Rightarrow> \<not> GetTlbBit (ctrl (ents s ! nat i)) \<and> \<not> GetIOBit (ctrl (ents s ! nat i))
      | None \<Rightarrow> free_cells (k_swap s) \<noteq> 0 \<and> (\<exists>p < npt s. entry_free (ents s ! p) \<or> evictable (ents s ! p)))"

lemma get_page_served:
  assumes "vm_ok as s" "k_pid s = int i" "page_ok as (v, int i)" "elf_ok as (k_vnodes s) img len"
    and "can_serve (v, int i) s"
  shows "\<exists>p s'. get_page v s = Ok (frame_addr s (int p), s') \<and> served as img p (v, int i) s s'"
proof (cases "ht_lookup (htable s) (v, int i)")
  case None
  then show ?thesis using assms(5) by (intro get_page_absent [OF assms(1-4)]) (auto simp: can_serve_def)
next
  case (Some j)
  obtain p where "j = int p" using coupledD(1) [OF vm_okD(3) [OF assms(1)] Some] by auto
  then have "\<exists>s'. get_page v s = Ok (frame_addr s (int p), s') \<and> served as img p (v, int i) s s'"
    using Some assms(5) by (intro get_page_resident [OF assms(1-3)]) (auto simp: can_serve_def)
  then show ?thesis by blast
qed

section \<open>A system of two frames\<close>

text \<open>
  Process 1 has a text page in frame 0, unreferenced, and a stack page in frame 1 that the TLB
  maps; its first text page is in the swap file.
\<close>

definition ex_entries :: "pt_entry list" where
  "ex_entries = [\<lparr>page = 0x401000, pe_pid = 1, ctrl = 1\<rparr>, \<lparr>page = 0x7ffff000, pe_pid = 1, ctrl = 5\<rparr>]"

definition ex_ht :: hash_table where
  "ex_ht =
     (case kbind (init_with 2 0x80001000 ex_cells ex_heap) (\<lambda>ht.
             kbind (add_in_hash ht 0x401000 1 0) (\<lambda>ht. add_in_hash ht 0x7ffff000 1 1)) of
        Ok ht \<Rightarrow> ht
      | Fail x \<Rightarrow> \<lparr>ht_mem = ex_heap, ht_table = [], ht_size = 0, unused_ptr_list = NULL\<rparr>)"

definition ex_vm :: vm where
  "ex_vm = \<lparr>k_mem = k_mem ex_elf_sys, k_stats = k_stats ex_elf_sys, k_swap = k_swap ex_elf_sys,
     k_vnodes = k_vnodes ex_elf_sys, k_pid = 1, k_as = Some ex_elf_as, k_uc = k_uc ex_elf_sys,
     page_table = \<lparr>entries = ex_entries, n_entry = 2, first_free_paddr = 0x100000, contiguous = [- 1, - 1]\<rparr>,
     lastIndex = 0, pt_active = True, htable = ex_ht, firstpaddr = 0, lastpaddr = 0\<rparr>"

lemma ex_coupled: "coupled ex_ht 2 ex_entries"
proof -
  let ?z = "\<lparr>page = 0, pe_pid = 0, ctrl = 0\<rparr> :: pt_entry"
  obtain h0 where h0: "init_with 2 0x80001000 ex_cells ex_heap = Ok h0" "ht_inv h0 2" "ht_lookup h0 = Map.empty"
    using ex_table by metis
  have U0: "users 2 [?z, ?z] = {}" by (auto simp: users_def user_def dest!: less_2_cases)
  then have C0: "coupled h0 2 [?z, ?z]" using h0 by (simp add: coupled_def)
  obtain h1 where h1: "add_in_hash h0 0x401000 1 0 = Ok h1" "coupled h1 2 [ex_entries ! 0, ?z]"
      "ht_lookup h1 = [(0x401000, 1) \<mapsto> 0]"
    using coupled_add [OF C0, of 0 "ex_entries ! 0" "(0x401000, 1)"] h0(3)
    by (auto simp: user_def ekey_def ex_entries_def GetValidityBit_def KMALLOC_PAGE_def key_ok_def)
  obtain h2 where "add_in_hash h1 0x7ffff000 1 1 = Ok h2" "coupled h2 2 [ex_entries ! 0, ex_entries ! 1]"
    using coupled_add [OF h1(2), of 1 "ex_entries ! 1" "(0x7ffff000, 1)"] h1(3)
    by (auto simp: user_def ekey_def ex_entries_def GetValidityBit_def KMALLOC_PAGE_def key_ok_def)
  then show ?thesis using h0(1) h1(1) by (simp add: ex_ht_def ex_entries_def)
qed

lemma ex_vm_ok: "vm_ok ex_elf_as ex_vm"
proof -
  have n: "npt ex_vm = 2" "page_table ex_vm = \<lparr>entries = ex_entries, n_entry = 2, first_free_paddr = 0x100000, contiguous = [- 1, - 1]\<rparr>"
    by (simp_all add: npt_def ex_vm_def)
  have "one_seg ex_elf_as 0x401000 Text" "one_seg ex_elf_as 0x7ffff000 Stack"
    using ex_sys_facts(8,9) by (simp_all add: ex_elf_as_def one_seg_def in_text_def in_data_def above_data_def)
  then have "page_ok ex_elf_as (ekey (ex_entries ! p))" if "p < 2" for p
    using that by (auto simp: less_2_cases_iff page_ok_def ekey_def ex_entries_def MAX_PROC_def vm_consts KMALLOC_PAGE_def)
  moreover have "frames_ok ex_vm"
    by (simp add: frames_ok_def n) (simp add: ex_vm_def ex_elf_sys_def ex_sys_def ex_swap_def ex_lhd_def)
  moreover have "pt_inv ex_vm"
    using ex_coupled by (simp add: pt_inv_def pt_shape_def n) (simp add: ex_vm_def ex_entries_def)
  moreover have "swap_inv (k_swap ex_vm)" using ex_elf_facts(1) by (simp add: ex_vm_def)
  moreover have "k_as ex_vm = Some ex_elf_as" by (simp add: ex_vm_def)
  ultimately show ?thesis by (simp add: vm_ok_def n users_def)
qed

lemma ex_vm_facts:
  "k_pid ex_vm = int 1" "page_ok ex_elf_as (0x400000, 1)" "page_ok ex_elf_as (0x401000, 1)"
  "elf_ok ex_elf_as (k_vnodes ex_vm) (\<lambda>k. of_nat k) 20000"
  "ht_lookup (htable ex_vm) (0x400000, 1) = None" "ht_lookup (htable ex_vm) (0x401000, 1) = Some 0"
  "vpage ex_vm (0x400000, 1) = Some (map (disk_page ex_lhd 0) [0..<4096])" "can_serve (0x400000, 1) ex_vm"
proof -
  show "k_pid ex_vm = int 1" by (simp add: ex_vm_def)
  have seg: "one_seg ex_elf_as 0x400000 Text" "one_seg ex_elf_as 0x401000 Text"
    using ex_sys_facts(7,8) by (simp_all add: ex_elf_as_def one_seg_def in_text_def in_data_def above_data_def)
  then show "page_ok ex_elf_as (0x400000, 1)" "page_ok ex_elf_as (0x401000, 1)"
    by (auto simp: page_ok_def MAX_PROC_def vm_consts KMALLOC_PAGE_def)
  show "elf_ok ex_elf_as (k_vnodes ex_vm) (\<lambda>k. of_nat k) 20000"
    using ex_elf_facts(6-11) by (simp add: elf_ok_def ex_vm_def)
  have n: "npt ex_vm = 2" "ents ex_vm = ex_entries" "htable ex_vm = ex_ht" by (simp_all add: npt_def ex_vm_def)
  have "ht_lookup ex_ht k = Some j \<longleftrightarrow> (\<exists>p \<in> {0, 1}. j = int p \<and> ekey (ex_entries ! p) = k)" for k j
  proof -
    have "users 2 ex_entries = {0, 1}"
      by (auto simp: users_def user_def ex_entries_def GetValidityBit_def KMALLOC_PAGE_def less_2_cases_iff)
    then show ?thesis using coupled_lookup [OF ex_coupled, of k j] by (simp only:)
  qed
  then have "ht_lookup ex_ht (0x400000, 1) \<noteq> Some j" "ht_lookup ex_ht (0x401000, 1) = Some 0" for j
    by (auto simp: ekey_def ex_entries_def)
  then show no: "ht_lookup (htable ex_vm) (0x400000, 1) = None" and "ht_lookup (htable ex_vm) (0x401000, 1) = Some 0"
    using n(3) by auto
  have "sw_look ex_vm (0x400000, 1) = Some (map (disk_page ex_lhd 0) [0..<4096])"
    using ex_sys_facts(13) one_seg_unique [OF seg(1)]
    by (simp add: sw_look_def ex_vm_def ex_elf_sys_def)
  then show "vpage ex_vm (0x400000, 1) = Some (map (disk_page ex_lhd 0) [0..<4096])"
    using no by (simp add: vpage_def)
  have "free_cells (k_swap ex_vm) = 1" using ex_sys_facts(3) by (simp add: ex_vm_def ex_elf_sys_def)
  moreover have "evictable (ex_entries ! 0)"
    by (simp add: evictable_def ex_entries_def get_bits KMALLOC_PAGE_def)
  ultimately show "can_serve (0x400000, 1) ex_vm"
    using no n by (auto simp: can_serve_def intro!: exI [of _ 0])
qed

lemma ex_vm_clock: "pt_shape ex_vm" "npt ex_vm = 2" "ents ex_vm = ex_entries" "clock_choice ex_vm = Some (0, {})"
  "\<not> entry_free (ex_entries ! 0)" "\<not> entry_free (ex_entries ! 1)"
proof -
  show sh: "pt_shape ex_vm" using ex_vm_ok by (simp add: vm_ok_def pt_inv_def)
  show n: "npt ex_vm = 2" and e: "ents ex_vm = ex_entries" by (simp_all add: npt_def ex_vm_def)
  have "hand ex_vm 0 0 = 0" "nat (lastIndex ex_vm) = 0" by (simp_all add: hand_def n ex_vm_def)
  moreover have "ripe (ex_entries ! 0)"
    by (simp add: ripe_def evictable_def ex_entries_def get_bits KMALLOC_PAGE_def)
  ultimately show "clock_choice ex_vm = Some (0, {})"
    by (simp add: clock_choice_def Let_def e n upt_rec [of 0])
  show "\<not> entry_free (ex_entries ! 0)" "\<not> entry_free (ex_entries ! 1)"
    by (simp_all add: entry_free_def ex_entries_def get_bits)
qed

section \<open>Properties\<close>

theorem find_victim_second_chance_witness:
  "find_victim 0x400000 1 ex_vm = take_victim 0x400000 1 0 (ex_entries ! 0) ex_vm"
  using find_victim_second_chance [OF ex_vm_clock(1), of "0x400000" 1] ex_vm_clock(3,4)
  by (simp add: clr_set_empty)

theorem clock_choice_sound_witness:
  "clock_choice ex_vm = Some (0, {}) \<and> \<not> GetTlbBit (ctrl (ex_entries ! 0)) \<and> page (ex_entries ! 0) \<noteq> KMALLOC_PAGE"
  using clock_choice_sound [OF ex_vm_clock(1)] ex_vm_clock(3,4) by auto

theorem findspace_first_witness: "findspace ex_vm = Ok (- 1)"
proof -
  have "find (\<lambda>p. entry_free (ents ex_vm ! p)) [0..<npt ex_vm] = None"
    using ex_vm_clock(2,3,5,6) by (auto simp: find_upt_None less_2_cases_iff)
  then show ?thesis using findspace_first [OF ex_vm_clock(1)] by simp
qed

text \<open>
  (C2) Paging is transparent. On every state that satisfies the invariants, for a page of the
  current process that can be served, \<open>get_page\<close> returns the address of a frame of the page
  table that now holds, and is indexed for, that page: its contents are the ones the page had in
  memory or in the swap file, else the initial contents given by the executable. The logical
  contents of every other page (those evicted included) are unchanged, the invariants hold
  again and the frame is marked as mapped by the TLB.
\<close>

theorem get_page_transparent:
  assumes "vm_ok as s" "k_pid s = int i" "page_ok as (v, int i)" "elf_ok as (k_vnodes s) img len"
    and "can_serve (v, int i) s"
  shows "\<exists>p s'. get_page v s = Ok (frame_addr s (int p), s') \<and> p < npt s \<and> vm_ok as s'
    \<and> ht_lookup (htable s') (v, int i) = Some (int p) \<and> GetTlbBit (ctrl (ents s' ! p))
    \<and> vpage s' (v, int i) = Some (case vpage s (v, int i) of Some b \<Rightarrow> b | None \<Rightarrow> fresh_page as img v)
    \<and> (\<forall>l. page_ok as l \<longrightarrow> l \<noteq> (v, int i) \<longrightarrow> vpage s' l = vpage s l)"
proof -
  obtain p s' where G: "get_page v s = Ok (frame_addr s (int p), s')" "served as img p (v, int i) s s'"
    using get_page_served [OF assms] by blast
  have S: "p < npt s" "vm_ok as s'" "npt s' = npt s" "frame_addr s' = frame_addr s" "user (ents s' ! p)"
      "ekey (ents s' ! p) = (v, int i)" "GetTlbBit (ctrl (ents s' ! p))"
      "frame_bytes (k_mem s') (frame_addr s (int p)) =
         (case vpage s (v, int i) of Some b \<Rightarrow> b | None \<Rightarrow> fresh_page as img v)"
      "\<forall>l. page_ok as l \<longrightarrow> l \<noteq> (v, int i) \<longrightarrow> vpage s' l = vpage s l"
    using G(2) unfolding served_def fst_conv by blast+
  have "ht_lookup (htable s') (v, int i) = Some (int p)"
    using coupledD(2) [OF vm_okD(3) [OF S(2)], of p] S by (simp add: users_def)
  then show ?thesis using G(1) S by (intro exI [of _ p] exI [of _ s']) (simp add: vpage_def)
qed

theorem get_page_transparent_witness:
  "\<exists>p s'. get_page 0x400000 ex_vm = Ok (frame_addr ex_vm (int p), s') \<and> vm_ok ex_elf_as s'
     \<and> vpage s' (0x400000, 1) = Some (map (disk_page ex_lhd 0) [0..<4096])
     \<and> vpage s' (0x401000, 1) = Some (frame_bytes (k_mem ex_vm) (frame_addr ex_vm 0))"
proof -
  have "vpage ex_vm (0x401000, 1) = Some (frame_bytes (k_mem ex_vm) (frame_addr ex_vm 0))"
    using ex_vm_facts(6) by (simp add: vpage_def)
  then show ?thesis
    using get_page_transparent [OF ex_vm_ok ex_vm_facts(1) _ ex_vm_facts(4), of "0x400000"] ex_vm_facts
    by fastforce
qed

end
