(* ===== verification/TLB.thy ===== *)
theory TLB
  imports VM_Paging
begin

unbundle bit_operations_syntax

text \<open>
  The software side of the MIPS TLB (\<^verbatim>\<open>kern/vm/vm_tlb.c\<close>): the fault handler,
  insertion with round-robin replacement, invalidation. The hardware is 64 pairs of words that
  \<open>tlb_write\<close> sets and \<open>tlb_read\<close> returns. The invariant \<open>tlb_ok\<close> says that the TLB maps only
  pages of the current process, to the frames the page table gives them, and that the page table
  knows which pages the TLB maps; a fault keeps it.
\<close>

section \<open>Hardware\<close>

definition NUM_TLB :: nat where "NUM_TLB = 64"
definition TLBLO_PPAGE :: "32 word" where "TLBLO_PPAGE = 0xfffff000"
definition TLBLO_DIRTY :: "32 word" where "TLBLO_DIRTY = 0x400"
definition TLBLO_VALID :: "32 word" where "TLBLO_VALID = 0x200"
definition TLBLO_INVALID :: "32 word" where "TLBLO_INVALID = 0"

definition TLBHI_INVALID :: "nat \<Rightarrow> 32 word" where
  "TLBHI_INVALID entryno = push_bit 12 (0x80000 + of_nat entryno)"

definition VM_FAULT_READ :: int where "VM_FAULT_READ = 0"
definition VM_FAULT_WRITE :: int where "VM_FAULT_WRITE = 1"
definition VM_FAULT_READONLY :: int where "VM_FAULT_READONLY = 2"

text \<open>\<open>next_victim\<close> is the static variable of \<open>tlb_victim\<close>, \<open>previous_pid\<close> the global one.\<close>

record tlb_state =
  tlb :: "(32 word \<times> 32 word) list"
  next_victim :: "32 word"
  previous_pid :: pid

text \<open>The index register has six bits.\<close>

definition tlb_write :: "32 word \<Rightarrow> 32 word \<Rightarrow> nat \<Rightarrow> tlb_state \<Rightarrow> tlb_state" where
  "tlb_write hi lo i t = t\<lparr>tlb := (tlb t)[i mod NUM_TLB := (hi, lo)]\<rparr>"

definition tlb_read :: "nat \<Rightarrow> tlb_state \<Rightarrow> 32 word \<times> 32 word" where
  "tlb_read i t = tlb t ! (i mod NUM_TLB)"

section \<open>Operations\<close>

definition tlb_entry_is_valid :: "nat \<Rightarrow> tlb_state \<Rightarrow> bool" where
  "tlb_entry_is_valid i t = (let (hi, lo) = tlb_read i t in lo AND TLBLO_VALID \<noteq> 0)"

definition tlb_victim :: "tlb_state \<Rightarrow> nat \<times> tlb_state" where
  "tlb_victim t = (unat (next_victim t), t\<lparr>next_victim := (next_victim t + 1) mod of_nat NUM_TLB\<rparr>)"

definition segment_is_readonly :: "vaddr \<Rightarrow> 'a ksys_scheme \<Rightarrow> bool kres" where
  "segment_is_readonly v s =
     (case k_as s of
        None \<Rightarrow> Fail NullDeref
      | Some as \<Rightarrow>
          let first_text_vaddr = as_vbase1 as;
              last_text_vaddr = as_npages1 as * PAGE_SIZE + first_text_vaddr
          in Ok (v \<ge> first_text_vaddr \<and> v \<le> last_text_vaddr))"

definition count_tlb_fault :: "int \<Rightarrow> 'a ksys_scheme \<Rightarrow> 'a ksys_scheme" where
  "count_tlb_fault c s = s\<lparr>k_stats := add_tlb_fault c (k_stats s)\<rparr>"

definition tlb_insert :: "vaddr \<Rightarrow> paddr \<Rightarrow> tlb_state \<Rightarrow> 'a vm_scheme \<Rightarrow> (int \<times> tlb_state \<times> 'a vm_scheme) kres" where
  "tlb_insert faultvaddr faultpaddr t s =
     kbind (segment_is_readonly faultvaddr s) (\<lambda>readonly.
       let hi = faultvaddr;
           lo = (if readonly then faultpaddr OR TLBLO_VALID else faultpaddr OR TLBLO_VALID OR TLBLO_DIRTY)
       in case find (\<lambda>entry. \<not> tlb_entry_is_valid entry t) [0..<NUM_TLB] of
            Some entry \<Rightarrow> Ok (0, tlb_write hi lo entry t, count_tlb_fault FREE_FAULT s)
          | None \<Rightarrow>
              let (entry, t) = tlb_victim t;
                  (prevHi, prevLo) = tlb_read entry t
              in kbind (update_tlb_bit prevHi (k_pid s) s) (\<lambda>(r, s).
                   Ok (0, tlb_write hi lo entry t, count_tlb_fault REPLACE_FAULT s)))"

text \<open>A write to a page mapped read-only ends the process.\<close>

definition vm_fault :: "int \<Rightarrow> vaddr \<Rightarrow> tlb_state \<Rightarrow> 'a vm_scheme \<Rightarrow> (int \<times> tlb_state \<times> 'a vm_scheme) kres" where
  "vm_fault faulttype faultaddress t s =
     (let v = faultaddress AND PAGE_FRAME;
          s = count_tlb_fault FAULT s
      in if faulttype = VM_FAULT_READONLY then Fail (ProcExit 0)
         else kassert (as_is_ok (k_as s) = 1)
           (kbind (get_page v s) (\<lambda>(paddr, s).
            kbind (tlb_insert v paddr t s) (\<lambda>(r, t, s). Ok (0, t, s)))))"

definition tlb_invalidate_entry :: "paddr \<Rightarrow> tlb_state \<Rightarrow> tlb_state" where
  "tlb_invalidate_entry paddr t =
     (let frame_addr = paddr AND TLBLO_PPAGE
      in fold (\<lambda>i t.
           let (hi, lo) = tlb_read i t
           in if lo AND TLBLO_PPAGE = frame_addr then tlb_write (TLBHI_INVALID i) TLBLO_INVALID i t else t)
         [0..<NUM_TLB] t)"

definition invalidate_one :: "nat \<Rightarrow> tlb_state \<times> 'a vm_scheme \<Rightarrow> (tlb_state \<times> 'a vm_scheme) kres" where
  "invalidate_one i = (\<lambda>(t, s).
     kbind (if tlb_entry_is_valid i t
            then let (hi, lo) = tlb_read i t
                 in kbind (update_tlb_bit hi (previous_pid t) s) (\<lambda>(r, s). Ok s)
            else Ok s) (\<lambda>s.
       Ok (tlb_write (TLBHI_INVALID i) TLBLO_INVALID i t, s)))"

definition tlb_invalidate_all :: "tlb_state \<Rightarrow> 'a vm_scheme \<Rightarrow> (tlb_state \<times> 'a vm_scheme) kres" where
  "tlb_invalidate_all t s =
     (let pid = k_pid s
      in if previous_pid t \<noteq> pid
         then kbind (kfold invalidate_one [0..<NUM_TLB] (t, s\<lparr>k_stats := add_tlb_invalidation (k_stats s)\<rparr>)) (\<lambda>(t, s).
                Ok (t\<lparr>previous_pid := pid\<rparr>, s))
         else Ok (t, s))"

section \<open>Notifying the page table\<close>

lemma update_tlb_from_skip:
  assumes "npt s \<le> length (ents s)" "k \<le> q" "q \<le> npt s"
    and "\<And>r. k \<le> r \<Longrightarrow> r < q \<Longrightarrow> \<not> (pe_pid (ents s ! r) = p \<and> page (ents s ! r) = v \<and> GetValidityBit (ctrl (ents s ! r)))"
  shows "update_tlb_from (int k) v p s = update_tlb_from (int q) v p s"
  using assms(2-)
proof (induction "q - k" arbitrary: k)
  case (Suc d)
  then have k: "k < q" by simp
  have "update_tlb_from (int k) v p s = update_tlb_from (int (Suc k)) v p s"
    using k Suc.prems(2) Suc.prems(3) [of k] assms(1)
    by (subst update_tlb_from.simps) (auto simp: npt_def add.commute)
  also have "\<dots> = update_tlb_from (int q) v p s"
    using Suc k by (intro Suc.hyps) auto
  finally show ?case .
qed simp

lemma update_tlb_bit_found:
  assumes inv: "pt_inv s" and q: "q \<in> users (npt s) (ents s)" "ekey (ents s ! q) = (v, p)" "GetTlbBit (ctrl (ents s ! q))"
    and v: "v \<noteq> KMALLOC_PAGE"
  shows "update_tlb_bit v p s =
    Ok (1, upd_entry (int q) (\<lambda>x. x\<lparr>ctrl := SetReferenceBitOne (SetTlbBitZero (ctrl x))\<rparr>) s)"
proof -
  note S = pt_shapeD [of s]
  have sh: "pt_shape s" and C: "coupled (htable s) (npt s) (ents s)" using inv by (auto simp: pt_inv_def)
  have qn: "q < npt s" "user (ents s ! q)" using q(1) by (auto simp: users_def)
  have uniq: "r = q" if "r < npt s" "pe_pid (ents s ! r) = p" "page (ents s ! r) = v" "GetValidityBit (ctrl (ents s ! r))" for r
  proof -
    have "r \<in> users (npt s) (ents s)" "ekey (ents s ! r) = (v, p)"
      using that v by (auto simp: users_def user_def ekey_def)
    then show ?thesis using coupledD(2) [OF C] q(1,2) by (metis of_nat_eq_iff option.inject)
  qed
  have no: "\<not> (pe_pid (ents s ! r) = p \<and> page (ents s ! r) = v \<and> GetValidityBit (ctrl (ents s ! r)))" if "r < q" for r
    using uniq [of r] that qn(1) by auto
  have "update_tlb_bit v p s = update_tlb_from (int q) v p s"
    unfolding update_tlb_bit_def
    using update_tlb_from_skip [of s 0 q p v] S(3) [OF sh] qn(1) no by simp
  also have "\<dots> = Ok (1, upd_entry (int q) (\<lambda>x. x\<lparr>ctrl := SetReferenceBitOne (SetTlbBitZero (ctrl x))\<rparr>) s)"
  proof -
    have "int q < nent s" "q < length (ents s)" using qn(1) S(2,3) [OF sh] by auto
    then show ?thesis
      using qn(2) q(2,3) v by (subst update_tlb_from.simps) (auto simp: user_def ekey_def)
  qed
  finally show ?thesis .
qed

lemma update_tlb_bit_absent:
  assumes sh: "pt_shape s"
    and none: "\<And>r. r < npt s \<Longrightarrow> \<not> (pe_pid (ents s ! r) = p \<and> page (ents s ! r) = v \<and> GetValidityBit (ctrl (ents s ! r)))"
  shows "update_tlb_bit v p s = Ok (- 1, s)"
proof -
  have "update_tlb_bit v p s = update_tlb_from (int (npt s)) v p s"
    unfolding update_tlb_bit_def
    using update_tlb_from_skip [of s 0 "npt s" p v] pt_shapeD(3) [OF sh] none by simp
  also have "\<dots> = Ok (- 1, s)" using pt_shapeD(2) [OF sh] by (subst update_tlb_from.simps) simp
  finally show ?thesis .
qed

section \<open>Coherence\<close>

text \<open>
  \<open>tlb_but P pid\<close>: the TLB maps only pages of process \<open>pid\<close>, to the frames the page table
  gives them, no page twice, and the frames marked as mapped are exactly those it maps; it allows the frames in \<open>P\<close> to be marked as mapped before the TLB maps them, as they are
  between \<open>get_page\<close> and \<open>tlb_insert\<close>.
\<close>

definition tlb_but :: "nat set \<Rightarrow> pid \<Rightarrow> tlb_state \<Rightarrow> 'a vm_scheme \<Rightarrow> bool" where
  "tlb_but P pid t s \<longleftrightarrow>
     length (tlb t) = NUM_TLB \<and> unat (next_victim t) < NUM_TLB \<and>
     unat (first_free_paddr (page_table s)) mod 4096 = 0 \<and>
     (\<forall>i < NUM_TLB. tlb_entry_is_valid i t \<longrightarrow>
        (\<exists>p \<in> users (npt s) (ents s). ekey (ents s ! p) = (fst (tlb t ! i), pid)
           \<and> snd (tlb t ! i) AND TLBLO_PPAGE = frame_addr s (int p) \<and> GetTlbBit (ctrl (ents s ! p)) \<and> p \<notin> P)) \<and>
     (\<forall>i < NUM_TLB. \<forall>j < NUM_TLB. tlb_entry_is_valid i t \<longrightarrow> tlb_entry_is_valid j t \<longrightarrow>
        fst (tlb t ! i) = fst (tlb t ! j) \<longrightarrow> i = j) \<and>
     (\<forall>p < npt s. p \<notin> P \<longrightarrow> GetTlbBit (ctrl (ents s ! p)) \<longrightarrow>
        user (ents s ! p) \<and> pe_pid (ents s ! p) = pid \<and>
        (\<exists>i < NUM_TLB. tlb_entry_is_valid i t \<and> fst (tlb t ! i) = page (ents s ! p)))"

definition tlb_ok :: "tlb_state \<Rightarrow> 'a vm_scheme \<Rightarrow> bool" where
  "tlb_ok t s \<longleftrightarrow> tlb_but {} (k_pid s) t s"

definition tlb_maps :: "tlb_state \<Rightarrow> vaddr \<Rightarrow> bool" where
  "tlb_maps t v \<longleftrightarrow> (\<exists>i < NUM_TLB. tlb_entry_is_valid i t \<and> fst (tlb t ! i) = v)"

lemma tlb_butD:
  assumes "tlb_but P pid t s"
  shows "length (tlb t) = NUM_TLB" "unat (next_victim t) < NUM_TLB"
    "unat (first_free_paddr (page_table s)) mod 4096 = 0"
    "i < NUM_TLB \<Longrightarrow> tlb_entry_is_valid i t \<Longrightarrow>
       \<exists>p \<in> users (npt s) (ents s). ekey (ents s ! p) = (fst (tlb t ! i), pid)
           \<and> snd (tlb t ! i) AND TLBLO_PPAGE = frame_addr s (int p) \<and> GetTlbBit (ctrl (ents s ! p)) \<and> p \<notin> P"
    "i < NUM_TLB \<Longrightarrow> j < NUM_TLB \<Longrightarrow> tlb_entry_is_valid i t \<Longrightarrow> tlb_entry_is_valid j t \<Longrightarrow>
       fst (tlb t ! i) = fst (tlb t ! j) \<Longrightarrow> i = j"
    "p < npt s \<Longrightarrow> p \<notin> P \<Longrightarrow> GetTlbBit (ctrl (ents s ! p)) \<Longrightarrow>
        user (ents s ! p) \<and> pe_pid (ents s ! p) = pid \<and>
        (\<exists>i < NUM_TLB. tlb_entry_is_valid i t \<and> fst (tlb t ! i) = page (ents s ! p))"
  using assms unfolding tlb_but_def by blast+

lemma tlb_valid_read: "i < NUM_TLB \<Longrightarrow> tlb_entry_is_valid i t \<longleftrightarrow> snd (tlb t ! i) AND TLBLO_VALID \<noteq> 0"
  by (simp add: tlb_entry_is_valid_def tlb_read_def split_def)

lemma tlb_write_nth:
  "length (tlb t) = NUM_TLB \<Longrightarrow> i < NUM_TLB \<Longrightarrow> j < NUM_TLB \<Longrightarrow>
     tlb (tlb_write hi lo j t) ! i = (if i = j then (hi, lo) else tlb t ! i)"
  by (simp add: tlb_write_def nth_list_update)

lemma tlb_write_valid:
  "length (tlb t) = NUM_TLB \<Longrightarrow> i < NUM_TLB \<Longrightarrow> j < NUM_TLB \<Longrightarrow>
     tlb_entry_is_valid i (tlb_write hi lo j t) = (if i = j then lo AND TLBLO_VALID \<noteq> 0 else tlb_entry_is_valid i t)"
  by (simp add: tlb_valid_read tlb_write_nth)

lemma tlb_write_fields [simp]:
  "length (tlb (tlb_write hi lo j t)) = length (tlb t)" "next_victim (tlb_write hi lo j t) = next_victim t"
  "previous_pid (tlb_write hi lo j t) = previous_pid t"
  by (simp_all add: tlb_write_def)

text \<open>A page-aligned frame address keeps its value in the low word, next to the flag bits.\<close>

lemma lo_word:
  assumes "unat (p :: 32 word) mod 4096 = 0"
  shows "(p OR TLBLO_VALID) AND TLBLO_PPAGE = p" "(p OR TLBLO_VALID OR TLBLO_DIRTY) AND TLBLO_PPAGE = p"
    "(p OR TLBLO_VALID) AND TLBLO_VALID \<noteq> 0" "(p OR TLBLO_VALID OR TLBLO_DIRTY) AND TLBLO_VALID \<noteq> 0"
proof -
  have "unat (p AND PAGE_FRAME) = unat p" using assms by (simp add: unat_and_PAGE_FRAME)
  then have a: "p AND TLBLO_PPAGE = p" by (simp add: TLBLO_PPAGE_def PAGE_FRAME_def word_unat_eq_iff)
  have z: "TLBLO_VALID AND TLBLO_PPAGE = 0" "TLBLO_DIRTY AND TLBLO_PPAGE = 0"
    by (simp_all add: TLBLO_VALID_def TLBLO_DIRTY_def TLBLO_PPAGE_def)
  show "(p OR TLBLO_VALID) AND TLBLO_PPAGE = p" "(p OR TLBLO_VALID OR TLBLO_DIRTY) AND TLBLO_PPAGE = p"
    by (simp_all add: and.commute [of _ TLBLO_PPAGE] bit.conj_disj_distrib)
       (simp_all add: and.commute [of TLBLO_PPAGE] a z)
  have n: "bit ((p OR x) AND TLBLO_VALID) 9" if "bit x 9" for x
    using that by (simp add: bit_simps TLBLO_VALID_def)
  have "bit TLBLO_VALID 9" "bit (TLBLO_VALID OR TLBLO_DIRTY) 9" by (simp_all add: TLBLO_VALID_def TLBLO_DIRTY_def)
  from this [THEN n] show "(p OR TLBLO_VALID) AND TLBLO_VALID \<noteq> 0" "(p OR TLBLO_VALID OR TLBLO_DIRTY) AND TLBLO_VALID \<noteq> 0"
    by (auto simp: or.assoc)
qed

lemma clr_tlb: "GetTlbBit (ctrl (clr e)) = GetTlbBit (ctrl e)" "GetTlbBit (ctrl e) \<Longrightarrow> clr e = e"
  "page (clr e) = page e" "pe_pid (clr e) = pe_pid e" "user (clr e) = user e"
  by (simp_all add: clr_def evictable_def user_def)

text \<open>The page just brought in is marked, and the TLB does not map it yet.\<close>

lemma served_tlb:
  assumes T: "tlb_ok t s" and V: "served as img p (v, int i) s s'" and ok: "vm_ok as s"
  shows "tlb_but {p} (k_pid s) t s'"
proof -
  note B = tlb_butD [OF T [unfolded tlb_ok_def]]
  have S: "npt s' = npt s" "frame_addr s' = frame_addr s" "k_pid s' = k_pid s" "vm_ok as s'"
      "\<forall>q < npt s. q \<noteq> p \<longrightarrow> ents s' ! q \<in> {ents s ! q, clr (ents s ! q)}"
      "GetTlbBit (ctrl (ents s ! p)) \<longrightarrow> \<not> GetValidityBit (ctrl (ents s ! p))"
    using V unfolding served_def by blast+
  have ff: "first_free_paddr (page_table s') = first_free_paddr (page_table s)"
    using fun_cong [OF S(2), of 0] by (simp add: frame_addr_def)
  have ent: "ents s' ! q = ents s ! q" if "q < npt s" "q \<noteq> p" "GetTlbBit (ctrl (ents s ! q))" for q
    using S(5) that clr_tlb(2) by (metis insertE singletonD)
  have "\<exists>q \<in> users (npt s') (ents s'). ekey (ents s' ! q) = (fst (tlb t ! j), k_pid s')
      \<and> snd (tlb t ! j) AND TLBLO_PPAGE = frame_addr s' (int q) \<and> GetTlbBit (ctrl (ents s' ! q)) \<and> q \<notin> {p}"
    if j: "j < NUM_TLB" "tlb_entry_is_valid j t" for j
  proof -
    obtain q where q: "q \<in> users (npt s) (ents s)" "ekey (ents s ! q) = (fst (tlb t ! j), k_pid s)"
        "snd (tlb t ! j) AND TLBLO_PPAGE = frame_addr s (int q)" "GetTlbBit (ctrl (ents s ! q))"
      using B(4) [OF j] by blast
    have qn: "q < npt s" "user (ents s ! q)" using q(1) by (auto simp: users_def)
    have "q \<noteq> p" using S(6) q(4) qn(2) by (auto simp: user_def)
    then show ?thesis using q qn ent [of q] S(1-3) by (intro bexI [of _ q]) (auto simp: users_def)
  qed
  moreover have "user (ents s' ! q) \<and> pe_pid (ents s' ! q) = k_pid s' \<and>
      (\<exists>i < NUM_TLB. tlb_entry_is_valid i t \<and> fst (tlb t ! i) = page (ents s' ! q))"
    if q: "q < npt s'" "q \<notin> {p}" "GetTlbBit (ctrl (ents s' ! q))" for q
  proof -
    have "GetTlbBit (ctrl (ents s ! q))" using S(1,5) q clr_tlb(1) by (metis insertE singletonD singletonI)
    then show ?thesis using B(6) [of q] ent [of q] q S(1,3) by simp
  qed
  ultimately show ?thesis
    unfolding tlb_but_def using B(1,2,3,5) ff S(3) by auto
qed

lemma tlb_but_stats [simp]: "tlb_but P pid t (count_tlb_fault c s) = tlb_but P pid t s"
  by (simp add: tlb_but_def count_tlb_fault_def npt_def frame_addr_def)

text \<open>Writing the new translation to a slot that is not valid, or that was just given up.\<close>

lemma tlb_write_ok:
  assumes T: "tlb_but {p} (k_pid s) t s" and j: "j < NUM_TLB" "\<not> tlb_entry_is_valid j t"
    and p: "p < npt s" "user (ents s ! p)" "ekey (ents s ! p) = (v, k_pid s)" "GetTlbBit (ctrl (ents s ! p))"
    and lo: "lo AND TLBLO_VALID \<noteq> 0" "lo AND TLBLO_PPAGE = frame_addr s (int p)"
    and new: "\<not> tlb_maps t v"
  shows "tlb_ok (tlb_write v lo j t) s"
proof -
  note B = tlb_butD [OF T]
  let ?t = "tlb_write v lo j t"
  note W = tlb_write_valid [OF B(1) _ j(1), of _ v lo] tlb_write_nth [OF B(1) _ j(1), of _ v lo]
  have val: "tlb_entry_is_valid i ?t \<longleftrightarrow> i = j \<or> tlb_entry_is_valid i t" if "i < NUM_TLB" for i
    using W(1) [OF that] lo(1) j(2) by auto
  have fst: "fst (tlb ?t ! i) = (if i = j then v else fst (tlb t ! i))"
    and snd: "snd (tlb ?t ! i) = (if i = j then lo else snd (tlb t ! i))" if "i < NUM_TLB" for i
    using W(2) [OF that] by simp_all
  have nv: "fst (tlb t ! i) \<noteq> v" if "i < NUM_TLB" "tlb_entry_is_valid i t" for i
    using new that by (auto simp: tlb_maps_def)
  have "\<exists>q \<in> users (npt s) (ents s). ekey (ents s ! q) = (fst (tlb ?t ! i), k_pid s)
      \<and> snd (tlb ?t ! i) AND TLBLO_PPAGE = frame_addr s (int q) \<and> GetTlbBit (ctrl (ents s ! q)) \<and> q \<notin> {}"
    if i: "i < NUM_TLB" "tlb_entry_is_valid i ?t" for i
  proof (cases "i = j")
    case True
    then show ?thesis using p lo(2) fst [OF i(1)] snd [OF i(1)] by (intro bexI [of _ p]) (auto simp: users_def)
  next
    case False
    then show ?thesis using B(4) [OF i(1)] i val [OF i(1)] fst [OF i(1)] snd [OF i(1)] by auto
  qed
  moreover have "i = k" if "i < NUM_TLB" "k < NUM_TLB" "tlb_entry_is_valid i ?t" "tlb_entry_is_valid k ?t"
      "fst (tlb ?t ! i) = fst (tlb ?t ! k)" for i k
  proof (cases "i = j"; cases "k = j")
    assume ne: "i \<noteq> j" "k \<noteq> j"
    then have "tlb_entry_is_valid i t" "tlb_entry_is_valid k t" "fst (tlb t ! i) = fst (tlb t ! k)"
      using that val fst by simp_all
    then show "i = k" using B(5) that(1,2) by blast
  qed (use that val [of i] val [of k] fst [of i] fst [of k] nv [of i] nv [of k] in simp_all)
  moreover have "user (ents s ! q) \<and> pe_pid (ents s ! q) = k_pid s \<and>
      (\<exists>i < NUM_TLB. tlb_entry_is_valid i ?t \<and> fst (tlb ?t ! i) = page (ents s ! q))"
    if q: "q < npt s" "GetTlbBit (ctrl (ents s ! q))" for q
  proof (cases "q = p")
    case True
    then show ?thesis using p j(1) val [OF j(1)] fst [OF j(1)] by (auto simp: ekey_def)
  next
    case False
    then obtain i where i: "user (ents s ! q)" "pe_pid (ents s ! q) = k_pid s" "i < NUM_TLB" "tlb_entry_is_valid i t"
        "fst (tlb t ! i) = page (ents s ! q)"
      using B(6) [of q] q by auto
    then have "i \<noteq> j" using j(2) by auto
    then show ?thesis using i val [OF i(3)] fst [OF i(3)] by auto
  qed
  ultimately show ?thesis
    unfolding tlb_ok_def tlb_but_def using B(1,2,3) by simp
qed

text \<open>Giving up slot \<open>j\<close>: the page table is told, then the slot is overwritten.\<close>

abbreviation unmark :: "nat \<Rightarrow> 'a vm_scheme \<Rightarrow> 'a vm_scheme" where
  "unmark q s \<equiv> upd_entry (int q) (\<lambda>x. x\<lparr>ctrl := SetReferenceBitOne (SetTlbBitZero (ctrl x))\<rparr>) s"

lemma unmark_nth:
  "q < length (ents s) \<Longrightarrow> ents (unmark q s) ! r =
     (if r = q then (ents s ! q)\<lparr>ctrl := SetReferenceBitOne (SetTlbBitZero (ctrl (ents s ! q)))\<rparr> else ents s ! r)"
  by (simp add: nth_list_update)

lemma unmark_user: "user (ents (unmark q s) ! r) = user (ents s ! r)" "ekey (ents (unmark q s) ! r) = ekey (ents s ! r)"
  by (rule user_ekey_ctrl; simp)+

lemma unmark_ok: "vm_ok as s \<Longrightarrow> vm_ok as (unmark q s)" "vm_ok as s \<Longrightarrow> vpage (unmark q s) l = vpage s l"
  by (rule vm_ok_ctrl; simp)+

lemma tlb_give_up:
  assumes T: "tlb_but {p} pid t s" and inv: "pt_inv s" and j: "j < NUM_TLB" "tlb_entry_is_valid j t"
    and km: "fst (tlb t ! j) \<noteq> KMALLOC_PAGE"
  shows "\<exists>q. q < npt s \<and> q \<noteq> p \<and> update_tlb_bit (fst (tlb t ! j)) pid s = Ok (1, unmark q s)
    \<and> tlb_but {p} pid (tlb_write hi 0 j t) (unmark q s)"
proof -
  note B = tlb_butD [OF T]
  have sh: "pt_shape s" and C: "coupled (htable s) (npt s) (ents s)" using inv by (auto simp: pt_inv_def)
  obtain q where q: "q \<in> users (npt s) (ents s)" "ekey (ents s ! q) = (fst (tlb t ! j), pid)"
      "GetTlbBit (ctrl (ents s ! q))" "q \<noteq> p"
    using B(4) [OF j] by auto
  have qn: "q < npt s" "q < length (ents s)" using q(1) pt_shapeD(3) [OF sh] by (auto simp: users_def)
  note run = update_tlb_bit_found [OF inv q(1,2,3) km]
  let ?s = "unmark q s" and ?t = "tlb_write hi 0 j t"
  note N = unmark_nth [OF qn(2)]
  have val: "tlb_entry_is_valid i ?t \<longleftrightarrow> i \<noteq> j \<and> tlb_entry_is_valid i t" if "i < NUM_TLB" for i
    using tlb_write_valid [OF B(1) that j(1), of hi 0] by simp
  have nth: "tlb ?t ! i = tlb t ! i" if "i < NUM_TLB" "i \<noteq> j" for i
    using tlb_write_nth [OF B(1) that(1) j(1), of hi 0] that by simp
  have us: "users (npt s) (ents ?s) = users (npt s) (ents s)" unfolding users_def unmark_user ..
  have "\<exists>r \<in> users (npt s) (ents ?s). ekey (ents ?s ! r) = (fst (tlb ?t ! i), pid)
      \<and> snd (tlb ?t ! i) AND TLBLO_PPAGE = frame_addr s (int r) \<and> GetTlbBit (ctrl (ents ?s ! r)) \<and> r \<notin> {p}"
    if i: "i < NUM_TLB" "tlb_entry_is_valid i ?t" for i
  proof -
    have it: "i \<noteq> j" "tlb_entry_is_valid i t" using i val by auto
    obtain r where r: "r \<in> users (npt s) (ents s)" "ekey (ents s ! r) = (fst (tlb t ! i), pid)"
        "snd (tlb t ! i) AND TLBLO_PPAGE = frame_addr s (int r)" "GetTlbBit (ctrl (ents s ! r))" "r \<notin> {p}"
      using B(4) [OF i(1) it(2)] by blast
    have "r \<noteq> q" using r(2) q(2) B(5) [OF i(1) j(1) it(2) j(2)] it(1) by auto
    then have "GetTlbBit (ctrl (ents ?s ! r))" using r(4) N [of r] by simp
    then show ?thesis using r us nth [OF i(1) it(1)] unmark_user(2) [of q s r] by (intro bexI [of _ r]) simp_all
  qed
  moreover have "i = k" if "i < NUM_TLB" "k < NUM_TLB" "tlb_entry_is_valid i ?t" "tlb_entry_is_valid k ?t"
      "fst (tlb ?t ! i) = fst (tlb ?t ! k)" for i k
    using that val nth B(5) [of i k] by simp
  moreover have "user (ents ?s ! r) \<and> pe_pid (ents ?s ! r) = pid \<and>
      (\<exists>i < NUM_TLB. tlb_entry_is_valid i ?t \<and> fst (tlb ?t ! i) = page (ents ?s ! r))"
    if r: "r < npt s" "r \<notin> {p}" "GetTlbBit (ctrl (ents ?s ! r))" for r
  proof -
    have rq: "r \<noteq> q" using r(3) N [of q] by auto
    then have e: "ents ?s ! r = ents s ! r" using N [of r] by simp
    then obtain i where i: "user (ents s ! r)" "pe_pid (ents s ! r) = pid" "i < NUM_TLB" "tlb_entry_is_valid i t"
        "fst (tlb t ! i) = page (ents s ! r)"
      using B(6) [OF r(1,2)] r(3) by auto
    have "i \<noteq> j"
    proof
      assume "i = j"
      then have k: "ekey (ents s ! r) = ekey (ents s ! q)" using i(2,5) q(2) by (simp add: ekey_def)
      have "r \<in> users (npt s) (ents s)" using r(1) i(1) by (simp add: users_def)
      then have "Some (int r) = Some (int q)" using coupledD(2) [OF C] q(1) k by metis
      then show False using rq by simp
    qed
    then show ?thesis using i e val [OF i(3)] nth [OF i(3)] by auto
  qed
  ultimately have "tlb_but {p} pid ?t ?s"
    unfolding tlb_but_def using B(1,2,3) by (simp del: ents_upd_entry)
  then show ?thesis using run qn(1) q(4) by blast
qed

lemma vm_ok_stats [simp]:
  "vm_ok as (count_tlb_fault c s) = vm_ok as s" "vpage (count_tlb_fault c s) l = vpage s l"
  "npt (count_tlb_fault c s) = npt s" "frame_addr (count_tlb_fault c s) = frame_addr s"
  "page_table (count_tlb_fault c s) = page_table s" "k_pid (count_tlb_fault c s) = k_pid s"
  "k_vnodes (count_tlb_fault c s) = k_vnodes s" "k_swap (count_tlb_fault c s) = k_swap s"
  "htable (count_tlb_fault c s) = htable s" "k_as (count_tlb_fault c s) = k_as s"
  "k_mem (count_tlb_fault c s) = k_mem s" "k_stats (count_tlb_fault c s) = add_tlb_fault c (k_stats s)"
proof -
  show "vm_ok as (count_tlb_fault c s) = vm_ok as s"
    by (simp add: vm_ok_def pt_inv_def pt_shape_def frames_ok_def npt_def count_tlb_fault_def)
  have "sw_look (count_tlb_fault c s) l = sw_look s l" by (rule sw_look_cong) (simp_all add: count_tlb_fault_def)
  then show "vpage (count_tlb_fault c s) l = vpage s l"
    by (cases "ht_lookup (htable s) l") (simp_all add: vpage_def count_tlb_fault_def frame_addr_def)
qed (simp_all add: count_tlb_fault_def npt_def frame_addr_def fun_eq_iff)

lemma tlb_write_twice [simp]: "tlb_write hi lo j (tlb_write hi' lo' j t) = tlb_write hi lo j t"
  by (simp add: tlb_write_def)

text \<open>The low word of a translation: writable unless the page belongs to the text segment.\<close>

definition lo_of :: "addrspace \<Rightarrow> vaddr \<Rightarrow> paddr \<Rightarrow> 32 word" where
  "lo_of as v p = (if in_text as v then p OR TLBLO_VALID else p OR TLBLO_VALID OR TLBLO_DIRTY)"

lemma segment_is_readonly_text: "k_as s = Some as \<Longrightarrow> segment_is_readonly v s = Ok (in_text as v)"
  by (simp add: segment_is_readonly_def in_text_def Let_def add.commute)

lemma lo_of_fields:
  assumes "unat p mod 4096 = 0"
  shows "lo_of as v p AND TLBLO_PPAGE = p" "lo_of as v p AND TLBLO_VALID \<noteq> 0"
  using lo_word [OF assms] by (simp_all add: lo_of_def)

lemma tlb_insert_ok:
  assumes T: "tlb_but {p} (k_pid s) t s" and ok: "vm_ok as s"
    and p: "p < npt s" "user (ents s ! p)" "ekey (ents s ! p) = (v, k_pid s)" "GetTlbBit (ctrl (ents s ! p))"
    and new: "\<not> tlb_maps t v"
  shows "\<exists>j t' s'. tlb_insert v (frame_addr s (int p)) t s = Ok (0, t', s') \<and> vm_ok as s' \<and> tlb_ok t' s'
    \<and> j < NUM_TLB \<and> tlb t' = (tlb t)[j := (v, lo_of as v (frame_addr s (int p)))]
    \<and> (\<forall>l. vpage s' l = vpage s l) \<and> k_pid s' = k_pid s
    \<and> tlb_balance (k_stats s') = tlb_balance (k_stats s) - 1
    \<and> fault_balance (k_stats s') = fault_balance (k_stats s) \<and> disk_balance (k_stats s') = disk_balance (k_stats s)"
proof -
  note B = tlb_butD [OF T] and D = vm_okD [OF ok]
  let ?f = "frame_addr s (int p)"
  let ?lo = "lo_of as v ?f"
  have "unat ?f mod 4096 = 0" using frame_addr_unat(1) [OF D(4) p(1)] B(3) by simp
  note lo = lo_of_fields [OF this, of as v]
  have ro: "(if in_text as v then ?f OR TLBLO_VALID else ?f OR TLBLO_VALID OR TLBLO_DIRTY) = ?lo"
    by (simp add: lo_of_def)
  have ins: "tlb_insert v ?f t s =
      (case find (\<lambda>entry. \<not> tlb_entry_is_valid entry t) [0..<NUM_TLB] of
         Some entry \<Rightarrow> Ok (0, tlb_write v ?lo entry t, count_tlb_fault FREE_FAULT s)
       | None \<Rightarrow> let (entry, t) = tlb_victim t; (prevHi, prevLo) = tlb_read entry t
                 in kbind (update_tlb_bit prevHi (k_pid s) s) (\<lambda>(r, s).
                      Ok (0, tlb_write v ?lo entry t, count_tlb_fault REPLACE_FAULT s)))"
    unfolding tlb_insert_def segment_is_readonly_text [OF D(6)] kbind_Ok Let_def ro ..
  show ?thesis
  proof (cases "find (\<lambda>entry. \<not> tlb_entry_is_valid entry t) [0..<NUM_TLB]")
    case (Some j)
    then have j: "j < NUM_TLB" "\<not> tlb_entry_is_valid j t" by (auto simp: find_upt_Some)
    have "tlb_ok (tlb_write v ?lo j t) s" by (rule tlb_write_ok [OF T j p lo(2,1) new])
    moreover have "tlb (tlb_write v ?lo j t) = (tlb t)[j := (v, ?lo)]" using j(1) by (simp add: tlb_write_def)
    ultimately show ?thesis
      unfolding ins Some using ok j(1) by (auto simp: tlb_ok_def stat_simps)
  next
    case None
    define j where "j = unat (next_victim t)"
    define t1 where "t1 = t\<lparr>next_victim := (next_victim t + 1) mod of_nat NUM_TLB\<rparr>"
    have j: "j < NUM_TLB" "tlb_entry_is_valid j t" using B(2) None by (auto simp: j_def find_upt_None)
    have "unat ((next_victim t + 1) mod of_nat NUM_TLB) < NUM_TLB"
      by (simp add: NUM_TLB_def unat_mod_distrib)
    then have nx: "unat (next_victim t1) < NUM_TLB" by (simp add: t1_def)
    have same: "tlb t1 = tlb t" "tlb_entry_is_valid i t1 = tlb_entry_is_valid i t" for i
      by (simp_all add: t1_def tlb_entry_is_valid_def tlb_read_def)
    have T1: "tlb_but {p} (k_pid s) t1 s" using T nx unfolding tlb_but_def same by blast
    have v1: "tlb_entry_is_valid j t1" using j(2) same by simp
    have new1: "\<not> tlb_maps (tlb_write 0 0 j t1) v"
    proof
      assume "tlb_maps (tlb_write 0 0 j t1) v"
      then obtain i where i: "i < NUM_TLB" "tlb_entry_is_valid i (tlb_write 0 0 j t1)"
          "fst (tlb (tlb_write 0 0 j t1) ! i) = v"
        by (auto simp: tlb_maps_def)
      have "length (tlb t1) = NUM_TLB" using B(1) same by simp
      then have "i \<noteq> j" "tlb_entry_is_valid i t" "fst (tlb t ! i) = v"
        using i tlb_write_valid [of t1 i j 0 0] tlb_write_nth [of t1 i j 0 0] j(1) same by (auto split: if_splits)
      then show False using new i(1) by (auto simp: tlb_maps_def)
    qed
    have km: "fst (tlb t1 ! j) \<noteq> KMALLOC_PAGE"
      using B(4) [OF j] by (auto simp: users_def user_def ekey_def t1_def)
    obtain q where q: "q < npt s" "q \<noteq> p" "update_tlb_bit (fst (tlb t1 ! j)) (k_pid s) s = Ok (1, unmark q s)"
        "tlb_but {p} (k_pid s) (tlb_write 0 0 j t1) (unmark q s)"
      using tlb_give_up [OF T1 D(1) j(1) v1 km, of 0] by blast
    let ?s = "unmark q s"
    have ql: "q < length (ents s)" using q(1) pt_shapeD(3) [OF D(2)] by simp
    have pe: "ents ?s ! p = ents s ! p" using unmark_nth [OF ql, of p] q(2) by simp
    have inv: "\<not> tlb_entry_is_valid j (tlb_write 0 0 j t1)"
      using tlb_write_valid [of t1 j j 0 0] j(1) B(1) by (simp add: t1_def)
    have "tlb_ok (tlb_write v ?lo j (tlb_write 0 0 j t1)) ?s"
      using q(4) by (intro tlb_write_ok [OF _ j(1) inv _ _ _ _ lo(2) _ new1])
        (use p lo(1) pe in \<open>simp_all del: ents_upd_entry\<close>)
    then have ok': "tlb_ok (tlb_write v ?lo j t1) (count_tlb_fault REPLACE_FAULT ?s)" by (simp add: tlb_ok_def)
    have run: "tlb_insert v ?f t s = Ok (0, tlb_write v ?lo j t1, count_tlb_fault REPLACE_FAULT ?s)"
      unfolding ins None using q(3) j(1)
      by (simp add: tlb_victim_def tlb_read_def split_def Let_def flip: j_def t1_def)
    have "tlb (tlb_write v ?lo j t1) = (tlb t)[j := (v, ?lo)]" using j(1) by (simp add: tlb_write_def t1_def)
    then show ?thesis
      unfolding run using ok' j(1) unmark_ok [OF ok, of q]
      by (intro exI [of _ j] exI [of _ "tlb_write v ?lo j t1"] exI [of _ "count_tlb_fault REPLACE_FAULT ?s"])
         (simp add: stat_simps)
  qed
qed

section \<open>The fault handler\<close>

text \<open>No transfer is in progress, the swap file has room and some frame can change hands.\<close>

definition can_load :: "'a vm_scheme \<Rightarrow> bool" where
  "can_load s \<longleftrightarrow>
     (\<forall>p < npt s. user (ents s ! p) \<longrightarrow> \<not> GetIOBit (ctrl (ents s ! p))) \<and>
     free_cells (k_swap s) \<noteq> 0 \<and> (\<exists>p < npt s. entry_free (ents s ! p) \<or> evictable (ents s ! p))"

lemma unmapped_can_serve:
  assumes "vm_ok as s" "tlb_ok t s" "can_load s" "k_pid s = int i" "\<not> tlb_maps t v"
  shows "can_serve (v, int i) s"
proof (cases "ht_lookup (htable s) (v, int i)")
  case None
  then show ?thesis using assms(3) by (auto simp: can_serve_def can_load_def)
next
  case (Some x)
  then obtain p where p: "x = int p" "p < npt s" "user (ents s ! p)" "ekey (ents s ! p) = (v, int i)"
    using coupledD(1) [OF vm_okD(3) [OF assms(1)] Some] by (auto simp: users_def)
  have "\<not> GetTlbBit (ctrl (ents s ! p))"
    using tlb_butD(6) [OF assms(2) [unfolded tlb_ok_def] p(2)] p(4) assms(5) by (auto simp: tlb_maps_def ekey_def)
  then show ?thesis using Some p assms(3) by (auto simp: can_serve_def can_load_def)
qed

lemma vm_fault_served:
  assumes ok: "vm_ok as s" "tlb_ok t s" "can_load s" and pid: "k_pid s = int i" "page_ok as (v, int i)"
    and elf: "elf_ok as (k_vnodes s) img len" "as_is_ok (Some as) = 1"
    and miss: "v = addr AND PAGE_FRAME" "\<not> tlb_maps t v" "ft \<noteq> VM_FAULT_READONLY"
  shows "\<exists>p j t' s1 s'. vm_fault ft addr t s = Ok (0, t', s') \<and> served as img p (v, int i) (count_tlb_fault FAULT s) s1
    \<and> vm_ok as s' \<and> tlb_ok t' s' \<and> j < NUM_TLB \<and> tlb t' = (tlb t)[j := (v, lo_of as v (frame_addr s (int p)))]
    \<and> (\<forall>l. vpage s' l = vpage s1 l) \<and> tlb_balance (k_stats s') = tlb_balance (k_stats s1) - 1
    \<and> fault_balance (k_stats s') = fault_balance (k_stats s1) \<and> disk_balance (k_stats s') = disk_balance (k_stats s1)"
proof -
  let ?s0 = "count_tlb_fault FAULT s"
  have cs: "can_serve (v, int i) ?s0"
    using unmapped_can_serve [OF ok pid(1) miss(2)] by (simp add: can_serve_def cong: option.case_cong)
  have T0: "tlb_ok t ?s0" using ok(2) by (simp add: tlb_ok_def)
  obtain p s1 where G: "get_page v ?s0 = Ok (frame_addr s (int p), s1)" "served as img p (v, int i) ?s0 s1"
    using get_page_served [of as ?s0 i v img len] ok(1) pid elf(1) cs by auto
  have S: "p < npt s1" "vm_ok as s1" "frame_addr s1 = frame_addr s" "k_pid s1 = k_pid s" "user (ents s1 ! p)"
      "ekey (ents s1 ! p) = (v, k_pid s1)" "GetTlbBit (ctrl (ents s1 ! p))"
    using G(2) pid(1) by (simp_all add: served_def)
  have B: "tlb_but {p} (k_pid s1) t s1"
    using served_tlb [OF T0 G(2)] ok(1) S(4) by simp
  obtain j t' s' where I: "tlb_insert v (frame_addr s1 (int p)) t s1 = Ok (0, t', s')" "vm_ok as s'" "tlb_ok t' s'"
      "j < NUM_TLB" "tlb t' = (tlb t)[j := (v, lo_of as v (frame_addr s1 (int p)))]" "\<forall>l. vpage s' l = vpage s1 l"
      "tlb_balance (k_stats s') = tlb_balance (k_stats s1) - 1"
      "fault_balance (k_stats s') = fault_balance (k_stats s1)" "disk_balance (k_stats s') = disk_balance (k_stats s1)"
    using tlb_insert_ok [OF B S(2,1,5,6,7) miss(2)] by blast
  have "vm_fault ft addr t s = Ok (0, t', s')"
    using G(1) I(1) S(3) miss(1,3) elf(2) vm_okD(6) [OF ok(1)]
    by (simp add: vm_fault_def Let_def)
  then show ?thesis using G(2) I(2-) S(3) by metis
qed

section \<open>Properties\<close>

text \<open>
  (C1) A TLB fault of the current process on a page the TLB does not map: \<open>vm_fault\<close> returns 0,
  exactly one slot of the TLB is overwritten, with the translation of the page to the frame that
  holds it (without write permission exactly when the address is in the text segment), the page's
  contents are what they were (else its initial contents), no other page's contents change, and
  page table, hash index, swap file and TLB are consistent again.
\<close>

theorem vm_fault_maps_page:
  assumes "vm_ok as s" "tlb_ok t s" "can_load s" "k_pid s = int i" "page_ok as (addr AND PAGE_FRAME, int i)"
    and "elf_ok as (k_vnodes s) img len" "as_is_ok (Some as) = 1"
    and "\<not> tlb_maps t (addr AND PAGE_FRAME)" "ft \<noteq> VM_FAULT_READONLY"
  shows "\<exists>p j t' s'. vm_fault ft addr t s = Ok (0, t', s') \<and> vm_ok as s' \<and> tlb_ok t' s' \<and> j < NUM_TLB
    \<and> tlb t' = (tlb t)[j := (addr AND PAGE_FRAME, lo_of as (addr AND PAGE_FRAME) (frame_addr s (int p)))]
    \<and> vpage s' (addr AND PAGE_FRAME, int i) =
        Some (case vpage s (addr AND PAGE_FRAME, int i) of Some b \<Rightarrow> b | None \<Rightarrow> fresh_page as img (addr AND PAGE_FRAME))
    \<and> (\<forall>l. page_ok as l \<longrightarrow> l \<noteq> (addr AND PAGE_FRAME, int i) \<longrightarrow> vpage s' l = vpage s l)"
proof -
  let ?v = "addr AND PAGE_FRAME"
  obtain p j t' s1 s' where F: "vm_fault ft addr t s = Ok (0, t', s')"
      "served as img p (?v, int i) (count_tlb_fault FAULT s) s1" "vm_ok as s'" "tlb_ok t' s'" "j < NUM_TLB"
      "tlb t' = (tlb t)[j := (?v, lo_of as ?v (frame_addr s (int p)))]" "\<forall>l. vpage s' l = vpage s1 l"
    using vm_fault_served [OF assms(1-7) refl assms(8,9)] by blast
  have S: "vm_ok as s1" "p < npt s1" "user (ents s1 ! p)" "ekey (ents s1 ! p) = (?v, int i)" "frame_addr s1 = frame_addr s"
      "frame_bytes (k_mem s1) (frame_addr s (int p)) =
         (case vpage s (?v, int i) of Some b \<Rightarrow> b | None \<Rightarrow> fresh_page as img ?v)"
      "\<forall>l. page_ok as l \<longrightarrow> l \<noteq> (?v, int i) \<longrightarrow> vpage s1 l = vpage s l"
    using F(2) unfolding served_def vm_ok_stats fst_conv by simp_all
  have "ht_lookup (htable s1) (?v, int i) = Some (int p)"
    using coupledD(2) [OF vm_okD(3) [OF S(1)], of p] S(2-4) by (simp add: users_def)
  then have "vpage s1 (?v, int i) = Some (case vpage s (?v, int i) of Some b \<Rightarrow> b | None \<Rightarrow> fresh_page as img ?v)"
    using S(5,6) by (simp add: vpage_def)
  then show ?thesis
    using F S(7) by (intro exI [of _ p] exI [of _ j] exI [of _ t'] exI [of _ s']) simp
qed

text \<open>
  (C39) The counters: if \<open>stats_verify\<close> has no complaint before a read or write fault on a page of a
  segment or of the stack that is not a text page beyond the file part of its segment, it has none
  after it, whatever the fault did (reload, load from the executable or the swap file, zeroed page,
  free or replaced slot). The faults that end the process are not among them: they are counted as
  faults and as nothing else.
\<close>

theorem vm_fault_stats:
  assumes "vm_ok as s" "tlb_ok t s" "can_load s" "k_pid s = int i" "page_ok as (addr AND PAGE_FRAME, int i)"
    and "elf_ok as (k_vnodes s) img len" "as_is_ok (Some as) = 1"
    and "\<not> tlb_maps t (addr AND PAGE_FRAME)" "ft \<noteq> VM_FAULT_READONLY"
    and "\<not> text_tail as (addr AND PAGE_FRAME)" "stats_verify (k_stats s) = []"
  shows "\<exists>t' s'. vm_fault ft addr t s = Ok (0, t', s') \<and> stats_verify (k_stats s') = []"
proof -
  let ?v = "addr AND PAGE_FRAME"
  obtain p t' s1 s' where F: "vm_fault ft addr t s = Ok (0, t', s')"
      "served as img p (?v, int i) (count_tlb_fault FAULT s) s1"
      "tlb_balance (k_stats s') = tlb_balance (k_stats s1) - 1"
      "fault_balance (k_stats s') = fault_balance (k_stats s1)" "disk_balance (k_stats s') = disk_balance (k_stats s1)"
    using vm_fault_served [OF assms(1-7) refl assms(8,9)] by blast
  have "tlb_balance (k_stats s1) = tlb_balance (k_stats s) + 1" "fault_balance (k_stats s1) = fault_balance (k_stats s)"
      "disk_balance (k_stats s1) = disk_balance (k_stats s)"
    using F(2) assms(10) by (simp_all add: served_def stat_simps)
  then show ?thesis using F assms(11) by (simp add: stats_verify_silent)
qed

section \<open>Context switch\<close>

text \<open>
  What the invalidation needs to know about the process \<open>pid\<close> that ran before: its resident
  pages that the TLB maps are marked, and only they are. Slots may be left over from pages
  released since, as they are after an exit.
\<close>

definition tlb_known :: "pid \<Rightarrow> tlb_state \<Rightarrow> 'a vm_scheme \<Rightarrow> bool" where
  "tlb_known pid t s \<longleftrightarrow>
     length (tlb t) = NUM_TLB \<and> unat (next_victim t) < NUM_TLB \<and>
     unat (first_free_paddr (page_table s)) mod 4096 = 0 \<and>
     (\<forall>i < NUM_TLB. tlb_entry_is_valid i t \<longrightarrow> fst (tlb t ! i) \<noteq> KMALLOC_PAGE \<and>
        (\<forall>p \<in> users (npt s) (ents s). ekey (ents s ! p) = (fst (tlb t ! i), pid) \<longrightarrow> GetTlbBit (ctrl (ents s ! p)))) \<and>
     (\<forall>i < NUM_TLB. \<forall>j < NUM_TLB. tlb_entry_is_valid i t \<longrightarrow> tlb_entry_is_valid j t \<longrightarrow>
        fst (tlb t ! i) = fst (tlb t ! j) \<longrightarrow> i = j) \<and>
     (\<forall>p < npt s. GetTlbBit (ctrl (ents s ! p)) \<longrightarrow>
        user (ents s ! p) \<and> pe_pid (ents s ! p) = pid \<and>
        (\<exists>i < NUM_TLB. tlb_entry_is_valid i t \<and> fst (tlb t ! i) = page (ents s ! p)))"

lemma tlb_knownD:
  assumes "tlb_known pid t s"
  shows "length (tlb t) = NUM_TLB" "unat (next_victim t) < NUM_TLB"
    "unat (first_free_paddr (page_table s)) mod 4096 = 0"
    "i < NUM_TLB \<Longrightarrow> tlb_entry_is_valid i t \<Longrightarrow> fst (tlb t ! i) \<noteq> KMALLOC_PAGE"
    "i < NUM_TLB \<Longrightarrow> tlb_entry_is_valid i t \<Longrightarrow> p \<in> users (npt s) (ents s) \<Longrightarrow>
       ekey (ents s ! p) = (fst (tlb t ! i), pid) \<Longrightarrow> GetTlbBit (ctrl (ents s ! p))"
    "i < NUM_TLB \<Longrightarrow> j < NUM_TLB \<Longrightarrow> tlb_entry_is_valid i t \<Longrightarrow> tlb_entry_is_valid j t \<Longrightarrow>
       fst (tlb t ! i) = fst (tlb t ! j) \<Longrightarrow> i = j"
    "p < npt s \<Longrightarrow> GetTlbBit (ctrl (ents s ! p)) \<Longrightarrow>
        user (ents s ! p) \<and> pe_pid (ents s ! p) = pid \<and>
        (\<exists>i < NUM_TLB. tlb_entry_is_valid i t \<and> fst (tlb t ! i) = page (ents s ! p))"
  using assms unfolding tlb_known_def by blast+

lemma coupled_unique:
  assumes "coupled ht n es" "p \<in> users n es" "q \<in> users n es" "ekey (es ! p) = ekey (es ! q)"
  shows "p = q"
proof -
  have "Some (int p) = Some (int q)" using coupledD(2) [OF assms(1)] assms(2-) by metis
  then show ?thesis by simp
qed

lemma tlb_ok_known:
  assumes "tlb_ok t s" "pt_inv s"
  shows "tlb_known (k_pid s) t s"
proof -
  note B = tlb_butD [OF assms(1) [unfolded tlb_ok_def]]
  have C: "coupled (htable s) (npt s) (ents s)" using assms(2) by (simp add: pt_inv_def)
  have "fst (tlb t ! i) \<noteq> KMALLOC_PAGE \<and>
      (\<forall>p \<in> users (npt s) (ents s). ekey (ents s ! p) = (fst (tlb t ! i), k_pid s) \<longrightarrow> GetTlbBit (ctrl (ents s ! p)))"
    if i: "i < NUM_TLB" "tlb_entry_is_valid i t" for i
  proof -
    obtain q where q: "q \<in> users (npt s) (ents s)" "ekey (ents s ! q) = (fst (tlb t ! i), k_pid s)" "GetTlbBit (ctrl (ents s ! q))"
      using B(4) [OF i] by blast
    then have "p = q" if "p \<in> users (npt s) (ents s)" "ekey (ents s ! p) = (fst (tlb t ! i), k_pid s)" for p
      using coupled_unique [OF C that(1) q(1)] that(2) by simp
    then show ?thesis using q by (auto simp: users_def user_def ekey_def)
  qed
  then show ?thesis unfolding tlb_known_def using B(1,2,3,5,6) by blast
qed

lemma known_give_up:
  assumes K: "tlb_known pid t s" and inv: "pt_inv s" and j: "j < NUM_TLB"
  shows "\<exists>s'. (if tlb_entry_is_valid j t then kbind (update_tlb_bit (fst (tlb t ! j)) pid s) (\<lambda>(r, s). Ok s) else Ok s) = Ok s'
    \<and> tlb_known pid (tlb_write hi 0 j t) s' \<and> (s' = s \<or> (\<exists>q. s' = unmark q s))"
proof -
  note D = tlb_knownD [OF K]
  have C: "coupled (htable s) (npt s) (ents s)" and sh: "pt_shape s" using inv by (auto simp: pt_inv_def)
  let ?t = "tlb_write hi 0 j t"
  have val: "tlb_entry_is_valid i ?t \<longleftrightarrow> i \<noteq> j \<and> tlb_entry_is_valid i t" if "i < NUM_TLB" for i
    using tlb_write_valid [OF D(1) that j, of hi 0] by simp
  have nth: "tlb ?t ! i = tlb t ! i" if "i < NUM_TLB" "i \<noteq> j" for i
    using tlb_write_nth [OF D(1) that(1) j, of hi 0] that by simp
  have uniq: "i = k" if "i < NUM_TLB" "k < NUM_TLB" "tlb_entry_is_valid i ?t" "tlb_entry_is_valid k ?t"
      "fst (tlb ?t ! i) = fst (tlb ?t ! k)" for i k
    using that val nth D(6) [of i k] by simp
  show ?thesis
  proof (cases "tlb_entry_is_valid j t \<and> (\<exists>q \<in> users (npt s) (ents s). ekey (ents s ! q) = (fst (tlb t ! j), pid))")
    case True
    then obtain q where q: "q \<in> users (npt s) (ents s)" "ekey (ents s ! q) = (fst (tlb t ! j), pid)" and v: "tlb_entry_is_valid j t"
      by blast
    have qn: "q < length (ents s)" using q(1) pt_shapeD(3) [OF sh] by (auto simp: users_def)
    note run = update_tlb_bit_found [OF inv q D(5) [OF j v q] D(4) [OF j v]] and N = unmark_nth [OF qn]
    let ?s = "unmark q s"
    have us: "users (npt s) (ents ?s) = users (npt s) (ents s)" unfolding users_def unmark_user ..
    have "fst (tlb ?t ! i) \<noteq> KMALLOC_PAGE \<and> (\<forall>p \<in> users (npt s) (ents ?s).
        ekey (ents ?s ! p) = (fst (tlb ?t ! i), pid) \<longrightarrow> GetTlbBit (ctrl (ents ?s ! p)))"
      if i: "i < NUM_TLB" "tlb_entry_is_valid i ?t" for i
    proof -
      have it: "i \<noteq> j" "tlb_entry_is_valid i t" "tlb ?t ! i = tlb t ! i" using i val nth by auto
      have "GetTlbBit (ctrl (ents ?s ! p))"
        if p: "p \<in> users (npt s) (ents s)" "ekey (ents s ! p) = (fst (tlb t ! i), pid)" for p
      proof -
        have "p \<noteq> q" using p(2) q(2) D(6) [OF i(1) j it(2) v] it(1) by auto
        then show ?thesis using D(5) [OF i(1) it(2) p] N [of p] by simp
      qed
      then show ?thesis unfolding us unmark_user it(3) using D(4) [OF i(1) it(2)] by blast
    qed
    moreover have "user (ents ?s ! r) \<and> pe_pid (ents ?s ! r) = pid \<and>
        (\<exists>i < NUM_TLB. tlb_entry_is_valid i ?t \<and> fst (tlb ?t ! i) = page (ents ?s ! r))"
      if r: "r < npt s" "GetTlbBit (ctrl (ents ?s ! r))" for r
    proof -
      have rq: "r \<noteq> q" using r(2) N [of q] by auto
      then have e: "ents ?s ! r = ents s ! r" using N [of r] by simp
      then obtain i where i: "user (ents s ! r)" "pe_pid (ents s ! r) = pid" "i < NUM_TLB" "tlb_entry_is_valid i t"
          "fst (tlb t ! i) = page (ents s ! r)"
        using D(7) [OF r(1)] r(2) by auto
      have "i \<noteq> j"
        using coupled_unique [OF C _ q(1), of r] i(1,2,5) q(2) r(1) rq by (auto simp: users_def ekey_def)
      then show ?thesis using i e val [OF i(3)] nth [OF i(3)] by auto
    qed
    ultimately have "tlb_known pid ?t ?s"
      unfolding tlb_known_def using D(1-3) uniq by (simp del: ents_upd_entry)
    then show ?thesis using run v by (intro exI [of _ ?s]) auto
  next
    case False
    have none: "i \<noteq> j" if "r < npt s" "user (ents s ! r)" "pe_pid (ents s ! r) = pid" "tlb_entry_is_valid i t"
        "fst (tlb t ! i) = page (ents s ! r)" for i r
      using False that by (auto simp: users_def ekey_def)
    have "tlb_known pid ?t s"
      unfolding tlb_known_def
    proof (intro conjI allI impI)
      fix p assume p: "p < npt s" "GetTlbBit (ctrl (ents s ! p))"
      show "user (ents s ! p)" "pe_pid (ents s ! p) = pid" using D(7) [OF p] by blast+
      obtain i where i: "i < NUM_TLB" "tlb_entry_is_valid i t" "fst (tlb t ! i) = page (ents s ! p)"
        using D(7) [OF p] by blast
      moreover have "i \<noteq> j" using none [OF p(1)] D(7) [OF p] i by blast
      ultimately show "\<exists>i < NUM_TLB. tlb_entry_is_valid i ?t \<and> fst (tlb ?t ! i) = page (ents s ! p)"
        using val [OF i(1)] nth [OF i(1)] by auto
    qed (use D uniq val nth in auto)
    moreover have "update_tlb_bit (fst (tlb t ! j)) pid s = Ok (- 1, s)" if v: "tlb_entry_is_valid j t"
      by (rule update_tlb_bit_absent [OF sh])
         (use False v D(4) [OF j v] in \<open>auto simp: users_def user_def ekey_def\<close>)
    ultimately show ?thesis by (intro exI [of _ s]) auto
  qed
qed

lemma unmark_same:
  assumes "pt_inv s" "s' = s \<or> (\<exists>q. s' = unmark q s)"
  shows "pt_inv s'" "vpage s' l = vpage s l" "npt s' = npt s" "k_pid s' = k_pid s"
proof -
  have "sw_look s' l = sw_look s l" using assms(2) by (intro sw_look_cong) auto
  then show "vpage s' l = vpage s l"
    using assms(2) by (cases "ht_lookup (htable s) l") (auto simp: vpage_def)
  have "pt_inv (unmark q s)" for q by (rule pt_inv_ctrl [OF assms(1)]) simp
  then show "pt_inv s'" using assms by auto
  show "npt s' = npt s" "k_pid s' = k_pid s" using assms(2) by auto
qed

text \<open>State of the loop of \<open>tlb_invalidate_all\<close> when the slots below \<open>n\<close> are done.\<close>

definition flushed :: "nat \<Rightarrow> pid \<Rightarrow> 'a vm_scheme \<Rightarrow> tlb_state \<times> 'a vm_scheme \<Rightarrow> bool" where
  "flushed n pid s0 = (\<lambda>(t, s).
     tlb_known pid t s \<and> previous_pid t = pid \<and> pt_inv s \<and> npt s = npt s0 \<and> k_pid s = k_pid s0 \<and>
     (\<forall>l. vpage s l = vpage s0 l) \<and> (\<forall>i < n. \<not> tlb_entry_is_valid i t))"

lemma invalidate_one_ok:
  assumes F: "flushed n pid s0 ts" and n: "n < NUM_TLB"
  shows "\<exists>ts'. invalidate_one n ts = Ok ts' \<and> flushed (Suc n) pid s0 ts'"
proof -
  obtain t s where ts: "ts = (t, s)" by (cases ts)
  have A: "tlb_known pid t s" "previous_pid t = pid" "pt_inv s" "npt s = npt s0" "k_pid s = k_pid s0"
      "\<forall>l. vpage s l = vpage s0 l" "\<forall>i < n. \<not> tlb_entry_is_valid i t"
    using F by (simp_all add: flushed_def ts)
  let ?t = "tlb_write (TLBHI_INVALID n) 0 n t"
  obtain s' where S: "(if tlb_entry_is_valid n t then kbind (update_tlb_bit (fst (tlb t ! n)) pid s) (\<lambda>(r, s). Ok s) else Ok s) = Ok s'"
      "tlb_known pid ?t s'" "s' = s \<or> (\<exists>q. s' = unmark q s)"
    using known_give_up [OF A(1,3) n] by blast
  have "\<not> tlb_entry_is_valid i ?t" if "i < Suc n" for i
    using that A(7) n tlb_write_valid [OF tlb_knownD(1) [OF A(1)] _ n, of i "TLBHI_INVALID n" 0]
    by (cases "i = n") auto
  then have "flushed (Suc n) pid s0 (?t, s')"
    using S(2) A unmark_same [OF A(3) S(3)] by (simp add: flushed_def)
  moreover have "invalidate_one n ts = Ok (?t, s')"
    using S(1) A(2) n by (auto simp: ts invalidate_one_def tlb_read_def TLBLO_INVALID_def split_def split: if_splits)
  ultimately show ?thesis by blast
qed

lemma invalidate_loop:
  assumes "flushed 0 pid s0 ts" "n \<le> NUM_TLB"
  shows "\<exists>ts'. kfold invalidate_one [0..<n] ts = Ok ts' \<and> flushed n pid s0 ts'"
  using assms(2)
proof (induction n)
  case 0
  then show ?case using assms(1) by simp
next
  case (Suc n)
  then obtain ts' where "kfold invalidate_one [0..<n] ts = Ok ts'" "flushed n pid s0 ts'" by auto
  then show ?case using invalidate_one_ok [of n pid s0 ts'] Suc.prems by auto
qed

lemma invalidate_all_ok:
  assumes "pt_inv s" "tlb_known (previous_pid t) t s" "k_pid s \<noteq> previous_pid t"
  shows "\<exists>t' s'. tlb_invalidate_all t s = Ok (t', s') \<and> pt_inv s' \<and> tlb_ok t' s' \<and> previous_pid t' = k_pid s
    \<and> (\<forall>i < NUM_TLB. \<not> tlb_entry_is_valid i t') \<and> npt s' = npt s \<and> (\<forall>p < npt s. \<not> GetTlbBit (ctrl (ents s' ! p)))
    \<and> (\<forall>l. vpage s' l = vpage s l)"
proof -
  let ?s0 = "s\<lparr>k_stats := add_tlb_invalidation (k_stats s)\<rparr>"
  have vp: "vpage ?s0 l = vpage s l" for l
  proof -
    have "sw_look ?s0 l = sw_look s l" by (rule sw_look_cong) simp_all
    then show ?thesis by (cases "ht_lookup (htable s) l") (simp_all add: vpage_def frame_addr_def)
  qed
  have "flushed 0 (previous_pid t) s (t, ?s0)"
    using assms(1,2) vp by (simp add: flushed_def tlb_known_def pt_inv_def pt_shape_def npt_def)
  then obtain t' s' where L: "kfold invalidate_one [0..<NUM_TLB] (t, ?s0) = Ok (t', s')"
      "flushed NUM_TLB (previous_pid t) s (t', s')"
    using invalidate_loop [of "previous_pid t" s "(t, ?s0)" NUM_TLB] by auto
  have A: "tlb_known (previous_pid t) t' s'" "pt_inv s'" "npt s' = npt s" "k_pid s' = k_pid s"
      "\<forall>l. vpage s' l = vpage s l" "\<forall>i < NUM_TLB. \<not> tlb_entry_is_valid i t'"
    using L(2) by (simp_all add: flushed_def)
  note D = tlb_knownD [OF A(1)]
  let ?t = "t'\<lparr>previous_pid := k_pid s\<rparr>"
  have val: "tlb_entry_is_valid i ?t = tlb_entry_is_valid i t'" for i
    by (simp add: tlb_entry_is_valid_def tlb_read_def)
  have no: "\<not> GetTlbBit (ctrl (ents s' ! p))" if "p < npt s" for p
    using D(7) [of p] that A(3,6) by auto
  have "tlb_ok ?t s'"
    unfolding tlb_ok_def tlb_but_def val using D(1-3) A(3,6) no by simp
  then show ?thesis
    using L(1) assms(3) A no val by (simp add: tlb_invalidate_all_def Let_def)
qed

text \<open>
  (C35) A context switch to another process: \<open>tlb_invalidate_all\<close> succeeds, leaves no valid slot
  in the TLB and no frame marked as mapped, changes the contents of no page, and establishes
  the consistency of TLB and page table for the new process, also when the previous process has
  exited and its pages are gone.
\<close>

theorem tlb_invalidate_all_flushes:
  assumes "pt_inv s" "tlb_known (previous_pid t) t s" "k_pid s \<noteq> previous_pid t"
  shows "\<exists>t' s'. tlb_invalidate_all t s = Ok (t', s') \<and> pt_inv s' \<and> tlb_ok t' s' \<and> previous_pid t' = k_pid s
    \<and> (\<forall>i < NUM_TLB. \<not> tlb_entry_is_valid i t') \<and> (\<forall>p < npt s. \<not> GetTlbBit (ctrl (ents s' ! p)))
    \<and> (\<forall>l. vpage s' l = vpage s l)"
  using invalidate_all_ok [OF assms] by blast

section \<open>A TLB with one valid slot\<close>

definition ex_tlb :: tlb_state where
  "ex_tlb = \<lparr>tlb = (0x7ffff000, 0x101600) # map (\<lambda>i. (TLBHI_INVALID i, TLBLO_INVALID)) [1..<NUM_TLB],
     next_victim = 0, previous_pid = 1\<rparr>"

lemma ex_tlb_valid: "i < NUM_TLB \<Longrightarrow> tlb_entry_is_valid i ex_tlb \<longleftrightarrow> i = 0"
  by (cases i) (simp_all add: tlb_valid_read ex_tlb_def TLBLO_VALID_def TLBLO_INVALID_def)

lemma ex_tlb_ok: "tlb_ok ex_tlb ex_vm"
proof -
  have n: "NUM_TLB = 64" by (simp add: NUM_TLB_def)
  have pt: "page_table ex_vm = \<lparr>entries = ex_entries, n_entry = 2, first_free_paddr = 0x100000, contiguous = [- 1, - 1]\<rparr>"
    by (simp add: ex_vm_def)
  have e: "user (ex_entries ! 1)" "ekey (ex_entries ! 1) = (0x7ffff000, 1)" "GetTlbBit (ctrl (ex_entries ! 1))"
      "\<not> GetTlbBit (ctrl (ex_entries ! 0))" "page (ex_entries ! 1) = 0x7ffff000" "pe_pid (ex_entries ! 1) = 1"
    by (simp_all add: ex_entries_def user_def ekey_def get_bits KMALLOC_PAGE_def)
  have f: "frame_addr ex_vm (int 1) = 0x101000" by (simp add: frame_addr_def pt PAGE_SIZE_def)
  have t0: "fst (tlb ex_tlb ! 0) = 0x7ffff000" "snd (tlb ex_tlb ! 0) AND TLBLO_PPAGE = 0x101000" "length (tlb ex_tlb) = NUM_TLB"
    by (simp_all add: ex_tlb_def TLBLO_PPAGE_def n)
  have k: "k_pid ex_vm = 1" by (simp add: ex_vm_def)
  have m: "1 \<in> users (npt ex_vm) (ents ex_vm)" using e(1) ex_vm_clock(2,3) by (simp add: users_def)
  have "\<exists>p \<in> users (npt ex_vm) (ents ex_vm). ekey (ents ex_vm ! p) = (fst (tlb ex_tlb ! i), k_pid ex_vm)
      \<and> snd (tlb ex_tlb ! i) AND TLBLO_PPAGE = frame_addr ex_vm (int p) \<and> GetTlbBit (ctrl (ents ex_vm ! p)) \<and> p \<notin> {}"
    if "i < NUM_TLB" "tlb_entry_is_valid i ex_tlb" for i
    using that ex_tlb_valid [of i] m e f t0 k ex_vm_clock(3) by (intro bexI [of _ 1]) auto
  moreover have "user (ents ex_vm ! p) \<and> pe_pid (ents ex_vm ! p) = k_pid ex_vm \<and>
      (\<exists>i < NUM_TLB. tlb_entry_is_valid i ex_tlb \<and> fst (tlb ex_tlb ! i) = page (ents ex_vm ! p))"
    if "p < npt ex_vm" "GetTlbBit (ctrl (ents ex_vm ! p))" for p
  proof -
    have "p = 1" using that ex_vm_clock(2,3) e(4) by (auto simp: less_2_cases_iff)
    then show ?thesis using e t0(1) k ex_tlb_valid [of 0] ex_vm_clock(3) n by (auto intro!: exI [of _ 0])
  qed
  moreover have "unat (next_victim ex_tlb) < NUM_TLB" by (simp add: ex_tlb_def n)
  ultimately show ?thesis
    unfolding tlb_ok_def tlb_but_def using t0(3) ex_tlb_valid pt by simp
qed

lemma ex_fault_facts:
  "can_load ex_vm" "as_is_ok (Some ex_elf_as) = 1" "0x400123 AND PAGE_FRAME = 0x400000"
  "\<not> tlb_maps ex_tlb 0x400000" "\<not> text_tail ex_elf_as 0x400000" "stats_verify (k_stats ex_vm) = []"
proof -
  have "free_cells (k_swap ex_vm) = 1" using ex_sys_facts(3) by (simp add: ex_vm_def ex_elf_sys_def)
  moreover have "evictable (ex_entries ! 0)" "\<not> GetIOBit (ctrl (ex_entries ! 0))" "\<not> GetIOBit (ctrl (ex_entries ! 1))"
    by (simp_all add: evictable_def ex_entries_def get_bits KMALLOC_PAGE_def)
  ultimately show "can_load ex_vm"
    using ex_vm_clock(2,3) by (auto simp: can_load_def less_2_cases_iff intro!: exI [of _ 0])
  show "as_is_ok (Some ex_elf_as) = 1" by (simp add: as_is_ok_def ex_elf_as_def ex_as_def)
  show "0x400123 AND PAGE_FRAME = 0x400000" by (simp add: PAGE_FRAME_def)
  show "\<not> tlb_maps ex_tlb 0x400000" using ex_tlb_valid by (auto simp: tlb_maps_def) (simp add: ex_tlb_def)
  show "\<not> text_tail ex_elf_as 0x400000"
    by (simp add: text_tail_def ex_elf_as_def ex_as_def zero_as_def zero_phdr_def)
  show "stats_verify (k_stats ex_vm) = []"
    by (simp add: ex_vm_def ex_elf_sys_def ex_sys_def ex_stats_def stats_verify_def)
qed

theorem vm_fault_maps_page_witness:
  "\<exists>p j t' s'. vm_fault VM_FAULT_READ 0x400123 ex_tlb ex_vm = Ok (0, t', s') \<and> tlb_ok t' s' \<and> j < NUM_TLB
     \<and> tlb t' = (tlb ex_tlb)[j := (0x400000, lo_of ex_elf_as 0x400000 (frame_addr ex_vm (int p)))]
     \<and> vpage s' (0x400000, 1) = Some (map (disk_page ex_lhd 0) [0..<4096])"
  using vm_fault_maps_page [OF ex_vm_ok ex_tlb_ok ex_fault_facts(1) ex_vm_facts(1) _ ex_vm_facts(4) ex_fault_facts(2),
      of "0x400123" VM_FAULT_READ, unfolded ex_fault_facts(3)] ex_vm_facts(2,7) ex_fault_facts(4)
  by (auto simp: VM_FAULT_READ_def VM_FAULT_READONLY_def)

theorem vm_fault_stats_witness:
  "\<exists>t' s'. vm_fault VM_FAULT_WRITE 0x400123 ex_tlb ex_vm = Ok (0, t', s') \<and> stats_verify (k_stats s') = []"
  using vm_fault_stats [OF ex_vm_ok ex_tlb_ok ex_fault_facts(1) ex_vm_facts(1) _ ex_vm_facts(4) ex_fault_facts(2),
      of "0x400123" VM_FAULT_WRITE, unfolded ex_fault_facts(3)] ex_vm_facts(2) ex_fault_facts(4,5,6)
  by (auto simp: VM_FAULT_WRITE_def VM_FAULT_READONLY_def)

theorem tlb_invalidate_all_flushes_witness:
  "\<exists>t' s'. tlb_invalidate_all ex_tlb (ex_vm\<lparr>k_pid := 2\<rparr>) = Ok (t', s') \<and> previous_pid t' = 2 \<and> \<not> tlb_entry_is_valid 0 t'"
proof -
  have inv: "pt_inv ex_vm" using ex_vm_ok by (simp add: vm_ok_def)
  then have "pt_inv (ex_vm\<lparr>k_pid := 2\<rparr>)" by (simp add: pt_inv_def pt_shape_def npt_def)
  moreover have "tlb_known 1 ex_tlb ex_vm" using tlb_ok_known [OF ex_tlb_ok inv] ex_vm_facts(1) by simp
  then have "tlb_known (previous_pid ex_tlb) ex_tlb (ex_vm\<lparr>k_pid := 2\<rparr>)" by (simp add: tlb_known_def npt_def ex_tlb_def)
  ultimately show ?thesis
    using tlb_invalidate_all_flushes [of "ex_vm\<lparr>k_pid := 2\<rparr>" ex_tlb] by (auto simp: ex_tlb_def NUM_TLB_def)
qed

end
