(* ===== verification/VM_System.thy ===== *)
theory VM_System
  imports TLB
begin

unbundle bit_operations_syntax

text \<open>
  The parts of \<^verbatim>\<open>kern/vm/addrspace.c\<close> that tie the components together: start-up and
  shutdown, activation of an address space, kernel pages, and the copy of an address space.
  Start-up establishes the invariants; a page given to the kernel is taken from nobody and can be
  given back; a request for several pages does not survive its own consistency check.
\<close>

section \<open>Operations\<close>

definition as_activate :: "tlb_state \<Rightarrow> 'a vm_scheme \<Rightarrow> (tlb_state \<times> 'a vm_scheme) kres" where
  "as_activate t s =
     (case k_as s of
        None \<Rightarrow> Ok (t, s)
      | Some as \<Rightarrow> tlb_invalidate_all t s)"

definition as_deactivate :: "tlb_state \<Rightarrow> tlb_state" where
  "as_deactivate t = t"

text \<open>
  \<open>as_copy\<close>: \<open>blk\<close> is what \<open>kmalloc\<close> returns to \<open>as_create\<close>. The result is the error code, the
  new address space (none if the code is not 0) and the state.
\<close>

definition as_copy :: "addrspace option \<Rightarrow> addrspace \<Rightarrow> pid \<Rightarrow> pid \<Rightarrow> 'a vm_scheme \<Rightarrow> (int \<times> addrspace option \<times> 'a vm_scheme) kres" where
  "as_copy blk old old_pid new_pid s =
     (case as_create blk of
        None \<Rightarrow> Ok (ENOMEM, None, s)
      | Some newas \<Rightarrow>
          let newas = newas\<lparr>as_vbase1 := as_vbase1 old, as_npages1 := as_npages1 old, as_vbase2 := as_vbase2 old,
                        as_npages2 := as_npages2 old, ph1 := ph1 old, ph2 := ph2 old, as_v := as_v old,
                        initial_offset1 := initial_offset1 old, initial_offset2 := initial_offset2 old\<rparr>;
              vn = as_v old
          in if vn = NULL then Fail NullDeref
             else
               let s = s\<lparr>k_vnodes := (k_vnodes s)(vn := (k_vnodes s vn)\<lparr>vn_refcount := vn_refcount (k_vnodes s vn) + 1\<rparr>)\<rparr>
               in kbind (prepare_copy_pt old_pid s) (\<lambda>s.
                  kbind (copy_swap_pages new_pid old_pid s) (\<lambda>s.
                  kbind (copy_pt_entries old_pid new_pid s) (\<lambda>s.
                  kbind (end_copy_pt old_pid s) (\<lambda>s. Ok (0, Some newas, s))))))"

definition vm_tlbshootdown :: "'a kres" where
  "vm_tlbshootdown = Fail (Panic ''tlbshootdown'')"

text \<open>The lines \<open>vm_shutdown\<close> prints, and the counters reset.\<close>

definition vm_shutdown :: "'a ksys_scheme \<Rightarrow> (string \<times> 32 word) list \<times> string list \<times> 'a ksys_scheme" where
  "vm_shutdown s = (let (counters, complaints, st) = stats_print (k_stats s) in (counters, complaints, s\<lparr>k_stats := st\<rparr>))"

definition getppages :: "32 word \<Rightarrow> 'a vm_scheme \<Rightarrow> paddr \<times> 'a vm_scheme" where
  "getppages n_pages s = ram_stealmem n_pages s"

definition alloc_kpages :: "32 word \<Rightarrow> 'a vm_scheme \<Rightarrow> (vaddr \<times> 'a vm_scheme) kres" where
  "alloc_kpages n_pages s =
     kbind (if \<not> pt_active s then Ok (getppages n_pages s) else get_contiguous_pages (sint n_pages) s) (\<lambda>(paddr, s).
       kassert (PADDR_TO_KVADDR paddr > 0x80000000 \<and> PADDR_TO_KVADDR paddr \<le> 0x9FFFFFFF)
         (Ok (PADDR_TO_KVADDR paddr, s)))"

definition free_kpages :: "vaddr \<Rightarrow> 'a vm_scheme \<Rightarrow> 'a vm_scheme kres" where
  "free_kpages addr s =
     (if pt_active s \<and> addr \<ge> PADDR_TO_KVADDR (first_free_paddr (page_table s))
      then free_contiguous_pages addr s else Ok s)"

definition addrspace_init :: "'a vm_scheme \<Rightarrow> 'a vm_scheme" where
  "addrspace_init s = s\<lparr>pt_active := False\<rparr>"

lemma unat_div_page: "unat (x div PAGE_SIZE) = unat x div 4096"
  by (simp add: unat_div_distrib PAGE_SIZE_def)

section \<open>Kernel pages\<close>

text \<open>Where the first loop of \<open>get_contiguous_pages\<close> lets a run begin.\<close>

definition run_start :: "'a vm_scheme \<Rightarrow> nat \<Rightarrow> bool" where
  "run_start s i \<longleftrightarrow> run_free (ents s ! i) \<and> (i = 0 \<or> valid_entry (ctrl (ents s ! (i - 1))) (page (ents s ! (i - 1))))"

lemma prev_in_use_nat:
  assumes "i < length (ents s)"
  shows "prev_in_use (int i) s = Ok (i = 0 \<or> valid_entry (ctrl (ents s ! (i - 1))) (page (ents s ! (i - 1))))"
proof (cases i)
  case (Suc j)
  then have "get_entry (int i - 1) s = Ok (ents s ! j)" using assms get_entry_nat [of j s] by simp
  then show ?thesis using Suc by (simp add: prev_in_use_def)
qed (simp add: prev_in_use_def)

lemma scan_free_one:
  assumes sh: "pt_shape s" and i: "i < npt s" "run_start s i" "\<And>k. k < i \<Longrightarrow> \<not> run_start s k"
  shows "scan_free 1 0 (- 1) s = Ok (int i, Some (int i))"
proof -
  note D = pt_shapeD [OF sh]
  have "scan_free 1 (int k) (- 1) s = scan_free 1 (int i) (- 1) s" if "k \<le> i" for k
    using that
  proof (induction "i - k" arbitrary: k)
    case (Suc d)
    then have k: "k < i" "k < npt s" "int k < nent s" using i(1) D(2) by auto
    have "scan_free 1 (int k) (- 1) s = scan_free 1 (int (Suc k)) (- 1) s"
      using k i(3) [OF k(1)] D(3) prev_in_use_nat [of k s]
      by (subst scan_free.simps) (auto simp: run_start_def add.commute)
    also have "\<dots> = scan_free 1 (int i) (- 1) s" using Suc by (intro Suc.hyps) auto
    finally show ?case .
  qed simp
  from this [of 0] have "scan_free 1 0 (- 1) s = scan_free 1 (int i) (- 1) s" by simp
  also have "\<dots> = Ok (int i, Some (int i))"
    using i(1,2) D(2,3) prev_in_use_nat [of i s] by (subst scan_free.simps) (auto simp: run_start_def Let_def)
  finally show ?thesis .
qed

lemma scan_free_found:
  "scan_free n i fp s = Ok (fp', Some j) \<Longrightarrow> 0 \<le> fp' \<and> j - fp' = n - 1 \<and> j < nent s \<and> i \<le> j"
proof (induction n i fp s rule: scan_free.induct)
  case (1 n i fp s)
  show ?case
  proof (cases "i < nent s")
    case True
    then obtain e prec where e: "get_entry i s = Ok e" "prev_in_use i s = Ok prec"
      using "1.prems" by (subst (asm) scan_free.simps) auto
    define fp1 where "fp1 = (if run_free e \<and> prec then i else fp)"
    show ?thesis
    proof (cases "0 \<le> fp1 \<and> run_free e \<and> i - fp1 = n - 1")
      case found: True
      then show ?thesis using "1.prems" True e by (subst (asm) scan_free.simps) (auto simp: fp1_def Let_def)
    next
      case False
      then have "scan_free n (i + 1) fp1 s = Ok (fp', Some j)"
        using "1.prems" True e by (subst (asm) scan_free.simps) (auto simp: fp1_def Let_def)
      then show ?thesis using "1.IH" [OF True, of fp1 e prec] False by (auto simp: fp1_def)
    qed
  next
    case False
    then show ?thesis using "1.prems" by (subst (asm) scan_free.simps) simp
  qed
qed

text \<open>The claiming loop writes the last entry of the run at every step, and trips over it at the end.\<close>

lemma claim_entry_cases:
  assumes "0 \<le> j" "j < int (length (ents s))"
  obtains "claim_entry i j s = Fail KAssert"
  | e where "claim_entry i j s = Ok (upd_entry i (\<lambda>x. \<lparr>page = KMALLOC_PAGE, pe_pid = k_pid s, ctrl = e\<rparr>) s)"
proof -
  let ?e = "ents s ! nat j"
  have "claim_entry i j s =
      (if page ?e \<noteq> KMALLOC_PAGE \<and> \<not> GetValidityBit (ctrl ?e) \<and> \<not> GetTlbBit (ctrl ?e) \<and> \<not> GetIOBit (ctrl ?e)
         \<and> \<not> GetSwapBit (ctrl ?e)
       then Ok (upd_entry i (\<lambda>x. \<lparr>page = KMALLOC_PAGE, pe_pid = k_pid s, ctrl = SetValidityBitOne (ctrl ?e)\<rparr>) s)
       else Fail KAssert)"
    using assms by (simp add: claim_entry_def get_entry_def kassert_def)
  then show thesis using that by (simp split: if_splits)
qed

lemma claim_loop_fails:
  assumes "0 \<le> j" "j \<le> i" "i < int (length (ents s))" "j < i \<or> page (ents s ! nat i) = KMALLOC_PAGE"
  shows "kfold (claim_entry i) [j..i] s = Fail KAssert"
  using assms
proof (induction "nat (i - j)" arbitrary: j s)
  case 0
  then show ?case by (simp add: claim_entry_def get_entry_def)
next
  case (Suc d)
  then have split: "[j..i] = j # [j + 1..i]" by (intro upto_rec1) simp
  have "0 \<le> j" "j < int (length (ents s))" using Suc by auto
  then show ?case
  proof (cases rule: claim_entry_cases [of j s i])
    case (2 e)
    let ?s = "upd_entry i (\<lambda>x. \<lparr>page = KMALLOC_PAGE, pe_pid = k_pid s, ctrl = e\<rparr>) s"
    have "kfold (claim_entry i) [j + 1..i] ?s = Fail KAssert"
      using Suc.prems Suc.hyps(2) by (intro Suc.hyps(1)) auto
    then show ?thesis using 2 by (simp add: split)
  qed (simp add: split)
qed

lemma unat_PADDR: "unat p \<le> 0x20000000 \<Longrightarrow> unat (PADDR_TO_KVADDR p) = 0x80000000 + unat p"
  using unat_plus_nat [of p "0x80000000"] by (simp add: vm_consts)

lemma frame_index:
  assumes "frames_ok s" "i < npt s"
  shows "sint ((KVADDR_TO_PADDR (PADDR_TO_KVADDR (frame_addr s (int i))) - first_free_paddr (page_table s)) div PAGE_SIZE) = int i"
    and "first_free_paddr (page_table s) \<le> frame_addr s (int i)"
    and "PADDR_TO_KVADDR (first_free_paddr (page_table s)) \<le> PADDR_TO_KVADDR (frame_addr s (int i))"
    and "PADDR_TO_KVADDR (frame_addr s (int i)) > 0x80000000 \<and> PADDR_TO_KVADDR (frame_addr s (int i)) \<le> 0x9FFFFFFF"
proof -
  let ?f = "first_free_paddr (page_table s)"
  note U = frame_addr_unat [OF assms]
  have lim: "unat ?f + 4096 * i + 4096 \<le> 0x20000000" "0 < unat ?f" using assms by (auto simp: frames_ok_def)
  show le: "?f \<le> frame_addr s (int i)" using U(1) by (simp add: word_le_nat_alt)
  have kf: "unat (PADDR_TO_KVADDR ?f) = 0x80000000 + unat ?f" using lim by (intro unat_PADDR) simp
  then show "PADDR_TO_KVADDR ?f \<le> PADDR_TO_KVADDR (frame_addr s (int i))"
    using U(2) by (simp add: word_le_nat_alt)
  show "PADDR_TO_KVADDR (frame_addr s (int i)) > 0x80000000 \<and> PADDR_TO_KVADDR (frame_addr s (int i)) \<le> 0x9FFFFFFF"
    using U(2) lim by (simp add: word_le_nat_alt word_less_nat_alt)
  have "unat ((frame_addr s (int i) - ?f) div PAGE_SIZE) = i"
    using U(1) le by (simp add: unat_div_page unat_sub)
  then have "(frame_addr s (int i) - ?f) div PAGE_SIZE = of_nat i" by (metis of_nat_unat ucast_id)
  moreover have "i < 2 ^ 20" using lim by simp
  ultimately show "sint ((KVADDR_TO_PADDR (PADDR_TO_KVADDR (frame_addr s (int i))) - ?f) div PAGE_SIZE) = int i"
    by (simp add: KVADDR_TO_PADDR_def PADDR_TO_KVADDR_def signed_of_nat signed_take_bit_int_eq_self)
qed

text \<open>A change of an entry that holds no page before and after keeps the invariant and all contents.\<close>

lemma pt_inv_unused:
  assumes inv: "pt_inv s" and f: "\<not> user (ents s ! i)" "\<not> user (f (ents s ! i))"
  shows "pt_inv (upd_entry (int i) f s)" "vpage (upd_entry (int i) f s) k = vpage s k"
proof -
  have e: "ents (upd_entry (int i) f s) ! p = (if p = i \<and> i < length (ents s) then f (ents s ! i) else ents s ! p)" for p
    by (cases "i < length (ents s)") (auto simp: nth_list_update list_update_beyond)
  have C: "coupled (htable s) (npt s) (ents s)" using inv by (simp add: pt_inv_def)
  have "coupled (htable s) (npt s) (ents (upd_entry (int i) f s))"
    by (rule coupled_same [OF C]; unfold e; use f in auto)
  then show "pt_inv (upd_entry (int i) f s)" using inv by (simp add: pt_inv_def del: ents_upd_entry)
  have "sw_look (upd_entry (int i) f s) k = sw_look s k" by (rule sw_look_cong) simp_all
  then show "vpage (upd_entry (int i) f s) k = vpage s k"
    by (cases "ht_lookup (htable s) k") (simp_all add: vpage_def)
qed

lemma set_contiguous_nat:
  assumes "i < length (contiguous (page_table s))"
  shows "set_contiguous (int i) n s = Ok (s\<lparr>page_table := (page_table s)\<lparr>contiguous := (contiguous (page_table s))[i := n]\<rparr>\<rparr>)"
  using assms by (simp add: set_contiguous_def)

lemma contiguous_upd [simp]:
  "pt_inv (s\<lparr>page_table := (page_table s)\<lparr>contiguous := c\<rparr>\<rparr>) = pt_inv s"
  "vpage (s\<lparr>page_table := (page_table s)\<lparr>contiguous := c\<rparr>\<rparr>) k = vpage s k"
proof -
  let ?s = "s\<lparr>page_table := (page_table s)\<lparr>contiguous := c\<rparr>\<rparr>"
  show "pt_inv ?s = pt_inv s" by (simp add: pt_inv_def pt_shape_def npt_def)
  have "sw_look ?s k = sw_look s k" by (rule sw_look_cong) simp_all
  then show "vpage ?s k = vpage s k"
    by (cases "ht_lookup (htable s) k") (simp_all add: vpage_def frame_addr_def)
qed

lemma alloc_one_frame:
  assumes inv: "pt_shape s" "frames_ok s" "pt_active s" and i: "find (run_start s) [0..<npt s] = Some i"
    and len: "npt s \<le> length (contiguous (page_table s))"
  defines "s1 \<equiv> upd_entry (int i) (\<lambda>x. \<lparr>page = KMALLOC_PAGE, pe_pid = k_pid s, ctrl = SetValidityBitOne (ctrl (ents s ! i))\<rparr>) s"
  shows "alloc_kpages 1 s = Ok (PADDR_TO_KVADDR (frame_addr s (int i)),
    s1\<lparr>page_table := (page_table s1)\<lparr>contiguous := (contiguous (page_table s))[i := 1]\<rparr>\<rparr>)"
proof -
  note D = pt_shapeD [OF inv(1)]
  have I: "i < npt s" "run_start s i" "\<And>k. k < i \<Longrightarrow> \<not> run_start s k" using i by (auto simp: find_upt_Some)
  have rf: "run_free (ents s ! i)" using I(2) by (simp add: run_start_def)
  have "i < length (ents s)" using I(1) D(3) by simp
  then have claim: "claim_entry (int i) (int i) s = Ok s1"
    using rf by (simp add: claim_entry_def run_free_def s1_def)
  have "set_contiguous (int i) 1 s1 = Ok (s1\<lparr>page_table := (page_table s1)\<lparr>contiguous := (contiguous (page_table s))[i := 1]\<rparr>\<rparr>)"
    using set_contiguous_nat [of i s1 1] I(1) len by (simp add: s1_def)
  moreover have "1 \<le> nent s" using D(1,2) by simp
  ultimately have "get_contiguous_pages 1 s = Ok (frame_addr s (int i),
      s1\<lparr>page_table := (page_table s1)\<lparr>contiguous := (contiguous (page_table s))[i := 1]\<rparr>\<rparr>)"
    using scan_free_one [OF inv(1) I] claim by (simp add: get_contiguous_pages_def) (simp add: frame_addr_def s1_def)
  then show ?thesis using inv(3) frame_index(4) [OF inv(2) I(1)] by (simp add: alloc_kpages_def)
qed

lemma alloc_one_page:
  assumes "pt_inv s" "frames_ok s" "pt_active s" "find (run_start s) [0..<npt s] = Some i"
    "npt s \<le> length (contiguous (page_table s))"
  defines "s1 \<equiv> upd_entry (int i) (\<lambda>x. \<lparr>page = KMALLOC_PAGE, pe_pid = k_pid s, ctrl = SetValidityBitOne (ctrl (ents s ! i))\<rparr>) s"
  shows "alloc_kpages 1 s = Ok (PADDR_TO_KVADDR (frame_addr s (int i)),
    s1\<lparr>page_table := (page_table s1)\<lparr>contiguous := (contiguous (page_table s))[i := 1]\<rparr>\<rparr>)"
  unfolding s1_def using assms(1-5) by (intro alloc_one_frame) (simp_all add: pt_inv_def)

lemma ex_cells_unat: "j < 131072 \<Longrightarrow> unat (ex_cells j) = 0x80002000 + 32 * j"
proof -
  assume "j < 131072"
  moreover have "ex_cells j = 0x80002000 + of_nat (32 * j)" by (simp add: ex_cells_def)
  ultimately show ?thesis by (simp only:) (subst unat_plus_nat; simp)
qed

lemma ex_cells_inj: "inj_on ex_cells {..<131072}"
  using ex_cells_unat by (intro inj_onI) (metis add_left_cancel lessThan_iff mult_left_cancel zero_neq_numeral)

text \<open>
  (C32) One page for the kernel: \<open>alloc_kpages 1\<close> succeeds with the first frame at which a free run
  may start, which then is neither free nor evictable; no page of a process is affected;
  \<open>free_kpages\<close> of the address takes the frame back, which is free again if its page
  was not marked otherwise; the invariant of the page table holds throughout.
\<close>

theorem kernel_page_roundtrip:
  assumes inv: "pt_inv s" "frames_ok s" "pt_active s" and i: "find (run_start s) [0..<npt s] = Some i"
    and len: "npt s \<le> length (contiguous (page_table s))"
  shows "\<exists>a s1 s2. alloc_kpages 1 s = Ok (a, s1) \<and> a = PADDR_TO_KVADDR (frame_addr s (int i)) \<and> pt_inv s1
    \<and> \<not> entry_free (ents s1 ! i) \<and> \<not> evictable (ents s1 ! i) \<and> (\<forall>k. vpage s1 k = vpage s k)
    \<and> free_kpages a s1 = Ok s2 \<and> pt_inv s2 \<and> entry_free (ents s2 ! i) \<and> (\<forall>k. vpage s2 k = vpage s k)"
proof -
  define e where "e = (\<lambda>x :: pt_entry. \<lparr>page = KMALLOC_PAGE, pe_pid = k_pid s, ctrl = SetValidityBitOne (ctrl (ents s ! i))\<rparr>)"
  define t where "t = upd_entry (int i) e s"
  define s1 where "s1 = t\<lparr>page_table := (page_table t)\<lparr>contiguous := (contiguous (page_table s))[i := 1]\<rparr>\<rparr>"
  define r where "r = (\<lambda>x :: pt_entry. x\<lparr>ctrl := SetValidityBitZero (ctrl x), page := 0\<rparr>)"
  let ?a = "PADDR_TO_KVADDR (frame_addr s (int i))"
  have I: "i < npt s" "run_free (ents s ! i)" using i by (auto simp: find_upt_Some run_start_def)
  have sh: "pt_shape s" using inv(1) by (simp add: pt_inv_def)
  have pl: "i < length (ents s)" "i < length (contiguous (page_table s))"
    using I(1) len pt_shapeD(3) [OF sh] by simp_all
  have al: "alloc_kpages 1 s = Ok (?a, s1)"
    using alloc_one_page [OF inv i len] by (simp add: s1_def t_def e_def)
  have nu: "\<not> user (ents s ! i)" "\<not> user (e x)" for x using I(2) by (simp_all add: user_def run_free_def e_def)
  have e1: "ents s1 ! i = e (ents s ! i)" "ents s1 = ents t" using pl by (simp_all add: s1_def t_def)
  have P1: "pt_inv s1" "vpage s1 k = vpage s k" for k
    using pt_inv_unused [OF inv(1) nu] by (simp_all add: s1_def t_def)
  have fr: "frame_addr s1 = frame_addr s" "npt s1 = npt s" "first_free_paddr (page_table s1) = first_free_paddr (page_table s)"
    "pt_active s1 = pt_active s"
    by (simp_all add: s1_def t_def frame_addr_def npt_def fun_eq_iff upd_entry_def)
  define s2 where "s2 = upd_entry (int i) r s1"
  have P2: "pt_inv s2" "vpage s2 k = vpage s1 k" for k
    unfolding s2_def by (rule pt_inv_unused [OF P1(1)]; simp add: e1(1) nu r_def user_def e_def)+
  have rel: "release_entry (int i) s1 = Ok s2"
    using pl e1 by (simp add: release_entry_def e_def s2_def r_def) (simp add: t_def e_def)
  note fx = frame_index [OF inv(2) I(1)]
  have c: "contiguous (page_table s1) ! i = 1" "i < length (contiguous (page_table s1))" using pl(2) by (simp_all add: s1_def)
  have "set_contiguous (int i) (- 1) s2 = Ok (s2\<lparr>page_table := (page_table s2)\<lparr>contiguous := (contiguous (page_table s2))[i := - 1]\<rparr>\<rparr>)"
    using c(2) by (intro set_contiguous_nat) (simp add: s2_def)
  then have "free_contiguous_pages ?a s1 =
      Ok (s2\<lparr>page_table := (page_table s2)\<lparr>contiguous := (contiguous (page_table s2))[i := - 1]\<rparr>\<rparr>)"
    using rel fx(1) c fr(3) by (simp add: free_contiguous_pages_def)
  then have "free_kpages ?a s1 = Ok (s2\<lparr>page_table := (page_table s2)\<lparr>contiguous := (contiguous (page_table s2))[i := - 1]\<rparr>\<rparr>)"
    using fx(3) inv(3) fr(3,4) by (simp add: free_kpages_def)
  moreover have "i < length (ents t)" using pl(1) by (simp add: t_def)
  then have "entry_free (ents s2 ! i)"
    using e1 I(2) by (simp add: s2_def r_def e_def entry_free_def run_free_def KMALLOC_PAGE_def)
  moreover have "\<not> entry_free (ents s1 ! i)" "\<not> evictable (ents s1 ! i)"
    by (simp_all add: e1(1) e_def entry_free_def evictable_def)
  moreover have "pt_inv (s2\<lparr>page_table := (page_table s2)\<lparr>contiguous := c'\<rparr>\<rparr>)"
      "vpage (s2\<lparr>page_table := (page_table s2)\<lparr>contiguous := c'\<rparr>\<rparr>) k = vpage s k"
      "ents (s2\<lparr>page_table := (page_table s2)\<lparr>contiguous := c'\<rparr>\<rparr>) = ents s2" for c' k
    using P1(2) P2 by simp_all
  ultimately show ?thesis using al P1 by metis
qed

text \<open>
  Several pages for the kernel: whenever the search finds a run of \<open>n > 1\<close> free frames,
  \<open>get_contiguous_pages\<close> stops in its own assertion, because the loop that claims the run marks
  the last frame at every step and finds it taken at the last one.
\<close>

theorem contiguous_run_fails:
  assumes "pt_shape s" "2 \<le> n" "n \<le> nent s" "scan_free n 0 (- 1) s = Ok (fp, Some i)"
  shows "get_contiguous_pages n s = Fail KAssert"
proof -
  have F: "0 \<le> fp" "i - fp = n - 1" "i < nent s" using scan_free_found [OF assms(4)] by auto
  then have "kfold (claim_entry i) [fp..i] s = Fail KAssert"
    using assms(2) pt_shapeD(2,3) [OF assms(1)] by (intro claim_loop_fails) auto
  then show ?thesis using assms(3,4) by (simp add: get_contiguous_pages_def)
qed

definition ex_free_vm :: vm where
  "ex_free_vm = ex_vm\<lparr>page_table := \<lparr>entries = replicate 3 \<lparr>page = 0, pe_pid = 0, ctrl = 0\<rparr>, n_entry = 3,
     first_free_paddr = 0x100000, contiguous = replicate 3 (- 1)\<rparr>,
     htable := (case init_with 3 0x80001000 ex_cells ex_heap of Ok ht \<Rightarrow> ht | Fail x \<Rightarrow> ex_ht)\<rparr>"

lemma ex_free_facts:
  "pt_inv ex_free_vm" "frames_ok ex_free_vm" "pt_active ex_free_vm" "npt ex_free_vm = 3"
  "ents ex_free_vm = replicate 3 \<lparr>page = 0, pe_pid = 0, ctrl = 0\<rparr>" "p < 3 \<Longrightarrow> run_free (ents ex_free_vm ! p)"
proof -
  show e: "ents ex_free_vm = replicate 3 \<lparr>page = 0, pe_pid = 0, ctrl = 0\<rparr>" and n: "npt ex_free_vm = 3"
    and "pt_active ex_free_vm"
    by (simp_all add: ex_free_vm_def npt_def ex_vm_def)
  show "p < 3 \<Longrightarrow> run_free (ents ex_free_vm ! p)" by (simp add: e run_free_def KMALLOC_PAGE_def)
  have "inj_on ex_cells {..<3}" by (rule inj_on_subset [OF ex_cells_inj]) simp
  moreover have "kseg0_ptr (ex_cells j)" if "j < 3" for j
    using ex_cells_unat [of j] that by (simp add: kseg0_ptr_def word_less_nat_alt word_le_nat_alt)
  ultimately obtain h where h: "init_with 3 0x80001000 ex_cells ex_heap = Ok h" "ht_inv h 3" "ht_lookup h = Map.empty"
    using init_with_correct [of 3 "0x80001000" ex_cells ex_heap] by auto
  have "users 3 (ents ex_free_vm) = {}" by (auto simp: users_def user_def e)
  then show "pt_inv ex_free_vm"
    using h by (simp add: pt_inv_def coupled_def pt_shape_def n) (simp add: ex_free_vm_def ex_vm_def)
  show "frames_ok ex_free_vm"
    by (simp add: frames_ok_def n) (simp add: ex_free_vm_def ex_vm_def ex_elf_sys_def ex_sys_def ex_swap_def ex_lhd_def)
qed

theorem kernel_page_roundtrip_witness:
  "\<exists>s1 s2. alloc_kpages 1 ex_free_vm = Ok (0x80100000, s1) \<and> free_kpages 0x80100000 s1 = Ok s2 \<and> entry_free (ents s2 ! 0)"
proof -
  have "find (run_start ex_free_vm) [0..<npt ex_free_vm] = Some 0"
    using ex_free_facts(4,6) by (simp add: find_upt_Some run_start_def)
  moreover have "npt ex_free_vm \<le> length (contiguous (page_table ex_free_vm))"
    using ex_free_facts(4) by (simp add: ex_free_vm_def)
  moreover have "PADDR_TO_KVADDR (frame_addr ex_free_vm (int 0)) = 0x80100000"
    by (simp add: frame_addr_def ex_free_vm_def vm_consts)
  ultimately show ?thesis
    using kernel_page_roundtrip [OF ex_free_facts(1,2,3), of 0] by auto
qed

theorem contiguous_run_fails_witness: "get_contiguous_pages 2 ex_free_vm = Fail KAssert"
proof -
  have sh: "pt_shape ex_free_vm" using ex_free_facts(1) by (simp add: pt_inv_def)
  have n: "nent ex_free_vm = 3" by (simp add: ex_free_vm_def)
  have e: "run_free (ents ex_free_vm ! 0)" "run_free (ents ex_free_vm ! 1)" using ex_free_facts(6) by simp_all
  have g: "get_entry 0 ex_free_vm = Ok (ents ex_free_vm ! 0)" "get_entry 1 ex_free_vm = Ok (ents ex_free_vm ! 1)"
    using get_entry_nat [of 0 ex_free_vm] get_entry_nat [of 1 ex_free_vm] ex_free_facts(5) by simp_all
  have p: "prev_in_use 0 ex_free_vm = Ok True" "prev_in_use 1 ex_free_vm = Ok False"
    using prev_in_use_nat [of 0 ex_free_vm] prev_in_use_nat [of 1 ex_free_vm] ex_free_facts(5)
    by (simp_all add: valid_entry_def KMALLOC_PAGE_def)
  have "scan_free 2 0 (- 1) ex_free_vm = scan_free 2 1 0 ex_free_vm"
    using n e g p by (subst scan_free.simps) simp
  also have "\<dots> = Ok (0, Some 1)" using n e g p by (subst scan_free.simps) simp
  finally show ?thesis using contiguous_run_fails [OF sh, of 2] n by simp
qed

end
