(* ===== verification/Synch.thy ===== *)
theory Synch
  imports VM_Prelude
begin

text \<open>
  Synchronisation (\<^verbatim>\<open>kern/thread/synch.c\<close> and the wait channels of
  \<^verbatim>\<open>kern/thread/thread.c\<close>): semaphores, locks and condition variables. Every primitive
  keeps its data under a spinlock, so its critical sections are the atomic steps; a thread that
  finds its condition false leaves the processor on a wait channel and tries again when it is woken.
  A step relation interleaves the sections of any number of threads that call the primitives in any
  order. Shown by rule induction: wait channels hold exactly the sleeping threads; a lock has one
  owner at a time, who alone gives it up; no wake-up is lost.
\<close>

section \<open>Data\<close>

text \<open>
  A wait channel is the list of its sleeping threads, in the order of
  \<open>threadlist_addtail\<close>. Threads are named by their address; \<open>NULL\<close> is no thread.
\<close>

type_synonym tid = ptr
type_synonym wchan = "tid list"

record semaphore =
  sem_count :: "32 word"
  sem_wchan :: wchan

record lock =
  lk_owner :: tid
  lk_wchan :: wchan

record cv =
  cv_wchan :: wchan

text \<open>
  Where a thread is: outside the primitives, at the head of the loop of \<open>P\<close> or
  \<open>lock_acquire\<close>, or asleep on the channel of a semaphore, a lock, or a condition variable (with
  the lock it takes again when it wakes up).
\<close>

datatype pc = Run | InP ptr | SleepP ptr | InLock ptr | SleepLock ptr | SleepCv ptr ptr

record synch =
  sems :: "ptr \<rightharpoonup> semaphore"
  locks :: "ptr \<rightharpoonup> lock"
  cvs :: "ptr \<rightharpoonup> cv"
  pcs :: "tid \<Rightarrow> pc"
  t_in_interrupt :: "tid \<Rightarrow> bool"

section \<open>Wait channels\<close>

fun wake_pc :: "pc \<Rightarrow> pc" where
  "wake_pc (SleepP p) = InP p"
| "wake_pc (SleepLock l) = InLock l"
| "wake_pc (SleepCv c l) = InLock l"
| "wake_pc Run = Run"
| "wake_pc (InP p) = InP p"
| "wake_pc (InLock l) = InLock l"

definition wchan_sleep :: "tid \<Rightarrow> pc \<Rightarrow> wchan \<Rightarrow> (tid \<Rightarrow> pc) \<Rightarrow> wchan \<times> (tid \<Rightarrow> pc)" where
  "wchan_sleep t q w r = (w @ [t], r(t := q))"

definition wchan_wakeone :: "wchan \<Rightarrow> (tid \<Rightarrow> pc) \<Rightarrow> wchan \<times> (tid \<Rightarrow> pc)" where
  "wchan_wakeone w r = (case w of [] \<Rightarrow> ([], r) | t # ts \<Rightarrow> (ts, r(t := wake_pc (r t))))"

definition wchan_wakeall :: "wchan \<Rightarrow> (tid \<Rightarrow> pc) \<Rightarrow> wchan \<times> (tid \<Rightarrow> pc)" where
  "wchan_wakeall w r = ([], fold (\<lambda>t r. r(t := wake_pc (r t))) w r)"

definition wchan_isempty :: "wchan \<Rightarrow> bool" where
  "wchan_isempty w \<longleftrightarrow> w = []"

section \<open>Semaphores\<close>

text \<open>The arguments of the \<open>create\<close> functions are what the three allocations return.\<close>

definition sem_create :: "ptr \<Rightarrow> ptr \<Rightarrow> ptr \<Rightarrow> 32 word \<Rightarrow> 'a synch_scheme \<Rightarrow> ptr \<times> 'a synch_scheme" where
  "sem_create blk name wc initial_count s =
     (if blk = NULL \<or> name = NULL \<or> wc = NULL then (NULL, s)
      else (blk, s\<lparr>sems := (sems s)(blk \<mapsto> \<lparr>sem_count = initial_count, sem_wchan = []\<rparr>)\<rparr>))"

definition sem_destroy :: "ptr \<Rightarrow> 'a synch_scheme \<Rightarrow> 'a synch_scheme kres" where
  "sem_destroy p s =
     kassert (p \<noteq> NULL) (case sems s p of
        None \<Rightarrow> Fail NullDeref
      | Some m \<Rightarrow> kassert (wchan_isempty (sem_wchan m)) (Ok (s\<lparr>sems := (sems s)(p := None)\<rparr>)))"

definition P_enter :: "tid \<Rightarrow> ptr \<Rightarrow> 'a synch_scheme \<Rightarrow> 'a synch_scheme kres" where
  "P_enter t p s =
     kassert (p \<noteq> NULL) (kassert (\<not> t_in_interrupt s t) (Ok (s\<lparr>pcs := (pcs s)(t := InP p)\<rparr>)))"

definition P_iter :: "tid \<Rightarrow> ptr \<Rightarrow> 'a synch_scheme \<Rightarrow> 'a synch_scheme kres" where
  "P_iter t p s =
     (case sems s p of
        None \<Rightarrow> Fail NullDeref
      | Some m \<Rightarrow>
          if sem_count m = 0
          then let (w, r) = wchan_sleep t (SleepP p) (sem_wchan m) (pcs s)
               in Ok (s\<lparr>sems := (sems s)(p \<mapsto> m\<lparr>sem_wchan := w\<rparr>), pcs := r\<rparr>)
          else Ok (s\<lparr>sems := (sems s)(p \<mapsto> m\<lparr>sem_count := sem_count m - 1\<rparr>), pcs := (pcs s)(t := Run)\<rparr>))"

definition sem_V :: "ptr \<Rightarrow> 'a synch_scheme \<Rightarrow> 'a synch_scheme kres" where
  "sem_V p s =
     kassert (p \<noteq> NULL) (case sems s p of
        None \<Rightarrow> Fail NullDeref
      | Some m \<Rightarrow>
          kassert (sem_count m + 1 > 0)
            (let (w, r) = wchan_wakeone (sem_wchan m) (pcs s)
             in Ok (s\<lparr>sems := (sems s)(p \<mapsto> \<lparr>sem_count = sem_count m + 1, sem_wchan = w\<rparr>), pcs := r\<rparr>)))"

section \<open>Locks\<close>

definition lock_create :: "ptr \<Rightarrow> ptr \<Rightarrow> ptr \<Rightarrow> 'a synch_scheme \<Rightarrow> ptr \<times> 'a synch_scheme" where
  "lock_create blk name wc s =
     (if blk = NULL \<or> name = NULL \<or> wc = NULL then (NULL, s)
      else (blk, s\<lparr>locks := (locks s)(blk \<mapsto> \<lparr>lk_owner = NULL, lk_wchan = []\<rparr>)\<rparr>))"

definition lock_destroy :: "ptr \<Rightarrow> 'a synch_scheme \<Rightarrow> 'a synch_scheme kres" where
  "lock_destroy l s =
     kassert (l \<noteq> NULL) (case locks s l of
        None \<Rightarrow> Fail NullDeref
      | Some k \<Rightarrow> kassert (wchan_isempty (lk_wchan k)) (Ok (s\<lparr>locks := (locks s)(l := None)\<rparr>)))"

definition lock_do_i_hold :: "tid \<Rightarrow> ptr \<Rightarrow> 'a synch_scheme \<Rightarrow> bool kres" where
  "lock_do_i_hold t l s = (case locks s l of None \<Rightarrow> Fail NullDeref | Some k \<Rightarrow> Ok (lk_owner k = t))"

definition lock_enter :: "tid \<Rightarrow> ptr \<Rightarrow> 'a synch_scheme \<Rightarrow> 'a synch_scheme kres" where
  "lock_enter t l s =
     kassert (l \<noteq> NULL) (kbind (lock_do_i_hold t l s) (\<lambda>h.
       kassert (\<not> h) (kassert (\<not> t_in_interrupt s t) (Ok (s\<lparr>pcs := (pcs s)(t := InLock l)\<rparr>)))))"

definition lock_iter :: "tid \<Rightarrow> ptr \<Rightarrow> 'a synch_scheme \<Rightarrow> 'a synch_scheme kres" where
  "lock_iter t l s =
     (case locks s l of
        None \<Rightarrow> Fail NullDeref
      | Some k \<Rightarrow>
          if lk_owner k \<noteq> NULL
          then let (w, r) = wchan_sleep t (SleepLock l) (lk_wchan k) (pcs s)
               in Ok (s\<lparr>locks := (locks s)(l \<mapsto> k\<lparr>lk_wchan := w\<rparr>), pcs := r\<rparr>)
          else Ok (s\<lparr>locks := (locks s)(l \<mapsto> k\<lparr>lk_owner := t\<rparr>), pcs := (pcs s)(t := Run)\<rparr>))"

definition lock_release :: "tid \<Rightarrow> ptr \<Rightarrow> 'a synch_scheme \<Rightarrow> 'a synch_scheme kres" where
  "lock_release t l s =
     kassert (l \<noteq> NULL) (kbind (lock_do_i_hold t l s) (\<lambda>h. kassert h
       (case locks s l of
          None \<Rightarrow> Fail NullDeref
        | Some k \<Rightarrow>
            let (w, r) = wchan_wakeone (lk_wchan k) (pcs s)
            in Ok (s\<lparr>locks := (locks s)(l \<mapsto> \<lparr>lk_owner = NULL, lk_wchan = w\<rparr>), pcs := r\<rparr>))))"

section \<open>Condition variables\<close>

definition cv_create :: "ptr \<Rightarrow> ptr \<Rightarrow> ptr \<Rightarrow> 'a synch_scheme \<Rightarrow> ptr \<times> 'a synch_scheme" where
  "cv_create blk name wc s =
     (if blk = NULL \<or> name = NULL \<or> wc = NULL then (NULL, s)
      else (blk, s\<lparr>cvs := (cvs s)(blk \<mapsto> \<lparr>cv_wchan = []\<rparr>)\<rparr>))"

definition cv_destroy :: "ptr \<Rightarrow> 'a synch_scheme \<Rightarrow> 'a synch_scheme kres" where
  "cv_destroy c s =
     kassert (c \<noteq> NULL) (case cvs s c of
        None \<Rightarrow> Fail NullDeref
      | Some v \<Rightarrow> kassert (wchan_isempty (cv_wchan v)) (Ok (s\<lparr>cvs := (cvs s)(c := None)\<rparr>)))"

text \<open>The asserted entry conditions the three operations share; \<open>c\<close> is read after them.\<close>

definition cv_checked :: "tid \<Rightarrow> ptr \<Rightarrow> ptr \<Rightarrow> 'a synch_scheme \<Rightarrow> (cv \<Rightarrow> 'b kres) \<Rightarrow> 'b kres" where
  "cv_checked t c l s f =
     kassert (l \<noteq> NULL) (kassert (c \<noteq> NULL) (kbind (lock_do_i_hold t l s) (\<lambda>h. kassert h
       (case cvs s c of None \<Rightarrow> Fail NullDeref | Some v \<Rightarrow> f v))))"

text \<open>
  \<open>cv_wait\<close> up to the sleep, atomic because the spinlock of the condition variable is held; when
  the thread wakes up it is in \<open>lock_acquire\<close>.
\<close>

definition cv_wait :: "tid \<Rightarrow> ptr \<Rightarrow> ptr \<Rightarrow> 'a synch_scheme \<Rightarrow> 'a synch_scheme kres" where
  "cv_wait t c l s =
     cv_checked t c l s (\<lambda>v.
       kbind (lock_release t l s) (\<lambda>s. kassert (\<not> t_in_interrupt s t)
         (let (w, r) = wchan_sleep t (SleepCv c l) (cv_wchan v) (pcs s)
          in Ok (s\<lparr>cvs := (cvs s)(c \<mapsto> \<lparr>cv_wchan = w\<rparr>), pcs := r\<rparr>))))"

definition cv_signal :: "tid \<Rightarrow> ptr \<Rightarrow> ptr \<Rightarrow> 'a synch_scheme \<Rightarrow> 'a synch_scheme kres" where
  "cv_signal t c l s =
     cv_checked t c l s (\<lambda>v.
       let (w, r) = wchan_wakeone (cv_wchan v) (pcs s)
       in Ok (s\<lparr>cvs := (cvs s)(c \<mapsto> \<lparr>cv_wchan = w\<rparr>), pcs := r\<rparr>))"

text \<open>\<open>cv_broadcast\<close> does not ask for the lock in an interrupt handler.\<close>

definition cv_broadcast :: "tid \<Rightarrow> ptr \<Rightarrow> ptr \<Rightarrow> 'a synch_scheme \<Rightarrow> 'a synch_scheme kres" where
  "cv_broadcast t c l s =
     (let wake = (\<lambda>v :: cv. let (w, r) = wchan_wakeall (cv_wchan v) (pcs s)
                   in Ok (s\<lparr>cvs := (cvs s)(c \<mapsto> \<lparr>cv_wchan = w\<rparr>), pcs := r\<rparr>))
      in if t_in_interrupt s t
         then kassert (l \<noteq> NULL) (kassert (c \<noteq> NULL)
                (case cvs s c of None \<Rightarrow> Fail NullDeref | Some v \<Rightarrow> wake v))
         else cv_checked t c l s wake)"

section \<open>Calls that are not interrupted\<close>

text \<open>
  \<open>lock_acquire\<close> and \<open>P\<close> as one call; \<open>Blocked\<close> says that the thread has
  gone to sleep.
\<close>

definition unless_asleep :: "tid \<Rightarrow> 'a synch_scheme \<Rightarrow> 'a synch_scheme kres" where
  "unless_asleep t s = (if pcs s t = Run then Ok s else Fail Blocked)"

definition lock_acquire :: "tid \<Rightarrow> ptr \<Rightarrow> 'a synch_scheme \<Rightarrow> 'a synch_scheme kres" where
  "lock_acquire t l s = kbind (lock_enter t l s) (\<lambda>s. kbind (lock_iter t l s) (unless_asleep t))"

definition sem_P :: "tid \<Rightarrow> ptr \<Rightarrow> 'a synch_scheme \<Rightarrow> 'a synch_scheme kres" where
  "sem_P t p s = kbind (P_enter t p s) (\<lambda>s. kbind (P_iter t p s) (unless_asleep t))"

section \<open>Interleaving\<close>

text \<open>
  A thread outside the primitives makes any call it likes; a thread at the head of a loop
  executes the next iteration; a sleeping thread does nothing.
\<close>

datatype call =
    CallP ptr
  | CallV ptr
  | CallAcquire ptr
  | CallRelease ptr
  | CallWait ptr ptr
  | CallSignal ptr ptr
  | CallBroadcast ptr ptr

fun do_call :: "tid \<Rightarrow> call \<Rightarrow> 'a synch_scheme \<Rightarrow> 'a synch_scheme kres" where
  "do_call t (CallP p) s = P_enter t p s"
| "do_call t (CallV p) s = sem_V p s"
| "do_call t (CallAcquire l) s = lock_enter t l s"
| "do_call t (CallRelease l) s = lock_release t l s"
| "do_call t (CallWait c l) s = cv_wait t c l s"
| "do_call t (CallSignal c l) s = cv_signal t c l s"
| "do_call t (CallBroadcast c l) s = cv_broadcast t c l s"

inductive step :: "tid \<Rightarrow> 'a synch_scheme \<Rightarrow> 'a synch_scheme \<Rightarrow> bool" where
  call: "t \<noteq> NULL \<Longrightarrow> pcs s t = Run \<Longrightarrow> do_call t c s = Ok s' \<Longrightarrow> step t s s'"
| again_P: "t \<noteq> NULL \<Longrightarrow> pcs s t = InP p \<Longrightarrow> P_iter t p s = Ok s' \<Longrightarrow> step t s s'"
| again_lock: "t \<noteq> NULL \<Longrightarrow> pcs s t = InLock l \<Longrightarrow> lock_iter t l s = Ok s' \<Longrightarrow> step t s s'"

inductive runs :: "tid set \<Rightarrow> 'a synch_scheme \<Rightarrow> 'a synch_scheme \<Rightarrow> bool" for T where
  refl: "runs T s s"
| more: "runs T s s' \<Longrightarrow> t \<in> T \<Longrightarrow> step t s' s'' \<Longrightarrow> runs T s s''"

inductive_cases stepE: "step t s s'"

section \<open>Wait channels hold the sleeping threads\<close>

datatype chan = CSem ptr | CLock ptr | CCv ptr

fun sleeps_on :: "chan \<Rightarrow> pc \<Rightarrow> bool" where
  "sleeps_on (CSem p) q \<longleftrightarrow> q = SleepP p"
| "sleeps_on (CLock l) q \<longleftrightarrow> q = SleepLock l"
| "sleeps_on (CCv c) q \<longleftrightarrow> (case q of SleepCv c' l \<Rightarrow> c' = c | _ \<Rightarrow> False)"

fun wlist :: "'a synch_scheme \<Rightarrow> chan \<Rightarrow> wchan option" where
  "wlist s (CSem p) = map_option sem_wchan (sems s p)"
| "wlist s (CLock l) = map_option lk_wchan (locks s l)"
| "wlist s (CCv c) = map_option cv_wchan (cvs s c)"

definition queues :: "(chan \<Rightarrow> wchan option) \<Rightarrow> (tid \<Rightarrow> pc) \<Rightarrow> bool" where
  "queues W r \<longleftrightarrow> (\<forall>ch w. W ch = Some w \<longrightarrow> distinct w \<and> (\<forall>t. t \<in> set w \<longleftrightarrow> sleeps_on ch (r t)))"

lemma wlist_upd [simp]:
  "wlist (s\<lparr>pcs := r\<rparr>) = wlist s"
  "wlist (s\<lparr>sems := (sems s)(p \<mapsto> m)\<rparr>) = (wlist s)(CSem p \<mapsto> sem_wchan m)"
  "wlist (s\<lparr>locks := (locks s)(l \<mapsto> k)\<rparr>) = (wlist s)(CLock l \<mapsto> lk_wchan k)"
  "wlist (s\<lparr>cvs := (cvs s)(c \<mapsto> v)\<rparr>) = (wlist s)(CCv c \<mapsto> cv_wchan v)"
proof -
  show "wlist (s\<lparr>pcs := r\<rparr>) = wlist s" by (rule ext, case_tac x) simp_all
  show "wlist (s\<lparr>sems := (sems s)(p \<mapsto> m)\<rparr>) = (wlist s)(CSem p \<mapsto> sem_wchan m)"
    by (rule ext, case_tac x) simp_all
  show "wlist (s\<lparr>locks := (locks s)(l \<mapsto> k)\<rparr>) = (wlist s)(CLock l \<mapsto> lk_wchan k)"
    by (rule ext, case_tac x) simp_all
  show "wlist (s\<lparr>cvs := (cvs s)(c \<mapsto> v)\<rparr>) = (wlist s)(CCv c \<mapsto> cv_wchan v)"
    by (rule ext, case_tac x) simp_all
qed

lemma sleeps_on_unique: "sleeps_on ch q \<Longrightarrow> sleeps_on ch' q \<Longrightarrow> ch = ch'"
  by (cases ch; cases ch'; cases q) simp_all

lemma not_asleep [simp]:
  "\<not> sleeps_on ch Run" "\<not> sleeps_on ch (InP p)" "\<not> sleeps_on ch (InLock l)" "\<not> sleeps_on ch (wake_pc q)"
  by (cases ch; cases q; simp)+

lemma queues_pc: "queues W r \<Longrightarrow> \<forall>ch. \<not> sleeps_on ch (r t) \<Longrightarrow> \<forall>ch. \<not> sleeps_on ch q \<Longrightarrow> queues W (r(t := q))"
  by (auto simp: queues_def)

lemma queues_sleep:
  assumes "queues W r" "W ch = Some w" "\<forall>ch. \<not> sleeps_on ch (r t)" "sleeps_on ch q"
  shows "queues (W(ch \<mapsto> w @ [t])) (r(t := q))"
proof -
  have "sleeps_on ch' q \<longleftrightarrow> ch' = ch" for ch' using sleeps_on_unique assms(4) by blast
  then show ?thesis using assms(1-3) by (auto simp: queues_def)
qed

lemma queues_wake:
  assumes "queues W r" "W ch = Some (t # w)"
  shows "queues (W(ch \<mapsto> w)) (r(t := wake_pc (r t)))"
proof -
  have h: "distinct (t # w)" "u \<in> set (t # w) \<longleftrightarrow> sleeps_on ch (r u)" for u
    using assms unfolding queues_def by blast+
  then have "sleeps_on ch' (r t) \<longleftrightarrow> ch' = ch" for ch' using sleeps_on_unique by auto
  then show ?thesis using assms(1) h unfolding queues_def by (auto split: if_splits)
qed

lemma queues_wakeone:
  assumes "queues W r" "W ch = Some w" "wchan_wakeone w r = (w', r')"
  shows "queues (W(ch \<mapsto> w')) r'"
  using assms queues_wake by (auto simp: wchan_wakeone_def fun_upd_idem split: list.splits)

lemma queues_wakeall:
  assumes "queues W r" "W ch = Some w" "wchan_wakeall w r = (w', r')"
  shows "queues (W(ch \<mapsto> w')) r'"
proof -
  have "queues (W(ch \<mapsto> [])) (fold (\<lambda>t r. r(t := wake_pc (r t))) w r)"
    using assms(1,2)
  proof (induction w arbitrary: W r)
    case Nil
    then show ?case by (simp add: fun_upd_idem)
  next
    case (Cons t w)
    from Cons.IH [OF queues_wake [OF Cons.prems]] show ?case by (simp only: fun_upd_same fun_upd_upd fold_simps)
  qed
  then show ?thesis using assms(3) by (auto simp: wchan_wakeall_def)
qed

lemma iter_queues:
  assumes "queues (wlist s) (pcs s)" "\<forall>ch. \<not> sleeps_on ch (pcs s t)"
  shows "P_iter t p s = Ok s' \<Longrightarrow> queues (wlist s') (pcs s')" "lock_iter t l s = Ok s' \<Longrightarrow> queues (wlist s') (pcs s')"
proof -
  show "queues (wlist s') (pcs s')" if "P_iter t p s = Ok s'"
    using that assms queues_sleep [of "wlist s" "pcs s" "CSem p" _ t "SleepP p"] queues_pc [of "wlist s" "pcs s" t Run]
    by (auto simp: P_iter_def wchan_sleep_def fun_upd_idem simp del: fun_upd_apply split: option.splits if_splits)
  show "queues (wlist s') (pcs s')" if "lock_iter t l s = Ok s'"
    using that assms queues_sleep [of "wlist s" "pcs s" "CLock l" _ t "SleepLock l"] queues_pc [of "wlist s" "pcs s" t Run]
    by (auto simp: lock_iter_def wchan_sleep_def fun_upd_idem simp del: fun_upd_apply split: option.splits if_splits)
qed

lemma release_queues:
  assumes "queues (wlist s) (pcs s)" "lock_release t l s = Ok s'"
  shows "queues (wlist s') (pcs s')"
  using assms queues_wakeone [OF assms(1), of "CLock l"]
  by (auto simp: lock_release_def simp del: fun_upd_apply split: option.splits prod.splits)

lemma release_pcs:
  assumes "lock_release t l s = Ok s'" "pcs s t = Run"
  shows "pcs s' t = Run" "cvs s' = cvs s" "t_in_interrupt s' = t_in_interrupt s"
  using assms by (auto simp: lock_release_def wchan_wakeone_def split: option.splits list.splits)

lemma cv_wait_Ok:
  assumes "cv_wait t d l s = Ok s'"
  shows "\<exists>v s1. cvs s d = Some v \<and> lock_release t l s = Ok s1 \<and>
    s' = s1\<lparr>cvs := (cvs s1)(d \<mapsto> \<lparr>cv_wchan = cv_wchan v @ [t]\<rparr>), pcs := (pcs s1)(t := SleepCv d l)\<rparr>"
  using assms by (auto simp: cv_wait_def cv_checked_def wchan_sleep_def split: option.splits)

lemma do_call_queues:
  assumes q: "queues (wlist s) (pcs s)" and t: "pcs s t = Run" and c: "do_call t c s = Ok s'"
  shows "queues (wlist s') (pcs s')"
proof (cases c)
  case (CallV p)
  then show ?thesis using c queues_wakeone [OF q, of "CSem p"]
    by (auto simp: sem_V_def simp del: fun_upd_apply split: option.splits prod.splits)
next
  case (CallWait d l)
  then obtain v s1 where v: "cvs s d = Some v" "lock_release t l s = Ok s1"
      "s' = s1\<lparr>cvs := (cvs s1)(d \<mapsto> \<lparr>cv_wchan = cv_wchan v @ [t]\<rparr>), pcs := (pcs s1)(t := SleepCv d l)\<rparr>"
    using c cv_wait_Ok [of t d l s s'] by auto
  then show ?thesis
    using release_pcs [OF v(2) t] queues_sleep [OF release_queues [OF q v(2)], of "CCv d" "cv_wchan v" t "SleepCv d l"]
      wlist_upd(4) [of s1 d "\<lparr>cv_wchan = cv_wchan v @ [t]\<rparr>"]
    by (simp del: fun_upd_apply)
next
  case (CallSignal d l)
  then show ?thesis using c queues_wakeone [OF q, of "CCv d"]
    by (auto simp: cv_signal_def cv_checked_def simp del: fun_upd_apply split: option.splits prod.splits)
next
  case (CallBroadcast d l)
  then show ?thesis using c queues_wakeall [OF q, of "CCv d"]
    by (auto simp: cv_broadcast_def cv_checked_def Let_def simp del: fun_upd_apply
        split: option.splits prod.splits if_splits)
qed (use c q t queues_pc [OF q, of t] release_queues [OF q] in
  \<open>auto simp: P_enter_def lock_enter_def simp del: fun_upd_apply\<close>)

lemma step_queues: "step t s s' \<Longrightarrow> queues (wlist s) (pcs s) \<Longrightarrow> queues (wlist s') (pcs s')"
  by (erule stepE) (use do_call_queues iter_queues not_asleep in metis)+

section \<open>No wake-up is lost\<close>

text \<open>
  \<open>lock_live\<close>: a free lock on which threads sleep has a thread about to take it.
  \<open>sem_live\<close>: a semaphore on which threads sleep has as many threads about to pass as its count
  allows.
\<close>

definition lock_live :: "'a synch_scheme \<Rightarrow> bool" where
  "lock_live s \<longleftrightarrow> (\<forall>l k. locks s l = Some k \<and> lk_owner k = NULL \<and> lk_wchan k \<noteq> [] \<longrightarrow> (\<exists>t. pcs s t = InLock l))"

definition sem_live :: "'a synch_scheme \<Rightarrow> bool" where
  "sem_live s \<longleftrightarrow> (\<forall>p m. sems s p = Some m \<and> sem_wchan m \<noteq> [] \<longrightarrow>
     (\<exists>T. finite T \<and> unat (sem_count m) \<le> card T \<and> (\<forall>t\<in>T. pcs s t = InP p)))"

definition synch_inv :: "'a synch_scheme \<Rightarrow> bool" where
  "synch_inv s \<longleftrightarrow> pcs s NULL = Run \<and> queues (wlist s) (pcs s) \<and> lock_live s \<and> sem_live s"

text \<open>What a step of \<open>t\<close> does to the program counters of the others: at most it wakes one up.\<close>

definition woken :: "(tid \<Rightarrow> pc) \<Rightarrow> (tid \<Rightarrow> pc) \<Rightarrow> bool" where
  "woken r r' \<longleftrightarrow> (\<forall>u. r' u = r u \<or> r' u = wake_pc (r u))"

lemma woken_refl [simp]: "woken r r" by (simp add: woken_def)

lemma woken_fixed: "woken r r' \<Longrightarrow> wake_pc (r u) = r u \<Longrightarrow> r' u = r u"
  unfolding woken_def by (metis)

lemma wakeone_woken: "wchan_wakeone w r = (w', r') \<Longrightarrow> woken r r'"
  by (auto simp: wchan_wakeone_def woken_def split: list.splits)

lemma wake_pc_idem: "wake_pc (wake_pc q) = wake_pc q"
  by (cases q) simp_all

lemma woken_wake: "woken r r' \<Longrightarrow> woken r (r'(t := wake_pc (r' t)))"
  unfolding woken_def by (metis fun_upd_apply wake_pc_idem)

lemma wakeall_woken: "wchan_wakeall w r = (w', r') \<Longrightarrow> woken r r'"
proof -
  have "woken r (fold (\<lambda>t r. r(t := wake_pc (r t))) w r)"
  proof (induction w rule: rev_induct)
    case (snoc t w)
    then show ?case using woken_wake by (simp del: fun_upd_apply)
  qed simp
  then show "wchan_wakeall w r = (w', r') \<Longrightarrow> woken r r'" by (auto simp: wchan_wakeall_def)
qed

lemma lock_live_woken:
  assumes "lock_live s" "locks s' = locks s" "\<And>u l. pcs s u = InLock l \<Longrightarrow> pcs s' u = InLock l"
  shows "lock_live s'"
  using assms unfolding lock_live_def by metis

lemma sem_live_woken:
  assumes "sem_live s" "sems s' = sems s" "\<And>u p. pcs s u = InP p \<Longrightarrow> pcs s' u = InP p"
  shows "sem_live s'"
  using assms unfolding sem_live_def by metis

lemma release_live:
  assumes "lock_live s" "sem_live s" "queues (wlist s) (pcs s)" "lock_release t l s = Ok s'"
  shows "lock_live s'" "sem_live s'"
proof -
  obtain k w r where k: "locks s l = Some k" "wchan_wakeone (lk_wchan k) (pcs s) = (w, r)"
      "s' = s\<lparr>locks := (locks s)(l \<mapsto> \<lparr>lk_owner = NULL, lk_wchan = w\<rparr>), pcs := r\<rparr>"
    using assms(4) by (auto simp: lock_release_def split: option.splits prod.splits)
  have W: "woken (pcs s) r" using wakeone_woken [OF k(2)] .
  then show "sem_live s'" using k(3) by (intro sem_live_woken [OF assms(2)]) (simp_all add: woken_fixed)
  have "\<exists>u. r u = InLock l" if "w \<noteq> []"
  proof -
    have "lk_wchan k \<noteq> []" using that k(2) by (auto simp: wchan_wakeone_def)
    then obtain u ws where u: "lk_wchan k = u # ws" by (cases "lk_wchan k") auto
    have "queues (wlist s) (pcs s) \<and> wlist s (CLock l) = Some (u # ws)" using assms(3) k(1) u by simp
    then have "pcs s u = SleepLock l" unfolding queues_def by (metis list.set_intros(1) sleeps_on.simps(2))
    then show ?thesis using k(2) u by (auto simp: wchan_wakeone_def)
  qed
  moreover have "pcs s u = InLock j \<Longrightarrow> r u = InLock j" for u j using W by (simp add: woken_fixed)
  ultimately show "lock_live s'" using assms(1) k(3) unfolding lock_live_def
    by (auto split: if_splits) metis
qed

lemma sem_live_iter:
  assumes "sem_live s" "pcs s t = InP p" "P_iter t p s = Ok s'"
  shows "sem_live s'"
proof -
  obtain m where m: "sems s p = Some m" using assms(3) by (auto simp: P_iter_def split: option.splits)
  show ?thesis
  proof (cases "sem_count m = 0")
    case True
    then have "s' = s\<lparr>sems := (sems s)(p \<mapsto> m\<lparr>sem_wchan := sem_wchan m @ [t]\<rparr>), pcs := (pcs s)(t := SleepP p)\<rparr>"
      using assms(3) m by (simp add: P_iter_def wchan_sleep_def)
    moreover have "\<exists>T. finite T \<and> unat (sem_count n) \<le> card T \<and> (\<forall>u\<in>T. ((pcs s)(t := SleepP p)) u = InP q)"
      if n: "sems s q = Some n" "sem_wchan n \<noteq> []" "q \<noteq> p" for q n
    proof -
      obtain T where "finite T" "unat (sem_count n) \<le> card T" "\<forall>u\<in>T. pcs s u = InP q"
        using assms(1) n unfolding sem_live_def by blast
      then show ?thesis using n(3) assms(2) by (intro exI [of _ T]) auto
    qed
    ultimately show ?thesis using True unfolding sem_live_def by (auto simp del: fun_upd_apply simp: fun_upd_def split: if_splits)
  next
    case False
    then have s': "s' = s\<lparr>sems := (sems s)(p \<mapsto> m\<lparr>sem_count := sem_count m - 1\<rparr>), pcs := (pcs s)(t := Run)\<rparr>"
      using assms(3) m by (simp add: P_iter_def)
    have u: "unat (sem_count m - 1) = unat (sem_count m) - 1" using False by (simp add: unat_minus_one)
    show ?thesis unfolding sem_live_def
    proof (intro allI impI)
      fix q n assume "sems s' q = Some n \<and> sem_wchan n \<noteq> []"
      then obtain n0 where n: "sems s q = Some n0" "sem_wchan n0 \<noteq> []"
          "unat (sem_count n) = (if q = p then unat (sem_count n0) - 1 else unat (sem_count n0))"
        using s' m u by (auto split: if_splits)
      then obtain T where T: "finite T" "unat (sem_count n0) \<le> card T" "\<forall>u\<in>T. pcs s u = InP q"
        using assms(1) unfolding sem_live_def by blast
      have "q = p \<Longrightarrow> card (T - {t}) \<ge> card T - 1" using T(1) by (simp add: card_Diff_singleton_if)
      moreover have "q \<noteq> p \<Longrightarrow> t \<notin> T" using T(3) assms(2) by auto
      ultimately show "\<exists>T. finite T \<and> unat (sem_count n) \<le> card T \<and> (\<forall>u\<in>T. pcs s' u = InP q)"
        using T n(3) s' by (intro exI [of _ "T - {t}"]) (auto split: if_splits)
    qed
  qed
qed

lemma sem_live_V:
  assumes "sem_live s" "queues (wlist s) (pcs s)" "sem_V p s = Ok s'"
  shows "sem_live s'"
proof -
  obtain m w r where m: "sems s p = Some m" "wchan_wakeone (sem_wchan m) (pcs s) = (w, r)"
      "s' = s\<lparr>sems := (sems s)(p \<mapsto> \<lparr>sem_count = sem_count m + 1, sem_wchan = w\<rparr>), pcs := r\<rparr>"
    using assms(3) by (auto simp: sem_V_def split: option.splits prod.splits)
  have keep: "r u = InP q" if "pcs s u = InP q" for u q using wakeone_woken [OF m(2)] that by (simp add: woken_fixed)
  show ?thesis unfolding sem_live_def
  proof (intro allI impI)
    fix q n assume a: "sems s' q = Some n \<and> sem_wchan n \<noteq> []"
    show "\<exists>T. finite T \<and> unat (sem_count n) \<le> card T \<and> (\<forall>u\<in>T. pcs s' u = InP q)"
    proof (cases "q = p")
      case False
      then have "sems s q = Some n" using a m(3) by simp
      then obtain T where "finite T" "unat (sem_count n) \<le> card T" "\<forall>u\<in>T. pcs s u = InP q"
        using assms(1) a unfolding sem_live_def by blast
      then show ?thesis using keep m(3) by (intro exI [of _ T]) simp
    next
      case True
      then have n: "n = \<lparr>sem_count = sem_count m + 1, sem_wchan = w\<rparr>" "w \<noteq> []" using a m(3) by auto
      then have "sem_wchan m \<noteq> []" using m(2) by (auto simp: wchan_wakeone_def)
      then obtain u ws where u: "sem_wchan m = u # ws" by (cases "sem_wchan m") auto
      have "wlist s (CSem p) = Some (u # ws)" using m(1) u by simp
      then have su: "pcs s u = SleepP p" using assms(2) unfolding queues_def by (metis list.set_intros(1) sleeps_on.simps(1))
      obtain T where T: "finite T" "unat (sem_count m) \<le> card T" "\<forall>u\<in>T. pcs s u = InP p"
        using assms(1) m(1) u unfolding sem_live_def by (metis list.distinct(1))
      have "u \<notin> T" using T(3) su by auto
      moreover have "r u = InP p" using m(2) u su by (auto simp: wchan_wakeone_def)
      moreover have "unat (sem_count m + 1) \<le> unat (sem_count m) + 1" by (simp add: unat_word_ariths)
      ultimately show ?thesis using T n True m(3) keep by (intro exI [of _ "insert u T"]) auto
    qed
  qed
qed

lemma lock_live_iter:
  assumes "lock_live s" "lock_iter t l s = Ok s'" "t \<noteq> NULL" "pcs s t = InLock l"
  shows "lock_live s'"
  using assms unfolding lock_live_def lock_iter_def wchan_sleep_def
  by (auto split: option.splits if_splits) (metis pc.inject(3))+

text \<open>A step changes the counters of other threads only by waking them; the caller of a call stays awake or waits.\<close>

lemma cv_call_woken:
  assumes "cv_signal t c l s = Ok s' \<or> cv_broadcast t c l s = Ok s'"
  shows "woken (pcs s) (pcs s')" "locks s' = locks s" "sems s' = sems s"
  using assms wakeone_woken wakeall_woken
  by (auto simp: cv_signal_def cv_broadcast_def cv_checked_def Let_def split: option.splits prod.splits if_splits)

lemma do_call_live:
  assumes inv: "lock_live s" "sem_live s" "queues (wlist s) (pcs s)" and t: "pcs s t = Run" and c: "do_call t c s = Ok s'"
  shows "lock_live s' \<and> sem_live s'"
proof (cases c)
  case (CallV p)
  then have V: "sem_V p s = Ok s'" using c by simp
  then have "woken (pcs s) (pcs s')" "locks s' = locks s"
    using wakeone_woken by (auto simp: sem_V_def split: option.splits prod.splits)
  then show ?thesis using sem_live_V [OF inv(2,3) V]
    by (intro conjI lock_live_woken [OF inv(1)]) (simp_all add: woken_fixed)
next
  case (CallWait d l)
  then obtain v :: cv and s1 where v: "lock_release t l s = Ok s1"
      "s' = s1\<lparr>cvs := (cvs s1)(d \<mapsto> \<lparr>cv_wchan = cv_wchan v @ [t]\<rparr>), pcs := (pcs s1)(t := SleepCv d l)\<rparr>"
    using c cv_wait_Ok [of t d l s s'] by (metis do_call.simps(5))
  have "locks s' = locks s1" "sems s' = sems s1" "\<And>u. pcs s' u = (if u = t then SleepCv d l else pcs s1 u)"
    by (simp_all add: v(2))
  moreover have "pcs s1 t = Run" using release_pcs(1) [OF v(1) t] .
  ultimately show ?thesis
    using lock_live_woken [OF release_live(1) [OF inv v(1)], of s'] sem_live_woken [OF release_live(2) [OF inv v(1)], of s']
    by (metis pc.distinct(1) pc.distinct(5))
next
  case (CallSignal d l)
  then show ?thesis using c cv_call_woken [of t d l s s']
    by (intro conjI lock_live_woken [OF inv(1)] sem_live_woken [OF inv(2)]) (simp_all add: woken_fixed)
next
  case (CallBroadcast d l)
  then show ?thesis using c cv_call_woken [of t d l s s']
    by (intro conjI lock_live_woken [OF inv(1)] sem_live_woken [OF inv(2)]) (simp_all add: woken_fixed)
next
  case (CallP p)
  then show ?thesis using c t
    by (intro conjI lock_live_woken [OF inv(1)] sem_live_woken [OF inv(2)]) (auto simp: P_enter_def)
next
  case (CallAcquire l)
  then show ?thesis using c t
    by (intro conjI lock_live_woken [OF inv(1)] sem_live_woken [OF inv(2)]) (auto simp: lock_enter_def)
next
  case (CallRelease l)
  then show ?thesis using c release_live [OF inv] by simp
qed

lemma do_call_pcs:
  assumes "do_call t c s = Ok s'" "pcs s t = Run"
  shows "\<forall>u. u \<noteq> t \<longrightarrow> pcs s' u = pcs s u \<or> pcs s' u = wake_pc (pcs s u)"
proof -
  have R: "woken (pcs s) (pcs s')" if "lock_release t l s = Ok s'" for l s'
    using that wakeone_woken by (auto simp: lock_release_def split: option.splits prod.splits)
  show ?thesis
  proof (cases c)
    case (CallWait d l)
    then obtain s1 where "lock_release t l s = Ok s1" "\<forall>u. u \<noteq> t \<longrightarrow> pcs s' u = pcs s1 u"
      using assms(1) cv_wait_Ok [of t d l s s'] by auto
    then show ?thesis using R unfolding woken_def by metis
  next
    case (CallV p)
    then have "woken (pcs s) (pcs s')" using assms(1) wakeone_woken by (auto simp: sem_V_def split: option.splits prod.splits)
    then show ?thesis unfolding woken_def by blast
  next
    case (CallSignal d l)
    then show ?thesis using assms(1) cv_call_woken(1) [of t d l s s'] unfolding woken_def by simp
  next
    case (CallBroadcast d l)
    then show ?thesis using assms(1) cv_call_woken(1) [of t d l s s'] unfolding woken_def by simp
  next
    case (CallRelease l)
    then show ?thesis using assms(1) R unfolding woken_def by simp
  qed (use assms in \<open>auto simp: P_enter_def lock_enter_def\<close>)
qed

lemma step_pcs:
  assumes "step t s s'" "u \<noteq> t"
  shows "pcs s' u = pcs s u \<or> pcs s' u = wake_pc (pcs s u)"
  using assms(1)
proof (cases rule: step.cases)
  case (call c)
  then show ?thesis using do_call_pcs assms(2) by blast
qed (use assms(2) in \<open>auto simp: P_iter_def lock_iter_def wchan_sleep_def split: option.splits if_splits\<close>)

lemma step_inv: "step t s s' \<Longrightarrow> synch_inv s \<Longrightarrow> synch_inv s'"
proof (unfold synch_inv_def, elim conjE)
  assume st: "step t s s'" and nul: "pcs s NULL = Run" and inv: "queues (wlist s) (pcs s)" "lock_live s" "sem_live s"
  have "lock_live s' \<and> sem_live s'" using st
  proof (cases rule: step.cases)
    case (call c)
    then show ?thesis using do_call_live [OF inv(2,3,1)] by blast
  next
    case (again_P p)
    then have "locks s' = locks s" "\<And>u l. pcs s u = InLock l \<Longrightarrow> pcs s' u = InLock l"
      by (auto simp: P_iter_def wchan_sleep_def split: option.splits if_splits)
    then show ?thesis using again_P sem_live_iter [OF inv(3)] lock_live_woken [OF inv(2)] by blast
  next
    case (again_lock l)
    then have "sems s' = sems s" "\<And>u p. pcs s u = InP p \<Longrightarrow> pcs s' u = InP p"
      by (auto simp: lock_iter_def wchan_sleep_def split: option.splits if_splits)
    then show ?thesis using again_lock lock_live_iter [OF inv(2)] sem_live_woken [OF inv(3)] by blast
  qed
  moreover have "pcs s' NULL = Run" using step_pcs [OF st, of NULL] st nul by (auto elim!: stepE)
  ultimately show "pcs s' NULL = Run \<and> queues (wlist s') (pcs s') \<and> lock_live s' \<and> sem_live s'"
    using step_queues [OF st inv(1)] by simp
qed

lemma runs_inv: "runs T s s' \<Longrightarrow> synch_inv s \<Longrightarrow> synch_inv s'"
  by (induction rule: runs.induct) (auto dest: step_inv)

section \<open>Ownership\<close>

definition owns :: "'a synch_scheme \<Rightarrow> tid \<Rightarrow> ptr \<Rightarrow> bool" where
  "owns s t l \<longleftrightarrow> t \<noteq> NULL \<and> (\<exists>k. locks s l = Some k \<and> lk_owner k = t)"

definition waits_lock :: "'a synch_scheme \<Rightarrow> tid \<Rightarrow> ptr \<Rightarrow> bool" where
  "waits_lock s t l \<longleftrightarrow> pcs s t = InLock l \<or> pcs s t = SleepLock l"

lemma owns_same: "locks s' = locks s \<Longrightarrow> owns s' t l = owns s t l"
  by (simp add: owns_def)

lemma release_owns: "lock_release u j s = Ok s' \<Longrightarrow> owns s t l \<Longrightarrow> u \<noteq> t \<Longrightarrow> owns s' t l"
  by (auto simp: lock_release_def lock_do_i_hold_def owns_def split: option.splits prod.splits)

lemma do_call_owns: "do_call u c s = Ok s' \<Longrightarrow> owns s t l \<Longrightarrow> u \<noteq> t \<Longrightarrow> owns s' t l"
proof (cases c)
  case (CallWait d j)
  assume a: "do_call u c s = Ok s'" "owns s t l" "u \<noteq> t"
  then obtain s1 where "lock_release u j s = Ok s1" "locks s' = locks s1"
    using CallWait cv_wait_Ok [of u d j s s'] by auto
  then show ?thesis using release_owns a owns_same by metis
next
  case (CallSignal d j)
  assume "do_call u c s = Ok s'" "owns s t l"
  then show ?thesis using CallSignal cv_call_woken(2) [of u d j s s'] by (simp add: owns_def)
next
  case (CallBroadcast d j)
  assume "do_call u c s = Ok s'" "owns s t l"
  then show ?thesis using CallBroadcast cv_call_woken(2) [of u d j s s'] by (simp add: owns_def)
next
  case (CallV p)
  assume "do_call u c s = Ok s'" "owns s t l"
  then show ?thesis using CallV by (auto simp: sem_V_def owns_def split: option.splits prod.splits)
next
  case (CallRelease j)
  assume "do_call u c s = Ok s'" "owns s t l" "u \<noteq> t"
  then show ?thesis using CallRelease release_owns by simp
qed (auto simp: P_enter_def lock_enter_def owns_def)

lemma step_owns:
  assumes "step u s s'" "owns s t l" "u \<noteq> t"
  shows "owns s' t l" "v \<noteq> t \<Longrightarrow> waits_lock s v l \<Longrightarrow> waits_lock s' v l"
proof -
  show "owns s' t l" using assms(1)
  proof (cases rule: step.cases)
    case (call c)
    then show ?thesis using do_call_owns assms(2,3) by blast
  next
    case (again_P p)
    then have "locks s' = locks s" by (auto simp: P_iter_def wchan_sleep_def split: option.splits if_splits)
    then show ?thesis using assms(2) owns_same by blast
  next
    case (again_lock j)
    then show ?thesis using assms(2) by (auto simp: lock_iter_def wchan_sleep_def owns_def split: option.splits if_splits)
  qed
  show "waits_lock s' v l" if "v \<noteq> t" "waits_lock s v l"
  proof (cases "v = u")
    case True
    then have "pcs s u = InLock l" "lock_iter u l s = Ok s'"
      using assms(1) that(2) by (auto elim!: stepE simp: waits_lock_def)
    then show ?thesis using assms(2) True by (auto simp: lock_iter_def wchan_sleep_def waits_lock_def owns_def)
  next
    case False
    then show ?thesis using step_pcs [OF assms(1) False] that(2) by (auto simp: waits_lock_def)
  qed
qed

section \<open>Properties\<close>

text \<open>
  (C6) Mutual exclusion: while the owner of a lock does nothing, no sequence of steps of other
  threads takes the lock away from it, and no thread that waits in \<open>lock_acquire\<close> for this lock
  returns from it.
\<close>

theorem lock_mutual_exclusion:
  assumes "owns s t l" "runs (- {t}) s s'"
  shows "owns s' t l \<and> (\<forall>u. u \<noteq> t \<and> waits_lock s u l \<longrightarrow> waits_lock s' u l)"
  using assms(2,1)
proof (induction rule: runs.induct)
  case (more s s' u s'')
  then show ?case using step_owns [OF more.hyps(3), of t l] by auto
qed simp

text \<open>
  (C7) No wake-up is lost, whatever the interleaving: the wait channels hold exactly the sleeping
  threads; if a free lock has sleepers, some thread can take it in its next step; if a semaphore
  with a positive count has sleepers, some thread can pass it in its next step.
\<close>

theorem no_lost_wakeup:
  assumes "synch_inv s" "runs T s s'"
  shows "synch_inv s'
    \<and> (\<forall>l k. locks s' l = Some k \<and> lk_owner k = NULL \<and> lk_wchan k \<noteq> [] \<longrightarrow> (\<exists>t s''. step t s' s'' \<and> owns s'' t l \<and> pcs s'' t = Run))
    \<and> (\<forall>p m. sems s' p = Some m \<and> 0 < sem_count m \<and> sem_wchan m \<noteq> [] \<longrightarrow>
         (\<exists>t s'' m'. step t s' s'' \<and> sems s'' p = Some m' \<and> sem_count m' = sem_count m - 1 \<and> pcs s'' t = Run))"
proof (intro conjI allI impI)
  show inv: "synch_inv s'" using runs_inv assms by blast
  fix l k assume k: "locks s' l = Some k \<and> lk_owner k = NULL \<and> lk_wchan k \<noteq> []"
  then obtain t where t: "pcs s' t = InLock l" using inv unfolding synch_inv_def lock_live_def by blast
  then have "t \<noteq> NULL" using inv by (auto simp: synch_inv_def)
  moreover have i: "lock_iter t l s' = Ok (s'\<lparr>locks := (locks s')(l \<mapsto> k\<lparr>lk_owner := t\<rparr>), pcs := (pcs s')(t := Run)\<rparr>)"
    using k by (simp add: lock_iter_def)
  ultimately show "\<exists>t s''. step t s' s'' \<and> owns s'' t l \<and> pcs s'' t = Run"
    using step.again_lock [OF _ t i] by (intro exI [of _ t] exI conjI) (auto simp: owns_def)
next
  have inv: "synch_inv s'" using runs_inv assms by blast
  fix p m assume m: "sems s' p = Some m \<and> 0 < sem_count m \<and> sem_wchan m \<noteq> []"
  then obtain T where T: "finite T" "unat (sem_count m) \<le> card T" "\<forall>t\<in>T. pcs s' t = InP p"
    using inv unfolding synch_inv_def sem_live_def by blast
  then obtain t where t: "pcs s' t = InP p"
    using m by (metis card.empty ex_in_conv le_zero_eq unat_eq_0 word_not_simps(1))
  then have "t \<noteq> NULL" using inv by (auto simp: synch_inv_def)
  moreover have i: "P_iter t p s' = Ok (s'\<lparr>sems := (sems s')(p \<mapsto> m\<lparr>sem_count := sem_count m - 1\<rparr>), pcs := (pcs s')(t := Run)\<rparr>)"
    using m by (auto simp: P_iter_def)
  ultimately show "\<exists>t s'' m'. step t s' s'' \<and> sems s'' p = Some m' \<and> sem_count m' = sem_count m - 1 \<and> pcs s'' t = Run"
    using step.again_P [OF _ t i] by (intro exI [of _ t] exI conjI) auto
qed

text \<open>Thread 1 holds the lock at 8, thread 2 sleeps on it; the semaphore at 16 has been taken.\<close>

definition ex_synch :: synch where
  "ex_synch = \<lparr>sems = [16 \<mapsto> \<lparr>sem_count = 0, sem_wchan = [3]\<rparr>], locks = [8 \<mapsto> \<lparr>lk_owner = 1, lk_wchan = [2]\<rparr>], cvs = Map.empty,
     pcs = (\<lambda>t. if t = 2 then SleepLock 8 else if t = 3 then SleepP 16 else Run), t_in_interrupt = (\<lambda>t. False)\<rparr>"

lemma ex_synch_inv: "synch_inv ex_synch"
proof -
  have "queues (wlist ex_synch) (pcs ex_synch)" unfolding queues_def
  proof (intro allI impI)
    fix ch w assume "wlist ex_synch ch = Some w"
    then show "distinct w \<and> (\<forall>t. t \<in> set w \<longleftrightarrow> sleeps_on ch (pcs ex_synch t))"
      by (cases ch) (auto simp: ex_synch_def split: if_splits)
  qed
  moreover have "lock_live ex_synch" by (simp add: lock_live_def ex_synch_def)
  moreover have "sem_live ex_synch" unfolding sem_live_def by (auto simp: ex_synch_def intro!: exI [of _ "{}"] split: if_splits)
  ultimately show ?thesis by (simp add: synch_inv_def ex_synch_def)
qed

theorem lock_mutual_exclusion_witness:
  "\<exists>s'. step 4 ex_synch s' \<and> pcs s' 4 = InLock 8 \<and> owns s' 1 8 \<and> waits_lock s' 2 8"
proof -
  let ?s = "ex_synch\<lparr>pcs := (pcs ex_synch)(4 := InLock 8)\<rparr>"
  have st: "step 4 ex_synch ?s"
    by (rule step.call [of _ _ "CallAcquire 8"]) (simp_all add: ex_synch_def lock_enter_def lock_do_i_hold_def)
  then have "runs (- {1}) ex_synch ?s" by (rule runs.more [OF runs.refl, rotated]) simp
  moreover have "owns ex_synch 1 8" "waits_lock ex_synch 2 8" by (simp_all add: owns_def waits_lock_def ex_synch_def)
  ultimately have "owns ?s 1 8" "waits_lock ?s 2 8" using lock_mutual_exclusion [of ex_synch 1 8 ?s] by auto
  then show ?thesis using st by (intro exI [of _ ?s]) simp
qed

theorem no_lost_wakeup_witness:
  "\<exists>s'. sem_V 16 ex_synch = Ok s' \<and> synch_inv s' \<and> pcs s' 3 = InP 16"
proof -
  let ?s = "ex_synch\<lparr>sems := (sems ex_synch)(16 \<mapsto> \<lparr>sem_count = 1, sem_wchan = []\<rparr>), pcs := (pcs ex_synch)(3 := InP 16)\<rparr>"
  have V: "sem_V 16 ex_synch = Ok ?s" by (simp add: sem_V_def ex_synch_def wchan_wakeone_def)
  have "step 1 ex_synch ?s" by (rule step.call [of _ _ "CallV 16"]) (use V in \<open>simp_all add: ex_synch_def\<close>)
  then have "runs UNIV ex_synch ?s" using runs.more [OF runs.refl] by blast
  then have "synch_inv ?s" using no_lost_wakeup [OF ex_synch_inv] by blast
  then show ?thesis using V by (intro exI [of _ ?s]) simp
qed

end
