(* ===== verification/Proc.thy ===== *)
theory Proc
  imports VM_System Synch
begin

unbundle bit_operations_syntax

text \<open>
  Processes (\<^verbatim>\<open>kern/proc/proc.c\<close>), the interrupt level
  (\<^verbatim>\<open>kern/thread/spl.c\<close>), the parts of \<^verbatim>\<open>kern/thread/thread.c\<close> they call, and
  the process system calls (\<^verbatim>\<open>kern/syscall/proc_syscalls.c\<close>). The process structures live
  on a heap; the table maps a process id to a structure. Below it is the paging system, whose
  view of the current process (\<open>k_pid\<close>, \<open>k_as\<close>) follows \<open>curproc\<close>, beside it the
  synchronisation primitives.
\<close>

section \<open>Data\<close>

record proc =
  p_name :: string
  p_numthreads :: "32 word"
  p_addrspace :: "addrspace option"
  p_cwd :: ptr
  p_pid :: pid
  p_status :: int
  p_cv :: ptr
  p_lock_cv :: ptr
  ended :: int

record trapframe =
  tf_vaddr :: "32 word"
  tf_status :: "32 word"
  tf_cause :: "32 word"
  tf_lo :: "32 word"
  tf_hi :: "32 word"
  tf_ra :: "32 word"
  tf_at :: "32 word"
  tf_v0 :: "32 word"
  tf_v1 :: "32 word"
  tf_a0 :: "32 word"
  tf_a1 :: "32 word"
  tf_a2 :: "32 word"
  tf_a3 :: "32 word"
  tf_t0 :: "32 word"
  tf_t1 :: "32 word"
  tf_t2 :: "32 word"
  tf_t3 :: "32 word"
  tf_t4 :: "32 word"
  tf_t5 :: "32 word"
  tf_t6 :: "32 word"
  tf_t7 :: "32 word"
  tf_s0 :: "32 word"
  tf_s1 :: "32 word"
  tf_s2 :: "32 word"
  tf_s3 :: "32 word"
  tf_s4 :: "32 word"
  tf_s5 :: "32 word"
  tf_s6 :: "32 word"
  tf_s7 :: "32 word"
  tf_t8 :: "32 word"
  tf_t9 :: "32 word"
  tf_gp :: "32 word"
  tf_sp :: "32 word"
  tf_s8 :: "32 word"
  tf_epc :: "32 word"

text \<open>
  The state: process structures, the process table with its cursor, the kernel process, the
  running thread, for every thread its process and the argument its first function gets, the
  trap frames copied by fork, the interrupt level of the running thread, the zombies, the fork
  semaphore, and the two components below.
\<close>

record pstate =
  procs :: "ptr \<Rightarrow> proc"
  ptable :: "ptr list"
  last_i :: int
  active :: int
  kproc :: ptr
  curthread :: tid
  t_proc :: "tid \<Rightarrow> ptr"
  t_arg :: "tid \<Rightarrow> ptr"
  frames_tf :: "ptr \<Rightarrow> trapframe"
  t_curspl :: int
  t_iplhigh_count :: int
  zombies :: "tid list"
  sem_fork :: ptr
  sy :: synch
  pvm :: vm

abbreviation curproc :: "pstate \<Rightarrow> ptr" where
  "curproc P \<equiv> t_proc P (curthread P)"

text \<open>The paging system's view of the current process.\<close>

definition cur_view :: "pstate \<Rightarrow> pstate" where
  "cur_view P =
     (if curproc P = NULL then P\<lparr>pvm := (pvm P)\<lparr>k_as := None\<rparr>\<rparr>
      else P\<lparr>pvm := (pvm P)\<lparr>k_as := p_addrspace (procs P (curproc P)), k_pid := p_pid (procs P (curproc P))\<rparr>\<rparr>)"

definition upd_proc :: "ptr \<Rightarrow> (proc \<Rightarrow> proc) \<Rightarrow> pstate \<Rightarrow> pstate" where
  "upd_proc p f P = P\<lparr>procs := (procs P)(p := f (procs P p))\<rparr>"

section \<open>Interrupt level\<close>

definition IPL_NONE :: int where "IPL_NONE = 0"
definition IPL_HIGH :: int where "IPL_HIGH = 1"

definition splraise :: "int \<Rightarrow> int \<Rightarrow> pstate \<Rightarrow> pstate kres" where
  "splraise oldspl newspl P =
     kassert (oldspl = IPL_NONE) (kassert (newspl = IPL_HIGH)
       (Ok (P\<lparr>t_iplhigh_count := t_iplhigh_count P + 1\<rparr>)))"

definition spllower :: "int \<Rightarrow> int \<Rightarrow> pstate \<Rightarrow> pstate kres" where
  "spllower oldspl newspl P =
     kassert (oldspl = IPL_HIGH) (kassert (newspl = IPL_NONE)
       (Ok (P\<lparr>t_iplhigh_count := t_iplhigh_count P - 1\<rparr>)))"

definition splx :: "int \<Rightarrow> pstate \<Rightarrow> (int \<times> pstate) kres" where
  "splx spl P =
     (if t_curspl P < spl
      then kbind (splraise (t_curspl P) spl P) (\<lambda>Q. Ok (t_curspl P, Q\<lparr>t_curspl := spl\<rparr>))
      else if t_curspl P > spl
      then kbind (spllower (t_curspl P) spl (P\<lparr>t_curspl := spl\<rparr>)) (\<lambda>Q. Ok (t_curspl P, Q))
      else Ok (spl, P))"

definition splhigh :: "pstate \<Rightarrow> (int \<times> pstate) kres" where
  "splhigh P = splx IPL_HIGH P"

section \<open>The process table\<close>

definition proc_search_pid :: "pid \<Rightarrow> pstate \<Rightarrow> ptr kres" where
  "proc_search_pid pid P =
     kassert (pid > 0 \<and> pid \<le> int MAX_PROC)
       (let p = ptable P ! nat pid
        in if p = NULL then Fail NullDeref
           else kassert (p_pid (procs P p) = pid) (Ok p))"

text \<open>
  The search of \<open>proc_init_waitpid\<close> from \<open>i\<close>; it is over when it meets \<open>last_i\<close> again, which need
  not happen if \<open>last_i\<close> is 0.
\<close>

partial_function (option) pid_loop :: "int \<Rightarrow> int \<Rightarrow> ptr list \<Rightarrow> int option option" where
  "pid_loop i li tab =
     (if i \<noteq> li
      then if tab ! nat i = NULL then Some (Some i)
           else pid_loop (if i + 1 > int MAX_PROC then 1 else i + 1) li tab
      else Some None)"

text \<open>What the allocations of \<open>proc_create\<close> return.\<close>

record proc_alloc =
  pa_proc :: ptr
  pa_name :: ptr
  pa_cv :: "ptr \<times> ptr \<times> ptr"
  pa_lock :: "ptr \<times> ptr \<times> ptr"

definition proc_init_waitpid :: "proc_alloc \<Rightarrow> ptr \<Rightarrow> pstate \<Rightarrow> pstate kres" where
  "proc_init_waitpid a p P =
     (let i = last_i P + 1;
          i = (if i > int MAX_PROC then 1 else i)
      in case pid_loop i (last_i P) (ptable P) of
           None \<Rightarrow> Fail Hang
         | Some None \<Rightarrow> Fail (Panic ''too many processes. proc table is full'')
         | Some (Some i) \<Rightarrow>
             let (c1, c2, c3) = pa_cv a; (l1, l2, l3) = pa_lock a;
                 (cv, s) = cv_create c1 c2 c3 (sy P);
                 (lk, s) = lock_create l1 l2 l3 s;
                 P = P\<lparr>ptable := (ptable P)[nat i := p], last_i := i, sy := s\<rparr>
             in Ok (upd_proc p (\<lambda>x. x\<lparr>p_pid := i, p_status := 0, p_cv := cv, p_lock_cv := lk\<rparr>) P))"

definition proc_end_waitpid :: "ptr \<Rightarrow> pstate \<Rightarrow> pstate kres" where
  "proc_end_waitpid p P =
     (let i = p_pid (procs P p)
      in kassert (i > 0 \<and> i \<le> int MAX_PROC)
           (kbind (cv_destroy (p_cv (procs P p)) (sy P)) (\<lambda>s.
            kbind (lock_destroy (p_lock_cv (procs P p)) s) (\<lambda>s.
              Ok (P\<lparr>ptable := (ptable P)[nat i := NULL], sy := s\<rparr>)))))"

definition proc_create :: "proc_alloc \<Rightarrow> string \<Rightarrow> pstate \<Rightarrow> (ptr \<times> pstate) kres" where
  "proc_create a name P =
     (if pa_proc a = NULL \<or> pa_name a = NULL then Ok (NULL, P)
      else
        let p = pa_proc a;
            P = upd_proc p (\<lambda>x. x\<lparr>p_name := name, p_numthreads := 0, p_addrspace := None, p_cwd := NULL\<rparr>) P
        in kbind (proc_init_waitpid a p P) (\<lambda>P. Ok (p, upd_proc p (\<lambda>x. x\<lparr>ended := 0\<rparr>) P)))"

section \<open>Address spaces and threads of processes\<close>

definition proc_getas :: "pstate \<Rightarrow> addrspace option" where
  "proc_getas P = (if curproc P = NULL then None else p_addrspace (procs P (curproc P)))"

definition proc_setas :: "addrspace option \<Rightarrow> pstate \<Rightarrow> (addrspace option \<times> pstate) kres" where
  "proc_setas newas P =
     kassert (curproc P \<noteq> NULL)
       (Ok (p_addrspace (procs P (curproc P)), cur_view (upd_proc (curproc P) (\<lambda>x. x\<lparr>p_addrspace := newas\<rparr>) P)))"

definition proc_addthread :: "ptr \<Rightarrow> tid \<Rightarrow> pstate \<Rightarrow> (int \<times> pstate) kres" where
  "proc_addthread p t P =
     kassert (t_proc P t = NULL)
       (if p = NULL then Fail NullDeref
        else let P = upd_proc p (\<lambda>x. x\<lparr>p_numthreads := p_numthreads x + 1\<rparr>) P
             in Ok (0, cur_view (P\<lparr>t_proc := (t_proc P)(t := p)\<rparr>)))"

definition proc_remthread :: "tid \<Rightarrow> pstate \<Rightarrow> pstate kres" where
  "proc_remthread t P =
     (let p = t_proc P t
      in kassert (p \<noteq> NULL) (kassert (p_numthreads (procs P p) > 0)
           (let P = upd_proc p (\<lambda>x. x\<lparr>p_numthreads := p_numthreads x - 1\<rparr>) P
            in Ok (cur_view (P\<lparr>t_proc := (t_proc P)(t := NULL)\<rparr>)))))"

definition proc_getpid :: "ptr \<Rightarrow> pstate \<Rightarrow> pid" where
  "proc_getpid p P = p_pid (procs P p)"

section \<open>Destruction and creation\<close>

definition proc_drop_as :: "ptr \<Rightarrow> pstate \<Rightarrow> pstate kres" where
  "proc_drop_as p P =
     (case p_addrspace (procs P p) of
        None \<Rightarrow> Ok P
      | Some as0 \<Rightarrow>
          kbind (if p = curproc P
                 then kbind (proc_setas None P) (\<lambda>(as, P). Ok (as, P))
                 else Ok (Some as0, upd_proc p (\<lambda>x. x\<lparr>p_addrspace := None\<rparr>) P))
            (\<lambda>(as, P). case as of
                None \<Rightarrow> Fail NullDeref
              | Some as \<Rightarrow> kbind (as_destroy as (k_vnodes (pvm P))) (\<lambda>vs.
                    Ok (P\<lparr>pvm := (pvm P)\<lparr>k_vnodes := vs\<rparr>\<rparr>))))"

definition proc_destroy :: "ptr \<Rightarrow> pstate \<Rightarrow> pstate kres" where
  "proc_destroy p P =
     kassert (p \<noteq> NULL) (kassert (p \<noteq> kproc P)
       (kbind (if p_cwd (procs P p) = NULL then Ok P
               else kbind (vnode_decref (p_cwd (procs P p)) (k_vnodes (pvm P))) (\<lambda>vs.
                 Ok (upd_proc p (\<lambda>x. x\<lparr>p_cwd := NULL\<rparr>) (P\<lparr>pvm := (pvm P)\<lparr>k_vnodes := vs\<rparr>\<rparr>))))
         (\<lambda>P. kbind (proc_drop_as p P) (\<lambda>P.
            kassert (p_numthreads (procs P p) = 0) (proc_end_waitpid p P)))))"

definition proc_bootstrap :: "proc_alloc \<Rightarrow> pstate \<Rightarrow> pstate kres" where
  "proc_bootstrap a P =
     kbind (proc_create a ''[kernel]'' P) (\<lambda>(k, P).
       if k = NULL then Fail (Panic ''proc_create for kproc failed'')
       else Ok (P\<lparr>kproc := k, active := 1\<rparr>))"

definition proc_create_runprogram :: "proc_alloc \<Rightarrow> string \<Rightarrow> pstate \<Rightarrow> (ptr \<times> pstate) kres" where
  "proc_create_runprogram a name P =
     kbind (proc_create a name P) (\<lambda>(p, P).
       if p = NULL then Ok (NULL, P)
       else if curproc P = NULL then Fail NullDeref
       else let P = upd_proc p (\<lambda>x. x\<lparr>p_addrspace := None\<rparr>) P;
                cwd = p_cwd (procs P (curproc P))
            in if cwd \<noteq> NULL
               then kbind (vnode_incref cwd (k_vnodes (pvm P))) (\<lambda>vs.
                      Ok (p, upd_proc p (\<lambda>x. x\<lparr>p_cwd := cwd\<rparr>) (P\<lparr>pvm := (pvm P)\<lparr>k_vnodes := vs\<rparr>\<rparr>)))
               else Ok (p, P))"

text \<open>\<open>proc_wait\<close>, \<open>Blocked\<close> if it has to sleep.\<close>

definition proc_wait :: "ptr \<Rightarrow> pstate \<Rightarrow> (int \<times> pstate) kres" where
  "proc_wait p P =
     kassert (p \<noteq> NULL) (kassert (p \<noteq> kproc P)
       (kbind (lock_acquire (curthread P) (p_lock_cv (procs P p)) (sy P)) (\<lambda>s.
        kbind (if ended (procs P p) = 0
               then kbind (cv_wait (curthread P) (p_cv (procs P p)) (p_lock_cv (procs P p)) s) (\<lambda>s. Fail Blocked)
               else Ok s) (\<lambda>s.
        kbind (lock_release (curthread P) (p_lock_cv (procs P p)) s) (\<lambda>s.
          let status = p_status (procs P p)
          in kbind (proc_destroy p (P\<lparr>sy := s\<rparr>)) (\<lambda>P. Ok (status, P)))))))"

section \<open>Threads\<close>

definition thread_exit :: "pstate \<Rightarrow> pstate kres" where
  "thread_exit P =
     kbind (if curproc P \<noteq> NULL then proc_remthread (curthread P) P else Ok P) (\<lambda>P.
       kassert (curproc P = NULL)
         (kbind (splhigh P) (\<lambda>(spl, P). Ok (P\<lparr>zombies := zombies P @ [curthread P]\<rparr>))))"

text \<open>The allocations of \<open>thread_fork\<close>: the thread, its name, its stack.\<close>

definition thread_fork :: "ptr \<Rightarrow> ptr \<Rightarrow> ptr \<Rightarrow> ptr \<Rightarrow> ptr \<Rightarrow> pstate \<Rightarrow> (int \<times> pstate) kres" where
  "thread_fork t name stack p data1 P =
     (if t = NULL \<or> name = NULL \<or> stack = NULL then Ok (ENOMEM, P)
      else
        let p = (if p = NULL then curproc P else p);
            P = P\<lparr>t_proc := (t_proc P)(t := NULL)\<rparr>
        in kbind (proc_addthread p t P) (\<lambda>(result, P).
             if result \<noteq> 0 then Ok (result, P)
             else Ok (0, P\<lparr>t_arg := (t_arg P)(t := data1), sy := (sy P)\<lparr>pcs := (pcs (sy P))(t := Run)\<rparr>\<rparr>)))"

section \<open>System calls\<close>

text \<open>\<open>sys__exit\<close> up to the last \<open>thread_switch\<close>, from which it does not return.\<close>

definition sys__exit :: "int \<Rightarrow> pstate \<Rightarrow> pstate kres" where
  "sys__exit status P =
     kbind (splhigh P) (\<lambda>(spl, P).
       let p = curproc P
       in if p = NULL then Fail NullDeref
          else let pid = p_pid (procs P p) in
            kbind (free_pages pid (pvm P)) (\<lambda>v.
            kbind (remove_process_from_swap pid v) (\<lambda>v.
            let P = upd_proc p (\<lambda>x. x\<lparr>p_status := status AND 0xff\<rparr>) (P\<lparr>pvm := v\<rparr>) in
            kbind (proc_remthread (curthread P) P) (\<lambda>P.
            kbind (lock_acquire (curthread P) (p_lock_cv (procs P p)) (sy P)) (\<lambda>s.
            let P = upd_proc p (\<lambda>x. x\<lparr>ended := 1\<rparr>) P in
            kbind (cv_signal (curthread P) (p_cv (procs P p)) (p_lock_cv (procs P p)) s) (\<lambda>s.
            kbind (lock_release (curthread P) (p_lock_cv (procs P p)) s) (\<lambda>s.
            kbind (splx spl (P\<lparr>sy := s\<rparr>)) (\<lambda>(r, P). thread_exit P))))))))"

text \<open>\<open>sys_waitpid\<close>: the value returned and what is stored through \<open>statusp\<close>.\<close>

definition sys_waitpid :: "pid \<Rightarrow> vaddr \<Rightarrow> pstate \<Rightarrow> (int \<times> int option \<times> pstate) kres" where
  "sys_waitpid pid statusp P =
     kbind (splhigh P) (\<lambda>(spl, P).
       kbind (proc_search_pid pid P) (\<lambda>p.
         kbind (proc_wait p P) (\<lambda>(s, P).
           kbind (splx spl P) (\<lambda>(r, P).
             Ok (pid, if statusp \<noteq> NULL then Some s else None, P)))))"

definition sys_getpid :: "pstate \<Rightarrow> pid kres" where
  "sys_getpid P = kassert (curproc P \<noteq> NULL) (Ok (p_pid (procs P (curproc P))))"

text \<open>The allocations of \<open>sys_fork\<close>.\<close>

record fork_env =
  fe_proc :: proc_alloc
  fe_as :: "addrspace option"
  fe_tf :: ptr
  fe_thread :: ptr
  fe_tname :: ptr
  fe_stack :: ptr

text \<open>
  \<open>sys_fork\<close>: the error code, the process id stored in \<open>retval\<close> if the code is 0, and the state. The
  three ways out with \<open>ENOMEM\<close> lower neither the interrupt level nor raise the semaphore.
\<close>

definition sys_fork :: "fork_env \<Rightarrow> trapframe \<Rightarrow> pstate \<Rightarrow> (int \<times> int option \<times> pstate) kres" where
  "sys_fork env ctf P =
     kbind (if sem_fork P \<noteq> NULL
            then kbind (sem_P (curthread P) (sem_fork P) (sy P)) (\<lambda>s. Ok (P\<lparr>sy := s\<rparr>)) else Ok P) (\<lambda>P.
     kbind (splhigh P) (\<lambda>(spl, P).
     kassert (curproc P \<noteq> NULL)
     (kbind (proc_create_runprogram (fe_proc env) (p_name (procs P (curproc P))) P) (\<lambda>(newp, P).
      if newp = NULL then Ok (ENOMEM, None, P)
      else
        let old = p_pid (procs P (curproc P)); new = p_pid (procs P newp);
            P = upd_proc newp (\<lambda>x. x\<lparr>ended := 0\<rparr>) P
        in case p_addrspace (procs P (curproc P)) of
             None \<Rightarrow> Fail NullDeref
           | Some oldas \<Rightarrow>
               kbind (as_copy (fe_as env) oldas old new (pvm P)) (\<lambda>(e, newas, v).
                 let P = upd_proc newp (\<lambda>x. x\<lparr>p_addrspace := newas\<rparr>) (P\<lparr>pvm := v\<rparr>)
                 in if newas = None then kbind (proc_destroy newp P) (\<lambda>P. Ok (ENOMEM, None, P))
                    else if fe_tf env = NULL then kbind (proc_destroy newp P) (\<lambda>P. Ok (ENOMEM, None, P))
                    else
                      let P = P\<lparr>frames_tf := (frames_tf P)(fe_tf env := ctf)\<rparr>
                      in kbind (thread_fork (fe_thread env) (fe_tname env) (fe_stack env) newp (fe_tf env) P) (\<lambda>(result, P).
                           if result \<noteq> 0 then kbind (proc_destroy newp P) (\<lambda>P. Ok (ENOMEM, None, P))
                           else
                             let retval = p_pid (procs P newp)
                             in kbind (splx spl P) (\<lambda>(r, P).
                                  if sem_fork P \<noteq> NULL
                                  then kbind (sem_V (sem_fork P) (sy P)) (\<lambda>s. Ok (0, Some retval, P\<lparr>sy := s\<rparr>))
                                  else Ok (0, Some retval, P))))))))"

definition create_sem_fork :: "ptr \<Rightarrow> ptr \<Rightarrow> ptr \<Rightarrow> pstate \<Rightarrow> pstate" where
  "create_sem_fork blk name wc P =
     (let (p, s) = sem_create blk name wc 1 (sy P) in P\<lparr>sem_fork := p, sy := s\<rparr>)"

text \<open>The first function of a forked thread, up to the switch to user mode with the frame returned.\<close>

definition enter_forked_process :: "trapframe \<Rightarrow> tlb_state \<Rightarrow> pstate \<Rightarrow> (trapframe \<times> tlb_state \<times> pstate) kres" where
  "enter_forked_process tf t P =
     (let tf_local = tf\<lparr>tf_v0 := 0, tf_a3 := 0, tf_epc := tf_epc tf + 4\<rparr>
      in kbind (as_activate t (pvm P)) (\<lambda>(t, v). Ok (tf_local, t, P\<lparr>pvm := v\<rparr>)))"

definition call_enter_forked_process :: "ptr \<Rightarrow> tlb_state \<Rightarrow> pstate \<Rightarrow> (trapframe \<times> tlb_state \<times> pstate) kres" where
  "call_enter_forked_process tfv t P = enter_forked_process (frames_tf P tfv) t P"

end
