(* ===== verification/Proc_Memory.thy ===== *)
theory Proc_Memory
  imports VM_System
begin

text \<open>
  The memory of a process at the end of its life and at fork. \<open>free_pages\<close> gives back every frame
  of a process and touches nothing of the others; \<open>as_copy\<close> gives the child, page by page, the
  contents its parent has, wherever the page and its copy are (in a frame or in the swap file), and
  leaves every other process alone.
\<close>

section \<open>Releasing the frames of a process\<close>

lemma owned_user: "owned_by pid e \<longleftrightarrow> user e \<and> pe_pid e = pid"
  by (auto simp: owned_by_def user_def)

lemma int_upto: "pt_shape s \<Longrightarrow> [0..nent s - 1] = map int [0..<npt s]"
  using pt_shapeD(2) [of s] by (intro nth_equalityI) (simp_all add: nth_upto)

lemma upt_split: "map int [0..<n] = xs @ i # ys \<Longrightarrow> i = int (length xs) \<and> length xs < n \<and> xs = map int [0..<length xs]"
proof -
  assume a: "map int [0..<n] = xs @ i # ys"
  then have l: "length xs < n" by (metis add_Suc_right length_append length_map length_upt diff_zero list.size(4) less_add_Suc1 add.commute)
  have "i = map int [0..<n] ! length xs" using a by simp
  moreover have "xs = take (length xs) (map int [0..<n])" using a by simp
  ultimately show ?thesis using l by (simp add: take_map)
qed

definition freed :: "pid \<Rightarrow> nat \<Rightarrow> 'a vm_scheme \<Rightarrow> 'a vm_scheme \<Rightarrow> bool" where
  "freed pid n s t \<longleftrightarrow>
     (\<exists>ht es. t = s\<lparr>page_table := (page_table s)\<lparr>entries := es\<rparr>, htable := ht\<rparr> \<and> length es = length (ents s)
       \<and> (\<forall>p < length es. es ! p = (if p < n \<and> owned_by pid (ents s ! p) then \<lparr>page = 0, pe_pid = 0, ctrl = 0\<rparr> else ents s ! p)))
     \<and> pt_inv t"

lemma free_entry_step:
  assumes F: "freed pid n s t" and n: "n < npt s" "npt s \<le> length (ents s)"
    and quiet: "owned_by pid (ents s ! n) \<Longrightarrow> \<not> GetIOBit (ctrl (ents s ! n)) \<and> \<not> GetSwapBit (ctrl (ents s ! n))"
  shows "\<exists>t'. free_entry pid (int n) t = Ok t' \<and> freed pid (Suc n) s t'"
proof -
  obtain ht es where t: "t = s\<lparr>page_table := (page_table s)\<lparr>entries := es\<rparr>, htable := ht\<rparr>" and len: "length es = length (ents s)"
    and es: "\<And>p. p < length es \<Longrightarrow> es ! p = (if p < n \<and> owned_by pid (ents s ! p) then \<lparr>page = 0, pe_pid = 0, ctrl = 0\<rparr> else ents s ! p)"
    and inv: "pt_inv t"
    using F unfolding freed_def by blast
  have nl: "n < length es" using n len by simp
  have en: "ents t ! n = ents s ! n" "length (ents t) = length es" "npt t = npt s" using es [OF nl] by (simp_all add: t npt_def)
  show ?thesis
  proof (cases "owned_by pid (ents s ! n)")
    case False
    then have "es ! p = (if p < Suc n \<and> owned_by pid (ents s ! p) then \<lparr>page = 0, pe_pid = 0, ctrl = 0\<rparr> else ents s ! p)"
      if "p < length es" for p using that es by (auto simp: less_Suc_eq)
    then have "freed pid (Suc n) s t" using t len inv unfolding freed_def by blast
    then show ?thesis using False en nl by (simp add: free_entry_def)
  next
    case True
    let ?z = "\<lparr>page = 0, pe_pid = 0, ctrl = 0\<rparr> :: pt_entry"
    have u: "user (ents t ! n)" "pe_pid (ents t ! n) = pid" using True en by (simp_all add: owned_user)
    have C: "coupled (htable t) (npt t) (ents t)" and sh: "pt_shape t" using inv by (simp_all add: pt_inv_def)
    obtain ht' where H: "remove_from_hash (htable t) (page (ents t ! n)) pid = Ok ht'" "coupled ht' (npt t) ((ents t)[n := ?z])"
      using coupled_rem [OF C, of n ?z] n u en pt_shapeD(3) [OF sh] by (auto simp: user_def)
    let ?t = "upd_entry (int n) (\<lambda>x. ?z) (t\<lparr>htable := ht'\<rparr>)"
    have ent: "es[n := ?z] ! p = (if p < Suc n \<and> owned_by pid (ents s ! p) then ?z else ents s ! p)"
      if "p < length es" for p
      using that es True by (cases "p = n") (auto simp: less_Suc_eq)
    have "?t = s\<lparr>page_table := (page_table s)\<lparr>entries := es[n := ?z]\<rparr>, htable := ht'\<rparr>" by (simp add: t upd_entry_def)
    moreover have "pt_inv ?t" using H(2) sh by (simp add: pt_inv_def) (simp add: pt_shape_def)
    ultimately have "freed pid (Suc n) s ?t" using ent len unfolding freed_def by (intro conjI exI [of _ ht'] exI [of _ "es[n := ?z]"]) simp_all
    moreover have "page (ents s ! n) \<noteq> KMALLOC_PAGE" using True by (simp add: owned_by_def)
    ultimately show ?thesis using True en nl quiet H(1) by (simp add: free_entry_def)
  qed
qed

lemma free_pages_spec:
  assumes inv: "pt_inv s"
    and quiet: "\<And>p. p < npt s \<Longrightarrow> owned_by pid (ents s ! p) \<Longrightarrow> \<not> GetIOBit (ctrl (ents s ! p)) \<and> \<not> GetSwapBit (ctrl (ents s ! p))"
  shows "\<exists>s'. free_pages pid s = Ok s' \<and> freed pid (npt s) s s'"
proof -
  have sh: "pt_shape s" using inv by (simp add: pt_inv_def)
  have "freed pid 0 s s" using inv unfolding freed_def by (intro conjI exI [of _ "htable s"] exI [of _ "ents s"]) simp_all
  then have "\<exists>t. kfold (free_entry pid) (map int [0..<npt s]) s = Ok t \<and> freed pid (length (map int [0..<npt s])) s t"
  proof (intro kfold_inv [where P = "\<lambda>done t. freed pid (length done) s t"])
    fix "done" i rest t
    assume a: "map int [0..<npt s] = done @ i # rest" "freed pid (length done) s t"
    note u = upt_split [OF a(1)]
    then have "\<exists>t'. free_entry pid (int (length done)) t = Ok t' \<and> freed pid (Suc (length done)) s t'"
      using quiet [of "length done"] by (intro free_entry_step [OF a(2) _ pt_shapeD(3) [OF sh]]) blast+
    then show "\<exists>t'. free_entry pid i t = Ok t' \<and> freed pid (length (done @ [i])) s t'" using u by simp
  qed simp
  then show ?thesis by (simp add: free_pages_def int_upto [OF sh])
qed

text \<open>Consequences: who still has a frame.\<close>

lemma freed_lookup:
  assumes F: "freed pid (npt s) s t" and inv: "pt_inv s"
  shows "ht_lookup (htable t) k = (if snd k = pid then None else ht_lookup (htable s) k)"
    and "npt t = npt s" "frame_addr t = frame_addr s" "k_mem t = k_mem s" "k_swap t = k_swap s" "k_as t = k_as s"
      "k_pid t = k_pid s" "k_vnodes t = k_vnodes s" "pt_inv t" "first_free_paddr (page_table t) = first_free_paddr (page_table s)"
    and "p < npt s \<Longrightarrow> ents t ! p = (if owned_by pid (ents s ! p) then \<lparr>page = 0, pe_pid = 0, ctrl = 0\<rparr> else ents s ! p)"
proof -
  obtain ht es where t: "t = s\<lparr>page_table := (page_table s)\<lparr>entries := es\<rparr>, htable := ht\<rparr>" and len: "length es = length (ents s)"
    and es: "\<And>p. p < length es \<Longrightarrow> es ! p = (if p < npt s \<and> owned_by pid (ents s ! p) then \<lparr>page = 0, pe_pid = 0, ctrl = 0\<rparr> else ents s ! p)"
    and inv': "pt_inv t"
    using F unfolding freed_def by blast
  show n: "npt t = npt s" and "frame_addr t = frame_addr s" "k_mem t = k_mem s" "k_swap t = k_swap s" "k_as t = k_as s"
      "k_pid t = k_pid s" "k_vnodes t = k_vnodes s" "pt_inv t" "first_free_paddr (page_table t) = first_free_paddr (page_table s)"
    using inv' by (simp_all add: t npt_def frame_addr_def fun_eq_iff)
  have sh: "npt s \<le> length (ents s)" using inv pt_shapeD(3) by (auto simp: pt_inv_def)
  show E: "ents t ! p = (if owned_by pid (ents s ! p) then \<lparr>page = 0, pe_pid = 0, ctrl = 0\<rparr> else ents s ! p)" if "p < npt s" for p
    using that es [of p] sh len by (simp add: t)
  have C: "coupled (htable s) (npt s) (ents s)" "coupled (htable t) (npt s) (ents t)" using inv inv' n by (simp_all add: pt_inv_def)
  have "p \<in> users (npt s) (ents t) \<longleftrightarrow> p \<in> users (npt s) (ents s) \<and> pe_pid (ents s ! p) \<noteq> pid" for p
    using E [of p] by (cases "owned_by pid (ents s ! p)") (auto simp: users_def owned_user user_def)
  moreover have "ekey (ents t ! p) = ekey (ents s ! p)" if "p \<in> users (npt s) (ents s)" "pe_pid (ents s ! p) \<noteq> pid" for p
    using E [of p] that by (auto simp: users_def owned_user)
  ultimately have "ht_lookup (htable t) k = Some i \<longleftrightarrow> ht_lookup (htable s) k = Some i \<and> snd k \<noteq> pid" for i
    unfolding coupled_lookup [OF C(1)] coupled_lookup [OF C(2)] by (auto simp: ekey_def)
  then show "ht_lookup (htable t) k = (if snd k = pid then None else ht_lookup (htable s) k)"
    by (metis not_None_eq)
qed

section \<open>Marking the pages of a process\<close>

text \<open>Entries below \<open>n\<close> that satisfy \<open>c\<close> are changed by \<open>g\<close>.\<close>

definition mapped :: "(pt_entry \<Rightarrow> bool) \<Rightarrow> (pt_entry \<Rightarrow> pt_entry) \<Rightarrow> nat \<Rightarrow> 'a vm_scheme \<Rightarrow> 'a vm_scheme" where
  "mapped c g n s = s\<lparr>page_table := (page_table s)\<lparr>entries :=
     map (\<lambda>p. if p < n \<and> c (ents s ! p) then g (ents s ! p) else ents s ! p) [0..<length (ents s)]\<rparr>\<rparr>"

lemma mapped_ents: "p < length (ents s) \<Longrightarrow> ents (mapped c g n s) ! p = (if p < n \<and> c (ents s ! p) then g (ents s ! p) else ents s ! p)"
  by (simp add: mapped_def)

lemma mapped_fields [simp]:
  "length (ents (mapped c g n s)) = length (ents s)" "npt (mapped c g n s) = npt s" "nent (mapped c g n s) = nent s"
  "frame_addr (mapped c g n s) = frame_addr s" "htable (mapped c g n s) = htable s" "k_mem (mapped c g n s) = k_mem s"
  "k_swap (mapped c g n s) = k_swap s" "k_as (mapped c g n s) = k_as s" "k_pid (mapped c g n s) = k_pid s"
  "k_vnodes (mapped c g n s) = k_vnodes s" "pt_shape (mapped c g n s) = pt_shape s" "frames_ok (mapped c g n s) = frames_ok s"
  "first_free_paddr (page_table (mapped c g n s)) = first_free_paddr (page_table s)"
  by (simp_all add: mapped_def npt_def frame_addr_def fun_eq_iff pt_shape_def frames_ok_def)

lemma mapped_0: "mapped c g 0 s = s"
proof -
  have "map (\<lambda>p. if p < 0 \<and> c (ents s ! p) then g (ents s ! p) else ents s ! p) [0..<length (ents s)] = ents s"
    by (simp add: map_nth)
  then show ?thesis by (simp add: mapped_def)
qed

lemma mapped_Suc:
  assumes "n < length (ents s)"
  shows "mapped c g (Suc n) s = (if c (ents s ! n) then upd_entry (int n) g (mapped c g n s) else mapped c g n s)"
proof -
  let ?m = "\<lambda>n. map (\<lambda>p. if p < n \<and> c (ents s ! p) then g (ents s ! p) else ents s ! p) [0..<length (ents s)]"
  have "?m (Suc n) = (if c (ents s ! n) then (?m n)[n := g (?m n ! n)] else ?m n)"
    using assms by (intro nth_equalityI) (auto simp: nth_list_update less_Suc_eq)
  then show ?thesis by (simp add: mapped_def upd_entry_def)
qed

lemma kfold_mapped:
  assumes sh: "pt_shape s"
    and op: "\<And>p t. p < npt s \<Longrightarrow> p < length (ents t) \<Longrightarrow> ents t ! p = ents s ! p \<Longrightarrow>
      op (int p) t = Ok (if c (ents s ! p) then upd_entry (int p) g t else t)"
  shows "kfold op [0..nent s - 1] s = Ok (mapped c g (npt s) s)"
proof -
  have "\<exists>t. kfold op (map int [0..<npt s]) s = Ok t \<and> t = mapped c g (length (map int [0..<npt s])) s"
  proof (intro kfold_inv [where P = "\<lambda>done t. t = mapped c g (length done) s"])
    fix "done" i rest t
    assume a: "map int [0..<npt s] = done @ i # rest" "t = mapped c g (length done) s"
    note u = upt_split [OF a(1)]
    then have l: "length done < length (ents s)" using pt_shapeD(3) [OF sh] by linarith
    then show "\<exists>t'. op i t = Ok t' \<and> t' = mapped c g (length (done @ [i])) s"
      using u op [of "length done" t] a(2) by (simp add: mapped_ents mapped_Suc)
  qed (simp add: mapped_0)
  then show ?thesis by (simp add: int_upto [OF sh])
qed

lemma vm_ok_mapped:
  assumes ok: "vm_ok as s" and g: "\<And>x. page (g x) = page x \<and> pe_pid (g x) = pe_pid x \<and> GetValidityBit (ctrl (g x)) = GetValidityBit (ctrl x)"
  shows "vm_ok as (mapped c g n s)" "vpage (mapped c g n s) l = vpage s l"
proof -
  note D = vm_okD [OF ok]
  have "user (g x) = user x \<and> ekey (g x) = ekey x" for x using g by (simp add: user_def ekey_def)
  then have E: "user (ents (mapped c g n s) ! p) = user (ents s ! p)" "ekey (ents (mapped c g n s) ! p) = ekey (ents s ! p)"
    if "p < npt s" for p using that pt_shapeD(3) [OF D(2)] by (simp_all add: mapped_ents)
  then have "users (npt s) (ents (mapped c g n s)) = users (npt s) (ents s)" by (auto simp: users_def)
  moreover have "coupled (htable s) (npt s) (ents (mapped c g n s))" by (rule coupled_same [OF D(3) E])
  ultimately show "vm_ok as (mapped c g n s)"
    using D(2,4,5,6,7) E(2) by (auto simp: vm_ok_def pt_inv_def users_def)
  have "sw_look (mapped c g n s) l = sw_look s l" by (rule sw_look_cong) simp_all
  then show "vpage (mapped c g n s) l = vpage s l" by (cases "ht_lookup (htable s) l") (simp_all add: vpage_def)
qed

lemma prepare_copy_spec:
  assumes "pt_shape s" "\<And>p. p < npt s \<Longrightarrow> owned_by pid (ents s ! p) \<Longrightarrow> \<not> GetIOBit (ctrl (ents s ! p))"
  shows "prepare_copy_pt pid s = Ok (mapped (owned_by pid) (\<lambda>x. x\<lparr>ctrl := SetSwapBitOne (ctrl x)\<rparr>) (npt s) s)"
  unfolding prepare_copy_pt_def
  by (rule kfold_mapped [OF assms(1)]) (use assms(2) in \<open>auto simp: prepare_copy_entry_def\<close>)

lemma end_copy_spec:
  assumes "pt_shape s" "\<And>p. p < npt s \<Longrightarrow> owned_by pid (ents s ! p) \<Longrightarrow> GetSwapBit (ctrl (ents s ! p))"
  shows "end_copy_pt pid s = Ok (mapped (owned_by pid) (\<lambda>x. x\<lparr>ctrl := SetSwapBitZero (ctrl x)\<rparr>) (npt s) s)"
  unfolding end_copy_pt_def
  by (rule kfold_mapped [OF assms(1)]) (use assms(2) in \<open>auto simp: end_copy_entry_def\<close>)

section \<open>Copying the resident pages\<close>

lemma frame_bytes_buf:
  assumes "frames_ok s" "lhd_wf (sw_v (k_swap s))" "q < npt s" "\<And>a. \<not> in_buf (sw_v (k_swap s)) a \<Longrightarrow> m' a = m a"
  shows "frame_bytes m' (frame_addr s (int q)) = frame_bytes m (frame_addr s (int q))"
  using assms(4) below_buf_not_in_buf [OF assms(2) frame_addr_room [OF assms(1,3)]]
  by (auto simp: frame_bytes_def mem_get_def)

text \<open>
  The state \<open>t\<close> after the entries below \<open>n\<close> of \<open>s\<close> have been visited, for the parent \<open>j\<close> and the
  child \<open>i\<close>.
\<close>

definition copying :: "addrspace \<Rightarrow> pid \<Rightarrow> pid \<Rightarrow> nat \<Rightarrow> 'a vm_scheme \<Rightarrow> 'a vm_scheme \<Rightarrow> bool" where
  "copying as i j n s t \<longleftrightarrow>
     vm_ok as t \<and> npt t = npt s \<and> frame_addr t = frame_addr s \<and> k_pid t = k_pid s \<and> k_vnodes t = k_vnodes s \<and>
     (\<forall>p < npt s. owned_by j (ents s ! p) \<longrightarrow> ents t ! p = ents s ! p) \<and>
     (\<forall>p < npt s. owned_by j (ents t ! p) \<longrightarrow> owned_by j (ents s ! p)) \<and>
     (\<forall>p < npt s. entry_free (ents t ! p) \<longrightarrow> \<not> GetTlbBit (ctrl (ents t ! p))) \<and>
     (\<forall>l. page_ok as l \<and> snd l \<noteq> i \<longrightarrow> vpage t l = vpage s l) \<and>
     (\<forall>v. page_ok as (v, i) \<longrightarrow> vpage t (v, i) =
        (if \<exists>p < n. owned_by j (ents s ! p) \<and> page (ents s ! p) = v then vpage s (v, j) else sw_look s (v, i))) \<and>
     (\<forall>v. ht_lookup (htable t) (v, i) \<noteq> None \<longrightarrow> (\<exists>p < n. owned_by j (ents s ! p) \<and> page (ents s ! p) = v)) \<and>
     card {p. n \<le> p \<and> p < npt s \<and> owned_by j (ents s ! p)} \<le> free_cells (k_swap t)"

text \<open>The two ways to give the child the page \<open>v\<close> with contents \<open>b\<close>: how the state changes.\<close>

definition gives :: "addrspace \<Rightarrow> vaddr \<times> pid \<Rightarrow> byte list \<Rightarrow> 'a vm_scheme \<Rightarrow> 'a vm_scheme \<Rightarrow> bool" where
  "gives as k b s s' \<longleftrightarrow>
     vm_ok as s' \<and> npt s' = npt s \<and> frame_addr s' = frame_addr s \<and> k_pid s' = k_pid s \<and> k_vnodes s' = k_vnodes s \<and>
     (\<forall>p < npt s. \<not> entry_free (ents s ! p) \<longrightarrow> ents s' ! p = ents s ! p) \<and>
     (\<forall>p < npt s. ents s' ! p = ents s ! p \<or> pe_pid (ents s' ! p) = snd k \<and> user (ents s' ! p)) \<and>
     (\<forall>l. page_ok as l \<longrightarrow> vpage s' l = (if l = k then Some b else vpage s l)) \<and>
     (\<forall>l. ht_lookup (htable s') l \<noteq> None \<longrightarrow> ht_lookup (htable s) l \<noteq> None \<or> l = k) \<and>
     free_cells (k_swap s) \<le> Suc (free_cells (k_swap s'))"

lemma give_by_swap:
  assumes ok: "vm_ok as s" and free: "free_cells (k_swap s) \<noteq> 0" and n: "n < npt s"
    and k: "page_ok as k" "ht_lookup (htable s) k = None"
  shows "\<exists>s'. store_swap (fst k) (snd k) (frame_addr s (int n)) s = Ok (1, s')
    \<and> gives as k (frame_bytes (k_mem s) (frame_addr s (int n))) s s'"
proof -
  note D = vm_okD [OF ok]
  obtain s' where S: "store_swap (fst k) (snd k) (frame_addr s (int n)) s = Ok (1, s')" "same_proc s s'" "swap_inv (k_swap s')"
      "free_cells (k_swap s') = free_cells (k_swap s) - 1"
      "\<forall>l. page_ok as l \<longrightarrow> sw_look s' l = (if l = k then Some (frame_bytes (k_mem s) (frame_addr s (int n))) else sw_look s l)"
      "\<forall>a. \<not> in_buf (sw_v (k_swap s)) a \<longrightarrow> k_mem s' a = k_mem s a" "same_dev (sw_v (k_swap s)) (sw_v (k_swap s'))"
    using store_look [OF D(5) free D(6) k(1) frame_addr_room [OF D(4) n]] by metis
  note V = same_proc_vm [OF S(2)]
  have ok': "vm_ok as s'"
    using D S(3) V pt_inv_same_proc [OF S(2)] frames_ok_same [OF S(2,7)] by (simp add: vm_ok_def)
  have vp: "vpage s' l = (if l = k then Some (frame_bytes (k_mem s) (frame_addr s (int n))) else vpage s l)"
    if l: "page_ok as l" for l
  proof (cases "ht_lookup (htable s) l")
    case None
    then show ?thesis using S(5) [rule_format, OF l] V(2) by (simp add: vpage_def)
  next
    case (Some i)
    then obtain q where "i = int q" "q < npt s" using coupledD(1) [OF D(3) Some] by (auto simp: users_def)
    then show ?thesis
      using Some k(2) V(2,8) frame_bytes_buf [OF D(4,8), of q "k_mem s'" "k_mem s"] S(6) by (auto simp: vpage_def)
  qed
  have "gives as k (frame_bytes (k_mem s) (frame_addr s (int n))) s s'"
    unfolding gives_def using ok' vp V S(4) by simp
  then show ?thesis using S(1) by blast
qed

lemma memmove_frame:
  fixes s :: "'a vm_scheme" and m :: kmem
  assumes "frames_ok s" "p < npt s" "n < npt s" "p \<noteq> n"
  defines "m' \<equiv> memmove (PADDR_TO_KVADDR (frame_addr s (int p))) (PADDR_TO_KVADDR (frame_addr s (int n))) 4096 m"
  shows "frame_bytes m' (frame_addr s (int p)) = frame_bytes m (frame_addr s (int n))"
    and "q < npt s \<Longrightarrow> q \<noteq> p \<Longrightarrow> frame_bytes m' (frame_addr s (int q)) = frame_bytes m (frame_addr s (int q))"
  using frames_apart [OF assms(1,2)] by (auto simp: m'_def frame_bytes_def mem_get_def memmove_def)

lemma give_by_frame:
  assumes ok: "vm_ok as s" and p: "p < npt s" "entry_free (ents s ! p)" and n: "n < npt s" "n \<noteq> p"
    and k: "page_ok as (v, pid)" "ht_lookup (htable s) (v, pid) = None"
  defines "t \<equiv> upd_entry (int p) (\<lambda>x. \<lparr>page = v, pe_pid = pid, ctrl = SetValidityBitOne (ctrl x)\<rparr>) s"
  shows "\<exists>ht. add_in_hash (htable s) v pid (int p) = Ok ht \<and> gives as (v, pid) (frame_bytes (k_mem s) (frame_addr s (int n))) s
    (t\<lparr>htable := ht, k_mem := memmove (PADDR_TO_KVADDR (frame_addr s (int p))) (PADDR_TO_KVADDR (frame_addr s (int n))) 4096 (k_mem s)\<rparr>)"
proof -
  note D = vm_okD [OF ok] and S = pt_shapeD [OF vm_okD(2) [OF ok]]
  let ?e = "\<lparr>page = v, pe_pid = pid, ctrl = SetValidityBitOne (ctrl (ents s ! p))\<rparr>"
  have pl: "p < length (ents s)" using p(1) S(3) by simp
  have nu: "\<not> user (ents s ! p)" using p(2) by (simp add: user_def entry_free_def)
  have e: "user ?e" "ekey ?e = (v, pid)" using k(1) by (simp_all add: user_def ekey_def page_ok_def)
  obtain ht where A: "add_in_hash (htable s) v pid (int p) = Ok ht" "coupled ht (npt s) ((ents s)[p := ?e])"
      "ht_lookup ht = (ht_lookup (htable s))((v, pid) \<mapsto> int p)"
    using coupled_add [OF D(3) p(1) S(3) nu e page_ok_key [OF k(1)] k(2)] by auto
  define m where "m = memmove (PADDR_TO_KVADDR (frame_addr s (int p))) (PADDR_TO_KVADDR (frame_addr s (int n))) 4096 (k_mem s)"
  define s' where "s' = t\<lparr>htable := ht, k_mem := m\<rparr>"
  have F: "ents s' = (ents s)[p := ?e]" "npt s' = npt s" "frame_addr s' = frame_addr s" "htable s' = ht" "k_mem s' = m"
      "k_swap s' = k_swap s" "k_as s' = k_as s" "k_pid s' = k_pid s" "k_vnodes s' = k_vnodes s" "pt_shape s'" "frames_ok s'"
    using D(2,4) pl by (simp_all add: s'_def t_def npt_def frame_addr_def fun_eq_iff pt_shape_def frames_ok_def upd_entry_def)
  have "page_ok as (ekey (ents s' ! q))" if "q \<in> users (npt s) (ents s')" for q
    using that D(7) [of q] k(1) e users_upd [OF p(1) S(3), of ?e] pl F(1) by (cases "q = p") (auto simp: nth_list_update)
  then have ok': "vm_ok as s'" using A(2) D(5,6) F by (simp add: vm_ok_def pt_inv_def)
  have lk: "sw_look s' l = sw_look s l" for l by (rule sw_look_cong) (simp_all add: F)
  note M = memmove_frame [OF D(4) p(1) n(1) n(2) [symmetric], where m = "k_mem s", folded m_def]
  have vp: "vpage s' l = (if l = (v, pid) then Some (frame_bytes (k_mem s) (frame_addr s (int n))) else vpage s l)" for l
  proof (cases "ht_lookup (htable s) l")
    case None
    then show ?thesis using A(3) F lk M(1) by (simp add: vpage_def)
  next
    case (Some i)
    then obtain q where q: "i = int q" "q < npt s" "user (ents s ! q)" using coupledD(1) [OF D(3) Some] by (auto simp: users_def)
    then have "q \<noteq> p" using nu by auto
    then show ?thesis using Some k(2) A(3) F M(2) q by (auto simp: vpage_def)
  qed
  have "gives as (v, pid) (frame_bytes (k_mem s) (frame_addr s (int n))) s s'"
    unfolding gives_def using ok' F vp p(2) A(3) pl e by (auto simp: nth_list_update)
  then show ?thesis using A(1) unfolding s'_def m_def by blast
qed

lemma copying_step:
  assumes C: "copying as i j n s t" and n: "n < npt s" and ok: "vm_ok as s" and ij: "i \<noteq> j" "0 \<le> i" "i < int MAX_PROC"
    and bits: "owned_by j (ents s ! n) \<Longrightarrow> \<not> GetIOBit (ctrl (ents s ! n)) \<and> GetSwapBit (ctrl (ents s ! n))"
  shows "\<exists>t'. copy_entry j i (int n) t = Ok t' \<and> copying as i j (Suc n) s t'"
proof -
  have T: "vm_ok as t" "npt t = npt s" "frame_addr t = frame_addr s" "k_pid t = k_pid s" "k_vnodes t = k_vnodes s"
      "\<forall>p < npt s. owned_by j (ents s ! p) \<longrightarrow> ents t ! p = ents s ! p"
      "\<forall>p < npt s. owned_by j (ents t ! p) \<longrightarrow> owned_by j (ents s ! p)"
      "\<forall>p < npt s. entry_free (ents t ! p) \<longrightarrow> \<not> GetTlbBit (ctrl (ents t ! p))"
      "\<forall>l. page_ok as l \<and> snd l \<noteq> i \<longrightarrow> vpage t l = vpage s l"
      "\<forall>v. page_ok as (v, i) \<longrightarrow> vpage t (v, i) =
         (if \<exists>p < n. owned_by j (ents s ! p) \<and> page (ents s ! p) = v then vpage s (v, j) else sw_look s (v, i))"
      "\<forall>v. ht_lookup (htable t) (v, i) \<noteq> None \<longrightarrow> (\<exists>p < n. owned_by j (ents s ! p) \<and> page (ents s ! p) = v)"
      "card {p. n \<le> p \<and> p < npt s \<and> owned_by j (ents s ! p)} \<le> free_cells (k_swap t)"
    using C unfolding copying_def by blast+
  note D = vm_okD [OF ok] and E = vm_okD [OF T(1)]
  have nl: "n < length (ents t)" using n T(2) pt_shapeD(3) [OF E(2)] by simp
  have own: "owned_by j (ents t ! n) \<longleftrightarrow> owned_by j (ents s ! n)" using T(6,7) n by (metis)
  show ?thesis
  proof (cases "owned_by j (ents s ! n)")
    case False
    then have e1: "{p. n \<le> p \<and> p < npt s \<and> owned_by j (ents s ! p)} = {p. Suc n \<le> p \<and> p < npt s \<and> owned_by j (ents s ! p)}"
      by (auto simp: Suc_le_eq order_le_less)
    have e2: "(\<exists>p < n. owned_by j (ents s ! p) \<and> page (ents s ! p) = v) \<longleftrightarrow>
        (\<exists>p < Suc n. owned_by j (ents s ! p) \<and> page (ents s ! p) = v)" for v using False by (auto simp: less_Suc_eq)
    have "copying as i j (Suc n) s t" using C unfolding copying_def e1 e2 .
    then show ?thesis using False own nl by (simp add: copy_entry_def)
  next
    case True
    define v where "v = page (ents s ! n)"
    have en: "ents t ! n = ents s ! n" using T(6) n True by blast
    have U: "n \<in> users (npt s) (ents s)" "ekey (ents s ! n) = (v, j)" "n \<in> users (npt t) (ents t)"
      using n True en T(2) by (auto simp: users_def owned_user ekey_def v_def)
    have pj: "page_ok as (v, j)" using D(7) [OF U(1)] U(2) by simp
    then have pi: "page_ok as (v, i)" using ij by (simp add: page_ok_def)
    have Lt: "ht_lookup (htable t) (v, j) = Some (int n)" using coupledD(2) [OF E(3) U(3)] en U(2) by simp
    have b: "vpage s (v, j) = Some (frame_bytes (k_mem t) (frame_addr t (int n)))"
    proof -
      have "vpage s (v, j) = vpage t (v, j)" using T(9) pj ij(1) by simp
      also have "\<dots> = Some (frame_bytes (k_mem t) (frame_addr t (int n)))" by (simp add: vpage_def Lt)
      finally show ?thesis .
    qed
    have fresh: "ht_lookup (htable t) (v, i) = None"
    proof (rule ccontr)
      assume "ht_lookup (htable t) (v, i) \<noteq> None"
      then obtain p where p: "p < n" "owned_by j (ents s ! p)" "page (ents s ! p) = v" using T(11) by blast
      then have "p \<in> users (npt s) (ents s)" "ekey (ents s ! p) = (v, j)" using n by (auto simp: users_def owned_user ekey_def)
      then have "Some (int p) = Some (int n)" using coupledD(2) [OF D(3)] U(1,2) by metis
      then show False using p(1) by simp
    qed
    have card: "card {p. Suc n \<le> p \<and> p < npt s \<and> owned_by j (ents s ! p)} < card {p. n \<le> p \<and> p < npt s \<and> owned_by j (ents s ! p)}"
    proof -
      have "{p. n \<le> p \<and> p < npt s \<and> owned_by j (ents s ! p)} = insert n {p. Suc n \<le> p \<and> p < npt s \<and> owned_by j (ents s ! p)}"
      proof (rule set_eqI)
        fix x
        show "x \<in> {p. n \<le> p \<and> p < npt s \<and> owned_by j (ents s ! p)} \<longleftrightarrow> x \<in> insert n {p. Suc n \<le> p \<and> p < npt s \<and> owned_by j (ents s ! p)}"
          using n True by (cases "x = n") auto
      qed
      then show ?thesis by simp
    qed
    have G: "copying as i j (Suc n) s t'" if "gives as (v, i) (frame_bytes (k_mem t) (frame_addr t (int n))) t t'" for t'
    proof -
      have g: "vm_ok as t'" "npt t' = npt t" "frame_addr t' = frame_addr t" "k_pid t' = k_pid t" "k_vnodes t' = k_vnodes t"
          "\<forall>p < npt t. \<not> entry_free (ents t ! p) \<longrightarrow> ents t' ! p = ents t ! p"
          "\<forall>p < npt t. ents t' ! p = ents t ! p \<or> pe_pid (ents t' ! p) = i \<and> user (ents t' ! p)"
          "\<forall>l. page_ok as l \<longrightarrow> vpage t' l = (if l = (v, i) then Some (frame_bytes (k_mem t) (frame_addr t (int n))) else vpage t l)"
          "\<forall>l. ht_lookup (htable t') l \<noteq> None \<longrightarrow> ht_lookup (htable t) l \<noteq> None \<or> l = (v, i)"
          "free_cells (k_swap t) \<le> Suc (free_cells (k_swap t'))"
        using that unfolding gives_def snd_conv by blast+
      have nf: "\<not> entry_free (ents s ! p)" if "owned_by j (ents s ! p)" for p using that by (simp add: owned_by_def entry_free_def)
      have 1: "\<forall>p < npt s. owned_by j (ents s ! p) \<longrightarrow> ents t' ! p = ents s ! p" using g(6) T(2,6) nf by metis
      have 2: "\<forall>p < npt s. owned_by j (ents t' ! p) \<longrightarrow> owned_by j (ents s ! p)"
        using g(7) T(2,7) ij(1) by (metis owned_user)
      have 3: "\<forall>p < npt s. entry_free (ents t' ! p) \<longrightarrow> \<not> GetTlbBit (ctrl (ents t' ! p))"
        using g(7) T(2,8) by (metis entry_free_def user_def)
      have 4: "\<forall>l. page_ok as l \<and> snd l \<noteq> i \<longrightarrow> vpage t' l = vpage s l" using g(8) T(9) by auto
      have 5: "\<forall>w. page_ok as (w, i) \<longrightarrow> vpage t' (w, i) =
          (if \<exists>p < Suc n. owned_by j (ents s ! p) \<and> page (ents s ! p) = w then vpage s (w, j) else sw_look s (w, i))"
      proof (intro allI impI)
        fix w assume w: "page_ok as (w, i)"
        have ex: "(\<exists>p < Suc n. owned_by j (ents s ! p) \<and> page (ents s ! p) = w) \<longleftrightarrow>
            w = v \<or> (\<exists>p < n. owned_by j (ents s ! p) \<and> page (ents s ! p) = w)"
          using True by (auto simp: less_Suc_eq v_def)
        have "vpage t' (w, i) = (if w = v then vpage s (v, j) else vpage t (w, i))" using g(8) [rule_format, OF w] b by simp
        then show "vpage t' (w, i) = (if \<exists>p < Suc n. owned_by j (ents s ! p) \<and> page (ents s ! p) = w
            then vpage s (w, j) else sw_look s (w, i))"
          unfolding ex using T(10) [rule_format, OF w] by (cases "w = v") simp_all
      qed
      have 6: "\<forall>w. ht_lookup (htable t') (w, i) \<noteq> None \<longrightarrow> (\<exists>p < Suc n. owned_by j (ents s ! p) \<and> page (ents s ! p) = w)"
        using g(9) T(11) True v_def less_Suc_eq by (metis fst_conv)
      have 7: "card {p. Suc n \<le> p \<and> p < npt s \<and> owned_by j (ents s ! p)} \<le> free_cells (k_swap t')"
        using g(10) T(12) card by linarith
      have 8: "npt t' = npt s" "frame_addr t' = frame_addr s" "k_pid t' = k_pid s" "k_vnodes t' = k_vnodes s"
        using g(2-5) T(2-5) by simp_all
      show ?thesis unfolding copying_def by (intro conjI; fact g(1) 8 1 2 3 4 5 6 7)
    qed
    show ?thesis
    proof (cases "find (\<lambda>p. entry_free (ents t ! p)) [0..<npt t]")
      case None
      have "free_cells (k_swap t) \<noteq> 0" using T(12) card by simp
      then obtain t' where S: "store_swap v i (frame_addr t (int n)) t = Ok (1, t')"
          "gives as (v, i) (frame_bytes (k_mem t) (frame_addr t (int n))) t t'"
        using give_by_swap [OF T(1) _ _ pi fresh, of n] n T(2) by auto
      have "copy_entry j i (int n) t = Ok t'"
        using None findspace_spec [OF E(2)] True own en nl bits S(1) v_def
        by (simp add: copy_entry_def owned_by_def)
      then show ?thesis using G [OF S(2)] by blast
    next
      case (Some p)
      then have p: "p < npt t" "entry_free (ents t ! p)" by (auto simp: find_upt_Some)
      then have np: "n \<noteq> p" using True en by (auto simp: owned_by_def entry_free_def)
      obtain ht where A: "add_in_hash (htable t) v i (int p) = Ok ht"
          "gives as (v, i) (frame_bytes (k_mem t) (frame_addr t (int n))) t
             ((upd_entry (int p) (\<lambda>x. \<lparr>page = v, pe_pid = i, ctrl = SetValidityBitOne (ctrl x)\<rparr>) t)\<lparr>htable := ht,
                k_mem := memmove (PADDR_TO_KVADDR (frame_addr t (int p))) (PADDR_TO_KVADDR (frame_addr t (int n))) 4096 (k_mem t)\<rparr>)"
        using give_by_frame [OF T(1) p _ np pi fresh] n T(2) by auto
      have pl: "p < length (ents t)" using p(1) pt_shapeD(3) [OF E(2)] by simp
      have "\<not> GetTlbBit (ctrl (ents t ! p))" using T(2,8) p by simp
      then have "copy_entry j i (int n) t = Ok ((upd_entry (int p) (\<lambda>x. \<lparr>page = v, pe_pid = i, ctrl = SetValidityBitOne (ctrl x)\<rparr>) t)\<lparr>htable := ht,
                k_mem := memmove (PADDR_TO_KVADDR (frame_addr t (int p))) (PADDR_TO_KVADDR (frame_addr t (int n))) 4096 (k_mem t)\<rparr>)"
        using Some findspace_spec [OF E(2)] True own en nl pl np A(1) v_def p(2)
        by (simp add: copy_entry_def owned_by_def entry_free_def)
      then show ?thesis using G [OF A(2)] by blast
    qed
  qed
qed

lemma copy_pt_entries_ok:
  assumes ok: "vm_ok as s" and ij: "i \<noteq> j" "0 \<le> i" "i < int MAX_PROC"
    and bits: "\<And>p. p < npt s \<Longrightarrow> owned_by j (ents s ! p) \<Longrightarrow> \<not> GetIOBit (ctrl (ents s ! p)) \<and> GetSwapBit (ctrl (ents s ! p))"
    and clean: "\<And>p. p < npt s \<Longrightarrow> entry_free (ents s ! p) \<Longrightarrow> \<not> GetTlbBit (ctrl (ents s ! p))"
    and new: "\<And>v. ht_lookup (htable s) (v, i) = None"
    and room: "card {p. p < npt s \<and> owned_by j (ents s ! p)} \<le> free_cells (k_swap s)"
  shows "\<exists>t. copy_pt_entries j i s = Ok t \<and> copying as i j (npt s) s t"
proof -
  have sh: "pt_shape s" using vm_okD(2) [OF ok] .
  have "copying as i j 0 s s" unfolding copying_def using ok clean new room by (auto simp: vpage_def)
  then have "\<exists>t. kfold (copy_entry j i) (map int [0..<npt s]) s = Ok t \<and> copying as i j (length (map int [0..<npt s])) s t"
  proof (intro kfold_inv [where P = "\<lambda>done t. copying as i j (length done) s t"])
    fix "done" k rest t
    assume a: "map int [0..<npt s] = done @ k # rest" "copying as i j (length done) s t"
    note u = upt_split [OF a(1)]
    then have "\<exists>t'. copy_entry j i (int (length done)) t = Ok t' \<and> copying as i j (Suc (length done)) s t'"
      using bits [of "length done"] by (intro copying_step [OF a(2) _ ok ij]) blast+
    then show "\<exists>t'. copy_entry j i k t = Ok t' \<and> copying as i j (length (done @ [k])) s t'" using u by simp
  qed simp
  then show ?thesis by (simp add: copy_pt_entries_def int_upto [OF sh])
qed

section \<open>Copying the pages in the swap file\<close>

definition kbuf_apart :: "'a vm_scheme \<Rightarrow> bool" where
  "kbuf_apart s \<longleftrightarrow> (\<forall>p < npt s. \<forall>k < 4096.
     \<not> unat (PADDR_TO_KVADDR (frame_addr s (int p)) + of_nat k - sw_kbuf (k_swap s)) < 4096)"

lemma frame_bytes_kbuf:
  assumes "frames_ok s" "lhd_wf (sw_v (k_swap s))" "kbuf_apart s" "q < npt s" "mem_frame (k_swap s) (k_mem s) m'"
  shows "frame_bytes m' (frame_addr s (int q)) = frame_bytes (k_mem s) (frame_addr s (int q))"
  using assms(3,4,5) below_buf_not_in_buf [OF assms(2) frame_addr_room [OF assms(1,4)]]
  by (auto simp: frame_bytes_def mem_get_def mem_frame_def kbuf_apart_def)

lemma map_of_rev: "distinct (map fst xs) \<Longrightarrow> map_of (rev xs) k = map_of xs k"
  by (metis map_of_inject_set distinct_rev rev_map set_rev)

lemma copy_swap_vm:
  assumes ok: "vm_ok as s" and i: "i < MAX_PROC" "j < MAX_PROC" "i \<noteq> j" and kb: "kbuf_apart s"
    and none: "\<And>g. swap_list (k_swap s) g i = []" and dist: "\<And>g. distinct (map fst (swap_list (k_swap s) g j))"
    and room: "length (swap_list (k_swap s) Text j) + length (swap_list (k_swap s) Data j)
      + length (swap_list (k_swap s) Stack j) \<le> free_cells (k_swap s)"
  shows "\<exists>t. copy_swap_pages (int i) (int j) s = Ok t \<and> vm_ok as t \<and> same_proc s t
    \<and> (\<forall>l. page_ok as l \<and> snd l \<noteq> int i \<longrightarrow> vpage t l = vpage s l \<and> sw_look t l = sw_look s l)
    \<and> (\<forall>v. page_ok as (v, int i) \<longrightarrow> sw_look t (v, int i) = sw_look s (v, int j))
    \<and> free_cells (k_swap t) = free_cells (k_swap s) - (length (swap_list (k_swap s) Text j)
        + length (swap_list (k_swap s) Data j) + length (swap_list (k_swap s) Stack j))"
proof -
  note D = vm_okD [OF ok]
  obtain t where S: "copy_swap_pages (int i) (int j) s = Ok t" "swap_inv (k_swap t)"
      "\<forall>g. swap_list (k_swap t) g i = rev (swap_list (k_swap s) g j) @ swap_list (k_swap s) g i"
      "\<forall>g k. k < MAX_PROC \<longrightarrow> k \<noteq> i \<longrightarrow> swap_list (k_swap t) g k = swap_list (k_swap s) g k"
      "free_cells (k_swap t) = free_cells (k_swap s) - (length (swap_list (k_swap s) Text j)
        + length (swap_list (k_swap s) Data j) + length (swap_list (k_swap s) Stack j))"
      "copy_post s t (\<lambda>x. []) []"
    using copy_swap_pages_spec [OF D(5) i room] by blast
  have P: "same_proc s t" "mem_frame (k_swap s) (k_mem s) (k_mem t)" "same_dev (sw_v (k_swap s)) (sw_v (k_swap t))"
    using S(6) by (auto simp: copy_post_def)
  note V = same_proc_vm [OF P(1)]
  have ok': "vm_ok as t" using D S(2) V pt_inv_same_proc [OF P(1)] frames_ok_same [OF P(1,3)] by (simp add: vm_ok_def)
  have seg: "\<exists>g. swap_seg_of as (fst l) = Some g" if "page_ok as l" for l using that one_seg_unique by (auto simp: page_ok_def)
  have look: "sw_look t l = sw_look s l" if l: "page_ok as l" "snd l \<noteq> int i" for l
  proof -
    have "nat (snd l) < MAX_PROC" "nat (snd l) \<noteq> i" using l by (auto simp: page_ok_def)
    then show ?thesis using seg [OF l(1)] S(4) D(6) V(5) by (auto simp: sw_look_def)
  qed
  have vp: "vpage t l = vpage s l" if l: "page_ok as l" "snd l \<noteq> int i" for l
  proof (cases "ht_lookup (htable s) l")
    case None
    then show ?thesis using look [OF l] V(2) by (simp add: vpage_def)
  next
    case (Some k)
    then obtain q where "k = int q" "q < npt s" using coupledD(1) [OF D(3) Some] by (auto simp: users_def)
    then show ?thesis using Some V(2,8) frame_bytes_kbuf [OF D(4,8) kb _ P(2)] by (simp add: vpage_def)
  qed
  have "sw_look t (v, int i) = sw_look s (v, int j)" if "page_ok as (v, int i)" for v
    using seg [OF that] S(3) none map_of_rev [OF dist] D(6) V(5) by (auto simp: sw_look_def)
  then show ?thesis using S(1,5) ok' P(1) vp look by blast
qed

section \<open>Fork\<close>

lemma vnodes_upd [simp]:
  "vm_ok as (s\<lparr>k_vnodes := f\<rparr>) = vm_ok as s" "npt (s\<lparr>k_vnodes := f\<rparr>) = npt s"
  "frame_addr (s\<lparr>k_vnodes := f\<rparr>) = frame_addr s" "pt_shape (s\<lparr>k_vnodes := f\<rparr>) = pt_shape s"
  "vpage (s\<lparr>k_vnodes := f\<rparr>) l = vpage s l" "sw_look (s\<lparr>k_vnodes := f\<rparr>) l = sw_look s l"
proof -
  show n: "npt (s\<lparr>k_vnodes := f\<rparr>) = npt s" "frame_addr (s\<lparr>k_vnodes := f\<rparr>) = frame_addr s"
      "pt_shape (s\<lparr>k_vnodes := f\<rparr>) = pt_shape s"
    by (simp_all add: npt_def frame_addr_def fun_eq_iff pt_shape_def)
  then show "vm_ok as (s\<lparr>k_vnodes := f\<rparr>) = vm_ok as s" by (simp add: vm_ok_def pt_inv_def frames_ok_def)
  show w: "sw_look (s\<lparr>k_vnodes := f\<rparr>) l = sw_look s l" by (rule sw_look_cong) simp_all
  show "vpage (s\<lparr>k_vnodes := f\<rparr>) l = vpage s l"
    using n w by (cases "ht_lookup (htable s) l") (simp_all add: vpage_def)
qed

text \<open>
  A state in which process \<open>j\<close> may fork the new process \<open>i\<close>: the new id is not in use, no page of
  the parent is in transfer, the parent has a page at most once in the swap file, no free frame is
  marked as mapped, and there is room in the swap file for a second copy of what the parent has.
\<close>

definition fork_ready :: "addrspace \<Rightarrow> nat \<Rightarrow> nat \<Rightarrow> 'a vm_scheme \<Rightarrow> bool" where
  "fork_ready as i j s \<longleftrightarrow>
     vm_ok as s \<and> i < MAX_PROC \<and> j < MAX_PROC \<and> i \<noteq> j \<and> kbuf_apart s \<and>
     (\<forall>p < npt s. user (ents s ! p) \<longrightarrow> pe_pid (ents s ! p) \<noteq> int i) \<and>
     (\<forall>g. swap_list (k_swap s) g i = []) \<and> (\<forall>g. distinct (map fst (swap_list (k_swap s) g j))) \<and>
     (\<forall>p < npt s. owned_by (int j) (ents s ! p) \<longrightarrow> \<not> GetIOBit (ctrl (ents s ! p))) \<and>
     (\<forall>p < npt s. entry_free (ents s ! p) \<longrightarrow> \<not> GetTlbBit (ctrl (ents s ! p))) \<and>
     card {p. p < npt s \<and> owned_by (int j) (ents s ! p)} + length (swap_list (k_swap s) Text j)
       + length (swap_list (k_swap s) Data j) + length (swap_list (k_swap s) Stack j) \<le> free_cells (k_swap s)"

abbreviation swap_on :: "pt_entry \<Rightarrow> pt_entry" where
  "swap_on x \<equiv> x\<lparr>ctrl := SetSwapBitOne (ctrl x)\<rparr>"

abbreviation swap_off :: "pt_entry \<Rightarrow> pt_entry" where
  "swap_off x \<equiv> x\<lparr>ctrl := SetSwapBitZero (ctrl x)\<rparr>"

lemma fork_copies:
  assumes R: "fork_ready as i j s"
  shows "\<exists>t1 t2 t3 t4. prepare_copy_pt (int j) s = Ok t1 \<and> copy_swap_pages (int i) (int j) t1 = Ok t2
    \<and> copy_pt_entries (int j) (int i) t2 = Ok t3 \<and> end_copy_pt (int j) t3 = Ok t4 \<and> vm_ok as t4
    \<and> (\<forall>v. page_ok as (v, int i) \<longrightarrow> vpage t4 (v, int i) = vpage s (v, int j))
    \<and> (\<forall>l. page_ok as l \<and> snd l \<noteq> int i \<longrightarrow> vpage t4 l = vpage s l)
    \<and> k_pid t4 = k_pid s \<and> k_vnodes t4 = k_vnodes s"
proof -
  have H: "vm_ok as s" "i < MAX_PROC" "j < MAX_PROC" "i \<noteq> j" "kbuf_apart s"
      "\<forall>p < npt s. user (ents s ! p) \<longrightarrow> pe_pid (ents s ! p) \<noteq> int i"
      "\<forall>g. swap_list (k_swap s) g i = []" "\<forall>g. distinct (map fst (swap_list (k_swap s) g j))"
      "\<forall>p < npt s. owned_by (int j) (ents s ! p) \<longrightarrow> \<not> GetIOBit (ctrl (ents s ! p))"
      "\<forall>p < npt s. entry_free (ents s ! p) \<longrightarrow> \<not> GetTlbBit (ctrl (ents s ! p))"
      "card {p. p < npt s \<and> owned_by (int j) (ents s ! p)} + length (swap_list (k_swap s) Text j)
        + length (swap_list (k_swap s) Data j) + length (swap_list (k_swap s) Stack j) \<le> free_cells (k_swap s)"
    using R unfolding fork_ready_def by blast+
  note D = vm_okD [OF H(1)]
  let ?t1 = "mapped (owned_by (int j)) swap_on (npt s) s"
  have 1: "prepare_copy_pt (int j) s = Ok ?t1" using prepare_copy_spec [OF D(2)] H(9) by blast
  have ok1: "vm_ok as ?t1" "\<And>l. vpage ?t1 l = vpage s l" by (rule vm_ok_mapped [OF H(1)]; simp)+
  have E1: "ents ?t1 ! p = (if owned_by (int j) (ents s ! p) then swap_on (ents s ! p) else ents s ! p)" if "p < npt s" for p
    using that pt_shapeD(3) [OF D(2)] by (simp add: mapped_ents)
  have O1: "owned_by (int j) (ents ?t1 ! p) \<longleftrightarrow> owned_by (int j) (ents s ! p)" if "p < npt s" for p
    using E1 [OF that] by (auto simp: owned_by_def)
  have kb1: "kbuf_apart ?t1" using H(5) by (simp add: kbuf_apart_def)
  have sl1: "sw_look ?t1 l = sw_look s l" for l by (rule sw_look_cong) simp_all
  have p1: "\<And>g. swap_list (k_swap ?t1) g i = []" "\<And>g. distinct (map fst (swap_list (k_swap ?t1) g j))"
      "length (swap_list (k_swap ?t1) Text j) + length (swap_list (k_swap ?t1) Data j)
        + length (swap_list (k_swap ?t1) Stack j) \<le> free_cells (k_swap ?t1)"
    using H(7,8,11) by simp_all
  obtain t2 where 2: "copy_swap_pages (int i) (int j) ?t1 = Ok t2" "vm_ok as t2" "same_proc ?t1 t2"
      "\<forall>l. page_ok as l \<and> snd l \<noteq> int i \<longrightarrow> vpage t2 l = vpage ?t1 l \<and> sw_look t2 l = sw_look ?t1 l"
      "\<forall>v. page_ok as (v, int i) \<longrightarrow> sw_look t2 (v, int i) = sw_look ?t1 (v, int j)"
      "free_cells (k_swap t2) = free_cells (k_swap ?t1) - (length (swap_list (k_swap ?t1) Text j)
        + length (swap_list (k_swap ?t1) Data j) + length (swap_list (k_swap ?t1) Stack j))"
    using copy_swap_vm [OF ok1(1) H(2-4) kb1 p1] by blast
  note V = same_proc_vm [OF 2(3)]
  have set: "{p. p < npt s \<and> owned_by (int j) (ents t2 ! p)} = {p. p < npt s \<and> owned_by (int j) (ents s ! p)}"
    using O1 V(1) by auto
  have n2: "npt t2 = npt s" using V(9) by simp
  have new: "ht_lookup (htable t2) (v, int i) = None" for v
  proof -
    have "\<forall>p \<in> users (npt s) (ents s). ekey (ents s ! p) \<noteq> (v, int i)" using H(6) by (auto simp: users_def ekey_def)
    then show ?thesis using coupled_lookup_None [OF D(3)] V(2) by simp
  qed
  obtain t3 where 3: "copy_pt_entries (int j) (int i) t2 = Ok t3" "copying as (int i) (int j) (npt t2) t2 t3"
  proof -
    have "\<exists>t. copy_pt_entries (int j) (int i) t2 = Ok t \<and> copying as (int i) (int j) (npt t2) t2 t"
    proof (rule copy_pt_entries_ok [OF 2(2)])
      show "p < npt t2 \<Longrightarrow> owned_by (int j) (ents t2 ! p) \<Longrightarrow> \<not> GetIOBit (ctrl (ents t2 ! p)) \<and> GetSwapBit (ctrl (ents t2 ! p))" for p
        using E1 [of p] O1 [of p] H(9) V(1) n2 by auto
      show "p < npt t2 \<Longrightarrow> entry_free (ents t2 ! p) \<Longrightarrow> \<not> GetTlbBit (ctrl (ents t2 ! p))" for p
        using E1 [of p] H(10) V(1) n2 by (auto simp: entry_free_def split: if_splits)
      show "card {p. p < npt t2 \<and> owned_by (int j) (ents t2 ! p)} \<le> free_cells (k_swap t2)"
        unfolding n2 set using 2(6) H(11) by simp
    qed (use H new in simp_all)
    then show thesis using that by blast
  qed
  have T: "vm_ok as t3" "npt t3 = npt s" "k_pid t3 = k_pid t2" "k_vnodes t3 = k_vnodes t2"
      "\<forall>p < npt s. owned_by (int j) (ents t2 ! p) \<longrightarrow> ents t3 ! p = ents t2 ! p"
      "\<forall>p < npt s. owned_by (int j) (ents t3 ! p) \<longrightarrow> owned_by (int j) (ents t2 ! p)"
      "\<forall>l. page_ok as l \<and> snd l \<noteq> int i \<longrightarrow> vpage t3 l = vpage t2 l"
      "\<forall>v. page_ok as (v, int i) \<longrightarrow> vpage t3 (v, int i) =
         (if \<exists>p < npt s. owned_by (int j) (ents t2 ! p) \<and> page (ents t2 ! p) = v then vpage t2 (v, int j) else sw_look t2 (v, int i))"
    using 3(2) unfolding copying_def n2 by blast+
  let ?t4 = "mapped (owned_by (int j)) swap_off (npt t3) t3"
  have "GetSwapBit (ctrl (ents t3 ! p))" if "p < npt t3" "owned_by (int j) (ents t3 ! p)" for p
    using that T(2,5,6) E1 [of p] O1 [of p] V(1) by auto
  then have 4: "end_copy_pt (int j) t3 = Ok ?t4" using end_copy_spec [OF vm_okD(2) [OF T(1)]] by blast
  have ok4: "vm_ok as ?t4" "\<And>l. vpage ?t4 l = vpage t3 l" by (rule vm_ok_mapped [OF T(1)]; simp)+
  have other: "vpage ?t4 l = vpage s l" if "page_ok as l" "snd l \<noteq> int i" for l
    using that ok4(2) T(7) [rule_format, of l] 2(4) [rule_format, of l] ok1(2) by simp
  have child: "vpage ?t4 (v, int i) = vpage s (v, int j)" if v: "page_ok as (v, int i)" for v
  proof -
    have pj: "page_ok as (v, int j)" using v H(3) by (simp add: page_ok_def)
    have "vpage t2 (v, int j) = vpage s (v, int j)" using 2(4) ok1(2) pj H(4) by simp
    moreover have "sw_look t2 (v, int i) = vpage s (v, int j)"
      if "\<not> (\<exists>p < npt s. owned_by (int j) (ents t2 ! p) \<and> page (ents t2 ! p) = v)"
    proof -
      have "ekey (ents s ! p) \<noteq> (v, int j)" if "p \<in> users (npt s) (ents s)" for p
      proof
        assume "ekey (ents s ! p) = (v, int j)"
        then have p: "p < npt s" "owned_by (int j) (ents s ! p)" "page (ents s ! p) = v"
          using that by (simp_all add: users_def ekey_def owned_user)
        then have "owned_by (int j) (ents t2 ! p)" using O1 V(1) by metis
        moreover have "page (ents t2 ! p) = v" using p E1 V(1) by simp
        ultimately show False using \<open>\<not> (\<exists>p < npt s. owned_by (int j) (ents t2 ! p) \<and> page (ents t2 ! p) = v)\<close> p(1) by blast
      qed
      then have "ht_lookup (htable s) (v, int j) = None" using coupled_lookup_None [OF D(3)] by simp
      then show ?thesis using 2(5) v sl1 by (simp add: vpage_def)
    qed
    ultimately show ?thesis using T(8) [rule_format, OF v] ok4(2) by simp
  qed
  show ?thesis using 1 2(1) 3(1) 4 ok4(1) other child T(3,4) V(4,6) by (intro exI conjI) (assumption | simp | blast)+
qed

section \<open>Properties\<close>

text \<open>
  (C3) The memory part of fork: \<open>as_copy\<close> succeeds and gives the child an address space with its
  parent's regions; every page of the child has the contents of the parent's page at the same
  address, be it resident, in the swap file or never touched; the pages of the parent and of all
  other processes keep their contents, the executable has one reference more, and the invariants
  hold.
\<close>

theorem as_copy_contents:
  assumes "fork_ready as i j s" "as_v as \<noteq> NULL"
  shows "\<exists>new s'. as_copy (Some blk) as (int j) (int i) s = Ok (0, Some new, s') \<and> vm_ok as s'
    \<and> (\<forall>v. page_ok as (v, int i) \<longrightarrow> vpage s' (v, int i) = vpage s (v, int j))
    \<and> (\<forall>k. page_ok as k \<and> snd k \<noteq> int i \<longrightarrow> vpage s' k = vpage s k)
    \<and> swap_seg_of new = swap_seg_of as \<and> ph1 new = ph1 as \<and> ph2 new = ph2 as \<and> as_v new = as_v as
    \<and> initial_offset1 new = initial_offset1 as \<and> initial_offset2 new = initial_offset2 as
    \<and> vn_refcount (k_vnodes s' (as_v as)) = vn_refcount (k_vnodes s (as_v as)) + 1"
proof -
  let ?vs = "(k_vnodes s)(as_v as := (k_vnodes s (as_v as))\<lparr>vn_refcount := vn_refcount (k_vnodes s (as_v as)) + 1\<rparr>)"
  have "fork_ready as i j (s\<lparr>k_vnodes := ?vs\<rparr>)" using assms(1) by (simp add: fork_ready_def kbuf_apart_def)
  then obtain t1 t2 t3 t4 where T: "prepare_copy_pt (int j) (s\<lparr>k_vnodes := ?vs\<rparr>) = Ok t1" "copy_swap_pages (int i) (int j) t1 = Ok t2"
      "copy_pt_entries (int j) (int i) t2 = Ok t3" "end_copy_pt (int j) t3 = Ok t4" "vm_ok as t4"
      "\<forall>v. page_ok as (v, int i) \<longrightarrow> vpage t4 (v, int i) = vpage s (v, int j)"
      "\<forall>l. page_ok as l \<and> snd l \<noteq> int i \<longrightarrow> vpage t4 l = vpage s l" "k_vnodes t4 = ?vs"
    using fork_copies [of as i j "s\<lparr>k_vnodes := ?vs\<rparr>"] by auto
  define new where "new = blk\<lparr>as_vbase1 := as_vbase1 as, as_npages1 := as_npages1 as, as_vbase2 := as_vbase2 as,
      as_npages2 := as_npages2 as, ph1 := ph1 as, ph2 := ph2 as, as_v := as_v as,
      initial_offset1 := initial_offset1 as, initial_offset2 := initial_offset2 as\<rparr>"
  have c: "as_copy (Some blk) as (int j) (int i) s = Ok (0, Some new, t4)"
    using T(1-4) assms(2) by (simp add: as_copy_def as_create_def new_def)
  have r: "vn_refcount (k_vnodes t4 (as_v as)) = vn_refcount (k_vnodes s (as_v as)) + 1" using T(8) by simp
  have seg: "swap_seg_of new = swap_seg_of as"
    by (rule ext) (simp add: swap_seg_of_def in_text_def in_data_def above_data_def new_def)
  show ?thesis
    by (rule exI [of _ new], rule exI [of _ t4], intro conjI; (fact c T(5) T(6) T(7) r seg | simp add: new_def))
qed

lemma ex_free_fork: "fork_ready ex_elf_as 2 1 ex_free_vm"
proof -
  have F: "k_as ex_free_vm = Some ex_elf_as" "swap_inv (k_swap ex_free_vm)" "k_swap ex_free_vm = ex_swap"
      "first_free_paddr (page_table ex_free_vm) = 0x100000"
    using ex_vm_ok by (simp_all add: ex_free_vm_def vm_ok_def ex_vm_def ex_elf_sys_def ex_sys_def)
  have nu: "\<not> user (ents ex_free_vm ! p)" "\<not> GetTlbBit (ctrl (ents ex_free_vm ! p))" if "p < 3" for p
    using that ex_free_facts(5) by (simp_all add: user_def)
  have ok: "vm_ok ex_elf_as ex_free_vm"
    using ex_free_facts(1,2) F(1,2) nu by (auto simp: vm_ok_def users_def ex_free_facts(4))
  have "kbuf_apart ex_free_vm" unfolding kbuf_apart_def
  proof (intro allI impI)
    fix p k :: nat assume pk: "p < npt ex_free_vm" "k < 4096"
    have "unat (PADDR_TO_KVADDR (frame_addr ex_free_vm (int p)) + of_nat k) = 0x80100000 + 4096 * p + k"
      using frame_addr_unat(2) [OF ex_free_facts(2) pk(1)] pk F(4) ex_free_facts(4) by (subst unat_plus_nat) simp_all
    then show "\<not> unat (PADDR_TO_KVADDR (frame_addr ex_free_vm (int p)) + of_nat k - sw_kbuf (k_swap ex_free_vm)) < 4096"
      using unat_sub_less_iff [of "0x80005000" 4096 "PADDR_TO_KVADDR (frame_addr ex_free_vm (int p)) + of_nat k"] F(3)
      by (simp add: ex_swap_def)
  qed
  moreover have "swap_list ex_swap g 2 = []" for g
    using swap_ok_list [OF ex_swap_ok, of 2 g] by (simp add: MAX_PROC_def ex_chains_def)
  moreover have L: "length (swap_list ex_swap Text 1) = 1" "swap_list ex_swap Data 1 = []" "swap_list ex_swap Stack 1 = []"
    using ex_sys_facts(10-12) by (simp_all add: ex_sys_def)
  moreover have "distinct (map fst (swap_list ex_swap g 1))" for g
    using L by (cases g; cases "swap_list ex_swap Text 1") simp_all
  moreover have "free_cells ex_swap = 1" using ex_sys_facts(3) by (simp add: ex_sys_def)
  ultimately show ?thesis
    using ok nu F(3) by (simp add: fork_ready_def MAX_PROC_def ex_free_facts(4) owned_user cong: conj_cong)
qed

theorem as_copy_contents_witness:
  "\<exists>new s'. as_copy (Some ex_as) ex_elf_as 1 2 ex_free_vm = Ok (0, Some new, s')
    \<and> vpage s' (0x400000, 2) = Some (map (disk_page ex_lhd 0) [0..<4096])"
proof -
  have "sw_look ex_free_vm (0x400000, 1) = sw_look ex_vm (0x400000, 1)" by (rule sw_look_cong) (simp_all add: ex_free_vm_def)
  moreover have "ht_lookup (htable ex_free_vm) (0x400000, 1) = None"
    using ex_free_facts(1,4,5) coupled_lookup_None [of "htable ex_free_vm" 3 "ents ex_free_vm" "(0x400000, 1)"]
    by (auto simp: pt_inv_def users_def user_def)
  ultimately have "vpage ex_free_vm (0x400000, 1) = Some (map (disk_page ex_lhd 0) [0..<4096])"
    using ex_vm_facts(5,7) by (simp add: vpage_def)
  moreover have "as_v ex_elf_as \<noteq> NULL" "page_ok ex_elf_as (0x400000, int 2)"
    using ex_vm_facts(2) by (simp_all add: ex_elf_as_def ex_as_def page_ok_def MAX_PROC_def)
  ultimately show ?thesis
    using as_copy_contents [OF ex_free_fork, of ex_as] by fastforce
qed

end
