(* ===== verification/Proc_Spec.thy ===== *)
theory Proc_Spec
  imports Proc Proc_Memory
begin

unbundle bit_operations_syntax

text \<open>
  What the process layer promises: process ids are unique and the table finds every process by its
  id; the search for a free id is circular and ends; exit gives back all memory of the process and
  keeps its status for the parent; waiting returns this status and frees the id.
\<close>

section \<open>The search for a free id\<close>

text \<open>The ids in the order of the search; the last one given is not among them.\<close>

definition pid_order :: "int \<Rightarrow> int list" where
  "pid_order li = [li + 1..int MAX_PROC] @ [1..li - 1]"

definition free_pid :: "ptr list \<Rightarrow> int \<Rightarrow> bool" where
  "free_pid tab i \<longleftrightarrow> tab ! nat i = NULL"

lemma pid_loop_low:
  assumes "1 \<le> i" "i \<le> li" "li \<le> int MAX_PROC"
  shows "pid_loop i li tab = Some (find (free_pid tab) [i..li - 1])"
  using assms
proof (induction "nat (li - i)" arbitrary: i)
  case 0
  then show ?case by (subst pid_loop.simps) simp
next
  case (Suc n)
  then have lt: "i < li" by simp
  then have "[i..li - 1] = i # [i + 1..li - 1]" by (intro upto_rec1) simp
  moreover have "pid_loop (i + 1) li tab = Some (find (free_pid tab) [i + 1..li - 1])"
    using Suc lt by simp
  ultimately show ?case using lt Suc.prems by (subst pid_loop.simps) (simp add: free_pid_def)
qed

lemma pid_loop_high:
  assumes "li < i" "i \<le> int MAX_PROC" "1 \<le> li"
  shows "pid_loop i li tab = Some (find (free_pid tab) ([i..int MAX_PROC] @ [1..li - 1]))"
  using assms
proof (induction "nat (int MAX_PROC - i)" arbitrary: i)
  case 0
  then have i: "i = int MAX_PROC" by simp
  then show ?case
    using pid_loop_low [of 1 li tab] 0 by (subst pid_loop.simps) (simp add: free_pid_def)
next
  case (Suc n)
  then have lt: "i < int MAX_PROC" by simp
  then have "[i..int MAX_PROC] = i # [i + 1..int MAX_PROC]" by (intro upto_rec1) simp
  moreover have "pid_loop (i + 1) li tab = Some (find (free_pid tab) ([i + 1..int MAX_PROC] @ [1..li - 1]))"
    using Suc lt by simp
  ultimately show ?case using lt Suc.prems by (subst pid_loop.simps) (simp add: free_pid_def)
qed

lemma pid_search:
  assumes "1 \<le> li" "li \<le> int MAX_PROC"
  shows "pid_loop (if li + 1 > int MAX_PROC then 1 else li + 1) li tab = Some (find (free_pid tab) (pid_order li))"
proof (cases "li = int MAX_PROC")
  case True
  then show ?thesis using pid_loop_low [of 1 li tab] by (simp add: pid_order_def MAX_PROC_def)
next
  case False
  then show ?thesis using assms pid_loop_high [of li "li + 1" tab] by (simp add: pid_order_def)
qed

lemma pid_order_set: "1 \<le> li \<Longrightarrow> li \<le> int MAX_PROC \<Longrightarrow> set (pid_order li) = {1..int MAX_PROC} - {li}"
  by (auto simp: pid_order_def)

section \<open>The table\<close>

lemma upd_proc_fields [simp]:
  "ptable (upd_proc p f P) = ptable P" "last_i (upd_proc p f P) = last_i P" "active (upd_proc p f P) = active P"
  "kproc (upd_proc p f P) = kproc P" "curthread (upd_proc p f P) = curthread P" "t_proc (upd_proc p f P) = t_proc P"
  "t_curspl (upd_proc p f P) = t_curspl P" "t_iplhigh_count (upd_proc p f P) = t_iplhigh_count P"
  "zombies (upd_proc p f P) = zombies P" "sem_fork (upd_proc p f P) = sem_fork P" "sy (upd_proc p f P) = sy P"
  "pvm (upd_proc p f P) = pvm P" "procs (upd_proc p f P) q = (if q = p then f (procs P p) else procs P q)"
  by (simp_all add: upd_proc_def)

definition ptab_ok :: "pstate \<Rightarrow> bool" where
  "ptab_ok P \<longleftrightarrow> length (ptable P) = MAX_PROC + 1 \<and> 1 \<le> last_i P \<and> last_i P \<le> int MAX_PROC \<and>
     (\<forall>i. 1 \<le> i \<and> i \<le> MAX_PROC \<and> ptable P ! i \<noteq> NULL \<longrightarrow> p_pid (procs P (ptable P ! i)) = int i)"

definition in_table :: "pstate \<Rightarrow> ptr \<Rightarrow> bool" where
  "in_table P p \<longleftrightarrow> p \<noteq> NULL \<and> (\<exists>i. 1 \<le> i \<and> i \<le> MAX_PROC \<and> ptable P ! i = p)"

lemma in_table_pid:
  assumes "ptab_ok P" "in_table P p"
  shows "0 < p_pid (procs P p)" "p_pid (procs P p) \<le> int MAX_PROC" "ptable P ! nat (p_pid (procs P p)) = p"
  using assms by (auto simp: ptab_ok_def in_table_def)

lemma search_found:
  assumes "ptab_ok P" "in_table P p"
  shows "proc_search_pid (p_pid (procs P p)) P = Ok p"
  using in_table_pid [OF assms] assms(2) by (simp add: proc_search_pid_def in_table_def)

lemma find_Some_iff_set: "find f xs = Some x \<Longrightarrow> x \<in> set xs \<and> f x"
  by (auto simp: find_Some_iff)

lemma proc_create_some:
  assumes ok: "ptab_ok P" and a: "pa_proc a \<noteq> NULL" "pa_name a \<noteq> NULL" "\<not> in_table P (pa_proc a)"
    and f: "find (free_pid (ptable P)) (pid_order (last_i P)) = Some i"
  shows "\<exists>P'. proc_create a nm P = Ok (pa_proc a, P') \<and> ptab_ok P' \<and> 1 \<le> i \<and> i \<le> int MAX_PROC
    \<and> ptable P ! nat i = NULL \<and> ptable P' = (ptable P)[nat i := pa_proc a] \<and> last_i P' = i
    \<and> p_pid (procs P' (pa_proc a)) = i \<and> p_numthreads (procs P' (pa_proc a)) = 0 \<and> ended (procs P' (pa_proc a)) = 0
    \<and> p_addrspace (procs P' (pa_proc a)) = None \<and> p_cwd (procs P' (pa_proc a)) = NULL
    \<and> (\<forall>q. q \<noteq> pa_proc a \<longrightarrow> procs P' q = procs P q) \<and> pvm P' = pvm P
    \<and> kproc P' = kproc P \<and> curthread P' = curthread P \<and> t_proc P' = t_proc P"
proof -
  have L: "1 \<le> last_i P" "last_i P \<le> int MAX_PROC" "length (ptable P) = MAX_PROC + 1"
    "\<And>j. 1 \<le> j \<Longrightarrow> j \<le> MAX_PROC \<Longrightarrow> ptable P ! j \<noteq> NULL \<Longrightarrow> p_pid (procs P (ptable P ! j)) = int j"
    using ok by (auto simp: ptab_ok_def)
  have i: "1 \<le> i" "i \<le> int MAX_PROC" "ptable P ! nat i = NULL"
    using find_Some_iff_set [OF f] pid_order_set [OF L(1,2)] by (auto simp: free_pid_def)
  let ?p = "pa_proc a"
  let ?X = "upd_proc ?p (\<lambda>x. x\<lparr>p_name := nm, p_numthreads := 0, p_addrspace := None, p_cwd := NULL\<rparr>) P"
  have loop: "pid_loop (if last_i P + 1 > int MAX_PROC then 1 else last_i P + 1) (last_i P) (ptable P) = Some (Some i)"
    using pid_search [OF L(1,2)] f by simp
  obtain c1 c2 c3 where c: "pa_cv a = (c1, c2, c3)" by (cases "pa_cv a")
  obtain l1 l2 l3 where l: "pa_lock a = (l1, l2, l3)" by (cases "pa_lock a")
  obtain cv s1 where s1: "cv_create c1 c2 c3 (sy P) = (cv, s1)" by (cases "cv_create c1 c2 c3 (sy P)")
  obtain lk s2 where s2: "lock_create l1 l2 l3 s1 = (lk, s2)" by (cases "lock_create l1 l2 l3 s1")
  let ?P' = "upd_proc ?p (\<lambda>x. x\<lparr>ended := 0\<rparr>) (upd_proc ?p (\<lambda>x. x\<lparr>p_pid := i, p_status := 0, p_cv := cv, p_lock_cv := lk\<rparr>)
      (?X\<lparr>ptable := (ptable P)[nat i := ?p], last_i := i, sy := s2\<rparr>))"
  have eq: "proc_create a nm P = Ok (?p, ?P')"
    using a(1,2) loop c l s1 s2 by (simp add: proc_create_def proc_init_waitpid_def Let_def cong: if_cong split del: if_split)
  have tab: "ptable ?P' = (ptable P)[nat i := ?p]" "\<And>q. procs ?P' q = (if q = ?p
      then (procs P ?p)\<lparr>p_name := nm, p_numthreads := 0, p_addrspace := None, p_cwd := NULL, p_pid := i, p_status := 0,
        p_cv := cv, p_lock_cv := lk, ended := 0\<rparr> else procs P q)" by (simp_all add: upd_proc_def)
  have "p_pid (procs ?P' (ptable ?P' ! j)) = int j" if j: "1 \<le> j" "j \<le> MAX_PROC" "ptable ?P' ! j \<noteq> NULL" for j
  proof (cases "j = nat i")
    case True
    then show ?thesis using i L(3) by (simp add: tab)
  next
    case False
    then have e: "ptable ?P' ! j = ptable P ! j" by (simp add: tab(1))
    then have "ptable P ! j \<noteq> ?p" using a(3) j by (auto simp: in_table_def)
    then show ?thesis using L(4) [OF j(1,2)] j(3) e by (simp add: tab(2))
  qed
  then have "ptab_ok ?P'" using L(3) i unfolding ptab_ok_def by (simp add: upd_proc_def)
  moreover have "last_i ?P' = i" "pvm ?P' = pvm P" "kproc ?P' = kproc P" "curthread ?P' = curthread P" "t_proc ?P' = t_proc P"
    by (simp_all add: upd_proc_def)
  ultimately show ?thesis using eq i tab by (intro exI [of _ ?P']) auto
qed

lemma proc_create_full:
  assumes ok: "ptab_ok P" and a: "pa_proc a \<noteq> NULL" "pa_name a \<noteq> NULL"
    and f: "find (free_pid (ptable P)) (pid_order (last_i P)) = None"
  shows "proc_create a nm P = Fail (Panic ''too many processes. proc table is full'')"
proof -
  have L: "1 \<le> last_i P" "last_i P \<le> int MAX_PROC" using ok by (auto simp: ptab_ok_def)
  have "pid_loop (if last_i P + 1 > int MAX_PROC then 1 else last_i P + 1) (last_i P) (ptable P) = Some None"
    using pid_search [OF L] f by simp
  then show ?thesis using a by (simp add: proc_create_def proc_init_waitpid_def Let_def cong: if_cong split del: if_split)
qed

section \<open>Process ids\<close>

text \<open>
  (C10) Creation of a process: the search for an id ends; the new process gets the first free id
  after the last one given, in circular order, the table stays consistent, finds the new process
  under its id and every other process as before, and no other process structure changes. If no id but
  possibly the last one given is free, the kernel panics.
\<close>

theorem proc_create_gives_pid:
  assumes "ptab_ok P" "pa_proc a \<noteq> NULL" "pa_name a \<noteq> NULL" "\<not> in_table P (pa_proc a)"
  shows "case find (free_pid (ptable P)) (pid_order (last_i P)) of
      None \<Rightarrow> proc_create a nm P = Fail (Panic ''too many processes. proc table is full'')
    | Some i \<Rightarrow> \<exists>P'. proc_create a nm P = Ok (pa_proc a, P') \<and> ptab_ok P' \<and> 1 \<le> i \<and> i \<le> int MAX_PROC \<and> i \<noteq> last_i P
        \<and> proc_search_pid i P' = Ok (pa_proc a) \<and> (\<forall>q. in_table P' q \<longleftrightarrow> in_table P q \<or> q = pa_proc a)
        \<and> (\<forall>q. in_table P q \<longrightarrow> procs P' q = procs P q \<and> p_pid (procs P q) \<noteq> i)"
proof (cases "find (free_pid (ptable P)) (pid_order (last_i P))")
  case None
  then show ?thesis using proc_create_full [OF assms(1-3)] by simp
next
  case (Some i)
  obtain P' where P': "proc_create a nm P = Ok (pa_proc a, P')" "ptab_ok P'" "1 \<le> i" "i \<le> int MAX_PROC"
      "ptable P ! nat i = NULL" "ptable P' = (ptable P)[nat i := pa_proc a]" "p_pid (procs P' (pa_proc a)) = i"
      "\<forall>q. q \<noteq> pa_proc a \<longrightarrow> procs P' q = procs P q"
    using proc_create_some [OF assms Some] by blast
  have len: "length (ptable P) = MAX_PROC + 1" "1 \<le> last_i P" "last_i P \<le> int MAX_PROC" using assms(1) by (auto simp: ptab_ok_def)
  have ni: "i \<noteq> last_i P" using find_Some_iff_set [OF Some] pid_order_set [OF len(2,3)] by auto
  have it: "in_table P' q \<longleftrightarrow> in_table P q \<or> q = pa_proc a" for q
  proof
    assume "in_table P' q"
    then obtain j where "1 \<le> j" "j \<le> MAX_PROC" "ptable P' ! j = q" "q \<noteq> NULL" by (auto simp: in_table_def)
    then show "in_table P q \<or> q = pa_proc a" using P'(6) len(1) by (cases "j = nat i") (auto simp: in_table_def)
  next
    assume "in_table P q \<or> q = pa_proc a"
    then show "in_table P' q"
    proof
      assume "in_table P q"
      then obtain j where "1 \<le> j" "j \<le> MAX_PROC" "ptable P ! j = q" "q \<noteq> NULL" by (auto simp: in_table_def)
      moreover from this have "j \<noteq> nat i" using P'(5) by auto
      ultimately show ?thesis using P'(6) by (auto simp: in_table_def intro!: exI [of _ j])
    next
      assume "q = pa_proc a"
      then show ?thesis using P'(3,4,6) len assms(2) by (auto simp: in_table_def intro!: exI [of _ "nat i"])
    qed
  qed
  have "procs P' q = procs P q \<and> p_pid (procs P q) \<noteq> i" if q: "in_table P q" for q
    using in_table_pid(3) [OF assms(1) q] P'(5,8) assms(4) q by (auto simp: in_table_def)
  then show ?thesis
    using Some P'(1,2,3,4,7) ni it search_found [OF P'(2), of "pa_proc a"] by auto
qed

section \<open>Exit\<close>

lemma splhigh_low: "t_curspl P = 0 \<Longrightarrow> splhigh P = Ok (0, P\<lparr>t_iplhigh_count := t_iplhigh_count P + 1, t_curspl := 1\<rparr>)"
  by (simp add: splhigh_def splx_def splraise_def IPL_HIGH_def IPL_NONE_def)

lemma splx_high: "t_curspl P = 1 \<Longrightarrow> splx 0 P = Ok (1, P\<lparr>t_curspl := 0, t_iplhigh_count := t_iplhigh_count P - 1\<rparr>)"
  by (simp add: splx_def spllower_def IPL_HIGH_def IPL_NONE_def)

text \<open>The three primitives, called by a thread that need not wait.\<close>

lemma lock_acquire_free:
  assumes "l \<noteq> NULL" "locks s l = Some k" "lk_owner k = NULL" "t \<noteq> NULL" "\<not> t_in_interrupt s t"
  shows "lock_acquire t l s = Ok (s\<lparr>locks := (locks s)(l \<mapsto> k\<lparr>lk_owner := t\<rparr>), pcs := (pcs s)(t := Run)\<rparr>)"
  using assms by (simp add: lock_acquire_def lock_enter_def lock_do_i_hold_def lock_iter_def unless_asleep_def)

lemma cv_signal_held:
  assumes "l \<noteq> NULL" "c \<noteq> NULL" "locks s l = Some k" "lk_owner k = t" "cvs s c = Some v"
  shows "cv_signal t c l s = Ok (s\<lparr>cvs := (cvs s)(c \<mapsto> \<lparr>cv_wchan = tl (cv_wchan v)\<rparr>),
    pcs := (case cv_wchan v of [] \<Rightarrow> pcs s | u # us \<Rightarrow> (pcs s)(u := wake_pc (pcs s u)))\<rparr>)"
  using assms by (simp add: cv_signal_def cv_checked_def lock_do_i_hold_def wchan_wakeone_def split: list.splits)

lemma lock_release_held:
  assumes "l \<noteq> NULL" "locks s l = Some k" "lk_owner k = t"
  shows "lock_release t l s = Ok (s\<lparr>locks := (locks s)(l \<mapsto> \<lparr>lk_owner = NULL, lk_wchan = tl (lk_wchan k)\<rparr>),
    pcs := (case lk_wchan k of [] \<Rightarrow> pcs s | u # us \<Rightarrow> (pcs s)(u := wake_pc (pcs s u)))\<rparr>)"
  using assms by (simp add: lock_release_def lock_do_i_hold_def wchan_wakeone_def split: list.splits)

text \<open>
  The running thread may end its process: interrupts are on, it is a thread of a process in the table
  whose lock is free, and no page of the process is in transfer or being copied. The id 100 has no
  place in the arrays of the swap file.
\<close>

definition can_exit :: "nat \<Rightarrow> pstate \<Rightarrow> bool" where
  "can_exit j P \<longleftrightarrow>
     (let p = procs P (curproc P); s = sy P; t = curthread P in
      t_curspl P = 0 \<and> curproc P \<noteq> NULL \<and> p_pid p = int j \<and> j < MAX_PROC \<and> 0 < p_numthreads p \<and> t \<noteq> NULL \<and>
      pcs s t = Run \<and> \<not> t_in_interrupt s t \<and> p_lock_cv p \<noteq> NULL \<and> p_cv p \<noteq> NULL \<and> cvs s (p_cv p) \<noteq> None \<and>
      (\<exists>w. locks s (p_lock_cv p) = Some \<lparr>lk_owner = NULL, lk_wchan = w\<rparr>) \<and>
      pt_inv (pvm P) \<and> swap_inv (k_swap (pvm P)) \<and>
      (\<forall>q < npt (pvm P). owned_by (int j) (ents (pvm P) ! q) \<longrightarrow>
         \<not> GetIOBit (ctrl (ents (pvm P) ! q)) \<and> \<not> GetSwapBit (ctrl (ents (pvm P) ! q))))"

lemma status_byte: "(st :: int) AND 0xff = st mod 256"
  using take_bit_eq_mask [of 8 st] by (simp add: take_bit_eq_mod mask_eq_exp_minus_1)

lemma exit_frames:
  assumes "pt_inv v" "swap_inv (k_swap v)" "j < MAX_PROC"
    and "\<And>q. q < npt v \<Longrightarrow> owned_by (int j) (ents v ! q) \<Longrightarrow> \<not> GetIOBit (ctrl (ents v ! q)) \<and> \<not> GetSwapBit (ctrl (ents v ! q))"
  shows "\<exists>v1 sw. free_pages (int j) v = Ok v1 \<and> freed (int j) (npt v) v v1
    \<and> remove_process_from_swap (int j) v1 = Ok (v1\<lparr>k_swap := sw\<rparr>) \<and> swap_inv sw
    \<and> (\<forall>g k. k < MAX_PROC \<longrightarrow> swap_list sw g k = (if k = j then [] else swap_list (k_swap v) g k))
    \<and> free_cells sw = free_cells (k_swap v) + length (swap_list (k_swap v) Text j)
        + length (swap_list (k_swap v) Data j) + length (swap_list (k_swap v) Stack j)"
proof -
  obtain v1 where 1: "free_pages (int j) v = Ok v1" "freed (int j) (npt v) v v1"
    using free_pages_spec [OF assms(1,4)] by blast
  have k: "k_swap v1 = k_swap v" using freed_lookup(5) [OF 1(2) assms(1)] .
  obtain sw where "remove_process_from_swap (int j) v1 = Ok (v1\<lparr>k_swap := sw\<rparr>)" "swap_inv sw"
    "\<forall>g k. k < MAX_PROC \<longrightarrow> swap_list sw g k = (if k = j then [] else swap_list (k_swap v) g k)"
    "free_cells sw = free_cells (k_swap v) + length (swap_list (k_swap v) Text j)
        + length (swap_list (k_swap v) Data j) + length (swap_list (k_swap v) Stack j)"
    using remove_process_spec [of v1 j] assms(2,3) k by auto
  then show ?thesis using 1 by blast
qed

definition wake_head :: "wchan \<Rightarrow> (tid \<Rightarrow> pc) \<Rightarrow> tid \<Rightarrow> pc" where
  "wake_head w r = (case w of [] \<Rightarrow> r | u # us \<Rightarrow> r(u := wake_pc (r u)))"

text \<open>The locks and queues after exit: the lock is free, the first waiter on the condition is awake.\<close>

definition exit_synch :: "tid \<Rightarrow> ptr \<Rightarrow> ptr \<Rightarrow> wchan \<Rightarrow> synch \<Rightarrow> synch" where
  "exit_synch t c l w s =
     s\<lparr>locks := (locks s)(l \<mapsto> \<lparr>lk_owner = NULL, lk_wchan = tl w\<rparr>),
       cvs := (cvs s)(c \<mapsto> \<lparr>cv_wchan = tl (cv_wchan (the (cvs s c)))\<rparr>),
       pcs := wake_head w (wake_head (cv_wchan (the (cvs s c))) ((pcs s)(t := Run)))\<rparr>"

lemma exit_locking:
  assumes "l \<noteq> NULL" "c \<noteq> NULL" "t \<noteq> NULL" "\<not> t_in_interrupt s t" "cvs s c = Some v"
    and "locks s l = Some \<lparr>lk_owner = NULL, lk_wchan = w\<rparr>"
  shows "kbind (lock_acquire t l s) (\<lambda>s. kbind (cv_signal t c l s) (\<lambda>s. lock_release t l s)) = Ok (exit_synch t c l w s)"
  using assms by (simp add: lock_acquire_free cv_signal_held lock_release_held exit_synch_def wake_head_def
      fun_upd_twist cong: list.case_cong)

lemma exit_eval:
  assumes ce: "can_exit j P"
  defines "p \<equiv> curproc P" and "t \<equiv> curthread P"
  shows "\<exists>v1 sw w P'. sys__exit st P = Ok P' \<and> free_pages (int j) (pvm P) = Ok v1 \<and> freed (int j) (npt (pvm P)) (pvm P) v1
    \<and> swap_inv sw \<and> (\<forall>g k. k < MAX_PROC \<longrightarrow> swap_list sw g k = (if k = j then [] else swap_list (k_swap (pvm P)) g k))
    \<and> free_cells sw = free_cells (k_swap (pvm P)) + length (swap_list (k_swap (pvm P)) Text j)
        + length (swap_list (k_swap (pvm P)) Data j) + length (swap_list (k_swap (pvm P)) Stack j)
    \<and> locks (sy P) (p_lock_cv (procs P p)) = Some \<lparr>lk_owner = NULL, lk_wchan = w\<rparr>
    \<and> P' = P\<lparr>procs := (procs P)(p := (procs P p)\<lparr>p_status := st mod 256, p_numthreads := p_numthreads (procs P p) - 1, ended := 1\<rparr>),
             t_proc := (t_proc P)(t := NULL), t_curspl := 1, t_iplhigh_count := t_iplhigh_count P + 1,
             zombies := zombies P @ [t], sy := exit_synch t (p_cv (procs P p)) (p_lock_cv (procs P p)) w (sy P),
             pvm := v1\<lparr>k_swap := sw, k_as := None\<rparr>\<rparr>"
proof -
  have C: "t_curspl P = 0" "p \<noteq> NULL" "p_pid (procs P p) = int j" "j < MAX_PROC" "0 < p_numthreads (procs P p)" "t \<noteq> NULL"
      "\<not> t_in_interrupt (sy P) t" "p_lock_cv (procs P p) \<noteq> NULL" "p_cv (procs P p) \<noteq> NULL"
      "cvs (sy P) (p_cv (procs P p)) \<noteq> None" "pt_inv (pvm P)" "swap_inv (k_swap (pvm P))"
      "\<And>q. q < npt (pvm P) \<Longrightarrow> owned_by (int j) (ents (pvm P) ! q) \<Longrightarrow>
         \<not> GetIOBit (ctrl (ents (pvm P) ! q)) \<and> \<not> GetSwapBit (ctrl (ents (pvm P) ! q))"
    using ce by (auto simp: can_exit_def Let_def p_def t_def)
  obtain w where w: "locks (sy P) (p_lock_cv (procs P p)) = Some \<lparr>lk_owner = NULL, lk_wchan = w\<rparr>"
    using ce by (auto simp: can_exit_def Let_def p_def)
  obtain v1 sw where V: "free_pages (int j) (pvm P) = Ok v1" "freed (int j) (npt (pvm P)) (pvm P) v1"
      "remove_process_from_swap (int j) v1 = Ok (v1\<lparr>k_swap := sw\<rparr>)" "swap_inv sw"
      "\<forall>g k. k < MAX_PROC \<longrightarrow> swap_list sw g k = (if k = j then [] else swap_list (k_swap (pvm P)) g k)"
      "free_cells sw = free_cells (k_swap (pvm P)) + length (swap_list (k_swap (pvm P)) Text j)
        + length (swap_list (k_swap (pvm P)) Data j) + length (swap_list (k_swap (pvm P)) Stack j)"
    using exit_frames [OF C(11,12,4,13)] by blast
  define c l where "c = p_cv (procs P p)" and "l = p_lock_cv (procs P p)"
  obtain cv where cv: "cvs (sy P) c = Some cv" using C(10) by (auto simp: c_def)
  have ne: "l \<noteq> NULL" "c \<noteq> NULL" using C(8,9) by (simp_all add: c_def l_def)
  note A = lock_acquire_free [OF ne(1) w [folded l_def], of t]
  let ?s1 = "(sy P)\<lparr>locks := (locks (sy P))(l \<mapsto> \<lparr>lk_owner = t, lk_wchan = w\<rparr>), pcs := (pcs (sy P))(t := Run)\<rparr>"
  have a: "lock_acquire t l (sy P) = Ok ?s1" using A C(6,7) by simp
  obtain s2 where b: "cv_signal t c l ?s1 = Ok s2" using cv_signal_held [OF ne, of ?s1] cv by auto
  have d: "lock_release t l s2 = Ok (exit_synch t c l w (sy P))"
    using exit_locking [OF ne C(6,7) cv w [folded l_def]] a b by simp
  let ?P' = "P\<lparr>procs := (procs P)(p := (procs P p)\<lparr>p_status := st mod 256, p_numthreads := p_numthreads (procs P p) - 1, ended := 1\<rparr>),
             t_proc := (t_proc P)(t := NULL), t_curspl := 1, t_iplhigh_count := t_iplhigh_count P + 1,
             zombies := zombies P @ [t], sy := exit_synch t c l w (sy P), pvm := v1\<lparr>k_swap := sw, k_as := None\<rparr>\<rparr>"
  have pt: "t_proc P t = p" "curthread P = t" by (simp_all add: p_def t_def)
  have "sys__exit st P = Ok ?P'"
    using C(1-3,5) V(1,3) a b d
    by (simp add: sys__exit_def splhigh_low splx_high proc_remthread_def cur_view_def upd_proc_def status_byte
        thread_exit_def pt c_def [symmetric] l_def [symmetric] Let_def)
  then show ?thesis using V(1,2,4,5,6) w unfolding c_def l_def by blast
qed

section \<open>Destruction\<close>

definition can_destroy :: "ptr \<Rightarrow> pstate \<Rightarrow> bool" where
  "can_destroy p P \<longleftrightarrow>
     (let x = procs P p in
      ptab_ok P \<and> in_table P p \<and> p \<noteq> kproc P \<and> p \<noteq> curproc P \<and> p_numthreads x = 0 \<and>
      (p_cwd x = NULL \<or> 0 < vn_refcount (k_vnodes (pvm P) (p_cwd x))) \<and>
      (\<forall>as. p_addrspace x = Some as \<longrightarrow> as_v as \<noteq> NULL) \<and>
      p_cv x \<noteq> NULL \<and> cvs (sy P) (p_cv x) = Some \<lparr>cv_wchan = []\<rparr> \<and>
      p_lock_cv x \<noteq> NULL \<and> locks (sy P) (p_lock_cv x) = Some \<lparr>lk_owner = NULL, lk_wchan = []\<rparr>)"

lemma as_destroy_Ok: "as_v as \<noteq> NULL \<Longrightarrow> \<exists>vs'. as_destroy as vs = Ok vs'"
  by (simp add: as_destroy_def vfs_close_def vnode_decref_def Let_def)

lemma proc_drop_as_Ok:
  assumes "p \<noteq> curproc P" "\<forall>as. p_addrspace (procs P p) = Some as \<longrightarrow> as_v as \<noteq> NULL"
  shows "\<exists>vs. proc_drop_as p P = Ok (upd_proc p (\<lambda>x. x\<lparr>p_addrspace := None\<rparr>) (P\<lparr>pvm := (pvm P)\<lparr>k_vnodes := vs\<rparr>\<rparr>))"
proof (cases "p_addrspace (procs P p)")
  case None
  then have "upd_proc p (\<lambda>x. x\<lparr>p_addrspace := None\<rparr>) (P\<lparr>pvm := (pvm P)\<lparr>k_vnodes := k_vnodes (pvm P)\<rparr>\<rparr>) = P"
    by (simp add: upd_proc_def fun_upd_idem)
  then show ?thesis using None by (intro exI [of _ "k_vnodes (pvm P)"]) (simp add: proc_drop_as_def)
next
  case (Some as)
  obtain vs where "as_destroy as (k_vnodes (pvm P)) = Ok vs" using as_destroy_Ok assms(2) Some by blast
  then show ?thesis using Some assms(1) by (intro exI [of _ vs]) (simp add: proc_drop_as_def upd_proc_def)
qed

lemma proc_destroy_Ok:
  assumes "can_destroy p P"
  shows "\<exists>vs. proc_destroy p P = Ok (P\<lparr>procs := (procs P)(p := (procs P p)\<lparr>p_cwd := NULL, p_addrspace := None\<rparr>),
      ptable := (ptable P)[nat (p_pid (procs P p)) := NULL],
      sy := (sy P)\<lparr>cvs := (cvs (sy P))(p_cv (procs P p) := None), locks := (locks (sy P))(p_lock_cv (procs P p) := None)\<rparr>,
      pvm := (pvm P)\<lparr>k_vnodes := vs\<rparr>\<rparr>)"
proof -
  let ?x = "procs P p"
  have C: "ptab_ok P" "in_table P p" "p \<noteq> kproc P" "p \<noteq> curproc P" "p_numthreads ?x = 0"
      "p_cwd ?x = NULL \<or> 0 < vn_refcount (k_vnodes (pvm P) (p_cwd ?x))" "\<forall>as. p_addrspace ?x = Some as \<longrightarrow> as_v as \<noteq> NULL"
      "p_cv ?x \<noteq> NULL" "cvs (sy P) (p_cv ?x) = Some \<lparr>cv_wchan = []\<rparr>"
      "p_lock_cv ?x \<noteq> NULL" "locks (sy P) (p_lock_cv ?x) = Some \<lparr>lk_owner = NULL, lk_wchan = []\<rparr>"
    using assms by (simp_all add: can_destroy_def Let_def)
  note I = in_table_pid [OF C(1,2)]
  have nn: "p \<noteq> NULL" using C(2) by (simp add: in_table_def)
  let ?Q = "\<lambda>vs. upd_proc p (\<lambda>x. x\<lparr>p_cwd := NULL\<rparr>) (P\<lparr>pvm := (pvm P)\<lparr>k_vnodes := vs\<rparr>\<rparr>)"
  have "\<exists>vs. (if p_cwd ?x = NULL then Ok P else kbind (vnode_decref (p_cwd ?x) (k_vnodes (pvm P))) (\<lambda>vs. Ok (?Q vs))) = Ok (?Q vs)"
  proof (cases "p_cwd ?x = NULL")
    case True
    then have "?Q (k_vnodes (pvm P)) = P" by (simp add: upd_proc_def fun_upd_idem)
    then show ?thesis using True by (intro exI [of _ "k_vnodes (pvm P)"]) simp
  next
    case False
    then show ?thesis using C(6) by (auto simp: vnode_decref_def)
  qed
  then obtain vs where vs: "(if p_cwd ?x = NULL then Ok P else kbind (vnode_decref (p_cwd ?x) (k_vnodes (pvm P))) (\<lambda>vs. Ok (?Q vs))) = Ok (?Q vs)"
    by blast
  obtain vs' where d: "proc_drop_as p (?Q vs) = Ok (upd_proc p (\<lambda>x. x\<lparr>p_addrspace := None\<rparr>) ((?Q vs)\<lparr>pvm := (pvm (?Q vs))\<lparr>k_vnodes := vs'\<rparr>\<rparr>))"
    using proc_drop_as_Ok [of p "?Q vs"] C(4,7) by auto
  let ?R = "upd_proc p (\<lambda>x. x\<lparr>p_addrspace := None\<rparr>) ((?Q vs)\<lparr>pvm := (pvm (?Q vs))\<lparr>k_vnodes := vs'\<rparr>\<rparr>)"
  have r: "procs ?R p = ?x\<lparr>p_cwd := NULL, p_addrspace := None\<rparr>" "sy ?R = sy P" "ptable ?R = ptable P" by (simp_all add: upd_proc_def)
  have "proc_end_waitpid p ?R = Ok (?R\<lparr>ptable := (ptable P)[nat (p_pid ?x) := NULL],
      sy := (sy P)\<lparr>cvs := (cvs (sy P))(p_cv ?x := None), locks := (locks (sy P))(p_lock_cv ?x := None)\<rparr>\<rparr>)"
    using I(1,2) C(8-11) unfolding proc_end_waitpid_def Let_def r
    by (simp add: cv_destroy_def lock_destroy_def wchan_isempty_def)
  then have "proc_destroy p P = Ok (?R\<lparr>ptable := (ptable P)[nat (p_pid ?x) := NULL],
      sy := (sy P)\<lparr>cvs := (cvs (sy P))(p_cv ?x := None), locks := (locks (sy P))(p_lock_cv ?x := None)\<rparr>\<rparr>)"
    using nn C(3,5) vs d r(1) unfolding proc_destroy_def by (simp del: kbind_eq_Ok)
  then show ?thesis by (intro exI [of _ vs']) (simp add: upd_proc_def)
qed

lemma ptab_remove:
  assumes "ptab_ok P" "in_table P p" "procs P' = (procs P)(p := x)" "p_pid x = p_pid (procs P p)"
    and "ptable P' = (ptable P)[nat (p_pid (procs P p)) := NULL]" "last_i P' = last_i P"
  shows "ptab_ok P'" "in_table P' q \<longleftrightarrow> in_table P q \<and> q \<noteq> p"
proof -
  let ?i = "nat (p_pid (procs P p))"
  note I = in_table_pid [OF assms(1,2)]
  have L: "length (ptable P) = MAX_PROC + 1" using assms(1) by (simp add: ptab_ok_def)
  have T: "ptable P' ! j = (if j = ?i then NULL else ptable P ! j)" for j using assms(5) I(1,2) L by (auto simp: nth_list_update)
  have U: "j = ?i" if "1 \<le> j" "j \<le> MAX_PROC" "ptable P ! j = p" for j
    using that assms(1,2) by (auto simp: ptab_ok_def in_table_def)
  show "in_table P' q \<longleftrightarrow> in_table P q \<and> q \<noteq> p"
    using T U I(3) unfolding in_table_def by metis
  show "ptab_ok P'" using assms(1,3,4,5,6) T unfolding ptab_ok_def by auto
qed

section \<open>Properties of exit and wait\<close>

text \<open>
  (C4) Exit gives the memory back: after \<open>sys__exit\<close> every frame the process had is free, the hash
  index and the swap file hold none of its pages, the swap cells it used are free, and frames, index
  entries, memory and swapped pages of every other process are what they were; the invariants
  hold. The thread is a zombie without process; if a thread was waiting, it is awake.
\<close>

theorem exit_gives_memory_back:
  assumes "can_exit j P" "cvs (sy P) (p_cv (procs P (curproc P))) = Some \<lparr>cv_wchan = ws\<rparr>"
  shows "\<exists>P'. sys__exit st P = Ok P' \<and> pt_inv (pvm P') \<and> swap_inv (k_swap (pvm P'))
    \<and> (\<forall>q < npt (pvm P). if owned_by (int j) (ents (pvm P) ! q) then entry_free (ents (pvm P') ! q) else ents (pvm P') ! q = ents (pvm P) ! q)
    \<and> (\<forall>k. ht_lookup (htable (pvm P')) k = (if snd k = int j then None else ht_lookup (htable (pvm P)) k))
    \<and> (\<forall>g k. k < MAX_PROC \<longrightarrow> swap_list (k_swap (pvm P')) g k = (if k = j then [] else swap_list (k_swap (pvm P)) g k))
    \<and> free_cells (k_swap (pvm P')) = free_cells (k_swap (pvm P)) + (\<Sum>g\<leftarrow>[Text, Data, Stack]. length (swap_list (k_swap (pvm P)) g j))
    \<and> k_mem (pvm P') = k_mem (pvm P) \<and> frame_addr (pvm P') = frame_addr (pvm P)
    \<and> curproc P' = NULL \<and> curthread P \<in> set (zombies P')
    \<and> (\<forall>l. ws \<noteq> [] \<and> pcs (sy P) (hd ws) = SleepCv (p_cv (procs P (curproc P))) l \<longrightarrow> pcs (sy P') (hd ws) = InLock l)"
proof -
  define p t where "p = curproc P" and "t = curthread P"
  obtain v1 sw w P' where E: "sys__exit st P = Ok P'" "freed (int j) (npt (pvm P)) (pvm P) v1" "swap_inv sw"
      "\<forall>g k. k < MAX_PROC \<longrightarrow> swap_list sw g k = (if k = j then [] else swap_list (k_swap (pvm P)) g k)"
      "free_cells sw = free_cells (k_swap (pvm P)) + length (swap_list (k_swap (pvm P)) Text j)
        + length (swap_list (k_swap (pvm P)) Data j) + length (swap_list (k_swap (pvm P)) Stack j)"
      "P' = P\<lparr>procs := (procs P)(p := (procs P p)\<lparr>p_status := st mod 256, p_numthreads := p_numthreads (procs P p) - 1, ended := 1\<rparr>),
             t_proc := (t_proc P)(t := NULL), t_curspl := 1, t_iplhigh_count := t_iplhigh_count P + 1,
             zombies := zombies P @ [t], sy := exit_synch t (p_cv (procs P p)) (p_lock_cv (procs P p)) w (sy P),
             pvm := v1\<lparr>k_swap := sw, k_as := None\<rparr>\<rparr>"
    using exit_eval [OF assms(1), of st] unfolding p_def t_def by blast
  have inv: "pt_inv (pvm P)" using assms(1) by (simp add: can_exit_def Let_def)
  note F = freed_lookup [OF E(2) inv]
  have v': "pt_inv (v1\<lparr>k_swap := sw, k_as := None\<rparr>)" "frame_addr (v1\<lparr>k_swap := sw, k_as := None\<rparr>) = frame_addr v1"
    using F(9) by (simp_all add: pt_inv_def pt_shape_def npt_def frame_addr_def fun_eq_iff)
  have free: "entry_free \<lparr>page = 0, pe_pid = 0, ctrl = 0\<rparr>" by (simp add: entry_free_def KMALLOC_PAGE_def)
  have "pcs (sy P) t = Run" using assms(1) by (simp add: can_exit_def Let_def t_def)
  then have wake: "pcs (sy P') (hd ws) = InLock l" if "ws \<noteq> []" "pcs (sy P) (hd ws) = SleepCv (p_cv (procs P p)) l" for l
    using that assms(2) by (cases ws; cases w) (auto simp: E(6) exit_synch_def wake_head_def p_def)
  show ?thesis
    using E v' F(1-5) F(11) free wake unfolding p_def t_def by (intro exI [of _ P'] conjI) simp_all
qed

text \<open>
  (C9) Exit and wait: when a process has ended with \<open>sys__exit st\<close> and another thread later calls
  \<open>sys_waitpid\<close> for its id, the call returns the id and stores the low byte of \<open>st\<close>; the id is free
  again, the table is consistent and finds every other process as before, and interrupts are on.
\<close>

theorem wait_returns_exit_status:
  assumes ce: "can_exit j P" and tab: "ptab_ok P" "in_table P (curproc P)" "curproc P \<noteq> kproc P"
    and one: "p_numthreads (procs P (curproc P)) = 1" "cvs (sy P) (p_cv (procs P (curproc P))) = Some \<lparr>cv_wchan = []\<rparr>"
      "locks (sy P) (p_lock_cv (procs P (curproc P))) = Some \<lparr>lk_owner = NULL, lk_wchan = []\<rparr>"
    and files: "p_cwd (procs P (curproc P)) = NULL \<or> 0 < vn_refcount (k_vnodes (pvm P) (p_cwd (procs P (curproc P))))"
      "\<forall>as. p_addrspace (procs P (curproc P)) = Some as \<longrightarrow> as_v as \<noteq> NULL"
    and u: "u \<noteq> NULL" "u \<noteq> curthread P" "t_proc P u \<noteq> curproc P" "\<not> t_in_interrupt (sy P) u"
  shows "\<exists>P1 P3. sys__exit st P = Ok P1
    \<and> sys_waitpid (int j) sp (cur_view (P1\<lparr>curthread := u, t_curspl := 0, t_iplhigh_count := 0\<rparr>)) =
        Ok (int j, if sp \<noteq> NULL then Some (st mod 256) else None, P3)
    \<and> ptab_ok P3 \<and> free_pid (ptable P3) (int j) \<and> (\<forall>q. in_table P3 q \<longleftrightarrow> in_table P q \<and> q \<noteq> curproc P) \<and> t_curspl P3 = 0"
proof -
  define p t where "p = curproc P" and "t = curthread P"
  obtain v1 sw P1 where E: "sys__exit st P = Ok P1" "freed (int j) (npt (pvm P)) (pvm P) v1"
      "P1 = P\<lparr>procs := (procs P)(p := (procs P p)\<lparr>p_status := st mod 256, p_numthreads := p_numthreads (procs P p) - 1, ended := 1\<rparr>),
             t_proc := (t_proc P)(t := NULL), t_curspl := 1, t_iplhigh_count := t_iplhigh_count P + 1,
             zombies := zombies P @ [t], sy := exit_synch t (p_cv (procs P p)) (p_lock_cv (procs P p)) [] (sy P),
             pvm := v1\<lparr>k_swap := sw, k_as := None\<rparr>\<rparr>"
    using exit_eval [OF ce, of st] one(3) unfolding p_def t_def by auto
  have C: "p_pid (procs P p) = int j" "p_lock_cv (procs P p) \<noteq> NULL" "p_cv (procs P p) \<noteq> NULL" "pt_inv (pvm P)"
    using ce by (simp_all add: can_exit_def Let_def p_def)
  have vn: "k_vnodes v1 = k_vnodes (pvm P)" using freed_lookup(8) [OF E(2) C(4)] .
  define P2 where "P2 = cur_view (P1\<lparr>curthread := u, t_curspl := 0, t_iplhigh_count := 0\<rparr>)"
  define l c where "l = p_lock_cv (procs P p)" and "c = p_cv (procs P p)"
  have S: "procs P2 = procs P1" "ptable P2 = ptable P" "last_i P2 = last_i P" "kproc P2 = kproc P" "curproc P2 = t_proc P u"
      "curthread P2 = u" "sy P2 = sy P1" "t_curspl P2 = 0" "k_vnodes (pvm P2) = k_vnodes (pvm P)"
    using u(2) vn by (simp_all add: P2_def cur_view_def E(3) t_def)
  have x: "procs P1 p = (procs P p)\<lparr>p_status := st mod 256, p_numthreads := 0, ended := 1\<rparr>" using one(1) by (simp add: E(3) p_def)
  have locks1: "locks (sy P1) l = Some \<lparr>lk_owner = NULL, lk_wchan = []\<rparr>" "cvs (sy P1) c = Some \<lparr>cv_wchan = []\<rparr>"
      "t_in_interrupt (sy P1) u = t_in_interrupt (sy P) u"
    using one(2,3) by (simp_all add: E(3) exit_synch_def l_def c_def p_def)
  have tab2: "ptab_ok P2" "in_table P2 q = in_table P q" for q
    using tab(1) C(1) unfolding ptab_ok_def S in_table_def by (auto simp: E(3))
  define P2' where "P2' = P2\<lparr>t_iplhigh_count := t_iplhigh_count P2 + 1, t_curspl := 1\<rparr>"
  define s1 where "s1 = (sy P1)\<lparr>locks := (locks (sy P1))(l \<mapsto> \<lparr>lk_owner = u, lk_wchan = []\<rparr>), pcs := (pcs (sy P1))(u := Run)\<rparr>"
  define s2 where "s2 = s1\<lparr>locks := (locks (sy P1))(l \<mapsto> \<lparr>lk_owner = NULL, lk_wchan = []\<rparr>)\<rparr>"
  have acq: "lock_acquire u l (sy P1) = Ok s1"
    using lock_acquire_free [OF _ locks1(1) _ u(1)] C(2) locks1(3) u(4) by (simp add: l_def s1_def)
  have rel: "lock_release u l s1 = Ok s2" using lock_release_held [of l s1 _ u] C(2) by (simp add: s1_def s2_def l_def)
  have cd: "can_destroy p (P2'\<lparr>sy := s2\<rparr>)"
    using tab tab2 files u(3) C locks1 x S unfolding can_destroy_def Let_def
    by (simp add: P2'_def s2_def s1_def p_def [symmetric] l_def [symmetric] c_def [symmetric] ptab_ok_def in_table_def)
  obtain vs where D: "proc_destroy p (P2'\<lparr>sy := s2\<rparr>) = Ok (P2'\<lparr>procs := (procs P2')(p := (procs P2' p)\<lparr>p_cwd := NULL, p_addrspace := None\<rparr>),
      ptable := (ptable P2')[j := NULL], sy := s2\<lparr>cvs := (cvs s2)(c := None), locks := (locks s2)(l := None)\<rparr>,
      pvm := (pvm P2')\<lparr>k_vnodes := vs\<rparr>\<rparr>)"
    using proc_destroy_Ok [OF cd] x S(1) C(1) by (auto simp: P2'_def l_def c_def)
  let ?P3 = "P2'\<lparr>procs := (procs P2')(p := (procs P2' p)\<lparr>p_cwd := NULL, p_addrspace := None\<rparr>),
      ptable := (ptable P2')[j := NULL], sy := s2\<lparr>cvs := (cvs s2)(c := None), locks := (locks s2)(l := None)\<rparr>,
      pvm := (pvm P2')\<lparr>k_vnodes := vs\<rparr>, t_curspl := 0, t_iplhigh_count := t_iplhigh_count P2\<rparr>"
  have srch: "proc_search_pid (int j) P2' = Ok p"
  proof -
    have "in_table P2 p" "p_pid (procs P2 p) = int j" using tab2(2) tab(2) x S(1) C(1) by (simp_all add: p_def)
    then show ?thesis using in_table_pid [OF tab2(1), of p] by (simp add: proc_search_pid_def P2'_def in_table_def)
  qed
  have "proc_wait p P2' = Ok (st mod 256, P2'\<lparr>procs := (procs P2')(p := (procs P2' p)\<lparr>p_cwd := NULL, p_addrspace := None\<rparr>),
      ptable := (ptable P2')[j := NULL], sy := s2\<lparr>cvs := (cvs s2)(c := None), locks := (locks s2)(l := None)\<rparr>,
      pvm := (pvm P2')\<lparr>k_vnodes := vs\<rparr>\<rparr>)"
    using D tab(2,3) x S acq rel
    by (simp add: proc_wait_def P2'_def p_def [symmetric] l_def [symmetric] in_table_def)
  then have W: "sys_waitpid (int j) sp P2 = Ok (int j, if sp \<noteq> NULL then Some (st mod 256) else None, ?P3)"
    using splhigh_low [OF S(8)] srch by (simp add: sys_waitpid_def P2'_def [symmetric]) (simp add: P2'_def splx_high)
  have "procs ?P3 = (procs P2)(p := (procs P2' p)\<lparr>p_cwd := NULL, p_addrspace := None\<rparr>)"
      "ptable ?P3 = (ptable P2)[nat (p_pid (procs P2 p)) := NULL]" "last_i ?P3 = last_i P2"
    using x S(1) C(1) by (simp_all add: P2'_def)
  then have "ptab_ok ?P3" "\<forall>q. in_table ?P3 q \<longleftrightarrow> in_table P q \<and> q \<noteq> p"
    using ptab_remove [OF tab2(1), of p ?P3 "(procs P2' p)\<lparr>p_cwd := NULL, p_addrspace := None\<rparr>"] tab2(2) tab(2)
    by (auto simp: p_def P2'_def)
  moreover have "free_pid (ptable ?P3) (int j)"
    using in_table_pid(2) [OF tab(1,2)] tab(1) C(1) S(2) by (simp add: free_pid_def P2'_def ptab_ok_def p_def)
  ultimately show ?thesis using E(1) W
    by - (rule exI [where x = P1], rule exI [where x = ?P3], simp add: P2_def [symmetric] p_def [symmetric])
qed

text \<open>A process with id 1 whose pages are those of the paging example, its parent with id 2, and the kernel.\<close>

definition ex_child :: proc where
  "ex_child = \<lparr>p_name = ''child'', p_numthreads = 1, p_addrspace = Some ex_elf_as, p_cwd = NULL, p_pid = 1,
     p_status = 0, p_cv = 0x10, p_lock_cv = 0x20, ended = 0\<rparr>"

definition ex_pstate :: pstate where
  "ex_pstate = \<lparr>procs = (\<lambda>p. if p = 0x100 then ex_child else if p = 0x200 then ex_child\<lparr>p_pid := 2, p_cv := 0x30, p_lock_cv := 0x40\<rparr>
       else ex_child\<lparr>p_pid := 3, p_addrspace := None\<rparr>),
     ptable = (replicate 101 NULL)[1 := 0x100, 2 := 0x200, 3 := 0x300], last_i = 3, active = 1, kproc = 0x300, curthread = 1,
     t_proc = (\<lambda>t. if t = 1 then 0x100 else if t = 2 then 0x200 else NULL), t_arg = (\<lambda>t. NULL), frames_tf = undefined,
     t_curspl = 0, t_iplhigh_count = 0, zombies = [], sem_fork = NULL,
     sy = \<lparr>sems = Map.empty, locks = [0x20 \<mapsto> \<lparr>lk_owner = NULL, lk_wchan = []\<rparr>], cvs = [0x10 \<mapsto> \<lparr>cv_wchan = []\<rparr>],
       pcs = (\<lambda>t. Run), t_in_interrupt = (\<lambda>t. False)\<rparr>,
     pvm = ex_vm\<rparr>"

lemma ex_ptable: "i < 101 \<Longrightarrow> (replicate 101 NULL)[Suc 0 := 0x100, 2 := 0x200, 3 := 0x300 :: ptr] ! i =
    (if i = Suc 0 then 0x100 else if i = 2 then 0x200 else if i = 3 then 0x300 else NULL)"
  by (simp add: nth_list_update)

lemma ex_pstate_facts:
  "ptab_ok ex_pstate" "in_table ex_pstate 0x100" "can_exit 1 ex_pstate" "curproc ex_pstate = 0x100"
  "\<not> in_table ex_pstate 0x400" "find (free_pid (ptable ex_pstate)) (pid_order (last_i ex_pstate)) = Some 4"
proof -
  have T: "ptable ex_pstate = (replicate 101 NULL)[1 := 0x100, 2 := 0x200, 3 := 0x300]" "last_i ex_pstate = 3"
    by (simp_all add: ex_pstate_def)
  show "ptab_ok ex_pstate"
    unfolding ptab_ok_def T MAX_PROC_def by (auto simp: ex_ptable ex_pstate_def ex_child_def)
  show "in_table ex_pstate 0x100"
    unfolding in_table_def T MAX_PROC_def by (intro conjI exI [of _ 1]) (simp_all add: ex_ptable)
  show "\<not> in_table ex_pstate 0x400" unfolding in_table_def T MAX_PROC_def by (auto simp: ex_ptable)
  show "curproc ex_pstate = 0x100" by (simp add: ex_pstate_def)
  have "\<not> GetIOBit (ctrl (ex_entries ! q)) \<and> \<not> GetSwapBit (ctrl (ex_entries ! q))" if "q < 2" for q
    using that by (auto simp: less_2_cases_iff ex_entries_def get_bits)
  then show "can_exit 1 ex_pstate"
    using ex_vm_ok ex_vm_clock(2,3)
    by (simp add: can_exit_def vm_ok_def) (simp add: ex_pstate_def ex_child_def MAX_PROC_def ex_vm_clock)
  have "pid_order 3 = 4 # [5..100] @ [1..2]" by (simp add: pid_order_def MAX_PROC_def upto_rec1)
  then show "find (free_pid (ptable ex_pstate)) (pid_order (last_i ex_pstate)) = Some 4"
    using ex_ptable [of 4] by (simp add: T free_pid_def)
qed

theorem proc_create_gives_pid_witness:
  "\<exists>P'. proc_create \<lparr>pa_proc = 0x400, pa_name = 0x500, pa_cv = (1, 1, 1), pa_lock = (1, 1, 1)\<rparr> ''init'' ex_pstate = Ok (0x400, P')
    \<and> proc_search_pid 4 P' = Ok 0x400"
  using proc_create_gives_pid [of ex_pstate "\<lparr>pa_proc = 0x400, pa_name = 0x500, pa_cv = (1, 1, 1), pa_lock = (1, 1, 1)\<rparr>" "''init''"]
    ex_pstate_facts by auto

theorem exit_gives_memory_back_witness:
  "\<exists>P'. sys__exit 7 ex_pstate = Ok P' \<and> entry_free (ents (pvm P') ! 0) \<and> ht_lookup (htable (pvm P')) (0x401000, 1) = None"
proof -
  have "cvs (sy ex_pstate) (p_cv (procs ex_pstate (curproc ex_pstate))) = Some \<lparr>cv_wchan = []\<rparr>"
    by (simp add: ex_pstate_def ex_child_def)
  then obtain P' where "sys__exit 7 ex_pstate = Ok P'"
      "\<forall>q < npt (pvm ex_pstate). if owned_by (int 1) (ents (pvm ex_pstate) ! q) then entry_free (ents (pvm P') ! q)
         else ents (pvm P') ! q = ents (pvm ex_pstate) ! q"
      "\<forall>k. ht_lookup (htable (pvm P')) k = (if snd k = int 1 then None else ht_lookup (htable (pvm ex_pstate)) k)"
    using exit_gives_memory_back [OF ex_pstate_facts(3), of "[]" 7] by blast
  moreover have "pvm ex_pstate = ex_vm" "owned_by 1 (ex_entries ! 0)"
    by (simp_all add: ex_pstate_def owned_by_def ex_entries_def get_bits KMALLOC_PAGE_def)
  ultimately show ?thesis using ex_vm_clock(2,3) by (intro exI [of _ P']) simp
qed

theorem wait_returns_exit_status_witness:
  "\<exists>P1 P3. sys__exit 0x107 ex_pstate = Ok P1
    \<and> sys_waitpid 1 0x7fff0000 (cur_view (P1\<lparr>curthread := 2, t_curspl := 0, t_iplhigh_count := 0\<rparr>)) = Ok (1, Some 7, P3)
    \<and> free_pid (ptable P3) 1"
proof -
  have F: "curproc ex_pstate = 0x100" "procs ex_pstate 0x100 = ex_child" "kproc ex_pstate = 0x300"
      "cvs (sy ex_pstate) 0x10 = Some \<lparr>cv_wchan = []\<rparr>" "locks (sy ex_pstate) 0x20 = Some \<lparr>lk_owner = NULL, lk_wchan = []\<rparr>"
      "curthread ex_pstate = 1" "t_proc ex_pstate 2 = 0x200" "\<not> t_in_interrupt (sy ex_pstate) 2"
    by (simp_all add: ex_pstate_def)
  have A: "as_v ex_elf_as \<noteq> NULL" by (simp add: ex_elf_as_def ex_as_def)
  show ?thesis
    using wait_returns_exit_status [OF ex_pstate_facts(3,1), where u = 2 and st = "0x107" and sp = "0x7fff0000"]
      ex_pstate_facts(2) F A by (auto simp: ex_child_def)
qed

end
