(* ===== verification/Load_ELF.thy ===== *)
theory Load_ELF
  imports Proc_Spec
begin

unbundle bit_operations_syntax

text \<open>
  Program loading: the file formats (\<^verbatim>\<open>kern/include/elf.h\<close>), the loader
  (\<^verbatim>\<open>kern/syscall/loadelf.c\<close>), which only lays out the address space and keeps the
  program headers for the demand loader, and \<open>runprogram\<close>
  (\<^verbatim>\<open>kern/syscall/runprogram.c\<close>) up to the entry into user mode. A good executable is laid
  out as its headers say, a bad one is refused, and a page touched after loading holds the bytes
  of the file.
\<close>

section \<open>File formats\<close>

record elf_ehdr =
  e_ident :: "byte list"
  e_type :: "16 word"
  e_machine :: "16 word"
  e_version :: "32 word"
  e_entry :: "32 word"
  e_phoff :: "32 word"
  e_shoff :: "32 word"
  e_flags :: "32 word"
  e_ehsize :: "16 word"
  e_phentsize :: "16 word"
  e_phnum :: "16 word"
  e_shentsize :: "16 word"
  e_shnum :: "16 word"
  e_shstrndx :: "16 word"

text \<open>The processor is big-endian: the bytes of a field, the most significant first.\<close>

definition be16 :: "(nat \<Rightarrow> byte) \<Rightarrow> nat \<Rightarrow> 16 word" where
  "be16 f k = ucast (f k) * 256 + ucast (f (k + 1))"

definition be32 :: "(nat \<Rightarrow> byte) \<Rightarrow> nat \<Rightarrow> 32 word" where
  "be32 f k = ucast (be16 f k) * 65536 + ucast (be16 f (k + 2))"

text \<open>The structures in memory, from the bytes of their buffers.\<close>

definition decode_ehdr :: "(nat \<Rightarrow> byte) \<Rightarrow> elf_ehdr" where
  "decode_ehdr f =
     \<lparr>e_ident = map f [0..<16], e_type = be16 f 16, e_machine = be16 f 18, e_version = be32 f 20,
      e_entry = be32 f 24, e_phoff = be32 f 28, e_shoff = be32 f 32, e_flags = be32 f 36,
      e_ehsize = be16 f 40, e_phentsize = be16 f 42, e_phnum = be16 f 44, e_shentsize = be16 f 46,
      e_shnum = be16 f 48, e_shstrndx = be16 f 50\<rparr>"

definition decode_phdr :: "(nat \<Rightarrow> byte) \<Rightarrow> elf_phdr" where
  "decode_phdr f =
     \<lparr>p_type = be32 f 0, p_offset = be32 f 4, p_vaddr = be32 f 8, p_paddr = be32 f 12,
      p_filesz = be32 f 16, p_memsz = be32 f 20, p_flags = be32 f 24, p_align = be32 f 28\<rparr>"

definition sizeof_ehdr :: nat where "sizeof_ehdr = 52"
definition sizeof_phdr :: nat where "sizeof_phdr = 32"

definition ET_EXEC :: "16 word" where "ET_EXEC = 2"
definition EM_MIPS :: "16 word" where "EM_MIPS = 8"
definition EV_CURRENT :: nat where "EV_CURRENT = 1"
definition ELFCLASS32 :: byte where "ELFCLASS32 = 1"
definition ELFDATA2MSB :: byte where "ELFDATA2MSB = 2"
definition PT_NULL :: "32 word" where "PT_NULL = 0"
definition PT_LOAD :: "32 word" where "PT_LOAD = 1"
definition PT_PHDR :: "32 word" where "PT_PHDR = 6"
definition PT_MIPS_REGINFO :: "32 word" where "PT_MIPS_REGINFO = 0x70000000"

lemmas elf_codes = ET_EXEC_def EM_MIPS_def EV_CURRENT_def ELFCLASS32_def ELFDATA2MSB_def PT_NULL_def
  PT_LOAD_def PT_PHDR_def PT_MIPS_REGINFO_def

section \<open>The loader\<close>

text \<open>
  \<open>uio_kinit\<close>, \<open>VOP_READ\<close> and the test for a short read, in this order three times in
  \<open>load_elf\<close>; \<open>buf\<close> is the address of the local structure that is read.
\<close>

definition elf_read :: "ptr \<Rightarrow> vaddr \<Rightarrow> nat \<Rightarrow> int \<Rightarrow> pstate \<Rightarrow> (int \<times> pstate) kres" where
  "elf_read v buf n off P =
     (if v = NULL then Fail (Panic ''vnode_check: null vnode'')
      else kbind (vop_read (k_vnodes (pvm P) v) (uio_kinit buf n off UIO_READ) (k_mem (pvm P)))
        (\<lambda>(result, u, m).
           let P = P\<lparr>pvm := (pvm P)\<lparr>k_mem := m\<rparr>\<rparr>
           in if result \<noteq> 0 then Ok (result, P)
              else if uio_resid u \<noteq> 0 then Ok (ENOEXEC, P)
              else Ok (0, P)))"

text \<open>The conditions on the executable header.\<close>

definition ehdr_ok :: "elf_ehdr \<Rightarrow> bool" where
  "ehdr_ok eh \<longleftrightarrow>
     e_ident eh ! 0 = 0x7f \<and> e_ident eh ! 1 = 0x45 \<and> e_ident eh ! 2 = 0x4c \<and> e_ident eh ! 3 = 0x46 \<and>
     e_ident eh ! 4 = ELFCLASS32 \<and> e_ident eh ! 5 = ELFDATA2MSB \<and> e_ident eh ! 6 = of_nat EV_CURRENT \<and>
     e_version eh = of_nat EV_CURRENT \<and> e_type eh = ET_EXEC \<and> e_machine eh = EM_MIPS"

text \<open>Where a program header starts: the product and the sum are taken at 32 bits.\<close>

definition phdr_offset :: "elf_ehdr \<Rightarrow> nat \<Rightarrow> int" where
  "phdr_offset eh i = uint (e_phoff eh + of_nat (i * unat (e_phentsize eh)))"

text \<open>The address space of the current process, written through the pointer \<open>as\<close>.\<close>

definition upd_as :: "(addrspace \<Rightarrow> addrspace) \<Rightarrow> pstate \<Rightarrow> pstate" where
  "upd_as f P = cur_view (upd_proc (curproc P) (\<lambda>x. x\<lparr>p_addrspace := map_option f (p_addrspace x)\<rparr>) P)"

text \<open>A round of either loop: read header \<open>i\<close>, skip it or give a loadable one to \<open>act\<close>.\<close>

definition elf_header ::
  "ptr \<Rightarrow> vaddr \<Rightarrow> elf_ehdr \<Rightarrow> (elf_phdr \<Rightarrow> pstate \<Rightarrow> (int \<times> pstate) kres) \<Rightarrow> nat \<Rightarrow> pstate \<Rightarrow> (int \<times> pstate) kres" where
  "elf_header v buf eh act i P =
     kbind (elf_read v buf sizeof_phdr (phdr_offset eh i) P) (\<lambda>(result, P).
       if result \<noteq> 0 then Ok (result, P)
       else let ph = decode_phdr (mem_get buf (k_mem (pvm P)))
            in if p_type ph = PT_NULL \<or> p_type ph = PT_PHDR \<or> p_type ph = PT_MIPS_REGINFO then Ok (0, P)
               else if p_type ph = PT_LOAD then act ph P
               else Ok (ENOEXEC, P))"

fun elf_headers ::
  "(nat \<Rightarrow> pstate \<Rightarrow> (int \<times> pstate) kres) \<Rightarrow> nat list \<Rightarrow> pstate \<Rightarrow> (int \<times> pstate) kres" where
  "elf_headers f [] P = Ok (0, P)"
| "elf_headers f (i # is) P =
     kbind (f i P) (\<lambda>(result, P). if result \<noteq> 0 then Ok (result, P) else elf_headers f is P)"

definition define_segment :: "elf_phdr \<Rightarrow> pstate \<Rightarrow> (int \<times> pstate) kres" where
  "define_segment ph P =
     (case proc_getas P of
        None \<Rightarrow> Fail NullDeref
      | Some as \<Rightarrow>
          let (result, as') = as_define_region as (p_vaddr ph) (p_memsz ph)
          in Ok (result, upd_as (\<lambda>_. as') P))"

definition keep_header :: "nat \<Rightarrow> elf_phdr \<Rightarrow> pstate \<Rightarrow> (int \<times> pstate) kres" where
  "keep_header i ph P =
     (let P = (if i = 1 then upd_as (\<lambda>as. as\<lparr>ph1 := ph\<rparr>) P else P);
          P = (if i = 2 then upd_as (\<lambda>as. as\<lparr>ph2 := ph\<rparr>) P else P)
      in Ok (0, P))"

text \<open>
  \<open>load_elf\<close>, in the configuration with this paging system: the error code, the entry point and the
  state. \<open>ebuf\<close> and \<open>pbuf\<close> are the addresses of the local structures \<open>eh\<close> and \<open>ph\<close>.
\<close>

definition load_elf :: "vaddr \<Rightarrow> vaddr \<Rightarrow> ptr \<Rightarrow> pstate \<Rightarrow> (int \<times> vaddr \<times> pstate) kres" where
  "load_elf ebuf pbuf v P =
     (case proc_getas P of
        None \<Rightarrow> Fail NullDeref
      | Some as \<Rightarrow>
          let P = upd_as (\<lambda>as. as\<lparr>as_v := v\<rparr>) P
          in kbind (elf_read v ebuf sizeof_ehdr 0 P) (\<lambda>(result, P).
               if result \<noteq> 0 then Ok (result, 0, P)
               else
                 let P = upd_as (\<lambda>as. as\<lparr>as_v := v\<rparr>) P;
                     eh = decode_ehdr (mem_get ebuf (k_mem (pvm P)));
                     is = [0..<unat (e_phnum eh)]
                 in if \<not> ehdr_ok eh then Ok (ENOEXEC, 0, P)
                    else kbind (elf_headers (elf_header v pbuf eh define_segment) is P) (\<lambda>(result, P).
                      if result \<noteq> 0 then Ok (result, 0, P)
                      else kbind (elf_headers (\<lambda>i. elf_header v pbuf eh (keep_header i) i) is P) (\<lambda>(result, P).
                        if result \<noteq> 0 then Ok (result, 0, P)
                        else Ok (0, e_entry eh, P)))))"

section \<open>Running a program\<close>

definition CST_IEp :: "32 word" where "CST_IEp = 4"
definition CST_KUp :: "32 word" where "CST_KUp = 8"
definition CST_IRQMASK :: "32 word" where "CST_IRQMASK = 0xff00"

definition zero_tf :: trapframe where
  "zero_tf = \<lparr>tf_vaddr = 0, tf_status = 0, tf_cause = 0, tf_lo = 0, tf_hi = 0, tf_ra = 0, tf_at = 0, tf_v0 = 0,
     tf_v1 = 0, tf_a0 = 0, tf_a1 = 0, tf_a2 = 0, tf_a3 = 0, tf_t0 = 0, tf_t1 = 0, tf_t2 = 0, tf_t3 = 0,
     tf_t4 = 0, tf_t5 = 0, tf_t6 = 0, tf_t7 = 0, tf_s0 = 0, tf_s1 = 0, tf_s2 = 0, tf_s3 = 0, tf_s4 = 0,
     tf_s5 = 0, tf_s6 = 0, tf_s7 = 0, tf_t8 = 0, tf_t9 = 0, tf_gp = 0, tf_sp = 0, tf_s8 = 0, tf_epc = 0\<rparr>"

text \<open>The frame with which the processor enters user mode.\<close>

definition enter_new_process :: "32 word \<Rightarrow> vaddr \<Rightarrow> vaddr \<Rightarrow> vaddr \<Rightarrow> vaddr \<Rightarrow> trapframe" where
  "enter_new_process argc argv env stack entry =
     zero_tf\<lparr>tf_status := CST_IRQMASK OR CST_IEp OR CST_KUp, tf_epc := entry, tf_a0 := argc, tf_a1 := argv,
             tf_a2 := env, tf_sp := stack\<rparr>"

text \<open>
  What \<open>runprogram\<close> gets from outside: the answer of \<open>vfs_open\<close> (code, vnode, vnode table), the
  block that \<open>kmalloc\<close> gives \<open>as_create\<close>, and the addresses of \<open>load_elf\<close>'s local structures.
  The result is an error code, or the frame of the first instruction in user mode.
\<close>

record run_env =
  re_open :: "(ptr \<Rightarrow> vnode) \<Rightarrow> int \<times> ptr \<times> (ptr \<Rightarrow> vnode)"
  re_blk :: "addrspace option"
  re_ebuf :: vaddr
  re_pbuf :: vaddr

definition close_vnode :: "ptr \<Rightarrow> pstate \<Rightarrow> pstate kres" where
  "close_vnode v P = kbind (vfs_close v (k_vnodes (pvm P))) (\<lambda>vs. Ok (P\<lparr>pvm := (pvm P)\<lparr>k_vnodes := vs\<rparr>\<rparr>))"

definition runprogram :: "run_env \<Rightarrow> tlb_state \<Rightarrow> pstate \<Rightarrow> ((int + trapframe) \<times> tlb_state \<times> pstate) kres" where
  "runprogram e t P =
     (let (result, v, vs) = re_open e (k_vnodes (pvm P));
          P = P\<lparr>pvm := (pvm P)\<lparr>k_vnodes := vs\<rparr>\<rparr>
      in if result \<noteq> 0 then Ok (Inl result, t, P)
         else kassert (proc_getas P = None)
           (case as_create (re_blk e) of
              None \<Rightarrow> kbind (close_vnode v P) (\<lambda>P. Ok (Inl ENOMEM, t, P))
            | Some as \<Rightarrow>
                kbind (proc_setas (Some as) P) (\<lambda>(old, P).
                kbind (as_activate t (pvm P)) (\<lambda>(t, vm).
                let P = P\<lparr>pvm := vm\<rparr>
                in kbind (load_elf (re_ebuf e) (re_pbuf e) v P) (\<lambda>(result, entrypoint, P).
                     if result \<noteq> 0 then kbind (close_vnode v P) (\<lambda>P. Ok (Inl result, t, P))
                     else case proc_getas P of
                         None \<Rightarrow> Fail NullDeref
                       | Some as \<Rightarrow>
                           let (result, stackptr) = as_define_stack as
                           in if result \<noteq> 0 then Ok (Inl result, t, P)
                              else Ok (Inr (enter_new_process 0 NULL NULL stackptr entrypoint), t, P))))))"

section \<open>Reading a file\<close>

text \<open>
  \<open>file_reads vn img len\<close>: a read at an offset copies the next bytes of the file to the buffer, as
  many as are wanted and left in the file, takes them off \<open>uio_resid\<close> and succeeds.
\<close>

definition file_reads :: "vnode \<Rightarrow> (nat \<Rightarrow> byte) \<Rightarrow> nat \<Rightarrow> bool" where
  "file_reads vn img len \<longleftrightarrow>
     (\<forall>kb msz fsz off m. fsz \<le> msz \<longrightarrow> 0 \<le> off \<longrightarrow>
        (\<exists>u'. vop_read vn \<lparr>uio_iov = [\<lparr>iov_kbase = kb, iov_len = msz\<rparr>], uio_offset = off, uio_resid = fsz,
             uio_segflg = UIO_SYSSPACE, uio_dir = UIO_READ, uio_space = NULL\<rparr> m =
           Ok (0, u', mem_put kb (min fsz (len - nat off)) (\<lambda>k. img (nat off + k)) m)
         \<and> uio_resid u' = fsz - min fsz (len - nat off)))"

lemma file_reads_elf: "file_reads vn img len \<Longrightarrow> elf_file vn img len"
  unfolding elf_file_def
proof (intro allI impI)
  fix off msz fsz :: "32 word" and kb m
  assume "file_reads vn img len" "unat fsz \<le> unat msz"
  then show "\<exists>u'. vop_read vn (elf_uio off kb msz fsz) m =
      Ok (0, u', mem_put kb (min (unat fsz) (len - unat off)) (\<lambda>k. img (unat off + k)) m)"
    unfolding file_reads_def elf_uio_def by (metis uint_nat nat_int of_nat_0_le_iff)
qed

text \<open>The state while a program is loaded: the address space of the current process and memory.\<close>

definition loaded :: "addrspace \<Rightarrow> kmem \<Rightarrow> pstate \<Rightarrow> pstate" where
  "loaded as m P = upd_proc (curproc P) (\<lambda>x. x\<lparr>p_addrspace := Some as\<rparr>)
     (P\<lparr>pvm := (pvm P)\<lparr>k_mem := m, k_as := Some as, k_pid := p_pid (procs P (curproc P))\<rparr>\<rparr>)"

lemma loaded_simps [simp]:
  "k_vnodes (pvm (loaded as m P)) = k_vnodes (pvm P)" "k_mem (pvm (loaded as m P)) = m"
  "curproc (loaded as m P) = curproc P" "k_as (pvm (loaded as m P)) = Some as"
  by (simp_all add: loaded_def upd_proc_def)

lemma loaded_as:
  assumes "curproc P \<noteq> NULL"
  shows "proc_getas (loaded as m P) = Some as" "upd_as f (loaded as m P) = loaded (f as) m P"
    "proc_getas P = Some as \<Longrightarrow> upd_as f P = loaded (f as) (k_mem (pvm P)) P"
  using assms by (simp_all add: loaded_def proc_getas_def upd_as_def upd_proc_def cur_view_def)

lemma elf_read_ok:
  assumes "file_reads (k_vnodes (pvm P) v) img len" "v \<noteq> NULL" "0 \<le> off" "0 < n"
  shows "elf_read v buf n off (loaded as m P) =
    Ok (if nat off + n \<le> len then 0 else ENOEXEC,
        loaded as (mem_put buf (min n (len - nat off)) (\<lambda>k. img (nat off + k)) m) P)"
proof -
  obtain u' where u: "vop_read (k_vnodes (pvm P) v) (uio_kinit buf n off UIO_READ) m =
      Ok (0, u', mem_put buf (min n (len - nat off)) (\<lambda>k. img (nat off + k)) m)"
      "uio_resid u' = n - min n (len - nat off)"
    using assms(1,3) unfolding file_reads_def uio_kinit_def by blast
  have "uio_resid u' \<noteq> 0 \<longleftrightarrow> \<not> nat off + n \<le> len" using u(2) assms(4) by linarith
  then show ?thesis
    using u(1) assms(2) by (simp add: elf_read_def Let_def) (simp add: loaded_def upd_proc_def)
qed

lemma decode_put:
  "decode_phdr (mem_get buf (mem_put buf 32 f m)) = decode_phdr f"
  "decode_ehdr (mem_get buf (mem_put buf 52 f m)) = decode_ehdr f"
  by (simp_all add: decode_phdr_def decode_ehdr_def be32_def be16_def mem_get_put)

section \<open>The two loops\<close>

definition header_at :: "(nat \<Rightarrow> byte) \<Rightarrow> elf_ehdr \<Rightarrow> nat \<Rightarrow> elf_phdr" where
  "header_at img eh i = decode_phdr (\<lambda>k. img (nat (phdr_offset eh i) + k))"

definition skipped :: "elf_phdr \<Rightarrow> bool" where
  "skipped h \<longleftrightarrow> p_type h = PT_NULL \<or> p_type h = PT_PHDR \<or> p_type h = PT_MIPS_REGINFO"

text \<open>What the first loop does to the address space, given the headers.\<close>

fun regions :: "elf_phdr list \<Rightarrow> addrspace \<Rightarrow> int \<times> addrspace" where
  "regions [] as = (0, as)"
| "regions (h # hs) as =
     (if skipped h then regions hs as
      else if p_type h = PT_LOAD
      then (let (r, as') = as_define_region as (p_vaddr h) (p_memsz h) in if r \<noteq> 0 then (r, as') else regions hs as')
      else (ENOEXEC, as))"

text \<open>What the second loop does.\<close>

definition kept :: "(nat \<Rightarrow> elf_phdr) \<Rightarrow> nat \<Rightarrow> addrspace \<Rightarrow> addrspace" where
  "kept f n as =
     as\<lparr>ph1 := (if 1 < n \<and> p_type (f 1) = PT_LOAD then f 1 else ph1 as),
        ph2 := (if 2 < n \<and> p_type (f 2) = PT_LOAD then f 2 else ph2 as)\<rparr>"

text \<open>Memory is only changed in the buffers the loader reads into.\<close>

definition same_but :: "vaddr \<Rightarrow> nat \<Rightarrow> kmem \<Rightarrow> kmem \<Rightarrow> bool" where
  "same_but buf n m m' \<longleftrightarrow> (\<forall>a. \<not> unat (a - buf) < n \<longrightarrow> m' a = m a)"

lemma same_but_refl [simp]: "same_but buf n m m"
  by (simp add: same_but_def)

lemma same_but_put: "j \<le> n \<Longrightarrow> same_but buf n (mem_put buf j f m) m' \<Longrightarrow> same_but buf n m m'"
  by (auto simp: same_but_def mem_put_def)

lemma skipped_not_load: "skipped h \<Longrightarrow> p_type h \<noteq> PT_LOAD"
  by (auto simp: skipped_def elf_codes)

lemma elf_header_ok:
  assumes "file_reads (k_vnodes (pvm P) v) img len" "v \<noteq> NULL" "nat (phdr_offset eh i) + 32 \<le> len"
  shows "elf_header v buf eh act i (loaded as m P) =
    (let P' = loaded as (mem_put buf 32 (\<lambda>k. img (nat (phdr_offset eh i) + k)) m) P; h = header_at img eh i
     in if skipped h then Ok (0, P') else if p_type h = PT_LOAD then act h P' else Ok (ENOEXEC, P'))"
proof -
  have "0 \<le> phdr_offset eh i" by (simp add: phdr_offset_def)
  moreover have "min 32 (len - nat (phdr_offset eh i)) = 32" using assms(3) by simp
  ultimately show ?thesis
    using elf_read_ok [OF assms(1,2), of "phdr_offset eh i" 32 buf as m] assms(3)
    by (simp add: elf_header_def sizeof_phdr_def decode_put header_at_def skipped_def Let_def)
qed

lemma define_loop:
  assumes "file_reads (k_vnodes (pvm P) v) img len" "v \<noteq> NULL" "curproc P \<noteq> NULL"
    and "\<forall>i \<in> set is. nat (phdr_offset eh i) + 32 \<le> len"
  shows "\<exists>m'. elf_headers (elf_header v buf eh define_segment) is (loaded as m P) =
      Ok (fst (regions (map (header_at img eh) is) as), loaded (snd (regions (map (header_at img eh) is) as)) m' P)
    \<and> same_but buf 32 m m'"
  using assms(4)
proof (induction "is" arbitrary: as m)
  case Nil
  then show ?case by force
next
  case (Cons i "is")
  let ?h = "header_at img eh i" and ?m = "mem_put buf 32 (\<lambda>k. img (nat (phdr_offset eh i) + k)) m"
  have IH: "\<exists>m'. elf_headers (elf_header v buf eh define_segment) is (loaded as' ?m P) =
      Ok (fst (regions (map (header_at img eh) is) as'), loaded (snd (regions (map (header_at img eh) is) as')) m' P)
    \<and> same_but buf 32 m m'" for as'
  proof -
    have "\<forall>i \<in> set is. nat (phdr_offset eh i) + 32 \<le> len" using Cons.prems by simp
    from Cons.IH [OF this, of as' ?m] same_but_put [OF order_refl] show ?thesis by blast
  qed
  obtain r as' where r: "as_define_region as (p_vaddr ?h) (p_memsz ?h) = (r, as')" by fastforce
  have d: "define_segment ?h (loaded as ?m P) = Ok (r, loaded as' ?m P)"
    using loaded_as [OF assms(3)] r by (simp add: define_segment_def)
  have sb: "same_but buf 32 m ?m" by (rule same_but_put [OF order_refl same_but_refl])
  have H: "elf_header v buf eh define_segment i (loaded as m P) =
      (if skipped ?h then Ok (0, loaded as ?m P) else if p_type ?h = PT_LOAD then Ok (r, loaded as' ?m P)
       else Ok (ENOEXEC, loaded as ?m P))"
    using elf_header_ok [OF assms(1,2), of eh i buf define_segment as m] Cons.prems d by (simp add: Let_def)
  consider "skipped ?h" | "\<not> skipped ?h" "p_type ?h = PT_LOAD" "r = 0"
    | "\<not> skipped ?h" "p_type ?h = PT_LOAD" "r \<noteq> 0" | "\<not> skipped ?h" "p_type ?h \<noteq> PT_LOAD" by blast
  then show ?case
  proof cases
    case 1
    then show ?thesis using IH [of as] by (simp add: H)
  next
    case 2
    then show ?thesis using IH [of as'] by (simp add: H r)
  next
    case 3
    then show ?thesis using sb by (simp add: H r) blast
  next
    case 4
    then show ?thesis using sb by (simp add: H ENOEXEC_def) blast
  qed
qed

lemma elf_headers_snoc:
  "elf_headers f (is @ [i]) P = kbind (elf_headers f is P) (\<lambda>(r, P). if r \<noteq> 0 then Ok (r, P) else f i P)"
proof (induction "is" arbitrary: P)
  case Nil
  show ?case by (cases "f i P") (auto simp: kbind_def split: prod.splits)
next
  case (Cons j "is")
  show ?case by (cases "f j P") (auto simp: Cons.IH kbind_def split: prod.splits)
qed

lemma keep_loop:
  assumes "file_reads (k_vnodes (pvm P) v) img len" "v \<noteq> NULL" "curproc P \<noteq> NULL"
    and "\<forall>i < n. nat (phdr_offset eh i) + 32 \<le> len"
    and "\<forall>i < n. skipped (header_at img eh i) \<or> p_type (header_at img eh i) = PT_LOAD"
  shows "\<exists>m'. elf_headers (\<lambda>i. elf_header v buf eh (keep_header i) i) [0..<n] (loaded as m P) =
      Ok (0, loaded (kept (header_at img eh) n as) m' P) \<and> same_but buf 32 m m'"
  using assms(4,5)
proof (induction n)
  case 0
  then show ?case by (intro exI [of _ m]) (simp add: kept_def)
next
  case (Suc n)
  obtain m1 where m1: "elf_headers (\<lambda>i. elf_header v buf eh (keep_header i) i) [0..<n] (loaded as m P) =
      Ok (0, loaded (kept (header_at img eh) n as) m1 P)" "same_but buf 32 m m1"
    using Suc by auto
  let ?h = "header_at img eh n" and ?m = "mem_put buf 32 (\<lambda>k. img (nat (phdr_offset eh n) + k)) m1"
  let ?as = "kept (header_at img eh) n as" and ?as' = "kept (header_at img eh) (Suc n) as"
  have k: "keep_header n ?h (loaded ?as ?m P) = Ok (0, loaded ?as' ?m P)" if "p_type ?h = PT_LOAD"
  proof -
    consider "n = 1" | "n = 2" | "n \<noteq> 1" "n \<noteq> 2" by blast
    then show ?thesis
      using that loaded_as(2) [OF assms(3)] by cases (simp_all add: keep_header_def kept_def less_Suc_eq)
  qed
  have s: "?as' = ?as" if "skipped ?h"
    using skipped_not_load [OF that] by (auto simp: kept_def less_Suc_eq)
  have "elf_headers (\<lambda>i. elf_header v buf eh (keep_header i) i) [0..<Suc n] (loaded as m P) =
      Ok (0, loaded ?as' ?m P)"
    using m1(1) elf_header_ok [OF assms(1,2), of eh n buf "keep_header n" ?as m1] Suc.prems k s
    by (auto simp: elf_headers_snoc Let_def)
  moreover have "same_but buf 32 m ?m" using m1(2) by (auto simp: same_but_def mem_put_def)
  ultimately show ?case by blast
qed

section \<open>The whole loader\<close>

abbreviation loadable :: "elf_phdr list \<Rightarrow> elf_phdr list" where
  "loadable hs \<equiv> filter (\<lambda>h. p_type h = PT_LOAD) hs"

definition elf_table :: "(nat \<Rightarrow> byte) \<Rightarrow> elf_phdr list" where
  "elf_table img = map (header_at img (decode_ehdr img)) [0..<unat (e_phnum (decode_ehdr img))]"

definition table_in_file :: "(nat \<Rightarrow> byte) \<Rightarrow> nat \<Rightarrow> bool" where
  "table_in_file img len \<longleftrightarrow> 52 \<le> len \<and>
     (\<forall>i < unat (e_phnum (decode_ehdr img)). nat (phdr_offset (decode_ehdr img) i) + 32 \<le> len)"

abbreviation known :: "elf_phdr \<Rightarrow> bool" where
  "known h \<equiv> skipped h \<or> p_type h = PT_LOAD"

lemma load_elf_short:
  assumes "file_reads (k_vnodes (pvm P) v) img len" "v \<noteq> NULL" "curproc P \<noteq> NULL" "proc_getas P = Some as"
    and "len < 52"
  shows "\<exists>m. load_elf ebuf pbuf v P = Ok (ENOEXEC, 0, loaded (as\<lparr>as_v := v\<rparr>) m P)"
  using elf_read_ok [OF assms(1,2), of 0 52 ebuf "as\<lparr>as_v := v\<rparr>" "k_mem (pvm P)"] assms(4,5)
    loaded_as [OF assms(3)]
  by (simp add: load_elf_def sizeof_ehdr_def Let_def ENOEXEC_def) blast

lemma load_elf_run:
  assumes "file_reads (k_vnodes (pvm P) v) img len" "v \<noteq> NULL" "curproc P \<noteq> NULL" "proc_getas P = Some as"
    and "table_in_file img len"
  shows "\<exists>m. load_elf ebuf pbuf v P =
      (let (r, as') = regions (elf_table img) (as\<lparr>as_v := v\<rparr>)
       in if \<not> ehdr_ok (decode_ehdr img) then Ok (ENOEXEC, 0, loaded (as\<lparr>as_v := v\<rparr>) m P)
          else if r \<noteq> 0 then Ok (r, 0, loaded as' m P)
          else kbind (elf_headers (\<lambda>i. elf_header v pbuf (decode_ehdr img) (keep_header i) i)
                       [0..<unat (e_phnum (decode_ehdr img))] (loaded as' m P))
                 (\<lambda>(r, P). if r \<noteq> 0 then Ok (r, 0, P) else Ok (0, e_entry (decode_ehdr img), P)))
    \<and> (\<forall>a. \<not> unat (a - ebuf) < 52 \<and> \<not> unat (a - pbuf) < 32 \<longrightarrow> m a = k_mem (pvm P) a)"
proof -
  let ?eh = "decode_ehdr img" and ?as = "as\<lparr>as_v := v\<rparr>" and ?m = "mem_put ebuf 52 img (k_mem (pvm P))"
  have len: "52 \<le> len" "\<forall>i \<in> set [0..<unat (e_phnum ?eh)]. nat (phdr_offset ?eh i) + 32 \<le> len"
    using assms(5) by (auto simp: table_in_file_def)
  have m52: "min 52 len = 52" using len(1) by simp
  have rd: "elf_read v ebuf 52 0 (loaded ?as (k_mem (pvm P)) P) = Ok (0, loaded ?as ?m P)"
    using elf_read_ok [OF assms(1,2), of 0 52 ebuf ?as "k_mem (pvm P)"] len(1) by (simp add: m52)
  obtain m where m: "elf_headers (elf_header v pbuf ?eh define_segment) [0..<unat (e_phnum ?eh)] (loaded ?as ?m P) =
      Ok (fst (regions (elf_table img) ?as), loaded (snd (regions (elf_table img) ?as)) m P)" "same_but pbuf 32 ?m m"
    using define_loop [OF assms(1-3) len(2), of pbuf ?as ?m] by (auto simp: elf_table_def)
  have out: "\<not> unat (a - ebuf) < 52 \<and> \<not> unat (a - pbuf) < 32 \<longrightarrow> m' a = k_mem (pvm P) a" if "m' = ?m \<or> m' = m" for a m'
    using that m(2) by (auto simp: same_but_def mem_put_def)
  have open_: "load_elf ebuf pbuf v P =
      (if \<not> ehdr_ok ?eh then Ok (ENOEXEC, 0, loaded ?as ?m P)
       else kbind (elf_headers (elf_header v pbuf ?eh define_segment) [0..<unat (e_phnum ?eh)] (loaded ?as ?m P))
         (\<lambda>(r, P). if r \<noteq> 0 then Ok (r, 0, P)
            else kbind (elf_headers (\<lambda>i. elf_header v pbuf ?eh (keep_header i) i) [0..<unat (e_phnum ?eh)] P)
                 (\<lambda>(r, P). if r \<noteq> 0 then Ok (r, 0, P) else Ok (0, e_entry ?eh, P))))"
  proof -
    have "upd_as (\<lambda>as. as\<lparr>as_v := v\<rparr>) P = loaded ?as (k_mem (pvm P)) P"
      "upd_as (\<lambda>as. as\<lparr>as_v := v\<rparr>) (loaded ?as ?m P) = loaded ?as ?m P"
      using loaded_as(2,3) [OF assms(3)] assms(4) by simp_all
    then show ?thesis using assms(4) rd
      by (simp add: load_elf_def sizeof_ehdr_def decode_put) (simp add: Let_def)
  qed
  show ?thesis
  proof (cases "ehdr_ok ?eh")
    case True
    then have "load_elf ebuf pbuf v P = (let (r, as') = regions (elf_table img) ?as
       in if r \<noteq> 0 then Ok (r, 0, loaded as' m P)
          else kbind (elf_headers (\<lambda>i. elf_header v pbuf ?eh (keep_header i) i) [0..<unat (e_phnum ?eh)] (loaded as' m P))
                 (\<lambda>(r, P). if r \<noteq> 0 then Ok (r, 0, P) else Ok (0, e_entry ?eh, P)))"
      unfolding open_ m(1) by (simp add: case_prod_beta)
    then show ?thesis using True out by (intro exI [of _ m]) simp
  next
    case False
    then show ?thesis using out unfolding open_ by (intro exI [of _ ?m]) (simp add: case_prod_beta)
  qed
qed

text \<open>The address space that two loadable segments give.\<close>

definition region_npages :: "elf_phdr \<Rightarrow> 32 word" where
  "region_npages h = ((p_memsz h + (p_vaddr h AND NOT PAGE_FRAME) + p_vaddr h mod PAGE_SIZE + PAGE_SIZE - 1)
     AND PAGE_FRAME) div PAGE_SIZE"

lemma define_region_eq:
  "as_define_region as (p_vaddr h) (p_memsz h) =
     (if as_vbase1 as = 0
      then (0, as\<lparr>as_vbase1 := p_vaddr h AND PAGE_FRAME, as_npages1 := region_npages h,
                  initial_offset1 := p_vaddr h mod PAGE_SIZE\<rparr>)
      else if as_vbase2 as = 0
      then (0, as\<lparr>as_vbase2 := p_vaddr h AND PAGE_FRAME, as_npages2 := region_npages h,
                  initial_offset2 := p_vaddr h mod PAGE_SIZE\<rparr>)
      else (ENOSYS, as))"
  by (simp add: as_define_region_def region_npages_def Let_def)

definition room :: "addrspace \<Rightarrow> nat" where
  "room as = (if as_vbase1 as = 0 then 2 else if as_vbase2 as = 0 then 1 else 0)"

lemma page_nonzero: "4096 \<le> unat v \<Longrightarrow> v AND PAGE_FRAME \<noteq> 0"
proof
  assume "4096 \<le> unat v" "v AND PAGE_FRAME = 0"
  then have "unat v - unat v mod 4096 = 0" using unat_and_PAGE_FRAME [of v] by simp
  then show False using \<open>4096 \<le> unat v\<close> mod_less_divisor [of 4096 "unat v"] by linarith
qed

text \<open>
  Whether loadable segments find room in \<open>k\<close> free slots: a segment takes one, but one in the first
  page leaves it marked as free, since its region then starts at address 0.
\<close>

fun slots :: "nat \<Rightarrow> elf_phdr list \<Rightarrow> bool" where
  "slots k [] \<longleftrightarrow> True"
| "slots k (h # hs) \<longleftrightarrow> 0 < k \<and> slots (if 4096 \<le> unat (p_vaddr h) then k - 1 else k) hs"

lemma slots_length: "(\<forall>h \<in> set hs. 4096 \<le> unat (p_vaddr h)) \<Longrightarrow> slots k hs \<longleftrightarrow> length hs \<le> k"
  by (induction hs arbitrary: k) auto

lemma page_zero: "\<not> 4096 \<le> unat v \<Longrightarrow> v AND PAGE_FRAME = 0"
  using unat_and_PAGE_FRAME [of v] by (simp add: unat_eq_zero)

lemma regions_result:
  assumes "as_vbase1 as = 0 \<longrightarrow> as_vbase2 as = 0"
  shows "fst (regions hs as) = 0 \<longleftrightarrow> (\<forall>h \<in> set hs. known h) \<and> slots (room as) (loadable hs)"
    and "fst (regions hs as) \<in> {0, ENOEXEC, ENOSYS}"
    and "(\<forall>h \<in> set hs. known h) \<Longrightarrow> fst (regions hs as) \<in> {0, ENOSYS}"
    and "fst (regions hs as) = ENOSYS \<Longrightarrow> \<not> slots (room as) (loadable hs)"
  using assms
proof (induction hs as rule: regions.induct)
  case (2 h hs as)
  note pg = page_nonzero [of "p_vaddr h"] page_zero [of "p_vaddr h"]
  { case 1
    then show ?case
      using 2 pg skipped_not_load [of h]
      by (cases "4096 \<le> unat (p_vaddr h)") (auto simp: define_region_eq room_def errno_defs)
  next
    case 2
    then show ?case
      using "2.IH"(2,6) pg by (cases "4096 \<le> unat (p_vaddr h)") (auto simp: define_region_eq)
  next
    case 3
    then show ?case
      using "2.IH"(3,7) pg by (cases "4096 \<le> unat (p_vaddr h)") (auto simp: define_region_eq)
  next
    case 4
    then show ?case
      using "2.IH"(4,8) pg skipped_not_load [of h]
      by (cases "4096 \<le> unat (p_vaddr h)") (auto simp: define_region_eq room_def errno_defs split: if_splits)
  }
qed (simp_all add: errno_defs)

lemma regions_two:
  assumes "\<forall>h \<in> set hs. known h" "loadable hs = [h1, h2]" "as_vbase1 as = 0" "as_vbase2 as = 0"
    and "4096 \<le> unat (p_vaddr h1)"
  shows "regions hs as = (0, as\<lparr>as_vbase1 := p_vaddr h1 AND PAGE_FRAME, as_npages1 := region_npages h1,
      initial_offset1 := p_vaddr h1 mod PAGE_SIZE, as_vbase2 := p_vaddr h2 AND PAGE_FRAME,
      as_npages2 := region_npages h2, initial_offset2 := p_vaddr h2 mod PAGE_SIZE\<rparr>)"
proof -
  have "regions hs as = regions (loadable hs) as" for as
    using assms(1)
    by (induction hs as rule: regions.induct) (auto simp: Let_def split: prod.splits dest: skipped_not_load)
  moreover have "p_type h1 = PT_LOAD" "p_type h2 = PT_LOAD"
    using assms(2) filter_set [of "\<lambda>h. p_type h = PT_LOAD" hs] by auto
  moreover have "\<not> skipped h1" "\<not> skipped h2" using calculation(2,3) skipped_not_load by blast+
  ultimately show ?thesis
    using assms(2-5) page_nonzero by (simp add: define_region_eq)
qed

text \<open>A region that belongs to a program header: it starts at its page and has a page for every byte.\<close>

definition region_of :: "elf_phdr \<Rightarrow> vaddr \<Rightarrow> 32 word \<Rightarrow> 32 word \<Rightarrow> bool" where
  "region_of h vb n io \<longleftrightarrow> vb = p_vaddr h AND PAGE_FRAME \<and> io = p_vaddr h mod PAGE_SIZE \<and>
     unat vb \<le> unat (p_vaddr h) \<and>
     (\<forall>a < unat (p_memsz h). unat (p_vaddr h) + a < unat vb + 4096 * unat n) \<and>
     unat n \<le> pages_needed (unat (p_vaddr h)) (unat (p_memsz h)) + 1 \<and>
     (unat (p_vaddr h) mod 4096 = 0 \<longrightarrow> unat n = pages_needed (unat (p_vaddr h)) (unat (p_memsz h)))"

lemma region_npages_ok:
  assumes "unat (p_vaddr h) + unat (p_memsz h) \<le> 2 ^ 31"
  shows "region_of h (p_vaddr h AND PAGE_FRAME) (region_npages h) (p_vaddr h mod PAGE_SIZE)"
proof -
  let ?v = "unat (p_vaddr h)" and ?n = "unat (p_memsz h)"
  have o: "?v mod 4096 < 4096" by simp
  then have "?n + 2 * (?v mod 4096) + 4095 < 2 ^ 32" using assms by simp
  then have N: "unat (region_npages h) = (?n + 2 * (?v mod 4096) + 4095) div 4096"
    unfolding region_npages_def by (rule region_pages)
  have B: "unat (p_vaddr h AND PAGE_FRAME) = ?v - ?v mod 4096" by (simp add: unat_and_PAGE_FRAME)
  have "?v mod 4096 \<le> ?v" by simp
  then have "?v + a < unat (p_vaddr h AND PAGE_FRAME) + 4096 * unat (region_npages h)" if "a < ?n" for a
    using round_up_pages(3) [OF o that] unfolding N B by linarith
  then show ?thesis
    using round_up_pages(2) [OF o, of ?n] unfolding region_of_def pages_needed_def by (simp add: N B)
qed

text \<open>
  An executable as the linker makes it: program header 0 is not loadable, 1 and 2 are the two
  loadable segments, in the lower half of the address space and not in its first page.
\<close>

definition two_segments :: "(nat \<Rightarrow> byte) \<Rightarrow> nat \<Rightarrow> elf_phdr \<Rightarrow> elf_phdr \<Rightarrow> bool" where
  "two_segments img len h1 h2 \<longleftrightarrow>
     table_in_file img len \<and> ehdr_ok (decode_ehdr img) \<and> (\<forall>h \<in> set (elf_table img). known h) \<and>
     2 < length (elf_table img) \<and> elf_table img ! 1 = h1 \<and> elf_table img ! 2 = h2 \<and>
     loadable (elf_table img) = [h1, h2] \<and> 4096 \<le> unat (p_vaddr h1) \<and>
     unat (p_vaddr h1) + unat (p_memsz h1) \<le> 2 ^ 31 \<and> unat (p_vaddr h2) + unat (p_memsz h2) \<le> 2 ^ 31"

lemma load_elf_two:
  assumes "file_reads (k_vnodes (pvm P) v) img len" "v \<noteq> NULL" "curproc P \<noteq> NULL"
    and "proc_getas P = Some as" "as_vbase1 as = 0" "as_vbase2 as = 0" and T: "two_segments img len h1 h2"
  shows "\<exists>as' m. load_elf ebuf pbuf v P = Ok (0, e_entry (decode_ehdr img), loaded as' m P)
    \<and> as_v as' = v \<and> ph1 as' = h1 \<and> ph2 as' = h2
    \<and> region_of h1 (as_vbase1 as') (as_npages1 as') (initial_offset1 as')
    \<and> region_of h2 (as_vbase2 as') (as_npages2 as') (initial_offset2 as')
    \<and> (\<forall>a. \<not> unat (a - ebuf) < 52 \<and> \<not> unat (a - pbuf) < 32 \<longrightarrow> m a = k_mem (pvm P) a)"
proof -
  let ?eh = "decode_ehdr img" and ?as = "as\<lparr>as_v := v\<rparr>"
  have T: "table_in_file img len" "ehdr_ok ?eh" "\<forall>h \<in> set (elf_table img). known h" "loadable (elf_table img) = [h1, h2]"
      "2 < length (elf_table img)" "elf_table img ! 1 = h1" "elf_table img ! 2 = h2" "4096 \<le> unat (p_vaddr h1)"
      "unat (p_vaddr h1) + unat (p_memsz h1) \<le> 2 ^ 31" "unat (p_vaddr h2) + unat (p_memsz h2) \<le> 2 ^ 31"
    using T unfolding two_segments_def by blast+
  define as1 where "as1 = ?as\<lparr>as_vbase1 := p_vaddr h1 AND PAGE_FRAME, as_npages1 := region_npages h1,
      initial_offset1 := p_vaddr h1 mod PAGE_SIZE, as_vbase2 := p_vaddr h2 AND PAGE_FRAME,
      as_npages2 := region_npages h2, initial_offset2 := p_vaddr h2 mod PAGE_SIZE\<rparr>"
  have r: "regions (elf_table img) ?as = (0, as1)"
    unfolding as1_def using assms(5,6) by (intro regions_two [OF T(3,4) _ _ T(8)]) simp_all
  have n: "length (elf_table img) = unat (e_phnum ?eh)"
      "\<And>i. i < unat (e_phnum ?eh) \<Longrightarrow> header_at img ?eh i = elf_table img ! i"
    by (auto simp: elf_table_def)
  have k: "\<forall>i < unat (e_phnum ?eh). known (header_at img ?eh i)" using n T(3) by auto
  have off: "\<forall>i < unat (e_phnum ?eh). nat (phdr_offset ?eh i) + 32 \<le> len"
    using T(1) by (simp add: table_in_file_def)
  have h: "p_type h1 = PT_LOAD" "p_type h2 = PT_LOAD"
    using T(4) filter_set [of "\<lambda>h. p_type h = PT_LOAD" "elf_table img"] by auto
  obtain m where m: "load_elf ebuf pbuf v P =
      kbind (elf_headers (\<lambda>i. elf_header v pbuf ?eh (keep_header i) i) [0..<unat (e_phnum ?eh)] (loaded as1 m P))
        (\<lambda>(r, P). if r \<noteq> 0 then Ok (r, 0, P) else Ok (0, e_entry ?eh, P))"
      "\<forall>a. \<not> unat (a - ebuf) < 52 \<and> \<not> unat (a - pbuf) < 32 \<longrightarrow> m a = k_mem (pvm P) a"
    using load_elf_run [OF assms(1-4) T(1), of ebuf pbuf] T(2) by (auto simp: r)
  obtain m' where m': "load_elf ebuf pbuf v P = Ok (0, e_entry ?eh, loaded (kept (header_at img ?eh) (unat (e_phnum ?eh)) as1) m' P)"
      "same_but pbuf 32 m m'"
    using keep_loop [OF assms(1-3) off k, of pbuf as1 m] m(1) by auto
  moreover have "kept (header_at img ?eh) (unat (e_phnum ?eh)) as1 = as1\<lparr>ph1 := h1, ph2 := h2\<rparr>"
    using n T(5-7) h by (simp add: kept_def)
  moreover have "\<forall>a. \<not> unat (a - ebuf) < 52 \<and> \<not> unat (a - pbuf) < 32 \<longrightarrow> m' a = k_mem (pvm P) a"
    using m(2) m'(2) by (simp add: same_but_def)
  ultimately show ?thesis
    using region_npages_ok [OF T(9)] region_npages_ok [OF T(10)]
    by - (rule exI [where x = "as1\<lparr>ph1 := h1, ph2 := h2\<rparr>"], rule exI [where x = m'], simp add: as1_def)
qed

text \<open>
  (C11) Loading, into a fresh address space, an executable with exactly two loadable segments, described
  by its second and third program headers (the first is the linker's register information), in
  the lower half of memory, the first of them not in the first page: \<open>load_elf\<close> returns 0 and the
  program's entry point; the address space of the process holds the two headers and a region for
  each, which starts at the segment's page and contains all of its bytes, and the file for
  the demand loader; outside the two header buffers memory is unchanged.
\<close>

theorem load_elf_layout:
  assumes "file_reads (k_vnodes (pvm P) v) img len" "v \<noteq> NULL" "curproc P \<noteq> NULL"
    and "proc_getas P = Some as" "as_vbase1 as = 0" "as_vbase2 as = 0" and "two_segments img len h1 h2"
  shows "\<exists>as' P'. load_elf ebuf pbuf v P = Ok (0, e_entry (decode_ehdr img), P')
    \<and> proc_getas P' = Some as' \<and> k_as (pvm P') = Some as'
    \<and> as_v as' = v \<and> ph1 as' = h1 \<and> ph2 as' = h2
    \<and> region_of h1 (as_vbase1 as') (as_npages1 as') (initial_offset1 as')
    \<and> region_of h2 (as_vbase2 as') (as_npages2 as') (initial_offset2 as')
    \<and> (\<forall>a. \<not> unat (a - ebuf) < 52 \<and> \<not> unat (a - pbuf) < 32 \<longrightarrow> k_mem (pvm P') a = k_mem (pvm P) a)"
  using load_elf_two [OF assms, of ebuf pbuf] loaded_as(1) [OF assms(3)] by fastforce

text \<open>
  (C12) What \<open>load_elf\<close> accepts, for a fresh address space and a file that holds its header table: it
  always returns; it returns 0 exactly when the executable header is one of this machine, every
  program header has a known type, and the loadable segments find room in the two slots of the
  address space, of which a segment in the first page uses up none; if none lies there, that is
  when at most two are loadable. A bad executable header or an unknown type gives \<open>ENOEXEC\<close>,
  a loadable segment without a slot gives \<open>ENOSYS\<close>.
\<close>

theorem load_elf_accepts:
  assumes "file_reads (k_vnodes (pvm P) v) img len" "v \<noteq> NULL" "curproc P \<noteq> NULL"
    and "proc_getas P = Some as" "as_vbase1 as = 0" "as_vbase2 as = 0" and "table_in_file img len"
  shows "\<exists>r e P'. load_elf ebuf pbuf v P = Ok (r, e, P')
    \<and> (r = 0 \<longleftrightarrow> ehdr_ok (decode_ehdr img) \<and> (\<forall>h \<in> set (elf_table img). known h) \<and> slots 2 (loadable (elf_table img)))
    \<and> ((\<forall>h \<in> set (loadable (elf_table img)). 4096 \<le> unat (p_vaddr h)) \<longrightarrow>
         (slots 2 (loadable (elf_table img)) \<longleftrightarrow> length (loadable (elf_table img)) \<le> 2))
    \<and> r \<in> {0, ENOEXEC, ENOSYS}
    \<and> (\<not> ehdr_ok (decode_ehdr img) \<longrightarrow> r = ENOEXEC)
    \<and> (r = ENOSYS \<longrightarrow> \<not> slots 2 (loadable (elf_table img)))
    \<and> ((\<forall>h \<in> set (elf_table img). known h) \<and> \<not> slots 2 (loadable (elf_table img)) \<and> ehdr_ok (decode_ehdr img) \<longrightarrow> r = ENOSYS)"
proof -
  let ?eh = "decode_ehdr img" and ?T = "elf_table img" and ?as = "as\<lparr>as_v := v\<rparr>"
  obtain r as1 where R: "regions ?T ?as = (r, as1)" by fastforce
  obtain m where m: "load_elf ebuf pbuf v P =
      (if \<not> ehdr_ok ?eh then Ok (ENOEXEC, 0, loaded ?as m P)
       else if r \<noteq> 0 then Ok (r, 0, loaded as1 m P)
       else kbind (elf_headers (\<lambda>i. elf_header v pbuf ?eh (keep_header i) i) [0..<unat (e_phnum ?eh)] (loaded as1 m P))
         (\<lambda>(r, P). if r \<noteq> 0 then Ok (r, 0, P) else Ok (0, e_entry ?eh, P)))"
    using load_elf_run [OF assms(1-4,7), of ebuf pbuf] by (auto simp: R)
  have fresh: "as_vbase1 ?as = 0 \<longrightarrow> as_vbase2 ?as = 0" "room ?as = 2" using assms(5,6) by (simp_all add: room_def)
  note F = regions_result [OF fresh(1), of ?T, unfolded R fst_conv fresh(2)] and S = slots_length [of "loadable ?T" 2]
  consider "\<not> ehdr_ok ?eh" | "ehdr_ok ?eh" "r \<noteq> 0" | "ehdr_ok ?eh" "r = 0" by blast
  then show ?thesis
  proof cases
    case 1
    then show ?thesis using m S by (simp add: errno_defs)
  next
    case 2
    then show ?thesis using m F S by (intro exI [of _ r] exI [of _ 0] exI [of _ "loaded as1 m P"]) auto
  next
    case 3
    then have k: "\<forall>i < unat (e_phnum ?eh). known (header_at img ?eh i)" "slots 2 (loadable ?T)"
      using F(1) by (auto simp: elf_table_def)
    have "\<forall>i < unat (e_phnum ?eh). nat (phdr_offset ?eh i) + 32 \<le> len"
      using assms(7) by (simp add: table_in_file_def)
    from keep_loop [OF assms(1-3) this k(1), of pbuf as1 m] obtain P' where "load_elf ebuf pbuf v P = Ok (0, e_entry ?eh, P')"
      using m 3 by auto
    then show ?thesis using 3 F k(2) S by (intro exI [of _ 0] exI [of _ "e_entry ?eh"] exI [of _ P']) (auto simp: errno_defs)
  qed
qed

section \<open>From the loader to the first page fault\<close>

lemma region_end:
  assumes "region_of h vb n io" "unat (p_vaddr h) + unat (p_memsz h) \<le> 2 ^ 31"
  shows "unat (vb + n * PAGE_SIZE) = unat vb + 4096 * unat n"
    and "unat vb + 4096 * unat n \<le> unat (p_vaddr h) + unat (p_memsz h) + 8191"
proof -
  let ?v = "unat (p_vaddr h)" and ?m = "unat (p_memsz h)"
  have "unat vb = ?v - ?v mod 4096" "unat n \<le> (?v mod 4096 + ?m + 4095) div 4096 + 1"
    using assms(1) by (simp_all add: region_of_def pages_needed_def unat_and_PAGE_FRAME)
  moreover have "4096 * ((?v mod 4096 + ?m + 4095) div 4096) \<le> ?v mod 4096 + ?m + 4095" by simp
  moreover have "?v mod 4096 \<le> ?v" by simp
  ultimately show le: "unat vb + 4096 * unat n \<le> ?v + ?m + 8191" by linarith
  have "n * PAGE_SIZE = of_nat (4096 * unat n)" by (simp add: PAGE_SIZE_def)
  then show "unat (vb + n * PAGE_SIZE) = unat vb + 4096 * unat n"
    using le assms(2) unat_plus_nat [of vb "4096 * unat n"] by simp
qed

lemma segment_page:
  assumes R: "region_of h1 (as_vbase1 as) (as_npages1 as) (initial_offset1 as)"
      "region_of h2 (as_vbase2 as) (as_npages2 as) (initial_offset2 as)"
    and B: "unat (p_vaddr h1) + unat (p_memsz h1) \<le> 2 ^ 31" "unat (p_vaddr h2) + unat (p_memsz h2) \<le> 2 ^ 31"
    and A: "unat (p_vaddr h1) mod 4096 = 0" "unat (p_vaddr h2) mod 4096 = 0"
    and apart: "unat (p_vaddr h1) + 4096 * pages_needed (unat (p_vaddr h1)) (unat (p_memsz h1)) < unat (p_vaddr h2)"
    and g: "g = Text \<and> h = h1 \<or> g = Data \<and> h = h2" "d < unat (p_memsz h)"
  shows "one_seg as (p_vaddr h + of_nat d) g" "p_vaddr h + of_nat d < USERSTACK"
    "initial_offset1 as = 0" "initial_offset2 as = 0" "as_vbase1 as = p_vaddr h1" "as_vbase2 as = p_vaddr h2"
    "unat (p_vaddr h + of_nat d - p_vaddr h) = d"
proof -
  let ?v = "p_vaddr h + of_nat d"
  have al: "x AND PAGE_FRAME = x \<and> x mod PAGE_SIZE = 0" if "unat x mod 4096 = 0" for x
  proof -
    have "x mod PAGE_SIZE = 0" using that unat_page_mod [of x] by (simp add: unat_eq_0)
    then show ?thesis by (simp add: and_PAGE_FRAME)
  qed
  show vb: "as_vbase1 as = p_vaddr h1" "as_vbase2 as = p_vaddr h2"
    and "initial_offset1 as = 0" "initial_offset2 as = 0"
    using R al [OF A(1)] al [OF A(2)] by (simp_all add: region_of_def)
  have v: "unat ?v = unat (p_vaddr h) + d" using g B by (intro unat_plus_nat) auto
  then show "?v < USERSTACK" using g B by (auto simp: word_less_nat_alt USERSTACK_def MIPS_KSEG0_def)
  show "unat (?v - p_vaddr h) = d" using g B by (auto simp: unat_of_nat_32)
  have in_: "unat ?v < unat (p_vaddr h1) + 4096 * unat (as_npages1 as)" if "h = h1"
    using R(1) g(2) v vb(1) that by (simp add: region_of_def)
  have in2: "unat ?v < unat (p_vaddr h2) + 4096 * unat (as_npages2 as)" if "h = h2"
    using R(2) g(2) v vb(2) that by (simp add: region_of_def)
  note E = region_end [OF R(1) B(1)] region_end [OF R(2) B(2)]
  have n1: "unat (as_npages1 as) = pages_needed (unat (p_vaddr h1)) (unat (p_memsz h1))" using R(1) A(1) by (simp add: region_of_def)
  show "one_seg as ?v g"
    using g v in_ in2 E apart [folded n1] B unfolding vb one_seg_def in_text_def in_data_def above_data_def
    by (auto simp: word_le_nat_alt word_less_nat_alt)
qed

text \<open>
  (C8) From the file to memory: after \<open>load_elf\<close> into a fresh address space of an executable whose second
  and third program headers are its two loadable segments, both page-aligned, the text below the
  data with at least a page between the last page of the one and the first of the other, the
  first touch of an address of either segment finds it, and the frame holds the bytes of the
  file that the program header names for it, followed by zeros where the file part ends.
\<close>

theorem exec_page_contents:
  assumes "file_reads (k_vnodes (pvm P) v) img len" "v \<noteq> NULL" "curproc P \<noteq> NULL"
    and "proc_getas P = Some as" "as_vbase1 as = 0" "as_vbase2 as = 0" and "two_segments img len h1 h2"
    and "swap_inv (k_swap (pvm P))" "p_pid (procs P (curproc P)) = int i" "i < MAX_PROC"
    and "unat (p_vaddr h1) mod 4096 = 0" "unat (p_vaddr h2) mod 4096 = 0" "seg_sane h1 len" "seg_sane h2 len"
    and "unat (p_vaddr h1) + 4096 * pages_needed (unat (p_vaddr h1)) (unat (p_memsz h1)) < unat (p_vaddr h2)"
    and "g = Text \<and> h = h1 \<or> g = Data \<and> h = h2" "d < unat (p_memsz h)"
    and "map_of (swap_list (k_swap (pvm P)) g i) (p_vaddr h + of_nat d) = None"
  shows "\<exists>e P' s'. load_elf ebuf pbuf v P = Ok (0, e, P')
    \<and> load_page (p_vaddr h + of_nat d) (int i) p (pvm P') = Ok (0, s')
    \<and> (\<forall>k < 4096. mem_get (PADDR_TO_KVADDR p) (k_mem s') k = seg_byte h img d k)"
proof -
  obtain as' m where L: "load_elf ebuf pbuf v P = Ok (0, e_entry (decode_ehdr img), loaded as' m P)"
      "as_v as' = v" "ph1 as' = h1" "ph2 as' = h2"
      and R: "region_of h1 (as_vbase1 as') (as_npages1 as') (initial_offset1 as')"
        "region_of h2 (as_vbase2 as') (as_npages2 as') (initial_offset2 as')"
    using load_elf_two [OF assms(1-7), of ebuf pbuf] by blast
  have B: "unat (p_vaddr h1) + unat (p_memsz h1) \<le> 2 ^ 31" "unat (p_vaddr h2) + unat (p_memsz h2) \<le> 2 ^ 31"
    using assms(7) unfolding two_segments_def by blast+
  note G = segment_page [OF R B assms(11,12,15-17)]
  let ?s = "pvm (loaded as' m P)"
  have S: "k_swap ?s = k_swap (pvm P)" "k_pid ?s = int i" "k_as ?s = Some as'" "k_vnodes ?s = k_vnodes (pvm P)"
    using assms(9) by (simp_all add: loaded_def upd_proc_def)
  have d: "d < 2 ^ 31" using assms(13,14,16,17) by (auto simp: seg_sane_def)
  obtain s' where "load_page (p_vaddr h + of_nat d) (int i) p ?s = Ok (0, s')"
      "\<forall>k < 4096. mem_get (PADDR_TO_KVADDR p) (k_mem s') k = fresh_byte as' img g (p_vaddr h + of_nat d) k"
    using load_page_fresh [of ?s i as' "p_vaddr h + of_nat d" g img len p]
      assms(1,2,8,10,13,14,16,18) file_reads_elf G L(2-4) S d by auto
  moreover have "fresh_byte as' img g (p_vaddr h + of_nat d) k = seg_byte h img d k" for k
    using assms(16) G(5-7) L(3,4) by (auto simp: fresh_byte_def)
  ultimately show ?thesis using L(1) by auto
qed

section \<open>An example\<close>

text \<open>The headers of an executable of 20000 bytes with a text and a data segment, and a file that reads as it should.\<close>

definition ex_headers :: "byte list" where
  "ex_headers =
     [127, 69, 76, 70, 1, 2, 1, 0, 0, 0, 0, 0, 0, 0, 0, 0, 0, 2, 0, 8, 0, 0, 0, 1, 0, 64, 0, 0, 0, 0, 0, 52, 0, 0, 0, 0, 0, 0, 0, 0, 0, 52, 0, 32, 0, 3, 0, 0, 0, 0, 0, 0] @
     [112, 0, 0, 0, 0, 0, 0, 0, 0, 0, 0, 0, 0, 0, 0, 0, 0, 0, 0, 0, 0, 0, 0, 0, 0, 0, 0, 0, 0, 0, 0, 0] @
     [0, 0, 0, 1, 0, 0, 16, 0, 0, 64, 0, 0, 0, 64, 0, 0, 0, 0, 24, 0, 0, 0, 32, 0, 0, 0, 0, 5, 0, 0, 16, 0] @
     [0, 0, 0, 1, 0, 0, 1, 0, 16, 0, 0, 0, 16, 0, 0, 0, 0, 0, 0, 64, 0, 0, 17, 0, 0, 0, 0, 6, 0, 0, 16, 0]"

definition ex_img :: "nat \<Rightarrow> byte" where
  "ex_img k = (if k < 148 then ex_headers ! k else of_nat k)"

definition ex_file_vnode :: vnode where
  "ex_file_vnode = \<lparr>vn_refcount = 1,
     vop_read = (\<lambda>u m. case uio_iov u of
         [] \<Rightarrow> Ok (EINVAL, u, m)
       | iov # _ \<Rightarrow>
           let n = min (uio_resid u) (20000 - nat (uio_offset u))
           in Ok (0, u\<lparr>uio_resid := uio_resid u - n\<rparr>, mem_put (iov_kbase iov) n (\<lambda>k. ex_img (nat (uio_offset u) + k)) m)),
     vop_reclaim = 0, vn_reclaims = 0\<rparr>"

lemma ex_file_reads: "file_reads ex_file_vnode ex_img 20000"
  by (simp add: file_reads_def ex_file_vnode_def Let_def)

definition ex_new_proc :: pstate where
  "ex_new_proc = upd_proc 0x100 (\<lambda>x. x\<lparr>p_addrspace := Some zero_as\<rparr>)
     (ex_pstate\<lparr>pvm := ex_vm\<lparr>k_vnodes := (\<lambda>a. ex_file_vnode)\<rparr>\<rparr>)"

abbreviation ex_h1 :: elf_phdr where
  "ex_h1 \<equiv> \<lparr>p_type = 1, p_offset = 0x1000, p_vaddr = 0x400000, p_paddr = 0x400000, p_filesz = 0x1800,
     p_memsz = 0x2000, p_flags = 5, p_align = 0x1000\<rparr>"

abbreviation ex_h2 :: elf_phdr where
  "ex_h2 \<equiv> \<lparr>p_type = 1, p_offset = 0x100, p_vaddr = 0x10000000, p_paddr = 0x10000000, p_filesz = 0x40,
     p_memsz = 0x1100, p_flags = 6, p_align = 0x1000\<rparr>"

lemma ex_ehdr: "decode_ehdr ex_img = \<lparr>e_ident = [0x7f, 0x45, 0x4c, 0x46, 1, 2, 1, 0, 0, 0, 0, 0, 0, 0, 0, 0],
    e_type = 2, e_machine = 8, e_version = 1, e_entry = 0x400000, e_phoff = 52, e_shoff = 0, e_flags = 0,
    e_ehsize = 52, e_phentsize = 32, e_phnum = 3, e_shentsize = 0, e_shnum = 0, e_shstrndx = 0\<rparr>"
  by (simp add: decode_ehdr_def be32_def be16_def ex_img_def ex_headers_def upt_rec)

lemma ex_elf_table: "elf_table ex_img = [zero_phdr\<lparr>p_type := 0x70000000\<rparr>, ex_h1, ex_h2]"
  by (simp add: elf_table_def ex_ehdr header_at_def phdr_offset_def upt_rec decode_phdr_def be32_def be16_def
      ex_img_def ex_headers_def zero_phdr_def)

lemma ex_two_segments: "two_segments ex_img 20000 ex_h1 ex_h2"
  unfolding two_segments_def
proof (intro conjI)
  have "nat (phdr_offset (decode_ehdr ex_img) i) + 32 \<le> 20000" if "i < 3" for i
  proof -
    have "i = 0 \<or> i = 1 \<or> i = 2" using that by auto
    then show ?thesis by (auto simp: ex_ehdr phdr_offset_def)
  qed
  then show "table_in_file ex_img 20000" by (simp add: table_in_file_def) (simp add: ex_ehdr)
  show "ehdr_ok (decode_ehdr ex_img)" by (simp add: ehdr_ok_def ex_ehdr elf_codes)
qed (simp_all add: ex_elf_table skipped_def elf_codes zero_phdr_def)

lemma ex_new_proc_facts:
  "file_reads (k_vnodes (pvm ex_new_proc) 0x500) ex_img 20000" "curproc ex_new_proc \<noteq> NULL"
  "proc_getas ex_new_proc = Some zero_as" "as_vbase1 zero_as = 0" "as_vbase2 zero_as = 0"
  "swap_inv (k_swap (pvm ex_new_proc))" "p_pid (procs ex_new_proc (curproc ex_new_proc)) = int 1"
  "map_of (swap_list (k_swap (pvm ex_new_proc)) Text 1) 0x401000 = None"
  using ex_file_reads ex_elf_facts(1,5)
  by (simp_all add: ex_new_proc_def upd_proc_def ex_pstate_def proc_getas_def zero_as_def ex_child_def ex_vm_def)

theorem load_elf_layout_witness:
  "\<exists>as' P'. load_elf 0x80200000 0x80200100 0x500 ex_new_proc = Ok (0, 0x400000, P') \<and> proc_getas P' = Some as'
     \<and> ph1 as' = ex_h1 \<and> as_v as' = 0x500
     \<and> region_of ex_h1 (as_vbase1 as') (as_npages1 as') (initial_offset1 as')"
  using load_elf_layout [OF ex_new_proc_facts(1) _ ex_new_proc_facts(2-5) ex_two_segments, of "0x80200000" "0x80200100"]
  by (auto simp: ex_ehdr)

theorem load_elf_accepts_witness:
  "\<exists>e P'. load_elf 0x80200000 0x80200100 0x500 ex_new_proc = Ok (0, e, P')"
proof -
  have "table_in_file ex_img 20000" "ehdr_ok (decode_ehdr ex_img)"
    using ex_two_segments unfolding two_segments_def by blast+
  then show ?thesis
    using load_elf_accepts [OF ex_new_proc_facts(1) _ ex_new_proc_facts(2-5), of "0x80200000" "0x80200100"]
    by (auto simp: ex_elf_table skipped_def elf_codes zero_phdr_def)
qed

theorem exec_page_contents_witness:
  "\<exists>e P' s'. load_elf 0x80200000 0x80200100 0x500 ex_new_proc = Ok (0, e, P')
     \<and> load_page 0x401000 1 0x100000 (pvm P') = Ok (0, s')
     \<and> mem_get 0x80100000 (k_mem s') 5 = of_nat 0x2005 \<and> mem_get 0x80100000 (k_mem s') 0x900 = 0"
proof -
  have "seg_sane ex_h1 20000" "seg_sane ex_h2 20000" by (simp_all add: seg_sane_def)
  moreover have "pages_needed (unat (p_vaddr ex_h1)) (unat (p_memsz ex_h1)) = 2" by (simp add: pages_needed_def)
  ultimately show ?thesis
    using exec_page_contents [OF ex_new_proc_facts(1) _ ex_new_proc_facts(2-5) ex_two_segments ex_new_proc_facts(6,7),
        where g = Text and h = ex_h1 and d = "0x1000" and p = "0x100000" and ebuf = "0x80200000" and pbuf = "0x80200100"]
      ex_new_proc_facts(8)
    by (fastforce simp: MAX_PROC_def vm_consts seg_byte_def ex_img_def)
qed

end
