(* ===== verification/Thread_List.thy ===== *)
theory Thread_List
  imports Synch
begin

text \<open>
  Thread lists (\<^verbatim>\<open>kern/thread/threadlist.c\<close>): doubly linked lists whose nodes lie inside
  the thread structures, with two bookends inside the list structure; and the parts of
  \<^verbatim>\<open>kern/thread/thread.c\<close> that move threads between such lists. The pointer operations
  implement operations on lists of threads (the locale \<open>thread_queues\<close> is what the code above
  relies on), so the wait channels of the synchronisation primitives are the lists they are taken
  for.
\<close>

section \<open>Data\<close>

text \<open>
  The lists of the kernel, by the structure they are part of: a wait channel, the run queue or the
  zombies of a processor, a local variable. A node is the one of a thread or a bookend.
\<close>

datatype tl_addr = Wchan ptr | RunQueue ptr | Zombies ptr | Local ptr

datatype tln_addr = Node tid | Head tl_addr | Tail tl_addr

record threadlistnode =
  tln_prev :: "tln_addr option"
  tln_next :: "tln_addr option"
  tln_self :: tid

datatype threadstate = S_RUN | S_READY | S_SLEEP | S_ZOMBIE

text \<open>The memory these functions work on: nodes, counts, and of each thread its state and processor.\<close>

record tlmem =
  tln :: "tln_addr \<Rightarrow> threadlistnode"
  tl_count :: "tl_addr \<Rightarrow> 32 word"
  t_state :: "tid \<Rightarrow> threadstate"
  t_cpu :: "tid \<Rightarrow> ptr"

definition upd_node :: "tln_addr \<Rightarrow> (threadlistnode \<Rightarrow> threadlistnode) \<Rightarrow> tlmem \<Rightarrow> tlmem" where
  "upd_node a f h = h\<lparr>tln := (tln h)(a := f (tln h a))\<rparr>"

definition upd_count :: "tl_addr \<Rightarrow> (32 word \<Rightarrow> 32 word) \<Rightarrow> tlmem \<Rightarrow> tlmem" where
  "upd_count l f h = h\<lparr>tl_count := (tl_count h)(l := f (tl_count h l))\<rparr>"

text \<open>Access through a pointer that may be null.\<close>

definition via :: "'a option \<Rightarrow> ('a \<Rightarrow> 'b kres) \<Rightarrow> 'b kres" where
  "via p k = (case p of None \<Rightarrow> Fail NullDeref | Some a \<Rightarrow> k a)"

lemma via_simps [simp]: "via (Some a) k = k a" "via None k = Fail NullDeref"
  by (simp_all add: via_def)

section \<open>Operations\<close>

definition threadlistnode_init :: "tid \<Rightarrow> tlmem \<Rightarrow> tlmem kres" where
  "threadlistnode_init t h =
     kassert (t \<noteq> NULL) (Ok (upd_node (Node t) (\<lambda>n. \<lparr>tln_prev = None, tln_next = None, tln_self = t\<rparr>) h))"

definition threadlistnode_cleanup :: "tid \<Rightarrow> tlmem \<Rightarrow> tlmem kres" where
  "threadlistnode_cleanup t h =
     kassert (tln_next (tln h (Node t)) = None)
       (kassert (tln_prev (tln h (Node t)) = None)
         (kassert (tln_self (tln h (Node t)) \<noteq> NULL) (Ok h)))"

definition threadlist_init :: "tl_addr \<Rightarrow> tlmem \<Rightarrow> tlmem" where
  "threadlist_init l h =
     upd_count l (\<lambda>_. 0)
       (upd_node (Tail l) (\<lambda>_. \<lparr>tln_prev = Some (Head l), tln_next = None, tln_self = NULL\<rparr>)
         (upd_node (Head l) (\<lambda>_. \<lparr>tln_prev = None, tln_next = Some (Tail l), tln_self = NULL\<rparr>) h))"

definition threadlist_isempty :: "tl_addr \<Rightarrow> tlmem \<Rightarrow> bool" where
  "threadlist_isempty l h \<longleftrightarrow> tl_count h l = 0"

definition threadlist_cleanup :: "tl_addr \<Rightarrow> tlmem \<Rightarrow> tlmem kres" where
  "threadlist_cleanup l h = kassert (threadlist_isempty l h) (kassert (tl_count h l = 0) (Ok h))"

definition threadlist_insertafternode :: "tln_addr \<Rightarrow> tid \<Rightarrow> tlmem \<Rightarrow> tlmem kres" where
  "threadlist_insertafternode onlist t h =
     (let addee = Node t;
          h = upd_node addee (\<lambda>n. n\<lparr>tln_prev := Some onlist\<rparr>) h;
          h = upd_node addee (\<lambda>n. n\<lparr>tln_next := tln_next (tln h onlist)\<rparr>) h
      in via (tln_prev (tln h addee)) (\<lambda>p.
           let h = upd_node p (\<lambda>n. n\<lparr>tln_next := Some addee\<rparr>) h
           in via (tln_next (tln h addee)) (\<lambda>q. Ok (upd_node q (\<lambda>n. n\<lparr>tln_prev := Some addee\<rparr>) h))))"

definition threadlist_insertbeforenode :: "tid \<Rightarrow> tln_addr \<Rightarrow> tlmem \<Rightarrow> tlmem kres" where
  "threadlist_insertbeforenode t onlist h =
     (let addee = Node t;
          h = upd_node addee (\<lambda>n. n\<lparr>tln_prev := tln_prev (tln h onlist)\<rparr>) h;
          h = upd_node addee (\<lambda>n. n\<lparr>tln_next := Some onlist\<rparr>) h
      in via (tln_prev (tln h addee)) (\<lambda>p.
           let h = upd_node p (\<lambda>n. n\<lparr>tln_next := Some addee\<rparr>) h
           in via (tln_next (tln h addee)) (\<lambda>q. Ok (upd_node q (\<lambda>n. n\<lparr>tln_prev := Some addee\<rparr>) h))))"

definition threadlist_removenode :: "tln_addr \<Rightarrow> tlmem \<Rightarrow> tlmem kres" where
  "threadlist_removenode a h =
     via (tln_prev (tln h a)) (\<lambda>p.
       let h = upd_node p (\<lambda>n. n\<lparr>tln_next := tln_next (tln h a)\<rparr>) h
       in via (tln_next (tln h a)) (\<lambda>q.
            let h = upd_node q (\<lambda>n. n\<lparr>tln_prev := tln_prev (tln h a)\<rparr>) h
            in Ok (upd_node a (\<lambda>n. n\<lparr>tln_next := None\<rparr>) (upd_node a (\<lambda>n. n\<lparr>tln_prev := None\<rparr>) h))))"

definition threadlist_addhead :: "tl_addr \<Rightarrow> tid \<Rightarrow> tlmem \<Rightarrow> tlmem kres" where
  "threadlist_addhead l t h =
     kbind (threadlist_insertafternode (Head l) t h) (\<lambda>h. Ok (upd_count l (\<lambda>c. c + 1) h))"

definition threadlist_addtail :: "tl_addr \<Rightarrow> tid \<Rightarrow> tlmem \<Rightarrow> tlmem kres" where
  "threadlist_addtail l t h =
     kbind (threadlist_insertbeforenode t (Tail l) h) (\<lambda>h. Ok (upd_count l (\<lambda>c. c + 1) h))"

definition threadlist_remhead :: "tl_addr \<Rightarrow> tlmem \<Rightarrow> (tid \<times> tlmem) kres" where
  "threadlist_remhead l h =
     via (tln_next (tln h (Head l))) (\<lambda>a.
       if tln_next (tln h a) = None then Ok (NULL, h)
       else kbind (threadlist_removenode a h) (\<lambda>h.
              let h = upd_count l (\<lambda>c. c - 1) h in Ok (tln_self (tln h a), h)))"

definition threadlist_remtail :: "tl_addr \<Rightarrow> tlmem \<Rightarrow> (tid \<times> tlmem) kres" where
  "threadlist_remtail l h =
     via (tln_prev (tln h (Tail l))) (\<lambda>a.
       if tln_prev (tln h a) = None then Ok (NULL, h)
       else kbind (threadlist_removenode a h) (\<lambda>h.
              let h = upd_count l (\<lambda>c. c - 1) h in Ok (tln_self (tln h a), h)))"

definition threadlist_insertafter :: "tl_addr \<Rightarrow> tid \<Rightarrow> tid \<Rightarrow> tlmem \<Rightarrow> tlmem kres" where
  "threadlist_insertafter l onlist addee h =
     kbind (threadlist_insertafternode (Node onlist) addee h) (\<lambda>h. Ok (upd_count l (\<lambda>c. c + 1) h))"

definition threadlist_insertbefore :: "tl_addr \<Rightarrow> tid \<Rightarrow> tid \<Rightarrow> tlmem \<Rightarrow> tlmem kres" where
  "threadlist_insertbefore l addee onlist h =
     kbind (threadlist_insertbeforenode addee (Node onlist) h) (\<lambda>h. Ok (upd_count l (\<lambda>c. c + 1) h))"

definition threadlist_remove :: "tl_addr \<Rightarrow> tid \<Rightarrow> tlmem \<Rightarrow> tlmem kres" where
  "threadlist_remove l t h =
     kbind (threadlist_removenode (Node t) h) (\<lambda>h. Ok (upd_count l (\<lambda>c. c - 1) h))"

section \<open>Moving threads\<close>

text \<open>The loop \<open>while ((t = threadlist_remhead(l)) != NULL) body(t)\<close>.\<close>

partial_function (option) drain ::
  "('h \<Rightarrow> (tid \<times> 'h) kres) \<Rightarrow> (tid \<Rightarrow> 'h \<Rightarrow> 'h kres) \<Rightarrow> 'h \<Rightarrow> 'h kres option" where
  "drain rem body h =
     (case rem h of
        Fail e \<Rightarrow> Some (Fail e)
      | Ok (t, h) \<Rightarrow>
          if t = NULL then Some (Ok h)
          else (case body t h of Fail e \<Rightarrow> Some (Fail e) | Ok h \<Rightarrow> drain rem body h))"

text \<open>\<open>thread_make_runnable\<close>; the interrupt sent to an idle processor has no effect on the lists.\<close>

definition thread_make_runnable :: "tid \<Rightarrow> tlmem \<Rightarrow> tlmem kres" where
  "thread_make_runnable t h =
     (let h = h\<lparr>t_state := (t_state h)(t := S_READY)\<rparr> in threadlist_addtail (RunQueue (t_cpu h t)) t h)"

definition wchan_init :: "ptr \<Rightarrow> tlmem \<Rightarrow> tlmem" where
  "wchan_init wc h = threadlist_init (Wchan wc) h"

definition wchan_wakeone_tl :: "ptr \<Rightarrow> tlmem \<Rightarrow> tlmem kres" where
  "wchan_wakeone_tl wc h =
     kbind (threadlist_remhead (Wchan wc) h) (\<lambda>(t, h). if t = NULL then Ok h else thread_make_runnable t h)"

text \<open>\<open>wchan_wakeall\<close>; \<open>x\<close> is the address of its local list.\<close>

definition wchan_wakeall_tl :: "ptr \<Rightarrow> ptr \<Rightarrow> tlmem \<Rightarrow> tlmem kres" where
  "wchan_wakeall_tl x wc h =
     (let h = threadlist_init (Local x) h
      in kbind (from_loop (drain (threadlist_remhead (Wchan wc)) (threadlist_addtail (Local x)) h)) (\<lambda>h.
         kbind (from_loop (drain (threadlist_remhead (Local x)) thread_make_runnable h)) (\<lambda>h.
         threadlist_cleanup (Local x) h)))"

section \<open>What a list of nodes represents\<close>

text \<open>Neighbours point to each other.\<close>

fun dlinks :: "(tln_addr \<Rightarrow> threadlistnode) \<Rightarrow> tln_addr list \<Rightarrow> bool" where
  "dlinks n (a # b # as) \<longleftrightarrow> tln_next (n a) = Some b \<and> tln_prev (n b) = Some a \<and> dlinks n (b # as)"
| "dlinks n as \<longleftrightarrow> True"

definition tl_nodes :: "tl_addr \<Rightarrow> tid list \<Rightarrow> tln_addr list" where
  "tl_nodes l ts = Head l # map Node ts @ [Tail l]"

definition tl_rep :: "tlmem \<Rightarrow> tl_addr \<Rightarrow> tid list \<Rightarrow> bool" where
  "tl_rep h l ts \<longleftrightarrow>
     dlinks (tln h) (tl_nodes l ts) \<and> tln_prev (tln h (Head l)) = None \<and> tln_next (tln h (Tail l)) = None \<and>
     distinct ts \<and> (\<forall>t \<in> set ts. t \<noteq> NULL \<and> tln_self (tln h (Node t)) = t) \<and>
     tl_count h l = of_nat (length ts)"

definition loose :: "tlmem \<Rightarrow> tid \<Rightarrow> bool" where
  "loose h t \<longleftrightarrow> t \<noteq> NULL \<and> tln h (Node t) = \<lparr>tln_prev = None, tln_next = None, tln_self = t\<rparr>"

text \<open>
  The abstract state: the lists \<open>L\<close> in use hold the threads \<open>q l\<close>, no thread is on two lists, and the
  threads \<open>F\<close> are on none.
\<close>

definition tl_state :: "tl_addr set \<Rightarrow> tlmem \<Rightarrow> (tl_addr \<Rightarrow> tid list) \<Rightarrow> tid set \<Rightarrow> bool" where
  "tl_state L h q F \<longleftrightarrow>
     (\<forall>l \<in> L. tl_rep h l (q l)) \<and> (\<forall>l \<in> L. \<forall>k \<in> L. l \<noteq> k \<longrightarrow> set (q l) \<inter> set (q k) = {}) \<and>
     (\<forall>t \<in> F. loose h t \<and> (\<forall>l \<in> L. t \<notin> set (q l)))"

lemma dlinks_split:
  "dlinks n (xs @ a # b # ys) \<longleftrightarrow>
     dlinks n (xs @ [a]) \<and> tln_next (n a) = Some b \<and> tln_prev (n b) = Some a \<and> dlinks n (b # ys)"
proof (induction xs)
  case (Cons x xs)
  then show ?case by (cases xs) auto
qed simp

lemma dlinks_cong:
  assumes "\<forall>a \<in> set (butlast as). tln_next (n a) = tln_next (n' a)" "\<forall>a \<in> set (tl as). tln_prev (n a) = tln_prev (n' a)"
  shows "dlinks n as = dlinks n' as"
  using assms by (induction n as rule: dlinks.induct) auto

text \<open>The memory after a node is spliced in between \<open>a\<close> and \<open>b\<close>, and after it is taken out.\<close>

definition spliced :: "tln_addr \<Rightarrow> tln_addr \<Rightarrow> tln_addr \<Rightarrow> (tln_addr \<Rightarrow> threadlistnode) \<Rightarrow> tln_addr \<Rightarrow> threadlistnode" where
  "spliced a n b m =
     (let m = m(n := (m n)\<lparr>tln_prev := Some a, tln_next := Some b\<rparr>); m = m(a := (m a)\<lparr>tln_next := Some n\<rparr>)
      in m(b := (m b)\<lparr>tln_prev := Some n\<rparr>))"

definition unspliced :: "tln_addr \<Rightarrow> tln_addr \<Rightarrow> tln_addr \<Rightarrow> (tln_addr \<Rightarrow> threadlistnode) \<Rightarrow> tln_addr \<Rightarrow> threadlistnode" where
  "unspliced a n b m =
     (let m = m(a := (m a)\<lparr>tln_next := Some b\<rparr>); m = m(b := (m b)\<lparr>tln_prev := Some a\<rparr>)
      in m(n := (m n)\<lparr>tln_prev := None, tln_next := None\<rparr>))"

lemma set_tl_snoc: "x \<in> set (tl (xs @ [a])) \<Longrightarrow> x \<in> set xs \<or> x = a"
  by (cases xs) auto

lemma dlinks_spliced:
  assumes "dlinks m (xs @ a # b # ys)" "distinct (xs @ a # b # ys)" "n \<notin> set (xs @ a # b # ys)"
  shows "dlinks (spliced a n b m) (xs @ a # n # b # ys)"
proof -
  have "dlinks (spliced a n b m) (xs @ [a]) = dlinks m (xs @ [a])"
    using assms(2,3) by (intro dlinks_cong) (auto simp: spliced_def Let_def dest!: set_tl_snoc)
  moreover have "dlinks (spliced a n b m) (b # ys) = dlinks m (b # ys)"
    using assms(2,3) by (intro dlinks_cong) (auto simp: spliced_def Let_def dest: in_set_butlastD)
  moreover have "dlinks (spliced a n b m) (a # n # b # ys) \<longleftrightarrow> dlinks (spliced a n b m) (b # ys)"
    using assms(2,3) by (auto simp: spliced_def Let_def)
  ultimately show ?thesis
    using assms(1) dlinks_split [of _ xs a n "b # ys"] dlinks_split [of _ xs a b ys] by auto
qed

lemma dlinks_unspliced:
  assumes "dlinks m (xs @ a # n # b # ys)" "distinct (xs @ a # n # b # ys)"
  shows "dlinks (unspliced a n b m) (xs @ a # b # ys)"
proof -
  have "dlinks (unspliced a n b m) (xs @ [a]) = dlinks m (xs @ [a])"
    using assms(2) by (intro dlinks_cong) (auto simp: unspliced_def Let_def dest!: set_tl_snoc)
  moreover have "dlinks (unspliced a n b m) (b # ys) = dlinks m (b # ys)"
    using assms(2) by (intro dlinks_cong) (auto simp: unspliced_def Let_def dest: in_set_butlastD)
  moreover have "tln_next (unspliced a n b m a) = Some b" "tln_prev (unspliced a n b m b) = Some a"
    using assms(2) by (auto simp: unspliced_def Let_def)
  ultimately show ?thesis
    using assms(1) dlinks_split [of _ xs a b ys] dlinks_split [of _ xs a n "b # ys"] by auto
qed

text \<open>What the node functions do, given the neighbours.\<close>

lemma insertafternode_eq:
  assumes "tln_next (tln h a) = Some b" "a \<noteq> Node t" "b \<noteq> Node t"
  shows "threadlist_insertafternode a t h = Ok (h\<lparr>tln := spliced a (Node t) b (tln h)\<rparr>)"
  using assms by (simp add: threadlist_insertafternode_def upd_node_def spliced_def Let_def)

lemma insertbeforenode_eq:
  assumes "tln_prev (tln h b) = Some a" "a \<noteq> Node t" "b \<noteq> Node t"
  shows "threadlist_insertbeforenode t b h = Ok (h\<lparr>tln := spliced a (Node t) b (tln h)\<rparr>)"
  using assms by (simp add: threadlist_insertbeforenode_def upd_node_def spliced_def Let_def)

lemma removenode_eq:
  assumes "tln_prev (tln h n) = Some a" "tln_next (tln h n) = Some b" "a \<noteq> n" "b \<noteq> n" "a \<noteq> b"
  shows "threadlist_removenode n h = Ok (h\<lparr>tln := unspliced a n b (tln h)\<rparr>)"
  using assms by (simp add: threadlist_removenode_def upd_node_def unspliced_def Let_def fun_upd_twist)

section \<open>Splicing in the abstract state\<close>

definition before :: "tl_addr \<Rightarrow> tid list \<Rightarrow> tln_addr" where
  "before l xs = last (Head l # map Node xs)"

definition after :: "tl_addr \<Rightarrow> tid list \<Rightarrow> tln_addr" where
  "after l ys = hd (map Node ys @ [Tail l])"

lemma tl_nodes_split:
  "\<exists>X Y. tl_nodes l (xs @ ys) = X @ before l xs # after l ys # Y
    \<and> (\<forall>t. tl_nodes l (xs @ t # ys) = X @ before l xs # Node t # after l ys # Y)"
proof -
  obtain X where X: "Head l # map Node xs = X @ [before l xs]"
    using append_butlast_last_id [of "Head l # map Node xs", symmetric] unfolding before_def by blast
  obtain Y where Y: "map Node ys @ [Tail l] = after l ys # Y"
    by (cases "map Node ys @ [Tail l]") (auto simp: after_def)
  have "tl_nodes l (xs @ zs @ ys) = (X @ [before l xs]) @ map Node zs @ after l ys # Y" for zs
    unfolding X [symmetric] Y [symmetric] by (simp add: tl_nodes_def)
  from this [of "[]"] this [of "[t]" for t] show ?thesis by - (rule exI, rule exI, auto)
qed

lemma tl_nodes_distinct: "distinct (tl_nodes l ts) \<longleftrightarrow> distinct ts"
  by (auto simp: tl_nodes_def distinct_map inj_on_def)

lemma tl_nodes_mem: "x \<in> set (tl_nodes l ts) \<longleftrightarrow> x = Head l \<or> x = Tail l \<or> (\<exists>t \<in> set ts. x = Node t)"
  by (auto simp: tl_nodes_def)

lemma end_nodes:
  "before l xs \<in> set (tl_nodes l (xs @ ys))" "after l ys \<in> set (tl_nodes l (xs @ ys))"
  using tl_nodes_split [of l xs ys] by auto

lemma tl_rep_frame:
  assumes "tl_rep h k ts" "\<forall>x \<in> set (tl_nodes k ts). tln h' x = tln h x" "tl_count h' k = tl_count h k"
  shows "tl_rep h' k ts"
proof -
  have "dlinks (tln h') (tl_nodes k ts) = dlinks (tln h) (tl_nodes k ts)"
    using assms(2) by (intro dlinks_cong) (auto dest: in_set_butlastD list.set_sel(2) simp: tl_nodes_def)
  then show ?thesis using assms by (auto simp: tl_rep_def tl_nodes_mem)
qed

lemma spliced_other: "x \<notin> {a, n, b} \<Longrightarrow> spliced a n b m x = m x"
  and unspliced_other: "x \<notin> {a, n, b} \<Longrightarrow> unspliced a n b m x = m x"
  and spliced_self [simp]: "tln_self (spliced a n b m x) = tln_self (m x)"
  and unspliced_self [simp]: "tln_self (unspliced a n b m x) = tln_self (m x)"
  by (auto simp: spliced_def unspliced_def Let_def)

lemma spliced_ends:
  assumes "n \<noteq> Head l" "n \<noteq> Tail l" "a \<noteq> Tail l" "b \<noteq> Head l"
  shows "tln_prev (spliced a n b m (Head l)) = tln_prev (m (Head l))"
    "tln_next (spliced a n b m (Tail l)) = tln_next (m (Tail l))"
    "tln_prev (unspliced a n b m (Head l)) = tln_prev (m (Head l))"
    "tln_next (unspliced a n b m (Tail l)) = tln_next (m (Tail l))"
  using assms by (auto simp: spliced_def unspliced_def Let_def)

lemma end_nodes_neq: "before l xs \<noteq> Tail k" "after l ys \<noteq> Head k"
  by (cases xs rule: rev_cases; simp add: before_def) (cases ys; simp add: after_def)

lemma tl_stateD:
  assumes "tl_state L h q F"
  shows "l \<in> L \<Longrightarrow> tl_rep h l (q l)" "l \<in> L \<Longrightarrow> k \<in> L \<Longrightarrow> l \<noteq> k \<Longrightarrow> set (q l) \<inter> set (q k) = {}"
    "t \<in> F \<Longrightarrow> loose h t" "t \<in> F \<Longrightarrow> l \<in> L \<Longrightarrow> t \<notin> set (q l)"
  using assms unfolding tl_state_def by blast+

text \<open>Only the nodes of one list and the node of one thread are touched.\<close>

lemma tl_state_local:
  assumes S: "tl_state L h q F" and l: "l \<in> L"
    and other: "\<And>x. x \<notin> set (tl_nodes l (q l)) \<Longrightarrow> x \<noteq> Node t \<Longrightarrow> tln h' x = tln h x"
    and cnt: "\<And>k. k \<noteq> l \<Longrightarrow> tl_count h' k = tl_count h k"
    and rep: "tl_rep h' l ts" "set ts \<subseteq> insert t (set (q l))"
    and t: "\<And>k. k \<in> L \<Longrightarrow> k \<noteq> l \<Longrightarrow> t \<notin> set (q k)"
    and F': "\<And>u. u \<in> F' \<Longrightarrow> u \<noteq> t \<Longrightarrow> u \<in> F" "t \<in> F' \<Longrightarrow> loose h' t \<and> t \<notin> set ts"
  shows "tl_state L h' (q(l := ts)) F'"
  unfolding tl_state_def
proof (intro conjI ballI impI)
  note D = tl_stateD [OF S]
  show "tl_rep h' k ((q(l := ts)) k)" if k: "k \<in> L" for k
  proof (cases "k = l")
    case False
    have "tln h' x = tln h x" if "x \<in> set (tl_nodes k (q k))" for x
      using that D(2) [OF k l False] t [OF k False] False by (intro other) (auto simp: tl_nodes_mem)
    then show ?thesis using tl_rep_frame [OF D(1) [OF k]] cnt [OF False] False by simp
  qed (simp add: rep)
  show "set ((q(l := ts)) j) \<inter> set ((q(l := ts)) k) = {}" if "j \<in> L" "k \<in> L" "j \<noteq> k" for j k
    using that rep(2) t D(2) l by (auto; blast)
  fix u assume u: "u \<in> F'"
  show "loose h' u"
    using u F' D(3,4) l other [of "Node u"] by (cases "u = t") (auto simp: loose_def tl_nodes_mem)
  show "u \<notin> set ((q(l := ts)) k)" if "k \<in> L" for k
    using u that F' D(4) l rep(2) t by (cases "u = t") (auto split: if_splits)
qed

lemma tl_rep_links:
  assumes "tl_rep h l (xs @ ys)"
  shows "tln_next (tln h (before l xs)) = Some (after l ys)" "tln_prev (tln h (after l ys)) = Some (before l xs)"
proof -
  obtain X Y where "tl_nodes l (xs @ ys) = X @ before l xs # after l ys # Y" using tl_nodes_split by blast
  then show "tln_next (tln h (before l xs)) = Some (after l ys)" "tln_prev (tln h (after l ys)) = Some (before l xs)"
    using assms dlinks_split [of "tln h" X "before l xs" "after l ys" Y] by (simp_all add: tl_rep_def)
qed

lemma insert_state:
  assumes S: "tl_state L h q F" and l: "l \<in> L" and q: "q l = xs @ ys" and t: "t \<in> F"
  shows "tl_state L (upd_count l (\<lambda>c. c + 1) (h\<lparr>tln := spliced (before l xs) (Node t) (after l ys) (tln h)\<rparr>))
    (q(l := xs @ t # ys)) (F - {t})" (is "tl_state L ?h _ _")
proof (rule tl_state_local [OF S l])
  note D = tl_stateD [OF S]
  have r: "tl_rep h l (xs @ ys)" and nt: "t \<notin> set (xs @ ys)" using D(1,4) l q t by metis+
  then have "Node t \<notin> set (tl_nodes l (xs @ ys))" by (auto simp: tl_nodes_mem)
  moreover obtain X Y where "tl_nodes l (xs @ ys) = X @ before l xs # after l ys # Y"
      "tl_nodes l (xs @ t # ys) = X @ before l xs # Node t # after l ys # Y"
    using tl_nodes_split by blast
  ultimately have "dlinks (tln ?h) (tl_nodes l (xs @ t # ys))"
    using r tl_nodes_distinct [of l "xs @ ys"] dlinks_spliced [of "tln h" X "before l xs" "after l ys" Y "Node t"]
    by (simp add: upd_count_def tl_rep_def)
  then show "tl_rep ?h l (xs @ t # ys)"
    using r nt D(3) [OF t] spliced_ends [OF _ _ end_nodes_neq, of "Node t" l l xs l ys]
    by (auto simp: tl_rep_def upd_count_def loose_def)
  fix x assume "x \<notin> set (tl_nodes l (q l))" "x \<noteq> Node t"
  then show "tln ?h x = tln h x"
    using end_nodes(1) [of l xs ys] end_nodes(2) [of l ys xs] q by (auto simp: upd_count_def intro!: spliced_other)
qed (use q t tl_stateD(4) [OF S] in \<open>auto simp: upd_count_def\<close>)

lemma remove_state:
  assumes S: "tl_state L h q F" and l: "l \<in> L" and q: "q l = xs @ t # ys"
  shows "tl_state L (upd_count l (\<lambda>c. c - 1) (h\<lparr>tln := unspliced (before l xs) (Node t) (after l ys) (tln h)\<rparr>))
    (q(l := xs @ ys)) (insert t F)" (is "tl_state L ?h _ _")
proof (rule tl_state_local [OF S l])
  note D = tl_stateD [OF S]
  have r: "tl_rep h l (xs @ t # ys)" using D(1) l q by metis
  then have "distinct (tl_nodes l (xs @ t # ys))" "dlinks (tln h) (tl_nodes l (xs @ t # ys))"
    by (simp_all add: tl_nodes_distinct tl_rep_def)
  moreover obtain X Y where "tl_nodes l (xs @ ys) = X @ before l xs # after l ys # Y"
      "tl_nodes l (xs @ t # ys) = X @ before l xs # Node t # after l ys # Y"
    using tl_nodes_split by blast
  ultimately have "dlinks (tln ?h) (tl_nodes l (xs @ ys))"
    using dlinks_unspliced [of "tln h" X "before l xs" "Node t" "after l ys" Y] by (simp add: upd_count_def)
  then show "tl_rep ?h l (xs @ ys)"
    using r spliced_ends [OF _ _ end_nodes_neq, of "Node t" l l xs l ys]
    by (auto simp: tl_rep_def upd_count_def)
  show "t \<notin> set (q k)" if "k \<in> L" "k \<noteq> l" for k using D(2) [OF that(1) l that(2)] q by auto
  have ne: "before l xs \<noteq> Node t" "after l ys \<noteq> Node t"
    using r end_nodes(1) [of l xs ys] end_nodes(2) [of l ys xs] by (auto simp: tl_rep_def tl_nodes_mem)
  show "loose ?h t \<and> t \<notin> set (xs @ ys)" if "t \<in> insert t F"
    using r ne by (auto simp: loose_def tl_rep_def upd_count_def unspliced_def Let_def)
  fix x assume x: "x \<notin> set (tl_nodes l (q l))" "x \<noteq> Node t"
  then have "x \<noteq> before l xs" "x \<noteq> after l ys"
    using end_nodes(1) [of l xs "t # ys"] end_nodes(2) [of l ys "xs @ [t]"] q by auto
  then show "tln ?h x = tln h x"
    using x by (simp add: upd_count_def unspliced_other)
qed (use q in \<open>auto simp: upd_count_def\<close>)

section \<open>The operations on lists\<close>

lemma before_simps [simp]: "before l [] = Head l" "before l (xs @ [u]) = Node u"
  by (simp_all add: before_def)

lemma after_simps [simp]: "after l [] = Tail l" "after l (u # ys) = Node u"
  by (simp_all add: after_def)

lemma rep_neq:
  assumes "tl_state L h q F" "l \<in> L" "q l = xs @ ys" "t \<in> F"
  shows "before l xs \<noteq> Node t" "after l ys \<noteq> Node t"
  using tl_stateD(4) [OF assms(1,4,2)] assms(3) end_nodes(1) [of l xs ys] end_nodes(2) [of l ys xs]
  by (auto simp: tl_nodes_mem)

lemma insertafternode_state:
  assumes "tl_state L h q F" "l \<in> L" "q l = xs @ ys" "t \<in> F"
  shows "\<exists>h'. kbind (threadlist_insertafternode (before l xs) t h) (\<lambda>h. Ok (upd_count l (\<lambda>c. c + 1) h)) = Ok h'
    \<and> tl_state L h' (q(l := xs @ t # ys)) (F - {t}) \<and> t_cpu h' = t_cpu h"
  using insertafternode_eq [OF tl_rep_links(1) rep_neq [OF assms], of h] insert_state [OF assms]
    tl_stateD(1) [OF assms(1,2)] assms(3) by (simp add: upd_count_def)

lemma insertbeforenode_state:
  assumes "tl_state L h q F" "l \<in> L" "q l = xs @ ys" "t \<in> F"
  shows "\<exists>h'. kbind (threadlist_insertbeforenode t (after l ys) h) (\<lambda>h. Ok (upd_count l (\<lambda>c. c + 1) h)) = Ok h'
    \<and> tl_state L h' (q(l := xs @ t # ys)) (F - {t}) \<and> t_cpu h' = t_cpu h"
  using insertbeforenode_eq [OF tl_rep_links(2) rep_neq [OF assms], of h] insert_state [OF assms]
    tl_stateD(1) [OF assms(1,2)] assms(3) by (simp add: upd_count_def)

lemma removenode_state:
  assumes "tl_state L h q F" "l \<in> L" "q l = xs @ t # ys"
  shows "\<exists>h'. threadlist_removenode (Node t) h = Ok h'
    \<and> tl_state L (upd_count l (\<lambda>c. c - 1) h') (q(l := xs @ ys)) (insert t F)
    \<and> tln_self (tln h' (Node t)) = t \<and> t_cpu h' = t_cpu h"
proof -
  have r: "tl_rep h l (xs @ t # ys)" using tl_stateD(1) [OF assms(1,2)] assms(3) by simp
  obtain X Y where "tl_nodes l (xs @ t # ys) = X @ before l xs # Node t # after l ys # Y" using tl_nodes_split by blast
  moreover have "distinct (tl_nodes l (xs @ t # ys))" using r by (simp add: tl_nodes_distinct tl_rep_def)
  ultimately have "before l xs \<noteq> Node t" "after l ys \<noteq> Node t" "before l xs \<noteq> after l ys" by auto
  moreover have "tln_prev (tln h (Node t)) = Some (before l xs)" "tln_next (tln h (Node t)) = Some (after l ys)"
    using tl_rep_links(2) [of h l xs "t # ys"] tl_rep_links(1) [of h l "xs @ [t]" ys] r by simp_all
  ultimately have "threadlist_removenode (Node t) h = Ok (h\<lparr>tln := unspliced (before l xs) (Node t) (after l ys) (tln h)\<rparr>)"
    by (intro removenode_eq) auto
  moreover have "tln_self (tln h (Node t)) = t" using r by (simp add: tl_rep_def)
  ultimately show ?thesis using remove_state [OF assms] by simp
qed

lemma addhead_state:
  "tl_state L h q F \<Longrightarrow> l \<in> L \<Longrightarrow> t \<in> F \<Longrightarrow>
     \<exists>h'. threadlist_addhead l t h = Ok h' \<and> tl_state L h' (q(l := t # q l)) (F - {t}) \<and> t_cpu h' = t_cpu h"
  using insertafternode_state [of L h q F l "[]" "q l" t] by (simp add: threadlist_addhead_def)

lemma addtail_state:
  "tl_state L h q F \<Longrightarrow> l \<in> L \<Longrightarrow> t \<in> F \<Longrightarrow>
     \<exists>h'. threadlist_addtail l t h = Ok h' \<and> tl_state L h' (q(l := q l @ [t])) (F - {t}) \<and> t_cpu h' = t_cpu h"
  using insertbeforenode_state [of L h q F l "q l" "[]" t] by (simp add: threadlist_addtail_def)

lemma rem_empty_state:
  assumes "tl_state L h q F" "l \<in> L" "q l = []"
  shows "threadlist_remhead l h = Ok (NULL, h)" "threadlist_remtail l h = Ok (NULL, h)"
  using tl_stateD(1) [OF assms(1,2)] assms(3)
  by (simp_all add: threadlist_remhead_def threadlist_remtail_def tl_rep_def tl_nodes_def)

lemma remhead_state:
  assumes "tl_state L h q F" "l \<in> L" "q l = t # ts"
  shows "\<exists>h'. threadlist_remhead l h = Ok (t, h') \<and> tl_state L h' (q(l := ts)) (insert t F) \<and> t_cpu h' = t_cpu h"
proof -
  have r: "tl_rep h l (t # ts)" using tl_stateD(1) [OF assms(1,2)] assms(3) by simp
  have n: "tln_next (tln h (Head l)) = Some (Node t)" "tln_next (tln h (Node t)) = Some (after l ts)"
    using tl_rep_links(1) [of h l "[]" "t # ts"] tl_rep_links(1) [of h l "[t]" ts] r
    by (simp_all add: before_def)
  obtain h' where "threadlist_removenode (Node t) h = Ok h'" "tln_self (tln h' (Node t)) = t" "t_cpu h' = t_cpu h"
      "tl_state L (upd_count l (\<lambda>c. c - 1) h') (q(l := ts)) (insert t F)"
    using removenode_state [of L h q F l "[]" t ts] assms by auto
  then show ?thesis using n by (simp add: threadlist_remhead_def Let_def upd_count_def)
qed

lemma remtail_state:
  assumes "tl_state L h q F" "l \<in> L" "q l = ts @ [t]"
  shows "\<exists>h'. threadlist_remtail l h = Ok (t, h') \<and> tl_state L h' (q(l := ts)) (insert t F) \<and> t_cpu h' = t_cpu h"
proof -
  have r: "tl_rep h l (ts @ [t])" using tl_stateD(1) [OF assms(1,2)] assms(3) by simp
  have n: "tln_prev (tln h (Tail l)) = Some (Node t)" "tln_prev (tln h (Node t)) = Some (before l ts)"
    using tl_rep_links(2) [of h l "ts @ [t]" "[]"] tl_rep_links(2) [of h l ts "[t]"] r by simp_all
  obtain h' where "threadlist_removenode (Node t) h = Ok h'" "tln_self (tln h' (Node t)) = t" "t_cpu h' = t_cpu h"
      "tl_state L (upd_count l (\<lambda>c. c - 1) h') (q(l := ts)) (insert t F)"
    using removenode_state [of L h q F l ts t "[]"] assms by auto
  then show ?thesis using n by (simp add: threadlist_remtail_def Let_def upd_count_def)
qed

section \<open>The interface\<close>

text \<open>
  What the thread code relies on: threads are added at the end and taken from the front of lists
  that do not share threads.
\<close>

locale thread_queues =
  fixes L :: "'l set"
    and st :: "'h \<Rightarrow> ('l \<Rightarrow> tid list) \<Rightarrow> tid set \<Rightarrow> bool"
    and addtail :: "'l \<Rightarrow> tid \<Rightarrow> 'h \<Rightarrow> 'h kres"
    and remhead :: "'l \<Rightarrow> 'h \<Rightarrow> (tid \<times> 'h) kres"
  assumes addtail_law: "st h q F \<Longrightarrow> l \<in> L \<Longrightarrow> t \<in> F \<Longrightarrow> \<exists>h'. addtail l t h = Ok h' \<and> st h' (q(l := q l @ [t])) (F - {t})"
    and remhead_empty: "st h q F \<Longrightarrow> l \<in> L \<Longrightarrow> q l = [] \<Longrightarrow> remhead l h = Ok (NULL, h)"
    and remhead_law: "st h q F \<Longrightarrow> l \<in> L \<Longrightarrow> q l = t # ts \<Longrightarrow>
      \<exists>h'. remhead l h = Ok (t, h') \<and> st h' (q(l := ts)) (insert t F)"
    and not_null: "st h q F \<Longrightarrow> l \<in> L \<Longrightarrow> t \<in> set (q l) \<Longrightarrow> t \<noteq> NULL"
    and not_free: "st h q F \<Longrightarrow> l \<in> L \<Longrightarrow> t \<in> set (q l) \<Longrightarrow> t \<notin> F"
begin

text \<open>
  A loop that empties one list ends, and if its body appends each thread to the list
  \<open>route t\<close>, the threads arrive there in the order in which they were on the list.
\<close>

lemma drain_routes:
  assumes "st h q F" "l \<in> L"
    and "\<And>h q F t. st h q F \<Longrightarrow> t \<in> F \<Longrightarrow> t \<in> T \<Longrightarrow> I h \<Longrightarrow> route t \<in> L \<and> route t \<noteq> l
      \<and> (\<exists>h'. body t h = Ok h' \<and> st h' (q(route t := q (route t) @ [t])) (F - {t}) \<and> I h')"
    and "I h" "set (q l) \<subseteq> T" "\<And>h t h'. I h \<Longrightarrow> remhead l h = Ok (t, h') \<Longrightarrow> I h'"
  shows "\<exists>h'. drain (remhead l) body h = Some (Ok h') \<and> I h'
    \<and> st h' (\<lambda>k. if k = l then [] else q k @ filter (\<lambda>t. route t = k) (q l)) F"
  using assms(1,4,5)
proof (induction "q l" arbitrary: h q)
  case Nil
  have "q = (\<lambda>k. if k = l then [] else q k @ filter (\<lambda>t. route t = k) (q l))" using Nil.hyps by auto
  then show ?case
    using remhead_empty [OF Nil.prems(1) assms(2) Nil.hyps [symmetric]] Nil.prems by (subst drain.simps) auto
next
  case (Cons t ts)
  obtain h1 where h1: "remhead l h = Ok (t, h1)" "st h1 (q(l := ts)) (insert t F)"
    using remhead_law [OF Cons.prems(1) assms(2) Cons.hyps(2) [symmetric]] by blast
  have tT: "t \<in> T" "set ts \<subseteq> T" using Cons.prems(3) unfolding Cons.hyps(2) [symmetric] by simp_all
  have "I h1" using assms(6) Cons.prems(2) h1(1) by blast
  from assms(3) [OF h1(2) insertI1 tT(1) this] obtain h2 where h2: "route t \<in> L" "route t \<noteq> l" "body t h1 = Ok h2" "I h2"
      "st h2 ((q(l := ts))(route t := q (route t) @ [t])) (insert t F - {t})"
    by auto
  let ?q = "(q(l := ts))(route t := q (route t) @ [t])"
  have "t \<in> set (q l)" using Cons.hyps(2) by (metis list.set_intros(1))
  then have "t \<noteq> NULL" "t \<notin> F" using not_null not_free Cons.prems(1) assms(2) by blast+
  moreover have "ts = ?q l" using h2(2) by simp
  moreover have "(\<lambda>k. if k = l then [] else ?q k @ filter (\<lambda>t. route t = k) (?q l)) =
      (\<lambda>k. if k = l then [] else q k @ filter (\<lambda>t. route t = k) (q l))"
    using h2(2) by (auto simp flip: Cons.hyps(2))
  ultimately show ?case
    using Cons.hyps(1) [of ?q h2] h2(4,5) h1(1) h2(3) tT(2) by (subst drain.simps) auto
qed

end

interpretation tlq: thread_queues L "tl_state L" threadlist_addtail threadlist_remhead for L
proof unfold_locales
  fix h q F l t ts
  assume S: "tl_state L h q F" and l: "l \<in> L"
  note D = tl_stateD [OF S]
  show "\<exists>h'. threadlist_addtail l t h = Ok h' \<and> tl_state L h' (q(l := q l @ [t])) (F - {t})" if "t \<in> F"
    using addtail_state [OF S l that] by blast
  show "threadlist_remhead l h = Ok (NULL, h)" if "q l = []" using rem_empty_state(1) [OF S l that] .
  show "\<exists>h'. threadlist_remhead l h = Ok (t, h') \<and> tl_state L h' (q(l := ts)) (insert t F)" if "q l = t # ts"
    using remhead_state [OF S l that] by blast
  show "t \<noteq> NULL" if "t \<in> set (q l)" using D(1) [OF l] that by (auto simp: tl_rep_def)
  show "t \<notin> F" if "t \<in> set (q l)" using D(4) [OF _ l] that by blast
qed

section \<open>Waking up the threads of a wait channel\<close>

lemma tl_state_init:
  assumes "tl_state L h q F" "l \<notin> L"
  shows "tl_state (insert l L) (threadlist_init l h) (q(l := [])) F"
proof -
  note D = tl_stateD [OF assms(1)]
  have "tl_rep (threadlist_init l h) l []"
    by (simp add: tl_rep_def tl_nodes_def threadlist_init_def upd_node_def upd_count_def)
  moreover have "tl_rep (threadlist_init l h) k (q k)" if "k \<in> L" for k
  proof -
    have "k \<noteq> l" using that assms(2) by blast
    then show ?thesis
      by (intro tl_rep_frame [OF D(1) [OF that]])
         (auto simp: tl_nodes_mem threadlist_init_def upd_node_def upd_count_def)
  qed
  moreover have "loose (threadlist_init l h) t" if "t \<in> F" for t
    using D(3) [OF that] by (simp add: loose_def threadlist_init_def upd_node_def upd_count_def)
  moreover have "(q(l := [])) k = q k" if "k \<in> L" for k using that assms(2) by auto
  ultimately show ?thesis using D(2,4) unfolding tl_state_def by simp
qed

lemma tl_state_mono: "tl_state L h q F \<Longrightarrow> K \<subseteq> L \<Longrightarrow> (\<And>l. l \<in> K \<Longrightarrow> q' l = q l) \<Longrightarrow> tl_state K h q' F"
  unfolding tl_state_def by (auto simp: subset_iff)

lemma remhead_cpu: "threadlist_remhead l h = Ok (t, h') \<Longrightarrow> t_cpu h' = t_cpu h"
  by (auto simp: threadlist_remhead_def threadlist_removenode_def via_def upd_node_def upd_count_def Let_def
      split: option.splits if_splits)

lemma make_runnable_state:
  assumes "tl_state L h q F" "t \<in> F" "RunQueue (t_cpu h t) \<in> L"
  shows "\<exists>h'. thread_make_runnable t h = Ok h'
    \<and> tl_state L h' (q(RunQueue (t_cpu h t) := q (RunQueue (t_cpu h t)) @ [t])) (F - {t}) \<and> t_cpu h' = t_cpu h"
proof -
  have "tl_state L (h\<lparr>t_state := f\<rparr>) q F" for f using assms(1) by (simp add: tl_state_def tl_rep_def loose_def)
  from addtail_state [OF this assms(3,2), of "(t_state h)(t := S_READY)"] show ?thesis
    by (simp add: thread_make_runnable_def Let_def)
qed

lemma wakeall_state:
  assumes S: "tl_state L h q F" and wc: "Wchan wc \<in> L" and x: "Local x \<notin> L"
    and cpu: "\<And>t. t \<in> set (q (Wchan wc)) \<Longrightarrow> RunQueue (t_cpu h t) \<in> L"
  shows "\<exists>h'. wchan_wakeall_tl x wc h = Ok h' \<and> tl_state L h'
      (\<lambda>l. if l = Wchan wc then [] else q l @ filter (\<lambda>t. RunQueue (t_cpu h t) = l) (q (Wchan wc))) F"
proof -
  let ?L = "insert (Local x) L" and ?T = "set (q (Wchan wc))" and ?q0 = "q(Local x := [])" and ?h0 = "threadlist_init (Local x) h"
  have S0: "tl_state ?L ?h0 ?q0 F" by (rule tl_state_init [OF S x])
  have cpu0: "t_cpu ?h0 = t_cpu h" by (simp add: threadlist_init_def upd_node_def upd_count_def)
  let ?q1 = "\<lambda>k. if k = Wchan wc then [] else ?q0 k @ filter (\<lambda>t. Local x = k) (?q0 (Wchan wc))"
  have "\<exists>h1. drain (threadlist_remhead (Wchan wc)) (threadlist_addtail (Local x)) ?h0 = Some (Ok h1)
      \<and> t_cpu h1 = t_cpu h \<and> tl_state ?L h1 ?q1 F"
  proof (rule tlq.drain_routes [OF S0, where T = UNIV])
    show "Local x \<in> ?L \<and> Local x \<noteq> Wchan wc \<and> (\<exists>h''. threadlist_addtail (Local x) t h' = Ok h''
        \<and> tl_state ?L h'' (q'(Local x := q' (Local x) @ [t])) (F' - {t}) \<and> t_cpu h'' = t_cpu h)"
      if "tl_state ?L h' q' F'" "t \<in> F'" "t_cpu h' = t_cpu h" for h' q' F' t
      using addtail_state [OF that(1) insertI1 that(2)] that(3) by simp
  qed (use cpu0 remhead_cpu wc in auto)
  then obtain h1 where h1: "drain (threadlist_remhead (Wchan wc)) (threadlist_addtail (Local x)) ?h0 = Some (Ok h1)"
      "t_cpu h1 = t_cpu h" "tl_state ?L h1 ?q1 F"
    by blast
  let ?q2 = "\<lambda>k. if k = Local x then [] else ?q1 k @ filter (\<lambda>t. RunQueue (t_cpu h t) = k) (?q1 (Local x))"
  have "\<exists>h2. drain (threadlist_remhead (Local x)) thread_make_runnable h1 = Some (Ok h2) \<and> t_cpu h2 = t_cpu h
      \<and> tl_state ?L h2 ?q2 F"
  proof (rule tlq.drain_routes [OF h1(3), where T = ?T])
    show "RunQueue (t_cpu h t) \<in> ?L \<and> RunQueue (t_cpu h t) \<noteq> Local x \<and> (\<exists>h''. thread_make_runnable t h' = Ok h''
        \<and> tl_state ?L h'' (q'(RunQueue (t_cpu h t) := q' (RunQueue (t_cpu h t)) @ [t])) (F' - {t}) \<and> t_cpu h'' = t_cpu h)"
      if "tl_state ?L h' q' F'" "t \<in> F'" "t \<in> ?T" "t_cpu h' = t_cpu h" for h' q' F' t
      using make_runnable_state [OF that(1,2)] cpu [OF that(3)] that(4) by simp
  qed (use h1(2) remhead_cpu in auto)
  then obtain h2 where h2: "drain (threadlist_remhead (Local x)) thread_make_runnable h1 = Some (Ok h2)" "tl_state ?L h2 ?q2 F"
    by blast
  have "tl_count h2 (Local x) = 0" using tl_stateD(1) [OF h2(2), of "Local x"] by (simp add: tl_rep_def)
  then have "wchan_wakeall_tl x wc h = Ok h2"
    using h1(1) h2(1) by (simp add: wchan_wakeall_tl_def threadlist_cleanup_def threadlist_isempty_def)
  moreover have "tl_state L h2 (\<lambda>l. if l = Wchan wc then [] else q l @ filter (\<lambda>t. RunQueue (t_cpu h t) = l) (q (Wchan wc))) F"
    using x by (intro tl_state_mono [OF h2(2)]) auto
  ultimately show ?thesis by blast
qed

section \<open>Sequences of operations\<close>

datatype tl_op =
    Add_head tl_addr tid | Add_tail tl_addr tid | Rem_head tl_addr | Rem_tail tl_addr
  | Insert_after tl_addr tid tid | Insert_before tl_addr tid tid | Remove tl_addr tid

text \<open>The call for an operation; functions without a result count as returning \<open>NULL\<close>.\<close>

fun run_op :: "tl_op \<Rightarrow> tlmem \<Rightarrow> (tid \<times> tlmem) kres" where
  "run_op (Add_head l t) h = kbind (threadlist_addhead l t h) (\<lambda>h. Ok (NULL, h))"
| "run_op (Add_tail l t) h = kbind (threadlist_addtail l t h) (\<lambda>h. Ok (NULL, h))"
| "run_op (Rem_head l) h = threadlist_remhead l h"
| "run_op (Rem_tail l) h = threadlist_remtail l h"
| "run_op (Insert_after l u t) h = kbind (threadlist_insertafter l u t h) (\<lambda>h. Ok (NULL, h))"
| "run_op (Insert_before l t u) h = kbind (threadlist_insertbefore l t u h) (\<lambda>h. Ok (NULL, h))"
| "run_op (Remove l t) h = kbind (threadlist_remove l t h) (\<lambda>h. Ok (NULL, h))"

text \<open>
  The same on lists: what is returned, the lists and the threads on no list; nothing if the
  caller's obligation is not met (a thread that is added is on no list, the thread beside which it
  is inserted and a thread that is removed are on this one).
\<close>

fun spec_op :: "tl_op \<Rightarrow> (tl_addr \<Rightarrow> tid list) \<times> tid set \<Rightarrow> (tid \<times> (tl_addr \<Rightarrow> tid list) \<times> tid set) option" where
  "spec_op (Add_head l t) (q, F) = (if t \<in> F then Some (NULL, q(l := t # q l), F - {t}) else None)"
| "spec_op (Add_tail l t) (q, F) = (if t \<in> F then Some (NULL, q(l := q l @ [t]), F - {t}) else None)"
| "spec_op (Rem_head l) (q, F) =
     (case q l of [] \<Rightarrow> Some (NULL, q, F) | t # ts \<Rightarrow> Some (t, q(l := ts), insert t F))"
| "spec_op (Rem_tail l) (q, F) =
     (case rev (q l) of [] \<Rightarrow> Some (NULL, q, F) | t # ts \<Rightarrow> Some (t, q(l := rev ts), insert t F))"
| "spec_op (Insert_after l u t) (q, F) =
     (if u \<in> set (q l) \<and> t \<in> F
      then Some (NULL, q(l := takeWhile (\<lambda>v. v \<noteq> u) (q l) @ u # t # tl (dropWhile (\<lambda>v. v \<noteq> u) (q l))), F - {t})
      else None)"
| "spec_op (Insert_before l t u) (q, F) =
     (if u \<in> set (q l) \<and> t \<in> F
      then Some (NULL, q(l := takeWhile (\<lambda>v. v \<noteq> u) (q l) @ t # dropWhile (\<lambda>v. v \<noteq> u) (q l)), F - {t})
      else None)"
| "spec_op (Remove l t) (q, F) =
     (if t \<in> set (q l) then Some (NULL, q(l := filter (\<lambda>v. v \<noteq> t) (q l)), insert t F) else None)"

fun op_list :: "tl_op \<Rightarrow> tl_addr" where
  "op_list (Add_head l t) = l" | "op_list (Add_tail l t) = l" | "op_list (Rem_head l) = l" | "op_list (Rem_tail l) = l"
| "op_list (Insert_after l u t) = l" | "op_list (Insert_before l t u) = l" | "op_list (Remove l t) = l"

fun run_ops :: "tl_op list \<Rightarrow> tlmem \<Rightarrow> (tid list \<times> tlmem) kres" where
  "run_ops [] h = Ok ([], h)"
| "run_ops (x # xs) h = kbind (run_op x h) (\<lambda>(r, h). kbind (run_ops xs h) (\<lambda>(rs, h). Ok (r # rs, h)))"

fun spec_ops ::
  "tl_op list \<Rightarrow> (tl_addr \<Rightarrow> tid list) \<times> tid set \<Rightarrow> (tid list \<times> (tl_addr \<Rightarrow> tid list) \<times> tid set) option" where
  "spec_ops [] a = Some ([], a)"
| "spec_ops (x # xs) a =
     (case spec_op x a of
        None \<Rightarrow> None
      | Some (r, a) \<Rightarrow> (case spec_ops xs a of None \<Rightarrow> None | Some (rs, a) \<Rightarrow> Some (r # rs, a)))"

lemma split_at:
  assumes "u \<in> set ts"
  shows "\<exists>xs ys. ts = xs @ u # ys \<and> takeWhile (\<lambda>v. v \<noteq> u) ts = xs \<and> dropWhile (\<lambda>v. v \<noteq> u) ts = u # ys"
proof -
  obtain xs ys where "ts = xs @ u # ys" "u \<notin> set xs" using split_list_first [OF assms] by blast
  then show ?thesis by (intro exI [of _ xs] exI [of _ ys]) (auto simp: takeWhile_append dropWhile_append)
qed

lemma run_op_refines:
  assumes S: "tl_state L h q F" and l: "op_list x \<in> L" and sp: "spec_op x (q, F) = Some (r, q', F')"
  shows "\<exists>h'. run_op x h = Ok (r, h') \<and> tl_state L h' q' F'"
proof (cases x)
  case (Add_head l t)
  then show ?thesis using addhead_state [OF S, of l t] assms by (auto split: if_splits)
next
  case (Add_tail l t)
  then show ?thesis using addtail_state [OF S, of l t] assms by (auto split: if_splits)
next
  case (Rem_head l)
  then show ?thesis using remhead_state [OF S, of l] rem_empty_state(1) [OF S, of l] assms by (auto split: list.splits)
next
  case (Rem_tail l)
  then show ?thesis
    using remtail_state [OF S, of l] rem_empty_state(2) [OF S, of l] assms
    by (cases "q l" rule: rev_cases) auto
next
  case (Insert_after l u t)
  then have u: "u \<in> set (q l)" "t \<in> F" "l \<in> L" using assms by (auto split: if_splits)
  obtain xs ys where xy: "q l = xs @ u # ys" "takeWhile (\<lambda>v. v \<noteq> u) (q l) = xs" "dropWhile (\<lambda>v. v \<noteq> u) (q l) = u # ys"
    using split_at [OF u(1)] by blast
  have "q' = q(l := (xs @ [u]) @ t # ys)" "F' = F - {t}" "r = NULL"
    using sp u Insert_after by (simp_all add: xy(2,3))
  then show ?thesis
    using insertafternode_state [OF S u(3) _ u(2), of "xs @ [u]" ys] xy(1) Insert_after
    by (auto simp: threadlist_insertafter_def)
next
  case (Insert_before l t u)
  then have u: "u \<in> set (q l)" "t \<in> F" "l \<in> L" using assms by (auto split: if_splits)
  obtain xs ys where xy: "q l = xs @ u # ys" "takeWhile (\<lambda>v. v \<noteq> u) (q l) = xs" "dropWhile (\<lambda>v. v \<noteq> u) (q l) = u # ys"
    using split_at [OF u(1)] by blast
  have "q' = q(l := xs @ t # u # ys)" "F' = F - {t}" "r = NULL"
    using sp u Insert_before by (simp_all add: xy(2,3))
  then show ?thesis
    using insertbeforenode_state [OF S u(3) xy(1) u(2)] Insert_before by (auto simp: threadlist_insertbefore_def)
next
  case (Remove l t)
  have t: "t \<in> set (q l)" "q' = q(l := filter (\<lambda>v. v \<noteq> t) (q l))" "F' = insert t F" "r = NULL" and lL: "l \<in> L"
    using assms Remove by (auto split: if_splits)
  obtain xs ys where xy: "q l = xs @ t # ys" using split_list [OF t(1)] by blast
  have "distinct (q l)" using tl_stateD(1) [OF S lL] by (simp add: tl_rep_def)
  then have "filter (\<lambda>v. v \<noteq> t) xs = xs" "filter (\<lambda>v. v \<noteq> t) ys = ys" using xy by (auto simp: filter_id_conv)
  then have "filter (\<lambda>v. v \<noteq> t) (q l) = xs @ ys" by (simp add: xy)
  then show ?thesis
    using removenode_state [OF S lL xy] t(2-4) Remove by (auto simp: threadlist_remove_def)
qed

text \<open>
  (C13) Thread lists are lists: any sequence of calls of the seven operations, on any number of lists
  that share no thread, returns the threads that the same operations on mathematical lists return,
  never meets a null pointer, and leaves the lists representing the result, every count included.
  What the callers have to see to is only that a thread which is added is on no list.
\<close>

theorem threadlist_refines:
  assumes "tl_state L h q F" "\<forall>x \<in> set xs. op_list x \<in> L" "spec_ops xs (q, F) = Some (rs, q', F')"
  shows "\<exists>h'. run_ops xs h = Ok (rs, h') \<and> tl_state L h' q' F'"
  using assms
proof (induction xs arbitrary: h q F rs)
  case (Cons x xs)
  obtain r q1 F1 rs' where x: "spec_op x (q, F) = Some (r, q1, F1)" "spec_ops xs (q1, F1) = Some (rs', q', F')" "rs = r # rs'"
    using Cons.prems(3) by (auto split: option.splits)
  then obtain h1 where "run_op x h = Ok (r, h1)" "tl_state L h1 q1 F1"
    using run_op_refines [OF Cons.prems(1) _ x(1)] Cons.prems(2) by auto
  then show ?case using Cons.IH [of h1 q1 F1 rs'] Cons.prems(2) x by auto
qed auto

text \<open>
  (C14) \<open>wchan_wakeall\<close> ends; afterwards the wait channel is empty, as the synchronisation
  primitives take it to be, its threads have been appended to the run queues of their processors
  in the order in which they went to sleep, no other list has changed and no thread is lost or on
  two lists.
\<close>

theorem wchan_wakeall_moves:
  assumes "tl_state L h q F" "Wchan wc \<in> L" "Local x \<notin> L" "\<forall>t \<in> set (q (Wchan wc)). RunQueue (t_cpu h t) \<in> L"
  shows "\<exists>h' q'. wchan_wakeall_tl x wc h = Ok h' \<and> tl_state L h' q' F
    \<and> q' (Wchan wc) = fst (wchan_wakeall (q (Wchan wc)) r)
    \<and> (\<forall>c. q' (RunQueue c) = q (RunQueue c) @ filter (\<lambda>t. t_cpu h t = c) (q (Wchan wc)))
    \<and> (\<forall>l. l \<noteq> Wchan wc \<and> (\<forall>c. l \<noteq> RunQueue c) \<longrightarrow> q' l = q l)"
proof -
  let ?q' = "\<lambda>l. if l = Wchan wc then [] else q l @ filter (\<lambda>t. RunQueue (t_cpu h t) = l) (q (Wchan wc))"
  obtain h' where h': "wchan_wakeall_tl x wc h = Ok h'" "tl_state L h' ?q' F"
    using wakeall_state [OF assms(1-3)] assms(4) by blast
  moreover have "\<forall>l. l \<noteq> Wchan wc \<and> (\<forall>c. l \<noteq> RunQueue c) \<longrightarrow> ?q' l = q l"
    by (auto simp: filter_empty_conv)
  ultimately show ?thesis
    by - (rule exI [where x = h'], rule exI [where x = ?q'], simp add: wchan_wakeall_def)
qed

section \<open>An example\<close>

definition ex_tlmem :: tlmem where
  "ex_tlmem = threadlist_init (Wchan 1) (threadlist_init (RunQueue 2)
     \<lparr>tln = (\<lambda>a. \<lparr>tln_prev = None, tln_next = None, tln_self = (case a of Node t \<Rightarrow> t | _ \<Rightarrow> NULL)\<rparr>),
      tl_count = (\<lambda>l. 0), t_state = (\<lambda>t. S_SLEEP), t_cpu = (\<lambda>t. 2)\<rparr>)"

lemma ex_tlmem_ok: "tl_state {Wchan 1, RunQueue 2} ex_tlmem (\<lambda>l. []) {16, 32}"
  by (simp add: tl_state_def tl_rep_def tl_nodes_def loose_def ex_tlmem_def threadlist_init_def upd_node_def upd_count_def)

theorem threadlist_refines_witness:
  "\<exists>h'. run_ops [Add_tail (Wchan 1) 16, Add_head (Wchan 1) 32, Rem_tail (Wchan 1), Insert_after (Wchan 1) 32 16, Rem_head (Wchan 1)]
      ex_tlmem = Ok ([NULL, NULL, 16, NULL, 32], h') \<and> tl_rep h' (Wchan 1) [16]"
  using threadlist_refines [OF ex_tlmem_ok, of "[Add_tail (Wchan 1) 16, Add_head (Wchan 1) 32, Rem_tail (Wchan 1), Insert_after (Wchan 1) 32 16, Rem_head (Wchan 1)]"]
  by (auto dest!: tl_stateD(1) [where l = "Wchan 1"])

theorem wchan_wakeall_moves_witness:
  "\<exists>h h'. run_ops [Add_tail (Wchan 1) 16, Add_tail (Wchan 1) 32] ex_tlmem = Ok ([NULL, NULL], h)
      \<and> wchan_wakeall_tl 3 1 h = Ok h' \<and> tl_rep h' (RunQueue 2) [16, 32] \<and> tl_rep h' (Wchan 1) []"
proof -
  obtain h1 where h1: "threadlist_addtail (Wchan 1) 16 ex_tlmem = Ok h1"
      "tl_state {Wchan 1, RunQueue 2} h1 ((\<lambda>l. [])(Wchan 1 := [16])) {32}" "t_cpu h1 = (\<lambda>t. 2)"
    using addtail_state [OF ex_tlmem_ok, of "Wchan 1" 16]
    by (auto simp: ex_tlmem_def threadlist_init_def upd_node_def upd_count_def)
  obtain h where h: "threadlist_addtail (Wchan 1) 32 h1 = Ok h" "t_cpu h = (\<lambda>t. 2)"
      "tl_state {Wchan 1, RunQueue 2} h ((\<lambda>l. [])(Wchan 1 := [16, 32])) {}"
    using addtail_state [OF h1(2), of "Wchan 1" 32] h1(3) by auto
  obtain h' q' where "wchan_wakeall_tl 3 1 h = Ok h'" "tl_state {Wchan 1, RunQueue 2} h' q' {}"
      "q' (RunQueue 2) = [16, 32]" "q' (Wchan 1) = []"
    using wchan_wakeall_moves [OF h(3), of 1 3] h(2) by (auto simp: wchan_wakeall_def)
  then show ?thesis
    using h1(1) h(1) tl_stateD(1) [of "{Wchan 1, RunQueue 2}" h' q' "{}" "RunQueue 2"]
      tl_stateD(1) [of "{Wchan 1, RunQueue 2}" h' q' "{}" "Wchan 1"]
    by (intro exI [of _ h] exI [of _ h']) auto
qed

end
