(* ===== verification/Kmalloc.thy ===== *)
theory Kmalloc
  imports VM_System
begin

unbundle bit_operations_syntax

text \<open>
  The kernel heap (\<^verbatim>\<open>kern/vm/kmalloc.c\<close>, in its default configuration without guard
  bands, labels and slow checks): pages of blocks of one size with a free list threaded through
  the free blocks, page descriptors with a bitmap of those in use, and whole pages from
  \<open>alloc_kpages\<close> for large requests. The locale \<open>kernel_pages\<close> is what it relies on of the paging
  system.
\<close>

section \<open>Data\<close>

definition NSIZES :: nat where "NSIZES = 8"
definition sizes :: "nat list" where "sizes = [16, 32, 64, 128, 256, 512, 1024, 2048]"
definition LARGEST_SUBPAGE_SIZE :: "32 word" where "LARGEST_SUBPAGE_SIZE = 2048"
definition INVALID_OFFSET :: "16 word" where "INVALID_OFFSET = 0xffff"
definition NPAGEREFS_PER_PAGE :: nat where "NPAGEREFS_PER_PAGE = 256"
definition INUSE_WORDS :: nat where "INUSE_WORDS = 8"
definition NUM_PAGEREFPAGES :: nat where "NUM_PAGEREFPAGES = 16"

record pageref =
  next_samesize :: ptr
  next_all :: ptr
  pageaddr_and_blocktype :: vaddr
  freelist_offset :: "16 word"
  nfree :: "16 word"

definition PR_PAGEADDR :: "pageref \<Rightarrow> vaddr" where
  "PR_PAGEADDR pr = pageaddr_and_blocktype pr AND PAGE_FRAME"

definition PR_BLOCKTYPE :: "pageref \<Rightarrow> nat" where
  "PR_BLOCKTYPE pr = unat (pageaddr_and_blocktype pr AND NOT PAGE_FRAME)"

definition MKPAB :: "vaddr \<Rightarrow> nat \<Rightarrow> vaddr" where
  "MKPAB pa blk = (pa AND PAGE_FRAME) OR (of_nat blk AND NOT PAGE_FRAME)"

record kheap_root =
  kr_page :: ptr
  pagerefs_inuse :: "32 word list"
  numinuse :: "32 word"

text \<open>The descriptors are kept by address, 16 bytes apart in their pages.\<close>

record kheap =
  kheaproots :: "kheap_root list"
  prefs :: "ptr \<Rightarrow> pageref"
  sizebases :: "ptr list"
  allbase :: ptr

definition upd_pr :: "ptr \<Rightarrow> (pageref \<Rightarrow> pageref) \<Rightarrow> kheap \<Rightarrow> kheap" where
  "upd_pr p f kh = kh\<lparr>prefs := (prefs kh)(p := f (prefs kh p))\<rparr>"

definition set_root :: "nat \<Rightarrow> kheap_root \<Rightarrow> kheap \<Rightarrow> kheap" where
  "set_root w r kh = kh\<lparr>kheaproots := (kheaproots kh)[w := r]\<rparr>"

section \<open>Page descriptors\<close>

text \<open>\<open>allocpagerefpage\<close> runs alone here, so that nobody else can have set \<open>page\<close> meanwhile.\<close>

definition allocpagerefpage :: "kheap_root \<Rightarrow> vm \<Rightarrow> (kheap_root \<times> vm) kres" where
  "allocpagerefpage root v =
     kassert (kr_page root = NULL)
       (kbind (alloc_kpages 1 v) (\<lambda>(va, v).
          if va = 0 then Ok (root, v)
          else kassert (va mod PAGE_SIZE = 0) (Ok (root\<lparr>kr_page := va\<rparr>, v))))"

fun allocpageref_from :: "nat \<Rightarrow> nat \<Rightarrow> kheap \<Rightarrow> vm \<Rightarrow> (ptr \<times> kheap \<times> vm) kres" where
  "allocpageref_from 0 w kh v = Ok (NULL, kh, v)"
| "allocpageref_from (Suc n) w kh v =
     (let root = kheaproots kh ! w
      in if unat (numinuse root) \<ge> NPAGEREFS_PER_PAGE then allocpageref_from n (Suc w) kh v
         else case find (\<lambda>i. pagerefs_inuse root ! i \<noteq> 0xffffffff) [0..<INUSE_WORDS] of
             None \<Rightarrow> allocpageref_from n (Suc w) kh v
           | Some i \<Rightarrow> (case find (\<lambda>j. pagerefs_inuse root ! i AND push_bit j 1 = 0) [0..<32] of
             None \<Rightarrow> Fail KAssert
           | Some j \<Rightarrow>
               let root = root\<lparr>pagerefs_inuse := (pagerefs_inuse root)[i := pagerefs_inuse root ! i OR push_bit j 1],
                               numinuse := numinuse root + 1\<rparr>
               in kbind (if kr_page root = NULL then allocpagerefpage root v else Ok (root, v)) (\<lambda>(root, v).
                    let kh = set_root w root kh
                    in if kr_page root = NULL then Ok (NULL, kh, v)
                       else Ok (kr_page root + of_nat (16 * (i * 32 + j)), kh, v))))"

definition allocpageref :: "kheap \<Rightarrow> vm \<Rightarrow> (ptr \<times> kheap \<times> vm) kres" where
  "allocpageref kh v = allocpageref_from NUM_PAGEREFPAGES 0 kh v"

text \<open>\<open>p - page->refs\<close>: the distance in descriptors, unsigned.\<close>

fun freepageref_from :: "nat \<Rightarrow> nat \<Rightarrow> ptr \<Rightarrow> kheap \<Rightarrow> kheap kres" where
  "freepageref_from 0 w p kh = Fail KAssert"
| "freepageref_from (Suc n) w p kh =
     (let root = kheaproots kh ! w; j = unat (p - kr_page root) div 16
      in if kr_page root = NULL then kassert (numinuse root = 0) (freepageref_from n (Suc w) p kh)
         else if j < NPAGEREFS_PER_PAGE
         then kassert (pagerefs_inuse root ! (j div 32) AND push_bit (j mod 32) 1 \<noteq> 0)
                (kassert (numinuse root > 0)
                  (Ok (set_root w (root\<lparr>pagerefs_inuse := (pagerefs_inuse root)
                                          [j div 32 := pagerefs_inuse root ! (j div 32) AND NOT (push_bit (j mod 32) 1)],
                                        numinuse := numinuse root - 1\<rparr>) kh)))
         else freepageref_from n (Suc w) p kh)"

definition freepageref :: "ptr \<Rightarrow> kheap \<Rightarrow> kheap kres" where
  "freepageref p kh = freepageref_from NUM_PAGEREFPAGES 0 p kh"

section \<open>Blocks\<close>

definition fill_deadbeef :: "vaddr \<Rightarrow> nat \<Rightarrow> kmem \<Rightarrow> kmem" where
  "fill_deadbeef a len m = fold (\<lambda>i m. st32 (a + of_nat (4 * i)) 0xdeadbeef m) [0..<len div 4] m"

definition blocktype :: "32 word \<Rightarrow> nat kres" where
  "blocktype clientsz =
     (case find (\<lambda>i. unat clientsz \<le> sizes ! i) [0..<NSIZES] of
        Some i \<Rightarrow> Ok i
      | None \<Rightarrow> Fail (Panic ''Subpage allocator cannot handle allocation''))"

text \<open>The loop through the pages of one block size, up to one with a free block (\<open>NULL\<close> if there is none).\<close>

partial_function (option) find_page :: "nat \<Rightarrow> ptr \<Rightarrow> kheap \<Rightarrow> ptr kres option" where
  "find_page blktype pr kh =
     (if pr = NULL then Some (Ok NULL)
      else if PR_BLOCKTYPE (prefs kh pr) \<noteq> blktype then Some (Fail KAssert)
      else if nfree (prefs kh pr) > 0 then Some (Ok pr)
      else find_page blktype (next_samesize (prefs kh pr)) kh)"

text \<open>From the label \<open>doalloc\<close>: take the first free block of the page.\<close>

definition doalloc :: "ptr \<Rightarrow> kheap \<Rightarrow> vm \<Rightarrow> (vaddr \<times> kheap \<times> vm) kres" where
  "doalloc pr kh v =
     (let p = prefs kh pr
      in kassert (unat (freelist_offset p) < 4096)
           (let prpage = PR_PAGEADDR p;
                retptr = prpage + ucast (freelist_offset p);
                fl = ld32 retptr (k_mem v);
                n = nfree p - 1
            in if fl \<noteq> NULL
               then kassert (n > 0) (kassert (fl - prpage < PAGE_SIZE)
                      (Ok (retptr, upd_pr pr (\<lambda>p. p\<lparr>nfree := n, freelist_offset := ucast (fl - prpage)\<rparr>) kh, v)))
               else kassert (n = 0)
                      (Ok (retptr, upd_pr pr (\<lambda>p. p\<lparr>nfree := n, freelist_offset := INVALID_OFFSET\<rparr>) kh, v))))"

text \<open>The free list of a fresh page.\<close>

definition thread_page :: "vaddr \<Rightarrow> nat \<Rightarrow> kmem \<Rightarrow> kmem kres" where
  "thread_page prpage sz m =
     kfold (\<lambda>i m. let fl = prpage + of_nat (i * sz); nx = prpage + of_nat ((i - 1) * sz)
                  in kassert (fl \<noteq> nx) (Ok (st32 fl nx m)))
       [1..<4096 div sz] (st32 prpage NULL m)"

definition new_block_page :: "nat \<Rightarrow> kheap \<Rightarrow> vm \<Rightarrow> (ptr \<times> kheap \<times> vm) kres" where
  "new_block_page blktype kh v =
     kbind (alloc_kpages 1 v) (\<lambda>(prpage, v).
       if prpage = 0 then Ok (NULL, kh, v)
       else kassert (prpage mod PAGE_SIZE = 0)
         (kbind (allocpageref kh v) (\<lambda>(pr, kh, v).
            if pr = NULL then kbind (free_kpages prpage v) (\<lambda>v. Ok (NULL, kh, v))
            else
              let n = 4096 div sizes ! blktype
              in kbind (thread_page prpage (sizes ! blktype) (k_mem v)) (\<lambda>m.
                   let kh = upd_pr pr (\<lambda>p. \<lparr>next_samesize = sizebases kh ! blktype, next_all = allbase kh,
                              pageaddr_and_blocktype = MKPAB prpage blktype,
                              freelist_offset = of_nat ((n - 1) * sizes ! blktype), nfree = of_nat n\<rparr>) kh
                   in Ok (pr, kh\<lparr>sizebases := (sizebases kh)[blktype := pr], allbase := pr\<rparr>, v\<lparr>k_mem := m\<rparr>)))))"

definition subpage_kmalloc :: "32 word \<Rightarrow> kheap \<Rightarrow> vm \<Rightarrow> (vaddr \<times> kheap \<times> vm) kres" where
  "subpage_kmalloc sz kh v =
     kbind (blocktype sz) (\<lambda>blktype.
     kbind (from_loop (find_page blktype (sizebases kh ! blktype) kh)) (\<lambda>pr.
       if pr \<noteq> NULL then doalloc pr kh v
       else kbind (new_block_page blktype kh v) (\<lambda>(pr, kh, v).
              if pr = NULL then Ok (NULL, kh, v) else doalloc pr kh v)))"

text \<open>A loop that unlinks \<open>pr\<close> from a list: \<open>prev\<close> is the owner of the pointer \<open>*guy\<close>, the base first.\<close>

partial_function (option) pred_in :: "(ptr \<Rightarrow> ptr) \<Rightarrow> ptr \<Rightarrow> ptr \<Rightarrow> ptr \<Rightarrow> ptr option option" where
  "pred_in nx pr prev cur =
     (if cur = NULL then Some None
      else if cur = pr then Some (Some prev)
      else pred_in nx pr cur (nx cur))"

definition remove_lists :: "ptr \<Rightarrow> nat \<Rightarrow> kheap \<Rightarrow> kheap kres" where
  "remove_lists pr blktype kh =
     kassert (blktype < NSIZES)
       (case pred_in (\<lambda>a. next_samesize (prefs kh a)) pr NULL (sizebases kh ! blktype) of
          None \<Rightarrow> Fail Hang
        | Some g \<Rightarrow>
            let kh = (case g of
                        None \<Rightarrow> kh
                      | Some q \<Rightarrow> if q = NULL then kh\<lparr>sizebases := (sizebases kh)[blktype := next_samesize (prefs kh pr)]\<rparr>
                          else upd_pr q (\<lambda>p. p\<lparr>next_samesize := next_samesize (prefs kh pr)\<rparr>) kh)
            in (case pred_in (\<lambda>a. next_all (prefs kh a)) pr NULL (allbase kh) of
                  None \<Rightarrow> Fail Hang
                | Some g \<Rightarrow> Ok (case g of
                        None \<Rightarrow> kh
                      | Some q \<Rightarrow> if q = NULL then kh\<lparr>allbase := next_all (prefs kh pr)\<rparr>
                          else upd_pr q (\<lambda>p. p\<lparr>next_all := next_all (prefs kh pr)\<rparr>) kh)))"

text \<open>The search for the page of a block.\<close>

partial_function (option) page_of :: "vaddr \<Rightarrow> ptr \<Rightarrow> kheap \<Rightarrow> ptr kres option" where
  "page_of a pr kh =
     (if pr = NULL then Some (Ok NULL)
      else let prpage = PR_PAGEADDR (prefs kh pr)
           in if \<not> PR_BLOCKTYPE (prefs kh pr) < NSIZES then Some (Fail KAssert)
              else if a \<ge> prpage \<and> a < prpage + PAGE_SIZE then Some (Ok pr)
              else page_of a (next_all (prefs kh pr)) kh)"

definition subpage_kfree :: "vaddr \<Rightarrow> kheap \<Rightarrow> vm \<Rightarrow> (int \<times> kheap \<times> vm) kres" where
  "subpage_kfree ptraddr kh v =
     kbind (from_loop (page_of ptraddr (allbase kh) kh)) (\<lambda>pr.
       if pr = NULL then Ok (- 1, kh, v)
       else
         let p = prefs kh pr; prpage = PR_PAGEADDR p; blktype = PR_BLOCKTYPE p; sz = sizes ! blktype;
             offset = ptraddr - prpage
         in if offset \<ge> PAGE_SIZE \<or> unat offset mod sz \<noteq> 0
            then Fail (Panic ''kfree: subpage free of invalid addr'')
            else
              let m = fill_deadbeef ptraddr sz (k_mem v);
                  nx = (if freelist_offset p = INVALID_OFFSET then NULL else prpage + ucast (freelist_offset p));
                  m = st32 (prpage + offset) nx m;
                  n = nfree p + 1
              in kassert (freelist_offset p = INVALID_OFFSET \<or> prpage + offset \<noteq> nx)
                   (let kh = upd_pr pr (\<lambda>p. p\<lparr>freelist_offset := ucast offset, nfree := n\<rparr>) kh; v = v\<lparr>k_mem := m\<rparr>
                    in kassert (unat n \<le> 4096 div sz)
                         (if unat n = 4096 div sz
                          then kbind (remove_lists pr blktype kh) (\<lambda>kh.
                               kbind (freepageref pr kh) (\<lambda>kh.
                               kbind (free_kpages prpage v) (\<lambda>v. Ok (0, kh, v))))
                          else Ok (0, kh, v))))"

section \<open>Allocation and release\<close>

definition kmalloc :: "32 word \<Rightarrow> kheap \<Rightarrow> vm \<Rightarrow> (vaddr \<times> kheap \<times> vm) kres" where
  "kmalloc sz kh v =
     (if sz \<ge> LARGEST_SUBPAGE_SIZE
      then let npages = (sz + PAGE_SIZE - 1) div PAGE_SIZE
           in kbind (alloc_kpages npages v) (\<lambda>(address, v).
                if address = 0 then Ok (NULL, kh, v)
                else kassert (address mod PAGE_SIZE = 0) (Ok (address, kh, v)))
      else subpage_kmalloc sz kh v)"

definition kfree :: "vaddr \<Rightarrow> kheap \<Rightarrow> vm \<Rightarrow> (kheap \<times> vm) kres" where
  "kfree p kh v =
     (if p = NULL then Ok (kh, v)
      else kbind (subpage_kfree p kh v) (\<lambda>(r, kh, v).
             if r \<noteq> 0
             then kassert (p mod PAGE_SIZE = 0) (kbind (free_kpages p v) (\<lambda>v. Ok (kh, v)))
             else Ok (kh, v)))"

section \<open>Pages of the kernel\<close>

text \<open>
  The contract of the page allocator with its client: a page it gives is aligned, new, and changes
  nothing else; a page that is held can be given back, and is no longer held unless it is one of the
  pages that are never taken back.
\<close>

locale kernel_pages =
  fixes inv :: "'s \<Rightarrow> bool" and held :: "'s \<Rightarrow> vaddr set" and kept :: "'s \<Rightarrow> vaddr set" and avail :: "'s \<Rightarrow> bool"
    and mem :: "'s \<Rightarrow> kmem" and contents :: "'s \<Rightarrow> 'c"
    and alloc :: "'s \<Rightarrow> (vaddr \<times> 's) kres" and free :: "vaddr \<Rightarrow> 's \<Rightarrow> 's kres"
  assumes alloc_law: "inv s \<Longrightarrow> avail s \<Longrightarrow> \<exists>a s'. alloc s = Ok (a, s') \<and> inv s' \<and> a \<notin> held s \<and> held s' = insert a (held s)
      \<and> kept s' = kept s \<and> mem s' = mem s \<and> contents s' = contents s"
    and free_law: "inv s \<Longrightarrow> a \<in> held s \<Longrightarrow> \<exists>s'. free a s = Ok s' \<and> inv s' \<and> held s' = held s - ({a} - kept s)
      \<and> kept s' = kept s \<and> mem s' = mem s \<and> contents s' = contents s"
    and kept_held: "inv s \<Longrightarrow> kept s \<subseteq> held s"
    and held_page: "inv s \<Longrightarrow> a \<in> held s \<Longrightarrow> unat a mod 4096 = 0 \<and> 0 < unat a \<and> unat a + 4096 \<le> 4294967296"
begin

lemma alloc_free:
  assumes "inv s" "avail s"
  shows "\<exists>a s1 s2. alloc s = Ok (a, s1) \<and> free a s1 = Ok s2 \<and> inv s2 \<and> held s2 = held s \<and> mem s2 = mem s
    \<and> contents s2 = contents s"
proof -
  obtain a s1 where a: "alloc s = Ok (a, s1)" "inv s1" "a \<notin> held s" "held s1 = insert a (held s)"
      "kept s1 = kept s" "mem s1 = mem s" "contents s1 = contents s"
    using alloc_law [OF assms] by blast
  obtain s2 where s2: "free a s1 = Ok s2" "inv s2" "held s2 = held s1 - ({a} - kept s1)" "mem s2 = mem s1" "contents s2 = contents s1"
    using free_law [OF a(2), of a] a(4) by auto
  have "a \<notin> kept s" using kept_held [OF assms(1)] a(3) by blast
  then have "held s2 = held s" using s2(3) a(3-5) by auto
  then show ?thesis using a s2 by auto
qed

end

text \<open>
  What the page allocator needs of the state; the index of the pages of the processes is not part of it,
  so that the allocator can serve its initialisation too.
\<close>

definition kvm_inv :: "vm \<Rightarrow> bool" where
  "kvm_inv s \<longleftrightarrow> pt_shape s \<and> frames_ok s \<and> pt_active s \<and> npt s \<le> length (contiguous (page_table s))
     \<and> unat (first_free_paddr (page_table s)) mod 4096 = 0"

text \<open>
  The pages of the kernel by their kernel addresses: the frames allocated to it one at a time, and the
  pages below the first managed frame, from which the allocations made before the page table is active
  come and which \<open>free_kpages\<close> never takes back.
\<close>

definition held_frame :: "vm \<Rightarrow> nat \<Rightarrow> bool" where
  "held_frame s i \<longleftrightarrow> i < npt s \<and> page (ents s ! i) = KMALLOC_PAGE \<and> GetValidityBit (ctrl (ents s ! i))
     \<and> contiguous (page_table s) ! i = 1"

definition boot_pages :: "vm \<Rightarrow> vaddr set" where
  "boot_pages s = {a. unat a mod 4096 = 0 \<and> 0x80000000 < unat a \<and> unat a + 4096 \<le> 0x80000000 + unat (first_free_paddr (page_table s))}"

definition kpages :: "vm \<Rightarrow> vaddr set" where
  "kpages s = boot_pages s \<union> (\<lambda>i. PADDR_TO_KVADDR (frame_addr s (int i))) ` {i. held_frame s i}"

definition frame_avail :: "vm \<Rightarrow> bool" where
  "frame_avail s \<longleftrightarrow> find (run_start s) [0..<npt s] \<noteq> None"

lemma kvm_frame:
  assumes "kvm_inv s" "i < npt s"
  shows "unat (PADDR_TO_KVADDR (frame_addr s (int i))) = 0x80000000 + 4096 * i + unat (first_free_paddr (page_table s))"
    and "unat (PADDR_TO_KVADDR (frame_addr s (int i))) mod 4096 = 0"
    and "unat (PADDR_TO_KVADDR (frame_addr s (int i))) + 4096 \<le> 0xa0000000"
proof -
  have f: "frames_ok s" "unat (first_free_paddr (page_table s)) mod 4096 = 0" using assms(1) by (simp_all add: kvm_inv_def)
  show a: "unat (PADDR_TO_KVADDR (frame_addr s (int i))) = 0x80000000 + 4096 * i + unat (first_free_paddr (page_table s))"
    by (rule frame_addr_unat(2) [OF f(1) assms(2)])
  show "unat (PADDR_TO_KVADDR (frame_addr s (int i))) mod 4096 = 0"
  proof -
    have "0x80000000 + 4096 * i + unat (first_free_paddr (page_table s)) = unat (first_free_paddr (page_table s)) + 4096 * (524288 + i)"
      by simp
    then show ?thesis unfolding a using f(2) by (simp only: mod_mult_self2)
  qed
  show "unat (PADDR_TO_KVADDR (frame_addr s (int i))) + 4096 \<le> 0xa0000000"
    unfolding a using f(1) assms(2) by (simp add: frames_ok_def)
qed

lemma kvm_frame_inj:
  assumes "kvm_inv s" "i < npt s" "j < npt s"
    and "PADDR_TO_KVADDR (frame_addr s (int i)) = PADDR_TO_KVADDR (frame_addr s (int j))"
  shows "i = j"
proof -
  have "unat (PADDR_TO_KVADDR (frame_addr s (int i))) = unat (PADDR_TO_KVADDR (frame_addr s (int j)))" using assms(4) by argo
  then show ?thesis using kvm_frame(1) [OF assms(1,2)] kvm_frame(1) [OF assms(1,3)] by linarith
qed

lemma frame_not_boot: "kvm_inv s \<Longrightarrow> i < npt s \<Longrightarrow> PADDR_TO_KVADDR (frame_addr s (int i)) \<notin> boot_pages s"
  using kvm_frame(1) [of s i] by (auto simp: boot_pages_def)

lemma kpages_inj:
  assumes "kvm_inv s" "i < npt s" "PADDR_TO_KVADDR (frame_addr s (int i)) \<in> kpages s"
  shows "held_frame s i"
proof -
  obtain j where j: "held_frame s j" "PADDR_TO_KVADDR (frame_addr s (int i)) = PADDR_TO_KVADDR (frame_addr s (int j))"
    using assms(3) frame_not_boot [OF assms(1,2)] unfolding kpages_def by blast
  then have "j < npt s" by (simp add: held_frame_def)
  then have "i = j" using kvm_frame_inj [OF assms(1,2) _ j(2)] by blast
  then show ?thesis using j(1) by simp
qed

text \<open>The contents of the pages of the processes, once their index is in order.\<close>

definition user_view :: "vm \<Rightarrow> (vaddr \<times> pid \<Rightarrow> byte list option) option" where
  "user_view s = (if pt_inv s then Some (vpage s) else None)"

lemma user_view_inv:
  "user_view s' = user_view s \<Longrightarrow> pt_inv s \<Longrightarrow> pt_inv s' \<and> vpage s' = vpage s"
  by (simp add: user_view_def split: if_splits)

text \<open>Changing one entry of the table and its mark.\<close>

definition mark_frame :: "nat \<Rightarrow> (pt_entry \<Rightarrow> pt_entry) \<Rightarrow> int \<Rightarrow> vm \<Rightarrow> vm" where
  "mark_frame i f c s = (let t = upd_entry (int i) f s
     in t\<lparr>page_table := (page_table t)\<lparr>contiguous := (contiguous (page_table s))[i := c]\<rparr>\<rparr>)"

lemma mark_frame_simps:
  assumes "i < length (ents s)" "i < length (contiguous (page_table s))"
  shows "npt (mark_frame i f c s) = npt s" "frame_addr (mark_frame i f c s) = frame_addr s"
    "ents (mark_frame i f c s) = (ents s)[i := f (ents s ! i)]"
    "contiguous (page_table (mark_frame i f c s)) = (contiguous (page_table s))[i := c]"
    "k_mem (mark_frame i f c s) = k_mem s" "pt_active (mark_frame i f c s) = pt_active s"
    "k_swap (mark_frame i f c s) = k_swap s"
    "first_free_paddr (page_table (mark_frame i f c s)) = first_free_paddr (page_table s)"
  by (simp_all add: mark_frame_def Let_def npt_def fun_eq_iff frame_addr_def upd_entry_def)

lemma mark_frame_inv:
  assumes "kvm_inv s" "i < npt s" "\<not> user (ents s ! i)" "\<not> user (f (ents s ! i))"
  shows "kvm_inv (mark_frame i f c s)" "user_view (mark_frame i f c s) = user_view s"
proof -
  have k: "pt_shape s" "npt s \<le> length (contiguous (page_table s))" using assms(1) by (simp_all add: kvm_inv_def)
  then have l: "i < length (ents s)" "i < length (contiguous (page_table s))"
    using assms(2) pt_shapeD(3) [of s] by simp_all
  note M = mark_frame_simps [OF l]
  have "pt_shape (mark_frame i f c s)"
    using k(1) by (simp add: mark_frame_def Let_def pt_shape_def npt_def upd_entry_def)
  moreover have "frames_ok (mark_frame i f c s)" using assms(1) by (simp add: frames_ok_def M kvm_inv_def)
  ultimately show "kvm_inv (mark_frame i f c s)" using assms(1) by (simp add: kvm_inv_def M)
  let ?t = "upd_entry (int i) f s"
  have undo_upd: "upd_entry (int i) (\<lambda>x. ents s ! i) ?t = s" using l(1) by (simp add: upd_entry_def)
  have "pt_inv ?t = pt_inv s"
    using pt_inv_unused(1) [of s i f] pt_inv_unused(1) [of ?t i "\<lambda>x. ents s ! i"] assms(3,4) l(1) by (auto simp: undo_upd)
  moreover have "pt_inv s \<Longrightarrow> vpage ?t = vpage s" using pt_inv_unused(2) [where f = f, OF _ assms(3,4)] by blast
  ultimately show "user_view (mark_frame i f c s) = user_view s"
    by (auto simp: mark_frame_def Let_def user_view_def fun_eq_iff)
qed

lemma mark_frame_held:
  assumes "kvm_inv s" "i < npt s"
  shows "held_frame (mark_frame i f c s) j \<longleftrightarrow>
    (if j = i then page (f (ents s ! i)) = KMALLOC_PAGE \<and> GetValidityBit (ctrl (f (ents s ! i))) \<and> c = 1 else held_frame s j)"
proof -
  have l: "i < length (ents s)" "i < length (contiguous (page_table s))"
    using assms pt_shapeD(3) [of s] by (simp_all add: kvm_inv_def)
  show ?thesis using assms(2) l by (auto simp: held_frame_def mark_frame_simps nth_list_update)
qed

lemma kpages_mark:
  assumes "kvm_inv s" "i < npt s"
  shows "kpages (mark_frame i f c s) =
    (if page (f (ents s ! i)) = KMALLOC_PAGE \<and> GetValidityBit (ctrl (f (ents s ! i))) \<and> c = 1
     then insert (PADDR_TO_KVADDR (frame_addr s (int i))) (kpages s)
     else kpages s - {PADDR_TO_KVADDR (frame_addr s (int i))})"
proof -
  have l: "i < length (ents s)" "i < length (contiguous (page_table s))"
    using assms pt_shapeD(3) [of s] by (simp_all add: kvm_inv_def)
  have inj: "PADDR_TO_KVADDR (frame_addr s (int j)) = PADDR_TO_KVADDR (frame_addr s (int i)) \<Longrightarrow> j = i" if "held_frame s j" for j
    using that kvm_frame_inj [OF assms(1) _ assms(2)] by (auto simp: held_frame_def)
  show ?thesis
    unfolding kpages_def boot_pages_def mark_frame_held [OF assms] mark_frame_simps [OF l]
    using inj frame_not_boot [OF assms] by (auto simp: image_iff boot_pages_def)
qed

interpretation kp: kernel_pages kvm_inv kpages boot_pages frame_avail k_mem user_view "alloc_kpages 1" free_kpages
proof unfold_locales
  fix s a
  assume inv: "kvm_inv s"
  then have I: "pt_shape s" "frames_ok s" "pt_active s" "npt s \<le> length (contiguous (page_table s))"
    by (simp_all add: kvm_inv_def)
  show "\<exists>a s'. alloc_kpages 1 s = Ok (a, s') \<and> kvm_inv s' \<and> a \<notin> kpages s \<and> kpages s' = insert a (kpages s)
      \<and> boot_pages s' = boot_pages s \<and> k_mem s' = k_mem s \<and> user_view s' = user_view s" if "frame_avail s"
  proof -
    obtain i where i: "find (run_start s) [0..<npt s] = Some i" using \<open>frame_avail s\<close> by (auto simp: frame_avail_def)
    then have i': "i < npt s" "run_free (ents s ! i)" by (auto simp: find_upt_Some run_start_def)
    let ?f = "\<lambda>x :: pt_entry. \<lparr>page = KMALLOC_PAGE, pe_pid = k_pid s, ctrl = SetValidityBitOne (ctrl (ents s ! i))\<rparr>"
    have "alloc_kpages 1 s = Ok (PADDR_TO_KVADDR (frame_addr s (int i)), mark_frame i ?f 1 s)"
      using alloc_one_frame [OF I(1-3) i I(4)] by (simp add: mark_frame_def Let_def)
    moreover have "\<not> user (ents s ! i)" "\<not> user (?f (ents s ! i))"
      using i'(2) by (simp_all add: user_def run_free_def)
    moreover have "PADDR_TO_KVADDR (frame_addr s (int i)) \<notin> kpages s"
      using kpages_inj [OF inv i'(1)] i'(2) by (auto simp: held_frame_def run_free_def)
    moreover have "k_mem (mark_frame i ?f 1 s) = k_mem s" "boot_pages (mark_frame i ?f 1 s) = boot_pages s"
      by (simp_all add: mark_frame_def Let_def boot_pages_def)
    ultimately show ?thesis
      using mark_frame_inv [OF inv i'(1), of ?f 1] kpages_mark [OF inv i'(1), of ?f 1] by auto
  qed
  show "\<exists>s'. free_kpages a s = Ok s' \<and> kvm_inv s' \<and> kpages s' = kpages s - ({a} - boot_pages s)
      \<and> boot_pages s' = boot_pages s \<and> k_mem s' = k_mem s \<and> user_view s' = user_view s"
    if "a \<in> kpages s"
  proof (cases "a \<in> boot_pages s")
    case True
    have "unat (PADDR_TO_KVADDR (first_free_paddr (page_table s))) = 0x80000000 + unat (first_free_paddr (page_table s))"
      using I(2) by (intro unat_PADDR) (simp add: frames_ok_def)
    then have "free_kpages a s = Ok s" using True by (simp add: free_kpages_def word_le_nat_alt boot_pages_def)
    then show ?thesis using True inv by (intro exI [of _ s]) simp
  next
    case False
    then obtain i where i: "held_frame s i" "a = PADDR_TO_KVADDR (frame_addr s (int i))"
      using \<open>a \<in> kpages s\<close> by (auto simp: kpages_def)
    then have i': "i < npt s" "page (ents s ! i) = KMALLOC_PAGE" "contiguous (page_table s) ! i = 1"
      by (simp_all add: held_frame_def)
    have l: "i < length (ents s)" "i < length (contiguous (page_table s))"
      using i'(1) I pt_shapeD(3) [of s] by simp_all
    let ?f = "\<lambda>x :: pt_entry. x\<lparr>ctrl := SetValidityBitZero (ctrl x), page := 0\<rparr>"
    note fx = frame_index [OF I(2) i'(1)]
    have "release_entry (int i) s = Ok (upd_entry (int i) ?f s)"
      using l i'(2) by (simp add: release_entry_def)
    then have "free_kpages a s = Ok (mark_frame i ?f (- 1) s)"
      using fx(1,3) I(3) i i' l by (simp add: free_kpages_def free_contiguous_pages_def set_contiguous_nat mark_frame_def Let_def)
    moreover have "\<not> user (ents s ! i)" "\<not> user (?f (ents s ! i))" using i'(2) by (simp_all add: user_def)
    moreover have "k_mem (mark_frame i ?f (- 1) s) = k_mem s" "boot_pages (mark_frame i ?f (- 1) s) = boot_pages s"
      by (simp_all add: mark_frame_def Let_def boot_pages_def)
    ultimately show ?thesis
      using mark_frame_inv [OF inv i'(1), of ?f "- 1"] kpages_mark [OF inv i'(1), of ?f "- 1"] i(2) False by auto
  qed
  show "boot_pages s \<subseteq> kpages s" by (simp add: kpages_def)
  show "unat a mod 4096 = 0 \<and> 0 < unat a \<and> unat a + 4096 \<le> 4294967296" if "a \<in> kpages s"
    using that kvm_frame [OF inv] I(2) by (force simp: kpages_def held_frame_def boot_pages_def frames_ok_def)
qed

end
