(* ===== verification/Kmalloc_Spec.thy ===== *)
theory Kmalloc_Spec
  imports Kmalloc
begin

unbundle bit_operations_syntax

text \<open>
  The specification of the kernel heap: a set of allocated blocks that do not overlap. The
  invariant ties the free lists in memory, the page descriptors and their bitmaps together;
  \<open>kmalloc\<close> adds a block to the set, \<open>kfree\<close> takes one away, and neither touches the contents of
  another block or of a page of a process.
\<close>

section \<open>Block sizes\<close>

definition nblk :: "nat \<Rightarrow> nat" where
  "nblk ty = 4096 div sizes ! ty"

lemma size_facts:
  assumes "ty < NSIZES"
  shows "sizes ! ty * nblk ty = 4096" "16 \<le> sizes ! ty" "sizes ! ty \<le> 2048" "16 dvd sizes ! ty"
    "2 \<le> nblk ty" "nblk ty \<le> 256" "sizes ! ty mod 4 = 0"
proof -
  have "list_all (\<lambda>t. sizes ! t * nblk t = 4096 \<and> 16 \<le> sizes ! t \<and> sizes ! t \<le> 2048 \<and> 16 dvd sizes ! t
      \<and> 2 \<le> nblk t \<and> nblk t \<le> 256 \<and> sizes ! t mod 4 = 0) [0..<NSIZES]"
    by (simp add: NSIZES_def sizes_def nblk_def upt_rec)
  then have "sizes ! ty * nblk ty = 4096 \<and> 16 \<le> sizes ! ty \<and> sizes ! ty \<le> 2048 \<and> 16 dvd sizes ! ty
      \<and> 2 \<le> nblk ty \<and> nblk ty \<le> 256 \<and> sizes ! ty mod 4 = 0"
    using assms by (simp add: list_all_iff)
  then show "sizes ! ty * nblk ty = 4096" "16 \<le> sizes ! ty" "sizes ! ty \<le> 2048" "16 dvd sizes ! ty"
    "2 \<le> nblk ty" "nblk ty \<le> 256" "sizes ! ty mod 4 = 0" by blast+
qed

lemma blocktype_ok:
  assumes "unat sz < 2048"
  shows "\<exists>ty. blocktype sz = Ok ty \<and> ty < NSIZES \<and> unat sz \<le> sizes ! ty"
proof -
  have "find (\<lambda>i. unat sz \<le> sizes ! i) [0..<NSIZES] \<noteq> None"
  proof
    assume "find (\<lambda>i. unat sz \<le> sizes ! i) [0..<NSIZES] = None"
    then have "\<not> unat sz \<le> sizes ! 7" by (simp add: find_None_iff NSIZES_def)
    then show False using assms by (simp add: sizes_def)
  qed
  then obtain ty where ty: "find (\<lambda>i. unat sz \<le> sizes ! i) [0..<NSIZES] = Some ty" by blast
  then have "ty < NSIZES" "unat sz \<le> sizes ! ty" by (auto simp: find_Some_iff)
  then show ?thesis using ty by (simp add: blocktype_def)
qed

section \<open>Addresses\<close>

text \<open>A page address: aligned, not null, not at the very end of memory.\<close>

definition page_addr :: "vaddr \<Rightarrow> bool" where
  "page_addr a \<longleftrightarrow> unat a mod 4096 = 0 \<and> 0 < unat a \<and> unat a + 4096 \<le> 4294967296"

definition baddr :: "vaddr \<Rightarrow> nat \<Rightarrow> nat \<Rightarrow> vaddr" where
  "baddr pg ty j = pg + of_nat (j * sizes ! ty)"

definition within :: "vaddr \<Rightarrow> nat \<Rightarrow> vaddr \<Rightarrow> bool" where
  "within a n x \<longleftrightarrow> unat a \<le> unat x \<and> unat x < unat a + n"

lemma block_end:
  assumes "ty < NSIZES" "j < nblk ty"
  shows "j * sizes ! ty + sizes ! ty \<le> 4096"
proof -
  have "Suc j * sizes ! ty \<le> nblk ty * sizes ! ty" using assms(2) by (intro mult_le_mono1) simp
  then show ?thesis using size_facts(1) [OF assms(1)] by (simp add: mult.commute)
qed

lemma baddr_unat:
  assumes "page_addr pg" "ty < NSIZES" "j < nblk ty"
  shows "unat (baddr pg ty j) = unat pg + j * sizes ! ty"
  using block_end [OF assms(2,3)] assms(1) size_facts(2) [OF assms(2)] unfolding baddr_def page_addr_def
  by (intro unat_plus_nat) linarith

lemma baddr_nonnull: "page_addr pg \<Longrightarrow> ty < NSIZES \<Longrightarrow> j < nblk ty \<Longrightarrow> baddr pg ty j \<noteq> NULL"
  using baddr_unat [of pg ty j] by (auto simp: page_addr_def)

lemma baddr_inj:
  assumes "page_addr pg" "ty < NSIZES" "j < nblk ty" "k < nblk ty" "baddr pg ty j = baddr pg ty k"
  shows "j = k"
proof -
  have "j * sizes ! ty = k * sizes ! ty"
    using baddr_unat [OF assms(1,2,3)] baddr_unat [OF assms(1,2,4)] unfolding assms(5) by linarith
  then show ?thesis using size_facts(2) [OF assms(2)] by simp
qed

lemma page_apart:
  assumes "page_addr a" "page_addr b" "a \<noteq> b"
  shows "unat a + 4096 \<le> unat b \<or> unat b + 4096 \<le> unat a"
proof -
  obtain i j where ij: "unat a = 4096 * i" "unat b = 4096 * j" using assms(1,2) unfolding page_addr_def by (metis mod_0_imp_dvd dvdE)
  then have "i \<noteq> j" using assms(3) by (metis unsigned_word_eqI)
  then show ?thesis using ij by linarith
qed

lemma within_page:
  assumes "page_addr pg" "ty < NSIZES" "j < nblk ty" "within (baddr pg ty j) (sizes ! ty) x"
  shows "within pg 4096 x"
  using assms(4) baddr_unat [OF assms(1-3)] block_end [OF assms(2,3)] by (simp add: within_def)

lemma within_block:
  assumes "page_addr pg" "ty < NSIZES" "j < nblk ty" "k < nblk ty"
    and "within (baddr pg ty j) (sizes ! ty) x" "within (baddr pg ty k) (sizes ! ty) x"
  shows "j = k"
proof (rule ccontr)
  assume "j \<noteq> k"
  then have "j * sizes ! ty + sizes ! ty \<le> k * sizes ! ty \<or> k * sizes ! ty + sizes ! ty \<le> j * sizes ! ty"
    by (metis Suc_leI linorder_neqE_nat mult_Suc mult_le_mono1 add.commute)
  then show False
    using assms(5,6) baddr_unat [OF assms(1,2,3)] baddr_unat [OF assms(1,2,4)] by (auto simp: within_def)
qed

lemma within_pages:
  assumes "page_addr a" "page_addr b" "within a 4096 x" "within b 4096 x"
  shows "a = b"
  using page_apart [OF assms(1,2)] assms(3,4) by (force simp: within_def)

lemma sub_within:
  assumes "unat a + n \<le> 4294967296"
  shows "unat (x - a) < n \<longleftrightarrow> within a n x"
  using unat_sub_less_iff [OF assms] by (simp add: within_def)

section \<open>Free lists\<close>

fun flinks :: "kmem \<Rightarrow> vaddr \<Rightarrow> nat \<Rightarrow> nat list \<Rightarrow> bool" where
  "flinks m pg ty [] \<longleftrightarrow> True"
| "flinks m pg ty [j] \<longleftrightarrow> ld32 (baddr pg ty j) m = NULL"
| "flinks m pg ty (j # k # js) \<longleftrightarrow> ld32 (baddr pg ty j) m = baddr pg ty k \<and> flinks m pg ty (k # js)"

lemma ld_block:
  assumes "page_addr pg" "ty < NSIZES" "j < nblk ty"
    and "\<And>x. within (baddr pg ty j) (sizes ! ty) x \<Longrightarrow> m' x = m x"
  shows "ld32 (baddr pg ty j) m' = ld32 (baddr pg ty j) m"
proof (rule ld32_cong)
  have "unat (baddr pg ty j) + sizes ! ty \<le> 4294967296"
    using baddr_unat [OF assms(1-3)] block_end [OF assms(2,3)] assms(1) by (simp add: page_addr_def)
  then show "m' x = m x" if "unat (x - baddr pg ty j) < 4" for x
    using that size_facts(2) [OF assms(2)] sub_within [of "baddr pg ty j" "sizes ! ty" x] by (intro assms(4)) auto
qed

lemma flinks_cong:
  assumes "page_addr pg" "ty < NSIZES" "\<forall>j \<in> set fl. j < nblk ty"
    and "\<And>j x. j \<in> set fl \<Longrightarrow> within (baddr pg ty j) (sizes ! ty) x \<Longrightarrow> m' x = m x"
  shows "flinks m' pg ty fl = flinks m pg ty fl"
  using assms(3,4)
proof (induction fl rule: induct_list012)
  case (2 j)
  then have "ld32 (baddr pg ty j) m' = ld32 (baddr pg ty j) m" by (intro ld_block [OF assms(1,2)]) auto
  then show ?case by simp
next
  case (3 j k js)
  then have "ld32 (baddr pg ty j) m' = ld32 (baddr pg ty j) m" by (intro ld_block [OF assms(1,2)]) auto
  moreover have "flinks m' pg ty (k # js) = flinks m pg ty (k # js)" using 3 by auto
  ultimately show ?case by simp
qed simp

lemma st_block_outside:
  assumes "page_addr pg" "ty < NSIZES" "j < nblk ty" "\<not> within (baddr pg ty j) (sizes ! ty) x"
  shows "st32 (baddr pg ty j) w m x = m x"
proof (rule st32_outside, rule ccontr)
  assume "\<not> 4 \<le> unat (x - baddr pg ty j)"
  moreover have "unat (baddr pg ty j) + sizes ! ty \<le> 4294967296"
    using baddr_unat [OF assms(1-3)] block_end [OF assms(2,3)] assms(1) by (simp add: page_addr_def)
  ultimately show False
    using assms(4) size_facts(2) [OF assms(2)] sub_within [of "baddr pg ty j" "sizes ! ty" x] by auto
qed

text \<open>The list of a fresh page: the last block first.\<close>

lemma thread_page_ok:
  assumes "page_addr pg" "ty < NSIZES"
  shows "\<exists>m'. thread_page pg (sizes ! ty) m = Ok m' \<and> flinks m' pg ty (rev [0..<nblk ty])
    \<and> (\<forall>x. \<not> within pg 4096 x \<longrightarrow> m' x = m x)"
proof -
  define f where "f = (\<lambda>i m. let fl = pg + of_nat (i * sizes ! ty); nx = pg + of_nat ((i - 1) * sizes ! ty)
                  in kassert (fl \<noteq> nx) (Ok (st32 fl nx m)))"
  have "\<exists>m'. kfold f [1..<n] (st32 pg NULL m) = Ok m' \<and> flinks m' pg ty (rev [0..<n]) \<and> (\<forall>x. \<not> within pg 4096 x \<longrightarrow> m' x = m x)"
    if "0 < n" "n \<le> nblk ty" for n
    using that
  proof (induction n)
    case (Suc n)
    show ?case
    proof (cases "n = 0")
      case True
      have b: "baddr pg ty 0 = pg" by (simp add: baddr_def)
      have "st32 pg NULL m x = m x" if "\<not> within pg 4096 x" for x
        using st_block_outside [OF assms, of 0 x] that within_page [OF assms, of 0 x] size_facts(5) [OF assms(2)] by (auto simp: b)
      then show ?thesis using True by (auto simp: b)
    next
      case False
      then obtain m1 where m1: "kfold f [1..<n] (st32 pg NULL m) = Ok m1" "flinks m1 pg ty (rev [0..<n])"
          "\<forall>x. \<not> within pg 4096 x \<longrightarrow> m1 x = m x"
        using Suc by auto
      have n: "n < nblk ty" "n - 1 < nblk ty" using Suc.prems by auto
      let ?m = "st32 (baddr pg ty n) (baddr pg ty (n - 1)) m1"
      have ne: "baddr pg ty n \<noteq> baddr pg ty (n - 1)" using baddr_inj [OF assms n] False by auto
      have "f n m1 = Ok ?m" using ne by (simp add: f_def Let_def baddr_def)
      moreover have "flinks ?m pg ty (rev [0..<n]) = flinks m1 pg ty (rev [0..<n])"
      proof (rule flinks_cong [OF assms])
        fix j x assume "j \<in> set (rev [0..<n])" "within (baddr pg ty j) (sizes ! ty) x"
        then have "\<not> within (baddr pg ty n) (sizes ! ty) x" using within_block [OF assms _ n(1), of j x] n by auto
        then show "?m x = m1 x" by (rule st_block_outside [OF assms n(1)])
      qed (use n in auto)
      moreover have "rev [0..<Suc n] = n # (n - 1) # rev [0..<n - 1]" "rev [0..<n] = (n - 1) # rev [0..<n - 1]"
        using False by (cases n; simp)+
      moreover have "\<not> within pg 4096 x \<longrightarrow> ?m x = m x" for x
        using m1(3) st_block_outside [OF assms n(1)] within_page [OF assms n(1)] by metis
      moreover have "[1..<Suc n] = [1..<n] @ [n]" using False by simp
      ultimately show ?thesis using m1(1,2) by simp
    qed
  qed simp
  from this [of "nblk ty"] show ?thesis
    using size_facts(5) [OF assms(2)] by (simp add: thread_page_def f_def nblk_def)
qed

section \<open>Page descriptors\<close>

definition used :: "kheap_root \<Rightarrow> nat set" where
  "used r = {k. k < 256 \<and> bit (pagerefs_inuse r ! (k div 32)) (k mod 32)}"

definition root_ok :: "kheap_root \<Rightarrow> bool" where
  "root_ok r \<longleftrightarrow> length (pagerefs_inuse r) = 8 \<and> unat (numinuse r) = card (used r) \<and>
     (if kr_page r = NULL then used r = {} else page_addr (kr_page r))"

definition roots_ok :: "kheap_root list \<Rightarrow> bool" where
  "roots_ok rs \<longleftrightarrow> length rs = 16 \<and> (\<forall>w < 16. root_ok (rs ! w)) \<and>
     (\<forall>w < 16. \<forall>u < 16. w \<noteq> u \<and> kr_page (rs ! w) \<noteq> NULL \<longrightarrow> kr_page (rs ! w) \<noteq> kr_page (rs ! u))"

text \<open>The addresses of the descriptors in use, and the pages that hold descriptors.\<close>

definition descr_of :: "kheap_root \<Rightarrow> ptr set" where
  "descr_of r = (\<lambda>k. kr_page r + of_nat (16 * k)) ` used r"

definition descr :: "kheap_root list \<Rightarrow> ptr set" where
  "descr rs = (\<Union>w < 16. descr_of (rs ! w))"

definition rpages :: "kheap_root list \<Rightarrow> vaddr set" where
  "rpages rs = {kr_page (rs ! w) | w. w < 16 \<and> kr_page (rs ! w) \<noteq> NULL}"

lemma and_bit: "(x :: 32 word) AND push_bit j 1 = 0 \<longleftrightarrow> \<not> bit x j"
  using and_exp_eq_0_iff_not_bit [of x j] by (simp add: push_bit_of_1)

lemma and_bit_exp: "(x :: 32 word) AND 2 ^ j = 0 \<longleftrightarrow> \<not> bit x j"
  by (rule and_exp_eq_0_iff_not_bit)

lemma used_finite [simp]: "finite (used r)"
  by (simp add: used_def)

lemma used_card: "card (used r) \<le> 256"
  using card_mono [of "{..<256}" "used r"] by (auto simp: used_def)

lemma pick_free:
  assumes "length ws = 8" "k < 256" "\<not> bit (ws ! (k div 32)) (k mod 32)"
  shows "\<exists>i j. find (\<lambda>i. ws ! i \<noteq> 0xffffffff) [0..<INUSE_WORDS] = Some i
    \<and> find (\<lambda>j. (ws ! i :: 32 word) AND push_bit j 1 = 0) [0..<32] = Some j \<and> i < 8 \<and> j < 32 \<and> \<not> bit (ws ! i) j"
proof -
  have full: "w = 0xffffffff \<longleftrightarrow> (\<forall>j < 32. bit w j)" for w :: "32 word"
  proof -
    have "(0xffffffff :: 32 word) = mask 32" by (simp add: mask_eq_exp_minus_1)
    then show ?thesis by (auto simp: bit_eq_iff bit_simps)
  qed
  have "k div 32 < 8" using assms(2) by simp
  moreover have "k mod 32 < 32" by simp
  then have "ws ! (k div 32) \<noteq> 0xffffffff" using assms(3) full by blast
  ultimately have "find (\<lambda>i. ws ! i \<noteq> 0xffffffff) [0..<INUSE_WORDS] \<noteq> None"
    by (auto simp: find_None_iff INUSE_WORDS_def)
  then obtain i where i: "find (\<lambda>i. ws ! i \<noteq> 0xffffffff) [0..<INUSE_WORDS] = Some i" by blast
  then have i': "i < 8" "ws ! i \<noteq> 0xffffffff" by (auto simp: find_Some_iff INUSE_WORDS_def)
  then obtain j0 where "j0 < 32" "\<not> bit (ws ! i) j0" using full by blast
  then have "find (\<lambda>j. ws ! i AND push_bit j 1 = 0) [0..<32] \<noteq> None" by (auto simp: find_None_iff and_bit_exp)
  then obtain j where j: "find (\<lambda>j. ws ! i AND push_bit j 1 = 0) [0..<32] = Some j" by blast
  then have "j < 32" "\<not> bit (ws ! i) j" using and_bit [of "ws ! i" j] by (auto simp: find_Some_iff)
  then show ?thesis using i j i' by blast
qed

lemma used_set:
  assumes "length (pagerefs_inuse r) = 8" "i < 8" "j < 32"
  shows "used (r\<lparr>pagerefs_inuse := (pagerefs_inuse r)[i := pagerefs_inuse r ! i OR push_bit j 1], numinuse := n\<rparr>) =
    insert (i * 32 + j) (used r)" (is "?L = ?R")
proof (rule set_eqI)
  fix k
  have "k div 32 = i \<and> k mod 32 = j \<longleftrightarrow> k = i * 32 + j" using assms(3) by (auto simp: mult.commute)
  moreover have "i * 32 + j < 256" using assms by simp
  ultimately show "k \<in> ?L \<longleftrightarrow> k \<in> ?R"
    using assms by (cases "k div 32 = i") (auto simp: used_def nth_list_update bit_simps)
qed

lemma used_clear:
  assumes "length (pagerefs_inuse r) = 8" "k < 256"
  shows "used (r\<lparr>pagerefs_inuse := (pagerefs_inuse r)[k div 32 := pagerefs_inuse r ! (k div 32) AND NOT (push_bit (k mod 32) 1)],
      numinuse := n\<rparr>) = used r - {k}" (is "?L = ?R")
proof (rule set_eqI)
  fix u
  have "u div 32 = k div 32 \<and> u mod 32 = k mod 32 \<longleftrightarrow> u = k" by (metis div_mod_decomp)
  moreover have "k div 32 < 8" using assms(2) by simp
  ultimately show "u \<in> ?L \<longleftrightarrow> u \<in> ?R"
    using assms by (cases "u div 32 = k div 32") (auto simp: used_def nth_list_update bit_simps)
qed

lemma descr_unat:
  assumes "page_addr pg" "k < 256"
  shows "unat (pg + of_nat (16 * k)) = unat pg + 16 * k"
  using assms by (intro unat_plus_nat) (simp add: page_addr_def)

lemma descr_page:
  assumes "root_ok r" "p \<in> descr_of r"
  shows "page_addr (kr_page r)" "within (kr_page r) 4096 p" "p \<noteq> NULL"
proof -
  obtain k where k: "k \<in> used r" "p = kr_page r + of_nat (16 * k)" using assms(2) by (auto simp: descr_of_def)
  then have "kr_page r \<noteq> NULL" using assms(1) by (auto simp: root_ok_def)
  then show pa: "page_addr (kr_page r)" using assms(1) by (simp add: root_ok_def)
  have "k < 256" using k(1) by (simp add: used_def)
  from descr_unat [OF pa this] this pa show "within (kr_page r) 4096 p" "p \<noteq> NULL"
    unfolding k(2) by (auto simp: within_def page_addr_def)
qed

lemma descr_index:
  assumes "page_addr pg" "k < 256"
  shows "unat (pg + of_nat (16 * k) - pg) div 16 = k"
proof -
  have "unat (of_nat (16 * k) :: 32 word) = 16 * k" using assms(2) by (intro unat_of_nat_32) simp
  then show ?thesis by (simp only: add_diff_cancel_left')
qed

lemma descr_disjoint:
  assumes "roots_ok rs" "w < 16" "u < 16" "p \<in> descr_of (rs ! w)" "p \<in> descr_of (rs ! u)"
  shows "w = u"
proof (rule ccontr)
  assume ne: "w \<noteq> u"
  have r: "root_ok (rs ! w)" "root_ok (rs ! u)" using assms(1-3) by (simp_all add: roots_ok_def)
  note W = descr_page [OF r(1) assms(4)] and U = descr_page [OF r(2) assms(5)]
  have "kr_page (rs ! w) = kr_page (rs ! u)" by (rule within_pages [OF W(1) U(1) W(2) U(2)])
  moreover have "kr_page (rs ! w) \<noteq> NULL" using W(1) by (auto simp: page_addr_def)
  ultimately show False using assms(1-3) ne unfolding roots_ok_def by blast
qed

lemma descr_update:
  assumes "roots_ok rs" "w < 16"
  shows "descr (rs[w := r]) = (descr rs - descr_of (rs ! w)) \<union> descr_of r"
proof -
  have "length rs = 16" using assms(1) by (simp add: roots_ok_def)
  then have "descr (rs[w := r]) = descr_of r \<union> (\<Union>u \<in> {..<16} - {w}. descr_of (rs ! u))"
    using assms(2) by (auto simp: descr_def nth_list_update split: if_splits)
  moreover have "descr rs - descr_of (rs ! w) = (\<Union>u \<in> {..<16} - {w}. descr_of (rs ! u))"
    using descr_disjoint [OF assms(1,2)] by (auto simp: descr_def)
  ultimately show ?thesis by blast
qed

lemma roots_update:
  assumes "roots_ok rs" "w < 16" "root_ok r"
    and "kr_page r = kr_page (rs ! w) \<or> kr_page (rs ! w) = NULL \<and> kr_page r \<notin> rpages rs"
  shows "roots_ok (rs[w := r])"
proof -
  have l: "length rs = 16" using assms(1) by (simp add: roots_ok_def)
  have e: "rs[w := r] ! u = (if u = w then r else rs ! u)" for u using l assms(2) by (simp add: nth_list_update)
  have "kr_page r \<noteq> kr_page (rs ! u)" if "u < 16" "u \<noteq> w" "kr_page r \<noteq> NULL" for u
    using assms(4)
  proof
    assume "kr_page r = kr_page (rs ! w)"
    then show ?thesis using that assms(1,2) by (metis roots_ok_def)
  next
    assume "kr_page (rs ! w) = NULL \<and> kr_page r \<notin> rpages rs"
    then show ?thesis using that by (auto simp: rpages_def)
  qed
  then show ?thesis using assms(1,3) l unfolding roots_ok_def e by auto metis+
qed

lemma freepageref_ok:
  assumes R: "roots_ok (kheaproots kh)" and p: "p \<in> descr (kheaproots kh)"
  shows "\<exists>rs. freepageref p kh = Ok (kh\<lparr>kheaproots := rs\<rparr>) \<and> roots_ok rs \<and> descr rs = descr (kheaproots kh) - {p}
    \<and> rpages rs = rpages (kheaproots kh)"
proof -
  let ?rs = "kheaproots kh"
  obtain w k where w: "w < 16" "k \<in> used (?rs ! w)" "p = kr_page (?rs ! w) + of_nat (16 * k)"
    using p by (auto simp: descr_def descr_of_def)
  let ?r = "?rs ! w"
  have pw: "p \<in> descr_of ?r" using w by (simp add: descr_of_def)
  have r: "root_ok ?r" using R w(1) by (simp add: roots_ok_def)
  note D = descr_page [OF r pw]
  have k: "k < 256" "bit (pagerefs_inuse ?r ! (k div 32)) (k mod 32)" using w(2) by (simp_all add: used_def)
  have idx: "unat (p - kr_page ?r) div 16 = k" unfolding w(3) by (rule descr_index [OF D(1) k(1)])
  have nz: "kr_page ?r \<noteq> NULL" using D(1) by (auto simp: page_addr_def)
  define r' where "r' = ?r\<lparr>pagerefs_inuse := (pagerefs_inuse ?r)
      [k div 32 := pagerefs_inuse ?r ! (k div 32) AND NOT (push_bit (k mod 32) 1)], numinuse := numinuse ?r - 1\<rparr>"
  have len: "length (pagerefs_inuse ?r) = 8" and num: "unat (numinuse ?r) = card (used ?r)" using r by (simp_all add: root_ok_def)
  have u': "used r' = used ?r - {k}" unfolding r'_def by (rule used_clear [OF len k(1)])
  have pos: "0 < card (used ?r)" using w(2) by (auto simp: card_gt_0_iff)
  have npos: "numinuse ?r > 0" using pos num by (simp add: word_less_nat_alt)
  have "unat (numinuse ?r - 1) = unat (numinuse ?r) - 1" using npos by (simp add: unat_sub word_le_nat_alt word_less_nat_alt)
  then have r': "root_ok r'" using r len num u' w(2) nz by (simp add: root_ok_def) (simp add: r'_def)
  have other: "\<not> unat (p - kr_page (?rs ! u)) div 16 < 256" if "u < w" "kr_page (?rs ! u) \<noteq> NULL" for u
  proof
    assume "unat (p - kr_page (?rs ! u)) div 16 < 256"
    then have "unat (p - kr_page (?rs ! u)) < 4096" by linarith
    moreover have pu: "page_addr (kr_page (?rs ! u))" using R that w(1) by (auto simp: roots_ok_def root_ok_def)
    ultimately have "within (kr_page (?rs ! u)) 4096 p" using sub_within [of "kr_page (?rs ! u)" 4096 p] by (simp add: page_addr_def)
    then have "kr_page (?rs ! u) = kr_page ?r" using within_pages [OF pu D(1) _ D(2)] by blast
    moreover have "u \<noteq> w" "u < 16" using that w(1) by simp_all
    ultimately show False using R that w(1) unfolding roots_ok_def by blast
  qed
  have step: "freepageref_from (Suc n) w p kh = Ok (set_root w r' kh)" for n
    using nz k npos by (simp add: Let_def idx NPAGEREFS_PER_PAGE_def and_bit_exp r'_def)
  have "freepageref_from (16 - u) u p kh = Ok (set_root w r' kh)" if "u \<le> w" for u
    using that
  proof (induction "w - u" arbitrary: u)
    case 0
    then have "u = w" by simp
    moreover have "16 - w = Suc (15 - w)" using w(1) by simp
    ultimately show ?case using step by simp
  next
    case (Suc d)
    then have u: "u < w" "16 - u = Suc (16 - Suc u)" using w(1) by auto
    have "root_ok (?rs ! u)" using R u(1) w(1) by (simp add: roots_ok_def)
    then have "numinuse (?rs ! u) = 0" if "kr_page (?rs ! u) = NULL"
      using that by (metis root_ok_def card.empty unat_eq_zero)
    then show ?case
      using Suc.hyps(1) [of "Suc u"] Suc.hyps(2) other [OF u(1)] u by (simp add: Let_def NPAGEREFS_PER_PAGE_def)
  qed
  from this [of 0] have run: "freepageref p kh = Ok (kh\<lparr>kheaproots := ?rs[w := r']\<rparr>)"
    by (simp add: freepageref_def NUM_PAGEREFPAGES_def set_root_def)
  have pg: "kr_page r' = kr_page ?r" by (simp add: r'_def)
  have l16: "length ?rs = 16" using R by (simp add: roots_ok_def)
  have same: "kr_page (?rs[w := r'] ! u) = kr_page (?rs ! u)" for u
    using pg w(1) l16 by (cases "u = w") (simp_all add: nth_list_update)
  have "roots_ok (?rs[w := r'])" using roots_update [OF R w(1) r'] pg by blast
  moreover have "descr_of r' = descr_of ?r - {p}"
  proof -
    have "kr_page ?r + of_nat (16 * j) = p \<longleftrightarrow> j = k" if "j \<in> used ?r" for j
    proof -
      have "j < 256" using that by (simp add: used_def)
      then show ?thesis using descr_index [OF D(1), of j] idx w(3) by metis
    qed
    then show ?thesis unfolding descr_of_def u' pg by auto
  qed
  then have "descr (?rs[w := r']) = descr ?rs - {p}"
    unfolding descr_update [OF R w(1)] using pw w(1) by (auto simp: descr_def)
  moreover have "rpages (?rs[w := r']) = rpages ?rs" unfolding rpages_def same by simp
  ultimately show ?thesis using run by blast
qed

text \<open>
  What a successful \<open>allocpageref\<close> gives: a descriptor that was not in use, perhaps with a fresh page
  for descriptors.
\<close>

definition gives_descr :: "kheap_root list \<Rightarrow> vm \<Rightarrow> ptr \<Rightarrow> kheap_root list \<Rightarrow> vm \<Rightarrow> bool" where
  "gives_descr rs v p rs' v' \<longleftrightarrow>
     p \<noteq> NULL \<and> p \<notin> descr rs \<and> descr rs' = insert p (descr rs) \<and> roots_ok rs' \<and> kvm_inv v' \<and>
     kpages v \<subseteq> kpages v' \<and> rpages rs \<subseteq> rpages rs' \<and> rpages rs' \<subseteq> rpages rs \<union> (kpages v' - kpages v) \<and>
     k_mem v' = k_mem v \<and> user_view v' = user_view v"

lemma allocpageref_ok:
  assumes R: "roots_ok (kheaproots kh)" and w: "w < 16" "unat (numinuse (kheaproots kh ! w)) < 256"
    and pre: "\<And>u. u < w \<Longrightarrow> \<not> unat (numinuse (kheaproots kh ! u)) < 256"
    and v: "kvm_inv v" "frame_avail v" "rpages (kheaproots kh) \<subseteq> kpages v"
  shows "\<exists>p rs v'. allocpageref kh v = Ok (p, kh\<lparr>kheaproots := rs\<rparr>, v') \<and> gives_descr (kheaproots kh) v p rs v'"
proof -
  let ?rs = "kheaproots kh" and ?r = "kheaproots kh ! w"
  have r: "root_ok ?r" using R w(1) by (simp add: roots_ok_def)
  then have len: "length (pagerefs_inuse ?r) = 8" and num: "unat (numinuse ?r) = card (used ?r)" by (simp_all add: root_ok_def)
  have "used ?r \<noteq> {..<256}" using w(2) num by (metis card_lessThan less_irrefl)
  then obtain k0 where "k0 < 256" "k0 \<notin> used ?r" by (auto simp: used_def)
  then obtain i j where ij: "find (\<lambda>i. pagerefs_inuse ?r ! i \<noteq> 0xffffffff) [0..<INUSE_WORDS] = Some i"
      "find (\<lambda>j. pagerefs_inuse ?r ! i AND push_bit j 1 = 0) [0..<32] = Some j" "i < 8" "j < 32" "\<not> bit (pagerefs_inuse ?r ! i) j"
    using pick_free [OF len, of k0] by (auto simp: used_def)
  define r1 where "r1 = ?r\<lparr>pagerefs_inuse := (pagerefs_inuse ?r)[i := pagerefs_inuse ?r ! i OR push_bit j 1],
      numinuse := numinuse ?r + 1\<rparr>"
  define k where "k = i * 32 + j"
  have u1: "used r1 = insert k (used ?r)" unfolding r1_def k_def by (rule used_set [OF len ij(3,4)])
  have k: "k \<notin> used ?r" "k < 256" using ij(3-5) by (auto simp: used_def k_def)
  have "unat (numinuse ?r + 1) = unat (numinuse ?r) + 1" using w(2) unat_plus_nat [of "numinuse ?r" 1] by simp
  then have n1: "unat (numinuse r1) = card (used r1)" using k num u1 by (simp add: r1_def)
  have run: "allocpageref_from (16 - u) u kh v = allocpageref_from (16 - w) w kh v" if "u \<le> w" for u
    using that
  proof (induction "w - u" arbitrary: u)
    case (Suc d)
    then have u: "u < w" "16 - u = Suc (16 - Suc u)" using w(1) by auto
    then show ?case
      using Suc.hyps(1) [of "Suc u"] Suc.hyps(2) pre [OF u(1)] by (simp add: Let_def NPAGEREFS_PER_PAGE_def)
  qed simp
  have s16: "16 - w = Suc (15 - w)" using w(1) by simp
  have al: "allocpageref kh v = kbind (if kr_page ?r = NULL then allocpagerefpage r1 v else Ok (r1, v)) (\<lambda>(root, v).
      if kr_page root = NULL then Ok (NULL, set_root w root kh, v)
      else Ok (kr_page root + of_nat (16 * k), set_root w root kh, v))"
    using run [of 0] w(2) ij(1,2) unfolding allocpageref_def NUM_PAGEREFPAGES_def s16 k_def r1_def
    by (simp add: Let_def NPAGEREFS_PER_PAGE_def del: push_bit_of_1)
  have give: "gives_descr ?rs v (kr_page r2 + of_nat (16 * k)) (?rs[w := r2]) v'"
    if r2: "r2 = r1\<lparr>kr_page := pg\<rparr>" "page_addr pg" "kr_page ?r = pg \<and> v' = v \<or> kr_page ?r = NULL \<and> pg \<notin> kpages v \<and> kpages v' = insert pg (kpages v)"
      and v': "kvm_inv v'" "k_mem v' = k_mem v" "user_view v' = user_view v" for r2 pg v'
  proof -
    have pg: "kr_page r2 = pg" "used r2 = insert k (used ?r)" using r2(1) u1 by (simp_all add: used_def)
    have nz: "pg \<noteq> NULL" using r2(2) by (auto simp: page_addr_def)
    have ok2: "root_ok r2" using r2(1,2) len n1 nz by (simp add: root_ok_def r1_def used_def)
    have fresh: "kr_page r2 = kr_page ?r \<or> kr_page ?r = NULL \<and> kr_page r2 \<notin> rpages ?rs"
      using r2(3) v(3) pg(1) by auto
    have R2: "roots_ok (?rs[w := r2])" by (rule roots_update [OF R w(1) ok2 fresh])
    have d2: "descr_of r2 = insert (pg + of_nat (16 * k)) (descr_of ?r)"
    proof (cases "kr_page ?r = NULL")
      case True
      then have "used ?r = {}" using r by (simp add: root_ok_def)
      then show ?thesis using pg by (simp add: descr_of_def)
    next
      case False
      then show ?thesis using pg r2(3) by (auto simp: descr_of_def)
    qed
    have new: "pg + of_nat (16 * k) \<notin> descr ?rs"
    proof
      assume "pg + of_nat (16 * k) \<in> descr ?rs"
      then obtain u where u: "u < 16" "pg + of_nat (16 * k) \<in> descr_of (?rs ! u)" by (auto simp: descr_def)
      have ru: "root_ok (?rs ! u)" using R u(1) by (simp add: roots_ok_def)
      note D = descr_page [OF ru u(2)]
      have "within pg 4096 (pg + of_nat (16 * k))" using descr_unat [OF r2(2) k(2)] k(2) by (simp add: within_def)
      then have same: "kr_page (?rs ! u) = pg" using within_pages [OF D(1) r2(2) D(2)] by blast
      then have "pg \<in> rpages ?rs" using u(1) nz by (auto simp: rpages_def)
      then have pw: "kr_page ?r = pg" using r2(3) v(3) by auto
      then have "u = w" using R u(1) w(1) same nz by (metis roots_ok_def)
      then obtain k' where k': "k' \<in> used ?r" "pg + of_nat (16 * k) = pg + of_nat (16 * k')" using u(2) pw by (auto simp: descr_of_def)
      then have "k' < 256" by (simp add: used_def)
      then have "k = k'" using descr_unat [OF r2(2) k(2)] descr_unat [OF r2(2), of k'] unfolding k'(2) by linarith
      then show False using k(1) k'(1) by simp
    qed
    have "pg + of_nat (16 * k) \<noteq> NULL"
      using descr_unat [OF r2(2) k(2)] r2(2) by (auto simp: page_addr_def)
    moreover have "descr (?rs[w := r2]) = insert (pg + of_nat (16 * k)) (descr ?rs)"
      unfolding descr_update [OF R w(1)] d2 using w(1) by (auto simp: descr_def)
    moreover have "rpages (?rs[w := r2]) = insert pg (rpages ?rs)"
    proof -
      have "length ?rs = 16" using R by (simp add: roots_ok_def)
      then show ?thesis
        using w(1) pg(1) nz r2(3) unfolding rpages_def by (auto simp: nth_list_update)
    qed
    moreover have "pg \<in> rpages ?rs \<or> pg \<in> kpages v' - kpages v"
      using r2(3) w(1) nz by (auto simp: rpages_def)
    ultimately show ?thesis
      using new R2 v' r2(3) pg(1) unfolding gives_descr_def by auto
  qed
  show ?thesis
  proof (cases "kr_page ?r = NULL")
    case True
    obtain a v' where a: "alloc_kpages 1 v = Ok (a, v')" "kvm_inv v'" "a \<notin> kpages v" "kpages v' = insert a (kpages v)"
        "k_mem v' = k_mem v" "user_view v' = user_view v"
      using kp.alloc_law [OF v(1,2)] by blast
    have pa: "page_addr a" using kp.held_page [OF a(2)] a(4) by (simp add: page_addr_def)
    then have "a \<noteq> 0" "a mod PAGE_SIZE = 0"
      using unat_page_mod [of a] by (auto simp: page_addr_def unat_eq_zero)
    then have "allocpagerefpage r1 v = Ok (r1\<lparr>kr_page := a\<rparr>, v')"
      using True a(1) by (simp add: allocpagerefpage_def r1_def)
    then have "allocpageref kh v = Ok (a + of_nat (16 * k), kh\<lparr>kheaproots := ?rs[w := r1\<lparr>kr_page := a\<rparr>]\<rparr>, v')"
      using True \<open>a \<noteq> 0\<close> by (simp add: al set_root_def)
    then show ?thesis using give [OF refl pa _ a(2,5,6)] True a(3,4) by auto
  next
    case False
    then have pa: "page_addr (kr_page ?r)" using r by (simp add: root_ok_def)
    have e: "r1 = r1\<lparr>kr_page := kr_page ?r\<rparr>" by (simp add: r1_def)
    have "allocpageref kh v = Ok (kr_page r1 + of_nat (16 * k), kh\<lparr>kheaproots := ?rs[w := r1]\<rparr>, v)"
      using False by (simp add: al set_root_def) (simp add: r1_def)
    then show ?thesis using give [OF e pa _ v(1) refl refl] by blast
  qed
qed

section \<open>Writing in pages of the kernel\<close>

lemma kvm_mem [simp]:
  "kvm_inv (v\<lparr>k_mem := m\<rparr>) = kvm_inv v" "kpages (v\<lparr>k_mem := m\<rparr>) = kpages v"
  "boot_pages (v\<lparr>k_mem := m\<rparr>) = boot_pages v"
  by (simp_all add: kvm_inv_def kpages_def boot_pages_def held_frame_def pt_shape_def npt_def frames_ok_def frame_addr_def)

lemma kpage_addr: "kvm_inv v \<Longrightarrow> a \<in> kpages v \<Longrightarrow> page_addr a"
  using kp.held_page by (simp add: page_addr_def)

text \<open>No page of a process sees it.\<close>

lemma vpage_kernel_write:
  assumes "kvm_inv v" "pt_inv v" "pg \<in> kpages v" "\<And>x. \<not> within pg 4096 x \<Longrightarrow> m x = k_mem v x"
  shows "vpage (v\<lparr>k_mem := m\<rparr>) = vpage v"
proof
  fix k
  show "vpage (v\<lparr>k_mem := m\<rparr>) k = vpage v k"
  proof (cases "ht_lookup (htable v) k")
    case None
    then show ?thesis using sw_look_cong [of "v\<lparr>k_mem := m\<rparr>" v k] by (simp add: vpage_def)
  next
    case (Some i)
    have "coupled (htable v) (npt v) (ents v)" using assms(2) by (simp add: pt_inv_def)
    then obtain q where q: "q \<in> users (npt v) (ents v)" "i = int q" using Some unfolding coupled_def by blast
    then have q': "q < npt v" "user (ents v ! q)" by (simp_all add: users_def)
    let ?a = "PADDR_TO_KVADDR (frame_addr v (int q))"
    have ne: "?a \<noteq> pg" using kpages_inj [OF assms(1) q'(1)] assms(3) q'(2) by (auto simp: held_frame_def user_def)
    have pa: "page_addr ?a" using kvm_frame(1,2,3) [OF assms(1) q'(1)] by (simp add: page_addr_def)
    have "mem_get ?a m j = mem_get ?a (k_mem v) j" if "j < 4096" for j
    proof -
      have "unat (?a + of_nat j) = unat ?a + j" using pa that by (intro unat_plus_nat) (simp add: page_addr_def)
      then have "within ?a 4096 (?a + of_nat j)" using that by (simp add: within_def)
      then have "\<not> within pg 4096 (?a + of_nat j)" using within_pages [OF pa kpage_addr [OF assms(1,3)]] ne by blast
      then show ?thesis using assms(4) by (simp add: mem_get_def)
    qed
    then have "frame_bytes m (frame_addr v i) = frame_bytes (k_mem v) (frame_addr v i)"
      unfolding frame_bytes_def q(2) by (intro map_cong) simp_all
    moreover have "frame_addr (v\<lparr>k_mem := m\<rparr>) i = frame_addr v i" by (simp add: frame_addr_def)
    ultimately show ?thesis using Some by (simp add: vpage_def)
  qed
qed

lemma kernel_write:
  assumes "kvm_inv v" "pg \<in> kpages v" "\<And>x. \<not> within pg 4096 x \<Longrightarrow> m x = k_mem v x"
  shows "user_view (v\<lparr>k_mem := m\<rparr>) = user_view v"
proof -
  have "pt_inv (v\<lparr>k_mem := m\<rparr>) = pt_inv v" by (simp add: pt_inv_def pt_shape_def npt_def)
  then show ?thesis using vpage_kernel_write [OF assms(1) _ assms(2,3)] by (simp add: user_view_def)
qed

section \<open>The invariant\<close>

abbreviation pg_of :: "kheap \<Rightarrow> ptr \<Rightarrow> vaddr" where
  "pg_of kh p \<equiv> PR_PAGEADDR (prefs kh p)"

abbreviation ty_of :: "kheap \<Rightarrow> ptr \<Rightarrow> nat" where
  "ty_of kh p \<equiv> PR_BLOCKTYPE (prefs kh p)"

definition page_rep :: "kmem \<Rightarrow> pageref \<Rightarrow> nat list \<Rightarrow> bool" where
  "page_rep m p fl \<longleftrightarrow>
     PR_BLOCKTYPE p < NSIZES \<and> distinct fl \<and> (\<forall>j \<in> set fl. j < nblk (PR_BLOCKTYPE p)) \<and>
     unat (nfree p) = length fl \<and>
     freelist_offset p = (if fl = [] then INVALID_OFFSET else of_nat (hd fl * sizes ! PR_BLOCKTYPE p)) \<and>
     flinks m (PR_PAGEADDR p) (PR_BLOCKTYPE p) fl"

text \<open>
  \<open>prs\<close> are the descriptors on the list of all pages, the newest first, \<open>fls\<close> the free blocks of
  each page in the order of its free list.
\<close>

definition heap_rep :: "kheap \<Rightarrow> vm \<Rightarrow> ptr list \<Rightarrow> (ptr \<Rightarrow> nat list) \<Rightarrow> bool" where
  "heap_rep kh v prs fls \<longleftrightarrow>
     kvm_inv v \<and> roots_ok (kheaproots kh) \<and> descr (kheaproots kh) = set prs \<and> rpages (kheaproots kh) \<subseteq> kpages v \<and>
     length (sizebases kh) = NSIZES \<and> hlist (\<lambda>a. next_all (prefs kh a)) (allbase kh) prs \<and>
     (\<forall>ty < NSIZES. hlist (\<lambda>a. next_samesize (prefs kh a)) (sizebases kh ! ty) (filter (\<lambda>a. ty_of kh a = ty) prs)) \<and>
     (\<forall>p \<in> set prs. page_rep (k_mem v) (prefs kh p) (fls p) \<and> pg_of kh p \<in> kpages v \<and> pg_of kh p \<notin> rpages (kheaproots kh)) \<and>
     inj_on (pg_of kh) (set prs)"

definition page_blocks :: "kheap \<Rightarrow> ptr \<Rightarrow> nat list \<Rightarrow> (vaddr \<times> nat) set" where
  "page_blocks kh p fl = (\<lambda>j. (baddr (pg_of kh p) (ty_of kh p) j, sizes ! ty_of kh p)) ` ({..<nblk (ty_of kh p)} - set fl)"

definition blocks :: "kheap \<Rightarrow> ptr list \<Rightarrow> (ptr \<Rightarrow> nat list) \<Rightarrow> (vaddr \<times> nat) set" where
  "blocks kh prs fls = (\<Union>p \<in> set prs. page_blocks kh p (fls p))"

lemma blocksE:
  assumes "(a, b) \<in> blocks kh prs fls"
  obtains p j where "p \<in> set prs" "j < nblk (ty_of kh p)" "j \<notin> set (fls p)" "a = baddr (pg_of kh p) (ty_of kh p) j"
    "b = sizes ! ty_of kh p"
  using assms unfolding blocks_def page_blocks_def by blast

text \<open>The blocks of one page and those of the others.\<close>

lemma blocks_split:
  assumes "p \<in> set prs" "\<And>a. a \<in> set prs \<Longrightarrow> pg_of kh' a = pg_of kh a \<and> ty_of kh' a = ty_of kh a"
  shows "blocks kh' prs (fls(p := fl)) = page_blocks kh p fl \<union> (\<Union>a \<in> set prs - {p}. page_blocks kh a (fls a))"
proof -
  have "blocks kh' prs (fls(p := fl)) = (\<Union>a \<in> set prs. page_blocks kh a ((fls(p := fl)) a))"
    unfolding blocks_def page_blocks_def using assms(2) by (intro SUP_cong) auto
  also have "\<dots> = (\<Union>a \<in> insert p (set prs - {p}). page_blocks kh a ((fls(p := fl)) a))" using assms(1) by (simp add: insert_absorb)
  also have "\<dots> = page_blocks kh p fl \<union> (\<Union>a \<in> set prs - {p}. page_blocks kh a ((fls(p := fl)) a))"
    by (simp only: UN_insert fun_upd_same)
  also have "(\<Union>a \<in> set prs - {p}. page_blocks kh a ((fls(p := fl)) a)) = (\<Union>a \<in> set prs - {p}. page_blocks kh a (fls a))"
    by (intro SUP_cong) auto
  finally show ?thesis .
qed

lemma page_blocks_push:
  assumes "j < nblk (ty_of kh p)" "j \<notin> set js"
  shows "page_blocks kh p js = insert (baddr (pg_of kh p) (ty_of kh p) j, sizes ! ty_of kh p) (page_blocks kh p (j # js))"
proof -
  have "{..<nblk (ty_of kh p)} - set js = insert j ({..<nblk (ty_of kh p)} - set (j # js))" using assms by auto
  then show ?thesis unfolding page_blocks_def by simp
qed

text \<open>
  The heap with the allocated blocks \<open>B\<close>: blocks in its pages, none of which is entirely free, and
  whole pages \<open>L\<close> that hold neither blocks nor descriptors.
\<close>

definition large :: "kheap \<Rightarrow> vm \<Rightarrow> ptr list \<Rightarrow> vaddr set \<Rightarrow> bool" where
  "large kh v prs L \<longleftrightarrow> L \<subseteq> kpages v \<and> L \<inter> rpages (kheaproots kh) = {} \<and> L \<inter> pg_of kh ` set prs = {}"

definition whole :: "vaddr set \<Rightarrow> (vaddr \<times> nat) set" where
  "whole L = (\<lambda>a. (a, 4096)) ` L"

definition heap_ord :: "kheap \<Rightarrow> vm \<Rightarrow> (vaddr \<times> nat) set \<Rightarrow> bool" where
  "heap_ord kh v B \<longleftrightarrow>
     (\<exists>prs fls L. heap_rep kh v prs fls \<and> (\<forall>p \<in> set prs. length (fls p) < nblk (ty_of kh p)) \<and> large kh v prs L
        \<and> B = blocks kh prs fls \<union> whole L)"

text \<open>The same, with the pages of the processes in order.\<close>

definition heap_inv :: "kheap \<Rightarrow> vm \<Rightarrow> (vaddr \<times> nat) set \<Rightarrow> bool" where
  "heap_inv kh v B \<longleftrightarrow> pt_inv v \<and> heap_ord kh v B"

lemma heap_ordI:
  assumes "heap_rep kh v prs fls" "\<forall>p \<in> set prs. length (fls p) < nblk (ty_of kh p)" "large kh v prs L"
    "B = blocks kh prs fls \<union> whole L"
  shows "heap_ord kh v B"
  using assms unfolding heap_ord_def by blast

lemma heap_repD:
  assumes "heap_rep kh v prs fls"
  shows "kvm_inv v" "roots_ok (kheaproots kh)" "descr (kheaproots kh) = set prs" "rpages (kheaproots kh) \<subseteq> kpages v"
    "length (sizebases kh) = NSIZES" "hlist (\<lambda>a. next_all (prefs kh a)) (allbase kh) prs"
    "\<And>ty. ty < NSIZES \<Longrightarrow> hlist (\<lambda>a. next_samesize (prefs kh a)) (sizebases kh ! ty) (filter (\<lambda>a. ty_of kh a = ty) prs)"
    "\<And>p. p \<in> set prs \<Longrightarrow> page_rep (k_mem v) (prefs kh p) (fls p)" "\<And>p. p \<in> set prs \<Longrightarrow> pg_of kh p \<in> kpages v"
    "\<And>p. p \<in> set prs \<Longrightarrow> pg_of kh p \<notin> rpages (kheaproots kh)" "inj_on (pg_of kh) (set prs)"
    "\<And>p. p \<in> set prs \<Longrightarrow> ty_of kh p < NSIZES" "\<And>p. p \<in> set prs \<Longrightarrow> page_addr (pg_of kh p)"
  using assms kpage_addr unfolding heap_rep_def page_rep_def by blast+

lemma page_rep_frame:
  assumes "page_rep m p fl" "page_addr (PR_PAGEADDR p)"
    and "\<And>j x. j \<in> set fl \<Longrightarrow> within (baddr (PR_PAGEADDR p) (PR_BLOCKTYPE p) j) (sizes ! PR_BLOCKTYPE p) x \<Longrightarrow> m' x = m x"
  shows "page_rep m' p fl"
  using assms flinks_cong [OF assms(2), of "PR_BLOCKTYPE p" fl m' m] by (simp add: page_rep_def)

text \<open>An update of the free list of one page, with the memory of that page.\<close>

lemma heap_rep_page:
  assumes H: "heap_rep kh v prs fls" and p: "p \<in> set prs"
    and f: "\<And>x. next_samesize (f x) = next_samesize x" "\<And>x. next_all (f x) = next_all x"
      "\<And>x. pageaddr_and_blocktype (f x) = pageaddr_and_blocktype x"
    and rep: "page_rep m (f (prefs kh p)) fl" and out: "\<And>x. \<not> within (pg_of kh p) 4096 x \<Longrightarrow> m x = k_mem v x"
  shows "heap_rep (upd_pr p f kh) (v\<lparr>k_mem := m\<rparr>) prs (fls(p := fl))"
proof -
  note D = heap_repD [OF H]
  let ?kh = "upd_pr p f kh"
  have e: "next_samesize (prefs ?kh a) = next_samesize (prefs kh a)" "next_all (prefs ?kh a) = next_all (prefs kh a)"
    "pg_of ?kh a = pg_of kh a" "ty_of ?kh a = ty_of kh a" for a
    using f by (simp_all add: upd_pr_def PR_PAGEADDR_def PR_BLOCKTYPE_def)
  have k: "kheaproots ?kh = kheaproots kh" "sizebases ?kh = sizebases kh" "allbase ?kh = allbase kh"
    by (simp_all add: upd_pr_def)
  have "page_rep m (prefs ?kh a) ((fls(p := fl)) a)" if a: "a \<in> set prs" for a
  proof (cases "a = p")
    case True
    then show ?thesis using rep by (simp add: upd_pr_def)
  next
    case False
    have "pg_of kh a \<noteq> pg_of kh p" using D(11) a p False by (auto simp: inj_on_def)
    moreover have "\<forall>j \<in> set (fls a). j < nblk (ty_of kh a)" using D(8) [OF a] by (simp add: page_rep_def)
    ultimately have "page_rep m (prefs kh a) (fls a)"
      using within_page [OF D(13,12) [OF a]] within_pages [OF D(13) [OF a] D(13) [OF p]]
      by (intro page_rep_frame [OF D(8) [OF a] D(13) [OF a]] out) blast
    then show ?thesis using False by (simp add: upd_pr_def)
  qed
  then show ?thesis
    using D(1-7,9-11) unfolding heap_rep_def e k by simp
qed

lemma ucast_small:
  "n < 65536 \<Longrightarrow> (ucast (of_nat n :: 16 word) :: 32 word) = of_nat n"
  "n < 65536 \<Longrightarrow> (ucast (of_nat n :: 32 word) :: 16 word) = of_nat n"
  by (simp_all add: unsigned_of_nat take_bit_nat_eq_self)

lemma unat_of_nat_16: "n < 65536 \<Longrightarrow> unat (of_nat n :: 16 word) = n"
  by (simp add: unat_of_nat take_bit_nat_eq_self)

lemma block_offset:
  assumes "ty < NSIZES" "j < nblk ty"
  shows "j * sizes ! ty < 4096" "unat (of_nat (j * sizes ! ty) :: 16 word) = j * sizes ! ty"
    "of_nat (j * sizes ! ty) \<noteq> INVALID_OFFSET"
proof -
  show l: "j * sizes ! ty < 4096" using block_end [OF assms] size_facts(2) [OF assms(1)] by linarith
  then show u: "unat (of_nat (j * sizes ! ty) :: 16 word) = j * sizes ! ty" by (intro unat_of_nat_16) simp
  show "of_nat (j * sizes ! ty) \<noteq> INVALID_OFFSET"
  proof
    assume "of_nat (j * sizes ! ty) = INVALID_OFFSET"
    then have "unat (of_nat (j * sizes ! ty) :: 16 word) = unat INVALID_OFFSET" by (rule arg_cong)
    then show False using u l by (simp add: INVALID_OFFSET_def)
  qed
qed

text \<open>Taking the first free block.\<close>

lemma doalloc_ok:
  assumes H: "heap_rep kh v prs fls" and p: "p \<in> set prs" and fl: "fls p = j # js"
  shows "\<exists>f. doalloc p kh v = Ok (baddr (pg_of kh p) (ty_of kh p) j, upd_pr p f kh, v)
    \<and> heap_rep (upd_pr p f kh) v prs (fls(p := js)) \<and> (\<forall>a. pg_of (upd_pr p f kh) a = pg_of kh a \<and> ty_of (upd_pr p f kh) a = ty_of kh a)"
proof -
  note D = heap_repD [OF H]
  let ?p = "prefs kh p" and ?pg = "pg_of kh p" and ?ty = "ty_of kh p"
  have R: "page_rep (k_mem v) ?p (j # js)" using D(8) [OF p] fl by simp
  note ty = D(12) [OF p] and pa = D(13) [OF p]
  have j: "j < nblk ?ty" "\<forall>k \<in> set js. k < nblk ?ty" "distinct (j # js)" "unat (nfree ?p) = Suc (length js)"
      "freelist_offset ?p = of_nat (j * sizes ! ?ty)" "flinks (k_mem v) ?pg ?ty (j # js)"
    using R by (simp_all add: page_rep_def)
  note o = block_offset [OF ty j(1)]
  have ret: "?pg + ucast (freelist_offset ?p) = baddr ?pg ?ty j" "unat (freelist_offset ?p) < 4096"
    using o(1,2) j(5) ucast_small(1) [of "j * sizes ! ?ty"] by (simp_all add: baddr_def)
  have n1: "unat (nfree ?p - 1) = length js"
    using j(4) by (subst unat_sub) (simp_all add: word_le_nat_alt)
  have z: "nfree ?p - 1 = 0 \<longleftrightarrow> js = []" using n1 by (metis length_0_conv unat_eq_zero)
  have fr: "heap_rep (upd_pr p f kh) v prs (fls(p := js))"
    if "f = (\<lambda>x. x\<lparr>nfree := nfree ?p - 1, freelist_offset := c\<rparr>)" "page_rep (k_mem v) (f ?p) js" for f c
    using heap_rep_page [OF H p, of f "k_mem v" js] that by (simp add: PR_PAGEADDR_def PR_BLOCKTYPE_def)
  have same: "pg_of (upd_pr p f kh) a = pg_of kh a \<and> ty_of (upd_pr p f kh) a = ty_of kh a"
    if "f = (\<lambda>x. x\<lparr>nfree := nfree ?p - 1, freelist_offset := c\<rparr>)" for f c a
    using that by (simp add: upd_pr_def PR_PAGEADDR_def PR_BLOCKTYPE_def)
  show ?thesis
  proof (cases js)
    case Nil
    let ?f = "\<lambda>x. x\<lparr>nfree := nfree ?p - 1, freelist_offset := INVALID_OFFSET\<rparr>"
    have "ld32 (baddr ?pg ?ty j) (k_mem v) = NULL" using j(6) Nil by simp
    then have "doalloc p kh v = Ok (baddr ?pg ?ty j, upd_pr p ?f kh, v)"
      using ret z Nil by (simp add: doalloc_def Let_def)
    moreover have "page_rep (k_mem v) (?f ?p) js"
      using ty n1 Nil by (simp add: page_rep_def PR_BLOCKTYPE_def)
    ultimately show ?thesis using fr [OF refl] same [OF refl] by blast
  next
    case (Cons k ks)
    have k: "k < nblk ?ty" using j(2) Cons by simp
    note ok = block_offset [OF ty k]
    let ?f = "\<lambda>x. x\<lparr>nfree := nfree ?p - 1, freelist_offset := of_nat (k * sizes ! ?ty)\<rparr>"
    have ld: "ld32 (baddr ?pg ?ty j) (k_mem v) = baddr ?pg ?ty k" using j(6) Cons by simp
    have df: "baddr ?pg ?ty k - ?pg = of_nat (k * sizes ! ?ty)" by (simp add: baddr_def)
    have "unat (of_nat (k * sizes ! ?ty) :: 32 word) = k * sizes ! ?ty" using ok(1) by (intro unat_of_nat_32) simp
    then have lt: "(of_nat (k * sizes ! ?ty) :: 32 word) < PAGE_SIZE" using ok(1) by (simp add: word_less_nat_alt PAGE_SIZE_def)
    have "nfree ?p - 1 > 0" using z Cons by (simp add: word_gt_0)
    then have "doalloc p kh v = Ok (baddr ?pg ?ty j, upd_pr p ?f kh, v)"
      using ret ld df lt baddr_nonnull [OF pa ty k] ucast_small(2) [of "k * sizes ! ?ty"] ok(1)
      by (simp add: doalloc_def Let_def)
    moreover have "page_rep (k_mem v) (?f ?p) js"
      using ty n1 j Cons by (simp add: page_rep_def PR_BLOCKTYPE_def PR_PAGEADDR_def)
    ultimately show ?thesis using fr [OF refl] same [OF refl] by blast
  qed
qed

section \<open>Allocation\<close>

lemma find_page_ok:
  assumes "hlist (\<lambda>a. next_samesize (prefs kh a)) p ps" "\<forall>a \<in> set ps. ty_of kh a = ty"
  shows "find_page ty p kh = Some (Ok (case find (\<lambda>a. nfree (prefs kh a) > 0) ps of None \<Rightarrow> NULL | Some a \<Rightarrow> a))"
  using assms
proof (induction ps arbitrary: p)
  case Nil
  then show ?case by (subst find_page.simps) simp
next
  case (Cons a ps)
  then show ?case by (subst find_page.simps) auto
qed

lemma MKPAB_parts:
  assumes "page_addr pg" "ty < NSIZES" "pageaddr_and_blocktype p = MKPAB pg ty"
  shows "PR_PAGEADDR p = pg" "PR_BLOCKTYPE p = ty"
proof -
  have "pg mod PAGE_SIZE = 0" using assms(1) unat_page_mod [of pg] by (simp add: page_addr_def unat_eq_zero)
  then have pg: "pg AND PAGE_FRAME = pg" by (simp add: and_PAGE_FRAME)
  have "((pg AND PAGE_FRAME) OR (of_nat ty AND NOT PAGE_FRAME)) AND PAGE_FRAME = pg AND PAGE_FRAME"
    "((pg AND PAGE_FRAME) OR (of_nat ty AND NOT PAGE_FRAME)) AND NOT PAGE_FRAME = of_nat ty AND NOT PAGE_FRAME"
    by (auto simp: bit_eq_iff bit_simps)
  moreover have "unat (of_nat ty AND NOT PAGE_FRAME :: 32 word) = ty"
    using assms(2) by (simp add: and_not_PAGE_FRAME unat_page_mod NSIZES_def)
  ultimately show "PR_PAGEADDR p = pg" "PR_BLOCKTYPE p = ty"
    using pg by (simp_all add: PR_PAGEADDR_def PR_BLOCKTYPE_def assms(3) MKPAB_def)
qed

text \<open>Two frames that can be had, and a descriptor that is not in use.\<close>

definition heap_room :: "kheap \<Rightarrow> vm \<Rightarrow> bool" where
  "heap_room kh v \<longleftrightarrow> frame_avail v \<and> (\<forall>a v'. alloc_kpages 1 v = Ok (a, v') \<longrightarrow> frame_avail v') \<and>
     (\<exists>w < 16. unat (numinuse (kheaproots kh ! w)) < 256)"

lemma heap_rep_new:
  assumes H: "heap_rep kh v prs fls" and ty: "ty < NSIZES"
    and pr: "gives_descr (kheaproots kh) v pr rs v2" and pg: "pg \<in> kpages v" "pg \<notin> rpages (kheaproots kh)" "pg \<notin> pg_of kh ` set prs"
    and kh': "kh' = kh\<lparr>kheaproots := rs, prefs := (prefs kh)(pr := \<lparr>next_samesize = sizebases kh ! ty, next_all = allbase kh,
        pageaddr_and_blocktype = MKPAB pg ty, freelist_offset = of_nat ((nblk ty - 1) * sizes ! ty), nfree = of_nat (nblk ty)\<rparr>),
        sizebases := (sizebases kh)[ty := pr], allbase := pr\<rparr>"
    and m: "flinks m pg ty (rev [0..<nblk ty])" "\<And>x. \<not> within pg 4096 x \<Longrightarrow> m x = k_mem v x"
  shows "heap_rep kh' (v2\<lparr>k_mem := m\<rparr>) (pr # prs) (fls(pr := rev [0..<nblk ty]))"
proof -
  note D = heap_repD [OF H]
  have G: "pr \<noteq> NULL" "pr \<notin> set prs" "descr rs = insert pr (set prs)" "roots_ok rs" "kvm_inv v2" "kpages v \<subseteq> kpages v2"
      "rpages rs \<subseteq> rpages (kheaproots kh) \<union> (kpages v2 - kpages v)"
    using pr D(3) unfolding gives_descr_def by auto
  have pa: "page_addr pg" by (rule kpage_addr [OF D(1) pg(1)])
  have npr: "pg_of kh' pr = pg" "ty_of kh' pr = ty" using MKPAB_parts [OF pa ty] kh' by simp_all
  have old: "prefs kh' a = prefs kh a" if "a \<in> set prs" for a using that G(2) kh' by auto
  have nxa: "(\<lambda>a. next_all (prefs kh' a)) = (\<lambda>a. next_all (prefs kh a))(pr := allbase kh)" using kh' by (auto simp: fun_eq_iff)
  have nxs: "(\<lambda>a. next_samesize (prefs kh' a)) = (\<lambda>a. next_samesize (prefs kh a))(pr := sizebases kh ! ty)" using kh' by (auto simp: fun_eq_iff)
  have all: "hlist (\<lambda>a. next_all (prefs kh' a)) (allbase kh') (pr # prs)"
    unfolding nxa using hlist_push [OF D(6) G(2,1)] kh' by simp
  have flt: "filter (\<lambda>a. ty_of kh' a = t) (pr # prs) = (if t = ty then pr # filter (\<lambda>a. ty_of kh a = t) prs else filter (\<lambda>a. ty_of kh a = t) prs)" for t
    using npr(2) old by (auto intro: filter_cong)
  have same: "hlist (\<lambda>a. next_samesize (prefs kh' a)) (sizebases kh' ! t) (filter (\<lambda>a. ty_of kh' a = t) (pr # prs))" if t: "t < NSIZES" for t
  proof (cases "t = ty")
    case True
    then show ?thesis
      unfolding flt nxs using hlist_push [OF D(7) [OF ty] _ G(1)] G(2) kh' t D(5) by simp
  next
    case False
    then show ?thesis unfolding flt nxs using D(7) [OF t] G(2) kh' by simp
  qed
  have "unat (of_nat (nblk ty) :: 16 word) = nblk ty" using size_facts(6) [OF ty] by (intro unat_of_nat_16) simp
  moreover have "rev [0..<nblk ty] \<noteq> []" "hd (rev [0..<nblk ty]) = nblk ty - 1"
    using size_facts(5) [OF ty] by (auto simp: hd_rev)
  ultimately have new: "page_rep m (prefs kh' pr) (rev [0..<nblk ty])"
    using ty npr m(1) unfolding page_rep_def by (simp add: kh')
  have rep: "page_rep m (prefs kh' a) ((fls(pr := rev [0..<nblk ty])) a)" if a: "a \<in> set (pr # prs)" for a
  proof (cases "a = pr")
    case False
    then have a': "a \<in> set prs" using a by simp
    have "pg_of kh a \<noteq> pg" using pg(3) a' by blast
    moreover have "\<forall>j \<in> set (fls a). j < nblk (ty_of kh a)" using D(8) [OF a'] by (simp add: page_rep_def)
    ultimately have "page_rep m (prefs kh a) (fls a)"
      using within_page [OF D(13,12) [OF a']] within_pages [OF D(13) [OF a'] pa]
      by (intro page_rep_frame [OF D(8) [OF a'] D(13) [OF a']] m(2)) blast
    then show ?thesis using False old [OF a'] by simp
  qed (simp add: new)
  have pgs: "pg_of kh' a = (if a = pr then pg else pg_of kh a)" if "a \<in> set (pr # prs)" for a
    using that npr(1) old by auto
  have inj: "inj_on (pg_of kh') (set (pr # prs))"
    using D(11) pg(3) G(2) unfolding inj_on_def by (auto simp: pgs)
  have kp: "pg_of kh' a \<in> kpages v2 \<and> pg_of kh' a \<notin> rpages rs" if "a \<in> set (pr # prs)" for a
    using that pgs [OF that] D(9,10) pg(1,2) G(6,7) by auto
  have rp: "rpages rs \<subseteq> kpages v2" using G(6,7) D(4) by blast
  show ?thesis
    unfolding heap_rep_def kvm_mem using G(3-5) rp all same rep kp inj D(5) kh' by simp
qed

lemma new_block_page_ok:
  assumes H: "heap_rep kh v prs fls" and ty: "ty < NSIZES" and room: "heap_room kh v"
  shows "\<exists>pr kh' v'. new_block_page ty kh v = Ok (pr, kh', v') \<and> pr \<noteq> NULL \<and> pr \<notin> set prs
    \<and> heap_rep kh' v' (pr # prs) (fls(pr := rev [0..<nblk ty])) \<and> ty_of kh' pr = ty \<and> pg_of kh' pr \<notin> kpages v
    \<and> (\<forall>a \<in> set prs. prefs kh' a = prefs kh a) \<and> (\<forall>x. \<not> within (pg_of kh' pr) 4096 x \<longrightarrow> k_mem v' x = k_mem v x)
    \<and> user_view v' = user_view v \<and> kpages v \<subseteq> kpages v' \<and> rpages (kheaproots kh') \<inter> kpages v \<subseteq> rpages (kheaproots kh)"
proof -
  note D = heap_repD [OF H]
  obtain a v1 where a: "alloc_kpages 1 v = Ok (a, v1)" "kvm_inv v1" "a \<notin> kpages v" "kpages v1 = insert a (kpages v)"
      "k_mem v1 = k_mem v" "user_view v1 = user_view v"
    using kp.alloc_law [OF D(1)] room by (auto simp: heap_room_def)
  have fa: "frame_avail v1" using room a(1) by (simp add: heap_room_def)
  have ap: "page_addr a" using kpage_addr [OF a(2)] a(4) by simp
  then have a0: "a \<noteq> 0" "a mod PAGE_SIZE = 0" using unat_page_mod [of a] by (auto simp: page_addr_def unat_eq_zero)
  have H1: "heap_rep kh v1 prs fls"
    using H a(2,4,5) unfolding heap_rep_def by auto
  define w where "w = (LEAST w. unat (numinuse (kheaproots kh ! w)) < 256)"
  obtain w0 where w0: "w0 < 16" "unat (numinuse (kheaproots kh ! w0)) < 256" using room by (auto simp: heap_room_def)
  have w: "w < 16" "unat (numinuse (kheaproots kh ! w)) < 256"
      "\<And>u. u < w \<Longrightarrow> \<not> unat (numinuse (kheaproots kh ! u)) < 256"
    using w0(1) Least_le [of "\<lambda>w. unat (numinuse (kheaproots kh ! w)) < 256", OF w0(2)]
      LeastI [of "\<lambda>w. unat (numinuse (kheaproots kh ! w)) < 256", OF w0(2)] not_less_Least unfolding w_def by auto
  obtain pr rs v2 where g: "allocpageref kh v1 = Ok (pr, kh\<lparr>kheaproots := rs\<rparr>, v2)" "gives_descr (kheaproots kh) v1 pr rs v2"
    using allocpageref_ok [OF D(2) w a(2) fa] heap_repD(4) [OF H1] by blast
  have G: "pr \<noteq> NULL" "k_mem v2 = k_mem v" "user_view v2 = user_view v" "kvm_inv v2" "a \<in> kpages v2" "pr \<notin> set prs"
    using g(2) a(4-6) D(3) unfolding gives_descr_def by auto
  obtain m where m: "thread_page a (sizes ! ty) (k_mem v2) = Ok m" "flinks m a ty (rev [0..<nblk ty])"
      "\<forall>x. \<not> within a 4096 x \<longrightarrow> m x = k_mem v2 x"
    using thread_page_ok [OF ap ty] by blast
  define kh' where "kh' = kh\<lparr>kheaproots := rs, prefs := (prefs kh)(pr := \<lparr>next_samesize = sizebases kh ! ty, next_all = allbase kh,
        pageaddr_and_blocktype = MKPAB a ty, freelist_offset = of_nat ((nblk ty - 1) * sizes ! ty), nfree = of_nat (nblk ty)\<rparr>),
        sizebases := (sizebases kh)[ty := pr], allbase := pr\<rparr>"
  have run: "new_block_page ty kh v = Ok (pr, kh', v2\<lparr>k_mem := m\<rparr>)"
    using a(1) a0 g(1) G(1) m(1) by (simp add: new_block_page_def upd_pr_def nblk_def kh'_def Let_def)
  have "a \<notin> rpages (kheaproots kh)" "a \<notin> pg_of kh ` set prs" using D(4,9) a(3) by auto
  then have "heap_rep kh' (v2\<lparr>k_mem := m\<rparr>) (pr # prs) (fls(pr := rev [0..<nblk ty]))"
    using a(4,5) G(2) m(2,3) by (intro heap_rep_new [OF H1 ty g(2) _ _ _ kh'_def]) auto
  moreover have "pg_of kh' pr = a" "ty_of kh' pr = ty" using MKPAB_parts [OF ap ty] by (simp_all add: kh'_def)
  moreover have "user_view (v2\<lparr>k_mem := m\<rparr>) = user_view v" using kernel_write [OF G(4,5)] m(3) G(3) by simp
  moreover have "\<forall>b \<in> set prs. prefs kh' b = prefs kh b" using G(6) by (auto simp: kh'_def)
  moreover have "kpages v \<subseteq> kpages (v2\<lparr>k_mem := m\<rparr>)" "rpages (kheaproots kh') \<inter> kpages v \<subseteq> rpages (kheaproots kh)"
    using g(2) a(4) unfolding gives_descr_def kh'_def by auto
  ultimately show ?thesis using run G(1,2,6) a(3) m(3) by auto
qed

lemma blocks_disjoint:
  assumes H: "heap_rep kh v prs fls" and "(a, b) \<in> blocks kh prs fls" "(c, d) \<in> blocks kh prs fls" "within a b x" "within c d x"
  shows "a = c \<and> b = d"
proof -
  note D = heap_repD [OF H]
  obtain p j where p: "p \<in> set prs" "j < nblk (ty_of kh p)" "a = baddr (pg_of kh p) (ty_of kh p) j" "b = sizes ! ty_of kh p"
    using blocksE [OF assms(2)] by metis
  obtain q k where q: "q \<in> set prs" "k < nblk (ty_of kh q)" "c = baddr (pg_of kh q) (ty_of kh q) k" "d = sizes ! ty_of kh q"
    using blocksE [OF assms(3)] by metis
  have "pg_of kh p = pg_of kh q"
    using within_pages [OF D(13) [OF p(1)] D(13) [OF q(1)]] within_page [OF D(13,12) [OF p(1)] p(2)]
      within_page [OF D(13,12) [OF q(1)] q(2)] assms(4,5) p(3,4) q(3,4) by blast
  then have pq: "p = q" using D(11) p(1) q(1) by (auto simp: inj_on_def)
  then have "j = k" using within_block [OF D(13,12) [OF p(1)] p(2)] q(2-4) assms(4,5) p(3,4) by blast
  then show ?thesis using pq p q by simp
qed

lemma blocks_in_page:
  assumes H: "heap_rep kh v prs fls" and "(a, b) \<in> blocks kh prs fls" "within a b x"
  shows "\<exists>p \<in> set prs. within (pg_of kh p) 4096 x" "b \<le> 2048"
proof -
  note D = heap_repD [OF H]
  obtain p j where p: "p \<in> set prs" "j < nblk (ty_of kh p)" "a = baddr (pg_of kh p) (ty_of kh p) j" "b = sizes ! ty_of kh p"
    using blocksE [OF assms(2)] by metis
  then show "\<exists>p \<in> set prs. within (pg_of kh p) 4096 x" using within_page [OF D(13,12) [OF p(1)] p(2)] assms(3) by blast
  show "b \<le> 2048" using p(4) size_facts(3) [OF D(12) [OF p(1)]] by simp
qed

lemma heap_disjoint:
  assumes H: "heap_rep kh v prs fls" and L: "large kh v prs L"
    and ab: "(a, b) \<in> blocks kh prs fls \<union> whole L" and cd: "(c, d) \<in> blocks kh prs fls \<union> whole L" and "within a b x" "within c d x"
  shows "a = c \<and> b = d"
proof -
  note D = heap_repD [OF H]
  have lp: "page_addr g" "g \<notin> pg_of kh ` set prs" if "g \<in> L" for g using that L kpage_addr [OF D(1)] by (auto simp: large_def)
  have mix: False if m: "(e, f) \<in> blocks kh prs fls" "g \<in> L" "within e f x" "within g 4096 x" for e f g
  proof -
    obtain p where "p \<in> set prs" "within (pg_of kh p) 4096 x" using blocks_in_page(1) [OF H m(1,3)] by blast
    then show False using within_pages [OF D(13) lp(1) [OF m(2)] _ m(4), of p] lp(2) [OF m(2)] by blast
  qed
  consider "(a, b) \<in> blocks kh prs fls" "(c, d) \<in> blocks kh prs fls" | "a \<in> L" "b = 4096" "c \<in> L" "d = 4096"
    | "(a, b) \<in> blocks kh prs fls" "c \<in> L" "d = 4096" | "(c, d) \<in> blocks kh prs fls" "a \<in> L" "b = 4096"
    using ab cd by (auto simp: whole_def)
  then show ?thesis
  proof cases
    case 1
    then show ?thesis using blocks_disjoint [OF H _ _ assms(5,6)] by blast
  next
    case 2
    then show ?thesis using within_pages [OF lp(1) lp(1)] assms(5,6) by blast
  qed (use mix assms(5,6) in blast)+
qed

lemma blocks_take:
  assumes H: "heap_rep kh v prs fls" and p: "p \<in> set prs" and fl: "fls p = j # js"
    and same: "\<forall>a \<in> set prs. pg_of kh' a = pg_of kh a \<and> ty_of kh' a = ty_of kh a"
  shows "blocks kh' prs (fls(p := js)) = insert (baddr (pg_of kh p) (ty_of kh p) j, sizes ! ty_of kh p) (blocks kh prs fls)"
    and "(baddr (pg_of kh p) (ty_of kh p) j, sizes ! ty_of kh p) \<notin> blocks kh prs fls"
proof -
  note D = heap_repD [OF H]
  have R: "distinct (j # js)" "j < nblk (ty_of kh p)" using D(8) [OF p] fl by (auto simp: page_rep_def)
  have "fls = fls(p := j # js)" using fl by auto
  then have "blocks kh prs fls = page_blocks kh p (j # js) \<union> (\<Union>a \<in> set prs - {p}. page_blocks kh a (fls a))"
    using blocks_split [OF p, of kh kh fls "j # js"] by simp
  then show "blocks kh' prs (fls(p := js)) = insert (baddr (pg_of kh p) (ty_of kh p) j, sizes ! ty_of kh p) (blocks kh prs fls)"
    using blocks_split [OF p, of kh' kh fls js] same page_blocks_push [of j kh p js] R by simp
  show "(baddr (pg_of kh p) (ty_of kh p) j, sizes ! ty_of kh p) \<notin> blocks kh prs fls"
  proof
    assume "(baddr (pg_of kh p) (ty_of kh p) j, sizes ! ty_of kh p) \<in> blocks kh prs fls"
    then obtain q k where q: "q \<in> set prs" "k < nblk (ty_of kh q)" "k \<notin> set (fls q)"
        "baddr (pg_of kh p) (ty_of kh p) j = baddr (pg_of kh q) (ty_of kh q) k"
      using blocksE by metis
    have in1: "within (baddr (pg_of kh p) (ty_of kh p) j) (sizes ! ty_of kh p) (baddr (pg_of kh p) (ty_of kh p) j)"
      "within (baddr (pg_of kh q) (ty_of kh q) k) (sizes ! ty_of kh q) (baddr (pg_of kh q) (ty_of kh q) k)"
      using size_facts(2) [OF D(12) [OF p]] size_facts(2) [OF D(12) [OF q(1)]] by (simp_all add: within_def)
    then have "pg_of kh p = pg_of kh q"
      using within_page [OF D(13,12) [OF p] R(2)] within_page [OF D(13,12) [OF q(1)] q(2)]
        within_pages [OF D(13) [OF p] D(13) [OF q(1)]] q(4) by metis
    then have "p = q" using D(11) p q(1) by (auto simp: inj_on_def)
    then have "j = k" using baddr_inj [OF D(13,12) [OF p] R(2)] q(2,4) by blast
    then show False using q(3) fl \<open>p = q\<close> by simp
  qed
qed

lemma blocks_new:
  assumes "pr \<notin> set prs" "ty_of kh' pr = ty" "\<forall>a \<in> set prs. prefs kh' a = prefs kh a"
  shows "blocks kh' (pr # prs) (fls(pr := rev [0..<nblk ty])) = blocks kh prs fls"
proof -
  have "page_blocks kh' pr (rev [0..<nblk ty]) = {}" using assms(2) by (auto simp: page_blocks_def)
  moreover have "page_blocks kh' a ((fls(pr := rev [0..<nblk ty])) a) = page_blocks kh a (fls a)" if "a \<in> set prs" for a
    using that assms(1,3) by (auto simp: page_blocks_def)
  ultimately show ?thesis unfolding blocks_def by simp
qed

definition gives_block :: "vm \<Rightarrow> (vaddr \<times> nat) set \<Rightarrow> 32 word \<Rightarrow> (vaddr \<times> kheap \<times> vm) kres \<Rightarrow> bool" where
  "gives_block v B sz r \<longleftrightarrow> (\<exists>p n kh' v'. r = Ok (p, kh', v') \<and> heap_ord kh' v' (insert (p, n) B) \<and> (p, n) \<notin> B
    \<and> p \<noteq> NULL \<and> 16 dvd unat p \<and> unat sz \<le> n
    \<and> (\<forall>(a, b) \<in> B. \<forall>x. within a b x \<longrightarrow> \<not> within p n x \<and> k_mem v' x = k_mem v x)
    \<and> user_view v' = user_view v)"

text \<open>The block at the head of the free list of a page \<open>p\<close> becomes an allocated one.\<close>

lemma doalloc_step:
  assumes H: "heap_rep kh v ps fs" "p \<in> set ps" "fs p = j # js" "ty_of kh p = ty"
    and ne: "\<forall>a \<in> set ps. a \<noteq> p \<longrightarrow> length (fs a) < nblk (ty_of kh a)" and L: "large kh v ps L" and ty: "ty < NSIZES"
  defines "a \<equiv> baddr (pg_of kh p) ty j"
  shows "\<exists>f. doalloc p kh v = Ok (a, upd_pr p f kh, v) \<and> heap_rep (upd_pr p f kh) v ps (fs(p := js))
    \<and> (\<forall>c. ty_of (upd_pr p f kh) c = ty_of kh c) \<and> large (upd_pr p f kh) v ps L
    \<and> (\<forall>c \<in> set ps. length ((fs(p := js)) c) < nblk (ty_of (upd_pr p f kh) c))
    \<and> blocks (upd_pr p f kh) ps (fs(p := js)) \<union> whole L = insert (a, sizes ! ty) (blocks kh ps fs \<union> whole L)
    \<and> (a, sizes ! ty) \<notin> blocks kh ps fs \<union> whole L"
proof -
  note E = heap_repD [OF H(1)]
  obtain f where f: "doalloc p kh v = Ok (a, upd_pr p f kh, v)" "heap_rep (upd_pr p f kh) v ps (fs(p := js))"
      "\<forall>a. pg_of (upd_pr p f kh) a = pg_of kh a \<and> ty_of (upd_pr p f kh) a = ty_of kh a"
    using doalloc_ok [OF H(1-3)] H(4) by (auto simp: a_def)
  have bt: "blocks (upd_pr p f kh) ps (fs(p := js)) \<union> whole L = insert (a, sizes ! ty) (blocks kh ps fs \<union> whole L)"
      "(a, sizes ! ty) \<notin> blocks kh ps fs \<union> whole L"
    using blocks_take [OF H(1-3)] f(3) H(4) size_facts(3) [OF ty] by (auto simp: whole_def a_def)
  have L': "large (upd_pr p f kh) v ps L" using L f(3) by (simp add: large_def) (simp add: upd_pr_def)
  have R: "distinct (j # js)" "\<forall>k \<in> set (j # js). k < nblk ty"
    using E(8) [OF H(2)] H(3,4) by (auto simp: page_rep_def)
  have "set (j # js) \<subseteq> {..<nblk ty}" using R(2) by auto
  then have "length (j # js) \<le> nblk ty" using R(1) distinct_card [OF R(1)] card_mono [of "{..<nblk ty}" "set (j # js)"] by simp
  then have "\<forall>c \<in> set ps. length ((fs(p := js)) c) < nblk (ty_of (upd_pr p f kh) c)" using f(3) ne H(4) by auto
  then show ?thesis using f bt L' by blast
qed

text \<open>A block taken from a page \<open>p\<close> that has one, in a heap whose memory differs from \<open>v\<close> outside the blocks only.\<close>

lemma doalloc_gives:
  assumes H1: "heap_rep kh1 v1 ps fs" "p \<in> set ps" "fs p = j # js" "ty_of kh1 p = ty"
    and ne1: "\<forall>a \<in> set ps. a \<noteq> p \<longrightarrow> length (fs a) < nblk (ty_of kh1 a)" and L: "large kh1 v1 ps L"
    and bl: "blocks kh1 ps fs \<union> whole L = B"
    and mem: "\<forall>(a, b) \<in> B. \<forall>x. within a b x \<longrightarrow> k_mem v1 x = k_mem v x" and vp: "user_view v1 = user_view v"
    and ty: "ty < NSIZES" and sz: "unat sz \<le> sizes ! ty"
  shows "gives_block v B sz (doalloc p kh1 v1)"
proof -
  note E = heap_repD [OF H1(1)]
  let ?a = "baddr (pg_of kh1 p) ty j"
  obtain f where f: "doalloc p kh1 v1 = Ok (?a, upd_pr p f kh1, v1)" "heap_rep (upd_pr p f kh1) v1 ps (fs(p := js))"
      "large (upd_pr p f kh1) v1 ps L" "\<forall>c \<in> set ps. length ((fs(p := js)) c) < nblk (ty_of (upd_pr p f kh1) c)"
      and bt: "blocks (upd_pr p f kh1) ps (fs(p := js)) \<union> whole L = insert (?a, sizes ! ty) B" "(?a, sizes ! ty) \<notin> B"
    using doalloc_step [OF H1 ne1 L ty] unfolding bl by blast
  note L' = f(3)
  have R: "j < nblk ty" using E(8) [OF H1(2)] H1(3,4) by (auto simp: page_rep_def)
  have "heap_ord (upd_pr p f kh1) v1 (insert (?a, sizes ! ty) B)"
    by (rule heap_ordI [OF f(2,4) L' bt(1) [symmetric]])
  moreover have pa: "page_addr (pg_of kh1 p)" by (rule E(13) [OF H1(2)])
  then have "16 dvd unat ?a"
  proof -
    have "16 dvd unat (pg_of kh1 p)" using pa dvd_trans [of 16 4096 "unat (pg_of kh1 p)"] by (auto simp: page_addr_def)
    then show ?thesis using size_facts(4) [OF ty] baddr_unat [OF pa ty R] by simp
  qed
  moreover have "?a \<noteq> NULL" by (rule baddr_nonnull [OF pa ty R])
  moreover have "\<not> within ?a (sizes ! ty) x" if "(a, b) \<in> B" "within a b x" for a b x
  proof
    assume w: "within ?a (sizes ! ty) x"
    have "(a, b) \<in> blocks (upd_pr p f kh1) ps (fs(p := js)) \<union> whole L"
      "(?a, sizes ! ty) \<in> blocks (upd_pr p f kh1) ps (fs(p := js)) \<union> whole L"
      unfolding bt(1) using that(1) by simp_all
    from heap_disjoint [OF f(2) L' this that(2) w] show False using bt(2) that(1) by simp
  qed
  ultimately show ?thesis
    using f(1) bt(2) sz mem vp unfolding gives_block_def
    by - (rule exI [where x = ?a], rule exI [where x = "sizes ! ty"], rule exI, rule exI, auto)
qed

lemma blocks_kept:
  assumes H: "heap_rep kh v prs fls" and L: "large kh v prs L" and g: "g \<notin> kpages v" "page_addr g"
    and mem: "\<And>x. \<not> within g 4096 x \<Longrightarrow> m x = k_mem v x"
  shows "\<forall>(a, b) \<in> blocks kh prs fls \<union> whole L. \<forall>x. within a b x \<longrightarrow> m x = k_mem v x"
proof -
  note D = heap_repD [OF H]
  have "m x = k_mem v x" if ab: "(a, b) \<in> blocks kh prs fls \<union> whole L" "within a b x" for a b x
  proof -
    have "\<exists>h \<in> kpages v. within h 4096 x"
      using ab blocks_in_page(1) [OF H _ ab(2)] D(9) L by (auto simp: whole_def large_def)
    then obtain h where h: "h \<in> kpages v" "within h 4096 x" by blast
    then have "\<not> within g 4096 x" using within_pages [OF kpage_addr [OF D(1) h(1)] g(2) h(2)] g(1) by blast
    then show ?thesis by (rule mem)
  qed
  then show ?thesis by blast
qed

lemma subpage_gives:
  assumes H: "heap_rep kh v prs fls" and ne: "\<forall>p \<in> set prs. length (fls p) < nblk (ty_of kh p)"
    and L: "large kh v prs L" and sz: "unat sz < 2048" and room: "heap_room kh v"
  shows "gives_block v (blocks kh prs fls \<union> whole L) sz (subpage_kmalloc sz kh v)"
proof -
  note D = heap_repD [OF H]
  obtain ty where ty: "blocktype sz = Ok ty" "ty < NSIZES" "unat sz \<le> sizes ! ty" using blocktype_ok [OF sz] by blast
  let ?ps = "filter (\<lambda>a. ty_of kh a = ty) prs"
  have fp: "find_page ty (sizebases kh ! ty) kh = Some (Ok (case find (\<lambda>a. nfree (prefs kh a) > 0) ?ps of None \<Rightarrow> NULL | Some a \<Rightarrow> a))"
    by (rule find_page_ok [OF D(7) [OF ty(2)]]) simp
  show ?thesis
  proof (cases "find (\<lambda>a. nfree (prefs kh a) > 0) ?ps")
    case (Some p)
    then have p: "p \<in> set prs" "ty_of kh p = ty" "nfree (prefs kh p) > 0" by (auto simp: find_Some_iff dest!: nth_mem)
    then have "p \<noteq> NULL" using hlist_no_NULL [OF D(6)] by auto
    then have run: "subpage_kmalloc sz kh v = doalloc p kh v" using fp Some ty(1) by (simp add: subpage_kmalloc_def)
    have "fls p \<noteq> []" using D(8) [OF p(1)] p(3) by (auto simp: page_rep_def word_less_nat_alt)
    then obtain j js where j: "fls p = j # js" by (cases "fls p") auto
    show ?thesis unfolding run
      by (rule doalloc_gives [OF H p(1) j p(2) _ L refl _ refl ty(2,3)]) (use ne in auto)
  next
    case None
    obtain pr kh1 v1 where F: "new_block_page ty kh v = Ok (pr, kh1, v1)" "pr \<noteq> NULL" "pr \<notin> set prs"
        "heap_rep kh1 v1 (pr # prs) (fls(pr := rev [0..<nblk ty]))" "ty_of kh1 pr = ty" "pg_of kh1 pr \<notin> kpages v"
        "\<forall>a \<in> set prs. prefs kh1 a = prefs kh a" "\<And>x. \<not> within (pg_of kh1 pr) 4096 x \<Longrightarrow> k_mem v1 x = k_mem v x"
        "user_view v1 = user_view v" "kpages v \<subseteq> kpages v1" "rpages (kheaproots kh1) \<inter> kpages v \<subseteq> rpages (kheaproots kh)"
      using new_block_page_ok [OF H ty(2) room] by blast
    have run: "subpage_kmalloc sz kh v = doalloc pr kh1 v1"
      using fp None ty(1) F(1,2) by (simp add: subpage_kmalloc_def)
    obtain j js where j: "(fls(pr := rev [0..<nblk ty])) pr = j # js"
      using size_facts(5) [OF ty(2)] by (cases "rev [0..<nblk ty]") auto
    have bl: "blocks kh1 (pr # prs) (fls(pr := rev [0..<nblk ty])) \<union> whole L = blocks kh prs fls \<union> whole L"
      using blocks_new [OF F(3,5,7)] by simp
    have L1: "large kh1 v1 (pr # prs) L" using L F(6,7,10,11) unfolding large_def by auto
    have ne1: "\<forall>a \<in> set (pr # prs). a \<noteq> pr \<longrightarrow> length ((fls(pr := rev [0..<nblk ty])) a) < nblk (ty_of kh1 a)"
      using ne F(7) by auto
    have "page_addr (pg_of kh1 pr)" using heap_repD(13) [OF F(4)] by simp
    note kept = blocks_kept [OF H L F(6) this F(8)]
    show ?thesis unfolding run
      by (rule doalloc_gives [OF F(4) _ j F(5) ne1 L1 bl kept F(9) ty(2,3)]) simp
  qed
qed

lemma one_page:
  assumes "2048 \<le> unat sz" "unat sz \<le> 4096"
  shows "(sz + PAGE_SIZE - 1) div PAGE_SIZE = (1 :: 32 word)"
proof -
  have "unat (sz + (PAGE_SIZE - 1)) = unat sz + 4095" using assms(2) unat_plus_nat [of sz 4095] by (simp add: PAGE_SIZE_def)
  then have "unat ((sz + PAGE_SIZE - 1) div PAGE_SIZE) = (unat sz + 4095) div 4096"
    by (simp add: unat_div add_diff_eq) (simp add: PAGE_SIZE_def)
  also have "\<dots> = 1" using assms by simp
  finally show ?thesis by (metis unat_1 unsigned_word_eqI)
qed

text \<open>Requests of half a page to a page.\<close>

lemma page_gives:
  assumes H: "heap_rep kh v prs fls" and ne: "\<forall>p \<in> set prs. length (fls p) < nblk (ty_of kh p)"
    and L: "large kh v prs L" and sz: "2048 \<le> unat sz" "unat sz \<le> 4096" and room: "heap_room kh v"
  shows "gives_block v (blocks kh prs fls \<union> whole L) sz (kmalloc sz kh v)"
proof -
  note D = heap_repD [OF H]
  obtain a v1 where a: "alloc_kpages 1 v = Ok (a, v1)" "kvm_inv v1" "a \<notin> kpages v" "kpages v1 = insert a (kpages v)"
      "k_mem v1 = k_mem v" "user_view v1 = user_view v"
    using kp.alloc_law [OF D(1)] room by (auto simp: heap_room_def)
  have pa: "page_addr a" using kpage_addr [OF a(2)] a(4) by simp
  then have a0: "a \<noteq> 0" "a mod PAGE_SIZE = 0" "16 dvd unat a"
    using unat_page_mod [of a] dvd_trans [of 16 4096 "unat a"] by (auto simp: page_addr_def unat_eq_zero)
  note n = one_page [OF sz]
  have run: "kmalloc sz kh v = Ok (a, kh, v1)"
    using sz(1) n a(1) a0 by (simp add: kmalloc_def LARGEST_SUBPAGE_SIZE_def word_le_nat_alt Let_def)
  have H1: "heap_rep kh v1 prs fls" using H a(2,4,5) unfolding heap_rep_def by auto
  have L1: "large kh v1 prs (insert a L)" using L a(3,4) D(4,9) unfolding large_def by auto
  have inv: "heap_ord kh v1 (insert (a, 4096) (blocks kh prs fls \<union> whole L))"
    by (rule heap_ordI [OF H1 ne L1]) (auto simp: whole_def)
  have new: "(a, 4096) \<notin> blocks kh prs fls \<union> whole L"
  proof
    assume "(a, 4096) \<in> blocks kh prs fls \<union> whole L"
    then have "(a, 4096) \<in> blocks kh prs fls" using L a(3) by (auto simp: whole_def large_def)
    then show False using blocks_in_page(2) [OF H, of a 4096 a] by (simp add: within_def)
  qed
  have apart: "\<not> within a 4096 x" if cd: "(c, d) \<in> blocks kh prs fls \<union> whole L" "within c d x" for c d x
  proof
    assume "within a 4096 x"
    moreover have "(c, d) \<in> blocks kh prs fls \<union> whole (insert a L)" "(a, 4096) \<in> blocks kh prs fls \<union> whole (insert a L)"
      using cd(1) by (auto simp: whole_def)
    ultimately have "c = a \<and> d = 4096" by (intro heap_disjoint [OF H1 L1 _ _ cd(2)])
    then show False using cd(1) new by simp
  qed
  have "\<forall>(c, d) \<in> blocks kh prs fls \<union> whole L. \<forall>x. within c d x \<longrightarrow> \<not> within a 4096 x \<and> k_mem v1 x = k_mem v x"
    unfolding a(5) using apart by blast
  then show ?thesis
    unfolding gives_block_def run using inv new a0(1,3) sz(2) a(6) by blast
qed

lemma kmalloc_gives:
  assumes "heap_ord kh v B" "unat sz \<le> 4096" "heap_room kh v"
  shows "gives_block v B sz (kmalloc sz kh v)"
proof -
  obtain prs fls L where H: "heap_rep kh v prs fls" "\<forall>p \<in> set prs. length (fls p) < nblk (ty_of kh p)" "large kh v prs L"
      and B: "B = blocks kh prs fls \<union> whole L"
    using assms(1) unfolding heap_ord_def by blast
  show ?thesis
  proof (cases "unat sz < 2048")
    case True
    then have "kmalloc sz kh v = subpage_kmalloc sz kh v" by (simp add: kmalloc_def LARGEST_SUBPAGE_SIZE_def word_le_nat_alt)
    then show ?thesis using subpage_gives [OF H True assms(3)] B by simp
  next
    case False
    then show ?thesis using page_gives [OF H _ assms(2,3)] B by simp
  qed
qed

text \<open>
  (C30) Requests of up to a page: if the heap is in order and there is room, \<open>kmalloc\<close> returns a block
  that is large enough, aligned to 16 bytes, not null and new; the heap is in order with this block
  added, which overlaps no other allocated block; the contents of the allocated blocks and of every
  page of every process are unchanged.
\<close>

theorem kmalloc_allocates:
  assumes "heap_inv kh v B" "unat sz \<le> 4096" "heap_room kh v"
  shows "\<exists>p n kh' v'. kmalloc sz kh v = Ok (p, kh', v') \<and> heap_inv kh' v' (insert (p, n) B) \<and> (p, n) \<notin> B
    \<and> p \<noteq> NULL \<and> 16 dvd unat p \<and> unat sz \<le> n
    \<and> (\<forall>(a, b) \<in> B. \<forall>x. within a b x \<longrightarrow> \<not> within p n x \<and> k_mem v' x = k_mem v x)
    \<and> vpage v' = vpage v"
proof -
  have H: "pt_inv v" "heap_ord kh v B" using assms(1) by (simp_all add: heap_inv_def)
  show ?thesis
    using kmalloc_gives [OF H(2) assms(2,3)] user_view_inv [OF _ H(1)] unfolding gives_block_def heap_inv_def by blast
qed

text \<open>An empty heap over three free frames.\<close>

definition ex_kheap :: kheap where
  "ex_kheap = \<lparr>kheaproots = replicate 16 \<lparr>kr_page = NULL, pagerefs_inuse = replicate 8 0, numinuse = 0\<rparr>,
     prefs = (\<lambda>_. \<lparr>next_samesize = NULL, next_all = NULL, pageaddr_and_blocktype = 0, freelist_offset = 0, nfree = 0\<rparr>),
     sizebases = replicate 8 NULL, allbase = NULL\<rparr>"

lemma ex_kvm: "kvm_inv ex_free_vm"
  using ex_free_facts by (simp add: kvm_inv_def pt_inv_def) (simp add: ex_free_vm_def)

lemma ex_kheap_ord: "kvm_inv v \<Longrightarrow> heap_ord ex_kheap v {}"
proof (rule heap_ordI [where prs = "[]" and L = "{}"])
  let ?r = "\<lparr>kr_page = NULL, pagerefs_inuse = replicate 8 0, numinuse = 0\<rparr>"
  have u: "used ?r = {}" by (simp add: used_def)
  have rs: "kheaproots ex_kheap ! w = ?r" if "w < 16" for w using that by (simp add: ex_kheap_def)
  have "roots_ok (kheaproots ex_kheap)"
    unfolding roots_ok_def using u rs by (simp add: root_ok_def) (simp add: ex_kheap_def)
  moreover have "descr (kheaproots ex_kheap) = {}" "rpages (kheaproots ex_kheap) = {}"
    using u rs by (simp_all add: descr_def descr_of_def rpages_def)
  ultimately show "kvm_inv v \<Longrightarrow> heap_rep ex_kheap v [] (\<lambda>_. [])"
    by (simp add: heap_rep_def) (simp add: ex_kheap_def NSIZES_def)
  show "large ex_kheap v [] {}" "{} = blocks ex_kheap [] (\<lambda>_. []) \<union> whole {}"
    by (simp_all add: large_def blocks_def whole_def)
qed simp

lemma ex_kheap_inv: "heap_inv ex_kheap ex_free_vm {}"
  using ex_kheap_ord [OF ex_kvm] ex_free_facts(1) by (simp add: heap_inv_def)

lemma ex_kheap_room: "heap_room ex_kheap ex_free_vm"
proof -
  have st: "run_start ex_free_vm 0" using ex_free_facts(6) by (simp add: run_start_def)
  then have f: "find (run_start ex_free_vm) [0..<npt ex_free_vm] = Some 0" by (simp add: ex_free_facts(4) upt_rec)
  have c: "npt ex_free_vm \<le> length (contiguous (page_table ex_free_vm))" using ex_kvm by (simp add: kvm_inv_def)
  have "frame_avail v'" if "alloc_kpages 1 ex_free_vm = Ok (a, v')" for a v'
  proof -
    have v': "npt v' = 3" "ents v' ! 1 = ents ex_free_vm ! 1" "page (ents v' ! 0) = KMALLOC_PAGE" "GetValidityBit (ctrl (ents v' ! 0))"
      using that alloc_one_page [OF ex_free_facts(1-3) f c] by (auto simp: npt_def upd_entry_def ex_free_vm_def)
    then have "run_start v' 1" using ex_free_facts(6) [of 1] by (simp add: run_start_def valid_entry_def)
    then have "\<exists>x. x \<in> set [0..<npt v'] \<and> run_start v' x" using v'(1) by (intro exI [of _ 1]) simp
    then show ?thesis by (simp add: frame_avail_def find_None_iff)
  qed
  moreover have "\<exists>w < 16. unat (numinuse (kheaproots ex_kheap ! w)) < 256" by (rule exI [of _ 0]) (simp add: ex_kheap_def)
  ultimately show ?thesis using f unfolding heap_room_def by (auto simp: frame_avail_def)
qed

theorem kmalloc_allocates_witness:
  "\<exists>p n kh' v'. kmalloc 24 ex_kheap ex_free_vm = Ok (p, kh', v') \<and> heap_inv kh' v' {(p, n)} \<and> p \<noteq> NULL \<and> 24 \<le> n"
  using kmalloc_allocates [OF ex_kheap_inv _ ex_kheap_room, of 24] by auto

end
