(* ===== verification/Kmalloc_Free.thy ===== *)
theory Kmalloc_Free
  imports Kmalloc_Spec
begin

text \<open>
  Release of heap blocks: the page of a block is found from its address, the block is filled with
  a pattern and put on the free list of its page; a page whose last block is released is taken
  from both lists, its descriptor and the page are given back.
\<close>

unbundle bit_operations_syntax

section \<open>Finding the page\<close>

lemma kpage_low: "kvm_inv v \<Longrightarrow> g \<in> kpages v \<Longrightarrow> unat g + 4096 \<le> 0xa0000000"
  using kvm_frame(3) [of v] by (force simp: kpages_def held_frame_def boot_pages_def kvm_inv_def frames_ok_def)

lemma in_page_iff:
  assumes "unat g + 4096 \<le> 0xa0000000"
  shows "g \<le> a \<and> a < g + PAGE_SIZE \<longleftrightarrow> within g 4096 a"
proof -
  have "unat (g + PAGE_SIZE) = unat g + 4096" using assms unat_plus_nat [of g 4096] by (simp add: PAGE_SIZE_def)
  then show ?thesis by (simp add: word_le_nat_alt word_less_nat_alt within_def)
qed

lemma page_of_ok:
  assumes "hlist (\<lambda>a. next_all (prefs kh a)) p ps"
    and "\<forall>r \<in> set ps. ty_of kh r < NSIZES \<and> unat (pg_of kh r) + 4096 \<le> 0xa0000000"
  shows "page_of a p kh = Some (Ok (case find (\<lambda>r. within (pg_of kh r) 4096 a) ps of None \<Rightarrow> NULL | Some r \<Rightarrow> r))"
  using assms
proof (induction ps arbitrary: p)
  case Nil
  then show ?case by (subst page_of.simps) simp
next
  case (Cons r ps)
  then have r: "p = r" "r \<noteq> NULL" "ty_of kh r < NSIZES" "pg_of kh r \<le> a \<and> a < pg_of kh r + PAGE_SIZE \<longleftrightarrow> within (pg_of kh r) 4096 a"
    using in_page_iff by simp_all
  have IH: "page_of a (next_all (prefs kh r)) kh = Some (Ok (case find (\<lambda>r. within (pg_of kh r) 4096 a) ps of None \<Rightarrow> NULL | Some r \<Rightarrow> r))"
    using Cons by simp
  show ?case by (subst page_of.simps) (simp add: r IH Let_def)
qed

lemma page_of_block:
  assumes H: "heap_rep kh v prs fls" and p: "p \<in> set prs" "within (pg_of kh p) 4096 a"
  shows "page_of a (allbase kh) kh = Some (Ok p)"
proof -
  note D = heap_repD [OF H]
  have lo: "\<forall>r \<in> set prs. ty_of kh r < NSIZES \<and> unat (pg_of kh r) + 4096 \<le> 0xa0000000"
    using D(12) kpage_low [OF D(1) D(9)] by blast
  have "find (\<lambda>r. within (pg_of kh r) 4096 a) prs = Some p"
  proof (cases "find (\<lambda>r. within (pg_of kh r) 4096 a) prs")
    case None
    then show ?thesis using p by (auto simp: find_None_iff)
  next
    case (Some q)
    then have q: "q \<in> set prs" "within (pg_of kh q) 4096 a" by (auto simp: find_Some_iff)
    then have "pg_of kh q = pg_of kh p" using within_pages [OF D(13) D(13)] p by blast
    then have "q = p" using D(11) p(1) q(1) by (auto simp: inj_on_def)
    then show ?thesis using Some by simp
  qed
  then show ?thesis using page_of_ok [OF D(6) lo, of a] by simp
qed

lemma page_of_whole:
  assumes H: "heap_rep kh v prs fls" and L: "large kh v prs L" and a: "a \<in> L"
  shows "page_of a (allbase kh) kh = Some (Ok NULL)"
proof -
  note D = heap_repD [OF H]
  have lo: "\<forall>r \<in> set prs. ty_of kh r < NSIZES \<and> unat (pg_of kh r) + 4096 \<le> 0xa0000000"
    using D(12) kpage_low [OF D(1) D(9)] by blast
  have "a \<in> kpages v" "a \<notin> pg_of kh ` set prs" using L a by (auto simp: large_def)
  then have "\<not> within (pg_of kh r) 4096 a" if "r \<in> set prs" for r
    using within_pages [OF D(13) [OF that] kpage_addr [OF D(1)], of a a] that by (auto simp: within_def)
  then have "find (\<lambda>r. within (pg_of kh r) 4096 a) prs = None" by (simp add: find_None_iff)
  then show ?thesis using page_of_ok [OF D(6) lo, of a] by simp
qed

section \<open>Putting a block on the free list\<close>

lemma fill_outside:
  assumes "unat a + n \<le> 4294967296" "\<not> within a n x"
  shows "fill_deadbeef a n m x = m x"
proof -
  have "fold (\<lambda>i m. st32 (a + of_nat (4 * i)) 0xdeadbeef m) [0..<k] m x = m x" if "4 * k \<le> n" for k
    using that
  proof (induction k)
    case (Suc k)
    have u: "unat (a + of_nat (4 * k)) = unat a + 4 * k" using Suc.prems assms(1) by (intro unat_plus_nat) simp
    have "4 \<le> unat (x - (a + of_nat (4 * k)))"
    proof (rule ccontr)
      assume "\<not> 4 \<le> unat (x - (a + of_nat (4 * k)))"
      then have "within (a + of_nat (4 * k)) 4 x"
        using sub_within [of "a + of_nat (4 * k)" 4 x] u Suc.prems assms(1) by simp
      then show False using assms(2) u Suc.prems by (simp add: within_def)
    qed
    then show ?case using Suc by (simp add: st32_outside)
  qed simp
  from this [of "n div 4"] show ?thesis by (simp add: fill_deadbeef_def)
qed

text \<open>The memory and the descriptor after the block \<open>j\<close> is put on the free list.\<close>

definition freed_mem :: "kheap \<Rightarrow> ptr \<Rightarrow> nat \<Rightarrow> kmem \<Rightarrow> kmem" where
  "freed_mem kh p j m =
     st32 (baddr (pg_of kh p) (ty_of kh p) j)
       (if freelist_offset (prefs kh p) = INVALID_OFFSET then NULL else pg_of kh p + ucast (freelist_offset (prefs kh p)))
       (fill_deadbeef (baddr (pg_of kh p) (ty_of kh p) j) (sizes ! ty_of kh p) m)"

definition freed_pr :: "nat \<Rightarrow> pageref \<Rightarrow> pageref" where
  "freed_pr j pr = pr\<lparr>freelist_offset := of_nat (j * sizes ! PR_BLOCKTYPE pr), nfree := nfree pr + 1\<rparr>"

lemma freed_pr_parts [simp]:
  "PR_PAGEADDR (freed_pr j pr) = PR_PAGEADDR pr" "PR_BLOCKTYPE (freed_pr j pr) = PR_BLOCKTYPE pr"
  "next_samesize (freed_pr j pr) = next_samesize pr" "next_all (freed_pr j pr) = next_all pr"
  "pageaddr_and_blocktype (freed_pr j pr) = pageaddr_and_blocktype pr"
  by (simp_all add: freed_pr_def PR_PAGEADDR_def PR_BLOCKTYPE_def)

lemma push_block:
  assumes H: "heap_rep kh v prs fls" and p: "p \<in> set prs" and j: "j < nblk (ty_of kh p)" "j \<notin> set (fls p)"
  shows "heap_rep (upd_pr p (freed_pr j) kh) (v\<lparr>k_mem := freed_mem kh p j (k_mem v)\<rparr>) prs (fls(p := j # fls p))"
    and "\<not> within (baddr (pg_of kh p) (ty_of kh p) j) (sizes ! ty_of kh p) x \<Longrightarrow> freed_mem kh p j (k_mem v) x = k_mem v x"
    and "unat (nfree (prefs kh p) + 1) = Suc (length (fls p))"
    and "freelist_offset (prefs kh p) = INVALID_OFFSET \<or> baddr (pg_of kh p) (ty_of kh p) j \<noteq> pg_of kh p + ucast (freelist_offset (prefs kh p))"
proof -
  note D = heap_repD [OF H]
  let ?pr = "prefs kh p" and ?pg = "pg_of kh p" and ?ty = "ty_of kh p" and ?m = "freed_mem kh p j (k_mem v)"
  let ?b = "baddr ?pg ?ty j"
  note ty = D(12) [OF p] and pa = D(13) [OF p]
  have R: "distinct (fls p)" "\<forall>k \<in> set (fls p). k < nblk ?ty" "unat (nfree ?pr) = length (fls p)"
      "freelist_offset ?pr = (if fls p = [] then INVALID_OFFSET else of_nat (hd (fls p) * sizes ! ?ty))" "flinks (k_mem v) ?pg ?ty (fls p)"
    using D(8) [OF p] by (simp_all add: page_rep_def)
  have "card (set (fls p)) \<le> card {..<nblk ?ty}" using R(2) by (intro card_mono) auto
  then have len: "length (fls p) \<le> 256" using R(1) size_facts(6) [OF ty] by (simp add: distinct_card)
  have "unat (nfree ?pr + 1) = unat (nfree ?pr) + 1" using R(3) len by (simp add: unat_word_ariths)
  then show n: "unat (nfree ?pr + 1) = Suc (length (fls p))" using R(3) by simp
  have bu: "unat ?b + sizes ! ?ty \<le> 4294967296"
    using baddr_unat [OF pa ty j(1)] block_end [OF ty j(1)] pa by (simp add: page_addr_def)
  show out: "freed_mem kh p j (k_mem v) x = k_mem v x" if "\<not> within ?b (sizes ! ?ty) x" for x
    using that st_block_outside [OF pa ty j(1) that] fill_outside [OF bu that] by (simp add: freed_mem_def)
  have nx: "fls p = [] \<or> ?pg + ucast (freelist_offset ?pr) = baddr ?pg ?ty (hd (fls p)) \<and> hd (fls p) < nblk ?ty"
  proof (cases "fls p")
    case (Cons k ks)
    then have k: "k < nblk ?ty" using R(2) by simp
    show ?thesis using Cons R(4) k block_offset(1) [OF ty k] ucast_small(1) [of "k * sizes ! ?ty"] by (simp add: baddr_def)
  qed simp
  have inv: "fls p \<noteq> [] \<Longrightarrow> freelist_offset ?pr \<noteq> INVALID_OFFSET" using R(4) nx block_offset(3) [OF ty] by auto
  show "freelist_offset ?pr = INVALID_OFFSET \<or> ?b \<noteq> ?pg + ucast (freelist_offset ?pr)"
    using nx R(4) baddr_inj [OF pa ty j(1)] j(2) by (metis list.set_sel(1))
  have ld: "ld32 ?b ?m = (if fls p = [] then NULL else baddr ?pg ?ty (hd (fls p)))"
    using R(4) nx inv by (auto simp: freed_mem_def)
  have "flinks ?m ?pg ?ty (fls p) = flinks (k_mem v) ?pg ?ty (fls p)"
  proof (rule flinks_cong [OF pa ty R(2)])
    fix k x assume k: "k \<in> set (fls p)" "within (baddr ?pg ?ty k) (sizes ! ?ty) x"
    then have "k < nblk ?ty" "k \<noteq> j" using R(2) j(2) by auto
    then show "?m x = k_mem v x" using within_block [OF pa ty _ j(1) k(2)] out by blast
  qed
  then have fl: "flinks ?m ?pg ?ty (j # fls p)" using ld R(5) by (cases "fls p") simp_all
  have "page_rep ?m (freed_pr j ?pr) (j # fls p)"
    using fl n R(1,2) j ty by (simp add: page_rep_def) (simp add: freed_pr_def)
  moreover have "?m x = k_mem v x" if "\<not> within ?pg 4096 x" for x
    using that within_page [OF pa ty j(1)] out by blast
  ultimately show "heap_rep (upd_pr p (freed_pr j) kh) (v\<lparr>k_mem := ?m\<rparr>) prs (fls(p := j # fls p))"
    by (intro heap_rep_page [OF H p]) simp_all
qed

section \<open>Taking a page off the lists\<close>

lemma pred_in_ok:
  assumes "hlist nx cur (xs @ pr # ys)" "pr \<notin> set xs"
  shows "pred_in nx pr prev cur = Some (Some (if xs = [] then prev else last xs))"
  using assms
proof (induction xs arbitrary: cur prev)
  case Nil
  then show ?case by (subst pred_in.simps) simp
next
  case (Cons x xs)
  then show ?case by (subst pred_in.simps) auto
qed

lemma unlink_hlist:
  assumes h: "hlist nx base as" and pr: "pr \<in> set as"
  shows "\<exists>q. pred_in nx pr NULL base = Some (Some q) \<and>
    (if q = NULL then hlist nx (nx pr) (filter (\<lambda>a. a \<noteq> pr) as)
     else q \<in> set as \<and> q \<noteq> pr \<and> hlist (nx(q := nx pr)) base (filter (\<lambda>a. a \<noteq> pr) as))"
proof -
  obtain xs ys where as: "as = xs @ pr # ys" using pr by (meson split_list)
  have d: "distinct (xs @ pr # ys)" using hlist_distinct [OF h] as by simp
  then have "filter (\<lambda>a. a \<noteq> pr) xs = xs" "filter (\<lambda>a. a \<noteq> pr) ys = ys" by (auto intro!: filter_True)
  then have f: "filter (\<lambda>a. a \<noteq> pr) as = xs @ ys" using as by simp
  have p: "pred_in nx pr NULL base = Some (Some (if xs = [] then NULL else last xs))"
    using pred_in_ok h d unfolding as by auto
  show ?thesis
  proof (cases "xs = []")
    case True
    then show ?thesis using p h f as by simp
  next
    case False
    then obtain zs q where xs: "xs = zs @ [q]" by (metis rev_exhaust)
    then have "hlist (nx(q := nx pr)) base (zs @ q # ys)" using hlist_unlink [of nx base zs q pr ys] h as by simp
    moreover have "q \<noteq> NULL" using hlist_no_NULL [OF h] as xs by auto
    ultimately show ?thesis using p f as xs d by auto
  qed
qed

lemma remove_lists_ok:
  assumes all: "hlist (\<lambda>a. next_all (prefs kh a)) (allbase kh) prs" and pr: "pr \<in> set prs"
    and same: "\<And>t. t < NSIZES \<Longrightarrow> hlist (\<lambda>a. next_samesize (prefs kh a)) (sizebases kh ! t) (filter (\<lambda>a. ty_of kh a = t) prs)"
    and ty: "ty_of kh pr < NSIZES" and len: "length (sizebases kh) = NSIZES"
  shows "\<exists>kh'. remove_lists pr (ty_of kh pr) kh = Ok kh' \<and> kheaproots kh' = kheaproots kh \<and> length (sizebases kh') = NSIZES
    \<and> (\<forall>a. pageaddr_and_blocktype (prefs kh' a) = pageaddr_and_blocktype (prefs kh a)
          \<and> freelist_offset (prefs kh' a) = freelist_offset (prefs kh a) \<and> nfree (prefs kh' a) = nfree (prefs kh a))
    \<and> hlist (\<lambda>a. next_all (prefs kh' a)) (allbase kh') (filter (\<lambda>a. a \<noteq> pr) prs)
    \<and> (\<forall>t < NSIZES. hlist (\<lambda>a. next_samesize (prefs kh' a)) (sizebases kh' ! t) (filter (\<lambda>a. ty_of kh a = t) (filter (\<lambda>a. a \<noteq> pr) prs)))"
proof -
  let ?ty = "ty_of kh pr" and ?ns = "\<lambda>a. next_samesize (prefs kh a)" and ?na = "\<lambda>a. next_all (prefs kh a)"
  let ?ps = "\<lambda>t. filter (\<lambda>a. ty_of kh a = t) prs"
  have "pr \<in> set (?ps ?ty)" using pr by simp
  then obtain q where q: "pred_in ?ns pr NULL (sizebases kh ! ?ty) = Some (Some q)"
      "q = NULL \<Longrightarrow> hlist ?ns (?ns pr) (filter (\<lambda>a. a \<noteq> pr) (?ps ?ty))"
      "q \<noteq> NULL \<Longrightarrow> q \<in> set (?ps ?ty) \<and> q \<noteq> pr \<and> hlist (?ns(q := ?ns pr)) (sizebases kh ! ?ty) (filter (\<lambda>a. a \<noteq> pr) (?ps ?ty))"
    using unlink_hlist [OF same [OF ty], of pr] by (auto split: if_splits)
  obtain r where r: "pred_in ?na pr NULL (allbase kh) = Some (Some r)" "r = NULL \<Longrightarrow> hlist ?na (?na pr) (filter (\<lambda>a. a \<noteq> pr) prs)"
      "r \<noteq> NULL \<Longrightarrow> r \<in> set prs \<and> r \<noteq> pr \<and> hlist (?na(r := ?na pr)) (allbase kh) (filter (\<lambda>a. a \<noteq> pr) prs)"
    using unlink_hlist [OF all pr] by (auto split: if_splits)
  define kh1 where "kh1 = (if q = NULL then kh\<lparr>sizebases := (sizebases kh)[?ty := ?ns pr]\<rparr>
      else upd_pr q (\<lambda>p. p\<lparr>next_samesize := ?ns pr\<rparr>) kh)"
  define kh2 where "kh2 = (if r = NULL then kh1\<lparr>allbase := ?na pr\<rparr> else upd_pr r (\<lambda>p. p\<lparr>next_all := ?na pr\<rparr>) kh1)"
  have k1: "(\<lambda>a. next_all (prefs kh1 a)) = ?na" "allbase kh1 = allbase kh" by (auto simp: kh1_def upd_pr_def)
  have run: "remove_lists pr ?ty kh = Ok kh2"
    using q(1) r(1) ty k1 fun_cong [OF k1(1), of pr]
    by (simp add: remove_lists_def Let_def flip: kh1_def) (simp add: kh2_def)
  have na2: "(\<lambda>a. next_all (prefs kh2 a)) = (if r = NULL then ?na else ?na(r := ?na pr))"
      "allbase kh2 = (if r = NULL then ?na pr else allbase kh)"
    using k1 by (auto simp: kh2_def upd_pr_def fun_eq_iff)
  have ns2: "(\<lambda>a. next_samesize (prefs kh2 a)) = (if q = NULL then ?ns else ?ns(q := ?ns pr))"
      "sizebases kh2 = (if q = NULL then (sizebases kh)[?ty := ?ns pr] else sizebases kh)" "kheaproots kh2 = kheaproots kh"
    by (auto simp: kh2_def kh1_def upd_pr_def fun_eq_iff)
  have A: "hlist (\<lambda>a. next_all (prefs kh2 a)) (allbase kh2) (filter (\<lambda>a. a \<noteq> pr) prs)"
    using r(2,3) by (simp add: na2)
  have S: "hlist (\<lambda>a. next_samesize (prefs kh2 a)) (sizebases kh2 ! t) (filter (\<lambda>a. ty_of kh a = t) (filter (\<lambda>a. a \<noteq> pr) prs))"
    if t: "t < NSIZES" for t
  proof (cases "t = ?ty")
    case True
    have "filter (\<lambda>a. ty_of kh a = t) (filter (\<lambda>a. a \<noteq> pr) prs) = filter (\<lambda>a. a \<noteq> pr) (?ps ?ty)"
      unfolding True filter_filter by (meson conj_commute)
    then show ?thesis using q(2,3) True ty len by (simp add: ns2)
  next
    case False
    then have "filter (\<lambda>a. ty_of kh a = t) (filter (\<lambda>a. a \<noteq> pr) prs) = ?ps t" by (auto simp: filter_filter intro: filter_cong)
    moreover have "q \<noteq> NULL \<Longrightarrow> q \<notin> set (?ps t)" using q(3) False by auto
    ultimately show ?thesis using same [OF t] False by (auto simp: ns2)
  qed
  have "\<forall>a. pageaddr_and_blocktype (prefs kh2 a) = pageaddr_and_blocktype (prefs kh a)
      \<and> freelist_offset (prefs kh2 a) = freelist_offset (prefs kh a) \<and> nfree (prefs kh2 a) = nfree (prefs kh a)"
    by (simp add: kh2_def kh1_def upd_pr_def)
  then show ?thesis using run A S ns2(2,3) len by auto
qed

section \<open>Giving a page back\<close>

lemma page_rep_fields:
  assumes "pageaddr_and_blocktype q = pageaddr_and_blocktype p" "freelist_offset q = freelist_offset p" "nfree q = nfree p"
  shows "page_rep m q fl = page_rep m p fl"
  using assms by (simp add: page_rep_def PR_PAGEADDR_def PR_BLOCKTYPE_def)

definition drop_page :: "ptr \<Rightarrow> kheap \<Rightarrow> vm \<Rightarrow> (int \<times> kheap \<times> vm) kres" where
  "drop_page pr kh v =
     kbind (remove_lists pr (ty_of kh pr) kh) (\<lambda>kh1. kbind (freepageref pr kh1) (\<lambda>kh2.
       kbind (free_kpages (pg_of kh pr) v) (\<lambda>v. Ok (0, kh2, v))))"

lemma drop_page_ok:
  assumes H: "heap_rep kh v prs fls" and pr: "pr \<in> set prs"
  shows "\<exists>kh' v'. drop_page pr kh v = Ok (0, kh', v') \<and> heap_rep kh' v' (filter (\<lambda>a. a \<noteq> pr) prs) fls
    \<and> (\<forall>a. pg_of kh' a = pg_of kh a \<and> ty_of kh' a = ty_of kh a) \<and> rpages (kheaproots kh') = rpages (kheaproots kh)
    \<and> kpages v' = kpages v - ({pg_of kh pr} - boot_pages v) \<and> k_mem v' = k_mem v \<and> user_view v' = user_view v"
proof -
  note D = heap_repD [OF H]
  let ?ps = "filter (\<lambda>a. a \<noteq> pr) prs"
  obtain kh1 where k1: "remove_lists pr (ty_of kh pr) kh = Ok kh1" "kheaproots kh1 = kheaproots kh" "length (sizebases kh1) = NSIZES"
      "\<And>a. pageaddr_and_blocktype (prefs kh1 a) = pageaddr_and_blocktype (prefs kh a)"
      "\<And>a. freelist_offset (prefs kh1 a) = freelist_offset (prefs kh a)" "\<And>a. nfree (prefs kh1 a) = nfree (prefs kh a)"
      "hlist (\<lambda>a. next_all (prefs kh1 a)) (allbase kh1) ?ps"
      "\<And>t. t < NSIZES \<Longrightarrow> hlist (\<lambda>a. next_samesize (prefs kh1 a)) (sizebases kh1 ! t) (filter (\<lambda>a. ty_of kh a = t) ?ps)"
    using remove_lists_ok [OF D(6) pr D(7) D(12) [OF pr] D(5)] by blast
  have pt: "pg_of kh1 a = pg_of kh a" "ty_of kh1 a = ty_of kh a" for a using k1(4) by (simp_all add: PR_PAGEADDR_def PR_BLOCKTYPE_def)
  obtain rs where rs: "freepageref pr kh1 = Ok (kh1\<lparr>kheaproots := rs\<rparr>)" "roots_ok rs" "descr rs = set prs - {pr}"
      "rpages rs = rpages (kheaproots kh)"
    using freepageref_ok [of kh1 pr] k1(2) D(2,3) pr by auto
  obtain v' where v': "free_kpages (pg_of kh pr) v = Ok v'" "kvm_inv v'" "kpages v' = kpages v - ({pg_of kh pr} - boot_pages v)"
      "k_mem v' = k_mem v" "user_view v' = user_view v"
    using kp.free_law [OF D(1) D(9) [OF pr]] by blast
  let ?kh = "kh1\<lparr>kheaproots := rs\<rparr>"
  have "pg_of kh a \<noteq> pg_of kh pr" if "a \<in> set prs" "a \<noteq> pr" for a
    using that D(11) pr by (auto simp: inj_on_def)
  then have pages: "page_rep (k_mem v') (prefs kh1 a) (fls a) \<and> pg_of kh1 a \<in> kpages v' \<and> pg_of kh1 a \<notin> rpages rs" if "a \<in> set ?ps" for a
    using that D(8-10) [of a] page_rep_fields [OF k1(4-6)] by (simp add: v' pt rs(4))
  have "rpages rs \<subseteq> kpages v'" using D(4) D(10) [OF pr] v'(3) rs(4) by auto
  moreover have "inj_on (pg_of kh) (set ?ps)" using D(11) by (rule inj_on_subset) auto
  moreover have "descr rs = set ?ps" using rs(3) by auto
  ultimately have "heap_rep ?kh v' ?ps fls"
    using v'(2) rs(2) k1(3,7,8) pages unfolding heap_rep_def by (simp add: pt)
  moreover have "drop_page pr kh v = Ok (0, ?kh, v')" using k1(1) rs(1) v'(1) by (simp add: drop_page_def)
  ultimately show ?thesis using pt rs(4) v'(3-5) by auto
qed

section \<open>Release\<close>

lemma subpage_kfree_block:
  assumes H: "heap_rep kh v prs fls" and p: "p \<in> set prs" and j: "j < nblk (ty_of kh p)" "j \<notin> set (fls p)"
    and ne: "length (fls p) < nblk (ty_of kh p)"
  shows "subpage_kfree (baddr (pg_of kh p) (ty_of kh p) j) kh v =
    (let kh' = upd_pr p (freed_pr j) kh; v' = v\<lparr>k_mem := freed_mem kh p j (k_mem v)\<rparr>
     in if Suc (length (fls p)) = nblk (ty_of kh p) then drop_page p kh' v' else Ok (0, kh', v'))"
proof -
  note D = heap_repD [OF H] and P = push_block [OF H p j]
  let ?pg = "pg_of kh p" and ?ty = "ty_of kh p"
  let ?b = "baddr ?pg ?ty j" and ?sz = "sizes ! ty_of kh p"
  note ty = D(12) [OF p] and pa = D(13) [OF p]
  have "within ?b ?sz ?b" using size_facts(2) [OF ty] by (simp add: within_def)
  then have fp: "page_of ?b (allbase kh) kh = Some (Ok p)" by (intro page_of_block [OF H p] within_page [OF pa ty j(1)])
  have p0: "p \<noteq> NULL" using hlist_no_NULL [OF D(6)] p by auto
  note o = block_offset [OF ty j(1)]
  define off where "off = ?b - ?pg"
  have off: "off = of_nat (j * ?sz)" "?pg + off = ?b" by (simp_all add: off_def baddr_def)
  have u: "unat off = j * ?sz" unfolding off(1) using o(1) by (intro unat_of_nat_32) simp
  have lt: "\<not> PAGE_SIZE \<le> off" using o(1) u by (simp add: word_le_nat_alt PAGE_SIZE_def)
  have "(ucast off :: 16 word) = of_nat (j * ?sz)" unfolding off(1) using o(1) by (intro ucast_small) simp
  then have up: "upd_pr p (\<lambda>q. q\<lparr>freelist_offset := ucast off, nfree := nfree (prefs kh p) + 1\<rparr>) kh = upd_pr p (freed_pr j) kh"
    by (simp add: upd_pr_def freed_pr_def)
  have same: "pg_of (upd_pr p (freed_pr j) kh) p = ?pg" "ty_of (upd_pr p (freed_pr j) kh) p = ?ty" by (simp_all add: upd_pr_def)
  have as: "freelist_offset (prefs kh p) = INVALID_OFFSET \<or> ?b \<noteq> (if freelist_offset (prefs kh p) = INVALID_OFFSET then NULL
      else ?pg + ucast (freelist_offset (prefs kh p)))" using P(4) by auto
  show ?thesis
    using fp p0 lt u P(3) ne as
    by (simp add: subpage_kfree_def Let_def off(2) up drop_page_def same freed_mem_def nblk_def flip: off_def)
qed

text \<open>Whether the page of the block \<open>(p, n)\<close> holds another block of \<open>B\<close>.\<close>

definition page_shared :: "(vaddr \<times> nat) set \<Rightarrow> vaddr \<Rightarrow> nat \<Rightarrow> bool" where
  "page_shared B p n \<longleftrightarrow> (\<exists>(a, b) \<in> B - {(p, n)}. a AND PAGE_FRAME = p AND PAGE_FRAME)"

definition pages_without :: "vm \<Rightarrow> (vaddr \<times> nat) set \<Rightarrow> vaddr \<Rightarrow> nat \<Rightarrow> vaddr set" where
  "pages_without v B p n = (if page_shared B p n then kpages v else kpages v - ({p AND PAGE_FRAME} - boot_pages v))"

lemma frame_of_within:
  assumes "page_addr g" "within g 4096 x"
  shows "x AND PAGE_FRAME = g"
proof -
  obtain d where d: "unat x = unat g + d" "d < 4096" using assms(2) by (auto simp: within_def le_iff_add)
  have "unat g mod 4096 = 0" using assms(1) by (simp add: page_addr_def)
  then have "(unat g + d) mod 4096 = d mod 4096" by (metis add_0 mod_add_left_eq)
  then have "unat x mod 4096 = d" using d by simp
  then have "unat (x AND PAGE_FRAME) = unat g" using d(1) by (simp add: unat_and_PAGE_FRAME)
  then show ?thesis by (rule unsigned_word_eqI)
qed

lemma frame_of_block:
  assumes "heap_rep kh v prs fls" "p \<in> set prs" "j < nblk (ty_of kh p)"
  shows "baddr (pg_of kh p) (ty_of kh p) j AND PAGE_FRAME = pg_of kh p"
proof -
  note D = heap_repD [OF assms(1)]
  have "within (baddr (pg_of kh p) (ty_of kh p) j) (sizes ! ty_of kh p) (baddr (pg_of kh p) (ty_of kh p) j)"
    using size_facts(2) [OF D(12) [OF assms(2)]] by (simp add: within_def)
  then show ?thesis
    using within_page [OF D(13,12) [OF assms(2)] assms(3)] by (intro frame_of_within [OF D(13) [OF assms(2)]])
qed

lemma frame_of_whole:
  assumes "heap_rep kh v prs fls" "large kh v prs L" "a \<in> L"
  shows "a AND PAGE_FRAME = a"
proof -
  have "page_addr a" using assms(2,3) kpage_addr [OF heap_repD(1) [OF assms(1)]] by (auto simp: large_def)
  then show ?thesis by (rule frame_of_within) (simp add: within_def)
qed

text \<open>A page of blocks holds another one unless all its blocks but this one are free.\<close>

lemma page_shared_block:
  assumes H: "heap_rep kh v prs fls" and L: "large kh v prs L" and p: "p \<in> set prs"
    and j: "j < nblk (ty_of kh p)" "j \<notin> set (fls p)" and a: "a = baddr (pg_of kh p) (ty_of kh p) j" "b = sizes ! ty_of kh p"
  shows "page_shared (blocks kh prs fls \<union> whole L) a b \<longleftrightarrow> Suc (length (fls p)) \<noteq> nblk (ty_of kh p)"
proof -
  note D = heap_repD [OF H]
  have fl: "set (j # fls p) \<subseteq> {..<nblk (ty_of kh p)}" "distinct (j # fls p)" using D(8) [OF p] j by (auto simp: page_rep_def)
  have pg: "a AND PAGE_FRAME = pg_of kh p" using frame_of_block [OF H p j(1)] a(1) by simp
  show ?thesis
  proof (cases "Suc (length (fls p)) = nblk (ty_of kh p)")
    case True
    then have all: "set (j # fls p) = {..<nblk (ty_of kh p)}" using fl distinct_card [of "j # fls p"] by (intro card_subset_eq) simp_all
    have "c AND PAGE_FRAME \<noteq> pg_of kh p" if cd: "(c, d) \<in> blocks kh prs fls \<union> whole L" "(c, d) \<noteq> (a, b)" for c d
      using cd(1)
    proof
      assume "(c, d) \<in> blocks kh prs fls"
      then obtain q k where q: "q \<in> set prs" "k < nblk (ty_of kh q)" "k \<notin> set (fls q)" "c = baddr (pg_of kh q) (ty_of kh q) k" "d = sizes ! ty_of kh q"
        by (rule blocksE)
      have "q \<noteq> p"
      proof
        assume "q = p"
        then have "k = j" using q(2,3) all by (metis lessThan_iff set_ConsD)
        then show False using \<open>q = p\<close> q(4,5) a cd(2) by simp
      qed
      then have "pg_of kh q \<noteq> pg_of kh p" using D(11) q(1) p by (auto simp: inj_on_def)
      then show ?thesis using frame_of_block [OF H q(1,2)] q(4) by simp
    next
      assume "(c, d) \<in> whole L"
      then have "c \<in> L" by (auto simp: whole_def)
      then show ?thesis using frame_of_whole [OF H L] L p by (auto simp: large_def)
    qed
    then show ?thesis using True pg by (auto simp: page_shared_def)
  next
    case False
    have "\<not> {..<nblk (ty_of kh p)} \<subseteq> set (j # fls p)"
      using False fl distinct_card [OF fl(2)] by (metis card_lessThan length_Cons subset_antisym)
    then obtain k where k: "k < nblk (ty_of kh p)" "k \<notin> set (fls p)" "k \<noteq> j" by auto
    let ?c = "baddr (pg_of kh p) (ty_of kh p) k"
    have "(?c, b) \<in> blocks kh prs fls" using p k a(2) by (auto simp: blocks_def page_blocks_def)
    moreover have "?c \<noteq> a" using baddr_inj [OF D(13,12) [OF p] k(1) j(1)] k(3) a(1) by auto
    ultimately have "page_shared (blocks kh prs fls \<union> whole L) a b"
      using frame_of_block [OF H p k(1)] pg unfolding page_shared_def by (intro bexI [of _ "(?c, b)"]) auto
    then show ?thesis using False by simp
  qed
qed

lemma page_shared_whole:
  assumes H: "heap_rep kh v prs fls" and L: "large kh v prs L" and a: "a \<in> L"
  shows "\<not> page_shared (blocks kh prs fls \<union> whole L) a 4096"
proof -
  have "c AND PAGE_FRAME \<noteq> a" if cd: "(c, d) \<in> blocks kh prs fls \<union> whole L" "(c, d) \<noteq> (a, 4096)" for c d
    using cd(1)
  proof
    assume "(c, d) \<in> blocks kh prs fls"
    then obtain q k where q: "q \<in> set prs" "k < nblk (ty_of kh q)" "c = baddr (pg_of kh q) (ty_of kh q) k" by (rule blocksE)
    then show ?thesis using frame_of_block [OF H q(1,2)] L a by (auto simp: large_def)
  next
    assume "(c, d) \<in> whole L"
    then show ?thesis using frame_of_whole [OF H L] cd(2) by (auto simp: whole_def)
  qed
  then show ?thesis using frame_of_whole [OF H L a] by (auto simp: page_shared_def)
qed

lemma kfree_block:
  assumes H: "heap_rep kh v prs fls" and ne: "\<forall>p \<in> set prs. length (fls p) < nblk (ty_of kh p)" and L: "large kh v prs L"
    and p: "p \<in> set prs" and j: "j < nblk (ty_of kh p)" "j \<notin> set (fls p)"
    and a: "a = baddr (pg_of kh p) (ty_of kh p) j" "b = sizes ! ty_of kh p"
  shows "\<exists>kh' v'. kfree a kh v = Ok (kh', v') \<and> heap_ord kh' v' (blocks kh prs fls \<union> whole L - {(a, b)})
    \<and> (\<forall>x. \<not> within a b x \<longrightarrow> k_mem v' x = k_mem v x) \<and> user_view v' = user_view v
    \<and> kpages v' = pages_without v (blocks kh prs fls \<union> whole L) a b"
proof -
  note D = heap_repD [OF H] and sh = page_shared_block [OF H L p j a]
  let ?kh = "upd_pr p (freed_pr j) kh" and ?v = "v\<lparr>k_mem := freed_mem kh p j (k_mem v)\<rparr>" and ?fls = "fls(p := j # fls p)"
  note P = push_block [OF H p j, folded a]
  note ty = D(12) [OF p] and pa = D(13) [OF p]
  have same: "pg_of ?kh c = pg_of kh c" "ty_of ?kh c = ty_of kh c" for c by (simp_all add: upd_pr_def)
  have "blocks kh prs (?fls(p := fls p)) = insert (a, b) (blocks ?kh prs ?fls)" "(a, b) \<notin> blocks ?kh prs ?fls"
    using blocks_take [OF P(1) p, of j "fls p" kh] by (simp_all add: same a)
  then have bl: "blocks ?kh prs ?fls = blocks kh prs fls - {(a, b)}" by simp
  have wh: "(a, b) \<notin> whole L" using size_facts(3) [OF ty] a by (auto simp: whole_def)
  have a0: "a \<noteq> NULL" using baddr_nonnull [OF pa ty j(1)] a by simp
  have vp: "user_view ?v = user_view v"
    using within_page [OF pa ty j(1)] P(2) a by (intro kernel_write [OF D(1) D(9) [OF p]]) blast
  have run: "subpage_kfree a kh v = (if Suc (length (fls p)) = nblk (ty_of kh p) then drop_page p ?kh ?v else Ok (0, ?kh, ?v))"
    using subpage_kfree_block [OF H p j] ne p a by (simp add: Let_def)
  have lv: "large ?kh ?v prs L" using L by (simp add: large_def same) (simp add: upd_pr_def)
  show ?thesis
  proof (cases "Suc (length (fls p)) = nblk (ty_of kh p)")
    case False
    then have "kfree a kh v = Ok (?kh, ?v)" using a0 run by (simp add: kfree_def)
    moreover have "heap_ord ?kh ?v (blocks kh prs fls \<union> whole L - {(a, b)})"
      by (rule heap_ordI [OF P(1) _ lv]) (use ne False p bl wh in \<open>auto simp: same intro: Suc_lessI\<close>)
    ultimately show ?thesis using P(2) vp sh False by (auto simp: pages_without_def)
  next
    case True
    let ?ps = "filter (\<lambda>c. c \<noteq> p) prs"
    obtain kh' v' where d: "drop_page p ?kh ?v = Ok (0, kh', v')" "heap_rep kh' v' ?ps ?fls"
        "\<And>c. pg_of kh' c = pg_of kh c \<and> ty_of kh' c = ty_of kh c" "rpages (kheaproots kh') = rpages (kheaproots ?kh)"
        "kpages v' = kpages v - ({pg_of kh p} - boot_pages v)" "k_mem v' = freed_mem kh p j (k_mem v)" "user_view v' = user_view v"
      using drop_page_ok [OF P(1) p] vp by (auto simp: same)
    have "page_blocks kh p (j # fls p) = {}"
    proof -
      have "set (j # fls p) \<subseteq> {..<nblk (ty_of kh p)}" "distinct (j # fls p)"
        using D(8) [OF p] j by (auto simp: page_rep_def)
      then have "set (j # fls p) = {..<nblk (ty_of kh p)}"
        using distinct_card [of "j # fls p"] True by (intro card_subset_eq) simp_all
      then show ?thesis by (simp add: page_blocks_def)
    qed
    then have b': "blocks kh' ?ps ?fls = blocks ?kh prs ?fls"
      using blocks_split [OF p, of ?kh kh fls "j # fls p"] d(3) by (auto simp: same blocks_def page_blocks_def)
    have "kfree a kh v = Ok (kh', v')" using a0 run True d(1) by (simp add: kfree_def)
    moreover have "large kh' v' ?ps L" using L d(3-5) p by (auto simp: large_def upd_pr_def)
    then have "heap_ord kh' v' (blocks kh prs fls \<union> whole L - {(a, b)})"
      using ne d(3) b' bl wh by (intro heap_ordI [OF d(2)]) auto
    moreover have "kpages v' = pages_without v (blocks kh prs fls \<union> whole L) a b"
      using d(5) sh True frame_of_block [OF H p j(1)] a(1) by (simp add: pages_without_def)
    ultimately show ?thesis using P(2) d(6,7) by auto
  qed
qed

lemma kfree_whole:
  assumes H: "heap_rep kh v prs fls" and ne: "\<forall>p \<in> set prs. length (fls p) < nblk (ty_of kh p)" and L: "large kh v prs L"
    and a: "a \<in> L"
  shows "\<exists>kh' v'. kfree a kh v = Ok (kh', v') \<and> heap_ord kh' v' (blocks kh prs fls \<union> whole L - {(a, 4096)})
    \<and> (\<forall>x. \<not> within a 4096 x \<longrightarrow> k_mem v' x = k_mem v x) \<and> user_view v' = user_view v
    \<and> kpages v' = pages_without v (blocks kh prs fls \<union> whole L) a 4096"
proof -
  note D = heap_repD [OF H]
  have k: "a \<in> kpages v" "a \<notin> rpages (kheaproots kh)" "a \<notin> pg_of kh ` set prs" using L a by (auto simp: large_def)
  have pa: "page_addr a" by (rule kpage_addr [OF D(1) k(1)])
  then have a0: "a \<noteq> NULL" "a mod PAGE_SIZE = 0"
    using unat_page_mod [of a] by (auto simp: page_addr_def unat_eq_zero)
  obtain v' where v': "free_kpages a v = Ok v'" "kvm_inv v'" "kpages v' = kpages v - ({a} - boot_pages v)" "k_mem v' = k_mem v" "user_view v' = user_view v"
    using kp.free_law [OF D(1) k(1)] by blast
  have run: "kfree a kh v = Ok (kh, v')"
    using a0 page_of_whole [OF H L a] v'(1) by (simp add: kfree_def subpage_kfree_def)
  have "\<forall>q \<in> set prs. pg_of kh q \<noteq> a" using k(3) by auto
  then have H': "heap_rep kh v' prs fls" using H k(2) v'(2-4) unfolding heap_rep_def by auto
  have L': "large kh v' prs (L - {a})" using L v'(3) by (auto simp: large_def)
  have "(a, 4096) \<notin> blocks kh prs fls" using blocks_in_page(2) [OF H, of a 4096 a] by (auto simp: within_def)
  then have "blocks kh prs fls \<union> whole L - {(a, 4096)} = blocks kh prs fls \<union> whole (L - {a})" by (auto simp: whole_def)
  then have "heap_ord kh v' (blocks kh prs fls \<union> whole L - {(a, 4096)})" by (rule heap_ordI [OF H' ne L'])
  moreover have "kpages v' = pages_without v (blocks kh prs fls \<union> whole L) a 4096"
    using v'(3) page_shared_whole [OF H L a] frame_of_whole [OF H L a] by (simp add: pages_without_def)
  ultimately show ?thesis using run v'(4,5) by auto
qed

text \<open>
  (C31) Release: \<open>kfree\<close> of an allocated block returns, without a failed assertion; the heap is in order
  without this block, and the contents of the other blocks and of every page of every process are
  unchanged. If another allocated block lies in the page of this one, the kernel keeps exactly the
  pages it had; if not, the page is given back: the kernel keeps exactly its other pages, and this one
  only if it lies below the first managed frame.
\<close>

theorem kfree_releases:
  assumes "heap_inv kh v B" "(p, n) \<in> B"
  shows "\<exists>kh' v'. kfree p kh v = Ok (kh', v') \<and> heap_inv kh' v' (B - {(p, n)})
    \<and> (\<forall>(a, b) \<in> B - {(p, n)}. \<forall>x. within a b x \<longrightarrow> k_mem v' x = k_mem v x) \<and> vpage v' = vpage v
    \<and> kpages v' = (if \<exists>(a, b) \<in> B - {(p, n)}. a AND PAGE_FRAME = p AND PAGE_FRAME then kpages v
        else kpages v - ({p AND PAGE_FRAME} - boot_pages v))"
proof -
  obtain prs fls L where H: "heap_rep kh v prs fls" "\<forall>p \<in> set prs. length (fls p) < nblk (ty_of kh p)" "large kh v prs L"
      and B: "B = blocks kh prs fls \<union> whole L"
    using assms(1) unfolding heap_inv_def heap_ord_def by blast
  have pt: "pt_inv v" using assms(1) by (simp add: heap_inv_def)
  have "\<exists>kh' v'. kfree p kh v = Ok (kh', v') \<and> heap_ord kh' v' (B - {(p, n)})
    \<and> (\<forall>x. \<not> within p n x \<longrightarrow> k_mem v' x = k_mem v x) \<and> user_view v' = user_view v \<and> kpages v' = pages_without v B p n"
  proof (cases "(p, n) \<in> blocks kh prs fls")
    case True
    then obtain q j where "q \<in> set prs" "j < nblk (ty_of kh q)" "j \<notin> set (fls q)" "p = baddr (pg_of kh q) (ty_of kh q) j" "n = sizes ! ty_of kh q"
      by (rule blocksE)
    then show ?thesis unfolding B by (rule kfree_block [OF H])
  next
    case False
    then have "p \<in> L" "n = 4096" using assms(2) B by (auto simp: whole_def)
    then show ?thesis using kfree_whole [OF H] B by simp
  qed
  then obtain kh' v' where K: "kfree p kh v = Ok (kh', v')" "heap_inv kh' v' (B - {(p, n)})"
      "\<forall>x. \<not> within p n x \<longrightarrow> k_mem v' x = k_mem v x" "vpage v' = vpage v" "kpages v' = pages_without v B p n"
    using user_view_inv [OF _ pt] unfolding heap_inv_def by blast
  moreover have "\<not> within p n x" if "(a, b) \<in> B - {(p, n)}" "within a b x" for a b x
    using heap_disjoint [OF H(1,3), of a b p n x] that assms(2) B by blast
  ultimately have "\<forall>(a, b) \<in> B - {(p, n)}. \<forall>x. within a b x \<longrightarrow> k_mem v' x = k_mem v x" by blast
  then show ?thesis using K(1,2,4) K(5) [unfolded pages_without_def page_shared_def] by blast
qed

theorem kfree_releases_witness:
  "\<exists>p kh1 v1 kh2 v2. kmalloc 24 ex_kheap ex_free_vm = Ok (p, kh1, v1) \<and> kfree p kh1 v1 = Ok (kh2, v2)
     \<and> heap_inv kh2 v2 {} \<and> vpage v2 = vpage ex_free_vm \<and> kpages v2 = kpages v1 - ({p AND PAGE_FRAME} - boot_pages v1)"
proof -
  obtain p n kh v where k: "kmalloc 24 ex_kheap ex_free_vm = Ok (p, kh, v)" "heap_ord kh v {(p, n)}" "user_view v = user_view ex_free_vm"
    using kmalloc_gives [OF ex_kheap_ord [OF ex_kvm] _ ex_kheap_room, of 24] by (auto simp: gives_block_def)
  have u: "pt_inv v" "vpage v = vpage ex_free_vm" using user_view_inv [OF k(3) ex_free_facts(1)] by blast+
  then have "heap_inv kh v {(p, n)}" using k(2) by (simp add: heap_inv_def)
  from kfree_releases [OF this, of p n] show ?thesis using k(1) u(2) by auto
qed

end
