(* ===== verification/VM_Boot.thy ===== *)
theory VM_Boot
  imports Kmalloc_Free
begin

text \<open>
  Start-up of the virtual memory system (\<open>vm_bootstrap\<close> in \<^verbatim>\<open>kern/vm/addrspace.c\<close>): the swap file and
  the page table are built from memory that is stolen for good, the hash index from the kernel
  heap over the page table that is active by then, so that its allocations take the first frames.
\<close>

unbundle bit_operations_syntax

section \<open>The boot sequence\<close>

text \<open>
  The answers of the environment: the allocations of \<open>swap_init\<close>, the pages they steal and the opened
  disk, the size of the memory, the pages and contents of the two arrays of \<open>pt_init\<close>, and the
  heap and the memory as all these allocations leave them. The result of \<open>swap_init\<close> is ignored.
\<close>

record boot_env =
  be_swap_alloc :: "nat \<Rightarrow> ptr"
  be_disk :: "int + lhd_softc"
  be_ramsize :: "32 word"
  be_pages0 :: "32 word"
  be_pages1 :: "32 word"
  be_pages2 :: "32 word"
  be_junk :: "nat \<Rightarrow> pt_entry"
  be_heap :: kheap
  be_mem :: kmem

definition boot_tables :: "boot_env \<Rightarrow> vm \<Rightarrow> vm kres" where
  "boot_tables b s =
     kbind (swap_init (be_swap_alloc b) (be_disk b) (sw_cells (k_swap s))) (\<lambda>r.
       let s = (case r of Inl e \<Rightarrow> s | Inr sw \<Rightarrow> s\<lparr>k_swap := sw\<rparr>);
           (_, s) = ram_stealmem (be_pages0 b) s
       in kbind (pt_init (be_ramsize b) (be_pages1 b) (be_pages2 b) (be_junk b) s) (\<lambda>s.
            Ok (s\<lparr>k_mem := be_mem b\<rparr>)))"

text \<open>\<open>kmalloc\<close> on the heap and the state together.\<close>

definition heap_alloc :: "(kheap \<times> vm) kmalloc_op" where
  "heap_alloc sz = (\<lambda>(kh, s). kmalloc sz kh s)"

definition vm_bootstrap :: "boot_env \<Rightarrow> vm \<Rightarrow> (kheap \<times> vm) kres" where
  "vm_bootstrap b s =
     kbind (boot_tables b s) (\<lambda>s.
       kbind (hashtable_init (nent s) heap_alloc (ht_mem (htable s)) (be_heap b, s)) (\<lambda>(ht, kh, s).
         Ok (kh, s\<lparr>htable := ht\<rparr>)))"

section \<open>Frames claimed in order\<close>

text \<open>The kernel holds the first \<open>k\<close> frames, the others have never been used.\<close>

definition claimed :: "nat \<Rightarrow> vm \<Rightarrow> bool" where
  "claimed k s \<longleftrightarrow> k \<le> npt s \<and> (\<forall>i < npt s.
     if i < k then page (ents s ! i) = KMALLOC_PAGE \<and> GetValidityBit (ctrl (ents s ! i))
     else page (ents s ! i) \<noteq> KMALLOC_PAGE \<and> ctrl (ents s ! i) = 0)"

text \<open>What the allocator changes of the state: entries of the page table and memory.\<close>

definition frame_steps :: "vm \<Rightarrow> vm \<Rightarrow> bool" where
  "frame_steps s s' \<longleftrightarrow> s' = s\<lparr>page_table := page_table s', k_mem := k_mem s'\<rparr>
     \<and> n_entry (page_table s') = n_entry (page_table s) \<and> first_free_paddr (page_table s') = first_free_paddr (page_table s)"

lemma frame_stepsI:
  assumes "s' = s\<lparr>page_table := pt, k_mem := m\<rparr>" "n_entry pt = n_entry (page_table s)"
    "first_free_paddr pt = first_free_paddr (page_table s)"
  shows "frame_steps s s'"
  using assms by (simp add: frame_steps_def)

lemma frame_steps_refl [simp]: "frame_steps s s"
  by (simp add: frame_steps_def)

lemma frame_stepsE:
  assumes "frame_steps s s'"
  obtains pt m where "s' = s\<lparr>page_table := pt, k_mem := m\<rparr>" "n_entry pt = n_entry (page_table s)"
    "first_free_paddr pt = first_free_paddr (page_table s)"
  using assms unfolding frame_steps_def by blast

lemma frame_steps_mem: "frame_steps s s' \<Longrightarrow> frame_steps s (s'\<lparr>k_mem := m\<rparr>)"
  by (elim frame_stepsE) (auto intro: frame_stepsI)

lemma frame_steps_trans: "frame_steps s s' \<Longrightarrow> frame_steps s' s'' \<Longrightarrow> frame_steps s s''"
  by (elim frame_stepsE) (auto intro: frame_stepsI)

lemma frame_steps_fields:
  assumes "frame_steps s s'"
  shows "npt s' = npt s" "nent s' = nent s" "htable s' = htable s" "k_swap s' = k_swap s" "pt_active s' = pt_active s" "lastIndex s' = lastIndex s"
  using assms by (auto elim!: frame_stepsE simp: npt_def)

lemma claimed_mem [simp]: "claimed k (s\<lparr>k_mem := m\<rparr>) = claimed k s"
  by (simp add: claimed_def npt_def)

lemma claimed_first:
  assumes "claimed k s" "k < npt s"
  shows "find (run_start s) [0..<npt s] = Some k"
proof -
  have fr: "run_free (ents s ! k)" using assms by (simp add: claimed_def run_free_def)
  moreover have "valid_entry (ctrl (ents s ! (k - 1))) (page (ents s ! (k - 1)))" if "k \<noteq> 0"
    using assms that by (simp add: claimed_def valid_entry_def)
  ultimately have "run_start s k" by (auto simp: run_start_def)
  moreover have "\<not> run_start s i" if "i < k" for i
    using assms that by (simp add: claimed_def run_start_def run_free_def)
  ultimately show ?thesis using assms(2) by (simp add: find_upt_Some)
qed

lemma claimed_alloc:
  assumes inv: "kvm_inv s" and c: "claimed k s" "k < npt s"
  shows "\<exists>a s'. alloc_kpages 1 s = Ok (a, s') \<and> claimed (Suc k) s' \<and> frame_steps s s' \<and> kvm_inv s'"
proof -
  have I: "pt_shape s" "frames_ok s" "pt_active s" "npt s \<le> length (contiguous (page_table s))"
    using inv by (simp_all add: kvm_inv_def)
  have l: "k < length (ents s)" "k < length (contiguous (page_table s))" using c(2) I(4) pt_shapeD(3) [OF I(1)] by simp_all
  let ?f = "\<lambda>x :: pt_entry. \<lparr>page = KMALLOC_PAGE, pe_pid = k_pid s, ctrl = SetValidityBitOne (ctrl (ents s ! k))\<rparr>"
  let ?s = "mark_frame k ?f 1 s"
  have "alloc_kpages 1 s = Ok (PADDR_TO_KVADDR (frame_addr s (int k)), ?s)"
    using alloc_one_frame [OF I(1-3) claimed_first [OF c] I(4)] by (simp add: mark_frame_def Let_def)
  moreover have "claimed (Suc k) ?s"
    using c l unfolding claimed_def mark_frame_simps [OF l] by (auto simp: nth_list_update)
  moreover have "frame_steps s ?s"
    by (rule frame_stepsI [where pt = "page_table ?s" and m = "k_mem s"]) (simp_all add: mark_frame_def Let_def upd_entry_def)
  moreover have "\<not> user (ents s ! k)" "\<not> user (?f (ents s ! k))" using c by (simp_all add: claimed_def user_def)
  then have "kvm_inv ?s" by (rule mark_frame_inv(1) [OF inv c(2)])
  ultimately show ?thesis by blast
qed

lemma claimed_avail: "claimed k s \<Longrightarrow> k < npt s \<Longrightarrow> frame_avail s"
  using claimed_first by (simp add: frame_avail_def)

section \<open>What an allocation costs\<close>

text \<open>Descriptors left in some page of descriptors.\<close>

definition descr_room :: "nat \<Rightarrow> kheap \<Rightarrow> bool" where
  "descr_room r kh \<longleftrightarrow> (\<exists>w < 16. unat (numinuse (kheaproots kh ! w)) + r \<le> 256)"

definition descr_step :: "kheap \<Rightarrow> kheap \<Rightarrow> bool" where
  "descr_step kh kh' \<longleftrightarrow> (\<forall>u. unat (numinuse (kheaproots kh' ! u)) \<le> unat (numinuse (kheaproots kh ! u)) + 1)"

lemma descr_room_step:
  assumes "descr_room (Suc r) kh" "descr_step kh kh'"
  shows "descr_room r kh'"
proof -
  obtain w where w: "w < 16" "unat (numinuse (kheaproots kh ! w)) + Suc r \<le> 256" using assms(1) by (auto simp: descr_room_def)
  moreover have "unat (numinuse (kheaproots kh' ! w)) \<le> unat (numinuse (kheaproots kh ! w)) + 1"
    using assms(2) by (simp add: descr_step_def)
  ultimately have "w < 16" "unat (numinuse (kheaproots kh' ! w)) + r \<le> 256" by linarith+
  then show ?thesis by (auto simp: descr_room_def)
qed

lemma descr_step_root:
  assumes "unat (numinuse r) \<le> unat (numinuse (kheaproots kh ! w)) + 1"
  shows "descr_step kh (set_root w r kh)"
  unfolding descr_step_def
proof
  fix u
  show "unat (numinuse (kheaproots (set_root w r kh) ! u)) \<le> unat (numinuse (kheaproots kh ! u)) + 1"
    using assms by (cases "u = w"; cases "w < length (kheaproots kh)") (simp_all add: set_root_def list_update_beyond)
qed

lemma allocpageref_cost:
  "allocpageref_from n w kh v = Ok (p, kh', v') \<Longrightarrow> (v' = v \<or> (\<exists>a. alloc_kpages 1 v = Ok (a, v'))) \<and> descr_step kh kh'"
proof (induction n w kh v rule: allocpageref_from.induct)
  case (1 w kh v)
  then show ?case by (simp add: descr_step_def)
next
  case (2 n w kh v)
  let ?r = "kheaproots kh ! w"
  show ?case
  proof (cases "NPAGEREFS_PER_PAGE \<le> unat (numinuse ?r) \<or> find (\<lambda>i. pagerefs_inuse ?r ! i \<noteq> 0xffffffff) [0..<INUSE_WORDS] = None")
    case True
    then have "allocpageref_from n (Suc w) kh v = Ok (p, kh', v')" using "2.prems" by (auto simp: Let_def split: if_splits)
    then show ?thesis using True "2.IH" by blast
  next
    case False
    then obtain i where i: "find (\<lambda>i. pagerefs_inuse ?r ! i \<noteq> 0xffffffff) [0..<INUSE_WORDS] = Some i" "\<not> NPAGEREFS_PER_PAGE \<le> unat (numinuse ?r)"
      by blast
    then obtain j where j: "find (\<lambda>j. pagerefs_inuse ?r ! i AND push_bit j 1 = 0) [0..<32] = Some j"
      using "2.prems" by (auto simp: Let_def split: option.splits)
    define r1 where "r1 = ?r\<lparr>pagerefs_inuse := (pagerefs_inuse ?r)[i := pagerefs_inuse ?r ! i OR push_bit j 1], numinuse := numinuse ?r + 1\<rparr>"
    obtain r2 v2 where r2: "(if kr_page ?r = NULL then allocpagerefpage r1 v else Ok (r1, v)) = Ok (r2, v2)"
        "kh' = set_root w r2 kh" "v' = v2"
      using "2.prems" i j by (auto simp: Let_def r1_def simp del: push_bit_of_1 split: if_splits)
    have "numinuse r2 = numinuse ?r + 1" "v2 = v \<or> (\<exists>a. alloc_kpages 1 v = Ok (a, v2))"
      using r2(1) by (auto simp: allocpagerefpage_def kassert_def r1_def split: if_splits)
    moreover have "unat (numinuse ?r + 1) \<le> unat (numinuse ?r) + 1" by (simp add: unat_word_ariths)
    ultimately show ?thesis using r2(2,3) by (auto intro!: descr_step_root)
  qed
qed

lemma doalloc_cost:
  assumes "doalloc pr kh v = Ok (p, kh', v')"
  shows "v' = v" "kheaproots kh' = kheaproots kh"
  using assms by (auto simp: doalloc_def Let_def kassert_def upd_pr_def split: if_splits)

lemma new_block_page_cost:
  assumes inv: "kvm_inv v" "claimed k v" "k + 2 \<le> npt v" and run: "new_block_page ty kh v = Ok (p, kh', v')" "p \<noteq> NULL"
  shows "\<exists>k' \<le> k + 2. claimed k' v' \<and> frame_steps v v' \<and> descr_step kh kh'"
proof -
  obtain a v1 where a: "alloc_kpages 1 v = Ok (a, v1)" "claimed (Suc k) v1" "frame_steps v v1" "kvm_inv v1"
    using claimed_alloc [OF inv(1,2)] inv(3) by auto
  obtain kh2 v2 m where r: "allocpageref kh v1 = Ok (p, kh2, v2)" "v' = v2\<lparr>k_mem := m\<rparr>" "kheaproots kh' = kheaproots kh2"
    using run a(1) by (auto simp: new_block_page_def kassert_def Let_def upd_pr_def split: if_splits)
  note c = allocpageref_cost [OF r(1) [unfolded allocpageref_def]]
  have step: "descr_step kh kh'" using c r(3) by (simp add: descr_step_def)
  have "claimed (Suc k) v2 \<and> frame_steps v v2 \<or> claimed (Suc (Suc k)) v2 \<and> frame_steps v v2"
  proof (cases "v2 = v1")
    case False
    then obtain a2 where "alloc_kpages 1 v1 = Ok (a2, v2)" using c by blast
    moreover have "Suc k < npt v1" using inv(3) frame_steps_fields(1) [OF a(3)] by simp
    ultimately have "claimed (Suc (Suc k)) v2" "frame_steps v1 v2" using claimed_alloc [OF a(4,2)] by auto
    then show ?thesis using frame_steps_trans [OF a(3)] by blast
  qed (use a in simp)
  then show ?thesis unfolding r(2) using step frame_steps_mem by (elim disjE) (auto intro: exI [of _ "Suc k"] exI [of _ "Suc (Suc k)"])
qed

lemma kmalloc_cost:
  assumes inv: "kvm_inv v" "claimed k v" "k + 2 \<le> npt v" and run: "kmalloc sz kh v = Ok (p, kh', v')" "p \<noteq> NULL"
    and sz: "unat sz \<le> 4096"
  shows "\<exists>k' \<le> k + 2. claimed k' v' \<and> frame_steps v v' \<and> descr_step kh kh'"
proof (cases "LARGEST_SUBPAGE_SIZE \<le> sz")
  case True
  obtain a v1 where a: "alloc_kpages 1 v = Ok (a, v1)" "claimed (Suc k) v1" "frame_steps v v1"
    using claimed_alloc [OF inv(1,2)] inv(3) by auto
  have "(sz + PAGE_SIZE - 1) div PAGE_SIZE = 1" using one_page [of sz] True sz by (simp add: LARGEST_SUBPAGE_SIZE_def word_le_nat_alt)
  then have "v' = v1 \<and> kh' = kh" using run a(1) True by (auto simp: kmalloc_def kassert_def split: if_splits)
  then show ?thesis using a(2,3) by (intro exI [of _ "Suc k"]) (simp add: descr_step_def)
next
  case False
  then obtain ty pr where pr: "blocktype sz = Ok ty" "from_loop (find_page ty (sizebases kh ! ty) kh) = Ok pr"
      "(if pr \<noteq> NULL then doalloc pr kh v else kbind (new_block_page ty kh v) (\<lambda>(pr, kh, v).
              if pr = NULL then Ok (NULL, kh, v) else doalloc pr kh v)) = Ok (p, kh', v')"
    using run(1) by (auto simp: kmalloc_def subpage_kmalloc_def)
  show ?thesis
  proof (cases "pr = NULL")
    case True
    then obtain q kh1 v1 where q: "new_block_page ty kh v = Ok (q, kh1, v1)" "q \<noteq> NULL" "doalloc q kh1 v1 = Ok (p, kh', v')"
      using pr(3) run(2) by (auto split: if_splits)
    then show ?thesis
      using new_block_page_cost [OF inv q(1,2)] doalloc_cost [OF q(3)] by (auto simp: descr_step_def)
  next
    case False
    then have "v' = v" "kheaproots kh' = kheaproots kh" using doalloc_cost [of pr kh v p kh' v'] pr(3) by simp_all
    then show ?thesis using inv by (intro exI [of _ k]) (simp add: descr_step_def)
  qed
qed

lemma room_claimed:
  assumes "kvm_inv v" "claimed k v" "k + 2 \<le> npt v" "descr_room (Suc r) kh"
  shows "heap_room kh v"
proof -
  have "frame_avail v" using claimed_avail [OF assms(2)] assms(3) by simp
  moreover have "frame_avail v'" if al: "alloc_kpages 1 v = Ok (a, v')" for a v'
  proof -
    obtain v1 where "claimed (Suc k) v1" "frame_steps v v1" "v1 = v'" using claimed_alloc [OF assms(1,2)] assms(3) al by auto
    then show ?thesis using claimed_avail [of "Suc k" v'] frame_steps_fields(1) [of v v'] assms(3) by simp
  qed
  moreover obtain w where "w < 16" "unat (numinuse (kheaproots kh ! w)) + Suc r \<le> 256" using assms(4) by (auto simp: descr_room_def)
  then have "\<exists>w < 16. unat (numinuse (kheaproots kh ! w)) < 256" by (intro exI [of _ w]) simp
  ultimately show ?thesis by (simp add: heap_room_def)
qed

section \<open>Blocks of sixteen bytes\<close>

text \<open>A heap in order with \<open>F\<close> free blocks in its pages of the smallest size.\<close>

definition heap_free :: "kheap \<Rightarrow> vm \<Rightarrow> (vaddr \<times> nat) set \<Rightarrow> nat \<Rightarrow> bool" where
  "heap_free kh v B F \<longleftrightarrow>
     (\<exists>prs fls L. heap_rep kh v prs fls \<and> (\<forall>p \<in> set prs. length (fls p) < nblk (ty_of kh p)) \<and> large kh v prs L
        \<and> B = blocks kh prs fls \<union> whole L \<and> F = (\<Sum>p | p \<in> set prs \<and> ty_of kh p = 0. length (fls p)))"

lemma heap_free_ord: "heap_ord kh v B \<longleftrightarrow> (\<exists>F. heap_free kh v B F)"
  by (auto simp: heap_ord_def heap_free_def)

lemma heap_free_kvm: "heap_free kh v B F \<Longrightarrow> kvm_inv v"
  by (auto simp: heap_free_def dest: heap_repD(1))

lemma heap_block_kseg0:
  assumes "heap_free kh v B F" "(p, n) \<in> B" "0 < n"
  shows "kseg0_ptr p"
proof -
  obtain prs fls L where H: "heap_rep kh v prs fls" "large kh v prs L" and B: "B = blocks kh prs fls \<union> whole L"
    using assms(1) unfolding heap_free_def by blast
  note D = heap_repD [OF H(1)]
  have "within p n p" using assms(3) by (simp add: within_def)
  then have "\<exists>g \<in> kpages v. within g 4096 p"
    using assms(2) blocks_in_page(1) [OF H(1), of p n p] D(9) H(2) B by (auto simp: whole_def large_def)
  then obtain g where g: "g \<in> kpages v" "within g 4096 p" by blast
  have "0x80000000 < unat g"
    using g(1) kvm_frame(1) [OF D(1)] D(1) by (auto simp: kpages_def boot_pages_def held_frame_def kvm_inv_def frames_ok_def)
  then show ?thesis
    using g(2) kpage_low [OF D(1) g(1)] by (simp add: kseg0_ptr_def within_def word_less_nat_alt word_le_nat_alt)
qed

text \<open>Taking one of the free blocks.\<close>

lemma doalloc_small:
  assumes H: "heap_rep kh v ps fs" "p \<in> set ps" "fs p = j # js" "ty_of kh p = 0"
    and ne: "\<forall>a \<in> set ps. a \<noteq> p \<longrightarrow> length (fs a) < nblk (ty_of kh a)" and L: "large kh v ps L"
  shows "\<exists>a kh'. doalloc p kh v = Ok (a, kh', v) \<and> kheaproots kh' = kheaproots kh
    \<and> heap_free kh' v (insert (a, 16) (blocks kh ps fs \<union> whole L)) ((\<Sum>p | p \<in> set ps \<and> ty_of kh p = 0. length (fs p)) - 1)
    \<and> (a, 16) \<notin> blocks kh ps fs \<union> whole L"
proof -
  obtain f where f: "doalloc p kh v = Ok (baddr (pg_of kh p) 0 j, upd_pr p f kh, v)" "heap_rep (upd_pr p f kh) v ps (fs(p := js))"
      "\<forall>c. ty_of (upd_pr p f kh) c = ty_of kh c" "large (upd_pr p f kh) v ps L"
      "\<forall>c \<in> set ps. length ((fs(p := js)) c) < nblk (ty_of (upd_pr p f kh) c)"
      "blocks (upd_pr p f kh) ps (fs(p := js)) \<union> whole L = insert (baddr (pg_of kh p) 0 j, 16) (blocks kh ps fs \<union> whole L)"
      "(baddr (pg_of kh p) 0 j, 16) \<notin> blocks kh ps fs \<union> whole L"
    using doalloc_step [OF H ne L] by (auto simp: NSIZES_def sizes_def)
  let ?S = "{p. p \<in> set ps \<and> ty_of kh p = 0}"
  have p: "p \<in> ?S" "finite ?S" using H(2,4) by simp_all
  have "(\<Sum>c \<in> ?S. length ((fs(p := js)) c)) = length js + (\<Sum>c \<in> ?S - {p}. length (fs c))"
    unfolding sum.remove [OF p(2,1)] by simp
  moreover have "(\<Sum>c \<in> ?S. length (fs c)) = Suc (length js) + (\<Sum>c \<in> ?S - {p}. length (fs c))"
    unfolding sum.remove [OF p(2,1)] using H(3) by simp
  ultimately have cnt: "(\<Sum>c \<in> ?S. length (fs c)) - 1 = (\<Sum>c | c \<in> set ps \<and> ty_of (upd_pr p f kh) c = 0. length ((fs(p := js)) c))"
    unfolding f(3) [rule_format] by simp
  have "heap_free (upd_pr p f kh) v (insert (baddr (pg_of kh p) 0 j, 16) (blocks kh ps fs \<union> whole L)) ((\<Sum>c \<in> ?S. length (fs c)) - 1)"
    unfolding heap_free_def using f(2,4,5) f(6) [symmetric] cnt by blast
  moreover have "kheaproots (upd_pr p f kh) = kheaproots kh" by (simp add: upd_pr_def)
  ultimately show ?thesis using f(1,7) by blast
qed

lemma kmalloc_small:
  assumes F: "heap_free kh v B F" and c: "claimed k v" and need: "F = 0 \<Longrightarrow> k + 2 \<le> npt v \<and> descr_room (Suc r) kh"
  shows "\<exists>p kh' v' k' F'. kmalloc 16 kh v = Ok (p, kh', v') \<and> heap_free kh' v' (insert (p, 16) B) F' \<and> (p, 16) \<notin> B
    \<and> claimed k' v' \<and> frame_steps v v'
    \<and> (if F = 0 then F' = 255 \<and> k' \<le> k + 2 \<and> descr_step kh kh' else F' = F - 1 \<and> k' = k \<and> kheaproots kh' = kheaproots kh)"
proof -
  obtain prs fls L where H: "heap_rep kh v prs fls" and ne: "\<forall>p \<in> set prs. length (fls p) < nblk (ty_of kh p)" and L: "large kh v prs L"
      and B: "B = blocks kh prs fls \<union> whole L" and cnt: "F = (\<Sum>p | p \<in> set prs \<and> ty_of kh p = 0. length (fls p))"
    using F unfolding heap_free_def by blast
  note D = heap_repD [OF H]
  have ty: "blocktype 16 = Ok 0" "(0 :: nat) < NSIZES" by (simp_all add: blocktype_def NSIZES_def sizes_def upt_rec)
  let ?ps = "filter (\<lambda>a. ty_of kh a = 0) prs"
  have sub: "kmalloc 16 kh v = subpage_kmalloc 16 kh v" by (simp add: kmalloc_def LARGEST_SUBPAGE_SIZE_def)
  have fp: "find_page 0 (sizebases kh ! 0) kh = Some (Ok (case find (\<lambda>a. nfree (prefs kh a) > 0) ?ps of None \<Rightarrow> NULL | Some a \<Rightarrow> a))"
    by (rule find_page_ok [OF D(7) [OF ty(2)]]) simp
  have fr: "nfree (prefs kh a) > 0 \<longleftrightarrow> fls a \<noteq> []" if "a \<in> set prs" for a
    using D(8) [OF that] by (auto simp: page_rep_def word_less_nat_alt)
  show ?thesis
  proof (cases "find (\<lambda>a. nfree (prefs kh a) > 0) ?ps")
    case (Some p)
    then have p: "p \<in> set prs" "ty_of kh p = 0" "nfree (prefs kh p) > 0" by (auto simp: find_Some_iff dest!: nth_mem)
    then have "p \<noteq> NULL" using hlist_no_NULL [OF D(6)] by auto
    then have run: "kmalloc 16 kh v = doalloc p kh v" using fp Some ty(1) sub by (simp add: subpage_kmalloc_def)
    obtain j js where j: "fls p = j # js" using fr [OF p(1)] p(3) by (cases "fls p") auto
    have "length (fls p) \<le> F" unfolding cnt using p(1,2) by (intro member_le_sum) auto
    then have "F \<noteq> 0" using j by auto
    moreover obtain a kh' where "doalloc p kh v = Ok (a, kh', v)" "kheaproots kh' = kheaproots kh"
        "heap_free kh' v (insert (a, 16) B) (F - 1)" "(a, 16) \<notin> B"
      using doalloc_small [OF H p(1) j p(2) _ L] ne unfolding B [symmetric] cnt [symmetric] by auto
    ultimately show ?thesis using run c by auto
  next
    case None
    then have "\<forall>a \<in> set prs. ty_of kh a = 0 \<longrightarrow> fls a = []" using fr by (auto simp: find_None_iff)
    then have F0: "F = 0" unfolding cnt by simp
    have room: "heap_room kh v" using room_claimed [OF D(1) c] need [OF F0] by blast
    obtain pr kh1 v1 where N: "new_block_page 0 kh v = Ok (pr, kh1, v1)" "pr \<noteq> NULL" "pr \<notin> set prs"
        "heap_rep kh1 v1 (pr # prs) (fls(pr := rev [0..<nblk 0]))" "ty_of kh1 pr = 0" "pg_of kh1 pr \<notin> kpages v"
        "\<forall>a \<in> set prs. prefs kh1 a = prefs kh a" "kpages v \<subseteq> kpages v1" "rpages (kheaproots kh1) \<inter> kpages v \<subseteq> rpages (kheaproots kh)"
      using new_block_page_ok [OF H ty(2) room] by blast
    let ?fls = "fls(pr := rev [0..<nblk 0])"
    have run: "kmalloc 16 kh v = doalloc pr kh1 v1" using fp None ty(1) N(1,2) sub by (simp add: subpage_kmalloc_def)
    have bl: "blocks kh1 (pr # prs) ?fls \<union> whole L = B" using blocks_new [OF N(3,5,7)] B by simp
    have L1: "large kh1 v1 (pr # prs) L" using L N(6-9) unfolding large_def by auto
    have ne1: "\<forall>a \<in> set (pr # prs). a \<noteq> pr \<longrightarrow> length (?fls a) < nblk (ty_of kh1 a)" using ne N(7) by auto
    have nb: "nblk 0 = 256" by (simp add: nblk_def sizes_def)
    have "{p. p \<in> set (pr # prs) \<and> ty_of kh1 p = 0} = insert pr {p. p \<in> set prs \<and> ty_of kh p = 0}" using N(5,7) by auto
    then have cnt1: "(\<Sum>p | p \<in> set (pr # prs) \<and> ty_of kh1 p = 0. length (?fls p)) = 256 + (\<Sum>p | p \<in> set prs \<and> ty_of kh p = 0. length (?fls p))"
      using N(3) nb by simp
    also have "(\<Sum>p | p \<in> set prs \<and> ty_of kh p = 0. length (?fls p)) = F" unfolding cnt using N(3) by (intro sum.cong) auto
    finally have cnt1: "(\<Sum>p | p \<in> set (pr # prs) \<and> ty_of kh1 p = 0. length (?fls p)) = 256" using F0 by simp
    obtain j js where j: "?fls pr = j # js" using nb by (cases "rev [0..<nblk 0]") auto
    obtain a kh' where a: "doalloc pr kh1 v1 = Ok (a, kh', v1)" "kheaproots kh' = kheaproots kh1"
        "heap_free kh' v1 (insert (a, 16) B) 255" "(a, 16) \<notin> B"
      using doalloc_small [OF N(4) _ j N(5) ne1 L1] unfolding bl cnt1 by auto
    obtain k' where "k' \<le> k + 2" "claimed k' v1" "frame_steps v v1" "descr_step kh kh1"
      using new_block_page_cost [OF D(1) c _ N(1,2)] need [OF F0] by blast
    then show ?thesis using run a F0 by (auto simp: descr_step_def)
  qed
qed

section \<open>The allocations of the hash index\<close>

text \<open>
  After \<open>n\<close> cells: they are distinct new blocks; of the pages of cells that had to be fetched, each with
  at most one page of descriptors, all but the last are used up.
\<close>

definition cells_inv :: "vm \<Rightarrow> (vaddr \<times> nat) set \<Rightarrow> (nat \<Rightarrow> ptr) \<Rightarrow> nat \<Rightarrow> kheap \<times> vm \<Rightarrow> bool" where
  "cells_inv v0 B al n = (\<lambda>(kh, v). \<exists>k F a. heap_free kh v (B \<union> (\<lambda>i. (al i, 16)) ` {..<n}) F \<and> claimed k v \<and> frame_steps v0 v
     \<and> inj_on al {..<n} \<and> a \<le> 2 \<and> k \<le> 2 + 2 * a \<and> 256 * a \<le> n + F \<and> descr_room (2 - a) kh)"

lemma cells_step:
  assumes I: "cells_inv v0 B al n (kh, v)" and n: "n < 512" "6 \<le> npt v0"
  shows "\<exists>p kh' v'. kmalloc 16 kh v = Ok (p, kh', v') \<and> cells_inv v0 B (al(n := p)) (Suc n) (kh', v')"
proof -
  let ?B = "B \<union> (\<lambda>i. (al i, 16)) ` {..<n}"
  obtain k F a where A: "heap_free kh v ?B F" "claimed k v" "frame_steps v0 v" "inj_on al {..<n}" "a \<le> 2"
      "k \<le> 2 + 2 * a" "256 * a \<le> n + F" "descr_room (2 - a) kh"
    using I by (auto simp: cells_inv_def)
  have npt: "npt v = npt v0" by (rule frame_steps_fields(1) [OF A(3)])
  have a1: "F = 0 \<Longrightarrow> a \<le> 1" using A(7) n(1) by simp
  have need: "k + 2 \<le> npt v \<and> descr_room (Suc (1 - a)) kh" if "F = 0"
    using a1 [OF that] A(6,8) n(2) npt by (auto simp: Suc_diff_le numeral_2_eq_2)
  obtain p kh' v' k' F' where P: "kmalloc 16 kh v = Ok (p, kh', v')" "heap_free kh' v' (insert (p, 16) ?B) F'" "(p, 16) \<notin> ?B"
      "claimed k' v'" "frame_steps v v'"
      "if F = 0 then F' = 255 \<and> k' \<le> k + 2 \<and> descr_step kh kh' else F' = F - 1 \<and> k' = k \<and> kheaproots kh' = kheaproots kh"
    using kmalloc_small [OF A(1,2) need] by blast
  let ?al = "al(n := p)"
  have B': "B \<union> (\<lambda>i. (?al i, 16)) ` {..<Suc n} = insert (p, 16) ?B" by (auto simp: lessThan_Suc)
  have inj: "inj_on ?al {..<Suc n}" using A(4) P(3) by (auto simp: lessThan_Suc inj_on_def)
  have fs: "frame_steps v0 v'" by (rule frame_steps_trans [OF A(3) P(5)])
  have "\<exists>a'. a' \<le> 2 \<and> k' \<le> 2 + 2 * a' \<and> 256 * a' \<le> Suc n + F' \<and> descr_room (2 - a') kh'"
  proof (cases "F = 0")
    case True
    then have "descr_room (1 - a) kh'" using descr_room_step need P(6) by auto
    then show ?thesis using True a1 A(6,7) P(6) by (intro exI [of _ "Suc a"]) (auto simp: numeral_2_eq_2)
  next
    case False
    then show ?thesis using A(5-8) P(6) by (intro exI [of _ a]) (auto simp: descr_room_def)
  qed
  then show ?thesis unfolding cells_inv_def using P(1,2,4) B' inj fs by auto
qed

lemma cells_run:
  assumes "cells_inv v0 B al0 0 (kh, v)" "n \<le> 512" "6 \<le> npt v0"
  shows "\<exists>S al. S 0 = (kh, v) \<and> (\<forall>j < n. heap_alloc 16 (S j) = Ok (al j, S (Suc j))) \<and> cells_inv v0 B al n (S n)"
  using assms(2)
proof (induction n)
  case 0
  then show ?case using assms(1) by (intro exI [of _ "\<lambda>_. (kh, v)"]) auto
next
  case (Suc n)
  then obtain S al where IH: "S 0 = (kh, v)" "\<And>j. j < n \<Longrightarrow> heap_alloc 16 (S j) = Ok (al j, S (Suc j))" "cells_inv v0 B al n (S n)"
    by auto
  obtain kh1 v1 where Sn: "S n = (kh1, v1)" by (cases "S n")
  obtain p kh' v' where P: "kmalloc 16 kh1 v1 = Ok (p, kh', v')" "cells_inv v0 B (al(n := p)) (Suc n) (kh', v')"
    using cells_step [of v0 B al n kh1 v1] IH(3) Sn Suc.prems assms(3) by auto
  show ?case
    using IH P(1) P(2) [unfolded fun_upd_def] Sn by (intro exI [of _ "S(Suc n := (kh', v'))"] exI [of _ "al(n := p)"]) (auto simp: heap_alloc_def less_Suc_eq)
qed

text \<open>The array of the index fits a page when there are at most 512 frames.\<close>

lemma table_size: "n \<le> 131072 \<Longrightarrow> unat (4 * word_of_int (2 * int n) :: 32 word) = 8 * n"
  using unat_of_nat_32 [of "8 * n"] by simp

lemma hash_allocs:
  assumes H: "heap_ord kh v B" and c: "claimed 0 v" and r: "descr_room 3 kh" and n: "6 \<le> npt v" "npt v \<le> 512"
  shows "\<exists>ht kh' v' k B'. hashtable_init (int (npt v)) heap_alloc h (kh, v) = Ok (ht, kh', v') \<and> ht_inv ht (npt v)
    \<and> ht_lookup ht = Map.empty \<and> heap_ord kh' v' B' \<and> B \<subseteq> B' \<and> claimed k v' \<and> k \<le> 6 \<and> frame_steps v v'"
proof -
  let ?n = "npt v" and ?sz = "4 * word_of_int (2 * int (npt v)) :: 32 word"
  have sz: "unat ?sz \<le> 4096" using table_size [of ?n] n(2) by simp
  have inv: "kvm_inv v" using H by (auto simp: heap_ord_def dest: heap_repD(1))
  have "heap_room kh v" using room_claimed [OF inv c _, of 2 kh] r n(1) by (simp add: numeral_3_eq_3 numeral_2_eq_2)
  from kmalloc_gives [OF H sz this]
  obtain tbl m kh1 v1 where T: "kmalloc ?sz kh v = Ok (tbl, kh1, v1)" "heap_ord kh1 v1 (insert (tbl, m) B)" "tbl \<noteq> NULL"
    unfolding gives_block_def by blast
  let ?B = "insert (tbl, m) B"
  obtain k1 where k1: "k1 \<le> 2" "claimed k1 v1" "frame_steps v v1" "descr_step kh kh1"
    using kmalloc_cost [OF inv c _ T(1,3) sz] n(1) by (auto simp: numeral_2_eq_2)
  obtain F where "heap_free kh1 v1 ?B F" using T(2) heap_free_ord by blast
  moreover have "descr_room 2 kh1" using descr_room_step [OF _ k1(4), of 2] r by (simp add: numeral_3_eq_3 numeral_2_eq_2)
  ultimately have "cells_inv v ?B (\<lambda>_. 0) 0 (kh1, v1)"
    unfolding cells_inv_def prod.case using k1
    by - (rule exI [of _ k1], rule exI [of _ F], rule exI [of _ 0], simp)
  from cells_run [OF this n(2,1)] obtain S al where S: "S 0 = (kh1, v1)" "\<And>j. j < ?n \<Longrightarrow> heap_alloc 16 (S j) = Ok (al j, S (Suc j))"
      "cells_inv v ?B al ?n (S ?n)"
    by blast
  obtain kh' v' where Sn: "S ?n = (kh', v')" by (cases "S ?n")
  let ?B' = "?B \<union> (\<lambda>i. (al i, 16)) ` {..<?n}"
  obtain k F a where A: "heap_free kh' v' ?B' F" "claimed k v'" "frame_steps v v'" "inj_on al {..<?n}" "a \<le> 2" "k \<le> 2 + 2 * a"
    using S(3) unfolding Sn cells_inv_def by auto
  have ks: "kseg0_ptr (al j)" if "j < ?n" for j using heap_block_kseg0 [OF A(1), of "al j" 16] that by auto
  have tb: "heap_alloc ?sz (kh, v) = Ok (tbl, S 0)" using T(1) S(1) by (simp add: heap_alloc_def)
  have n0: "0 < int ?n" "nat (int ?n) = ?n" using n(1) by simp_all
  obtain ht where ht: "hashtable_init (int ?n) heap_alloc h (kh, v) = Ok (ht, kh', v')" "ht_inv ht ?n" "ht_lookup ht = Map.empty"
    using hashtable_init_correct [where km = heap_alloc and n = "int ?n" and S = S and alloc = al and h = h, OF n0(1) tb T(3)]
      S(2) A(4) ks Sn by (auto simp: n0(2))
  have "k \<le> 6" using A(5,6) by simp
  moreover have "heap_ord kh' v' ?B'" using A(1) heap_free_ord by blast
  ultimately show ?thesis using ht A(2,3) by blast
qed

section \<open>An array of several pages\<close>

lemma scan_free_fresh:
  assumes sh: "pt_shape s" and c: "claimed 0 s" and n: "0 < n" "n \<le> npt s"
  shows "scan_free (int n) 0 (- 1) s = Ok (0, Some (int n - 1))"
proof -
  note D = pt_shapeD [OF sh]
  have e: "run_free (ents s ! i)" "\<not> valid_entry (ctrl (ents s ! i)) (page (ents s ! i))" if "i < npt s" for i
    using c that by (simp_all add: claimed_def run_free_def valid_entry_def)
  have "scan_free (int n) (int i) (if i = 0 then - 1 else 0) s = Ok (0, Some (int n - 1))" if "i < n" for i
    using that
  proof (induction "n - i" arbitrary: i)
    case (Suc d)
    then have i: "i < npt s" "int i < nent s" "get_entry (int i) s = Ok (ents s ! i)" "prev_in_use (int i) s = Ok (i = 0)"
      using n(2) D(2,3) e(2) [of "i - 1"] prev_in_use_nat [of i s] by auto
    show ?case
    proof (cases "Suc i = n")
      case True
      then show ?thesis using i e(1) [OF i(1)] by (subst scan_free.simps) (auto simp: Let_def)
    next
      case False
      then have "scan_free (int n) (int (Suc i)) 0 s = Ok (0, Some (int n - 1))" using Suc.hyps(1) [of "Suc i"] Suc by simp
      then show ?thesis using i e(1) [OF i(1)] False Suc.prems by (subst scan_free.simps) (auto simp: Let_def add.commute)
    qed
  qed simp
  from this [of 0] n(1) show ?thesis by simp
qed

lemma large_table_fails:
  assumes inv: "kvm_inv v" and c: "claimed 0 v" and n: "512 < npt v" "npt v \<le> 131072"
  shows "hashtable_init (int (npt v)) heap_alloc h (kh, v) = Fail KAssert"
proof -
  let ?sz = "4 * word_of_int (2 * int (npt v)) :: 32 word"
  define m where "m = (8 * npt v + 4095) div 4096"
  have m: "2 \<le> m" "m \<le> npt v" using n by (simp_all add: m_def)
  have sz: "unat ?sz = 8 * npt v" by (rule table_size [OF n(2)])
  then have "unat (?sz + (PAGE_SIZE - 1)) = 8 * npt v + 4095" using n(2) unat_plus_nat [of ?sz 4095] by (simp add: PAGE_SIZE_def)
  then have "unat ((?sz + PAGE_SIZE - 1) div PAGE_SIZE) = m"
    by (simp add: unat_div add_diff_eq m_def) (simp add: PAGE_SIZE_def)
  then have "(?sz + PAGE_SIZE - 1) div PAGE_SIZE = of_nat m" by (metis of_nat_unat ucast_id)
  moreover have "sint (of_nat m :: 32 word) = int m" using m(2) n(2) by (simp add: signed_of_nat signed_take_bit_int_eq_self)
  ultimately have np: "sint ((?sz + PAGE_SIZE - 1) div PAGE_SIZE) = int m" by simp
  have sh: "pt_shape v" "pt_active v" using inv by (simp_all add: kvm_inv_def)
  have "get_contiguous_pages (int m) v = Fail KAssert"
    using contiguous_run_fails [OF sh(1) _ _ scan_free_fresh [OF sh(1) c _ m(2)]] m pt_shapeD(2) [OF sh(1)] by simp
  then have "alloc_kpages ((?sz + PAGE_SIZE - 1) div PAGE_SIZE) v = Fail KAssert" using sh(2) np by (simp add: alloc_kpages_def)
  moreover have "LARGEST_SUBPAGE_SIZE \<le> ?sz" using n(1) sz by (simp add: LARGEST_SUBPAGE_SIZE_def word_le_nat_alt)
  ultimately have "heap_alloc ?sz (kh, v) = Fail KAssert" by (simp add: heap_alloc_def kmalloc_def Let_def)
  then show ?thesis by (simp add: hashtable_init_def Let_def)
qed

section \<open>Start-up\<close>

text \<open>
  Memory large enough for what is stolen before the page table is active and for six frames more, and
  small enough for the direct-mapped segment.
\<close>

definition boot_first :: "boot_env \<Rightarrow> vm \<Rightarrow> nat" where
  "boot_first b s = unat (firstpaddr s) + 4096 * (unat (be_pages0 b) + unat (be_pages1 b) + unat (be_pages2 b))"

definition boot_frames :: "boot_env \<Rightarrow> vm \<Rightarrow> nat" where
  "boot_frames b s = (unat (be_ramsize b) - boot_first b s) div 4096 - 1"

definition boot_fits :: "boot_env \<Rightarrow> vm \<Rightarrow> bool" where
  "boot_fits b s \<longleftrightarrow>
     lastpaddr s = be_ramsize b \<and> unat (be_ramsize b) \<le> 0x20000000 \<and> 0 < unat (firstpaddr s) \<and> unat (firstpaddr s) mod 4096 = 0 \<and>
     boot_first b s + 28672 \<le> unat (be_ramsize b) \<and> 0 < unat (be_pages1 b)"

lemma steal_ok:
  fixes s :: vm
  assumes "unat (firstpaddr s) + 4096 * unat n \<le> unat (lastpaddr s)" "unat (lastpaddr s) \<le> 0x20000000"
  shows "ram_stealmem n s = (firstpaddr s, s\<lparr>firstpaddr := firstpaddr s + n * PAGE_SIZE\<rparr>)"
    and "unat (firstpaddr s + n * PAGE_SIZE) = unat (firstpaddr s) + 4096 * unat n"
proof -
  have e: "firstpaddr s + n * PAGE_SIZE = firstpaddr s + of_nat (4096 * unat n)"
    by (simp add: PAGE_SIZE_def mult.commute)
  show u: "unat (firstpaddr s + n * PAGE_SIZE) = unat (firstpaddr s) + 4096 * unat n"
    unfolding e using assms by (subst unat_plus_nat) auto
  have "\<not> firstpaddr s + n * PAGE_SIZE > lastpaddr s" using assms u by (simp add: word_less_nat_alt)
  then show "ram_stealmem n s = (firstpaddr s, s\<lparr>firstpaddr := firstpaddr s + n * PAGE_SIZE\<rparr>)"
    by (simp add: ram_stealmem_def Let_def)
qed

lemma pt_init_ok:
  fixes s :: vm
  assumes B: "lastpaddr s = r" "unat r \<le> 0x20000000" "0 < unat (firstpaddr s)" "first + 28672 \<le> unat r" "0 < unat p1"
    and first: "first = unat (firstpaddr s) + 4096 * (unat p1 + unat p2)"
  shows "\<exists>m n. pt_init r p1 p2 junk s = Ok (s\<lparr>firstpaddr := of_nat first, pt_active := True, page_table :=
         \<lparr>entries = map (\<lambda>i. (junk i)\<lparr>ctrl := 0\<rparr>) [0..<m], n_entry = int n,
          first_free_paddr = of_nat first, contiguous = replicate m (- 1)\<rparr>\<rparr>)
    \<and> n = (unat r - first) div 4096 - 1 \<and> 6 \<le> n \<and> n < m"
proof -
  define s1 where "s1 = s\<lparr>firstpaddr := firstpaddr s + p1 * PAGE_SIZE\<rparr>"
  define s2 where "s2 = s1\<lparr>firstpaddr := firstpaddr s1 + p2 * PAGE_SIZE\<rparr>"
  have A0: "ram_stealmem 0 s = (firstpaddr s, s)"
    using steal_ok(1) [of s 0] B(1,2,4) by (simp add: first)
  have A1: "ram_stealmem p1 s = (firstpaddr s, s1)" "unat (firstpaddr s1) = unat (firstpaddr s) + 4096 * unat p1"
    using steal_ok [of s p1] B by (simp_all add: s1_def first)
  have A2: "ram_stealmem p2 s1 = (firstpaddr s1, s2)" "unat (firstpaddr s2) = first"
    using steal_ok [of s1 p2] B A1(2) by (simp_all add: s2_def s1_def first)
  have A3: "ram_stealmem 0 s2 = (firstpaddr s2, s2)"
    using steal_ok(1) [of s2 0] B A2(2) by (simp add: s2_def s1_def)
  have nz: "firstpaddr s \<noteq> 0" "firstpaddr s1 \<noteq> 0" using B(3) A1(2) by (auto simp: unat_eq_zero [symmetric] simp del: unat_eq_zero)
  have w: "x = of_nat (unat x)" for x :: "32 word" by simp
  have f2: "firstpaddr s2 = of_nat first" using w [of "firstpaddr s2"] unfolding A2(2) .
  define m where "m = unat ((r - firstpaddr s) div PAGE_SIZE)"
  define n where "n = (unat r - first) div 4096 - 1"
  have m: "m = (unat r - unat (firstpaddr s)) div 4096"
    using B by (simp add: m_def unat_div_page unat_sub word_le_nat_alt first)
  have d: "unat ((r - firstpaddr s2) div PAGE_SIZE) = Suc n"
    using B A2(2) by (simp add: unat_div_page unat_sub word_le_nat_alt n_def)
  have "n < 2 ^ 20" using B(2) by (simp add: n_def)
  have "(r - firstpaddr s2) div PAGE_SIZE = of_nat (Suc n)" using w [of "(r - firstpaddr s2) div PAGE_SIZE"] unfolding d .
  then have "(r - firstpaddr s2) div PAGE_SIZE - 1 = of_nat n" by simp
  then have ne: "sint ((r - firstpaddr s2) div PAGE_SIZE - 1) = int n"
    using \<open>n < 2 ^ 20\<close> by (simp add: signed_of_nat signed_take_bit_int_eq_self)
  have n6: "6 \<le> n" using B(4) by (simp add: n_def)
  moreover have "n < m" using B(4) n6 by (simp add: n_def m first)
  moreover have "pt_init r p1 p2 junk s = Ok (s2\<lparr>page_table :=
         \<lparr>entries = map (\<lambda>i. (junk i)\<lparr>ctrl := 0\<rparr>) [0..<m], n_entry = int n,
          first_free_paddr = of_nat first, contiguous = replicate m (- 1)\<rparr>, pt_active := True\<rparr>)"
    using A0 A1(1) A2(1) A3 nz ne f2 by (simp add: pt_init_def Let_def m_def)
  moreover have "s2 = s\<lparr>firstpaddr := of_nat first\<rparr>" using f2 by (simp add: s2_def s1_def)
  ultimately show ?thesis by (intro exI [of _ m] exI [of _ n]) (auto simp: n_def)
qed

text \<open>Swap allocations that succeed, and a working disk of at least 9 MB.\<close>

definition boot_swap :: "boot_env \<Rightarrow> lhd_softc \<Rightarrow> bool" where
  "boot_swap b dev \<longleftrightarrow>
     inj_on (be_swap_alloc b) {..2308} \<and> (\<forall>k \<le> 2308. be_swap_alloc b k \<noteq> NULL) \<and> be_disk b = Inr dev \<and> lhd_wf dev \<and>
     18432 \<le> d_blocks dev \<and> below_buf dev (be_swap_alloc b 1) 4096 \<and> 0xa0000000 \<le> unat (lh_buf dev)"

lemma boot_tables_ok:
  assumes fits: "boot_fits b s" "lastIndex s = 0" and sw: "boot_swap b dev" and junk: "\<forall>i. page (be_junk b i) \<noteq> KMALLOC_PAGE"
  shows "\<exists>s1. boot_tables b s = Ok s1 \<and> kvm_inv s1 \<and> npt s1 = boot_frames b s \<and> nent s1 = int (npt s1) \<and> claimed 0 s1
    \<and> swap_inv (k_swap s1) \<and> free_cells (k_swap s1) = 2304 \<and> 6 \<le> npt s1 \<and> npt s1 \<le> 131072"
proof -
  have al: "inj_on (be_swap_alloc b) {..2308}" "\<And>k. k \<le> 2308 \<Longrightarrow> be_swap_alloc b k \<noteq> NULL"
    and dev: "be_disk b = Inr dev" "lhd_wf dev" "18432 \<le> d_blocks dev" "below_buf dev (be_swap_alloc b 1) 4096" "0xa0000000 \<le> unat (lh_buf dev)"
    using sw by (simp_all add: boot_swap_def)
  obtain sf where SW: "swap_init (be_swap_alloc b) (be_disk b) (sw_cells (k_swap s)) = Ok (Inr sf)" "swap_inv sf"
      "free_cells sf = 2304" "sw_v sf = dev"
    using swap_init_spec [OF al dev(2,3,4)] dev(1) by auto
  define first where "first = boot_first b s"
  have F: "lastpaddr s = be_ramsize b" "unat (be_ramsize b) \<le> 0x20000000" "0 < unat (firstpaddr s)" "unat (firstpaddr s) mod 4096 = 0"
      "first + 28672 \<le> unat (be_ramsize b)" "0 < unat (be_pages1 b)"
    using fits(1) by (simp_all add: boot_fits_def first_def)
  define s0 where "s0 = s\<lparr>k_swap := sf, firstpaddr := firstpaddr s + be_pages0 b * PAGE_SIZE\<rparr>"
  have S0: "ram_stealmem (be_pages0 b) (s\<lparr>k_swap := sf\<rparr>) = (firstpaddr s, s0)" "unat (firstpaddr s0) = unat (firstpaddr s) + 4096 * unat (be_pages0 b)"
    using steal_ok [of "s\<lparr>k_swap := sf\<rparr>" "be_pages0 b"] F by (simp_all add: s0_def first_def boot_first_def)
  have f0: "first = unat (firstpaddr s0) + 4096 * (unat (be_pages1 b) + unat (be_pages2 b))"
    using S0(2) by (simp add: first_def boot_first_def)
  have l0: "lastpaddr s0 = be_ramsize b" and p0: "0 < unat (firstpaddr s0)" using F(1,3) S0(2) by (simp_all add: s0_def)
  obtain m n where P: "pt_init (be_ramsize b) (be_pages1 b) (be_pages2 b) (be_junk b) s0 = Ok (s0\<lparr>firstpaddr := of_nat first, pt_active := True, page_table :=
         \<lparr>entries = map (\<lambda>i. (be_junk b i)\<lparr>ctrl := 0\<rparr>) [0..<m], n_entry = int n,
          first_free_paddr = of_nat first, contiguous = replicate m (- 1)\<rparr>\<rparr>)"
      "n = (unat (be_ramsize b) - first) div 4096 - 1" "6 \<le> n" "n < m"
    using pt_init_ok [where s = s0 and junk = "be_junk b", OF l0 F(2) p0 F(5,6) f0] by blast
  define s1 where "s1 = s0\<lparr>firstpaddr := of_nat first, pt_active := True, page_table :=
         \<lparr>entries = map (\<lambda>i. (be_junk b i)\<lparr>ctrl := 0\<rparr>) [0..<m], n_entry = int n,
          first_free_paddr = of_nat first, contiguous = replicate m (- 1)\<rparr>, k_mem := be_mem b\<rparr>"
  have run: "boot_tables b s = Ok s1" using SW(1) S0(1) P(1) by (simp add: boot_tables_def s1_def)
  have N: "npt s1 = n" "nent s1 = int n" "ents s1 = map (\<lambda>i. (be_junk b i)\<lparr>ctrl := 0\<rparr>) [0..<m]" "k_swap s1 = sf" "lastIndex s1 = 0"
    using fits(2) by (simp_all add: npt_def s1_def s0_def)
  have f: "unat (of_nat first :: 32 word) = first" using F(2,5) by (intro unat_of_nat_32) simp
  have "n * 4096 \<le> unat (be_ramsize b) - first" using P(2) by (simp add: diff_mult_distrib)
  then have fo: "frames_ok s1" unfolding frames_ok_def N(1,4) using f F f0 S0(2) dev(5) SW(4) by (simp add: s1_def)
  have "pt_shape s1" using P(3,4) N by (simp add: pt_shape_def)
  moreover have "first mod 4096 = 0" using F(4) unfolding first_def boot_first_def by (simp only: mod_mult_self2)
  ultimately have "kvm_inv s1" using fo f P(4) by (simp add: kvm_inv_def N) (simp add: s1_def)
  moreover have "claimed 0 s1" unfolding claimed_def N using junk P(4) by simp
  moreover have "n \<le> 131072" using P(2) F(2) by simp
  ultimately show ?thesis using run N P(2,3) SW(2,3) by (auto simp: boot_frames_def first_def)
qed

lemma htable_upd:
  "heap_ord kh (v\<lparr>htable := h\<rparr>) B = heap_ord kh v B" "kvm_inv (v\<lparr>htable := h\<rparr>) = kvm_inv v"
  by (simp_all add: heap_ord_def heap_rep_def large_def kvm_inv_def kpages_def boot_pages_def held_frame_def npt_def
      frames_ok_def pt_shape_def frame_addr_def)

text \<open>
  (C5) Start-up: on a machine whose memory holds what is stolen before the page table is active and at
  least six frames more, with a working disk of at least 9 MB, a heap in order with three page
  descriptors left and a page table array that reads nowhere as a kernel page, \<open>vm_bootstrap\<close> returns
  if at most 512 frames are managed: page table, hash index, frames, swap file and heap are in
  order, the index is empty, every swap cell is free, and the kernel holds at most the first six
  frames, for the allocations of the index, while every other frame is free. With more than
  512 frames it stops in an assertion, since the array of the index then needs several pages.
\<close>

theorem vm_bootstrap_establishes:
  assumes "boot_fits b s" "lastIndex s = 0" "boot_swap b dev" "\<forall>i. page (be_junk b i) \<noteq> KMALLOC_PAGE"
    and "\<forall>s1. boot_tables b s = Ok s1 \<longrightarrow> heap_ord (be_heap b) s1 B" "descr_room 3 (be_heap b)"
  shows "if boot_frames b s \<le> 512
    then \<exists>kh s' k B'. vm_bootstrap b s = Ok (kh, s') \<and> pt_inv s' \<and> frames_ok s' \<and> swap_inv (k_swap s')
      \<and> free_cells (k_swap s') = 2304 \<and> pt_active s' \<and> npt s' = boot_frames b s \<and> ht_lookup (htable s') = Map.empty
      \<and> k \<le> 6 \<and> (\<forall>p < npt s'. entry_free (ents s' ! p) \<longleftrightarrow> k \<le> p) \<and> heap_inv kh s' B' \<and> B \<subseteq> B'
    else vm_bootstrap b s = Fail KAssert"
proof -
  obtain s1 where T: "boot_tables b s = Ok s1" "kvm_inv s1" "npt s1 = boot_frames b s" "nent s1 = int (npt s1)" "claimed 0 s1"
      "swap_inv (k_swap s1)" "free_cells (k_swap s1) = 2304" "6 \<le> npt s1" "npt s1 \<le> 131072"
    using boot_tables_ok [OF assms(1-4)] by blast
  show ?thesis
  proof (cases "boot_frames b s \<le> 512")
    case True
    have H: "heap_ord (be_heap b) s1 B" using assms(5) T(1) by blast
    obtain ht kh' v' k B' where A: "hashtable_init (int (npt s1)) heap_alloc (ht_mem (htable s1)) (be_heap b, s1) = Ok (ht, kh', v')"
        "ht_inv ht (npt s1)" "ht_lookup ht = Map.empty" "heap_ord kh' v' B'" "B \<subseteq> B'" "claimed k v'" "k \<le> 6" "frame_steps s1 v'"
      using hash_allocs [OF H T(5) assms(6) T(8), where h = "ht_mem (htable s1)"] True unfolding T(3) by blast
    let ?s = "v'\<lparr>htable := ht\<rparr>"
    note fs = frame_steps_fields [OF A(8)]
    have kv: "kvm_inv v'" using A(4) by (auto simp: heap_ord_def dest: heap_repD(1))
    have E: "npt ?s = npt s1" "ents ?s = ents v'" using fs(1) by (simp_all add: npt_def)
    have cl: "if i < k then page (ents v' ! i) = KMALLOC_PAGE \<and> GetValidityBit (ctrl (ents v' ! i))
        else page (ents v' ! i) \<noteq> KMALLOC_PAGE \<and> ctrl (ents v' ! i) = 0" if "i < npt s1" for i
      using A(6) fs(1) that by (simp add: claimed_def)
    have "\<not> user (ents v' ! i)" if "i < npt s1" for i using cl [OF that] by (cases "i < k") (simp_all add: user_def)
    then have U: "users (npt s1) (ents v') = {}" by (auto simp: users_def)
    have "coupled ht (npt ?s) (ents ?s)" unfolding coupled_def E using A(2,3) U by simp
    moreover have "pt_shape ?s" using kv htable_upd(2) [where v = v' and h = ht] by (simp add: kvm_inv_def)
    ultimately have "pt_inv ?s" by (simp add: pt_inv_def)
    moreover have "frames_ok ?s" "pt_active ?s" using kv htable_upd(2) [where v = v' and h = ht] by (simp_all add: kvm_inv_def)
    moreover have "entry_free (ents ?s ! p) \<longleftrightarrow> k \<le> p" if "p < npt ?s" for p
      using cl [of p] that unfolding E by (auto simp: entry_free_def split: if_splits)
    moreover have "vm_bootstrap b s = Ok (kh', ?s)" using T(1,4) A(1) by (simp add: vm_bootstrap_def)
    moreover have "heap_inv kh' ?s B'" using \<open>pt_inv ?s\<close> A(4) htable_upd(1) by (simp add: heap_inv_def)
    moreover have "swap_inv (k_swap ?s)" "free_cells (k_swap ?s) = 2304" "ht_lookup (htable ?s) = Map.empty"
      using T(6,7) fs(4) A(3) by simp_all
    ultimately show ?thesis using True E(1) T(3) A(5,7) by auto
  next
    case False
    then have "hashtable_init (int (npt s1)) heap_alloc (ht_mem (htable s1)) (be_heap b, s1) = Fail KAssert"
      using T(3,9) by (intro large_table_fails [OF T(2,5)]) simp_all
    then show ?thesis using False T(1,4) by (simp add: vm_bootstrap_def)
  qed
qed

text \<open>A machine of 1 MB.\<close>

definition ex_boot :: boot_env where
  "ex_boot = \<lparr>be_swap_alloc = ex_al, be_disk = Inr ex_disk, be_ramsize = 0x100000, be_pages0 = 16, be_pages1 = 2, be_pages2 = 1,
     be_junk = (\<lambda>i. \<lparr>page = 0, pe_pid = 0, ctrl = 7\<rparr>), be_heap = ex_kheap, be_mem = (\<lambda>_. 0)\<rparr>"

theorem vm_bootstrap_establishes_witness:
  "\<exists>kh s' k. vm_bootstrap ex_boot (ex_vm\<lparr>firstpaddr := 0x40000, lastpaddr := 0x100000\<rparr>) = Ok (kh, s') \<and> pt_inv s'
     \<and> swap_inv (k_swap s') \<and> npt s' = 172 \<and> k \<le> 6 \<and> (\<forall>p < npt s'. entry_free (ents s' ! p) \<longleftrightarrow> k \<le> p)"
proof -
  let ?s = "ex_vm\<lparr>firstpaddr := 0x40000, lastpaddr := 0x100000\<rparr>"
  have f: "boot_fits ex_boot ?s" and n: "boot_frames ex_boot ?s = 172" and l: "lastIndex ?s = 0"
    by (simp_all add: boot_fits_def boot_frames_def boot_first_def ex_boot_def ex_vm_def)
  have "0xa0000000 \<le> unat (lh_buf ex_disk)" by (simp add: ex_disk_def ex_lhd_def)
  then have sw: "boot_swap ex_boot ex_disk" using ex_al_ok ex_disk_ok by (simp add: boot_swap_def ex_boot_def)
  have j: "\<forall>i. page (be_junk ex_boot i) \<noteq> KMALLOC_PAGE" by (simp add: ex_boot_def KMALLOC_PAGE_def)
  have h: "\<forall>s1. boot_tables ex_boot ?s = Ok s1 \<longrightarrow> heap_ord (be_heap ex_boot) s1 {}"
    using boot_tables_ok [OF f l sw j] ex_kheap_ord by (auto simp: ex_boot_def)
  have d: "descr_room 3 (be_heap ex_boot)"
    unfolding descr_room_def by (rule exI [of _ 0]) (simp add: ex_boot_def ex_kheap_def)
  show ?thesis using vm_bootstrap_establishes [OF f l sw j h d] n by auto
qed

end
