(* ===== verification/Containers.thy ===== *)
theory Containers
  imports Disk_IO
begin

text \<open>
  Containers of the kernel library: bitmaps for storage management (\<^verbatim>\<open>lib/bitmap.c\<close>) and
  growing arrays of pointers (\<^verbatim>\<open>lib/array.c\<close>, \<^verbatim>\<open>include/array.h\<close>). A bitmap is shown to be a
  set of numbers, an array a list. The answers of \<open>kmalloc\<close> are arguments.
\<close>

unbundle bit_operations_syntax

section \<open>Bitmaps\<close>

record bitmap =
  nbits :: "32 word"
  bm_v :: "byte list"

definition DIVROUNDUP :: "32 word \<Rightarrow> 32 word \<Rightarrow> 32 word" where
  "DIVROUNDUP a b = (a + b - 1) div b"

text \<open>\<open>ok1\<close> and \<open>ok2\<close> say whether the two calls of \<open>kmalloc\<close> succeed.\<close>

definition bitmap_create :: "bool \<Rightarrow> bool \<Rightarrow> 32 word \<Rightarrow> bitmap option kres" where
  "bitmap_create ok1 ok2 n =
     (let words = DIVROUNDUP n 8
      in if \<not> ok1 \<or> \<not> ok2 then Ok None
         else
           let v = replicate (unat words) 0
           in if words > n div 8
              then let ix = words - 1; overbits = n - ix * 8
                   in kassert (n div 8 = words - 1) (kassert (overbits > 0 \<and> overbits < 8)
                        (Ok (Some \<lparr>nbits = n, bm_v = v[unat ix := fold (\<lambda>j w. w OR push_bit j 1) [unat overbits..<8] (v ! unat ix)]\<rparr>)))
              else Ok (Some \<lparr>nbits = n, bm_v = v\<rparr>))"

fun bitmap_scan :: "nat \<Rightarrow> nat \<Rightarrow> bitmap \<Rightarrow> 32 word \<Rightarrow> (int \<times> 32 word \<times> bitmap) kres" where
  "bitmap_scan 0 ix b index = Ok (ENOSPC, index, b)"
| "bitmap_scan (Suc n) ix b index =
     (if length (bm_v b) \<le> ix then Fail OutOfBounds
      else if bm_v b ! ix \<noteq> 0xff
      then (case find (\<lambda>offset. bm_v b ! ix AND push_bit offset 1 = 0) [0..<8] of
              None \<Rightarrow> Fail KAssert
            | Some offset \<Rightarrow>
                let index = of_nat (ix * 8 + offset)
                in kassert (index < nbits b)
                     (Ok (0, index, b\<lparr>bm_v := (bm_v b)[ix := bm_v b ! ix OR push_bit offset 1]\<rparr>)))
      else bitmap_scan n (Suc ix) b index)"

text \<open>\<open>index\<close> is what \<open>*index\<close> holds before the call.\<close>

definition bitmap_alloc :: "bitmap \<Rightarrow> 32 word \<Rightarrow> (int \<times> 32 word \<times> bitmap) kres" where
  "bitmap_alloc b index = bitmap_scan (unat (DIVROUNDUP (nbits b) 8)) 0 b index"

definition bitmap_translate :: "32 word \<Rightarrow> nat \<times> byte" where
  "bitmap_translate bitno = (unat (bitno div 8), push_bit (unat (bitno mod 8)) 1)"

definition bitmap_mark :: "bitmap \<Rightarrow> 32 word \<Rightarrow> bitmap kres" where
  "bitmap_mark b index =
     kassert (index < nbits b)
       (let (ix, mask) = bitmap_translate index
        in if length (bm_v b) \<le> ix then Fail OutOfBounds
           else kassert (bm_v b ! ix AND mask = 0) (Ok (b\<lparr>bm_v := (bm_v b)[ix := bm_v b ! ix OR mask]\<rparr>)))"

definition bitmap_unmark :: "bitmap \<Rightarrow> 32 word \<Rightarrow> bitmap kres" where
  "bitmap_unmark b index =
     kassert (index < nbits b)
       (let (ix, mask) = bitmap_translate index
        in if length (bm_v b) \<le> ix then Fail OutOfBounds
           else kassert (bm_v b ! ix AND mask \<noteq> 0) (Ok (b\<lparr>bm_v := (bm_v b)[ix := bm_v b ! ix AND NOT mask]\<rparr>)))"

definition bitmap_isset :: "bitmap \<Rightarrow> 32 word \<Rightarrow> int kres" where
  "bitmap_isset b index =
     (let (ix, mask) = bitmap_translate index
      in if length (bm_v b) \<le> ix then Fail OutOfBounds else Ok (uint (bm_v b ! ix AND mask)))"

section \<open>Arrays\<close>

record array =
  ar_v :: "ptr list"
  ar_num :: "32 word"
  ar_max :: "32 word"

definition array_init :: array where
  "array_init = \<lparr>ar_v = [], ar_num = 0, ar_max = 0\<rparr>"

definition array_create :: "bool \<Rightarrow> array option" where
  "array_create ok = (if ok then Some array_init else None)"

definition array_cleanup :: "array \<Rightarrow> array kres" where
  "array_cleanup a = kassert (ar_num a = 0) (Ok (a\<lparr>ar_v := []\<rparr>))"

text \<open>The doubling of the capacity, at 32 bits.\<close>

partial_function (option) grow :: "32 word \<Rightarrow> 32 word \<Rightarrow> 32 word option" where
  "grow num newmax =
     (if num > newmax then grow num (if newmax \<noteq> 0 then newmax * 2 else 4) else Some newmax)"

text \<open>
  \<open>alloc n\<close> is the block \<open>kmalloc\<close> gives for \<open>n\<close> bytes, as the pointers it holds. Copying the old
  contents writes outside the block if it is shorter.
\<close>

definition array_preallocate :: "(32 word \<Rightarrow> ptr list option) \<Rightarrow> 32 word \<Rightarrow> array \<Rightarrow> (int \<times> array) kres" where
  "array_preallocate alloc num a =
     (if num > ar_max a
      then (case grow num (ar_max a) of
              None \<Rightarrow> Fail Hang
            | Some newmax \<Rightarrow>
                (case alloc (newmax * 4) of
                   None \<Rightarrow> Ok (ENOMEM, a)
                 | Some p \<Rightarrow>
                     if length p < unat (ar_num a) \<or> length (ar_v a) < unat (ar_num a) then Fail OutOfBounds
                     else Ok (0, a\<lparr>ar_v := take (unat (ar_num a)) (ar_v a) @ drop (unat (ar_num a)) p, ar_max := newmax\<rparr>)))
      else Ok (0, a))"

definition array_setsize :: "(32 word \<Rightarrow> ptr list option) \<Rightarrow> 32 word \<Rightarrow> array \<Rightarrow> (int \<times> array) kres" where
  "array_setsize alloc num a =
     kbind (array_preallocate alloc num a) (\<lambda>(result, a).
       if result \<noteq> 0 then Ok (result, a) else Ok (0, a\<lparr>ar_num := num\<rparr>))"

definition array_remove :: "32 word \<Rightarrow> array \<Rightarrow> array kres" where
  "array_remove index a =
     kassert (ar_num a \<le> ar_max a) (kassert (index < ar_num a)
       (let n = unat (ar_num a - (index + 1)); i = unat index
        in if length (ar_v a) < i + 1 + n then Fail OutOfBounds
           else Ok (a\<lparr>ar_v := take i (ar_v a) @ take n (drop (i + 1) (ar_v a)) @ drop (i + n) (ar_v a), ar_num := ar_num a - 1\<rparr>)))"

definition array_get :: "32 word \<Rightarrow> array \<Rightarrow> ptr kres" where
  "array_get index a =
     kassert (index < ar_num a) (if length (ar_v a) \<le> unat index then Fail OutOfBounds else Ok (ar_v a ! unat index))"

definition array_set :: "32 word \<Rightarrow> ptr \<Rightarrow> array \<Rightarrow> array kres" where
  "array_set index val a =
     kassert (index < ar_num a)
       (if length (ar_v a) \<le> unat index then Fail OutOfBounds else Ok (a\<lparr>ar_v := (ar_v a)[unat index := val]\<rparr>))"

definition array_add :: "(32 word \<Rightarrow> ptr list option) \<Rightarrow> ptr \<Rightarrow> array \<Rightarrow> (int \<times> 32 word \<times> array) kres" where
  "array_add alloc val a =
     (let index = ar_num a
      in kbind (array_setsize alloc (index + 1) a) (\<lambda>(ret, a).
           if ret \<noteq> 0 then Ok (ret, index, a)
           else if length (ar_v a) \<le> unat index then Fail OutOfBounds
           else Ok (0, index, a\<lparr>ar_v := (ar_v a)[unat index := val]\<rparr>)))"

section \<open>A bitmap is a set\<close>

lemma and_mask_bit: "(x :: byte) AND push_bit j 1 = 0 \<longleftrightarrow> \<not> bit x j"
  using and_exp_eq_0_iff_not_bit [of x j] by (simp add: push_bit_of_1)

lemma and_exp_bit: "(x :: byte) AND 2 ^ j = 0 \<longleftrightarrow> \<not> bit x j"
  by (rule and_exp_eq_0_iff_not_bit)

lemma byte_full: "(w :: byte) = 0xff \<longleftrightarrow> (\<forall>j < 8. bit w j)"
proof -
  have "(0xff :: byte) = mask 8" by (simp add: mask_eq_exp_minus_1)
  then show ?thesis by (auto simp: bit_eq_iff bit_simps)
qed

lemma uint_and_mask: "j < 8 \<Longrightarrow> uint ((x :: byte) AND push_bit j 1) = (if bit x j then 2 ^ j else 0)"
proof -
  assume j: "j < 8"
  have "x AND push_bit j 1 = (if bit x j then push_bit j 1 else 0)"
    by (rule bit_word_eqI) (auto simp: bit_simps)
  moreover have "j = 0 \<or> j = 1 \<or> j = 2 \<or> j = 3 \<or> j = 4 \<or> j = 5 \<or> j = 6 \<or> j = 7" using j by linarith
  then have "uint (push_bit j 1 :: byte) = 2 ^ j" by (elim disjE) simp_all
  ultimately show ?thesis by simp
qed

text \<open>The set \<open>M\<close> of the marked numbers below \<open>n\<close>; the bits left over in the last byte are marked.\<close>

definition bitmap_rep :: "bitmap \<Rightarrow> nat \<Rightarrow> nat set \<Rightarrow> bool" where
  "bitmap_rep b n M \<longleftrightarrow>
     unat (nbits b) = n \<and> n + 7 < 2 ^ 32 \<and> length (bm_v b) = (n + 7) div 8 \<and> M \<subseteq> {..<n} \<and>
     (\<forall>i < 8 * length (bm_v b). bit (bm_v b ! (i div 8)) (i mod 8) \<longleftrightarrow> i \<in> M \<or> n \<le> i)"

lemma divroundup8: "unat n + 7 < 2 ^ 32 \<Longrightarrow> unat (DIVROUNDUP n 8) = (unat n + 7) div 8"
  using unat_plus_nat [of n 7] by (simp add: DIVROUNDUP_def unat_div add_diff_eq [symmetric])

lemma roundup8:
  fixes x :: nat
  assumes "0 < x mod 8"
  shows "(x + 7) div 8 = Suc (x div 8)"
proof -
  obtain q r where x: "x = 8 * q + Suc r" "r < 7"
  proof
    show "x = 8 * (x div 8) + Suc (x mod 8 - 1)" using assms mult_div_mod_eq [of 8 x] by simp
    show "x mod 8 - 1 < 7" using assms mod_less_divisor [of 8 x] by arith
  qed
  then have "x + 7 = r + Suc q * 8" "x div 8 = q" by simp_all
  then show ?thesis using x(2) by simp
qed

lemma translate_simps: "bitmap_translate i = (unat i div 8, push_bit (unat i mod 8) 1)"
  by (simp add: bitmap_translate_def unat_div unat_mod_distrib)

lemma bits_update:
  assumes "ix < length v" "j < 8" "i < 8 * length v"
    and "\<And>k. k < 8 \<Longrightarrow> bit (w :: byte) k = (if k = j then x else bit (v ! ix) k)"
  shows "bit (v[ix := w] ! (i div 8)) (i mod 8) = (if i = ix * 8 + j then x else bit (v ! (i div 8)) (i mod 8))"
proof -
  have "i div 8 = ix \<and> i mod 8 = j \<longleftrightarrow> i = ix * 8 + j" using assms(2) by auto
  then show ?thesis using assms(1) assms(4) [of "i mod 8"] by (cases "i div 8 = ix") (auto simp: nth_list_update)
qed

lemma bitmap_set_bit:
  assumes R: "bitmap_rep b n M" and i: "i < n"
  shows "bitmap_rep (b\<lparr>bm_v := (bm_v b)[i div 8 := bm_v b ! (i div 8) OR push_bit (i mod 8) 1]\<rparr>) n (insert i M)"
    and "bitmap_rep (b\<lparr>bm_v := (bm_v b)[i div 8 := bm_v b ! (i div 8) AND NOT (push_bit (i mod 8) 1)]\<rparr>) n (M - {i})"
    and "i div 8 < length (bm_v b)" "bit (bm_v b ! (i div 8)) (i mod 8) \<longleftrightarrow> i \<in> M"
proof -
  show ix: "i div 8 < length (bm_v b)" using R i by (simp add: bitmap_rep_def)
  have i8: "i < 8 * length (bm_v b)" using ix by linarith
  show "bit (bm_v b ! (i div 8)) (i mod 8) \<longleftrightarrow> i \<in> M" using R i i8 by (simp add: bitmap_rep_def)
  have e: "(i div 8) * 8 + i mod 8 = i" by simp
  have up: "bit ((bm_v b)[i div 8 := w] ! (k div 8)) (k mod 8) = (if k = i then x else bit (bm_v b ! (k div 8)) (k mod 8))"
    if "k < 8 * length (bm_v b)" "\<And>k. k < 8 \<Longrightarrow> bit w k = (if k = i mod 8 then x else bit (bm_v b ! (i div 8)) k)" for k w x
    using bits_update [OF ix _ that(1), of "i mod 8" w x] that(2) unfolding e by simp
  show "bitmap_rep (b\<lparr>bm_v := (bm_v b)[i div 8 := bm_v b ! (i div 8) OR push_bit (i mod 8) 1]\<rparr>) n (insert i M)"
    using R i up [where x = True and w = "bm_v b ! (i div 8) OR push_bit (i mod 8) 1"] by (auto simp: bitmap_rep_def bit_simps)
  show "bitmap_rep (b\<lparr>bm_v := (bm_v b)[i div 8 := bm_v b ! (i div 8) AND NOT (push_bit (i mod 8) 1)]\<rparr>) n (M - {i})"
    using R i up [where x = False and w = "bm_v b ! (i div 8) AND NOT (push_bit (i mod 8) 1)"] by (auto simp: bitmap_rep_def bit_simps)
qed

lemma bitmap_mark_rep:
  assumes R: "bitmap_rep b n M"
  shows "if unat i < n \<and> unat i \<notin> M then \<exists>b'. bitmap_mark b i = Ok b' \<and> bitmap_rep b' n (insert (unat i) M)
    else bitmap_mark b i = Fail KAssert"
proof (cases "unat i < n")
  case True
  then show ?thesis using bitmap_set_bit [OF R True] R
    by (auto simp: bitmap_mark_def translate_simps word_less_nat_alt bitmap_rep_def and_exp_bit)
next
  case False
  then show ?thesis using R by (simp add: bitmap_mark_def word_less_nat_alt bitmap_rep_def)
qed

lemma bitmap_unmark_rep:
  assumes R: "bitmap_rep b n M"
  shows "if unat i \<in> M then \<exists>b'. bitmap_unmark b i = Ok b' \<and> bitmap_rep b' n (M - {unat i})
    else bitmap_unmark b i = Fail KAssert"
proof (cases "unat i < n")
  case True
  then show ?thesis using bitmap_set_bit [OF R True] R
    by (auto simp: bitmap_unmark_def translate_simps word_less_nat_alt bitmap_rep_def and_exp_bit)
next
  case False
  then show ?thesis using R by (auto simp: bitmap_unmark_def word_less_nat_alt bitmap_rep_def)
qed

lemma bitmap_isset_rep:
  assumes R: "bitmap_rep b n M"
  shows "bitmap_isset b i =
    (if unat i div 8 < (n + 7) div 8 then Ok (if unat i \<in> M \<or> n \<le> unat i then 2 ^ (unat i mod 8) else 0) else Fail OutOfBounds)"
proof -
  have l: "length (bm_v b) = (n + 7) div 8" using R by (simp add: bitmap_rep_def)
  show ?thesis
  proof (cases "unat i div 8 < (n + 7) div 8")
    case True
    then have "unat i < 8 * length (bm_v b)" using l by linarith
    then have "bit (bm_v b ! (unat i div 8)) (unat i mod 8) \<longleftrightarrow> unat i \<in> M \<or> n \<le> unat i" using R by (simp add: bitmap_rep_def)
    then show ?thesis using True l uint_and_mask [of "unat i mod 8"] by (simp add: bitmap_isset_def translate_simps)
  qed (simp add: bitmap_isset_def translate_simps l)
qed

lemma bitmap_scan_rep:
  assumes R: "bitmap_rep b n M" and k: "ix + k = (n + 7) div 8" and full: "{..<8 * ix} \<inter> {..<n} \<subseteq> M"
  shows "if M = {..<n} then bitmap_scan k ix b index = Ok (ENOSPC, index, b)
    else \<exists>b'. bitmap_scan k ix b index = Ok (0, of_nat (LEAST i. i \<notin> M), b') \<and> bitmap_rep b' n (insert (LEAST i. i \<notin> M) M)"
  using k full
proof (induction k arbitrary: ix)
  case 0
  have "M \<subseteq> {..<n}" using R by (simp add: bitmap_rep_def)
  moreover have "n \<le> 8 * ix" using 0(1) by linarith
  ultimately have "M = {..<n}" using 0(2) by auto
  then show ?case by simp
next
  case (Suc k)
  have l: "length (bm_v b) = (n + 7) div 8" and M: "M \<subseteq> {..<n}" and n32: "n + 7 < 2 ^ 32" and nb: "unat (nbits b) = n"
    using R by (simp_all add: bitmap_rep_def)
  have ix: "ix < length (bm_v b)" using Suc.prems(1) l by simp
  have bt: "bit (bm_v b ! ix) j \<longleftrightarrow> 8 * ix + j \<in> M \<or> n \<le> 8 * ix + j" if "j < 8" for j
  proof -
    have "8 * ix + j < 8 * length (bm_v b)" "(8 * ix + j) div 8 = ix" "(8 * ix + j) mod 8 = j" using ix that by simp_all
    then show ?thesis using R unfolding bitmap_rep_def by metis
  qed
  show ?case
  proof (cases "bm_v b ! ix = 0xff")
    case True
    have "{..<8 * Suc ix} \<inter> {..<n} \<subseteq> M"
    proof
      fix i assume i: "i \<in> {..<8 * Suc ix} \<inter> {..<n}"
      show "i \<in> M"
      proof (cases "i < 8 * ix")
        case False
        then have "i - 8 * ix < 8" "8 * ix + (i - 8 * ix) = i" using i by auto
        then show ?thesis using True bt [of "i - 8 * ix"] i by (simp add: byte_full)
      qed (use Suc.prems(2) i in auto)
    qed
    then have "if M = {..<n} then bitmap_scan k (Suc ix) b index = Ok (ENOSPC, index, b)
      else \<exists>b'. bitmap_scan k (Suc ix) b index = Ok (0, of_nat (LEAST i. i \<notin> M), b') \<and> bitmap_rep b' n (insert (LEAST i. i \<notin> M) M)"
      using Suc.prems(1) by (intro Suc.IH) simp_all
    then show ?thesis using True ix by simp
  next
    case False
    then have "find (\<lambda>j. bm_v b ! ix AND push_bit j 1 = 0) [0..<8] \<noteq> None"
      unfolding and_mask_bit by (auto simp: byte_full find_None_iff)
    then obtain j where j: "find (\<lambda>j. bm_v b ! ix AND push_bit j 1 = 0) [0..<8] = Some j" by blast
    then have J: "j < 8" "\<not> bit (bm_v b ! ix) j" "\<And>u. u < j \<Longrightarrow> bit (bm_v b ! ix) u"
      unfolding and_mask_bit find_Some_iff by (auto simp: less_trans)
    define i where "i = 8 * ix + j"
    have i: "i < n" "i \<notin> M" "ix * 8 + j = i" "i div 8 = ix" "i mod 8 = j" using bt [OF J(1)] J(1,2) by (simp_all add: i_def)
    have "u \<in> M" if "u < i" for u
    proof (cases "u < 8 * ix")
      case False
      then have "u - 8 * ix < j" "8 * ix + (u - 8 * ix) = u" using that by (auto simp: i_def)
      then show ?thesis using J(1,3) bt [of "u - 8 * ix"] i(1) that by auto
    qed (use Suc.prems(2) i(1) that in auto)
    then have least: "(LEAST i. i \<notin> M) = i" using i(2) by (intro Least_equality) (auto simp: not_less [symmetric])
    have "unat (of_nat i :: 32 word) = i" using i(1) n32 by (intro unat_of_nat_32) simp
    then have "(of_nat i :: 32 word) < nbits b" using i(1) nb by (simp add: word_less_nat_alt)
    then have "bitmap_scan (Suc k) ix b index = Ok (0, of_nat i, b\<lparr>bm_v := (bm_v b)[ix := bm_v b ! ix OR push_bit j 1]\<rparr>)"
      using False ix j i(3) by (simp add: Let_def)
    moreover have "M \<noteq> {..<n}" using i by auto
    ultimately show ?thesis using bitmap_set_bit(1) [OF R i(1)] unfolding least i(4,5) by simp
  qed
qed

lemma bitmap_alloc_rep:
  assumes R: "bitmap_rep b n M"
  shows "if M = {..<n} then bitmap_alloc b index = Ok (ENOSPC, index, b)
    else \<exists>b'. bitmap_alloc b index = Ok (0, of_nat (LEAST i. i \<notin> M), b') \<and> bitmap_rep b' n (insert (LEAST i. i \<notin> M) M)"
proof -
  have "unat (DIVROUNDUP (nbits b) 8) = (n + 7) div 8" using R divroundup8 by (simp add: bitmap_rep_def)
  then show ?thesis using bitmap_scan_rep [OF R, of 0] unfolding bitmap_alloc_def by simp
qed

lemma or_masks: "bit (fold (\<lambda>j w. w OR push_bit j 1) js (w :: byte)) i \<longleftrightarrow> bit w i \<or> i \<in> set js \<and> i < 8"
  by (induction js arbitrary: w) (auto simp: bit_simps)

lemma bitmap_create_rep:
  assumes n: "unat n + 7 < 2 ^ 32"
  shows "\<exists>b. bitmap_create True True n = Ok (Some b) \<and> bitmap_rep b (unat n) {}"
proof -
  have w: "unat (DIVROUNDUP n 8) = (unat n + 7) div 8" by (rule divroundup8 [OF n])
  show ?thesis
  proof (cases "unat n mod 8 = 0")
    case True
    then have e: "(unat n + 7) div 8 = unat n div 8" by (auto simp: div_add1_eq [of _ 7])
    have "\<not> DIVROUNDUP n 8 > n div 8" using w e by (simp add: word_less_nat_alt unat_div)
    moreover have "bitmap_rep \<lparr>nbits = n, bm_v = replicate ((unat n + 7) div 8) 0\<rparr> (unat n) {}"
      using n e True by (auto simp: bitmap_rep_def)
    ultimately show ?thesis using w by (simp add: bitmap_create_def Let_def)
  next
    case False
    let ?k = "unat n div 8" and ?r = "unat n mod 8"
    have e: "(unat n + 7) div 8 = Suc ?k" using False by (intro roundup8) simp
    have gt: "DIVROUNDUP n 8 > n div 8" using w e by (simp add: word_less_nat_alt unat_div)
    have ix: "unat (DIVROUNDUP n 8 - 1) = ?k" using w e by (subst unat_minus_one) (auto simp: unat_eq_zero [symmetric] simp del: unat_eq_zero)
    then have d: "n div 8 = DIVROUNDUP n 8 - 1" by (simp add: word_unat_eq_iff unat_div)
    have "n - (DIVROUNDUP n 8 - 1) * 8 = n mod 8"
      unfolding d [symmetric] using minus_div_mult_eq_mod [of n 8] by simp
    then have ob: "unat (n - (DIVROUNDUP n 8 - 1) * 8) = ?r" by (simp add: unat_mod_distrib)
    define v where "v = (replicate (Suc ?k) 0 :: byte list)[?k := fold (\<lambda>j w. w OR push_bit j 1) [?r..<8] 0]"
    have v: "length v = Suc ?k" "v ! ?k = fold (\<lambda>j w. w OR push_bit j 1) [?r..<8] 0" "\<And>u. u < ?k \<Longrightarrow> v ! u = 0"
      by (simp_all add: v_def del: replicate_Suc push_bit_of_1)
    have "bit (v ! (i div 8)) (i mod 8) \<longleftrightarrow> unat n \<le> i" if "i < 8 * Suc ?k" for i
    proof (cases "i div 8 = ?k")
      case True
      then have "i = 8 * ?k + i mod 8" by (metis mult_div_mod_eq)
      moreover have "unat n = 8 * ?k + ?r" by simp
      ultimately have "unat n \<le> i \<longleftrightarrow> ?r \<le> i mod 8" by (metis nat_add_left_cancel_le)
      then show ?thesis using True or_masks [of "[?r..<8]" 0 "i mod 8"] by (simp add: v(2))
    next
      case False
      moreover have "i div 8 < Suc ?k" using that by (intro less_mult_imp_div_less) (simp add: mult.commute)
      ultimately have "i div 8 < ?k" by simp
      then have "i < unat n" by (metis div_le_mono not_less)
      then show ?thesis using v(3) [OF \<open>i div 8 < ?k\<close>] by simp
    qed
    then have "bitmap_rep \<lparr>nbits = n, bm_v = v\<rparr> (unat n) {}" using n e v(1) by (simp add: bitmap_rep_def)
    moreover have "0 < n - (DIVROUNDUP n 8 - 1) * 8" "n - (DIVROUNDUP n 8 - 1) * 8 < 8"
      using ob False by (simp_all add: word_less_nat_alt)
    ultimately show ?thesis
      using gt d ix w ob e by (simp add: bitmap_create_def Let_def v_def del: replicate_Suc)
  qed
qed

text \<open>The contract of an allocator of numbers below a bound.\<close>

locale number_allocator =
  fixes rep :: "'a \<Rightarrow> nat \<Rightarrow> nat set \<Rightarrow> bool" and alloc :: "'a \<Rightarrow> 32 word \<Rightarrow> (int \<times> 32 word \<times> 'a) kres"
    and free :: "'a \<Rightarrow> 32 word \<Rightarrow> 'a kres"
  assumes alloc_some: "rep b n M \<Longrightarrow> M \<noteq> {..<n} \<Longrightarrow>
      \<exists>w b'. alloc b x = Ok (0, w, b') \<and> unat w < n \<and> unat w \<notin> M \<and> rep b' n (insert (unat w) M)"
    and alloc_none: "rep b n {..<n} \<Longrightarrow> alloc b x = Ok (ENOSPC, x, b)"
    and free_some: "rep b n M \<Longrightarrow> unat w \<in> M \<Longrightarrow> \<exists>b'. free b w = Ok b' \<and> rep b' n (M - {unat w})"
begin

lemma alloc_free:
  assumes "rep b n M" "M \<noteq> {..<n}"
  shows "\<exists>w b1 b2. alloc b x = Ok (0, w, b1) \<and> free b1 w = Ok b2 \<and> rep b2 n M"
proof -
  obtain w b1 where 1: "alloc b x = Ok (0, w, b1)" "unat w \<notin> M" "rep b1 n (insert (unat w) M)"
    using alloc_some [OF assms] by blast
  with free_some [OF 1(3), of w] show ?thesis by auto
qed

end

interpretation bm: number_allocator bitmap_rep bitmap_alloc bitmap_unmark
proof unfold_locales
  fix b n M x and w :: "32 word"
  assume R: "bitmap_rep b n M"
  show "\<exists>b'. bitmap_unmark b w = Ok b' \<and> bitmap_rep b' n (M - {unat w})" if "unat w \<in> M"
    using bitmap_unmark_rep [OF R, of w] that by simp
  assume ne: "M \<noteq> {..<n}"
  let ?i = "LEAST i. i \<notin> M"
  have M: "M \<subseteq> {..<n}" "n < 2 ^ 32" using R by (simp_all add: bitmap_rep_def)
  then obtain u where "u < n" "u \<notin> M" using ne by blast
  then have "?i < n" "?i \<notin> M" using Least_le [of "\<lambda>i. i \<notin> M" u] LeastI [of "\<lambda>i. i \<notin> M" u] by auto
  moreover have "unat (of_nat ?i :: 32 word) = ?i" using \<open>?i < n\<close> M(2) by (intro unat_of_nat_32) simp
  ultimately show "\<exists>w b'. bitmap_alloc b x = Ok (0, w, b') \<and> unat w < n \<and> unat w \<notin> M \<and> bitmap_rep b' n (insert (unat w) M)"
    using bitmap_alloc_rep [OF R, of x] ne by (intro exI [of _ "of_nat ?i"]) simp
next
  fix b n and x :: "32 word"
  assume "bitmap_rep b n {..<n}"
  then show "bitmap_alloc b x = Ok (ENOSPC, x, b)" using bitmap_alloc_rep [of b n "{..<n}" x] by simp
qed

text \<open>Sequences of operations, on the bitmap and on the set. An output is a result code and a number.\<close>

datatype bitmap_op = B_alloc | B_mark "32 word" | B_unmark "32 word" | B_isset "32 word"

fun bitmap_do :: "bitmap_op \<Rightarrow> bitmap \<Rightarrow> ((int \<times> 32 word) \<times> bitmap) kres" where
  "bitmap_do B_alloc b = kbind (bitmap_alloc b 0) (\<lambda>(r, i, b). Ok ((r, i), b))"
| "bitmap_do (B_mark i) b = kbind (bitmap_mark b i) (\<lambda>b. Ok ((0, i), b))"
| "bitmap_do (B_unmark i) b = kbind (bitmap_unmark b i) (\<lambda>b. Ok ((0, i), b))"
| "bitmap_do (B_isset i) b = kbind (bitmap_isset b i) (\<lambda>r. Ok ((r, i), b))"

fun set_do :: "nat \<Rightarrow> bitmap_op \<Rightarrow> nat set \<Rightarrow> ((int \<times> 32 word) \<times> nat set) kres" where
  "set_do n B_alloc M =
     (if M = {..<n} then Ok ((ENOSPC, 0), M) else let i = (LEAST i. i \<notin> M) in Ok ((0, of_nat i), insert i M))"
| "set_do n (B_mark i) M = kassert (unat i < n \<and> unat i \<notin> M) (Ok ((0, i), insert (unat i) M))"
| "set_do n (B_unmark i) M = kassert (unat i \<in> M) (Ok ((0, i), M - {unat i}))"
| "set_do n (B_isset i) M =
     (if unat i div 8 < (n + 7) div 8 then Ok ((if unat i \<in> M \<or> n \<le> unat i then 2 ^ (unat i mod 8) else 0, i), M)
      else Fail OutOfBounds)"

fun run_ops :: "('op \<Rightarrow> 's \<Rightarrow> ('o \<times> 's) kres) \<Rightarrow> 'op list \<Rightarrow> 's \<Rightarrow> ('o list \<times> 's) kres" where
  "run_ops f [] s = Ok ([], s)"
| "run_ops f (op # ops) s = kbind (f op s) (\<lambda>(out, s). kbind (run_ops f ops s) (\<lambda>(outs, s). Ok (out # outs, s)))"

text \<open>
  A step by step simulation gives one of whole runs, failures included. The relation may depend on
  the number of operations still to come.
\<close>

lemma run_ops_simulation:
  assumes "\<And>k op s t. R (Suc k) s t \<Longrightarrow> rel_kres (rel_prod (=) (R k)) (f op s) (g op t)" "R (length ops) s t"
  shows "rel_kres (rel_prod (=) (R 0)) (run_ops f ops s) (run_ops g ops t)"
  using assms(2)
proof (induction ops arbitrary: s t)
  case (Cons op ops)
  then have step: "rel_kres (rel_prod (=) (R (length ops))) (f op s) (g op t)" by (intro assms(1)) simp
  show ?case
  proof (cases "f op s")
    case (Ok x)
    then obtain out s' where f: "f op s = Ok (out, s')" by (cases x) auto
    then obtain t' where g: "g op t = Ok (out, t')" "R (length ops) s' t'" using step by (cases "g op t") auto
    show ?thesis using Cons.IH [OF g(2)] f g(1) by (cases "run_ops f ops s'"; cases "run_ops g ops t'") auto
  next
    case (Fail e)
    then show ?thesis using step by (cases "g op t") auto
  qed
qed simp

lemma bitmap_do_sim:
  assumes "bitmap_rep b n M"
  shows "rel_kres (rel_prod (=) (\<lambda>b M. bitmap_rep b n M)) (bitmap_do op b) (set_do n op M)"
proof (cases op)
  case B_alloc
  then show ?thesis using bitmap_alloc_rep [OF assms, of 0] assms by (auto simp: Let_def split: if_splits)
next
  case (B_mark i)
  then show ?thesis using bitmap_mark_rep [OF assms, of i] by (auto split: if_splits)
next
  case (B_unmark i)
  then show ?thesis using bitmap_unmark_rep [OF assms, of i] by (auto split: if_splits)
next
  case (B_isset i)
  then show ?thesis using bitmap_isset_rep [OF assms, of i] assms by auto
qed

text \<open>
  (C33) A bitmap is a set of numbers: from a new bitmap, any sequence of operations gives the results
  of the same operations on a set (allocation takes the least number that is not in the set and
  fails with ENOSPC when there is none), stops in a failed assertion exactly where a number is marked
  twice, unmarked twice or out of range, and otherwise leaves a bitmap that holds the resulting set.
\<close>

theorem bitmap_refines:
  assumes "unat n + 7 < 2 ^ 32"
  shows "\<exists>b. bitmap_create True True n = Ok (Some b)
    \<and> rel_kres (rel_prod (=) (\<lambda>b M. bitmap_rep b (unat n) M)) (run_ops bitmap_do ops b) (run_ops (set_do (unat n)) ops {})"
proof -
  obtain b where "bitmap_create True True n = Ok (Some b)" "bitmap_rep b (unat n) {}"
    using bitmap_create_rep [OF assms] by blast
  then show ?thesis
    using run_ops_simulation [where f = bitmap_do and g = "set_do (unat n)" and R = "\<lambda>_ b M. bitmap_rep b (unat n) M"] bitmap_do_sim
    by blast
qed

theorem bitmap_refines_witness:
  "\<exists>b outs b'. bitmap_create True True 3 = Ok (Some b)
     \<and> run_ops bitmap_do [B_mark 0, B_alloc, B_unmark 0, B_alloc, B_isset 1] b = Ok (outs, b')
     \<and> outs = [(0, 0), (0, 1), (0, 0), (0, 0), (2, 1)]"
proof -
  have l: "(LEAST i. i \<notin> {0 :: nat}) = 1" "(LEAST i. i \<notin> {1 :: nat}) = 0"
    by (auto intro!: Least_equality)
  define ops where "ops = [B_mark 0, B_alloc, B_unmark 0, B_alloc, B_isset 1]"
  have ne: "M \<noteq> {..<n}" if "k < n" "k \<notin> M" for k n :: nat and M using that by blast
  have "{0 :: nat} \<noteq> {..<3}" "{Suc 0} \<noteq> {..<3 :: nat}" using ne [of 2 3 "{0}"] ne [of 2 3 "{Suc 0}"] by simp_all
  moreover have "insert (1 :: nat) {0} - {0} = {1}" by auto
  ultimately have s: "run_ops (set_do 3) ops {} = Ok ([(0, 0), (0, 1), (0, 0), (0, 0), (2, 1)], {0, 1})"
    using l by (simp add: Let_def ops_def)
  obtain b where b: "bitmap_create True True 3 = Ok (Some b)"
      "rel_kres (rel_prod (=) (\<lambda>b M. bitmap_rep b 3 M)) (run_ops bitmap_do ops b) (run_ops (set_do 3) ops {})"
    using bitmap_refines [of 3 ops] by auto
  then show ?thesis unfolding s ops_def [symmetric] by (cases "run_ops bitmap_do ops b") auto
qed

section \<open>An array is a list\<close>

text \<open>The doubling ends for up to \<open>2^31\<close> elements, with a capacity below twice the number asked for.\<close>

lemma grow_ends:
  assumes "unat num \<le> 2 ^ 31"
  shows "\<exists>r. grow num m = Some r \<and> num \<le> r \<and> (m < num \<longrightarrow> unat r < max 5 (2 * unat num))"
proof (induction "unat num - unat m" arbitrary: m rule: less_induct)
  case less
  show ?case
  proof (cases "num > m")
    case True
    let ?m = "if m \<noteq> 0 then m * 2 else 4"
    have lt: "unat m < unat num" using True by (simp add: word_less_nat_alt)
    have u: "unat ?m = (if m = 0 then 4 else 2 * unat m)"
      using lt assms unat_mult_lem [of m 2] by auto
    have "unat num - unat ?m < unat num - unat m" using u lt by (auto simp: unat_eq_zero [symmetric] simp del: unat_eq_zero)
    from less [OF this] obtain r where r: "grow num ?m = Some r" "num \<le> r" "?m < num \<longrightarrow> unat r < max 5 (2 * unat num)" by blast
    have "unat r < max 5 (2 * unat num)"
    proof (cases "?m < num")
      case False
      then have "grow num ?m = Some ?m" by (subst grow.simps) simp
      then show ?thesis using r(1) u lt by auto
    qed (use r(3) in simp)
    then show ?thesis using r(1,2) True by (subst grow.simps) simp
  next
    case False
    then show ?thesis by (subst grow.simps) simp
  qed
qed

definition array_rep :: "array \<Rightarrow> ptr list \<Rightarrow> bool" where
  "array_rep a xs \<longleftrightarrow>
     unat (ar_num a) = length xs \<and> ar_num a \<le> ar_max a \<and> length (ar_v a) = unat (ar_max a) \<and> take (length xs) (ar_v a) = xs"

definition kmalloc_ok :: "(32 word \<Rightarrow> ptr list option) \<Rightarrow> bool" where
  "kmalloc_ok alloc \<longleftrightarrow> (\<forall>n. \<exists>p. alloc n = Some p \<and> length p = unat n div 4)"

lemma array_repD:
  assumes "array_rep a xs"
  shows "length xs \<le> length (ar_v a)" "i < length xs \<Longrightarrow> ar_v a ! i = xs ! i"
  using assms by (auto simp: array_rep_def word_le_nat_alt) (metis nth_take)

lemma array_preallocate_rep:
  assumes R: "array_rep a xs" and al: "kmalloc_ok alloc" and n: "unat num < 2 ^ 29"
  shows "\<exists>a'. array_preallocate alloc num a = Ok (0, a') \<and> array_rep a' xs \<and> num \<le> ar_max a'"
proof (cases "num > ar_max a")
  case True
  obtain r where r: "grow num (ar_max a) = Some r" "num \<le> r" "unat r < max 5 (2 * unat num)"
    using grow_ends [of num "ar_max a"] n True by auto
  obtain p where p: "alloc (r * 4) = Some p" "length p = unat (r * 4) div 4" using al unfolding kmalloc_ok_def by blast
  have "unat (r * 4) = unat r * 4" using r(3) n unat_mult_lem [of r 4] by auto
  then have lp: "length p = unat r" using p(2) by simp
  have le: "length xs \<le> unat r" using R True r(2) by (simp add: array_rep_def word_le_nat_alt word_less_nat_alt)
  let ?a = "a\<lparr>ar_v := take (length xs) (ar_v a) @ drop (length xs) p, ar_max := r\<rparr>"
  have "array_preallocate alloc num a = Ok (0, ?a)"
    using True r(1) p(1) lp le R array_repD(1) [OF R] by (simp add: array_preallocate_def array_rep_def)
  moreover have "array_rep ?a xs" using R lp le array_repD(1) [OF R] by (simp add: array_rep_def word_le_nat_alt)
  ultimately show ?thesis using r(2) by auto
qed (use R in \<open>simp add: array_preallocate_def\<close>)

lemma array_add_rep:
  assumes R: "array_rep a xs" and al: "kmalloc_ok alloc" and n: "Suc (length xs) < 2 ^ 29"
  shows "\<exists>a'. array_add alloc x a = Ok (0, of_nat (length xs), a') \<and> array_rep a' (xs @ [x])"
proof -
  have u: "unat (ar_num a) = length xs" using R by (simp add: array_rep_def)
  then have u1: "unat (ar_num a + 1) = Suc (length xs)" using n unat_plus_nat [of "ar_num a" 1] by simp
  obtain a' where a': "array_preallocate alloc (ar_num a + 1) a = Ok (0, a')" "array_rep a' xs" "ar_num a + 1 \<le> ar_max a'"
    using array_preallocate_rep [OF R al, of "ar_num a + 1"] u1 n by auto
  have l: "length xs < length (ar_v a')" using a'(2,3) u1 by (simp add: array_rep_def word_le_nat_alt)
  let ?a = "a'\<lparr>ar_num := ar_num a + 1, ar_v := (ar_v a')[length xs := x]\<rparr>"
  have "array_add alloc x a = Ok (0, ar_num a, ?a)"
    using a'(1) l u by (simp add: array_add_def array_setsize_def Let_def)
  moreover have "ar_num a = of_nat (length xs)" by (simp flip: u)
  moreover have "array_rep ?a (xs @ [x])"
    using a'(2,3) u1 l by (simp add: array_rep_def take_Suc_conv_app_nth)
  ultimately show ?thesis by auto
qed

lemma array_remove_rep:
  assumes R: "array_rep a xs" and i: "unat i < length xs"
  shows "\<exists>a'. array_remove i a = Ok a' \<and> array_rep a' (take (unat i) xs @ drop (Suc (unat i)) xs)"
proof -
  have u: "unat (ar_num a) = length xs" "ar_num a \<le> ar_max a" using R by (simp_all add: array_rep_def)
  then have lt: "i < ar_num a" using i by (simp add: word_less_nat_alt)
  have i1: "unat (i + 1) = Suc (unat i)" using i u(1) unat_lt_32 [of "ar_num a"] unat_plus_nat [of i 1] by simp
  then have n: "unat (ar_num a - (i + 1)) = length xs - Suc (unat i)" using i u(1) by (subst unat_sub) (simp_all add: word_le_nat_alt)
  have m1: "unat (ar_num a - 1) = length xs - 1" using i u(1) by (subst unat_minus_one) auto
  let ?j = "unat i" and ?v = "ar_v a"
  let ?w = "take ?j ?v @ take (length xs - Suc ?j) (drop (?j + 1) ?v) @ drop (length xs - 1) ?v"
  have j: "?j + (length xs - Suc ?j) = length xs - 1" using i by simp
  have "array_remove i a = Ok (a\<lparr>ar_v := ?w, ar_num := ar_num a - 1\<rparr>)"
    using lt u(2) n array_repD(1) [OF R] i j by (simp add: array_remove_def Let_def)
  moreover have "take ?j ?v = take ?j xs"
    using R i unfolding array_rep_def by (metis less_imp_le take_take min.absorb1)
  moreover have "take (length xs - Suc ?j) (drop (?j + 1) ?v) = drop (Suc ?j) xs"
    using R unfolding array_rep_def by (metis drop_take Suc_eq_plus1)
  ultimately show ?thesis
    using R i m1 array_repD(1) [OF R] by (auto simp: array_rep_def word_le_nat_alt)
qed

datatype array_op = A_add ptr | A_remove "32 word" | A_get "32 word" | A_set "32 word" ptr

fun array_do :: "(32 word \<Rightarrow> ptr list option) \<Rightarrow> array_op \<Rightarrow> array \<Rightarrow> (ptr \<times> array) kres" where
  "array_do alloc (A_add x) a = kbind (array_add alloc x a) (\<lambda>(r, i, a). Ok (if r = 0 then i else of_int r, a))"
| "array_do alloc (A_remove i) a = kbind (array_remove i a) (\<lambda>a. Ok (i, a))"
| "array_do alloc (A_get i) a = kbind (array_get i a) (\<lambda>x. Ok (x, a))"
| "array_do alloc (A_set i x) a = kbind (array_set i x a) (\<lambda>a. Ok (i, a))"

fun list_do :: "array_op \<Rightarrow> ptr list \<Rightarrow> (ptr \<times> ptr list) kres" where
  "list_do (A_add x) xs = Ok (of_nat (length xs), xs @ [x])"
| "list_do (A_remove i) xs = kassert (unat i < length xs) (Ok (i, take (unat i) xs @ drop (Suc (unat i)) xs))"
| "list_do (A_get i) xs = kassert (unat i < length xs) (Ok (xs ! unat i, xs))"
| "list_do (A_set i x) xs = kassert (unat i < length xs) (Ok (i, xs[unat i := x]))"

lemma array_do_sim:
  assumes R: "array_rep a xs" and al: "kmalloc_ok alloc" and n: "Suc (length xs) < 2 ^ 29"
  shows "rel_kres (rel_prod (=) array_rep) (array_do alloc op a) (list_do op xs)"
proof -
  have u: "unat (ar_num a) = length xs" "ar_num a \<le> ar_max a" using R by (simp_all add: array_rep_def)
  note D = array_repD [OF R]
  show ?thesis
  proof (cases op)
    case (A_add x)
    then show ?thesis using array_add_rep [OF R al n, of x] by auto
  next
    case (A_remove i)
    show ?thesis
    proof (cases "unat i < length xs")
      case True
      then show ?thesis using array_remove_rep [OF R True] A_remove by auto
    qed (use A_remove u in \<open>simp add: array_remove_def word_less_nat_alt\<close>)
  next
    case (A_get i)
    then show ?thesis using D u R by (auto simp: array_get_def word_less_nat_alt kassert_def)
  next
    case (A_set i x)
    have "array_rep (a\<lparr>ar_v := (ar_v a)[unat i := x]\<rparr>) (xs[unat i := x])" if "unat i < length xs"
      using R by (auto simp: array_rep_def take_update_swap)
    then show ?thesis using A_set D(1) u by (auto simp: array_set_def word_less_nat_alt kassert_def)
  qed
qed

text \<open>
  (C34) An array is a list: from an empty array, any sequence of additions, removals, reads and
  updates gives the results of the same operations on a list, stops in a failed assertion exactly
  where an index is out of range, never accesses memory outside the array, and leaves an array that
  holds the resulting list, as long as \<open>kmalloc\<close> gives blocks of the size asked for.
\<close>

theorem array_refines:
  assumes "kmalloc_ok alloc" "length ops < 2 ^ 28"
  shows "rel_kres (rel_prod (=) array_rep) (run_ops (array_do alloc) ops array_init) (run_ops list_do ops [])"
proof -
  define R where "R = (\<lambda>k a xs. array_rep a xs \<and> length xs + k < 2 ^ 28)"
  have len: "length ys \<le> Suc (length xs)" if "list_do op xs = Ok (out, ys)" for op xs out ys
    using that by (cases op) auto
  have "rel_kres (rel_prod (=) (R k)) (array_do alloc op a) (list_do op xs)" if r: "R (Suc k) a xs" for k op a xs
  proof -
    have "rel_kres (rel_prod (=) array_rep) (array_do alloc op a) (list_do op xs)"
      using r by (intro array_do_sim [OF _ assms(1)]) (simp_all add: R_def)
    then show ?thesis using len [of op xs] r by (cases "array_do alloc op a"; cases "list_do op xs") (fastforce simp: R_def)+
  qed
  moreover have "R (length ops) array_init []" using assms(2) by (simp add: R_def array_rep_def array_init_def)
  ultimately have "rel_kres (rel_prod (=) (R 0)) (run_ops (array_do alloc) ops array_init) (run_ops list_do ops [])"
    by (rule run_ops_simulation)
  then show ?thesis by (rule kres.rel_mono_strong) (auto simp: R_def)
qed

definition ex_kmalloc :: "32 word \<Rightarrow> ptr list option" where
  "ex_kmalloc n = Some (replicate (unat n div 4) 0xdeadbeef)"

theorem array_refines_witness:
  "\<exists>a. run_ops (array_do ex_kmalloc) [A_add 7, A_add 8, A_add 9, A_remove 0, A_get 1] array_init = Ok ([0, 1, 2, 0, 9], a)
     \<and> array_rep a [8, 9]"
proof -
  define ops where "ops = [A_add 7, A_add 8, A_add 9, A_remove 0, A_get 1]"
  have s: "run_ops list_do ops [] = Ok ([0, 1, 2, 0, 9], [8, 9])" by (simp add: ops_def)
  have "rel_kres (rel_prod (=) array_rep) (run_ops (array_do ex_kmalloc) ops array_init) (run_ops list_do ops [])"
    by (rule array_refines) (simp_all add: kmalloc_ok_def ex_kmalloc_def ops_def)
  then show ?thesis unfolding s ops_def [symmetric] by (cases "run_ops (array_do ex_kmalloc) ops array_init") auto
qed

end
