(* ===== verification/SFS.thy ===== *)
theory SFS
  imports Containers
begin

text \<open>
  The block level of the file system SFS: block I/O with retries, allocation of disk blocks, the map
  from file blocks to disk blocks with its indirect block, truncation, and I/O on files
  (\<^verbatim>\<open>fs/sfs/sfs_balloc.c\<close>, \<^verbatim>\<open>sfs_bmap.c\<close>, \<^verbatim>\<open>sfs_io.c\<close>). The volume lies on the disk of
  \<open>Disk_IO\<close>. The static buffers of the code are areas of kernel memory, their addresses part of
  the state. Only the thread that runs is followed, so the lock of the VFS layer is its depth.
\<close>

unbundle bit_operations_syntax

section \<open>Constants\<close>

definition SFS_MAGIC :: "32 word" where "SFS_MAGIC = 0xabadf001"
definition SFS_BLOCKSIZE :: nat where "SFS_BLOCKSIZE = 512"
definition SFS_NDIRECT :: "32 word" where "SFS_NDIRECT = 15"
definition SFS_NINDIRECT :: "32 word" where "SFS_NINDIRECT = 1"
definition SFS_DBPERIDB :: "32 word" where "SFS_DBPERIDB = 128"
definition SFS_TYPE_INVAL :: "16 word" where "SFS_TYPE_INVAL = 0"
definition SFS_TYPE_FILE :: "16 word" where "SFS_TYPE_FILE = 1"
definition SFS_TYPE_DIR :: "16 word" where "SFS_TYPE_DIR = 2"

lemmas sfs_consts = SFS_BLOCKSIZE_def SFS_NDIRECT_def SFS_NINDIRECT_def SFS_DBPERIDB_def

definition ENAMETOOLONG :: int where "ENAMETOOLONG = 7"
definition ENOTDIR :: int where "ENOTDIR = 17"
definition EISDIR :: int where "EISDIR = 18"
definition EEXIST :: int where "EEXIST = 22"
definition EBUSY :: int where "EBUSY = 27"
definition EFBIG :: int where "EFBIG = 38"

section \<open>State\<close>

type_synonym daddr = "32 word"

record sfs_dinode =
  sfi_size :: "32 word"
  sfi_type :: "16 word"
  sfi_linkcount :: "16 word"
  sfi_direct :: "daddr list"
  sfi_indirect :: daddr

text \<open>A vnode with its reference count.\<close>

record sfs_vnode =
  sv_i :: sfs_dinode
  sv_ino :: "32 word"
  sv_dirty :: bool
  vn_refcount :: nat

text \<open>
  The addresses of the static buffers of \<open>sfs_clearblock\<close>, \<open>sfs_bmap\<close>, \<open>sfs_itrunc\<close>, \<open>sfs_partialio\<close>,
  \<open>sfs_metaio\<close>, \<open>uiomovezeros\<close>, of the directory entries on the stack of \<open>sfs_dir_findname\<close> and of
  \<open>sfs_dir_link\<close> and \<open>sfs_dir_unlink\<close>, of the superblock \<open>sfs_sb\<close> and of the data of the bitmap.
\<close>

record sfs_bufs =
  b_zeros :: vaddr
  b_idbuf :: vaddr
  b_truncbuf :: vaddr
  b_iobuf :: vaddr
  b_metaiobuf :: vaddr
  b_zeros16 :: vaddr
  b_tsd :: vaddr
  b_sd :: vaddr
  b_sb :: vaddr
  b_freemap :: vaddr

text \<open>The volume, the vnodes by address, kernel memory and the lock.\<close>

record sfs_fs =
  sb_nblocks :: "32 word"
  sfs_superdirty :: bool
  sfs_device :: lhd_softc
  sfs_vnodes :: "ptr list"
  sfs_freemap :: bitmap
  sfs_freemapdirty :: bool
  svs :: "ptr \<Rightarrow> sfs_vnode"
  s_mem :: kmem
  s_uc :: ucopy
  s_bufs :: sfs_bufs
  vfs_biglock_depth :: nat

definition upd_sv :: "ptr \<Rightarrow> (sfs_vnode \<Rightarrow> sfs_vnode) \<Rightarrow> sfs_fs \<Rightarrow> sfs_fs" where
  "upd_sv sv f s = s\<lparr>svs := (svs s)(sv := f (svs s sv))\<rparr>"

definition upd_inode :: "ptr \<Rightarrow> (sfs_dinode \<Rightarrow> sfs_dinode) \<Rightarrow> sfs_fs \<Rightarrow> sfs_fs" where
  "upd_inode sv f s = upd_sv sv (\<lambda>v. v\<lparr>sv_i := f (sv_i v), sv_dirty := True\<rparr>) s"

definition vfs_biglock_acquire :: "sfs_fs \<Rightarrow> sfs_fs" where
  "vfs_biglock_acquire s = s\<lparr>vfs_biglock_depth := vfs_biglock_depth s + 1\<rparr>"

definition vfs_biglock_do_i_hold :: "sfs_fs \<Rightarrow> bool" where
  "vfs_biglock_do_i_hold s = (vfs_biglock_depth s > 0)"

definition vfs_biglock_release :: "sfs_fs \<Rightarrow> sfs_fs kres" where
  "vfs_biglock_release s =
     kassert (vfs_biglock_do_i_hold s) (kassert (vfs_biglock_depth s > 0)
       (Ok (s\<lparr>vfs_biglock_depth := vfs_biglock_depth s - 1\<rparr>)))"

section \<open>Blocks\<close>

text \<open>\<open>n\<close> is the number of retries left.\<close>

fun sfs_retry :: "nat \<Rightarrow> uio \<Rightarrow> sfs_fs \<Rightarrow> (int \<times> uio \<times> sfs_fs) kres" where
  "sfs_retry n u s =
     kbind (lhd_io (s_uc s) (sfs_device s) u (s_mem s)) (\<lambda>(result, dev, u, m).
       let s = s\<lparr>sfs_device := dev, s_mem := m\<rparr>
       in if result = EINVAL then Fail (Panic ''sfs: DEVOP_IO returned EINVAL'')
          else if result = EIO
          then (case n of 0 \<Rightarrow> Ok (result, u, s) | Suc n' \<Rightarrow> sfs_retry n' u s)
          else Ok (result, u, s))"

declare sfs_retry.simps [simp del]

definition sfs_rwblock :: "uio \<Rightarrow> sfs_fs \<Rightarrow> (int \<times> uio \<times> sfs_fs) kres" where
  "sfs_rwblock u s = kassert (vfs_biglock_do_i_hold s) (sfs_retry 10 u s)"

definition SFSUIO :: "vaddr \<Rightarrow> daddr \<Rightarrow> uio_rw \<Rightarrow> uio" where
  "SFSUIO p block rw = uio_kinit p SFS_BLOCKSIZE (uint block * int SFS_BLOCKSIZE) rw"

definition sfs_readblock :: "daddr \<Rightarrow> vaddr \<Rightarrow> nat \<Rightarrow> sfs_fs \<Rightarrow> (int \<times> sfs_fs) kres" where
  "sfs_readblock block data len s =
     kassert (len = SFS_BLOCKSIZE) (kbind (sfs_rwblock (SFSUIO data block UIO_READ) s) (\<lambda>(r, u, s). Ok (r, s)))"

definition sfs_writeblock :: "daddr \<Rightarrow> vaddr \<Rightarrow> nat \<Rightarrow> sfs_fs \<Rightarrow> (int \<times> sfs_fs) kres" where
  "sfs_writeblock block data len s =
     kassert (len = SFS_BLOCKSIZE) (kbind (sfs_rwblock (SFSUIO data block UIO_WRITE) s) (\<lambda>(r, u, s). Ok (r, s)))"

definition sfs_clearblock :: "daddr \<Rightarrow> sfs_fs \<Rightarrow> (int \<times> sfs_fs) kres" where
  "sfs_clearblock block s = sfs_writeblock block (b_zeros (s_bufs s)) SFS_BLOCKSIZE s"

text \<open>\<open>diskblock\<close> is what \<open>*diskblock\<close> holds before the call.\<close>

definition sfs_balloc :: "daddr \<Rightarrow> sfs_fs \<Rightarrow> (int \<times> daddr \<times> sfs_fs) kres" where
  "sfs_balloc diskblock s =
     kbind (bitmap_alloc (sfs_freemap s) diskblock) (\<lambda>(result, diskblock, b).
       let s = s\<lparr>sfs_freemap := b\<rparr>
       in if result \<noteq> 0 then Ok (result, diskblock, s)
          else
            let s = s\<lparr>sfs_freemapdirty := True\<rparr>
            in if diskblock \<ge> sb_nblocks s then Fail (Panic ''sfs: balloc: invalid block'')
               else kbind (sfs_clearblock diskblock s) (\<lambda>(result, s).
                      if result \<noteq> 0
                      then kbind (bitmap_unmark (sfs_freemap s) diskblock) (\<lambda>b. Ok (result, diskblock, s\<lparr>sfs_freemap := b\<rparr>))
                      else Ok (result, diskblock, s)))"

definition sfs_bfree :: "daddr \<Rightarrow> sfs_fs \<Rightarrow> sfs_fs kres" where
  "sfs_bfree diskblock s =
     kbind (bitmap_unmark (sfs_freemap s) diskblock) (\<lambda>b. Ok (s\<lparr>sfs_freemap := b, sfs_freemapdirty := True\<rparr>))"

definition sfs_bused :: "daddr \<Rightarrow> sfs_fs \<Rightarrow> int kres" where
  "sfs_bused diskblock s =
     (if diskblock \<ge> sb_nblocks s then Fail (Panic ''sfs: sfs_bused called on out of range block'')
      else bitmap_isset (sfs_freemap s) diskblock)"

section \<open>The block map\<close>

text \<open>\<open>Hand back the block\<close>, and the result 0 for \<open>*diskblock\<close> when an error is returned.\<close>

definition bmap_result :: "daddr \<Rightarrow> sfs_fs \<Rightarrow> (int \<times> daddr \<times> sfs_fs) kres" where
  "bmap_result block s =
     (if block \<noteq> 0
      then kbind (sfs_bused block s) (\<lambda>r. if r = 0 then Fail (Panic ''sfs: Data block marked free'') else Ok (0, block, s))
      else Ok (0, block, s))"

definition bmap_direct :: "ptr \<Rightarrow> nat \<Rightarrow> bool \<Rightarrow> sfs_fs \<Rightarrow> (int \<times> daddr \<times> sfs_fs) kres" where
  "bmap_direct sv i doalloc s =
     (let block = sfi_direct (sv_i (svs s sv)) ! i
      in if block = 0 \<and> doalloc
         then kbind (sfs_balloc block s) (\<lambda>(result, block, s).
                if result \<noteq> 0 then Ok (result, 0, s)
                else bmap_result block (upd_inode sv (\<lambda>d. d\<lparr>sfi_direct := (sfi_direct d)[i := block]\<rparr>) s))
         else bmap_result block s)"

text \<open>The indirect block is brought to \<open>idbuf\<close>: allocated, or read from the disk.\<close>

definition bmap_load :: "ptr \<Rightarrow> sfs_fs \<Rightarrow> (int \<times> daddr \<times> sfs_fs) kres" where
  "bmap_load sv s =
     (let idblock = sfi_indirect (sv_i (svs s sv)); idbuf = b_idbuf (s_bufs s)
      in if idblock = 0
         then kbind (sfs_balloc idblock s) (\<lambda>(result, idblock, s).
                if result \<noteq> 0 then Ok (result, idblock, s)
                else let s = upd_inode sv (\<lambda>d. d\<lparr>sfi_indirect := idblock\<rparr>) s
                     in Ok (0, idblock, s\<lparr>s_mem := bzero idbuf SFS_BLOCKSIZE (s_mem s)\<rparr>))
         else kbind (sfs_readblock idblock idbuf SFS_BLOCKSIZE s) (\<lambda>(result, s). Ok (result, idblock, s)))"

definition bmap_indirect :: "ptr \<Rightarrow> nat \<Rightarrow> bool \<Rightarrow> sfs_fs \<Rightarrow> (int \<times> daddr \<times> sfs_fs) kres" where
  "bmap_indirect sv idoff doalloc s =
     (if sfi_indirect (sv_i (svs s sv)) = 0 \<and> \<not> doalloc then Ok (0, 0, s)
      else kbind (bmap_load sv s) (\<lambda>(result, idblock, s).
        if result \<noteq> 0 then Ok (result, 0, s)
        else
          let slot = b_idbuf (s_bufs s) + of_nat (4 * idoff);
              block = ld32 slot (s_mem s)
          in if block = 0 \<and> doalloc
             then kbind (sfs_balloc block s) (\<lambda>(result, block, s).
                    if result \<noteq> 0 then Ok (result, 0, s)
                    else let s = s\<lparr>s_mem := st32 slot block (s_mem s)\<rparr>
                         in kbind (sfs_writeblock idblock (b_idbuf (s_bufs s)) SFS_BLOCKSIZE s) (\<lambda>(result, s).
                              if result \<noteq> 0 then Ok (result, 0, s) else bmap_result block s))
             else bmap_result block s))"

definition sfs_bmap :: "ptr \<Rightarrow> 32 word \<Rightarrow> bool \<Rightarrow> sfs_fs \<Rightarrow> (int \<times> daddr \<times> sfs_fs) kres" where
  "sfs_bmap sv fileblock doalloc s =
     kassert (vfs_biglock_do_i_hold s)
       (if fileblock < SFS_NDIRECT then bmap_direct sv (unat fileblock) doalloc s
        else
          let fileblock = fileblock - SFS_NDIRECT;
              idnum = fileblock div SFS_DBPERIDB;
              idoff = fileblock mod SFS_DBPERIDB
          in if idnum \<ge> SFS_NINDIRECT then Ok (EFBIG, 0, s) else bmap_indirect sv (unat idoff) doalloc s)"

section \<open>Truncation\<close>

definition trunc_direct :: "ptr \<Rightarrow> 32 word \<Rightarrow> nat \<Rightarrow> sfs_fs \<Rightarrow> sfs_fs kres" where
  "trunc_direct sv blocklen i s =
     (let block = sfi_direct (sv_i (svs s sv)) ! i
      in if of_nat i \<ge> blocklen \<and> block \<noteq> 0
         then kbind (sfs_bfree block s) (\<lambda>s. Ok (upd_inode sv (\<lambda>d. d\<lparr>sfi_direct := (sfi_direct d)[i := 0]\<rparr>) s))
         else Ok s)"

text \<open>The loop over the indirect block; the state holds \<open>hasnonzero\<close> and \<open>iddirty\<close>.\<close>

definition trunc_indirect :: "32 word \<Rightarrow> nat \<Rightarrow> bool \<times> bool \<times> sfs_fs \<Rightarrow> (bool \<times> bool \<times> sfs_fs) kres" where
  "trunc_indirect blocklen j = (\<lambda>(hasnonzero, iddirty, s).
     let slot = b_truncbuf (s_bufs s) + of_nat (4 * j); w = ld32 slot (s_mem s)
     in kbind (if blocklen < SFS_NDIRECT + of_nat j \<and> w \<noteq> 0
               then kbind (sfs_bfree w s) (\<lambda>s. Ok (True, s\<lparr>s_mem := st32 slot 0 (s_mem s)\<rparr>))
               else Ok (iddirty, s)) (\<lambda>(iddirty, s).
          Ok (if ld32 slot (s_mem s) \<noteq> 0 then True else hasnonzero, iddirty, s)))"

text \<open>The indirect block: its entries beyond the end are freed, and the block itself if it is empty then.\<close>

definition trunc_tail :: "ptr \<Rightarrow> 32 word \<Rightarrow> sfs_fs \<Rightarrow> (int \<times> sfs_fs) kres" where
  "trunc_tail sv blocklen s =
     (let idblock = sfi_indirect (sv_i (svs s sv));
          highblock = SFS_NDIRECT + SFS_DBPERIDB - 1
      in if blocklen < highblock \<and> idblock \<noteq> 0
         then kbind (sfs_readblock idblock (b_truncbuf (s_bufs s)) SFS_BLOCKSIZE s) (\<lambda>(result, s).
                if result \<noteq> 0 then Ok (result, s)
                else kbind (kfold (trunc_indirect blocklen) [0..<unat SFS_DBPERIDB] (False, False, s))
                  (\<lambda>(hasnonzero, iddirty, s).
                    if \<not> hasnonzero
                    then kbind (sfs_bfree idblock s) (\<lambda>s. Ok (0, upd_inode sv (\<lambda>d. d\<lparr>sfi_indirect := 0\<rparr>) s))
                    else if iddirty then sfs_writeblock idblock (b_truncbuf (s_bufs s)) SFS_BLOCKSIZE s
                    else Ok (0, s)))
         else Ok (0, s))"

text \<open>\<open>len\<close> is an \<open>off_t\<close>; the number of blocks is truncated to 32 bits.\<close>

definition sfs_itrunc :: "ptr \<Rightarrow> int \<Rightarrow> sfs_fs \<Rightarrow> (int \<times> sfs_fs) kres" where
  "sfs_itrunc sv len s =
     (let blocklen = word_of_int ((len + int SFS_BLOCKSIZE - 1) sdiv int SFS_BLOCKSIZE) :: 32 word;
          s = vfs_biglock_acquire s
      in kbind (kfold (trunc_direct sv blocklen) [0..<unat SFS_NDIRECT] s) (\<lambda>s.
           kbind (trunc_tail sv blocklen s) (\<lambda>(result, s).
             if result \<noteq> 0 then kbind (vfs_biglock_release s) (\<lambda>s. Ok (result, s))
             else
               let s = upd_inode sv (\<lambda>d. d\<lparr>sfi_size := word_of_int len\<rparr>) s
               in kbind (vfs_biglock_release s) (\<lambda>s. Ok (0, s)))))"

section \<open>File I/O\<close>

definition sfs_partialio :: "ptr \<Rightarrow> uio \<Rightarrow> 32 word \<Rightarrow> 32 word \<Rightarrow> sfs_fs \<Rightarrow> (int \<times> uio \<times> sfs_fs) kres" where
  "sfs_partialio sv u skipstart len s =
     (let doalloc = (uio_dir u = UIO_WRITE); iobuf = b_iobuf (s_bufs s)
      in kassert (unat (skipstart + len) \<le> SFS_BLOCKSIZE) (kassert (vfs_biglock_do_i_hold s)
        (let fileblock = word_of_int (uio_offset u sdiv int SFS_BLOCKSIZE)
         in kbind (sfs_bmap sv fileblock doalloc s) (\<lambda>(result, diskblock, s).
              if result \<noteq> 0 then Ok (result, u, s)
              else kbind (if diskblock = 0
                          then kassert (uio_dir u = UIO_READ) (Ok (0, s\<lparr>s_mem := bzero iobuf SFS_BLOCKSIZE (s_mem s)\<rparr>))
                          else sfs_readblock diskblock iobuf SFS_BLOCKSIZE s) (\<lambda>(result, s).
                if result \<noteq> 0 then Ok (result, u, s)
                else kbind (uiomove (s_uc s) (iobuf + skipstart) (unat len) u (s_mem s)) (\<lambda>(result, u, m).
                  let s = s\<lparr>s_mem := m\<rparr>
                  in if result \<noteq> 0 then Ok (result, u, s)
                     else if uio_dir u = UIO_WRITE
                     then kbind (sfs_writeblock diskblock iobuf SFS_BLOCKSIZE s) (\<lambda>(result, s).
                            if result \<noteq> 0 then Ok (result, u, s) else Ok (0, u, s))
                     else Ok (0, u, s)))))))"

text \<open>\<open>diskblock * SFS_BLOCKSIZE\<close> is computed in 32 bits; \<open>uio_resid\<close> is set from an \<open>off_t\<close>.\<close>

definition sfs_blockio :: "ptr \<Rightarrow> uio \<Rightarrow> sfs_fs \<Rightarrow> (int \<times> uio \<times> sfs_fs) kres" where
  "sfs_blockio sv u s =
     (let doalloc = (uio_dir u = UIO_WRITE);
          fileblock = word_of_int (uio_offset u sdiv int SFS_BLOCKSIZE)
      in kbind (sfs_bmap sv fileblock doalloc s) (\<lambda>(result, diskblock, s).
           if result \<noteq> 0 then Ok (result, u, s)
           else if diskblock = 0
           then kassert (uio_dir u = UIO_READ)
                  (kbind (uiomovezeros (s_uc s) (b_zeros16 (s_bufs s)) SFS_BLOCKSIZE u (s_mem s)) (\<lambda>(result, u, m).
                     Ok (result, u, s\<lparr>s_mem := m\<rparr>)))
           else
             let saveoff = uio_offset u;
                 diskoff = uint (diskblock * of_nat SFS_BLOCKSIZE)
             in kassert (uio_resid u \<ge> SFS_BLOCKSIZE)
                  (let saveres = uio_resid u;
                       u = u\<lparr>uio_offset := diskoff, uio_resid := SFS_BLOCKSIZE\<rparr>
                   in kbind (sfs_rwblock u s) (\<lambda>(result, u, s).
                        Ok (result, u\<lparr>uio_offset := (uio_offset u - diskoff) + saveoff,
                                      uio_resid := nat ((int (uio_resid u) - int SFS_BLOCKSIZE + int saveres) mod 2 ^ 32)\<rparr>, s)))))"

fun blockio_loop :: "nat \<Rightarrow> ptr \<Rightarrow> uio \<Rightarrow> sfs_fs \<Rightarrow> (int \<times> uio \<times> sfs_fs) kres" where
  "blockio_loop 0 sv u s = Ok (0, u, s)"
| "blockio_loop (Suc n) sv u s =
     kbind (sfs_blockio sv u s) (\<lambda>(result, u, s). if result \<noteq> 0 then Ok (result, u, s) else blockio_loop n sv u s)"

text \<open>\<open>sfs_io\<close> from the leading partial block to the label \<open>out\<close>.\<close>

definition io_leading :: "ptr \<Rightarrow> uio \<Rightarrow> sfs_fs \<Rightarrow> (int \<times> uio \<times> sfs_fs) kres" where
  "io_leading sv u s =
     (let blkoff = word_of_int (uio_offset u smod int SFS_BLOCKSIZE) :: 32 word
      in if blkoff \<noteq> 0
         then let len = of_nat SFS_BLOCKSIZE - blkoff;
                  len = (if unat len > uio_resid u then of_nat (uio_resid u) else len)
              in sfs_partialio sv u blkoff len s
         else Ok (0, u, s))"

definition io_body :: "ptr \<Rightarrow> uio \<Rightarrow> sfs_fs \<Rightarrow> (int \<times> uio \<times> sfs_fs) kres" where
  "io_body sv u s =
     kbind (io_leading sv u s) (\<lambda>(result, u, s).
       if result \<noteq> 0 \<or> uio_resid u = 0 then Ok (result, u, s)
       else kassert (uio_offset u smod int SFS_BLOCKSIZE = 0)
              (kbind (blockio_loop (uio_resid u div SFS_BLOCKSIZE) sv u s) (\<lambda>(result, u, s).
                 if result \<noteq> 0 then Ok (result, u, s)
                 else kassert (uio_resid u < SFS_BLOCKSIZE)
                        (if uio_resid u > 0 then sfs_partialio sv u 0 (of_nat (uio_resid u)) s
                         else Ok (0, u, s)))))"

definition sfs_io :: "ptr \<Rightarrow> uio \<Rightarrow> sfs_fs \<Rightarrow> (int \<times> uio \<times> sfs_fs) kres" where
  "sfs_io sv u s =
     (let origresid = uio_resid u;
          size = uint (sfi_size (sv_i (svs s sv)));
          endpos = uio_offset u + int (uio_resid u)
      in if uio_dir u = UIO_READ \<and> uio_offset u \<ge> size then Ok (0, u, s)
         else
           let extraresid = (if uio_dir u = UIO_READ \<and> endpos > size then nat (endpos - size) mod 2 ^ 32 else 0)
           in kassert (uio_dir u = UIO_READ \<and> endpos > size \<longrightarrow> uio_resid u > extraresid)
                (kbind (io_body sv (u\<lparr>uio_resid := uio_resid u - extraresid\<rparr>) s) (\<lambda>(result, u, s).
                   let s = (if uio_resid u \<noteq> origresid \<and> uio_dir u = UIO_WRITE \<and> uio_offset u > uint (sfi_size (sv_i (svs s sv)))
                            then upd_inode sv (\<lambda>d. d\<lparr>sfi_size := word_of_int (uio_offset u)\<rparr>) s else s)
                   in Ok (result, u\<lparr>uio_resid := (uio_resid u + extraresid) mod 2 ^ 32\<rparr>, s))))"

section \<open>Metadata I/O\<close>

definition sfs_metaio :: "ptr \<Rightarrow> int \<Rightarrow> vaddr \<Rightarrow> nat \<Rightarrow> uio_rw \<Rightarrow> sfs_fs \<Rightarrow> (int \<times> sfs_fs) kres" where
  "sfs_metaio sv actualpos data len rw s =
     kassert (vfs_biglock_do_i_hold s)
       (let vnblock = word_of_int (actualpos sdiv int SFS_BLOCKSIZE);
            blockoffset = word_of_int (actualpos smod int SFS_BLOCKSIZE) :: 32 word;
            doalloc = (rw = UIO_WRITE); buf = b_metaiobuf (s_bufs s)
        in kbind (sfs_bmap sv vnblock doalloc s) (\<lambda>(result, diskblock, s).
             if result \<noteq> 0 then Ok (result, s)
             else if diskblock = 0
             then kassert (rw = UIO_READ) (Ok (0, s\<lparr>s_mem := bzero data len (s_mem s)\<rparr>))
             else kbind (sfs_readblock diskblock buf SFS_BLOCKSIZE s) (\<lambda>(result, s).
               if result \<noteq> 0 then Ok (result, s)
               else if rw = UIO_READ
               then Ok (0, s\<lparr>s_mem := memmove data (buf + blockoffset) len (s_mem s)\<rparr>)
               else
                 let s = s\<lparr>s_mem := memmove (buf + blockoffset) data len (s_mem s)\<rparr>
                 in kbind (sfs_writeblock diskblock buf SFS_BLOCKSIZE s) (\<lambda>(result, s).
                      if result \<noteq> 0 then Ok (result, s)
                      else
                        let endpos = actualpos + int len
                        in Ok (0, if endpos > uint (sfi_size (sv_i (svs s sv)))
                                  then upd_inode sv (\<lambda>d. d\<lparr>sfi_size := word_of_int endpos\<rparr>) s else s)))))"

end
