(* ===== verification/SFS_Spec.thy ===== *)
theory SFS_Spec
  imports SFS
begin

text \<open>
  Files as sequences of bytes: what the block map and the I/O routines of SFS do to the bytes of a
  file and to the blocks of everything else on the volume.
\<close>

unbundle bit_operations_syntax

section \<open>Transfers through kernel buffers\<close>

text \<open>A request for \<open>r\<close> bytes at \<open>kb\<close>, where \<open>n\<close> bytes are left in the vector.\<close>

definition kuio :: "vaddr \<Rightarrow> nat \<Rightarrow> int \<Rightarrow> nat \<Rightarrow> uio_rw \<Rightarrow> uio" where
  "kuio kb n off r rw = (uio_kinit kb n off rw)\<lparr>uio_resid := r\<rparr>"

lemma kuio_simps [simp]:
  "uio_offset (kuio kb n off r rw) = off" "uio_resid (kuio kb n off r rw) = r" "uio_dir (kuio kb n off r rw) = rw"
  "(kuio kb n off r rw)\<lparr>uio_resid := r'\<rparr> = kuio kb n off r' rw"
  "(kuio kb n off r rw)\<lparr>uio_offset := off', uio_resid := r'\<rparr> = kuio kb n off' r' rw"
  by (simp_all add: kuio_def uio_kinit_def)

lemma uio_kinit_kuio: "uio_kinit kb n off rw = kuio kb n off n rw"
  by (simp add: kuio_def uio_kinit_def)

lemma resid_sub: "0 < j \<Longrightarrow> j \<le> r \<Longrightarrow> r < 2 ^ 32 \<Longrightarrow> (r + 2 ^ 32 - j) mod 2 ^ 32 = r - (j :: nat)"
proof -
  assume "0 < j" "j \<le> r" "r < 2 ^ 32"
  then have "r + 2 ^ 32 - j = (r - j) + 2 ^ 32" "r - j < 2 ^ 32" by simp_all
  then show ?thesis by (simp only: mod_add_self2 mod_less)
qed

lemma uiomove_kuio:
  assumes "0 < j" "j \<le> n" "j \<le> r" "r < 2 ^ 32"
  shows "uiomove uc buf j (kuio kb n off r rw) m =
    Ok (0, kuio (kb + of_nat j) (n - j) (off + int j) (r - j) rw,
        if rw = UIO_READ then memmove kb buf j m else memmove buf kb j m)"
  using assms resid_sub [OF assms(1,3,4)]
  by (cases "j = n") (simp_all add: uiomove_def kuio_def uio_kinit_def uio_move1_def uiomove_loop.simps)

section \<open>One sector\<close>

lemma lhd_io_one:
  assumes wf: "lhd_wf lh" and b: "b < d_blocks lh"
  shows "lhd_io uc lh (kuio kb n (uint b * 512) 512 rw) m =
    lhd_loop 1 uc (if rw = UIO_WRITE then LHD_WORKING OR LHD_ISWRITE else LHD_WORKING) b lh (kuio kb n (uint b * 512) 512 rw) m"
proof -
  have s: "(uint b * 512) sdiv 512 = uint b" "(uint b * 512) smod 512 = 0"
    by (simp_all add: sdiv_nonneg smod_nonneg)
  have "unat b < unat (d_blocks lh)" using b by (simp add: word_less_nat_alt)
  then have "unat (b + 1) = unat b + 1" using unat_lt_32 [of "d_blocks lh"] unat_plus_nat [of b 1] by simp
  then have "\<not> d_blocks lh < b + 1" using b by (simp add: word_less_nat_alt)
  then show ?thesis using s by (simp add: lhd_io_def LHD_SECTSIZE_def Let_def)
qed

lemma sector_write:
  assumes wf: "lhd_wf lh" and b: "b < d_blocks lh" and n: "512 \<le> n" and kb: "below_buf lh kb 512"
  shows "\<exists>lh' m'. lhd_io uc lh (kuio kb n (uint b * 512) 512 UIO_WRITE) m =
      Ok (0, lh', kuio (kb + 512) (n - 512) (uint b * 512 + 512) 0 UIO_WRITE, m')
    \<and> same_dev lh lh' \<and> (\<forall>k < 512. lh_disk lh' b k = m (kb + of_nat k)) \<and> (\<forall>t. t \<noteq> b \<longrightarrow> lh_disk lh' t = lh_disk lh t)
    \<and> (\<forall>a. \<not> in_buf lh a \<longrightarrow> m' a = m a)"
proof -
  let ?b = "lh_buf lh" and ?m1 = "memmove (lh_buf lh) kb 512 m"
  obtain st dk' buf' where hw:
      "lh_hw lh b (LHD_WORKING OR LHD_ISWRITE) (lh_disk lh) (mem_get ?b ?m1) = (st, dk', buf')"
      "lhd_irq st = Some 0" "\<forall>k < 512. dk' b k = mem_get ?b ?m1 k" "\<forall>t. t \<noteq> b \<longrightarrow> dk' t = lh_disk lh t"
    using lhd_wf_write [OF wf b, of "lh_disk lh" "mem_get ?b ?m1"] by blast
  have "lhd_io uc lh (kuio kb n (uint b * 512) 512 UIO_WRITE) m =
      Ok (0, lh\<lparr>lh_disk := dk', lh_result := 0\<rparr>, kuio (kb + 512) (n - 512) (uint b * 512 + 512) 0 UIO_WRITE, mem_put ?b 512 buf' ?m1)"
    unfolding lhd_io_one [OF wf b] using uiomove_kuio [of 512 n 512 uc ?b kb "uint b * 512" UIO_WRITE m] n hw(1,2)
    by (simp add: lhd_sector_def LHD_SECTSIZE_def)
  moreover have "\<forall>k < 512. dk' b k = m (kb + of_nat k)" using hw(3) by (simp add: mem_get_def memmove_def)
  moreover have "\<forall>a. \<not> in_buf lh a \<longrightarrow> mem_put ?b 512 buf' ?m1 a = m a" by (simp add: in_buf_def mem_put_def memmove_def)
  ultimately show ?thesis using hw(4) by auto
qed

lemma sector_read:
  assumes wf: "lhd_wf lh" and b: "b < d_blocks lh" and n: "512 \<le> n" and kb: "below_buf lh kb 512"
  shows "\<exists>lh' m'. lhd_io uc lh (kuio kb n (uint b * 512) 512 UIO_READ) m =
      Ok (0, lh', kuio (kb + 512) (n - 512) (uint b * 512 + 512) 0 UIO_READ, m')
    \<and> same_dev lh lh' \<and> lh_disk lh' = lh_disk lh \<and> (\<forall>k < 512. m' (kb + of_nat k) = lh_disk lh b k)
    \<and> (\<forall>a. \<not> in_buf lh a \<longrightarrow> \<not> unat (a - kb) < 512 \<longrightarrow> m' a = m a)"
proof -
  let ?b = "lh_buf lh"
  obtain st dk' buf' where hw:
      "lh_hw lh b LHD_WORKING (lh_disk lh) (mem_get ?b m) = (st, dk', buf')"
      "lhd_irq st = Some 0" "\<forall>t. dk' t = lh_disk lh t" "\<forall>k < 512. buf' k = lh_disk lh b k"
    using lhd_wf_read [OF wf b, of "lh_disk lh" "mem_get ?b m"] by blast
  let ?m1 = "mem_put ?b 512 buf' m"
  have "lhd_io uc lh (kuio kb n (uint b * 512) 512 UIO_READ) m =
      Ok (0, lh\<lparr>lh_disk := dk', lh_result := 0\<rparr>, kuio (kb + 512) (n - 512) (uint b * 512 + 512) 0 UIO_READ, memmove kb ?b 512 ?m1)"
    unfolding lhd_io_one [OF wf b] using uiomove_kuio [of 512 n 512 uc ?b kb "uint b * 512" UIO_READ ?m1] n hw(1,2)
    by (simp add: lhd_sector_def LHD_SECTSIZE_def)
  moreover have "\<forall>k < 512. memmove kb ?b 512 ?m1 (kb + of_nat k) = lh_disk lh b k" using hw(4) by (simp add: mem_put_def memmove_def)
  moreover have "\<forall>a. \<not> in_buf lh a \<longrightarrow> \<not> unat (a - kb) < 512 \<longrightarrow> memmove kb ?b 512 ?m1 a = m a"
    by (simp add: in_buf_def mem_put_def memmove_def)
  moreover have "dk' = lh_disk lh" using hw(3) by auto
  ultimately show ?thesis by (auto simp: same_dev_def)
qed

section \<open>The volume\<close>

definition blk :: "sfs_fs \<Rightarrow> daddr \<Rightarrow> nat \<Rightarrow> byte" where
  "blk s b = lh_disk (sfs_device s) b"

text \<open>The memory that the file system itself may change: the buffer of the disk and its static buffers.\<close>

definition scratch :: "sfs_fs \<Rightarrow> vaddr \<Rightarrow> bool" where
  "scratch s a \<longleftrightarrow> in_buf (sfs_device s) a \<or> unat (a - b_idbuf (s_bufs s)) < 512 \<or> unat (a - b_truncbuf (s_bufs s)) < 512
     \<or> unat (a - b_iobuf (s_bufs s)) < 512 \<or> unat (a - b_metaiobuf (s_bufs s)) < 512"

definition bufs_ok :: "sfs_fs \<Rightarrow> bool" where
  "bufs_ok s \<longleftrightarrow>
     (\<forall>b \<in> {b_zeros (s_bufs s), b_idbuf (s_bufs s), b_truncbuf (s_bufs s), b_iobuf (s_bufs s), b_metaiobuf (s_bufs s)}.
        below_buf (sfs_device s) b 512) \<and>
     (\<forall>a. unat (a - b_zeros (s_bufs s)) < 512 \<or> unat (a - b_zeros16 (s_bufs s)) < 16 \<longrightarrow> \<not> scratch s a \<and> s_mem s a = 0)"

text \<open>
  \<open>M\<close> are the blocks marked in use: the superblock, and every number beyond the volume that the
  bitmap can hold.
\<close>

definition sfs_ok :: "sfs_fs \<Rightarrow> nat set \<Rightarrow> bool" where
  "sfs_ok s M \<longleftrightarrow>
     lhd_wf (sfs_device s) \<and> sb_nblocks s \<le> d_blocks (sfs_device s) \<and> unat (sb_nblocks s) \<le> 2 ^ 23 \<and>
     (\<exists>n. bitmap_rep (sfs_freemap s) n M \<and> unat (sb_nblocks s) \<le> n \<and> {unat (sb_nblocks s)..<n} \<subseteq> M) \<and>
     0 \<in> M \<and> vfs_biglock_do_i_hold s \<and> bufs_ok s"

definition nfree :: "sfs_fs \<Rightarrow> nat set \<Rightarrow> nat" where
  "nfree s M = card ({..<unat (sb_nblocks s)} - M)"

text \<open>What an operation leaves alone.\<close>

definition same_env :: "sfs_fs \<Rightarrow> sfs_fs \<Rightarrow> bool" where
  "same_env s s' \<longleftrightarrow>
     same_dev (sfs_device s) (sfs_device s') \<and> sb_nblocks s' = sb_nblocks s \<and> s_bufs s' = s_bufs s \<and> s_uc s' = s_uc s \<and>
     sfs_vnodes s' = sfs_vnodes s \<and> vfs_biglock_depth s' = vfs_biglock_depth s"

definition mem_kept :: "sfs_fs \<Rightarrow> sfs_fs \<Rightarrow> bool" where
  "mem_kept s s' \<longleftrightarrow> (\<forall>a. \<not> scratch s a \<longrightarrow> s_mem s' a = s_mem s a)"

lemma same_env_scratch: "same_env s s' \<Longrightarrow> scratch s' = scratch s"
  using same_dev_simps(7) by (auto simp: same_env_def scratch_def fun_eq_iff)

lemma same_env_refl [simp, intro]: "same_env s s"
  by (simp add: same_env_def)

lemma same_env_trans: "same_env s s' \<Longrightarrow> same_env s' s'' \<Longrightarrow> same_env s s''"
  using same_dev_trans by (auto simp: same_env_def)

lemma mem_kept_refl [simp, intro]: "mem_kept s s"
  by (simp add: mem_kept_def)

lemma mem_kept_trans: "mem_kept s s' \<Longrightarrow> mem_kept s' s'' \<Longrightarrow> same_env s s' \<Longrightarrow> mem_kept s s''"
  by (simp add: mem_kept_def same_env_scratch)

lemma sfs_ok_env:
  assumes "sfs_ok s M" "same_env s s'" "sfs_freemap s' = sfs_freemap s"
    and "\<And>a. \<not> scratch s a \<Longrightarrow> unat (a - b_zeros (s_bufs s)) < 512 \<or> unat (a - b_zeros16 (s_bufs s)) < 16 \<Longrightarrow> s_mem s' a = s_mem s a"
  shows "sfs_ok s' M"
proof -
  have "same_dev (sfs_device s) (sfs_device s')" using assms(2) by (simp add: same_env_def)
  note D = same_dev_simps [OF this]
  have "bufs_ok s" using assms(1) by (simp add: sfs_ok_def)
  then have "bufs_ok s'" using assms(2,4) unfolding bufs_ok_def same_env_scratch [OF assms(2)] by (simp add: same_env_def D)
  then show ?thesis using assms(1-3) by (simp add: sfs_ok_def D same_env_def vfs_biglock_do_i_hold_def)
qed

lemma sfs_ok_kept: "sfs_ok s M \<Longrightarrow> same_env s s' \<Longrightarrow> sfs_freemap s' = sfs_freemap s \<Longrightarrow> mem_kept s s' \<Longrightarrow> sfs_ok s' M"
  by (erule sfs_ok_env) (auto simp: mem_kept_def)

lemma sfs_okD:
  assumes "sfs_ok s M"
  shows "lhd_wf (sfs_device s)" "sb_nblocks s \<le> d_blocks (sfs_device s)" "unat (sb_nblocks s) \<le> 2 ^ 23" "0 \<in> M"
    "vfs_biglock_do_i_hold s" "bufs_ok s" "unat b < unat (sb_nblocks s) \<Longrightarrow> b < d_blocks (sfs_device s)"
  using assms by (auto simp: sfs_ok_def word_less_nat_alt word_le_nat_alt)

section \<open>Blocks\<close>

definition disk_ok :: "sfs_fs \<Rightarrow> bool" where
  "disk_ok s \<longleftrightarrow> lhd_wf (sfs_device s) \<and> vfs_biglock_do_i_hold s"

lemma sfs_rwblock_ok:
  assumes "vfs_biglock_do_i_hold s" "lhd_io (s_uc s) (sfs_device s) u (s_mem s) = Ok (0, dev, u', m)"
  shows "sfs_rwblock u s = Ok (0, u', s\<lparr>sfs_device := dev, s_mem := m\<rparr>)"
  using assms by (simp add: sfs_rwblock_def sfs_retry.simps [of 10] Let_def EINVAL_def EIO_def)

lemma SFSUIO_kuio: "SFSUIO p b rw = kuio p 512 (uint b * 512) 512 rw"
  by (simp add: SFSUIO_def uio_kinit_kuio SFS_BLOCKSIZE_def)

lemma readblock_dev:
  assumes ok: "disk_ok s" and b: "b < d_blocks (sfs_device s)" and d: "below_buf (sfs_device s) p 512"
  shows "\<exists>dev m. sfs_readblock b p SFS_BLOCKSIZE s = Ok (0, s\<lparr>sfs_device := dev, s_mem := m\<rparr>)
    \<and> same_dev (sfs_device s) dev \<and> lh_disk dev = lh_disk (sfs_device s)
    \<and> (\<forall>k < 512. m (p + of_nat k) = blk s b k)
    \<and> (\<forall>a. \<not> in_buf (sfs_device s) a \<longrightarrow> \<not> unat (a - p) < 512 \<longrightarrow> m a = s_mem s a)"
proof -
  have D: "lhd_wf (sfs_device s)" "vfs_biglock_do_i_hold s" using ok by (simp_all add: disk_ok_def)
  obtain dev u' m where io: "lhd_io (s_uc s) (sfs_device s) (kuio p 512 (uint b * 512) 512 UIO_READ) (s_mem s) = Ok (0, dev, u', m)"
      "same_dev (sfs_device s) dev" "lh_disk dev = lh_disk (sfs_device s)" "\<forall>k < 512. m (p + of_nat k) = lh_disk (sfs_device s) b k"
      "\<forall>a. \<not> in_buf (sfs_device s) a \<longrightarrow> \<not> unat (a - p) < 512 \<longrightarrow> m a = s_mem s a"
    using sector_read [OF D(1) b _ d, of 512 "s_uc s" "s_mem s"] by blast
  then show ?thesis using sfs_rwblock_ok [OF D(2) io(1)] by (auto simp: sfs_readblock_def SFSUIO_kuio blk_def)
qed

lemma writeblock_dev:
  assumes ok: "disk_ok s" and b: "b < d_blocks (sfs_device s)" and d: "below_buf (sfs_device s) p 512"
  shows "\<exists>dev m. sfs_writeblock b p SFS_BLOCKSIZE s = Ok (0, s\<lparr>sfs_device := dev, s_mem := m\<rparr>)
    \<and> same_dev (sfs_device s) dev \<and> (\<forall>k < 512. lh_disk dev b k = s_mem s (p + of_nat k))
    \<and> (\<forall>c. c \<noteq> b \<longrightarrow> lh_disk dev c = blk s c)
    \<and> (\<forall>a. \<not> in_buf (sfs_device s) a \<longrightarrow> m a = s_mem s a)"
proof -
  have D: "lhd_wf (sfs_device s)" "vfs_biglock_do_i_hold s" using ok by (simp_all add: disk_ok_def)
  obtain dev u' m where io: "lhd_io (s_uc s) (sfs_device s) (kuio p 512 (uint b * 512) 512 UIO_WRITE) (s_mem s) = Ok (0, dev, u', m)"
      "same_dev (sfs_device s) dev" "\<forall>k < 512. lh_disk dev b k = s_mem s (p + of_nat k)"
      "\<forall>t. t \<noteq> b \<longrightarrow> lh_disk dev t = lh_disk (sfs_device s) t" "\<forall>a. \<not> in_buf (sfs_device s) a \<longrightarrow> m a = s_mem s a"
    using sector_write [OF D(1) b _ d, of 512 "s_uc s" "s_mem s"] by blast
  then show ?thesis using sfs_rwblock_ok [OF D(2) io(1)] by (auto simp: sfs_writeblock_def SFSUIO_kuio blk_def)
qed

lemma sfs_disk_ok: "sfs_ok s M \<Longrightarrow> disk_ok s"
  by (simp add: sfs_ok_def disk_ok_def)

text \<open>The same for a block of a well-formed volume.\<close>

lemmas readblock_ok = readblock_dev [OF sfs_disk_ok sfs_okD(7)]

lemmas writeblock_ok = writeblock_dev [OF sfs_disk_ok sfs_okD(7)]

text \<open>A write changes one block and no memory but the buffer of the disk.\<close>

lemma writeblock_env:
  assumes ok: "sfs_ok s M" and b: "unat b < unat (sb_nblocks s)" and d: "below_buf (sfs_device s) p 512"
  shows "\<exists>s'. sfs_writeblock b p SFS_BLOCKSIZE s = Ok (0, s') \<and> sfs_ok s' M \<and> same_env s s' \<and> sfs_freemap s' = sfs_freemap s
    \<and> svs s' = svs s \<and> (\<forall>k < 512. blk s' b k = s_mem s (p + of_nat k)) \<and> (\<forall>c. c \<noteq> b \<longrightarrow> blk s' c = blk s c)
    \<and> (\<forall>a. \<not> in_buf (sfs_device s) a \<longrightarrow> s_mem s' a = s_mem s a)"
proof -
  obtain dev m where w: "sfs_writeblock b p SFS_BLOCKSIZE s = Ok (0, s\<lparr>sfs_device := dev, s_mem := m\<rparr>)"
      "same_dev (sfs_device s) dev" "\<forall>k < 512. lh_disk dev b k = s_mem s (p + of_nat k)" "\<forall>c. c \<noteq> b \<longrightarrow> lh_disk dev c = blk s c"
      "\<forall>a. \<not> in_buf (sfs_device s) a \<longrightarrow> m a = s_mem s a"
    using writeblock_ok [OF ok ok b d] by blast
  let ?s = "s\<lparr>sfs_device := dev, s_mem := m\<rparr>"
  have e: "same_env s ?s" using w(2) by (simp add: same_env_def)
  have "sfs_ok ?s M" by (rule sfs_ok_kept [OF ok e]) (use w(5) in \<open>auto simp: mem_kept_def scratch_def\<close>)
  then show ?thesis using w(1,3-5) e by (auto simp: blk_def)
qed

lemma readblock_env:
  assumes ok: "sfs_ok s M" and b: "unat b < unat (sb_nblocks s)" and d: "below_buf (sfs_device s) p 512"
    and p: "\<forall>a. unat (a - p) < 512 \<longrightarrow> scratch s a"
  shows "\<exists>s'. sfs_readblock b p SFS_BLOCKSIZE s = Ok (0, s') \<and> sfs_ok s' M \<and> same_env s s' \<and> sfs_freemap s' = sfs_freemap s
    \<and> svs s' = svs s \<and> blk s' = blk s \<and> (\<forall>k < 512. s_mem s' (p + of_nat k) = blk s b k) \<and> mem_kept s s'"
proof -
  obtain dev m where w: "sfs_readblock b p SFS_BLOCKSIZE s = Ok (0, s\<lparr>sfs_device := dev, s_mem := m\<rparr>)"
      "same_dev (sfs_device s) dev" "lh_disk dev = lh_disk (sfs_device s)" "\<forall>k < 512. m (p + of_nat k) = blk s b k"
      "\<forall>a. \<not> in_buf (sfs_device s) a \<longrightarrow> \<not> unat (a - p) < 512 \<longrightarrow> m a = s_mem s a"
    using readblock_ok [OF ok ok b d] by blast
  let ?s = "s\<lparr>sfs_device := dev, s_mem := m\<rparr>"
  have e: "same_env s ?s" using w(2) by (simp add: same_env_def)
  have k: "mem_kept s ?s" using w(5) p by (auto simp: mem_kept_def scratch_def)
  have "sfs_ok ?s M" by (rule sfs_ok_kept [OF ok e _ k]) simp
  then show ?thesis using w(1,3,4) e k by (auto simp: blk_def)
qed

lemma used_bound: "sfs_ok s M \<Longrightarrow> \<exists>n. M \<subseteq> {..<n} \<and> n + 7 < 2 ^ 32"
  by (auto simp: sfs_ok_def bitmap_rep_def)

lemma balloc_ok:
  assumes ok: "sfs_ok s M" and room: "0 < nfree s M"
  shows "\<exists>b s'. sfs_balloc d s = Ok (0, b, s') \<and> unat b \<notin> M \<and> unat b < unat (sb_nblocks s) \<and> b \<noteq> 0
    \<and> sfs_ok s' (insert (unat b) M) \<and> same_env s s' \<and> svs s' = svs s
    \<and> (\<forall>k < 512. blk s' b k = 0) \<and> (\<forall>c. c \<noteq> b \<longrightarrow> blk s' c = blk s c)
    \<and> (\<forall>a. \<not> in_buf (sfs_device s) a \<longrightarrow> s_mem s' a = s_mem s a)"
proof -
  note D = sfs_okD [OF ok]
  obtain n where n: "bitmap_rep (sfs_freemap s) n M" "unat (sb_nblocks s) \<le> n" "{unat (sb_nblocks s)..<n} \<subseteq> M"
    using ok by (auto simp: sfs_ok_def)
  have "{..<unat (sb_nblocks s)} - M \<noteq> {}" using room unfolding nfree_def by (metis card.empty less_irrefl)
  then have "M \<noteq> {..<n}" using n(2) by auto
  then obtain b bm where b: "bitmap_alloc (sfs_freemap s) d = Ok (0, b, bm)" "unat b < n" "unat b \<notin> M" "bitmap_rep bm n (insert (unat b) M)"
    using bm.alloc_some [OF n(1)] by blast
  then have lt: "unat b < unat (sb_nblocks s)" using n(3) by (metis atLeastLessThan_iff not_less subsetD)
  have b0: "b \<noteq> 0" using b(3) D(4) by (metis unat_0)
  let ?s = "s\<lparr>sfs_freemap := bm, sfs_freemapdirty := True\<rparr>"
  have sc: "scratch ?s = scratch s" by (simp add: scratch_def fun_eq_iff)
  have ok1: "sfs_ok ?s (insert (unat b) M)"
    using ok b(4) n(2,3) by (auto simp: sfs_ok_def vfs_biglock_do_i_hold_def bufs_ok_def sc)
  have "below_buf (sfs_device ?s) (b_zeros (s_bufs ?s)) 512" using D(6) by (simp add: bufs_ok_def)
  from writeblock_env [OF ok1 _ this, of b] lt obtain s' where
    w: "sfs_writeblock b (b_zeros (s_bufs ?s)) SFS_BLOCKSIZE ?s = Ok (0, s')" "sfs_ok s' (insert (unat b) M)" "same_env ?s s'"
      "svs s' = svs s" "\<forall>k < 512. blk s' b k = s_mem s (b_zeros (s_bufs s) + of_nat k)" "\<forall>c. c \<noteq> b \<longrightarrow> blk s' c = blk ?s c"
      "\<forall>a. \<not> in_buf (sfs_device s) a \<longrightarrow> s_mem s' a = s_mem s a"
    by auto
  have "\<not> b \<ge> sb_nblocks s" using lt by (simp add: word_le_nat_alt)
  then have run: "sfs_balloc d s = Ok (0, b, s')"
    using b(1) w(1) by (simp add: sfs_balloc_def sfs_clearblock_def Let_def)
  have z: "\<forall>k < 512. blk s' b k = 0" using w(5) D(6) by (simp add: bufs_ok_def)
  have "same_env s s'" using w(3) by (simp add: same_env_def)
  then show ?thesis using run b(3) lt b0 w(2,4,6,7) z by (auto simp: blk_def)
qed

lemma balloc_full:
  assumes ok: "sfs_ok s M" and full: "nfree s M = 0"
  shows "sfs_balloc d s = Ok (ENOSPC, d, s)"
proof -
  obtain n where n: "bitmap_rep (sfs_freemap s) n M" "unat (sb_nblocks s) \<le> n" "{unat (sb_nblocks s)..<n} \<subseteq> M"
    using ok by (auto simp: sfs_ok_def)
  have "{..<unat (sb_nblocks s)} \<subseteq> M" using full by (simp add: nfree_def)
  moreover have "M \<subseteq> {..<n}" using n(1) by (simp add: bitmap_rep_def)
  moreover have "{..<n} \<subseteq> {..<unat (sb_nblocks s)} \<union> {unat (sb_nblocks s)..<n}" by auto
  ultimately have "M = {..<n}" using n(3) by blast
  then have "bitmap_alloc (sfs_freemap s) d = Ok (ENOSPC, d, sfs_freemap s)" using bm.alloc_none n(1) by blast
  then show ?thesis by (simp add: sfs_balloc_def ENOSPC_def)
qed

lemma bused_ok:
  assumes "sfs_ok s M" "unat b < unat (sb_nblocks s)" "unat b \<in> M"
  shows "\<exists>r. sfs_bused b s = Ok r \<and> r \<noteq> 0"
proof -
  obtain n where n: "bitmap_rep (sfs_freemap s) n M" "unat (sb_nblocks s) \<le> n" using assms(1) by (auto simp: sfs_ok_def)
  have "unat b div 8 < (n + 7) div 8"
  proof -
    have "unat b div 8 \<le> (n - 1) div 8" using assms(2) n(2) by (intro div_le_mono) simp
    moreover have "(n + 7) div 8 = Suc ((n - 1) div 8)" using assms(2) n(2) by (cases n) simp_all
    ultimately show ?thesis by simp
  qed
  then have "bitmap_isset (sfs_freemap s) b = Ok (2 ^ (unat b mod 8))"
    using bitmap_isset_rep [OF n(1), of b] assms(3) by simp
  then show ?thesis using assms(2) by (simp add: sfs_bused_def word_le_nat_alt)
qed

lemma bmap_result_ok: "sfs_ok s M \<Longrightarrow> b = 0 \<or> unat b < unat (sb_nblocks s) \<and> unat b \<in> M \<Longrightarrow> bmap_result b s = Ok (0, b, s)"
  using bused_ok [of s M b] by (auto simp: bmap_result_def)

section \<open>Files\<close>

text \<open>The \<open>j\<close>-th word of a block.\<close>

definition wd :: "(nat \<Rightarrow> byte) \<Rightarrow> nat \<Rightarrow> 32 word" where
  "wd f j = push_bit 24 (ucast (f (4 * j))) OR push_bit 16 (ucast (f (4 * j + 1))) OR push_bit 8 (ucast (f (4 * j + 2))) OR ucast (f (4 * j + 3))"

lemma ld32_wd: "ld32 (a + of_nat (4 * j)) m = wd (mem_get a m) j"
  by (simp add: ld32_def wd_def mem_get_def ac_simps)

lemma wd_cong: "(\<And>k. k < 512 \<Longrightarrow> f k = g k) \<Longrightarrow> j < 128 \<Longrightarrow> wd f j = wd g j"
  by (simp add: wd_def)

lemma wd_zero: "(\<And>k. k < 512 \<Longrightarrow> f k = 0) \<Longrightarrow> j < 128 \<Longrightarrow> wd f j = 0"
  by (simp add: wd_def)

lemma wd_st32:
  assumes "unat a + 512 \<le> 2 ^ 32" "i < 128" "j < 128"
  shows "wd (mem_get a (st32 (a + of_nat (4 * i)) w m)) j = (if j = i then w else wd (mem_get a m) j)"
proof (cases "j = i")
  case True
  then show ?thesis unfolding ld32_wd [symmetric] by simp
next
  case False
  have "st32 (a + of_nat (4 * i)) w m (a + of_nat (4 * j + k)) = m (a + of_nat (4 * j + k))" if "k < 4" for k
  proof (rule st32_outside)
    have u: "unat (a + of_nat (4 * i)) = unat a + 4 * i" "unat (a + of_nat (4 * j + k)) = unat a + (4 * j + k)"
      using assms that by (intro unat_plus_nat, simp)+
    have "unat (a + of_nat (4 * i)) + 4 \<le> 4294967296" using u(1) assms by simp
    from unat_sub_less_iff [OF this, of "a + of_nat (4 * j + k)"]
    have "\<not> unat (a + of_nat (4 * j + k) - (a + of_nat (4 * i))) < 4" unfolding u using False that by linarith
    then show "4 \<le> unat (a + of_nat (4 * j + k) - (a + of_nat (4 * i)))" by simp
  qed
  from this [of 0] this [of 1] this [of 2] this [of 3] False show ?thesis by (simp add: wd_def mem_get_def)
qed

text \<open>The disk block of file block \<open>k\<close>, 0 if there is none; the bytes of a file.\<close>

definition indirect :: "sfs_fs \<Rightarrow> ptr \<Rightarrow> daddr" where
  "indirect s sv = sfi_indirect (sv_i (svs s sv))"

definition fmap :: "sfs_fs \<Rightarrow> ptr \<Rightarrow> nat \<Rightarrow> daddr" where
  "fmap s sv k =
     (if k < 15 then sfi_direct (sv_i (svs s sv)) ! k
      else if indirect s sv = 0 then 0 else wd (blk s (indirect s sv)) (k - 15))"

definition fbyte :: "sfs_fs \<Rightarrow> ptr \<Rightarrow> nat \<Rightarrow> byte" where
  "fbyte s sv i = (if fmap s sv (i div 512) = 0 then 0 else blk s (fmap s sv (i div 512)) (i mod 512))"

definition in_use :: "sfs_fs \<Rightarrow> nat set \<Rightarrow> daddr \<Rightarrow> bool" where
  "in_use s M b \<longleftrightarrow> unat b < unat (sb_nblocks s) \<and> unat b \<in> M"

text \<open>The blocks of a file are in use, and no block serves two purposes.\<close>

definition file_ok :: "sfs_fs \<Rightarrow> nat set \<Rightarrow> ptr \<Rightarrow> bool" where
  "file_ok s M sv \<longleftrightarrow>
     length (sfi_direct (sv_i (svs s sv))) = 15 \<and>
     (indirect s sv \<noteq> 0 \<longrightarrow> in_use s M (indirect s sv)) \<and>
     (\<forall>k < 143. fmap s sv k \<noteq> 0 \<longrightarrow> in_use s M (fmap s sv k) \<and> fmap s sv k \<noteq> indirect s sv) \<and>
     (\<forall>i < 143. \<forall>j < 143. fmap s sv i = fmap s sv j \<and> fmap s sv i \<noteq> 0 \<longrightarrow> i = j)"

lemma file_ok_inj: "file_ok s M sv \<Longrightarrow> i < 143 \<Longrightarrow> j < 143 \<Longrightarrow> fmap s sv i = fmap s sv j \<Longrightarrow> fmap s sv i \<noteq> 0 \<Longrightarrow> i = j"
  unfolding file_ok_def by blast

definition fblocks :: "sfs_fs \<Rightarrow> ptr \<Rightarrow> daddr set" where
  "fblocks s sv = ({indirect s sv} \<union> fmap s sv ` {..<143}) - {0}"

lemma fmap_cong:
  assumes "sv_i (svs s' sv) = sv_i (svs s sv)" "indirect s sv \<noteq> 0 \<Longrightarrow> \<forall>k < 512. blk s' (indirect s sv) k = blk s (indirect s sv) k" "k < 143"
  shows "fmap s' sv k = fmap s sv k" "indirect s' sv = indirect s sv"
proof -
  show i: "indirect s' sv = indirect s sv" using assms(1) by (simp add: indirect_def)
  show "fmap s' sv k = fmap s sv k"
    using assms wd_cong [of "blk s' (indirect s sv)" "blk s (indirect s sv)" "k - 15"] by (simp add: fmap_def i)
qed

text \<open>A change elsewhere leaves a file and its bytes as they are.\<close>

lemma file_frame:
  assumes F: "file_ok s M sv" and "sv_i (svs s' sv) = sv_i (svs s sv)" "sb_nblocks s' = sb_nblocks s" "M \<subseteq> M'"
    and b: "\<And>c k. c \<in> fblocks s sv \<Longrightarrow> k < 512 \<Longrightarrow> blk s' c k = blk s c k"
  shows "file_ok s' M' sv" "\<And>k. k < 143 \<Longrightarrow> fmap s' sv k = fmap s sv k" "indirect s' sv = indirect s sv"
    "\<And>i. i < 143 * 512 \<Longrightarrow> fbyte s' sv i = fbyte s sv i"
proof -
  have ib: "indirect s sv \<noteq> 0 \<Longrightarrow> \<forall>k < 512. blk s' (indirect s sv) k = blk s (indirect s sv) k" using b by (auto simp: fblocks_def)
  show f: "\<And>k. k < 143 \<Longrightarrow> fmap s' sv k = fmap s sv k" using fmap_cong(1) [OF assms(2) ib] by blast
  show i: "indirect s' sv = indirect s sv" using assms(2) by (simp add: indirect_def)
  show "file_ok s' M' sv"
    using F assms(2-4) f unfolding file_ok_def i in_use_def by (auto simp: subset_iff)
  show "fbyte s' sv n = fbyte s sv n" if "n < 143 * 512" for n
  proof -
    have n: "n div 512 < 143" using that by (simp add: less_mult_imp_div_less)
    show ?thesis using b [of "fmap s sv (n div 512)" "n mod 512"] n f [OF n] by (auto simp: fbyte_def fblocks_def)
  qed
qed

section \<open>The block map\<close>

text \<open>Lookup: nothing changes but the memory of the buffers.\<close>

lemma bmap_split:
  assumes "sfs_ok s M" "k < 143"
  shows "sfs_bmap sv (of_nat k) doalloc s = (if k < 15 then bmap_direct sv k doalloc s else bmap_indirect sv (k - 15) doalloc s)"
proof -
  have u: "unat (of_nat k :: 32 word) = k" using assms(2) by (intro unat_of_nat_32) simp
  show ?thesis
  proof (cases "k < 15")
    case True
    then show ?thesis using u sfs_okD(5) [OF assms(1)] by (simp add: sfs_bmap_def word_less_nat_alt SFS_NDIRECT_def)
  next
    case False
    then have d: "unat (of_nat k - 15 :: 32 word) = k - 15" using u by (subst unat_sub) (simp_all add: word_le_nat_alt)
    have "unat ((of_nat k - 15 :: 32 word) div 128) = 0" "unat ((of_nat k - 15 :: 32 word) mod 128) = k - 15"
      using d assms(2) by (simp_all add: unat_div unat_mod_distrib)
    then show ?thesis using False u sfs_okD(5) [OF assms(1)]
      by (simp add: sfs_bmap_def word_less_nat_alt word_le_nat_alt sfs_consts Let_def)
  qed
qed

lemma idbuf_facts:
  assumes "sfs_ok s M"
  shows "below_buf (sfs_device s) (b_idbuf (s_bufs s)) 512" "\<forall>a. unat (a - b_idbuf (s_bufs s)) < 512 \<longrightarrow> scratch s a"
    "unat (b_idbuf (s_bufs s)) + 512 \<le> 2 ^ 32"
  using sfs_okD(6) [OF assms] unat_lt_32 [of "lh_buf (sfs_device s)"] by (auto simp: bufs_ok_def scratch_def below_buf_def)

lemma file_blocks_ok:
  assumes "sfs_ok s M" "file_ok s M sv" "k < 143"
  shows "bmap_result (fmap s sv k) s = Ok (0, fmap s sv k, s)"
  using assms by (intro bmap_result_ok) (auto simp: file_ok_def in_use_def)

lemma bmap_lookup:
  assumes ok: "sfs_ok s M" and F: "file_ok s M sv" and k: "k < 143"
  shows "\<exists>s'. sfs_bmap sv (of_nat k) False s = Ok (0, fmap s sv k, s') \<and> sfs_ok s' M \<and> same_env s s'
    \<and> svs s' = svs s \<and> blk s' = blk s \<and> mem_kept s s'"
proof (cases "k < 15 \<or> indirect s sv = 0")
  case True
  then have "sfs_bmap sv (of_nat k) False s = Ok (0, fmap s sv k, s)"
    using file_blocks_ok [OF ok F k] unfolding bmap_split [OF ok k]
    by (auto simp: bmap_direct_def bmap_indirect_def fmap_def indirect_def Let_def)
  then show ?thesis using ok by auto
next
  case False
  then have ib: "unat (indirect s sv) < unat (sb_nblocks s)" using F by (simp add: file_ok_def in_use_def)
  let ?p = "b_idbuf (s_bufs s)"
  obtain s' where r: "sfs_readblock (indirect s sv) ?p SFS_BLOCKSIZE s = Ok (0, s')" "sfs_ok s' M" "same_env s s'"
      "sfs_freemap s' = sfs_freemap s" "svs s' = svs s" "blk s' = blk s" "\<forall>j < 512. s_mem s' (?p + of_nat j) = blk s (indirect s sv) j" "mem_kept s s'"
    using readblock_env [OF ok ib idbuf_facts(1,2) [OF ok]] by blast
  have b: "s_bufs s' = s_bufs s" "sb_nblocks s' = sb_nblocks s" using r(3) by (simp_all add: same_env_def)
  have "ld32 (?p + of_nat (4 * (k - 15))) (s_mem s') = fmap s sv k"
    unfolding ld32_wd using r(7) False k wd_cong [of "mem_get ?p (s_mem s')" "blk s (indirect s sv)" "k - 15"]
    by (simp add: fmap_def mem_get_def)
  moreover have "bmap_result (fmap s sv k) s' = Ok (0, fmap s sv k, s')"
    using F k b(2) by (intro bmap_result_ok [OF r(2)]) (auto simp: file_ok_def in_use_def)
  ultimately have "sfs_bmap sv (of_nat k) False s = Ok (0, fmap s sv k, s')"
    using False r(1) b(1) unfolding bmap_split [OF ok k] by (simp add: bmap_indirect_def bmap_load_def indirect_def Let_def)
  then show ?thesis using r(2-6,8) by auto
qed

text \<open>
  \<open>kept\<close>: what an operation on the file \<open>sv\<close> leaves alone: the blocks in use that are not the file's,
  the other vnodes, the fields of the inode besides the map. The file gets no block that was in use.
\<close>

definition same_inode :: "sfs_vnode \<Rightarrow> sfs_vnode \<Rightarrow> bool" where
  "same_inode v v' \<longleftrightarrow> sv_ino v' = sv_ino v \<and> vn_refcount v' = vn_refcount v \<and> sfi_size (sv_i v') = sfi_size (sv_i v)
     \<and> sfi_type (sv_i v') = sfi_type (sv_i v) \<and> sfi_linkcount (sv_i v') = sfi_linkcount (sv_i v)"

definition kept :: "sfs_fs \<Rightarrow> nat set \<Rightarrow> ptr \<Rightarrow> sfs_fs \<Rightarrow> nat set \<Rightarrow> bool" where
  "kept s M sv s' M' \<longleftrightarrow>
     sfs_ok s' M' \<and> file_ok s' M' sv \<and> same_env s s' \<and> M \<subseteq> M' \<and>
     (\<forall>c. unat c \<in> M \<longrightarrow> c \<notin> fblocks s sv \<longrightarrow> blk s' c = blk s c) \<and>
     (\<forall>c \<in> fblocks s' sv. c \<in> fblocks s sv \<or> unat c \<notin> M) \<and>
     (\<forall>p. p \<noteq> sv \<longrightarrow> svs s' p = svs s p) \<and> same_inode (svs s sv) (svs s' sv)"

lemma kept_refl: "sfs_ok s M \<Longrightarrow> file_ok s M sv \<Longrightarrow> kept s M sv s M"
  by (auto simp: kept_def same_inode_def)

lemma kept_trans:
  assumes "kept s M sv s1 M1" "kept s1 M1 sv s2 M2"
  shows "kept s M sv s2 M2"
proof -
  have "blk s2 c = blk s c" if "unat c \<in> M" "c \<notin> fblocks s sv" for c
    using assms that unfolding kept_def by (metis subsetD)
  moreover have "c \<in> fblocks s sv \<or> unat c \<notin> M" if "c \<in> fblocks s2 sv" for c
    using assms that unfolding kept_def by (metis subsetD)
  ultimately show ?thesis
    using assms same_env_trans [of s s1 s2] unfolding kept_def same_inode_def by auto
qed

text \<open>Room for \<open>n\<close> more blocks of the file, the indirect block apart.\<close>

definition spare :: "sfs_fs \<Rightarrow> nat set \<Rightarrow> ptr \<Rightarrow> nat \<Rightarrow> bool" where
  "spare s M sv n \<longleftrightarrow> n + (if indirect s sv = 0 then 1 else 0) \<le> nfree s M"

lemma nfree_insert:
  assumes "unat b \<notin> M" "unat b < unat (sb_nblocks s)" "sb_nblocks s' = sb_nblocks s"
  shows "nfree s M = Suc (nfree s' (insert (unat b) M))"
proof -
  have "{..<unat (sb_nblocks s)} - M = insert (unat b) ({..<unat (sb_nblocks s)} - insert (unat b) M)" using assms(1,2) by auto
  then show ?thesis unfolding nfree_def assms(3) by (metis DiffD2 card_insert_disjoint finite_Diff finite_lessThan insertI1)
qed

lemma add_block:
  assumes F: "file_ok s M sv" and b: "in_use s' M' b" "unat b \<notin> M" "b \<noteq> 0" and M: "M \<subseteq> M'" and nb: "sb_nblocks s' = sb_nblocks s"
    and len: "length (sfi_direct (sv_i (svs s' sv))) = 15" and k: "k < 143" "fmap s sv k = 0"
    and fm: "\<And>i. i < 143 \<Longrightarrow> fmap s' sv i = (if i = k then b else fmap s sv i)" and ind: "indirect s' sv = indirect s sv"
    and zero: "\<And>j. j < 512 \<Longrightarrow> blk s' b j = 0"
    and same: "\<And>i j. i < 143 \<Longrightarrow> fmap s sv i \<noteq> 0 \<Longrightarrow> j < 512 \<Longrightarrow> blk s' (fmap s sv i) j = blk s (fmap s sv i) j"
  shows "file_ok s' M' sv" "\<And>i. i < 143 * 512 \<Longrightarrow> fbyte s' sv i = fbyte s sv i"
    "\<And>c. c \<in> fblocks s' sv \<Longrightarrow> c \<in> fblocks s sv \<or> unat c \<notin> M"
proof -
  have old: "in_use s M (fmap s sv i) \<and> fmap s sv i \<noteq> indirect s sv" if "i < 143" "fmap s sv i \<noteq> 0" for i
    using F that by (simp add: file_ok_def)
  have iu: "indirect s sv \<noteq> 0 \<Longrightarrow> in_use s M (indirect s sv)" using F by (simp add: file_ok_def)
  have up: "in_use s M c \<Longrightarrow> in_use s' M' c \<and> c \<noteq> b" for c using M nb b(2) by (auto simp: in_use_def)
  have ne: "fmap s sv i \<noteq> b" if "i < 143" for i using old [OF that] up b(3) by blast
  have bi: "b \<noteq> indirect s sv" using iu up b(3) by blast
  have inj: "i = j" if "i < 143" "j < 143" "fmap s' sv i = fmap s' sv j" "fmap s' sv i \<noteq> 0" for i j
    using that ne [of i] ne [of j] F by (auto simp: fm file_ok_def split: if_splits)
  have "in_use s' M' (fmap s' sv i) \<and> fmap s' sv i \<noteq> indirect s sv" if "i < 143" "fmap s' sv i \<noteq> 0" for i
    using that fm [OF that(1)] b(1) bi old up by (cases "i = k") auto
  then show "file_ok s' M' sv"
    unfolding file_ok_def ind using len iu up inj by blast
  show "fbyte s' sv i = fbyte s sv i" if "i < 143 * 512" for i
  proof -
    have d: "i div 512 < 143" using that by (simp add: less_mult_imp_div_less)
    show ?thesis using fm [OF d] k zero same [OF d] b(3) by (auto simp: fbyte_def)
  qed
  show "c \<in> fblocks s sv \<or> unat c \<notin> M" if c: "c \<in> fblocks s' sv" for c
  proof -
    consider "c = indirect s sv" "c \<noteq> 0" | i where "i < 143" "c = fmap s' sv i" "c \<noteq> 0" using c by (auto simp: fblocks_def ind)
    then show ?thesis
    proof cases
      case (2 i)
      then show ?thesis using fm [OF 2(1)] b(2) by (cases "i = k") (auto simp: fblocks_def)
    qed (simp add: fblocks_def)
  qed
qed

text \<open>A direct block.\<close>

lemma bmap_new_direct:
  assumes ok: "sfs_ok s M" and F: "file_ok s M sv" and k: "k < 15" "fmap s sv k = 0" and room: "spare s M sv 1"
  shows "\<exists>s' M'. bmap_direct sv k True s = Ok (0, fmap s' sv k, s') \<and> fmap s' sv k \<noteq> 0 \<and> kept s M sv s' M' \<and> mem_kept s s'
    \<and> (\<forall>i < 143 * 512. fbyte s' sv i = fbyte s sv i) \<and> (\<forall>n. spare s M sv (Suc n) \<longrightarrow> spare s' M' sv n)"
proof -
  have "0 < nfree s M" using room by (simp add: spare_def)
  then obtain b s1 where b: "sfs_balloc 0 s = Ok (0, b, s1)" "unat b \<notin> M" "unat b < unat (sb_nblocks s)" "b \<noteq> 0"
      "sfs_ok s1 (insert (unat b) M)" "same_env s s1" "svs s1 = svs s" "\<forall>j < 512. blk s1 b j = 0" "\<forall>c. c \<noteq> b \<longrightarrow> blk s1 c = blk s c"
      "\<forall>a. \<not> in_buf (sfs_device s) a \<longrightarrow> s_mem s1 a = s_mem s a"
    using balloc_ok [OF ok, of 0] by blast
  let ?M = "insert (unat b) M"
  define s2 where "s2 = upd_inode sv (\<lambda>d. d\<lparr>sfi_direct := (sfi_direct d)[k := b]\<rparr>) s1"
  have len: "length (sfi_direct (sv_i (svs s sv))) = 15" using F by (simp add: file_ok_def)
  have S: "sfs_device s2 = sfs_device s1" "s_mem s2 = s_mem s1" "sfs_freemap s2 = sfs_freemap s1" "same_env s1 s2" "blk s2 = blk s1"
    by (simp_all add: s2_def upd_inode_def upd_sv_def same_env_def blk_def fun_eq_iff)
  have e: "same_env s s2" by (rule same_env_trans [OF b(6) S(4)])
  then have nb: "sb_nblocks s2 = sb_nblocks s" by (simp add: same_env_def)
  have ok2: "sfs_ok s2 ?M" by (rule sfs_ok_kept [OF b(5) S(4,3)]) (simp add: mem_kept_def S(2))
  have ind: "indirect s2 sv = indirect s sv" by (simp add: indirect_def s2_def upd_inode_def upd_sv_def b(7))
  have bi: "indirect s sv \<noteq> 0 \<Longrightarrow> indirect s sv \<noteq> b" using F b(2) by (auto simp: file_ok_def in_use_def)
  have fm: "fmap s2 sv i = (if i = k then b else fmap s sv i)" if "i < 143" for i
    using that k len ind bi b(9) by (simp add: fmap_def S(5)) (simp add: s2_def upd_inode_def upd_sv_def b(7))
  have iu: "in_use s2 ?M b" using b(3) nb by (simp add: in_use_def)
  have same: "blk s2 (fmap s sv i) j = blk s (fmap s sv i) j" if "i < 143" "fmap s sv i \<noteq> 0" "j < 512" for i j
    using that F b(2,9) by (auto simp: file_ok_def in_use_def S(5))
  have l2: "length (sfi_direct (sv_i (svs s2 sv))) = 15" using len by (simp add: s2_def upd_inode_def upd_sv_def b(7))
  have z: "\<And>j. j < 512 \<Longrightarrow> blk s2 b j = 0" using b(8) by (simp add: S(5))
  have k': "k < 143" using k(1) by simp
  note A = add_block [OF F iu b(2,4) _ nb l2 k' k(2) fm ind z same]
  have fk: "fmap s2 sv k = b" using fm [OF k'] by simp
  have "bmap_result b s2 = Ok (0, b, s2)" by (rule bmap_result_ok [OF ok2]) (use iu in \<open>simp add: in_use_def\<close>)
  then have run: "bmap_direct sv k True s = Ok (0, fmap s2 sv k, s2)"
    using k b(1) unfolding fk by (simp add: bmap_direct_def fmap_def s2_def Let_def)
  have "svs s2 p = svs s p" if "p \<noteq> sv" for p using that by (simp add: s2_def upd_inode_def upd_sv_def b(7))
  moreover have "same_inode (svs s sv) (svs s2 sv)" by (simp add: s2_def upd_inode_def upd_sv_def b(7) same_inode_def)
  moreover have "blk s2 c = blk s c" if "unat c \<in> M" for c using that b(2,9) unfolding S(5) by metis
  ultimately have "kept s M sv s2 ?M"
    unfolding kept_def using ok2 A(1,3) e by blast
  moreover have "mem_kept s s2" using b(10) by (auto simp: mem_kept_def S(2) scratch_def)
  moreover have "spare s M sv (Suc n) \<longrightarrow> spare s2 ?M sv n" for n
    using nfree_insert [OF b(2,3) nb] by (simp add: spare_def ind)
  ultimately show ?thesis using run fk b(4) A(2) by auto
qed

text \<open>The indirect block in its buffer: read, or new and empty.\<close>

lemma bmap_load_old:
  assumes ok: "sfs_ok s M" and F: "file_ok s M sv" and i: "indirect s sv \<noteq> 0"
  shows "\<exists>s'. bmap_load sv s = Ok (0, indirect s sv, s') \<and> sfs_ok s' M \<and> same_env s s' \<and> svs s' = svs s \<and> blk s' = blk s \<and> mem_kept s s'
    \<and> (\<forall>j < 128. wd (mem_get (b_idbuf (s_bufs s)) (s_mem s')) j = fmap s sv (15 + j))"
proof -
  have ib: "unat (indirect s sv) < unat (sb_nblocks s)" using F i by (simp add: file_ok_def in_use_def)
  let ?p = "b_idbuf (s_bufs s)"
  obtain s' where r: "sfs_readblock (indirect s sv) ?p SFS_BLOCKSIZE s = Ok (0, s')" "sfs_ok s' M" "same_env s s'"
      "svs s' = svs s" "blk s' = blk s" "\<forall>j < 512. s_mem s' (?p + of_nat j) = blk s (indirect s sv) j" "mem_kept s s'"
    using readblock_env [OF ok ib idbuf_facts(1,2) [OF ok]] by blast
  have "wd (mem_get ?p (s_mem s')) j = fmap s sv (15 + j)" if "j < 128" for j
    using r(6) i that wd_cong [of "mem_get ?p (s_mem s')" "blk s (indirect s sv)" j] by (simp add: fmap_def mem_get_def)
  moreover have "bmap_load sv s = Ok (0, indirect s sv, s')" using r(1) i by (simp add: bmap_load_def indirect_def Let_def)
  ultimately show ?thesis using r(2-5,7) by auto
qed

lemma bmap_load_new:
  assumes ok: "sfs_ok s M" and F: "file_ok s M sv" and i: "indirect s sv = 0" and room: "spare s M sv 1"
  shows "\<exists>s' M'. bmap_load sv s = Ok (0, indirect s' sv, s') \<and> indirect s' sv \<noteq> 0 \<and> kept s M sv s' M' \<and> mem_kept s s'
    \<and> (\<forall>k < 143. fmap s' sv k = fmap s sv k) \<and> (\<forall>i < 143 * 512. fbyte s' sv i = fbyte s sv i)
    \<and> (\<forall>n. spare s M sv n \<longrightarrow> spare s' M' sv n) \<and> (\<forall>j < 128. wd (mem_get (b_idbuf (s_bufs s)) (s_mem s')) j = fmap s' sv (15 + j))"
proof -
  have "0 < nfree s M" using room by (simp add: spare_def)
  then obtain b s1 where b: "sfs_balloc 0 s = Ok (0, b, s1)" "unat b \<notin> M" "unat b < unat (sb_nblocks s)" "b \<noteq> 0"
      "sfs_ok s1 (insert (unat b) M)" "same_env s s1" "svs s1 = svs s" "\<forall>j < 512. blk s1 b j = 0" "\<forall>c. c \<noteq> b \<longrightarrow> blk s1 c = blk s c"
      "\<forall>a. \<not> in_buf (sfs_device s) a \<longrightarrow> s_mem s1 a = s_mem s a"
    using balloc_ok [OF ok, of 0] by blast
  let ?M = "insert (unat b) M" and ?p = "b_idbuf (s_bufs s)"
  define s2 where "s2 = (upd_inode sv (\<lambda>d. d\<lparr>sfi_indirect := b\<rparr>) s1)\<lparr>s_mem := bzero ?p 512 (s_mem s1)\<rparr>"
  have env: "s_bufs s1 = s_bufs s" "scratch s1 = scratch s" using b(6) same_env_scratch by (simp_all add: same_env_def)
  have S: "sfs_freemap s2 = sfs_freemap s1" "same_env s1 s2" "blk s2 = blk s1" "indirect s2 sv = b"
    by (simp_all add: s2_def upd_inode_def upd_sv_def same_env_def blk_def fun_eq_iff indirect_def)
  have e: "same_env s s2" by (rule same_env_trans [OF b(6) S(2)])
  then have nb: "sb_nblocks s2 = sb_nblocks s" by (simp add: same_env_def)
  have "mem_kept s1 s2" using idbuf_facts(2) [OF ok] env by (auto simp: mem_kept_def s2_def bzero_def)
  then have ok2: "sfs_ok s2 ?M" using sfs_ok_kept [OF b(5) S(2,1)] by blast
  have fm: "fmap s2 sv k = fmap s sv k" if "k < 143" for k
    using that i wd_zero [of "blk s1 b" "k - 15"] b(4,8) by (simp add: fmap_def S(3,4)) (simp add: s2_def upd_inode_def upd_sv_def b(7))
  have old: "in_use s M (fmap s sv k)" if "k < 143" "fmap s sv k \<noteq> 0" for k using F that by (simp add: file_ok_def)
  then have nbk: "fmap s sv k \<noteq> b" if "k < 143" "fmap s sv k \<noteq> 0" for k using that b(2) by (auto simp: in_use_def)
  have F2: "file_ok s2 ?M sv"
  proof -
    have "length (sfi_direct (sv_i (svs s2 sv))) = 15" using F by (simp add: file_ok_def s2_def upd_inode_def upd_sv_def b(7))
    moreover have "in_use s2 ?M b" using b(3) nb by (simp add: in_use_def)
    moreover have "in_use s2 ?M (fmap s2 sv k) \<and> fmap s2 sv k \<noteq> b" if "k < 143" "fmap s2 sv k \<noteq> 0" for k
      using that fm old nbk nb by (auto simp: in_use_def)
    moreover have "k = j" if "k < 143" "j < 143" "fmap s2 sv k = fmap s2 sv j \<and> fmap s2 sv k \<noteq> 0" for k j
      using that file_ok_inj [OF F] fm by metis
    ultimately show ?thesis unfolding file_ok_def S(4) by blast
  qed
  have fb: "fbyte s2 sv n = fbyte s sv n" if "n < 143 * 512" for n
  proof -
    have "n div 512 < 143" using that by (simp add: less_mult_imp_div_less)
    then show ?thesis using fm nbk b(9) by (simp add: fbyte_def S(3))
  qed
  have fbl: "c \<in> fblocks s sv \<or> unat c \<notin> M" if "c \<in> fblocks s2 sv" for c
    using that fm b(2) by (auto simp: fblocks_def S(4))
  have "svs s2 p = svs s p" if "p \<noteq> sv" for p using that by (simp add: s2_def upd_inode_def upd_sv_def b(7))
  moreover have "same_inode (svs s sv) (svs s2 sv)" by (simp add: s2_def upd_inode_def upd_sv_def b(7) same_inode_def)
  moreover have "blk s2 c = blk s c" if "unat c \<in> M" for c using that b(2,9) unfolding S(3) by metis
  ultimately have K: "kept s M sv s2 ?M" unfolding kept_def using ok2 F2 fbl e by blast
  have run: "bmap_load sv s = Ok (0, indirect s2 sv, s2)"
    using i b(1) unfolding S(4) by (simp add: bmap_load_def indirect_def Let_def s2_def SFS_BLOCKSIZE_def env upd_inode_def upd_sv_def)
  have "mem_kept s s2"
    using b(10) idbuf_facts(2) [OF ok] by (auto simp: mem_kept_def s2_def bzero_def scratch_def)
  moreover have "spare s M sv n \<longrightarrow> spare s2 ?M sv n" for n
    using nfree_insert [OF b(2,3) nb] i b(4) by (simp add: spare_def S(4))
  moreover have "wd (mem_get ?p (s_mem s2)) j = fmap s2 sv (15 + j)" if "j < 128" for j
    using that fm [of "15 + j"] i wd_zero [of "mem_get ?p (s_mem s2)" j] by (simp add: fmap_def mem_get_def s2_def bzero_def)
  ultimately show ?thesis using run K fm fb S(4) b(4) by auto
qed

text \<open>A block entered in the indirect block that is in the buffer.\<close>

lemma bmap_new_entry:
  assumes ok: "sfs_ok s M" and F: "file_ok s M sv" and i: "indirect s sv \<noteq> 0" and j: "j < 128" "fmap s sv (15 + j) = 0"
    and room: "spare s M sv 1" and buf: "\<forall>j < 128. wd (mem_get (b_idbuf (s_bufs s)) (s_mem s)) j = fmap s sv (15 + j)"
  shows "\<exists>b s1 s' M'. sfs_balloc 0 s = Ok (0, b, s1) \<and> b \<noteq> 0 \<and> s_bufs s1 = s_bufs s
    \<and> sfs_writeblock (indirect s sv) (b_idbuf (s_bufs s)) SFS_BLOCKSIZE
        (s1\<lparr>s_mem := st32 (b_idbuf (s_bufs s) + of_nat (4 * j)) b (s_mem s1)\<rparr>) = Ok (0, s')
    \<and> fmap s' sv (15 + j) = b \<and> kept s M sv s' M' \<and> mem_kept s s'
    \<and> (\<forall>i < 143 * 512. fbyte s' sv i = fbyte s sv i) \<and> (\<forall>n. spare s M sv (Suc n) \<longrightarrow> spare s' M' sv n)"
proof -
  have "0 < nfree s M" using room by (simp add: spare_def)
  then obtain b s1 where b: "sfs_balloc 0 s = Ok (0, b, s1)" "unat b \<notin> M" "unat b < unat (sb_nblocks s)" "b \<noteq> 0"
      "sfs_ok s1 (insert (unat b) M)" "same_env s s1" "svs s1 = svs s" "\<forall>j < 512. blk s1 b j = 0" "\<forall>c. c \<noteq> b \<longrightarrow> blk s1 c = blk s c"
      "\<forall>a. \<not> in_buf (sfs_device s) a \<longrightarrow> s_mem s1 a = s_mem s a"
    using balloc_ok [OF ok, of 0] by blast
  let ?M = "insert (unat b) M" and ?p = "b_idbuf (s_bufs s)" and ?ib = "indirect s sv"
  define s2 where "s2 = s1\<lparr>s_mem := st32 (?p + of_nat (4 * j)) b (s_mem s1)\<rparr>"
  have env: "s_bufs s1 = s_bufs s" "scratch s1 = scratch s" "sb_nblocks s1 = sb_nblocks s" "same_dev (sfs_device s) (sfs_device s1)"
    using b(6) same_env_scratch by (simp_all add: same_env_def)
  note I = idbuf_facts [OF ok]
  have S: "same_env s1 s2" "sfs_freemap s2 = sfs_freemap s1" "svs s2 = svs s" "blk s2 = blk s1" "sfs_device s2 = sfs_device s1"
    by (simp_all add: s2_def same_env_def b(7) blk_def fun_eq_iff)
  have st: "s_mem s2 a = s_mem s1 a" if "\<not> unat (a - ?p) < 512" for a
  proof -
    have "4 \<le> unat (a - (?p + of_nat (4 * j)))"
    proof (rule ccontr)
      assume "\<not> 4 \<le> unat (a - (?p + of_nat (4 * j)))"
      moreover have u: "unat (?p + of_nat (4 * j)) = unat ?p + 4 * j" using I(3) j(1) by (intro unat_plus_nat) simp
      ultimately have "unat ?p + 4 * j \<le> unat a \<and> unat a < unat ?p + 4 * j + 4"
        using unat_sub_less_iff [of "?p + of_nat (4 * j)" 4 a] I(3) j(1) by simp
      then show False using that unat_sub_less_iff [of ?p 512 a] I(3) j(1) by simp
    qed
    then show ?thesis by (simp add: s2_def st32_outside)
  qed
  have mk: "mem_kept s1 s2" using st I(2) env by (auto simp: mem_kept_def)
  have ok2: "sfs_ok s2 ?M" by (rule sfs_ok_kept [OF b(5) S(1,2) mk])
  have ib: "in_use s M ?ib" using F i by (simp add: file_ok_def)
  have nb2: "sb_nblocks s2 = sb_nblocks s" using env(3) by (simp add: s2_def)
  obtain s' where w: "sfs_writeblock ?ib ?p SFS_BLOCKSIZE s2 = Ok (0, s')" "sfs_ok s' ?M" "same_env s2 s'" "svs s' = svs s2"
      "\<forall>k < 512. blk s' ?ib k = s_mem s2 (?p + of_nat k)" "\<forall>c. c \<noteq> ?ib \<longrightarrow> blk s' c = blk s2 c"
      "\<forall>a. \<not> in_buf (sfs_device s2) a \<longrightarrow> s_mem s' a = s_mem s2 a"
    using writeblock_env [OF ok2, of ?ib ?p] ib nb2 I(1) same_dev_simps(6) [OF env(4)] by (auto simp: in_use_def S(5))
  have e: "same_env s s'" using same_env_trans [OF same_env_trans [OF b(6) S(1)] w(3)] .
  then have nb: "sb_nblocks s' = sb_nblocks s" by (simp add: same_env_def)
  have sv: "svs s' = svs s" using w(4) S(3) by simp
  have ind: "indirect s' sv = ?ib" by (simp add: indirect_def sv)
  have "wd (mem_get ?p (s_mem s1)) n = fmap s sv (15 + n)" if "n < 128" for n
  proof -
    have "mem_get ?p (s_mem s1) k = mem_get ?p (s_mem s) k" if "k < 512" for k
      using b(10) below_buf_not_in_buf [OF sfs_okD(1) [OF ok] I(1) that] by (simp add: mem_get_def)
    then show ?thesis using buf that wd_cong [of "mem_get ?p (s_mem s1)" "mem_get ?p (s_mem s)" n] by simp
  qed
  then have words: "wd (blk s' ?ib) n = (if n = j then b else fmap s sv (15 + n))" if "n < 128" for n
    using that w(5) wd_cong [of "blk s' ?ib" "mem_get ?p (s_mem s2)" n] wd_st32 [OF I(3) j(1) that, of b "s_mem s1"]
    by (simp add: mem_get_def s2_def)
  have fm: "fmap s' sv k = (if k = 15 + j then b else fmap s sv k)" if "k < 143" for k
  proof (cases "k < 15")
    case True
    then show ?thesis by (simp add: fmap_def sv)
  next
    case False
    then have "fmap s' sv k = wd (blk s' ?ib) (k - 15)" using i by (simp add: fmap_def ind)
    then show ?thesis using words [of "k - 15"] False that by auto
  qed
  have iu: "in_use s' ?M b" using b(3) nb by (simp add: in_use_def)
  have nib: "b \<noteq> ?ib" using ib b(2) by (auto simp: in_use_def)
  have z: "blk s' b n = 0" if "n < 512" for n using that b(8) w(6) nib by (simp add: S(4))
  have same: "blk s' (fmap s sv k) n = blk s (fmap s sv k) n" if "k < 143" "fmap s sv k \<noteq> 0" "n < 512" for k n
  proof -
    have "fmap s sv k \<noteq> ?ib" "fmap s sv k \<noteq> b" using F that(1,2) b(2) by (auto simp: file_ok_def in_use_def)
    then show ?thesis using w(6) b(9) by (simp add: S(4))
  qed
  have l2: "length (sfi_direct (sv_i (svs s' sv))) = 15" using F by (simp add: file_ok_def sv)
  have j': "15 + j < 143" using j(1) by simp
  note A = add_block [OF F iu b(2,4) _ nb l2 j' j(2) fm ind z same]
  have "blk s' c = blk s c" if "unat c \<in> M" "c \<notin> fblocks s sv" for c
  proof -
    have "c \<noteq> ?ib" "c \<noteq> b" using that i b(2) by (auto simp: fblocks_def)
    then show ?thesis using w(6) b(9) by (simp add: S(4))
  qed
  then have "kept s M sv s' ?M"
    unfolding kept_def using w(2) A(1,3) e sv by (simp add: same_inode_def) blast
  moreover have "mem_kept s s'"
    using w(7) st b(10) I(2) same_dev_simps(7) [OF env(4)] by (auto simp: mem_kept_def scratch_def S(5))
  moreover have "spare s M sv (Suc n) \<longrightarrow> spare s' ?M sv n" for n
    using nfree_insert [OF b(2,3) nb] by (simp add: spare_def ind)
  moreover have "fmap s' sv (15 + j) = b" using fm [OF j'] by simp
  ultimately show ?thesis using b(1,4) env(1) w(1) A(2) unfolding s2_def by auto
qed

text \<open>The map with allocation: the block is there afterwards, and the bytes of the file are what they were.\<close>

definition mapped :: "sfs_fs \<Rightarrow> nat set \<Rightarrow> ptr \<Rightarrow> nat \<Rightarrow> (int \<times> daddr \<times> sfs_fs) kres \<Rightarrow> bool" where
  "mapped s M sv k r \<longleftrightarrow> (\<exists>s' M'. r = Ok (0, fmap s' sv k, s') \<and> fmap s' sv k \<noteq> 0 \<and> kept s M sv s' M' \<and> mem_kept s s'
     \<and> (\<forall>i < 143 * 512. fbyte s' sv i = fbyte s sv i) \<and> (\<forall>n. spare s M sv (Suc n) \<longrightarrow> spare s' M' sv n))"

lemma kept_same:
  assumes "sfs_ok s M" "file_ok s M sv" "sfs_ok s' M" "same_env s s'" "svs s' = svs s" "blk s' = blk s"
  shows "kept s M sv s' M" "indirect s' sv = indirect s sv" "\<And>k. fmap s' sv k = fmap s sv k" "\<And>i. fbyte s' sv i = fbyte s sv i"
    "spare s' M sv n = spare s M sv n"
proof -
  show i: "indirect s' sv = indirect s sv" using assms(5) by (simp add: indirect_def)
  show f: "fmap s' sv k = fmap s sv k" for k using assms(5,6) i by (simp add: fmap_def)
  show "fbyte s' sv i = fbyte s sv i" for i using f assms(6) by (simp add: fbyte_def)
  have nb: "sb_nblocks s' = sb_nblocks s" using assms(4) by (simp add: same_env_def)
  have "file_ok s' M sv" using assms(2) unfolding file_ok_def in_use_def f i nb assms(5) .
  moreover have "fblocks s' sv = fblocks s sv" using f i by (simp add: fblocks_def)
  ultimately show "kept s M sv s' M" using assms by (simp add: kept_def same_inode_def)
  show "spare s' M sv n = spare s M sv n" using i nb by (simp add: spare_def nfree_def)
qed

lemma bmap_finish:
  assumes ok: "sfs_ok s M" and F: "file_ok s M sv" and i: "indirect s sv \<noteq> 0" and j: "j < 128" and room: "fmap s sv (15 + j) = 0 \<Longrightarrow> spare s M sv 1"
    and buf: "\<forall>j < 128. wd (mem_get (b_idbuf (s_bufs s)) (s_mem s)) j = fmap s sv (15 + j)"
    and ib: "ib = indirect s sv"
  defines "slot \<equiv> b_idbuf (s_bufs s) + of_nat (4 * j)"
  shows "mapped s M sv (15 + j)
     (if ld32 slot (s_mem s) = 0
      then kbind (sfs_balloc (ld32 slot (s_mem s)) s) (\<lambda>(result, block, s).
             if result \<noteq> 0 then Ok (result, 0, s)
             else let s = s\<lparr>s_mem := st32 slot block (s_mem s)\<rparr>
                  in kbind (sfs_writeblock ib (b_idbuf (s_bufs s)) SFS_BLOCKSIZE s) (\<lambda>(result, s).
                       if result \<noteq> 0 then Ok (result, 0, s) else bmap_result block s))
      else bmap_result (ld32 slot (s_mem s)) s)"
proof -
  have ld: "ld32 slot (s_mem s) = fmap s sv (15 + j)" unfolding slot_def ld32_wd using buf j by simp
  show ?thesis
  proof (cases "fmap s sv (15 + j) = 0")
    case False
    have "bmap_result (fmap s sv (15 + j)) s = Ok (0, fmap s sv (15 + j), s)" using j by (intro file_blocks_ok [OF ok F]) simp
    moreover have "spare s M sv (Suc n) \<longrightarrow> spare s M sv n" for n by (simp add: spare_def)
    ultimately show ?thesis using False kept_refl [OF ok F] unfolding ld mapped_def by auto
  next
    case True
    obtain b s1 s' M' where b: "sfs_balloc 0 s = Ok (0, b, s1)" "b \<noteq> 0" "s_bufs s1 = s_bufs s"
        "sfs_writeblock (indirect s sv) (b_idbuf (s_bufs s)) SFS_BLOCKSIZE (s1\<lparr>s_mem := st32 slot b (s_mem s1)\<rparr>) = Ok (0, s')"
        "fmap s' sv (15 + j) = b" "kept s M sv s' M'" "mem_kept s s'" "\<forall>i < 143 * 512. fbyte s' sv i = fbyte s sv i"
        "\<forall>n. spare s M sv (Suc n) \<longrightarrow> spare s' M' sv n"
      using bmap_new_entry [OF ok F i j True room [OF True] buf] unfolding slot_def by blast
    have "sfs_ok s' M'" "file_ok s' M' sv" using b(6) by (simp_all add: kept_def)
    then have "bmap_result b s' = Ok (0, b, s')" using file_blocks_ok [of s' M' sv "15 + j"] j b(5) by simp
    then show ?thesis unfolding ld mapped_def using True b ib by (auto simp: Let_def)
  qed
qed

lemma mapped_trans:
  assumes "kept s M sv s1 M1" "mem_kept s s1" "\<forall>i < 143 * 512. fbyte s1 sv i = fbyte s sv i"
    "\<forall>n. spare s M sv n \<longrightarrow> spare s1 M1 sv n" "mapped s1 M1 sv k r"
  shows "mapped s M sv k r"
proof -
  obtain s' M' where m: "r = Ok (0, fmap s' sv k, s')" "fmap s' sv k \<noteq> 0" "kept s1 M1 sv s' M'" "mem_kept s1 s'"
      "\<forall>i < 143 * 512. fbyte s' sv i = fbyte s1 sv i" "\<forall>n. spare s1 M1 sv (Suc n) \<longrightarrow> spare s' M' sv n"
    using assms(5) unfolding mapped_def by blast
  have "same_env s s1" using assms(1) by (simp add: kept_def)
  then have "mem_kept s s'" by (rule mem_kept_trans [OF assms(2) m(4)])
  then show ?thesis
    unfolding mapped_def using m(1,2,5,6) kept_trans [OF assms(1) m(3)] assms(3,4)
    by (intro exI [of _ s'] exI [of _ M']) simp
qed

lemma bmap_alloc:
  assumes ok: "sfs_ok s M" and F: "file_ok s M sv" and k: "k < 143" and room: "fmap s sv k = 0 \<Longrightarrow> spare s M sv 1"
  shows "mapped s M sv k (sfs_bmap sv (of_nat k) True s)"
proof (cases "k < 15")
  case True
  show ?thesis
  proof (cases "fmap s sv k = 0")
    case zero: True
    then show ?thesis using bmap_new_direct [OF ok F True _ room [OF zero]] True unfolding bmap_split [OF ok k] mapped_def by simp
  next
    case False
    have "bmap_direct sv k True s = Ok (0, fmap s sv k, s)"
      using file_blocks_ok [OF ok F k] False True by (simp add: bmap_direct_def fmap_def Let_def)
    moreover have "spare s M sv (Suc n) \<longrightarrow> spare s M sv n" for n by (simp add: spare_def)
    ultimately show ?thesis using False True kept_refl [OF ok F] unfolding bmap_split [OF ok k] mapped_def by auto
  qed
next
  case False
  obtain j where j: "j < 128" "k = 15 + j" using False k le_Suc_ex [of 15 k] by auto
  have "\<exists>s1 M1. bmap_load sv s = Ok (0, indirect s1 sv, s1) \<and> indirect s1 sv \<noteq> 0 \<and> kept s M sv s1 M1 \<and> mem_kept s s1
      \<and> (\<forall>i < 143 * 512. fbyte s1 sv i = fbyte s sv i) \<and> (\<forall>n. spare s M sv n \<longrightarrow> spare s1 M1 sv n)
      \<and> (\<forall>j < 128. wd (mem_get (b_idbuf (s_bufs s)) (s_mem s1)) j = fmap s1 sv (15 + j)) \<and> fmap s1 sv k = fmap s sv k"
  proof (cases "indirect s sv = 0")
    case True
    then have "fmap s sv k = 0" using False by (simp add: fmap_def)
    from bmap_load_new [OF ok F True room [OF this]] show ?thesis using k by blast
  next
    case i: False
    obtain s1 where s1: "bmap_load sv s = Ok (0, indirect s sv, s1)" "sfs_ok s1 M" "same_env s s1" "svs s1 = svs s" "blk s1 = blk s" "mem_kept s s1"
        "\<forall>j < 128. wd (mem_get (b_idbuf (s_bufs s)) (s_mem s1)) j = fmap s sv (15 + j)"
      using bmap_load_old [OF ok F i] by blast
    note K = kept_same [OF ok F s1(2-5)]
    show ?thesis using s1(1,6,7) i K by (intro exI [of _ s1] exI [of _ M]) auto
  qed
  then obtain s1 M1 where L: "bmap_load sv s = Ok (0, indirect s1 sv, s1)" "indirect s1 sv \<noteq> 0" "kept s M sv s1 M1" "mem_kept s s1"
      "\<forall>i < 143 * 512. fbyte s1 sv i = fbyte s sv i" "\<forall>n. spare s M sv n \<longrightarrow> spare s1 M1 sv n"
      "\<forall>j < 128. wd (mem_get (b_idbuf (s_bufs s)) (s_mem s1)) j = fmap s1 sv (15 + j)" "fmap s1 sv k = fmap s sv k"
    by blast
  have K: "sfs_ok s1 M1" "file_ok s1 M1 sv" "s_bufs s1 = s_bufs s" using L(3) by (simp_all add: kept_def same_env_def)
  have "fmap s1 sv (15 + j) = 0 \<Longrightarrow> spare s1 M1 sv 1" using L(6,8) room j(2) by metis
  note B = bmap_finish [OF K(1,2) L(2) j(1) this _ refl, unfolded K(3), OF _ L(7)]
  have "mapped s1 M1 sv (15 + j) (bmap_indirect sv j True s)"
    unfolding bmap_indirect_def L(1) using B by (simp only: simp_thms if_False kbind_Ok prod.case Let_def K(3))
  moreover have "sfs_bmap sv (of_nat k) True s = bmap_indirect sv j True s" unfolding bmap_split [OF ok k] using j(2) by simp
  ultimately have "mapped s1 M1 sv (15 + j) (sfs_bmap sv (of_nat k) True s)" by simp
  then show ?thesis using mapped_trans [OF L(3-6)] j(2) by simp
qed

end
