(* ===== verification/SFS_File.thy ===== *)
theory SFS_File
  imports SFS_Spec
begin

text \<open>
  Reading and writing files of SFS through a kernel buffer: the leading partial block, the whole
  blocks and the trailing partial block together transfer exactly the bytes of the file.
\<close>

unbundle bit_operations_syntax

section \<open>Requests\<close>

text \<open>The buffer of a request: not memory that the file system or the disk uses.\<close>

definition ubuf :: "sfs_fs \<Rightarrow> vaddr \<Rightarrow> nat \<Rightarrow> bool" where
  "ubuf s kb n \<longleftrightarrow> below_buf (sfs_device s) kb n \<and>
     (\<forall>j < n. \<not> scratch s (kb + of_nat j) \<and> \<not> unat (kb + of_nat j - b_zeros (s_bufs s)) < 512
        \<and> \<not> unat (kb + of_nat j - b_zeros16 (s_bufs s)) < 16)"

lemma ubuf_part:
  assumes "ubuf s kb n" "i + l \<le> n"
  shows "ubuf s (kb + of_nat i) l"
proof -
  have b: "unat kb + n \<le> unat (lh_buf (sfs_device s))" using assms(1) by (simp add: ubuf_def below_buf_def)
  have "unat (kb + of_nat i) + l \<le> unat (lh_buf (sfs_device s))"
  proof (cases "l = 0")
    case True
    then show ?thesis
    proof (cases "i = 0 \<or> unat kb + i < 4294967296")
      case True
      then have "unat (kb + of_nat i) = unat kb + i" using unat_plus_nat [of kb i] by auto
      then show ?thesis using b assms(2) by simp
    next
      case False
      then show ?thesis using b assms(2) unat_lt_32 [of "lh_buf (sfs_device s)"] by linarith
    qed
  next
    case False
    then have "unat (kb + of_nat i) = unat kb + i"
      using b assms(2) unat_lt_32 [of "lh_buf (sfs_device s)"] by (intro unat_plus_nat) linarith
    then show ?thesis using b assms(2) by simp
  qed
  moreover have "\<not> scratch s (kb + of_nat i + of_nat j) \<and> \<not> unat (kb + of_nat i + of_nat j - b_zeros (s_bufs s)) < 512
      \<and> \<not> unat (kb + of_nat i + of_nat j - b_zeros16 (s_bufs s)) < 16" if "j < l" for j
  proof -
    have e: "kb + of_nat i + of_nat j = kb + of_nat (i + j)" by simp
    show ?thesis using assms that unfolding ubuf_def e by (meson add_less_cancel_left less_le_trans)
  qed
  ultimately show ?thesis unfolding ubuf_def below_buf_def by blast
qed

lemma ubuf_env: "same_env s s' \<Longrightarrow> ubuf s' kb n = ubuf s kb n"
  using same_env_scratch [of s s'] same_dev_simps(6) [of "sfs_device s" "sfs_device s'"] by (auto simp: ubuf_def same_env_def)

lemma ubuf_area:
  assumes "ubuf s kb n" "unat (a - kb) < n"
  shows "\<not> scratch s a" "\<not> unat (a - b_zeros (s_bufs s)) < 512" "\<not> unat (a - b_zeros16 (s_bufs s)) < 16"
proof -
  have a: "a = kb + of_nat (unat (a - kb))" by simp
  show "\<not> scratch s a" "\<not> unat (a - b_zeros (s_bufs s)) < 512" "\<not> unat (a - b_zeros16 (s_bufs s)) < 16"
    using assms a unfolding ubuf_def by metis+
qed

definition rd_post :: "sfs_fs \<Rightarrow> nat set \<Rightarrow> ptr \<Rightarrow> nat \<Rightarrow> vaddr \<Rightarrow> nat \<Rightarrow> sfs_fs \<Rightarrow> bool" where
  "rd_post s M sv off kb len s' \<longleftrightarrow>
     sfs_ok s' M \<and> same_env s s' \<and> svs s' = svs s \<and> blk s' = blk s \<and>
     (\<forall>j < len. s_mem s' (kb + of_nat j) = fbyte s sv (off + j)) \<and>
     (\<forall>a. \<not> scratch s a \<longrightarrow> \<not> unat (a - kb) < len \<longrightarrow> s_mem s' a = s_mem s a)"

text \<open>\<open>c\<close> blocks at most are added to the file.\<close>

definition wr_post :: "sfs_fs \<Rightarrow> nat set \<Rightarrow> ptr \<Rightarrow> nat \<Rightarrow> vaddr \<Rightarrow> nat \<Rightarrow> nat \<Rightarrow> sfs_fs \<Rightarrow> nat set \<Rightarrow> bool" where
  "wr_post s M sv off kb len c s' M' \<longleftrightarrow>
     kept s M sv s' M' \<and> mem_kept s s' \<and> (\<forall>n. spare s M sv (c + n) \<longrightarrow> spare s' M' sv n) \<and>
     (\<forall>i < 143 * 512. fbyte s' sv i = (if off \<le> i \<and> i < off + len then s_mem s (kb + of_nat (i - off)) else fbyte s sv i))"

lemma rd_post_refl: "sfs_ok s M \<Longrightarrow> rd_post s M sv off kb 0 s"
  by (simp add: rd_post_def)

lemma wr_post_refl: "sfs_ok s M \<Longrightarrow> file_ok s M sv \<Longrightarrow> wr_post s M sv off kb 0 0 s M"
  by (auto simp: wr_post_def kept_refl)

lemma fbyte_same: "svs s' = svs s \<Longrightarrow> blk s' = blk s \<Longrightarrow> fbyte s' sv i = fbyte s sv i"
  by (simp add: fbyte_def fmap_def indirect_def)

lemma rd_post_trans:
  assumes 1: "rd_post s M sv off kb l1 s1" and 2: "rd_post s1 M sv (off + l1) (kb + of_nat l1) l2 s2" and u: "ubuf s kb (l1 + l2)"
  shows "rd_post s M sv off kb (l1 + l2) s2"
proof -
  have e: "same_env s s1" "svs s1 = svs s" "blk s1 = blk s" using 1 by (simp_all add: rd_post_def)
  note sc = same_env_scratch [OF e(1)]
  have w: "unat kb + (l1 + l2) < 4294967296" using u unat_lt_32 [of "lh_buf (sfs_device s)"] by (simp add: ubuf_def below_buf_def)
  then have k1: "unat (kb + of_nat l1) = unat kb + l1" by (intro unat_plus_nat) simp
  have split: "unat (a - (kb + of_nat l1)) < l2 \<longleftrightarrow> unat kb + l1 \<le> unat a \<and> unat a < unat kb + l1 + l2"
      "unat (a - kb) < l1 + l2 \<longleftrightarrow> unat kb \<le> unat a \<and> unat a < unat kb + (l1 + l2)"
      "unat (a - kb) < l1 \<longleftrightarrow> unat kb \<le> unat a \<and> unat a < unat kb + l1" for a
    using w k1 unat_sub_less_iff [of "kb + of_nat l1" l2 a] unat_sub_less_iff [of kb "l1 + l2" a] unat_sub_less_iff [of kb l1 a] by auto
  have "s_mem s2 (kb + of_nat j) = fbyte s sv (off + j)" if "j < l1 + l2" for j
  proof (cases "j < l1")
    case True
    have "\<not> scratch s1 (kb + of_nat j)" using u that by (simp add: ubuf_def sc)
    moreover have "unat (kb + of_nat j) = unat kb + j" using w that by (intro unat_plus_nat) simp
    ultimately have "s_mem s2 (kb + of_nat j) = s_mem s1 (kb + of_nat j)" using 2 True split(1) [of "kb + of_nat j"] by (simp add: rd_post_def)
    then show ?thesis using 1 True by (simp add: rd_post_def)
  next
    case False
    then have "j - l1 < l2" "kb + of_nat j = kb + of_nat l1 + of_nat (j - l1)" "off + j = off + l1 + (j - l1)" using that by (simp_all flip: of_nat_add)
    then show ?thesis using 2 fbyte_same [OF e(2,3)] unfolding rd_post_def by metis
  qed
  moreover have "s_mem s2 a = s_mem s a" if "\<not> scratch s a" "\<not> unat (a - kb) < l1 + l2" for a
  proof -
    have "\<not> unat (a - (kb + of_nat l1)) < l2" "\<not> unat (a - kb) < l1" using that(2) unfolding split by linarith+
    then show ?thesis using 1 2 that(1) unfolding rd_post_def sc by metis
  qed
  ultimately show ?thesis
    using 1 2 same_env_trans [of s s1 s2] by (simp add: rd_post_def)
qed

lemma wr_post_trans:
  assumes 1: "wr_post s M sv off kb l1 c1 s1 M1" and 2: "wr_post s1 M1 sv (off + l1) (kb + of_nat l1) l2 c2 s2 M2"
    and u: "ubuf s kb (l1 + l2)"
  shows "wr_post s M sv off kb (l1 + l2) (c1 + c2) s2 M2"
proof -
  have K: "kept s M sv s1 M1" "kept s1 M1 sv s2 M2" "mem_kept s s1" "mem_kept s1 s2" using 1 2 by (simp_all add: wr_post_def)
  have e: "same_env s s1" using K(1) by (simp add: kept_def)
  have m: "s_mem s1 (kb + of_nat j) = s_mem s (kb + of_nat j)" if "j < l1 + l2" for j
    using K(3) u that by (simp add: ubuf_def mem_kept_def)
  have "fbyte s2 sv i = (if off \<le> i \<and> i < off + (l1 + l2) then s_mem s (kb + of_nat (i - off)) else fbyte s sv i)" if i: "i < 143 * 512" for i
  proof (cases "off + l1 \<le> i \<and> i < off + l1 + l2")
    case True
    then have "l1 + (i - (off + l1)) = i - off" by simp
    then have "kb + of_nat l1 + of_nat (i - (off + l1)) = kb + of_nat (i - off)" by (metis add.assoc of_nat_add)
    then have "fbyte s2 sv i = s_mem s1 (kb + of_nat (i - off))" using 2 True i by (simp add: wr_post_def)
    then show ?thesis using m [of "i - off"] True by auto
  next
    case False
    then have "fbyte s2 sv i = fbyte s1 sv i" using 2 i by (auto simp: wr_post_def)
    then show ?thesis using 1 i False by (auto simp: wr_post_def)
  qed
  moreover have "spare s M sv (c1 + c2 + n) \<longrightarrow> spare s2 M2 sv n" for n
    using 1 2 unfolding wr_post_def by (metis add.assoc)
  ultimately show ?thesis
    using kept_trans [OF K(1,2)] mem_kept_trans [OF K(3,4) e] by (simp add: wr_post_def)
qed

section \<open>Partial blocks\<close>

lemma fileblock_nat: "word_of_int (int off sdiv int SFS_BLOCKSIZE) = (of_nat (off div 512) :: 32 word)"
  by (simp add: sdiv_nonneg SFS_BLOCKSIZE_def zdiv_int [of off 512, simplified, symmetric])

lemma iobuf_facts:
  assumes "sfs_ok s M"
  shows "below_buf (sfs_device s) (b_iobuf (s_bufs s)) 512" "\<forall>a. unat (a - b_iobuf (s_bufs s)) < 512 \<longrightarrow> scratch s a"
    "unat (b_iobuf (s_bufs s)) + 512 \<le> 2 ^ 32"
  using sfs_okD(6) [OF assms] unat_lt_32 [of "lh_buf (sfs_device s)"] by (auto simp: bufs_ok_def scratch_def below_buf_def)

text \<open>The block of a read in \<open>iobuf\<close>: from the disk, or zeros for a hole.\<close>

lemma iobuf_fill:
  assumes ok: "sfs_ok s M" and F: "file_ok s M sv" and k: "k < 143"
  shows "\<exists>s'. (if fmap s sv k = 0
      then kassert (UIO_READ = UIO_READ) (Ok (0, s\<lparr>s_mem := bzero (b_iobuf (s_bufs s)) SFS_BLOCKSIZE (s_mem s)\<rparr>))
      else sfs_readblock (fmap s sv k) (b_iobuf (s_bufs s)) SFS_BLOCKSIZE s) = Ok (0, s')
    \<and> sfs_ok s' M \<and> same_env s s' \<and> svs s' = svs s \<and> blk s' = blk s \<and> mem_kept s s'
    \<and> (\<forall>j < 512. s_mem s' (b_iobuf (s_bufs s) + of_nat j) = fbyte s sv (512 * k + j))"
proof (cases "fmap s sv k = 0")
  case True
  let ?s = "s\<lparr>s_mem := bzero (b_iobuf (s_bufs s)) SFS_BLOCKSIZE (s_mem s)\<rparr>"
  have e: "same_env s ?s" "mem_kept s ?s"
    using iobuf_facts(2) [OF ok] by (auto simp: same_env_def mem_kept_def bzero_def SFS_BLOCKSIZE_def)
  have "sfs_ok ?s M" by (rule sfs_ok_kept [OF ok e(1) _ e(2)]) simp
  then show ?thesis using True e by (simp add: fbyte_def bzero_def SFS_BLOCKSIZE_def blk_def fun_eq_iff)
next
  case False
  then have "unat (fmap s sv k) < unat (sb_nblocks s)" using F k by (simp add: file_ok_def in_use_def)
  from readblock_env [OF ok this iobuf_facts(1,2) [OF ok]] show ?thesis using False by (auto simp: fbyte_def)
qed

lemma memmove_elsewhere: "\<not> unat (a - d) < n \<Longrightarrow> memmove d src n m a = m a"
  by (simp add: memmove_def)

lemma memmove_at: "j < n \<Longrightarrow> n \<le> 2 ^ 32 \<Longrightarrow> memmove d src n m (d + of_nat j) = m (src + of_nat j)"
  using unat_of_nat_32 [of j] by (simp add: memmove_def)

lemma partial_read:
  assumes ok: "sfs_ok s M" and F: "file_ok s M sv" and k: "off div 512 < 143"
    and l: "0 < l" "off mod 512 + l \<le> 512" "l \<le> r" "r \<le> n" "n < 2 ^ 32" and u: "ubuf s kb l"
  shows "\<exists>s'. sfs_partialio sv (kuio kb n (int off) r UIO_READ) (of_nat (off mod 512)) (of_nat l) s =
      Ok (0, kuio (kb + of_nat l) (n - l) (int (off + l)) (r - l) UIO_READ, s') \<and> rd_post s M sv off kb l s'"
proof -
  let ?k = "off div 512" and ?sk = "off mod 512" and ?p = "b_iobuf (s_bufs s)"
  obtain s1 where b: "sfs_bmap sv (of_nat ?k) False s = Ok (0, fmap s sv ?k, s1)" "sfs_ok s1 M" "same_env s s1"
      "svs s1 = svs s" "blk s1 = blk s" "mem_kept s s1"
    using bmap_lookup [OF ok F k] by blast
  note K = kept_same [OF ok F b(2-5)]
  have F1: "file_ok s1 M sv" and p1: "b_iobuf (s_bufs s1) = ?p" using K(1) by (simp_all add: kept_def same_env_def)
  obtain s2 where f: "(if fmap s sv ?k = 0
      then kassert (UIO_READ = UIO_READ) (Ok (0, s1\<lparr>s_mem := bzero (b_iobuf (s_bufs s1)) SFS_BLOCKSIZE (s_mem s1)\<rparr>))
      else sfs_readblock (fmap s sv ?k) (b_iobuf (s_bufs s1)) SFS_BLOCKSIZE s1) = Ok (0, s2)"
      "sfs_ok s2 M" "same_env s1 s2" "svs s2 = svs s1" "blk s2 = blk s1" "mem_kept s1 s2"
      "\<forall>j < 512. s_mem s2 (?p + of_nat j) = fbyte s sv (512 * ?k + j)"
    using iobuf_fill [OF b(2) F1 k] unfolding K(3,4) p1 by blast
  let ?m = "memmove kb (?p + of_nat ?sk) l (s_mem s2)"
  let ?s3 = "s2\<lparr>s_mem := ?m\<rparr>"
  have mv: "uiomove (s_uc s2) (?p + of_nat ?sk) l (kuio kb n (int off) r UIO_READ) (s_mem s2) =
      Ok (0, kuio (kb + of_nat l) (n - l) (int off + int l) (r - l) UIO_READ, ?m)"
    using uiomove_kuio [of l n r "s_uc s2" "?p + of_nat ?sk" kb "int off" UIO_READ] l by simp
  have w: "unat (of_nat ?sk + of_nat l :: 32 word) = ?sk + l" "unat (of_nat l :: 32 word) = l"
    using l(2) unat_of_nat_32 [of "?sk + l"] unat_of_nat_32 [of l] by (simp_all flip: of_nat_add)
  have run: "sfs_partialio sv (kuio kb n (int off) r UIO_READ) (of_nat ?sk) (of_nat l) s =
      Ok (0, kuio (kb + of_nat l) (n - l) (int (off + l)) (r - l) UIO_READ, ?s3)"
    using b(1) f(1) mv sfs_okD(5) [OF ok] l(2)
    unfolding sfs_partialio_def Let_def kuio_simps fileblock_nat w p1
    by (simp add: w SFS_BLOCKSIZE_def)
  have e: "same_env s s2" using same_env_trans [OF b(3) f(3)] .
  have e3: "same_env s2 ?s3" by (simp add: same_env_def)
  have u2: "ubuf s2 kb l" using u ubuf_env [OF e] by simp
  have ok3: "sfs_ok ?s3 M"
    by (rule sfs_ok_env [OF f(2) e3]) (use ubuf_area [OF u2] in \<open>auto simp: memmove_def\<close>)
  have "?m (kb + of_nat j) = fbyte s sv (off + j)" if "j < l" for j
  proof -
    have "?m (kb + of_nat j) = s_mem s2 (?p + of_nat (?sk + j))" using that l by (simp add: memmove_at add.assoc)
    moreover have "512 * ?k + (?sk + j) = off + j" using mult_div_mod_eq [of 512 off] by linarith
    moreover have "s_mem s2 (?p + of_nat (?sk + j)) = fbyte s sv (512 * ?k + (?sk + j))" using that l(2) by (intro f(7) [rule_format]) simp
    ultimately show ?thesis by metis
  qed
  moreover have "?m a = s_mem s a" if "\<not> scratch s a" "\<not> unat (a - kb) < l" for a
    using that b(6) f(6) same_env_scratch [OF b(3)] by (simp add: memmove_elsewhere mem_kept_def)
  ultimately have "rd_post s M sv off kb l ?s3"
    using ok3 same_env_trans [OF e e3] b(4,5) f(4,5) by (simp add: rd_post_def blk_def fun_eq_iff)
  then show ?thesis using run by blast
qed

text \<open>Data written to a block of the file.\<close>

lemma data_write:
  assumes F: "file_ok s M sv" and ok: "sfs_ok s' M" and e: "same_env s s'" "svs s' = svs s"
    and k: "k < 143" "fmap s sv k \<noteq> 0" and c: "\<forall>c. c \<noteq> fmap s sv k \<longrightarrow> blk s' c = blk s c"
  shows "kept s M sv s' M" "\<And>i. i < 143 * 512 \<Longrightarrow> fbyte s' sv i = (if i div 512 = k then blk s' (fmap s sv k) (i mod 512) else fbyte s sv i)"
    "spare s' M sv n = spare s M sv n"
proof -
  have nb: "sb_nblocks s' = sb_nblocks s" using e(1) by (simp add: same_env_def)
  have ib: "indirect s sv \<noteq> 0 \<Longrightarrow> indirect s sv \<noteq> fmap s sv k" using F k by (auto simp: file_ok_def)
  have fm: "fmap s' sv i = fmap s sv i" "indirect s' sv = indirect s sv" if "i < 143" for i
    using fmap_cong [of s' sv s i] e(2) c ib that by auto
  have i: "indirect s' sv = indirect s sv" using fm(2) k(1) by blast
  have "file_ok s' M sv" using F fm(1) unfolding file_ok_def in_use_def i nb e(2) by (simp, blast)
  moreover have "fblocks s' sv = fblocks s sv" using fm(1) i by (simp add: fblocks_def)
  moreover have "blk s' x = blk s x" if "x \<notin> fblocks s sv" for x using c that k by (auto simp: fblocks_def)
  ultimately show "kept s M sv s' M" using ok e by (simp add: kept_def same_inode_def)
  show "fbyte s' sv j = (if j div 512 = k then blk s' (fmap s sv k) (j mod 512) else fbyte s sv j)" if "j < 143 * 512" for j
  proof -
    have d: "j div 512 < 143" using that by (simp add: less_mult_imp_div_less)
    have "fmap s sv (j div 512) \<noteq> fmap s sv k" if "j div 512 \<noteq> k" using file_ok_inj [OF F k(1) d] k(2) that by metis
    then show ?thesis using fm(1) [OF d] c k(2) by (auto simp: fbyte_def)
  qed
  show "spare s' M sv n = spare s M sv n" using i nb by (simp add: spare_def nfree_def)
qed

lemma in_block:
  assumes "off mod 512 + l \<le> (512 :: nat)"
  shows "(off \<le> i \<and> i < off + l) = (i div 512 = off div 512 \<and> off mod 512 \<le> i mod 512 \<and> i mod 512 < off mod 512 + l)"
    "i div 512 = off div 512 \<Longrightarrow> i - off = i mod 512 - off mod 512"
proof -
  note d = mult_div_mod_eq [of 512 i] mult_div_mod_eq [of 512 off]
  show "i - off = i mod 512 - off mod 512" if "i div 512 = off div 512" using d that by linarith
  have "i div 512 = off div 512" if "off \<le> i" "i < off + l"
  proof -
    have "i < 512 * (off div 512) + 512" using that(2) assms d(2) by linarith
    then have "i < 512 * Suc (off div 512)" by simp
    then have "i div 512 < Suc (off div 512)" by (simp only: less_mult_imp_div_less mult.commute)
    then show ?thesis using div_le_mono [OF that(1), of 512] by linarith
  qed
  moreover have "(off \<le> i \<and> i < off + l) = (off mod 512 \<le> i mod 512 \<and> i mod 512 < off mod 512 + l)" if "i div 512 = off div 512"
  proof -
    have "off \<le> i \<longleftrightarrow> off mod 512 \<le> i mod 512" "i < off + l \<longleftrightarrow> i mod 512 < off mod 512 + l" using d that by linarith+
    then show ?thesis by blast
  qed
  ultimately show "(off \<le> i \<and> i < off + l) = (i div 512 = off div 512 \<and> off mod 512 \<le> i mod 512 \<and> i mod 512 < off mod 512 + l)"
    by blast
qed

text \<open>Bytes put into a block of the file by way of a buffer \<open>p\<close> of the file system.\<close>

lemma rmw_block:
  assumes ok: "sfs_ok s M" and F: "file_ok s M sv" and k: "off div 512 < 143" and room: "fmap s sv (off div 512) = 0 \<Longrightarrow> spare s M sv 1"
    and l: "off mod 512 + l \<le> 512" and u: "ubuf s kb l" and p: "below_buf (sfs_device s) p 512" "\<forall>a. unat (a - p) < 512 \<longrightarrow> scratch s a"
  shows "\<exists>b s1 s2 s3 M'. sfs_bmap sv (of_nat (off div 512)) True s = Ok (0, b, s1) \<and> b \<noteq> 0 \<and> s_bufs s1 = s_bufs s
    \<and> sfs_readblock b p SFS_BLOCKSIZE s1 = Ok (0, s2)
    \<and> sfs_writeblock b p SFS_BLOCKSIZE (s2\<lparr>s_mem := memmove (p + of_nat (off mod 512)) kb l (s_mem s2)\<rparr>) = Ok (0, s3)
    \<and> wr_post s M sv off kb l 1 s3 M'"
proof -
  let ?k = "off div 512" and ?sk = "off mod 512"
  obtain s1 M1 where a: "sfs_bmap sv (of_nat ?k) True s = Ok (0, fmap s1 sv ?k, s1)" "fmap s1 sv ?k \<noteq> 0" "kept s M sv s1 M1" "mem_kept s s1"
      "\<forall>i < 143 * 512. fbyte s1 sv i = fbyte s sv i" "\<forall>n. spare s M sv (Suc n) \<longrightarrow> spare s1 M1 sv n"
    using bmap_alloc [OF ok F k room] unfolding mapped_def by blast
  have K: "sfs_ok s1 M1" "file_ok s1 M1 sv" "same_env s s1" "s_bufs s1 = s_bufs s" using a(3) by (simp_all add: kept_def same_env_def)
  have p1: "below_buf (sfs_device s1) p 512" "\<forall>a. unat (a - p) < 512 \<longrightarrow> scratch s1 a" "unat p + 512 \<le> 2 ^ 32"
  proof -
    show "below_buf (sfs_device s1) p 512" using p(1) K(3) same_dev_simps(6) by (auto simp: same_env_def)
    show "\<forall>a. unat (a - p) < 512 \<longrightarrow> scratch s1 a" using p(2) same_env_scratch [OF K(3)] by simp
    show "unat p + 512 \<le> 2 ^ 32" using p(1) unat_lt_32 [of "lh_buf (sfs_device s)"] by (simp add: below_buf_def)
  qed
  let ?b = "fmap s1 sv ?k"
  have b: "unat ?b < unat (sb_nblocks s1)" using K(2) a(2) k by (simp add: file_ok_def in_use_def)
  obtain s2 where f: "sfs_readblock ?b p SFS_BLOCKSIZE s1 = Ok (0, s2)" "sfs_ok s2 M1" "same_env s1 s2" "svs s2 = svs s1" "blk s2 = blk s1"
      "\<forall>j < 512. s_mem s2 (p + of_nat j) = blk s1 ?b j" "mem_kept s1 s2"
    using readblock_env [OF K(1) b p1(1,2)] by blast
  let ?m = "memmove (p + of_nat ?sk) kb l (s_mem s2)"
  let ?s3 = "s2\<lparr>s_mem := ?m\<rparr>"
  have "?sk < 512" by simp
  then have sp: "unat (p + of_nat ?sk) = unat p + ?sk" using p1(3) by (intro unat_plus_nat) simp
  have reg: "unat (x - (p + of_nat ?sk)) < l \<longleftrightarrow> unat p + ?sk \<le> unat x \<and> unat x < unat p + ?sk + l" for x
    using unat_sub_less_iff [of "p + of_nat ?sk" l x] sp p1(3) l by simp
  have in_p: "unat (x - (p + of_nat ?sk)) < l \<Longrightarrow> unat (x - p) < 512" for x
    using unat_sub_less_iff [of p 512 x] reg [of x] p1(3) l by simp
  have e3: "same_env s2 ?s3" by (simp add: same_env_def)
  have mk3: "mem_kept s2 ?s3"
    using in_p p1(2) same_env_scratch [OF f(3)] by (auto simp: mem_kept_def memmove_def)
  have ok3: "sfs_ok ?s3 M1" by (rule sfs_ok_kept [OF f(2) e3 _ mk3]) simp
  have e13: "same_env s1 ?s3" using same_env_trans [OF f(3) e3] .
  have D: "sb_nblocks ?s3 = sb_nblocks s1" "below_buf (sfs_device ?s3) p 512"
    using f(3) p1(1) same_dev_simps(6) by (auto simp: same_env_def)
  obtain s4 where w: "sfs_writeblock ?b p SFS_BLOCKSIZE ?s3 = Ok (0, s4)" "sfs_ok s4 M1" "same_env ?s3 s4" "svs s4 = svs ?s3"
      "\<forall>j < 512. blk s4 ?b j = ?m (p + of_nat j)" "\<forall>c. c \<noteq> ?b \<longrightarrow> blk s4 c = blk ?s3 c"
      "\<forall>a. \<not> in_buf (sfs_device ?s3) a \<longrightarrow> s_mem s4 a = ?m a"
    using writeblock_env [OF ok3 _ D(2), of ?b] b D(1) by auto
  have e14: "same_env s1 s4" using same_env_trans [OF e13 w(3)] .
  have "\<forall>c. c \<noteq> ?b \<longrightarrow> blk s4 c = blk s1 c" using w(6) f(5) by (simp add: blk_def fun_eq_iff)
  note W = data_write [OF K(2) w(2) e14 _ k a(2) this]
  have sv4: "svs s4 = svs s1" using w(4) f(4) by simp
  have "mem_kept ?s3 s4" using w(7) by (simp add: mem_kept_def scratch_def)
  then have mk: "mem_kept s s4" using a(4) f(7) mk3 K(3) f(3) e3 by (meson mem_kept_trans same_env_trans)
  have upd: "?m (p + of_nat j) = (if ?sk \<le> j \<and> j < ?sk + l then s_mem s (kb + of_nat (j - ?sk)) else blk s1 ?b j)" if "j < 512" for j
  proof (cases "?sk \<le> j \<and> j < ?sk + l")
    case True
    then have j: "p + of_nat j = p + of_nat ?sk + of_nat (j - ?sk)" "j - ?sk < l" by (simp flip: of_nat_add) (use True in linarith)
    have "l \<le> 2 ^ 32" using l by simp
    from memmove_at [OF j(2) this] have "?m (p + of_nat j) = s_mem s2 (kb + of_nat (j - ?sk))" unfolding j(1) .
    moreover have "\<not> scratch s (kb + of_nat (j - ?sk))" using u \<open>j - ?sk < l\<close> by (simp add: ubuf_def)
    ultimately show ?thesis using True a(4) f(7) same_env_scratch [OF K(3)] by (simp add: mem_kept_def)
  next
    case False
    have "unat (p + of_nat j) = unat p + j" using p1(3) that by (intro unat_plus_nat) simp
    then have "\<not> unat (p + of_nat j - (p + of_nat ?sk)) < l" unfolding reg using False by linarith
    from memmove_elsewhere [OF this] show ?thesis unfolding if_not_P [OF False] using f(6) that by metis
  qed
  have "fbyte s4 sv i = (if off \<le> i \<and> i < off + l then s_mem s (kb + of_nat (i - off)) else fbyte s sv i)" if "i < 143 * 512" for i
  proof (cases "i div 512 = ?k")
    case True
    then have "fbyte s4 sv i = ?m (p + of_nat (i mod 512))" using W(2) [OF sv4 that] w(5) by simp
    moreover have "blk s1 ?b (i mod 512) = fbyte s sv i" using a(5) [rule_format, OF that] True a(2) by (simp add: fbyte_def [of s1])
    ultimately show ?thesis using upd [of "i mod 512"] in_block [OF l, of i] True by simp
  next
    case False
    then show ?thesis using W(2) [OF sv4 that] a(5) that in_block [OF l, of i] by auto
  qed
  then have "wr_post s M sv off kb l 1 s4 M1"
    using kept_trans [OF a(3) W(1) [OF sv4]] mk a(6) W(3) [OF sv4] by (simp add: wr_post_def)
  then show ?thesis using a(1,2) K(4) f(1) w(1) by blast
qed

lemma partial_write:
  assumes ok: "sfs_ok s M" and F: "file_ok s M sv" and k: "off div 512 < 143" and room: "spare s M sv 1"
    and l: "0 < l" "off mod 512 + l \<le> 512" "l \<le> r" "r \<le> n" "n < 2 ^ 32" and u: "ubuf s kb l"
  shows "\<exists>s' M'. sfs_partialio sv (kuio kb n (int off) r UIO_WRITE) (of_nat (off mod 512)) (of_nat l) s =
      Ok (0, kuio (kb + of_nat l) (n - l) (int (off + l)) (r - l) UIO_WRITE, s') \<and> wr_post s M sv off kb l 1 s' M'"
proof -
  let ?sk = "off mod 512" and ?p = "b_iobuf (s_bufs s)"
  obtain b s1 s2 s3 M' where w: "sfs_bmap sv (of_nat (off div 512)) True s = Ok (0, b, s1)" "b \<noteq> 0" "s_bufs s1 = s_bufs s"
      "sfs_readblock b ?p SFS_BLOCKSIZE s1 = Ok (0, s2)"
      "sfs_writeblock b ?p SFS_BLOCKSIZE (s2\<lparr>s_mem := memmove (?p + of_nat ?sk) kb l (s_mem s2)\<rparr>) = Ok (0, s3)"
      "wr_post s M sv off kb l 1 s3 M'"
    using rmw_block [OF ok F k room l(2) u iobuf_facts(1,2) [OF ok]] by blast
  have mv: "uiomove (s_uc s2) (?p + of_nat ?sk) l (kuio kb n (int off) r UIO_WRITE) (s_mem s2) =
      Ok (0, kuio (kb + of_nat l) (n - l) (int off + int l) (r - l) UIO_WRITE, memmove (?p + of_nat ?sk) kb l (s_mem s2))"
    using uiomove_kuio [of l n r "s_uc s2" "?p + of_nat ?sk" kb "int off" UIO_WRITE] l by simp
  have uw: "unat (of_nat ?sk + of_nat l :: 32 word) = ?sk + l" "unat (of_nat l :: 32 word) = l"
    using l(2) unat_of_nat_32 [of "?sk + l"] unat_of_nat_32 [of l] by (simp_all flip: of_nat_add)
  have "sfs_partialio sv (kuio kb n (int off) r UIO_WRITE) (of_nat ?sk) (of_nat l) s =
      Ok (0, kuio (kb + of_nat l) (n - l) (int (off + l)) (r - l) UIO_WRITE, s3)"
    using w mv sfs_okD(5) [OF ok] l(2)
    unfolding sfs_partialio_def Let_def kuio_simps fileblock_nat uw
    by (simp add: uw SFS_BLOCKSIZE_def)
  then show ?thesis using w(6) by blast
qed

section \<open>Whole blocks\<close>

lemma uiomovezeros_kuio:
  "\<lbrakk>i \<le> r; r \<le> n; n < 2 ^ 32; unat kb + i \<le> 2 ^ 32; \<forall>a. unat (a - z) < 16 \<longrightarrow> m a = 0;
    \<forall>a. unat (a - z) < 16 \<longrightarrow> \<not> unat (a - kb) < i\<rbrakk> \<Longrightarrow>
   \<exists>m'. uiomovezeros_loop uc z i (kuio kb n off r UIO_READ) m =
      Ok (0, kuio (kb + of_nat i) (n - i) (off + int i) (r - i) UIO_READ, m')
    \<and> (\<forall>j < i. m' (kb + of_nat j) = 0) \<and> (\<forall>a. \<not> unat (a - kb) < i \<longrightarrow> m' a = m a)"
proof (induction i arbitrary: kb n off r m rule: less_induct)
  case (less i)
  show ?case
  proof (cases "i = 0")
    case True
    then show ?thesis by (simp add: uiomovezeros_loop.simps)
  next
    case False
    define c where "c = min 16 i"
    have c: "0 < c" "c \<le> i" "c \<le> 16" using False by (auto simp: c_def)
    let ?m = "memmove kb z c m"
    have kb: "unat (kb + of_nat c) = unat kb + c" if "c < i" using that less.prems(4) by (intro unat_plus_nat) simp
    have reg: "unat (a - kb) < i \<longleftrightarrow> unat (a - kb) < c \<or> unat (a - (kb + of_nat c)) < i - c" for a
    proof (cases "c = i")
      case False
      then have "c < i" using c(2) by simp
      then show ?thesis
        using unat_sub_less_iff [of "kb + of_nat c" "i - c" a] unat_sub_less_iff [of kb i a] unat_sub_less_iff [of kb c a] kb less.prems(4) by auto
    qed simp
    have z: "\<forall>a. unat (a - z) < 16 \<longrightarrow> ?m a = 0" using less.prems(5,6) c by (auto simp: memmove_def)
    have le: "unat (kb + of_nat c) + (i - c) \<le> 2 ^ 32"
      using kb less.prems(4) unat_lt_32 [of "kb + of_nat c"] c(2) by (cases "c < i") auto
    have dj: "\<forall>a. unat (a - z) < 16 \<longrightarrow> \<not> unat (a - (kb + of_nat c)) < i - c" using less.prems(6) reg by blast
    have "i - c < i" "i - c \<le> r - c" "r - c \<le> n - c" "n - c < 2 ^ 32" using c less.prems(1-3) by simp_all
    from less.IH [OF this le z dj, of "off + int c"]
    obtain m' where m': "uiomovezeros_loop uc z (i - c) (kuio (kb + of_nat c) (n - c) (off + int c) (r - c) UIO_READ) ?m =
          Ok (0, kuio (kb + of_nat c + of_nat (i - c)) (n - c - (i - c)) (off + int c + int (i - c)) (r - c - (i - c)) UIO_READ, m')"
        "\<forall>j < i - c. m' (kb + of_nat c + of_nat j) = 0" "\<forall>a. \<not> unat (a - (kb + of_nat c)) < i - c \<longrightarrow> m' a = ?m a"
      by blast
    have "uiomove uc z c (kuio kb n off r UIO_READ) m = Ok (0, kuio (kb + of_nat c) (n - c) (off + int c) (r - c) UIO_READ, ?m)"
      using uiomove_kuio [of c n r uc z kb off UIO_READ m] c less.prems(1-3) by simp
    moreover have "(if 16 > i then i else 16) = c" by (simp add: c_def)
    moreover have "kb + of_nat c + of_nat (i - c) = kb + of_nat i" using c(2) by (simp add: add.assoc flip: of_nat_add)
    ultimately have run: "uiomovezeros_loop uc z i (kuio kb n off r UIO_READ) m =
        Ok (0, kuio (kb + of_nat i) (n - i) (off + int i) (r - i) UIO_READ, m')"
      using m'(1) False c(2) by (subst uiomovezeros_loop.simps) (simp add: Let_def)
    have "m' (kb + of_nat j) = 0" if "j < i" for j
    proof (cases "j < c")
      case True
      have "unat (kb + of_nat j) = unat kb + j" using that less.prems(4) by (intro unat_plus_nat) simp
      then have "\<not> unat (kb + of_nat j - (kb + of_nat c)) < i - c"
        using True that kb unat_sub_less_iff [of "kb + of_nat c" "i - c" "kb + of_nat j"] less.prems(4) by (cases "c < i") auto
      then have "m' (kb + of_nat j) = ?m (kb + of_nat j)" using m'(3) by blast
      moreover have "unat (z + of_nat j - z) < 16" using True c(3) by simp
      ultimately show ?thesis using True c less.prems(5) memmove_at [of j c kb z m] by simp
    next
      case False
      then have "j - c < i - c" "kb + of_nat c + of_nat (j - c) = kb + of_nat j" using that by (simp_all add: add.assoc flip: of_nat_add)
      then show ?thesis using m'(2) by metis
    qed
    moreover have "m' a = m a" if "\<not> unat (a - kb) < i" for a
      using that m'(3) reg [of a] by (simp add: memmove_elsewhere)
    ultimately show ?thesis using run by blast
  qed
qed

lemma disk_offset: "unat b < 2 ^ 23 \<Longrightarrow> uint (b * of_nat SFS_BLOCKSIZE :: 32 word) = uint b * 512"
proof -
  assume "unat b < 2 ^ 23"
  then have "unat (b * 512) = unat b * 512" using unat_mult_lem [of b "512 :: 32 word"] by simp
  then have "int (unat (b * 512)) = int (unat b) * 512" by (simp only: of_nat_mult of_nat_numeral)
  then show ?thesis by (simp add: SFS_BLOCKSIZE_def)
qed

lemma resid_restore: "512 \<le> r \<Longrightarrow> r < 2 ^ 32 \<Longrightarrow> nat ((int 0 - int SFS_BLOCKSIZE + int r) mod 2 ^ 32) = r - 512"
  by (simp add: SFS_BLOCKSIZE_def)

lemma nat_sub_512: "nat (int r - 512) = r - 512"
  by linarith

lemma block_read:
  assumes ok: "sfs_ok s M" and F: "file_ok s M sv" and k: "k < 143" "off = 512 * k"
    and l: "512 \<le> r" "r \<le> n" "n < 2 ^ 32" and u: "ubuf s kb 512"
  shows "\<exists>s'. sfs_blockio sv (kuio kb n (int off) r UIO_READ) s =
      Ok (0, kuio (kb + 512) (n - 512) (int (off + 512)) (r - 512) UIO_READ, s') \<and> rd_post s M sv off kb 512 s'"
proof -
  have kk: "off div 512 = k" using k(2) by simp
  obtain s1 where b: "sfs_bmap sv (of_nat k) False s = Ok (0, fmap s sv k, s1)" "sfs_ok s1 M" "same_env s s1"
      "svs s1 = svs s" "blk s1 = blk s" "mem_kept s s1"
    using bmap_lookup [OF ok F k(1)] by blast
  have u1: "ubuf s1 kb 512" using u ubuf_env [OF b(3)] by simp
  have fb: "fbyte s sv (off + j) = (if fmap s sv k = 0 then 0 else blk s1 (fmap s sv k) j)" if "j < 512" for j
    using that k(2) by (simp add: fbyte_def b(5))
  have "\<exists>s' dev. sfs_blockio sv (kuio kb n (int off) r UIO_READ) s =
      Ok (0, kuio (kb + 512) (n - 512) (int (off + 512)) (r - 512) UIO_READ, s') \<and> s' = s1\<lparr>sfs_device := dev, s_mem := s_mem s'\<rparr>
    \<and> same_dev (sfs_device s1) dev \<and> lh_disk dev = lh_disk (sfs_device s1)
    \<and> (\<forall>j < 512. s_mem s' (kb + of_nat j) = fbyte s sv (off + j))
    \<and> (\<forall>a. \<not> in_buf (sfs_device s1) a \<longrightarrow> \<not> unat (a - kb) < 512 \<longrightarrow> s_mem s' a = s_mem s1 a)"
  proof (cases "fmap s sv k = 0")
    case True
    let ?z = "b_zeros16 (s_bufs s1)"
    have z: "\<forall>a. unat (a - ?z) < 16 \<longrightarrow> s_mem s1 a = 0" using sfs_okD(6) [OF b(2)] by (simp add: bufs_ok_def)
    have dj: "\<forall>a. unat (a - ?z) < 16 \<longrightarrow> \<not> unat (a - kb) < 512" using ubuf_area(3) [OF u1] by blast
    have "unat kb + 512 \<le> 2 ^ 32" using u unat_lt_32 [of "lh_buf (sfs_device s)"] by (simp add: ubuf_def below_buf_def)
    from uiomovezeros_kuio [OF l this z dj, of "s_uc s1" "int off"]
    obtain m where m: "uiomovezeros_loop (s_uc s1) ?z 512 (kuio kb n (int off) r UIO_READ) (s_mem s1) =
          Ok (0, kuio (kb + 512) (n - 512) (int off + 512) (r - 512) UIO_READ, m)"
        "\<forall>j < 512. m (kb + of_nat j) = 0" "\<forall>a. \<not> unat (a - kb) < 512 \<longrightarrow> m a = s_mem s1 a"
      by auto
    have "sfs_blockio sv (kuio kb n (int off) r UIO_READ) s =
        Ok (0, kuio (kb + 512) (n - 512) (int (off + 512)) (r - 512) UIO_READ, s1\<lparr>s_mem := m\<rparr>)"
      using b(1) m(1) True unfolding sfs_blockio_def Let_def kuio_simps fileblock_nat kk
      by (simp add: uiomovezeros_def SFS_BLOCKSIZE_def)
    then show ?thesis using m(2,3) fb True by (intro exI [of _ "s1\<lparr>s_mem := m\<rparr>"] exI [of _ "sfs_device s1"]) simp
  next
    case False
    let ?b = "fmap s sv k"
    note D = sfs_okD [OF b(2)]
    have lt: "unat ?b < unat (sb_nblocks s1)" using F k(1) False b(3) by (simp add: file_ok_def in_use_def same_env_def)
    then have off: "uint (?b * of_nat SFS_BLOCKSIZE) = uint ?b * 512" using D(3) by (intro disk_offset) simp
    have "512 \<le> n" "below_buf (sfs_device s1) kb 512" using l u1 by (simp_all add: ubuf_def)
    from sector_read [OF D(1) D(7) [OF lt] this, of "s_uc s1" "s_mem s1"]
    obtain dev m where io: "lhd_io (s_uc s1) (sfs_device s1) (kuio kb n (uint ?b * 512) 512 UIO_READ) (s_mem s1) =
          Ok (0, dev, kuio (kb + 512) (n - 512) (uint ?b * 512 + 512) 0 UIO_READ, m)"
        "same_dev (sfs_device s1) dev" "lh_disk dev = lh_disk (sfs_device s1)" "\<forall>j < 512. m (kb + of_nat j) = lh_disk (sfs_device s1) ?b j"
        "\<forall>a. \<not> in_buf (sfs_device s1) a \<longrightarrow> \<not> unat (a - kb) < 512 \<longrightarrow> m a = s_mem s1 a"
      by blast
    have r: "r < 2 ^ 32" using l by simp
    have "sfs_blockio sv (kuio kb n (int off) r UIO_READ) s =
        Ok (0, kuio (kb + 512) (n - 512) (int (off + 512)) (r - 512) UIO_READ, s1\<lparr>sfs_device := dev, s_mem := m\<rparr>)"
      using b(1) sfs_rwblock_ok [OF sfs_okD(5) [OF b(2)] io(1)] False l(1) resid_restore [OF l(1) r]
      unfolding sfs_blockio_def Let_def kuio_simps fileblock_nat kk
      by (simp add: off SFS_BLOCKSIZE_def [symmetric]) (simp add: SFS_BLOCKSIZE_def nat_sub_512 add.commute)
    then show ?thesis using io(2-5) fb False
      by (intro exI [of _ "s1\<lparr>sfs_device := dev, s_mem := m\<rparr>"] exI [of _ dev]) (simp add: blk_def)
  qed
  then obtain s' dev where s': "sfs_blockio sv (kuio kb n (int off) r UIO_READ) s =
      Ok (0, kuio (kb + 512) (n - 512) (int (off + 512)) (r - 512) UIO_READ, s')" "s' = s1\<lparr>sfs_device := dev, s_mem := s_mem s'\<rparr>"
      "same_dev (sfs_device s1) dev" "lh_disk dev = lh_disk (sfs_device s1)" "\<forall>j < 512. s_mem s' (kb + of_nat j) = fbyte s sv (off + j)"
      "\<forall>a. \<not> in_buf (sfs_device s1) a \<longrightarrow> \<not> unat (a - kb) < 512 \<longrightarrow> s_mem s' a = s_mem s1 a"
    by blast
  have S: "sfs_device s' = dev" "svs s' = svs s1" "sfs_freemap s' = sfs_freemap s1" by (subst s'(2), simp)+
  have e: "same_env s1 s'" by (subst s'(2)) (simp add: same_env_def s'(3))
  have ok': "sfs_ok s' M"
    by (rule sfs_ok_env [OF b(2) e S(3)]) (use s'(6) ubuf_area [OF u1] in \<open>auto simp: scratch_def\<close>)
  have "s_mem s' a = s_mem s a" if "\<not> scratch s a" "\<not> unat (a - kb) < 512" for a
    using that s'(6) b(6) same_env_scratch [OF b(3)] unfolding mem_kept_def by (metis scratch_def)
  then have "rd_post s M sv off kb 512 s'"
    using ok' same_env_trans [OF b(3) e] S s'(4,5) b(4,5) by (simp add: rd_post_def blk_def fun_eq_iff)
  then show ?thesis using s'(1) by blast
qed

lemma block_write:
  assumes ok: "sfs_ok s M" and F: "file_ok s M sv" and k: "k < 143" "off = 512 * k" and room: "spare s M sv 1"
    and l: "512 \<le> r" "r \<le> n" "n < 2 ^ 32" and u: "ubuf s kb 512"
  shows "\<exists>s' M'. sfs_blockio sv (kuio kb n (int off) r UIO_WRITE) s =
      Ok (0, kuio (kb + 512) (n - 512) (int (off + 512)) (r - 512) UIO_WRITE, s') \<and> wr_post s M sv off kb 512 1 s' M'"
proof -
  have kk: "off div 512 = k" using k(2) by simp
  obtain s1 M1 where a: "sfs_bmap sv (of_nat k) True s = Ok (0, fmap s1 sv k, s1)" "fmap s1 sv k \<noteq> 0" "kept s M sv s1 M1" "mem_kept s s1"
      "\<forall>i < 143 * 512. fbyte s1 sv i = fbyte s sv i" "\<forall>n. spare s M sv (Suc n) \<longrightarrow> spare s1 M1 sv n"
    using bmap_alloc [OF ok F k(1) room] unfolding mapped_def by blast
  have K: "sfs_ok s1 M1" "file_ok s1 M1 sv" "same_env s s1" using a(3) by (simp_all add: kept_def)
  note D = sfs_okD [OF K(1)]
  let ?b = "fmap s1 sv k"
  have lt: "unat ?b < unat (sb_nblocks s1)" using K(2) a(2) k(1) by (simp add: file_ok_def in_use_def)
  then have off: "uint (?b * of_nat SFS_BLOCKSIZE) = uint ?b * 512" using D(3) by (intro disk_offset) simp
  have "512 \<le> n" "below_buf (sfs_device s1) kb 512" using l u ubuf_env [OF K(3), of kb 512] by (simp_all add: ubuf_def)
  from sector_write [OF D(1) D(7) [OF lt] this, of "s_uc s1" "s_mem s1"]
  obtain dev m where io: "lhd_io (s_uc s1) (sfs_device s1) (kuio kb n (uint ?b * 512) 512 UIO_WRITE) (s_mem s1) =
        Ok (0, dev, kuio (kb + 512) (n - 512) (uint ?b * 512 + 512) 0 UIO_WRITE, m)"
      "same_dev (sfs_device s1) dev" "\<forall>j < 512. lh_disk dev ?b j = s_mem s1 (kb + of_nat j)"
      "\<forall>t. t \<noteq> ?b \<longrightarrow> lh_disk dev t = lh_disk (sfs_device s1) t" "\<forall>a. \<not> in_buf (sfs_device s1) a \<longrightarrow> m a = s_mem s1 a"
    by blast
  let ?s = "s1\<lparr>sfs_device := dev, s_mem := m\<rparr>"
  have r: "r < 2 ^ 32" using l by simp
  have run: "sfs_blockio sv (kuio kb n (int off) r UIO_WRITE) s =
      Ok (0, kuio (kb + 512) (n - 512) (int (off + 512)) (r - 512) UIO_WRITE, ?s)"
    using a(1,2) sfs_rwblock_ok [OF sfs_okD(5) [OF K(1)] io(1)] l(1) resid_restore [OF l(1) r]
    unfolding sfs_blockio_def Let_def kuio_simps fileblock_nat kk
    by (simp add: off SFS_BLOCKSIZE_def [symmetric]) (simp add: SFS_BLOCKSIZE_def nat_sub_512 add.commute)
  have e: "same_env s1 ?s" using io(2) by (simp add: same_env_def)
  have mk: "mem_kept s1 ?s" using io(5) by (simp add: mem_kept_def scratch_def)
  have ok': "sfs_ok ?s M1" by (rule sfs_ok_kept [OF K(1) e _ mk]) simp
  have "\<forall>c. c \<noteq> ?b \<longrightarrow> blk ?s c = blk s1 c" using io(4) by (simp add: blk_def fun_eq_iff)
  note W = data_write [OF K(2) ok' e _ k(1) a(2) this]
  have "fbyte ?s sv i = (if off \<le> i \<and> i < off + 512 then s_mem s (kb + of_nat (i - off)) else fbyte s sv i)" if i: "i < 143 * 512" for i
  proof -
    have m: "s_mem s1 (kb + of_nat j) = s_mem s (kb + of_nat j)" if "j < 512" for j using u a(4) that by (simp add: ubuf_def mem_kept_def)
    have "(off \<le> i \<and> i < off + 512) = (i div 512 = k)" "i div 512 = k \<Longrightarrow> i - off = i mod 512" using in_block [of off 512 i] k(2) by simp_all
    then show ?thesis using W(2) [OF _ i] io(3) m [of "i mod 512"] a(5) i by (simp add: blk_def)
  qed
  then have "wr_post s M sv off kb 512 1 ?s M1"
    using kept_trans [OF a(3) W(1)] mem_kept_trans [OF a(4) mk K(3)] a(6) W(3) by (simp add: wr_post_def)
  then show ?thesis using run by blast
qed

section \<open>Requests of any length\<close>

text \<open>Reads and writes together; \<open>c\<close> blocks at most are added to the file.\<close>

definition io_post :: "uio_rw \<Rightarrow> sfs_fs \<Rightarrow> nat set \<Rightarrow> ptr \<Rightarrow> nat \<Rightarrow> vaddr \<Rightarrow> nat \<Rightarrow> nat \<Rightarrow> sfs_fs \<Rightarrow> nat set \<Rightarrow> bool" where
  "io_post rw s M sv off kb len c s' M' \<longleftrightarrow>
     (if rw = UIO_READ then rd_post s M sv off kb len s' \<and> M' = M else wr_post s M sv off kb len c s' M')"

definition io_pre :: "uio_rw \<Rightarrow> sfs_fs \<Rightarrow> nat set \<Rightarrow> ptr \<Rightarrow> nat \<Rightarrow> bool" where
  "io_pre rw s M sv c \<longleftrightarrow> sfs_ok s M \<and> file_ok s M sv \<and> (rw = UIO_WRITE \<longrightarrow> spare s M sv c)"

lemma io_post_refl: "io_pre rw s M sv c \<Longrightarrow> io_post rw s M sv off kb 0 0 s M"
  by (cases rw) (simp_all add: io_post_def io_pre_def rd_post_refl wr_post_refl)

lemma io_post_mono: "io_post rw s M sv off kb len c s' M' \<Longrightarrow> c \<le> d \<Longrightarrow> io_post rw s M sv off kb len d s' M'"
  by (cases rw) (auto simp: io_post_def wr_post_def spare_def dest!: le_Suc_ex)

lemma io_post_pre:
  assumes "io_pre rw s M sv (c + d)" "io_post rw s M sv off kb len c s' M'"
  shows "io_pre rw s' M' sv d" "same_env s s'"
proof -
  have "io_pre rw s' M' sv d \<and> same_env s s'"
  proof (cases rw)
    case UIO_READ
    then have "sfs_ok s M" "file_ok s M sv" "sfs_ok s' M" "same_env s s'" "svs s' = svs s" "blk s' = blk s" "M' = M"
      using assms by (simp_all add: io_pre_def io_post_def rd_post_def)
    then show ?thesis using kept_same(1) [of s M sv s'] UIO_READ by (simp add: io_pre_def kept_def)
  next
    case UIO_WRITE
    then show ?thesis using assms by (simp add: io_pre_def io_post_def wr_post_def kept_def)
  qed
  then show "io_pre rw s' M' sv d" "same_env s s'" by simp_all
qed

lemma io_post_trans:
  assumes "io_post rw s M sv off kb l1 c1 s1 M1" "io_post rw s1 M1 sv (off + l1) (kb + of_nat l1) l2 c2 s2 M2" "ubuf s kb (l1 + l2)"
  shows "io_post rw s M sv off kb (l1 + l2) (c1 + c2) s2 M2"
  using assms rd_post_trans [of s M sv off kb l1 s1 l2 s2] wr_post_trans [of s M sv off kb l1 c1 s1 M1 l2 c2 s2 M2]
  by (cases rw) (simp_all add: io_post_def)

lemma partial_io:
  assumes "io_pre rw s M sv 1" "off div 512 < 143" "0 < l" "off mod 512 + l \<le> 512" "l \<le> r" "r \<le> n" "n < 2 ^ 32" "ubuf s kb l"
  shows "\<exists>s' M'. sfs_partialio sv (kuio kb n (int off) r rw) (of_nat (off mod 512)) (of_nat l) s =
      Ok (0, kuio (kb + of_nat l) (n - l) (int (off + l)) (r - l) rw, s') \<and> io_post rw s M sv off kb l 1 s' M'"
proof (cases rw)
  case UIO_READ
  then show ?thesis using partial_read [OF _ _ assms(2-8)] assms(1) by (fastforce simp: io_pre_def io_post_def)
next
  case UIO_WRITE
  then show ?thesis using partial_write [OF _ _ assms(2) _ assms(3-8)] assms(1) by (fastforce simp: io_pre_def io_post_def)
qed

lemma block_io:
  assumes "io_pre rw s M sv 1" "k < 143" "off = 512 * k" "512 \<le> r" "r \<le> n" "n < 2 ^ 32" "ubuf s kb 512"
  shows "\<exists>s' M'. sfs_blockio sv (kuio kb n (int off) r rw) s =
      Ok (0, kuio (kb + 512) (n - 512) (int (off + 512)) (r - 512) rw, s') \<and> io_post rw s M sv off kb 512 1 s' M'"
proof (cases rw)
  case UIO_READ
  then show ?thesis using block_read [OF _ _ assms(2-7)] assms(1) by (fastforce simp: io_pre_def io_post_def)
next
  case UIO_WRITE
  then show ?thesis using block_write [OF _ _ assms(2,3) _ assms(4-7)] assms(1) by (fastforce simp: io_pre_def io_post_def)
qed

lemma blocks_io:
  "\<lbrakk>io_pre rw s M sv q; k + q \<le> 143; 512 * q \<le> r; r \<le> n; n < 2 ^ 32; ubuf s kb (512 * q)\<rbrakk> \<Longrightarrow>
   \<exists>s' M'. blockio_loop q sv (kuio kb n (int (512 * k)) r rw) s =
      Ok (0, kuio (kb + of_nat (512 * q)) (n - 512 * q) (int (512 * k + 512 * q)) (r - 512 * q) rw, s')
    \<and> io_post rw s M sv (512 * k) kb (512 * q) q s' M'"
proof (induction q arbitrary: s M k r n kb)
  case 0
  then show ?case using io_post_refl [OF 0(1)] by auto
next
  case (Suc q)
  have p1: "io_pre rw s M sv 1" using Suc.prems(1) by (auto simp: io_pre_def spare_def)
  have u1: "ubuf s kb 512" using ubuf_part [OF Suc.prems(6), of 0 512] by simp
  obtain s1 M1 where b: "sfs_blockio sv (kuio kb n (int (512 * k)) r rw) s =
        Ok (0, kuio (kb + 512) (n - 512) (int (512 * k + 512)) (r - 512) rw, s1)" "io_post rw s M sv (512 * k) kb 512 1 s1 M1"
    using block_io [OF p1 _ refl _ Suc.prems(4,5) u1, of k] Suc.prems(2,3) by auto
  have "io_pre rw s M sv (1 + q)" using Suc.prems(1) by simp
  note P = io_post_pre [OF this b(2)]
  have u2: "ubuf s1 (kb + 512) (512 * q)" using ubuf_part [OF Suc.prems(6), of 512 "512 * q"] ubuf_env [OF P(2)] by simp
  have k1: "int (512 * k + 512) = int (512 * Suc k)" "512 * k + 512 = 512 * Suc k" by simp_all
  have nx: "Suc k + q \<le> 143" "512 * q \<le> r - 512" "r - 512 \<le> n - 512" "n - 512 < 2 ^ 32" using Suc.prems(2-5) by auto
  obtain s2 M2 where c: "blockio_loop q sv (kuio (kb + 512) (n - 512) (int (512 * Suc k)) (r - 512) rw) s1 =
        Ok (0, kuio (kb + 512 + of_nat (512 * q)) (n - 512 - 512 * q) (int (512 * Suc k + 512 * q)) (r - 512 - 512 * q) rw, s2)"
      "io_post rw s1 M1 sv (512 * Suc k) (kb + 512) (512 * q) q s2 M2"
    using Suc.IH [OF P(1) nx u2] by blast
  have "io_post rw s M sv (512 * k) kb (512 + 512 * q) (1 + q) s2 M2"
    by (rule io_post_trans [OF b(2)]) (use c(2) Suc.prems(6) in \<open>simp_all only: k1 of_nat_numeral mult_Suc_right\<close>)
  moreover have "n - 512 - 512 * q = n - 512 * Suc q" "r - 512 - 512 * q = r - 512 * Suc q" "512 * Suc k + 512 * q = 512 * k + 512 * Suc q"
      "kb + 512 + of_nat (512 * q) = kb + of_nat (512 * Suc q)"
    by (simp_all add: algebra_simps)
  ultimately show ?case
    using b(1) c(1) unfolding k1(1) by (intro exI [of _ s2] exI [of _ M2]) (simp add: algebra_simps)
qed

text \<open>The leading partial block of a request.\<close>

lemma leading_io:
  assumes pre: "io_pre rw s M sv 1" and o: "off + r \<le> 143 * 512" "0 < r" "r \<le> n" "n < 2 ^ 32" and u: "ubuf s kb r"
  shows "\<exists>l s' M'. l \<le> r \<and> (l = r \<or> (off + l) mod 512 = 0) \<and>
      io_leading sv (kuio kb n (int off) r rw) s =
      Ok (0, kuio (kb + of_nat l) (n - l) (int (off + l)) (r - l) rw, s') \<and> io_post rw s M sv off kb l 1 s' M'"
proof -
  let ?b = "off mod 512"
  have b: "word_of_int (int off smod int SFS_BLOCKSIZE) = (of_nat ?b :: 32 word)"
    by (simp add: smod_nonneg SFS_BLOCKSIZE_def zmod_int [of off 512, simplified, symmetric])
  have lt: "?b < 512" by simp
  have ub: "unat (of_nat ?b :: 32 word) = ?b" using lt by (intro unat_of_nat_32) linarith
  have z: "(of_nat ?b :: 32 word) = 0 \<longleftrightarrow> ?b = 0" unfolding unat_eq_0 [symmetric] ub ..
  show ?thesis
  proof (cases "?b = 0")
    case True
    have "io_leading sv (kuio kb n (int off) r rw) s = Ok (0, kuio kb n (int off) r rw, s)"
      unfolding io_leading_def Let_def kuio_simps b using True by simp
    then show ?thesis using io_post_mono [OF io_post_refl [OF pre, of off kb], of 1] True
      by (intro exI [of _ 0] exI [of _ s] exI [of _ M]) simp
  next
    case False
    let ?l = "min (512 - ?b) r"
    have u5: "unat (512 - of_nat ?b :: 32 word) = 512 - ?b" using ub lt by (subst unat_sub) (simp_all add: word_le_nat_alt)
    then have "(512 - of_nat ?b :: 32 word) = of_nat (512 - ?b)" using lt by (intro word_unat_eq_iff [THEN iffD2]) (simp add: u5)
    then have len: "(if unat (of_nat SFS_BLOCKSIZE - of_nat ?b :: 32 word) > r then of_nat r else of_nat SFS_BLOCKSIZE - of_nat ?b) = (of_nat ?l :: 32 word)"
      using u5 by (simp add: SFS_BLOCKSIZE_def min_def)
    have k: "off div 512 < 143" using o(1,2) by (intro less_mult_imp_div_less) simp
    have lr: "0 < ?l" "?b + ?l \<le> 512" "?l \<le> r" using o(2) lt by auto
    have ul: "ubuf s kb ?l" using ubuf_part [OF u, of 0 ?l] by simp
    obtain s' M' where "sfs_partialio sv (kuio kb n (int off) r rw) (of_nat ?b) (of_nat ?l) s =
        Ok (0, kuio (kb + of_nat ?l) (n - ?l) (int (off + ?l)) (r - ?l) rw, s')" "io_post rw s M sv off kb ?l 1 s' M'"
      using partial_io [OF pre k lr o(3,4) ul] by blast
    moreover have "?l = r \<or> (off + ?l) mod 512 = 0"
    proof (cases "512 - ?b \<le> r")
      case True
      have "off + ?l = 512 * (off div 512) + 512" using mult_div_mod_eq [of 512 off] lt True by linarith
      then have "off + ?l = 512 * Suc (off div 512)" by simp
      then show ?thesis by (simp only: mod_mult_self1_is_0) simp
    qed simp
    moreover have "io_leading sv (kuio kb n (int off) r rw) s = sfs_partialio sv (kuio kb n (int off) r rw) (of_nat ?b) (of_nat ?l) s"
      unfolding io_leading_def Let_def kuio_simps b len using False z by simp
    ultimately show ?thesis using lr(3) by (intro exI [of _ ?l] exI [of _ s'] exI [of _ M']) simp
  qed
qed

lemma io_body_io:
  assumes pre: "io_pre rw s M sv (r div 512 + 2)" and o: "off + r \<le> 143 * 512" "0 < r" "r \<le> n" "n < 2 ^ 32" and u: "ubuf s kb r"
  shows "\<exists>s' M'. io_body sv (kuio kb n (int off) r rw) s = Ok (0, kuio (kb + of_nat r) (n - r) (int (off + r)) 0 rw, s')
    \<and> io_post rw s M sv off kb r (r div 512 + 2) s' M'"
proof -
  have "io_pre rw s M sv 1" using pre by (auto simp: io_pre_def spare_def)
  from leading_io [OF this o u]
  obtain l s1 M1 where a: "l \<le> r" "l = r \<or> (off + l) mod 512 = 0"
      "io_leading sv (kuio kb n (int off) r rw) s =
      Ok (0, kuio (kb + of_nat l) (n - l) (int (off + l)) (r - l) rw, s1)" "io_post rw s M sv off kb l 1 s1 M1"
    by (elim exE conjE) (rule that)
  show ?thesis
  proof (cases "l = r")
    case True
    then show ?thesis using a(3) io_post_mono [OF a(4), of "r div 512 + 2"] by (auto simp: io_body_def)
  next
    case False
    define k q t where "k = (off + l) div 512" and "q = (r - l) div 512" and "t = (r - l) mod 512"
    have k: "off + l = 512 * k" using a(2) False mult_div_mod_eq [of 512 "off + l"] by (simp add: k_def)
    have rl: "r - l = 512 * q + t" "t < 512" by (simp_all add: q_def t_def)
    have ql: "q \<le> r div 512" by (simp add: q_def div_le_mono)
    have "io_pre rw s M sv (1 + (r div 512 + 1))" using pre by simp
    note P1 = io_post_pre [OF this a(4)]
    have pq: "io_pre rw s1 M1 sv (q + 1)" using P1(1) ql by (auto simp: io_pre_def spare_def)
    then have pq': "io_pre rw s1 M1 sv q" by (auto simp: io_pre_def spare_def)
    have u1: "ubuf s1 (kb + of_nat l) (512 * q + t)" using ubuf_part [OF u, of l "512 * q + t"] ubuf_env [OF P1(2)] rl(1) a(1) by simp
    have uq: "ubuf s1 (kb + of_nat l) (512 * q)" using ubuf_part [OF u1, of 0 "512 * q"] by simp
    have kq: "k + q \<le> 143" "512 * q \<le> r - l" "r - l \<le> n - l" "n - l < 2 ^ 32" using k rl o a(1) by linarith+
    obtain s2 M2 where c: "blockio_loop q sv (kuio (kb + of_nat l) (n - l) (int (512 * k)) (r - l) rw) s1 =
          Ok (0, kuio (kb + of_nat l + of_nat (512 * q)) (n - l - 512 * q) (int (512 * k + 512 * q)) (r - l - 512 * q) rw, s2)"
        "io_post rw s1 M1 sv (512 * k) (kb + of_nat l) (512 * q) q s2 M2"
      using blocks_io [OF pq' kq uq] by blast
    have T: "io_post rw s M sv off kb (l + 512 * q) (1 + q) s2 M2"
      by (rule io_post_trans [OF a(4)]) (use c(2) k ubuf_part [OF u, of 0 "l + 512 * q"] kq(2) a(1) in auto)
    note P2 = io_post_pre [OF pq c(2)]
    have e2: "same_env s s2" using same_env_trans [OF P1(2) P2(2)] .
    have sm: "int (512 * k) smod int SFS_BLOCKSIZE = 0" by (simp add: SFS_BLOCKSIZE_def smod_nonneg)
    have rt: "r - l - 512 * q = t" "r - l \<noteq> 0" using rl(1) False a(1) by linarith+
    have rest: "io_body sv (kuio kb n (int off) r rw) s =
        (if t > 0 then sfs_partialio sv (kuio (kb + of_nat l + of_nat (512 * q)) (n - l - 512 * q) (int (512 * k + 512 * q)) t rw) 0 (of_nat t) s2
         else Ok (0, kuio (kb + of_nat l + of_nat (512 * q)) (n - l - 512 * q) (int (512 * k + 512 * q)) t rw, s2))"
      using a(3) c(1) sm rt rl(2) k by (simp add: io_body_def SFS_BLOCKSIZE_def q_def [symmetric])
    show ?thesis
    proof (cases "t = 0")
      case True
      then have r: "l + 512 * q = r" using rl a(1) by simp
      then have "kb + of_nat l + of_nat (512 * q) = kb + of_nat r" "512 * k + 512 * q = off + r" "n - l - 512 * q = n - r"
        using k by (simp_all flip: r)
      then show ?thesis unfolding rest using True r io_post_mono [OF T, of "r div 512 + 2"] ql
        by (intro exI [of _ s2] exI [of _ M2]) (simp add: add.assoc)
    next
      case t: False
      let ?off = "512 * (k + q)" and ?kb = "kb + of_nat (l + 512 * q)"
      have "?off mod 512 = 0" "?off div 512 = k + q" by simp_all
      moreover have "k + q < 143" using k rl t o(1) a(1) by linarith
      ultimately have "\<exists>s' M'. sfs_partialio sv (kuio ?kb (n - l - 512 * q) (int ?off) t rw) 0 (of_nat t) s2 =
          Ok (0, kuio (?kb + of_nat t) (n - l - 512 * q - t) (int (?off + t)) (t - t) rw, s') \<and> io_post rw s2 M2 sv ?off ?kb t 1 s' M'"
        using partial_io [OF P2(1), of ?off t t "n - l - 512 * q" ?kb] t rl(2) kq rt ubuf_part [OF u, of "l + 512 * q" t] ubuf_env [OF e2] rl(1) a(1)
        by simp
      then obtain s3 M3 where d: "sfs_partialio sv (kuio ?kb (n - l - 512 * q) (int ?off) t rw) 0 (of_nat t) s2 =
          Ok (0, kuio (?kb + of_nat t) (n - l - 512 * q - t) (int (?off + t)) (t - t) rw, s3)" "io_post rw s2 M2 sv ?off ?kb t 1 s3 M3"
        by blast
      have off: "off + (l + 512 * q) = ?off" "l + 512 * q + t = r" using k rl(1) a(1) by simp_all
      have T3: "io_post rw s M sv off kb (l + 512 * q + t) (1 + q + 1) s3 M3"
        by (rule io_post_trans [OF T]) (use d(2) u in \<open>simp_all only: off\<close>)
      have eqs: "kb + of_nat l + of_nat (512 * q) = ?kb" "512 * k + 512 * q = ?off" by simp_all
      have eqs': "?kb + of_nat t = kb + of_nat r" "?off + t = off + r" "n - l - 512 * q - t = n - r"
        using off by (simp flip: off(2), linarith+)
      show ?thesis unfolding rest eqs using t d(1) [unfolded eqs'] io_post_mono [OF T3, of "r div 512 + 2"] ql off(2)
        by (intro exI [of _ s3] exI [of _ M3]) simp
    qed
  qed
qed

section \<open>Files as sequences of bytes\<close>

definition fsize :: "sfs_fs \<Rightarrow> ptr \<Rightarrow> nat" where
  "fsize s sv = unat (sfi_size (sv_i (svs s sv)))"

lemma size_int: "uint (sfi_size (sv_i (svs s sv))) = int (fsize s sv)"
  by (simp add: fsize_def)

definition contents :: "sfs_fs \<Rightarrow> ptr \<Rightarrow> byte list" where
  "contents s sv = map (fbyte s sv) [0..<fsize s sv]"

text \<open>The abstract operations; a write starts within the file or at its end.\<close>

definition file_write :: "nat \<Rightarrow> byte list \<Rightarrow> byte list \<Rightarrow> byte list" where
  "file_write off d c = take off c @ d @ drop (off + length d) c"

definition file_read :: "nat \<Rightarrow> nat \<Rightarrow> byte list \<Rightarrow> byte list" where
  "file_read off n c = take n (drop off c)"

lemma file_read_write: "off \<le> length c \<Longrightarrow> file_read off (length d) (file_write off d c) = d"
  by (simp add: file_read_def file_write_def)

lemma file_write_length: "off \<le> length c \<Longrightarrow> length (file_write off d c) = max (length c) (off + length d)"
  by (simp add: file_write_def)

lemma file_write_nth:
  "off \<le> length c \<Longrightarrow> i < length (file_write off d c) \<Longrightarrow>
   file_write off d c ! i = (if off \<le> i \<and> i < off + length d then d ! (i - off) else c ! i)"
  unfolding file_write_length by (auto simp: file_write_def nth_append min_def)

definition buf_bytes :: "vaddr \<Rightarrow> nat \<Rightarrow> kmem \<Rightarrow> byte list" where
  "buf_bytes kb n m = map (\<lambda>j. m (kb + of_nat j)) [0..<n]"

text \<open>The other files: their own vnodes, none of their blocks the file's.\<close>

definition apart :: "sfs_fs \<Rightarrow> nat set \<Rightarrow> ptr \<Rightarrow> ptr \<Rightarrow> bool" where
  "apart s M sv p \<longleftrightarrow> p \<noteq> sv \<and> file_ok s M p \<and> fblocks s p \<inter> fblocks s sv = {}"

definition framed :: "sfs_fs \<Rightarrow> nat set \<Rightarrow> ptr \<Rightarrow> sfs_fs \<Rightarrow> nat set \<Rightarrow> bool" where
  "framed s M sv s' M' \<longleftrightarrow>
     same_env s s' \<and> M \<subseteq> M' \<and> (\<forall>c. unat c \<in> M \<longrightarrow> c \<notin> fblocks s sv \<longrightarrow> blk s' c = blk s c) \<and>
     (\<forall>c \<in> fblocks s' sv. c \<in> fblocks s sv \<or> unat c \<notin> M) \<and> (\<forall>p. p \<noteq> sv \<longrightarrow> svs s' p = svs s p) \<and>
     sv_ino (svs s' sv) = sv_ino (svs s sv) \<and> vn_refcount (svs s' sv) = vn_refcount (svs s sv) \<and>
     sfi_linkcount (sv_i (svs s' sv)) = sfi_linkcount (sv_i (svs s sv))"

lemma kept_framed: "kept s M sv s' M' \<Longrightarrow> framed s M sv s' M'"
  by (simp add: kept_def framed_def same_inode_def)

lemma framed_other:
  assumes K: "framed s M sv s' M'" and A: "apart s M sv p"
  shows "apart s' M' sv p" "svs s' p = svs s p" "\<And>i. i < 143 * 512 \<Longrightarrow> fbyte s' p i = fbyte s p i"
proof -
  have F: "file_ok s M p" using A by (simp add: apart_def)
  show sv: "svs s' p = svs s p" using K A by (simp add: framed_def apart_def)
  have used: "unat c \<in> M" if "c \<in> fblocks s p" for c using F that by (auto simp: fblocks_def file_ok_def in_use_def)
  have b: "blk s' c k = blk s c k" if "c \<in> fblocks s p" "k < 512" for c k
  proof -
    have "c \<notin> fblocks s sv" using A that by (auto simp: apart_def)
    then show ?thesis using K used [OF that(1)] by (simp add: framed_def)
  qed
  have e: "sv_i (svs s' p) = sv_i (svs s p)" "sb_nblocks s' = sb_nblocks s" "M \<subseteq> M'" using K sv by (simp_all add: framed_def same_env_def)
  have R: "file_ok s' M' p" "\<And>k. k < 143 \<Longrightarrow> fmap s' p k = fmap s p k" "indirect s' p = indirect s p"
      "\<And>i. i < 143 * 512 \<Longrightarrow> fbyte s' p i = fbyte s p i"
    using file_frame [OF F e] b by blast+
  show "fbyte s' p i = fbyte s p i" if "i < 143 * 512" for i using R(4) [OF that] by blast
  have "fblocks s' p = fblocks s p" using R(2,3) by (simp add: fblocks_def)
  moreover have "c \<in> fblocks s sv \<or> unat c \<notin> M" if "c \<in> fblocks s' sv" for c using K that by (simp add: framed_def)
  ultimately show "apart s' M' sv p" using R(1) A used unfolding apart_def by blast
qed

text \<open>The size of the file is set last.\<close>

lemma set_size:
  fixes sv z s
  defines "s' \<equiv> upd_inode sv (\<lambda>d. d\<lparr>sfi_size := z\<rparr>) s"
  shows "sfs_ok s' M = sfs_ok s M" "file_ok s' M p = file_ok s M p" "fbyte s' p i = fbyte s p i" "fblocks s' p = fblocks s p"
    "fsize s' p = (if p = sv then unat z else fsize s p)" "mem_kept r s' = mem_kept r s" "same_env r s' = same_env r s"
proof -
  have S: "sfs_device s' = sfs_device s" "s_mem s' = s_mem s" "sfs_freemap s' = sfs_freemap s" "s_bufs s' = s_bufs s"
      "sb_nblocks s' = sb_nblocks s" "s_uc s' = s_uc s" "sfs_vnodes s' = sfs_vnodes s" "vfs_biglock_depth s' = vfs_biglock_depth s"
    by (simp_all add: s'_def upd_inode_def upd_sv_def)
  have b: "blk s' = blk s" "indirect s' q = indirect s q" "sfi_direct (sv_i (svs s' q)) = sfi_direct (sv_i (svs s q))" for q
    by (simp_all add: s'_def upd_inode_def upd_sv_def blk_def indirect_def fun_eq_iff)
  have f: "fmap s' q = fmap s q" for q by (rule ext) (simp only: fmap_def b)
  have sc: "scratch s' = scratch s" using S by (simp add: scratch_def fun_eq_iff)
  show "sfs_ok s' M = sfs_ok s M" using S sc by (simp add: sfs_ok_def bufs_ok_def vfs_biglock_do_i_hold_def)
  show "file_ok s' M p = file_ok s M p" using b f S by (simp add: file_ok_def in_use_def)
  show "fbyte s' p i = fbyte s p i" using b f by (simp add: fbyte_def)
  show "fblocks s' p = fblocks s p" using b f by (simp add: fblocks_def)
  show "fsize s' p = (if p = sv then unat z else fsize s p)" by (simp add: fsize_def s'_def upd_inode_def upd_sv_def)
  show "mem_kept r s' = mem_kept r s" "same_env r s' = same_env r s" using S by (simp_all add: mem_kept_def same_env_def)
qed

lemma sfs_io_write:
  assumes ok: "sfs_ok s M" and F: "file_ok s M sv" and room: "spare s M sv (n div 512 + 2)"
    and o: "off + n \<le> 143 * 512" "0 < n" and u: "ubuf s kb n"
  shows "\<exists>u' s1 s' M'. sfs_io sv (uio_kinit kb n (int off) UIO_WRITE) s = Ok (0, u', s') \<and> uio_resid u' = 0
    \<and> wr_post s M sv off kb n (n div 512 + 2) s1 M'
    \<and> s' = (if off + n > fsize s sv then upd_inode sv (\<lambda>d. d\<lparr>sfi_size := of_nat (off + n)\<rparr>) s1 else s1)"
proof -
  have n: "n < 2 ^ 32" using o(1) by simp
  have pre: "io_pre UIO_WRITE s M sv (n div 512 + 2)" using ok F room by (simp add: io_pre_def)
  obtain s1 M' where b: "io_body sv (kuio kb n (int off) n UIO_WRITE) s = Ok (0, kuio (kb + of_nat n) 0 (int (off + n)) 0 UIO_WRITE, s1)"
      "wr_post s M sv off kb n (n div 512 + 2) s1 M'"
    using io_body_io [OF pre o _ n u] by (auto simp: io_post_def)
  have sz: "uint (sfi_size (sv_i (svs s1 sv))) = int (fsize s sv)" using b(2) by (simp add: wr_post_def kept_def same_inode_def fsize_def)
  let ?s = "if off + n > fsize s sv then upd_inode sv (\<lambda>d. d\<lparr>sfi_size := of_nat (off + n)\<rparr>) s1 else s1"
  have "sfs_io sv (uio_kinit kb n (int off) UIO_WRITE) s = Ok (0, kuio (kb + of_nat n) 0 (int (off + n)) 0 UIO_WRITE, ?s)"
    unfolding sfs_io_def uio_kinit_kuio using b(1) sz o(2) by (simp add: Let_def)
  then show ?thesis using b(2) by fastforce
qed

text \<open>
  (C15) Writing to a file: \<open>sfs_io\<close> moves every byte of the request, the file's contents become what
  the abstract write makes of them (partial blocks, holes and blocks that had to be allocated
  included), the file system stays well-formed, and every file that shares no block with this one
  keeps its inode and its bytes.
\<close>

theorem sfs_write_refines:
  assumes "sfs_ok s M" "file_ok s M sv" "off + n \<le> 143 * 512" "0 < n" "off \<le> fsize s sv" "fsize s sv \<le> 143 * 512"
    and "ubuf s kb n" "spare s M sv (n div 512 + 2)"
  shows "\<exists>u' s' M'. sfs_io sv (uio_kinit kb n (int off) UIO_WRITE) s = Ok (0, u', s') \<and> uio_resid u' = 0
    \<and> sfs_ok s' M' \<and> file_ok s' M' sv
    \<and> contents s' sv = file_write off (buf_bytes kb n (s_mem s)) (contents s sv)
    \<and> (\<forall>p. apart s M sv p \<longrightarrow> apart s' M' sv p \<and> svs s' p = svs s p \<and> (\<forall>i < 143 * 512. fbyte s' p i = fbyte s p i))"
proof -
  obtain u' s1 s' M' where r: "sfs_io sv (uio_kinit kb n (int off) UIO_WRITE) s = Ok (0, u', s')" "uio_resid u' = 0"
      "wr_post s M sv off kb n (n div 512 + 2) s1 M'"
      "s' = (if off + n > fsize s sv then upd_inode sv (\<lambda>d. d\<lparr>sfi_size := of_nat (off + n)\<rparr>) s1 else s1)"
    using sfs_io_write [OF assms(1,2,8,3,4,7)] by blast
  have K: "kept s M sv s1 M'" and by1: "\<And>i. i < 143 * 512 \<Longrightarrow> fbyte s1 sv i = (if off \<le> i \<and> i < off + n then s_mem s (kb + of_nat (i - off)) else fbyte s sv i)"
    using r(3) by (simp_all add: wr_post_def)
  have z: "unat (of_nat (off + n) :: 32 word) = off + n" using assms(3) by (intro unat_of_nat_32) simp
  have S: "sfs_ok s' M' = sfs_ok s1 M'" "file_ok s' M' p = file_ok s1 M' p" "fbyte s' p i = fbyte s1 p i" "fblocks s' p = fblocks s1 p"
      "fsize s' sv = max (fsize s sv) (off + n)" "p \<noteq> sv \<Longrightarrow> svs s' p = svs s1 p" for p i
    using set_size [where sv = sv and z = "of_nat (off + n)" and s = s1] K z unfolding r(4) by (auto simp: kept_def same_inode_def fsize_def upd_inode_def upd_sv_def)
  have "contents s' sv = file_write off (buf_bytes kb n (s_mem s)) (contents s sv)"
  proof (rule nth_equalityI)
    have l: "off \<le> length (contents s sv)" "length (contents s sv) = fsize s sv" "length (buf_bytes kb n (s_mem s)) = n" using assms(5) by (simp_all add: contents_def buf_bytes_def)
    show len: "length (contents s' sv) = length (file_write off (buf_bytes kb n (s_mem s)) (contents s sv))"
      unfolding file_write_length [OF l(1)] l by (simp add: contents_def S(5))
    show "contents s' sv ! i = file_write off (buf_bytes kb n (s_mem s)) (contents s sv) ! i" if i: "i < length (contents s' sv)" for i
    proof -
      have i': "i < max (fsize s sv) (off + n)" using i by (simp add: contents_def S(5))
      then have "contents s' sv ! i = fbyte s1 sv i" "i < 143 * 512" using assms(3,6) by (simp_all add: contents_def S(3,5))
      moreover have "off \<le> i \<and> i < off + n \<Longrightarrow> buf_bytes kb n (s_mem s) ! (i - off) = s_mem s (kb + of_nat (i - off))"
        by (simp add: buf_bytes_def less_diff_conv2)
      moreover have "\<not> (off \<le> i \<and> i < off + n) \<Longrightarrow> contents s sv ! i = fbyte s sv i" using i' assms(5) by (auto simp: contents_def less_max_iff_disj)
      ultimately show ?thesis using file_write_nth [OF l(1), of i] i len by1 [of i] l(3) by (simp split: if_splits)
    qed
  qed
  moreover have "apart s' M' sv p \<and> svs s' p = svs s p \<and> (\<forall>i < 143 * 512. fbyte s' p i = fbyte s p i)" if "apart s M sv p" for p
    using framed_other [OF kept_framed [OF K] that] S that by (simp add: apart_def)
  ultimately show ?thesis using r(1,2) S(1,2) K by (auto simp: kept_def)
qed

text \<open>
  A volume of 16 blocks with a file of 600 bytes: its inode is block 2, its first block is block 3, and
  its second block is a hole.
\<close>

definition ex_bufs :: sfs_bufs where
  "ex_bufs = \<lparr>b_zeros = 0x80030000, b_idbuf = 0x80031000, b_truncbuf = 0x80032000, b_iobuf = 0x80033000,
     b_metaiobuf = 0x80034000, b_zeros16 = 0x80035000, b_tsd = 0x80036000, b_sd = 0x80036100, b_sb = 0x80037000, b_freemap = 0x80038000\<rparr>"

definition ex_fmem :: kmem where
  "ex_fmem = (\<lambda>a. if unat (a - 0x80030000) < 512 \<or> unat (a - 0x80035000) < 16 then 0 else 7)"

definition ex_file :: sfs_vnode where
  "ex_file = \<lparr>sv_i = \<lparr>sfi_size = 600, sfi_type = SFS_TYPE_FILE, sfi_linkcount = 1, sfi_direct = 3 # replicate 14 0, sfi_indirect = 0\<rparr>,
     sv_ino = 2, sv_dirty = False, vn_refcount = 1\<rparr>"

definition ex_used :: "nat set" where
  "ex_used = {0, 2, 3} \<union> {16..<4096}"

definition ex_sfs :: sfs_fs where
  "ex_sfs = \<lparr>sb_nblocks = 16, sfs_superdirty = False, sfs_device = ex_lhd, sfs_vnodes = [0x80008000],
     sfs_freemap = \<lparr>nbits = 4096, bm_v = [13, 0] @ replicate 510 0xff\<rparr>, sfs_freemapdirty = False, svs = (\<lambda>p. ex_file),
     s_mem = ex_fmem, s_uc = ex_uc, s_bufs = ex_bufs, vfs_biglock_depth = 1\<rparr>"

lemma area_iff:
  fixes a p :: "32 word"
  assumes "unat p + n \<le> 2 ^ 32"
  shows "unat (a - p) < n \<longleftrightarrow> unat p \<le> unat a \<and> unat a < unat p + n"
  using unat_sub_less_iff [of p n a] assms by simp

lemma bit_byte_ff: "k < 8 \<Longrightarrow> bit (0xff :: byte) k"
proof -
  assume "k < 8"
  then have "k \<in> set [0..<8]" by simp
  then show ?thesis by (simp add: upt_rec) (auto simp: bit_iff_odd)
qed

lemma small_freemap:
  assumes w: "\<And>i. i < 8 \<Longrightarrow> bit w i \<longleftrightarrow> i \<in> U" and U: "U \<subseteq> {..<8}"
  shows "bitmap_rep \<lparr>nbits = 4096, bm_v = [w, 0] @ replicate 510 0xff\<rparr> 4096 (U \<union> {16..<4096})"
proof -
  have "bit (([w, 0] @ replicate 510 (0xff :: byte)) ! (i div 8)) (i mod 8) \<longleftrightarrow> i \<in> U \<union> {16..<4096}" if "i < 4096" for i
  proof (cases "i < 16")
    case True
    then consider "i < 8" | "8 \<le> i" "i < 16" by linarith
    then show ?thesis
    proof cases
      case 2
      then have "i div 8 = 1" by simp
      then show ?thesis using 2 U by auto
    qed (use w in simp)
  next
    case False
    then have "i div 8 \<ge> 2" "i div 8 < 512" using that by (simp_all add: less_mult_imp_div_less)
    then have "([w, 0] @ replicate 510 (0xff :: byte)) ! (i div 8) = 0xff" unfolding nth_append by simp
    then show ?thesis using False that bit_byte_ff [of "i mod 8"] by simp
  qed
  then show ?thesis using U by (auto simp: bitmap_rep_def)
qed

lemma ex_freemap: "bitmap_rep (sfs_freemap ex_sfs) 4096 ex_used"
proof -
  have "bit (13 :: byte) i \<longleftrightarrow> i \<in> {0, 2, 3}" if "i < 8" for i
  proof -
    have "i \<in> set [0..<8]" using that by simp
    then show ?thesis by (simp add: upt_rec) (auto simp: bit_iff_odd)
  qed
  from small_freemap [OF this] show ?thesis by (simp add: ex_sfs_def ex_used_def)
qed

lemma ex_sfs_ok: "sfs_ok ex_sfs ex_used"
proof -
  have "bufs_ok ex_sfs"
    unfolding bufs_ok_def scratch_def in_buf_def
    by (simp add: ex_sfs_def ex_bufs_def ex_lhd_def below_buf_def area_iff ex_fmem_def)
  moreover have "unat (sb_nblocks ex_sfs) = 16" by (simp add: ex_sfs_def)
  moreover have "{16..<4096} \<subseteq> ex_used" "0 \<in> ex_used" by (auto simp: ex_used_def)
  ultimately show ?thesis
    using ex_lhd_wf ex_freemap by (auto simp: sfs_ok_def ex_sfs_def ex_lhd_def vfs_biglock_do_i_hold_def)
qed

lemma ex_fmap: "indirect ex_sfs sv = 0" "fmap ex_sfs sv k = (if k = 0 then 3 else 0)"
proof -
  show i: "indirect ex_sfs sv = 0" by (simp add: indirect_def ex_sfs_def ex_file_def)
  show "fmap ex_sfs sv k = (if k = 0 then 3 else 0)"
    unfolding fmap_def i by (simp add: ex_sfs_def ex_file_def nth_Cons')
qed

lemma ex_file_ok: "file_ok ex_sfs ex_used sv"
  unfolding file_ok_def ex_fmap in_use_def by (simp add: ex_sfs_def ex_file_def ex_used_def)

lemma ex_spare: "n \<le> 12 \<Longrightarrow> spare ex_sfs ex_used sv n"
proof -
  assume "n \<le> 12"
  have "{..<16} - ex_used = insert 1 {4..<16}" by (auto simp: ex_used_def)
  then have "nfree ex_sfs ex_used = 13" by (simp add: nfree_def ex_sfs_def)
  then show ?thesis using \<open>n \<le> 12\<close> by (simp add: spare_def)
qed

lemma ex_ubuf:
  assumes "n \<le> 4096"
  shows "ubuf ex_sfs 0x80040000 n" "\<And>j. j < n \<Longrightarrow> s_mem ex_sfs (0x80040000 + of_nat j) = 7"
proof -
  have u: "unat (0x80040000 + of_nat j :: 32 word) = 0x80040000 + j" if "j < n" for j
    using assms that unat_plus_nat [of "0x80040000" j] by simp
  show "ubuf ex_sfs 0x80040000 n"
    unfolding ubuf_def scratch_def in_buf_def below_buf_def using assms
    by (simp add: ex_sfs_def ex_bufs_def ex_lhd_def area_iff u) (simp add: unat_plus_nat)
  show "s_mem ex_sfs (0x80040000 + of_nat j) = 7" if "j < n" for j
    using u [OF that] by (simp add: ex_sfs_def ex_fmem_def area_iff)
qed

lemma ex_contents: "fsize ex_sfs sv = 600" "contents ex_sfs sv = map of_nat [0..<512] @ replicate 88 0"
proof -
  show f: "fsize ex_sfs sv = 600" by (simp add: fsize_def ex_sfs_def ex_file_def)
  have "fbyte ex_sfs sv i = (if i < 512 then of_nat i else 0)" if "i < 600" for i
    using that by (simp add: fbyte_def ex_fmap blk_def) (simp add: ex_sfs_def ex_lhd_def)
  then show "contents ex_sfs sv = map of_nat [0..<512] @ replicate 88 0"
    by (intro nth_equalityI) (simp_all add: contents_def f nth_append)
qed

theorem sfs_write_refines_witness:
  "\<exists>u' s'. sfs_io 0x80008000 (uio_kinit 0x80040000 100 510 UIO_WRITE) ex_sfs = Ok (0, u', s') \<and> uio_resid u' = 0
     \<and> contents s' 0x80008000 = map of_nat [0..<510] @ replicate 100 7"
proof -
  have "buf_bytes 0x80040000 100 (s_mem ex_sfs) = replicate 100 7"
    using ex_ubuf(2) [of 100] by (intro nth_equalityI) (simp_all add: buf_bytes_def)
  moreover have "file_write 510 (replicate 100 7) (map of_nat [0..<512] @ replicate 88 0) = map of_nat [0..<510] @ replicate 100 (7 :: byte)"
    by (simp add: file_write_def take_map take_upt)
  ultimately show ?thesis
    using sfs_write_refines [OF ex_sfs_ok ex_file_ok, of 510 100 "0x80008000" "0x80040000"] ex_ubuf(1) [of 100] ex_spare [of "Suc (Suc 0)"]
    by (auto simp: ex_contents)
qed

text \<open>
  (C16) Reading from a file: up to the end of the file, the buffer gets the bytes the file holds there
  (zeros for a hole); what lies beyond the end is left in the residue of the request. No inode and no
  block of the disk changes, and no memory besides the buffer and the file system's own buffers.
\<close>

theorem sfs_read_refines:
  assumes "sfs_ok s M" "file_ok s M sv" "fsize s sv \<le> 143 * 512" "0 < n" "n < 2 ^ 32" "ubuf s kb n"
  shows "\<exists>u' s'. sfs_io sv (uio_kinit kb n (int off) UIO_READ) s = Ok (0, u', s')
    \<and> buf_bytes kb (n - uio_resid u') (s_mem s') = file_read off n (contents s sv)
    \<and> uio_resid u' = n - min n (fsize s sv - off)
    \<and> sfs_ok s' M \<and> svs s' = svs s \<and> blk s' = blk s
    \<and> (\<forall>a. \<not> scratch s a \<longrightarrow> \<not> unat (a - kb) < n - uio_resid u' \<longrightarrow> s_mem s' a = s_mem s a)"
proof (cases "fsize s sv \<le> off")
  case True
  have "sfs_io sv (uio_kinit kb n (int off) UIO_READ) s = Ok (0, uio_kinit kb n (int off) UIO_READ, s)"
    unfolding sfs_io_def uio_kinit_kuio Let_def kuio_simps size_int using True by simp
  then show ?thesis using assms(1) True
    by (intro exI [of _ "uio_kinit kb n (int off) UIO_READ"] exI [of _ s]) (simp add: uio_kinit_def buf_bytes_def file_read_def contents_def)
next
  case False
  define r where "r = min n (fsize s sv - off)"
  have r: "0 < r" "r \<le> n" "off + r \<le> 143 * 512" "off + r \<le> fsize s sv" using False assms(3,4) by (auto simp: r_def)
  have pre: "io_pre UIO_READ s M sv (r div 512 + 2)" using assms(1,2) by (simp add: io_pre_def)
  have u: "ubuf s kb r" using ubuf_part [OF assms(6), of 0 r] r(2) by simp
  obtain s' where b: "io_body sv (kuio kb n (int off) r UIO_READ) s = Ok (0, kuio (kb + of_nat r) (n - r) (int (off + r)) 0 UIO_READ, s')"
      "rd_post s M sv off kb r s'"
    using io_body_io [OF pre r(3,1,2) assms(5) u] by (auto simp: io_post_def)
  define x where "x = (if int off + int n > int (fsize s sv) then nat (int off + int n - int (fsize s sv)) mod 2 ^ 32 else 0)"
  have x: "x = n - r" "nat (int off + int n - int (fsize s sv)) < n" using False assms(4,5) r by (auto simp: x_def r_def)
  have "sfs_io sv (uio_kinit kb n (int off) UIO_READ) s = Ok (0, kuio (kb + of_nat r) (n - r) (int (off + r)) (n - r) UIO_READ, s')"
    unfolding sfs_io_def uio_kinit_kuio Let_def kuio_simps size_int using b(1) x r False assms(5) unfolding x_def by simp
  moreover have "buf_bytes kb r (s_mem s') = file_read off n (contents s sv)"
    using b(2) r by (intro nth_equalityI) (auto simp: buf_bytes_def file_read_def contents_def rd_post_def r_def)
  moreover have "n - (n - r) = r" using r(2) by simp
  ultimately show ?thesis using b(2) by (fastforce simp: rd_post_def r_def)
qed

theorem sfs_read_refines_witness:
  "\<exists>u' s'. sfs_io 0x80008000 (uio_kinit 0x80040000 20 505 UIO_READ) ex_sfs = Ok (0, u', s') \<and> uio_resid u' = 0
     \<and> buf_bytes 0x80040000 20 (s_mem s') = map of_nat [505..<512] @ replicate 13 0"
proof -
  have "file_read 505 20 (map of_nat [0..<512] @ replicate 88 0) = map of_nat [505..<512] @ replicate 13 (0 :: byte)"
    by (simp add: file_read_def drop_map)
  then show ?thesis
    using sfs_read_refines [OF ex_sfs_ok ex_file_ok, of "0x80008000" 20 "0x80040000" 505] ex_ubuf(1) [of 20]
    by (auto simp: ex_contents)
qed

end
