(* ===== verification/SFS_Trunc.thy ===== *)
theory SFS_Trunc
  imports SFS_File
begin

text \<open>
  Truncation of files of SFS: which blocks \<open>sfs_itrunc\<close> gives back, and which blocks beyond the new
  end of the file it keeps.
\<close>

unbundle bit_operations_syntax

section \<open>Giving blocks back\<close>

lemma kfold_upt:
  assumes "P 0 s" "\<And>i t. i < n \<Longrightarrow> P i t \<Longrightarrow> \<exists>t'. f i t = Ok t' \<and> P (Suc i) t'"
  shows "\<exists>t. kfold f [0..<n] s = Ok t \<and> P n t"
proof -
  have "\<exists>t. kfold f [0..<m] s = Ok t \<and> P m t" if "m \<le> n" for m
    using that
  proof (induction m)
    case (Suc m)
    then obtain t where "kfold f [0..<m] s = Ok t" "P m t" by auto
    with assms(2) [of m t] Suc.prems show ?case by fastforce
  qed (simp add: assms(1))
  then show ?thesis by blast
qed

lemma bfree_ok:
  assumes ok: "sfs_ok s M" and b: "in_use s M b" "b \<noteq> 0"
  shows "\<exists>bm. sfs_bfree b s = Ok (s\<lparr>sfs_freemap := bm, sfs_freemapdirty := True\<rparr>)
    \<and> sfs_ok (s\<lparr>sfs_freemap := bm, sfs_freemapdirty := True\<rparr>) (M - {unat b})"
proof -
  obtain n where n: "bitmap_rep (sfs_freemap s) n M" "unat (sb_nblocks s) \<le> n" "{unat (sb_nblocks s)..<n} \<subseteq> M"
    using ok by (auto simp: sfs_ok_def)
  obtain bm where bm: "bitmap_unmark (sfs_freemap s) b = Ok bm" "bitmap_rep bm n (M - {unat b})"
    using bm.free_some [OF n(1)] b(1) by (auto simp: in_use_def)
  let ?s = "s\<lparr>sfs_freemap := bm, sfs_freemapdirty := True\<rparr>"
  have sc: "scratch ?s = scratch s" by (simp add: scratch_def fun_eq_iff)
  have "unat b \<noteq> 0" using b(2) by (simp add: unat_eq_0)
  then have "sfs_ok ?s (M - {unat b})"
    using ok bm(2) n(2,3) b(1) by (auto simp: sfs_ok_def vfs_biglock_do_i_hold_def bufs_ok_def sc in_use_def)
  then show ?thesis using bm(1) by (auto simp: sfs_bfree_def)
qed

text \<open>The volume without the blocks of \<open>B\<close>.\<close>

definition without :: "nat set \<Rightarrow> daddr set \<Rightarrow> nat set" where
  "without M B = M - unat ` (B - {0})"

lemma without_insert: "without M (insert b B) = (if b = 0 then without M B else without M B - {unat b})"
  by (auto simp: without_def)

lemma in_without: "unat c \<in> without M B \<longleftrightarrow> unat c \<in> M \<and> (c \<in> B \<longrightarrow> c = 0)"
  by (auto simp: without_def dest: word_unat_eq_iff [THEN iffD2])

lemma file_ok_used: "file_ok s M sv \<Longrightarrow> k < 143 \<Longrightarrow> fmap s sv k \<noteq> 0 \<Longrightarrow> in_use s M (fmap s sv k)"
  by (simp add: file_ok_def)

lemma file_ok_drop:
  assumes F: "file_ok s M sv" and nb: "sb_nblocks s' = sb_nblocks s" and len: "length (sfi_direct (sv_i (svs s' sv))) = 15"
    and fm: "\<And>k. k < 143 \<Longrightarrow> fmap s' sv k = (if k \<in> D then 0 else fmap s sv k)"
    and ind: "indirect s' sv = indirect s sv \<or> indirect s' sv = 0"
    and B: "B \<subseteq> fmap s sv ` (D \<inter> {..<143}) \<union> (if indirect s' sv = 0 then {indirect s sv} else {})"
  shows "file_ok s' (without M B) sv"
proof -
  have old: "in_use s M (fmap s sv k) \<and> fmap s sv k \<noteq> indirect s sv" if "k < 143" "fmap s sv k \<noteq> 0" for k
    using F that by (simp add: file_ok_def)
  have "in_use s' (without M B) (fmap s' sv k) \<and> fmap s' sv k \<noteq> indirect s' sv" if k: "k < 143" "fmap s' sv k \<noteq> 0" for k
  proof -
    have e: "fmap s' sv k = fmap s sv k" "k \<notin> D" using fm [OF k(1)] k(2) by (auto split: if_splits)
    have "fmap s sv k \<notin> B"
    proof
      assume "fmap s sv k \<in> B"
      then consider j where "j \<in> D" "j < 143" "fmap s sv k = fmap s sv j" | "fmap s sv k = indirect s sv" using B by (auto split: if_splits)
      then show False using file_ok_inj [OF F k(1)] e k old by cases metis+
    qed
    then show ?thesis using old [OF k(1)] k(2) ind e nb by (auto simp: in_use_def in_without)
  qed
  moreover have "in_use s' (without M B) (indirect s' sv)" if i: "indirect s' sv \<noteq> 0"
  proof -
    have e: "indirect s' sv = indirect s sv" using ind i by simp
    have "indirect s sv \<notin> B" using B i e old by fastforce
    then show ?thesis using F i e nb by (simp add: file_ok_def in_use_def in_without)
  qed
  moreover have "i = j" if "i < 143" "j < 143" "fmap s' sv i = fmap s' sv j \<and> fmap s' sv i \<noteq> 0" for i j
    using that fm file_ok_inj [OF F that(1,2)] by (auto split: if_splits)
  ultimately show ?thesis unfolding file_ok_def using len by blast
qed

lemma file_ok_without:
  assumes F: "file_ok s M sv" and d: "fblocks s sv \<inter> B = {}"
  shows "file_ok s (without M B) sv"
proof -
  have "in_use s (without M B) c" if "c \<in> fblocks s sv" "in_use s M c" for c using that d by (auto simp: in_use_def in_without)
  then show ?thesis using F unfolding file_ok_def by (auto simp: fblocks_def)
qed

section \<open>Direct blocks\<close>

definition cut_direct :: "sfs_fs \<Rightarrow> nat set \<Rightarrow> ptr \<Rightarrow> nat \<Rightarrow> nat \<Rightarrow> sfs_fs \<Rightarrow> bool" where
  "cut_direct s M sv bl i t \<longleftrightarrow>
     sfs_ok t (without M (fmap s sv ` {bl..<i})) \<and> same_env s t \<and> sfs_device t = sfs_device s \<and> s_mem t = s_mem s \<and>
     (\<forall>p. p \<noteq> sv \<longrightarrow> svs t p = svs s p) \<and> same_inode (svs s sv) (svs t sv) \<and> indirect t sv = indirect s sv \<and>
     sfi_direct (sv_i (svs t sv)) = map (\<lambda>k. if bl \<le> k \<and> k < i then 0 else sfi_direct (sv_i (svs s sv)) ! k) [0..<15]"

lemma cut_direct_step:
  assumes F: "file_ok s M sv" and i: "i < 15" and C: "cut_direct s M sv (unat bl) i t"
  shows "\<exists>t'. trunc_direct sv bl i t = Ok t' \<and> cut_direct s M sv (unat bl) (Suc i) t'"
proof -
  let ?b = "sfi_direct (sv_i (svs s sv)) ! i"
  have b: "sfi_direct (sv_i (svs t sv)) ! i = ?b" "fmap s sv i = ?b" using C i by (simp_all add: cut_direct_def fmap_def)
  have le: "bl \<le> of_nat i \<longleftrightarrow> unat bl \<le> i" using i by (simp add: word_le_nat_alt)
  have up: "{unat bl..<Suc i} = (if unat bl \<le> i then insert i {unat bl..<i} else {})" by auto
  show ?thesis
  proof (cases "unat bl \<le> i \<and> ?b \<noteq> 0")
    case True
    have "?b \<notin> fmap s sv ` {unat bl..<i}"
    proof
      assume "?b \<in> fmap s sv ` {unat bl..<i}"
      then obtain k where "k < i" "fmap s sv k = fmap s sv i" using b(2) by auto
      then show False using file_ok_inj [OF F, of k i] b(2) True i by simp
    qed
    moreover have "in_use s M ?b" using file_ok_used [OF F, of i] b(2) True i by simp
    ultimately have u: "in_use t (without M (fmap s sv ` {unat bl..<i})) ?b"
      using C by (simp add: in_use_def in_without cut_direct_def same_env_def)
    have "sfs_ok t (without M (fmap s sv ` {unat bl..<i}))" using C by (simp add: cut_direct_def)
    then obtain bm where f: "sfs_bfree ?b t = Ok (t\<lparr>sfs_freemap := bm, sfs_freemapdirty := True\<rparr>)"
        "sfs_ok (t\<lparr>sfs_freemap := bm, sfs_freemapdirty := True\<rparr>) (without M (fmap s sv ` {unat bl..<i}) - {unat ?b})"
      using bfree_ok [OF _ u] True by blast
    let ?t = "upd_inode sv (\<lambda>d. d\<lparr>sfi_direct := (sfi_direct d)[i := 0]\<rparr>) (t\<lparr>sfs_freemap := bm, sfs_freemapdirty := True\<rparr>)"
    have "sfs_ok ?t (without M (fmap s sv ` {unat bl..<Suc i}))"
      by (rule sfs_ok_kept [of "t\<lparr>sfs_freemap := bm, sfs_freemapdirty := True\<rparr>"])
        (use f(2) True b(2) up in \<open>simp_all add: without_insert same_env_def mem_kept_def upd_inode_def upd_sv_def\<close>)
    moreover have "sfi_direct (sv_i (svs ?t sv)) = map (\<lambda>k. if unat bl \<le> k \<and> k < Suc i then 0 else sfi_direct (sv_i (svs s sv)) ! k) [0..<15]"
      using C True i by (intro nth_equalityI) (auto simp: cut_direct_def upd_inode_def upd_sv_def nth_list_update less_Suc_eq)
    ultimately have "cut_direct s M sv (unat bl) (Suc i) ?t"
      using C by (simp add: cut_direct_def) (simp add: upd_inode_def upd_sv_def same_env_def same_inode_def indirect_def)
    then show ?thesis using True b(1) le f(1) by (simp add: trunc_direct_def)
  next
    case False
    have "without M (fmap s sv ` {unat bl..<Suc i}) = without M (fmap s sv ` {unat bl..<i})"
      using False b(2) up by (auto simp: without_insert)
    moreover have "map (\<lambda>k. if unat bl \<le> k \<and> k < Suc i then 0 else sfi_direct (sv_i (svs s sv)) ! k) [0..<15] =
        map (\<lambda>k. if unat bl \<le> k \<and> k < i then 0 else sfi_direct (sv_i (svs s sv)) ! k) [0..<15]"
      using False by (auto simp: less_Suc_eq)
    ultimately have "cut_direct s M sv (unat bl) (Suc i) t" using C by (simp add: cut_direct_def)
    then show ?thesis using False b(1) le by (auto simp: trunc_direct_def Let_def)
  qed
qed

lemma cut_direct_all:
  assumes "sfs_ok s M" "file_ok s M sv"
  shows "\<exists>t. kfold (trunc_direct sv bl) [0..<unat SFS_NDIRECT] s = Ok t \<and> cut_direct s M sv (unat bl) 15 t"
proof -
  have "map (\<lambda>k. if unat bl \<le> k \<and> k < 0 then 0 else sfi_direct (sv_i (svs s sv)) ! k) [0..<15] = sfi_direct (sv_i (svs s sv))"
    using assms(2) by (intro nth_equalityI) (simp_all add: file_ok_def)
  then have "cut_direct s M sv (unat bl) 0 s" using assms(1) by (simp add: cut_direct_def without_def same_inode_def)
  from kfold_upt [of "cut_direct s M sv (unat bl)", OF this cut_direct_step [OF assms(2)]] show ?thesis by (simp add: SFS_NDIRECT_def)
qed

section \<open>The indirect block\<close>

text \<open>The loop over the buffer: \<open>w\<close> are the words of the indirect block.\<close>

definition cut_indirect :: "sfs_fs \<Rightarrow> nat set \<Rightarrow> (nat \<Rightarrow> daddr) \<Rightarrow> nat \<Rightarrow> nat \<Rightarrow> bool \<times> bool \<times> sfs_fs \<Rightarrow> bool" where
  "cut_indirect s M w bl j = (\<lambda>(nz, dirty, t).
     sfs_ok t (without M (w ` {n. bl < 15 + n \<and> n < j})) \<and> same_env s t \<and> sfs_device t = sfs_device s \<and> svs t = svs s \<and>
     (\<forall>a. \<not> unat (a - b_truncbuf (s_bufs s)) < 512 \<longrightarrow> s_mem t a = s_mem s a) \<and>
     (\<forall>n < 128. wd (mem_get (b_truncbuf (s_bufs s)) (s_mem t)) n = (if bl < 15 + n \<and> n < j then 0 else w n)) \<and>
     (nz \<longleftrightarrow> (\<exists>n < j. \<not> bl < 15 + n \<and> w n \<noteq> 0)) \<and> (dirty \<longleftrightarrow> (\<exists>n < j. bl < 15 + n \<and> w n \<noteq> 0)))"

lemma truncbuf_facts:
  assumes "sfs_ok s M"
  shows "below_buf (sfs_device s) (b_truncbuf (s_bufs s)) 512" "\<forall>a. unat (a - b_truncbuf (s_bufs s)) < 512 \<longrightarrow> scratch s a"
    "unat (b_truncbuf (s_bufs s)) + 512 \<le> 2 ^ 32"
  using sfs_okD(6) [OF assms] unat_lt_32 [of "lh_buf (sfs_device s)"] by (auto simp: bufs_ok_def scratch_def below_buf_def)

lemma st32_slot_outside:
  assumes "unat p + 512 \<le> 2 ^ 32" "j < 128" "\<not> unat (a - p) < 512"
  shows "st32 (p + of_nat (4 * j)) b m a = m a"
proof (rule st32_outside, rule ccontr)
  assume "\<not> 4 \<le> unat (a - (p + of_nat (4 * j)))"
  moreover have u: "unat (p + of_nat (4 * j)) = unat p + 4 * j" using assms(1,2) by (intro unat_plus_nat) simp
  ultimately have "unat p + 4 * j \<le> unat a \<and> unat a < unat p + 4 * j + 4"
    using unat_sub_less_iff [of "p + of_nat (4 * j)" 4 a] assms(1,2) by simp
  then show False using assms unat_sub_less_iff [of p 512 a] by simp
qed

lemma cut_indirect_step:
  assumes used: "\<And>n. n < 128 \<Longrightarrow> w n \<noteq> 0 \<Longrightarrow> in_use s M (w n)"
    and inj: "\<And>m n. m < 128 \<Longrightarrow> n < 128 \<Longrightarrow> w m = w n \<Longrightarrow> w m \<noteq> 0 \<Longrightarrow> m = n"
    and ok: "sfs_ok s M" and j: "j < 128" and C: "cut_indirect s M w (unat bl) j x"
  shows "\<exists>x'. trunc_indirect bl j x = Ok x' \<and> cut_indirect s M w (unat bl) (Suc j) x'"
proof -
  obtain nz d t where x: "x = (nz, d, t)" by (cases x)
  let ?p = "b_truncbuf (s_bufs s)" and ?D = "\<lambda>j. {n. unat bl < 15 + n \<and> n < j}"
  note C = C [unfolded x cut_indirect_def prod.case]
  have bf: "s_bufs t = s_bufs s" "sb_nblocks t = sb_nblocks s" using C by (simp_all add: same_env_def)
  note T = truncbuf_facts [OF ok]
  have ld: "ld32 (?p + of_nat (4 * j)) (s_mem t) = w j" unfolding ld32_wd using C j by simp
  have u: "unat (15 + of_nat j :: 32 word) = 15 + j" using j unat_plus_nat [of 15 j] by simp
  then have lt: "bl < SFS_NDIRECT + of_nat j \<longleftrightarrow> unat bl < 15 + j" by (simp add: word_less_nat_alt SFS_NDIRECT_def)
  have up: "?D (Suc j) = (if unat bl < 15 + j then insert j (?D j) else ?D j)" by (auto simp: less_Suc_eq)
  show ?thesis
  proof (cases "unat bl < 15 + j \<and> w j \<noteq> 0")
    case True
    have "w j \<notin> w ` ?D j"
    proof
      assume "w j \<in> w ` ?D j"
      then obtain k where "k < j" "w k = w j" by auto
      then show False using inj [of k j] True j by simp
    qed
    then have "in_use t (without M (w ` ?D j)) (w j)" using used [OF j] True bf by (simp add: in_use_def in_without)
    then obtain bm where f: "sfs_bfree (w j) t = Ok (t\<lparr>sfs_freemap := bm, sfs_freemapdirty := True\<rparr>)"
        "sfs_ok (t\<lparr>sfs_freemap := bm, sfs_freemapdirty := True\<rparr>) (without M (w ` ?D j) - {unat (w j)})"
      using bfree_ok [of t "without M (w ` ?D j)" "w j"] C True by blast
    let ?u = "t\<lparr>sfs_freemap := bm, sfs_freemapdirty := True\<rparr>"
    let ?t = "?u\<lparr>s_mem := st32 (?p + of_nat (4 * j)) 0 (s_mem t)\<rparr>"
    have e: "same_env ?u ?t" "scratch ?u = scratch t" by (simp_all add: same_env_def scratch_def fun_eq_iff)
    have "scratch t = scratch s" using C same_env_scratch by blast
    then have "mem_kept ?u ?t" using T st32_slot_outside [OF T(3) j] e(2) by (auto simp: mem_kept_def)
    then have "sfs_ok ?t (without M (w ` ?D j) - {unat (w j)})" using sfs_ok_kept [OF f(2) e(1)] by simp
    then have "sfs_ok ?t (without M (w ` ?D (Suc j)))" using True up by (simp add: without_insert)
    moreover have "wd (mem_get ?p (s_mem ?t)) n = (if unat bl < 15 + n \<and> n < Suc j then 0 else w n)" if "n < 128" for n
      using wd_st32 [OF T(3) j that, of 0 "s_mem t"] C that True by (auto simp: less_Suc_eq)
    moreover have "ld32 (?p + of_nat (4 * j)) (s_mem ?t) = 0" by simp
    ultimately show ?thesis
      using C True f(1) lt ld bf st32_slot_outside [OF T(3) j]
      unfolding x trunc_indirect_def Let_def prod.case cut_indirect_def
      by (intro exI [of _ "(nz, True, ?t)"]) (auto simp: same_env_def less_Suc_eq)
  next
    case False
    have "without M (w ` ?D (Suc j)) = without M (w ` ?D j)" using False up by (auto simp: without_insert)
    then show ?thesis
      using C False lt ld bf j unfolding x trunc_indirect_def Let_def prod.case cut_indirect_def
      by (intro exI [of _ "(if w j \<noteq> 0 then True else nz, d, t)"]) (auto simp: less_Suc_eq)
  qed
qed

lemma cut_indirect_all:
  assumes F: "file_ok s M sv" and ok: "sfs_ok s M" and w: "\<And>n. n < 128 \<Longrightarrow> wd (mem_get (b_truncbuf (s_bufs s)) (s_mem s)) n = fmap s sv (15 + n)"
  shows "\<exists>x. kfold (trunc_indirect bl) [0..<unat SFS_DBPERIDB] (False, False, s) = Ok x \<and> cut_indirect s M (\<lambda>n. fmap s sv (15 + n)) (unat bl) 128 x"
proof -
  have "cut_indirect s M (\<lambda>n. fmap s sv (15 + n)) (unat bl) 0 (False, False, s)"
    using ok w by (simp add: cut_indirect_def without_def)
  moreover have "\<exists>x'. trunc_indirect bl j x = Ok x' \<and> cut_indirect s M (\<lambda>n. fmap s sv (15 + n)) (unat bl) (Suc j) x'"
    if "j < 128" "cut_indirect s M (\<lambda>n. fmap s sv (15 + n)) (unat bl) j x" for j x
  proof (rule cut_indirect_step [OF _ _ ok that])
    show "in_use s M (fmap s sv (15 + n))" if "n < 128" "fmap s sv (15 + n) \<noteq> 0" for n using file_ok_used [OF F, of "15 + n"] that by simp
    show "m = n" if "m < 128" "n < 128" "fmap s sv (15 + m) = fmap s sv (15 + n)" "fmap s sv (15 + m) \<noteq> 0" for m n
      using file_ok_inj [OF F, of "15 + m" "15 + n"] that by simp
  qed
  ultimately show ?thesis
    using kfold_upt [of "cut_indirect s M (\<lambda>n. fmap s sv (15 + n)) (unat bl)" "(False, False, s)" 128 "trunc_indirect bl"]
    by (simp add: SFS_DBPERIDB_def)
qed

section \<open>The whole truncation\<close>

text \<open>The file blocks that are given back: of those in the indirect block, the first beyond the end is not.\<close>

definition cut :: "nat \<Rightarrow> nat set" where
  "cut bl = {k. k < 15 \<and> bl \<le> k \<or> 15 \<le> k \<and> k < 143 \<and> bl < k}"

definition truncated :: "sfs_fs \<Rightarrow> nat set \<Rightarrow> ptr \<Rightarrow> nat \<Rightarrow> sfs_fs \<Rightarrow> nat set \<Rightarrow> bool" where
  "truncated s M sv bl t M' \<longleftrightarrow>
     sfs_ok t M' \<and> file_ok t M' sv \<and> same_env s t \<and> mem_kept s t \<and> M' = without M (fblocks s sv - fblocks t sv) \<and>
     (\<forall>k < 143. fmap t sv k = (if k \<in> cut bl then 0 else fmap s sv k)) \<and> indirect t sv \<in> {0, indirect s sv} \<and> (bl < 15 \<longrightarrow> indirect t sv = 0) \<and>
     (\<forall>c. c \<noteq> indirect s sv \<longrightarrow> blk t c = blk s c) \<and> (\<forall>p. p \<noteq> sv \<longrightarrow> svs t p = svs s p) \<and> same_inode (svs s sv) (svs t sv)"

lemma truncated_blocks:
  assumes F: "file_ok s M sv" and fm: "\<And>k. k < 143 \<Longrightarrow> fmap t sv k = (if k \<in> D then 0 else fmap s sv k)" and D: "D \<subseteq> {..<143}"
    and ind: "indirect t sv = indirect s sv \<or> indirect t sv = 0"
  shows "without M (fblocks s sv - fblocks t sv) = without M (fmap s sv ` D \<union> (if indirect t sv = 0 then {indirect s sv} else {}))"
proof -
  have "c \<in> fblocks s sv - fblocks t sv \<longleftrightarrow> c \<in> fmap s sv ` D \<union> (if indirect t sv = 0 then {indirect s sv} else {})" if c: "c \<noteq> 0" for c
  proof
    assume "c \<in> fblocks s sv - fblocks t sv"
    then consider "c = indirect s sv" "c \<noteq> indirect t sv" | k where "k < 143" "c = fmap s sv k" "c \<notin> fmap t sv ` {..<143}"
      using c by (auto simp: fblocks_def)
    then show "c \<in> fmap s sv ` D \<union> (if indirect t sv = 0 then {indirect s sv} else {})"
    proof cases
      case (2 k)
      then have "fmap t sv k \<noteq> fmap s sv k" by (metis imageI lessThan_iff)
      then show ?thesis using fm [OF 2(1)] 2(2) by (auto split: if_splits)
    qed (use ind in auto)
  next
    assume "c \<in> fmap s sv ` D \<union> (if indirect t sv = 0 then {indirect s sv} else {})"
    then consider k where "k \<in> D" "k < 143" "c = fmap s sv k" | "c = indirect s sv" "indirect t sv = 0" using D by (auto split: if_splits)
    then show "c \<in> fblocks s sv - fblocks t sv"
    proof cases
      case (1 k)
      have "c \<noteq> indirect s sv" using F 1 c by (auto simp: file_ok_def)
      moreover have "c \<noteq> fmap t sv j" if "j < 143" for j
        using fm [OF that] file_ok_inj [OF F 1(2) that] 1 c by (auto split: if_splits)
      ultimately show ?thesis using 1 c ind by (auto simp: fblocks_def)
    next
      case 2
      have "c \<noteq> fmap t sv j" if "j < 143" for j
        using fm [OF that] F that 2 c by (auto simp: file_ok_def split: if_splits)
      then show ?thesis using 2 c by (auto simp: fblocks_def)
    qed
  qed
  then have "fblocks s sv - fblocks t sv - {0} = fmap s sv ` D \<union> (if indirect t sv = 0 then {indirect s sv} else {}) - {0}" by blast
  then show ?thesis by (simp only: without_def)
qed

lemma without_without: "without (without M A) B = without M (A \<union> B)"
  by (auto simp: without_def)

lemma truncatedI:
  assumes F: "file_ok s M sv" and ok: "sfs_ok t (without M (fmap s sv ` cut bl \<union> (if indirect t sv = 0 then {indirect s sv} else {})))"
    and e: "same_env s t" "mem_kept s t" and fm: "\<And>k. k < 143 \<Longrightarrow> fmap t sv k = (if k \<in> cut bl then 0 else fmap s sv k)"
    and ind: "indirect t sv = indirect s sv \<or> indirect t sv = 0" "bl < 15 \<Longrightarrow> indirect t sv = 0" and len: "length (sfi_direct (sv_i (svs t sv))) = 15"
    and o: "\<And>c. c \<noteq> indirect s sv \<Longrightarrow> blk t c = blk s c" "\<And>p. p \<noteq> sv \<Longrightarrow> svs t p = svs s p" "same_inode (svs s sv) (svs t sv)"
  shows "\<exists>M'. truncated s M sv bl t M'"
proof -
  let ?B = "fmap s sv ` cut bl \<union> (if indirect t sv = 0 then {indirect s sv} else {})"
  have D: "cut bl \<subseteq> {..<143}" by (auto simp: cut_def)
  then have "fmap s sv ` (cut bl \<inter> {..<143}) = fmap s sv ` cut bl" by (simp add: Int_absorb2)
  then have "file_ok t (without M ?B) sv"
    using file_ok_drop [OF F _ len fm ind(1), of ?B] e(1) by (simp add: same_env_def)
  then show ?thesis using truncated_blocks [OF F fm D ind(1)] ok e fm ind o unfolding truncated_def by auto
qed

lemma cut_direct_file:
  assumes F: "file_ok s M sv" and C: "cut_direct s M sv bl 15 t"
  shows "file_ok t (without M (fmap s sv ` {bl..<15})) sv" "\<And>k. k < 143 \<Longrightarrow> fmap t sv k = (if k \<in> {bl..<15} then 0 else fmap s sv k)"
proof -
  have b: "blk t = blk s" using C by (simp add: cut_direct_def blk_def fun_eq_iff)
  have i: "indirect t sv = indirect s sv" using C by (simp add: cut_direct_def)
  show f: "fmap t sv k = (if k \<in> {bl..<15} then 0 else fmap s sv k)" if "k < 143" for k
    using C unfolding fmap_def b i by (auto simp: cut_direct_def)
  have "{bl..<15} \<inter> {..<143} = {bl..<15}" by auto
  then show "file_ok t (without M (fmap s sv ` {bl..<15})) sv"
    using file_ok_drop [OF F _ _ f, of "fmap s sv ` {bl..<15}"] i C by (simp add: cut_direct_def same_env_def)
qed

text \<open>The indirect block, in a file whose direct blocks are cut.\<close>

definition tail :: "nat \<Rightarrow> nat set" where
  "tail bl = {k. 15 \<le> k \<and> k < 143 \<and> bl < k}"

definition cut_tail :: "sfs_fs \<Rightarrow> nat set \<Rightarrow> ptr \<Rightarrow> nat \<Rightarrow> sfs_fs \<Rightarrow> bool" where
  "cut_tail s M sv bl t \<longleftrightarrow>
     sfs_ok t (without M (fmap s sv ` tail bl \<union> (if indirect t sv = 0 then {indirect s sv} else {}))) \<and>
     same_env s t \<and> mem_kept s t \<and> (\<forall>k < 143. fmap t sv k = (if k \<in> tail bl then 0 else fmap s sv k)) \<and>
     (indirect t sv = indirect s sv \<or> indirect t sv = 0) \<and> (bl < 15 \<longrightarrow> indirect t sv = 0) \<and> length (sfi_direct (sv_i (svs t sv))) = 15 \<and>
     (\<forall>c. c \<noteq> indirect s sv \<longrightarrow> blk t c = blk s c) \<and> (\<forall>p. p \<noteq> sv \<longrightarrow> svs t p = svs s p) \<and> same_inode (svs s sv) (svs t sv)"

lemma tail_image: "(\<lambda>n. f (15 + n)) ` {n. bl < 15 + n \<and> n < 128} = f ` tail bl"
proof -
  have "tail bl = (\<lambda>n. 15 + n) ` {n. bl < 15 + n \<and> n < 128}"
  proof (intro equalityI subsetI)
    fix k
    assume "k \<in> tail bl"
    then have "k = 15 + (k - 15)" "k - 15 \<in> {n. bl < 15 + n \<and> n < 128}" by (auto simp: tail_def)
    then show "k \<in> (\<lambda>n. 15 + n) ` {n. bl < 15 + n \<and> n < 128}" by blast
  qed (auto simp: tail_def)
  then show ?thesis by (simp add: image_image)
qed

lemma fmap_direct: "k < 15 \<Longrightarrow> svs t sv = svs s sv \<Longrightarrow> fmap t sv k = fmap s sv k"
  by (simp add: fmap_def)

text \<open>No entry is left: the indirect block is given back.\<close>

lemma tail_free:
  assumes F: "file_ok s M sv" and i: "indirect s sv \<noteq> 0" and ok: "sfs_ok t (without M (fmap s sv ` tail bl))" and e: "same_env s t" "mem_kept s t"
    and sv: "svs t = svs s" and b: "blk t = blk s" and z: "\<And>k. 15 \<le> k \<Longrightarrow> k < 143 \<Longrightarrow> \<not> bl < k \<Longrightarrow> fmap s sv k = 0"
  shows "\<exists>t'. kbind (sfs_bfree (indirect s sv) t) (\<lambda>s. Ok (0, upd_inode sv (\<lambda>d. d\<lparr>sfi_indirect := 0\<rparr>) s)) = Ok (0, t') \<and> cut_tail s M sv bl t'"
proof -
  have "indirect s sv \<notin> fmap s sv ` tail bl" using F i by (auto simp: file_ok_def tail_def)
  moreover have "in_use s M (indirect s sv)" using F i by (simp add: file_ok_def)
  ultimately have "in_use t (without M (fmap s sv ` tail bl)) (indirect s sv)" using e(1) by (simp add: in_use_def in_without same_env_def)
  from bfree_ok [OF ok this i] obtain bm where f: "sfs_bfree (indirect s sv) t = Ok (t\<lparr>sfs_freemap := bm, sfs_freemapdirty := True\<rparr>)"
      "sfs_ok (t\<lparr>sfs_freemap := bm, sfs_freemapdirty := True\<rparr>) (without M (fmap s sv ` tail bl) - {unat (indirect s sv)})"
    by blast
  let ?u = "t\<lparr>sfs_freemap := bm, sfs_freemapdirty := True\<rparr>"
  let ?t = "upd_inode sv (\<lambda>d. d\<lparr>sfi_indirect := 0\<rparr>) ?u"
  have I: "indirect ?t sv = 0" by (simp add: indirect_def upd_inode_def upd_sv_def)
  have "sfs_ok ?t (without M (fmap s sv ` tail bl) - {unat (indirect s sv)})"
    by (rule sfs_ok_kept [OF f(2)]) (simp_all add: same_env_def mem_kept_def upd_inode_def upd_sv_def)
  then have ok': "sfs_ok ?t (without M (fmap s sv ` tail bl \<union> {indirect s sv}))"
    using i by (simp add: without_insert)
  have fm: "fmap ?t sv k = (if k \<in> tail bl then 0 else fmap s sv k)" if "k < 143" for k
  proof (cases "k < 15")
    case True
    then show ?thesis using sv by (simp add: fmap_def tail_def upd_inode_def upd_sv_def)
  next
    case False
    then have "fmap ?t sv k = 0" by (simp add: fmap_def I)
    then show ?thesis using False that z [of k] by (auto simp: tail_def)
  qed
  have "cut_tail s M sv bl ?t"
    unfolding cut_tail_def using ok' fm I e b sv F
    by (simp add: same_env_def mem_kept_def upd_inode_def upd_sv_def same_inode_def file_ok_def) (simp add: blk_def fun_eq_iff)
  then show ?thesis using f(1) by auto
qed

text \<open>The changed indirect block is written back.\<close>

lemma tail_write:
  assumes F: "file_ok s M sv" and i: "indirect s sv \<noteq> 0" and ok: "sfs_ok t (without M (fmap s sv ` tail bl))" and e: "same_env s t" "mem_kept s t"
    and sv: "svs t = svs s" and b: "blk t = blk s" and ok0: "sfs_ok s M" and far: "\<not> bl < 15"
    and w: "\<And>n. n < 128 \<Longrightarrow> wd (mem_get (b_truncbuf (s_bufs s)) (s_mem t)) n = (if 15 + n \<in> tail bl then 0 else fmap s sv (15 + n))"
  shows "\<exists>t'. sfs_writeblock (indirect s sv) (b_truncbuf (s_bufs t)) SFS_BLOCKSIZE t = Ok (0, t') \<and> cut_tail s M sv bl t'"
proof -
  let ?ib = "indirect s sv" and ?p = "b_truncbuf (s_bufs s)"
  have E: "s_bufs t = s_bufs s" "sb_nblocks t = sb_nblocks s" using e(1) by (simp_all add: same_env_def)
  have lt: "unat ?ib < unat (sb_nblocks t)" using F i E by (simp add: file_ok_def in_use_def)
  obtain t' where r: "sfs_writeblock ?ib ?p SFS_BLOCKSIZE t = Ok (0, t')" "sfs_ok t' (without M (fmap s sv ` tail bl))" "same_env t t'"
      "svs t' = svs t" "\<forall>k < 512. blk t' ?ib k = s_mem t (?p + of_nat k)" "\<forall>c. c \<noteq> ?ib \<longrightarrow> blk t' c = blk t c"
      "\<forall>a. \<not> in_buf (sfs_device t) a \<longrightarrow> s_mem t' a = s_mem t a"
    using writeblock_env [OF ok lt, of ?p] truncbuf_facts(1) [OF ok, unfolded E] by blast
  have I: "indirect t' sv = ?ib" using r(4) sv by (simp add: indirect_def)
  have mk: "mem_kept t t'" using r(7) by (simp add: mem_kept_def scratch_def)
  have fm: "fmap t' sv k = (if k \<in> tail bl then 0 else fmap s sv k)" if "k < 143" for k
  proof (cases "k < 15")
    case True
    then show ?thesis using sv r(4) by (simp add: fmap_def tail_def)
  next
    case False
    then have "fmap t' sv k = wd (blk t' ?ib) (k - 15)" using i by (simp add: fmap_def I)
    also have "\<dots> = wd (mem_get ?p (s_mem t)) (k - 15)" using r(5) that False by (intro wd_cong) (simp_all add: mem_get_def)
    finally show ?thesis using w [of "k - 15"] that False by simp
  qed
  have "cut_tail s M sv bl t'"
    unfolding cut_tail_def using r(2,4,6) i I fm sv b F far same_env_trans [OF e(1) r(3)] mem_kept_trans [OF e(2) mk e(1)]
    by (simp add: same_inode_def file_ok_def)
  then show ?thesis using r(1) E by auto
qed

lemma tail_same:
  assumes F: "file_ok s M sv" and ok: "sfs_ok t M" and e: "same_env s t" "mem_kept s t"
    and sv: "svs t = svs s" and b: "blk t = blk s" and z: "\<And>k. k \<in> tail bl \<Longrightarrow> fmap s sv k = 0" and i: "indirect s sv = 0 \<or> indirect t sv \<noteq> 0 \<and> \<not> bl < 15"
  shows "cut_tail s M sv bl t"
proof -
  have I: "indirect t sv = indirect s sv" using sv by (simp add: indirect_def)
  then have f: "fmap t sv k = fmap s sv k" for k using sv b by (simp add: fmap_def)
  have "fmap s sv ` tail bl \<union> (if indirect t sv = 0 then {indirect s sv} else {}) \<subseteq> {0}" using z i by auto
  then have "without M (fmap s sv ` tail bl \<union> (if indirect t sv = 0 then {indirect s sv} else {})) = M" by (auto simp: without_def)
  then show ?thesis unfolding cut_tail_def using assms I f by (auto simp: same_inode_def file_ok_def)
qed

lemma trunc_tail_ok:
  assumes ok: "sfs_ok s M" and F: "file_ok s M sv"
  shows "\<exists>t. trunc_tail sv bl s = Ok (0, t) \<and> cut_tail s M sv (unat bl) t"
proof (cases "unat bl < 142 \<and> indirect s sv \<noteq> 0")
  case False
  then have "trunc_tail sv bl s = Ok (0, s)"
    by (auto simp: trunc_tail_def indirect_def Let_def word_less_nat_alt sfs_consts)
  moreover have "fmap s sv k = 0" if "k \<in> tail (unat bl)" for k using that False by (auto simp: tail_def fmap_def)
  ultimately show ?thesis using tail_same [OF F ok] False F by (auto simp: tail_def)
next
  case True
  let ?ib = "indirect s sv" and ?p = "b_truncbuf (s_bufs s)" and ?bl = "unat bl"
  note T = truncbuf_facts [OF ok]
  have "unat ?ib < unat (sb_nblocks s)" using F True by (simp add: file_ok_def in_use_def)
  then obtain s1 where r: "sfs_readblock ?ib ?p SFS_BLOCKSIZE s = Ok (0, s1)" "sfs_ok s1 M" "same_env s s1" "svs s1 = svs s" "blk s1 = blk s"
      "\<forall>k < 512. s_mem s1 (?p + of_nat k) = blk s ?ib k" "mem_kept s s1"
    using readblock_env [OF ok _ T(1,2)] by blast
  note K = kept_same [OF ok F r(2-5)]
  have F1: "file_ok s1 M sv" using K(1) by (simp add: kept_def)
  have bf: "s_bufs s1 = s_bufs s" using r(3) by (simp add: same_env_def)
  have w: "wd (mem_get ?p (s_mem s1)) n = fmap s sv (15 + n)" if "n < 128" for n
    using r(6) True that wd_cong [of "mem_get ?p (s_mem s1)" "blk s ?ib" n] by (simp add: fmap_def mem_get_def)
  obtain nz d t where l: "kfold (trunc_indirect bl) [0..<unat SFS_DBPERIDB] (False, False, s1) = Ok (nz, d, t)"
      "cut_indirect s1 M (\<lambda>n. fmap s sv (15 + n)) ?bl 128 (nz, d, t)"
    using cut_indirect_all [OF F1 r(2), unfolded bf K(3), OF w, of bl] by auto
  note C = l(2) [unfolded cut_indirect_def prod.case tail_image bf]
  have E: "same_env s t" "svs t = svs s" "blk t = blk s" using C r(3-5) same_env_trans [of s s1 t] by (simp_all add: blk_def fun_eq_iff)
  have mk: "mem_kept s t"
  proof -
    have "mem_kept s1 t" using C T(2) same_env_scratch [OF r(3)] by (auto simp: mem_kept_def)
    then show ?thesis using mem_kept_trans [OF r(7) _ r(3)] by blast
  qed
  have tl: "15 + n \<in> tail ?bl \<longleftrightarrow> ?bl < 15 + n" if "n < 128" for n using that by (simp add: tail_def)
  have run: "trunc_tail sv bl s = (if \<not> nz then kbind (sfs_bfree ?ib t) (\<lambda>s. Ok (0, upd_inode sv (\<lambda>d. d\<lparr>sfi_indirect := 0\<rparr>) s))
      else if d then sfs_writeblock ?ib (b_truncbuf (s_bufs t)) SFS_BLOCKSIZE t else Ok (0, t))"
    using True r(1) l(1) by (simp add: trunc_tail_def indirect_def Let_def word_less_nat_alt sfs_consts)
  have nth: "k = 15 + (k - 15)" "k - 15 < 128" if "15 \<le> k" "k < 143" for k :: nat using that by auto
  show ?thesis
  proof (cases nz)
    case False
    have "fmap s sv k = 0" if "15 \<le> k" "k < 143" "\<not> ?bl < k" for k
      using C False nth [OF that(1,2)] that(3) by metis
    then show ?thesis unfolding run using False tail_free [OF F _ _ E(1) mk E(2,3), of ?bl] C True by auto
  next
    case nz: True
    then have far: "\<not> ?bl < 15" using C by auto
    show ?thesis
    proof (cases d)
      case True
      have "wd (mem_get ?p (s_mem t)) n = (if 15 + n \<in> tail ?bl then 0 else fmap s sv (15 + n))" if "n < 128" for n
        using C that tl [OF that] by simp
      then show ?thesis unfolding run using nz True tail_write [OF F _ _ E(1) mk E(2,3) ok far] C \<open>unat bl < 142 \<and> indirect s sv \<noteq> 0\<close> by auto
    next
      case False
      have z: "fmap s sv k = 0" if "k \<in> tail ?bl" for k
      proof -
        have "15 \<le> k" "k < 143" "?bl < k" using that by (auto simp: tail_def)
        then show ?thesis using C False nth [of k] by metis
      qed
      then have "without M (fmap s sv ` tail ?bl) = M" by (auto simp: without_def)
      then have "sfs_ok t M" using C by simp
      moreover have "indirect t sv \<noteq> 0" using E(2) \<open>unat bl < 142 \<and> indirect s sv \<noteq> 0\<close> by (simp add: indirect_def)
      ultimately show ?thesis unfolding run using nz False far tail_same [OF F _ E(1) mk E(2,3) z] by auto
    qed
  qed
qed

lemma cut_union: "cut bl = {bl..<15} \<union> tail bl" "{bl..<15} \<inter> tail bl = {}"
  by (auto simp: cut_def tail_def)

lemma truncate_blocks:
  assumes ok: "sfs_ok s M" and F: "file_ok s M sv"
  shows "\<exists>t u. kfold (trunc_direct sv bl) [0..<unat SFS_NDIRECT] s = Ok t \<and> trunc_tail sv bl t = Ok (0, u) \<and> (\<exists>M'. truncated s M sv (unat bl) u M')"
proof -
  obtain t where t: "kfold (trunc_direct sv bl) [0..<unat SFS_NDIRECT] s = Ok t" "cut_direct s M sv (unat bl) 15 t"
    using cut_direct_all [OF ok F] by blast
  let ?M = "without M (fmap s sv ` {unat bl..<15})"
  note D = cut_direct_file [OF F t(2)]
  have okt: "sfs_ok t ?M" using t(2) by (simp add: cut_direct_def)
  obtain u where u: "trunc_tail sv bl t = Ok (0, u)" "cut_tail t ?M sv (unat bl) u" using trunc_tail_ok [OF okt D(1)] by blast
  have I: "indirect t sv = indirect s sv" "same_env s t" "blk t = blk s" using t(2) by (simp_all add: cut_direct_def blk_def fun_eq_iff)
  have mk: "mem_kept s t" using t(2) by (simp add: cut_direct_def mem_kept_def)
  have im: "fmap t sv ` tail (unat bl) = fmap s sv ` tail (unat bl)" using D(2) by (intro image_cong) (auto simp: tail_def)
  have "sfs_ok u (without ?M (fmap t sv ` tail (unat bl) \<union> (if indirect u sv = 0 then {indirect t sv} else {})))"
    using u(2) by (simp only: cut_tail_def)
  then have "sfs_ok u (without M (fmap s sv ` cut (unat bl) \<union> (if indirect u sv = 0 then {indirect s sv} else {})))"
    unfolding without_without I(1) im cut_union(1) image_Un Un_assoc .
  moreover have "fmap u sv k = (if k \<in> cut (unat bl) then 0 else fmap s sv k)" if "k < 143" for k
    using u(2) D(2) [OF that] that by (auto simp: cut_tail_def cut_union(1))
  moreover have "same_env s u" "mem_kept s u" using u(2) same_env_trans [OF I(2), of u] mem_kept_trans [OF mk _ I(2), of u] by (simp_all add: cut_tail_def)
  ultimately have "\<exists>M'. truncated s M sv (unat bl) u M'"
    using truncatedI [OF F, of u "unat bl"] u(2) t(2) I by (simp add: cut_tail_def cut_direct_def same_inode_def)
  then show ?thesis using t(1) u(1) by blast
qed

section \<open>The operation\<close>

lemma blocklen_nat:
  "len < 2 ^ 32 \<Longrightarrow> unat (word_of_int ((int len + int SFS_BLOCKSIZE - 1) sdiv int SFS_BLOCKSIZE) :: 32 word) = (len + 511) div 512"
proof -
  assume "len < 2 ^ 32"
  then have "(len + 511) div 512 < 2 ^ 32" by linarith
  moreover have "(int len + int SFS_BLOCKSIZE - 1) sdiv int SFS_BLOCKSIZE = int ((len + 511) div 512)"
    by (simp add: SFS_BLOCKSIZE_def sdiv_nonneg zdiv_int)
  ultimately show ?thesis by simp
qed

lemma lock_same:
  fixes s d
  defines "s' \<equiv> s\<lparr>vfs_biglock_depth := d\<rparr>"
  shows "0 < d \<Longrightarrow> sfs_ok s M \<Longrightarrow> sfs_ok s' M" "file_ok s' M p = file_ok s M p" "fmap s' = fmap s" "fblocks s' = fblocks s" "fsize s' = fsize s"
    "svs s' = svs s" "blk s' = blk s" "fbyte s' = fbyte s" "s_mem s' = s_mem s" "scratch s' = scratch s" "indirect s' = indirect s"
proof -
  have v: "svs s' = svs s" "s_mem s' = s_mem s" "sb_nblocks s' = sb_nblocks s" by (simp_all add: s'_def)
  have b: "blk s' = blk s" "indirect s' = indirect s" "scratch s' = scratch s" "fsize s' = fsize s"
    by (simp_all add: s'_def blk_def indirect_def scratch_def fsize_def fun_eq_iff)
  have f: "fmap s' = fmap s" unfolding fmap_def b v ..
  show "sfs_ok s' M" if "0 < d" "sfs_ok s M" using that b by (simp add: sfs_ok_def bufs_ok_def vfs_biglock_do_i_hold_def) (simp add: s'_def)
  show "file_ok s' M p = file_ok s M p" unfolding file_ok_def in_use_def f b v ..
  show "fmap s' = fmap s" "blk s' = blk s" "scratch s' = scratch s" "fsize s' = fsize s" "indirect s' = indirect s" "svs s' = svs s" "s_mem s' = s_mem s"
    by fact+
  show "fblocks s' = fblocks s" "fbyte s' = fbyte s" unfolding fblocks_def fbyte_def f b by simp_all
qed

lemma sfs_itrunc_run:
  assumes ok: "sfs_ok s M" and F: "file_ok s M sv" and len: "len < 2 ^ 32"
  shows "\<exists>t s' M'. sfs_itrunc sv (int len) s = Ok (0, s') \<and> truncated (vfs_biglock_acquire s) M sv ((len + 511) div 512) t M'
    \<and> s' = (upd_inode sv (\<lambda>d. d\<lparr>sfi_size := of_nat len\<rparr>) t)\<lparr>vfs_biglock_depth := vfs_biglock_depth s\<rparr>"
proof -
  let ?s = "vfs_biglock_acquire s" and ?bl = "word_of_int ((int len + int SFS_BLOCKSIZE - 1) sdiv int SFS_BLOCKSIZE) :: 32 word"
  have "sfs_ok ?s M" "file_ok ?s M sv" using lock_same [where s = s and d = "vfs_biglock_depth s + 1"] ok F by (simp_all add: vfs_biglock_acquire_def)
  then obtain t u M' where r: "kfold (trunc_direct sv ?bl) [0..<unat SFS_NDIRECT] ?s = Ok t" "trunc_tail sv ?bl t = Ok (0, u)"
      "truncated ?s M sv (unat ?bl) u M'"
    using truncate_blocks [of ?s M sv ?bl] by blast
  have "vfs_biglock_depth u = vfs_biglock_depth s + 1" using r(3) by (simp add: truncated_def same_env_def vfs_biglock_acquire_def)
  then have "sfs_itrunc sv (int len) s = Ok (0, (upd_inode sv (\<lambda>d. d\<lparr>sfi_size := of_nat len\<rparr>) u)\<lparr>vfs_biglock_depth := vfs_biglock_depth s\<rparr>)"
    unfolding sfs_itrunc_def Let_def r(1) kbind_Ok r(2)
    by (simp add: vfs_biglock_release_def vfs_biglock_do_i_hold_def upd_inode_def upd_sv_def)
  then show ?thesis using r(3) blocklen_nat [OF len] by auto
qed

lemma fmap_upd_size: "fmap (upd_inode sv (\<lambda>d. d\<lparr>sfi_size := z\<rparr>) s) = fmap s"
  by (simp add: fmap_def fun_eq_iff indirect_def blk_def upd_inode_def upd_sv_def)

text \<open>
  (C17) Truncation: \<open>sfs_itrunc\<close> to \<open>len\<close> bytes ends and succeeds. Of the file blocks at or beyond the new
  end it gives back all direct blocks and all blocks of the indirect block but the first; a block is
  given back to the volume if and only if the file has it no longer. The bytes below \<open>len\<close> and every
  other file keep their values.
\<close>

theorem sfs_itrunc_frees:
  assumes "sfs_ok s M" "file_ok s M sv" "len \<le> 143 * 512"
  defines "bl \<equiv> (len + 511) div 512"
  shows "\<exists>s'. sfs_itrunc sv (int len) s = Ok (0, s') \<and> fsize s' sv = len
    \<and> (\<forall>k < 143. fmap s' sv k = (if k < 15 \<and> bl \<le> k \<or> 15 \<le> k \<and> bl < k then 0 else fmap s sv k))
    \<and> sfs_ok s' (without M (fblocks s sv - fblocks s' sv)) \<and> file_ok s' (without M (fblocks s sv - fblocks s' sv)) sv
    \<and> (\<forall>i < len. fbyte s' sv i = fbyte s sv i)
    \<and> (\<forall>p. apart s M sv p \<longrightarrow> svs s' p = svs s p \<and> file_ok s' (without M (fblocks s sv - fblocks s' sv)) p
        \<and> (\<forall>i < 143 * 512. fbyte s' p i = fbyte s p i))"
proof -
  let ?s = "vfs_biglock_acquire s"
  have l: "len < 2 ^ 32" using assms(3) by simp
  obtain t s' M' where r: "sfs_itrunc sv (int len) s = Ok (0, s')" "truncated ?s M sv bl t M'"
      "s' = (upd_inode sv (\<lambda>d. d\<lparr>sfi_size := of_nat len\<rparr>) t)\<lparr>vfs_biglock_depth := vfs_biglock_depth s\<rparr>"
    using sfs_itrunc_run [OF assms(1,2) l] unfolding bl_def by blast
  note A = lock_same [where s = s and d = "vfs_biglock_depth s + 1", folded vfs_biglock_acquire_def]
  let ?z = "upd_inode sv (\<lambda>d. d\<lparr>sfi_size := of_nat len\<rparr>) t" and ?M = "without M (fblocks s sv - fblocks s' sv)"
  note Z = set_size [where sv = sv and z = "of_nat len" and s = t]
  note L = lock_same [where s = ?z and d = "vfs_biglock_depth s", folded r(3)]
  have fb: "fblocks s' p = fblocks t p" "fbyte s' p = fbyte t p" for p using L(4,8) Z(3,4) by (simp_all add: fun_eq_iff)
  have T: "sfs_ok t ?M" "file_ok t ?M sv" "\<And>k. k < 143 \<Longrightarrow> fmap t sv k = (if k \<in> cut bl then 0 else fmap s sv k)"
      "\<And>c. c \<noteq> indirect s sv \<Longrightarrow> blk t c = blk s c" "\<And>p. p \<noteq> sv \<Longrightarrow> svs t p = svs s p" "sb_nblocks t = sb_nblocks s"
    using r(2) A fb(1) by (auto simp: truncated_def same_env_def vfs_biglock_acquire_def)
  have "0 < vfs_biglock_depth s" using sfs_okD(5) [OF assms(1)] by (simp add: vfs_biglock_do_i_hold_def)
  then have ok: "sfs_ok s' ?M" "file_ok s' ?M p = file_ok t ?M p" for p using L(1,2) Z(1,2) T(1) by simp_all
  have fm: "fmap s' = fmap t" using L(3) by (simp add: fmap_upd_size)
  have by1: "fbyte t sv i = fbyte s sv i" if "i < len" for i
  proof -
    have k: "i div 512 < bl" "i div 512 < 143" using that assms(3) unfolding bl_def by (auto simp: less_mult_imp_div_less)
    then have "i div 512 \<notin> cut bl" by (auto simp: cut_def)
    moreover have "fmap s sv (i div 512) \<noteq> 0 \<Longrightarrow> fmap s sv (i div 512) \<noteq> indirect s sv" using assms(2) k(2) by (simp add: file_ok_def)
    ultimately show ?thesis using T(3) [OF k(2)] T(4) by (auto simp: fbyte_def)
  qed
  have "svs s' p = svs s p \<and> file_ok s' ?M p \<and> (\<forall>i < 143 * 512. fbyte s' p i = fbyte s p i)" if p: "apart s M sv p" for p
  proof -
    have F: "file_ok s M p" "p \<noteq> sv" "fblocks s p \<inter> fblocks s sv = {}" using p by (simp_all add: apart_def)
    have "svs s' p = svs s p" using L(6) T(5) F(2) by (simp add: upd_inode_def upd_sv_def)
    have "c \<noteq> indirect s sv" if "c \<in> fblocks s p" for c using that F(3) by (auto simp: fblocks_def)
    then have b: "blk t c k = blk s c k" if "c \<in> fblocks s p" for c k using that T(4) by simp
    have v: "sv_i (svs t p) = sv_i (svs s p)" using T(5) F(2) by simp
    have R: "file_ok t M p" "\<And>k. k < 143 \<Longrightarrow> fmap t p k = fmap s p k" "indirect t p = indirect s p" "\<forall>i < 143 * 512. fbyte t p i = fbyte s p i"
      using file_frame [OF F(1) v T(6) order_refl] b by blast+
    have "fblocks t p = fblocks s p" using R(2,3) by (simp add: fblocks_def)
    then have "file_ok t ?M p" using F(3) by (intro file_ok_without [OF R(1)]) blast
    then show ?thesis using ok(2) fb(2) R(4) \<open>svs s' p = svs s p\<close> by simp
  qed
  moreover have "fsize s' sv = len" using L(5) Z(5) l by simp
  moreover have "k < 143 \<Longrightarrow> k \<in> cut bl \<longleftrightarrow> k < 15 \<and> bl \<le> k \<or> 15 \<le> k \<and> bl < k" for k by (auto simp: cut_def)
  ultimately show ?thesis using r(1) ok T(2,3) by1 fb(2) fm by auto
qed

theorem sfs_itrunc_frees_witness:
  "\<exists>s'. sfs_itrunc 0x80008000 100 ex_sfs = Ok (0, s') \<and> fsize s' 0x80008000 = 100 \<and> fmap s' 0x80008000 0 = 3"
  using sfs_itrunc_frees [OF ex_sfs_ok ex_file_ok, of 100 "0x80008000"] by (auto simp: ex_fmap)

end
