(* ===== verification/SFS_Dir.thy ===== *)
theory SFS_Dir
  imports SFS
begin

text \<open>
  Directories, inodes and the vnode operations of SFS (\<^verbatim>\<open>fs/sfs/sfs_dir.c\<close>, \<^verbatim>\<open>sfs_inode.c\<close>,
  \<^verbatim>\<open>sfs_vnops.c\<close>). A name is the list of its characters without the null that ends it. Answers of
  \<open>kmalloc\<close> are arguments: the address of a new vnode, and whether the vnode table can grow.
\<close>

unbundle bit_operations_syntax

section \<open>Constants and structures in memory\<close>

definition SFS_NOINO :: "32 word" where "SFS_NOINO = 0"
definition SFS_ROOTDIR_INO :: "32 word" where "SFS_ROOTDIR_INO = 1"
definition SFS_NAMELEN :: nat where "SFS_NAMELEN = 60"
definition sizeof_direntry :: nat where "sizeof_direntry = 64"

lemmas dir_consts = SFS_NOINO_def SFS_ROOTDIR_INO_def SFS_NAMELEN_def sizeof_direntry_def

definition cstr :: "vaddr \<Rightarrow> nat \<Rightarrow> kmem \<Rightarrow> byte list" where
  "cstr a n m = takeWhile (\<lambda>b. b \<noteq> 0) (map (\<lambda>j. m (a + of_nat j)) [0..<n])"

definition put_bytes :: "vaddr \<Rightarrow> byte list \<Rightarrow> kmem \<Rightarrow> kmem" where
  "put_bytes a xs m = (\<lambda>x. if unat (x - a) < length xs then xs ! unat (x - a) else m x)"

definition strcpy :: "vaddr \<Rightarrow> byte list \<Rightarrow> kmem \<Rightarrow> kmem" where
  "strcpy a name m = put_bytes a (name @ [0]) m"

definition ld16 :: "vaddr \<Rightarrow> kmem \<Rightarrow> 16 word" where
  "ld16 a m = push_bit 8 (ucast (m a)) OR ucast (m (a + 1))"

definition bytes16 :: "16 word \<Rightarrow> byte list" where
  "bytes16 w = [ucast (drop_bit 8 w), ucast w]"

definition bytes32 :: "32 word \<Rightarrow> byte list" where
  "bytes32 w = [ucast (drop_bit 24 w), ucast (drop_bit 16 w), ucast (drop_bit 8 w), ucast w]"

text \<open>The inode inside a vnode, behind the fields of the abstract vnode; \<open>sfi_waste\<close> is what memory holds.\<close>

definition sv_i_addr :: "ptr \<Rightarrow> vaddr" where
  "sv_i_addr sv = sv + 24"

definition encode_dinode :: "sfs_dinode \<Rightarrow> byte list" where
  "encode_dinode d =
     bytes32 (sfi_size d) @ bytes16 (sfi_type d) @ bytes16 (sfi_linkcount d) @ concat (map bytes32 (sfi_direct d)) @ bytes32 (sfi_indirect d)"

definition decode_dinode :: "vaddr \<Rightarrow> kmem \<Rightarrow> sfs_dinode" where
  "decode_dinode a m =
     \<lparr>sfi_size = ld32 a m, sfi_type = ld16 (a + 4) m, sfi_linkcount = ld16 (a + 6) m,
      sfi_direct = map (\<lambda>i. ld32 (a + 8 + of_nat (4 * i)) m) [0..<unat SFS_NDIRECT], sfi_indirect = ld32 (a + 68) m\<rparr>"

section \<open>Directories\<close>

definition sfs_readdir :: "ptr \<Rightarrow> int \<Rightarrow> vaddr \<Rightarrow> sfs_fs \<Rightarrow> (int \<times> sfs_fs) kres" where
  "sfs_readdir sv slot sd s =
     (let actualpos = uint (word_of_int slot * of_nat sizeof_direntry :: 32 word)
      in sfs_metaio sv actualpos sd sizeof_direntry UIO_READ s)"

definition sfs_writedir :: "ptr \<Rightarrow> int \<Rightarrow> vaddr \<Rightarrow> sfs_fs \<Rightarrow> (int \<times> sfs_fs) kres" where
  "sfs_writedir sv slot sd s =
     kassert (slot \<ge> 0)
       (let actualpos = uint (word_of_int slot * of_nat sizeof_direntry :: 32 word)
        in sfs_metaio sv actualpos sd sizeof_direntry UIO_WRITE s)"

definition sfs_dir_nentries :: "ptr \<Rightarrow> sfs_fs \<Rightarrow> int kres" where
  "sfs_dir_nentries sv s =
     kassert (sfi_type (sv_i (svs s sv)) = SFS_TYPE_DIR)
       (let size = uint (sfi_size (sv_i (svs s sv)))
        in if size mod int sizeof_direntry \<noteq> 0 then Fail (Panic ''sfs: directory: Invalid size'')
           else Ok (size div int sizeof_direntry))"

text \<open>The variables of the search: \<open>found\<close>, \<open>ino\<close>, \<open>slot\<close>, \<open>emptyslot\<close>.\<close>

record dirsearch =
  ds_found :: bool
  ds_ino :: "32 word"
  ds_slot :: int
  ds_empty :: int

text \<open>The loop from slot \<open>i\<close>, with \<open>n\<close> slots to go.\<close>

fun findname_loop :: "nat \<Rightarrow> int \<Rightarrow> ptr \<Rightarrow> byte list \<Rightarrow> dirsearch \<Rightarrow> sfs_fs \<Rightarrow> (int \<times> dirsearch \<times> sfs_fs) kres" where
  "findname_loop 0 i sv name d s = Ok (0, d, s)"
| "findname_loop (Suc n) i sv name d s =
     (let tsd = b_tsd (s_bufs s)
      in kbind (sfs_readdir sv i tsd s) (\<lambda>(result, s).
           if result \<noteq> 0 then Ok (result, d, s)
           else
             let ino = ld32 tsd (s_mem s)
             in if ino = SFS_NOINO then findname_loop n (i + 1) sv name (d\<lparr>ds_empty := i\<rparr>) s
                else
                  let s = s\<lparr>s_mem := (s_mem s)(tsd + 4 + of_nat (SFS_NAMELEN - 1) := 0)\<rparr>
                  in if cstr (tsd + 4) SFS_NAMELEN (s_mem s) = name
                     then kassert (\<not> ds_found d) (findname_loop n (i + 1) sv name (d\<lparr>ds_found := True, ds_slot := i, ds_ino := ino\<rparr>) s)
                     else findname_loop n (i + 1) sv name d s))"

text \<open>Outputs that the caller does not ask for are returned all the same; \<open>emptyslot\<close> starts at -1.\<close>

definition sfs_dir_findname :: "ptr \<Rightarrow> byte list \<Rightarrow> sfs_fs \<Rightarrow> (int \<times> dirsearch \<times> sfs_fs) kres" where
  "sfs_dir_findname sv name s =
     kbind (sfs_dir_nentries sv s) (\<lambda>nentries.
       kbind (findname_loop (nat nentries) 0 sv name \<lparr>ds_found = False, ds_ino = 0, ds_slot = 0, ds_empty = -1\<rparr> s) (\<lambda>(result, d, s).
         if result \<noteq> 0 then Ok (result, d, s) else Ok (if ds_found d then 0 else ENOENT, d, s)))"

definition sfs_dir_link :: "ptr \<Rightarrow> byte list \<Rightarrow> 32 word \<Rightarrow> sfs_fs \<Rightarrow> (int \<times> int \<times> sfs_fs) kres" where
  "sfs_dir_link sv name ino s =
     kbind (sfs_dir_findname sv name s) (\<lambda>(result, d, s).
       if result \<noteq> 0 \<and> result \<noteq> ENOENT then Ok (result, 0, s)
       else if result = 0 then Ok (EEXIST, 0, s)
       else if length name + 1 > SFS_NAMELEN then Ok (ENAMETOOLONG, 0, s)
       else kbind (if ds_empty d < 0 then sfs_dir_nentries sv s else Ok (ds_empty d)) (\<lambda>emptyslot.
         let sd = b_sd (s_bufs s);
             s = s\<lparr>s_mem := strcpy (sd + 4) name (st32 sd ino (bzero sd sizeof_direntry (s_mem s)))\<rparr>
         in kbind (sfs_writedir sv emptyslot sd s) (\<lambda>(result, s). Ok (result, emptyslot, s))))"

definition sfs_dir_unlink :: "ptr \<Rightarrow> int \<Rightarrow> sfs_fs \<Rightarrow> (int \<times> sfs_fs) kres" where
  "sfs_dir_unlink sv slot s =
     (let sd = b_sd (s_bufs s)
      in sfs_writedir sv slot sd (s\<lparr>s_mem := st32 sd SFS_NOINO (bzero sd sizeof_direntry (s_mem s))\<rparr>))"

section \<open>Inodes\<close>

text \<open>The callers pass a vnode, so that the check for a null pointer is left out.\<close>

definition sfs_incref :: "ptr \<Rightarrow> sfs_fs \<Rightarrow> sfs_fs" where
  "sfs_incref sv s = upd_sv sv (\<lambda>v. v\<lparr>vn_refcount := vn_refcount v + 1\<rparr>) s"

definition sfs_sync_inode :: "ptr \<Rightarrow> sfs_fs \<Rightarrow> (int \<times> sfs_fs) kres" where
  "sfs_sync_inode sv s =
     (if sv_dirty (svs s sv)
      then let s = s\<lparr>s_mem := put_bytes (sv_i_addr sv) (encode_dinode (sv_i (svs s sv))) (s_mem s)\<rparr>
           in kbind (sfs_writeblock (sv_ino (svs s sv)) (sv_i_addr sv) SFS_BLOCKSIZE s) (\<lambda>(result, s).
                if result \<noteq> 0 then Ok (result, s)
                else Ok (0, upd_sv sv (\<lambda>v. v\<lparr>sv_dirty := False\<rparr>) s))
      else Ok (0, s))"

text \<open>The vnode is taken out of the table; its memory is given back to the heap by the caller of the model.\<close>

definition reclaim_discard :: "ptr \<Rightarrow> sfs_fs \<Rightarrow> sfs_fs kres" where
  "reclaim_discard sv s =
     kbind (if sfi_linkcount (sv_i (svs s sv)) = 0 then sfs_bfree (sv_ino (svs s sv)) s else Ok s) (\<lambda>s.
       if sv \<notin> set (sfs_vnodes s) then Fail (Panic ''sfs: reclaim vnode not in vnode pool'')
       else
         let s = s\<lparr>sfs_vnodes := remove1 sv (sfs_vnodes s)\<rparr>
         in kassert (vn_refcount (svs s sv) = 1) (Ok (upd_sv sv (\<lambda>v. v\<lparr>vn_refcount := 0\<rparr>) s)))"

definition sfs_reclaim :: "ptr \<Rightarrow> sfs_fs \<Rightarrow> (int \<times> sfs_fs) kres" where
  "sfs_reclaim sv s =
     (let s = vfs_biglock_acquire s
      in if vn_refcount (svs s sv) \<noteq> 1
         then kassert (vn_refcount (svs s sv) > 1)
                (kbind (vfs_biglock_release (upd_sv sv (\<lambda>v. v\<lparr>vn_refcount := vn_refcount v - 1\<rparr>) s)) (\<lambda>s. Ok (EBUSY, s)))
         else kbind (if sfi_linkcount (sv_i (svs s sv)) = 0 then sfs_itrunc sv 0 s else Ok (0, s)) (\<lambda>(result, s).
                if result \<noteq> 0 then kbind (vfs_biglock_release s) (\<lambda>s. Ok (result, s))
                else kbind (sfs_sync_inode sv s) (\<lambda>(result, s).
                  if result \<noteq> 0 then kbind (vfs_biglock_release s) (\<lambda>s. Ok (result, s))
                  else kbind (reclaim_discard sv s) (\<lambda>s. kbind (vfs_biglock_release s) (\<lambda>s. Ok (0, s))))))"

definition sfs_decref :: "ptr \<Rightarrow> sfs_fs \<Rightarrow> sfs_fs kres" where
  "sfs_decref sv s =
     kassert (sv \<noteq> NULL) (kassert (vn_refcount (svs s sv) > 0)
       (if vn_refcount (svs s sv) > 1 then Ok (upd_sv sv (\<lambda>v. v\<lparr>vn_refcount := vn_refcount v - 1\<rparr>) s)
        else kbind (sfs_reclaim sv s) (\<lambda>(result, s). Ok s)))"

text \<open>The search in the vnode table.\<close>

fun find_vnode :: "32 word \<Rightarrow> sfs_fs \<Rightarrow> ptr list \<Rightarrow> ptr option kres" where
  "find_vnode ino s [] = Ok None"
| "find_vnode ino s (sv # svl) =
     kbind (sfs_bused (sv_ino (svs s sv)) s) (\<lambda>r.
       if r = 0 then Fail (Panic ''sfs: Found inode in unallocated block'')
       else if sv_ino (svs s sv) = ino then Ok (Some sv) else find_vnode ino s svl)"

definition load_inode :: "32 word \<Rightarrow> 16 word \<Rightarrow> ptr \<Rightarrow> bool \<Rightarrow> sfs_fs \<Rightarrow> (int \<times> ptr \<times> sfs_fs) kres" where
  "load_inode ino forcetype sv can_add s =
     (if sv = NULL then Ok (ENOMEM, NULL, s)
      else kbind (sfs_bused ino s) (\<lambda>r.
        if r = 0 then Fail (Panic ''sfs: Tried to load inode from unallocated block'')
        else kbind (sfs_readblock ino (sv_i_addr sv) SFS_BLOCKSIZE s) (\<lambda>(result, s).
          if result \<noteq> 0 then Ok (result, NULL, s)
          else
            let d = decode_dinode (sv_i_addr sv) (s_mem s)
            in kassert (forcetype \<noteq> SFS_TYPE_INVAL \<longrightarrow> sfi_type d = SFS_TYPE_INVAL)
                 (let d' = (if forcetype \<noteq> SFS_TYPE_INVAL then d\<lparr>sfi_type := forcetype\<rparr> else d);
                      s = upd_sv sv (\<lambda>v. \<lparr>sv_i = d', sv_ino = ino, sv_dirty = (forcetype \<noteq> SFS_TYPE_INVAL), vn_refcount = 1\<rparr>) s
                  in if sfi_type d' \<noteq> SFS_TYPE_FILE \<and> sfi_type d' \<noteq> SFS_TYPE_DIR
                     then Fail (Panic ''sfs: loadvnode: Invalid inode type'')
                     else if can_add then Ok (0, sv, s\<lparr>sfs_vnodes := sfs_vnodes s @ [sv]\<rparr>)
                     else Ok (ENOMEM, NULL, upd_sv sv (\<lambda>v. v\<lparr>vn_refcount := 0\<rparr>) s)))))"

definition sfs_loadvnode :: "32 word \<Rightarrow> 16 word \<Rightarrow> ptr \<Rightarrow> bool \<Rightarrow> sfs_fs \<Rightarrow> (int \<times> ptr \<times> sfs_fs) kres" where
  "sfs_loadvnode ino forcetype newsv can_add s =
     kbind (find_vnode ino s (sfs_vnodes s)) (\<lambda>r.
       case r of
         Some sv \<Rightarrow> kassert (forcetype = SFS_TYPE_INVAL) (Ok (0, sv, sfs_incref sv s))
       | None \<Rightarrow> load_inode ino forcetype newsv can_add s)"

definition sfs_makeobj :: "16 word \<Rightarrow> ptr \<Rightarrow> bool \<Rightarrow> sfs_fs \<Rightarrow> (int \<times> ptr \<times> sfs_fs) kres" where
  "sfs_makeobj ty newsv can_add s =
     kbind (sfs_balloc 0 s) (\<lambda>(result, ino, s).
       if result \<noteq> 0 then Ok (result, NULL, s)
       else kbind (sfs_loadvnode ino ty newsv can_add s) (\<lambda>(result, sv, s).
         if result \<noteq> 0 then kbind (sfs_bfree ino s) (\<lambda>s. Ok (result, NULL, s)) else Ok (result, sv, s)))"

definition sfs_getroot :: "ptr \<Rightarrow> bool \<Rightarrow> sfs_fs \<Rightarrow> (int \<times> ptr \<times> sfs_fs) kres" where
  "sfs_getroot newsv can_add s =
     kbind (sfs_loadvnode SFS_ROOTDIR_INO SFS_TYPE_INVAL newsv can_add (vfs_biglock_acquire s)) (\<lambda>(result, sv, s).
       kbind (vfs_biglock_release s) (\<lambda>s'.
         if result \<noteq> 0 then Ok (result, NULL, s')
         else if sfi_type (sv_i (svs s sv)) \<noteq> SFS_TYPE_DIR then Ok (EINVAL, NULL, s')
         else Ok (0, sv, s')))"

definition sfs_lookonce :: "ptr \<Rightarrow> byte list \<Rightarrow> ptr \<Rightarrow> bool \<Rightarrow> sfs_fs \<Rightarrow> (int \<times> ptr \<times> int \<times> sfs_fs) kres" where
  "sfs_lookonce sv name newsv can_add s =
     kbind (sfs_dir_findname sv name s) (\<lambda>(result, d, s).
       if result \<noteq> 0 then Ok (result, NULL, 0, s)
       else kbind (sfs_loadvnode (ds_ino d) SFS_TYPE_INVAL newsv can_add s) (\<lambda>(result, ret, s).
         if result \<noteq> 0 then Ok (result, NULL, 0, s)
         else if sfi_linkcount (sv_i (svs s ret)) = 0 then Fail (Panic ''sfs: name in dir has linkcount 0'')
         else Ok (0, ret, ds_slot d, s)))"

end
