(* ===== verification/SFS_Vnops.thy ===== *)
theory SFS_Vnops
  imports SFS_Dir
begin

text \<open>
  The operations on vnodes of SFS files and of its directory (\<^verbatim>\<open>fs/sfs/sfs_vnops.c\<close>). Each takes the
  VFS lock around its work. What the function tables refuse is \<open>sfs_fileops\<close> and \<open>sfs_dirops\<close>.
\<close>

unbundle bit_operations_syntax

definition O_ACCMODE :: int where "O_ACCMODE = 3"
definition O_RDONLY :: int where "O_RDONLY = 0"
definition S_IFREG :: "32 word" where "S_IFREG = 0x1000"
definition S_IFDIR :: "32 word" where "S_IFDIR = 0x2000"

section \<open>Files\<close>

definition sfs_eachopen :: "ptr \<Rightarrow> int \<Rightarrow> int" where
  "sfs_eachopen v openflags = 0"

definition sfs_eachopendir :: "ptr \<Rightarrow> int \<Rightarrow> int" where
  "sfs_eachopendir v openflags =
     (if openflags AND O_ACCMODE \<noteq> O_RDONLY then EISDIR
      else if openflags AND O_APPEND \<noteq> 0 then EISDIR else 0)"

definition sfs_read :: "ptr \<Rightarrow> uio \<Rightarrow> sfs_fs \<Rightarrow> (int \<times> uio \<times> sfs_fs) kres" where
  "sfs_read v u s =
     kassert (uio_dir u = UIO_READ)
       (kbind (sfs_io v u (vfs_biglock_acquire s)) (\<lambda>(result, u, s).
          kbind (vfs_biglock_release s) (\<lambda>s. Ok (result, u, s))))"

definition sfs_write :: "ptr \<Rightarrow> uio \<Rightarrow> sfs_fs \<Rightarrow> (int \<times> uio \<times> sfs_fs) kres" where
  "sfs_write v u s =
     kassert (uio_dir u = UIO_WRITE)
       (kbind (sfs_io v u (vfs_biglock_acquire s)) (\<lambda>(result, u, s).
          kbind (vfs_biglock_release s) (\<lambda>s. Ok (result, u, s))))"

definition sfs_ioctl :: "ptr \<Rightarrow> int \<Rightarrow> int" where
  "sfs_ioctl v op = EINVAL"

definition sfs_gettype :: "ptr \<Rightarrow> sfs_fs \<Rightarrow> (int \<times> 32 word \<times> sfs_fs) kres" where
  "sfs_gettype v s =
     (let s = vfs_biglock_acquire s
      in if sfi_type (sv_i (svs s v)) = SFS_TYPE_FILE then kbind (vfs_biglock_release s) (\<lambda>s. Ok (0, S_IFREG, s))
         else if sfi_type (sv_i (svs s v)) = SFS_TYPE_DIR then kbind (vfs_biglock_release s) (\<lambda>s. Ok (0, S_IFDIR, s))
         else Fail (Panic ''sfs: gettype: Invalid inode type''))"

text \<open>The fields of \<open>struct stat\<close> that are not zero.\<close>

record sfs_statbuf =
  st_size :: int
  st_mode :: "32 word"
  st_nlink :: "16 word"

definition sfs_stat :: "ptr \<Rightarrow> sfs_fs \<Rightarrow> (int \<times> sfs_statbuf \<times> sfs_fs) kres" where
  "sfs_stat v s =
     kbind (sfs_gettype v s) (\<lambda>(result, mode, s).
       if result \<noteq> 0 then Ok (result, \<lparr>st_size = 0, st_mode = mode, st_nlink = 0\<rparr>, s)
       else Ok (0, \<lparr>st_size = uint (sfi_size (sv_i (svs s v))), st_mode = mode, st_nlink = sfi_linkcount (sv_i (svs s v))\<rparr>, s))"

definition sfs_isseekable :: "ptr \<Rightarrow> bool" where
  "sfs_isseekable v = True"

definition sfs_fsync :: "ptr \<Rightarrow> sfs_fs \<Rightarrow> (int \<times> sfs_fs) kres" where
  "sfs_fsync v s =
     kbind (sfs_sync_inode v (vfs_biglock_acquire s)) (\<lambda>(result, s). kbind (vfs_biglock_release s) (\<lambda>s. Ok (result, s)))"

definition sfs_mmap :: "ptr \<Rightarrow> int" where
  "sfs_mmap v = ENOSYS"

definition sfs_truncate :: "ptr \<Rightarrow> int \<Rightarrow> sfs_fs \<Rightarrow> (int \<times> sfs_fs) kres" where
  "sfs_truncate v len s = sfs_itrunc v len s"

section \<open>The directory\<close>

definition sfs_namefile :: "ptr \<Rightarrow> uio \<Rightarrow> sfs_fs \<Rightarrow> (int \<times> uio) kres" where
  "sfs_namefile vv u s = kassert (sv_ino (svs s vv) = SFS_ROOTDIR_INO) (Ok (0, u))"

text \<open>\<open>vfs_biglock_release(); return result;\<close>\<close>

definition unlocked :: "'a \<Rightarrow> sfs_fs \<Rightarrow> ('a \<times> sfs_fs) kres" where
  "unlocked r s = kbind (vfs_biglock_release s) (\<lambda>s. Ok (r, s))"

definition sfs_creat :: "ptr \<Rightarrow> byte list \<Rightarrow> bool \<Rightarrow> ptr \<Rightarrow> bool \<Rightarrow> sfs_fs \<Rightarrow> ((int \<times> ptr) \<times> sfs_fs) kres" where
  "sfs_creat v name excl newsv can_add s =
     kbind (sfs_dir_findname v name (vfs_biglock_acquire s)) (\<lambda>(result, d, s).
       if result \<noteq> 0 \<and> result \<noteq> ENOENT then unlocked (result, NULL) s
       else if result = 0 \<and> excl then unlocked (EEXIST, NULL) s
       else if result = 0
       then kbind (sfs_loadvnode (ds_ino d) SFS_TYPE_INVAL newsv can_add s) (\<lambda>(result, newguy, s).
              if result \<noteq> 0 then unlocked (result, NULL) s else unlocked (0, newguy) s)
       else kbind (sfs_makeobj SFS_TYPE_FILE newsv can_add s) (\<lambda>(result, newguy, s).
              if result \<noteq> 0 then unlocked (result, NULL) s
              else kbind (sfs_dir_link v name (sv_ino (svs s newguy)) s) (\<lambda>(result, slot, s).
                if result \<noteq> 0 then kbind (sfs_decref newguy s) (\<lambda>s. unlocked (result, NULL) s)
                else unlocked (0, newguy) (upd_inode newguy (\<lambda>d. d\<lparr>sfi_linkcount := sfi_linkcount d + 1\<rparr>) s))))"

definition sfs_link :: "ptr \<Rightarrow> byte list \<Rightarrow> ptr \<Rightarrow> sfs_fs \<Rightarrow> (int \<times> sfs_fs) kres" where
  "sfs_link dir name f s =
     (let s = vfs_biglock_acquire s
      in if sfi_type (sv_i (svs s f)) = SFS_TYPE_DIR then unlocked EINVAL s
         else kbind (sfs_dir_link dir name (sv_ino (svs s f)) s) (\<lambda>(result, slot, s).
                if result \<noteq> 0 then unlocked result s
                else unlocked 0 (upd_inode f (\<lambda>d. d\<lparr>sfi_linkcount := sfi_linkcount d + 1\<rparr>) s)))"

definition sfs_remove :: "ptr \<Rightarrow> byte list \<Rightarrow> ptr \<Rightarrow> bool \<Rightarrow> sfs_fs \<Rightarrow> (int \<times> sfs_fs) kres" where
  "sfs_remove dir name newsv can_add s =
     kbind (sfs_lookonce dir name newsv can_add (vfs_biglock_acquire s)) (\<lambda>(result, victim, slot, s).
       if result \<noteq> 0 then unlocked result s
       else kbind (sfs_dir_unlink dir slot s) (\<lambda>(result, s).
         kbind (if result = 0
                then kassert (sfi_linkcount (sv_i (svs s victim)) > 0)
                       (Ok (upd_inode victim (\<lambda>d. d\<lparr>sfi_linkcount := sfi_linkcount d - 1\<rparr>) s))
                else Ok s) (\<lambda>s.
           kbind (sfs_decref victim s) (\<lambda>s. unlocked result s))))"

text \<open>The error recovery of \<open>sfs_rename\<close> from the label \<open>puke_harder\<close>.\<close>

definition rename_undo :: "ptr \<Rightarrow> ptr \<Rightarrow> int \<Rightarrow> sfs_fs \<Rightarrow> sfs_fs kres" where
  "rename_undo sv g1 slot2 s =
     kbind (sfs_dir_unlink sv slot2 s) (\<lambda>(result2, s).
       if result2 \<noteq> 0 then Fail (Panic ''sfs: rename: Cannot recover'')
       else Ok (upd_sv g1 (\<lambda>v. v\<lparr>sv_i := (sv_i v)\<lparr>sfi_linkcount := sfi_linkcount (sv_i v) - 1\<rparr>\<rparr>) s))"

definition sfs_rename :: "ptr \<Rightarrow> byte list \<Rightarrow> ptr \<Rightarrow> byte list \<Rightarrow> ptr \<Rightarrow> bool \<Rightarrow> sfs_fs \<Rightarrow> (int \<times> sfs_fs) kres" where
  "sfs_rename d1 n1 d2 n2 newsv can_add s =
     (let s = vfs_biglock_acquire s
      in kassert (d1 = d2) (kassert (sv_ino (svs s d1) = SFS_ROOTDIR_INO)
        (kbind (sfs_lookonce d1 n1 newsv can_add s) (\<lambda>(result, g1, slot1, s).
           if result \<noteq> 0 then unlocked result s
           else kassert (sfi_type (sv_i (svs s g1)) = SFS_TYPE_FILE)
             (kbind (sfs_dir_link d1 n2 (sv_ino (svs s g1)) s) (\<lambda>(result, slot2, s).
                if result \<noteq> 0 then kbind (sfs_decref g1 s) (\<lambda>s. unlocked result s)
                else
                  let s = upd_inode g1 (\<lambda>d. d\<lparr>sfi_linkcount := sfi_linkcount d + 1\<rparr>) s
                  in kbind (sfs_dir_unlink d1 slot1 s) (\<lambda>(result, s).
                       if result \<noteq> 0
                       then kbind (rename_undo d1 g1 slot2 s) (\<lambda>s. kbind (sfs_decref g1 s) (\<lambda>s. unlocked result s))
                       else kassert (sfi_linkcount (sv_i (svs s g1)) > 0)
                              (kbind (sfs_decref g1 (upd_inode g1 (\<lambda>d. d\<lparr>sfi_linkcount := sfi_linkcount d - 1\<rparr>) s)) (\<lambda>s.
                                 unlocked 0 s)))))))))"

text \<open>\<open>buf\<close> has room for \<open>buflen\<close> bytes.\<close>

definition sfs_lookparent :: "ptr \<Rightarrow> byte list \<Rightarrow> vaddr \<Rightarrow> nat \<Rightarrow> sfs_fs \<Rightarrow> ((int \<times> ptr) \<times> sfs_fs) kres" where
  "sfs_lookparent v path buf buflen s =
     (let s = vfs_biglock_acquire s
      in if sfi_type (sv_i (svs s v)) \<noteq> SFS_TYPE_DIR then unlocked (ENOTDIR, NULL) s
         else if length path + 1 > buflen then unlocked (ENAMETOOLONG, NULL) s
         else unlocked (0, v) (sfs_incref v (s\<lparr>s_mem := strcpy buf path (s_mem s)\<rparr>)))"

definition sfs_lookup :: "ptr \<Rightarrow> byte list \<Rightarrow> ptr \<Rightarrow> bool \<Rightarrow> sfs_fs \<Rightarrow> ((int \<times> ptr) \<times> sfs_fs) kres" where
  "sfs_lookup v path newsv can_add s =
     (let s = vfs_biglock_acquire s
      in if sfi_type (sv_i (svs s v)) \<noteq> SFS_TYPE_DIR then unlocked (ENOTDIR, NULL) s
         else kbind (sfs_lookonce v path newsv can_add s) (\<lambda>(result, final, slot, s).
                if result \<noteq> 0 then unlocked (result, NULL) s else unlocked (0, final) s))"

section \<open>The tables\<close>

datatype vop =
    VRead uio | VWrite uio | VReadlink | VGetdirentry | VTruncate int | VNamefile uio
  | VCreat "byte list" bool | VSymlink | VMkdir | VLink "byte list" ptr | VRemove "byte list" | VRmdir
  | VRename "byte list" ptr "byte list" | VLookup "byte list" | VLookparent "byte list" vaddr nat | VMmap

text \<open>The error with which a table answers an operation that it does not have.\<close>

definition sfs_fileops :: "vop \<Rightarrow> int option" where
  "sfs_fileops op =
     (case op of
        VRead u \<Rightarrow> None | VWrite u \<Rightarrow> None | VTruncate len \<Rightarrow> None | VMmap \<Rightarrow> None
      | _ \<Rightarrow> Some ENOTDIR)"

definition sfs_dirops :: "vop \<Rightarrow> int option" where
  "sfs_dirops op =
     (case op of
        VRead u \<Rightarrow> Some EISDIR | VWrite u \<Rightarrow> Some EISDIR | VTruncate len \<Rightarrow> Some EISDIR | VMmap \<Rightarrow> Some EISDIR
      | VReadlink \<Rightarrow> Some EINVAL
      | VGetdirentry \<Rightarrow> Some ENOSYS | VSymlink \<Rightarrow> Some ENOSYS | VMkdir \<Rightarrow> Some ENOSYS | VRmdir \<Rightarrow> Some ENOSYS
      | _ \<Rightarrow> None)"

end
