(* ===== verification/SFS_Dir_Spec.thy ===== *)
theory SFS_Dir_Spec
  imports SFS_Trunc SFS_Vnops
begin

text \<open>
  Directories of SFS as finite maps from names to inode numbers: the search, the creation and the
  removal of entries, down to the bytes on the disk.
\<close>

unbundle bit_operations_syntax

section \<open>Metadata I/O\<close>

lemma metabuf_facts:
  assumes "sfs_ok s M"
  shows "below_buf (sfs_device s) (b_metaiobuf (s_bufs s)) 512" "\<forall>a. unat (a - b_metaiobuf (s_bufs s)) < 512 \<longrightarrow> scratch s a"
    "unat (b_metaiobuf (s_bufs s)) + 512 \<le> 2 ^ 32"
  using sfs_okD(6) [OF assms] unat_lt_32 [of "lh_buf (sfs_device s)"] by (auto simp: bufs_ok_def scratch_def below_buf_def)

lemma blockoff_nat: "word_of_int (int pos smod int SFS_BLOCKSIZE) = (of_nat (pos mod 512) :: 32 word)"
  by (simp add: smod_nonneg SFS_BLOCKSIZE_def zmod_int [of pos 512, simplified, symmetric])

lemma metaio_read:
  assumes ok: "sfs_ok s M" and F: "file_ok s M sv" and k: "pos div 512 < 143" and l: "pos mod 512 + len \<le> 512" and u: "ubuf s data len"
  shows "\<exists>s'. sfs_metaio sv (int pos) data len UIO_READ s = Ok (0, s') \<and> rd_post s M sv pos data len s'"
proof -
  let ?k = "pos div 512" and ?o = "pos mod 512" and ?p = "b_metaiobuf (s_bufs s)"
  obtain s1 where b: "sfs_bmap sv (of_nat ?k) False s = Ok (0, fmap s sv ?k, s1)" "sfs_ok s1 M" "same_env s s1"
      "svs s1 = svs s" "blk s1 = blk s" "mem_kept s s1"
    using bmap_lookup [OF ok F k] by blast
  have e1: "s_bufs s1 = s_bufs s" "sb_nblocks s1 = sb_nblocks s" using b(3) by (simp_all add: same_env_def)
  have fb: "fbyte s sv (pos + j) = (if fmap s sv ?k = 0 then 0 else blk s (fmap s sv ?k) (?o + j))" if "j < len" for j
  proof -
    have "(pos + j) div 512 = ?k" "(pos + j) mod 512 - ?o = j" "?o \<le> (pos + j) mod 512"
      using in_block [OF l, of "pos + j"] that by auto
    then have "(pos + j) mod 512 = ?o + j" by linarith
    then show ?thesis using \<open>(pos + j) div 512 = ?k\<close> by (simp add: fbyte_def)
  qed
  have "\<exists>s2 m. sfs_metaio sv (int pos) data len UIO_READ s = Ok (0, s2\<lparr>s_mem := m\<rparr>) \<and> sfs_ok s2 M \<and> same_env s1 s2 \<and> svs s2 = svs s1 \<and> blk s2 = blk s1
      \<and> mem_kept s1 s2 \<and> (\<forall>j < len. m (data + of_nat j) = fbyte s sv (pos + j)) \<and> (\<forall>a. \<not> unat (a - data) < len \<longrightarrow> m a = s_mem s2 a)"
  proof (cases "fmap s sv ?k = 0")
    case True
    have "sfs_metaio sv (int pos) data len UIO_READ s = Ok (0, s1\<lparr>s_mem := bzero data len (s_mem s1)\<rparr>)"
      using b(1) True sfs_okD(5) [OF ok] unfolding sfs_metaio_def Let_def fileblock_nat by simp
    moreover have "bzero data len (s_mem s1) (data + of_nat j) = 0" if "j < len" for j
      using that l unat_of_nat_32 [of j] by (simp add: bzero_def)
    ultimately show ?thesis using True b(2) fb by (intro exI [of _ s1] exI [of _ "bzero data len (s_mem s1)"]) (simp add: bzero_def)
  next
    case False
    have "unat (fmap s sv ?k) < unat (sb_nblocks s1)" using file_ok_used [OF F k False] e1 by (simp add: in_use_def)
    then obtain s2 where r: "sfs_readblock (fmap s sv ?k) ?p SFS_BLOCKSIZE s1 = Ok (0, s2)" "sfs_ok s2 M" "same_env s1 s2" "svs s2 = svs s1" "blk s2 = blk s1"
        "\<forall>j < 512. s_mem s2 (?p + of_nat j) = blk s1 (fmap s sv ?k) j" "mem_kept s1 s2"
      using readblock_env [OF b(2) _ metabuf_facts(1,2) [OF b(2)]] unfolding e1 by blast
    let ?m = "memmove data (?p + of_nat ?o) len (s_mem s2)"
    have "sfs_metaio sv (int pos) data len UIO_READ s = Ok (0, s2\<lparr>s_mem := ?m\<rparr>)"
      using b(1) r(1) False sfs_okD(5) [OF ok] unfolding sfs_metaio_def Let_def fileblock_nat blockoff_nat by (simp add: e1)
    moreover have "?m (data + of_nat j) = fbyte s sv (pos + j)" if "j < len" for j
    proof -
      have "?m (data + of_nat j) = s_mem s2 (?p + of_nat (?o + j))" using that l by (simp add: memmove_at add.assoc)
      also have "\<dots> = blk s1 (fmap s sv ?k) (?o + j)" using that l by (intro r(6) [rule_format]) simp
      finally show ?thesis using fb [OF that] False b(5) by simp
    qed
    ultimately show ?thesis using r(2-5,7) by (intro exI [of _ s2] exI [of _ ?m]) (simp add: memmove_elsewhere)
  qed
  then obtain s2 m where r: "sfs_metaio sv (int pos) data len UIO_READ s = Ok (0, s2\<lparr>s_mem := m\<rparr>)" "sfs_ok s2 M" "same_env s1 s2" "svs s2 = svs s1" "blk s2 = blk s1"
      "mem_kept s1 s2" "\<forall>j < len. m (data + of_nat j) = fbyte s sv (pos + j)" "\<forall>a. \<not> unat (a - data) < len \<longrightarrow> m a = s_mem s2 a"
    by blast
  let ?s = "s2\<lparr>s_mem := m\<rparr>"
  have e: "same_env s s2" "same_env s2 ?s" using same_env_trans [OF b(3) r(3)] by (simp_all add: same_env_def)
  have u2: "ubuf s2 data len" using u ubuf_env [OF e(1)] by simp
  have "sfs_ok ?s M" by (rule sfs_ok_env [OF r(2) e(2)]) (use r(8) ubuf_area [OF u2] in auto)
  moreover have "s_mem ?s a = s_mem s a" if "\<not> scratch s a" "\<not> unat (a - data) < len" for a
    using that r(6,8) b(6) same_env_scratch [OF b(3)] by (simp add: mem_kept_def)
  ultimately have "rd_post s M sv pos data len ?s"
    using same_env_trans [OF e] b(4,5) r(4,5,7) by (simp add: rd_post_def blk_def fun_eq_iff)
  then show ?thesis using r(1) by blast
qed

lemma metaio_write:
  assumes ok: "sfs_ok s M" and F: "file_ok s M sv" and k: "pos div 512 < 143" and room: "fmap s sv (pos div 512) = 0 \<Longrightarrow> spare s M sv 1"
    and l: "pos mod 512 + len \<le> 512" and u: "ubuf s data len"
  shows "\<exists>s1 M'. sfs_metaio sv (int pos) data len UIO_WRITE s =
      Ok (0, if pos + len > fsize s sv then upd_inode sv (\<lambda>d. d\<lparr>sfi_size := of_nat (pos + len)\<rparr>) s1 else s1)
    \<and> wr_post s M sv pos data len 1 s1 M'"
proof -
  let ?p = "b_metaiobuf (s_bufs s)"
  obtain b s1 s2 s3 M' where w: "sfs_bmap sv (of_nat (pos div 512)) True s = Ok (0, b, s1)" "b \<noteq> 0" "s_bufs s1 = s_bufs s"
      "sfs_readblock b ?p SFS_BLOCKSIZE s1 = Ok (0, s2)"
      "sfs_writeblock b ?p SFS_BLOCKSIZE (s2\<lparr>s_mem := memmove (?p + of_nat (pos mod 512)) data len (s_mem s2)\<rparr>) = Ok (0, s3)"
      "wr_post s M sv pos data len 1 s3 M'"
    using rmw_block [OF ok F k room l u metabuf_facts(1,2) [OF ok]] by blast
  have sz: "uint (sfi_size (sv_i (svs s3 sv))) = int (fsize s sv)" using w(6) by (simp add: wr_post_def kept_def same_inode_def fsize_def)
  have "sfs_metaio sv (int pos) data len UIO_WRITE s =
      Ok (0, if pos + len > fsize s sv then upd_inode sv (\<lambda>d. d\<lparr>sfi_size := of_nat (pos + len)\<rparr>) s3 else s3)"
    using w(1-5) sfs_okD(5) [OF ok] sz unfolding sfs_metaio_def Let_def fileblock_nat blockoff_nat by simp
  then show ?thesis using w(6) by blast
qed

section \<open>Directories as lists of slots\<close>

definition slot_bytes :: "sfs_fs \<Rightarrow> ptr \<Rightarrow> nat \<Rightarrow> nat \<Rightarrow> byte" where
  "slot_bytes s sv i j = fbyte s sv (64 * i + j)"

definition nslots :: "sfs_fs \<Rightarrow> ptr \<Rightarrow> nat" where
  "nslots s sv = fsize s sv div 64"

definition name_of :: "(nat \<Rightarrow> byte) \<Rightarrow> byte list" where
  "name_of f = takeWhile (\<lambda>b. b \<noteq> 0) (map (\<lambda>j. f (4 + j)) [0..<59])"

definition slots :: "sfs_fs \<Rightarrow> ptr \<Rightarrow> (32 word \<times> byte list) list" where
  "slots s sv = map (\<lambda>i. (wd (slot_bytes s sv i) 0, name_of (slot_bytes s sv i))) [0..<nslots s sv]"

lemma slots_cong:
  assumes "\<And>i. fbyte s' sv i = fbyte s sv i" "fsize s' sv = fsize s sv"
  shows "slots s' sv = slots s sv" "nslots s' sv = nslots s sv"
proof -
  show n: "nslots s' sv = nslots s sv" using assms(2) by (simp add: nslots_def)
  have "slot_bytes s' sv = slot_bytes s sv" using assms(1) by (simp add: slot_bytes_def fun_eq_iff)
  then show "slots s' sv = slots s sv" using n by (simp add: slots_def)
qed

text \<open>The entries in use, and the directory as a map.\<close>

definition used_slots :: "(32 word \<times> byte list) list \<Rightarrow> (byte list \<times> 32 word) list" where
  "used_slots L = map (\<lambda>(ino, nm). (nm, ino)) (filter (\<lambda>(ino, nm). ino \<noteq> 0) L)"

definition dmap :: "sfs_fs \<Rightarrow> ptr \<Rightarrow> byte list \<rightharpoonup> 32 word" where
  "dmap s sv = map_of (used_slots (slots s sv))"

definition dir_ok :: "sfs_fs \<Rightarrow> nat set \<Rightarrow> ptr \<Rightarrow> bool" where
  "dir_ok s M sv \<longleftrightarrow>
     sfs_ok s M \<and> file_ok s M sv \<and> sfi_type (sv_i (svs s sv)) = SFS_TYPE_DIR \<and> fsize s sv mod 64 = 0 \<and> fsize s sv \<le> 143 * 512 \<and>
     distinct (map fst (used_slots (slots s sv))) \<and> ubuf s (b_tsd (s_bufs s)) 64 \<and> ubuf s (b_sd (s_bufs s)) 64"

text \<open>The search on the list.\<close>

fun scan :: "byte list \<Rightarrow> (32 word \<times> byte list) list \<Rightarrow> int \<Rightarrow> dirsearch \<Rightarrow> dirsearch" where
  "scan name [] i d = d"
| "scan name ((ino, nm) # L) i d =
     (if ino = 0 then scan name L (i + 1) (d\<lparr>ds_empty := i\<rparr>)
      else if nm = name then scan name L (i + 1) (d\<lparr>ds_found := True, ds_slot := i, ds_ino := ino\<rparr>)
      else scan name L (i + 1) d)"

text \<open>What a search leaves: nothing changes but the buffers and the entry on the stack.\<close>

definition searched :: "sfs_fs \<Rightarrow> nat set \<Rightarrow> sfs_fs \<Rightarrow> bool" where
  "searched s M s' \<longleftrightarrow>
     sfs_ok s' M \<and> same_env s s' \<and> svs s' = svs s \<and> blk s' = blk s \<and>
     (\<forall>a. \<not> scratch s a \<longrightarrow> \<not> unat (a - b_tsd (s_bufs s)) < 64 \<longrightarrow> s_mem s' a = s_mem s a)"

lemma searched_trans: "searched s M s1 \<Longrightarrow> searched s1 M s2 \<Longrightarrow> searched s M s2"
  using same_env_trans [of s s1 s2] same_env_scratch [of s s1] by (auto simp: searched_def same_env_def)

lemma searched_same:
  assumes "searched s M s'"
  shows "fbyte s' sv i = fbyte s sv i" "fsize s' sv = fsize s sv" "file_ok s' M' sv = file_ok s M' sv" "slots s' sv = slots s sv"
    "nslots s' sv = nslots s sv" "fblocks s' sv = fblocks s sv" "ubuf s' a n = ubuf s a n"
proof -
  have v: "svs s' = svs s" "blk s' = blk s" "same_env s s'" "sb_nblocks s' = sb_nblocks s" using assms by (simp_all add: searched_def same_env_def)
  have i: "indirect s' = indirect s" by (simp add: indirect_def fun_eq_iff v(1))
  have i: "indirect s' = indirect s" "fmap s' = fmap s" unfolding fmap_def i v by (rule refl)+
  show f: "fbyte s' sv i = fbyte s sv i" for i using v(2) i by (simp add: fbyte_def)
  show z: "fsize s' sv = fsize s sv" using v by (simp add: fsize_def)
  show "file_ok s' M' sv = file_ok s M' sv" using v(1,4) i by (simp add: file_ok_def in_use_def)
  show "nslots s' sv = nslots s sv" "slots s' sv = slots s sv" using slots_cong [OF f z] by simp_all
  show "fblocks s' sv = fblocks s sv" using i by (simp add: fblocks_def)
  show "ubuf s' a n = ubuf s a n" by (rule ubuf_env [OF v(3)])
qed

section \<open>The search\<close>

lemma slot_pos:
  assumes "i < 1144"
  shows "(64 * i) div 512 < 143" "(64 * i) mod 512 + 64 \<le> 512" "uint (word_of_int (int i) * of_nat sizeof_direntry :: 32 word) = int (64 * i)"
proof -
  show "(64 * i) div 512 < 143" using assms by (intro less_mult_imp_div_less) simp
  have "(64 * i) mod (64 * 8) = 64 * (i mod 8)" by (rule mod_mult_mult1)
  moreover have "i mod 8 \<le> 7" using mod_less_divisor [of 8 i] by linarith
  ultimately show "(64 * i) mod 512 + 64 \<le> 512" by simp
  have "word_of_int (int i) * of_nat sizeof_direntry = (of_nat (64 * i) :: 32 word)" by (simp add: sizeof_direntry_def)
  moreover have "unat (of_nat (64 * i) :: 32 word) = 64 * i" using assms by (intro unat_of_nat_32) simp
  ultimately show "uint (word_of_int (int i) * of_nat sizeof_direntry :: 32 word) = int (64 * i)" by (metis uint_nat)
qed

lemma nslots_bound: "fsize s sv \<le> 143 * 512 \<Longrightarrow> nslots s sv \<le> 1144"
  by (simp add: nslots_def)

lemma rd_searched: "rd_post s M sv pos (b_tsd (s_bufs s)) 64 s' \<Longrightarrow> searched s M s'"
  by (simp add: rd_post_def searched_def)

lemma takeWhile_snoc: "\<not> P x \<Longrightarrow> takeWhile P (xs @ [x]) = takeWhile P xs"
  by (induction xs) simp_all

lemma entry_in_memory:
  assumes "\<forall>j < 64. m (a + of_nat j) = f j"
  shows "ld32 a m = wd f 0" "cstr (a + 4) SFS_NAMELEN (m(a + 4 + of_nat (SFS_NAMELEN - 1) := 0)) = name_of f"
proof -
  have b: "m (a + of_nat j) = f j" if "j < 64" for j using assms that by blast
  have "ld32 a m = wd (mem_get a m) 0" using ld32_wd [of a 0 m] by simp
  also have "\<dots> = wd f 0" using b [of 0] b [of 1] b [of 2] b [of 3] by (simp add: wd_def mem_get_def numeral_2_eq_2)
  finally show "ld32 a m = wd f 0" .
  have "a + 4 + of_nat j \<noteq> a + 4 + of_nat 59" if "j < 59" for j
  proof
    assume "a + 4 + of_nat j = a + 4 + of_nat 59"
    then have "unat (of_nat j :: 32 word) = unat (of_nat 59 :: 32 word)" by simp
    then show False using that by simp
  qed
  then have "map (\<lambda>j. (m(a + 4 + of_nat 59 := 0)) (a + 4 + of_nat j)) [0..<59] = map (\<lambda>j. f (4 + j)) [0..<59]"
    using b [of "4 + _"] by (auto simp: add.assoc)
  moreover have "[0..<60] = [0..<59] @ [59 :: nat]" by (simp add: upt_conv_Cons)
  ultimately have "map (\<lambda>j. (m(a + 4 + of_nat 59 := 0)) (a + 4 + of_nat j)) [0..<60] = map (\<lambda>j. f (4 + j)) [0..<59] @ [0]"
    unfolding \<open>[0..<60] = [0..<59] @ [59 :: nat]\<close> map_append by simp
  then show "cstr (a + 4) SFS_NAMELEN (m(a + 4 + of_nat (SFS_NAMELEN - 1) := 0)) = name_of f"
    unfolding cstr_def name_of_def by (simp add: SFS_NAMELEN_def takeWhile_snoc)
qed

lemma readdir_ok:
  assumes "sfs_ok s M" "file_ok s M sv" "i < 1144" "ubuf s (b_tsd (s_bufs s)) 64"
  shows "\<exists>s'. sfs_readdir sv (int i) (b_tsd (s_bufs s)) s = Ok (0, s') \<and> searched s M s'
    \<and> (\<forall>j < 64. s_mem s' (b_tsd (s_bufs s) + of_nat j) = slot_bytes s sv i j)"
proof -
  note P = slot_pos [OF assms(3)]
  obtain s' where "sfs_metaio sv (int (64 * i)) (b_tsd (s_bufs s)) 64 UIO_READ s = Ok (0, s')" "rd_post s M sv (64 * i) (b_tsd (s_bufs s)) 64 s'"
    using metaio_read [OF assms(1,2) P(1,2) assms(4)] by blast
  moreover have "sfs_readdir sv (int i) (b_tsd (s_bufs s)) s = sfs_metaio sv (int (64 * i)) (b_tsd (s_bufs s)) 64 UIO_READ s"
    unfolding sfs_readdir_def Let_def P(3) by (simp add: sizeof_direntry_def)
  ultimately show ?thesis by (auto simp: rd_post_def slot_bytes_def searched_def)
qed

lemma slots_drop:
  "i < nslots s sv \<Longrightarrow> drop i (slots s sv) = (wd (slot_bytes s sv i) 0, name_of (slot_bytes s sv i)) # drop (Suc i) (slots s sv)"
  by (simp add: slots_def Cons_nth_drop_Suc [symmetric])

lemma findname_scan:
  "\<lbrakk>sfs_ok s M; file_ok s M sv; fsize s sv \<le> 143 * 512; ubuf s (b_tsd (s_bufs s)) 64; i + n = nslots s sv;
    distinct (map fst (used_slots (drop i (slots s sv)))); ds_found d \<longrightarrow> name \<notin> set (map fst (used_slots (drop i (slots s sv))))\<rbrakk> \<Longrightarrow>
   \<exists>s'. findname_loop n (int i) sv name d s = Ok (0, scan name (drop i (slots s sv)) (int i) d, s') \<and> searched s M s'"
proof (induction n arbitrary: i d s)
  case 0
  have "drop i (slots s sv) = []" using 0(5) by (simp add: slots_def)
  then show ?case using 0(1) by (simp add: searched_def)
next
  case (Suc n)
  let ?t = "b_tsd (s_bufs s)"
  have i: "i < nslots s sv" "i < 1144" using Suc.prems(3,5) nslots_bound [of s sv] by simp_all
  obtain s1 where r: "sfs_readdir sv (int i) ?t s = Ok (0, s1)" "searched s M s1" "\<forall>j < 64. s_mem s1 (?t + of_nat j) = slot_bytes s sv i j"
    using readdir_ok [OF Suc.prems(1,2) i(2) Suc.prems(4)] by blast
  note E = entry_in_memory [OF r(3)]
  note D = slots_drop [OF i(1)]
  define s2 where "s2 = s1\<lparr>s_mem := (s_mem s1)(?t + 4 + of_nat (SFS_NAMELEN - 1) := 0)\<rparr>"
  have z: "unat (?t + 4 + of_nat (SFS_NAMELEN - 1) - ?t) < 64" by (simp add: SFS_NAMELEN_def)
  have u1: "ubuf s1 ?t 64" using Suc.prems(4) searched_same(7) [OF r(2)] by simp
  have e2: "same_env s1 s2" by (simp add: s2_def same_env_def)
  have "sfs_ok s1 M" using r(2) by (simp add: searched_def)
  then have "sfs_ok s2 M" by (rule sfs_ok_env [OF _ e2]) (use ubuf_area(2,3) [OF u1 z] in \<open>auto simp: s2_def\<close>)
  moreover have "blk s2 = blk s1" by (simp add: s2_def blk_def fun_eq_iff)
  ultimately have sr2: "searched s M s2"
    using r(2) z same_env_trans [OF _ e2, of s] by (auto simp: searched_def) (auto simp: s2_def)
  have next_ok: "\<exists>s'. findname_loop n (int i + 1) sv name d' s3 = Ok (0, scan name (drop (Suc i) (slots s sv)) (int i + 1) d', s') \<and> searched s M s'"
    if s3: "searched s M s3" and d': "ds_found d' \<longrightarrow> name \<notin> set (map fst (used_slots (drop (Suc i) (slots s sv))))" for s3 d'
  proof -
    note S = searched_same [OF s3]
    have e: "sfs_ok s3 M" "s_bufs s3 = s_bufs s" using s3 by (simp_all add: searched_def same_env_def)
    have dist: "distinct (map fst (used_slots (drop (Suc i) (slots s sv))))"
      using Suc.prems(6) unfolding D by (auto simp: used_slots_def split: if_splits)
    have "\<exists>s'. findname_loop n (int (Suc i)) sv name d' s3 = Ok (0, scan name (drop (Suc i) (slots s3 sv)) (int (Suc i)) d', s') \<and> searched s3 M s'"
      by (rule Suc.IH) (use e Suc.prems(2-5) dist d' in \<open>simp_all add: S\<close>)
    then show ?thesis using searched_trans [OF s3] by (auto simp: S(4) add.commute)
  qed
  let ?ino = "wd (slot_bytes s sv i) 0" and ?nm = "name_of (slot_bytes s sv i)"
  have t1: "b_tsd (s_bufs s1) = ?t" using r(2) by (simp add: searched_def same_env_def)
  have body: "findname_loop (Suc n) (int i) sv name d s =
      (if ?ino = 0 then findname_loop n (int i + 1) sv name (d\<lparr>ds_empty := int i\<rparr>) s1
       else if ?nm = name then kassert (\<not> ds_found d) (findname_loop n (int i + 1) sv name (d\<lparr>ds_found := True, ds_slot := int i, ds_ino := ?ino\<rparr>) s2)
       else findname_loop n (int i + 1) sv name d s2)"
    using r(1) E unfolding findname_loop.simps(2) Let_def by (simp add: SFS_NOINO_def s2_def)
  consider (free) "?ino = 0" | (found) "?ino \<noteq> 0" "?nm = name" | (other) "?ino \<noteq> 0" "?nm \<noteq> name" by blast
  then show ?case
  proof cases
    case free
    then show ?thesis unfolding body D using next_ok [OF r(2)] Suc.prems(7) by (simp add: D used_slots_def)
  next
    case found
    then have "\<not> ds_found d" "name \<notin> set (map fst (used_slots (drop (Suc i) (slots s sv))))"
      using Suc.prems(6,7) by (auto simp: D used_slots_def)
    then show ?thesis unfolding body D using found next_ok [OF sr2] by simp
  next
    case other
    then show ?thesis unfolding body D using next_ok [OF sr2] Suc.prems(7) by (simp add: D used_slots_def)
  qed
qed

text \<open>What the search on the list finds.\<close>

lemma scan_found:
  "distinct (map fst (used_slots L)) \<Longrightarrow> (ds_found d \<longrightarrow> name \<notin> set (map fst (used_slots L))) \<Longrightarrow>
   (case map_of (used_slots L) name of
      None \<Rightarrow> ds_found (scan name L i d) = ds_found d \<and> ds_ino (scan name L i d) = ds_ino d \<and> ds_slot (scan name L i d) = ds_slot d
    | Some ino \<Rightarrow> ds_found (scan name L i d) \<and> ds_ino (scan name L i d) = ino
        \<and> (\<exists>k < length L. ds_slot (scan name L i d) = i + int k \<and> L ! k = (ino, name)))"
proof (induction L arbitrary: i d)
  case (Cons e L)
  obtain ino nm where e: "e = (ino, nm)" by (cases e)
  have shift: "\<exists>k < length (e # L). x = i + int k \<and> (e # L) ! k = y" if ex: "\<exists>k < length L. x = i + 1 + int k \<and> L ! k = y" for x y
  proof -
    obtain k where "k < length L" "x = i + 1 + int k" "L ! k = y" using ex by blast
    then show ?thesis by (intro exI [of _ "Suc k"]) simp
  qed
  have u: "used_slots (e # L) = (if ino = 0 then used_slots L else (nm, ino) # used_slots L)" by (simp add: used_slots_def e)
  have dist: "distinct (map fst (used_slots L))" using Cons.prems(1) u by (auto split: if_splits)
  consider (free) "ino = 0" | (found) "ino \<noteq> 0" "nm = name" | (other) "ino \<noteq> 0" "nm \<noteq> name" by blast
  then show ?case
  proof cases
    case free
    then show ?thesis using Cons.IH [OF dist, of "d\<lparr>ds_empty := i\<rparr>" "i + 1"] Cons.prems(2) u shift by (simp add: e split: option.splits)
  next
    case found
    let ?d = "d\<lparr>ds_found := True, ds_slot := i, ds_ino := ino\<rparr>"
    have nn: "name \<notin> set (map fst (used_slots L))" using Cons.prems(1) u found by simp
    then have "map_of (used_slots L) name = None" by (simp add: map_of_eq_None_iff)
    moreover have "\<exists>k < length (e # L). i = i + int k \<and> (e # L) ! k = (ino, name)" using found e by (intro exI [of _ 0]) simp
    ultimately show ?thesis using Cons.IH [OF dist, of ?d "i + 1"] nn found u by (simp add: e)
  next
    case other
    then show ?thesis using Cons.IH [OF dist, of d "i + 1"] Cons.prems(2) u shift by (simp add: e split: option.splits)
  qed
qed (simp add: used_slots_def)

lemma scan_empty:
  "ds_empty (scan name L i d) = ds_empty d \<and> (\<forall>k < length L. fst (L ! k) \<noteq> 0)
   \<or> (\<exists>k < length L. ds_empty (scan name L i d) = i + int k \<and> fst (L ! k) = 0)"
proof (induction L arbitrary: i d)
  case (Cons e L)
  obtain ino nm where e: "e = (ino, nm)" by (cases e)
  obtain d' where d': "scan name (e # L) i d = scan name L (i + 1) d'" "ds_empty d' = (if ino = 0 then i else ds_empty d)"
    by (cases "ino = 0"; cases "nm = name") (auto simp: e)
  from Cons.IH [of "i + 1" d'] show ?case
  proof
    assume "ds_empty (scan name L (i + 1) d') = ds_empty d' \<and> (\<forall>k < length L. fst (L ! k) \<noteq> 0)"
    then show ?thesis using d' e by (cases "ino = 0") (auto simp: less_Suc_eq_0_disj intro: exI [of _ 0])
  next
    assume "\<exists>k < length L. ds_empty (scan name L (i + 1) d') = i + 1 + int k \<and> fst (L ! k) = 0"
    then obtain k where "k < length L" "ds_empty (scan name L (i + 1) d') = i + 1 + int k" "fst (L ! k) = 0" by blast
    then show ?thesis using d'(1) by (intro disjI2 exI [of _ "Suc k"]) simp
  qed
qed simp

lemma dir_okD:
  assumes "dir_ok s M sv"
  shows "sfs_ok s M" "file_ok s M sv" "fsize s sv = 64 * nslots s sv" "nslots s sv \<le> 1144" "distinct (map fst (used_slots (slots s sv)))"
    "ubuf s (b_tsd (s_bufs s)) 64" "ubuf s (b_sd (s_bufs s)) 64" "length (slots s sv) = nslots s sv" "sfs_dir_nentries sv s = Ok (int (nslots s sv))"
proof -
  have m: "fsize s sv mod 64 = 0" "fsize s sv \<le> 143 * 512" "sfi_type (sv_i (svs s sv)) = SFS_TYPE_DIR" using assms by (simp_all add: dir_ok_def)
  show "fsize s sv = 64 * nslots s sv" using m(1) mult_div_mod_eq [of 64 "fsize s sv"] by (simp add: nslots_def)
  have "uint (sfi_size (sv_i (svs s sv))) = int (fsize s sv)" by (rule size_int)
  then show "sfs_dir_nentries sv s = Ok (int (nslots s sv))"
    using m by (simp add: sfs_dir_nentries_def sizeof_direntry_def nslots_def zdiv_int zmod_int [of _ 64, simplified, symmetric])
  show "nslots s sv \<le> 1144" by (rule nslots_bound [OF m(2)])
qed (use assms in \<open>simp_all add: dir_ok_def slots_def\<close>)

lemma findname_ok:
  assumes ok: "dir_ok s M sv"
  shows "\<exists>d s'. sfs_dir_findname sv name s = Ok (if dmap s sv name = None then ENOENT else 0, d, s') \<and> searched s M s'
    \<and> (\<forall>ino. dmap s sv name = Some ino \<longrightarrow> ds_ino d = ino \<and> (\<exists>k < nslots s sv. ds_slot d = int k \<and> slots s sv ! k = (ino, name)))
    \<and> (ds_empty d = -1 \<and> (\<forall>k < nslots s sv. fst (slots s sv ! k) \<noteq> 0) \<or> (\<exists>k < nslots s sv. ds_empty d = int k \<and> fst (slots s sv ! k) = 0))"
proof -
  note D = dir_okD [OF ok]
  let ?d = "\<lparr>ds_found = False, ds_ino = 0, ds_slot = 0, ds_empty = -1\<rparr>"
  let ?r = "scan name (slots s sv) 0 ?d"
  have "fsize s sv \<le> 143 * 512" using ok by (simp add: dir_ok_def)
  then obtain s' where l: "findname_loop (nslots s sv) 0 sv name ?d s = Ok (0, ?r, s')" "searched s M s'"
    using findname_scan [OF D(1,2) _ D(6), of 0 "nslots s sv" ?d name] D(5) by auto
  have run: "sfs_dir_findname sv name s = Ok (if ds_found ?r then 0 else ENOENT, ?r, s')"
    using l(1) D(9) by (simp add: sfs_dir_findname_def)
  have S: "case map_of (used_slots (slots s sv)) name of
      None \<Rightarrow> ds_found ?r = False
    | Some ino \<Rightarrow> ds_found ?r \<and> ds_ino ?r = ino \<and> (\<exists>k < nslots s sv. ds_slot ?r = int k \<and> slots s sv ! k = (ino, name))"
    using scan_found [OF D(5), of ?d name 0] D(8) by (auto split: option.splits)
  have E: "ds_empty ?r = -1 \<and> (\<forall>k < nslots s sv. fst (slots s sv ! k) \<noteq> 0) \<or> (\<exists>k < nslots s sv. ds_empty ?r = int k \<and> fst (slots s sv ! k) = 0)"
    using scan_empty [of name "slots s sv" 0 ?d] D(8) by simp
  show ?thesis using run l(2) S E by (intro exI [of _ ?r] exI [of _ s']) (auto simp: dmap_def split: option.splits)
qed

section \<open>Writing an entry\<close>

lemma entry_cong: "(\<And>j. j < 64 \<Longrightarrow> f j = g j) \<Longrightarrow> wd f 0 = wd g 0 \<and> name_of f = name_of g"
proof -
  assume e: "\<And>j. j < 64 \<Longrightarrow> f j = g j"
  then have "map (\<lambda>j. f (4 + j)) [0..<59] = map (\<lambda>j. g (4 + j)) [0..<59]" by simp
  then show ?thesis using e by (simp only: wd_def name_of_def)
qed

definition entry_in :: "vaddr \<Rightarrow> kmem \<Rightarrow> 32 word \<times> byte list" where
  "entry_in a m = (wd (mem_get a m) 0, name_of (mem_get a m))"

text \<open>A slot of the list, or a new one at its end.\<close>

definition put_slot :: "nat \<Rightarrow> 'a \<Rightarrow> 'a list \<Rightarrow> 'a list" where
  "put_slot k x L = (if k < length L then L[k := x] else L @ [x])"

lemma put_slot_length: "k \<le> length L \<Longrightarrow> length L \<le> n \<Longrightarrow> k < n \<Longrightarrow> length (put_slot k x L) \<le> n"
  by (simp add: put_slot_def)

text \<open>What a change of the directory \<open>sv\<close> leaves alone.\<close>

definition dir_kept :: "sfs_fs \<Rightarrow> nat set \<Rightarrow> ptr \<Rightarrow> sfs_fs \<Rightarrow> nat set \<Rightarrow> bool" where
  "dir_kept s M sv s' M' \<longleftrightarrow>
     sfs_ok s' M' \<and> file_ok s' M' sv \<and> same_env s s' \<and> framed s M sv s' M' \<and> sfi_type (sv_i (svs s' sv)) = sfi_type (sv_i (svs s sv)) \<and> mem_kept s s'"

lemma writedir_ok:
  assumes ok: "sfs_ok s M" "file_ok s M sv" and room: "fmap s sv (64 * k div 512) = 0 \<Longrightarrow> spare s M sv 1" and z: "fsize s sv = 64 * nslots s sv"
    and k: "k \<le> nslots s sv" "k < 1144" "nslots s sv \<le> 1144" and u: "ubuf s sd 64"
  shows "\<exists>s' M'. sfs_writedir sv (int k) sd s = Ok (0, s') \<and> dir_kept s M sv s' M' \<and> fsize s' sv = 64 * nslots s' sv
    \<and> slots s' sv = put_slot k (entry_in sd (s_mem s)) (slots s sv)"
proof -
  note P = slot_pos [OF k(2)]
  obtain s1 M' where w: "sfs_metaio sv (int (64 * k)) sd 64 UIO_WRITE s =
      Ok (0, if 64 * k + 64 > fsize s sv then upd_inode sv (\<lambda>d. d\<lparr>sfi_size := of_nat (64 * k + 64)\<rparr>) s1 else s1)"
      "wr_post s M sv (64 * k) sd 64 1 s1 M'"
    using metaio_write [OF ok P(1) room P(2) u] by blast
  define s' where "s' = (if 64 * k + 64 > fsize s sv then upd_inode sv (\<lambda>d. d\<lparr>sfi_size := of_nat (64 * k + 64)\<rparr>) s1 else s1)"
  have run: "sfs_writedir sv (int k) sd s = Ok (0, s')"
    using w(1) unfolding sfs_writedir_def Let_def P(3) s'_def by (simp add: sizeof_direntry_def)
  have K: "kept s M sv s1 M'" "mem_kept s s1" using w(2) by (simp_all add: wr_post_def)
  have u64: "unat (of_nat (64 * k + 64) :: 32 word) = 64 * k + 64" using k(2) by (intro unat_of_nat_32) simp
  note Z = set_size [where sv = sv and z = "of_nat (64 * k + 64)" and s = s1]
  have S: "fbyte s' sv i = fbyte s1 sv i" "fblocks s' sv = fblocks s1 sv" "sfs_ok s' M' = sfs_ok s1 M'" "file_ok s' M' sv = file_ok s1 M' sv"
      "same_env s s' = same_env s s1" "mem_kept s s' = mem_kept s s1" for i
    by (cases "64 * k + 64 > fsize s sv"; simp only: s'_def if_True if_False Z)+
  have V: "blk s' = blk s1" "p \<noteq> sv \<Longrightarrow> svs s' p = svs s1 p" "sfi_type (sv_i (svs s' sv)) = sfi_type (sv_i (svs s1 sv))"
      "sv_ino (svs s' sv) = sv_ino (svs s1 sv)" "vn_refcount (svs s' sv) = vn_refcount (svs s1 sv)"
      "sfi_linkcount (sv_i (svs s' sv)) = sfi_linkcount (sv_i (svs s1 sv))" for p
    by (simp_all add: s'_def upd_inode_def upd_sv_def blk_def fun_eq_iff)
  have fs: "fsize s1 sv = fsize s sv" using K(1) by (simp add: kept_def same_inode_def fsize_def)
  have fz: "fsize s' sv = max (fsize s sv) (64 * k + 64)"
  proof (cases "64 * k + 64 > fsize s sv")
    case True
    then have "fsize s' sv = 64 * k + 64" unfolding s'_def if_P [OF True] Z(5) u64 by simp
    then show ?thesis using True by simp
  next
    case False
    have "fsize s' sv = fsize s sv" unfolding s'_def if_not_P [OF False] by (rule fs)
    then show ?thesis using False by simp
  qed
  have ns: "nslots s' sv = max (nslots s sv) (k + 1)" unfolding nslots_def [of s'] fz z by (simp add: max_def)
  have sb: "slot_bytes s' sv i j = (if i = k then mem_get sd (s_mem s) j else slot_bytes s sv i j)" if "i < 1144" "j < 64" for i j
  proof -
    have "64 * i + j < 143 * 512" using that by simp
    moreover have "64 * k \<le> 64 * i + j \<and> 64 * i + j < 64 * k + 64 \<longleftrightarrow> i = k" using that by auto
    ultimately show ?thesis using w(2) S(1) by (auto simp: slot_bytes_def wr_post_def mem_get_def)
  qed
  have dk: "dir_kept s M sv s' M'"
    using K V kept_framed [OF K(1)] unfolding dir_kept_def S framed_def by (simp add: kept_def same_inode_def same_env_def)
  have "slots s' sv = put_slot k (entry_in sd (s_mem s)) (slots s sv)"
  proof (rule nth_equalityI)
    show len: "length (slots s' sv) = length (put_slot k (entry_in sd (s_mem s)) (slots s sv))"
      using k(1) by (auto simp: slots_def put_slot_def ns)
    fix i
    assume i: "i < length (slots s' sv)"
    then have i': "i < 1144" "i = k \<or> i < nslots s sv" using k by (auto simp: slots_def ns)
    have "slots s' sv ! i = (wd (slot_bytes s' sv i) 0, name_of (slot_bytes s' sv i))" using i by (simp add: slots_def)
    also have "\<dots> = (if i = k then entry_in sd (s_mem s) else (wd (slot_bytes s sv i) 0, name_of (slot_bytes s sv i)))"
      using entry_cong [of "slot_bytes s' sv i" "if i = k then mem_get sd (s_mem s) else slot_bytes s sv i"] sb [OF i'(1)] by (simp add: entry_in_def)
    also have "\<dots> = put_slot k (entry_in sd (s_mem s)) (slots s sv) ! i"
      using i'(2) k(1) by (auto simp: put_slot_def slots_def nth_append nth_list_update)
    finally show "slots s' sv ! i = put_slot k (entry_in sd (s_mem s)) (slots s sv) ! i" .
  qed
  then show ?thesis using run dk fz ns z by (intro exI [of _ s'] exI [of _ M']) (simp add: max_def)
qed

section \<open>Links\<close>

lemma entry_new:
  assumes a: "unat sd + 64 \<le> 2 ^ 32" and n: "length name < 60" "0 \<notin> set name"
  shows "entry_in sd (strcpy (sd + 4) name (st32 sd ino (bzero sd 64 m))) = (ino, name)"
proof -
  let ?m = "st32 sd ino (bzero sd 64 m)" and ?m' = "strcpy (sd + 4) name (st32 sd ino (bzero sd 64 m))"
  have u4: "unat (sd + 4) = unat sd + 4" using a unat_plus_nat [of sd 4] by simp
  have reg: "unat (x - (sd + 4)) < length name + 1 \<longleftrightarrow> unat sd + 4 \<le> unat x \<and> unat x < unat sd + 4 + (length name + 1)" for x
    using unat_sub_less_iff [of "sd + 4" "length name + 1" x] u4 a n(1) by simp
  have uj: "unat (sd + of_nat j) = unat sd + j" if "j < 64" for j using a that by (intro unat_plus_nat) simp
  have "?m' (sd + of_nat j) = ?m (sd + of_nat j)" if "j < 4" for j
    using that reg [of "sd + of_nat j"] uj [of j] by (simp add: strcpy_def put_bytes_def)
  from this [of 0] this [of 1] this [of 2] this [of 3] have "ld32 sd ?m' = ld32 sd ?m" by (simp add: ld32_def)
  then have ino: "wd (mem_get sd ?m') 0 = ino" using ld32_wd [of sd 0 ?m'] by simp
  have bt: "mem_get sd ?m' (4 + j) = (if j < length name then name ! j else 0)" if "j < 59" for j
  proof -
    have x: "sd + of_nat (4 + j) - (sd + 4) = of_nat j" "unat (of_nat j :: 32 word) = j" using that by simp_all
    have "?m (sd + of_nat (4 + j)) = 0"
      using that by (simp add: st32_outside bzero_def del: of_nat_add)
    then show ?thesis using x n(1) by (simp add: mem_get_def strcpy_def put_bytes_def nth_append del: of_nat_add)
  qed
  have "map (\<lambda>j. mem_get sd ?m' (4 + j)) [0..<59] = name @ replicate (59 - length name) 0"
    using bt n(1) by (intro nth_equalityI) (auto simp: nth_append)
  moreover have "takeWhile (\<lambda>b. b \<noteq> 0) (name @ replicate r 0) = name" for r
    using n(2) by (subst takeWhile_append2) (auto simp: takeWhile_replicate)
  ultimately show ?thesis using ino by (simp add: entry_in_def name_of_def)
qed

lemma used_put:
  assumes d: "distinct (map fst (used_slots L))" and x: "k < length L \<Longrightarrow> fst (L ! k) = 0"
    and n: "name \<notin> set (map fst (used_slots L))" "ino \<noteq> 0"
  shows "distinct (map fst (used_slots (put_slot k (ino, name) L)))" "map_of (used_slots (put_slot k (ino, name) L)) = (map_of (used_slots L))(name \<mapsto> ino)"
proof -
  obtain A B where L: "used_slots L = A @ B" "used_slots (put_slot k (ino, name) L) = A @ (name, ino) # B"
  proof (cases "k < length L")
    case True
    have "used_slots L = used_slots (take k L) @ used_slots (drop (Suc k) L)"
      using True x by (subst id_take_nth_drop [OF True]) (auto simp: used_slots_def case_prod_unfold)
    moreover have "used_slots (L[k := (ino, name)]) = used_slots (take k L) @ (name, ino) # used_slots (drop (Suc k) L)"
      using True n(2) by (subst upd_conv_take_nth_drop [OF True]) (simp add: used_slots_def)
    ultimately show ?thesis using True that by (simp add: put_slot_def)
  next
    case False
    then show ?thesis using that [of "used_slots L" "[]"] n(2) by (simp add: put_slot_def used_slots_def)
  qed
  show "distinct (map fst (used_slots (put_slot k (ino, name) L)))" using d n(1) unfolding L by auto
  show "map_of (used_slots (put_slot k (ino, name) L)) = (map_of (used_slots L))(name \<mapsto> ino)"
  proof -
    have "map_of A name = None" using n(1) unfolding L by (simp add: map_of_eq_None_iff)
    then show ?thesis unfolding L by (auto simp: map_add_def fun_eq_iff split: option.splits)
  qed
qed

lemma dir_after:
  assumes ok: "dir_ok s M sv" and S: "searched s M s1" and sd: "sd = b_sd (s_bufs s)"
    and m: "\<And>a. \<not> unat (a - sd) < 64 \<Longrightarrow> m a = s_mem s1 a" and room: "fmap s sv (64 * k div 512) = 0 \<Longrightarrow> spare s M sv 1"
    and k: "k \<le> nslots s sv" "k < 1144" and d: "distinct (map fst (used_slots (put_slot k (entry_in sd m) (slots s sv))))"
  shows "\<exists>s' M'. sfs_writedir sv (int k) sd (s1\<lparr>s_mem := m\<rparr>) = Ok (0, s') \<and> dir_ok s' M' sv \<and> framed s M sv s' M'
    \<and> slots s' sv = put_slot k (entry_in sd m) (slots s sv)"
proof -
  note D = dir_okD [OF ok]
  let ?s = "s1\<lparr>s_mem := m\<rparr>"
  note E = searched_same [OF S]
  have S': "sfs_ok s1 M" "same_env s s1" "svs s1 = svs s" "blk s1 = blk s" using S by (simp_all add: searched_def)
  have e: "same_env s1 ?s" "same_env s ?s" using S'(2) by (simp_all add: same_env_def)
  have u: "ubuf s1 sd 64" using D(7) E(7) sd by simp
  have "sfs_ok ?s M" by (rule sfs_ok_env [OF S'(1) e(1)]) (use m ubuf_area(2,3) [OF u] in auto)
  moreover have X: "svs ?s = svs s" "blk ?s = blk s" "indirect ?s = indirect s" "sb_nblocks ?s = sb_nblocks s"
    using S' by (simp_all add: blk_def fun_eq_iff indirect_def same_env_def)
  moreover have f: "fmap ?s = fmap s" unfolding fmap_def X by (rule refl)
  moreover have "file_ok ?s M sv" using D(2) unfolding file_ok_def in_use_def f X .
  ultimately have F: "sfs_ok ?s M" "file_ok ?s M sv" "fmap ?s sv (64 * k div 512) = 0 \<Longrightarrow> spare ?s M sv 1" "ubuf ?s sd 64"
    using room D(7) ubuf_env [OF e(2)] sd by (simp_all add: spare_def nfree_def)
  have fb: "fbyte ?s = fbyte s" "fblocks ?s = fblocks s" "fsize ?s = fsize s" using f X by (simp_all add: fbyte_def fblocks_def fsize_def fun_eq_iff)
  have sl: "slots ?s sv = slots s sv" "nslots ?s sv = nslots s sv" by (rule slots_cong; simp only: fb)+
  have "fsize ?s sv = 64 * nslots ?s sv" using D(3) fb(3) sl(2) by simp
  from writedir_ok [OF F(1-3) this _ k(2) _ F(4)]
  obtain s' M' where w: "sfs_writedir sv (int k) sd ?s = Ok (0, s')" "dir_kept ?s M sv s' M'" "fsize s' sv = 64 * nslots s' sv"
      "slots s' sv = put_slot k (entry_in sd m) (slots s sv)"
    using k(1) D(4) sl by auto
  have W: "sfs_ok s' M'" "file_ok s' M' sv" "same_env ?s s'" "framed ?s M sv s' M'" "sfi_type (sv_i (svs s' sv)) = sfi_type (sv_i (svs ?s sv))"
    using w(2) by (simp_all add: dir_kept_def)
  have e': "same_env s s'" using same_env_trans [OF e(2) W(3)] .
  have fr: "framed s M sv s' M'" using W(4) e' unfolding framed_def X fb(2) by blast
  have "nslots s' sv \<le> 1144" using w(4) D(4,8) k by (metis (no_types) length_map length_upt minus_nat.diff_0 put_slot_length slots_def)
  moreover have "sfi_type (sv_i (svs s' sv)) = SFS_TYPE_DIR" using W(5) ok X(1) by (simp add: dir_ok_def)
  moreover have "b_tsd (s_bufs s') = b_tsd (s_bufs s)" "b_sd (s_bufs s') = b_sd (s_bufs s)" using e' by (simp_all add: same_env_def)
  ultimately have "dir_ok s' M' sv"
    using W(1,2) w(3,4) d D(6,7) ubuf_env [OF e'] by (simp add: dir_ok_def)
  then show ?thesis using w(1,4) fr by blast
qed

lemma sd_area:
  assumes "ubuf s sd 64"
  shows "unat sd + 64 \<le> 2 ^ 32"
    "\<not> unat (a - sd) < 64 \<Longrightarrow> st32 sd w (bzero sd sizeof_direntry m) a = m a"
    "length name < 60 \<Longrightarrow> \<not> unat (a - sd) < 64 \<Longrightarrow> strcpy (sd + 4) name (st32 sd w (bzero sd sizeof_direntry m)) a = m a"
proof -
  show b: "unat sd + 64 \<le> 2 ^ 32" using assms unat_lt_32 [of "lh_buf (sfs_device s)"] by (simp add: ubuf_def below_buf_def)
  show z: "st32 sd w (bzero sd sizeof_direntry m) a = m a" if "\<not> unat (a - sd) < 64"
    using that by (simp add: st32_outside bzero_def sizeof_direntry_def)
  assume n: "length name < 60" and a: "\<not> unat (a - sd) < 64"
  have "unat (sd + 4) = unat sd + 4" using b unat_plus_nat [of sd 4] by simp
  then have "\<not> unat (a - (sd + 4)) < length name + 1"
    using a b n unat_sub_less_iff [of "sd + 4" "length name + 1" a] unat_sub_less_iff [of sd 64 a] by auto
  then show "strcpy (sd + 4) name (st32 sd w (bzero sd sizeof_direntry m)) a = m a" using z [OF a] by (simp add: strcpy_def put_bytes_def)
qed

lemma link_new:
  assumes ok: "dir_ok s M sv" and room: "spare s M sv 1" "nslots s sv < 1144" and n: "dmap s sv name = None" "length name < 60" "0 \<notin> set name"
    and ino: "ino \<noteq> 0"
  shows "\<exists>k s' M'. sfs_dir_link sv name ino s = Ok (0, int k, s') \<and> dir_ok s' M' sv \<and> framed s M sv s' M'
    \<and> k < nslots s' sv \<and> slots s' sv ! k = (ino, name) \<and> dmap s' sv = (dmap s sv)(name \<mapsto> ino)"
proof -
  note D = dir_okD [OF ok]
  obtain d s1 where f: "sfs_dir_findname sv name s = Ok (ENOENT, d, s1)" "searched s M s1"
      "ds_empty d = -1 \<and> (\<forall>k < nslots s sv. fst (slots s sv ! k) \<noteq> 0) \<or> (\<exists>k < nslots s sv. ds_empty d = int k \<and> fst (slots s sv ! k) = 0)"
    using findname_ok [OF ok, of name] n(1) by auto
  define k where "k = (if ds_empty d < 0 then nslots s sv else nat (ds_empty d))"
  have k: "k \<le> nslots s sv" "k < 1144" "k < length (slots s sv) \<Longrightarrow> fst (slots s sv ! k) = 0" using f(3) room(2) D(8) by (auto simp: k_def)
  have e: "s_bufs s1 = s_bufs s" "svs s1 = svs s" using f(2) by (simp_all add: searched_def same_env_def)
  have ns: "sfs_dir_nentries sv s1 = Ok (int (nslots s sv))" using D(9) by (simp add: sfs_dir_nentries_def e)
  let ?sd = "b_sd (s_bufs s)"
  let ?m = "strcpy (?sd + 4) name (st32 ?sd ino (bzero ?sd sizeof_direntry (s_mem s1)))"
  have slot: "(if ds_empty d < 0 then sfs_dir_nentries sv s1 else Ok (ds_empty d)) = Ok (int k)" using ns f(3) by (auto simp: k_def)
  have en: "entry_in ?sd ?m = (ino, name)" using entry_new [OF sd_area(1) [OF D(7)] n(2,3)] by (simp add: sizeof_direntry_def)
  have nn: "name \<notin> set (map fst (used_slots (slots s sv)))" using n(1) by (simp add: dmap_def map_of_eq_None_iff)
  note U = used_put [OF D(5) k(3) nn ino]
  have m: "\<not> unat (a - ?sd) < 64 \<Longrightarrow> ?m a = s_mem s1 a" for a using sd_area(3) [OF D(7) n(2)] by blast
  obtain s' M' where w: "sfs_writedir sv (int k) ?sd (s1\<lparr>s_mem := ?m\<rparr>) = Ok (0, s')" "dir_ok s' M' sv" "framed s M sv s' M'"
      "slots s' sv = put_slot k (ino, name) (slots s sv)"
    using dir_after [OF ok f(2) refl m room(1) k(1,2)] U(1) unfolding en by blast
  have "sfs_dir_link sv name ino s = Ok (0, int k, s')"
    using f(1) slot w(1) n(2) by (simp add: sfs_dir_link_def ENOENT_def SFS_NAMELEN_def e Let_def)
  moreover have "k < nslots s' sv" "slots s' sv ! k = (ino, name)"
    using w(4) k(1) D(8) dir_okD(8) [OF w(2)] by (cases "k < nslots s sv"; auto simp: put_slot_def nth_append)+
  moreover have "dmap s' sv = (dmap s sv)(name \<mapsto> ino)" unfolding dmap_def w(4) by (rule U(2))
  ultimately show ?thesis using w(2,3) by blast
qed

lemma entry_free: "entry_in sd (st32 sd 0 (bzero sd 64 m)) = (0, [])"
proof -
  have z: "mem_get sd (st32 sd 0 (bzero sd 64 m)) j = 0" if "j < 64" for j
  proof (cases "j < 4")
    case True
    then have "j \<in> {0, 1, 2, 3}" by auto
    then show ?thesis by (auto simp: mem_get_def st32_def)
  next
    case False
    then have "4 \<le> unat (sd + of_nat j - sd)" using that by simp
    then show ?thesis using that by (simp add: mem_get_def st32_outside bzero_def)
  qed
  have "map (\<lambda>j. mem_get sd (st32 sd 0 (bzero sd 64 m)) (4 + j)) [0..<59] = replicate 59 0"
    using z by (intro nth_equalityI) simp_all
  then show ?thesis using z by (simp add: entry_in_def name_of_def takeWhile_replicate wd_def)
qed

lemma used_free:
  assumes d: "distinct (map fst (used_slots L))" and k: "k < length L" "L ! k = (ino, name)" "ino \<noteq> 0"
  shows "distinct (map fst (used_slots (put_slot k (0, nm) L)))" "map_of (used_slots (put_slot k (0, nm) L)) = (map_of (used_slots L))(name := None)"
proof -
  let ?A = "used_slots (take k L)" and ?B = "used_slots (drop (Suc k) L)"
  have L: "used_slots L = ?A @ (name, ino) # ?B"
    by (subst id_take_nth_drop [OF k(1)]) (use k in \<open>simp add: used_slots_def\<close>)
  have L': "used_slots (put_slot k (0, nm) L) = ?A @ ?B"
    using k(1) by (simp add: put_slot_def upd_conv_take_nth_drop [OF k(1)] used_slots_def)
  show "distinct (map fst (used_slots (put_slot k (0, nm) L)))" using d unfolding L L' by auto
  have "map_of ?A name = None" "map_of ?B name = None" using d unfolding L by (auto simp: map_of_eq_None_iff)
  then show "map_of (used_slots (put_slot k (0, nm) L)) = (map_of (used_slots L))(name := None)"
    unfolding L L' by (auto simp: map_add_def fun_eq_iff split: option.splits)
qed

text \<open>A slot in use lies in a block that the directory has.\<close>

lemma used_slot_block: "fst (slots s sv ! k) \<noteq> 0 \<Longrightarrow> k < nslots s sv \<Longrightarrow> fmap s sv (64 * k div 512) \<noteq> 0"
proof
  assume k: "fst (slots s sv ! k) \<noteq> 0" "k < nslots s sv" "fmap s sv (64 * k div 512) = 0"
  have "fbyte s sv (64 * k + j) = 0" if "j < 4" for j
  proof -
    have "(64 * k) mod (64 * 8) = 64 * (k mod 8)" by (rule mod_mult_mult1)
    moreover have "k mod 8 \<le> 7" using mod_less_divisor [of 8 k] by linarith
    ultimately have "64 * k mod 512 + 4 \<le> 512" by simp
    then have "(64 * k + j) div 512 = 64 * k div 512" using in_block(1) [of "64 * k" 4 "64 * k + j"] that by simp
    then show ?thesis using k(3) by (simp add: fbyte_def)
  qed
  from this [of 0] this [of 1] this [of 2] this [of 3] have "wd (slot_bytes s sv k) 0 = 0"
    by (simp add: wd_def slot_bytes_def numeral_2_eq_2)
  then show False using k(1,2) by (simp add: slots_def)
qed

lemma unlink_slot:
  assumes ok: "dir_ok s M sv" and k: "k < nslots s sv" "slots s sv ! k = (ino, name)" "ino \<noteq> 0"
  shows "\<exists>s' M'. sfs_dir_unlink sv (int k) s = Ok (0, s') \<and> dir_ok s' M' sv \<and> framed s M sv s' M' \<and> dmap s' sv = (dmap s sv)(name := None)"
proof -
  note D = dir_okD [OF ok]
  let ?sd = "b_sd (s_bufs s)"
  let ?m = "st32 ?sd 0 (bzero ?sd sizeof_direntry (s_mem s))"
  have S: "searched s M s" using D(1) by (simp add: searched_def)
  have en: "entry_in ?sd ?m = (0, [])" using entry_free by (simp add: sizeof_direntry_def)
  have kl: "k < length (slots s sv)" using k(1) D(8) by simp
  note U = used_free [OF D(5) kl k(2,3), of "[]"]
  have m: "\<not> unat (a - ?sd) < 64 \<Longrightarrow> ?m a = s_mem s a" for a using sd_area(2) [OF D(7)] by blast
  have b: "fmap s sv (64 * k div 512) \<noteq> 0" using used_slot_block [of s sv k] k by simp
  obtain s' M' where w: "sfs_writedir sv (int k) ?sd (s\<lparr>s_mem := ?m\<rparr>) = Ok (0, s')" "dir_ok s' M' sv" "framed s M sv s' M'"
      "slots s' sv = put_slot k (0, []) (slots s sv)"
    using dir_after [OF ok S refl m, of k] k(1) D(4) U(1) b unfolding en by auto
  have "sfs_dir_unlink sv (int k) s = Ok (0, s')" using w(1) by (simp add: sfs_dir_unlink_def Let_def SFS_NOINO_def)
  moreover have "dmap s' sv = (dmap s sv)(name := None)" unfolding dmap_def w(4) by (rule U(2))
  ultimately show ?thesis using w(2,3) by blast
qed

lemma searched_dir: "searched s M s' \<Longrightarrow> dir_ok s M sv \<Longrightarrow> dir_ok s' M sv \<and> dmap s' sv = dmap s sv"
  using searched_same [of s M s'] by (simp add: dir_ok_def dmap_def) (simp add: searched_def same_env_def)

lemma searched_framed: "searched s M s' \<Longrightarrow> framed s M sv s' M"
  using searched_same(6) [of s M s' sv] by (simp add: searched_def framed_def)

lemma framed_trans:
  assumes "framed s M sv s1 M1" "framed s1 M1 sv s2 M2"
  shows "framed s M sv s2 M2"
proof -
  have "blk s2 c = blk s c" if "unat c \<in> M" "c \<notin> fblocks s sv" for c
    using assms that unfolding framed_def by (metis subsetD)
  moreover have "c \<in> fblocks s sv \<or> unat c \<notin> M" if "c \<in> fblocks s2 sv" for c
    using assms that unfolding framed_def by (metis subsetD)
  ultimately show ?thesis using assms same_env_trans unfolding framed_def by auto
qed

section \<open>An example\<close>

text \<open>A directory of one entry on the volume of \<open>SFS_File\<close>: the bytes of its block are 0, 1, 2 and so on.\<close>

definition ex_dir :: sfs_vnode where
  "ex_dir = ex_file\<lparr>sv_i := (sv_i ex_file)\<lparr>sfi_size := 64, sfi_type := SFS_TYPE_DIR\<rparr>, sv_ino := SFS_ROOTDIR_INO\<rparr>"

definition ex_dir_sfs :: sfs_fs where
  "ex_dir_sfs = ex_sfs\<lparr>svs := (\<lambda>p. ex_dir)\<rparr>"

lemma ex_dir_fmap: "indirect ex_dir_sfs sv = 0" "fmap ex_dir_sfs sv k = (if k = 0 then 3 else 0)"
proof -
  show i: "indirect ex_dir_sfs sv = 0" by (simp add: indirect_def ex_dir_sfs_def ex_dir_def ex_file_def)
  show "fmap ex_dir_sfs sv k = (if k = 0 then 3 else 0)"
    unfolding fmap_def i by (simp add: ex_dir_sfs_def ex_dir_def ex_file_def nth_Cons')
qed

lemma ex_dir_env: "same_env ex_sfs ex_dir_sfs" "sfs_ok ex_dir_sfs ex_used"
proof -
  show e: "same_env ex_sfs ex_dir_sfs" by (simp add: same_env_def ex_dir_sfs_def)
  show "sfs_ok ex_dir_sfs ex_used" by (rule sfs_ok_kept [OF ex_sfs_ok e]) (simp_all add: ex_dir_sfs_def mem_kept_def)
qed

definition ex_name :: "byte list" where
  "ex_name = map (\<lambda>j. of_nat (4 + j)) [0..<59]"

lemma ex_ubuf_at:
  assumes "0x80036000 \<le> unat a" "unat a + n \<le> 0xb0000000"
  shows "ubuf ex_sfs a n"
proof -
  have u: "unat (a + of_nat j) = unat a + j" if "j < n" for j using assms that by (intro unat_plus_nat) simp
  show ?thesis
    unfolding ubuf_def scratch_def in_buf_def below_buf_def using assms u
    by (simp add: ex_sfs_def ex_bufs_def ex_lhd_def area_iff)
qed

lemma ex_dir_slots: "nslots ex_dir_sfs sv = 1" "fsize ex_dir_sfs sv = 64" "slots ex_dir_sfs sv = [(0x00010203, ex_name)]"
proof -
  show z: "fsize ex_dir_sfs sv = 64" by (simp add: fsize_def ex_dir_sfs_def ex_dir_def)
  then show n: "nslots ex_dir_sfs sv = 1" by (simp add: nslots_def)
  have b: "slot_bytes ex_dir_sfs sv 0 j = of_nat j" if "j < 64" for j
    using that by (simp add: slot_bytes_def fbyte_def ex_dir_fmap blk_def) (simp add: ex_dir_sfs_def ex_sfs_def ex_lhd_def)
  have "wd (slot_bytes ex_dir_sfs sv 0) 0 = 0x00010203" using b by (simp add: wd_def)
  moreover have "name_of (slot_bytes ex_dir_sfs sv 0) = ex_name"
  proof -
    have "map (\<lambda>j. slot_bytes ex_dir_sfs sv 0 (4 + j)) [0..<59] = ex_name"
      unfolding ex_name_def
    proof (rule map_cong [OF refl])
      fix j :: nat
      assume "j \<in> set [0..<59]"
      then have "4 + j < 64" by simp
      then show "slot_bytes ex_dir_sfs sv 0 (4 + j) = of_nat (4 + j)" by (rule b)
    qed
    moreover have "0 \<notin> set ex_name" by (simp add: ex_name_def upt_rec)
    ultimately show ?thesis unfolding name_of_def by (simp add: takeWhile_eq_all_conv) metis
  qed
  ultimately show "slots ex_dir_sfs sv = [(0x00010203, ex_name)]" by (simp add: slots_def n)
qed

lemma ex_dir_ok: "dir_ok ex_dir_sfs ex_used sv"
proof -
  have "file_ok ex_dir_sfs ex_used sv"
    unfolding file_ok_def ex_dir_fmap in_use_def by (simp add: ex_dir_sfs_def ex_dir_def ex_file_def ex_sfs_def ex_used_def)
  moreover have "ubuf ex_dir_sfs 0x80036000 64" "ubuf ex_dir_sfs 0x80036100 64"
    using ex_ubuf_at [of "0x80036000" 64] ex_ubuf_at [of "0x80036100" 64] ubuf_env [OF ex_dir_env(1)] by simp_all
  ultimately show ?thesis
    using ex_dir_env(2) by (simp add: dir_ok_def ex_dir_slots used_slots_def) (simp add: ex_dir_sfs_def ex_sfs_def ex_bufs_def ex_dir_def)
qed

text \<open>
  (C18) Making a link: \<open>sfs_dir_link\<close> on a well-formed directory refuses a name that exists and a name
  that is too long, without changing the directory; otherwise the directory is afterwards the map with
  the new entry, well-formed again, and the search finds the inode under its name. Files that share
  no block with the directory keep their inodes and bytes.
\<close>

theorem sfs_dir_link_adds:
  assumes "dir_ok s M sv" "spare s M sv 1" "nslots s sv < 1144" "0 \<notin> set name" "ino \<noteq> 0"
  defines "r \<equiv> if dmap s sv name \<noteq> None then EEXIST else if 60 \<le> length name then ENAMETOOLONG else 0"
  shows "\<exists>k s' M'. sfs_dir_link sv name ino s = Ok (r, k, s') \<and> dir_ok s' M' sv
    \<and> dmap s' sv = (if r = 0 then (dmap s sv)(name \<mapsto> ino) else dmap s sv)
    \<and> (\<forall>p. apart s M sv p \<longrightarrow> svs s' p = svs s p \<and> (\<forall>i < 143 * 512. fbyte s' p i = fbyte s p i))
    \<and> (r = 0 \<longrightarrow> (\<exists>d s2. sfs_dir_findname sv name s' = Ok (0, d, s2) \<and> ds_ino d = ino))"
proof -
  have e: "EEXIST \<noteq> 0" "ENAMETOOLONG \<noteq> 0" "ENOENT \<noteq> 0" by (simp_all add: EEXIST_def ENAMETOOLONG_def ENOENT_def)
  show ?thesis
  proof (cases "dmap s sv name = None \<and> length name < 60")
    case True
    then obtain k s' M' where l: "sfs_dir_link sv name ino s = Ok (0, int k, s')" "dir_ok s' M' sv" "framed s M sv s' M'"
        "dmap s' sv = (dmap s sv)(name \<mapsto> ino)"
      using link_new [OF assms(1-3) _ _ assms(4,5)] by blast
    obtain d s2 where "sfs_dir_findname sv name s' = Ok (0, d, s2)" "ds_ino d = ino"
      using findname_ok [OF l(2), of name] l(4) by auto
    moreover have "r = 0" using True by (simp add: r_def)
    ultimately show ?thesis using l framed_other [OF l(3)] by auto
  next
    case False
    obtain d s' where f: "sfs_dir_findname sv name s = Ok (if dmap s sv name = None then ENOENT else 0, d, s')" "searched s M s'"
      using findname_ok [OF assms(1)] by blast
    have "sfs_dir_link sv name ino s = Ok (r, 0, s')" "r \<noteq> 0"
      using f(1) False e by (auto simp: sfs_dir_link_def r_def SFS_NAMELEN_def)
    then show ?thesis using searched_dir [OF f(2) assms(1)] framed_other [OF searched_framed [OF f(2)]] by auto
  qed
qed

theorem sfs_dir_link_adds_witness:
  "\<exists>k s' d s2. sfs_dir_link 0x80009000 [97] 5 ex_dir_sfs = Ok (0, k, s') \<and> sfs_dir_findname 0x80009000 [97] s' = Ok (0, d, s2) \<and> ds_ino d = 5"
proof -
  have "dmap ex_dir_sfs 0x80009000 [97] = None" by (simp add: dmap_def ex_dir_slots used_slots_def ex_name_def upt_rec)
  moreover have "spare ex_dir_sfs ex_used 0x80009000 1"
    using ex_spare [of 1 "0x80009000"] by (simp add: spare_def nfree_def ex_dir_fmap ex_fmap) (simp add: ex_dir_sfs_def)
  ultimately show ?thesis
    using sfs_dir_link_adds [OF ex_dir_ok, of "0x80009000" "[97]" 5] by (auto simp: ex_dir_slots)
qed

text \<open>
  (C19) Removing a link: for a name that the directory has, the search succeeds with its inode number and
  slot, and unlinking this slot makes the directory the map without the name, so that the next search
  reports \<open>ENOENT\<close>; this needs no free block.
\<close>

theorem sfs_dir_unlink_removes:
  assumes "dir_ok s M sv" "dmap s sv name = Some ino"
  shows "\<exists>d s1 s2 M'. sfs_dir_findname sv name s = Ok (0, d, s1) \<and> ds_ino d = ino
    \<and> sfs_dir_unlink sv (ds_slot d) s1 = Ok (0, s2) \<and> dir_ok s2 M' sv \<and> dmap s2 sv = (dmap s sv)(name := None)
    \<and> (\<exists>d' s3. sfs_dir_findname sv name s2 = Ok (ENOENT, d', s3))
    \<and> (\<forall>p. apart s M sv p \<longrightarrow> svs s2 p = svs s p \<and> (\<forall>i < 143 * 512. fbyte s2 p i = fbyte s p i))"
proof -
  obtain d s1 k where f: "sfs_dir_findname sv name s = Ok (0, d, s1)" "searched s M s1" "ds_ino d = ino"
      "k < nslots s sv" "ds_slot d = int k" "slots s sv ! k = (ino, name)"
    using findname_ok [OF assms(1), of name] assms(2) by auto
  note S = searched_dir [OF f(2) assms(1)] searched_same(4,5) [OF f(2), of sv]
  have "(name, ino) \<in> set (used_slots (slots s sv))" using assms(2) by (auto simp: dmap_def dest: map_of_SomeD)
  then have "ino \<noteq> 0" by (auto simp: used_slots_def)
  then obtain s2 M' where u: "sfs_dir_unlink sv (int k) s1 = Ok (0, s2)" "dir_ok s2 M' sv" "framed s1 M sv s2 M'" "dmap s2 sv = (dmap s1 sv)(name := None)"
    using unlink_slot [of s1 M sv k ino name] S f(4,6) by auto
  have "\<exists>d' s3. sfs_dir_findname sv name s2 = Ok (ENOENT, d', s3)" using findname_ok [OF u(2), of name] u(4) by auto
  moreover have "framed s M sv s2 M'" using framed_trans [OF searched_framed [OF f(2)] u(3)] .
  ultimately show ?thesis using f u S framed_other [of s M sv s2 M'] by auto
qed

theorem sfs_dir_unlink_removes_witness:
  "\<exists>d s1 s2. sfs_dir_findname 0x80009000 ex_name ex_dir_sfs = Ok (0, d, s1) \<and> ds_ino d = 0x00010203
     \<and> sfs_dir_unlink 0x80009000 (ds_slot d) s1 = Ok (0, s2) \<and> dmap s2 0x80009000 ex_name = None"
proof -
  have "dmap ex_dir_sfs 0x80009000 ex_name = Some 0x00010203" by (simp add: dmap_def ex_dir_slots used_slots_def)
  from sfs_dir_unlink_removes [OF ex_dir_ok this] show ?thesis by auto
qed

end
