(* ===== verification/SFS_Inode.thy ===== *)
theory SFS_Inode
  imports SFS_Dir_Spec
begin

text \<open>
  Inodes of SFS on the disk and in memory: what \<open>sfs_sync_inode\<close> writes, \<open>sfs_loadvnode\<close> reads back.
\<close>

unbundle bit_operations_syntax

section \<open>The layout of an inode\<close>

lemma ld32_bytes:
  assumes "\<And>j. j < 4 \<Longrightarrow> m (a + of_nat j) = bytes32 w ! j"
  shows "ld32 a m = w"
  using assms [of 0] assms [of 1] assms [of 2] assms [of 3] word_bytes [of w]
  by (simp add: ld32_def bytes32_def numeral_2_eq_2 numeral_3_eq_3)

lemma word16_bytes: "push_bit 8 (ucast (ucast (drop_bit 8 w) :: byte)) OR ucast (ucast w :: byte) = (w :: 16 word)"
  by (rule bit_word_eqI) (auto simp: bit_simps)

lemma ld16_bytes:
  assumes "\<And>j. j < 2 \<Longrightarrow> m (a + of_nat j) = bytes16 w ! j"
  shows "ld16 a m = w"
  using assms [of 0] assms [of 1] word16_bytes [of w] by (simp add: ld16_def bytes16_def)

lemma nth_concat32: "i < length ws \<Longrightarrow> j < 4 \<Longrightarrow> concat (map bytes32 ws) ! (4 * i + j) = bytes32 (ws ! i) ! j"
proof (induction ws arbitrary: i)
  case (Cons w ws)
  have l: "length (bytes32 w) = 4" by (simp add: bytes32_def)
  show ?case
  proof (cases i)
    case 0
    then show ?thesis using Cons.prems l by (simp add: nth_append)
  next
    case (Suc i')
    then show ?thesis using Cons l by (simp add: nth_append)
  qed
qed simp

lemma length_concat32: "length (concat (map bytes32 ws)) = 4 * length ws"
  by (induction ws) (simp_all add: bytes32_def)

lemma encode_length: "length (sfi_direct d) = 15 \<Longrightarrow> length (encode_dinode d) = 72"
  by (simp add: encode_dinode_def length_concat32) (simp add: bytes32_def bytes16_def)

lemma decode_encode:
  assumes "length (sfi_direct d) = 15" "\<And>j. j < 72 \<Longrightarrow> m (a + of_nat j) = encode_dinode d ! j"
  shows "decode_dinode a m = d"
proof -
  have L: "length (bytes32 w) = 4" "length (bytes16 h) = 2" for w h by (simp_all add: bytes32_def bytes16_def)
  let ?D = "concat (map bytes32 (sfi_direct d))"
  have lD: "length ?D = 60" using assms(1) by (simp add: length_concat32)
  have E: "encode_dinode d ! j = (if j < 4 then bytes32 (sfi_size d) ! j else if j < 6 then bytes16 (sfi_type d) ! (j - 4)
      else if j < 8 then bytes16 (sfi_linkcount d) ! (j - 6) else if j < 68 then ?D ! (j - 8) else bytes32 (sfi_indirect d) ! (j - 68))" for j
    by (cases "j < 4"; cases "j < 6"; cases "j < 8"; cases "j < 68") (simp_all add: encode_dinode_def nth_append L lD less_diff_conv2 not_less)
  have at: "m (a + of_nat k + of_nat j) = encode_dinode d ! (k + j)" if "k + j < 72" for k j
    using assms(2) [OF that] by (simp add: add.assoc)
  have "ld32 a m = sfi_size d" by (rule ld32_bytes) (use at [of 0] E in auto)
  moreover have "ld16 (a + 4) m = sfi_type d" by (rule ld16_bytes) (use at [of 4] E in auto)
  moreover have "ld16 (a + 6) m = sfi_linkcount d" by (rule ld16_bytes) (use at [of 6] E in auto)
  moreover have "ld32 (a + 68) m = sfi_indirect d" by (rule ld32_bytes) (use at [of 68] E in auto)
  moreover have "map (\<lambda>i. ld32 (a + 8 + of_nat (4 * i)) m) [0..<15] = sfi_direct d"
  proof (rule nth_equalityI)
    fix i
    assume "i < length (map (\<lambda>i. ld32 (a + 8 + of_nat (4 * i)) m) [0..<15])"
    then have i: "i < 15" by simp
    have "ld32 (a + 8 + of_nat (4 * i)) m = sfi_direct d ! i"
    proof (rule ld32_bytes)
      fix j :: nat
      assume j: "j < 4"
      have "m (a + of_nat (8 + 4 * i) + of_nat j) = encode_dinode d ! (8 + 4 * i + j)" using i j by (intro at) simp
      also have "\<dots> = bytes32 (sfi_direct d ! i) ! j" using i j E [of "8 + 4 * i + j"] nth_concat32 [of i "sfi_direct d" j] assms(1) by simp
      finally show "m (a + 8 + of_nat (4 * i) + of_nat j) = bytes32 (sfi_direct d ! i) ! j" by (simp add: add.assoc)
    qed
    then show "map (\<lambda>i. ld32 (a + 8 + of_nat (4 * i)) m) [0..<15] ! i = sfi_direct d ! i" using i by (simp del: of_nat_mult)
  qed (simp add: assms(1))
  ultimately show ?thesis by (simp add: decode_dinode_def SFS_NDIRECT_def del: of_nat_mult)
qed

section \<open>Writing an inode back\<close>

definition saved :: "sfs_fs \<Rightarrow> daddr \<Rightarrow> sfs_dinode \<Rightarrow> bool" where
  "saved s ino d \<longleftrightarrow> (\<forall>j < 72. blk s ino j = encode_dinode d ! j)"

lemma sync_inode_ok:
  assumes ok: "sfs_ok s M" and i: "in_use s M (sv_ino (svs s sv))" and u: "ubuf s (sv_i_addr sv) 512"
    and l: "length (sfi_direct (sv_i (svs s sv))) = 15" and d: "\<not> sv_dirty (svs s sv) \<Longrightarrow> saved s (sv_ino (svs s sv)) (sv_i (svs s sv))"
  shows "\<exists>s'. sfs_sync_inode sv s = Ok (0, s') \<and> sfs_ok s' M \<and> same_env s s' \<and> svs s' = (svs s)(sv := (svs s sv)\<lparr>sv_dirty := False\<rparr>)
    \<and> saved s' (sv_ino (svs s sv)) (sv_i (svs s sv)) \<and> (\<forall>c. c \<noteq> sv_ino (svs s sv) \<longrightarrow> blk s' c = blk s c)"
proof (cases "sv_dirty (svs s sv)")
  case False
  then have "svs s = (svs s)(sv := (svs s sv)\<lparr>sv_dirty := False\<rparr>)" by (auto simp: fun_eq_iff)
  then show ?thesis using False ok d by (auto simp: sfs_sync_inode_def)
next
  case True
  let ?e = "encode_dinode (sv_i (svs s sv))" and ?a = "sv_i_addr sv" and ?ino = "sv_ino (svs s sv)"
  let ?s = "s\<lparr>s_mem := put_bytes ?a ?e (s_mem s)\<rparr>"
  have le: "length ?e = 72" by (rule encode_length) (rule l)
  have env: "same_env s ?s" by (simp add: same_env_def)
  have ok': "sfs_ok ?s M"
  proof (rule sfs_ok_env [OF ok env])
    fix a
    assume "unat (a - b_zeros (s_bufs s)) < 512 \<or> unat (a - b_zeros16 (s_bufs s)) < 16"
    then have "\<not> unat (a - ?a) < 512" using ubuf_area [OF u] by blast
    then show "s_mem ?s a = s_mem s a" by (simp add: put_bytes_def le)
  qed simp
  have b: "unat ?ino < unat (sb_nblocks ?s)" "below_buf (sfs_device ?s) ?a 512" using i u by (simp_all add: in_use_def ubuf_def)
  obtain s1 where w: "sfs_writeblock ?ino ?a SFS_BLOCKSIZE ?s = Ok (0, s1)" "sfs_ok s1 M" "same_env ?s s1" "svs s1 = svs s"
      "\<forall>k < 512. blk s1 ?ino k = s_mem ?s (?a + of_nat k)" "\<forall>c. c \<noteq> ?ino \<longrightarrow> blk s1 c = blk ?s c"
    using writeblock_env [OF ok' b] by auto
  let ?f = "\<lambda>v. v\<lparr>sv_dirty := False\<rparr>"
  have "sfs_sync_inode sv s = Ok (0, upd_sv sv ?f s1)" using True w(1) by (simp add: sfs_sync_inode_def)
  moreover have e2: "same_env s1 (upd_sv sv ?f s1)" by (simp add: same_env_def upd_sv_def)
  moreover have "sfs_ok (upd_sv sv ?f s1) M" by (rule sfs_ok_kept [OF w(2) e2]) (simp_all add: upd_sv_def mem_kept_def)
  moreover have "same_env s (upd_sv sv ?f s1)" by (rule same_env_trans [OF same_env_trans [OF env w(3)] e2])
  moreover have "saved (upd_sv sv ?f s1) ?ino (sv_i (svs s sv))"
  proof -
    have "blk s1 ?ino j = ?e ! j" if "j < 72" for j
      using w(5) that le by (simp add: put_bytes_def unat_of_nat_32)
    then show ?thesis by (simp add: saved_def blk_def upd_sv_def)
  qed
  moreover have "\<forall>c. c \<noteq> ?ino \<longrightarrow> blk (upd_sv sv ?f s1) c = blk s c" using w(6) by (simp add: blk_def upd_sv_def)
  moreover have "svs (upd_sv sv ?f s1) = (svs s)(sv := (svs s sv)\<lparr>sv_dirty := False\<rparr>)" using w(4) by (simp add: upd_sv_def)
  ultimately show ?thesis by blast
qed

section \<open>Reading an inode\<close>

text \<open>The table of vnodes holds one vnode for each inode, and their inodes are in use.\<close>

definition table_ok :: "sfs_fs \<Rightarrow> nat set \<Rightarrow> bool" where
  "table_ok s M \<longleftrightarrow> distinct (map (\<lambda>p. sv_ino (svs s p)) (sfs_vnodes s)) \<and> (\<forall>p \<in> set (sfs_vnodes s). in_use s M (sv_ino (svs s p)))"

lemma find_vnode_ok:
  assumes "sfs_ok s M" "\<forall>p \<in> set l. in_use s M (sv_ino (svs s p))"
  shows "find_vnode ino s l = Ok (find (\<lambda>p. sv_ino (svs s p) = ino) l)"
  using assms(2)
proof (induction l)
  case (Cons p l)
  then obtain r where "sfs_bused (sv_ino (svs s p)) s = Ok r" "r \<noteq> 0" using bused_ok [OF assms(1)] by (auto simp: in_use_def)
  then show ?case using Cons by simp
qed simp

lemma load_inode_ok:
  assumes ok: "sfs_ok s M" and i: "in_use s M ino" "saved s ino d" and l: "length (sfi_direct d) = 15"
    and f: "ty \<noteq> SFS_TYPE_INVAL \<Longrightarrow> sfi_type d = SFS_TYPE_INVAL"
    and d': "d' = (if ty = SFS_TYPE_INVAL then d else d\<lparr>sfi_type := ty\<rparr>)" "sfi_type d' \<in> {SFS_TYPE_FILE, SFS_TYPE_DIR}"
    and n: "new \<noteq> NULL" "ubuf s (sv_i_addr new) 512"
  shows "\<exists>s'. load_inode ino ty new True s = Ok (0, new, s') \<and> sfs_ok s' M \<and> blk s' = blk s
    \<and> svs s' = (svs s)(new := \<lparr>sv_i = d', sv_ino = ino, sv_dirty = (ty \<noteq> SFS_TYPE_INVAL), vn_refcount = 1\<rparr>)
    \<and> same_env (s\<lparr>sfs_vnodes := sfs_vnodes s @ [new]\<rparr>) s'"
proof -
  let ?a = "sv_i_addr new"
  obtain r where r: "sfs_bused ino s = Ok r" "r \<noteq> 0" using bused_ok [OF ok] i(1) by (auto simp: in_use_def)
  have b: "unat ino < unat (sb_nblocks s)" "below_buf (sfs_device s) ?a 512" using i(1) n(2) by (simp_all add: in_use_def ubuf_def)
  obtain dev m where R: "sfs_readblock ino ?a SFS_BLOCKSIZE s = Ok (0, s\<lparr>sfs_device := dev, s_mem := m\<rparr>)"
      "same_dev (sfs_device s) dev" "lh_disk dev = lh_disk (sfs_device s)" "\<forall>k < 512. m (?a + of_nat k) = blk s ino k"
      "\<forall>a. \<not> in_buf (sfs_device s) a \<longrightarrow> \<not> unat (a - ?a) < 512 \<longrightarrow> m a = s_mem s a"
    using readblock_ok [OF ok ok b] by auto
  have dec: "decode_dinode ?a m = d"
    by (rule decode_encode [OF l]) (use R(4) i(2) in \<open>simp add: saved_def\<close>)
  let ?s = "s\<lparr>sfs_device := dev, s_mem := m,
      svs := (svs s)(new := \<lparr>sv_i = d', sv_ino = ino, sv_dirty = (ty \<noteq> SFS_TYPE_INVAL), vn_refcount = 1\<rparr>), sfs_vnodes := sfs_vnodes s @ [new]\<rparr>"
  have "(if ty \<noteq> SFS_TYPE_INVAL then d\<lparr>sfi_type := ty\<rparr> else d) = d'" using d'(1) by simp
  then have "load_inode ino ty new True s = Ok (0, new, ?s)"
    using r R(1) n(1) f d'(2) dec by (auto simp: load_inode_def upd_sv_def Let_def)
  moreover have "sfs_ok (s\<lparr>sfs_device := dev, s_mem := m\<rparr>) M"
  proof (rule sfs_ok_env [OF ok])
    show "same_env s (s\<lparr>sfs_device := dev, s_mem := m\<rparr>)" using R(2) by (simp add: same_env_def)
    fix a
    assume "\<not> scratch s a" "unat (a - b_zeros (s_bufs s)) < 512 \<or> unat (a - b_zeros16 (s_bufs s)) < 16"
    then have "\<not> in_buf (sfs_device s) a" "\<not> unat (a - ?a) < 512" using ubuf_area [OF n(2)] by (auto simp: scratch_def)
    then show "s_mem (s\<lparr>sfs_device := dev, s_mem := m\<rparr>) a = s_mem s a" using R(5) by simp
  qed simp
  then have "sfs_ok ?s M" by (auto simp: sfs_ok_def bufs_ok_def scratch_def vfs_biglock_do_i_hold_def)
  moreover have "blk ?s = blk s" using R(3) by (simp add: blk_def fun_eq_iff)
  moreover have "same_env (s\<lparr>sfs_vnodes := sfs_vnodes s @ [new]\<rparr>) ?s" using R(2) by (simp add: same_env_def)
  ultimately show ?thesis by auto
qed

section \<open>Giving up a vnode\<close>

lemma locked_env: "sfs_ok s M \<Longrightarrow> sfs_ok (vfs_biglock_acquire s) M"
  by (auto simp: sfs_ok_def vfs_biglock_acquire_def vfs_biglock_do_i_hold_def bufs_ok_def scratch_def)

text \<open>The last reference to a vnode whose file has links: the inode is written and the vnode leaves the table.\<close>

lemma reclaim_ok:
  assumes ok: "sfs_ok s M" and T: "sv \<in> set (sfs_vnodes s)" "table_ok s M" and u: "ubuf s (sv_i_addr sv) 512"
    and l: "length (sfi_direct (sv_i (svs s sv))) = 15" and d: "\<not> sv_dirty (svs s sv) \<Longrightarrow> saved s (sv_ino (svs s sv)) (sv_i (svs s sv))"
    and r: "vn_refcount (svs s sv) = 1" "sfi_linkcount (sv_i (svs s sv)) \<noteq> 0"
  shows "\<exists>s'. sfs_reclaim sv s = Ok (0, s') \<and> sfs_ok s' M \<and> same_env (s\<lparr>sfs_vnodes := remove1 sv (sfs_vnodes s)\<rparr>) s'
    \<and> svs s' = (svs s)(sv := (svs s sv)\<lparr>sv_dirty := False, vn_refcount := 0\<rparr>)
    \<and> saved s' (sv_ino (svs s sv)) (sv_i (svs s sv)) \<and> (\<forall>c. c \<noteq> sv_ino (svs s sv) \<longrightarrow> blk s' c = blk s c)"
proof -
  let ?s = "vfs_biglock_acquire s"
  have e: "svs ?s = svs s" "blk ?s = blk s" "sb_nblocks ?s = sb_nblocks s" "sfs_vnodes ?s = sfs_vnodes s"
    by (simp_all add: vfs_biglock_acquire_def blk_def fun_eq_iff)
  have "in_use ?s M (sv_ino (svs ?s sv))" using T by (simp add: table_ok_def in_use_def e)
  moreover have "ubuf ?s (sv_i_addr sv) 512" using u by (simp add: ubuf_def vfs_biglock_acquire_def scratch_def)
  moreover have "\<not> sv_dirty (svs ?s sv) \<Longrightarrow> saved ?s (sv_ino (svs ?s sv)) (sv_i (svs ?s sv))" using d by (simp add: saved_def e)
  ultimately obtain s1 where s1: "sfs_sync_inode sv ?s = Ok (0, s1)" "sfs_ok s1 M" "same_env ?s s1"
      "svs s1 = (svs s)(sv := (svs s sv)\<lparr>sv_dirty := False\<rparr>)" "saved s1 (sv_ino (svs s sv)) (sv_i (svs s sv))"
      "\<forall>c. c \<noteq> sv_ino (svs s sv) \<longrightarrow> blk s1 c = blk s c"
    using sync_inode_ok [OF locked_env [OF ok], of sv] l by (auto simp: e)
  have v: "sfs_vnodes s1 = sfs_vnodes s" "vfs_biglock_depth s1 = Suc (vfs_biglock_depth s)"
    using s1(3) by (simp_all add: same_env_def vfs_biglock_acquire_def)
  let ?s' = "s1\<lparr>sfs_vnodes := remove1 sv (sfs_vnodes s), svs := (svs s)(sv := (svs s sv)\<lparr>sv_dirty := False, vn_refcount := 0\<rparr>),
    vfs_biglock_depth := vfs_biglock_depth s\<rparr>"
  have "sfs_reclaim sv s = Ok (0, ?s')"
    using r T(1) s1(1) by (simp add: sfs_reclaim_def e reclaim_discard_def s1(4) v vfs_biglock_release_def vfs_biglock_do_i_hold_def upd_sv_def)
  moreover have "sfs_ok ?s' M"
    using s1(2) ok by (auto simp: sfs_ok_def vfs_biglock_do_i_hold_def bufs_ok_def scratch_def)
  moreover have "same_env (s\<lparr>sfs_vnodes := remove1 sv (sfs_vnodes s)\<rparr>) ?s'"
    using s1(3) by (simp add: same_env_def vfs_biglock_acquire_def)
  ultimately show ?thesis using s1(5,6) by (auto simp: saved_def blk_def)
qed

text \<open>
  (C20) The table of vnodes is a cache: when the last reference to a file that has links is given up,
  \<open>sfs_reclaim\<close> writes the inode to its block if it changed and forgets the vnode, and loading the
  inode again, into whatever memory, gives the inode that was given up: size, type, link count and
  block map. No block but the one of the inode is written.
\<close>

theorem sfs_reclaim_load:
  assumes "sfs_ok s M" "table_ok s M" "sv \<in> set (sfs_vnodes s)" "vn_refcount (svs s sv) = 1" "sfi_linkcount (sv_i (svs s sv)) \<noteq> 0"
    and "length (sfi_direct (sv_i (svs s sv))) = 15" "sfi_type (sv_i (svs s sv)) \<in> {SFS_TYPE_FILE, SFS_TYPE_DIR}"
    and "\<not> sv_dirty (svs s sv) \<Longrightarrow> saved s (sv_ino (svs s sv)) (sv_i (svs s sv))"
    and "ubuf s (sv_i_addr sv) 512" "ubuf s (sv_i_addr new) 512" "new \<noteq> NULL" "new \<notin> set (remove1 sv (sfs_vnodes s))"
  defines "ino \<equiv> sv_ino (svs s sv)"
  shows "\<exists>s1 s2. sfs_reclaim sv s = Ok (0, s1) \<and> sfs_vnodes s1 = remove1 sv (sfs_vnodes s)
    \<and> sfs_loadvnode ino SFS_TYPE_INVAL new True s1 = Ok (0, new, s2) \<and> sfs_ok s2 M \<and> table_ok s2 M
    \<and> svs s2 new = \<lparr>sv_i = sv_i (svs s sv), sv_ino = ino, sv_dirty = False, vn_refcount = 1\<rparr>
    \<and> (\<forall>p \<in> set (sfs_vnodes s1). svs s2 p = svs s p) \<and> (\<forall>c. c \<noteq> ino \<longrightarrow> blk s2 c = blk s c)"
proof -
  obtain s1 where s1: "sfs_reclaim sv s = Ok (0, s1)" "sfs_ok s1 M" "same_env (s\<lparr>sfs_vnodes := remove1 sv (sfs_vnodes s)\<rparr>) s1"
      "svs s1 = (svs s)(sv := (svs s sv)\<lparr>sv_dirty := False, vn_refcount := 0\<rparr>)"
      "saved s1 ino (sv_i (svs s sv))" "\<forall>c. c \<noteq> ino \<longrightarrow> blk s1 c = blk s c"
    using reclaim_ok [OF assms(1,3,2,9,6) assms(8,4,5)] by (auto simp: ino_def)
  let ?l = "remove1 sv (sfs_vnodes s)"
  have l: "sfs_vnodes s1 = ?l" "sb_nblocks s1 = sb_nblocks s" using s1(3) by (simp_all add: same_env_def)
  have D: "distinct (map (\<lambda>p. sv_ino (svs s p)) (sfs_vnodes s))" "\<forall>p \<in> set (sfs_vnodes s). in_use s M (sv_ino (svs s p))"
    using assms(2) by (simp_all add: table_ok_def)
  have dl: "distinct (sfs_vnodes s)" using D(1) by (simp add: distinct_map)
  have other: "p \<noteq> sv \<and> p \<in> set (sfs_vnodes s)" if "p \<in> set ?l" for p using that dl by (simp add: set_remove1_eq)
  have sv1: "svs s1 p = svs s p" if "p \<in> set ?l" for p using s1(4) other [OF that] by simp
  have use: "in_use s1 M (sv_ino (svs s p))" if "p \<in> set (sfs_vnodes s)" for p using D(2) that l(2) by (simp add: in_use_def)
  have ne: "sv_ino (svs s p) \<noteq> ino" if "p \<in> set ?l" for p
    using other [OF that] D(1) assms(3) by (metis ino_def distinct_map inj_onD)
  have "find (\<lambda>p. sv_ino (svs s1 p) = ino) ?l = None" using ne sv1 by (simp add: find_None_iff)
  moreover have "find_vnode ino s1 ?l = Ok (find (\<lambda>p. sv_ino (svs s1 p) = ino) ?l)"
  proof (rule find_vnode_ok [OF s1(2)], rule)
    fix p
    assume p: "p \<in> set ?l"
    show "in_use s1 M (sv_ino (svs s1 p))" unfolding sv1 [OF p] by (rule use) (use other [OF p] in blast)
  qed
  ultimately have load: "sfs_loadvnode ino SFS_TYPE_INVAL new True s1 = load_inode ino SFS_TYPE_INVAL new True s1"
    by (simp add: sfs_loadvnode_def l)
  have "ubuf s1 (sv_i_addr new) 512"
    using assms(10) ubuf_env [OF s1(3), of "sv_i_addr new" 512] by (simp add: ubuf_def scratch_def)
  then obtain s2 where s2: "load_inode ino SFS_TYPE_INVAL new True s1 = Ok (0, new, s2)" "sfs_ok s2 M" "blk s2 = blk s1"
      "svs s2 = (svs s1)(new := \<lparr>sv_i = sv_i (svs s sv), sv_ino = ino, sv_dirty = False, vn_refcount = 1\<rparr>)" "sfs_vnodes s2 = ?l @ [new]"
      "sb_nblocks s2 = sb_nblocks s"
    using load_inode_ok [OF s1(2) _ s1(5) assms(6) _ _ assms(7,11), of SFS_TYPE_INVAL] use [OF assms(3)] l by (auto simp: ino_def same_env_def)
  have keep: "svs s2 p = svs s p" if "p \<in> set ?l" for p using s2(4) sv1 [OF that] that assms(12) by auto
  have e: "map (\<lambda>p. sv_ino (svs s2 p)) ?l = map (\<lambda>p. sv_ino (svs s p)) ?l" using keep by simp
  have new: "sv_ino (svs s2 new) = ino" using s2(4) by simp
  have "inj_on (\<lambda>p. sv_ino (svs s p)) (set ?l)" "distinct ?l"
    using D(1) dl by (auto simp: distinct_map set_remove1_eq intro: inj_on_subset)
  then have "distinct (map (\<lambda>p. sv_ino (svs s2 p)) (?l @ [new]))"
    unfolding map_append e using new ne by (fastforce simp: distinct_map)
  moreover have "in_use s2 M (sv_ino (svs s2 p))" if "p \<in> set (?l @ [new])" for p
  proof (cases "p = new")
    case True
    then show ?thesis using use [OF assms(3)] s2(4,6) l(2) by (simp add: in_use_def ino_def)
  next
    case False
    then have p: "p \<in> set ?l" using that by simp
    show ?thesis using use [OF other [OF p, THEN conjunct2]] s2(6) l(2) unfolding keep [OF p] by (simp add: in_use_def)
  qed
  ultimately have "table_ok s2 M" unfolding table_ok_def s2(5) by blast
  then show ?thesis using s1(1,6) l(1) s2(1-4) load keep by auto
qed

definition ex_inode_sfs :: sfs_fs where
  "ex_inode_sfs = ex_sfs\<lparr>svs := (\<lambda>p. ex_file\<lparr>sv_dirty := True, vn_refcount := 1\<rparr>), sfs_vnodes := [0x80040000]\<rparr>"

theorem sfs_reclaim_load_witness:
  "\<exists>s1 s2. sfs_reclaim 0x80040000 ex_inode_sfs = Ok (0, s1) \<and> sfs_loadvnode 2 SFS_TYPE_INVAL 0x80050000 True s1 = Ok (0, 0x80050000, s2)
    \<and> sv_i (svs s2 0x80050000) = sv_i ex_file"
proof -
  have ok: "sfs_ok ex_inode_sfs ex_used"
    using ex_sfs_ok by (auto simp: sfs_ok_def ex_inode_sfs_def bufs_ok_def scratch_def vfs_biglock_do_i_hold_def)
  have T: "table_ok ex_inode_sfs ex_used"
    by (simp add: table_ok_def ex_inode_sfs_def in_use_def ex_file_def ex_sfs_def ex_used_def)
  have u: "ubuf ex_inode_sfs (sv_i_addr 0x80040000) 512" "ubuf ex_inode_sfs (sv_i_addr 0x80050000) 512"
    using ex_ubuf_at [of "0x80040018" 512] ex_ubuf_at [of "0x80050018" 512]
    by (simp_all add: ubuf_def scratch_def sv_i_addr_def ex_inode_sfs_def)
  have v: "sfs_vnodes ex_inode_sfs = [0x80040000]" "svs ex_inode_sfs 0x80040000 = ex_file\<lparr>sv_dirty := True\<rparr>"
    by (simp_all add: ex_inode_sfs_def ex_file_def)
  have f: "sv_ino ex_file = 2" "vn_refcount ex_file = 1" "sfi_linkcount (sv_i ex_file) = 1" "length (sfi_direct (sv_i ex_file)) = 15"
      "sfi_type (sv_i ex_file) = SFS_TYPE_FILE"
    by (simp_all add: ex_file_def)
  show ?thesis using sfs_reclaim_load [OF ok T, of "0x80040000" "0x80050000"] u by (auto simp: v f)
qed

end
