(* ===== verification/SFS_Volume.thy ===== *)
theory SFS_Volume
  imports SFS_Vnops
begin

text \<open>
  Volumes of SFS (\<^verbatim>\<open>fs/sfs/sfs_fsops.c\<close>): the free block bitmap and the superblock on the disk, sync,
  mount and unmount. Memory for the volume and its bitmap comes from the heap: the address, or
  the null pointer, is an argument. A volume that is not mounted has no bitmap, \<open>no_bitmap\<close>.
\<close>

unbundle bit_operations_syntax

definition ENXIO :: int where "ENXIO = 26"

definition SFS_SUPER_BLOCK :: daddr where "SFS_SUPER_BLOCK = 0"
definition SFS_FREEMAP_START :: daddr where "SFS_FREEMAP_START = 2"
definition SFS_VOLNAME_SIZE :: nat where "SFS_VOLNAME_SIZE = 32"

definition SFS_BITSPERBLOCK :: "32 word" where
  "SFS_BITSPERBLOCK = of_nat (SFS_BLOCKSIZE * 8)"

definition SFS_ROUNDUP :: "32 word \<Rightarrow> 32 word \<Rightarrow> 32 word" where
  "SFS_ROUNDUP a b = ((a + b - 1) div b) * b"

definition SFS_FREEMAPBITS :: "32 word \<Rightarrow> 32 word" where
  "SFS_FREEMAPBITS nblocks = SFS_ROUNDUP nblocks SFS_BITSPERBLOCK"

definition SFS_FREEMAPBLOCKS :: "32 word \<Rightarrow> 32 word" where
  "SFS_FREEMAPBLOCKS nblocks = SFS_FREEMAPBITS nblocks div SFS_BITSPERBLOCK"

section \<open>The free block bitmap\<close>

fun freemapio_loop :: "nat \<Rightarrow> 32 word \<Rightarrow> uio_rw \<Rightarrow> sfs_fs \<Rightarrow> (int \<times> sfs_fs) kres" where
  "freemapio_loop 0 j rw s = Ok (0, s)"
| "freemapio_loop (Suc n) j rw s =
     (let p = b_freemap (s_bufs s) + j * of_nat SFS_BLOCKSIZE
      in kbind (if rw = UIO_READ then sfs_readblock (SFS_FREEMAP_START + j) p SFS_BLOCKSIZE s
                else sfs_writeblock (SFS_FREEMAP_START + j) p SFS_BLOCKSIZE s) (\<lambda>(result, s).
           if result \<noteq> 0 then Ok (result, s) else freemapio_loop n (j + 1) rw s))"

text \<open>The bytes of the bitmap, a list in the model, are put in memory before the loop and read from it after.\<close>

definition sfs_freemapio :: "uio_rw \<Rightarrow> sfs_fs \<Rightarrow> (int \<times> sfs_fs) kres" where
  "sfs_freemapio rw s =
     (let freemapblocks = SFS_FREEMAPBLOCKS (sb_nblocks s);
          freemapdata = b_freemap (s_bufs s);
          v = bm_v (sfs_freemap s);
          s = s\<lparr>s_mem := put_bytes freemapdata v (s_mem s)\<rparr>
      in kbind (freemapio_loop (unat freemapblocks) 0 rw s) (\<lambda>(result, s).
           Ok (result, s\<lparr>sfs_freemap := (sfs_freemap s)\<lparr>bm_v := map (\<lambda>i. s_mem s (freemapdata + of_nat i)) [0..<length v]\<rparr>\<rparr>)))"

section \<open>Sync\<close>

definition sfs_sync_vnodes :: "sfs_fs \<Rightarrow> (int \<times> sfs_fs) kres" where
  "sfs_sync_vnodes s = kbind (kfold (\<lambda>v s. kbind (sfs_fsync v s) (\<lambda>(r, s). Ok s)) (sfs_vnodes s) s) (\<lambda>s. Ok (0, s))"

definition sfs_sync_freemap :: "sfs_fs \<Rightarrow> (int \<times> sfs_fs) kres" where
  "sfs_sync_freemap s =
     (if sfs_freemapdirty s
      then kbind (sfs_freemapio UIO_WRITE s) (\<lambda>(result, s).
             if result \<noteq> 0 then Ok (result, s) else Ok (0, s\<lparr>sfs_freemapdirty := False\<rparr>))
      else Ok (0, s))"

text \<open>The fields of \<open>sfs_sb\<close> other than \<open>sb_nblocks\<close> are what memory holds.\<close>

definition sfs_sync_superblock :: "sfs_fs \<Rightarrow> (int \<times> sfs_fs) kres" where
  "sfs_sync_superblock s =
     (if sfs_superdirty s
      then let sb = b_sb (s_bufs s); s = s\<lparr>s_mem := st32 (sb + 4) (sb_nblocks s) (s_mem s)\<rparr>
           in kbind (sfs_writeblock SFS_SUPER_BLOCK sb SFS_BLOCKSIZE s) (\<lambda>(result, s).
                if result \<noteq> 0 then Ok (result, s) else Ok (0, s\<lparr>sfs_superdirty := False\<rparr>))
      else Ok (0, s))"

definition sfs_sync :: "sfs_fs \<Rightarrow> (int \<times> sfs_fs) kres" where
  "sfs_sync s =
     kbind (sfs_sync_vnodes (vfs_biglock_acquire s)) (\<lambda>(result, s).
       if result \<noteq> 0 then unlocked result s
       else kbind (sfs_sync_freemap s) (\<lambda>(result, s).
         if result \<noteq> 0 then unlocked result s
         else kbind (sfs_sync_superblock s) (\<lambda>(result, s).
           if result \<noteq> 0 then unlocked result s else unlocked 0 s)))"

definition sfs_getvolname :: "sfs_fs \<Rightarrow> (vaddr \<times> sfs_fs) kres" where
  "sfs_getvolname s = unlocked (b_sb (s_bufs s) + 8) (vfs_biglock_acquire s)"

section \<open>Mount and unmount\<close>

definition no_bitmap :: bitmap where
  "no_bitmap = \<lparr>nbits = 0, bm_v = []\<rparr>"

text \<open>An array with elements must not be destroyed. The device is always taken off before.\<close>

definition sfs_fs_destroy :: "sfs_fs \<Rightarrow> sfs_fs kres" where
  "sfs_fs_destroy s = kassert (sfs_vnodes s = []) (Ok (s\<lparr>sfs_freemap := no_bitmap\<rparr>))"

definition sfs_unmount :: "sfs_fs \<Rightarrow> (int \<times> sfs_fs) kres" where
  "sfs_unmount s =
     (let s = vfs_biglock_acquire s
      in if length (sfs_vnodes s) > 0 then unlocked EBUSY s
         else kassert (sfs_superdirty s = False) (kassert (sfs_freemapdirty s = False)
                (kbind (sfs_fs_destroy s) (unlocked 0))))"

text \<open>
  \<open>sfs\<close> is the address of the new object, \<open>arr\<close> whether the array of vnodes could be made. The
  superblock lies behind the abstract file system.
\<close>

definition sfs_fs_create :: "ptr \<Rightarrow> bool \<Rightarrow> sfs_fs \<Rightarrow> ptr \<times> sfs_fs" where
  "sfs_fs_create sfs arr s =
     (if sfs = NULL then (NULL, s)
      else
        let s = s\<lparr>s_bufs := (s_bufs s)\<lparr>b_sb := sfs + 8\<rparr>, sfs_superdirty := False\<rparr>
        in if \<not> arr then (NULL, s)
           else (sfs, s\<lparr>sfs_vnodes := [], sfs_freemap := no_bitmap, sfs_freemapdirty := False\<rparr>))"

definition mount_fail :: "int \<Rightarrow> sfs_fs \<Rightarrow> (int \<times> sfs_fs) kres" where
  "mount_fail result s = kbind (sfs_fs_destroy s) (unlocked result)"

text \<open>\<open>bm\<close> says whether \<open>struct bitmap\<close> could be allocated, \<open>data\<close> is the address of the bits.\<close>

definition sfs_domount :: "ptr \<Rightarrow> bool \<Rightarrow> bool \<Rightarrow> vaddr \<Rightarrow> sfs_fs \<Rightarrow> (int \<times> sfs_fs) kres" where
  "sfs_domount sfs arr bm data s =
     (let s = vfs_biglock_acquire s
      in if d_blocksize (sfs_device s) \<noteq> of_nat SFS_BLOCKSIZE then unlocked ENXIO s
         else
           let (sfs, s) = sfs_fs_create sfs arr s
           in if sfs = NULL then unlocked ENOMEM s
              else
                let sb = b_sb (s_bufs s)
                in kbind (sfs_readblock SFS_SUPER_BLOCK sb SFS_BLOCKSIZE s) (\<lambda>(result, s).
                     if result \<noteq> 0 then mount_fail result s
                     else if ld32 sb (s_mem s) \<noteq> SFS_MAGIC then mount_fail EINVAL s
                     else
                       let s = s\<lparr>sb_nblocks := ld32 (sb + 4) (s_mem s),
                                s_mem := (s_mem s)(sb + 8 + of_nat (SFS_VOLNAME_SIZE - 1) := 0)\<rparr>
                       in kbind (bitmap_create bm (data \<noteq> NULL) (SFS_FREEMAPBITS (sb_nblocks s))) (\<lambda>b.
                            case b of
                              None \<Rightarrow> mount_fail ENOMEM s
                            | Some b \<Rightarrow>
                                kbind (sfs_freemapio UIO_READ
                                         (s\<lparr>sfs_freemap := b, s_bufs := (s_bufs s)\<lparr>b_freemap := data\<rparr>\<rparr>)) (\<lambda>(result, s).
                                  if result \<noteq> 0 then mount_fail result s else unlocked 0 s))))"

end
