(* ===== verification/SFS_Sync.thy ===== *)
theory SFS_Sync
  imports SFS_Inode SFS_Volume
begin

text \<open>
  Volumes of SFS over time: what \<open>sfs_sync\<close> puts on the disk is what the next \<open>sfs_domount\<close> finds there.
\<close>

unbundle bit_operations_syntax

section \<open>The size of the bitmap\<close>

definition fmb :: "32 word \<Rightarrow> nat" where
  "fmb n = (unat n + 4095) div 4096"

lemma freemap_size:
  assumes "unat n \<le> 2 ^ 23"
  shows "unat (SFS_FREEMAPBITS n) = 4096 * fmb n" "unat (SFS_FREEMAPBLOCKS n) = fmb n" "fmb n \<le> 2048"
proof -
  have "unat (n + 4095) = unat n + 4095" using assms unat_plus_nat [of n 4095] by simp
  then have d: "unat ((n + 4096 - 1) div 4096) = fmb n" by (simp add: unat_div fmb_def add_diff_eq [symmetric])
  have "unat n + 4095 < 2049 * 4096" using assms by simp
  then show b: "fmb n \<le> 2048" unfolding fmb_def by (simp add: less_mult_imp_div_less flip: less_Suc_eq_le)
  then show bits: "unat (SFS_FREEMAPBITS n) = 4096 * fmb n"
    using d by (simp add: SFS_FREEMAPBITS_def SFS_ROUNDUP_def SFS_BITSPERBLOCK_def SFS_BLOCKSIZE_def unat_word_ariths(2))
  show "unat (SFS_FREEMAPBLOCKS n) = fmb n"
    by (simp add: SFS_FREEMAPBLOCKS_def unat_div bits) (simp add: SFS_BITSPERBLOCK_def SFS_BLOCKSIZE_def)
qed

section \<open>The loop over the blocks of the bitmap\<close>

definition in_freemap :: "nat \<Rightarrow> nat \<Rightarrow> daddr \<Rightarrow> bool" where
  "in_freemap j n c \<longleftrightarrow> 2 + j \<le> unat c \<and> unat c < 2 + j + n"

lemma freemap_block: "2 + j < 2 ^ 32 \<Longrightarrow> unat (SFS_FREEMAP_START + of_nat j) = 2 + j"
  using unat_plus_nat [of 2 j] by (simp add: SFS_FREEMAP_START_def)

lemma freemap_at: "of_nat j * of_nat SFS_BLOCKSIZE + of_nat k = (of_nat (512 * j + k) :: 32 word)"
  by (simp add: SFS_BLOCKSIZE_def mult.commute)

lemma freemap_step:
  assumes "disk_ok s" "2 + j + Suc n \<le> unat (d_blocks (sfs_device s))" "below_buf (sfs_device s) fa (512 * (j + Suc n))"
  defines "p \<equiv> fa + of_nat j * of_nat SFS_BLOCKSIZE" and "b \<equiv> SFS_FREEMAP_START + of_nat j :: daddr"
  shows "unat b = 2 + j" "b < d_blocks (sfs_device s)" "unat p = unat fa + 512 * j" "below_buf (sfs_device s) p 512"
    "i < 512 * (j + Suc n) \<Longrightarrow> unat (fa + of_nat i) = unat fa + i \<and> \<not> in_buf (sfs_device s) (fa + of_nat i)"
    "512 * j \<le> i \<Longrightarrow> i < 512 * Suc j \<Longrightarrow> p + of_nat (i mod 512) = fa + of_nat i \<and> b = of_nat (2 + i div 512)"
proof -
  have "unat (d_blocks (sfs_device s)) < 2 ^ 32" using unat_lt_32 by simp
  then show ub: "unat b = 2 + j" unfolding b_def using assms(2) by (intro freemap_block) simp
  then show "b < d_blocks (sfs_device s)" using assms(2) by (simp add: word_less_nat_alt)
  have bb: "unat fa + 512 * (j + Suc n) \<le> unat (lh_buf (sfs_device s))" using assms(3) by (simp add: below_buf_def)
  note top = unat_lt_32 [of "lh_buf (sfs_device s)"]
  show up: "unat p = unat fa + 512 * j"
    using bb top unat_plus_nat [of fa "512 * j"] freemap_at [of j 0] by (simp add: p_def)
  then show "below_buf (sfs_device s) p 512" using bb by (simp add: below_buf_def)
  show "unat (fa + of_nat i) = unat fa + i \<and> \<not> in_buf (sfs_device s) (fa + of_nat i)" if "i < 512 * (j + Suc n)"
  proof -
    have "unat (fa + of_nat i) = unat fa + i" using that bb top by (intro unat_plus_nat) linarith
    then show ?thesis using that bb unat_sub_less_iff [of "lh_buf (sfs_device s)" 512 "fa + of_nat i"] assms(1)
      by (simp add: in_buf_def disk_ok_def lhd_wf_def)
  qed
  assume i: "512 * j \<le> i" "i < 512 * Suc j"
  then have d: "i div 512 = j" by simp
  then have "512 * j + i mod 512 = i" using mult_div_mod_eq [of 512 i] by simp
  then show "p + of_nat (i mod 512) = fa + of_nat i \<and> b = of_nat (2 + i div 512)"
    using freemap_at [of j "i mod 512"] d by (simp add: p_def b_def add.assoc SFS_FREEMAP_START_def)
qed

lemma freemap_write_loop:
  "\<lbrakk>disk_ok s; 2 + j + n \<le> unat (d_blocks (sfs_device s)); below_buf (sfs_device s) (b_freemap (s_bufs s)) (512 * (j + n))\<rbrakk> \<Longrightarrow>
   \<exists>dev m. freemapio_loop n (of_nat j) UIO_WRITE s = Ok (0, s\<lparr>sfs_device := dev, s_mem := m\<rparr>) \<and> same_dev (sfs_device s) dev
     \<and> (\<forall>i. 512 * j \<le> i \<longrightarrow> i < 512 * (j + n) \<longrightarrow> lh_disk dev (of_nat (2 + i div 512)) (i mod 512) = s_mem s (b_freemap (s_bufs s) + of_nat i))
     \<and> (\<forall>c. \<not> in_freemap j n c \<longrightarrow> lh_disk dev c = blk s c) \<and> (\<forall>a. \<not> in_buf (sfs_device s) a \<longrightarrow> m a = s_mem s a)"
proof (induction n arbitrary: j s)
  case 0
  have "s = s\<lparr>sfs_device := sfs_device s, s_mem := s_mem s\<rparr>" by simp
  then show ?case by (auto simp: blk_def intro!: exI [of _ "sfs_device s"] exI [of _ "s_mem s"])
next
  case (Suc n)
  let ?fa = "b_freemap (s_bufs s)"
  let ?p = "?fa + of_nat j * of_nat SFS_BLOCKSIZE" and ?b = "SFS_FREEMAP_START + of_nat j :: daddr"
  note S = freemap_step [OF Suc.prems]
  obtain dev m where w: "sfs_writeblock ?b ?p SFS_BLOCKSIZE s = Ok (0, s\<lparr>sfs_device := dev, s_mem := m\<rparr>)"
      "same_dev (sfs_device s) dev" "\<forall>k < 512. lh_disk dev ?b k = s_mem s (?p + of_nat k)" "\<forall>c. c \<noteq> ?b \<longrightarrow> lh_disk dev c = blk s c"
      "\<forall>a. \<not> in_buf (sfs_device s) a \<longrightarrow> m a = s_mem s a"
    using writeblock_dev [OF Suc.prems(1) S(2,4)] by blast
  let ?s = "s\<lparr>sfs_device := dev, s_mem := m\<rparr>"
  note D = same_dev_simps [OF w(2)]
  have "disk_ok ?s" "2 + Suc j + n \<le> unat (d_blocks (sfs_device ?s))" "below_buf (sfs_device ?s) (b_freemap (s_bufs ?s)) (512 * (Suc j + n))"
    using Suc.prems D by (simp_all add: disk_ok_def vfs_biglock_do_i_hold_def)
  from Suc.IH [OF this] obtain dev' m' where
    r: "freemapio_loop n (of_nat (Suc j)) UIO_WRITE ?s = Ok (0, ?s\<lparr>sfs_device := dev', s_mem := m'\<rparr>)" "same_dev dev dev'"
      "\<forall>i. 512 * Suc j \<le> i \<longrightarrow> i < 512 * (Suc j + n) \<longrightarrow> lh_disk dev' (of_nat (2 + i div 512)) (i mod 512) = m (?fa + of_nat i)"
      "\<forall>c. \<not> in_freemap (Suc j) n c \<longrightarrow> lh_disk dev' c = lh_disk dev c" "\<forall>a. \<not> in_buf dev a \<longrightarrow> m' a = m a"
    by (auto simp: blk_def)
  have e: "of_nat j + 1 = (of_nat (Suc j) :: 32 word)" by simp
  have "freemapio_loop (Suc n) (of_nat j) UIO_WRITE s = Ok (0, s\<lparr>sfs_device := dev', s_mem := m'\<rparr>)"
    using w(1) r(1) unfolding e [symmetric] by simp
  moreover have "lh_disk dev' (of_nat (2 + i div 512)) (i mod 512) = s_mem s (?fa + of_nat i)" if i: "512 * j \<le> i" "i < 512 * (j + Suc n)" for i
  proof (cases "i < 512 * Suc j")
    case True
    have "lh_disk dev' ?b (i mod 512) = lh_disk dev ?b (i mod 512)" using r(4) S(1) by (simp add: in_freemap_def)
    also have "\<dots> = s_mem s (?p + of_nat (i mod 512))" using w(3) by simp
    finally show ?thesis using S(6) [OF i(1) True] by simp
  next
    case False
    then show ?thesis using i S(5) [OF i(2)] r(3) w(5) by simp
  qed
  moreover have "lh_disk dev' c = blk s c" if "\<not> in_freemap j (Suc n) c" for c
  proof -
    have "c \<noteq> ?b" "\<not> in_freemap (Suc j) n c" using that S(1) by (auto simp: in_freemap_def)
    then show ?thesis using w(4) r(4) by simp
  qed
  moreover have "same_dev (sfs_device s) dev'" by (rule same_dev_trans [OF w(2) r(2)])
  moreover have "m' a = s_mem s a" if "\<not> in_buf (sfs_device s) a" for a using that w(5) r(5) D by (simp add: in_buf_def)
  ultimately show ?case by blast
qed

lemma freemap_read_loop:
  "\<lbrakk>disk_ok s; 2 + j + n \<le> unat (d_blocks (sfs_device s)); below_buf (sfs_device s) (b_freemap (s_bufs s)) (512 * (j + n))\<rbrakk> \<Longrightarrow>
   \<exists>dev m. freemapio_loop n (of_nat j) UIO_READ s = Ok (0, s\<lparr>sfs_device := dev, s_mem := m\<rparr>) \<and> same_dev (sfs_device s) dev
     \<and> lh_disk dev = lh_disk (sfs_device s)
     \<and> (\<forall>i. 512 * j \<le> i \<longrightarrow> i < 512 * (j + n) \<longrightarrow> m (b_freemap (s_bufs s) + of_nat i) = blk s (of_nat (2 + i div 512)) (i mod 512))
     \<and> (\<forall>a. \<not> in_buf (sfs_device s) a \<longrightarrow> \<not> (512 * j \<le> unat (a - b_freemap (s_bufs s)) \<and> unat (a - b_freemap (s_bufs s)) < 512 * (j + n)) \<longrightarrow> m a = s_mem s a)"
proof (induction n arbitrary: j s)
  case 0
  have "s = s\<lparr>sfs_device := sfs_device s, s_mem := s_mem s\<rparr>" by simp
  then show ?case by (auto intro!: exI [of _ "sfs_device s"] exI [of _ "s_mem s"])
next
  case (Suc n)
  let ?fa = "b_freemap (s_bufs s)"
  let ?p = "?fa + of_nat j * of_nat SFS_BLOCKSIZE" and ?b = "SFS_FREEMAP_START + of_nat j :: daddr"
  note S = freemap_step [OF Suc.prems]
  have bb: "unat ?fa + 512 * (j + Suc n) \<le> unat (lh_buf (sfs_device s))" using Suc.prems(3) by (simp add: below_buf_def)
  note top = unat_lt_32 [of "lh_buf (sfs_device s)"]
  obtain dev m where w: "sfs_readblock ?b ?p SFS_BLOCKSIZE s = Ok (0, s\<lparr>sfs_device := dev, s_mem := m\<rparr>)"
      "same_dev (sfs_device s) dev" "lh_disk dev = lh_disk (sfs_device s)" "\<forall>k < 512. m (?p + of_nat k) = blk s ?b k"
      "\<forall>a. \<not> in_buf (sfs_device s) a \<longrightarrow> \<not> unat (a - ?p) < 512 \<longrightarrow> m a = s_mem s a"
    using readblock_dev [OF Suc.prems(1) S(2,4)] by blast
  let ?s = "s\<lparr>sfs_device := dev, s_mem := m\<rparr>"
  note D = same_dev_simps [OF w(2)]
  have "disk_ok ?s" "2 + Suc j + n \<le> unat (d_blocks (sfs_device ?s))" "below_buf (sfs_device ?s) (b_freemap (s_bufs ?s)) (512 * (Suc j + n))"
    using Suc.prems D by (simp_all add: disk_ok_def vfs_biglock_do_i_hold_def)
  from Suc.IH [OF this] obtain dev' m' where
    r: "freemapio_loop n (of_nat (Suc j)) UIO_READ ?s = Ok (0, ?s\<lparr>sfs_device := dev', s_mem := m'\<rparr>)" "same_dev dev dev'"
      "lh_disk dev' = lh_disk dev"
      "\<forall>i. 512 * Suc j \<le> i \<longrightarrow> i < 512 * (Suc j + n) \<longrightarrow> m' (?fa + of_nat i) = blk s (of_nat (2 + i div 512)) (i mod 512)"
      "\<forall>a. \<not> in_buf dev a \<longrightarrow> \<not> (512 * Suc j \<le> unat (a - ?fa) \<and> unat (a - ?fa) < 512 * (Suc j + n)) \<longrightarrow> m' a = m a"
    using w(3) by (auto simp: blk_def)
  have e: "of_nat j + 1 = (of_nat (Suc j) :: 32 word)" by simp
  have "freemapio_loop (Suc n) (of_nat j) UIO_READ s = Ok (0, s\<lparr>sfs_device := dev', s_mem := m'\<rparr>)"
    using w(1) r(1) unfolding e [symmetric] by simp
  moreover have "m' (?fa + of_nat i) = blk s (of_nat (2 + i div 512)) (i mod 512)" if i: "512 * j \<le> i" "i < 512 * (j + Suc n)" for i
  proof (cases "i < 512 * Suc j")
    case True
    have "i < 2 ^ 32" using i(2) bb top by simp
    then have "m' (?fa + of_nat i) = m (?fa + of_nat i)" using r(5) True D S(5) [OF i(2)] by simp
    moreover have "m (?p + of_nat (i mod 512)) = blk s ?b (i mod 512)" using w(4) by simp
    ultimately show ?thesis using S(6) [OF i(1) True] by simp
  qed (use i r(4) in simp)
  moreover have "same_dev (sfs_device s) dev'" by (rule same_dev_trans [OF w(2) r(2)])
  moreover have "m' a = s_mem s a"
    if a: "\<not> in_buf (sfs_device s) a" "\<not> (512 * j \<le> unat (a - ?fa) \<and> unat (a - ?fa) < 512 * (j + Suc n))" for a
  proof -
    have "\<not> unat (a - ?p) < 512"
      using a(2) S(3) bb top unat_sub_less_iff [of ?p 512 a] unat_sub_less_iff [of ?fa "512 * (j + Suc n)" a] unat_sub_less_iff [of ?fa "512 * j" a]
      by (auto simp: not_le)
    then have "m a = s_mem s a" using w(5) a(1) by blast
    moreover have "m' a = m a" using r(5) a D by auto
    ultimately show ?thesis by simp
  qed
  moreover have "lh_disk dev' = lh_disk (sfs_device s)" using r(3) w(3) by simp
  ultimately show ?case by blast
qed

definition disk_bytes :: "sfs_fs \<Rightarrow> nat \<Rightarrow> byte list" where
  "disk_bytes s n = map (\<lambda>i. blk s (of_nat (2 + i div 512)) (i mod 512)) [0..<512 * n]"

lemma put_bytes_at: "i < length xs \<Longrightarrow> length xs \<le> 2 ^ 32 \<Longrightarrow> put_bytes a xs m (a + of_nat i) = xs ! i"
  by (simp add: put_bytes_def)

text \<open>The bitmap of \<open>N\<close> blocks has its place on the disk and in memory.\<close>

definition fm_io :: "sfs_fs \<Rightarrow> nat \<Rightarrow> bool" where
  "fm_io s N \<longleftrightarrow>
     disk_ok s \<and> unat (SFS_FREEMAPBLOCKS (sb_nblocks s)) = N \<and> 2 + N \<le> unat (d_blocks (sfs_device s)) \<and>
     length (bm_v (sfs_freemap s)) = 512 * N \<and> below_buf (sfs_device s) (b_freemap (s_bufs s)) (512 * N)"

lemma fm_area:
  assumes "fm_io s N" "i < 512 * N"
  shows "\<not> in_buf (sfs_device s) (b_freemap (s_bufs s) + of_nat i)" "512 * N \<le> 2 ^ 32"
proof -
  obtain n where N: "N = Suc n" using assms(2) by (cases N) simp_all
  show "\<not> in_buf (sfs_device s) (b_freemap (s_bufs s) + of_nat i)"
    using freemap_step(5) [of s 0 n "b_freemap (s_bufs s)" i] assms unfolding N fm_io_def by simp
  show "512 * N \<le> 2 ^ 32" using assms(1) unat_lt_32 [of "lh_buf (sfs_device s)"] by (simp add: fm_io_def below_buf_def)
qed

lemma freemapio_write_ok:
  assumes F: "fm_io s N"
  shows "\<exists>dev m. sfs_freemapio UIO_WRITE s = Ok (0, s\<lparr>sfs_device := dev, s_mem := m\<rparr>) \<and> same_dev (sfs_device s) dev
    \<and> disk_bytes (s\<lparr>sfs_device := dev, s_mem := m\<rparr>) N = bm_v (sfs_freemap s) \<and> (\<forall>c. \<not> in_freemap 0 N c \<longrightarrow> lh_disk dev c = blk s c)
    \<and> (\<forall>a. \<not> in_buf (sfs_device s) a \<longrightarrow> \<not> unat (a - b_freemap (s_bufs s)) < 512 * N \<longrightarrow> m a = s_mem s a)"
proof -
  let ?fa = "b_freemap (s_bufs s)" and ?v = "bm_v (sfs_freemap s)"
  let ?s = "s\<lparr>s_mem := put_bytes ?fa ?v (s_mem s)\<rparr>"
  have v: "length ?v = 512 * N" and n: "unat (SFS_FREEMAPBLOCKS (sb_nblocks s)) = N" using F by (simp_all add: fm_io_def)
  have "disk_ok ?s" "2 + 0 + N \<le> unat (d_blocks (sfs_device ?s))" "below_buf (sfs_device ?s) (b_freemap (s_bufs ?s)) (512 * (0 + N))"
    using F by (simp_all add: fm_io_def disk_ok_def vfs_biglock_do_i_hold_def)
  from freemap_write_loop [OF this] obtain dev m where
    w: "freemapio_loop N 0 UIO_WRITE ?s = Ok (0, s\<lparr>sfs_device := dev, s_mem := m\<rparr>)" "same_dev (sfs_device s) dev"
      "\<forall>i < 512 * N. lh_disk dev (of_nat (2 + i div 512)) (i mod 512) = put_bytes ?fa ?v (s_mem s) (?fa + of_nat i)"
      "\<forall>c. \<not> in_freemap 0 N c \<longrightarrow> lh_disk dev c = blk s c" "\<forall>a. \<not> in_buf (sfs_device s) a \<longrightarrow> m a = put_bytes ?fa ?v (s_mem s) a"
    by (auto simp: blk_def)
  have at: "put_bytes ?fa ?v (s_mem s) (?fa + of_nat i) = ?v ! i" if "i < 512 * N" for i
    using fm_area(2) [OF F that] that v by (intro put_bytes_at) simp_all
  have same: "map (\<lambda>i. m (?fa + of_nat i)) [0..<length ?v] = ?v"
    using w(5) at fm_area(1) [OF F] v by (intro nth_equalityI) simp_all
  have "sfs_freemapio UIO_WRITE s = Ok (0, s\<lparr>sfs_device := dev, s_mem := m\<rparr>)"
    using w(1) n same by (simp add: sfs_freemapio_def)
  moreover have "disk_bytes (s\<lparr>sfs_device := dev, s_mem := m\<rparr>) N = ?v"
    using w(3) at v by (intro nth_equalityI) (simp_all add: disk_bytes_def blk_def)
  moreover have "\<forall>a. \<not> in_buf (sfs_device s) a \<longrightarrow> \<not> unat (a - ?fa) < 512 * N \<longrightarrow> m a = s_mem s a"
    using w(5) v by (simp add: put_bytes_def)
  ultimately show ?thesis using w(2,4) by blast
qed

lemma freemapio_read_ok:
  assumes F: "fm_io s N"
  shows "\<exists>dev m. sfs_freemapio UIO_READ s = Ok (0, s\<lparr>sfs_device := dev, s_mem := m, sfs_freemap := (sfs_freemap s)\<lparr>bm_v := disk_bytes s N\<rparr>\<rparr>)
    \<and> same_dev (sfs_device s) dev \<and> lh_disk dev = lh_disk (sfs_device s)
    \<and> (\<forall>a. \<not> in_buf (sfs_device s) a \<longrightarrow> \<not> unat (a - b_freemap (s_bufs s)) < 512 * N \<longrightarrow> m a = s_mem s a)"
proof -
  let ?fa = "b_freemap (s_bufs s)" and ?v = "bm_v (sfs_freemap s)"
  let ?s = "s\<lparr>s_mem := put_bytes ?fa ?v (s_mem s)\<rparr>"
  have v: "length ?v = 512 * N" and n: "unat (SFS_FREEMAPBLOCKS (sb_nblocks s)) = N" using F by (simp_all add: fm_io_def)
  have "disk_ok ?s" "2 + 0 + N \<le> unat (d_blocks (sfs_device ?s))" "below_buf (sfs_device ?s) (b_freemap (s_bufs ?s)) (512 * (0 + N))"
    using F by (simp_all add: fm_io_def disk_ok_def vfs_biglock_do_i_hold_def)
  from freemap_read_loop [OF this] obtain dev m where
    w: "freemapio_loop N 0 UIO_READ ?s = Ok (0, s\<lparr>sfs_device := dev, s_mem := m\<rparr>)" "same_dev (sfs_device s) dev"
      "lh_disk dev = lh_disk (sfs_device s)" "\<forall>i < 512 * N. m (?fa + of_nat i) = blk s (of_nat (2 + i div 512)) (i mod 512)"
      "\<forall>a. \<not> in_buf (sfs_device s) a \<longrightarrow> \<not> unat (a - ?fa) < 512 * N \<longrightarrow> m a = put_bytes ?fa ?v (s_mem s) a"
    by (auto simp: blk_def)
  have "map (\<lambda>i. m (?fa + of_nat i)) [0..<length ?v] = disk_bytes s N"
    using w(4) v by (intro nth_equalityI) (simp_all add: disk_bytes_def)
  then have "sfs_freemapio UIO_READ s = Ok (0, s\<lparr>sfs_device := dev, s_mem := m, sfs_freemap := (sfs_freemap s)\<lparr>bm_v := disk_bytes s N\<rparr>\<rparr>)"
    using w(1) n by (simp add: sfs_freemapio_def)
  moreover have "\<forall>a. \<not> in_buf (sfs_device s) a \<longrightarrow> \<not> unat (a - ?fa) < 512 * N \<longrightarrow> m a = s_mem s a"
    using w(5) v by (simp add: put_bytes_def)
  ultimately show ?thesis using w(2,3) by blast
qed

section \<open>Sync\<close>

text \<open>Block I/O changes the disk and memory only.\<close>

lemma retry_rest: "sfs_retry n u s = Ok (r, u', s') \<Longrightarrow> \<exists>dev m. s' = s\<lparr>sfs_device := dev, s_mem := m\<rparr>"
proof (induction n arbitrary: u s)
  case 0
  then show ?case by (subst (asm) sfs_retry.simps) (auto simp: Let_def kbind_def split: kres.splits if_splits prod.splits)
next
  case (Suc n)
  obtain r1 dev u1 m where io: "lhd_io (s_uc s) (sfs_device s) u (s_mem s) = Ok (r1, dev, u1, m)"
    using Suc.prems by (subst (asm) sfs_retry.simps) (auto simp: kbind_def split: kres.splits prod.splits)
  show ?case
  proof (cases "r1 = EIO")
    case True
    then have "sfs_retry n u1 (s\<lparr>sfs_device := dev, s_mem := m\<rparr>) = Ok (r, u', s')"
      using Suc.prems io by (subst (asm) sfs_retry.simps) (simp add: Let_def EIO_def EINVAL_def)
    from Suc.IH [OF this] show ?thesis by auto
  next
    case False
    then show ?thesis using Suc.prems io by (subst (asm) sfs_retry.simps) (auto simp: Let_def split: if_splits)
  qed
qed

definition same_super :: "sfs_fs \<Rightarrow> sfs_fs \<Rightarrow> bool" where
  "same_super s s' \<longleftrightarrow> sfs_freemap s' = sfs_freemap s \<and> sfs_freemapdirty s' = sfs_freemapdirty s \<and> sfs_superdirty s' = sfs_superdirty s"

lemma sync_inode_rest: "sfs_sync_inode sv s = Ok (r, s') \<Longrightarrow> same_super s s'"
  by (auto simp: sfs_sync_inode_def sfs_writeblock_def sfs_rwblock_def same_super_def upd_sv_def Let_def dest!: retry_rest split: if_splits)

lemma acquired:
  "sfs_ok s M \<Longrightarrow> sfs_ok (vfs_biglock_acquire s) M" "svs (vfs_biglock_acquire s) = svs s" "blk (vfs_biglock_acquire s) = blk s"
  "sb_nblocks (vfs_biglock_acquire s) = sb_nblocks s" "sfs_vnodes (vfs_biglock_acquire s) = sfs_vnodes s"
  "in_use (vfs_biglock_acquire s) M = in_use s M" "ubuf (vfs_biglock_acquire s) a n = ubuf s a n"
  "saved (vfs_biglock_acquire s) = saved s"
  by (auto simp: locked_env) (simp_all add: vfs_biglock_acquire_def blk_def fun_eq_iff in_use_def ubuf_def scratch_def saved_def)

lemma unlocked_ok:
  assumes "vfs_biglock_depth s' = Suc (vfs_biglock_depth s)"
  shows "unlocked r s' = Ok (r, s'\<lparr>vfs_biglock_depth := vfs_biglock_depth s\<rparr>)"
  using assms by (simp add: unlocked_def vfs_biglock_release_def vfs_biglock_do_i_hold_def)

lemma released:
  assumes "same_env (vfs_biglock_acquire s) s'" "sfs_ok s' M" "vfs_biglock_do_i_hold s"
  defines "s'' \<equiv> s'\<lparr>vfs_biglock_depth := vfs_biglock_depth s\<rparr>"
  shows "unlocked r s' = Ok (r, s'')" "vfs_biglock_release s' = Ok s''" "same_env s s''" "sfs_ok s'' M" "svs s'' = svs s'" "blk s'' = blk s'" "same_super s' s''"
proof -
  have "vfs_biglock_depth s' = Suc (vfs_biglock_depth s)" using assms(1) by (simp add: same_env_def vfs_biglock_acquire_def)
  then show "unlocked r s' = Ok (r, s'')" "vfs_biglock_release s' = Ok s''"
    by (simp_all add: s''_def unlocked_ok vfs_biglock_release_def vfs_biglock_do_i_hold_def)
  show "same_env s s''" using assms(1) by (simp add: s''_def same_env_def vfs_biglock_acquire_def)
  show "sfs_ok s'' M" using assms(2,3) by (auto simp: s''_def sfs_ok_def vfs_biglock_do_i_hold_def bufs_ok_def scratch_def)
  show "svs s'' = svs s'" "blk s'' = blk s'" "same_super s' s''" by (simp_all add: s''_def blk_def fun_eq_iff same_super_def)
qed

definition vnode_ok :: "sfs_fs \<Rightarrow> nat set \<Rightarrow> ptr \<Rightarrow> bool" where
  "vnode_ok s M p \<longleftrightarrow>
     in_use s M (sv_ino (svs s p)) \<and> ubuf s (sv_i_addr p) 512 \<and> length (sfi_direct (sv_i (svs s p))) = 15 \<and>
     (\<not> sv_dirty (svs s p) \<longrightarrow> saved s (sv_ino (svs s p)) (sv_i (svs s p)))"

text \<open>The state after the vnodes of \<open>l\<close> were written.\<close>

definition synced :: "sfs_fs \<Rightarrow> nat set \<Rightarrow> ptr list \<Rightarrow> sfs_fs \<Rightarrow> bool" where
  "synced s M l s' \<longleftrightarrow>
     sfs_ok s' M \<and> same_env s s' \<and> same_super s s' \<and> (\<forall>p. svs s' p = (if p \<in> set l then (svs s p)\<lparr>sv_dirty := False\<rparr> else svs s p)) \<and>
     (\<forall>p \<in> set l. saved s' (sv_ino (svs s p)) (sv_i (svs s p))) \<and> (\<forall>c. c \<notin> (\<lambda>p. sv_ino (svs s p)) ` set l \<longrightarrow> blk s' c = blk s c)"

lemma fsync_ok:
  assumes ok: "sfs_ok s M" and V: "vnode_ok s M p"
  shows "\<exists>s'. sfs_fsync p s = Ok (0, s') \<and> synced s M [p] s'"
proof -
  let ?a = "vfs_biglock_acquire s"
  obtain s1 where s1: "sfs_sync_inode p ?a = Ok (0, s1)" "sfs_ok s1 M" "same_env ?a s1" "svs s1 = (svs s)(p := (svs s p)\<lparr>sv_dirty := False\<rparr>)"
      "saved s1 (sv_ino (svs s p)) (sv_i (svs s p))" "\<forall>c. c \<noteq> sv_ino (svs s p) \<longrightarrow> blk s1 c = blk s c"
    using sync_inode_ok [OF acquired(1) [OF ok], of p] V by (auto simp: acquired vnode_ok_def)
  note R = released [OF s1(3,2) sfs_okD(5) [OF ok]]
  have "same_super s s1" using sync_inode_rest [OF s1(1)] by (simp add: same_super_def vfs_biglock_acquire_def)
  then have "synced s M [p] (s1\<lparr>vfs_biglock_depth := vfs_biglock_depth s\<rparr>)"
    using R s1(4-6) by (auto simp: synced_def saved_def same_super_def)
  then show ?thesis using s1(1) R(2) by (simp add: sfs_fsync_def)
qed

lemma sync_list:
  "sfs_ok s M \<Longrightarrow> distinct (map (\<lambda>p. sv_ino (svs s p)) l) \<Longrightarrow> \<forall>p \<in> set l. vnode_ok s M p \<Longrightarrow>
   \<exists>s'. kfold (\<lambda>v s. kbind (sfs_fsync v s) (\<lambda>(r, s). Ok s)) l s = Ok s' \<and> synced s M l s'"
proof (induction l arbitrary: s)
  case Nil
  then show ?case by (auto simp: synced_def same_super_def)
next
  case (Cons p l)
  obtain s1 where s1: "sfs_fsync p s = Ok (0, s1)" "synced s M [p] s1" using fsync_ok [OF Cons.prems(1)] Cons.prems(3) by fastforce
  note S = s1(2) [unfolded synced_def, simplified]
  have q: "svs s1 q = svs s q" "sv_ino (svs s q) \<noteq> sv_ino (svs s p)" if "q \<in> set l" for q
    using Cons.prems(2) that S by (auto simp: image_iff)
  have "distinct (map (\<lambda>p. sv_ino (svs s1 p)) l)"
    using Cons.prems(2) q(1) by (metis (no_types, lifting) distinct.simps(2) list.simps(9) map_eq_conv)
  moreover have "vnode_ok s1 M x" if "x \<in> set l" for x
    using Cons.prems(3) q [OF that] that S ubuf_env [of s s1] by (auto simp: vnode_ok_def in_use_def saved_def same_env_def)
  ultimately obtain s2 where s2: "kfold (\<lambda>v s. kbind (sfs_fsync v s) (\<lambda>(r, s). Ok s)) l s1 = Ok s2" "synced s1 M l s2"
    using Cons.IH [of s1] S by auto
  note T = s2(2) [unfolded synced_def]
  have "synced s M (p # l) s2"
    unfolding synced_def
  proof (intro conjI allI ballI impI)
    show "sfs_ok s2 M" "same_super s s2" "same_env s s2" using S T same_env_trans by (auto simp: same_super_def)
    fix x
    show "svs s2 x = (if x \<in> set (p # l) then (svs s x)\<lparr>sv_dirty := False\<rparr> else svs s x)" using S T by auto
    show "blk s2 c = blk s c" if "c \<notin> (\<lambda>p. sv_ino (svs s p)) ` set (p # l)" for c
    proof -
      have "c \<notin> (\<lambda>p. sv_ino (svs s1 p)) ` set l" using that q(1) by auto
      then show ?thesis using T S that by simp
    qed
    assume "x \<in> set (p # l)"
    then consider "x \<in> set l" | "x = p" "p \<notin> set l" by auto
    then show "saved s2 (sv_ino (svs s x)) (sv_i (svs s x))"
    proof cases
      case 1
      then show ?thesis using T q(1) by metis
    next
      case 2
      then have "sv_ino (svs s p) \<notin> (\<lambda>p. sv_ino (svs s1 p)) ` set l" using q by fastforce
      then show ?thesis using T S 2 by (simp add: saved_def)
    qed
  qed
  then show ?case using s1(1) s2(1) by simp
qed

text \<open>
  A volume that can be written: superblock and bitmap have their blocks, the loaded vnodes have
  different inodes outside of these, and what is not marked as changed is on the disk.
\<close>

definition vol_ok :: "sfs_fs \<Rightarrow> nat set \<Rightarrow> bool" where
  "vol_ok s M \<longleftrightarrow>
     wd (blk s 0) 0 = SFS_MAGIC \<and> wd (blk s 0) 1 = sb_nblocks s \<and> 2 + fmb (sb_nblocks s) \<le> unat (sb_nblocks s) \<and>
     unat (nbits (sfs_freemap s)) = 4096 * fmb (sb_nblocks s) \<and> \<not> sfs_superdirty s \<and>
     (\<not> sfs_freemapdirty s \<longrightarrow> disk_bytes s (fmb (sb_nblocks s)) = bm_v (sfs_freemap s)) \<and>
     ubuf s (b_freemap (s_bufs s)) (512 * fmb (sb_nblocks s)) \<and> distinct (map (\<lambda>p. sv_ino (svs s p)) (sfs_vnodes s)) \<and>
     (\<forall>p \<in> set (sfs_vnodes s). vnode_ok s M p \<and> sv_ino (svs s p) \<noteq> 0 \<and> \<not> in_freemap 0 (fmb (sb_nblocks s)) (sv_ino (svs s p)))"

lemma disk_bytes_cong:
  assumes "\<And>c. in_freemap 0 N c \<Longrightarrow> blk s' c = blk s c" "2 + N < 2 ^ 32"
  shows "disk_bytes s' N = disk_bytes s N"
  unfolding disk_bytes_def
proof (rule map_cong [OF refl])
  fix i
  assume "i \<in> set [0..<512 * N]"
  then have "i div 512 < N" by (simp add: less_mult_imp_div_less)
  then have "unat (of_nat (2 + i div 512) :: 32 word) = 2 + i div 512" using assms(2) by (intro unat_of_nat_32) simp
  then have "in_freemap 0 N (of_nat (2 + i div 512))" using \<open>i div 512 < N\<close> by (simp add: in_freemap_def)
  then show "blk s' (of_nat (2 + i div 512)) (i mod 512) = blk s (of_nat (2 + i div 512)) (i mod 512)" by (simp add: assms(1))
qed

lemma vol_fm:
  assumes ok: "sfs_ok s M" and V: "unat (nbits (sfs_freemap s)) = 4096 * fmb (sb_nblocks s)" "2 + fmb (sb_nblocks s) \<le> unat (sb_nblocks s)"
    "ubuf s (b_freemap (s_bufs s)) (512 * fmb (sb_nblocks s))"
  shows "fm_io s (fmb (sb_nblocks s))" "fmb (sb_nblocks s) \<le> 2048"
proof -
  have n: "unat (sb_nblocks s) \<le> 2 ^ 23" by (rule sfs_okD(3) [OF ok])
  show "fmb (sb_nblocks s) \<le> 2048" by (rule freemap_size(3) [OF n])
  obtain k where "bitmap_rep (sfs_freemap s) k M" using ok by (auto simp: sfs_ok_def)
  then have "length (bm_v (sfs_freemap s)) = 512 * fmb (sb_nblocks s)" using V(1) by (simp add: bitmap_rep_def) linarith
  moreover have "unat (sb_nblocks s) \<le> unat (d_blocks (sfs_device s))" using sfs_okD(2) [OF ok] by (simp add: word_le_nat_alt)
  ultimately show "fm_io s (fmb (sb_nblocks s))"
    using sfs_disk_ok [OF ok] V(2,3) freemap_size(2) [OF n] by (simp add: fm_io_def ubuf_def)
qed

lemma sync_freemap_ok:
  assumes ok: "sfs_ok s M" and V: "unat (nbits (sfs_freemap s)) = 4096 * fmb (sb_nblocks s)" "2 + fmb (sb_nblocks s) \<le> unat (sb_nblocks s)"
    "ubuf s (b_freemap (s_bufs s)) (512 * fmb (sb_nblocks s))"
    "\<not> sfs_freemapdirty s \<Longrightarrow> disk_bytes s (fmb (sb_nblocks s)) = bm_v (sfs_freemap s)"
  shows "\<exists>s'. sfs_sync_freemap s = Ok (0, s') \<and> sfs_ok s' M \<and> same_env s s' \<and> svs s' = svs s \<and> sfs_freemap s' = sfs_freemap s
    \<and> \<not> sfs_freemapdirty s' \<and> sfs_superdirty s' = sfs_superdirty s \<and> disk_bytes s' (fmb (sb_nblocks s)) = bm_v (sfs_freemap s)
    \<and> (\<forall>c. \<not> in_freemap 0 (fmb (sb_nblocks s)) c \<longrightarrow> blk s' c = blk s c)"
proof (cases "sfs_freemapdirty s")
  case True
  let ?N = "fmb (sb_nblocks s)"
  obtain dev m where w: "sfs_freemapio UIO_WRITE s = Ok (0, s\<lparr>sfs_device := dev, s_mem := m\<rparr>)" "same_dev (sfs_device s) dev"
      "disk_bytes (s\<lparr>sfs_device := dev, s_mem := m\<rparr>) ?N = bm_v (sfs_freemap s)" "\<forall>c. \<not> in_freemap 0 ?N c \<longrightarrow> lh_disk dev c = blk s c"
      "\<forall>a. \<not> in_buf (sfs_device s) a \<longrightarrow> \<not> unat (a - b_freemap (s_bufs s)) < 512 * ?N \<longrightarrow> m a = s_mem s a"
    using freemapio_write_ok [OF vol_fm(1) [OF ok V(1-3)]] by blast
  let ?s = "s\<lparr>sfs_device := dev, s_mem := m, sfs_freemapdirty := False\<rparr>"
  have e: "same_env s ?s" using w(2) by (simp add: same_env_def)
  have "sfs_ok ?s M"
  proof (rule sfs_ok_env [OF ok e])
    fix a
    assume "\<not> scratch s a" "unat (a - b_zeros (s_bufs s)) < 512 \<or> unat (a - b_zeros16 (s_bufs s)) < 16"
    then show "s_mem ?s a = s_mem s a" using w(5) ubuf_area [OF V(3)] by (auto simp: scratch_def)
  qed simp
  moreover have "sfs_sync_freemap s = Ok (0, ?s)" using w(1) True by (simp add: sfs_sync_freemap_def)
  moreover have "disk_bytes ?s ?N = bm_v (sfs_freemap s)" using w(3) by (simp add: disk_bytes_def blk_def)
  ultimately show ?thesis using e w(4) by (auto simp: blk_def)
qed (use ok V(4) in \<open>auto simp: sfs_sync_freemap_def\<close>)

lemma sync_ok:
  assumes ok: "sfs_ok s M" and V: "vol_ok s M"
  shows "\<exists>s'. sfs_sync s = Ok (0, s') \<and> sfs_ok s' M \<and> same_env s s' \<and> sfs_freemap s' = sfs_freemap s
    \<and> \<not> sfs_freemapdirty s' \<and> \<not> sfs_superdirty s' \<and> disk_bytes s' (fmb (sb_nblocks s)) = bm_v (sfs_freemap s)
    \<and> (\<forall>p. svs s' p = (if p \<in> set (sfs_vnodes s) then (svs s p)\<lparr>sv_dirty := False\<rparr> else svs s p))
    \<and> (\<forall>p \<in> set (sfs_vnodes s). saved s' (sv_ino (svs s p)) (sv_i (svs s p)))
    \<and> (\<forall>c. c \<notin> (\<lambda>p. sv_ino (svs s p)) ` set (sfs_vnodes s) \<longrightarrow> \<not> in_freemap 0 (fmb (sb_nblocks s)) c \<longrightarrow> blk s' c = blk s c)"
proof -
  let ?a = "vfs_biglock_acquire s" and ?l = "sfs_vnodes s" and ?N = "fmb (sb_nblocks s)"
  note v = V [unfolded vol_ok_def]
  have vn: "\<forall>p \<in> set ?l. vnode_ok ?a M p" using v by (simp add: vnode_ok_def acquired)
  have "distinct (map (\<lambda>p. sv_ino (svs ?a p)) ?l)" using v by (simp add: acquired)
  then obtain s1 where s1: "kfold (\<lambda>v s. kbind (sfs_fsync v s) (\<lambda>(r, s). Ok s)) ?l ?a = Ok s1" "synced ?a M ?l s1"
    using sync_list [OF acquired(1) [OF ok] _ vn] by blast
  note S = s1(2) [unfolded synced_def acquired]
  have sup: "same_super s s1" "sb_nblocks s1 = sb_nblocks s" "b_freemap (s_bufs s1) = b_freemap (s_bufs s)"
    using S by (simp_all add: same_super_def same_env_def vfs_biglock_acquire_def)
  have sz: "?N \<le> 2048" by (rule freemap_size(3)) (rule sfs_okD(3) [OF ok])
  have ino: "c \<notin> (\<lambda>p. sv_ino (svs s p)) ` set ?l" if "in_freemap 0 ?N c" for c using that v by auto
  have "disk_bytes s1 ?N = disk_bytes s ?N" using S ino sz by (intro disk_bytes_cong) auto
  moreover have "ubuf s1 (b_freemap (s_bufs s)) (512 * ?N)" using v S ubuf_env [of ?a s1] by (simp add: acquired)
  ultimately obtain s2 where s2: "sfs_sync_freemap s1 = Ok (0, s2)" "sfs_ok s2 M" "same_env s1 s2" "svs s2 = svs s1"
      "sfs_freemap s2 = sfs_freemap s" "\<not> sfs_freemapdirty s2" "sfs_superdirty s2 = sfs_superdirty s1"
      "disk_bytes s2 ?N = bm_v (sfs_freemap s)" "\<forall>c. \<not> in_freemap 0 ?N c \<longrightarrow> blk s2 c = blk s1 c"
    using sync_freemap_ok [of s1 M] S v sup by (auto simp: same_super_def)
  have "same_env ?a s2" using S s2(3) same_env_trans by blast
  note R = released [OF this s2(2) sfs_okD(5) [OF ok]]
  let ?s = "s2\<lparr>vfs_biglock_depth := vfs_biglock_depth s\<rparr>"
  have d: "\<not> sfs_superdirty s2" using s2(7) sup(1) v by (simp add: same_super_def)
  have "sfs_sync s = Ok (0, ?s)"
    using s1(1) s2(1) d R(1) by (simp add: sfs_sync_def sfs_sync_vnodes_def acquired sfs_sync_superblock_def)
  moreover have "saved ?s (sv_ino (svs s p)) (sv_i (svs s p))" if "p \<in> set ?l" for p
    using that S s2(9) v R(6) by (auto simp: saved_def)
  moreover have "disk_bytes ?s ?N = bm_v (sfs_freemap s)" using s2(8) by (simp add: disk_bytes_def blk_def)
  ultimately show ?thesis using R(3-6) S s2 d by auto
qed

section \<open>Mount\<close>

lemma bitmap_create_blocks:
  assumes "unat (nb :: 32 word) = 4096 * N" "N \<le> 2048"
  shows "bitmap_create True True nb = Ok (Some \<lparr>nbits = nb, bm_v = replicate (512 * N) 0\<rparr>)"
proof -
  have "unat nb + 7 < 2 ^ 32" using assms by simp
  then have w: "unat (DIVROUNDUP nb 8) = 512 * N" using divroundup8 [of nb] assms(1) by simp
  have "unat (nb div 8) = 512 * N" using assms(1) by (simp add: unat_div)
  then show ?thesis using w by (simp add: bitmap_create_def word_less_nat_alt)
qed

text \<open>A disk that holds a volume of \<open>n\<close> blocks, of which those of \<open>M\<close> are in use.\<close>

definition disk_vol :: "sfs_fs \<Rightarrow> 32 word \<Rightarrow> nat set \<Rightarrow> bool" where
  "disk_vol s n M \<longleftrightarrow>
     wd (blk s 0) 0 = SFS_MAGIC \<and> wd (blk s 0) 1 = n \<and> unat n \<le> 2 ^ 23 \<and> n \<le> d_blocks (sfs_device s) \<and> 2 + fmb n \<le> unat n \<and>
     bitmap_rep \<lparr>nbits = SFS_FREEMAPBITS n, bm_v = disk_bytes s (fmb n)\<rparr> (4096 * fmb n) M \<and> {unat n..<4096 * fmb n} \<subseteq> M \<and> 0 \<in> M"

text \<open>What mounting needs: memory for the volume at \<open>sfs\<close> and for its bitmap at \<open>data\<close>.\<close>

definition mount_env :: "sfs_fs \<Rightarrow> ptr \<Rightarrow> vaddr \<Rightarrow> nat \<Rightarrow> bool" where
  "mount_env s sfs data N \<longleftrightarrow>
     lhd_wf (sfs_device s) \<and> bufs_ok s \<and> vfs_biglock_do_i_hold s \<and> sfs \<noteq> NULL \<and> ubuf s (sfs + 8) 512 \<and> data \<noteq> NULL \<and> ubuf s data (512 * N)"

lemma fmb_covers: "unat n \<le> 4096 * fmb n"
  unfolding fmb_def using mult_div_mod_eq [of 4096 "unat n + 4095"] mod_less_divisor [of 4096 "unat n + 4095"] by linarith

lemma mount_ok:
  assumes D: "disk_vol s n M" and E: "mount_env s sfs data (fmb n)"
  shows "\<exists>s'. sfs_domount sfs True True data s = Ok (0, s') \<and> sfs_ok s' M \<and> vol_ok s' M \<and> sb_nblocks s' = n
    \<and> sfs_freemap s' = \<lparr>nbits = SFS_FREEMAPBITS n, bm_v = disk_bytes s (fmb n)\<rparr> \<and> sfs_vnodes s' = [] \<and> blk s' = blk s
    \<and> (\<forall>kb k. ubuf s' kb k = ubuf s kb k) \<and> s_bufs s' = (s_bufs s)\<lparr>b_sb := sfs + 8, b_freemap := data\<rparr>"
proof -
  let ?N = "fmb n" and ?sb = "sfs + 8"
  note d = D [unfolded disk_vol_def] and e = E [unfolded mount_env_def]
  note sz = freemap_size [of n]
  let ?a = "(vfs_biglock_acquire s)\<lparr>s_bufs := (s_bufs s)\<lparr>b_sb := ?sb\<rparr>, sfs_superdirty := False, sfs_vnodes := [], sfs_freemap := no_bitmap, sfs_freemapdirty := False\<rparr>"
  have da: "disk_ok ?a" "0 < d_blocks (sfs_device ?a)" "below_buf (sfs_device ?a) ?sb 512"
    using d e by (simp_all add: disk_ok_def vfs_biglock_acquire_def vfs_biglock_do_i_hold_def ubuf_def word_less_nat_alt word_le_nat_alt)
  obtain dev m where r: "sfs_readblock 0 ?sb SFS_BLOCKSIZE ?a = Ok (0, ?a\<lparr>sfs_device := dev, s_mem := m\<rparr>)" "same_dev (sfs_device s) dev"
      "lh_disk dev = lh_disk (sfs_device s)" "\<forall>k < 512. m (?sb + of_nat k) = blk s 0 k"
      "\<forall>a. \<not> in_buf (sfs_device s) a \<longrightarrow> \<not> unat (a - ?sb) < 512 \<longrightarrow> m a = s_mem s a"
    using readblock_dev [OF da] by (auto simp: vfs_biglock_acquire_def blk_def)
  have w: "wd (mem_get ?sb m) j = wd (blk s 0) j" if "j < 128" for j
    by (rule wd_cong [OF _ that]) (simp add: mem_get_def r(4))
  have magic: "ld32 ?sb m = SFS_MAGIC" "ld32 (?sb + 4) m = n" using w [of 0] w [of 1] ld32_wd [of ?sb 0 m] ld32_wd [of ?sb 1 m] d by simp_all
  let ?m = "m(?sb + 8 + of_nat (SFS_VOLNAME_SIZE - 1) := 0)"
  let ?b = "\<lparr>nbits = SFS_FREEMAPBITS n, bm_v = replicate (512 * ?N) 0\<rparr>"
  let ?s1 = "?a\<lparr>sfs_device := dev, sb_nblocks := n, s_mem := ?m, sfs_freemap := ?b, s_bufs := (s_bufs s)\<lparr>b_sb := ?sb, b_freemap := data\<rparr>\<rparr>"
  have bm: "bitmap_create True True (SFS_FREEMAPBITS n) = Ok (Some ?b)" using sz d by (intro bitmap_create_blocks) simp_all
  note dv = same_dev_simps [OF r(2)]
  have "fm_io ?s1 ?N"
    using d e sz(2) dv da(1) by (simp add: fm_io_def disk_ok_def vfs_biglock_acquire_def vfs_biglock_do_i_hold_def ubuf_def word_le_nat_alt)
  from freemapio_read_ok [OF this] obtain dev' m' where
    f: "sfs_freemapio UIO_READ ?s1 = Ok (0, ?s1\<lparr>sfs_device := dev', s_mem := m', sfs_freemap := \<lparr>nbits = SFS_FREEMAPBITS n, bm_v = disk_bytes s ?N\<rparr>\<rparr>)"
      "same_dev dev dev'" "lh_disk dev' = lh_disk (sfs_device s)" "\<forall>a. \<not> in_buf dev a \<longrightarrow> \<not> unat (a - data) < 512 * ?N \<longrightarrow> m' a = ?m a"
    using r(3) by (auto simp: disk_bytes_def blk_def)
  let ?s2 = "?s1\<lparr>sfs_device := dev', s_mem := m', sfs_freemap := \<lparr>nbits = SFS_FREEMAPBITS n, bm_v = disk_bytes s ?N\<rparr>, vfs_biglock_depth := vfs_biglock_depth s\<rparr>"
  have "sfs_domount sfs True True data s = Ok (0, ?s2)"
    using e r(1) magic bm f(1)
    by (simp add: sfs_domount_def lhd_wf_def vfs_biglock_acquire_def SFS_BLOCKSIZE_def sfs_fs_create_def SFS_SUPER_BLOCK_def
        unlocked_def vfs_biglock_release_def vfs_biglock_do_i_hold_def)
  moreover have blk: "blk ?s2 = blk s" using f(3) by (simp add: blk_def fun_eq_iff)
  moreover note dv' = same_dev_simps [OF same_dev_trans [OF r(2) f(2)]]
  have sc: "scratch ?s2 a = scratch s a" for a using dv' by (simp add: scratch_def)
  have ub: "ubuf ?s2 kb k = ubuf s kb k" for kb k using dv' sc by (simp add: ubuf_def)
  have "bufs_ok ?s2"
  proof -
    have "m' a = s_mem s a" if "unat (a - b_zeros (s_bufs s)) < 512 \<or> unat (a - b_zeros16 (s_bufs s)) < 16" for a
    proof -
      have "\<not> scratch s a" using that e by (auto simp: bufs_ok_def)
      moreover have "\<not> unat (a - ?sb) < 512" "\<not> unat (a - data) < 512 * ?N"
        using ubuf_area [of s ?sb 512 a] ubuf_area [of s data "512 * ?N" a] that e by auto
      moreover have "a \<noteq> ?sb + 8 + of_nat (SFS_VOLNAME_SIZE - 1)"
        using \<open>\<not> unat (a - ?sb) < 512\<close> by (auto simp: SFS_VOLNAME_SIZE_def)
      ultimately show ?thesis using f(4) r(5) dv by (simp add: scratch_def)
    qed
    then show ?thesis using e sc dv' by (auto simp: bufs_ok_def)
  qed
  moreover have "unat (SFS_FREEMAPBITS n) = 4096 * ?N" using sz(1) d by simp
  ultimately show ?thesis
    using d e dv' fmb_covers [of n] ub by (auto simp: sfs_ok_def vol_ok_def vfs_biglock_do_i_hold_def disk_bytes_def)
qed

lemma fbyte_moved:
  assumes i: "sv_i (svs s' q) = sv_i (svs s p)" and b: "\<And>c. c \<in> fblocks s p \<Longrightarrow> blk s' c = blk s c" and "k < 143 * 512"
  shows "fbyte s' q k = fbyte s p k"
proof -
  have ind: "indirect s' q = indirect s p" using i by (simp add: indirect_def)
  have "k div 512 < 143" using assms(3) by (simp add: less_mult_imp_div_less)
  then have m: "fmap s p (k div 512) \<in> fblocks s p" if "fmap s p (k div 512) \<noteq> 0" using that by (auto simp: fblocks_def)
  have "indirect s p \<in> fblocks s p" if "indirect s p \<noteq> 0" using that by (simp add: fblocks_def)
  then have "fmap s' q (k div 512) = fmap s p (k div 512)" using i ind b by (simp add: fmap_def)
  then show ?thesis using b m by (simp add: fbyte_def)
qed

text \<open>The blocks of the file \<open>p\<close> are not those of the superblock, of the bitmap or of loaded inodes.\<close>

definition data_apart :: "sfs_fs \<Rightarrow> ptr \<Rightarrow> bool" where
  "data_apart s p \<longleftrightarrow> (\<forall>c \<in> fblocks s p. \<not> in_freemap 0 (fmb (sb_nblocks s)) c \<and> c \<notin> (\<lambda>p. sv_ino (svs s p)) ` set (sfs_vnodes s))"

text \<open>The file is found again on the volume \<open>s2\<close>, whatever memory its vnode is loaded into.\<close>

definition found_again :: "sfs_fs \<Rightarrow> ptr \<Rightarrow> sfs_fs \<Rightarrow> bool" where
  "found_again s p s2 \<longleftrightarrow>
     (\<forall>new. new \<noteq> NULL \<longrightarrow> ubuf s2 (sv_i_addr new) 512 \<longrightarrow>
        (\<exists>s3. sfs_loadvnode (sv_ino (svs s p)) SFS_TYPE_INVAL new True s2 = Ok (0, new, s3)
          \<and> sv_i (svs s3 new) = sv_i (svs s p) \<and> (\<forall>i < 143 * 512. fbyte s3 new i = fbyte s p i)))"

text \<open>
  (C21) Durability: \<open>sfs_sync\<close> of a volume in order succeeds, and whatever happens to memory afterwards,
  mounting the disk it leaves gives a volume in order with the same size and free map and with no
  vnode loaded, in which every file that was loaded has its inode and all of its bytes.
\<close>

theorem sfs_sync_durable:
  assumes "sfs_ok s M" "vol_ok s M"
  shows "\<exists>s1. sfs_sync s = Ok (0, s1) \<and> sfs_ok s1 M \<and> same_env s s1 \<and> (\<forall>p. sv_i (svs s1 p) = sv_i (svs s p))
    \<and> (\<forall>s0 sfs data. sfs_device s0 = sfs_device s1 \<longrightarrow> mount_env s0 sfs data (fmb (sb_nblocks s)) \<longrightarrow>
        (\<exists>s2. sfs_domount sfs True True data s0 = Ok (0, s2) \<and> sfs_ok s2 M \<and> vol_ok s2 M \<and> sb_nblocks s2 = sb_nblocks s
          \<and> sfs_freemap s2 = sfs_freemap s \<and> sfs_vnodes s2 = []
          \<and> (\<forall>p \<in> set (sfs_vnodes s). data_apart s p \<longrightarrow> sfi_type (sv_i (svs s p)) \<in> {SFS_TYPE_FILE, SFS_TYPE_DIR} \<longrightarrow> found_again s p s2)))"
proof -
  let ?N = "fmb (sb_nblocks s)"
  note v = assms(2) [unfolded vol_ok_def]
  obtain s1 where s1: "sfs_sync s = Ok (0, s1)" "sfs_ok s1 M" "same_env s s1" "sfs_freemap s1 = sfs_freemap s"
      "disk_bytes s1 ?N = bm_v (sfs_freemap s)" "\<forall>p \<in> set (sfs_vnodes s). saved s1 (sv_ino (svs s p)) (sv_i (svs s p))"
      "\<forall>p. svs s1 p = (if p \<in> set (sfs_vnodes s) then (svs s p)\<lparr>sv_dirty := False\<rparr> else svs s p)"
      "\<forall>c. c \<notin> (\<lambda>p. sv_ino (svs s p)) ` set (sfs_vnodes s) \<longrightarrow> \<not> in_freemap 0 ?N c \<longrightarrow> blk s1 c = blk s c"
    using sync_ok [OF assms] by auto
  have nb: "sb_nblocks s1 = sb_nblocks s" using s1(3) by (simp add: same_env_def)
  have n: "unat (sb_nblocks s) \<le> 2 ^ 23" by (rule sfs_okD(3) [OF assms(1)])
  have fm: "\<lparr>nbits = SFS_FREEMAPBITS (sb_nblocks s), bm_v = disk_bytes s1 ?N\<rparr> = sfs_freemap s"
    using s1(5) v freemap_size(1) [OF n] by (simp add: word_unat_eq_iff)
  have vol: "disk_vol s1 (sb_nblocks s) M"
  proof -
    have "0 \<notin> (\<lambda>p. sv_ino (svs s p)) ` set (sfs_vnodes s)" using v by force
    then have "blk s1 0 = blk s 0" using s1(8) by (simp add: in_freemap_def)
    moreover obtain k where "bitmap_rep (sfs_freemap s) k M" "unat (sb_nblocks s) \<le> k" "{unat (sb_nblocks s)..<k} \<subseteq> M"
      using assms(1) by (auto simp: sfs_ok_def)
    moreover from this have "k = 4096 * ?N" using v by (simp add: bitmap_rep_def)
    ultimately show ?thesis
      unfolding disk_vol_def fm using v n sfs_okD(2,4) [OF s1(2)] nb by simp
  qed
  have main: "found_again s p s2"
    if s2: "sfs_ok s2 M" "sb_nblocks s2 = sb_nblocks s" "sfs_vnodes s2 = []" "blk s2 = blk s1"
      and p: "p \<in> set (sfs_vnodes s)" "data_apart s p" "sfi_type (sv_i (svs s p)) \<in> {SFS_TYPE_FILE, SFS_TYPE_DIR}" for s2 p
    unfolding found_again_def
  proof (intro allI impI)
    fix new
    assume new: "new \<noteq> NULL" "ubuf s2 (sv_i_addr new) 512"
    have V: "in_use s M (sv_ino (svs s p))" "length (sfi_direct (sv_i (svs s p))) = 15" using v p(1) by (auto simp: vnode_ok_def)
    have "in_use s2 M (sv_ino (svs s p))" using V(1) s2(2) by (simp add: in_use_def)
    moreover have "saved s2 (sv_ino (svs s p)) (sv_i (svs s p))" using s1(6) p(1) s2(4) by (simp add: saved_def)
    ultimately obtain s3 where s3: "load_inode (sv_ino (svs s p)) SFS_TYPE_INVAL new True s2 = Ok (0, new, s3)" "blk s3 = blk s2"
        "svs s3 = (svs s2)(new := \<lparr>sv_i = sv_i (svs s p), sv_ino = sv_ino (svs s p), sv_dirty = False, vn_refcount = 1\<rparr>)"
      using load_inode_ok [OF s2(1) _ _ V(2) _ _ p(3) new, of _ SFS_TYPE_INVAL] by auto
    have "blk s3 c = blk s c" if "c \<in> fblocks s p" for c using that p(2) s1(8) s3(2) s2(4) by (auto simp: data_apart_def)
    then have "\<forall>i < 143 * 512. fbyte s3 new i = fbyte s p i" using s3(3) by (auto intro: fbyte_moved)
    then show "\<exists>s3. sfs_loadvnode (sv_ino (svs s p)) SFS_TYPE_INVAL new True s2 = Ok (0, new, s3)
        \<and> sv_i (svs s3 new) = sv_i (svs s p) \<and> (\<forall>i < 143 * 512. fbyte s3 new i = fbyte s p i)"
      using s3(1,3) s2(3) by (simp add: sfs_loadvnode_def)
  qed
  have "\<exists>s2. sfs_domount sfs True True data s0 = Ok (0, s2) \<and> sfs_ok s2 M \<and> vol_ok s2 M \<and> sb_nblocks s2 = sb_nblocks s
      \<and> sfs_freemap s2 = sfs_freemap s \<and> sfs_vnodes s2 = []
      \<and> (\<forall>p \<in> set (sfs_vnodes s). data_apart s p \<longrightarrow> sfi_type (sv_i (svs s p)) \<in> {SFS_TYPE_FILE, SFS_TYPE_DIR} \<longrightarrow> found_again s p s2)"
    if "sfs_device s0 = sfs_device s1" "mount_env s0 sfs data ?N" for s0 sfs data
  proof -
    have b: "blk s0 = blk s1" using that(1) by (simp add: blk_def fun_eq_iff)
    then have d: "disk_bytes s0 ?N = disk_bytes s1 ?N" by (simp add: disk_bytes_def)
    have "disk_vol s0 (sb_nblocks s) M" using vol b d that(1) by (simp add: disk_vol_def)
    from mount_ok [OF this that(2)] obtain s2 where "sfs_domount sfs True True data s0 = Ok (0, s2)" "vol_ok s2 M"
        "sfs_freemap s2 = sfs_freemap s" and m: "sfs_ok s2 M" "sb_nblocks s2 = sb_nblocks s" "sfs_vnodes s2 = []" "blk s2 = blk s1"
      using b d fm by auto
    then show ?thesis using main [OF m] by auto
  qed
  then show ?thesis using s1(1-3,7) by auto
qed

text \<open>A volume of 16 blocks, bitmap and inode changed since the last sync: inode 3 has the data block 4.\<close>

definition ex_super :: "nat \<Rightarrow> byte" where
  "ex_super k = (if k < 8 then [0xab, 0xad, 0xf0, 0x01, 0, 0, 0, 16] ! k else 0)"

definition ex_vol_file :: sfs_vnode where
  "ex_vol_file = \<lparr>sv_i = (sv_i ex_file)\<lparr>sfi_direct := 4 # replicate 14 0\<rparr>, sv_ino = 3, sv_dirty = True, vn_refcount = 1\<rparr>"

definition ex_vol :: sfs_fs where
  "ex_vol = ex_sfs\<lparr>sfs_device := ex_lhd\<lparr>lh_disk := (lh_disk ex_lhd)(0 := ex_super)\<rparr>, sfs_freemapdirty := True,
     sfs_freemap := \<lparr>nbits = 4096, bm_v = [31, 0] @ replicate 510 0xff\<rparr>, svs := (\<lambda>p. ex_vol_file), sfs_vnodes := [0x80040000]\<rparr>"

definition ex_vol_used :: "nat set" where
  "ex_vol_used = {0, 1, 2, 3, 4} \<union> {16..<4096}"

lemma ex_vol_env: "same_env (ex_sfs\<lparr>sfs_vnodes := [0x80040000]\<rparr>) ex_vol" "ubuf ex_vol a n = ubuf ex_sfs a n"
proof -
  show "same_env (ex_sfs\<lparr>sfs_vnodes := [0x80040000]\<rparr>) ex_vol" by (simp add: same_env_def ex_vol_def same_dev_def ex_sfs_def)
  from ubuf_env [OF this] show "ubuf ex_vol a n = ubuf ex_sfs a n" by (simp add: ubuf_def scratch_def)
qed

lemma ex_vol_ok: "sfs_ok ex_vol ex_vol_used" "vol_ok ex_vol ex_vol_used"
proof -
  have "bit (31 :: byte) i \<longleftrightarrow> i \<in> {0, 1, 2, 3, 4}" if "i < 8" for i
  proof -
    have "i \<in> set [0..<8]" using that by simp
    then show ?thesis by (simp add: upt_rec) (auto simp: bit_iff_odd)
  qed
  from small_freemap [OF this] have "bitmap_rep (sfs_freemap ex_vol) 4096 ex_vol_used" by (simp add: ex_vol_def ex_vol_used_def)
  moreover have "lhd_wf (sfs_device ex_vol)" "bufs_ok ex_vol"
    using ex_sfs_ok same_dev_simps [of "sfs_device ex_sfs" "sfs_device ex_vol"]
    by (auto simp: sfs_ok_def bufs_ok_def scratch_def ex_vol_def ex_sfs_def same_dev_def)
  ultimately show "sfs_ok ex_vol ex_vol_used"
    using ex_sfs_ok by (auto simp: sfs_ok_def ex_vol_def ex_sfs_def ex_vol_used_def vfs_biglock_do_i_hold_def ex_lhd_def)
  have "ubuf ex_vol 0x80038000 512" "ubuf ex_vol (sv_i_addr 0x80040000) 512"
    using ex_ubuf_at [of "0x80038000" 512] ex_ubuf_at [of "0x80040018" 512] by (simp_all add: ex_vol_env(2) sv_i_addr_def)
  moreover have "blk ex_vol 0 = ex_super" by (simp add: blk_def ex_vol_def fun_eq_iff)
  then have "wd (blk ex_vol 0) 0 = SFS_MAGIC" "wd (blk ex_vol 0) 1 = 16" by (simp_all add: wd_def ex_super_def SFS_MAGIC_def)
  moreover have "fmb 16 = 1" by (simp add: fmb_def)
  ultimately show "vol_ok ex_vol ex_vol_used"
    by (simp add: vol_ok_def vnode_ok_def ex_vol_def ex_sfs_def ex_bufs_def in_use_def ex_vol_used_def ex_vol_file_def ex_file_def in_freemap_def)
qed

theorem sfs_sync_durable_witness:
  "\<exists>s1 s2. sfs_sync ex_vol = Ok (0, s1) \<and> sfs_domount 0x80060000 True True 0x80070000 (ex_vol\<lparr>sfs_device := sfs_device s1\<rparr>) = Ok (0, s2)
    \<and> sfs_freemap s2 = sfs_freemap ex_vol \<and> found_again ex_vol 0x80040000 s2"
proof -
  have n: "fmb (sb_nblocks ex_vol) = 1" by (simp add: ex_vol_def ex_sfs_def fmb_def)
  obtain s1 where s1: "sfs_sync ex_vol = Ok (0, s1)" "same_env ex_vol s1" "\<And>s0 sfs data. sfs_device s0 = sfs_device s1 \<Longrightarrow>
      mount_env s0 sfs data 1 \<Longrightarrow> \<exists>s2. sfs_domount sfs True True data s0 = Ok (0, s2) \<and> sfs_freemap s2 = sfs_freemap ex_vol
        \<and> (\<forall>p \<in> set (sfs_vnodes ex_vol). data_apart ex_vol p \<longrightarrow> sfi_type (sv_i (svs ex_vol p)) \<in> {SFS_TYPE_FILE, SFS_TYPE_DIR} \<longrightarrow> found_again ex_vol p s2)"
    using sfs_sync_durable [OF ex_vol_ok] unfolding n by blast
  let ?s0 = "ex_vol\<lparr>sfs_device := sfs_device s1\<rparr>"
  have d: "same_dev (sfs_device ex_vol) (sfs_device s1)" using s1(2) by (simp add: same_env_def)
  then have e: "same_env ex_vol ?s0" by (simp add: same_env_def)
  have "sfs_ok ?s0 ex_vol_used" by (rule sfs_ok_kept [OF ex_vol_ok(1) e]) (simp_all add: mem_kept_def)
  moreover have "ubuf ?s0 0x80060008 512" "ubuf ?s0 0x80070000 512"
    using ex_ubuf_at [of "0x80060008" 512] ex_ubuf_at [of "0x80070000" 512] ubuf_env [OF e] by (simp_all add: ex_vol_env(2))
  ultimately have "mount_env ?s0 0x80060000 0x80070000 1" by (simp add: mount_env_def sfs_ok_def)
  moreover have "data_apart ex_vol 0x80040000"
    unfolding data_apart_def n by (auto simp: fblocks_def fmap_def indirect_def ex_vol_def ex_vol_file_def ex_file_def nth_Cons' in_freemap_def split: if_splits)
  moreover have "sfs_vnodes ex_vol = [0x80040000]" "sfi_type (sv_i (svs ex_vol 0x80040000)) = SFS_TYPE_FILE"
    by (simp_all add: ex_vol_def ex_vol_file_def ex_file_def)
  ultimately show ?thesis using s1(1) s1(3) [of ?s0 "0x80060000" "0x80070000"] by auto
qed

end
