(* ===== verification/SFS_Names.thy ===== *)
theory SFS_Names
  imports SFS_Sync
begin

text \<open>
  Names of files: what \<open>sfs_creat\<close> makes, \<open>sfs_lookup\<close> finds, and \<open>sfs_remove\<close> takes away. The theorems
  are about the one directory that a volume has and the table of loaded vnodes.
\<close>

section \<open>Vnodes in the table\<close>

lemma table_find:
  assumes T: "table_ok s M" and p: "p \<in> set (sfs_vnodes s)"
  shows "find (\<lambda>q. sv_ino (svs s q) = sv_ino (svs s p)) (sfs_vnodes s) = Some p"
proof -
  have "find (\<lambda>q. f q = f p) l = Some p" if "distinct (map f l)" "p \<in> set l" for f :: "ptr \<Rightarrow> 32 word" and l
    using that by (induction l) auto
  from this [of "\<lambda>q. sv_ino (svs s q)"] show ?thesis using T p by (simp add: table_ok_def)
qed

lemma loadvnode_cached:
  assumes "sfs_ok s M" "table_ok s M" "p \<in> set (sfs_vnodes s)"
  shows "sfs_loadvnode (sv_ino (svs s p)) SFS_TYPE_INVAL new c s = Ok (0, p, sfs_incref p s)"
proof -
  have "\<forall>q \<in> set (sfs_vnodes s). in_use s M (sv_ino (svs s q))" using assms(2) by (simp add: table_ok_def)
  from find_vnode_ok [OF assms(1) this] show ?thesis using table_find [OF assms(2,3)] by (simp add: sfs_loadvnode_def)
qed

lemma loadvnode_fresh:
  assumes "sfs_ok s M" "table_ok s M" "ino \<notin> (\<lambda>p. sv_ino (svs s p)) ` set (sfs_vnodes s)"
  shows "sfs_loadvnode ino ty new c s = load_inode ino ty new c s"
proof -
  have "\<forall>q \<in> set (sfs_vnodes s). in_use s M (sv_ino (svs s q))" using assms(2) by (simp add: table_ok_def)
  moreover have "find (\<lambda>q. sv_ino (svs s q) = ino) (sfs_vnodes s) = None" using assms(3) by (auto simp: find_None_iff)
  ultimately show ?thesis using find_vnode_ok [OF assms(1)] by (simp add: sfs_loadvnode_def)
qed

lemma table_cong:
  assumes "table_ok s M" "\<And>p. sv_ino (svs s' p) = sv_ino (svs s p)" "sfs_vnodes s' = sfs_vnodes s" "sb_nblocks s' = sb_nblocks s" "M \<subseteq> M'"
  shows "table_ok s' M'"
  using assms by (auto simp: table_ok_def in_use_def)

lemma table_add:
  assumes T: "table_ok s M" and same: "\<And>p. p \<in> set (sfs_vnodes s) \<Longrightarrow> svs s' p = svs s p" and v: "sfs_vnodes s' = sfs_vnodes s @ [new]"
    and "sb_nblocks s' = sb_nblocks s" "M \<subseteq> M'" "in_use s' M' (sv_ino (svs s' new))"
    and fresh: "sv_ino (svs s' new) \<notin> (\<lambda>p. sv_ino (svs s p)) ` set (sfs_vnodes s)"
  shows "table_ok s' M'"
proof -
  have e: "map (\<lambda>p. sv_ino (svs s' p)) (sfs_vnodes s) = map (\<lambda>p. sv_ino (svs s p)) (sfs_vnodes s)" using same by simp
  have "distinct (map (\<lambda>p. sv_ino (svs s' p)) (sfs_vnodes s'))" unfolding v map_append e using T fresh by (simp add: table_ok_def)
  moreover have "in_use s' M' (sv_ino (svs s' p))" if "p \<in> set (sfs_vnodes s)" for p
    using T that assms(4,5) same [OF that] by (auto simp: table_ok_def in_use_def)
  ultimately show ?thesis using v assms(6) by (auto simp: table_ok_def)
qed

section \<open>New inodes\<close>

definition new_inode :: "16 word \<Rightarrow> sfs_dinode" where
  "new_inode ty = \<lparr>sfi_size = 0, sfi_type = ty, sfi_linkcount = 0, sfi_direct = replicate 15 0, sfi_indirect = 0\<rparr>"

lemma encode_zero: "encode_dinode (new_inode 0) = replicate 72 0"
  by (simp add: encode_dinode_def new_inode_def bytes32_def bytes16_def numeral_eq_Suc)

lemma makeobj_ok:
  assumes ok: "sfs_ok s M" and T: "table_ok s M" and room: "0 < nfree s M" and ty: "ty \<in> {SFS_TYPE_FILE, SFS_TYPE_DIR}"
    and n: "new \<noteq> NULL" "ubuf s (sv_i_addr new) 512" "new \<notin> set (sfs_vnodes s)"
  shows "\<exists>ino s'. sfs_makeobj ty new True s = Ok (0, new, s') \<and> unat ino \<notin> M \<and> ino \<noteq> 0 \<and> sfs_ok s' (insert (unat ino) M) \<and> in_use s' (insert (unat ino) M) ino
    \<and> svs s' = (svs s)(new := \<lparr>sv_i = new_inode ty, sv_ino = ino, sv_dirty = True, vn_refcount = 1\<rparr>)
    \<and> same_env (s\<lparr>sfs_vnodes := sfs_vnodes s @ [new]\<rparr>) s' \<and> (\<forall>c. c \<noteq> ino \<longrightarrow> blk s' c = blk s c) \<and> table_ok s' (insert (unat ino) M)"
proof -
  obtain ino s1 where b: "sfs_balloc 0 s = Ok (0, ino, s1)" "unat ino \<notin> M" "unat ino < unat (sb_nblocks s)" "ino \<noteq> 0"
      "sfs_ok s1 (insert (unat ino) M)" "same_env s s1" "svs s1 = svs s" "\<forall>k < 512. blk s1 ino k = 0" "\<forall>c. c \<noteq> ino \<longrightarrow> blk s1 c = blk s c"
    using balloc_ok [OF ok room] by blast
  let ?M = "insert (unat ino) M"
  have e: "sb_nblocks s1 = sb_nblocks s" "sfs_vnodes s1 = sfs_vnodes s" using b(6) by (simp_all add: same_env_def)
  have T1: "table_ok s1 ?M" by (rule table_cong [OF T]) (use b(7) e in auto)
  have fresh: "ino \<notin> (\<lambda>p. sv_ino (svs s p)) ` set (sfs_vnodes s)" using T b(2) by (auto simp: table_ok_def in_use_def)
  have u: "in_use s1 ?M ino" using b(3) e by (simp add: in_use_def)
  have sv: "saved s1 ino (new_inode 0)" using b(8) by (simp add: saved_def encode_zero)
  have ubuf: "ubuf s1 (sv_i_addr new) 512" using n(2) ubuf_env [OF b(6)] by simp
  have d: "new_inode ty = (if ty = SFS_TYPE_INVAL then new_inode 0 else (new_inode 0)\<lparr>sfi_type := ty\<rparr>)" "ty \<noteq> SFS_TYPE_INVAL"
      "sfi_type (new_inode ty) \<in> {SFS_TYPE_FILE, SFS_TYPE_DIR}" "sfi_type (new_inode 0) = SFS_TYPE_INVAL" "length (sfi_direct (new_inode 0)) = 15"
    using ty by (auto simp: new_inode_def SFS_TYPE_INVAL_def SFS_TYPE_FILE_def SFS_TYPE_DIR_def)
  obtain s2 where l: "load_inode ino ty new True s1 = Ok (0, new, s2)" "sfs_ok s2 ?M" "blk s2 = blk s1"
      "svs s2 = (svs s)(new := \<lparr>sv_i = new_inode ty, sv_ino = ino, sv_dirty = True, vn_refcount = 1\<rparr>)"
      "same_env (s1\<lparr>sfs_vnodes := sfs_vnodes s1 @ [new]\<rparr>) s2"
    using load_inode_ok [OF b(5) u sv d(5,4,1,3) n(1) ubuf] d(2) b(7) by auto
  have v: "sfs_vnodes s2 = sfs_vnodes s @ [new]" "sb_nblocks s2 = sb_nblocks s" using l(5) e by (simp_all add: same_env_def)
  have "sfs_makeobj ty new True s = Ok (0, new, s2)"
    using b(1) l(1) loadvnode_fresh [OF b(5) T1] fresh e(2) b(7) by (simp add: sfs_makeobj_def)
  moreover have "same_env (s\<lparr>sfs_vnodes := sfs_vnodes s @ [new]\<rparr>) s2"
    by (rule same_env_trans [OF _ l(5)]) (use b(6) in \<open>simp add: same_env_def\<close>)
  moreover have "table_ok s2 ?M"
    by (rule table_add [OF T _ v]) (use n(3) l(4) fresh b(3) v(2) in \<open>auto simp: in_use_def\<close>)
  moreover have "in_use s2 ?M ino" using u v(2) e(1) by (simp add: in_use_def)
  ultimately show ?thesis using b l by auto
qed

section \<open>Directories that are left alone\<close>

lemma slots_same:
  assumes "\<And>i. i < 143 * 512 \<Longrightarrow> fbyte s' sv i = fbyte s sv i" "fsize s' sv = fsize s sv" "nslots s sv \<le> 1144"
  shows "slots s' sv = slots s sv" "nslots s' sv = nslots s sv"
proof -
  show n: "nslots s' sv = nslots s sv" using assms(2) by (simp add: nslots_def)
  have "(wd (slot_bytes s' sv i) 0, name_of (slot_bytes s' sv i)) = (wd (slot_bytes s sv i) 0, name_of (slot_bytes s sv i))" if "i < nslots s sv" for i
  proof -
    have "slot_bytes s' sv i j = slot_bytes s sv i j" if "j < 64" for j
      unfolding slot_bytes_def using \<open>i < nslots s sv\<close> assms(3) that by (intro assms(1)) simp
    from entry_cong [OF this] show ?thesis by simp
  qed
  then show "slots s' sv = slots s sv" unfolding slots_def n by simp
qed

lemma fblocks_used: "file_ok s M sv \<Longrightarrow> c \<in> fblocks s sv \<Longrightarrow> in_use s M c"
  by (auto simp: fblocks_def file_ok_def)

lemma file_ok_uses:
  assumes "file_ok s M sv" "\<And>c. c \<in> fblocks s sv \<Longrightarrow> unat c \<in> M'"
  shows "file_ok s M' sv"
proof -
  have "indirect s sv \<in> fblocks s sv" if "indirect s sv \<noteq> 0" using that by (simp add: fblocks_def)
  moreover have "fmap s sv k \<in> fblocks s sv" if "k < 143" "fmap s sv k \<noteq> 0" for k using that by (simp add: fblocks_def)
  ultimately show ?thesis using assms unfolding file_ok_def in_use_def by blast
qed

lemma dir_frame_uses:
  assumes D: "dir_ok s M sv" and ok: "sfs_ok s' M'" and i: "svs s' sv = svs s sv" and e: "s_bufs s' = s_bufs s" "same_dev (sfs_device s) (sfs_device s')"
    and n: "sb_nblocks s' = sb_nblocks s" and b: "\<And>c. c \<in> fblocks s sv \<Longrightarrow> unat c \<in> M'" "\<And>c. c \<in> fblocks s sv \<Longrightarrow> blk s' c = blk s c"
  shows "dir_ok s' M' sv" "dmap s' sv = dmap s sv" "nslots s' sv = nslots s sv" "fblocks s' sv = fblocks s sv" "indirect s' sv = indirect s sv"
proof -
  note d = dir_okD [OF D]
  have i': "sv_i (svs s' sv) = sv_i (svs s sv)" using i by simp
  have F: "file_ok s' M sv" "\<And>k. k < 143 \<Longrightarrow> fmap s' sv k = fmap s sv k" "indirect s' sv = indirect s sv"
      "\<And>i. i < 143 * 512 \<Longrightarrow> fbyte s' sv i = fbyte s sv i"
    using file_frame [OF d(2) i' n order_refl] b(2) by auto
  show fb: "fblocks s' sv = fblocks s sv" using F(2,3) by (simp add: fblocks_def)
  have F': "file_ok s' M' sv" by (rule file_ok_uses [OF F(1)]) (use b(1) fb in simp)
  have z: "fsize s' sv = fsize s sv" using i by (simp add: fsize_def)
  note S = slots_same [OF F(4) z d(4)]
  have sc: "scratch s' = scratch s" using same_dev_simps(7) [OF e(2)] e(1) by (simp add: scratch_def fun_eq_iff)
  have ub: "ubuf s' a k = ubuf s a k" for a k using same_dev_simps(6) [OF e(2)] sc e(1) by (simp add: ubuf_def)
  show "dir_ok s' M' sv" using D ok F' S z i e(1) ub by (simp add: dir_ok_def)
  show "dmap s' sv = dmap s sv" using S(1) by (simp add: dmap_def)
  show "nslots s' sv = nslots s sv" by (rule S(2))
  show "indirect s' sv = indirect s sv" by (rule F(3))
qed

lemma dir_frame:
  assumes D: "dir_ok s M sv" and ok: "sfs_ok s' M'" and i: "svs s' sv = svs s sv" and e: "s_bufs s' = s_bufs s" "same_dev (sfs_device s) (sfs_device s')"
    and n: "sb_nblocks s' = sb_nblocks s" "M \<subseteq> M'" and b: "\<And>c. c \<in> fblocks s sv \<Longrightarrow> blk s' c = blk s c"
  shows "dir_ok s' M' sv" "dmap s' sv = dmap s sv" "nslots s' sv = nslots s sv" "fblocks s' sv = fblocks s sv" "indirect s' sv = indirect s sv"
proof -
  have "unat c \<in> M'" if "c \<in> fblocks s sv" for c using fblocks_used [OF dir_okD(2) [OF D] that] n(2) by (auto simp: in_use_def)
  note F = dir_frame_uses [OF D ok i e n(1) this b]
  show "dir_ok s' M' sv" "dmap s' sv = dmap s sv" "nslots s' sv = nslots s sv" "fblocks s' sv = fblocks s sv" "indirect s' sv = indirect s sv"
    by (rule F; assumption)+
qed

lemma dir_acquired:
  assumes "dir_ok s M sv"
  shows "dir_ok (vfs_biglock_acquire s) M sv" "dmap (vfs_biglock_acquire s) sv = dmap s sv" "nslots (vfs_biglock_acquire s) sv = nslots s sv"
    "fblocks (vfs_biglock_acquire s) sv = fblocks s sv" "indirect (vfs_biglock_acquire s) sv = indirect s sv"
  by (rule dir_frame [OF assms acquired(1) [OF dir_okD(1) [OF assms]]]; simp add: acquired vfs_biglock_acquire_def blk_def)+

lemma searched_table: "searched s M s1 \<Longrightarrow> table_ok s M \<Longrightarrow> table_ok s1 M"
  by (auto simp: searched_def same_env_def intro!: table_cong [of s M])

section \<open>Lookup\<close>

lemma lookonce_cached:
  assumes D: "dir_ok s M sv" and T: "table_ok s M" and p: "dmap s sv name = Some (sv_ino (svs s p))" "p \<in> set (sfs_vnodes s)"
    "sfi_linkcount (sv_i (svs s p)) \<noteq> 0"
  shows "\<exists>k s1. sfs_lookonce sv name new c s = Ok (0, p, int k, sfs_incref p s1) \<and> searched s M s1
    \<and> k < nslots s sv \<and> slots s sv ! k = (sv_ino (svs s p), name)"
proof -
  obtain d s1 k where f: "sfs_dir_findname sv name s = Ok (0, d, s1)" "searched s M s1" "ds_ino d = sv_ino (svs s p)"
      "k < nslots s sv" "ds_slot d = int k" "slots s sv ! k = (sv_ino (svs s p), name)"
    using findname_ok [OF D, of name] p(1) by auto
  have s1: "sfs_ok s1 M" "svs s1 = svs s" "sfs_vnodes s1 = sfs_vnodes s" using f(2) by (simp_all add: searched_def same_env_def)
  have "sfs_loadvnode (sv_ino (svs s p)) SFS_TYPE_INVAL new c s1 = Ok (0, p, sfs_incref p s1)"
    using loadvnode_cached [OF s1(1) searched_table [OF f(2) T], of p] p(2) s1 by simp
  moreover have "sfi_linkcount (sv_i (svs (sfs_incref p s1) p)) \<noteq> 0" using p(3) s1(2) by (simp add: sfs_incref_def upd_sv_def)
  ultimately have "sfs_lookonce sv name new c s = Ok (0, p, int k, sfs_incref p s1)" using f(1,3,5) by (simp add: sfs_lookonce_def)
  then show ?thesis using f(2,4,6) by blast
qed

lemma lookup_cached:
  assumes D: "dir_ok s M sv" and T: "table_ok s M" and p: "dmap s sv name = Some (sv_ino (svs s p))" "p \<in> set (sfs_vnodes s)"
    "sfi_linkcount (sv_i (svs s p)) \<noteq> 0"
  shows "\<exists>s'. sfs_lookup sv name new c s = Ok ((0, p), s') \<and> same_env s s' \<and> blk s' = blk s
    \<and> svs s' = (svs s)(p := (svs s p)\<lparr>vn_refcount := vn_refcount (svs s p) + 1\<rparr>)"
proof -
  let ?a = "vfs_biglock_acquire s"
  have "table_ok ?a M" using T by (simp add: table_ok_def acquired)
  then obtain k s1 where l: "sfs_lookonce sv name new c ?a = Ok (0, p, int k, sfs_incref p s1)" "searched ?a M s1"
    using lookonce_cached [OF dir_acquired(1) [OF D], of name p new c] p by (auto simp: acquired dir_acquired(2) [OF D])
  have s1: "same_env ?a s1" "svs s1 = svs s" "blk s1 = blk s" using l(2) by (simp_all add: searched_def acquired)
  have "vfs_biglock_depth (sfs_incref p s1) = Suc (vfs_biglock_depth s)"
    using s1(1) by (simp add: same_env_def sfs_incref_def upd_sv_def vfs_biglock_acquire_def)
  from unlocked_ok [OF this] have "sfs_lookup sv name new c s = Ok ((0, p), (sfs_incref p s1)\<lparr>vfs_biglock_depth := vfs_biglock_depth s\<rparr>)"
    using l(1) D by (simp add: sfs_lookup_def acquired dir_ok_def)
  moreover have "same_env s ((sfs_incref p s1)\<lparr>vfs_biglock_depth := vfs_biglock_depth s\<rparr>)"
    using s1(1) by (simp add: same_env_def sfs_incref_def upd_sv_def vfs_biglock_acquire_def)
  ultimately show ?thesis using s1(2,3) by (auto simp: sfs_incref_def upd_sv_def blk_def fun_eq_iff)
qed

section \<open>Creation\<close>

text \<open>A vnode and its inode are changed beside the directory.\<close>

lemma dir_other_vnode:
  assumes D: "dir_ok s M sv" and "p \<noteq> sv"
  shows "dir_ok (upd_sv p f s) M sv" "dmap (upd_sv p f s) sv = dmap s sv" "sfs_ok (upd_sv p f s) M"
proof -
  have e: "same_env s (upd_sv p f s)" by (simp add: same_env_def upd_sv_def)
  show ok: "sfs_ok (upd_sv p f s) M" by (rule sfs_ok_kept [OF dir_okD(1) [OF D] e]) (simp_all add: upd_sv_def mem_kept_def)
  note F = dir_frame [OF D ok]
  show "dir_ok (upd_sv p f s) M sv" "dmap (upd_sv p f s) sv = dmap s sv"
    by (rule F; use assms(2) in \<open>simp add: upd_sv_def blk_def\<close>)+
qed

text \<open>The state after the creation of \<open>new\<close> under \<open>name\<close>, when the lock is still held once more.\<close>

definition created :: "sfs_fs \<Rightarrow> nat set \<Rightarrow> ptr \<Rightarrow> byte list \<Rightarrow> ptr \<Rightarrow> sfs_fs \<Rightarrow> nat set \<Rightarrow> bool" where
  "created s M sv name new s' M' \<longleftrightarrow>
     dir_ok s' M' sv \<and> table_ok s' M' \<and> same_env (s\<lparr>sfs_vnodes := sfs_vnodes s @ [new]\<rparr>) s' \<and> M \<subseteq> M' \<and>
     unat (sv_ino (svs s' new)) \<notin> M \<and> dmap s' sv = (dmap s sv)(name \<mapsto> sv_ino (svs s' new)) \<and>
     sv_i (svs s' new) = (new_inode SFS_TYPE_FILE)\<lparr>sfi_linkcount := 1\<rparr> \<and> vn_refcount (svs s' new) = 1 \<and>
     (\<forall>p. p \<noteq> sv \<longrightarrow> p \<noteq> new \<longrightarrow> svs s' p = svs s p) \<and> (\<forall>c. unat c \<in> M \<longrightarrow> c \<notin> fblocks s sv \<longrightarrow> blk s' c = blk s c)"

lemma creat_work:
  assumes D: "dir_ok s M sv" and T: "table_ok s M" and room: "spare s M sv 2" "nslots s sv < 1144"
    and n: "dmap s sv name = None" "length name < 60" "0 \<notin> set name"
    and new: "new \<noteq> NULL" "ubuf s (sv_i_addr new) 512" "new \<notin> set (sfs_vnodes s)" "new \<noteq> sv"
  shows "\<exists>k s1 s2 M'. sfs_makeobj SFS_TYPE_FILE new True s = Ok (0, new, s1) \<and> sfs_dir_link sv name (sv_ino (svs s1 new)) s1 = Ok (0, k, s2)
    \<and> created s M sv name new (upd_inode new (\<lambda>d. d\<lparr>sfi_linkcount := sfi_linkcount d + 1\<rparr>) s2) M'"
proof -
  note d = dir_okD [OF D]
  have "0 < nfree s M" using room(1) by (simp add: spare_def)
  then obtain ino s1 where m: "sfs_makeobj SFS_TYPE_FILE new True s = Ok (0, new, s1)" "unat ino \<notin> M" "ino \<noteq> 0" "sfs_ok s1 (insert (unat ino) M)"
      "in_use s1 (insert (unat ino) M) ino" "svs s1 = (svs s)(new := \<lparr>sv_i = new_inode SFS_TYPE_FILE, sv_ino = ino, sv_dirty = True, vn_refcount = 1\<rparr>)"
      "same_env (s\<lparr>sfs_vnodes := sfs_vnodes s @ [new]\<rparr>) s1" "\<forall>c. c \<noteq> ino \<longrightarrow> blk s1 c = blk s c" "table_ok s1 (insert (unat ino) M)"
    using makeobj_ok [OF d(1) T _ _ new(1-3), of SFS_TYPE_FILE] by auto
  let ?M = "insert (unat ino) M"
  have nb: "sb_nblocks s1 = sb_nblocks s" using m(7) by (simp add: same_env_def)
  have keep: "blk s1 c = blk s c" if "unat c \<in> M" for c using that m(2,8) by auto
  have fb: "unat c \<in> M" if "c \<in> fblocks s sv" for c using fblocks_used [OF d(2) that] by (simp add: in_use_def)
  have D1: "dir_ok s1 ?M sv" "dmap s1 sv = dmap s sv" "nslots s1 sv = nslots s sv" "fblocks s1 sv = fblocks s sv" "indirect s1 sv = indirect s sv"
    by (rule dir_frame [OF D m(4)]; use m(6,7) new(4) keep fb in \<open>auto simp: same_env_def\<close>)+
  have "nfree s M = Suc (nfree s1 ?M)" using m(2,5) nb by (intro nfree_insert) (simp_all add: in_use_def)
  then have "spare s1 ?M sv 1" using room(1) D1(5) by (simp add: spare_def)
  moreover have "dmap s1 sv name = None" "nslots s1 sv < 1144" using n(1) room(2) D1 by simp_all
  ultimately obtain k s2 M' where l: "sfs_dir_link sv name ino s1 = Ok (0, int k, s2)" "dir_ok s2 M' sv" "framed s1 ?M sv s2 M'"
      "dmap s2 sv = (dmap s sv)(name \<mapsto> ino)"
    using link_new [OF D1(1) _ _ _ n(2,3) m(3)] D1(2) by metis
  note f = l(3) [unfolded framed_def]
  let ?f = "\<lambda>v. v\<lparr>sv_i := (sv_i v)\<lparr>sfi_linkcount := sfi_linkcount (sv_i v) + 1\<rparr>, sv_dirty := True\<rparr>"
  let ?s = "upd_sv new ?f s2"
  note O = dir_other_vnode [OF l(2) new(4), of ?f]
  have s2: "svs s2 new = svs s1 new" "svs s1 new = \<lparr>sv_i = new_inode SFS_TYPE_FILE, sv_ino = ino, sv_dirty = True, vn_refcount = 1\<rparr>"
    using f new(4) m(6) by simp_all
  have "table_ok ?s M'"
    by (rule table_cong [OF m(9)]) (use f in \<open>auto simp: upd_sv_def same_env_def\<close>)
  moreover have "same_env (s\<lparr>sfs_vnodes := sfs_vnodes s @ [new]\<rparr>) ?s"
    by (rule same_env_trans [OF m(7)]) (use f in \<open>simp add: same_env_def upd_sv_def\<close>)
  moreover have "blk ?s c = blk s c" if "unat c \<in> M" "c \<notin> fblocks s sv" for c
    using that f D1(4) keep [OF that(1)] by (simp add: blk_def upd_sv_def)
  moreover have "svs ?s p = svs s p" if "p \<noteq> sv" "p \<noteq> new" for p using that f m(6) by (simp add: upd_sv_def)
  ultimately have "created s M sv name new ?s M'"
    using O f s2 l(4) m(2) by (auto simp: created_def upd_sv_def new_inode_def)
  then show ?thesis using m(1) l(1) s2(2) by (auto simp: upd_inode_def)
qed

lemma created_file: "created s M sv name new s' M' \<Longrightarrow> file_ok s' M' new \<and> fbyte s' new i = 0 \<and> fblocks s' new = {}"
proof -
  assume "created s M sv name new s' M'"
  then have i: "sv_i (svs s' new) = (new_inode SFS_TYPE_FILE)\<lparr>sfi_linkcount := 1\<rparr>" by (simp add: created_def)
  have z: "indirect s' new = 0" "\<And>k. fmap s' new k = 0" by (simp_all add: indirect_def fmap_def i) (simp_all add: new_inode_def)
  have "length (sfi_direct (sv_i (svs s' new))) = 15" by (simp add: i new_inode_def)
  then show ?thesis using z by (auto simp: file_ok_def fbyte_def fblocks_def)
qed

lemma created_other:
  assumes C: "created s M sv name new s' M'" and A: "apart s M sv p" "p \<noteq> new"
  shows "svs s' p = svs s p \<and> (\<forall>i < 143 * 512. fbyte s' p i = fbyte s p i)"
proof -
  have F: "file_ok s M p" "p \<noteq> sv" "fblocks s p \<inter> fblocks s sv = {}" using A(1) by (simp_all add: apart_def)
  have "svs s' p = svs s p" using C F(2) A(2) by (simp add: created_def)
  moreover have "blk s' c = blk s c" if "c \<in> fblocks s p" for c
    using C F(3) that fblocks_used [OF F(1) that] by (auto simp: created_def in_use_def)
  ultimately show ?thesis by (auto intro: fbyte_moved)
qed

lemma created_released:
  assumes C: "created s1 M sv name new s2 M'" and S: "searched (vfs_biglock_acquire s) M s1" and D: "dir_ok s M sv"
  shows "unlocked r s2 = Ok (r, s2\<lparr>vfs_biglock_depth := vfs_biglock_depth s\<rparr>)" "created s M sv name new (s2\<lparr>vfs_biglock_depth := vfs_biglock_depth s\<rparr>) M'"
proof -
  let ?s = "s\<lparr>sfs_vnodes := sfs_vnodes s @ [new]\<rparr>" and ?s2 = "s2\<lparr>vfs_biglock_depth := vfs_biglock_depth s\<rparr>"
  note c = C [unfolded created_def]
  have s1: "same_env (vfs_biglock_acquire s) s1" "svs s1 = svs s" "blk s1 = blk s" using S by (simp_all add: searched_def acquired)
  have "same_env (vfs_biglock_acquire ?s) s2"
    by (rule same_env_trans [of _ "s1\<lparr>sfs_vnodes := sfs_vnodes s1 @ [new]\<rparr>"]) (use c s1(1) in \<open>auto simp: same_env_def vfs_biglock_acquire_def\<close>)
  moreover have "sfs_ok s2 M'" "vfs_biglock_do_i_hold ?s" using c dir_okD(1) sfs_okD(5) [OF dir_okD(1) [OF D]] by (auto simp: vfs_biglock_do_i_hold_def)
  ultimately have R: "unlocked r s2 = Ok (r, ?s2)" "same_env ?s ?s2" "sfs_ok ?s2 M'" using released [of ?s s2 M'] by simp_all
  show "unlocked r s2 = Ok (r, ?s2)" by (rule R(1))
  have d: "dir_ok s2 M' sv" using c by simp
  have E: "dir_ok ?s2 M' sv" "dmap ?s2 sv = dmap s2 sv" by (rule dir_frame [OF d R(3)]; simp add: blk_def)+
  moreover have "table_ok ?s2 M'" using c by (simp add: table_ok_def in_use_def)
  moreover have "dmap s1 sv = dmap s sv" "fblocks s1 sv = fblocks s sv"
    using searched_dir [OF S dir_acquired(1) [OF D]] searched_same(6) [OF S, of sv] dir_acquired [OF D] by simp_all
  ultimately show "created s M sv name new ?s2 M'" using c R(2) s1(2,3) by (simp add: created_def blk_def fun_eq_iff)
qed

text \<open>
  (C22) Creation: for a name that a well-formed directory does not have, \<open>sfs_creat\<close> with room for an
  inode and a directory entry succeeds. The directory is the map with the new name, which leads to
  an inode that was free; the new file is empty, has one link and one reference; every
  other file that shares no block with the directory keeps its inode and bytes. Looking up the name
  afterwards gives the new vnode and counts the reference.
\<close>

theorem sfs_creat_lookup:
  assumes "dir_ok s M sv" "table_ok s M" "spare s M sv 2" "nslots s sv < 1144" "dmap s sv name = None" "length name < 60" "0 \<notin> set name"
    and "new \<noteq> NULL" "ubuf s (sv_i_addr new) 512" "new \<notin> set (sfs_vnodes s)" "new \<noteq> sv"
  shows "\<exists>s' M'. sfs_creat sv name excl new True s = Ok ((0, new), s') \<and> created s M sv name new s' M' \<and> file_ok s' M' new
    \<and> (\<forall>p. apart s M sv p \<longrightarrow> p \<noteq> new \<longrightarrow> svs s' p = svs s p \<and> (\<forall>i < 143 * 512. fbyte s' p i = fbyte s p i))
    \<and> (\<forall>x c. \<exists>s''. sfs_lookup sv name x c s' = Ok ((0, new), s'') \<and> vn_refcount (svs s'' new) = 2)"
proof -
  note A = dir_acquired [OF assms(1)]
  obtain d s1 where f: "sfs_dir_findname sv name (vfs_biglock_acquire s) = Ok (ENOENT, d, s1)" "searched (vfs_biglock_acquire s) M s1"
    using findname_ok [OF A(1), of name] assms(5) A(2) by auto
  have T: "table_ok s1 M" by (rule searched_table [OF f(2)]) (use assms(2) in \<open>simp add: table_ok_def acquired\<close>)
  note E = searched_same [OF f(2)]
  have e: "svs s1 = svs s" "blk s1 = blk s" "sb_nblocks s1 = sb_nblocks s" "sfs_vnodes s1 = sfs_vnodes s"
    using f(2) by (simp_all add: searched_def acquired same_env_def)
  have "spare s1 M sv 2" using assms(3) e(1,3) by (simp add: spare_def nfree_def indirect_def)
  then obtain k s2 s3 M' where w: "sfs_makeobj SFS_TYPE_FILE new True s1 = Ok (0, new, s2)"
      "sfs_dir_link sv name (sv_ino (svs s2 new)) s2 = Ok (0, k, s3)"
      "created s1 M sv name new (upd_inode new (\<lambda>d. d\<lparr>sfi_linkcount := sfi_linkcount d + 1\<rparr>) s3) M'"
    using creat_work [of s1 M sv name new] searched_dir [OF f(2) A(1)] T assms(4-11) A E e(4) by (auto simp: acquired)
  note R = created_released [OF w(3) f(2) assms(1)]
  let ?s = "(upd_inode new (\<lambda>d. d\<lparr>sfi_linkcount := sfi_linkcount d + 1\<rparr>) s3)\<lparr>vfs_biglock_depth := vfs_biglock_depth s\<rparr>"
  have "sfs_creat sv name excl new True s = Ok ((0, new), ?s)"
    using f(1) w(1,2) R(1) by (simp add: sfs_creat_def ENOENT_def)
  moreover have "\<exists>s''. sfs_lookup sv name x c ?s = Ok ((0, new), s'') \<and> vn_refcount (svs s'' new) = 2" for x c
    using lookup_cached [of ?s M' sv name new x c] R(2) by (auto simp: created_def same_env_def)
  ultimately show ?thesis using R(2) created_file [OF R(2)] created_other [OF R(2)] by blast
qed

text \<open>The directory of \<open>SFS_Dir_Spec\<close>, with its inode in use and in the table.\<close>

definition ex_root :: sfs_fs where
  "ex_root = ex_dir_sfs\<lparr>sfs_freemap := \<lparr>nbits = 4096, bm_v = [15, 0] @ replicate 510 0xff\<rparr>\<rparr>"

definition ex_root_used :: "nat set" where
  "ex_root_used = {0, 1, 2, 3} \<union> {16..<4096}"

lemma ex_root_ok: "dir_ok ex_root ex_root_used 0x80008000" "table_ok ex_root ex_root_used" "dmap ex_root 0x80008000 = dmap ex_dir_sfs 0x80008000"
    "nslots ex_root 0x80008000 = 1" "spare ex_root ex_root_used 0x80008000 2" "ubuf ex_root a n = ubuf ex_sfs a n"
proof -
  have "bit (15 :: byte) i \<longleftrightarrow> i \<in> {0, 1, 2, 3}" if "i < 8" for i
  proof -
    have "i \<in> set [0..<8]" using that by simp
    then show ?thesis by (simp add: upt_rec) (auto simp: bit_iff_odd)
  qed
  from small_freemap [OF this] have "bitmap_rep (sfs_freemap ex_root) 4096 ex_root_used" by (simp add: ex_root_def ex_root_used_def)
  moreover have "bufs_ok ex_root" using ex_dir_env(2) by (auto simp: sfs_ok_def bufs_ok_def scratch_def ex_root_def)
  ultimately have ok: "sfs_ok ex_root ex_root_used"
    using ex_dir_env(2) by (auto simp: sfs_ok_def ex_root_def ex_dir_sfs_def ex_sfs_def ex_root_used_def vfs_biglock_do_i_hold_def)
  have F: "dir_ok ex_root ex_root_used 0x80008000" "dmap ex_root 0x80008000 = dmap ex_dir_sfs 0x80008000"
      "nslots ex_root 0x80008000 = nslots ex_dir_sfs 0x80008000" "indirect ex_root 0x80008000 = indirect ex_dir_sfs 0x80008000"
    by (rule dir_frame [OF ex_dir_ok ok]; force simp: ex_root_def blk_def ex_used_def ex_root_used_def)+
  show "dir_ok ex_root ex_root_used 0x80008000" "dmap ex_root 0x80008000 = dmap ex_dir_sfs 0x80008000" "nslots ex_root 0x80008000 = 1"
    using F ex_dir_slots by simp_all
  show "table_ok ex_root ex_root_used"
    by (simp add: table_ok_def ex_root_def ex_dir_sfs_def ex_sfs_def in_use_def ex_root_used_def ex_dir_def SFS_ROOTDIR_INO_def)
  have "{..<unat (sb_nblocks ex_root)} - ex_root_used = {4..<16}" by (auto simp: ex_root_def ex_dir_sfs_def ex_sfs_def ex_root_used_def)
  then show "spare ex_root ex_root_used 0x80008000 2" unfolding spare_def nfree_def F(4) ex_dir_fmap by simp
  show "ubuf ex_root a n = ubuf ex_sfs a n" by (simp add: ex_root_def ex_dir_sfs_def ubuf_def scratch_def)
qed

theorem sfs_creat_lookup_witness:
  "\<exists>s' s''. sfs_creat 0x80008000 [97] True 0x80040000 True ex_root = Ok ((0, 0x80040000), s')
    \<and> sfs_lookup 0x80008000 [97] 0 True s' = Ok ((0, 0x80040000), s'') \<and> vn_refcount (svs s'' 0x80040000) = 2"
proof -
  have "dmap ex_root 0x80008000 [97] = None" unfolding ex_root_ok(3) by (simp add: dmap_def ex_dir_slots used_slots_def ex_name_def upt_rec)
  moreover have "ubuf ex_root (sv_i_addr 0x80040000) 512"
    unfolding ex_root_ok(6) sv_i_addr_def by (rule ex_ubuf_at) simp_all
  moreover have "sfs_vnodes ex_root = [0x80008000]" by (simp add: ex_root_def ex_dir_sfs_def ex_sfs_def)
  ultimately obtain s' where "sfs_creat 0x80008000 [97] True 0x80040000 True ex_root = Ok ((0, 0x80040000), s')"
      "\<forall>x c. \<exists>s''. sfs_lookup 0x80008000 [97] x c s' = Ok ((0, 0x80040000), s'') \<and> vn_refcount (svs s'' 0x80040000) = 2"
    using sfs_creat_lookup [OF ex_root_ok(1,2,5), of "[97]" "0x80040000" True] ex_root_ok(4) by auto
  then show ?thesis by blast
qed

end
