(* ===== verification/SFS_Remove.thy ===== *)
theory SFS_Remove
  imports SFS_Names
begin

text \<open>
  Removal of a file: \<open>sfs_remove\<close> takes the name away, and with the last link and the last reference
  everything that the file occupies.
\<close>

section \<open>Reclaiming a file without links\<close>

lemma itrunc_all:
  assumes ok: "sfs_ok s M" and F: "file_ok s M p"
  shows "\<exists>s'. sfs_itrunc p 0 s = Ok (0, s') \<and> sfs_ok s' (without M (fblocks s p)) \<and> same_env s s' \<and> (\<forall>q. q \<noteq> p \<longrightarrow> svs s' q = svs s q)
    \<and> sv_ino (svs s' p) = sv_ino (svs s p) \<and> vn_refcount (svs s' p) = vn_refcount (svs s p) \<and> sv_dirty (svs s' p)
    \<and> sfi_linkcount (sv_i (svs s' p)) = sfi_linkcount (sv_i (svs s p)) \<and> length (sfi_direct (sv_i (svs s' p))) = 15
    \<and> (\<forall>c. c \<noteq> 0 \<longrightarrow> c \<notin> fblocks s p \<longrightarrow> blk s' c = blk s c)"
proof -
  let ?a = "vfs_biglock_acquire s"
  obtain t s' M' where r: "sfs_itrunc p 0 s = Ok (0, s')" "truncated ?a M p 0 t M'"
      "s' = (upd_inode p (\<lambda>d. d\<lparr>sfi_size := 0\<rparr>) t)\<lparr>vfs_biglock_depth := vfs_biglock_depth s\<rparr>"
    using sfs_itrunc_run [OF ok F, of 0] by auto
  note T = r(2) [unfolded truncated_def]
  have fb: "fblocks ?a p = fblocks s p" "indirect ?a p = indirect s p" using acquired(2,3) [of s] by (simp_all add: fblocks_def fmap_def indirect_def)
  have "fmap t p k = 0" if "k < 143" for k using T that by (auto simp: cut_def)
  then have "fblocks t p = {}" using T by (auto simp: fblocks_def)
  then have M': "M' = without M (fblocks s p)" using T fb by simp
  have "sfs_ok (upd_inode p (\<lambda>d. d\<lparr>sfi_size := 0\<rparr>) t) M'" "same_env ?a (upd_inode p (\<lambda>d. d\<lparr>sfi_size := 0\<rparr>) t)"
    using T set_size(1,7) by auto
  note R = released [OF this(2,1) sfs_okD(5) [OF ok], folded r(3)]
  have "blk s' c = blk s c" if "c \<noteq> 0" "c \<notin> fblocks s p" for c
  proof -
    have "c \<noteq> indirect s p" using that by (auto simp: fblocks_def)
    then show ?thesis using T fb R(6) by (simp add: blk_def upd_inode_def upd_sv_def acquired fun_eq_iff)
  qed
  moreover have v: "svs s' = (svs t)(p := (svs t p)\<lparr>sv_i := (sv_i (svs t p))\<lparr>sfi_size := 0\<rparr>, sv_dirty := True\<rparr>)"
    by (simp add: r(3) upd_inode_def upd_sv_def)
  moreover have "\<forall>q. q \<noteq> p \<longrightarrow> svs t q = svs s q" "same_inode (svs s p) (svs t p)" "length (sfi_direct (sv_i (svs t p))) = 15"
    using T by (simp_all add: acquired file_ok_def)
  ultimately show ?thesis using r(1) R(3,4) M' by (simp add: same_inode_def)
qed

lemma reclaim_unlinked:
  assumes ok: "sfs_ok s M" and F: "file_ok s M p" and u: "ubuf s (sv_i_addr p) 512" and T: "p \<in> set (sfs_vnodes s)"
    and i: "in_use s M (sv_ino (svs s p))" "sv_ino (svs s p) \<noteq> 0" "sv_ino (svs s p) \<notin> fblocks s p"
    and r: "vn_refcount (svs s p) = 1" "sfi_linkcount (sv_i (svs s p)) = 0"
  shows "\<exists>s'. sfs_reclaim p s = Ok (0, s') \<and> sfs_ok s' (without M (insert (sv_ino (svs s p)) (fblocks s p)))
    \<and> same_env (s\<lparr>sfs_vnodes := remove1 p (sfs_vnodes s)\<rparr>) s' \<and> (\<forall>q. q \<noteq> p \<longrightarrow> svs s' q = svs s q)
    \<and> (\<forall>c. c \<noteq> 0 \<longrightarrow> c \<noteq> sv_ino (svs s p) \<longrightarrow> c \<notin> fblocks s p \<longrightarrow> blk s' c = blk s c)"
proof -
  let ?a = "vfs_biglock_acquire s" and ?ino = "sv_ino (svs s p)"
  have fb: "fblocks ?a p = fblocks s p" "file_ok ?a M p"
    using F lock_same [where s = s and d = "vfs_biglock_depth s + 1", folded vfs_biglock_acquire_def] by simp_all
  obtain s1 where s1: "sfs_itrunc p 0 ?a = Ok (0, s1)" "sfs_ok s1 (without M (fblocks s p))" "same_env ?a s1" "\<forall>q. q \<noteq> p \<longrightarrow> svs s1 q = svs s q"
      "sv_ino (svs s1 p) = ?ino" "vn_refcount (svs s1 p) = 1" "sfi_linkcount (sv_i (svs s1 p)) = 0"
      "sv_dirty (svs s1 p)" "length (sfi_direct (sv_i (svs s1 p))) = 15" "\<forall>c. c \<noteq> 0 \<longrightarrow> c \<notin> fblocks s p \<longrightarrow> blk s1 c = blk s c"
    using itrunc_all [OF acquired(1) [OF ok] fb(2)] r by (auto simp: fb(1) acquired)
  have nb: "sb_nblocks s1 = sb_nblocks s" using s1(3) by (simp add: same_env_def vfs_biglock_acquire_def)
  have u1: "in_use s1 (without M (fblocks s p)) ?ino" using i nb by (auto simp: in_use_def in_without)
  have "ubuf s1 (sv_i_addr p) 512" using u ubuf_env [OF s1(3)] by (simp add: acquired)
  then obtain s2 where s2: "sfs_sync_inode p s1 = Ok (0, s2)" "sfs_ok s2 (without M (fblocks s p))" "same_env s1 s2"
      "svs s2 = (svs s1)(p := (svs s1 p)\<lparr>sv_dirty := False\<rparr>)" "\<forall>c. c \<noteq> ?ino \<longrightarrow> blk s2 c = blk s1 c"
    using sync_inode_ok [OF s1(2), of p] u1 s1(5,8,9) by auto
  have u2: "in_use s2 (without M (fblocks s p)) ?ino" using u1 s2(3) by (simp add: in_use_def same_env_def)
  obtain bm where f: "sfs_bfree ?ino s2 = Ok (s2\<lparr>sfs_freemap := bm, sfs_freemapdirty := True\<rparr>)"
      "sfs_ok (s2\<lparr>sfs_freemap := bm, sfs_freemapdirty := True\<rparr>) (without M (fblocks s p) - {unat ?ino})"
    using bfree_ok [OF s2(2) u2 i(2)] by blast
  have v: "sfs_vnodes s2 = sfs_vnodes s" "vfs_biglock_depth s2 = Suc (vfs_biglock_depth s)"
    using s1(3) s2(3) by (simp_all add: same_env_def vfs_biglock_acquire_def)
  let ?s = "s2\<lparr>sfs_freemap := bm, sfs_freemapdirty := True, sfs_vnodes := remove1 p (sfs_vnodes s),
    svs := (svs s2)(p := (svs s2 p)\<lparr>vn_refcount := 0\<rparr>), vfs_biglock_depth := vfs_biglock_depth s\<rparr>"
  have "sfs_reclaim p s = Ok (0, ?s)"
    using r T s1(1,5-7) s2(1,4) f(1)
    by (simp add: sfs_reclaim_def acquired reclaim_discard_def v vfs_biglock_release_def vfs_biglock_do_i_hold_def upd_sv_def)
  moreover have "sfs_ok ?s (without M (insert ?ino (fblocks s p)))"
    using f(2) i(2) sfs_okD(5) [OF ok] by (auto simp: without_insert sfs_ok_def vfs_biglock_do_i_hold_def bufs_ok_def scratch_def)
  moreover have "same_env (s\<lparr>sfs_vnodes := remove1 p (sfs_vnodes s)\<rparr>) ?s"
    using same_env_trans [OF s1(3) s2(3)] by (simp add: same_env_def vfs_biglock_acquire_def)
  ultimately show ?thesis using s1(4,10) s2(4,5) by (auto simp: blk_def)
qed

section \<open>Removal\<close>

text \<open>The volume as if the inode \<open>d\<close> were loaded at \<open>new\<close>.\<close>

definition loaded :: "sfs_fs \<Rightarrow> ptr \<Rightarrow> sfs_dinode \<Rightarrow> daddr \<Rightarrow> sfs_fs" where
  "loaded s new d ino = s\<lparr>svs := (svs s)(new := \<lparr>sv_i = d, sv_ino = ino, sv_dirty = False, vn_refcount = 1\<rparr>)\<rparr>"

lemma lookonce_fresh:
  assumes D: "dir_ok s M sv" and T: "table_ok s M" and n: "dmap s sv name = Some ino" "ino \<notin> (\<lambda>p. sv_ino (svs s p)) ` set (sfs_vnodes s)"
    and i: "in_use s M ino" "saved s ino d" "length (sfi_direct d) = 15" "sfi_linkcount d \<noteq> 0" "sfi_type d = SFS_TYPE_FILE"
    and new: "new \<noteq> NULL" "ubuf s (sv_i_addr new) 512" "new \<noteq> sv" "new \<notin> set (sfs_vnodes s)"
  shows "\<exists>k s'. sfs_lookonce sv name new True s = Ok (0, new, int k, s') \<and> dir_ok s' M sv \<and> table_ok s' M \<and> dmap s' sv = dmap s sv
    \<and> k < nslots s' sv \<and> slots s' sv ! k = (ino, name) \<and> blk s' = blk s \<and> svs s' = svs (loaded s new d ino)
    \<and> same_env (s\<lparr>sfs_vnodes := sfs_vnodes s @ [new]\<rparr>) s'"
proof -
  obtain e s1 k where f: "sfs_dir_findname sv name s = Ok (0, e, s1)" "searched s M s1" "ds_ino e = ino"
      "k < nslots s sv" "ds_slot e = int k" "slots s sv ! k = (ino, name)"
    using findname_ok [OF D, of name] n(1) by auto
  have s1: "sfs_ok s1 M" "same_env s s1" "svs s1 = svs s" "sfs_vnodes s1 = sfs_vnodes s" "blk s1 = blk s" "sb_nblocks s1 = sb_nblocks s"
    using f(2) by (simp_all add: searched_def same_env_def)
  have T1: "table_ok s1 M" by (rule searched_table [OF f(2) T])
  have "in_use s1 M ino" "saved s1 ino d" "ubuf s1 (sv_i_addr new) 512" using i(1,2) new(2) s1 ubuf_env [OF s1(2)] by (simp_all add: in_use_def saved_def)
  then obtain s2 where l: "load_inode ino SFS_TYPE_INVAL new True s1 = Ok (0, new, s2)" "sfs_ok s2 M" "blk s2 = blk s"
      "svs s2 = svs (loaded s new d ino)" "same_env (s1\<lparr>sfs_vnodes := sfs_vnodes s1 @ [new]\<rparr>) s2"
    using load_inode_ok [OF s1(1) _ _ i(3) _ _ _ new(1), of ino SFS_TYPE_INVAL d] i(5) s1 by (auto simp: loaded_def)
  have "sfs_loadvnode ino SFS_TYPE_INVAL new True s1 = Ok (0, new, s2)"
    using loadvnode_fresh [OF s1(1) T1, of ino] n(2) l(1) s1 by simp
  moreover have "sfi_linkcount (sv_i (svs s2 new)) \<noteq> 0" using l(4) i(4) by (simp add: loaded_def)
  ultimately have "sfs_lookonce sv name new True s = Ok (0, new, int k, s2)" using f by (simp add: sfs_lookonce_def)
  moreover have E: "same_env (s\<lparr>sfs_vnodes := sfs_vnodes s @ [new]\<rparr>) s2"
    by (rule same_env_trans [OF _ l(5)]) (use s1(2) in \<open>simp add: same_env_def\<close>)
  moreover have sv: "svs s2 sv = svs s sv" using l(4) new(3) by (simp add: loaded_def)
  have F: "dir_ok s2 M sv" "dmap s2 sv = dmap s sv" "nslots s2 sv = nslots s sv"
    by (rule dir_frame [OF D l(2) sv]; use E l(3) in \<open>simp add: same_env_def\<close>)+
  moreover have "slots s2 sv = slots s sv"
  proof (rule slots_same(1))
    show "fbyte s2 sv i = fbyte s sv i" if "i < 143 * 512" for i using that sv l(3) by (intro fbyte_moved) simp_all
    show "fsize s2 sv = fsize s sv" using sv by (simp add: fsize_def)
  qed (rule dir_okD(4) [OF D])
  moreover have "table_ok s2 M"
    by (rule table_add [OF T, of s2 new]) (use n(2) new(4) i(1) E l(4) in \<open>auto simp: same_env_def loaded_def in_use_def\<close>)
  ultimately show ?thesis using f(4,6) l(3,4) by auto
qed

lemma dmap_nonzero: "dmap s sv name = Some ino \<Longrightarrow> ino \<noteq> 0"
  unfolding dmap_def used_slots_def by (drule map_of_SomeD) auto

lemma vnodes_irrelevant [simp]:
  "blk (s\<lparr>sfs_vnodes := l\<rparr>) = blk s" "fblocks (s\<lparr>sfs_vnodes := l\<rparr>) = fblocks s" "dmap (s\<lparr>sfs_vnodes := l\<rparr>) = dmap s"
proof -
  have b: "blk (s\<lparr>sfs_vnodes := l\<rparr>) = blk s" "indirect (s\<lparr>sfs_vnodes := l\<rparr>) = indirect s" "nslots (s\<lparr>sfs_vnodes := l\<rparr>) = nslots s"
    by (simp_all add: blk_def indirect_def nslots_def fsize_def fun_eq_iff)
  have f: "fmap (s\<lparr>sfs_vnodes := l\<rparr>) = fmap s" by (simp add: fmap_def b fun_eq_iff)
  have "slot_bytes (s\<lparr>sfs_vnodes := l\<rparr>) = slot_bytes s" by (simp add: slot_bytes_def fbyte_def f b fun_eq_iff)
  then show "blk (s\<lparr>sfs_vnodes := l\<rparr>) = blk s" "fblocks (s\<lparr>sfs_vnodes := l\<rparr>) = fblocks s" "dmap (s\<lparr>sfs_vnodes := l\<rparr>) = dmap s"
    using b f by (simp_all add: fblocks_def [abs_def] dmap_def [abs_def] slots_def [abs_def])
qed

text \<open>What is left when the file of inode \<open>ino\<close> with the blocks \<open>B\<close> is gone.\<close>

definition removed :: "sfs_fs \<Rightarrow> nat set \<Rightarrow> ptr \<Rightarrow> byte list \<Rightarrow> daddr set \<Rightarrow> ptr \<Rightarrow> sfs_fs \<Rightarrow> nat set \<Rightarrow> bool" where
  "removed s M sv name B new s' M' \<longleftrightarrow>
     dir_ok s' M' sv \<and> dmap s' sv = (dmap s sv)(name := None) \<and> same_env s s' \<and> without M B \<subseteq> M' \<and> (\<forall>c \<in> B. unat c \<notin> M') \<and>
     (\<forall>p. p \<noteq> sv \<longrightarrow> p \<noteq> new \<longrightarrow> svs s' p = svs s p) \<and> sv_ino (svs s' sv) = sv_ino (svs s sv) \<and>
     (\<forall>c. unat c \<in> M \<longrightarrow> c \<noteq> 0 \<longrightarrow> c \<notin> B \<longrightarrow> c \<notin> fblocks s sv \<longrightarrow> blk s' c = blk s c)"

lemma remove_work:
  assumes D: "dir_ok s M sv" and k: "k < nslots s sv" "slots s sv ! k = (ino, name)" and i: "in_use s M ino" "ino \<noteq> 0"
    and A: "apart s M sv p" "ino \<notin> fblocks s p" "ino \<notin> fblocks s sv" and v: "sfs_vnodes s = l @ [p]" "p \<notin> set l"
    and p: "sv_ino (svs s p) = ino" "vn_refcount (svs s p) = 1" "sfi_linkcount (sv_i (svs s p)) = 1" "ubuf s (sv_i_addr p) 512" "p \<noteq> NULL"
  shows "\<exists>s1 s2 M'. sfs_dir_unlink sv (int k) s = Ok (0, s1) \<and> sfi_linkcount (sv_i (svs s1 p)) = 1
    \<and> sfs_decref p (upd_inode p (\<lambda>d. d\<lparr>sfi_linkcount := sfi_linkcount d - 1\<rparr>) s1) = Ok s2
    \<and> removed (s\<lparr>sfs_vnodes := l\<rparr>) M sv name (insert ino (fblocks s p)) p s2 M'"
proof -
  obtain s1 M1 where u: "sfs_dir_unlink sv (int k) s = Ok (0, s1)" "dir_ok s1 M1 sv" "framed s M sv s1 M1" "dmap s1 sv = (dmap s sv)(name := None)"
    using unlink_slot [OF D k i(2)] by blast
  note f = u(3) [unfolded framed_def]
  have ap: "p \<noteq> sv" "file_ok s M p" "fblocks s p \<inter> fblocks s sv = {}" using A(1) by (simp_all add: apart_def)
  have sp: "svs s1 p = svs s p" using f ap(1) by simp
  have used: "unat c \<in> M" if "c \<in> fblocks s p" for c using fblocks_used [OF ap(2) that] by (simp add: in_use_def)
  have b1: "blk s1 c = blk s c" if "c \<in> fblocks s p" for c using f ap(3) used [OF that] that by auto
  have i1: "sv_i (svs s1 p) = sv_i (svs s p)" "sb_nblocks s1 = sb_nblocks s" "M \<subseteq> M1" using sp f by (simp_all add: same_env_def)
  have F1: "file_ok s1 M1 p" "\<And>k. k < 143 \<Longrightarrow> fmap s1 p k = fmap s p k" "indirect s1 p = indirect s p"
    using file_frame [OF ap(2) i1] b1 by auto
  have fb1: "fblocks s1 p = fblocks s p" using F1(2,3) by (simp add: fblocks_def)
  let ?g = "\<lambda>v. v\<lparr>sv_i := (sv_i v)\<lparr>sfi_linkcount := sfi_linkcount (sv_i v) - 1\<rparr>, sv_dirty := True\<rparr>"
  let ?s = "upd_sv p ?g s1" and ?B = "insert ino (fblocks s p)"
  note O = dir_other_vnode [OF u(2) ap(1), of ?g]
  have fm: "fmap ?s p = fmap s1 p" "indirect ?s p = indirect s1 p" "blk ?s = blk s1"
    by (simp_all add: fmap_def indirect_def upd_sv_def blk_def fun_eq_iff)
  have "sfi_direct (sv_i (svs ?s p)) = sfi_direct (sv_i (svs s1 p))" "in_use ?s = in_use s1" by (simp_all add: upd_sv_def in_use_def fun_eq_iff)
  then have "file_ok ?s M1 p = file_ok s1 M1 p" "fblocks ?s p = fblocks s1 p" unfolding file_ok_def fblocks_def fm by simp_all
  then have F2: "file_ok ?s M1 p" "fblocks ?s p = fblocks s p" using F1(1) fb1 by simp_all
  have sp2: "svs ?s p = ?g (svs s p)" using sp by (simp add: upd_sv_def)
  have nb: "sb_nblocks ?s = sb_nblocks s" "sfs_vnodes ?s = l @ [p]" using f v(1) by (simp_all add: upd_sv_def same_env_def)
  have e: "same_env s ?s" using f by (simp add: same_env_def upd_sv_def)
  have "ubuf ?s (sv_i_addr p) 512" using p(4) ubuf_env [OF e] by simp
  then obtain s2 where r: "sfs_reclaim p ?s = Ok (0, s2)" "sfs_ok s2 (without M1 ?B)" "same_env (?s\<lparr>sfs_vnodes := remove1 p (l @ [p])\<rparr>) s2"
      "\<forall>q. q \<noteq> p \<longrightarrow> svs s2 q = svs ?s q" "\<forall>c. c \<noteq> 0 \<longrightarrow> c \<noteq> ino \<longrightarrow> c \<notin> fblocks s p \<longrightarrow> blk s2 c = blk ?s c"
    using reclaim_unlinked [OF O(3) F2(1)] i nb F2(2) A(2) p(1-3) i1(3) by (auto simp: sp2 in_use_def)
  have dis: "fblocks s1 sv \<inter> ?B = {}"
  proof -
    have "c \<notin> ?B" if "c \<in> fblocks s1 sv" for c using that f ap(3) A(3) used i(1) by (auto simp: in_use_def)
    then show ?thesis by blast
  qed
  have keep: "unat c \<in> without M1 ?B" "blk s2 c = blk s1 c" if "c \<in> fblocks s1 sv" for c
  proof -
    have c: "unat c \<in> M1" "c \<notin> ?B" "c \<noteq> 0"
      using dis that fblocks_used [OF dir_okD(2) [OF u(2)] that] by (auto simp: in_use_def) (simp add: fblocks_def)
    show "unat c \<in> without M1 ?B" using c by (simp add: in_without)
    show "blk s2 c = blk s1 c" using c r(5) fm(3) by simp
  qed
  have "svs s2 sv = svs s1 sv" "s_bufs s2 = s_bufs s1" "same_dev (sfs_device s1) (sfs_device s2)" "sb_nblocks s2 = sb_nblocks s1"
    using r(3,4) ap(1) by (simp_all add: upd_sv_def same_env_def)
  from dir_frame_uses [OF u(2) r(2) this keep] have "dir_ok s2 (without M1 ?B) sv" "dmap s2 sv = dmap s1 sv" by simp_all
  moreover have "same_env (s\<lparr>sfs_vnodes := l\<rparr>) s2"
    using e r(3) v(2) same_dev_trans by (auto simp: same_env_def remove1_append)
  moreover have "without M ?B \<subseteq> without M1 ?B" using i1(3) by (auto simp: without_def)
  moreover have "unat c \<notin> without M1 ?B" if "c \<in> ?B" for c using that i(2) by (auto simp: without_def fblocks_def)
  moreover have "blk s2 c = blk s c" if "unat c \<in> M" "c \<noteq> 0" "c \<notin> ?B" "c \<notin> fblocks s sv" for c
    using that r(5) f fm(3) by simp
  moreover have "svs s2 q = svs s q" if "q \<noteq> sv" "q \<noteq> p" for q using that r(4) f by (simp add: upd_sv_def)
  moreover have "sv_ino (svs s2 sv) = sv_ino (svs s sv)" using r(4) f ap(1) by (simp add: upd_sv_def)
  ultimately have "removed (s\<lparr>sfs_vnodes := l\<rparr>) M sv name ?B p s2 (without M1 ?B)"
    using u(4) unfolding removed_def by simp
  moreover have "sfs_decref p ?s = Ok s2" using r(1) p(2,5) sp2 by (simp add: sfs_decref_def)
  ultimately show ?thesis using u(1) sp p(3) by (auto simp: upd_inode_def)
qed

lemma removed_other:
  assumes R: "removed s M sv name B new s' M'" and A: "apart s M sv p" "p \<noteq> new" "fblocks s p \<inter> B = {}"
  shows "svs s' p = svs s p \<and> (\<forall>i < 143 * 512. fbyte s' p i = fbyte s p i)"
proof -
  have F: "file_ok s M p" "p \<noteq> sv" "fblocks s p \<inter> fblocks s sv = {}" using A(1) by (simp_all add: apart_def)
  have "svs s' p = svs s p" using R F(2) A(2) by (simp add: removed_def)
  moreover have "blk s' c = blk s c" if c: "c \<in> fblocks s p" for c
  proof -
    have "unat c \<in> M" "c \<noteq> 0" "c \<notin> B" "c \<notin> fblocks s sv"
      using c F(3) A(3) fblocks_used [OF F(1) c] by (auto simp: in_use_def) (simp add: fblocks_def)
    then show ?thesis using R by (simp add: removed_def)
  qed
  ultimately show ?thesis by (auto intro: fbyte_moved)
qed

text \<open>
  (C23) Removal: the name of a closed file with one link is removed. Afterwards the directory is the map
  without the name, the inode and all blocks of the file are free, the vnode that was loaded for
  the removal is gone from the table, no other block was given back, and every other file
  keeps its inode and its bytes.
\<close>

theorem sfs_remove_frees:
  assumes "dir_ok s M sv" "table_ok s M" "dmap s sv name = Some ino" "ino \<notin> (\<lambda>p. sv_ino (svs s p)) ` set (sfs_vnodes s)"
    and "in_use s M ino" "saved s ino d" "sfi_linkcount d = 1" "sfi_type d = SFS_TYPE_FILE"
    and "new \<noteq> NULL" "ubuf s (sv_i_addr new) 512" "new \<notin> set (sfs_vnodes s)"
    and "apart (loaded s new d ino) M sv new" "ino \<notin> fblocks (loaded s new d ino) new" "ino \<notin> fblocks s sv"
  defines "B \<equiv> insert ino (fblocks (loaded s new d ino) new)"
  shows "\<exists>s' M'. sfs_remove sv name new True s = Ok (0, s') \<and> removed s M sv name B new s' M'
    \<and> (\<forall>p. apart s M sv p \<longrightarrow> p \<noteq> new \<longrightarrow> fblocks s p \<inter> B = {} \<longrightarrow> svs s' p = svs s p \<and> (\<forall>i < 143 * 512. fbyte s' p i = fbyte s p i))"
proof -
  let ?a = "vfs_biglock_acquire s"
  note A = dir_acquired [OF assms(1)]
  have ap: "new \<noteq> sv" "file_ok (loaded s new d ino) M new" "fblocks (loaded s new d ino) new \<inter> fblocks (loaded s new d ino) sv = {}"
    using assms(12) by (simp_all add: apart_def)
  have len: "length (sfi_direct d) = 15" using ap(2) by (simp add: file_ok_def loaded_def)
  have lk: "sfi_linkcount d \<noteq> 0" using assms(7) by simp
  have "table_ok ?a M" using assms(2) by (simp add: table_ok_def acquired)
  then obtain k s1 where l: "sfs_lookonce sv name new True ?a = Ok (0, new, int k, s1)" "dir_ok s1 M sv" "dmap s1 sv = dmap s sv"
      "k < nslots s1 sv" "slots s1 sv ! k = (ino, name)" "blk s1 = blk s" "svs s1 = svs (loaded s new d ino)"
      "same_env (?a\<lparr>sfs_vnodes := sfs_vnodes s @ [new]\<rparr>) s1"
    using lookonce_fresh [OF A(1) _ _ _ _ _ len lk assms(8,9) _ ap(1), of name ino] assms(3-6,10,11) A(2)
    by (auto simp: acquired loaded_def)
  have e: "sb_nblocks s1 = sb_nblocks s" "sfs_vnodes s1 = sfs_vnodes s @ [new]" using l(8) by (simp_all add: same_env_def vfs_biglock_acquire_def)
  have m: "fmap s1 = fmap (loaded s new d ino)" "indirect s1 = indirect (loaded s new d ino)" "in_use s1 = in_use (loaded s new d ino)"
  proof -
    have b: "blk s1 = blk (loaded s new d ino)" using l(6) by (simp add: loaded_def blk_def fun_eq_iff)
    show i: "indirect s1 = indirect (loaded s new d ino)" by (simp add: indirect_def l(7) fun_eq_iff)
    show "fmap s1 = fmap (loaded s new d ino)" by (intro ext) (simp add: fmap_def l(7) b i)
    show "in_use s1 = in_use (loaded s new d ino)" by (intro ext) (simp add: in_use_def e(1) loaded_def)
  qed
  have fb: "fblocks s1 = fblocks (loaded s new d ino)" "file_ok s1 = file_ok (loaded s new d ino)"
    by (intro ext; simp add: fblocks_def file_ok_def m l(7))+
  have fs: "fblocks s1 sv = fblocks s sv" using ap(1) l(6,7) by (simp add: fblocks_def fmap_def indirect_def loaded_def)
  have nw: "svs s1 new = \<lparr>sv_i = d, sv_ino = ino, sv_dirty = False, vn_refcount = 1\<rparr>" using l(7) by (simp add: loaded_def)
  have "ubuf s1 (sv_i_addr new) 512"
    using assms(10) ubuf_env [OF l(8), of "sv_i_addr new" 512] by (simp add: ubuf_def scratch_def vfs_biglock_acquire_def)
  moreover have "apart s1 M sv new" "in_use s1 M ino" using assms(5,12) fb e(1) by (simp_all add: apart_def in_use_def)
  ultimately obtain s2 s3 M' where w: "sfs_dir_unlink sv (int k) s1 = Ok (0, s2)" "sfi_linkcount (sv_i (svs s2 new)) = 1"
      "sfs_decref new (upd_inode new (\<lambda>d. d\<lparr>sfi_linkcount := sfi_linkcount d - 1\<rparr>) s2) = Ok s3"
      "removed (s1\<lparr>sfs_vnodes := sfs_vnodes s\<rparr>) M sv name B new s3 M'"
    using remove_work [OF l(2,4,5) _ dmap_nonzero [OF assms(3)] _ _ _ e(2) assms(11)] assms(7,9,13,14) nw fb(1) fs by (auto simp: B_def)
  note r = w(4) [unfolded removed_def]
  have "same_env ?a s3" using l(8) r by (auto simp: same_env_def vfs_biglock_acquire_def intro: same_dev_trans)
  moreover have "sfs_ok s3 M'" using r dir_okD(1) by blast
  ultimately have R: "unlocked (0 :: int) s3 = Ok (0, s3\<lparr>vfs_biglock_depth := vfs_biglock_depth s\<rparr>)" "same_env s (s3\<lparr>vfs_biglock_depth := vfs_biglock_depth s\<rparr>)"
      "sfs_ok (s3\<lparr>vfs_biglock_depth := vfs_biglock_depth s\<rparr>) M'"
    using released [of s s3 M'] sfs_okD(5) [OF dir_okD(1) [OF assms(1)]] by simp_all
  let ?s = "s3\<lparr>vfs_biglock_depth := vfs_biglock_depth s\<rparr>"
  have d3: "dir_ok s3 M' sv" using r by simp
  have F: "dir_ok ?s M' sv" "dmap ?s sv = dmap s3 sv" by (rule dir_frame [OF d3 R(3)]; simp add: blk_def)+
  have old: "svs s1 p = svs s p" if "p \<noteq> new" for p using that l(7) by (simp add: loaded_def)
  have "removed s M sv name B new ?s M'"
    unfolding removed_def using F R(2) r l(3,6) fs old ap(1) by (simp add: blk_def)
  moreover have "sfs_remove sv name new True s = Ok (0, ?s)" using l(1) w(1-3) R(1) by (simp add: sfs_remove_def word_gt_0)
  ultimately show ?thesis using removed_other by blast
qed

text \<open>A directory with the file \<open>a\<close>: its inode is block 2, its data are in block 4; block 3 is the directory.\<close>

definition ex_entry :: "nat \<Rightarrow> byte" where
  "ex_entry k = (if k < 5 then [0, 0, 0, 2, 97] ! k else 0)"

definition ex_rm :: sfs_fs where
  "ex_rm = ex_vol\<lparr>sfs_device := (sfs_device ex_vol)\<lparr>lh_disk := (\<lambda>b. if b = 3 then ex_entry else if b = 2
     then (\<lambda>k. encode_dinode (sv_i ex_vol_file) ! k) else lh_disk ex_lhd b)\<rparr>, svs := (\<lambda>p. ex_dir), sfs_vnodes := [0x80008000]\<rparr>"

lemma ex_rm_env: "same_env (ex_vol\<lparr>sfs_vnodes := [0x80008000]\<rparr>) ex_rm" "sfs_ok ex_rm ex_vol_used" "ubuf ex_rm a n = ubuf ex_sfs a n"
proof -
  show e: "same_env (ex_vol\<lparr>sfs_vnodes := [0x80008000]\<rparr>) ex_rm" by (simp add: same_env_def ex_rm_def same_dev_def)
  have "sfs_ok (ex_vol\<lparr>sfs_vnodes := [0x80008000]\<rparr>) ex_vol_used"
    using ex_vol_ok(1) by (auto simp: sfs_ok_def bufs_ok_def scratch_def vfs_biglock_do_i_hold_def)
  from sfs_ok_kept [OF this e] show "sfs_ok ex_rm ex_vol_used" by (simp add: ex_rm_def mem_kept_def)
  show "ubuf ex_rm a n = ubuf ex_sfs a n" using ubuf_env [OF e, of a n] ex_vol_env(2) [of a n] by (simp add: ubuf_def scratch_def)
qed

lemma ex_rm_dir: "fblocks ex_rm sv = {3}" "file_ok ex_rm ex_vol_used sv" "slots ex_rm sv = [(2, [97])]" "fsize ex_rm sv = 64"
proof -
  have i: "indirect ex_rm sv = 0" by (simp add: indirect_def ex_rm_def ex_dir_def ex_file_def)
  have f: "fmap ex_rm sv k = (if k = 0 then 3 else 0)" for k
    unfolding fmap_def i by (simp add: ex_rm_def ex_dir_def ex_file_def nth_Cons')
  show "fblocks ex_rm sv = {3}" unfolding fblocks_def i f by (auto simp: image_iff)
  show "file_ok ex_rm ex_vol_used sv"
    unfolding file_ok_def f i in_use_def by (simp add: ex_rm_def ex_dir_def ex_file_def ex_vol_def ex_sfs_def ex_vol_used_def)
  show z: "fsize ex_rm sv = 64" by (simp add: fsize_def ex_rm_def ex_dir_def)
  have b: "slot_bytes ex_rm sv 0 j = ex_entry j" if "j < 64" for j
    using that by (simp add: slot_bytes_def fbyte_def f blk_def) (simp add: ex_rm_def)
  have "wd (slot_bytes ex_rm sv 0) 0 = wd ex_entry 0 \<and> name_of (slot_bytes ex_rm sv 0) = name_of ex_entry" by (rule entry_cong) (rule b)
  moreover have "wd ex_entry 0 = 2" "name_of ex_entry = [97]" by (simp_all add: wd_def name_of_def ex_entry_def upt_rec)
  ultimately show "slots ex_rm sv = [(2, [97])]" using z by (simp add: slots_def nslots_def)
qed

lemma ex_rm_ok: "dir_ok ex_rm ex_vol_used 0x80008000" "table_ok ex_rm ex_vol_used" "dmap ex_rm 0x80008000 [97] = Some 2" "saved ex_rm 2 (sv_i ex_vol_file)"
proof -
  have "ubuf ex_rm 0x80036000 64" "ubuf ex_rm 0x80036100 64" unfolding ex_rm_env(3) by (rule ex_ubuf_at; simp)+
  then show "dir_ok ex_rm ex_vol_used 0x80008000"
    using ex_rm_env(2) ex_rm_dir by (simp add: dir_ok_def used_slots_def) (simp add: ex_rm_def ex_vol_def ex_sfs_def ex_bufs_def ex_dir_def)
  show "table_ok ex_rm ex_vol_used"
    by (simp add: table_ok_def ex_rm_def ex_vol_def ex_sfs_def in_use_def ex_vol_used_def ex_dir_def SFS_ROOTDIR_INO_def)
  show "dmap ex_rm 0x80008000 [97] = Some 2" by (simp add: dmap_def ex_rm_dir used_slots_def)
  show "saved ex_rm 2 (sv_i ex_vol_file)" by (simp add: saved_def blk_def ex_rm_def)
qed

theorem sfs_remove_frees_witness:
  "\<exists>s' M'. sfs_remove 0x80008000 [97] 0x80040000 True ex_rm = Ok (0, s') \<and> dir_ok s' M' 0x80008000 \<and> dmap s' 0x80008000 = Map.empty
    \<and> 2 \<notin> M' \<and> 4 \<notin> M'"
proof -
  let ?n = "0x80040000 :: ptr" and ?d = "sv_i ex_vol_file"
  let ?l = "loaded ex_rm ?n ?d 2"
  have f: "indirect ?l ?n = 0" "fmap ?l ?n k = (if k = 0 then 4 else 0)" for k
    by (simp_all add: loaded_def indirect_def fmap_def ex_vol_file_def ex_file_def nth_Cons')
  have fb: "fblocks ?l ?n = {4}" unfolding fblocks_def f by (auto simp: image_iff)
  have fs: "fblocks ?l 0x80008000 = {3}"
    using ex_rm_dir(1) [of "0x80008000"] by (simp add: loaded_def fblocks_def fmap_def indirect_def blk_def)
  have "file_ok ?l ex_vol_used ?n"
    unfolding file_ok_def f in_use_def by (simp add: loaded_def ex_vol_file_def ex_file_def ex_rm_def ex_vol_def ex_sfs_def ex_vol_used_def)
  then have "apart ?l ex_vol_used 0x80008000 ?n" using fb fs by (simp add: apart_def)
  moreover have "ubuf ex_rm (sv_i_addr ?n) 512" unfolding ex_rm_env(3) sv_i_addr_def by (rule ex_ubuf_at) simp_all
  moreover have "in_use ex_rm ex_vol_used 2" by (simp add: in_use_def ex_rm_def ex_vol_def ex_sfs_def ex_vol_used_def)
  moreover have "sfi_linkcount ?d = 1" "sfi_type ?d = SFS_TYPE_FILE" by (simp_all add: ex_vol_file_def ex_file_def)
  moreover have "2 \<notin> (\<lambda>p. sv_ino (svs ex_rm p)) ` set (sfs_vnodes ex_rm)" "?n \<notin> set (sfs_vnodes ex_rm)"
    by (simp_all add: ex_rm_def ex_dir_def SFS_ROOTDIR_INO_def)
  ultimately obtain s' M' where "sfs_remove 0x80008000 [97] ?n True ex_rm = Ok (0, s')" "removed ex_rm ex_vol_used 0x80008000 [97] {2, 4} ?n s' M'"
    using sfs_remove_frees [OF ex_rm_ok(1-3) _ _ ex_rm_ok(4), of ?n] ex_rm_dir(1) fb by auto
  moreover have "dmap ex_rm 0x80008000 = [[97] \<mapsto> 2]" by (simp add: dmap_def ex_rm_dir used_slots_def)
  ultimately show ?thesis by (auto simp: removed_def)
qed

end
