(* ===== verification/Mksfs.thy ===== *)
theory Mksfs
  imports SFS_Sync
begin

text \<open>
  The program that makes SFS volumes (\<^verbatim>\<open>userland/sbin/mksfs\<close>) in its configuration for OS/161, and the
  theorem that the kernel can mount what it writes. The disk is opened as a file of sectors; the system
  calls are an argument (\<open>host_os\<close>), their documented behaviour is \<open>os_ok\<close>. The results are: \<open>None\<close> for
  a loop that never ends, a message for \<open>err\<close>, \<open>errx\<close> and failed assertions, or the result.
\<close>

unbundle bit_operations_syntax

section \<open>The program\<close>

type_synonym 'a ures = "(string + 'a) option"

definition ubind :: "'a ures \<Rightarrow> ('a \<Rightarrow> 'b ures) \<Rightarrow> 'b ures" where
  "ubind m f = (case m of None \<Rightarrow> None | Some (Inl e) \<Rightarrow> Some (Inl e) | Some (Inr x) \<Rightarrow> f x)"

lemma ubind_simps [simp]: "ubind (Some (Inr x)) f = f x" "ubind (Some (Inl e)) f = Some (Inl e)" "ubind None f = None"
  by (simp_all add: ubind_def)

text \<open>
  \<open>os_write t n\<close> is what the call number \<open>t\<close> of \<open>write\<close> with \<open>n\<close> bytes returns, and whether \<open>errno\<close> is then
  \<open>EINTR\<close> or \<open>EAGAIN\<close>; \<open>os_fstat\<close> is its return value and the size of the file.
\<close>

record host_os =
  os_open :: int
  os_fstat :: "int \<times> int"
  os_lseek :: "nat \<Rightarrow> int"
  os_write :: "nat \<Rightarrow> nat \<Rightarrow> int \<times> bool"
  os_close :: int

text \<open>Bytes of the file from the offset \<open>off\<close> on.\<close>

definition put_file :: "nat \<Rightarrow> byte list \<Rightarrow> sectors \<Rightarrow> sectors" where
  "put_file off xs disk = (\<lambda>b k. let p = unat b * 512 + k in if k < 512 \<and> off \<le> p \<and> p < off + length xs then xs ! (p - off) else disk b k)"

definition BLOCKSIZE :: nat where "BLOCKSIZE = 512"

partial_function (option) write_loop :: "host_os \<Rightarrow> nat \<Rightarrow> byte list \<Rightarrow> nat \<Rightarrow> nat \<Rightarrow> sectors \<Rightarrow> (nat \<times> sectors) ures" where
  "write_loop os t cdata pos tot disk =
     (if tot < BLOCKSIZE
      then let (len, again) = os_write os t (BLOCKSIZE - tot)
           in if len < 0
              then (if again then write_loop os (t + 1) cdata pos tot disk else Some (Inl ''write''))
              else if len = 0 then Some (Inl ''write returned 0?'')
              else write_loop os (t + 1) cdata pos (tot + nat len) (put_file (pos + tot) (take (nat len) (drop tot cdata)) disk)
      else Some (Inr (t, disk)))"

declare write_loop.simps [code]

definition diskwrite :: "host_os \<Rightarrow> byte list \<Rightarrow> 32 word \<Rightarrow> nat \<times> sectors \<Rightarrow> (nat \<times> sectors) ures" where
  "diskwrite os data block = (\<lambda>(t, disk).
     let pos = unat (block * of_nat BLOCKSIZE)
     in if os_lseek os pos < 0 then Some (Inl ''lseek'') else write_loop os t data pos 0 disk)"

definition MAXFREEMAPBLOCKS :: "32 word" where "MAXFREEMAPBLOCKS = 32"

text \<open>A byte outside of the buffer is a program error.\<close>

definition allocblock :: "32 word \<Rightarrow> byte list \<Rightarrow> byte list ures" where
  "allocblock block freemapbuf =
     (let mapbyte = unat (block div 8); mask = push_bit (unat (block mod 8)) 1
      in if mapbyte \<ge> length freemapbuf then Some (Inl ''bounds'')
         else if freemapbuf ! mapbyte AND mask \<noteq> 0 then Some (Inl ''assert'')
         else Some (Inr (freemapbuf[mapbyte := freemapbuf ! mapbyte OR mask])))"

fun ufold :: "('i \<Rightarrow> 's \<Rightarrow> 's ures) \<Rightarrow> 'i list \<Rightarrow> 's \<Rightarrow> 's ures" where
  "ufold f [] s = Some (Inr s)"
| "ufold f (i # is) s = ubind (f i s) (ufold f is)"

definition initfreemap :: "32 word \<Rightarrow> byte list \<Rightarrow> byte list ures" where
  "initfreemap fsblocks freemapbuf =
     (let freemapbits = SFS_FREEMAPBITS fsblocks; freemapblocks = SFS_FREEMAPBLOCKS fsblocks
      in if freemapblocks > MAXFREEMAPBLOCKS then Some (Inl ''Filesystem too large -- increase MAXFREEMAPBLOCKS and recompile'')
         else
           ubind (allocblock SFS_SUPER_BLOCK freemapbuf) (\<lambda>b.
           ubind (allocblock SFS_ROOTDIR_INO b) (\<lambda>b.
           ubind (ufold (\<lambda>i. allocblock (SFS_FREEMAP_START + of_nat i)) [0..<unat freemapblocks] b) (\<lambda>b.
             ufold (\<lambda>i. allocblock (of_nat i)) [unat fsblocks..<unat freemapbits] b))))"

definition writesuper :: "host_os \<Rightarrow> byte list \<Rightarrow> 32 word \<Rightarrow> nat \<times> sectors \<Rightarrow> (nat \<times> sectors) ures" where
  "writesuper os volname nblocks d =
     (if length volname \<ge> SFS_VOLNAME_SIZE then Some (Inl ''Volume name too long'')
      else diskwrite os (bytes32 SFS_MAGIC @ bytes32 nblocks @ volname @ replicate (SFS_BLOCKSIZE - 8 - length volname) 0) SFS_SUPER_BLOCK d)"

definition writefreemap :: "host_os \<Rightarrow> byte list \<Rightarrow> 32 word \<Rightarrow> nat \<times> sectors \<Rightarrow> (nat \<times> sectors) ures" where
  "writefreemap os freemapbuf fsblocks d =
     ufold (\<lambda>i. diskwrite os (take SFS_BLOCKSIZE (drop (i * SFS_BLOCKSIZE) freemapbuf)) (SFS_FREEMAP_START + of_nat i))
       [0..<unat (SFS_FREEMAPBLOCKS fsblocks)] d"

definition root_inode :: sfs_dinode where
  "root_inode = \<lparr>sfi_size = 0, sfi_type = SFS_TYPE_DIR, sfi_linkcount = 1, sfi_direct = replicate (unat SFS_NDIRECT) 0, sfi_indirect = 0\<rparr>"

definition writerootdir :: "host_os \<Rightarrow> nat \<times> sectors \<Rightarrow> (nat \<times> sectors) ures" where
  "writerootdir os d =
     (let sfi = encode_dinode root_inode in diskwrite os (sfi @ replicate (SFS_BLOCKSIZE - length sfi) 0) SFS_ROOTDIR_INO d)"

text \<open>58 and 47 are the characters \<open>:\<close> and \<open>/\<close>; \<open>dropWhile\<close> is what \<open>strchr\<close> points to.\<close>

definition volume_name :: "byte list \<Rightarrow> byte list ures" where
  "volume_name arg =
     (let s = dropWhile (\<lambda>c. c \<noteq> 58) arg
      in if s \<noteq> [] \<and> length s \<noteq> 1 then Some (Inl ''Illegal volume name'')
         else
           let volname = takeWhile (\<lambda>c. c \<noteq> 58) arg
           in if 47 \<in> set volname then Some (Inl ''Illegal volume name'') else Some (Inr volname))"

definition opendisk :: "host_os \<Rightarrow> 32 word ures" where
  "opendisk os =
     (if os_open os < 0 then Some (Inl ''open'')
      else if fst (os_fstat os) \<noteq> 0 then Some (Inl ''fstat'')
      else Some (Inr (word_of_int (snd (os_fstat os) sdiv int BLOCKSIZE))))"

definition mksfs :: "host_os \<Rightarrow> byte list \<Rightarrow> sectors \<Rightarrow> sectors ures" where
  "mksfs os arg disk =
     ubind (volume_name arg) (\<lambda>volname.
     ubind (opendisk os) (\<lambda>size.
       if BLOCKSIZE \<noteq> SFS_BLOCKSIZE then Some (Inl ''Device has wrong blocksize'')
       else
         ubind (initfreemap size (replicate (unat MAXFREEMAPBLOCKS * SFS_BLOCKSIZE) 0)) (\<lambda>freemapbuf.
         ubind (writesuper os volname size (0, disk)) (\<lambda>d.
         ubind (writefreemap os freemapbuf size d) (\<lambda>d.
         ubind (writerootdir os d) (\<lambda>(t, disk).
           if os_close os \<noteq> 0 then Some (Inl ''close'') else Some (Inr disk)))))))"

section \<open>Writing blocks\<close>

text \<open>\<open>write\<close> may be interrupted, but not forever, and may write less than it was asked to, but something.\<close>

definition os_ok :: "host_os \<Rightarrow> bool" where
  "os_ok os \<longleftrightarrow> os_open os \<ge> 0 \<and> fst (os_fstat os) = 0 \<and> os_close os = 0 \<and> (\<forall>p. os_lseek os p \<ge> 0) \<and>
     (\<forall>t n. 0 < n \<longrightarrow> (\<exists>k. (\<forall>j < k. fst (os_write os (t + j) n) < 0 \<and> snd (os_write os (t + j) n))
        \<and> 1 \<le> fst (os_write os (t + k) n) \<and> fst (os_write os (t + k) n) \<le> int n))"

lemma put_file_append: "put_file (off + length xs) ys (put_file off xs disk) = put_file off (xs @ ys) disk"
  by (intro ext) (auto simp: put_file_def Let_def nth_append)

lemma put_file_empty [simp]: "put_file off [] disk = disk"
  by (intro ext) (auto simp: put_file_def Let_def)

lemma interrupted:
  "\<lbrakk>tot < 512; \<And>j. j < k \<Longrightarrow> fst (os_write os (t + j) (512 - tot)) < 0 \<and> snd (os_write os (t + j) (512 - tot))\<rbrakk> \<Longrightarrow>
   write_loop os t cdata pos tot disk = write_loop os (t + k) cdata pos tot disk"
proof (induction k)
  case (Suc k)
  obtain len again where w: "os_write os (t + k) (512 - tot) = (len, again)" by fastforce
  have "write_loop os t cdata pos tot disk = write_loop os (t + k) cdata pos tot disk" using Suc by simp
  also have "\<dots> = write_loop os (t + Suc k) cdata pos tot disk"
    using Suc.prems(2) [of k] w Suc.prems(1) by (subst write_loop.simps) (simp add: BLOCKSIZE_def)
  finally show ?case .
qed simp

lemma write_loop_ok:
  assumes os: "os_ok os" and l: "length cdata = 512" and "tot \<le> 512"
  shows "\<exists>t'. write_loop os t cdata pos tot disk = Some (Inr (t', put_file (pos + tot) (drop tot cdata) disk))"
  using assms(3)
proof (induction "512 - tot" arbitrary: tot t disk rule: less_induct)
  case less
  show ?case
  proof (cases "tot < 512")
    case True
    obtain k where k: "\<And>j. j < k \<Longrightarrow> fst (os_write os (t + j) (512 - tot)) < 0 \<and> snd (os_write os (t + j) (512 - tot))"
        "1 \<le> fst (os_write os (t + k) (512 - tot))" "fst (os_write os (t + k) (512 - tot)) \<le> int (512 - tot)"
      using os True unfolding os_ok_def by (meson zero_less_diff)
    define n where "n = nat (fst (os_write os (t + k) (512 - tot)))"
    have n: "1 \<le> n" "n \<le> 512 - tot" "fst (os_write os (t + k) (512 - tot)) = int n" using k(2,3) by (auto simp: n_def)
    obtain again where w: "os_write os (t + k) (512 - tot) = (int n, again)" using n(3) by (metis prod.collapse)
    have m: "512 - (tot + n) < 512 - tot" "tot + n \<le> 512" using n(1,2) True by linarith+
    let ?d = "put_file (pos + tot) (take n (drop tot cdata)) disk"
    have "write_loop os t cdata pos tot disk = write_loop os (t + k) cdata pos tot disk" by (rule interrupted [OF True k(1)])
    also have "\<dots> = write_loop os (t + k + 1) cdata pos (tot + n) ?d"
      using w True n by (subst write_loop.simps) (simp add: BLOCKSIZE_def)
    finally obtain t' where r: "write_loop os t cdata pos tot disk = Some (Inr (t', put_file (pos + (tot + n)) (drop (tot + n) cdata) ?d))"
      using less(1) [OF m(1) m(2), of "t + k + 1" ?d] by auto
    have len: "pos + tot + length (take n (drop tot cdata)) = pos + (tot + n)" using n l by simp
    have "put_file (pos + (tot + n)) (drop (tot + n) cdata) ?d = put_file (pos + tot) (take n (drop tot cdata) @ drop n (drop tot cdata)) disk"
      using put_file_append [of "pos + tot" "take n (drop tot cdata)" "drop (tot + n) cdata" disk] unfolding len by (simp add: add.commute)
    then show ?thesis using r unfolding append_take_drop_id by simp
  next
    case False
    then show ?thesis using less(2) l by (subst write_loop.simps) (simp add: BLOCKSIZE_def)
  qed
qed

definition put_block :: "daddr \<Rightarrow> byte list \<Rightarrow> sectors \<Rightarrow> sectors" where
  "put_block b data disk = disk(b := (\<lambda>k. if k < 512 then data ! k else disk b k))"

lemma diskwrite_ok:
  assumes "os_ok os" "length data = 512" "unat b < 2 ^ 23"
  shows "\<exists>t'. diskwrite os data b (t, disk) = Some (Inr (t', put_block b data disk))"
proof -
  have u: "unat (b * of_nat BLOCKSIZE) = unat b * 512" using assms(3) by (simp add: BLOCKSIZE_def unat_word_ariths(2))
  have "put_file (unat b * 512) data disk = put_block b data disk"
  proof (intro ext)
    fix c k
    show "put_file (unat b * 512) data disk c k = put_block b data disk c k"
    proof (cases "c = b")
      case False
      then have "unat c \<noteq> unat b" by (simp add: word_unat_eq_iff)
      then have "\<not> (k < 512 \<and> unat b * 512 \<le> unat c * 512 + k \<and> unat c * 512 + k < unat b * 512 + 512)" by auto
      then show ?thesis using False assms(2) unfolding put_file_def Let_def by (simp only: if_False) (simp add: put_block_def)
    qed (use assms(2) in \<open>simp add: put_file_def put_block_def Let_def\<close>)
  qed
  then show ?thesis
    using write_loop_ok [OF assms(1,2), of 0 t "unat b * 512" disk] assms(1) by (auto simp: diskwrite_def u Let_def os_ok_def not_less)
qed

section \<open>The bitmap\<close>

definition marks :: "byte list \<Rightarrow> nat set \<Rightarrow> bool" where
  "marks v A \<longleftrightarrow> bitmap_rep \<lparr>nbits = 131072, bm_v = v\<rparr> 131072 A"

lemma allocblock_ok:
  assumes "marks v A" "b < 131072" "b \<notin> A"
  shows "\<exists>v'. allocblock (of_nat b) v = Some (Inr v') \<and> marks v' (insert b A)"
proof -
  have u: "unat (of_nat b div 8 :: 32 word) = b div 8" "unat (of_nat b mod 8 :: 32 word) = b mod 8" using assms(2) by (simp_all add: unat_div unat_mod)
  note S = bitmap_set_bit [OF assms(1) [unfolded marks_def] assms(2)]
  have "v ! (b div 8) AND push_bit (b mod 8) 1 = 0" using S(4) assms(3) by (simp add: and_exp_bit)
  then show ?thesis using S(1,3) by (auto simp: allocblock_def u marks_def Let_def)
qed

lemma alloc_list:
  assumes "\<And>i. i \<in> set l \<Longrightarrow> f i < 131072 \<and> f i \<notin> A" "distinct (map f l)" "marks v A"
  shows "\<exists>v'. ufold (\<lambda>i. allocblock (of_nat (f i))) l v = Some (Inr v') \<and> marks v' (f ` set l \<union> A)"
  using assms
proof (induction l arbitrary: v A)
  case (Cons i l)
  obtain v1 where v1: "allocblock (of_nat (f i)) v = Some (Inr v1)" "marks v1 (insert (f i) A)"
    using allocblock_ok [OF Cons.prems(3)] Cons.prems(1) by auto
  have p: "f j < 131072 \<and> f j \<notin> insert (f i) A" if "j \<in> set l" for j using Cons.prems(1) [of j] Cons.prems(2) that by (metis (no_types, lifting) distinct.simps(2) image_eqI insert_iff list.set(2) list.set_map list.simps(9))
  obtain v' where "ufold (\<lambda>i. allocblock (of_nat (f i))) l v1 = Some (Inr v')" "marks v' (f ` set l \<union> insert (f i) A)"
    using Cons.IH [OF p _ v1(2)] Cons.prems(2) by auto
  then show ?case using v1(1) by auto
qed simp

definition mk_used :: "32 word \<Rightarrow> nat set" where
  "mk_used n = {..<2 + fmb n} \<union> {unat n..<4096 * fmb n}"

lemma initfreemap_ok:
  assumes n: "unat n \<le> 131072" "2 + fmb n \<le> unat n"
  shows "\<exists>v. initfreemap n (replicate 16384 0) = Some (Inr v) \<and> marks v (mk_used n)"
proof -
  have sz: "unat (SFS_FREEMAPBITS n) = 4096 * fmb n" "unat (SFS_FREEMAPBLOCKS n) = fmb n" using n(1) by (simp_all add: freemap_size)
  have b: "fmb n \<le> 32" "4096 * fmb n \<le> 131072" using n(1) by (simp_all add: fmb_def)
  have "bit (0 :: byte) k = False" for k by simp
  then have m0: "marks (replicate 16384 0) {}" by (simp add: marks_def bitmap_rep_def)
  obtain v1 where v1: "allocblock SFS_SUPER_BLOCK (replicate 16384 0) = Some (Inr v1)" "marks v1 {0}"
    using allocblock_ok [OF m0, of 0] by (auto simp: SFS_SUPER_BLOCK_def)
  obtain v2 where v2: "allocblock SFS_ROOTDIR_INO v1 = Some (Inr v2)" "marks v2 {1, 0}"
    using allocblock_ok [OF v1(2), of 1] by (auto simp: SFS_ROOTDIR_INO_def)
  obtain v3 where v3: "ufold (\<lambda>i. allocblock (of_nat (2 + i))) [0..<fmb n] v2 = Some (Inr v3)" "marks v3 ((\<lambda>i. 2 + i) ` set [0..<fmb n] \<union> {1, 0})"
    using alloc_list [of "[0..<fmb n]" "\<lambda>i. 2 + i" "{1, 0}" v2] v2(2) b by (auto simp: distinct_map inj_on_def)
  have im: "(\<lambda>i. 2 + i) ` set [0..<fmb n] \<union> {1, 0} = {..<2 + fmb n}" (is "?A = ?B")
  proof (intro equalityI subsetI)
    fix x
    assume "x \<in> ?B"
    then have "x = 0 \<or> x = 1 \<or> x = 2 + (x - 2) \<and> x - 2 < fmb n" by auto
    then show "x \<in> ?A" by auto
  qed auto
  have ks: "i < 131072 \<and> i \<notin> {..<2 + fmb n}" if "i \<in> set [unat n..<4096 * fmb n]" for i using that n(2) b(2) by auto
  obtain v where v: "ufold (\<lambda>i. allocblock (of_nat i)) [unat n..<4096 * fmb n] v3 = Some (Inr v)" "marks v (set [unat n..<4096 * fmb n] \<union> {..<2 + fmb n})"
    using alloc_list [of "[unat n..<4096 * fmb n]" "\<lambda>i. i" "{..<2 + fmb n}" v3] v3(2) ks unfolding im by auto
  have "\<not> MAXFREEMAPBLOCKS < SFS_FREEMAPBLOCKS n" using sz(2) b(1) by (simp add: MAXFREEMAPBLOCKS_def word_less_nat_alt)
  then have "initfreemap n (replicate 16384 0) = Some (Inr v)"
    using v1(1) v2(1) v3(1) v(1) by (simp add: initfreemap_def sz SFS_FREEMAP_START_def)
  then show ?thesis using v(2) by (simp add: mk_used_def Un_commute)
qed

section \<open>The finished disk\<close>

definition map_blocks :: "byte list \<Rightarrow> nat list \<Rightarrow> sectors \<Rightarrow> sectors" where
  "map_blocks v l disk = fold (\<lambda>i. put_block (2 + of_nat i) (take 512 (drop (i * 512) v))) l disk"

lemma writefreemap_list:
  assumes "os_ok os" "length v = 16384" "\<forall>i \<in> set l. i < 32"
  shows "\<exists>t'. ufold (\<lambda>i. diskwrite os (take 512 (drop (i * 512) v)) (2 + of_nat i)) l (t, disk) = Some (Inr (t', map_blocks v l disk))"
  using assms(3)
proof (induction l arbitrary: t disk)
  case (Cons i l)
  have i: "i < 32" using Cons.prems by simp
  then have "unat (2 + of_nat i :: 32 word) < 2 ^ 23" using freemap_block [of i] by (simp add: SFS_FREEMAP_START_def)
  moreover have "length (take 512 (drop (i * 512) v)) = 512" using i assms(2) by simp
  ultimately obtain t' where "diskwrite os (take 512 (drop (i * 512) v)) (2 + of_nat i) (t, disk)
      = Some (Inr (t', put_block (2 + of_nat i) (take 512 (drop (i * 512) v)) disk))"
    using diskwrite_ok [OF assms(1)] by blast
  then show ?case using Cons.IH [of t' "put_block (2 + of_nat i) (take 512 (drop (i * 512) v)) disk"] Cons.prems by (auto simp: map_blocks_def)
qed (simp add: map_blocks_def)

lemma map_blocks_other: "c \<notin> (\<lambda>i. of_nat (2 + i)) ` {..<n} \<Longrightarrow> map_blocks v [0..<n] disk c = disk c"
  by (induction n) (auto simp: map_blocks_def put_block_def lessThan_Suc)

lemma block_number: "i < 32 \<Longrightarrow> unat (of_nat (2 + i) :: 32 word) = 2 + i"
  using freemap_block [of i] by (simp add: SFS_FREEMAP_START_def)

lemma map_blocks_at: "\<lbrakk>i < n; n \<le> 32; k < 512; length v = 16384\<rbrakk> \<Longrightarrow> map_blocks v [0..<n] disk (of_nat (2 + i)) k = v ! (512 * i + k)"
proof (induction n)
  case (Suc n)
  have "of_nat (2 + i) = (of_nat (2 + n) :: 32 word) \<longleftrightarrow> i = n"
    using block_number [of i] block_number [of n] Suc.prems by (metis Suc_le_lessD add_left_cancel less_le_trans)
  then show ?case using Suc by (auto simp: map_blocks_def put_block_def algebra_simps)
qed simp

lemma marks_take:
  assumes "marks v (mk_used n)" "unat n \<le> 131072" "2 + fmb n \<le> unat n" "xs = map (\<lambda>i. v ! i) [0..<512 * fmb n]"
  shows "bitmap_rep \<lparr>nbits = SFS_FREEMAPBITS n, bm_v = xs\<rparr> (4096 * fmb n) (mk_used n)"
proof -
  have b: "4096 * fmb n \<le> 131072" "unat (SFS_FREEMAPBITS n) = 4096 * fmb n" using assms(2) by (simp_all add: fmb_def freemap_size)
  have m: "bit (v ! (i div 8)) (i mod 8) \<longleftrightarrow> i \<in> mk_used n" if "i < 131072" for i
    using assms(1) that by (simp add: marks_def bitmap_rep_def)
  have "mk_used n \<subseteq> {..<4096 * fmb n}" using assms(3) fmb_covers [of n] by (auto simp: mk_used_def)
  moreover have "bit (xs ! (i div 8)) (i mod 8) \<longleftrightarrow> i \<in> mk_used n" if "i < 4096 * fmb n" for i
    using m [of i] that b(1) by (simp add: assms(4) less_mult_imp_div_less)
  ultimately show ?thesis using b assms(1) by (auto simp: bitmap_rep_def assms(4))
qed

definition finished :: "byte list \<Rightarrow> 32 word \<Rightarrow> byte list \<Rightarrow> sectors \<Rightarrow> sectors" where
  "finished vol n v disk =
     put_block 1 (encode_dinode root_inode @ replicate 440 0)
       (map_blocks v [0..<fmb n] (put_block 0 (bytes32 SFS_MAGIC @ bytes32 n @ vol @ replicate (504 - length vol) 0) disk))"

lemma root_length: "length (encode_dinode root_inode) = 72"
  by (rule encode_length) (simp add: root_inode_def SFS_NDIRECT_def)

lemma mksfs_ok:
  assumes "os_ok os" "volume_name arg = Some (Inr vol)" "length vol < 32" "snd (os_fstat os) = 512 * int (unat n)"
    and n: "unat n \<le> 131072" "2 + fmb n \<le> unat n"
  shows "\<exists>v. mksfs os arg disk = Some (Inr (finished vol n v disk)) \<and> length v = 16384 \<and> marks v (mk_used n)"
proof -
  have "512 * int (unat n) sdiv 512 = int (unat n)" by (cases "unat n") (simp_all add: signed_divide_int_def sgn_mult)
  then have o: "opendisk os = Some (Inr n)" using assms(1,4) by (simp add: opendisk_def os_ok_def BLOCKSIZE_def)
  obtain v where v: "initfreemap n (replicate 16384 0) = Some (Inr v)" "marks v (mk_used n)" using initfreemap_ok [OF n] by blast
  then have l: "length v = 16384" by (simp add: marks_def bitmap_rep_def)
  have f: "unat (SFS_FREEMAPBLOCKS n) = fmb n" "fmb n \<le> 32" using n(1) by (simp_all add: freemap_size fmb_def)
  obtain t1 where "writesuper os vol n (0, disk) = Some (Inr (t1, put_block 0 (bytes32 SFS_MAGIC @ bytes32 n @ vol @ replicate (504 - length vol) 0) disk))"
      (is "_ = Some (Inr (_, ?d1))")
    using diskwrite_ok [OF assms(1), of "bytes32 SFS_MAGIC @ bytes32 n @ vol @ replicate (504 - length vol) 0" 0 0 disk] assms(3)
    by (auto simp: writesuper_def SFS_VOLNAME_SIZE_def SFS_BLOCKSIZE_def SFS_SUPER_BLOCK_def bytes32_def)
  moreover obtain t2 where "writefreemap os v n (t1, ?d1) = Some (Inr (t2, map_blocks v [0..<fmb n] ?d1))" (is "_ = Some (Inr (_, ?d2))")
    using writefreemap_list [OF assms(1) l, of "[0..<fmb n]" t1 ?d1] f by (auto simp: writefreemap_def SFS_BLOCKSIZE_def SFS_FREEMAP_START_def)
  moreover obtain t3 where "writerootdir os (t2, ?d2) = Some (Inr (t3, finished vol n v disk))"
    using diskwrite_ok [OF assms(1), of "encode_dinode root_inode @ replicate 440 0" 1 t2 ?d2]
    by (auto simp: writerootdir_def SFS_BLOCKSIZE_def SFS_ROOTDIR_INO_def root_length finished_def)
  ultimately have "mksfs os arg disk = Some (Inr (finished vol n v disk))"
    using assms(1,2) o v(1) by (simp add: mksfs_def BLOCKSIZE_def SFS_BLOCKSIZE_def MAXFREEMAPBLOCKS_def os_ok_def)
  then show ?thesis using l v(2) by blast
qed

lemma finished_disk:
  assumes "lh_disk (sfs_device s) = finished vol n v disk" "length v = 16384" "marks v (mk_used n)" "n \<le> d_blocks (sfs_device s)"
    and n: "unat n \<le> 131072" "2 + fmb n \<le> unat n"
  shows "disk_vol s n (mk_used n)" and "saved s 1 root_inode"
proof -
  have f: "fmb n \<le> 32" using n(1) by (simp add: fmb_def)
  note u = block_number
  have not01: "c \<notin> (\<lambda>i. of_nat (2 + i)) ` {..<fmb n}" if "c = 0 \<or> c = 1" for c :: "32 word"
  proof
    assume "c \<in> (\<lambda>i. of_nat (2 + i)) ` {..<fmb n}"
    then obtain i where "i < fmb n" "c = of_nat (2 + i)" by auto
    then have "unat c = 2 + i" using u [of i] f by simp
    then show False using that by auto
  qed
  have b0: "blk s 0 k = (bytes32 SFS_MAGIC @ bytes32 n @ vol @ replicate (504 - length vol) 0) ! k" if "k < 512" for k
    using map_blocks_other [OF not01, of 0] that by (simp add: blk_def assms(1) finished_def put_block_def)
  have "blk s (of_nat (2 + i)) k = v ! (512 * i + k)" if "i < fmb n" "k < 512" for i k
  proof -
    have "of_nat (2 + i) \<noteq> (1 :: 32 word)" using not01 [of 1] that(1) by auto
    then show ?thesis using map_blocks_at [OF that(1) f that(2) assms(2)] by (simp add: blk_def assms(1) finished_def put_block_def)
  qed
  then have "disk_bytes s (fmb n) = map (\<lambda>i. v ! i) [0..<512 * fmb n]" by (simp add: disk_bytes_def less_mult_imp_div_less)
  moreover have "wd (blk s 0) 0 = SFS_MAGIC" "wd (blk s 0) 1 = n"
    by (simp_all add: wd_def b0 bytes32_def word_bytes)
  ultimately show "disk_vol s n (mk_used n)"
    using n assms(4) marks_take [OF assms(3) n] by (simp add: disk_vol_def mk_used_def)
  show "saved s 1 root_inode"
    using root_length by (simp add: saved_def blk_def assms(1) finished_def put_block_def nth_append)
qed

lemma empty_root:
  assumes ok: "sfs_ok s M" and i: "in_use s M 1" "saved s 1 root_inode" and "sfs_vnodes s = []"
    and b: "ubuf s (b_tsd (s_bufs s)) 64" "ubuf s (b_sd (s_bufs s)) 64" "new \<noteq> NULL" "ubuf s (sv_i_addr new) 512"
  shows "\<exists>s'. sfs_getroot new True s = Ok (0, new, s') \<and> dir_ok s' M new \<and> dmap s' new = Map.empty"
proof -
  let ?a = "vfs_biglock_acquire s"
  have r: "length (sfi_direct root_inode) = 15" "sfi_type root_inode = SFS_TYPE_DIR" by (simp_all add: root_inode_def SFS_NDIRECT_def)
  have a: "sfs_ok ?a M" "in_use ?a M 1" "saved ?a 1 root_inode" "ubuf ?a (sv_i_addr new) 512" "sfs_vnodes ?a = []"
    using assms by (simp_all add: acquired)
  obtain s1 where s1: "load_inode 1 SFS_TYPE_INVAL new True ?a = Ok (0, new, s1)" "sfs_ok s1 M"
      "svs s1 = (svs ?a)(new := \<lparr>sv_i = root_inode, sv_ino = 1, sv_dirty = False, vn_refcount = 1\<rparr>)"
      "same_env (?a\<lparr>sfs_vnodes := sfs_vnodes ?a @ [new]\<rparr>) s1"
    using load_inode_ok [OF a(1,2,3) r(1) _ _ _ b(3) a(4), of SFS_TYPE_INVAL root_inode] r(2) by auto
  let ?s = "s\<lparr>sfs_vnodes := [new]\<rparr>"
  have "same_env (vfs_biglock_acquire ?s) s1" "vfs_biglock_do_i_hold ?s"
    using s1(4) a(5) ok by (simp_all add: vfs_biglock_acquire_def sfs_ok_def vfs_biglock_do_i_hold_def same_env_def)
  note R = released [OF this(1) s1(2) this(2)]
  let ?s' = "s1\<lparr>vfs_biglock_depth := vfs_biglock_depth ?s\<rparr>"
  have v: "svs ?s' new = \<lparr>sv_i = root_inode, sv_ino = 1, sv_dirty = False, vn_refcount = 1\<rparr>" using s1(3) by simp
  have "sfs_getroot new True s = Ok (0, new, ?s')"
    using s1(1) a(5) R(2) v r(2) by (simp add: sfs_getroot_def sfs_loadvnode_def SFS_ROOTDIR_INO_def)
  moreover have z: "indirect ?s' new = 0" "fmap ?s' new k = 0" "fsize ?s' new = 0" if "k < 143" for k
    using v by (simp_all add: indirect_def fmap_def fsize_def root_inode_def SFS_NDIRECT_def)
  have "slots ?s' new = []" using z(3) [of 0] by (simp add: slots_def nslots_def)
  moreover have "file_ok ?s' M new" using z(1) [of 0] z(2) r(1) v by (simp add: file_ok_def)
  moreover have "ubuf ?s' kb k = ubuf s kb k" for kb k
    using ubuf_env [OF R(3)] by (simp add: ubuf_def scratch_def)
  moreover have "s_bufs ?s' = s_bufs s" using R(3) by (simp add: same_env_def)
  ultimately show ?thesis using R(4) v r(2) b z(3) [of 0] by (auto simp: dir_ok_def dmap_def used_slots_def)
qed

text \<open>
  (C24) \<open>mksfs\<close> with a volume name of fewer than 32 characters on a disk of at most 131072 blocks that has
  room for its bitmap ends without an error, however the system splits and interrupts the writes. The
  kernel mounts the disk it leaves; the blocks in use are the superblock, the root directory,
  the bitmap and the numbers beyond the end, and \<open>sfs_getroot\<close> gives a well-formed directory with no names.
\<close>

theorem mksfs_mounts:
  assumes "os_ok os" "volume_name arg = Some (Inr vol)" "length vol < 32" "snd (os_fstat os) = 512 * int (unat n)"
    and n: "unat n \<le> 131072" "2 + fmb n \<le> unat n"
  shows "\<exists>disk'. mksfs os arg disk = Some (Inr disk') \<and>
    (\<forall>s sfs data new. lh_disk (sfs_device s) = disk' \<longrightarrow> n \<le> d_blocks (sfs_device s) \<longrightarrow> mount_env s sfs data (fmb n) \<longrightarrow>
       ubuf s (b_tsd (s_bufs s)) 64 \<longrightarrow> ubuf s (b_sd (s_bufs s)) 64 \<longrightarrow> new \<noteq> NULL \<longrightarrow> ubuf s (sv_i_addr new) 512 \<longrightarrow>
       (\<exists>s1 s2. sfs_domount sfs True True data s = Ok (0, s1) \<and> vol_ok s1 (mk_used n) \<and> sb_nblocks s1 = n
         \<and> sfs_getroot new True s1 = Ok (0, new, s2) \<and> dir_ok s2 (mk_used n) new \<and> dmap s2 new = Map.empty))"
proof -
  obtain v where v: "mksfs os arg disk = Some (Inr (finished vol n v disk))" "length v = 16384" "marks v (mk_used n)"
    using mksfs_ok [OF assms] by blast
  have "\<exists>s1 s2. sfs_domount sfs True True data s = Ok (0, s1) \<and> vol_ok s1 (mk_used n) \<and> sb_nblocks s1 = n
         \<and> sfs_getroot new True s1 = Ok (0, new, s2) \<and> dir_ok s2 (mk_used n) new \<and> dmap s2 new = Map.empty"
    if "lh_disk (sfs_device s) = finished vol n v disk" "n \<le> d_blocks (sfs_device s)" "mount_env s sfs data (fmb n)"
      "ubuf s (b_tsd (s_bufs s)) 64" "ubuf s (b_sd (s_bufs s)) 64" "new \<noteq> NULL" "ubuf s (sv_i_addr new) 512" for s sfs data new
  proof -
    note h = that
    note D = finished_disk [OF h(1) v(2,3) h(2) n]
    obtain s1 where s1: "sfs_domount sfs True True data s = Ok (0, s1)" "sfs_ok s1 (mk_used n)" "vol_ok s1 (mk_used n)" "sb_nblocks s1 = n"
        "sfs_vnodes s1 = []" "blk s1 = blk s" "\<forall>kb k. ubuf s1 kb k = ubuf s kb k" "s_bufs s1 = (s_bufs s)\<lparr>b_sb := sfs + 8, b_freemap := data\<rparr>"
      using mount_ok [OF D(1) h(3)] by blast
    have "saved s1 1 root_inode" using D(2) s1(6) by (simp add: saved_def)
    moreover have "in_use s1 (mk_used n) 1" using s1(4) n(2) by (simp add: in_use_def mk_used_def)
    moreover have "ubuf s1 (b_tsd (s_bufs s1)) 64" "ubuf s1 (b_sd (s_bufs s1)) 64" "ubuf s1 (sv_i_addr new) 512" using h(4-7) s1(7,8) by simp_all
    ultimately obtain s2 where "sfs_getroot new True s1 = Ok (0, new, s2)" "dir_ok s2 (mk_used n) new" "dmap s2 new = Map.empty"
      using empty_root [OF s1(2) _ _ s1(5)] h(6) by blast
    then show ?thesis using s1 by blast
  qed
  then show ?thesis using v(1) by blast
qed

text \<open>A system whose \<open>write\<close> is interrupted at every second call and writes one byte at a time; a disk of 16 blocks.\<close>

definition ex_os :: host_os where
  "ex_os = \<lparr>os_open = 3, os_fstat = (0, 8192), os_lseek = (\<lambda>p. 0), os_write = (\<lambda>t n. if even t then (-1, True) else (1, False)), os_close = 0\<rparr>"

lemma ex_os_ok: "os_ok ex_os"
proof -
  have "\<exists>k. (\<forall>j < k. fst (os_write ex_os (t + j) n) < 0 \<and> snd (os_write ex_os (t + j) n))
        \<and> 1 \<le> fst (os_write ex_os (t + k) n) \<and> fst (os_write ex_os (t + k) n) \<le> int n" if "0 < n" for t n
    by (rule exI [of _ "if even t then 1 else 0"]) (use that in \<open>auto simp: ex_os_def\<close>)
  then show ?thesis by (simp add: os_ok_def) (simp add: ex_os_def)
qed

theorem mksfs_mounts_witness:
  "\<exists>disk' s1 s2. mksfs ex_os [118, 111, 108, 58] (lh_disk ex_lhd) = Some (Inr disk')
    \<and> sfs_domount 0x80060000 True True 0x80070000 (ex_dir_sfs\<lparr>sfs_device := ex_lhd\<lparr>lh_disk := disk'\<rparr>\<rparr>) = Ok (0, s1)
    \<and> sfs_getroot 0x80040000 True s1 = Ok (0, 0x80040000, s2) \<and> dmap s2 0x80040000 = Map.empty"
proof -
  have n: "fmb 16 = 1" by (simp add: fmb_def)
  have v: "volume_name [118, 111, 108, 58] = Some (Inr [118, 111, 108])" by (simp add: volume_name_def)
  have sz: "snd (os_fstat ex_os) = 512 * int (unat (16 :: 32 word))" "unat (16 :: 32 word) \<le> 131072" "2 + fmb 16 \<le> unat (16 :: 32 word)"
    by (simp_all add: n ex_os_def)
  obtain disk' where d: "mksfs ex_os [118, 111, 108, 58] (lh_disk ex_lhd) = Some (Inr disk')"
    "\<And>s sfs data new. \<lbrakk>lh_disk (sfs_device s) = disk'; 16 \<le> d_blocks (sfs_device s); mount_env s sfs data 1;
       ubuf s (b_tsd (s_bufs s)) 64; ubuf s (b_sd (s_bufs s)) 64; new \<noteq> NULL; ubuf s (sv_i_addr new) 512\<rbrakk> \<Longrightarrow>
       \<exists>s1 s2. sfs_domount sfs True True data s = Ok (0, s1) \<and> sfs_getroot new True s1 = Ok (0, new, s2) \<and> dmap s2 new = Map.empty"
    using mksfs_mounts [OF ex_os_ok v _ sz(1) sz(2) sz(3), of "lh_disk ex_lhd"] unfolding n by fastforce
  let ?s = "ex_dir_sfs\<lparr>sfs_device := ex_lhd\<lparr>lh_disk := disk'\<rparr>\<rparr>"
  have e: "same_env ex_dir_sfs ?s" by (simp add: same_env_def same_dev_def ex_dir_sfs_def ex_sfs_def)
  have ok: "sfs_ok ?s ex_used" by (rule sfs_ok_kept [OF ex_dir_env(2) e]) (simp_all add: mem_kept_def)
  have u: "ubuf ?s a k = ubuf ex_sfs a k" for a k using ubuf_env [OF same_env_trans [OF ex_dir_env(1) e]] .
  have "mount_env ?s 0x80060000 0x80070000 1"
    using ok ex_ubuf_at [of "0x80060008" 512] ex_ubuf_at [of "0x80070000" 512] u by (simp add: mount_env_def sfs_ok_def)
  moreover have "ubuf ?s (b_tsd (s_bufs ?s)) 64" "ubuf ?s (b_sd (s_bufs ?s)) 64"
    using ex_dir_ok u ubuf_env [OF ex_dir_env(1)] by (simp_all add: dir_ok_def)
  moreover have "ubuf ?s (sv_i_addr 0x80040000) 512" using ex_ubuf_at [of "0x80040018" 512] u by (simp add: sv_i_addr_def)
  moreover have "16 \<le> d_blocks (sfs_device ?s)" by (simp add: ex_lhd_def)
  ultimately show ?thesis using d(1) d(2) [of ?s "0x80060000" "0x80070000" "0x80040000"] by auto
qed

end
