(* ===== verification/VFS.thy ===== *)
theory VFS
  imports SFS_Volume
begin

text \<open>
  The VFS layer: the table of devices and mounted file systems (\<^verbatim>\<open>vfs/vfslist.c\<close>), the start of name
  lookup (\<^verbatim>\<open>vfs/vfslookup.c\<close>), current directories (\<^verbatim>\<open>vfs/vfscwd.c\<close>) and the operations on path names
  (\<^verbatim>\<open>vfs/vfspath.c\<close>), for any file systems. The function tables \<open>fs_ops\<close> and \<open>vnode_ops\<close> are
  arguments; each operation of \<open>vnode_ops\<close> gets the vnode and stands for the call through the vnode's
  table. Strings are lists of bytes without the final zero; what \<open>kmalloc\<close> answers is an argument.
\<close>

unbundle bit_operations_syntax

section \<open>Data\<close>

definition EPERM :: int where "EPERM = 9"
definition EXDEV :: int where "EXDEV = 24"
definition ENODEV :: int where "ENODEV = 25"
definition NAME_MAX :: nat where "NAME_MAX = 255"
definition O_WRONLY :: int where "O_WRONLY = 1"
definition O_RDWR :: int where "O_RDWR = 2"

record knowndev =
  kd_name :: "byte list"
  kd_rawname :: "byte list option"
  kd_device :: ptr
  kd_vnode :: ptr
  kd_fs :: ptr

definition SWAP_FS :: ptr where "SWAP_FS = - 1"

text \<open>
  \<open>cwd\<close> is \<open>p_cwd\<close> of the current process, \<open>v_refcount\<close> and \<open>v_fs\<close> are the fields of the vnodes, \<open>fs_world\<close>
  is what belongs to the file systems.
\<close>

record 'w vfs =
  knowndevs :: "knowndev list"
  biglock_depth :: nat
  bootfs_vnode :: ptr
  cwd :: ptr
  v_refcount :: "ptr \<Rightarrow> int"
  v_fs :: "ptr \<Rightarrow> ptr"
  d_devnumber :: "ptr \<Rightarrow> nat"
  fs_world :: 'w

record 's fs_ops =
  fsop_sync :: "ptr \<Rightarrow> 's \<Rightarrow> (int \<times> 's) kres"
  fsop_getvolname :: "ptr \<Rightarrow> 's \<Rightarrow> byte list option"
  fsop_getroot :: "ptr \<Rightarrow> 's \<Rightarrow> (int \<times> ptr \<times> 's) kres"
  fsop_unmount :: "ptr \<Rightarrow> 's \<Rightarrow> (int \<times> 's) kres"

text \<open>The operations that the VFS layer itself calls.\<close>

record 's vnode_ops =
  vop_eachopen :: "ptr \<Rightarrow> int \<Rightarrow> 's \<Rightarrow> (int \<times> 's) kres"
  vop_reclaim :: "ptr \<Rightarrow> 's \<Rightarrow> (int \<times> 's) kres"
  vop_readlink :: "ptr \<Rightarrow> uio \<Rightarrow> 's \<Rightarrow> (int \<times> uio \<times> 's) kres"
  vop_gettype :: "ptr \<Rightarrow> 's \<Rightarrow> (int \<times> 32 word \<times> 's) kres"
  vop_truncate :: "ptr \<Rightarrow> int \<Rightarrow> 's \<Rightarrow> (int \<times> 's) kres"
  vop_creat :: "ptr \<Rightarrow> byte list \<Rightarrow> bool \<Rightarrow> 's \<Rightarrow> (int \<times> ptr \<times> 's) kres"
  vop_symlink :: "ptr \<Rightarrow> byte list \<Rightarrow> byte list \<Rightarrow> 's \<Rightarrow> (int \<times> 's) kres"
  vop_mkdir :: "ptr \<Rightarrow> byte list \<Rightarrow> 's \<Rightarrow> (int \<times> 's) kres"
  vop_link :: "ptr \<Rightarrow> byte list \<Rightarrow> ptr \<Rightarrow> 's \<Rightarrow> (int \<times> 's) kres"
  vop_remove :: "ptr \<Rightarrow> byte list \<Rightarrow> 's \<Rightarrow> (int \<times> 's) kres"
  vop_rmdir :: "ptr \<Rightarrow> byte list \<Rightarrow> 's \<Rightarrow> (int \<times> 's) kres"
  vop_rename :: "ptr \<Rightarrow> byte list \<Rightarrow> ptr \<Rightarrow> byte list \<Rightarrow> 's \<Rightarrow> (int \<times> 's) kres"
  vop_lookup :: "ptr \<Rightarrow> byte list \<Rightarrow> 's \<Rightarrow> (int \<times> ptr \<times> 's) kres"
  vop_lookparent :: "ptr \<Rightarrow> byte list \<Rightarrow> nat \<Rightarrow> 's \<Rightarrow> (int \<times> ptr \<times> byte list \<times> 's) kres"

section \<open>The lock and the vnodes\<close>

text \<open>The recursive lock as the thread sees that runs: it holds the lock when the depth is not 0.\<close>

definition biglock_acquire :: "'w vfs \<Rightarrow> 'w vfs" where
  "biglock_acquire s = s\<lparr>biglock_depth := biglock_depth s + 1\<rparr>"

definition biglock_do_i_hold :: "'w vfs \<Rightarrow> bool" where
  "biglock_do_i_hold s \<longleftrightarrow> biglock_depth s > 0"

definition biglock_release :: "'w vfs \<Rightarrow> 'w vfs kres" where
  "biglock_release s = kassert (biglock_do_i_hold s) (Ok (s\<lparr>biglock_depth := biglock_depth s - 1\<rparr>))"

definition released :: "'a \<Rightarrow> 'w vfs \<Rightarrow> ('a \<times> 'w vfs) kres" where
  "released r s = kbind (biglock_release s) (\<lambda>s. Ok (r, s))"

definition vnode_init :: "ptr \<Rightarrow> ptr \<Rightarrow> 'w vfs \<Rightarrow> 'w vfs kres" where
  "vnode_init vn fs s = kassert (vn \<noteq> NULL) (Ok (s\<lparr>v_refcount := (v_refcount s)(vn := 1), v_fs := (v_fs s)(vn := fs)\<rparr>))"

definition vnode_cleanup :: "ptr \<Rightarrow> 'w vfs \<Rightarrow> 'w vfs kres" where
  "vnode_cleanup vn s =
     kassert (v_refcount s vn = 1) (Ok (s\<lparr>v_refcount := (v_refcount s)(vn := 0), v_fs := (v_fs s)(vn := NULL)\<rparr>))"

text \<open>Every call of an operation of a vnode checks the vnode first.\<close>

definition vnode_check :: "ptr \<Rightarrow> 'w vfs \<Rightarrow> 'a kres \<Rightarrow> 'a kres" where
  "vnode_check vn s k =
     (if vn = NULL then Fail (Panic ''null vnode'')
      else if v_refcount s vn < 0 then Fail (Panic ''negative refcount'')
      else if v_refcount s vn = 0 then Fail (Panic ''zero refcount'')
      else k)"

definition incref :: "ptr \<Rightarrow> 'w vfs \<Rightarrow> 'w vfs kres" where
  "incref vn s = kassert (vn \<noteq> NULL) (Ok (s\<lparr>v_refcount := (v_refcount s)(vn := v_refcount s vn + 1)\<rparr>))"

definition decref :: "'w vfs vnode_ops \<Rightarrow> ptr \<Rightarrow> 'w vfs \<Rightarrow> 'w vfs kres" where
  "decref V vn s =
     kassert (vn \<noteq> NULL) (kassert (v_refcount s vn > 0)
       (if v_refcount s vn > 1 then Ok (s\<lparr>v_refcount := (v_refcount s)(vn := v_refcount s vn - 1)\<rparr>)
        else vnode_check vn s (kbind (vop_reclaim V vn s) (\<lambda>(result, s). Ok s))))"

section \<open>The table of devices\<close>

definition has_fs :: "knowndev \<Rightarrow> bool" where
  "has_fs kd \<longleftrightarrow> kd_fs kd \<noteq> NULL \<and> kd_fs kd \<noteq> SWAP_FS"

definition vfs_sync :: "'w vfs fs_ops \<Rightarrow> 'w vfs \<Rightarrow> (int \<times> 'w vfs) kres" where
  "vfs_sync F s =
     kbind (kfold (\<lambda>i s. let dev = knowndevs s ! i
                         in if has_fs dev then kbind (fsop_sync F (kd_fs dev) s) (\<lambda>(result, s). Ok s) else Ok s)
              [0..<length (knowndevs s)] (biglock_acquire s)) (released 0)"

fun getroot_loop :: "'w vfs fs_ops \<Rightarrow> byte list \<Rightarrow> knowndev list \<Rightarrow> 'w vfs \<Rightarrow> (int \<times> ptr \<times> 'w vfs) kres" where
  "getroot_loop F devname [] s = Ok (ENODEV, NULL, s)"
| "getroot_loop F devname (kd # kds) s =
     (if has_fs kd \<and> (kd_name kd = devname \<or> fsop_getvolname F (kd_fs kd) s = Some devname) then fsop_getroot F (kd_fs kd) s
      else if \<not> has_fs kd \<and> kd_rawname kd \<noteq> None \<and> kd_name kd = devname then Ok (ENXIO, NULL, s)
      else if kd_name kd = devname
      then kassert (kd_fs kd = NULL) (kassert (kd_rawname kd = None) (kassert (kd_device kd \<noteq> NULL)
             (kbind (incref (kd_vnode kd) s) (\<lambda>s. Ok (0, kd_vnode kd, s)))))
      else if kd_rawname kd = Some devname
      then kassert (kd_device kd \<noteq> NULL) (kbind (incref (kd_vnode kd) s) (\<lambda>s. Ok (0, kd_vnode kd, s)))
      else getroot_loop F devname kds s)"

definition vfs_getroot :: "'w vfs fs_ops \<Rightarrow> byte list \<Rightarrow> 'w vfs \<Rightarrow> (int \<times> ptr \<times> 'w vfs) kres" where
  "vfs_getroot F devname s = kassert (biglock_do_i_hold s) (getroot_loop F devname (knowndevs s) s)"

definition vfs_getdevname :: "ptr \<Rightarrow> 'w vfs \<Rightarrow> byte list option kres" where
  "vfs_getdevname fs s =
     kassert (fs \<noteq> NULL) (kassert (biglock_do_i_hold s) (Ok (map_option kd_name (find (\<lambda>kd. kd_fs kd = fs) (knowndevs s)))))"

definition mkrawname :: "byte list \<Rightarrow> byte list" where
  "mkrawname name = name @ [114, 97, 119]"

definition samestring :: "byte list option \<Rightarrow> byte list option \<Rightarrow> bool" where
  "samestring a b \<longleftrightarrow> a \<noteq> None \<and> b \<noteq> None \<and> a = b"

definition samestring3 :: "byte list option \<Rightarrow> byte list option \<Rightarrow> byte list option \<Rightarrow> byte list option \<Rightarrow> bool" where
  "samestring3 a b c d \<longleftrightarrow> samestring a b \<or> samestring a c \<or> samestring a d"

definition badnames :: "'w vfs fs_ops \<Rightarrow> byte list option \<Rightarrow> byte list option \<Rightarrow> byte list option \<Rightarrow> 'w vfs \<Rightarrow> bool kres" where
  "badnames F n1 n2 n3 s =
     kassert (biglock_do_i_hold s)
       (Ok (list_ex (\<lambda>kd. has_fs kd \<and> samestring3 (fsop_getvolname F (kd_fs kd) s) n1 n2 n3
          \<or> samestring3 (kd_rawname kd) n1 n2 n3 \<or> samestring3 (Some (kd_name kd)) n1 n2 n3) (knowndevs s)))"

text \<open>What \<open>kmalloc\<close> answers to \<open>vfs_doadd\<close>; the addresses are those of the new objects.\<close>

record doadd_mem =
  m_name :: bool
  m_rawname :: bool
  m_vnode :: ptr
  m_kd :: bool
  m_add :: bool

definition doadd_fail :: "ptr \<Rightarrow> int \<Rightarrow> 'w vfs \<Rightarrow> (int \<times> 'w vfs) kres" where
  "doadd_fail vnode result s = kbind (if vnode \<noteq> NULL then vnode_cleanup vnode s else Ok s) (released result)"

definition vfs_doadd :: "'w vfs fs_ops \<Rightarrow> doadd_mem \<Rightarrow> byte list \<Rightarrow> bool \<Rightarrow> ptr \<Rightarrow> ptr \<Rightarrow> 'w vfs \<Rightarrow> (int \<times> 'w vfs) kres" where
  "vfs_doadd F m dname mountable dev fs s =
     (let s = biglock_acquire s; rawname = if mountable then Some (mkrawname dname) else None
      in if \<not> m_name m then doadd_fail NULL ENOMEM s
         else if mountable \<and> \<not> m_rawname m then doadd_fail NULL ENOMEM s
         else if m_vnode m = NULL then doadd_fail NULL ENOMEM s
         else kbind (vnode_init (m_vnode m) NULL s) (\<lambda>s.
           if \<not> m_kd m then doadd_fail (m_vnode m) ENOMEM s
           else
             let kd = \<lparr>kd_name = dname, kd_rawname = rawname, kd_device = dev, kd_vnode = m_vnode m, kd_fs = fs\<rparr>;
                 volname = if fs \<noteq> NULL then fsop_getvolname F fs s else None
             in kbind (badnames F (Some dname) rawname volname s) (\<lambda>bad.
                  if bad then doadd_fail (m_vnode m) EEXIST s
                  else if \<not> m_add m then doadd_fail (m_vnode m) ENOMEM s
                  else
                    let index = length (knowndevs s); s = s\<lparr>knowndevs := knowndevs s @ [kd]\<rparr>
                    in released 0 (if dev \<noteq> NULL then s\<lparr>d_devnumber := (d_devnumber s)(dev := index + 1)\<rparr> else s))))"

definition vfs_adddev :: "'w vfs fs_ops \<Rightarrow> doadd_mem \<Rightarrow> byte list \<Rightarrow> ptr \<Rightarrow> bool \<Rightarrow> 'w vfs \<Rightarrow> (int \<times> 'w vfs) kres" where
  "vfs_adddev F m devname dev mountable s = vfs_doadd F m devname mountable dev NULL s"

definition vfs_addfs :: "'w vfs fs_ops \<Rightarrow> doadd_mem \<Rightarrow> byte list \<Rightarrow> ptr \<Rightarrow> 'w vfs \<Rightarrow> (int \<times> 'w vfs) kres" where
  "vfs_addfs F m devname fs s = vfs_doadd F m devname False NULL fs s"

text \<open>The position of the device in the table.\<close>

fun find_mountable :: "byte list \<Rightarrow> nat \<Rightarrow> knowndev list \<Rightarrow> nat option" where
  "find_mountable devname i [] = None"
| "find_mountable devname i (kd # kds) =
     (if kd_rawname kd = None then find_mountable devname (i + 1) kds
      else if devname = kd_name kd then Some i
      else find_mountable devname (i + 1) kds)"

definition findmount :: "byte list \<Rightarrow> 'w vfs \<Rightarrow> nat option kres" where
  "findmount devname s = kassert (biglock_do_i_hold s) (Ok (find_mountable devname 0 (knowndevs s)))"

definition set_fs :: "nat \<Rightarrow> ptr \<Rightarrow> 'w vfs \<Rightarrow> 'w vfs" where
  "set_fs i fs s = s\<lparr>knowndevs := (knowndevs s)[i := (knowndevs s ! i)\<lparr>kd_fs := fs\<rparr>]\<rparr>"

definition vfs_mount :: "byte list \<Rightarrow> (ptr \<Rightarrow> 'w vfs \<Rightarrow> (int \<times> ptr \<times> 'w vfs) kres) \<Rightarrow> 'w vfs \<Rightarrow> (int \<times> 'w vfs) kres" where
  "vfs_mount devname mountfunc s =
     (let s = biglock_acquire s
      in kbind (findmount devname s) (\<lambda>r.
           case r of
             None \<Rightarrow> released ENODEV s
           | Some i \<Rightarrow>
               let kd = knowndevs s ! i
               in if kd_fs kd \<noteq> NULL then released EBUSY s
                  else kassert (kd_rawname kd \<noteq> None) (kassert (kd_device kd \<noteq> NULL)
                         (kbind (mountfunc (kd_device kd) s) (\<lambda>(result, fs, s).
                            if result \<noteq> 0 then released result s
                            else kassert (fs \<noteq> NULL) (kassert (fs \<noteq> SWAP_FS) (released 0 (set_fs i fs s))))))))"

definition vfs_swapon :: "byte list \<Rightarrow> bool \<Rightarrow> 'w vfs \<Rightarrow> ((int \<times> ptr) \<times> 'w vfs) kres" where
  "vfs_swapon devname dup_ok s =
     (let colon = devname \<noteq> [] \<and> last devname = 58
      in if colon \<and> \<not> dup_ok then Ok ((ENOMEM, NULL), s)
         else
           let devname = if colon then butlast devname else devname; s = biglock_acquire s
           in kbind (findmount devname s) (\<lambda>r.
                case r of
                  None \<Rightarrow> released (ENODEV, NULL) s
                | Some i \<Rightarrow>
                    let kd = knowndevs s ! i
                    in if kd_fs kd \<noteq> NULL then released (EBUSY, NULL) s
                       else kassert (kd_rawname kd \<noteq> None) (kassert (kd_device kd \<noteq> NULL)
                              (kbind (incref (kd_vnode kd) (set_fs i SWAP_FS s)) (released (0, kd_vnode kd))))))"

definition vfs_unmount :: "'w vfs fs_ops \<Rightarrow> byte list \<Rightarrow> 'w vfs \<Rightarrow> (int \<times> 'w vfs) kres" where
  "vfs_unmount F devname s =
     (let s = biglock_acquire s
      in kbind (findmount devname s) (\<lambda>r.
           case r of
             None \<Rightarrow> released ENODEV s
           | Some i \<Rightarrow>
               let kd = knowndevs s ! i
               in if \<not> has_fs kd then released EINVAL s
                  else kassert (kd_rawname kd \<noteq> None) (kassert (kd_device kd \<noteq> NULL)
                         (kbind (fsop_sync F (kd_fs kd) s) (\<lambda>(result, s).
                            if result \<noteq> 0 then released result s
                            else kbind (fsop_unmount F (kd_fs kd) s) (\<lambda>(result, s).
                              if result \<noteq> 0 then released result s else released 0 (set_fs i NULL s)))))))"

definition vfs_swapoff :: "byte list \<Rightarrow> 'w vfs \<Rightarrow> (int \<times> 'w vfs) kres" where
  "vfs_swapoff devname s =
     (let s = biglock_acquire s
      in kbind (findmount devname s) (\<lambda>r.
           case r of
             None \<Rightarrow> released ENODEV s
           | Some i \<Rightarrow> if kd_fs (knowndevs s ! i) \<noteq> SWAP_FS then released EINVAL s else released 0 (set_fs i NULL s)))"

definition unmount_dev :: "'w vfs fs_ops \<Rightarrow> nat \<Rightarrow> 'w vfs \<Rightarrow> 'w vfs kres" where
  "unmount_dev F i s =
     (let dev = knowndevs s ! i
      in if kd_rawname dev = None then Ok s
         else if kd_fs dev = NULL then Ok s
         else if kd_fs dev = SWAP_FS then Ok (set_fs i NULL s)
         else kbind (fsop_sync F (kd_fs dev) s) (\<lambda>(result, s).
           kbind (if result \<noteq> 0 then fsop_sync F (kd_fs dev) s else Ok (0, s)) (\<lambda>(result, s).
             if result \<noteq> 0 then Ok s
             else kbind (fsop_unmount F (kd_fs dev) s) (\<lambda>(result, s). if result \<noteq> 0 then Ok s else Ok (set_fs i NULL s)))))"

definition vfs_unmountall :: "'w vfs fs_ops \<Rightarrow> 'w vfs \<Rightarrow> (int \<times> 'w vfs) kres" where
  "vfs_unmountall F s = kbind (kfold (unmount_dev F) [0..<length (knowndevs s)] (biglock_acquire s)) (released 0)"

section \<open>The current directory\<close>

definition vfs_getcurdir :: "'w vfs \<Rightarrow> (int \<times> ptr \<times> 'w vfs) kres" where
  "vfs_getcurdir s = (if cwd s \<noteq> NULL then kbind (incref (cwd s) s) (\<lambda>s'. Ok (0, cwd s, s')) else Ok (ENOENT, NULL, s))"

definition vfs_setcurdir :: "'w vfs vnode_ops \<Rightarrow> ptr \<Rightarrow> 'w vfs \<Rightarrow> (int \<times> 'w vfs) kres" where
  "vfs_setcurdir V dir s =
     vnode_check dir s (kbind (vop_gettype V dir s) (\<lambda>(result, vtype, s).
       if result \<noteq> 0 then Ok (result, s)
       else if vtype \<noteq> S_IFDIR then Ok (ENOTDIR, s)
       else kbind (incref dir s) (\<lambda>s.
         let old = cwd s; s = s\<lparr>cwd := dir\<rparr>
         in if old \<noteq> NULL then kbind (decref V old s) (\<lambda>s. Ok (0, s)) else Ok (0, s))))"

definition vfs_clearcurdir :: "'w vfs vnode_ops \<Rightarrow> 'w vfs \<Rightarrow> (int \<times> 'w vfs) kres" where
  "vfs_clearcurdir V s =
     (let old = cwd s; s = s\<lparr>cwd := NULL\<rparr> in if old \<noteq> NULL then kbind (decref V old s) (\<lambda>s. Ok (0, s)) else Ok (0, s))"

section \<open>Name lookup\<close>

text \<open>The positions of the first colon (58) or slash (47), whichever comes first.\<close>

fun first_sep :: "nat \<Rightarrow> byte list \<Rightarrow> nat option \<times> nat option" where
  "first_sep i [] = (None, None)"
| "first_sep i (c # cs) = (if c = 58 then (Some i, None) else if c = 47 then (None, Some i) else first_sep (i + 1) cs)"

definition getdevice :: "'w vfs fs_ops \<Rightarrow> 'w vfs vnode_ops \<Rightarrow> byte list \<Rightarrow> 'w vfs \<Rightarrow> (int \<times> byte list \<times> ptr \<times> 'w vfs) kres" where
  "getdevice F V path s =
     kassert (biglock_do_i_hold s)
       (if path = [] then Ok (EINVAL, [], NULL, s)
        else
          let (colon, slash) = first_sep 0 path
          in if colon = None \<and> slash \<noteq> Some 0
             then kbind (vfs_getcurdir s) (\<lambda>(result, startvn, s). Ok (result, path, startvn, s))
             else if colon \<noteq> None \<and> the colon > 0
             then kbind (vfs_getroot F (take (the colon) path) s) (\<lambda>(result, startvn, s).
                    Ok (result, dropWhile (\<lambda>c. c = 47) (drop (the colon + 1) path), startvn, s))
             else
               kassert (colon = Some 0 \<or> slash = Some 0)
                 (kbind (if hd path = 47
                         then (if bootfs_vnode s = NULL then Ok (ENOENT, NULL, s)
                               else kbind (incref (bootfs_vnode s) s) (\<lambda>s'. Ok (0, bootfs_vnode s, s')))
                         else kassert (hd path = 58)
                                (kbind (vfs_getcurdir s) (\<lambda>(result, vn, s).
                                   if result \<noteq> 0 then Ok (result, NULL, s)
                                   else kassert (v_fs s vn \<noteq> NULL)
                                     (kbind (fsop_getroot F (v_fs s vn) s) (\<lambda>(result, startvn, s).
                                        kbind (decref V vn s) (\<lambda>s. Ok (result, startvn, s)))))))
                   (\<lambda>(result, startvn, s). Ok (result, dropWhile (\<lambda>c. c = 47) (tl path), startvn, s))))"

definition vfs_lookparent :: "'w vfs fs_ops \<Rightarrow> 'w vfs vnode_ops \<Rightarrow> byte list \<Rightarrow> nat \<Rightarrow> 'w vfs \<Rightarrow> ((int \<times> ptr \<times> byte list) \<times> 'w vfs) kres" where
  "vfs_lookparent F V path buflen s =
     kbind (getdevice F V path (biglock_acquire s)) (\<lambda>(result, path, startvn, s).
       if result \<noteq> 0 then released (result, NULL, []) s
       else
         kbind (if path = [] then Ok (EINVAL, NULL, [], s) else vnode_check startvn s (vop_lookparent V startvn path buflen s))
           (\<lambda>(result, retval, buf, s). kbind (decref V startvn s) (released (result, retval, buf))))"

definition vfs_lookup :: "'w vfs fs_ops \<Rightarrow> 'w vfs vnode_ops \<Rightarrow> byte list \<Rightarrow> 'w vfs \<Rightarrow> ((int \<times> ptr) \<times> 'w vfs) kres" where
  "vfs_lookup F V path s =
     kbind (getdevice F V path (biglock_acquire s)) (\<lambda>(result, path, startvn, s).
       if result \<noteq> 0 then released (result, NULL) s
       else if path = [] then released (0, startvn) s
       else kbind (vnode_check startvn s (vop_lookup V startvn path s)) (\<lambda>(result, retval, s).
              kbind (decref V startvn s) (released (result, retval))))"

definition vfs_chdir :: "'w vfs fs_ops \<Rightarrow> 'w vfs vnode_ops \<Rightarrow> byte list \<Rightarrow> 'w vfs \<Rightarrow> (int \<times> 'w vfs) kres" where
  "vfs_chdir F V path s =
     kbind (vfs_lookup F V path s) (\<lambda>((result, vn), s).
       if result \<noteq> 0 then Ok (result, s)
       else kbind (vfs_setcurdir V vn s) (\<lambda>(result, s). kbind (decref V vn s) (\<lambda>s. Ok (result, s))))"

definition change_bootfs :: "'w vfs vnode_ops \<Rightarrow> ptr \<Rightarrow> 'w vfs \<Rightarrow> 'w vfs kres" where
  "change_bootfs V newvn s =
     (let oldvn = bootfs_vnode s; s = s\<lparr>bootfs_vnode := newvn\<rparr> in if oldvn \<noteq> NULL then decref V oldvn s else Ok s)"

text \<open>\<open>snprintf\<close> with the size \<open>NAME_MAX\<close> leaves room for \<open>NAME_MAX - 1\<close> characters and the final zero.\<close>

definition vfs_setbootfs :: "'w vfs fs_ops \<Rightarrow> 'w vfs vnode_ops \<Rightarrow> byte list \<Rightarrow> 'w vfs \<Rightarrow> (int \<times> 'w vfs) kres" where
  "vfs_setbootfs F V fsname s =
     (let s = biglock_acquire s; tmp = take (NAME_MAX - 1) fsname; t = dropWhile (\<lambda>c. c \<noteq> 58) tmp
      in if t \<noteq> [] \<and> length t > 0 then released EINVAL s
         else
           let tmp = if t \<noteq> [] then tmp else tmp @ [58]
           in kbind (vfs_chdir F V tmp s) (\<lambda>(result, s).
                if result \<noteq> 0 then released result s
                else kbind (vfs_getcurdir s) (\<lambda>(result, newguy, s).
                  if result \<noteq> 0 then released result s
                  else kbind (change_bootfs V newguy s) (released 0))))"

definition vfs_clearbootfs :: "'w vfs vnode_ops \<Rightarrow> 'w vfs \<Rightarrow> 'w vfs kres" where
  "vfs_clearbootfs V s = kbind (change_bootfs V NULL (biglock_acquire s)) biglock_release"

section \<open>Operations on path names\<close>

definition vfs_open :: "'w vfs fs_ops \<Rightarrow> 'w vfs vnode_ops \<Rightarrow> byte list \<Rightarrow> int \<Rightarrow> 'w vfs \<Rightarrow> (int \<times> ptr \<times> 'w vfs) kres" where
  "vfs_open F V path openflags s =
     (let how = openflags AND O_ACCMODE
      in if how \<noteq> O_RDONLY \<and> how \<noteq> O_WRONLY \<and> how \<noteq> O_RDWR then Ok (EINVAL, NULL, s)
         else
           kbind (if openflags AND O_CREAT \<noteq> 0
                  then kbind (vfs_lookparent F V path (NAME_MAX + 1) s) (\<lambda>((result, dir, name), s).
                         if result \<noteq> 0 then Ok (result, NULL, s)
                         else kbind (vnode_check dir s (vop_creat V dir name (openflags AND O_EXCL \<noteq> 0) s)) (\<lambda>(result, vn, s).
                                kbind (decref V dir s) (\<lambda>s. Ok (result, vn, s))))
                  else kbind (vfs_lookup F V path s) (\<lambda>((result, vn), s). Ok (result, vn, s)))
             (\<lambda>(result, vn, s).
                if result \<noteq> 0 then Ok (result, NULL, s)
                else kassert (vn \<noteq> NULL)
                  (kbind (vnode_check vn s (vop_eachopen V vn openflags s)) (\<lambda>(result, s).
                     if result \<noteq> 0 then kbind (decref V vn s) (\<lambda>s. Ok (result, NULL, s))
                     else
                       kbind (if openflags AND O_TRUNC \<noteq> 0
                              then (if how = O_RDONLY then Ok (EINVAL, s) else vnode_check vn s (vop_truncate V vn 0 s))
                              else Ok (0, s)) (\<lambda>(result, s).
                         if result \<noteq> 0 then kbind (decref V vn s) (\<lambda>s. Ok (result, NULL, s)) else Ok (0, vn, s))))))"

text \<open>The shape that \<open>vfs_remove\<close>, \<open>vfs_symlink\<close>, \<open>vfs_mkdir\<close> and \<open>vfs_rmdir\<close> have in common.\<close>

definition in_parent :: "'w vfs fs_ops \<Rightarrow> 'w vfs vnode_ops \<Rightarrow> byte list \<Rightarrow> (ptr \<Rightarrow> byte list \<Rightarrow> 'w vfs \<Rightarrow> (int \<times> 'w vfs) kres)
    \<Rightarrow> 'w vfs \<Rightarrow> (int \<times> 'w vfs) kres" where
  "in_parent F V path f s =
     kbind (vfs_lookparent F V path (NAME_MAX + 1) s) (\<lambda>((result, dir, name), s).
       if result \<noteq> 0 then Ok (result, s)
       else kbind (vnode_check dir s (f dir name s)) (\<lambda>(result, s). kbind (decref V dir s) (\<lambda>s. Ok (result, s))))"

definition vfs_remove :: "'w vfs fs_ops \<Rightarrow> 'w vfs vnode_ops \<Rightarrow> byte list \<Rightarrow> 'w vfs \<Rightarrow> (int \<times> 'w vfs) kres" where
  "vfs_remove F V path = in_parent F V path (vop_remove V)"

text \<open>\<open>VOP_SYMLINK\<close> passes the name in the place of the contents, as in the source.\<close>

definition vfs_symlink :: "'w vfs fs_ops \<Rightarrow> 'w vfs vnode_ops \<Rightarrow> byte list \<Rightarrow> byte list \<Rightarrow> 'w vfs \<Rightarrow> (int \<times> 'w vfs) kres" where
  "vfs_symlink F V contents path = in_parent F V path (\<lambda>dir name. vop_symlink V dir name contents)"

definition vfs_mkdir :: "'w vfs fs_ops \<Rightarrow> 'w vfs vnode_ops \<Rightarrow> byte list \<Rightarrow> 'w vfs \<Rightarrow> (int \<times> 'w vfs) kres" where
  "vfs_mkdir F V path = in_parent F V path (vop_mkdir V)"

definition vfs_rmdir :: "'w vfs fs_ops \<Rightarrow> 'w vfs vnode_ops \<Rightarrow> byte list \<Rightarrow> 'w vfs \<Rightarrow> (int \<times> 'w vfs) kres" where
  "vfs_rmdir F V path = in_parent F V path (vop_rmdir V)"

definition other_fs :: "ptr \<Rightarrow> ptr \<Rightarrow> 'w vfs \<Rightarrow> bool" where
  "other_fs a b s \<longleftrightarrow> v_fs s a = NULL \<or> v_fs s b = NULL \<or> v_fs s a \<noteq> v_fs s b"

definition vfs_rename :: "'w vfs fs_ops \<Rightarrow> 'w vfs vnode_ops \<Rightarrow> byte list \<Rightarrow> byte list \<Rightarrow> 'w vfs \<Rightarrow> (int \<times> 'w vfs) kres" where
  "vfs_rename F V oldpath newpath s =
     kbind (vfs_lookparent F V oldpath (NAME_MAX + 1) s) (\<lambda>((result, olddir, oldname), s).
       if result \<noteq> 0 then Ok (result, s)
       else kbind (vfs_lookparent F V newpath (NAME_MAX + 1) s) (\<lambda>((result, newdir, newname), s).
         if result \<noteq> 0 then kbind (decref V olddir s) (\<lambda>s. Ok (result, s))
         else
           kbind (if other_fs olddir newdir s then Ok (EXDEV, s)
                  else vnode_check olddir s (vop_rename V olddir oldname newdir newname s)) (\<lambda>(result, s).
             kbind (decref V newdir s) (\<lambda>s. kbind (decref V olddir s) (\<lambda>s. Ok (result, s))))))"

definition vfs_link :: "'w vfs fs_ops \<Rightarrow> 'w vfs vnode_ops \<Rightarrow> byte list \<Rightarrow> byte list \<Rightarrow> 'w vfs \<Rightarrow> (int \<times> 'w vfs) kres" where
  "vfs_link F V oldpath newpath s =
     kbind (vfs_lookup F V oldpath s) (\<lambda>((result, oldfile), s).
       if result \<noteq> 0 then Ok (result, s)
       else kbind (vfs_lookparent F V newpath (NAME_MAX + 1) s) (\<lambda>((result, newdir, newname), s).
         if result \<noteq> 0 then kbind (decref V oldfile s) (\<lambda>s. Ok (result, s))
         else
           kbind (if other_fs oldfile newdir s then Ok (EXDEV, s)
                  else vnode_check newdir s (vop_link V newdir newname oldfile s)) (\<lambda>(result, s).
             kbind (decref V newdir s) (\<lambda>s. kbind (decref V oldfile s) (\<lambda>s. Ok (result, s))))))"

definition vfs_readlink :: "'w vfs fs_ops \<Rightarrow> 'w vfs vnode_ops \<Rightarrow> byte list \<Rightarrow> uio \<Rightarrow> 'w vfs \<Rightarrow> (int \<times> uio \<times> 'w vfs) kres" where
  "vfs_readlink F V path u s =
     kbind (vfs_lookup F V path s) (\<lambda>((result, vn), s).
       if result \<noteq> 0 then Ok (result, u, s)
       else kbind (vnode_check vn s (vop_readlink V vn u s)) (\<lambda>(result, u, s). kbind (decref V vn s) (\<lambda>s. Ok (result, u, s))))"

end
