(* ===== verification/VFS_Spec.thy ===== *)
theory VFS_Spec
  imports VFS
begin

text \<open>
  The table of devices: its invariant, kept by every operation that changes the table, and what a device
  name refers to; the forms of path names. The file systems are arguments that keep to \<open>fs_quiet\<close>: their
  sync and unmount operations leave the table alone if they return.
\<close>

section \<open>The lock\<close>

lemma biglock_simps [simp]:
  "biglock_do_i_hold (biglock_acquire s)" "knowndevs (biglock_acquire s) = knowndevs s" "d_devnumber (biglock_acquire s) = d_devnumber s"
  "v_refcount (biglock_acquire s) = v_refcount s" "v_fs (biglock_acquire s) = v_fs s" "cwd (biglock_acquire s) = cwd s"
  "bootfs_vnode (biglock_acquire s) = bootfs_vnode s" "fs_world (biglock_acquire s) = fs_world s"
  "biglock_depth (biglock_acquire s) = Suc (biglock_depth s)"
  by (simp_all add: biglock_acquire_def biglock_do_i_hold_def)

lemma released_ok: "biglock_depth s' = Suc d \<Longrightarrow> released r s' = Ok (r, s'\<lparr>biglock_depth := d\<rparr>)"
  by (simp add: released_def biglock_release_def biglock_do_i_hold_def)

section \<open>The invariant of the table\<close>

text \<open>
  A mountable device has its raw name and a device; another entry is a device without a file system or
  a file system without a device.
\<close>

definition kd_ok :: "knowndev \<Rightarrow> bool" where
  "kd_ok kd \<longleftrightarrow> kd_vnode kd \<noteq> NULL \<and>
     (case kd_rawname kd of
        None \<Rightarrow> kd_fs kd = NULL \<and> kd_device kd \<noteq> NULL \<or> has_fs kd
      | Some r \<Rightarrow> r = mkrawname (kd_name kd) \<and> kd_device kd \<noteq> NULL)"

definition kd_names :: "knowndev \<Rightarrow> byte list list" where
  "kd_names kd = kd_name kd # (case kd_rawname kd of None \<Rightarrow> [] | Some r \<Rightarrow> [r])"

definition table_inv :: "'w vfs \<Rightarrow> bool" where
  "table_inv s \<longleftrightarrow> (\<forall>kd \<in> set (knowndevs s). kd_ok kd) \<and> distinct (concat (map kd_names (knowndevs s))) \<and>
     (\<forall>i < length (knowndevs s). kd_device (knowndevs s ! i) \<noteq> NULL \<longrightarrow> d_devnumber s (kd_device (knowndevs s ! i)) = i + 1)"

text \<open>
  What the table relies on of the file systems: if their operations return, they leave the table and
  the lock alone.
\<close>

definition quiet :: "('w vfs \<Rightarrow> 'w vfs \<Rightarrow> bool)" where
  "quiet s s' \<longleftrightarrow> knowndevs s' = knowndevs s \<and> d_devnumber s' = d_devnumber s \<and> biglock_depth s' = biglock_depth s"

definition fs_quiet :: "'w vfs fs_ops \<Rightarrow> bool" where
  "fs_quiet F \<longleftrightarrow> (\<forall>fs s r s'. (fsop_sync F fs s = Ok (r, s') \<longrightarrow> quiet s s') \<and> (fsop_unmount F fs s = Ok (r, s') \<longrightarrow> quiet s s'))"

lemma quiet_refl [simp]: "quiet s s" and quiet_trans: "quiet s t \<Longrightarrow> quiet t u \<Longrightarrow> quiet s u"
  by (simp_all add: quiet_def)

lemma fs_quietD:
  assumes "fs_quiet F"
  shows "fsop_sync F fs s = Ok (r, s') \<Longrightarrow> quiet s s'" "fsop_unmount F fs s = Ok (r, s') \<Longrightarrow> quiet s s'"
  using assms unfolding fs_quiet_def by blast+

text \<open>
  How an operation of the table can fail: a file system of the table fails to sync, or one on a
  mountable device fails to unmount.
\<close>

definition fs_fault :: "'w vfs fs_ops \<Rightarrow> 'w vfs \<Rightarrow> kerror \<Rightarrow> bool" where
  "fs_fault F s e \<longleftrightarrow> (\<exists>kd \<in> set (knowndevs s). has_fs kd \<and> (\<exists>u. fsop_sync F (kd_fs kd) u = Fail e
     \<or> kd_rawname kd \<noteq> None \<and> fsop_unmount F (kd_fs kd) u = Fail e))"

lemma quiet_inv: "quiet s s' \<Longrightarrow> table_inv s' = table_inv s"
  by (simp add: quiet_def table_inv_def)

lemma depth_inv [simp]: "table_inv (s\<lparr>biglock_depth := d\<rparr>) = table_inv s" "table_inv (biglock_acquire s) = table_inv s"
  by (simp_all add: table_inv_def)

text \<open>Changing the file system of a mountable device.\<close>

lemma set_fs_inv:
  assumes "table_inv s" "i < length (knowndevs s)" "kd_rawname (knowndevs s ! i) \<noteq> None"
  shows "table_inv (set_fs i fs s)"
proof -
  let ?k = "knowndevs s"
  have n: "map kd_names (?k[i := (?k ! i)\<lparr>kd_fs := fs\<rparr>]) = map kd_names ?k"
    using assms(2) by (simp add: map_update kd_names_def list_update_same_conv)
  have "kd_ok ((?k ! i)\<lparr>kd_fs := fs\<rparr>)" using assms by (auto simp: table_inv_def kd_ok_def split: option.splits)
  then have "\<forall>kd \<in> set (?k[i := (?k ! i)\<lparr>kd_fs := fs\<rparr>]). kd_ok kd"
    using assms(1) set_update_subset_insert [of ?k i] by (auto simp: table_inv_def)
  moreover have "\<forall>j < length ?k. kd_device (?k[i := (?k ! i)\<lparr>kd_fs := fs\<rparr>] ! j) = kd_device (?k ! j)"
    using assms(2) by (simp add: nth_list_update)
  ultimately show ?thesis using assms(1) by (simp add: table_inv_def set_fs_def n)
qed

lemma find_mountable_spec:
  "find_mountable name j kds = Some i \<Longrightarrow> j \<le> i \<and> i < j + length kds \<and> kd_name (kds ! (i - j)) = name \<and> kd_rawname (kds ! (i - j)) \<noteq> None"
proof (induction kds arbitrary: j)
  case (Cons kd kds)
  show ?case
  proof (cases "find_mountable name (j + 1) kds = Some i")
    case True
    from Cons.IH [OF this] show ?thesis by (auto simp: nth_Cons')
  qed (use Cons.prems in \<open>auto split: if_splits\<close>)
qed simp

lemma findmount_cases:
  assumes "table_inv s" "biglock_do_i_hold s"
  obtains "findmount name s = Ok None"
  | i where "findmount name s = Ok (Some i)" "i < length (knowndevs s)" "kd_rawname (knowndevs s ! i) \<noteq> None" "kd_device (knowndevs s ! i) \<noteq> NULL"
      "kd_vnode (knowndevs s ! i) \<noteq> NULL"
proof (cases "find_mountable name 0 (knowndevs s)")
  case (Some i)
  note f = find_mountable_spec [OF Some]
  then have "kd_ok (knowndevs s ! i)" using assms(1) by (auto simp: table_inv_def)
  then show ?thesis using f that(2) [of i] Some assms(2) by (auto simp: findmount_def kd_ok_def split: option.splits)
qed (use that(1) assms(2) in \<open>simp add: findmount_def\<close>)

text \<open>The operations on the table; the devices and file systems that are added are new.\<close>

datatype 'w table_op =
    Adddev doadd_mem "byte list" ptr bool
  | Addfs doadd_mem "byte list" ptr
  | Mount "byte list" "ptr \<Rightarrow> 'w vfs \<Rightarrow> (int \<times> ptr \<times> 'w vfs) kres"
  | Unmount "byte list"
  | Swapon "byte list" bool
  | Swapoff "byte list"
  | Unmountall
  | Sync

fun run_op :: "'w vfs fs_ops \<Rightarrow> 'w table_op \<Rightarrow> 'w vfs \<Rightarrow> (int \<times> 'w vfs) kres" where
  "run_op F (Adddev m name dev mountable) s = vfs_adddev F m name dev mountable s"
| "run_op F (Addfs m name fs) s = vfs_addfs F m name fs s"
| "run_op F (Mount name f) s = vfs_mount name f s"
| "run_op F (Unmount name) s = vfs_unmount F name s"
| "run_op F (Swapon name d) s = kbind (vfs_swapon name d s) (\<lambda>((r, v), s). Ok (r, s))"
| "run_op F (Swapoff name) s = vfs_swapoff name s"
| "run_op F Unmountall s = vfs_unmountall F s"
| "run_op F Sync s = vfs_sync F s"

text \<open>
  The mount function that a client hands over: if it returns, it leaves the table and the lock alone and
  gives the address of a file system if it succeeds.
\<close>

definition mounts :: "(ptr \<Rightarrow> 'w vfs \<Rightarrow> (int \<times> ptr \<times> 'w vfs) kres) \<Rightarrow> bool" where
  "mounts f \<longleftrightarrow> (\<forall>dev t r fs t'. f dev t = Ok (r, fs, t') \<longrightarrow> quiet t t' \<and> (r = 0 \<longrightarrow> fs \<noteq> NULL \<and> fs \<noteq> SWAP_FS))"

fun op_ok :: "'w vfs \<Rightarrow> 'w table_op \<Rightarrow> bool" where
  "op_ok s (Adddev m name dev mountable) \<longleftrightarrow> dev \<noteq> NULL \<and> dev \<notin> kd_device ` set (knowndevs s)"
| "op_ok s (Addfs m name fs) \<longleftrightarrow> fs \<noteq> NULL \<and> fs \<noteq> SWAP_FS"
| "op_ok s (Mount name f) \<longleftrightarrow> mounts f"
| "op_ok s p \<longleftrightarrow> True"

text \<open>An operation keeps the table in order and gives the lock back, or fails in a way \<open>Q\<close> allows.\<close>

definition done_ok :: "(kerror \<Rightarrow> bool) \<Rightarrow> 'w vfs \<Rightarrow> (int \<times> 'w vfs) kres \<Rightarrow> bool" where
  "done_ok Q s r \<longleftrightarrow> (case r of Ok (c, s') \<Rightarrow> table_inv s' \<and> biglock_depth s' = biglock_depth s | Fail e \<Rightarrow> Q e)"

lemma done_released: "table_inv s' \<Longrightarrow> biglock_depth s' = Suc (biglock_depth s) \<Longrightarrow> done_ok Q s (released r s')"
  by (simp add: done_ok_def released_ok)

lemma done_fail: "Q e \<Longrightarrow> done_ok Q s (Fail e)"
  by (simp add: done_ok_def)

lemma set_fs_depth [simp]: "biglock_depth (set_fs i fs s) = biglock_depth s" "length (knowndevs (set_fs i fs s)) = length (knowndevs s)"
  by (simp_all add: set_fs_def)

lemma set_fs_quiet: "quiet s s' \<Longrightarrow> table_inv s \<Longrightarrow> i < length (knowndevs s) \<Longrightarrow> kd_rawname (knowndevs s ! i) \<noteq> None \<Longrightarrow> table_inv (set_fs i fs s')"
  by (rule set_fs_inv) (simp_all add: quiet_inv, simp_all add: quiet_def)

lemma raw_differs: "mkrawname name \<noteq> name"
  by (simp add: mkrawname_def)

lemma not_bad_new:
  assumes "badnames F (Some name) raw vol s = Ok False" "x \<in> set (concat (map kd_names (knowndevs s)))"
  shows "x \<noteq> name \<and> Some x \<noteq> raw"
proof -
  obtain kd where "kd \<in> set (knowndevs s)" "x \<in> set (kd_names kd)" using assms(2) by auto
  moreover have "\<not> samestring3 (kd_rawname kd) (Some name) raw vol" "\<not> samestring3 (Some (kd_name kd)) (Some name) raw vol" if "kd \<in> set (knowndevs s)"
    using assms(1) that by (auto simp: badnames_def kassert_def list_ex_iff split: if_splits)
  ultimately show ?thesis by (auto simp: kd_names_def samestring3_def samestring_def split: option.splits)
qed

lemma doadd_inv:
  assumes I: "table_inv s" and d: "dev \<noteq> NULL \<Longrightarrow> dev \<notin> kd_device ` set (knowndevs s)"
    and k: "fs = NULL \<and> dev \<noteq> NULL \<or> fs \<noteq> NULL \<and> fs \<noteq> SWAP_FS \<and> \<not> mountable"
  shows "done_ok Q s (vfs_doadd F m name mountable dev fs s)"
proof -
  let ?a = "biglock_acquire s"
  have fail0: "done_ok Q s (doadd_fail NULL r ?a)" for r using I by (simp add: doadd_fail_def done_released)
  show ?thesis
  proof (cases "m_name m \<and> (mountable \<longrightarrow> m_rawname m) \<and> m_vnode m \<noteq> NULL")
    case False
    then show ?thesis using fail0 by (auto simp: vfs_doadd_def Let_def)
  next
    case True
    let ?raw = "if mountable then Some (mkrawname name) else None"
    let ?b = "?a\<lparr>v_refcount := (v_refcount s)(m_vnode m := 1), v_fs := (v_fs s)(m_vnode m := NULL)\<rparr>"
    let ?vol = "if fs \<noteq> NULL then fsop_getvolname F fs ?b else None"
    let ?kd = "\<lparr>kd_name = name, kd_rawname = ?raw, kd_device = dev, kd_vnode = m_vnode m, kd_fs = fs\<rparr>"
    have Ib: "table_inv ?b" using I by (simp add: table_inv_def)
    have fail: "done_ok Q s (doadd_fail (m_vnode m) r ?b)" for r
      using True I by (simp add: doadd_fail_def vnode_cleanup_def) (rule done_released, simp_all add: table_inv_def)
    obtain bad where bad: "badnames F (Some name) ?raw ?vol ?b = Ok bad" by (simp add: badnames_def biglock_do_i_hold_def)
    show ?thesis
    proof (cases "m_kd m \<and> \<not> bad \<and> m_add m")
      case False
      then show ?thesis using True bad fail by (auto simp: vfs_doadd_def Let_def vnode_init_def)
    next
      case nb: True
      let ?c = "?b\<lparr>knowndevs := knowndevs s @ [?kd]\<rparr>"
      let ?s = "if dev \<noteq> NULL then ?c\<lparr>d_devnumber := (d_devnumber s)(dev := length (knowndevs s) + 1)\<rparr> else ?c"
      have "x \<notin> set (kd_names ?kd)" if "x \<in> set (concat (map kd_names (knowndevs s)))" for x
        using not_bad_new [of F name ?raw ?vol ?b x] that bad nb by (auto simp: kd_names_def)
      then have "set (concat (map kd_names (knowndevs s))) \<inter> set (kd_names ?kd) = {}" by blast
      moreover have "distinct (kd_names ?kd)" using raw_differs [of name] by (auto simp: kd_names_def)
      ultimately have D: "distinct (concat (map kd_names (knowndevs s @ [?kd])))"
        using I by (simp only: table_inv_def map_append concat_append distinct_append list.map concat.simps append_Nil2)
      have K: "kd_ok ?kd" using k True by (auto simp: kd_ok_def has_fs_def)
      have N: "d_devnumber ?s (kd_device ((knowndevs s @ [?kd]) ! i)) = i + 1"
        if "i < Suc (length (knowndevs s))" "kd_device ((knowndevs s @ [?kd]) ! i) \<noteq> NULL" for i
      proof (cases "i = length (knowndevs s)")
        case False
        then have "i < length (knowndevs s)" using that(1) by simp
        then have "kd_device (knowndevs s ! i) \<noteq> NULL" "kd_device (knowndevs s ! i) \<in> kd_device ` set (knowndevs s)"
          "d_devnumber s (kd_device (knowndevs s ! i)) = i + 1"
          using that(2) I by (auto simp: table_inv_def nth_append)
        then show ?thesis using d \<open>i < length (knowndevs s)\<close> by (auto simp: nth_append)
      qed (use that(2) in simp)
      define u where "u = ?s"
      have u: "knowndevs u = knowndevs s @ [?kd]" by (simp add: u_def)
      have "table_inv u" unfolding table_inv_def u using D K N I unfolding u_def [symmetric] by (simp add: table_inv_def)
      then have "done_ok Q s (released 0 u)" by (rule done_released) (simp add: u_def)
      moreover have "vfs_doadd F m name mountable dev fs s = released 0 u"
        using True nb bad unfolding u_def by (cases mountable; cases "dev = NULL"; cases "fs = NULL") (simp_all add: vfs_doadd_def Let_def vnode_init_def)
      ultimately show ?thesis by simp
    qed
  qed
qed

lemma mount_inv:
  assumes I: "table_inv s" and f: "mounts f" and Q: "\<And>dev t e. f dev t = Fail e \<Longrightarrow> Q e"
  shows "done_ok Q s (vfs_mount name f s)"
proof -
  let ?a = "biglock_acquire s"
  have J: "table_inv ?a" "biglock_do_i_hold ?a" using I by simp_all
  show ?thesis
  proof (cases rule: findmount_cases [OF J, of name])
    case (2 i)
    show ?thesis
    proof (cases "f (kd_device (knowndevs ?a ! i)) ?a")
      case (Ok x)
      obtain r fs t where x: "x = (r, fs, t)" by (cases x)
      have t: "quiet ?a t" "r = 0 \<longrightarrow> fs \<noteq> NULL \<and> fs \<noteq> SWAP_FS" using f Ok x unfolding mounts_def by blast+
      have d: "biglock_depth t = Suc (biglock_depth s)" "table_inv t" using t(1) quiet_inv [OF t(1)] I by (simp_all add: quiet_def)
      have "table_inv (set_fs i fs t)" by (rule set_fs_quiet [OF t(1)]) (use I 2 in simp_all)
      then show ?thesis using I 2 t Ok x d by (auto simp: vfs_mount_def Let_def done_released)
    next
      case (Fail e)
      then show ?thesis using I 2 Q [OF Fail] by (auto simp: vfs_mount_def Let_def done_released intro!: done_fail)
    qed
  qed (use I in \<open>simp_all add: vfs_mount_def Let_def done_released\<close>)
qed

lemma unmount_inv:
  assumes I: "table_inv s" and F: "fs_quiet F"
  shows "done_ok (fs_fault F s) s (vfs_unmount F name s)"
proof -
  let ?a = "biglock_acquire s"
  have J: "table_inv ?a" "biglock_do_i_hold ?a" using I by simp_all
  show ?thesis
  proof (cases rule: findmount_cases [OF J, of name])
    case (2 i)
    let ?fs = "kd_fs (knowndevs s ! i)"
    have D: "biglock_depth t = Suc (biglock_depth s)" "table_inv t" "table_inv (set_fs i NULL t)" if "quiet ?a t" for t
      using that quiet_inv [OF that] I set_fs_quiet [OF that] 2 by (simp_all add: quiet_def)
    show ?thesis
    proof (cases "has_fs (knowndevs s ! i)")
      case True
      then have fault: "fsop_sync F ?fs u = Fail e \<or> fsop_unmount F ?fs u = Fail e \<Longrightarrow> fs_fault F s e" for u e
        using 2(2,3) unfolding fs_fault_def by (intro bexI [of _ "knowndevs s ! i"]) auto
      have un: "done_ok (fs_fault F s) s (kbind (fsop_unmount F ?fs t) (\<lambda>(r, u). if r \<noteq> 0 then released r u else released 0 (set_fs i NULL u)))"
        if t: "quiet ?a t" for t
      proof (cases "fsop_unmount F ?fs t")
        case (Ok x)
        obtain r u where x: "x = (r, u)" by (cases x)
        then have "quiet ?a u" using quiet_trans [OF t] fs_quietD(2) [OF F] Ok by blast
        from D [OF this] show ?thesis using Ok x by (simp add: done_released)
      qed (use fault in \<open>auto intro: done_fail\<close>)
      show ?thesis
      proof (cases "fsop_sync F ?fs ?a")
        case (Ok x)
        obtain r t where x: "x = (r, t)" by (cases x)
        then have q: "quiet ?a t" using fs_quietD(1) [OF F] Ok by blast
        show ?thesis using Ok x D [OF q] un [OF q] 2 True by (simp add: vfs_unmount_def Let_def done_released)
      qed (use 2 True fault in \<open>auto simp: vfs_unmount_def Let_def intro!: done_fail\<close>)
    qed (use I 2 in \<open>simp add: vfs_unmount_def Let_def done_released\<close>)
  qed (use I in \<open>simp_all add: vfs_unmount_def Let_def done_released\<close>)
qed

lemma swapoff_inv: "table_inv s \<Longrightarrow> done_ok Q s (vfs_swapoff name s)"
  by (rule findmount_cases [of "biglock_acquire s" name])
    (auto simp: vfs_swapoff_def Let_def intro!: done_released set_fs_inv)

lemma swapon_inv:
  assumes I: "table_inv s"
  shows "done_ok Q s (kbind (vfs_swapon name d s) (\<lambda>((r, v), s). Ok (r, s)))"
proof (cases "name \<noteq> [] \<and> last name = 58 \<and> \<not> d")
  case True
  then show ?thesis using I by (simp add: vfs_swapon_def Let_def done_ok_def)
next
  case False
  let ?a = "biglock_acquire s"
  let ?n = "if name \<noteq> [] \<and> last name = 58 then butlast name else name"
  have R: "done_ok Q s (kbind (released (r, v) t) (\<lambda>((r, v), s). Ok (r, s)))" if "table_inv t" "biglock_depth t = Suc (biglock_depth s)" for r v and t :: "'a vfs"
    using that by (simp add: done_ok_def released_ok)
  have J: "table_inv ?a" "biglock_do_i_hold ?a" using I by simp_all
  note D = vfs_swapon_def [of name d s, unfolded Let_def]
  show ?thesis
  proof (cases rule: findmount_cases [OF J, of ?n])
    case (2 i)
    let ?t = "set_fs i SWAP_FS ?a" and ?v = "kd_vnode (knowndevs s ! i)"
    have "table_inv ?t" using I 2 by (intro set_fs_inv) simp_all
    then have "table_inv (?t\<lparr>v_refcount := (v_refcount ?t)(?v := v_refcount ?t ?v + 1)\<rparr>)" by (simp add: table_inv_def)
    note R1 = R [OF this, of 0 ?v]
    show ?thesis
    proof (cases "kd_fs (knowndevs s ! i) = NULL")
      case True
      then show ?thesis using R1 False 2 unfolding D by (auto simp: incref_def)
    next
      case fs: False
      then show ?thesis using R [OF J(1), of EBUSY NULL] False 2 unfolding D by auto
    qed
  next
    case 1
    then show ?thesis using R [OF J(1), of ENODEV NULL] False unfolding D by auto
  qed
qed

lemma kfold_keeps:
  assumes "\<And>i s. i \<in> set l \<Longrightarrow> P s \<Longrightarrow> (\<exists>s'. f i s = Ok s' \<and> P s') \<or> (\<exists>e. f i s = Fail e \<and> Q e)"
  shows "P s \<Longrightarrow> (\<exists>s'. kfold f l s = Ok s' \<and> P s') \<or> (\<exists>e. kfold f l s = Fail e \<and> Q e)"
  using assms
proof (induction l arbitrary: s)
  case (Cons i l)
  from Cons.prems(2) [of i s] Cons.prems(1) consider s1 where "f i s = Ok s1" "P s1" | e where "f i s = Fail e" "Q e" by auto
  then show ?case
  proof cases
    case 1
    then show ?thesis using Cons.IH [OF 1(2)] Cons.prems(2) by simp
  qed simp
qed simp

text \<open>The loops over the table: the file systems they meet are file systems of the table before.\<close>

definition fs_among :: "'w vfs \<Rightarrow> 'w vfs \<Rightarrow> bool" where
  "fs_among s t \<longleftrightarrow> (\<forall>kd \<in> set (knowndevs t). has_fs kd \<longrightarrow>
     (\<exists>k \<in> set (knowndevs s). has_fs k \<and> kd_fs k = kd_fs kd \<and> (kd_rawname k = None \<longleftrightarrow> kd_rawname kd = None)))"

lemma fs_among_fault: "fs_among s t \<Longrightarrow> fs_fault F t e \<Longrightarrow> fs_fault F s e"
  unfolding fs_among_def fs_fault_def by metis

lemma fs_among_quiet: "fs_among s t \<Longrightarrow> quiet t u \<Longrightarrow> fs_among s u"
  by (simp add: fs_among_def quiet_def)

lemma fs_among_clear:
  assumes "fs_among s t"
  shows "fs_among s (set_fs i NULL t)"
proof -
  let ?k = "knowndevs t"
  have "kd \<in> set ?k" if "kd \<in> set (?k[i := (?k ! i)\<lparr>kd_fs := NULL\<rparr>])" "has_fs kd" for kd
    using that set_update_subset_insert [of ?k i "(?k ! i)\<lparr>kd_fs := NULL\<rparr>"] by (auto simp: has_fs_def)
  then show ?thesis using assms by (simp add: fs_among_def set_fs_def)
qed

lemma unmount_dev_inv:
  assumes F: "fs_quiet F" and t: "table_inv t" "fs_among s t" and i: "i < length (knowndevs t)"
  shows "(\<exists>t'. unmount_dev F i t = Ok t' \<and> table_inv t' \<and> biglock_depth t' = biglock_depth t
      \<and> length (knowndevs t') = length (knowndevs t) \<and> fs_among s t')
    \<or> (\<exists>e. unmount_dev F i t = Fail e \<and> fs_fault F s e)"
proof (cases "kd_rawname (knowndevs t ! i) = None \<or> \<not> has_fs (knowndevs t ! i)")
  case True
  then show ?thesis
    using t i set_fs_inv [OF t(1) i] fs_among_clear [OF t(2)] by (auto simp: unmount_dev_def Let_def has_fs_def)
next
  case False
  let ?fs = "kd_fs (knowndevs t ! i)"
  let ?P = "\<lambda>t'. table_inv t' \<and> biglock_depth t' = biglock_depth t \<and> length (knowndevs t') = length (knowndevs t) \<and> fs_among s t'"
  have fault: "fsop_sync F ?fs u = Fail e \<or> fsop_unmount F ?fs u = Fail e \<Longrightarrow> fs_fault F s e" for u e
    using fs_among_fault [OF t(2)] False i unfolding fs_fault_def by (meson nth_mem)
  have P: "?P t'" "?P (set_fs i NULL t')" if "quiet t t'" for t'
    using that quiet_inv [OF that] t fs_among_quiet [OF t(2) that] fs_among_clear set_fs_quiet [OF that t(1) i] False
    by (auto simp: quiet_def)
  have run: "unmount_dev F i t = kbind (fsop_sync F ?fs t) (\<lambda>(result, s).
           kbind (if result \<noteq> 0 then fsop_sync F ?fs s else Ok (0, s)) (\<lambda>(result, s).
             if result \<noteq> 0 then Ok s
             else kbind (fsop_unmount F ?fs s) (\<lambda>(result, s). if result \<noteq> 0 then Ok s else Ok (set_fs i NULL s))))"
    using False by (auto simp: unmount_dev_def Let_def has_fs_def)
  have un: "(\<exists>t'. kbind (fsop_unmount F ?fs u) (\<lambda>(result, s). if result \<noteq> 0 then Ok s else Ok (set_fs i NULL s)) = Ok t' \<and> ?P t')
      \<or> (\<exists>e. kbind (fsop_unmount F ?fs u) (\<lambda>(result, s). if result \<noteq> 0 then Ok s else Ok (set_fs i NULL s)) = Fail e \<and> fs_fault F s e)"
    if u: "quiet t u" for u
  proof (cases "fsop_unmount F ?fs u")
    case (Ok x)
    obtain r w where x: "x = (r, w)" by (cases x)
    then have "quiet t w" using quiet_trans [OF u] fs_quietD(2) [OF F] Ok by blast
    from P [OF this] show ?thesis using Ok x by simp
  qed (use fault in auto)
  show ?thesis
  proof (cases "fsop_sync F ?fs t")
    case (Ok x)
    obtain r1 t1 where x: "x = (r1, t1)" by (cases x)
    then have q1: "quiet t t1" using fs_quietD(1) [OF F] Ok by blast
    show ?thesis
    proof (cases "if r1 \<noteq> 0 then fsop_sync F ?fs t1 else Ok (0, t1)")
      case two: (Ok y)
      obtain r2 t2 where y: "y = (r2, t2)" by (cases y)
      then have "quiet t1 t2" using fs_quietD(1) [OF F, of ?fs t1 r2 t2] two by (auto split: if_splits)
      then have q2: "quiet t t2" by (rule quiet_trans [OF q1])
      show ?thesis using un [OF q2] P [OF q2] unfolding run Ok x by (simp add: two y)
    next
      case (Fail e)
      then show ?thesis using fault [of t1 e] unfolding run Ok x by (auto split: if_splits)
    qed
  qed (use fault run in auto)
qed

lemma unmountall_inv:
  assumes I: "table_inv s" and F: "fs_quiet F"
  shows "done_ok (fs_fault F s) s (vfs_unmountall F s)"
proof -
  let ?P = "\<lambda>t. table_inv t \<and> biglock_depth t = Suc (biglock_depth s) \<and> length (knowndevs t) = length (knowndevs s) \<and> fs_among s t"
  have "(\<exists>t'. unmount_dev F i t = Ok t' \<and> ?P t') \<or> (\<exists>e. unmount_dev F i t = Fail e \<and> fs_fault F s e)"
    if "i \<in> set [0..<length (knowndevs s)]" "?P t" for i t
    using unmount_dev_inv [OF F, of t s i] that by auto
  moreover have "?P (biglock_acquire s)" using I by (auto simp: fs_among_def)
  ultimately show ?thesis
    using kfold_keeps [of "[0..<length (knowndevs s)]" ?P "unmount_dev F" "fs_fault F s" "biglock_acquire s"]
    by (auto simp: vfs_unmountall_def done_released intro: done_fail)
qed

lemma sync_inv:
  assumes I: "table_inv s" and F: "fs_quiet F"
  shows "done_ok (fs_fault F s) s (vfs_sync F s)"
proof -
  let ?f = "\<lambda>i s. let dev = knowndevs s ! i in if has_fs dev then kbind (fsop_sync F (kd_fs dev) s) (\<lambda>(result, s). Ok s) else Ok s"
  let ?P = "\<lambda>t. table_inv t \<and> biglock_depth t = Suc (biglock_depth s) \<and> knowndevs t = knowndevs s"
  have "(\<exists>t'. ?f i t = Ok t' \<and> ?P t') \<or> (\<exists>e. ?f i t = Fail e \<and> fs_fault F s e)"
    if i: "i \<in> set [0..<length (knowndevs s)]" and t: "?P t" for i t
  proof (cases "fsop_sync F (kd_fs (knowndevs t ! i)) t")
    case (Ok x)
    obtain r t1 where x: "x = (r, t1)" by (cases x)
    then have q: "quiet t t1" using fs_quietD(1) [OF F] Ok by blast
    then show ?thesis using Ok x t quiet_inv [OF q] by (simp add: Let_def quiet_def)
  next
    case (Fail e)
    have "fs_fault F s e" if "has_fs (knowndevs t ! i)" using Fail that i t unfolding fs_fault_def by (metis nth_mem atLeastLessThan_iff set_upt)
    then show ?thesis using Fail t by (simp add: Let_def)
  qed
  moreover have "?P (biglock_acquire s)" using I by simp
  ultimately show ?thesis
    using kfold_keeps [of "[0..<length (knowndevs s)]" ?P ?f "fs_fault F s" "biglock_acquire s"]
    by (auto simp: vfs_sync_def done_released intro: done_fail)
qed

text \<open>How an operation can fail: as a file system of the table does, or as the mount function handed over.\<close>

definition op_fault :: "'w vfs fs_ops \<Rightarrow> 'w vfs \<Rightarrow> 'w table_op \<Rightarrow> kerror \<Rightarrow> bool" where
  "op_fault F s p e \<longleftrightarrow> fs_fault F s e \<or> (\<exists>name f dev u. p = Mount name f \<and> f dev u = Fail e)"

lemma done_weaken: "done_ok Q s r \<Longrightarrow> (\<And>e. Q e \<Longrightarrow> Q' e) \<Longrightarrow> done_ok Q' s r"
  by (auto simp: done_ok_def split: kres.splits)

lemma run_op_inv:
  assumes "table_inv s" "fs_quiet F" "op_ok s p"
  shows "done_ok (op_fault F s p) s (run_op F p s)"
proof (cases p)
  case (Mount name f)
  then show ?thesis using assms mount_inv [of s f "op_fault F s p" name] by (auto simp: op_fault_def)
next
  case (Unmount name)
  then show ?thesis using done_weaken [OF unmount_inv [OF assms(1,2)]] by (simp add: op_fault_def)
next
  case Unmountall
  then show ?thesis using done_weaken [OF unmountall_inv [OF assms(1,2)]] by (simp add: op_fault_def)
next
  case Sync
  then show ?thesis using done_weaken [OF sync_inv [OF assms(1,2)]] by (simp add: op_fault_def)
qed (use assms in \<open>simp_all add: vfs_adddev_def vfs_addfs_def doadd_inv swapon_inv swapoff_inv\<close>)

text \<open>Any sequence of operations, each applied to the state that the ones before it leave.\<close>

inductive runs :: "'w vfs fs_ops \<Rightarrow> 'w vfs \<Rightarrow> 'w vfs \<Rightarrow> bool" for F where
  start: "runs F s s"
| step: "runs F s t \<Longrightarrow> op_ok t p \<Longrightarrow> run_op F p t = Ok (r, u) \<Longrightarrow> runs F s u"

lemma table_runs_inv: "runs F s t \<Longrightarrow> fs_quiet F \<Longrightarrow> table_inv s \<Longrightarrow> table_inv t \<and> biglock_depth t = biglock_depth s"
proof (induction rule: runs.induct)
  case (step s t p r u)
  then show ?case using run_op_inv [of t F p] by (auto simp: done_ok_def)
qed simp

lemma op_returns:
  assumes "table_inv t" "fs_quiet F" "op_ok t p"
  shows "(\<exists>r u. run_op F p t = Ok (r, u)) \<or> (\<exists>e. run_op F p t = Fail e \<and> op_fault F t p e)"
  using run_op_inv [OF assms] by (cases "run_op F p t") (auto simp: done_ok_def)

definition ex_fsops :: "unit vfs fs_ops" where
  "ex_fsops = \<lparr>fsop_sync = (\<lambda>fs s. Ok (0, s)), fsop_getvolname = (\<lambda>fs s. None), fsop_getroot = (\<lambda>fs s. Ok (0, 0x80001000, s)),
     fsop_unmount = (\<lambda>fs s. Ok (0, s))\<rparr>"

definition ex_vfs :: "unit vfs" where
  "ex_vfs = \<lparr>knowndevs = [], biglock_depth = 0, bootfs_vnode = NULL, cwd = NULL, v_refcount = (\<lambda>p. 0), v_fs = (\<lambda>p. NULL),
     d_devnumber = (\<lambda>d. 0), fs_world = ()\<rparr>"

definition ex_mem :: doadd_mem where
  "ex_mem = \<lparr>m_name = True, m_rawname = True, m_vnode = 0x80002000, m_kd = True, m_add = True\<rparr>"

section \<open>What a device name refers to\<close>

definition all_names :: "'w vfs fs_ops \<Rightarrow> 'w vfs \<Rightarrow> knowndev \<Rightarrow> byte list set" where
  "all_names F s kd = set (kd_names kd) \<union> (if has_fs kd then set_option (fsop_getvolname F (kd_fs kd) s) else {})"

lemma getroot_skip: "(\<And>kd. kd \<in> set pre \<Longrightarrow> name \<notin> all_names F s kd) \<Longrightarrow> getroot_loop F name (pre @ kds) s = getroot_loop F name kds s"
proof (induction pre)
  case (Cons kd pre)
  have "name \<notin> all_names F s kd" using Cons.prems by simp
  then have "kd_name kd \<noteq> name" "kd_rawname kd \<noteq> Some name" "\<not> (has_fs kd \<and> fsop_getvolname F (kd_fs kd) s = Some name)"
    by (auto simp: all_names_def kd_names_def split: option.splits)
  then show ?case using Cons by auto
qed simp

definition more_refs :: "ptr \<Rightarrow> 'w vfs \<Rightarrow> 'w vfs" where
  "more_refs vn s = s\<lparr>v_refcount := (v_refcount s)(vn := v_refcount s vn + 1)\<rparr>"

text \<open>What an entry that answers to a name gives.\<close>

definition kd_gives :: "'w vfs fs_ops \<Rightarrow> byte list \<Rightarrow> knowndev \<Rightarrow> 'w vfs \<Rightarrow> (int \<times> ptr \<times> 'w vfs) kres" where
  "kd_gives F name kd s =
     (if has_fs kd \<and> (name = kd_name kd \<or> fsop_getvolname F (kd_fs kd) s = Some name) then fsop_getroot F (kd_fs kd) s
      else if name = kd_name kd \<and> kd_rawname kd \<noteq> None then Ok (ENXIO, NULL, s)
      else Ok (0, kd_vnode kd, more_refs (kd_vnode kd) s))"

lemma getroot_found:
  assumes "kd_ok kd" "name \<in> all_names F s kd"
  shows "getroot_loop F name (kd # kds) s = kd_gives F name kd s"
  using assms raw_differs [of "kd_name kd"]
  by (auto simp: kd_gives_def all_names_def kd_names_def kd_ok_def incref_def more_refs_def has_fs_def split: if_splits option.splits)

lemma getroot_find:
  assumes "\<forall>kd \<in> set kds. kd_ok kd"
  shows "getroot_loop F name kds s =
    (case find (\<lambda>kd. name \<in> all_names F s kd) kds of None \<Rightarrow> Ok (ENODEV, NULL, s) | Some kd \<Rightarrow> kd_gives F name kd s)"
  using assms
proof (induction kds)
  case (Cons kd kds)
  show ?case
  proof (cases "name \<in> all_names F s kd")
    case True
    then show ?thesis using getroot_found [OF _ True] Cons.prems by simp
  next
    case False
    then show ?thesis using getroot_skip [of "[kd]" name F s kds] Cons by simp
  qed
qed simp

lemma name_unique:
  assumes "distinct (concat (map kd_names kds))" "kd \<in> set kds" "name \<in> set (kd_names kd)"
    and "\<forall>k \<in> set kds. k \<noteq> kd \<and> has_fs k \<longrightarrow> fsop_getvolname F (kd_fs k) s \<noteq> Some name"
  shows "find (\<lambda>kd. name \<in> all_names F s kd) kds = Some kd"
  using assms
proof (induction kds)
  case (Cons k kds)
  show ?case
  proof (cases "k = kd")
    case True
    then show ?thesis using Cons.prems(3) by (simp add: all_names_def)
  next
    case False
    then have "kd \<in> set kds" using Cons.prems(2) by simp
    then have "name \<notin> set (kd_names k)" using Cons.prems(1,3) by auto
    then have "name \<notin> all_names F s k" using Cons.prems(4) False by (auto simp: all_names_def)
    then show ?thesis using Cons.IH Cons.prems \<open>kd \<in> set kds\<close> by simp
  qed
qed simp

text \<open>
  (C27) What a device name refers to, in a table that is in order: the first entry that answers to the name, by
  its name, its raw name or the name of the volume on it, decides. It gives the root of its file
  system for its own name and the name of the volume, \<open>ENXIO\<close> for its own name if it is mountable
  and has no file system, else the device itself with one reference more; if no entry answers, the
  result is \<open>ENODEV\<close>. The name and the raw name of a device lead to its own entry if no volume
  on another device bears the name, and to an earlier entry with such a volume otherwise.
\<close>

theorem vfs_getroot_resolves:
  assumes "table_inv s" "biglock_do_i_hold s"
  shows "vfs_getroot F name s =
      (case find (\<lambda>kd. name \<in> all_names F s kd) (knowndevs s) of
         None \<Rightarrow> Ok (ENODEV, NULL, s)
       | Some kd \<Rightarrow>
           if has_fs kd \<and> (name = kd_name kd \<or> fsop_getvolname F (kd_fs kd) s = Some name) then fsop_getroot F (kd_fs kd) s
           else if name = kd_name kd \<and> kd_rawname kd \<noteq> None then Ok (ENXIO, NULL, s)
           else Ok (0, kd_vnode kd, more_refs (kd_vnode kd) s))
    \<and> (\<forall>kd \<in> set (knowndevs s). name \<in> set (kd_names kd)
         \<and> (\<forall>k \<in> set (knowndevs s). k \<noteq> kd \<and> has_fs k \<longrightarrow> fsop_getvolname F (kd_fs k) s \<noteq> Some name) \<longrightarrow>
         find (\<lambda>kd. name \<in> all_names F s kd) (knowndevs s) = Some kd)"
proof (intro conjI ballI impI)
  have ok: "\<forall>kd \<in> set (knowndevs s). kd_ok kd" and d: "distinct (concat (map kd_names (knowndevs s)))"
    using assms(1) by (simp_all add: table_inv_def)
  show "find (\<lambda>kd. name \<in> all_names F s kd) (knowndevs s) = Some kd"
    if "kd \<in> set (knowndevs s)" "name \<in> set (kd_names kd) \<and> (\<forall>k \<in> set (knowndevs s). k \<noteq> kd \<and> has_fs k \<longrightarrow> fsop_getvolname F (kd_fs k) s \<noteq> Some name)" for kd
    using name_unique [OF d that(1)] that(2) by blast
qed (use assms getroot_find [of "knowndevs s" F name s] in \<open>simp add: vfs_getroot_def table_inv_def kd_gives_def cong: option.case_cong\<close>)

definition ex_vfs2 :: "unit vfs" where
  "ex_vfs2 = ex_vfs\<lparr>biglock_depth := 1, knowndevs :=
     [\<lparr>kd_name = [97], kd_rawname = Some (mkrawname [97]), kd_device = 0x80003000, kd_vnode = 0x80002000, kd_fs = NULL\<rparr>,
      \<lparr>kd_name = [98], kd_rawname = None, kd_device = NULL, kd_vnode = 0x80002100, kd_fs = 0x80005000\<rparr>],
     d_devnumber := (\<lambda>d. 1)\<rparr>"

text \<open>A file system whose volume has the name of the raw device \<open>araw\<close>, added before that device.\<close>

definition ex_fsops2 :: "unit vfs fs_ops" where
  "ex_fsops2 = ex_fsops\<lparr>fsop_getvolname := (\<lambda>fs s. Some [97, 114, 97, 119])\<rparr>"

definition ex_vfs3 :: "unit vfs" where
  "ex_vfs3 = ex_vfs2\<lparr>knowndevs := rev (knowndevs ex_vfs2), d_devnumber := (\<lambda>d. 2)\<rparr>"

theorem vfs_getroot_resolves_witness:
  "vfs_getroot ex_fsops [97, 114, 97, 119] ex_vfs3 = Ok (0, 0x80002000, more_refs 0x80002000 ex_vfs3)
    \<and> vfs_getroot ex_fsops2 [97, 114, 97, 119] ex_vfs3 = Ok (0, 0x80001000, ex_vfs3)
    \<and> vfs_getroot ex_fsops2 [97] ex_vfs3 = Ok (ENXIO, NULL, ex_vfs3)"
proof -
  have I: "table_inv ex_vfs3"
    by (simp add: table_inv_def ex_vfs3_def ex_vfs2_def kd_ok_def kd_names_def has_fs_def SWAP_FS_def mkrawname_def less_Suc_eq)
  have H: "biglock_do_i_hold ex_vfs3" by (simp add: ex_vfs3_def ex_vfs2_def biglock_do_i_hold_def)
  note R = vfs_getroot_resolves [OF I H, THEN conjunct1]
  note S = ex_vfs3_def ex_vfs2_def has_fs_def SWAP_FS_def mkrawname_def ex_fsops_def ex_fsops2_def all_names_def kd_names_def
  show ?thesis
    unfolding R by (simp add: S)
qed

section \<open>Path names\<close>

lemma first_sep_spec:
  "\<lbrakk>58 \<notin> set pre; 47 \<notin> set pre\<rbrakk> \<Longrightarrow> first_sep i (pre @ c # cs) =
     (if c = 58 then (Some (i + length pre), None) else if c = 47 then (None, Some (i + length pre)) else first_sep (i + length pre + 1) cs)"
  by (induction pre arbitrary: i) auto

lemma first_sep_none: "58 \<notin> set cs \<Longrightarrow> \<exists>n. first_sep i cs = (None, n) \<and> (n = Some i \<longrightarrow> cs \<noteq> [] \<and> hd cs = 47) \<and> (\<forall>m. n = Some m \<longrightarrow> i \<le> m)"
proof (induction cs arbitrary: i)
  case (Cons c cs)
  then obtain n where "first_sep (i + 1) cs = (None, n)" "\<forall>m. n = Some m \<longrightarrow> i + 1 \<le> m" by fastforce
  then show ?case using Cons.prems by auto
qed simp

text \<open>
  (C28) The forms of path names, for a thread that holds the lock. \<open>dev:rest\<close> starts at the root that the
  device name refers to, \<open>/rest\<close> at the boot file system, \<open>:rest\<close> at the root of the file system of the
  current directory, anything else at the current directory; slashes that follow the first colon or slash are skipped.
\<close>

theorem getdevice_forms:
  assumes "biglock_do_i_hold s" "rest = [] \<or> hd rest \<noteq> 47"
  shows "(dev \<noteq> [] \<and> 58 \<notin> set dev \<and> 47 \<notin> set dev \<longrightarrow>
      getdevice F V (dev @ 58 # replicate n 47 @ rest) s = kbind (vfs_getroot F dev s) (\<lambda>(r, vn, s). Ok (r, rest, vn, s)))
    \<and> getdevice F V (47 # replicate n 47 @ rest) s =
        (if bootfs_vnode s \<noteq> NULL then Ok (0, rest, bootfs_vnode s, more_refs (bootfs_vnode s) s) else Ok (ENOENT, rest, NULL, s))
    \<and> (cwd s \<noteq> NULL \<and> v_fs s (cwd s) \<noteq> NULL \<longrightarrow> getdevice F V (58 # replicate n 47 @ rest) s =
      kbind (fsop_getroot F (v_fs s (cwd s)) (more_refs (cwd s) s)) (\<lambda>(r, vn, t). kbind (decref V (cwd s) t) (\<lambda>t. Ok (r, rest, vn, t))))
    \<and> (rest \<noteq> [] \<and> 58 \<notin> set rest \<longrightarrow> getdevice F V rest s =
        (if cwd s \<noteq> NULL then Ok (0, rest, cwd s, more_refs (cwd s) s) else Ok (ENOENT, rest, NULL, s)))
    \<and> getdevice F V [] s = Ok (EINVAL, [], NULL, s)"
proof (intro conjI impI)
  have dw: "dropWhile (\<lambda>c. c = 47) (replicate n 47 @ rest) = rest" using assms(2) by (induction n) (cases rest, auto)+
  { assume d: "dev \<noteq> [] \<and> 58 \<notin> set dev \<and> 47 \<notin> set dev"
    show "getdevice F V (dev @ 58 # replicate n 47 @ rest) s = kbind (vfs_getroot F dev s) (\<lambda>(r, vn, s). Ok (r, rest, vn, s))"
      using first_sep_spec [of dev 0 58] d assms(1) dw by (simp add: getdevice_def) }
  show "getdevice F V (47 # replicate n 47 @ rest) s =
      (if bootfs_vnode s \<noteq> NULL then Ok (0, rest, bootfs_vnode s, more_refs (bootfs_vnode s) s) else Ok (ENOENT, rest, NULL, s))"
    using assms(1) dw by (simp add: getdevice_def incref_def more_refs_def)
  { assume "cwd s \<noteq> NULL \<and> v_fs s (cwd s) \<noteq> NULL"
    then show "getdevice F V (58 # replicate n 47 @ rest) s =
        kbind (fsop_getroot F (v_fs s (cwd s)) (more_refs (cwd s) s)) (\<lambda>(r, vn, t). kbind (decref V (cwd s) t) (\<lambda>t. Ok (r, rest, vn, t)))"
      using assms(1) dw by (cases "fsop_getroot F (v_fs s (cwd s)) (more_refs (cwd s) s)")
        (auto simp: getdevice_def vfs_getcurdir_def incref_def more_refs_def kbind_def split: kres.splits) }
  { assume r: "rest \<noteq> [] \<and> 58 \<notin> set rest"
    obtain m where "first_sep 0 rest = (None, m)" "m \<noteq> Some 0" using first_sep_none [of rest 0] assms(2) r by auto
    then show "getdevice F V rest s = (if cwd s \<noteq> NULL then Ok (0, rest, cwd s, more_refs (cwd s) s) else Ok (ENOENT, rest, NULL, s))"
      using r assms(1) by (simp add: getdevice_def vfs_getcurdir_def incref_def more_refs_def) }
  show "getdevice F V [] s = Ok (EINVAL, [], NULL, s)" using assms(1) by (simp add: getdevice_def)
qed

definition ex_vnops :: "unit vfs vnode_ops" where
  "ex_vnops = \<lparr>vop_eachopen = (\<lambda>v f s. Ok (0, s)), vop_reclaim = (\<lambda>v s. Ok (0, s)), vop_readlink = (\<lambda>v u s. Ok (EINVAL, u, s)),
     vop_gettype = (\<lambda>v s. Ok (0, S_IFDIR, s)), vop_truncate = (\<lambda>v l s. Ok (0, s)), vop_creat = (\<lambda>v n x s. Ok (EINVAL, NULL, s)),
     vop_symlink = (\<lambda>v a b s. Ok (EINVAL, s)), vop_mkdir = (\<lambda>v n s. Ok (EINVAL, s)), vop_link = (\<lambda>v n w s. Ok (EINVAL, s)),
     vop_remove = (\<lambda>v n s. Ok (EINVAL, s)), vop_rmdir = (\<lambda>v n s. Ok (EINVAL, s)), vop_rename = (\<lambda>v n w m s. Ok (EINVAL, s)),
     vop_lookup = (\<lambda>v n s. Ok (ENOENT, NULL, s)), vop_lookparent = (\<lambda>v n l s. Ok (ENOENT, NULL, [], s))\<rparr>"

text \<open>The path \<open>b://x\<close> in a system with the file system \<open>b\<close>.\<close>

theorem getdevice_forms_witness:
  "getdevice ex_fsops ex_vnops [98, 58, 47, 47, 120] ex_vfs2 = Ok (0, [120], 0x80001000, ex_vfs2)"
proof -
  have h: "biglock_do_i_hold ex_vfs2" "[120 :: byte] = [] \<or> hd [120 :: byte] \<noteq> 47" by (simp_all add: ex_vfs2_def biglock_do_i_hold_def)
  have "getdevice ex_fsops ex_vnops ([98] @ 58 # replicate 2 47 @ [120]) ex_vfs2 = kbind (vfs_getroot ex_fsops [98] ex_vfs2) (\<lambda>(r, vn, s). Ok (r, [120], vn, s))"
    using getdevice_forms [OF h, where dev = "[98]" and F = ex_fsops and V = ex_vnops and n = 2] by simp
  then show ?thesis by (simp add: numeral_2_eq_2) (simp add: vfs_getroot_def ex_vfs2_def biglock_do_i_hold_def has_fs_def SWAP_FS_def ex_fsops_def mkrawname_def)
qed

text \<open>
  \<open>vfs_setbootfs\<close> rejects every name with a colon, although its comment allows one at the end and
  \<^verbatim>\<open>include/vfs.h\<close> gives \<open>"lhd0:"\<close> as an example.
\<close>

theorem vfs_setbootfs_colon:
  assumes "58 \<in> set (take 254 fsname)"
  shows "vfs_setbootfs F V fsname s = Ok (EINVAL, s)"
proof -
  have "dropWhile (\<lambda>c. c \<noteq> 58) (take 254 fsname) \<noteq> []" using assms by (auto simp: dropWhile_eq_Nil_conv)
  then show ?thesis by (simp add: vfs_setbootfs_def Let_def NAME_MAX_def released_ok biglock_acquire_def)
qed

theorem vfs_setbootfs_colon_witness: "vfs_setbootfs ex_fsops ex_vnops [98, 58] ex_vfs2 = Ok (EINVAL, ex_vfs2)"
  by (rule vfs_setbootfs_colon) simp

end
