(* ===== verification/VFS_Refs.thy ===== *)
theory VFS_Refs
  imports VFS_Spec
begin

text \<open>
  Reference counts in the VFS layer. The locale \<open>file_systems\<close> states what \<^verbatim>\<open>include/vnode.h\<close> and
  \<^verbatim>\<open>include/fs.h\<close> demand of file systems: an operation that hands back a vnode has counted one reference
  to it, no other count changes, and the last reference goes to \<open>vop_reclaim\<close>. From that follows that no operation
  on path names loses or leaks a reference, whichever of its error paths it takes.
\<close>

section \<open>What an operation does to the counts\<close>

definition kept :: "'w vfs \<Rightarrow> 'w vfs \<Rightarrow> bool" where
  "kept s t \<longleftrightarrow> knowndevs t = knowndevs s \<and> biglock_depth t = biglock_depth s \<and> bootfs_vnode t = bootfs_vnode s \<and> cwd t = cwd s
     \<and> d_devnumber t = d_devnumber s \<and> (\<forall>v. v_refcount s v > 0 \<and> v_refcount t v > 0 \<longrightarrow> v_fs t v = v_fs s v)"

text \<open>All counts are the same; or one reference to \<open>v\<close> has come in.\<close>

definition same :: "'w vfs \<Rightarrow> 'w vfs \<Rightarrow> bool" where
  "same s t \<longleftrightarrow> kept s t \<and> v_refcount t = v_refcount s"

definition borrowed :: "'w vfs \<Rightarrow> ptr \<Rightarrow> 'w vfs \<Rightarrow> bool" where
  "borrowed s v t \<longleftrightarrow> kept s t \<and> v \<noteq> NULL \<and> v_refcount t = (v_refcount s)(v := v_refcount s v + 1) \<and> (v_refcount s v > 0 \<or> v_fs t v \<noteq> NULL)"

definition given :: "'w vfs \<Rightarrow> int \<Rightarrow> ptr \<Rightarrow> 'w vfs \<Rightarrow> bool" where
  "given s r v t \<longleftrightarrow> (if r = 0 then borrowed s v t else same s t)"

lemma kept_fs: "kept s t \<Longrightarrow> v_refcount s v > 0 \<Longrightarrow> v_refcount t v > 0 \<Longrightarrow> v_fs t v = v_fs s v"
  by (simp add: kept_def)

lemma given_any: "r \<noteq> 0 \<Longrightarrow> given s r v t \<Longrightarrow> given s r w t"
  by (simp add: given_def)

lemma same_refl [simp]: "same s s"
  by (simp add: same_def kept_def)

lemma same_trans: "same s t \<Longrightarrow> same t u \<Longrightarrow> same s u"
  by (auto simp: same_def kept_def)

lemma same_borrowed: "same s t \<Longrightarrow> borrowed t v u \<Longrightarrow> borrowed s v u"
  unfolding same_def borrowed_def kept_def by (auto simp: fun_upd_def)

lemma borrowed_same: "borrowed s v t \<Longrightarrow> same t u \<Longrightarrow> (\<And>w. v_refcount s w \<ge> 0) \<Longrightarrow> borrowed s v u"
  unfolding same_def borrowed_def kept_def by (smt (verit) fun_upd_def)

lemma more_refs_borrowed: "v \<noteq> NULL \<Longrightarrow> v_refcount s v > 0 \<Longrightarrow> borrowed s v (more_refs v s)"
  by (auto simp: borrowed_def kept_def more_refs_def)

lemma first_sep_later: "first_sep (Suc i) cs = (c, d) \<Longrightarrow> c \<noteq> Some 0 \<and> d \<noteq> Some 0"
  by (induction cs arbitrary: i) (auto split: if_splits)

section \<open>The contract\<close>

locale file_systems =
  fixes F :: "'w vfs fs_ops" and V :: "'w vfs vnode_ops" and I :: "'w vfs \<Rightarrow> bool" and FS :: "ptr set" and faulty :: bool
  assumes frame: "\<lbrakk>I s; v_refcount t = v_refcount s; v_fs t = v_fs s; fs_world t = fs_world s\<rbrakk> \<Longrightarrow> I t"
    and nonneg: "I s \<Longrightarrow> v_refcount s v \<ge> 0"
    and up: "\<lbrakk>I s; v_refcount s v > 0\<rbrakk> \<Longrightarrow> I (more_refs v s)"
    and down: "\<lbrakk>I s; v_refcount s v > 1\<rbrakk> \<Longrightarrow> I (s\<lparr>v_refcount := (v_refcount s)(v := v_refcount s v - 1)\<rparr>)"
    and reclaim: "\<lbrakk>I s; v \<noteq> NULL; v_refcount s v = 1; v_fs s v \<noteq> NULL\<rbrakk> \<Longrightarrow>
      \<exists>r t. vop_reclaim V v s = Ok (r, t) \<and> I t \<and> kept s t \<and> v_refcount t = (v_refcount s)(v := 0)"
    and getroot: "\<lbrakk>I s; fs \<in> FS\<rbrakk> \<Longrightarrow> \<exists>r v t. fsop_getroot F fs s = Ok (r, v, t) \<and> I t \<and> given s r v t"
    and lookup: "\<lbrakk>I s; v_refcount s v > 0\<rbrakk> \<Longrightarrow> \<exists>r w t. vop_lookup V v path s = Ok (r, w, t) \<and> I t \<and> given s r w t"
    and lookparent: "\<lbrakk>I s; v_refcount s v > 0\<rbrakk> \<Longrightarrow> \<exists>r w name t. vop_lookparent V v path n s = Ok (r, w, name, t) \<and> I t \<and> given s r w t"
    and creat: "\<lbrakk>I s; v_refcount s v > 0\<rbrakk> \<Longrightarrow> \<exists>r w t. vop_creat V v name excl s = Ok (r, w, t) \<and> I t \<and> (given s r w t \<or> faulty \<and> r = 0 \<and> w = NULL \<and> same s t)"
    and eachopen: "\<lbrakk>I s; v_refcount s v > 0\<rbrakk> \<Longrightarrow> \<exists>r t. vop_eachopen V v flags s = Ok (r, t) \<and> I t \<and> same s t"
    and truncate: "\<lbrakk>I s; v_refcount s v > 0\<rbrakk> \<Longrightarrow> \<exists>r t. vop_truncate V v len s = Ok (r, t) \<and> I t \<and> same s t"
    and gettype: "\<lbrakk>I s; v_refcount s v > 0\<rbrakk> \<Longrightarrow> \<exists>r ty t. vop_gettype V v s = Ok (r, ty, t) \<and> I t \<and> same s t \<and> (r = 0 \<and> ty = S_IFDIR \<longrightarrow> v_fs s v \<in> FS \<and> v_fs s v \<noteq> NULL)"
    and readlink: "\<lbrakk>I s; v_refcount s v > 0\<rbrakk> \<Longrightarrow> \<exists>r u' t. vop_readlink V v u s = Ok (r, u', t) \<and> I t \<and> same s t"
    and remove: "\<lbrakk>I s; v_refcount s v > 0\<rbrakk> \<Longrightarrow> \<exists>r t. vop_remove V v name s = Ok (r, t) \<and> I t \<and> same s t"
    and symlink: "\<lbrakk>I s; v_refcount s v > 0\<rbrakk> \<Longrightarrow> \<exists>r t. vop_symlink V v a b s = Ok (r, t) \<and> I t \<and> same s t"
    and mkdir: "\<lbrakk>I s; v_refcount s v > 0\<rbrakk> \<Longrightarrow> \<exists>r t. vop_mkdir V v name s = Ok (r, t) \<and> I t \<and> same s t"
    and rmdir: "\<lbrakk>I s; v_refcount s v > 0\<rbrakk> \<Longrightarrow> \<exists>r t. vop_rmdir V v name s = Ok (r, t) \<and> I t \<and> same s t"
    and link: "\<lbrakk>I s; v_refcount s v > 0; v_refcount s w > 0\<rbrakk> \<Longrightarrow> \<exists>r t. vop_link V v name w s = Ok (r, t) \<and> I t \<and> same s t"
    and rename: "\<lbrakk>I s; v_refcount s v > 0; v_refcount s w > 0\<rbrakk> \<Longrightarrow> \<exists>r t. vop_rename V v a w b s = Ok (r, t) \<and> I t \<and> same s t"

text \<open>
  \<open>faulty\<close> is for file systems whose \<open>vop_creat\<close> can return 0 without a vnode; \<^verbatim>\<open>vnode.h\<close> does not allow it.

  The state of the layer: the table is in order and its file systems are alive, the current
  directory belongs to a file system, and the counts cover the references that the layer itself holds.
\<close>

definition holders :: "'w vfs \<Rightarrow> ptr \<Rightarrow> int" where
  "holders s v = of_bool (cwd s = v) + of_bool (bootfs_vnode s = v) + of_bool (v \<in> kd_vnode ` set (knowndevs s))"

definition layer_ok :: "ptr set \<Rightarrow> ('w vfs \<Rightarrow> bool) \<Rightarrow> 'w vfs \<Rightarrow> bool" where
  "layer_ok FS I s \<longleftrightarrow> I s \<and> table_inv s \<and> (\<forall>kd \<in> set (knowndevs s). has_fs kd \<longrightarrow> kd_fs kd \<in> FS) \<and>
     (cwd s \<noteq> NULL \<longrightarrow> v_fs s (cwd s) \<in> FS \<and> v_fs s (cwd s) \<noteq> NULL) \<and> (\<forall>v. v \<noteq> NULL \<longrightarrow> holders s v \<le> v_refcount s v)"

lemma layer_counts:
  assumes "layer_ok FS I s"
  shows "kd \<in> set (knowndevs s) \<Longrightarrow> v_refcount s (kd_vnode kd) > 0" "cwd s \<noteq> NULL \<Longrightarrow> v_refcount s (cwd s) > 0"
    "bootfs_vnode s \<noteq> NULL \<Longrightarrow> v_refcount s (bootfs_vnode s) > 0"
proof -
  have h: "v \<noteq> NULL \<Longrightarrow> holders s v > 0 \<Longrightarrow> v_refcount s v > 0" for v using assms by (fastforce simp: layer_ok_def)
  show "kd \<in> set (knowndevs s) \<Longrightarrow> v_refcount s (kd_vnode kd) > 0"
    using assms by (intro h) (auto simp: layer_ok_def table_inv_def kd_ok_def holders_def)
  show "cwd s \<noteq> NULL \<Longrightarrow> v_refcount s (cwd s) > 0" "bootfs_vnode s \<noteq> NULL \<Longrightarrow> v_refcount s (bootfs_vnode s) > 0"
    by (auto intro!: h simp: holders_def)
qed

lemma layer_kept:
  assumes "layer_ok FS I s" "kept s t" "I t" "\<And>v. v_refcount s v \<le> v_refcount t v"
  shows "layer_ok FS I t"
proof -
  have "holders t = holders s" using assms(2) by (auto simp: holders_def kept_def)
  moreover have "v_fs t (cwd t) = v_fs s (cwd s)" if "cwd s \<noteq> NULL"
    using layer_counts(2) [OF assms(1) that] assms(2) assms(4) [of "cwd s"] by (auto simp: kept_def)
  ultimately show ?thesis using assms by (auto simp: layer_ok_def kept_def table_inv_def intro: order.trans)
qed

context file_systems
begin

lemma layer_same: "layer_ok FS I s \<Longrightarrow> same s t \<Longrightarrow> I t \<Longrightarrow> layer_ok FS I t"
  by (erule layer_kept) (auto simp: same_def)

lemma layer_borrowed: "layer_ok FS I s \<Longrightarrow> borrowed s v t \<Longrightarrow> I t \<Longrightarrow> layer_ok FS I t"
  by (erule layer_kept) (auto simp: borrowed_def)

lemma depth_same:
  assumes "I s"
  shows "I (s\<lparr>biglock_depth := d\<rparr>)"
  by (rule frame [OF assms]) simp_all

lemma decref_ok:
  assumes "I s" "v \<noteq> NULL" "v_refcount s v > 1 \<or> v_refcount s v = 1 \<and> v_fs s v \<noteq> NULL"
  shows "\<exists>t. decref V v s = Ok t \<and> I t \<and> kept s t \<and> v_refcount t = (v_refcount s)(v := v_refcount s v - 1)"
proof (cases "v_refcount s v > 1")
  case True
  then show ?thesis using assms down [OF assms(1) True] by (auto simp: decref_def kept_def)
next
  case False
  then have "v_refcount s v = 1" "v_fs s v \<noteq> NULL" using assms(3) by auto
  then show ?thesis using reclaim [OF assms(1,2)] assms(2) by (fastforce simp: decref_def vnode_check_def)
qed

lemma give_back:
  assumes "I s" "borrowed s v t" "I t"
  shows "\<exists>u. decref V v t = Ok u \<and> I u \<and> same s u"
proof -
  have c: "v_refcount t v = v_refcount s v + 1" "v \<noteq> NULL" using assms(2) by (simp_all add: borrowed_def)
  then have "v_refcount t v > 1 \<or> v_refcount t v = 1 \<and> v_fs t v \<noteq> NULL" using assms(2) nonneg [OF assms(1), of v] by (auto simp: borrowed_def)
  from decref_ok [OF assms(3) c(2) this] obtain u where u: "decref V v t = Ok u" "I u" "kept t u" "v_refcount u = (v_refcount t)(v := v_refcount t v - 1)"
    by blast
  have "v_refcount u = v_refcount s" using u(4) assms(2) by (auto simp: borrowed_def)
  moreover have "kept s u" using u(3) assms(2) nonneg [OF assms(1)] calculation
    by (auto simp: borrowed_def kept_def)
  ultimately show ?thesis using u by (auto simp: same_def)
qed

text \<open>The reference to \<open>v\<close> was only taken to find \<open>w\<close>.\<close>

lemma give_back_under:
  assumes "I s" "borrowed s v t" "borrowed t w u" "I u"
  shows "\<exists>x. decref V v u = Ok x \<and> I x \<and> borrowed s w x"
proof -
  have n: "v_refcount s x \<ge> 0" for x by (rule nonneg [OF assms(1)])
  have c: "v_refcount u = (v_refcount t)(w := v_refcount t w + 1)" "v_refcount t = (v_refcount s)(v := v_refcount s v + 1)" "v \<noteq> NULL" "w \<noteq> NULL"
    using assms(2,3) by (simp_all add: borrowed_def)
  have "v_refcount t v > 0" "v_refcount u v > 0" using c(1,2) n [of v] by auto
  then have live: "v_fs u v = v_fs t v" using assms(3) kept_fs [of t u v] by (simp add: borrowed_def)
  have "v_refcount u v > 1 \<or> v_refcount u v = 1 \<and> v_fs u v \<noteq> NULL"
    using c n [of v] assms(2) live by (auto simp: borrowed_def)
  from decref_ok [OF assms(4) c(3) this] obtain x where x: "decref V v u = Ok x" "I x" "kept u x" "v_refcount x = (v_refcount u)(v := v_refcount u v - 1)"
    by blast
  have r: "v_refcount x = (v_refcount s)(w := v_refcount s w + 1)" using x(4) c by (auto simp: fun_eq_iff)
  have "v_refcount u w > 0" "v_refcount x w > 0" using c(1,2) r n [of w] n [of v] by auto
  then have lw: "v_fs x w = v_fs u w" by (rule kept_fs [OF x(3)])
  have "v_refcount s w > 0 \<or> v_fs x w \<noteq> NULL"
  proof (cases "w = v")
    case True
    then show ?thesis using assms(2) live lw by (auto simp: borrowed_def)
  next
    case False
    then show ?thesis using assms(3) c(2) lw by (auto simp: borrowed_def)
  qed
  moreover have "kept s x"
    using assms(2,3) x(3) r c n unfolding borrowed_def kept_def by (smt (verit) fun_upd_apply)
  ultimately show ?thesis using x r c(4) by (auto simp: borrowed_def)
qed

lemma finish:
  assumes "I s" "borrowed s v t" "given t r w u" "I u"
  shows "\<exists>x. decref V v u = Ok x \<and> I x \<and> given s r w x"
proof (cases "r = 0")
  case True
  then show ?thesis using give_back_under [OF assms(1,2) _ assms(4)] assms(3) by (simp add: given_def)
next
  case False
  then have "borrowed s v u" using borrowed_same [OF assms(2)] assms(3) nonneg [OF assms(1)] by (simp add: given_def)
  then show ?thesis using give_back [OF assms(1) _ assms(4)] False by (simp add: given_def)
qed

lemma finish_same: "\<lbrakk>I s; borrowed s v t; same t u; I u\<rbrakk> \<Longrightarrow> \<exists>x. decref V v u = Ok x \<and> I x \<and> same s x"
  using finish [of s v t 1 NULL u] by (simp add: given_def)

text \<open>The lookup of the first vnode, under the lock.\<close>

lemma getroot_loop_ok:
  assumes "layer_ok FS I s" "set kds \<subseteq> set (knowndevs s)"
  shows "\<exists>r v t. getroot_loop F name kds s = Ok (r, v, t) \<and> I t \<and> given s r v t"
  using assms(2)
proof (induction kds)
  case Nil
  then show ?case using assms(1) by (auto simp: given_def ENODEV_def layer_ok_def)
next
  case (Cons kd kds)
  have kd: "kd \<in> set (knowndevs s)" using Cons.prems by simp
  have ok: "kd_ok kd" "v_refcount s (kd_vnode kd) > 0" "has_fs kd \<Longrightarrow> kd_fs kd \<in> FS" and Is: "I s"
    using assms(1) kd layer_counts(1) [OF assms(1) kd] by (simp_all add: layer_ok_def table_inv_def)
  have nn: "kd_vnode kd \<noteq> NULL" using ok(1) by (simp add: kd_ok_def)
  have dev: "\<exists>t. kbind (incref (kd_vnode kd) s) (\<lambda>s. Ok (0, kd_vnode kd, s)) = Ok (0 :: int, kd_vnode kd, t) \<and> I t \<and> given s 0 (kd_vnode kd) t"
    using up [OF Is ok(2)] more_refs_borrowed [OF nn ok(2)] nn by (simp add: incref_def more_refs_def given_def)
  have IH: "\<exists>r v t. getroot_loop F name kds s = Ok (r, v, t) \<and> I t \<and> given s r v t" using Cons by simp
  show ?case
  proof (cases "has_fs kd")
    case True
    then have "kd_rawname kd = Some name \<Longrightarrow> kd_device kd \<noteq> NULL" using ok(1) by (simp add: kd_ok_def)
    then show ?thesis using True getroot [OF Is ok(3) [OF True]] dev IH by auto
  next
    case False
    then show ?thesis using ok(1) dev IH Is by (auto simp: kd_ok_def given_def ENXIO_def)
  qed
qed

lemma vfs_getroot_ok:
  assumes "layer_ok FS I s" "biglock_do_i_hold s"
  shows "\<exists>r v t. vfs_getroot F name s = Ok (r, v, t) \<and> I t \<and> given s r v t"
  using getroot_loop_ok [OF assms(1), of "knowndevs s"] assms(2) by (simp add: vfs_getroot_def)

lemma getcurdir_ok:
  assumes "layer_ok FS I s"
  shows "\<exists>r v t. vfs_getcurdir s = Ok (r, v, t) \<and> I t \<and> given s r v t \<and> (r = 0 \<longrightarrow> v = cwd s \<and> v \<noteq> NULL)"
proof (cases "cwd s = NULL")
  case True
  then show ?thesis using assms by (simp add: vfs_getcurdir_def given_def ENOENT_def layer_ok_def)
next
  case False
  then have c: "v_refcount s (cwd s) > 0" "I s" using assms layer_counts(2) [OF assms] by (auto simp: layer_ok_def)
  then show ?thesis using False up [OF c(2,1)] more_refs_borrowed [OF False c(1)] by (simp add: vfs_getcurdir_def incref_def more_refs_def given_def)
qed

lemma own_root:
  assumes L: "layer_ok FS I s"
  shows "\<exists>r w t. kbind (vfs_getcurdir s) (\<lambda>(result, vn, s).
      if result \<noteq> 0 then Ok (result, NULL, s)
      else kassert (v_fs s vn \<noteq> NULL) (kbind (fsop_getroot F (v_fs s vn) s) (\<lambda>(result, startvn, s). kbind (decref V vn s) (\<lambda>s. Ok (result, startvn, s)))))
    = Ok (r, w, t) \<and> I t \<and> given s r w t"
proof (cases "cwd s = NULL")
  case True
  then show ?thesis using L by (simp add: vfs_getcurdir_def given_def ENOENT_def layer_ok_def)
next
  case nc: False
  let ?c = "cwd s" and ?t = "more_refs (cwd s) s"
  have c: "v_refcount s ?c > 0" "I s" "v_fs s ?c \<in> FS" "v_fs s ?c \<noteq> NULL" using L nc layer_counts(2) [OF L nc] by (auto simp: layer_ok_def)
  have b: "borrowed s ?c ?t" "I ?t" using more_refs_borrowed [OF nc c(1)] up [OF c(2,1)] by auto
  have f: "v_fs ?t ?c = v_fs s ?c" by (simp add: more_refs_def)
  obtain r w u where u: "fsop_getroot F (v_fs s ?c) ?t = Ok (r, w, u)" "I u" "given ?t r w u" using getroot [OF b(2) c(3)] by blast
  have "\<exists>x. decref V ?c u = Ok x \<and> I x \<and> given s r w x" by (rule finish [OF c(2) b(1) u(3,2)])
  then show ?thesis using u(1) nc c(4) f by (auto simp: vfs_getcurdir_def incref_def more_refs_def)
qed

lemma getdevice_ok:
  assumes L: "layer_ok FS I s" "biglock_do_i_hold s"
  shows "\<exists>r p v t. getdevice F V path s = Ok (r, p, v, t) \<and> I t \<and> given s r v t"
proof (cases "path = []")
  case True
  then show ?thesis using L by (auto simp: getdevice_def given_def EINVAL_def layer_ok_def)
next
  case np: False
  obtain colon slash where fs: "first_sep 0 path = (colon, slash)" by fastforce
  have Is: "I s" using L(1) by (simp add: layer_ok_def)
  consider "colon = None" "slash \<noteq> Some 0" | c where "colon = Some c" "c > 0" | "colon = Some 0 \<or> colon = None \<and> slash = Some 0"
    using not_gr0 by (cases colon) blast+
  then show ?thesis
  proof cases
    case 1
    then show ?thesis using getcurdir_ok [OF L(1)] np L(2) fs by (fastforce simp: getdevice_def)
  next
    case 2
    then show ?thesis using vfs_getroot_ok [OF L, of "take c path"] np L(2) fs by (fastforce simp: getdevice_def)
  next
    case 3
    then have h: "hd path = 47 \<or> hd path = 58" using fs np by (cases path) (auto split: if_splits dest: first_sep_later)
    show ?thesis
    proof (cases "hd path = 47")
      case True
      have "\<exists>r v t. (if bootfs_vnode s = NULL then Ok (ENOENT, NULL, s) else kbind (incref (bootfs_vnode s) s) (\<lambda>s'. Ok (0, bootfs_vnode s, s'))) = Ok (r, v, t)
          \<and> I t \<and> given s r v t"
      proof (cases "bootfs_vnode s = NULL")
        case nb: False
        then have b: "v_refcount s (bootfs_vnode s) > 0" by (rule layer_counts(3) [OF L(1)])
        then show ?thesis using nb up [OF Is b] more_refs_borrowed [OF nb b] by (simp add: incref_def more_refs_def given_def)
      qed (use Is in \<open>simp add: given_def ENOENT_def\<close>)
      then show ?thesis using True 3 np L(2) fs by (fastforce simp: getdevice_def)
    next
      case False
      then have "hd path = 58" using h by simp
      then show ?thesis using own_root [OF L(1)] 3 np L(2) fs by (fastforce simp: getdevice_def)
    qed
  qed
qed

lemma borrowed_count: "I s \<Longrightarrow> borrowed s v t \<Longrightarrow> v_refcount t v > 0 \<and> v \<noteq> NULL"
  using nonneg [of s v] by (simp add: borrowed_def)

lemma checked [simp]: "v_refcount s v > 0 \<Longrightarrow> v \<noteq> NULL \<Longrightarrow> vnode_check v s k = k"
  by (simp add: vnode_check_def)

lemma lock_given:
  assumes "given (biglock_acquire s) r v t" "I t"
  shows "released x t = Ok (x, t\<lparr>biglock_depth := biglock_depth s\<rparr>)" "given s r v (t\<lparr>biglock_depth := biglock_depth s\<rparr>)" "I (t\<lparr>biglock_depth := biglock_depth s\<rparr>)"
proof -
  have "biglock_depth t = Suc (biglock_depth s)" using assms(1) by (auto simp: given_def same_def borrowed_def kept_def split: if_splits)
  then show "released x t = Ok (x, t\<lparr>biglock_depth := biglock_depth s\<rparr>)" by (rule released_ok)
  show "given s r v (t\<lparr>biglock_depth := biglock_depth s\<rparr>)"
    using assms(1) by (auto simp: given_def same_def borrowed_def kept_def split: if_splits)
  show "I (t\<lparr>biglock_depth := biglock_depth s\<rparr>)" by (rule depth_same [OF assms(2)])
qed

lemma layer_acquired: "layer_ok FS I s \<Longrightarrow> layer_ok FS I (biglock_acquire s) \<and> I (biglock_acquire s)"
  using depth_same [of s "biglock_depth s + 1"] by (auto simp: layer_ok_def biglock_acquire_def table_inv_def holders_def)

lemma vfs_lookup_ok:
  assumes L: "layer_ok FS I s"
  shows "\<exists>r v t. vfs_lookup F V path s = Ok ((r, v), t) \<and> I t \<and> given s r v t"
proof -
  let ?a = "biglock_acquire s"
  note A = conjunct1 [OF layer_acquired [OF L]] conjunct2 [OF layer_acquired [OF L]]
  obtain r p v t where g: "getdevice F V path ?a = Ok (r, p, v, t)" "I t" "given ?a r v t" using getdevice_ok [OF A(1), of path] by auto
  show ?thesis
  proof (cases "r = 0 \<and> p \<noteq> []")
    case False
    then show ?thesis using g(1) lock_given(2,3) [OF g(3,2)] given_any [OF _ lock_given(2) [OF g(3,2)], of NULL]
      by (cases "r = 0") (auto simp: vfs_lookup_def lock_given(1) [OF g(3,2)])
  next
    case True
    then have b: "borrowed ?a v t" using g(3) by (simp add: given_def)
    note c = borrowed_count [OF A(2) b]
    obtain r' w u where u: "vop_lookup V v p t = Ok (r', w, u)" "I u" "given t r' w u" using lookup [OF g(2)] c by blast
    obtain x where x: "decref V v u = Ok x" "I x" "given ?a r' w x" using finish [OF A(2) b u(3,2)] by blast
    show ?thesis using g(1) True c u(1) x(1) lock_given(2,3) [OF x(3,2)] by (auto simp: vfs_lookup_def lock_given(1) [OF x(3,2)])
  qed
qed

lemma vfs_lookparent_ok:
  assumes L: "layer_ok FS I s"
  shows "\<exists>r v name t. vfs_lookparent F V path n s = Ok ((r, v, name), t) \<and> I t \<and> given s r v t"
proof -
  let ?a = "biglock_acquire s"
  note A = conjunct1 [OF layer_acquired [OF L]] conjunct2 [OF layer_acquired [OF L]]
  obtain r p v t where g: "getdevice F V path ?a = Ok (r, p, v, t)" "I t" "given ?a r v t" using getdevice_ok [OF A(1), of path] by auto
  show ?thesis
  proof (cases "r = 0")
    case False
    then show ?thesis using g(1) lock_given(2,3) [OF g(3,2)] given_any [OF _ lock_given(2) [OF g(3,2)], of NULL]
      by (auto simp: vfs_lookparent_def lock_given(1) [OF g(3,2)])
  next
    case True
    then have b: "borrowed ?a v t" using g(3) by (simp add: given_def)
    note c = borrowed_count [OF A(2) b]
    obtain r' w nm u where u: "(if p = [] then Ok (EINVAL, NULL, [], t) else vop_lookparent V v p n t) = Ok (r', w, nm, u)" "I u" "given t r' w u"
      using lookparent [OF g(2), of v p n] c g(2) by (cases "p = []") (auto simp: given_def EINVAL_def)
    obtain x where x: "decref V v u = Ok x" "I x" "given ?a r' w x" using finish [OF A(2) b u(3,2)] by blast
    show ?thesis using g(1) True c u(1) x(1) lock_given(2,3) [OF x(3,2)] by (auto simp: vfs_lookparent_def lock_given(1) [OF x(3,2)])
  qed
qed

lemma in_parent_ok:
  assumes L: "layer_ok FS I s"
    and f: "\<And>dir name t. I t \<Longrightarrow> v_refcount t dir > 0 \<Longrightarrow> \<exists>r u. f dir name t = Ok (r, u) \<and> I u \<and> same t u"
  shows "\<exists>r t. in_parent F V path f s = Ok (r, t) \<and> I t \<and> same s t"
proof -
  have Is: "I s" using L by (simp add: layer_ok_def)
  obtain r v nm t where p: "vfs_lookparent F V path (NAME_MAX + 1) s = Ok ((r, v, nm), t)" "I t" "given s r v t" using vfs_lookparent_ok [OF L] by blast
  show ?thesis
  proof (cases "r = 0")
    case False
    then show ?thesis using p by (auto simp: in_parent_def given_def)
  next
    case True
    then have b: "borrowed s v t" using p(3) by (simp add: given_def)
    note c = borrowed_count [OF Is b]
    obtain r' u where u: "f v nm t = Ok (r', u)" "I u" "same t u" using f [OF p(2)] c by blast
    obtain x where "decref V v u = Ok x" "I x" "same s x" using finish_same [OF Is b u(3,2)] by blast
    then show ?thesis using p(1) True c u(1) by (auto simp: in_parent_def)
  qed
qed

lemma vfs_open_ok:
  assumes L: "layer_ok FS I s"
  shows "(\<exists>r v t. vfs_open F V path flags s = Ok (r, v, t) \<and> layer_ok FS I t \<and> given s r v t)
    \<or> faulty \<and> flags AND O_CREAT \<noteq> 0 \<and> vfs_open F V path flags s = Fail KAssert"
proof -
  have Is: "I s" using L by (simp add: layer_ok_def)
  let ?how = "flags AND O_ACCMODE"
  let ?find = "if flags AND O_CREAT \<noteq> 0
      then kbind (vfs_lookparent F V path (NAME_MAX + 1) s) (\<lambda>((result, dir, name), s).
             if result \<noteq> 0 then Ok (result, NULL, s)
             else kbind (vnode_check dir s (vop_creat V dir name (flags AND O_EXCL \<noteq> 0) s)) (\<lambda>(result, vn, s).
                    kbind (decref V dir s) (\<lambda>s. Ok (result, vn, s))))
      else kbind (vfs_lookup F V path s) (\<lambda>((result, vn), s). Ok (result, vn, s))"
  have found: "\<exists>r v t. ?find = Ok (r, v, t) \<and> I t \<and> (given s r v t \<or> faulty \<and> flags AND O_CREAT \<noteq> 0 \<and> r = 0 \<and> v = NULL \<and> same s t)"
  proof (cases "flags AND O_CREAT = 0")
    case True
    then show ?thesis using vfs_lookup_ok [OF L, of path] by auto
  next
    case False
    obtain r d nm t where p: "vfs_lookparent F V path (NAME_MAX + 1) s = Ok ((r, d, nm), t)" "I t" "given s r d t" using vfs_lookparent_ok [OF L] by blast
    show ?thesis
    proof (cases "r = 0")
      case True
      then have b: "borrowed s d t" using p(3) by (simp add: given_def)
      note c = borrowed_count [OF Is b]
      obtain r' v u where u: "vop_creat V d nm (flags AND O_EXCL \<noteq> 0) t = Ok (r', v, u)" "I u"
          "given t r' v u \<or> faulty \<and> r' = 0 \<and> v = NULL \<and> same t u" using creat [OF p(2)] c by blast
      obtain x where x: "decref V d u = Ok x" "I x" "given s r' v x \<or> faulty \<and> r' = 0 \<and> v = NULL \<and> same s x"
        using finish [OF Is b _ u(2)] finish_same [OF Is b _ u(2)] u(3) by blast
      have "?find = Ok (r', v, x)" using p(1) False True c u(1) x(1) by simp
      then show ?thesis using x(2,3) False by blast
    qed (use p False in \<open>auto simp: given_def\<close>)
  qed
  let ?bad = "?how \<noteq> O_RDONLY \<and> ?how \<noteq> O_WRONLY \<and> ?how \<noteq> O_RDWR"
  have opened: "vfs_open F V path flags s = kbind ?find (\<lambda>(result, vn, s).
            if result \<noteq> 0 then Ok (result, NULL, s)
            else kassert (vn \<noteq> NULL)
              (kbind (vnode_check vn s (vop_eachopen V vn flags s)) (\<lambda>(result, s).
                 if result \<noteq> 0 then kbind (decref V vn s) (\<lambda>s. Ok (result, NULL, s))
                 else
                   kbind (if flags AND O_TRUNC \<noteq> 0
                          then (if ?how = O_RDONLY then Ok (EINVAL, s) else vnode_check vn s (vop_truncate V vn 0 s))
                          else Ok (0, s)) (\<lambda>(result, s).
                     if result \<noteq> 0 then kbind (decref V vn s) (\<lambda>s. Ok (result, NULL, s)) else Ok (0, vn, s)))))" if "\<not> ?bad"
    unfolding vfs_open_def Let_def using that by (intro if_not_P) blast
  obtain r v t where f0: "?find = Ok (r, v, t)" "I t" "given s r v t \<or> faulty \<and> flags AND O_CREAT \<noteq> 0 \<and> r = 0 \<and> v = NULL \<and> same s t" using found by blast
  show ?thesis
  proof (cases "?bad \<or> given s r v t")
    case False
    then show ?thesis using opened f0 by simp
  next
    case True
    have f: "?find = Ok (r, v, t)" "I t" "?bad \<or> given s r v t" using f0(1,2) True by auto
    have "\<exists>r v t. vfs_open F V path flags s = Ok (r, v, t) \<and> I t \<and> given s r v t"
    proof (cases "?bad \<or> r \<noteq> 0")
      case True
      then show ?thesis using f Is by (auto simp: vfs_open_def Let_def given_def EINVAL_def)
    next
      case False
      then have b: "borrowed s v t" using f(3) by (auto simp: given_def)
      note c = borrowed_count [OF Is b]
      obtain r1 t1 where t1: "vop_eachopen V v flags t = Ok (r1, t1)" "I t1" "same t t1" using eachopen [OF f(2)] c by blast
      have c1: "v_refcount t1 v > 0" "v \<noteq> NULL" using c t1(3) by (simp_all add: same_def)
      obtain r2 t2 where t2: "(if flags AND O_TRUNC \<noteq> 0 then (if ?how = O_RDONLY then Ok (EINVAL, t1) else vop_truncate V v 0 t1) else Ok (0, t1)) = Ok (r2, t2)"
          "I t2" "same t1 t2"
        using truncate [OF t1(2) c1(1), of 0] t1(2) by (cases "flags AND O_TRUNC = 0"; cases "?how = O_RDONLY") auto
      obtain u1 where u1: "decref V v t1 = Ok u1" "I u1" "same s u1" using finish_same [OF Is b t1(3,2)] by blast
      obtain u2 where u2: "decref V v t2 = Ok u2" "I u2" "same s u2" using finish_same [OF Is b same_trans [OF t1(3) t2(3)] t2(2)] by blast
      have "borrowed s v t2" using borrowed_same [OF b same_trans [OF t1(3) t2(3)]] nonneg [OF Is] by simp
      moreover have "vfs_open F V path flags s = (if r1 \<noteq> 0 then Ok (r1, NULL, u1) else if r2 \<noteq> 0 then Ok (r2, NULL, u2) else Ok (0, v, t2))"
        unfolding opened [OF conjunct1 [OF False [unfolded de_Morgan_disj]]] f(1) using False c c1 t1(1) t2(1) u1(1) u2(1)
        by (cases "r1 = 0"; cases "r2 = 0"; cases "flags AND O_TRUNC = 0"; cases "?how = O_RDONLY") (auto simp: EINVAL_def)
      ultimately show ?thesis using t2(2) u1 u2 by (cases "r1 = 0"; cases "r2 = 0") (auto simp: given_def)
    qed
    then show ?thesis using layer_same [OF L] layer_borrowed [OF L] by (auto simp: given_def split: if_splits)
  qed
qed

lemma two_refs:
  assumes "I s" "borrowed s v t" "I t" "borrowed t w u" "same u x" "I x"
  shows "\<exists>y z. decref V w x = Ok y \<and> decref V v y = Ok z \<and> I z \<and> same s z"
proof -
  obtain y where y: "decref V w x = Ok y" "I y" "same t y" using finish_same [OF assms(3,4,5,6)] by blast
  obtain z where "decref V v y = Ok z" "I z" "same s z" using finish_same [OF assms(1,2) y(3,2)] by blast
  then show ?thesis using y(1) by blast
qed

lemma borrowed_live: "I s \<Longrightarrow> borrowed s v t \<Longrightarrow> v_refcount s w > 0 \<Longrightarrow> v_refcount t w > 0"
  by (auto simp: borrowed_def)

lemma vfs_rename_ok:
  assumes L: "layer_ok FS I s"
  shows "\<exists>r t. vfs_rename F V old new s = Ok (r, t) \<and> I t \<and> same s t"
proof -
  have Is: "I s" using L by (simp add: layer_ok_def)
  obtain r v n1 t where p: "vfs_lookparent F V old (NAME_MAX + 1) s = Ok ((r, v, n1), t)" "I t" "given s r v t" using vfs_lookparent_ok [OF L] by blast
  show ?thesis
  proof (cases "r = 0")
    case True
    then have b: "borrowed s v t" using p(3) by (simp add: given_def)
    note c = borrowed_count [OF Is b]
    obtain r' w n2 u where q: "vfs_lookparent F V new (NAME_MAX + 1) t = Ok ((r', w, n2), u)" "I u" "given t r' w u"
      using vfs_lookparent_ok [OF layer_borrowed [OF L b p(2)]] by blast
    show ?thesis
    proof (cases "r' = 0")
      case t: True
      then have b': "borrowed t w u" using q(3) by (simp add: given_def)
      note c' = borrowed_count [OF p(2) b'] borrowed_live [OF p(2) b' conjunct1 [OF c]]
      obtain r2 x where x: "(if other_fs v w u then Ok (EXDEV, u) else vop_rename V v n1 w n2 u) = Ok (r2, x)" "I x" "same u x"
        using rename [OF q(2) c'(2), of w n1 n2] c' q(2) by (cases "other_fs v w u") auto
      show ?thesis using two_refs [OF Is b p(2) b' x(3,2)] p(1) True q(1) t c c' x(1) by (auto simp: vfs_rename_def)
    next
      case False
      then have "same t u" using q(3) by (simp add: given_def)
      then show ?thesis using finish_same [OF Is b _ q(2)] p(1) True q(1) False by (auto simp: vfs_rename_def)
    qed
  qed (use p in \<open>auto simp: vfs_rename_def given_def\<close>)
qed

lemma vfs_link_ok:
  assumes L: "layer_ok FS I s"
  shows "\<exists>r t. vfs_link F V old new s = Ok (r, t) \<and> I t \<and> same s t"
proof -
  have Is: "I s" using L by (simp add: layer_ok_def)
  obtain r v t where p: "vfs_lookup F V old s = Ok ((r, v), t)" "I t" "given s r v t" using vfs_lookup_ok [OF L] by blast
  show ?thesis
  proof (cases "r = 0")
    case True
    then have b: "borrowed s v t" using p(3) by (simp add: given_def)
    note c = borrowed_count [OF Is b]
    obtain r' w n u where q: "vfs_lookparent F V new (NAME_MAX + 1) t = Ok ((r', w, n), u)" "I u" "given t r' w u"
      using vfs_lookparent_ok [OF layer_borrowed [OF L b p(2)]] by blast
    show ?thesis
    proof (cases "r' = 0")
      case t: True
      then have b': "borrowed t w u" using q(3) by (simp add: given_def)
      note c' = borrowed_count [OF p(2) b'] borrowed_live [OF p(2) b' conjunct1 [OF c]]
      obtain r2 x where x: "(if other_fs v w u then Ok (EXDEV, u) else vop_link V w n v u) = Ok (r2, x)" "I x" "same u x"
        using link [OF q(2), of w v n] c' q(2) by (cases "other_fs v w u") auto
      show ?thesis using two_refs [OF Is b p(2) b' x(3,2)] p(1) True q(1) t c c' x(1) by (auto simp: vfs_link_def)
    next
      case False
      then have "same t u" using q(3) by (simp add: given_def)
      then show ?thesis using finish_same [OF Is b _ q(2)] p(1) True q(1) False by (auto simp: vfs_link_def)
    qed
  qed (use p in \<open>auto simp: vfs_link_def given_def\<close>)
qed

lemma vfs_readlink_ok:
  assumes L: "layer_ok FS I s"
  shows "\<exists>r u' t. vfs_readlink F V path u s = Ok (r, u', t) \<and> I t \<and> same s t"
proof -
  have Is: "I s" using L by (simp add: layer_ok_def)
  obtain r v t where p: "vfs_lookup F V path s = Ok ((r, v), t)" "I t" "given s r v t" using vfs_lookup_ok [OF L] by blast
  show ?thesis
  proof (cases "r = 0")
    case True
    then have b: "borrowed s v t" using p(3) by (simp add: given_def)
    note c = borrowed_count [OF Is b]
    obtain r' u' x where x: "vop_readlink V v u t = Ok (r', u', x)" "I x" "same t x" using readlink [OF p(2)] c by blast
    then show ?thesis using finish_same [OF Is b x(3,2)] p(1) True c by (auto simp: vfs_readlink_def)
  qed (use p in \<open>auto simp: vfs_readlink_def given_def\<close>)
qed

end

section \<open>Bookkeeping\<close>

text \<open>
  \<open>books FS I s R\<close>: every count is the number of places of the layer that hold the vnode plus \<open>R v\<close>
  references of its clients, and a vnode without a file system is that of an entry of the table.
\<close>

definition books :: "ptr set \<Rightarrow> ('w vfs \<Rightarrow> bool) \<Rightarrow> 'w vfs \<Rightarrow> (ptr \<Rightarrow> int) \<Rightarrow> bool" where
  "books FS I s R \<longleftrightarrow> layer_ok FS I s \<and> (\<forall>v. v \<noteq> NULL \<longrightarrow> v_refcount s v = holders s v + R v \<and> R v \<ge> 0)
     \<and> (\<forall>v. v_refcount s v > 0 \<and> v_fs s v = NULL \<longrightarrow> v \<in> kd_vnode ` set (knowndevs s))"

lemma books_cong: "books FS I s R \<Longrightarrow> (\<And>v. v \<noteq> NULL \<Longrightarrow> R' v = R v) \<Longrightarrow> books FS I s R'"
  by (auto simp: books_def)

lemma holders_kept: "kept s t \<Longrightarrow> holders t = holders s"
  by (auto simp: holders_def kept_def)

lemma booksD:
  assumes "books FS I s R"
  shows "layer_ok FS I s" "v \<noteq> NULL \<Longrightarrow> v_refcount s v = holders s v + R v" "v \<noteq> NULL \<Longrightarrow> R v \<ge> 0"
    "v_refcount s v > 0 \<Longrightarrow> v_fs s v = NULL \<Longrightarrow> v \<in> kd_vnode ` set (knowndevs s)"
  using assms unfolding books_def by blast+

text \<open>The operations of a program on path names and on the vnodes it has opened, \<open>held\<close>.\<close>

datatype path_op =
    Open "byte list" int
  | Close ptr
  | Chdir "byte list"
  | Setbootfs "byte list"
  | Remove "byte list"
  | Rename "byte list" "byte list"
  | Link "byte list" "byte list"
  | Symlink "byte list" "byte list"
  | Mkdir "byte list"
  | Rmdir "byte list"
  | Readlink "byte list" uio

fun path_step :: "'w vfs fs_ops \<Rightarrow> 'w vfs vnode_ops \<Rightarrow> path_op \<Rightarrow> 'w vfs \<times> ptr list \<Rightarrow> ('w vfs \<times> ptr list) kres" where
  "path_step F V (Open path flags) (s, held) = kbind (vfs_open F V path flags s) (\<lambda>(r, v, s). Ok (s, if r = 0 then v # held else held))"
| "path_step F V (Close v) (s, held) = (if v \<in> set held then kbind (decref V v s) (\<lambda>s. Ok (s, remove1 v held)) else Ok (s, held))"
| "path_step F V (Chdir path) (s, held) = kbind (vfs_chdir F V path s) (\<lambda>(r, s). Ok (s, held))"
| "path_step F V (Setbootfs name) (s, held) = kbind (vfs_setbootfs F V name s) (\<lambda>(r, s). Ok (s, held))"
| "path_step F V (Remove path) (s, held) = kbind (vfs_remove F V path s) (\<lambda>(r, s). Ok (s, held))"
| "path_step F V (Rename old new) (s, held) = kbind (vfs_rename F V old new s) (\<lambda>(r, s). Ok (s, held))"
| "path_step F V (Link old new) (s, held) = kbind (vfs_link F V old new s) (\<lambda>(r, s). Ok (s, held))"
| "path_step F V (Symlink contents path) (s, held) = kbind (vfs_symlink F V contents path s) (\<lambda>(r, s). Ok (s, held))"
| "path_step F V (Mkdir path) (s, held) = kbind (vfs_mkdir F V path s) (\<lambda>(r, s). Ok (s, held))"
| "path_step F V (Rmdir path) (s, held) = kbind (vfs_rmdir F V path s) (\<lambda>(r, s). Ok (s, held))"
| "path_step F V (Readlink path u) (s, held) = kbind (vfs_readlink F V path u s) (\<lambda>(r, u, s). Ok (s, held))"

fun path_run :: "'w vfs fs_ops \<Rightarrow> 'w vfs vnode_ops \<Rightarrow> path_op list \<Rightarrow> 'w vfs \<times> ptr list \<Rightarrow> ('w vfs \<times> ptr list) kres" where
  "path_run F V [] x = Ok x"
| "path_run F V (p # ps) x = kbind (path_step F V p x) (path_run F V ps)"

text \<open>\<open>vfs_open\<close> with creation stops in its \<open>KASSERT(vn != NULL)\<close>.\<close>

fun open_stops :: "'w vfs fs_ops \<Rightarrow> 'w vfs vnode_ops \<Rightarrow> path_op \<Rightarrow> 'w vfs \<Rightarrow> bool" where
  "open_stops F V (Open path flags) s \<longleftrightarrow> flags AND O_CREAT \<noteq> 0 \<and> vfs_open F V path flags s = Fail KAssert"
| "open_stops F V p s \<longleftrightarrow> False"

context file_systems
begin

lemma books_same:
  assumes "books FS I s R" "same s t" "I t"
  shows "books FS I t R"
proof -
  have e: "v_refcount t = v_refcount s" "kept s t" using assms(2) by (simp_all add: same_def)
  have "v_fs t v = v_fs s v" if "v_refcount s v > 0" for v using kept_fs [OF e(2) that] e(1) that by simp
  moreover have "knowndevs t = knowndevs s" using e(2) by (simp add: kept_def)
  ultimately show ?thesis using assms layer_same [OF booksD(1) [OF assms(1)] assms(2,3)] e(1) holders_kept [OF e(2)] by (auto simp: books_def)
qed

lemma books_borrowed:
  assumes B: "books FS I s R" and b: "borrowed s v t" and It: "I t"
  shows "books FS I t (R(v := R v + 1))"
proof -
  have e: "v_refcount t = (v_refcount s)(v := v_refcount s v + 1)" "kept s t" "v_refcount s v > 0 \<or> v_fs t v \<noteq> NULL" using b by (simp_all add: borrowed_def)
  have k: "knowndevs t = knowndevs s" using e(2) by (simp add: kept_def)
  have "w \<in> kd_vnode ` set (knowndevs t)" if w: "v_refcount t w > 0" "v_fs t w = NULL" for w
  proof -
    have "v_refcount s w > 0" using e(1,3) w by (cases "w = v") auto
    then have "v_fs s w = NULL" using kept_fs [OF e(2) _ w(1)] w(2) by simp
    then show ?thesis using booksD(4) [OF B \<open>v_refcount s w > 0\<close>] k by simp
  qed
  then show ?thesis using B layer_borrowed [OF booksD(1) [OF B] b It] e(1) holders_kept [OF e(2)] by (auto simp: books_def)
qed

lemma books_given: "books FS I s R \<Longrightarrow> given s r v t \<Longrightarrow> I t \<Longrightarrow> books FS I t (if r = 0 then R(v := R v + 1) else R)"
  using books_borrowed books_same by (simp add: given_def)

lemma books_decref:
  assumes B: "books FS I s R" and v: "v \<noteq> NULL" "R v > 0"
  shows "\<exists>t. decref V v s = Ok t \<and> books FS I t (R(v := R v - 1)) \<and> biglock_depth t = biglock_depth s"
proof -
  have L: "layer_ok FS I s" by (rule booksD(1) [OF B])
  have Is: "I s" using L by (simp add: layer_ok_def)
  have h: "holders s w \<ge> 0" for w by (simp add: holders_def)
  have "v_refcount s v > 0" using booksD(2) [OF B v(1)] h [of v] v(2) by simp
  moreover have "holders s v > 0" if "v_fs s v = NULL" using booksD(4) [OF B \<open>v_refcount s v > 0\<close> that] by (simp add: holders_def)
  ultimately have "v_refcount s v > 1 \<or> v_refcount s v = 1 \<and> v_fs s v \<noteq> NULL" using booksD(2) [OF B v(1)] v(2) by force
  from decref_ok [OF Is v(1) this] obtain t where t: "decref V v s = Ok t" "I t" "kept s t" "v_refcount t = (v_refcount s)(v := v_refcount s v - 1)" by blast
  have k: "knowndevs t = knowndevs s" "cwd t = cwd s" "d_devnumber t = d_devnumber s" "biglock_depth t = biglock_depth s" using t(3) by (simp_all add: kept_def)
  have c: "v_refcount t w = holders t w + (R(v := R v - 1)) w \<and> (R(v := R v - 1)) w \<ge> 0" if "w \<noteq> NULL" for w
    using booksD(2,3) [OF B that] t(4) v(2) holders_kept [OF t(3)] by (cases "w = v") auto
  have cw: "v_fs t (cwd s) = v_fs s (cwd s)" if n: "cwd s \<noteq> NULL"
  proof (rule kept_fs [OF t(3) layer_counts(2) [OF L n]])
    have "holders t (cwd s) > 0" by (simp add: holders_def k(2))
    then show "v_refcount t (cwd s) > 0" using c [OF n] by linarith
  qed
  have "w \<in> kd_vnode ` set (knowndevs t)" if w: "v_refcount t w > 0" "v_fs t w = NULL" for w
  proof -
    have "v_refcount s w > 0" using t(4) w(1) by (auto split: if_splits)
    then show ?thesis using booksD(4) [OF B, of w] kept_fs [OF t(3) _ w(1)] w(2) k(1) by simp
  qed
  moreover have "layer_ok FS I t" using L t(2) k c cw by (auto simp: layer_ok_def table_inv_def)
  ultimately show ?thesis using t(1) k(4) c by (auto simp: books_def)
qed

text \<open>A reference that a client gives to the layer, for the current directory or the boot file system.\<close>

lemma books_cwd:
  assumes B: "books FS I s R" and v: "v \<noteq> NULL" "R v > 0" "v_fs s v \<in> FS" "v_fs s v \<noteq> NULL"
  shows "books FS I (s\<lparr>cwd := v\<rparr>) (\<lambda>w. R w - of_bool (w = v) + of_bool (w = cwd s))"
proof -
  have L: "layer_ok FS I s" by (rule booksD(1) [OF B])
  have "I (s\<lparr>cwd := v\<rparr>)" using frame [of s "s\<lparr>cwd := v\<rparr>"] L by (simp add: layer_ok_def)
  moreover have h: "holders (s\<lparr>cwd := v\<rparr>) w = holders s w + of_bool (w = v) - of_bool (w = cwd s)" for w by (auto simp: holders_def)
  moreover have "holders s w + of_bool (w = v) - of_bool (w = cwd s) \<le> v_refcount s w" if "w \<noteq> NULL" for w
    using booksD(2,3) [OF B that] v(2) by auto
  ultimately show ?thesis using B L v by (auto simp: books_def layer_ok_def table_inv_def)
qed

lemma books_bootfs:
  assumes B: "books FS I s R" and v: "v \<noteq> NULL \<Longrightarrow> R v > 0"
  shows "books FS I (s\<lparr>bootfs_vnode := v\<rparr>) (\<lambda>w. R w - of_bool (w = v) + of_bool (w = bootfs_vnode s))"
proof -
  have L: "layer_ok FS I s" by (rule booksD(1) [OF B])
  have "I (s\<lparr>bootfs_vnode := v\<rparr>)" using frame [of s "s\<lparr>bootfs_vnode := v\<rparr>"] L by (simp add: layer_ok_def)
  moreover have h: "holders (s\<lparr>bootfs_vnode := v\<rparr>) w = holders s w + of_bool (w = v) - of_bool (w = bootfs_vnode s)" for w by (auto simp: holders_def)
  moreover have "holders s w + of_bool (w = v) - of_bool (w = bootfs_vnode s) \<le> v_refcount s w" if "w \<noteq> NULL" for w
    using booksD(2,3) [OF B that] v that by auto
  ultimately show ?thesis using B L v by (auto simp: books_def layer_ok_def table_inv_def)
qed

lemma books_depth:
  assumes "books FS I s R"
  shows "books FS I (s\<lparr>biglock_depth := d\<rparr>) R"
proof -
  have "I (s\<lparr>biglock_depth := d\<rparr>)" using booksD(1) [OF assms] by (intro depth_same) (simp add: layer_ok_def)
  moreover have "holders (s\<lparr>biglock_depth := d\<rparr>) = holders s" by (auto simp: holders_def)
  ultimately show ?thesis using assms by (simp add: books_def layer_ok_def)
qed

lemma setcurdir_ok:
  assumes B: "books FS I s R" and v: "v \<noteq> NULL" "R v > 0"
  shows "\<exists>r t. vfs_setcurdir V v s = Ok (r, t) \<and> books FS I t R \<and> biglock_depth t = biglock_depth s"
proof -
  have L: "layer_ok FS I s" and Is: "I s" using booksD(1) [OF B] by (simp_all add: layer_ok_def)
  have h: "holders s v \<ge> 0" by (simp add: holders_def)
  then have c: "v_refcount s v > 0" using booksD(2) [OF B v(1)] v(2) by simp
  obtain r ty t where g: "vop_gettype V v s = Ok (r, ty, t)" "I t" "same s t" "r = 0 \<and> ty = S_IFDIR \<longrightarrow> v_fs s v \<in> FS \<and> v_fs s v \<noteq> NULL"
    using gettype [OF Is c] by blast
  have Bt: "books FS I t R" and d: "biglock_depth t = biglock_depth s" using books_same [OF B g(3,2)] g(3) by (simp_all add: same_def kept_def)
  have ct: "v_refcount t v > 0" using g(3) c by (simp add: same_def)
  show ?thesis
  proof (cases "r = 0 \<and> ty = S_IFDIR")
    case False
    then show ?thesis using g(1) Bt d c v(1) by (cases "r = 0") (auto simp: vfs_setcurdir_def)
  next
    case True
    have f: "v_fs t v \<in> FS" "v_fs t v \<noteq> NULL" using g(3,4) True kept_fs [OF _ c ct] by (auto simp: same_def)
    let ?u = "more_refs v t" and ?R = "R(v := R v + 1)"
    have "books FS I ?u ?R" by (rule books_borrowed [OF Bt more_refs_borrowed [OF v(1) ct] up [OF g(2) ct]])
    then have Bu: "books FS I (?u\<lparr>cwd := v\<rparr>) (\<lambda>w. R w + of_bool (w = cwd t))"
      by (rule books_cong [OF books_cwd [where v = v]]) (use v f in \<open>auto simp: more_refs_def\<close>)
    have e: "vfs_setcurdir V v s = (if cwd t \<noteq> NULL then kbind (decref V (cwd t) (?u\<lparr>cwd := v\<rparr>)) (\<lambda>s. Ok (0, s)) else Ok (0, ?u\<lparr>cwd := v\<rparr>))"
      using g(1) True c v(1) by (simp add: vfs_setcurdir_def incref_def more_refs_def)
    show ?thesis
    proof (cases "cwd t = NULL")
      case True
      then show ?thesis using e books_cong [OF Bu, of R] d by (auto simp: more_refs_def)
    next
      case False
      have "R (cwd t) + of_bool (cwd t = cwd t) > 0" using booksD(3) [OF Bt False] by simp
      from books_decref [OF Bu False this] obtain x where x: "decref V (cwd t) (?u\<lparr>cwd := v\<rparr>) = Ok x"
          "books FS I x ((\<lambda>w. R w + of_bool (w = cwd t))(cwd t := R (cwd t) + of_bool (cwd t = cwd t) - 1))" "biglock_depth x = biglock_depth t"
        by (auto simp: more_refs_def)
      have "books FS I x R" by (rule books_cong [OF x(2)]) auto
      then show ?thesis using e False x(1,3) d by auto
    qed
  qed
qed

lemma chdir_books:
  assumes B: "books FS I s R"
  shows "\<exists>r t. vfs_chdir F V path s = Ok (r, t) \<and> books FS I t R \<and> biglock_depth t = biglock_depth s"
proof -
  have L: "layer_ok FS I s" and Is: "I s" using booksD(1) [OF B] by (simp_all add: layer_ok_def)
  obtain r v t where p: "vfs_lookup F V path s = Ok ((r, v), t)" "I t" "given s r v t" using vfs_lookup_ok [OF L] by blast
  have Bt: "books FS I t (if r = 0 then R(v := R v + 1) else R)" by (rule books_given [OF B p(3,2)])
  have d: "biglock_depth t = biglock_depth s" using p(3) by (auto simp: given_def same_def borrowed_def kept_def split: if_splits)
  show ?thesis
  proof (cases "r = 0")
    case False
    then show ?thesis using p(1) Bt d by (auto simp: vfs_chdir_def)
  next
    case True
    have v: "v \<noteq> NULL" using p(3) True by (simp add: given_def borrowed_def)
    have Bv: "books FS I t (R(v := R v + 1))" "(R(v := R v + 1)) v > 0" using Bt True booksD(3) [OF B v] by simp_all
    obtain r' u where u: "vfs_setcurdir V v t = Ok (r', u)" "books FS I u (R(v := R v + 1))" "biglock_depth u = biglock_depth t"
      using setcurdir_ok [OF Bv(1) v Bv(2)] by blast
    obtain x where x: "decref V v u = Ok x" "books FS I x ((R(v := R v + 1))(v := (R(v := R v + 1)) v - 1))" "biglock_depth x = biglock_depth u"
      using books_decref [OF u(2) v Bv(2)] by blast
    have "books FS I x R" by (rule books_cong [OF x(2)]) simp
    then show ?thesis using p(1) True u(1,3) x(1,3) d by (auto simp: vfs_chdir_def)
  qed
qed

lemma setbootfs_books:
  assumes B: "books FS I s R"
  shows "\<exists>r t. vfs_setbootfs F V name s = Ok (r, t) \<and> books FS I t R"
proof -
  let ?a = "biglock_acquire s" and ?d = "biglock_depth s"
  have Ba: "books FS I ?a R" using books_depth [OF B] by (simp add: biglock_acquire_def)
  have rel: "released r t = Ok (r, t\<lparr>biglock_depth := ?d\<rparr>)" if "biglock_depth t = biglock_depth ?a" for r :: int and t
    using that by (intro released_ok) (simp add: biglock_acquire_def)
  let ?tmp = "take (NAME_MAX - 1) name"
  show ?thesis
  proof (cases "dropWhile (\<lambda>c. c \<noteq> 58) ?tmp = []")
    case False
    then show ?thesis using rel [of ?a] books_depth [OF Ba] by (auto simp: vfs_setbootfs_def Let_def)
  next
    case True
    obtain r t where t: "vfs_chdir F V (?tmp @ [58]) ?a = Ok (r, t)" "books FS I t R" "biglock_depth t = biglock_depth ?a" using chdir_books [OF Ba] by blast
    have Lt: "layer_ok FS I t" by (rule booksD(1) [OF t(2)])
    obtain r1 v u where u: "vfs_getcurdir t = Ok (r1, v, u)" "I u" "given t r1 v u" using getcurdir_ok [OF Lt] by blast
    have du: "biglock_depth u = biglock_depth ?a" using u(3) t(3) by (auto simp: given_def same_def borrowed_def kept_def split: if_splits)
    have Bu: "books FS I u (if r1 = 0 then R(v := R v + 1) else R)" by (rule books_given [OF t(2) u(3,2)])
    show ?thesis
    proof (cases "r = 0 \<and> r1 = 0")
      case False
      then show ?thesis
        using True t(1) u(1) rel [OF t(3)] rel [OF du] books_depth [OF t(2)] books_depth [OF Bu] by (cases "r = 0") (auto simp: vfs_setbootfs_def Let_def)
    next
      case ok: True
      then have v: "v \<noteq> NULL" using u(3) by (simp add: given_def borrowed_def)
      have Rv: "(R(v := R v + 1)) v > 0" using booksD(3) [OF B v] by simp
      have Bb: "books FS I (u\<lparr>bootfs_vnode := v\<rparr>) (\<lambda>w. R w + of_bool (w = bootfs_vnode u))"
        by (rule books_cong [OF books_bootfs [OF Bu, of v]]) (use ok Rv in auto)
      have "\<exists>x. change_bootfs V v u = Ok x \<and> books FS I x R \<and> biglock_depth x = biglock_depth ?a"
      proof (cases "bootfs_vnode u = NULL")
        case True
        then show ?thesis using books_cong [OF Bb, of R] du by (auto simp: change_bootfs_def)
      next
        case False
        have "R (bootfs_vnode u) + of_bool (bootfs_vnode u = bootfs_vnode u) > 0" using booksD(3) [OF B False] by simp
        from books_decref [OF Bb False this] obtain x where x: "decref V (bootfs_vnode u) (u\<lparr>bootfs_vnode := v\<rparr>) = Ok x"
            "books FS I x ((\<lambda>w. R w + of_bool (w = bootfs_vnode u))(bootfs_vnode u := R (bootfs_vnode u) + of_bool (bootfs_vnode u = bootfs_vnode u) - 1))"
            "biglock_depth x = biglock_depth u" by auto
        have "books FS I x R" by (rule books_cong [OF x(2)]) auto
        then show ?thesis using x(1,3) False du by (auto simp: change_bootfs_def)
      qed
      then obtain x where "change_bootfs V v u = Ok x" "books FS I x R" "biglock_depth x = biglock_depth ?a" by blast
      then show ?thesis using True ok t(1) u(1) rel [of x 0] books_depth [of x R] by (auto simp: vfs_setbootfs_def Let_def)
    qed
  qed
qed

lemma count_remove1: "count_list (remove1 v l) w = count_list l w - (if w = v then 1 else 0)"
  by (induction l) (auto simp: count_list_0_iff [symmetric] Suc_diff_Suc)

lemma path_step_books:
  assumes B: "books FS I s (\<lambda>v. int (count_list held v))" and n: "NULL \<notin> set held"
    and o: "\<not> (faulty \<and> open_stops F V p s)"
  shows "\<exists>t held'. path_step F V p (s, held) = Ok (t, held') \<and> books FS I t (\<lambda>v. int (count_list held' v)) \<and> NULL \<notin> set held'"
proof -
  let ?R = "\<lambda>v. int (count_list held v)"
  have L: "layer_ok FS I s" and Is: "I s" using booksD(1) [OF B] by (simp_all add: layer_ok_def)
  note keep = books_same [OF B]
  have names: "\<exists>r t. in_parent F V path f s = Ok (r, t) \<and> books FS I t ?R"
    if "\<And>dir name t. I t \<Longrightarrow> v_refcount t dir > 0 \<Longrightarrow> \<exists>r u. f dir name t = Ok (r, u) \<and> I u \<and> same t u" for path f
    using in_parent_ok [OF L, of f path] that keep by blast
  show ?thesis
  proof (cases p)
    case (Open path flags)
    have "\<not> (faulty \<and> flags AND O_CREAT \<noteq> 0 \<and> vfs_open F V path flags s = Fail KAssert)" using o Open by simp
    then obtain r v t where o: "vfs_open F V path flags s = Ok (r, v, t)" "layer_ok FS I t" "given s r v t" using vfs_open_ok [OF L, of path flags] by blast
    have "books FS I t (if r = 0 then ?R(v := ?R v + 1) else ?R)" using books_given [OF B o(3)] o(2) by (simp add: layer_ok_def)
    then have "books FS I t (\<lambda>w. int (count_list (if r = 0 then v # held else held) w))" by (rule books_cong) simp
    moreover have "r = 0 \<Longrightarrow> v \<noteq> NULL" using o(3) by (simp add: given_def borrowed_def)
    ultimately show ?thesis using Open o(1) n by (cases "r = 0") auto
  next
    case (Close v)
    show ?thesis
    proof (cases "v \<in> set held")
      case True
      then have v: "?R v > 0" "v \<noteq> NULL" using n count_notin [of v held] count_list_0_iff [of held v] by auto
      from books_decref [OF B v(2,1)] obtain t where t: "decref V v s = Ok t" "books FS I t (?R(v := ?R v - 1))" by blast
      have "books FS I t (\<lambda>w. int (count_list (remove1 v held) w))" by (rule books_cong [OF t(2)]) (use v(1) in \<open>simp add: count_remove1\<close>)
      then show ?thesis using Close t(1) True n by (auto dest: notin_set_remove1)
    qed (use Close B n in simp)
  next
    case (Chdir path)
    then show ?thesis using chdir_books [OF B, of path] n by auto
  next
    case (Setbootfs name)
    then show ?thesis using setbootfs_books [OF B, of name] n by auto
  next
    case (Remove path)
    then show ?thesis using names [of "vop_remove V" path] remove n by (auto simp: vfs_remove_def)
  next
    case (Rename old new)
    then show ?thesis using vfs_rename_ok [OF L, of old new] keep n by auto
  next
    case (Link old new)
    then show ?thesis using vfs_link_ok [OF L, of old new] keep n by auto
  next
    case (Symlink contents path)
    then show ?thesis using names [of "\<lambda>dir name. vop_symlink V dir name contents" path] symlink n by (auto simp: vfs_symlink_def)
  next
    case (Mkdir path)
    then show ?thesis using names [of "vop_mkdir V" path] mkdir n by (auto simp: vfs_mkdir_def)
  next
    case (Rmdir path)
    then show ?thesis using names [of "vop_rmdir V" path] rmdir n by (auto simp: vfs_rmdir_def)
  next
    case (Readlink path u)
    then show ?thesis using vfs_readlink_ok [OF L, of path u] keep n by auto
  qed
qed

lemma path_run_books:
  assumes "books FS I s (\<lambda>v. int (count_list held v))" "NULL \<notin> set held"
  shows "(\<exists>t held'. path_run F V ps (s, held) = Ok (t, held') \<and> books FS I t (\<lambda>v. int (count_list held' v)))
    \<or> faulty \<and> (\<exists>ps1 p ps2 t held'. ps = ps1 @ p # ps2 \<and> path_run F V ps1 (s, held) = Ok (t, held') \<and> books FS I t (\<lambda>v. int (count_list held' v)) \<and> open_stops F V p t)"
  using assms
proof (induction ps arbitrary: s held)
  case (Cons p ps)
  show ?case
  proof (cases "faulty \<and> open_stops F V p s")
    case True
    then show ?thesis using Cons.prems(1) by (intro disjI2 conjI exI [of _ "[]"] exI [of _ p] exI [of _ ps] exI [of _ s] exI [of _ held]) simp_all
  next
    case False
    obtain t held' where t: "path_step F V p (s, held) = Ok (t, held')" "books FS I t (\<lambda>v. int (count_list held' v))" "NULL \<notin> set held'"
      using path_step_books [OF Cons.prems False] by blast
    from Cons.IH [OF t(2,3)] show ?thesis
    proof (elim disjE conjE exE)
      fix ps1 q ps2 u held2
      assume "faulty" "ps = ps1 @ q # ps2" "path_run F V ps1 (t, held') = Ok (u, held2)" "books FS I u (\<lambda>v. int (count_list held2 v))" "open_stops F V q u"
      then show ?thesis using t(1)
        by (intro disjI2 conjI exI [of _ "p # ps1"] exI [of _ q] exI [of _ ps2] exI [of _ u] exI [of _ held2]) simp_all
    qed (use t(1) in simp)
  qed
qed simp

end

end
