(* ===== verification/Semfs.thy ===== *)
theory Semfs
  imports VFS_Refs
begin

text \<open>
  The semaphore file system (\<^verbatim>\<open>fs/semfs\<close>): one directory whose files are semaphores. A read of \<open>n\<close>
  bytes takes \<open>n\<close> from the count and waits while it is 0, a write of \<open>n\<close> bytes adds \<open>n\<close>, truncation
  sets the count. The failing operations (\<^verbatim>\<open>vfs/vfsfail.c\<close>) and the null device (\<^verbatim>\<open>vfs/devnull.c\<close>)
  are here too. The locks of the file system hold for the length of one operation, as the operations here are;
  the waiting of readers is treated in the section on semaphores. What \<open>kmalloc\<close> answers is part of
  the state: the addresses of the next vnodes, and yes or no for everything else.
\<close>

unbundle bit_operations_syntax

section \<open>Operations that fail\<close>

definition vopfail_uio_notdir :: "ptr \<Rightarrow> 'u \<Rightarrow> 's \<Rightarrow> (int \<times> 'u \<times> 's) kres" where "vopfail_uio_notdir vn u s = Ok (ENOTDIR, u, s)"
definition vopfail_uio_isdir :: "ptr \<Rightarrow> 'u \<Rightarrow> 's \<Rightarrow> (int \<times> 'u \<times> 's) kres" where "vopfail_uio_isdir vn u s = Ok (EISDIR, u, s)"
definition vopfail_uio_inval :: "ptr \<Rightarrow> 'u \<Rightarrow> 's \<Rightarrow> (int \<times> 'u \<times> 's) kres" where "vopfail_uio_inval vn u s = Ok (EINVAL, u, s)"
definition vopfail_uio_nosys :: "ptr \<Rightarrow> 'u \<Rightarrow> 's \<Rightarrow> (int \<times> 'u \<times> 's) kres" where "vopfail_uio_nosys vn u s = Ok (ENOSYS, u, s)"
definition vopfail_mmap_isdir :: "ptr \<Rightarrow> 's \<Rightarrow> (int \<times> 's) kres" where "vopfail_mmap_isdir vn s = Ok (EISDIR, s)"
definition vopfail_mmap_perm :: "ptr \<Rightarrow> 's \<Rightarrow> (int \<times> 's) kres" where "vopfail_mmap_perm vn s = Ok (EPERM, s)"
definition vopfail_mmap_nosys :: "ptr \<Rightarrow> 's \<Rightarrow> (int \<times> 's) kres" where "vopfail_mmap_nosys vn s = Ok (ENOSYS, s)"
definition vopfail_truncate_isdir :: "ptr \<Rightarrow> int \<Rightarrow> 's \<Rightarrow> (int \<times> 's) kres" where "vopfail_truncate_isdir vn pos s = Ok (EISDIR, s)"
definition vopfail_creat_notdir :: "ptr \<Rightarrow> byte list \<Rightarrow> bool \<Rightarrow> 's \<Rightarrow> (int \<times> ptr \<times> 's) kres" where "vopfail_creat_notdir vn name excl s = Ok (ENOTDIR, NULL, s)"
definition vopfail_symlink_notdir :: "ptr \<Rightarrow> byte list \<Rightarrow> byte list \<Rightarrow> 's \<Rightarrow> (int \<times> 's) kres" where "vopfail_symlink_notdir vn contents name s = Ok (ENOTDIR, s)"
definition vopfail_symlink_nosys :: "ptr \<Rightarrow> byte list \<Rightarrow> byte list \<Rightarrow> 's \<Rightarrow> (int \<times> 's) kres" where "vopfail_symlink_nosys vn contents name s = Ok (ENOSYS, s)"
definition vopfail_mkdir_notdir :: "ptr \<Rightarrow> byte list \<Rightarrow> 's \<Rightarrow> (int \<times> 's) kres" where "vopfail_mkdir_notdir vn name s = Ok (ENOTDIR, s)"
definition vopfail_mkdir_nosys :: "ptr \<Rightarrow> byte list \<Rightarrow> 's \<Rightarrow> (int \<times> 's) kres" where "vopfail_mkdir_nosys vn name s = Ok (ENOSYS, s)"
definition vopfail_link_notdir :: "ptr \<Rightarrow> byte list \<Rightarrow> ptr \<Rightarrow> 's \<Rightarrow> (int \<times> 's) kres" where "vopfail_link_notdir dir name f s = Ok (ENOTDIR, s)"
definition vopfail_link_nosys :: "ptr \<Rightarrow> byte list \<Rightarrow> ptr \<Rightarrow> 's \<Rightarrow> (int \<times> 's) kres" where "vopfail_link_nosys dir name f s = Ok (ENOSYS, s)"
definition vopfail_string_notdir :: "ptr \<Rightarrow> byte list \<Rightarrow> 's \<Rightarrow> (int \<times> 's) kres" where "vopfail_string_notdir vn name s = Ok (ENOTDIR, s)"
definition vopfail_string_nosys :: "ptr \<Rightarrow> byte list \<Rightarrow> 's \<Rightarrow> (int \<times> 's) kres" where "vopfail_string_nosys vn name s = Ok (ENOSYS, s)"
definition vopfail_rename_notdir :: "ptr \<Rightarrow> byte list \<Rightarrow> ptr \<Rightarrow> byte list \<Rightarrow> 's \<Rightarrow> (int \<times> 's) kres" where "vopfail_rename_notdir d1 n1 d2 n2 s = Ok (ENOTDIR, s)"
definition vopfail_rename_nosys :: "ptr \<Rightarrow> byte list \<Rightarrow> ptr \<Rightarrow> byte list \<Rightarrow> 's \<Rightarrow> (int \<times> 's) kres" where "vopfail_rename_nosys d1 n1 d2 n2 s = Ok (ENOSYS, s)"
definition vopfail_lookup_notdir :: "ptr \<Rightarrow> byte list \<Rightarrow> 's \<Rightarrow> (int \<times> ptr \<times> 's) kres" where "vopfail_lookup_notdir vn path s = Ok (ENOTDIR, NULL, s)"
definition vopfail_lookparent_notdir :: "ptr \<Rightarrow> byte list \<Rightarrow> nat \<Rightarrow> 's \<Rightarrow> (int \<times> ptr \<times> byte list \<times> 's) kres" where "vopfail_lookparent_notdir vn path n s = Ok (ENOTDIR, NULL, [], s)"

lemmas vopfail_defs = vopfail_uio_notdir_def vopfail_uio_isdir_def vopfail_uio_inval_def vopfail_uio_nosys_def vopfail_mmap_isdir_def vopfail_mmap_perm_def
  vopfail_mmap_nosys_def vopfail_truncate_isdir_def vopfail_creat_notdir_def vopfail_symlink_notdir_def vopfail_symlink_nosys_def vopfail_mkdir_notdir_def
  vopfail_mkdir_nosys_def vopfail_link_notdir_def vopfail_link_nosys_def vopfail_string_notdir_def vopfail_string_nosys_def vopfail_rename_notdir_def
  vopfail_rename_nosys_def vopfail_lookup_notdir_def vopfail_lookparent_notdir_def

section \<open>Data\<close>

definition SEMFS_ROOTDIR :: "32 word" where "SEMFS_ROOTDIR = 0xffffffff"

record semfs_sem =
  sems_count :: "32 word"
  sems_hasvnode :: bool
  sems_linked :: bool

record semfs_direntry =
  semd_name :: "byte list"
  semd_semnum :: "32 word"

text \<open>
  The file system with the field \<open>semv_semnum\<close> of its vnodes; \<open>new_vnodes\<close>, \<open>answers\<close> and \<open>dent_answers\<close> are what
  \<open>kmalloc\<close> will answer to the requests for vnodes, for other objects, and for directory entries.
\<close>

record semfs =
  semfs_absfs :: ptr
  semfs_vnodes :: "ptr list"
  semfs_sems :: "semfs_sem option list"
  semfs_dents :: "semfs_direntry option list"
  semv_semnum :: "ptr \<Rightarrow> 32 word"
  new_vnodes :: "ptr list"
  answers :: "bool list"
  dent_answers :: "bool list"

type_synonym ssys = "semfs vfs"

definition upd_semfs :: "(semfs \<Rightarrow> semfs) \<Rightarrow> ssys \<Rightarrow> ssys" where
  "upd_semfs f s = s\<lparr>fs_world := f (fs_world s)\<rparr>"

definition ask :: "ssys \<Rightarrow> bool \<times> ssys" where
  "ask s = (case answers (fs_world s) of [] \<Rightarrow> (False, s) | b # bs \<Rightarrow> (b, upd_semfs (answers_update (\<lambda>_. bs)) s))"

definition ask_dent :: "ssys \<Rightarrow> bool \<times> ssys" where
  "ask_dent s = (case dent_answers (fs_world s) of [] \<Rightarrow> (True, s) | b # bs \<Rightarrow> (b, upd_semfs (dent_answers_update (\<lambda>_. bs)) s))"

definition set_sem :: "32 word \<Rightarrow> semfs_sem option \<Rightarrow> ssys \<Rightarrow> ssys" where
  "set_sem n x s = upd_semfs (semfs_sems_update (\<lambda>l. l[unat n := x])) s"

text \<open>Reading the array of semaphores at an index, and the semaphore there through its pointer.\<close>

definition get_sem :: "32 word \<Rightarrow> ssys \<Rightarrow> semfs_sem option kres" where
  "get_sem n s = kassert (unat n < length (semfs_sems (fs_world s))) (Ok (semfs_sems (fs_world s) ! unat n))"

definition deref_sem :: "semfs_sem option \<Rightarrow> semfs_sem kres" where
  "deref_sem x = (case x of None \<Rightarrow> Fail NullDeref | Some sem \<Rightarrow> Ok sem)"

section \<open>Objects\<close>

definition semfs_sem_create :: "ssys \<Rightarrow> semfs_sem option \<times> ssys" where
  "semfs_sem_create s = (let (ok, s) = ask s in (if ok then Some \<lparr>sems_count = 0, sems_hasvnode = False, sems_linked = False\<rparr> else None, s))"

fun first_none :: "'a option list \<Rightarrow> nat option" where
  "first_none [] = None"
| "first_none (x # xs) = (if x = None then Some 0 else map_option Suc (first_none xs))"

definition semfs_sem_insert :: "semfs_sem \<Rightarrow> ssys \<Rightarrow> int \<times> 32 word \<times> ssys" where
  "semfs_sem_insert sem s =
     (let sems = semfs_sems (fs_world s)
      in if of_nat (length sems) = SEMFS_ROOTDIR then (ENOSPC, 0, s)
         else
           case first_none sems of
             Some i \<Rightarrow> (0, of_nat i, set_sem (of_nat i) (Some sem) s)
           | None \<Rightarrow>
               let (ok, s) = ask s
               in if ok then (0, of_nat (length sems), upd_semfs (semfs_sems_update (\<lambda>l. l @ [Some sem])) s) else (ENOMEM, 0, s))"

section \<open>Vnodes\<close>

text \<open>
  \<open>kmalloc\<close> offers the addresses of \<open>new_vnodes\<close> in turn; an address may come again once its vnode is freed, and
  one that is still in use is passed over, as \<open>kmalloc\<close> hands out no block that is in use.
\<close>

definition semfs_vnode_create :: "32 word \<Rightarrow> ssys \<Rightarrow> (ptr \<times> ssys) kres" where
  "semfs_vnode_create semnum s =
     (case dropWhile (\<lambda>v. v_refcount s v > 0) (new_vnodes (fs_world s)) of
        [] \<Rightarrow> Ok (NULL, s)
      | v # vs \<Rightarrow>
          let s = upd_semfs (new_vnodes_update (\<lambda>_. vs)) s
          in if v = NULL then Ok (NULL, s)
             else kbind (vnode_init v (semfs_absfs (fs_world s)) (upd_semfs (semv_semnum_update (\<lambda>f. f(v := semnum))) s)) (\<lambda>s. Ok (v, s)))"

definition semfs_vnode_destroy :: "ptr \<Rightarrow> ssys \<Rightarrow> ssys kres" where
  "semfs_vnode_destroy v s = vnode_cleanup v s"

definition semfs_getvnode :: "32 word \<Rightarrow> ssys \<Rightarrow> (int \<times> ptr \<times> ssys) kres" where
  "semfs_getvnode semnum s =
     (case find (\<lambda>vn. semv_semnum (fs_world s) vn = semnum) (semfs_vnodes (fs_world s)) of
        Some vn \<Rightarrow> kbind (incref vn s) (\<lambda>s. Ok (0, vn, s))
      | None \<Rightarrow>
          kbind (semfs_vnode_create semnum s) (\<lambda>(v, s).
            if v = NULL then Ok (ENOMEM, NULL, s)
            else
              let (ok, s) = ask s
              in if \<not> ok then kbind (semfs_vnode_destroy v s) (\<lambda>s. Ok (ENOMEM, NULL, s))
                 else
                   let s = upd_semfs (semfs_vnodes_update (\<lambda>l. l @ [v])) s
                   in kbind (if semnum \<noteq> SEMFS_ROOTDIR
                             then kbind (get_sem semnum s) (\<lambda>x. kassert (x \<noteq> None) (kassert (\<not> sems_hasvnode (the x))
                                    (Ok (set_sem semnum (Some ((the x)\<lparr>sems_hasvnode := True\<rparr>)) s))))
                             else Ok s) (\<lambda>s. Ok (0, v, s))))"

definition semfs_reclaim :: "ptr \<Rightarrow> ssys \<Rightarrow> (int \<times> ssys) kres" where
  "semfs_reclaim vn s =
     (if v_refcount s vn > 1 then Ok (EBUSY, s\<lparr>v_refcount := (v_refcount s)(vn := v_refcount s vn - 1)\<rparr>)
      else
        let n = semv_semnum (fs_world s) vn; s = upd_semfs (semfs_vnodes_update (remove1 vn)) s
        in kbind (if n \<noteq> SEMFS_ROOTDIR
                  then kbind (get_sem n s) (\<lambda>x. kbind (deref_sem x) (\<lambda>sem. kassert (sems_hasvnode sem)
                         (Ok (set_sem n (if sems_linked sem then Some (sem\<lparr>sems_hasvnode := False\<rparr>) else None) s))))
                  else Ok s) (\<lambda>s.
             kbind (semfs_vnode_destroy vn s) (\<lambda>s. Ok (0, s))))"

section \<open>Operations on the directory\<close>

fun find_dent :: "byte list \<Rightarrow> nat \<Rightarrow> semfs_direntry option list \<Rightarrow> (nat \<times> semfs_direntry) option" where
  "find_dent name i [] = None"
| "find_dent name i (None # ds) = find_dent name (i + 1) ds"
| "find_dent name i (Some d # ds) = (if semd_name d = name then Some (i, d) else find_dent name (i + 1) ds)"

definition dot_name :: "byte list \<Rightarrow> bool" where
  "dot_name name \<longleftrightarrow> name = [46] \<or> name = [46, 46]"

definition semfs_lookup :: "ptr \<Rightarrow> byte list \<Rightarrow> ssys \<Rightarrow> (int \<times> ptr \<times> ssys) kres" where
  "semfs_lookup dirvn path s =
     (if dot_name path then kbind (incref dirvn s) (\<lambda>s. Ok (0, dirvn, s))
      else
        case find_dent path 0 (semfs_dents (fs_world s)) of
          Some (i, d) \<Rightarrow> semfs_getvnode (semd_semnum d) s
        | None \<Rightarrow> Ok (ENOENT, NULL, s))"

definition semfs_lookparent :: "ptr \<Rightarrow> byte list \<Rightarrow> nat \<Rightarrow> ssys \<Rightarrow> (int \<times> ptr \<times> byte list \<times> ssys) kres" where
  "semfs_lookparent dirvn path bufmax s =
     (if length path + 1 > bufmax then Ok (ENAMETOOLONG, NULL, [], s) else kbind (incref dirvn s) (\<lambda>s. Ok (0, dirvn, path, s)))"

text \<open>The entry goes to the first empty place, found during the search for the name, or to the end of the array.\<close>

definition creat_dent :: "semfs_direntry \<Rightarrow> ssys \<Rightarrow> int \<times> nat \<times> ssys" where
  "creat_dent dent s =
     (case first_none (semfs_dents (fs_world s)) of
        Some i \<Rightarrow> (0, i, upd_semfs (semfs_dents_update (\<lambda>l. l[i := Some dent])) s)
      | None \<Rightarrow>
          let empty = length (semfs_dents (fs_world s)); (ok, s) = ask s
          in if ok then (0, empty, upd_semfs (semfs_dents_update (\<lambda>l. l @ [Some dent])) s) else (ENOMEM, empty, s))"

text \<open>The error path of \<open>semfs_creat\<close> from \<open>fail_uninsert\<close> on; \<open>result\<close> is still 0 when no directory entry could be made.\<close>

definition creat_uninsert :: "32 word \<Rightarrow> int \<Rightarrow> ssys \<Rightarrow> (int \<times> ptr \<times> ssys) kres" where
  "creat_uninsert semnum result s = Ok (result, NULL, set_sem semnum None s)"

definition semfs_creat :: "ptr \<Rightarrow> byte list \<Rightarrow> bool \<Rightarrow> ssys \<Rightarrow> (int \<times> ptr \<times> ssys) kres" where
  "semfs_creat dirvn name excl s =
     (if dot_name name then Ok (EEXIST, NULL, s)
      else
        case find_dent name 0 (semfs_dents (fs_world s)) of
          Some (i, d) \<Rightarrow> if excl then Ok (EEXIST, NULL, s) else semfs_getvnode (semd_semnum d) s
        | None \<Rightarrow>
            let (sem, s) = semfs_sem_create s
            in if sem = None then Ok (ENOMEM, NULL, s)
               else
                 let (result, semnum, s) = semfs_sem_insert (the sem) s
                 in if result \<noteq> 0 then Ok (result, NULL, s)
                    else
                      let (ok, s) = ask_dent s; dent = \<lparr>semd_name = name, semd_semnum = semnum\<rparr>
                      in if \<not> ok then creat_uninsert semnum result s
                         else
                           let (result, empty, s) = creat_dent dent s
                           in if result \<noteq> 0 then creat_uninsert semnum result s
                              else
                                kbind (semfs_getvnode semnum s) (\<lambda>(result, vn, s).
                                  if result \<noteq> 0 then creat_uninsert semnum result (upd_semfs (semfs_dents_update (\<lambda>l. l[empty := None])) s)
                                  else
                                    kbind (get_sem semnum s) (\<lambda>x. kbind (deref_sem x) (\<lambda>sem.
                                      Ok (0, vn, set_sem semnum (Some (sem\<lparr>sems_linked := True\<rparr>)) s)))))"

definition semfs_remove :: "ptr \<Rightarrow> byte list \<Rightarrow> ssys \<Rightarrow> (int \<times> ssys) kres" where
  "semfs_remove dirvn name s =
     (if dot_name name then Ok (EINVAL, s)
      else
        case find_dent name 0 (semfs_dents (fs_world s)) of
          None \<Rightarrow> Ok (ENOENT, s)
        | Some (i, d) \<Rightarrow>
            kbind (get_sem (semd_semnum d) s) (\<lambda>x. kbind (deref_sem x) (\<lambda>sem. kassert (sems_linked sem)
              (let s = set_sem (semd_semnum d) (if sems_hasvnode sem then Some (sem\<lparr>sems_linked := False\<rparr>) else None) s
               in Ok (0, upd_semfs (semfs_dents_update (\<lambda>l. l[i := None])) s)))))"

text \<open>
  \<open>nameaddr\<close> gives the address of the name of an entry. The offset counts entries here, but \<open>uiomove\<close> adds
  the number of bytes to it.
\<close>

definition semfs_getdirentry :: "ucopy \<Rightarrow> (nat \<Rightarrow> vaddr) \<Rightarrow> uio \<Rightarrow> kmem \<Rightarrow> ssys \<Rightarrow> (int \<times> uio \<times> kmem) kres" where
  "semfs_getdirentry uc nameaddr u m s =
     kassert (uio_offset u \<ge> 0)
       (let pos = nat (uio_offset u mod 2 ^ 32); dents = semfs_dents (fs_world s)
        in if pos \<ge> length dents then Ok (0, u, m)
           else case dents ! pos of None \<Rightarrow> Fail NullDeref | Some d \<Rightarrow> uiomove uc (nameaddr pos) (length (semd_name d)) u m)"

definition semfs_namefile :: "ptr \<Rightarrow> uio \<Rightarrow> ssys \<Rightarrow> (int \<times> uio \<times> ssys) kres" where
  "semfs_namefile vn u s = Ok (0, u, s)"

section \<open>Operations on semaphores\<close>

datatype wake = Nobody | One | Everybody

definition semfs_wakeup :: "semfs_sem \<Rightarrow> 32 word \<Rightarrow> wake" where
  "semfs_wakeup sem newcount = (if sems_count sem > 0 \<or> newcount = 0 then Nobody else if newcount = 1 then One else Everybody)"

text \<open>
  \<open>semfs_read\<close> from when it gets the lock of the semaphore to when it gives it up, at the end (\<open>True\<close>) or to
  wait on the condition variable (\<open>False\<close>); after a wake-up it starts again with what is left.
\<close>

definition semfs_read :: "uio \<Rightarrow> semfs_sem \<Rightarrow> bool \<times> uio \<times> semfs_sem" where
  "semfs_read u sem =
     (if uio_resid u = 0 then (True, u, sem)
      else
        let consume = min (uio_resid u) (unat (sems_count sem));
            u = u\<lparr>uio_offset := uio_offset u + int consume, uio_resid := uio_resid u - consume\<rparr>;
            sem = sem\<lparr>sems_count := sems_count sem - of_nat consume\<rparr>
        in (uio_resid u = 0, u, sem))"

definition semfs_write :: "uio \<Rightarrow> semfs_sem \<Rightarrow> int \<times> uio \<times> semfs_sem \<times> wake" where
  "semfs_write u sem =
     (if uio_resid u = 0 then (0, u, sem, Nobody)
      else
        let newcount = sems_count sem + of_nat (uio_resid u)
        in if newcount < sems_count sem then (EFBIG, u, sem, Nobody)
           else (0, u\<lparr>uio_offset := uio_offset u + int (uio_resid u), uio_resid := 0\<rparr>, sem\<lparr>sems_count := newcount\<rparr>, semfs_wakeup sem newcount))"

definition truncate_sem :: "int \<Rightarrow> semfs_sem \<Rightarrow> int \<times> semfs_sem \<times> wake" where
  "truncate_sem len sem =
     (if len < 0 then (EINVAL, sem, Nobody)
      else if len > 0xffffffff then (EFBIG, sem, Nobody)
      else (0, sem\<lparr>sems_count := word_of_int len\<rparr>, semfs_wakeup sem (word_of_int len)))"

definition semfs_truncate :: "ptr \<Rightarrow> int \<Rightarrow> ssys \<Rightarrow> (int \<times> ssys) kres" where
  "semfs_truncate vn len s =
     (if len < 0 then Ok (EINVAL, s)
      else if len > 0xffffffff then Ok (EFBIG, s)
      else
        let n = semv_semnum (fs_world s) vn
        in kbind (get_sem n s) (\<lambda>x. kbind (deref_sem x) (\<lambda>sem.
             let (result, sem, w) = truncate_sem len sem in Ok (result, set_sem n (Some sem) s))))"

definition semfs_semstat :: "ptr \<Rightarrow> ssys \<Rightarrow> (stat_buf \<times> 32 word) kres" where
  "semfs_semstat vn s =
     (let n = semv_semnum (fs_world s) vn
      in kbind (get_sem n s) (\<lambda>x. kbind (deref_sem x) (\<lambda>sem.
           Ok (\<lparr>stat_buf.st_size = uint (sems_count sem), st_blksize = 0, stat_buf.st_mode = S_IFREG OR 0x1b6, stat_buf.st_nlink = (if sems_linked sem then 1 else 0),
                st_blocks = 0, st_dev = 0, st_rdev = 0\<rparr>, n))))"

text \<open>The mode of the directory is the decimal number 1777, as in the source.\<close>

definition semfs_dirstat :: "ssys \<Rightarrow> stat_buf \<times> 32 word" where
  "semfs_dirstat s =
     (\<lparr>stat_buf.st_size = int (length (semfs_dents (fs_world s))), st_blksize = 0, stat_buf.st_mode = S_IFDIR OR 1777, stat_buf.st_nlink = 2, st_blocks = 0, st_dev = 0, st_rdev = 0\<rparr>,
      SEMFS_ROOTDIR)"

definition semfs_eachopen :: "ptr \<Rightarrow> int \<Rightarrow> ssys \<Rightarrow> (int \<times> ssys) kres" where
  "semfs_eachopen vn openflags s =
     (if semv_semnum (fs_world s) vn = SEMFS_ROOTDIR
      then (if openflags AND O_ACCMODE \<noteq> O_RDONLY then Ok (EISDIR, s) else if openflags AND O_APPEND \<noteq> 0 then Ok (EISDIR, s) else Ok (0, s))
      else Ok (0, s))"

definition semfs_ioctl :: "ptr \<Rightarrow> int \<Rightarrow> ssys \<Rightarrow> (int \<times> ssys) kres" where
  "semfs_ioctl vn cmd s = Ok (EINVAL, s)"

definition semfs_gettype :: "ptr \<Rightarrow> ssys \<Rightarrow> (int \<times> 32 word \<times> ssys) kres" where
  "semfs_gettype vn s = Ok (0, if semv_semnum (fs_world s) vn = SEMFS_ROOTDIR then S_IFDIR else S_IFREG, s)"

definition semfs_isseekable :: "ptr \<Rightarrow> ssys \<Rightarrow> bool" where
  "semfs_isseekable vn s \<longleftrightarrow> semv_semnum (fs_world s) vn = SEMFS_ROOTDIR"

definition semfs_fsync :: "ptr \<Rightarrow> ssys \<Rightarrow> (int \<times> ssys) kres" where
  "semfs_fsync vn s = Ok (0, s)"

section \<open>The file system as a whole\<close>

definition semfs_sync :: "ptr \<Rightarrow> ssys \<Rightarrow> (int \<times> ssys) kres" where
  "semfs_sync fs s = Ok (0, s)"

definition semfs_getvolname :: "ptr \<Rightarrow> ssys \<Rightarrow> byte list option" where
  "semfs_getvolname fs s = Some [115, 101, 109]"

definition semfs_getroot :: "ptr \<Rightarrow> ssys \<Rightarrow> (int \<times> ptr \<times> ssys) kres" where
  "semfs_getroot fs s = kbind (semfs_getvnode SEMFS_ROOTDIR s) (\<lambda>(result, vn, s). if result \<noteq> 0 then Ok (result, NULL, s) else Ok (0, vn, s))"

text \<open>The destructors of semaphores and directory entries follow their pointers.\<close>

definition semfs_destroy :: "ssys \<Rightarrow> ssys kres" where
  "semfs_destroy s =
     (if None \<in> set (semfs_sems (fs_world s)) \<or> None \<in> set (semfs_dents (fs_world s)) then Fail NullDeref
      else kassert (semfs_vnodes (fs_world s) = []) (Ok (upd_semfs (\<lambda>w. w\<lparr>semfs_sems := [], semfs_dents := []\<rparr>) s)))"

definition semfs_unmount :: "ptr \<Rightarrow> ssys \<Rightarrow> (int \<times> ssys) kres" where
  "semfs_unmount fs s =
     (if length (semfs_vnodes (fs_world s)) > 0 then Ok (EBUSY, s) else kbind (semfs_destroy s) (\<lambda>s. Ok (0, s)))"

definition semfs_fsops :: "ssys fs_ops" where
  "semfs_fsops = \<lparr>fsop_sync = semfs_sync, fsop_getvolname = semfs_getvolname, fsop_getroot = semfs_getroot, fsop_unmount = semfs_unmount\<rparr>"

text \<open>\<open>fs\<close> is the address of the new object; its arrays are empty.\<close>

definition semfs_create :: "ptr \<Rightarrow> ssys \<Rightarrow> (ptr \<times> ssys)" where
  "semfs_create fs s =
     (let (a, s) = ask s; (b, s) = ask s; (c, s) = ask s; (d, s) = ask s; (e, s) = ask s
      in if fs = NULL \<or> \<not> (a \<and> b \<and> c \<and> d \<and> e) then (NULL, s)
         else (fs, upd_semfs (\<lambda>w. w\<lparr>semfs_absfs := fs, semfs_vnodes := [], semfs_sems := [], semfs_dents := []\<rparr>) s))"

definition semfs_bootstrap :: "ptr \<Rightarrow> doadd_mem \<Rightarrow> ssys \<Rightarrow> ssys kres" where
  "semfs_bootstrap fs m s =
     (let (f, s) = semfs_create fs s
      in if f = NULL then Fail (Panic ''Out of memory creating semfs'')
         else kbind (vfs_addfs semfs_fsops m [115, 101, 109] f s) (\<lambda>(result, s). if result \<noteq> 0 then Fail (Panic ''Attaching semfs'') else Ok s))"

text \<open>
  The operations of a vnode, chosen by its kind: a device (\<open>dev_vnode_ops\<close>, for the disk \<open>D\<close> of the vnode), the
  directory (\<open>semfs_dirops\<close>) or a semaphore (\<open>semfs_semops\<close>).
\<close>

definition by_kind :: "ptr \<Rightarrow> ssys \<Rightarrow> 'a \<Rightarrow> 'a \<Rightarrow> 'a \<Rightarrow> 'a" where
  "by_kind v s dev dir sem = (if v_fs s v = NULL then dev else if semv_semnum (fs_world s) v = SEMFS_ROOTDIR then dir else sem)"

definition dev_reclaim :: "ptr \<Rightarrow> 's \<Rightarrow> (int \<times> 's) kres" where
  "dev_reclaim v s = Ok (0, s)"

definition dev_find :: "ptr \<Rightarrow> byte list \<Rightarrow> ssys \<Rightarrow> (int \<times> ptr \<times> ssys) kres" where
  "dev_find dir pathname s = (if length pathname > 0 then Ok (ENOENT, NULL, s) else kbind (incref dir s) (\<lambda>s. Ok (0, dir, s)))"

definition vnode_table :: "(ptr \<Rightarrow> lhd_softc) \<Rightarrow> ssys vnode_ops" where
  "vnode_table D = \<lparr>
     vop_eachopen = (\<lambda>v f s. by_kind v s (Ok (dev_eachopen (D v) f, s)) (semfs_eachopen v f s) (semfs_eachopen v f s)),
     vop_reclaim = (\<lambda>v s. by_kind v s (dev_reclaim v s) (semfs_reclaim v s) (semfs_reclaim v s)),
     vop_readlink = (\<lambda>v u s. by_kind v s (vopfail_uio_inval v u s) (vopfail_uio_isdir v u s) (vopfail_uio_inval v u s)),
     vop_gettype = (\<lambda>v s. by_kind v s (Ok (0, dev_gettype (D v), s)) (semfs_gettype v s) (semfs_gettype v s)),
     vop_truncate = (\<lambda>v len s. by_kind v s (Ok (dev_truncate (D v) len, s)) (vopfail_truncate_isdir v len s) (semfs_truncate v len s)),
     vop_creat = (\<lambda>v n x s. by_kind v s (vopfail_creat_notdir v n x s) (semfs_creat v n x s) (vopfail_creat_notdir v n x s)),
     vop_symlink = (\<lambda>v a b s. by_kind v s (vopfail_symlink_notdir v a b s) (vopfail_symlink_nosys v a b s) (vopfail_symlink_notdir v a b s)),
     vop_mkdir = (\<lambda>v n s. by_kind v s (vopfail_mkdir_notdir v n s) (vopfail_mkdir_nosys v n s) (vopfail_mkdir_notdir v n s)),
     vop_link = (\<lambda>v n w s. by_kind v s (vopfail_link_notdir v n w s) (vopfail_link_nosys v n w s) (vopfail_link_notdir v n w s)),
     vop_remove = (\<lambda>v n s. by_kind v s (vopfail_string_notdir v n s) (semfs_remove v n s) (vopfail_string_notdir v n s)),
     vop_rmdir = (\<lambda>v n s. by_kind v s (vopfail_string_notdir v n s) (vopfail_string_nosys v n s) (vopfail_string_notdir v n s)),
     vop_rename = (\<lambda>v n w m s. by_kind v s (vopfail_rename_notdir v n w m s) (vopfail_rename_nosys v n w m s) (vopfail_rename_notdir v n w m s)),
     vop_lookup = (\<lambda>v p s. by_kind v s (dev_find v p s) (semfs_lookup v p s) (vopfail_lookup_notdir v p s)),
     vop_lookparent = (\<lambda>v p n s. by_kind v s (vopfail_lookparent_notdir v p n s) (semfs_lookparent v p n s) (vopfail_lookparent_notdir v p n s))\<rparr>"

section \<open>The null device\<close>

definition nullopen :: "int \<Rightarrow> int" where "nullopen openflags = 0"

definition nullio :: "uio \<Rightarrow> int \<times> uio" where
  "nullio u = (0, if uio_dir u = UIO_WRITE then u\<lparr>uio_resid := 0\<rparr> else u)"

definition nullioctl :: "int \<Rightarrow> int" where "nullioctl cmd = EINVAL"

text \<open>\<open>dev\<close> is the address of the new device.\<close>

definition devnull_create :: "ptr \<Rightarrow> doadd_mem \<Rightarrow> ssys \<Rightarrow> ssys kres" where
  "devnull_create dev m s =
     (if dev = NULL then Fail (Panic ''Could not add null device: out of memory'')
      else kbind (vfs_adddev semfs_fsops m [110, 117, 108, 108] dev False s) (\<lambda>(result, s).
             if result \<noteq> 0 then Fail (Panic ''Could not add null device'') else Ok s))"

definition vfs_bootstrap :: "bool \<Rightarrow> bool \<Rightarrow> ptr \<Rightarrow> doadd_mem \<Rightarrow> ptr \<Rightarrow> doadd_mem \<Rightarrow> ssys \<Rightarrow> ssys kres" where
  "vfs_bootstrap array_ok lock_ok dev m1 fs m2 s =
     (if \<not> array_ok then Fail (Panic ''vfs: Could not create knowndevs array'')
      else if \<not> lock_ok then Fail (Panic ''vfs: Could not create vfs big lock'')
      else kbind (devnull_create dev m1 (s\<lparr>knowndevs := [], biglock_depth := 0\<rparr>)) (semfs_bootstrap fs m2))"

end
