(* ===== verification/Semfs_Spec.thy ===== *)
theory Semfs_Spec
  imports Semfs
begin

text \<open>
  The invariant of the semaphore file system couples its vnodes, semaphores and directory entries: a
  semaphore exists as long as it has a name or a vnode, and the flags in it say which. The operations keep it and count
  references as the VFS layer demands, so that the semaphore file system with the devices interprets the
  contract \<open>file_systems\<close>, with the one case in which \<open>semfs_creat\<close> breaks it. From that follow the accounts of references from
  the start of the system on; the last section is about the table of devices with this file system.
\<close>

section \<open>The invariant\<close>

definition at :: "'a option list \<Rightarrow> nat \<Rightarrow> 'a option" where
  "at l n = (if n < length l then l ! n else None)"

lemma at_update [simp]: "at (l[k := x]) n = (if n = k \<and> k < length l then x else at l n)"
  by (auto simp: at_def)

lemma at_append [simp]: "at (l @ [x]) n = (if n = length l then x else at l n)"
  by (auto simp: at_def nth_append)

lemma at_Cons: "at (x # l) n = (if n = 0 then x else at l (n - 1))"
  by (cases n) (auto simp: at_def)

lemma at_bound: "at l n = Some x \<Longrightarrow> n < length l"
  by (simp add: at_def split: if_splits)

text \<open>
  Vnodes: which vnodes exist, given the set of live vnodes and their file systems, and that the semaphores know
  it. \<open>q\<close> says whether \<open>kmalloc\<close> may fail to give memory for a directory entry.
\<close>

definition vinv :: "ptr \<Rightarrow> bool \<Rightarrow> ptr set \<Rightarrow> (ptr \<Rightarrow> ptr) \<Rightarrow> semfs \<Rightarrow> bool" where
  "vinv fs q L vf w \<longleftrightarrow>
     fs \<noteq> NULL \<and> semfs_absfs w = fs \<and> distinct (semfs_vnodes w) \<and> NULL \<notin> set (semfs_vnodes w) \<and>
     (\<forall>v \<in> set (semfs_vnodes w). v \<in> L \<and> vf v = fs) \<and> (\<forall>v \<in> L. vf v \<noteq> NULL \<longrightarrow> v \<in> set (semfs_vnodes w)) \<and>
     inj_on (semv_semnum w) (set (semfs_vnodes w)) \<and>
     (\<forall>v \<in> set (semfs_vnodes w). semv_semnum w v \<noteq> SEMFS_ROOTDIR \<longrightarrow> (\<exists>sem. at (semfs_sems w) (unat (semv_semnum w v)) = Some sem \<and> sems_hasvnode sem)) \<and>
     (\<forall>n sem. at (semfs_sems w) n = Some sem \<and> sems_hasvnode sem \<longrightarrow>
        (\<exists>v \<in> set (semfs_vnodes w). semv_semnum w v \<noteq> SEMFS_ROOTDIR \<and> unat (semv_semnum w v) = n)) \<and>
     length (semfs_sems w) \<le> unat SEMFS_ROOTDIR \<and> (False \<in> set (dent_answers w) \<longrightarrow> q)"

definition live :: "ssys \<Rightarrow> ptr set" where
  "live s = {v. v_refcount s v > 0}"

definition vnodes_inv :: "ptr \<Rightarrow> bool \<Rightarrow> ssys \<Rightarrow> bool" where
  "vnodes_inv fs q s \<longleftrightarrow> (\<forall>v. v_refcount s v \<ge> 0) \<and> vinv fs q (live s) (v_fs s) (fs_world s)"

lemma vinvD:
  assumes "vinv fs q L vf w"
  shows "fs \<noteq> NULL" "semfs_absfs w = fs" "distinct (semfs_vnodes w)" "NULL \<notin> set (semfs_vnodes w)"
    "v \<in> set (semfs_vnodes w) \<Longrightarrow> v \<in> L" "v \<in> set (semfs_vnodes w) \<Longrightarrow> vf v = fs" "v \<in> L \<Longrightarrow> vf v \<noteq> NULL \<Longrightarrow> v \<in> set (semfs_vnodes w)"
    "inj_on (semv_semnum w) (set (semfs_vnodes w))"
    "v \<in> set (semfs_vnodes w) \<Longrightarrow> semv_semnum w v \<noteq> SEMFS_ROOTDIR \<Longrightarrow> \<exists>sem. at (semfs_sems w) (unat (semv_semnum w v)) = Some sem \<and> sems_hasvnode sem"
    "at (semfs_sems w) n = Some sem \<Longrightarrow> sems_hasvnode sem \<Longrightarrow> \<exists>v \<in> set (semfs_vnodes w). semv_semnum w v \<noteq> SEMFS_ROOTDIR \<and> unat (semv_semnum w v) = n"
    "length (semfs_sems w) \<le> unat SEMFS_ROOTDIR" "False \<in> set (dent_answers w) \<Longrightarrow> q"
  using assms unfolding vinv_def by blast+

lemma vinvI:
  assumes "fs \<noteq> NULL" "semfs_absfs w = fs" "distinct (semfs_vnodes w)" "NULL \<notin> set (semfs_vnodes w)"
    "\<And>v. v \<in> set (semfs_vnodes w) \<Longrightarrow> v \<in> L" "\<And>v. v \<in> set (semfs_vnodes w) \<Longrightarrow> vf v = fs" "\<And>v. v \<in> L \<Longrightarrow> vf v \<noteq> NULL \<Longrightarrow> v \<in> set (semfs_vnodes w)"
    "inj_on (semv_semnum w) (set (semfs_vnodes w))"
    "\<And>v. v \<in> set (semfs_vnodes w) \<Longrightarrow> semv_semnum w v \<noteq> SEMFS_ROOTDIR \<Longrightarrow> \<exists>sem. at (semfs_sems w) (unat (semv_semnum w v)) = Some sem \<and> sems_hasvnode sem"
    "\<And>n sem. at (semfs_sems w) n = Some sem \<Longrightarrow> sems_hasvnode sem \<Longrightarrow>
       \<exists>v \<in> set (semfs_vnodes w). semv_semnum w v \<noteq> SEMFS_ROOTDIR \<and> unat (semv_semnum w v) = n"
    "length (semfs_sems w) \<le> unat SEMFS_ROOTDIR" "False \<in> set (dent_answers w) \<Longrightarrow> q"
  shows "vinv fs q L vf w"
  unfolding vinv_def using assms by blast

text \<open>Names: which semaphores have one.\<close>

definition names_inv :: "semfs \<Rightarrow> bool" where
  "names_inv w \<longleftrightarrow>
     (\<forall>n sem. at (semfs_sems w) n = Some sem \<longrightarrow>
        (sems_linked sem \<longleftrightarrow> (\<exists>i d. at (semfs_dents w) i = Some d \<and> unat (semd_semnum d) = n)) \<and> (sems_hasvnode sem \<or> sems_linked sem)) \<and>
     (\<forall>i d. at (semfs_dents w) i = Some d \<longrightarrow> at (semfs_sems w) (unat (semd_semnum d)) \<noteq> None) \<and>
     (\<forall>i j d e. at (semfs_dents w) i = Some d \<and> at (semfs_dents w) j = Some e \<and> (semd_semnum d = semd_semnum e \<or> semd_name d = semd_name e) \<longrightarrow> i = j)"

definition semfs_inv :: "ptr \<Rightarrow> bool \<Rightarrow> ssys \<Rightarrow> bool" where
  "semfs_inv fs q s \<longleftrightarrow> v_refcount s NULL = 0 \<and> vnodes_inv fs q s \<and> names_inv (fs_world s)"

lemma vnodes_count:
  assumes "vnodes_inv fs q s" "v_refcount s v > 0" "k > 0"
  shows "vnodes_inv fs q (s\<lparr>v_refcount := (v_refcount s)(v := k)\<rparr>)"
proof -
  have "live (s\<lparr>v_refcount := (v_refcount s)(v := k)\<rparr>) = live s" using assms(2,3) by (auto simp: live_def)
  then show ?thesis using assms(1,3) by (simp add: vnodes_inv_def)
qed

lemma upd_semfs_simps [simp]:
  "v_refcount (upd_semfs f s) = v_refcount s" "v_fs (upd_semfs f s) = v_fs s" "fs_world (upd_semfs f s) = f (fs_world s)"
  "knowndevs (upd_semfs f s) = knowndevs s" "biglock_depth (upd_semfs f s) = biglock_depth s" "bootfs_vnode (upd_semfs f s) = bootfs_vnode s"
  "cwd (upd_semfs f s) = cwd s" "d_devnumber (upd_semfs f s) = d_devnumber s"
  by (simp_all add: upd_semfs_def)

text \<open>What the answers of \<open>kmalloc\<close> change.\<close>

lemma ask_cases:
  obtains ok bs where "ask s = (ok, upd_semfs (answers_update (\<lambda>_. bs)) s)"
proof (cases "answers (fs_world s)")
  case Nil
  then have "ask s = (False, upd_semfs (answers_update (\<lambda>_. [])) s)" by (simp add: ask_def upd_semfs_def)
  then show ?thesis using that by blast
next
  case (Cons b bs)
  then show ?thesis using that by (simp add: ask_def)
qed

lemma upd_semfs_same: "same s (upd_semfs f s)"
  by (simp add: same_def kept_def)

lemma answers_inv [simp]: "vnodes_inv fs q (upd_semfs (answers_update f) s) = vnodes_inv fs q s" "names_inv (answers_update f w) = names_inv w"
  by (simp_all add: vnodes_inv_def vinv_def names_inv_def live_def)

section \<open>Getting a vnode\<close>

text \<open>The directory is as before, and at most the semaphore \<open>n\<close> has learnt that it has a vnode.\<close>

definition got :: "32 word \<Rightarrow> semfs \<Rightarrow> semfs \<Rightarrow> bool" where
  "got n w w' \<longleftrightarrow> semfs_dents w' = semfs_dents w \<and>
     (semfs_sems w' = semfs_sems w \<or>
      (\<exists>sem. at (semfs_sems w) (unat n) = Some sem \<and> semfs_sems w' = (semfs_sems w)[unat n := Some (sem\<lparr>sems_hasvnode := True\<rparr>)]))"

text \<open>The three parts of \<open>names_inv\<close>.\<close>

lemma namesD:
  assumes "names_inv w"
  shows "at (semfs_sems w) n = Some sem \<Longrightarrow> sems_linked sem \<longleftrightarrow> (\<exists>i d. at (semfs_dents w) i = Some d \<and> unat (semd_semnum d) = n)"
    "at (semfs_sems w) n = Some sem \<Longrightarrow> sems_hasvnode sem \<or> sems_linked sem"
    "at (semfs_dents w) i = Some d \<Longrightarrow> \<exists>sem. at (semfs_sems w) (unat (semd_semnum d)) = Some sem"
    "at (semfs_dents w) i = Some d \<Longrightarrow> at (semfs_dents w) j = Some e \<Longrightarrow> semd_semnum d = semd_semnum e \<or> semd_name d = semd_name e \<Longrightarrow> i = j"
  using assms unfolding names_inv_def by blast+

lemma namesI:
  assumes "\<And>n sem. at (semfs_sems w) n = Some sem \<Longrightarrow> sems_linked sem \<longleftrightarrow> (\<exists>i d. at (semfs_dents w) i = Some d \<and> unat (semd_semnum d) = n)"
    "\<And>n sem. at (semfs_sems w) n = Some sem \<Longrightarrow> sems_hasvnode sem \<or> sems_linked sem"
    "\<And>i d. at (semfs_dents w) i = Some d \<Longrightarrow> \<exists>sem. at (semfs_sems w) (unat (semd_semnum d)) = Some sem"
    "\<And>i j d e. at (semfs_dents w) i = Some d \<Longrightarrow> at (semfs_dents w) j = Some e \<Longrightarrow> semd_semnum d = semd_semnum e \<or> semd_name d = semd_name e \<Longrightarrow> i = j"
  shows "names_inv w"
proof -
  have 1: "\<forall>n sem. at (semfs_sems w) n = Some sem \<longrightarrow>
        (sems_linked sem \<longleftrightarrow> (\<exists>i d. at (semfs_dents w) i = Some d \<and> unat (semd_semnum d) = n)) \<and> (sems_hasvnode sem \<or> sems_linked sem)"
    using assms(1,2) by blast
  have 2: "\<forall>i d. at (semfs_dents w) i = Some d \<longrightarrow> at (semfs_sems w) (unat (semd_semnum d)) \<noteq> None" using assms(3) by blast
  have 3: "\<forall>i j d e. at (semfs_dents w) i = Some d \<and> at (semfs_dents w) j = Some e \<and> (semd_semnum d = semd_semnum e \<or> semd_name d = semd_name e) \<longrightarrow> i = j"
    using assms(4) by blast
  show ?thesis unfolding names_inv_def using 1 2 3 by blast
qed

lemma got_names:
  assumes "got n w w'" "names_inv w"
  shows "names_inv w'"
proof (cases "semfs_sems w' = semfs_sems w")
  case True
  have d: "semfs_dents w' = semfs_dents w" using assms(1) by (simp add: got_def)
  show ?thesis using assms(2) unfolding names_inv_def True d .
next
  case False
  then obtain sem where sem: "at (semfs_sems w) (unat n) = Some sem" "semfs_sems w' = (semfs_sems w)[unat n := Some (sem\<lparr>sems_hasvnode := True\<rparr>)]"
      "semfs_dents w' = semfs_dents w" using assms(1) by (auto simp: got_def)
  have a: "at (semfs_sems w') k = (if k = unat n then Some (sem\<lparr>sems_hasvnode := True\<rparr>) else at (semfs_sems w) k)" for k
    using sem at_bound [OF sem(1)] by simp
  show ?thesis
  proof (rule namesI)
    fix k x
    assume "at (semfs_sems w') k = Some x"
    then obtain y where y: "at (semfs_sems w) k = Some y" "sems_linked x = sems_linked y" "sems_hasvnode y \<longrightarrow> sems_hasvnode x"
      using sem(1) unfolding a by (auto split: if_splits)
    show "sems_linked x \<longleftrightarrow> (\<exists>i d. at (semfs_dents w') i = Some d \<and> unat (semd_semnum d) = k)" using namesD(1) [OF assms(2) y(1)] y(2) sem(3) by simp
    show "sems_hasvnode x \<or> sems_linked x" using namesD(2) [OF assms(2) y(1)] y(2,3) by blast
  next
    fix i d
    assume "at (semfs_dents w') i = Some d"
    then show "\<exists>x. at (semfs_sems w') (unat (semd_semnum d)) = Some x" using namesD(3) [OF assms(2), of i d] sem(3) unfolding a by auto
  next
    fix i j d e
    assume "at (semfs_dents w') i = Some d" "at (semfs_dents w') j = Some e" "semd_semnum d = semd_semnum e \<or> semd_name d = semd_name e"
    then show "i = j" using namesD(4) [OF assms(2), of i d j e] sem(3) by simp
  qed
qed

lemma vinv_new:
  assumes I: "vinv fs q L vf w" and v: "v \<noteq> NULL" "v \<notin> L"
    and n: "n \<notin> semv_semnum w ` set (semfs_vnodes w)" "n \<noteq> SEMFS_ROOTDIR \<Longrightarrow> at (semfs_sems w) (unat n) = Some sem"
  defines "sems \<equiv> (if n = SEMFS_ROOTDIR then semfs_sems w else (semfs_sems w)[unat n := Some (sem\<lparr>sems_hasvnode := True\<rparr>)])"
  shows "vinv fs q (insert v L) (vf(v := fs)) (w\<lparr>semfs_vnodes := semfs_vnodes w @ [v], semv_semnum := (semv_semnum w)(v := n),
       semfs_sems := sems, new_vnodes := vs, answers := a\<rparr>)"
proof (rule vinvI)
  note D = vinvD [OF I]
  let ?V = "set (semfs_vnodes w)" and ?n = "(semv_semnum w)(v := n)"
  have at: "at sems k = (if k = unat n \<and> n \<noteq> SEMFS_ROOTDIR then Some (sem\<lparr>sems_hasvnode := True\<rparr>) else at (semfs_sems w) k)" for k
    using n(2) at_bound [of "semfs_sems w" "unat n" sem] by (auto simp: sems_def)
  have vV: "v \<notin> ?V" using D(5) v(2) by blast
  have ne: "semv_semnum w x \<noteq> n \<and> unat (semv_semnum w x) \<noteq> unat n" if "x \<in> ?V" for x
  proof -
    have "semv_semnum w x \<noteq> n" using n(1) that by auto
    then show ?thesis by (simp add: word_unat_eq_iff)
  qed
  let ?w = "w\<lparr>semfs_vnodes := semfs_vnodes w @ [v], semv_semnum := ?n, semfs_sems := sems, new_vnodes := vs, answers := a\<rparr>"
  show "fs \<noteq> NULL" "semfs_absfs ?w = fs" "NULL \<notin> set (semfs_vnodes ?w)" "False \<in> set (dent_answers ?w) \<Longrightarrow> q" using D(1,2,4,12) v(1) by simp_all
  show "distinct (semfs_vnodes ?w)" using D(3) vV by simp
  show "length (semfs_sems ?w) \<le> unat SEMFS_ROOTDIR" using D(11) by (simp add: sems_def)
  show "x \<in> set (semfs_vnodes ?w) \<Longrightarrow> x \<in> insert v L" for x using D(5) by auto
  show "x \<in> set (semfs_vnodes ?w) \<Longrightarrow> (vf(v := fs)) x = fs" for x using D(6) by auto
  show "x \<in> insert v L \<Longrightarrow> (vf(v := fs)) x \<noteq> NULL \<Longrightarrow> x \<in> set (semfs_vnodes ?w)" for x using D(7) by (auto split: if_splits)
  show "inj_on (semv_semnum ?w) (set (semfs_vnodes ?w))" using D(8) vV ne by (auto simp: inj_on_def)
  show "\<exists>y. at (semfs_sems ?w) (unat (semv_semnum ?w x)) = Some y \<and> sems_hasvnode y"
    if "x \<in> set (semfs_vnodes ?w)" "semv_semnum ?w x \<noteq> SEMFS_ROOTDIR" for x
    using D(9) [of x] ne [of x] that by (cases "x = v") (auto simp: at)
  show "\<exists>x \<in> set (semfs_vnodes ?w). semv_semnum ?w x \<noteq> SEMFS_ROOTDIR \<and> unat (semv_semnum ?w x) = k"
    if h: "at (semfs_sems ?w) k = Some y" "sems_hasvnode y" for k y
  proof (cases "k = unat n \<and> n \<noteq> SEMFS_ROOTDIR")
    case False
    then have "at (semfs_sems w) k = Some y" using h(1) by (simp add: at split: if_splits)
    from D(10) [OF this h(2)] obtain x where "x \<in> ?V" "semv_semnum w x \<noteq> SEMFS_ROOTDIR" "unat (semv_semnum w x) = k" by blast
    then show ?thesis using vV by (intro bexI [of _ x]) auto
  qed auto
qed

text \<open>Addresses of dead vnodes do not matter.\<close>

lemma vinv_dead:
  assumes I: "vinv fs q L vf w" and v: "v \<notin> L"
  shows "vinv fs q L (vf(v := x)) (w\<lparr>new_vnodes := vs, semv_semnum := (semv_semnum w)(v := n), answers := a\<rparr>)" (is "vinv fs q L _ ?w")
proof (rule vinvI)
  note D = vinvD [OF I]
  have vV: "v \<notin> set (semfs_vnodes w)" using D(5) v by blast
  show "fs \<noteq> NULL" "semfs_absfs ?w = fs" "NULL \<notin> set (semfs_vnodes ?w)" "False \<in> set (dent_answers ?w) \<Longrightarrow> q" "distinct (semfs_vnodes ?w)"
    "length (semfs_sems ?w) \<le> unat SEMFS_ROOTDIR" using D(1,2,3,4,11,12) by simp_all
  show "y \<in> set (semfs_vnodes ?w) \<Longrightarrow> y \<in> L" for y using D(5) by simp
  show "y \<in> set (semfs_vnodes ?w) \<Longrightarrow> (vf(v := x)) y = fs" for y using D(6) vV by auto
  show "y \<in> L \<Longrightarrow> (vf(v := x)) y \<noteq> NULL \<Longrightarrow> y \<in> set (semfs_vnodes ?w)" for y using D(7) v by (auto split: if_splits)
  show "inj_on (semv_semnum ?w) (set (semfs_vnodes ?w))" using D(8) vV by (auto simp: inj_on_def)
  show "\<exists>sem. at (semfs_sems ?w) (unat (semv_semnum ?w y)) = Some sem \<and> sems_hasvnode sem"
    if "y \<in> set (semfs_vnodes ?w)" "semv_semnum ?w y \<noteq> SEMFS_ROOTDIR" for y using D(9) [of y] that vV by (auto split: if_splits)
  show "\<exists>y \<in> set (semfs_vnodes ?w). semv_semnum ?w y \<noteq> SEMFS_ROOTDIR \<and> unat (semv_semnum ?w y) = k"
    if h: "at (semfs_sems ?w) k = Some sem" "sems_hasvnode sem" for k sem
  proof -
    obtain y where "y \<in> set (semfs_vnodes w)" "semv_semnum w y \<noteq> SEMFS_ROOTDIR" "unat (semv_semnum w y) = k" using D(10) [of k sem] h by auto
    then show ?thesis using vV by (intro bexI [of _ y]) auto
  qed
qed

lemma getvnode_ok:
  assumes I: "vnodes_inv fs q s" and n: "n \<noteq> SEMFS_ROOTDIR \<Longrightarrow> at (semfs_sems (fs_world s)) (unat n) = Some sem"
  shows "\<exists>r v t. semfs_getvnode n s = Ok (r, v, t) \<and> vnodes_inv fs q t \<and> given s r v t \<and> got n (fs_world s) (fs_world t)
    \<and> (r = 0 \<longrightarrow> v \<in> set (semfs_vnodes (fs_world t)) \<and> semv_semnum (fs_world t) v = n) \<and> (r \<noteq> 0 \<longrightarrow> semfs_sems (fs_world t) = semfs_sems (fs_world s))
    \<and> dent_answers (fs_world t) = dent_answers (fs_world s)"
proof -
  let ?w = "fs_world s"
  note D = vinvD [OF I [unfolded vnodes_inv_def, THEN conjunct2]]
  have nn: "v_refcount s v \<ge> 0" for v using I by (simp add: vnodes_inv_def)
  show ?thesis
  proof (cases "find (\<lambda>vn. semv_semnum ?w vn = n) (semfs_vnodes ?w)")
    case (Some v)
    then have v: "v \<in> set (semfs_vnodes ?w)" "semv_semnum ?w v = n" by (auto simp: find_Some_iff)
    then have c: "v_refcount s v > 0" "v \<noteq> NULL" using D(4,5) by (auto simp: live_def)
    have "vnodes_inv fs q (more_refs v s)" using vnodes_count [OF I c(1), of "v_refcount s v + 1"] c(1) by (simp add: more_refs_def)
    then show ?thesis using Some c v more_refs_borrowed [OF c(2,1)] by (simp add: semfs_getvnode_def incref_def more_refs_def given_def got_def)
  next
    case None
    then have fresh: "n \<notin> semv_semnum ?w ` set (semfs_vnodes ?w)" by (auto simp: find_None_iff)
    show ?thesis
    proof (cases "dropWhile (\<lambda>v. v_refcount s v > 0) (new_vnodes ?w)")
      case Nil
      have "semfs_vnode_create n s = Ok (NULL, s)" unfolding semfs_vnode_create_def Nil by simp
      then show ?thesis using None I by (simp add: semfs_getvnode_def given_def ENOMEM_def got_def)
    next
      case (Cons v vs)
      note w = Cons
      have "\<not> v_refcount s v > 0" using w by (simp add: dropWhile_eq_Cons_conv)
      then have z: "v \<notin> live s" "v_refcount s v = 0" using nn [of v] by (simp_all add: live_def)
      have dead: "vnodes_inv fs q (s\<lparr>v_fs := (v_fs s)(v := x), fs_world := ?w\<lparr>new_vnodes := vs, semv_semnum := (semv_semnum ?w)(v := m), answers := a\<rparr>\<rparr>)" for x m a
        using vinv_dead [OF I [unfolded vnodes_inv_def, THEN conjunct2] z(1), where x = x and n = m and a = a] I by (simp add: vnodes_inv_def live_def)
      show ?thesis
      proof (cases "v = NULL")
        case True
        let ?t = "s\<lparr>fs_world := ?w\<lparr>new_vnodes := vs\<rparr>\<rparr>"
        have "semfs_getvnode n s = Ok (ENOMEM, NULL, ?t)" using True None w by (simp add: semfs_getvnode_def semfs_vnode_create_def Let_def upd_semfs_def)
        moreover have "vnodes_inv fs q ?t" using dead [where x = "v_fs s v" and m = "semv_semnum ?w v" and a = "answers ?w"] by simp
        moreover have "same s ?t" by (simp add: same_def kept_def)
        ultimately show ?thesis by (simp add: given_def ENOMEM_def got_def)
      next
        case vn: False
      let ?s1 = "s\<lparr>v_refcount := (v_refcount s)(v := 1), v_fs := (v_fs s)(v := fs), fs_world := ?w\<lparr>new_vnodes := vs, semv_semnum := (semv_semnum ?w)(v := n)\<rparr>\<rparr>"
      have c: "semfs_vnode_create n s = Ok (v, ?s1)"
        using w vn D(2) by (simp add: semfs_vnode_create_def vnode_init_def Let_def upd_semfs_def)
      obtain ok bs where ask: "ask ?s1 = (ok, upd_semfs (answers_update (\<lambda>_. bs)) ?s1)" by (rule ask_cases)
      show ?thesis
      proof (cases ok)
        case no: False
        let ?t = "s\<lparr>v_fs := (v_fs s)(v := NULL), fs_world := ?w\<lparr>new_vnodes := vs, semv_semnum := (semv_semnum ?w)(v := n), answers := bs\<rparr>\<rparr>"
        have "semfs_getvnode n s = Ok (ENOMEM, NULL, ?t)"
          using None c ask no vn z(2) by (simp add: semfs_getvnode_def semfs_vnode_destroy_def vnode_cleanup_def upd_semfs_def fun_upd_idem)
        moreover have "vnodes_inv fs q ?t" by (rule dead)
        moreover have "same s ?t" using z(2) by (simp add: same_def kept_def)
        ultimately show ?thesis by (simp add: given_def ENOMEM_def got_def)
      next
        case yes: True
        let ?sems = "if n = SEMFS_ROOTDIR then semfs_sems ?w else (semfs_sems ?w)[unat n := Some (sem\<lparr>sems_hasvnode := True\<rparr>)]"
        let ?t = "s\<lparr>v_refcount := (v_refcount s)(v := 1), v_fs := (v_fs s)(v := fs), fs_world := ?w\<lparr>semfs_vnodes := semfs_vnodes ?w @ [v],
            semv_semnum := (semv_semnum ?w)(v := n), semfs_sems := ?sems, new_vnodes := vs, answers := bs\<rparr>\<rparr>"
        have h: "\<not> sems_hasvnode sem" if "n \<noteq> SEMFS_ROOTDIR"
        proof
          assume "sems_hasvnode sem"
          from D(10) [OF n [OF that] this] obtain x where "x \<in> set (semfs_vnodes ?w)" "unat (semv_semnum ?w x) = unat n" by blast
          then have "x \<in> set (semfs_vnodes ?w)" "semv_semnum ?w x = n" by (simp_all add: word_unat_eq_iff)
          then show False using fresh by auto
        qed
        have "semfs_getvnode n s = Ok (0, v, ?t)"
        proof (cases "n = SEMFS_ROOTDIR")
          case True
          then show ?thesis using None c ask yes vn by (simp add: semfs_getvnode_def upd_semfs_def)
        next
          case False
          then show ?thesis
            using None c ask yes vn n [OF False] h [OF False] at_bound [OF n [OF False]]
            by (simp add: semfs_getvnode_def upd_semfs_def get_sem_def set_sem_def at_def)
        qed
        moreover have "live ?t = insert v (live s)" by (auto simp: live_def)
        then have "vnodes_inv fs q ?t" using I vinv_new [OF I [unfolded vnodes_inv_def, THEN conjunct2] vn z(1) fresh n] by (simp add: vnodes_inv_def)
        moreover have "borrowed s v ?t" using z(2) vn D(1) by (simp add: borrowed_def kept_def)
        ultimately show ?thesis using n by (auto simp: given_def got_def)
      qed
      qed
    qed
  qed
qed

section \<open>Giving a vnode up\<close>

lemma get_sem_at: "at (semfs_sems (fs_world s)) (unat n) = Some x \<Longrightarrow> get_sem n s = Ok (Some x)"
  by (simp add: get_sem_def at_def split: if_splits)

lemma sem_reclaim_ok:
  assumes I: "semfs_inv fs q s" and v: "v_refcount s v = 1" "v_fs s v \<noteq> NULL"
  shows "\<exists>t. semfs_reclaim v s = Ok (0, t) \<and> semfs_inv fs q t \<and> kept s t \<and> v_refcount t = (v_refcount s)(v := 0)"
proof -
  let ?w = "fs_world s" and ?n = "semv_semnum (fs_world s) v"
  have iv: "vinv fs q (live s) (v_fs s) ?w" and nm: "names_inv ?w" using I by (simp_all add: semfs_inv_def vnodes_inv_def)
  note D = vinvD [OF iv]
  have vV: "v \<in> set (semfs_vnodes ?w)" using D(7) [of v] v by (simp add: live_def)
  define sem where "sem = the (at (semfs_sems ?w) (unat ?n))"
  have sem: "at (semfs_sems ?w) (unat ?n) = Some sem" "sems_hasvnode sem" if "?n \<noteq> SEMFS_ROOTDIR" using D(9) [OF vV that] by (auto simp: sem_def)
  let ?x = "if sems_linked sem then Some (sem\<lparr>sems_hasvnode := False\<rparr>) else None"
  let ?sems = "if ?n \<noteq> SEMFS_ROOTDIR then (semfs_sems ?w)[unat ?n := ?x] else semfs_sems ?w"
  let ?w' = "?w\<lparr>semfs_vnodes := remove1 v (semfs_vnodes ?w), semfs_sems := ?sems\<rparr>"
  let ?t = "s\<lparr>v_refcount := (v_refcount s)(v := 0), v_fs := (v_fs s)(v := NULL), fs_world := ?w'\<rparr>"
  have at: "at ?sems k = (if k = unat ?n \<and> ?n \<noteq> SEMFS_ROOTDIR then ?x else at (semfs_sems ?w) k)" for k
    using sem(1) at_bound [of "semfs_sems ?w" "unat ?n" sem] by auto
  have atw: "at (semfs_sems ?w') k = (if k = unat ?n \<and> ?n \<noteq> SEMFS_ROOTDIR then ?x else at (semfs_sems ?w) k)" for k
    using at [of k] by (simp del: at_update)
  have V': "set (semfs_vnodes ?w') = set (semfs_vnodes ?w) - {v}" using D(3) by (simp add: set_remove1_eq)
  have un: "unat (semv_semnum ?w y) \<noteq> unat ?n" if "y \<in> set (semfs_vnodes ?w)" "y \<noteq> v" for y
  proof -
    have "semv_semnum ?w y \<noteq> ?n" using inj_on_eq_iff [OF D(8) that(1) vV] that(2) by simp
    then show ?thesis by (simp add: word_unat_eq_iff)
  qed
  have "semfs_reclaim v s = Ok (0, ?t)"
  proof (cases "?n = SEMFS_ROOTDIR")
    case True
    then show ?thesis using v(1) by (simp add: semfs_reclaim_def semfs_vnode_destroy_def vnode_cleanup_def upd_semfs_def)
  next
    case False
    let ?s1 = "upd_semfs (semfs_vnodes_update (remove1 v)) s"
    have g: "get_sem ?n ?s1 = Ok (Some sem)" by (rule get_sem_at) (simp add: sem(1) [OF False])
    have "semfs_reclaim v s = kbind (semfs_vnode_destroy v (set_sem ?n ?x ?s1)) (\<lambda>s. Ok (0, s))"
      unfolding semfs_reclaim_def Let_def g using False v(1) sem(2) [OF False] by (simp add: deref_sem_def)
    then show ?thesis using False v(1) by (simp add: set_sem_def semfs_vnode_destroy_def vnode_cleanup_def upd_semfs_def)
  qed
  moreover have "vinv fs q (live s - {v}) ((v_fs s)(v := NULL)) ?w'"
  proof (rule vinvI)
    show "fs \<noteq> NULL" "semfs_absfs ?w' = fs" "False \<in> set (dent_answers ?w') \<Longrightarrow> q" "distinct (semfs_vnodes ?w')"
      "length (semfs_sems ?w') \<le> unat SEMFS_ROOTDIR" using D(1,2,3,11,12) by simp_all
    show "NULL \<notin> set (semfs_vnodes ?w')" unfolding V' using D(4) by simp
    show "y \<in> live s - {v}" "((v_fs s)(v := NULL)) y = fs" if "y \<in> set (semfs_vnodes ?w')" for y using D(5,6) [of y] that unfolding V' by simp_all
    show "y \<in> live s - {v} \<Longrightarrow> ((v_fs s)(v := NULL)) y \<noteq> NULL \<Longrightarrow> y \<in> set (semfs_vnodes ?w')" for y unfolding V' using D(7) [of y] by simp
    show "inj_on (semv_semnum ?w') (set (semfs_vnodes ?w'))" unfolding V' using D(8) by (auto intro: inj_on_subset)
    show "\<exists>y. at (semfs_sems ?w') (unat (semv_semnum ?w' u)) = Some y \<and> sems_hasvnode y"
      if "u \<in> set (semfs_vnodes ?w')" "semv_semnum ?w' u \<noteq> SEMFS_ROOTDIR" for u
      using D(9) [of u] un [of u] that unfolding V' by (simp add: at del: at_update)
    show "\<exists>u \<in> set (semfs_vnodes ?w'). semv_semnum ?w' u \<noteq> SEMFS_ROOTDIR \<and> unat (semv_semnum ?w' u) = k"
      if h: "at (semfs_sems ?w') k = Some y" "sems_hasvnode y" for k y
    proof -
      have k: "\<not> (k = unat ?n \<and> ?n \<noteq> SEMFS_ROOTDIR)" "at (semfs_sems ?w) k = Some y"
        using h by (auto simp: at simp del: at_update split: if_splits)
      from D(10) [OF k(2) h(2)] obtain u where "u \<in> set (semfs_vnodes ?w)" "semv_semnum ?w u \<noteq> SEMFS_ROOTDIR" "unat (semv_semnum ?w u) = k" by blast
      then show ?thesis unfolding V' using k(1) by (intro bexI [of _ u]) auto
    qed
  qed
  moreover have "live ?t = live s - {v}" by (auto simp: live_def)
  moreover have "names_inv ?w'"
  proof (rule namesI)
    fix k y
    assume "at (semfs_sems ?w') k = Some y"
    then have "(at (semfs_sems ?w) k = Some y \<and> (k \<noteq> unat ?n \<or> ?n = SEMFS_ROOTDIR)) \<or> (k = unat ?n \<and> ?n \<noteq> SEMFS_ROOTDIR \<and> sems_linked sem \<and> y = sem\<lparr>sems_hasvnode := False\<rparr>)"
      by (auto simp: at simp del: at_update split: if_splits)
    then obtain z where z: "at (semfs_sems ?w) k = Some z" "sems_linked y = sems_linked z" "y = z \<or> sems_linked y" using sem(1) by auto
    show "sems_linked y \<longleftrightarrow> (\<exists>i d. at (semfs_dents ?w') i = Some d \<and> unat (semd_semnum d) = k)" using namesD(1) [OF nm z(1)] z(2) by simp
    show "sems_hasvnode y \<or> sems_linked y" using namesD(2) [OF nm z(1)] z(3) by auto
  next
    fix i d
    assume d: "at (semfs_dents ?w') i = Some d"
    then obtain z where z: "at (semfs_sems ?w) (unat (semd_semnum d)) = Some z" using namesD(3) [OF nm, of i d] by auto
    then have "sems_linked z" using namesD(1) [OF nm z] d by auto
    then show "\<exists>y. at (semfs_sems ?w') (unat (semd_semnum d)) = Some y"
    proof (cases "?n = SEMFS_ROOTDIR")
      case False
      then show ?thesis unfolding atw using z sem(1) [OF False] \<open>sems_linked z\<close> by (cases "unat (semd_semnum d) = unat ?n") simp_all
    qed (use z in \<open>simp add: atw del: at_update\<close>)
  next
    fix i j d e
    assume "at (semfs_dents ?w') i = Some d" "at (semfs_dents ?w') j = Some e" "semd_semnum d = semd_semnum e \<or> semd_name d = semd_name e"
    then show "i = j" using namesD(4) [OF nm, of i d j e] by simp
  qed
  moreover have "kept s ?t" by (auto simp: kept_def)
  ultimately show ?thesis using I by (auto simp: semfs_inv_def vnodes_inv_def)
qed

section \<open>The directory\<close>

lemma find_dent_some: "find_dent name j l = Some (i, d) \<Longrightarrow> j \<le> i \<and> at l (i - j) = Some d \<and> semd_name d = name"
proof (induction name j l rule: find_dent.induct)
  case (2 name j ds)
  then show ?case by (auto simp: at_Cons)
next
  case (3 name j e ds)
  show ?case
  proof (cases "semd_name e = name")
    case False
    then show ?thesis using 3 by (auto simp: at_Cons)
  qed (use 3 in \<open>simp add: at_Cons\<close>)
qed simp

lemma find_dent_none: "find_dent name j l = None \<Longrightarrow> at l i = Some d \<Longrightarrow> semd_name d \<noteq> name"
proof (induction name j l arbitrary: i rule: find_dent.induct)
  case (2 name j ds)
  then show ?case using "2.IH" [of "i - 1"] by (cases i) (auto simp: at_Cons)
next
  case (3 name j e ds)
  then show ?case using "3.IH" [of "i - 1"] by (cases i) (auto simp: at_Cons split: if_splits)
qed (simp add: at_def)

lemma first_none_spec: "first_none l = Some i \<Longrightarrow> i < length l \<and> at l i = None"
  by (induction l arbitrary: i) (auto simp: at_def split: if_splits)

lemma vinv_sems:
  assumes I: "vinv fs q L vf w" and s: "\<And>k. (\<exists>x. at sems k = Some x \<and> sems_hasvnode x) \<longleftrightarrow> (\<exists>x. at (semfs_sems w) k = Some x \<and> sems_hasvnode x)"
    and "length sems \<le> unat SEMFS_ROOTDIR" "set da \<subseteq> set (dent_answers w)"
  shows "vinv fs q L vf (w\<lparr>semfs_sems := sems, semfs_dents := ds, answers := a, dent_answers := da\<rparr>)" (is "vinv _ _ _ _ ?w")
proof (rule vinvI)
  note D = vinvD [OF I]
  show "fs \<noteq> NULL" "semfs_absfs ?w = fs" "distinct (semfs_vnodes ?w)" "NULL \<notin> set (semfs_vnodes ?w)" "inj_on (semv_semnum ?w) (set (semfs_vnodes ?w))"
    "length (semfs_sems ?w) \<le> unat SEMFS_ROOTDIR"
    using D(1,2,3,4,8) assms(3) by simp_all
  show "False \<in> set (dent_answers ?w) \<Longrightarrow> q" using D(12) assms(4) by auto
  show "v \<in> L" "vf v = fs" if "v \<in> set (semfs_vnodes ?w)" for v using D(5,6) [of v] that by simp_all
  show "v \<in> L \<Longrightarrow> vf v \<noteq> NULL \<Longrightarrow> v \<in> set (semfs_vnodes ?w)" for v using D(7) [of v] by simp
  show "\<exists>x. at (semfs_sems ?w) (unat (semv_semnum ?w v)) = Some x \<and> sems_hasvnode x"
    if "v \<in> set (semfs_vnodes ?w)" "semv_semnum ?w v \<noteq> SEMFS_ROOTDIR" for v using D(9) [of v] s [of "unat (semv_semnum w v)"] that by simp
  show "\<exists>v \<in> set (semfs_vnodes ?w). semv_semnum ?w v \<noteq> SEMFS_ROOTDIR \<and> unat (semv_semnum ?w v) = n"
    if h: "at (semfs_sems ?w) n = Some x" "sems_hasvnode x" for n x
  proof -
    obtain y where "at (semfs_sems w) n = Some y" "sems_hasvnode y" using s [of n] h by auto
    then show ?thesis using D(10) [of n y] by simp
  qed
qed

lemma names_cong:
  assumes "names_inv w" "\<And>k. at (semfs_sems w') k = at (semfs_sems w) k" "\<And>k. at (semfs_dents w') k = at (semfs_dents w) k"
  shows "names_inv w'"
  using assms(1) unfolding names_inv_def assms(2,3) .

lemma names_add:
  assumes N: "names_inv w" and fresh: "at (semfs_sems w) (unat n) = None" "at (semfs_dents w) i = None" "\<And>j d. at (semfs_dents w) j = Some d \<Longrightarrow> semd_name d \<noteq> name"
    and S: "\<And>k. at (semfs_sems w') k = (if k = unat n then Some x else at (semfs_sems w) k)" "sems_linked x"
    and Dn: "\<And>k. at (semfs_dents w') k = (if k = i then Some \<lparr>semd_name = name, semd_semnum = n\<rparr> else at (semfs_dents w) k)"
  shows "names_inv w'"
proof (rule namesI)
  have new: "unat (semd_semnum d) \<noteq> unat n" if "at (semfs_dents w) j = Some d" for j d using namesD(3) [OF N that] fresh(1) by auto
  have old: "(\<exists>j d. at (semfs_dents w') j = Some d \<and> unat (semd_semnum d) = k) \<longleftrightarrow> k = unat n \<or> (\<exists>j d. at (semfs_dents w) j = Some d \<and> unat (semd_semnum d) = k)" for k
  proof (cases "k = unat n")
    case True
    have "at (semfs_dents w') i = Some \<lparr>semd_name = name, semd_semnum = n\<rparr>" using Dn by simp
    then have "\<exists>j d. at (semfs_dents w') j = Some d \<and> unat (semd_semnum d) = k" using True by (metis semfs_direntry.select_convs(2))
    then show ?thesis using True by simp
  next
    case False
    have "j \<noteq> i" if "at (semfs_dents w) j = Some d" for j d using that fresh(2) by auto
    then show ?thesis using False unfolding Dn by (auto split: if_splits)
  qed
  show "sems_linked y \<longleftrightarrow> (\<exists>j d. at (semfs_dents w') j = Some d \<and> unat (semd_semnum d) = k)" if "at (semfs_sems w') k = Some y" for k y
    using that S(2) namesD(1) [OF N, of k y] unfolding S(1) old by (auto split: if_splits)
  show "sems_hasvnode y \<or> sems_linked y" if "at (semfs_sems w') k = Some y" for k y
    using that S(2) namesD(2) [OF N, of k y] unfolding S(1) by (auto split: if_splits)
  show "\<exists>y. at (semfs_sems w') (unat (semd_semnum d)) = Some y" if "at (semfs_dents w') j = Some d" for j d
    using that namesD(3) [OF N, of j d] unfolding S(1) Dn by (auto split: if_splits)
  show "j = k" if "at (semfs_dents w') j = Some d" "at (semfs_dents w') k = Some e" "semd_semnum d = semd_semnum e \<or> semd_name d = semd_name e" for j k d e
    using that namesD(4) [OF N, of j d k e] new [of j d] new [of k e] fresh(3) [of j d] fresh(3) [of k e] unfolding Dn by (auto split: if_splits)
qed

lemma names_drop:
  assumes N: "names_inv w" and d: "at (semfs_dents w) i = Some d" "at (semfs_sems w) (unat (semd_semnum d)) = Some sem"
    and S: "\<And>k. at (semfs_sems w') k = (if k = unat (semd_semnum d) then (if sems_hasvnode sem then Some (sem\<lparr>sems_linked := False\<rparr>) else None) else at (semfs_sems w) k)"
    and Dn: "\<And>k. at (semfs_dents w') k = (if k = i then None else at (semfs_dents w) k)"
  shows "names_inv w'"
proof (rule namesI)
  have one: "unat (semd_semnum e) \<noteq> unat (semd_semnum d)" if "at (semfs_dents w) j = Some e" "j \<noteq> i" for j e
  proof -
    have "semd_semnum e \<noteq> semd_semnum d" using namesD(4) [OF N that(1) d(1)] that(2) by auto
    then show ?thesis by (simp add: word_unat_eq_iff)
  qed
  show "sems_linked y \<longleftrightarrow> (\<exists>j e. at (semfs_dents w') j = Some e \<and> unat (semd_semnum e) = k)" if h: "at (semfs_sems w') k = Some y" for k y
  proof (cases "k = unat (semd_semnum d)")
    case True
    then have "\<not> sems_linked y" using h unfolding S by (auto split: if_splits)
    moreover have "\<not> (\<exists>j e. at (semfs_dents w') j = Some e \<and> unat (semd_semnum e) = k)" using one True unfolding Dn by (auto split: if_splits)
    ultimately show ?thesis by simp
  next
    case False
    then have "at (semfs_sems w) k = Some y" using h unfolding S by simp
    moreover have "(\<exists>j e. at (semfs_dents w') j = Some e \<and> unat (semd_semnum e) = k) \<longleftrightarrow> (\<exists>j e. at (semfs_dents w) j = Some e \<and> unat (semd_semnum e) = k)"
    proof
      assume "\<exists>j e. at (semfs_dents w) j = Some e \<and> unat (semd_semnum e) = k"
      then obtain j e where e: "at (semfs_dents w) j = Some e" "unat (semd_semnum e) = k" by blast
      then have "j \<noteq> i" using False d(1) by auto
      then have "at (semfs_dents w') j = Some e" unfolding Dn using e(1) by simp
      then show "\<exists>j e. at (semfs_dents w') j = Some e \<and> unat (semd_semnum e) = k" using e(2) by blast
    qed (auto simp: Dn split: if_splits)
    ultimately show ?thesis using namesD(1) [OF N, of k y] by simp
  qed
  show "sems_hasvnode y \<or> sems_linked y" if "at (semfs_sems w') k = Some y" for k y
    using that namesD(2) [OF N, of k y] unfolding S by (auto split: if_splits)
  show "\<exists>y. at (semfs_sems w') (unat (semd_semnum e)) = Some y" if "at (semfs_dents w') j = Some e" for j e
    using that namesD(3) [OF N, of j e] one [of j e] unfolding S Dn by (auto split: if_splits)
  show "j = k" if "at (semfs_dents w') j = Some a" "at (semfs_dents w') k = Some e" "semd_semnum a = semd_semnum e \<or> semd_name a = semd_name e" for j k a e
    using that namesD(4) [OF N, of j a k e] unfolding Dn by (auto split: if_splits)
qed


lemma live_nonnull: "semfs_inv fs q s \<Longrightarrow> v_refcount s v > 0 \<Longrightarrow> v \<noteq> NULL"
  by (auto simp: semfs_inv_def)

lemma given_null: "given s r v t \<Longrightarrow> v_refcount s NULL = 0 \<Longrightarrow> v_refcount t NULL = 0"
  by (auto simp: given_def borrowed_def same_def split: if_splits)

lemma incref_given:
  assumes "semfs_inv fs q s" "v_refcount s v > 0"
  shows "incref v s = Ok (more_refs v s)" "semfs_inv fs q (more_refs v s)" "borrowed s v (more_refs v s)"
proof -
  have n: "v \<noteq> NULL" using live_nonnull [OF assms] .
  show "incref v s = Ok (more_refs v s)" using n by (simp add: incref_def more_refs_def)
  show "borrowed s v (more_refs v s)" by (rule more_refs_borrowed [OF n assms(2)])
  have "vnodes_inv fs q (more_refs v s)" using vnodes_count [OF _ assms(2), of fs q "v_refcount s v + 1"] assms by (simp add: more_refs_def semfs_inv_def)
  then show "semfs_inv fs q (more_refs v s)" using assms n by (simp add: semfs_inv_def more_refs_def)
qed

lemma getvnode_inv:
  assumes I: "semfs_inv fs q s" and n: "n \<noteq> SEMFS_ROOTDIR \<Longrightarrow> at (semfs_sems (fs_world s)) (unat n) \<noteq> None"
  shows "\<exists>r v t. semfs_getvnode n s = Ok (r, v, t) \<and> semfs_inv fs q t \<and> given s r v t"
proof -
  have v: "vnodes_inv fs q s" "v_refcount s NULL = 0" "names_inv (fs_world s)" using I by (simp_all add: semfs_inv_def)
  have "n \<noteq> SEMFS_ROOTDIR \<Longrightarrow> at (semfs_sems (fs_world s)) (unat n) = Some (the (at (semfs_sems (fs_world s)) (unat n)))" using n by auto
  from getvnode_ok [OF v(1) this] show ?thesis using got_names [OF _ v(3)] given_null [OF _ v(2)] by (fastforce simp: semfs_inv_def)
qed

lemma dent_sem:
  assumes "semfs_inv fs q s" "find_dent name 0 (semfs_dents (fs_world s)) = Some (i, d)"
  shows "at (semfs_dents (fs_world s)) i = Some d" "\<exists>sem. at (semfs_sems (fs_world s)) (unat (semd_semnum d)) = Some sem \<and> sems_linked sem"
proof -
  have N: "names_inv (fs_world s)" using assms(1) by (simp add: semfs_inv_def)
  show d: "at (semfs_dents (fs_world s)) i = Some d" using find_dent_some [OF assms(2)] by simp
  obtain sem where sem: "at (semfs_sems (fs_world s)) (unat (semd_semnum d)) = Some sem" using namesD(3) [OF N d] by blast
  then show "\<exists>sem. at (semfs_sems (fs_world s)) (unat (semd_semnum d)) = Some sem \<and> sems_linked sem" using namesD(1) [OF N sem] d by blast
qed

lemma lookup_ok:
  assumes I: "semfs_inv fs q s" and v: "v_refcount s v > 0"
  shows "\<exists>r w t. semfs_lookup v path s = Ok (r, w, t) \<and> semfs_inv fs q t \<and> given s r w t"
proof (cases "dot_name path")
  case True
  then show ?thesis using incref_given [OF I v] by (simp add: semfs_lookup_def given_def)
next
  case nd: False
  show ?thesis
  proof (cases "find_dent path 0 (semfs_dents (fs_world s))")
    case None
    then show ?thesis using nd I by (simp add: semfs_lookup_def given_def ENOENT_def)
  next
    case (Some id)
    then show ?thesis using nd getvnode_inv [OF I] dent_sem [OF I, of path "fst id" "snd id"] by (cases id) (fastforce simp: semfs_lookup_def)
  qed
qed

lemma lookparent_ok:
  assumes I: "semfs_inv fs q s" and v: "v_refcount s v > 0"
  shows "\<exists>r w name t. semfs_lookparent v path n s = Ok (r, w, name, t) \<and> semfs_inv fs q t \<and> given s r w t"
  using incref_given [OF I v] I by (auto simp: semfs_lookparent_def given_def ENAMETOOLONG_def)

lemma remove_ok:
  assumes I: "semfs_inv fs q s"
  shows "\<exists>r t. semfs_remove v name s = Ok (r, t) \<and> semfs_inv fs q t \<and> same s t"
proof (cases "dot_name name \<or> find_dent name 0 (semfs_dents (fs_world s)) = None")
  case True
  then show ?thesis using I by (auto simp: semfs_remove_def)
next
  case False
  then obtain i d where nd: "\<not> dot_name name" and f: "find_dent name 0 (semfs_dents (fs_world s)) = Some (i, d)" by auto
  let ?w = "fs_world s" and ?n = "semd_semnum d"
  obtain sem where sem: "at (semfs_sems ?w) (unat ?n) = Some sem" "sems_linked sem" using dent_sem(2) [OF I f] by blast
  have d: "at (semfs_dents ?w) i = Some d" by (rule dent_sem(1) [OF I f])
  let ?x = "if sems_hasvnode sem then Some (sem\<lparr>sems_linked := False\<rparr>) else None"
  let ?w' = "?w\<lparr>semfs_sems := (semfs_sems ?w)[unat ?n := ?x], semfs_dents := (semfs_dents ?w)[i := None], answers := answers ?w, dent_answers := dent_answers ?w\<rparr>"
  have iv: "vinv fs q (live s) (v_fs s) ?w" and nm: "names_inv ?w" using I by (simp_all add: semfs_inv_def vnodes_inv_def)
  have b: "unat ?n < length (semfs_sems ?w)" "i < length (semfs_dents ?w)" using at_bound [OF sem(1)] at_bound [OF d] by auto
  have "vinv fs q (live s) (v_fs s) ?w'" using vinvD(11) [OF iv] sem(1) b(1) by (intro vinv_sems [OF iv]) auto
  moreover have "names_inv ?w'" by (rule names_drop [OF nm d sem(1)]) (use b in auto)
  moreover have "semfs_remove v name s = Ok (0, s\<lparr>fs_world := ?w'\<rparr>)"
    using nd f sem(2) get_sem_at [OF sem(1)] by (simp add: semfs_remove_def deref_sem_def set_sem_def upd_semfs_def)
  ultimately show ?thesis using I by (auto simp: semfs_inv_def vnodes_inv_def live_def same_def kept_def)
qed

lemma truncate_ok:
  assumes I: "semfs_inv fs q s" and v: "v_refcount s v > 0" "v_fs s v \<noteq> NULL" "semv_semnum (fs_world s) v \<noteq> SEMFS_ROOTDIR"
  shows "\<exists>r t. semfs_truncate v len s = Ok (r, t) \<and> semfs_inv fs q t \<and> same s t"
proof (cases "len < 0 \<or> len > 0xffffffff")
  case True
  then show ?thesis using I by (auto simp: semfs_truncate_def)
next
  case False
  let ?w = "fs_world s" and ?n = "semv_semnum (fs_world s) v"
  have iv: "vinv fs q (live s) (v_fs s) ?w" and nm: "names_inv ?w" using I by (simp_all add: semfs_inv_def vnodes_inv_def)
  have "v \<in> set (semfs_vnodes ?w)" using vinvD(7) [OF iv, of v] v by (simp add: live_def)
  then obtain sem where sem: "at (semfs_sems ?w) (unat ?n) = Some sem" "sems_hasvnode sem" using vinvD(9) [OF iv] v(3) by blast
  define x where "x = sem\<lparr>sems_count := word_of_int len\<rparr>"
  have x: "sems_hasvnode x" "sems_linked x = sems_linked sem" using sem(2) by (simp_all add: x_def)
  let ?w' = "?w\<lparr>semfs_sems := (semfs_sems ?w)[unat ?n := Some x], semfs_dents := semfs_dents ?w, answers := answers ?w, dent_answers := dent_answers ?w\<rparr>"
  have b: "unat ?n < length (semfs_sems ?w)" using at_bound [OF sem(1)] .
  have "vinv fs q (live s) (v_fs s) ?w'" using vinvD(11) [OF iv] sem b x by (intro vinv_sems [OF iv]) auto
  moreover have "names_inv ?w'"
  proof (rule namesI)
    show "sems_linked y \<longleftrightarrow> (\<exists>i d. at (semfs_dents ?w') i = Some d \<and> unat (semd_semnum d) = k)" if "at (semfs_sems ?w') k = Some y" for k y
      using that x(2) namesD(1) [OF nm sem(1)] namesD(1) [OF nm, of k y] b by (auto split: if_splits)
    show "sems_hasvnode y \<or> sems_linked y" if "at (semfs_sems ?w') k = Some y" for k y
      using that x(1) namesD(2) [OF nm, of k y] b by (auto split: if_splits)
    show "\<exists>y. at (semfs_sems ?w') (unat (semd_semnum d)) = Some y" if "at (semfs_dents ?w') i = Some d" for i d
      using that namesD(3) [OF nm, of i d] by auto
    show "i = j" if "at (semfs_dents ?w') i = Some d" "at (semfs_dents ?w') j = Some e" "semd_semnum d = semd_semnum e \<or> semd_name d = semd_name e" for i j d e
      using that namesD(4) [OF nm, of i d j e] by simp
  qed
  moreover have "semfs_truncate v len s = Ok (0, s\<lparr>fs_world := ?w'\<rparr>)"
    using False get_sem_at [OF sem(1)] by (simp add: semfs_truncate_def truncate_sem_def deref_sem_def set_sem_def upd_semfs_def x_def)
  ultimately show ?thesis using I by (auto simp: semfs_inv_def vnodes_inv_def live_def same_def kept_def)
qed

text \<open>Creation, in its steps: a place for the semaphore, a place for the entry, the vnode.\<close>

lemma vnodes_any:
  assumes I: "vnodes_inv fs q s" and e: "v_refcount t = v_refcount s" "v_fs t = v_fs s"
    "semfs_absfs (fs_world t) = semfs_absfs (fs_world s)" "semfs_vnodes (fs_world t) = semfs_vnodes (fs_world s)"
    "semv_semnum (fs_world t) = semv_semnum (fs_world s)" "new_vnodes (fs_world t) = new_vnodes (fs_world s)"
    and h: "\<And>k. (\<exists>x. at (semfs_sems (fs_world t)) k = Some x \<and> sems_hasvnode x) \<longleftrightarrow> (\<exists>x. at (semfs_sems (fs_world s)) k = Some x \<and> sems_hasvnode x)"
    and l: "length (semfs_sems (fs_world t)) \<le> unat SEMFS_ROOTDIR" "set (dent_answers (fs_world t)) \<subseteq> set (dent_answers (fs_world s))"
  shows "vnodes_inv fs q t"
proof -
  let ?w = "fs_world s" and ?w' = "fs_world t"
  have "vinv fs q (live s) (v_fs s) (?w\<lparr>semfs_sems := semfs_sems ?w', semfs_dents := semfs_dents ?w', answers := answers ?w', dent_answers := dent_answers ?w'\<rparr>)"
    using I by (intro vinv_sems [OF _ h l]) (simp add: vnodes_inv_def)
  moreover have "?w\<lparr>semfs_sems := semfs_sems ?w', semfs_dents := semfs_dents ?w', answers := answers ?w', dent_answers := dent_answers ?w'\<rparr> = ?w'"
    using e(3-6) by simp
  ultimately show ?thesis using I e(1,2) by (simp add: vnodes_inv_def live_def)
qed

lemma given_upd [simp]: "given (upd_semfs f s) r v t = given s r v t" "given s r v (upd_semfs f t) = given s r v t"
  by (simp_all add: given_def borrowed_def same_def kept_def)

lemma root_word: "length l \<le> unat SEMFS_ROOTDIR \<Longrightarrow> of_nat (length l) \<noteq> SEMFS_ROOTDIR \<Longrightarrow> length l < unat SEMFS_ROOTDIR"
  by (auto simp: order_le_less)

lemma small_word:
  assumes "i < unat SEMFS_ROOTDIR"
  shows "unat (of_nat i :: 32 word) = i" "of_nat i \<noteq> SEMFS_ROOTDIR"
proof -
  show "unat (of_nat i :: 32 word) = i" using assms by (simp add: unat_of_nat SEMFS_ROOTDIR_def)
  then show "of_nat i \<noteq> SEMFS_ROOTDIR" using assms by auto
qed

text \<open>A list with a new element in a place that was free.\<close>

definition placed :: "'a option list \<Rightarrow> nat \<Rightarrow> 'a \<Rightarrow> 'a option list \<Rightarrow> bool" where
  "placed l i x l' \<longleftrightarrow> at l i = None \<and> (\<forall>k. at l' k = (if k = i then Some x else at l k)) \<and> i < length l'"

lemma placed_hole: "first_none l = Some i \<Longrightarrow> placed l i x (l[i := Some x])"
  using first_none_spec [of l i] by (simp add: placed_def)

lemma placed_end: "placed l (length l) x (l @ [Some x])"
  by (simp add: placed_def) (simp add: at_def)

lemma placed_undo: "placed l i x l' \<Longrightarrow> at (l'[i := None]) k = at l k"
  by (auto simp: placed_def)

lemma sem_insert_ok:
  assumes "length (semfs_sems (fs_world s)) \<le> unat SEMFS_ROOTDIR"
  obtains (fail) r n bs where "semfs_sem_insert sem s = (r, n, upd_semfs (answers_update (\<lambda>_. bs)) s)" "r \<noteq> 0"
  | (new) n l bs where "semfs_sem_insert sem s = (0, n, upd_semfs (\<lambda>w. w\<lparr>semfs_sems := l, answers := bs\<rparr>) s)"
      "n \<noteq> SEMFS_ROOTDIR" "placed (semfs_sems (fs_world s)) (unat n) sem l" "length l \<le> unat SEMFS_ROOTDIR"
proof -
  let ?l = "semfs_sems (fs_world s)"
  show ?thesis
  proof (cases "of_nat (length ?l) = SEMFS_ROOTDIR")
    case True
    then show ?thesis by (intro fail [of ENOSPC 0 "answers (fs_world s)"]) (simp_all add: semfs_sem_insert_def upd_semfs_def ENOSPC_def)
  next
    case nr: False
    then have len: "length ?l < unat SEMFS_ROOTDIR" using root_word assms by blast
    show ?thesis
    proof (cases "first_none ?l")
      case (Some i)
      then have i: "i < unat SEMFS_ROOTDIR" using first_none_spec [OF Some] len by simp
      show ?thesis
        using nr Some small_word [OF i] placed_hole [OF Some, of sem] len
        by (intro new [where n = "of_nat i" and l = "?l[i := Some sem]" and bs = "answers (fs_world s)"]) (simp_all add: semfs_sem_insert_def set_sem_def upd_semfs_def)
    next
      case None
      obtain ok bs where a: "ask s = (ok, upd_semfs (answers_update (\<lambda>_. bs)) s)" by (rule ask_cases)
      show ?thesis
      proof (cases ok)
        case True
        then show ?thesis
          using nr None a small_word [OF len] placed_end [of ?l sem] len
          by (intro new [where n = "of_nat (length ?l)" and l = "?l @ [Some sem]" and bs = bs]) (simp_all add: semfs_sem_insert_def upd_semfs_def)
      next
        case False
        then show ?thesis using nr None a by (intro fail [of ENOMEM 0 bs]) (simp_all add: semfs_sem_insert_def ENOMEM_def)
      qed
    qed
  qed
qed

lemma creat_dent_ok:
  obtains (fail) r e bs where "creat_dent d s = (r, e, upd_semfs (answers_update (\<lambda>_. bs)) s)" "r \<noteq> 0"
  | (new) e l bs where "creat_dent d s = (0, e, upd_semfs (\<lambda>w. w\<lparr>semfs_dents := l, answers := bs\<rparr>) s)" "placed (semfs_dents (fs_world s)) e d l"
proof -
  let ?l = "semfs_dents (fs_world s)"
  show ?thesis
  proof (cases "first_none ?l")
    case (Some i)
    then show ?thesis using placed_hole [OF Some, of d] by (intro new [where e = i and l = "?l[i := Some d]" and bs = "answers (fs_world s)"]) (simp_all add: creat_dent_def upd_semfs_def)
  next
    case None
    obtain ok bs where a: "ask s = (ok, upd_semfs (answers_update (\<lambda>_. bs)) s)" by (rule ask_cases)
    show ?thesis
    proof (cases ok)
      case True
      then show ?thesis using None a placed_end [of ?l d] by (intro new [where e = "length ?l" and l = "?l @ [Some d]" and bs = bs]) (simp_all add: creat_dent_def upd_semfs_def)
    next
      case False
      then show ?thesis using None a by (intro fail [of ENOMEM "length ?l" bs]) (simp_all add: creat_dent_def ENOMEM_def)
    qed
  qed
qed

lemma ask_dent_ok:
  assumes "vnodes_inv fs q s"
  obtains ok bs where "ask_dent s = (ok, upd_semfs (dent_answers_update (\<lambda>_. bs)) s)" "set bs \<subseteq> set (dent_answers (fs_world s))" "ok \<or> q"
proof (cases "dent_answers (fs_world s)")
  case Nil
  then have "ask_dent s = (True, upd_semfs (dent_answers_update (\<lambda>_. [])) s)" by (simp add: ask_dent_def upd_semfs_def)
  then show ?thesis by (rule that) simp_all
next
  case (Cons b bs)
  then have "b \<or> q" using assms vinvD(12) [of fs q "live s" "v_fs s" "fs_world s"] by (auto simp: vnodes_inv_def)
  then show ?thesis using that [of b bs] Cons by (auto simp: ask_dent_def)
qed

lemma creat_undo:
  assumes I: "semfs_inv fs q s" and t: "vnodes_inv fs q t" "given s r v t" "r \<noteq> 0"
    and l: "\<And>k. at (semfs_sems (fs_world u)) k = at (semfs_sems (fs_world s)) k" "length (semfs_sems (fs_world u)) \<le> unat SEMFS_ROOTDIR"
    and h: "\<And>k. (\<exists>x. at (semfs_sems (fs_world u)) k = Some x \<and> sems_hasvnode x) \<longleftrightarrow> (\<exists>x. at (semfs_sems (fs_world t)) k = Some x \<and> sems_hasvnode x)"
    and d: "\<And>k. at (semfs_dents (fs_world u)) k = at (semfs_dents (fs_world s)) k"
    and u: "u = upd_semfs (\<lambda>w. w\<lparr>semfs_sems := l, semfs_dents := ds, answers := bs, dent_answers := da\<rparr>) t" "set da \<subseteq> set (dent_answers (fs_world t))"
  shows "semfs_inv fs q u \<and> given s r NULL u"
proof -
  have "vnodes_inv fs q u" by (rule vnodes_any [OF t(1) _ _ _ _ _ _ h l(2)]) (use u in simp_all)
  moreover have "names_inv (fs_world u)" using I by (intro names_cong [OF _ l(1) d]) (simp add: semfs_inv_def)
  moreover have "given s r NULL u" unfolding u(1) using given_any [OF t(3,2)] by simp
  moreover have "v_refcount u NULL = 0" using given_null [OF calculation(3)] I by (simp add: semfs_inv_def)
  ultimately show ?thesis by (simp add: semfs_inv_def)
qed

lemma creat_vnode:
  assumes I: "semfs_inv fs q s" and new: "find_dent name 0 (semfs_dents (fs_world s)) = None"
    and t: "t = upd_semfs (\<lambda>w. w\<lparr>semfs_sems := l, semfs_dents := ds, answers := bs, dent_answers := da\<rparr>) s"
    and x: "n \<noteq> SEMFS_ROOTDIR" "placed (semfs_sems (fs_world s)) (unat n) x l" "\<not> sems_hasvnode x" "length l \<le> unat SEMFS_ROOTDIR"
    and d: "placed (semfs_dents (fs_world s)) e \<lparr>semd_name = name, semd_semnum = n\<rparr> ds" "set da \<subseteq> set (dent_answers (fs_world s))"
  shows "\<exists>r v u. kbind (semfs_getvnode n t) (\<lambda>(result, vn, s).
           if result \<noteq> 0 then creat_uninsert n result (upd_semfs (semfs_dents_update (\<lambda>l. l[e := None])) s)
           else kbind (get_sem n s) (\<lambda>x. kbind (deref_sem x) (\<lambda>sem. Ok (0, vn, set_sem n (Some (sem\<lparr>sems_linked := True\<rparr>)) s)))) = Ok (r, v, u)
         \<and> semfs_inv fs q u \<and> given s r v u"
proof -
  have vi: "vnodes_inv fs q s" and N: "names_inv (fs_world s)" using I by (simp_all add: semfs_inv_def)
  have l: "at l k = (if k = unat n then Some x else at (semfs_sems (fs_world s)) k)" for k using x(2) by (simp add: placed_def)
  have free: "at (semfs_sems (fs_world s)) (unat n) = None" using x(2) by (simp add: placed_def)
  have ti: "vnodes_inv fs q t" by (rule vnodes_any [OF vi]) (use x(3,4) d(2) free in \<open>auto simp: t l\<close>)
  have ln: "n \<noteq> SEMFS_ROOTDIR \<Longrightarrow> at (semfs_sems (fs_world t)) (unat n) = Some x" by (simp add: t l)
  obtain r v u where u: "semfs_getvnode n t = Ok (r, v, u)" "vnodes_inv fs q u" "given t r v u" "got n (fs_world t) (fs_world u)"
      "r = 0 \<Longrightarrow> v \<in> set (semfs_vnodes (fs_world u)) \<and> semv_semnum (fs_world u) v = n" "r \<noteq> 0 \<Longrightarrow> semfs_sems (fs_world u) = l"
      "dent_answers (fs_world u) = da" using getvnode_ok [OF ti ln] by (auto simp: t)
  have g: "given s r v u" using u(3) by (simp add: t)
  have ul: "at (semfs_sems (fs_world u)) k = at (semfs_sems (fs_world s)) k" if "k \<noteq> unat n" for k using u(4) l [of k] that by (auto simp: got_def t)
  have len: "length (semfs_sems (fs_world u)) = length l" and ud: "semfs_dents (fs_world u) = ds" using u(4) by (auto simp: got_def t)
  have nl: "unat n < length l" using x(2) by (simp add: placed_def)
  show ?thesis
  proof (cases "r = 0")
    case False
    let ?u = "upd_semfs (\<lambda>w. w\<lparr>semfs_sems := l[unat n := None], semfs_dents := ds[e := None], answers := answers (fs_world u), dent_answers := da\<rparr>) u"
    have "semfs_inv fs q ?u \<and> given s r NULL ?u"
      by (rule creat_undo [OF I u(2) g False _ _ _ _ refl])
         (use placed_undo [OF x(2)] placed_undo [OF d(1)] x(3,4) free u(6) [OF False] u(7) in \<open>auto simp: l\<close>)
    moreover have "creat_uninsert n r (upd_semfs (semfs_dents_update (\<lambda>l. l[e := None])) u) = Ok (r, NULL, ?u)"
      using u(6) [OF False] u(7) ud by (simp add: creat_uninsert_def set_sem_def upd_semfs_def)
    ultimately show ?thesis using u(1) False by simp
  next
    case r0: True
    note D = vinvD [OF u(2) [unfolded vnodes_inv_def, THEN conjunct2]]
    obtain y where y: "at (semfs_sems (fs_world u)) (unat n) = Some y" "sems_hasvnode y" using D(9) [of v] u(5) [OF r0] x(1) by blast
    let ?y = "y\<lparr>sems_linked := True\<rparr>" and ?u = "set_sem n (Some (y\<lparr>sems_linked := True\<rparr>)) u"
    have a: "at (semfs_sems (fs_world ?u)) k = (if k = unat n then Some ?y else at (semfs_sems (fs_world s)) k)" for k
      using ul nl len by (auto simp: set_sem_def)
    have "vnodes_inv fs q ?u" by (rule vnodes_any [OF u(2)]) (use y len x(4) nl in \<open>auto simp: set_sem_def\<close>)
    moreover have "names_inv (fs_world ?u)"
      by (rule names_add [where i = e and name = name and n = n and x = ?y, OF N free]) (use d(1) ud a find_dent_none [OF new] in \<open>simp_all add: placed_def set_sem_def\<close>)
    moreover have "given s r v ?u" using g by (simp add: set_sem_def)
    moreover have "v_refcount ?u NULL = 0" using given_null [OF calculation(3)] I by (simp add: semfs_inv_def)
    ultimately show ?thesis using u(1) r0 get_sem_at [OF y(1)] by (simp add: deref_sem_def semfs_inv_def)
  qed
qed

lemma creat_fresh:
  assumes I: "semfs_inv fs q s" and nd: "\<not> dot_name name" and new: "find_dent name 0 (semfs_dents (fs_world s)) = None"
  shows "\<exists>r v t. semfs_creat dir name excl s = Ok (r, v, t) \<and> semfs_inv fs q t \<and> (given s r v t \<or> q \<and> r = 0 \<and> v = NULL \<and> same s t)"
proof -
  have ans: "semfs_inv fs q (upd_semfs (answers_update f) s)" "given s r NULL (upd_semfs (answers_update f) s)" if "r \<noteq> 0" for f r
    using I that by (simp_all add: semfs_inv_def) (simp add: given_def)
  obtain ok b0 where a: "ask s = (ok, upd_semfs (answers_update (\<lambda>_. b0)) s)" by (rule ask_cases)
  let ?sem = "\<lparr>sems_count = 0, sems_hasvnode = False, sems_linked = False\<rparr>" and ?s1 = "upd_semfs (answers_update (\<lambda>_. b0)) s"
  have vi: "vnodes_inv fs q s" using I by (simp add: semfs_inv_def)
  have lim: "length (semfs_sems (fs_world ?s1)) \<le> unat SEMFS_ROOTDIR" using vinvD(11) vi by (fastforce simp: vnodes_inv_def)
  show ?thesis
  proof (cases ok)
    case False
    then show ?thesis using nd new a ans [of ENOMEM] by (simp add: semfs_creat_def semfs_sem_create_def ENOMEM_def)
  next
    case True
    have sc: "semfs_sem_create s = (Some ?sem, ?s1)" using a True by (simp add: semfs_sem_create_def)
    from lim show ?thesis
    proof (cases rule: sem_insert_ok [where sem = ?sem])
      case (fail r n bs)
      then show ?thesis using True nd new a sc ans [of r] by (simp add: semfs_creat_def upd_semfs_def)
    next
      case (new n l bs)
      let ?s2 = "upd_semfs (\<lambda>w. w\<lparr>semfs_sems := l, answers := bs\<rparr>) ?s1"
      have pl: "placed (semfs_sems (fs_world s)) (unat n) ?sem l" using new(3) by simp
      note n = new(2) and lim' = new(4)
      have at: "at l k = (if k = unat n then Some ?sem else at (semfs_sems (fs_world s)) k)" for k using pl by (simp add: placed_def)
      have fr: "at (semfs_sems (fs_world s)) (unat n) = None" using pl by (simp add: placed_def)
      have v2: "vnodes_inv fs q ?s2" by (rule vnodes_any [OF vi]) (use new(4) at fr in auto)
      obtain ok' da where da0: "ask_dent ?s2 = (ok', upd_semfs (dent_answers_update (\<lambda>_. da)) ?s2)" "set da \<subseteq> set (dent_answers (fs_world ?s2))" "ok' \<or> q"
        by (rule ask_dent_ok [OF v2])
      show ?thesis
      proof (cases ok')
        case False
        let ?u = "upd_semfs (\<lambda>w. w\<lparr>semfs_sems := l[unat n := None], semfs_dents := semfs_dents (fs_world s), answers := bs, dent_answers := da\<rparr>) s"
        have "given s 1 NULL s" by (simp add: given_def)
        then have u: "semfs_inv fs q ?u \<and> given s 1 NULL ?u"
          by (rule creat_undo [OF I vi _ _ _ _ _ _ refl]) (use placed_undo [OF pl] lim' da0(2) in simp_all)
        have "semfs_creat dir name excl s = creat_uninsert n 0 (upd_semfs (dent_answers_update (\<lambda>_. da)) ?s2)"
          using False by (simp only: semfs_creat_def sc nd assms(3) new(1) da0(1) Let_def prod.case option.case option.sel option.distinct if_True if_False simp_thms)
        then have "semfs_creat dir name excl s = Ok (0, NULL, ?u)" by (simp add: creat_uninsert_def set_sem_def upd_semfs_def)
        then show ?thesis using u False da0(3) by (simp add: given_def)
      next
        case True
        have da: "ask_dent ?s2 = (True, upd_semfs (dent_answers_update (\<lambda>_. da)) ?s2)" "set da \<subseteq> set (dent_answers (fs_world s))"
          using da0 True by simp_all
        let ?s3 = "upd_semfs (dent_answers_update (\<lambda>_. da)) ?s2" and ?d = "\<lparr>semd_name = name, semd_semnum = n\<rparr>"
        have c: "semfs_creat dir name excl s = (case creat_dent ?d ?s3 of (result, e, s) \<Rightarrow>
            if result \<noteq> 0 then creat_uninsert n result s
            else kbind (semfs_getvnode n s) (\<lambda>(result, vn, s).
              if result \<noteq> 0 then creat_uninsert n result (upd_semfs (semfs_dents_update (\<lambda>l. l[e := None])) s)
              else kbind (get_sem n s) (\<lambda>x. kbind (deref_sem x) (\<lambda>sem. Ok (0, vn, set_sem n (Some (sem\<lparr>sems_linked := True\<rparr>)) s)))))"
          by (simp only: semfs_creat_def sc nd assms(3) new(1) da(1) Let_def prod.case option.case option.sel option.distinct if_True if_False simp_thms)
        show ?thesis
        proof (cases rule: creat_dent_ok [where s = ?s3 and d = ?d])
          case (fail r e b3)
          let ?u = "upd_semfs (\<lambda>w. w\<lparr>semfs_sems := l[unat n := None], semfs_dents := semfs_dents (fs_world s), answers := b3, dent_answers := da\<rparr>) s"
          have "given s r NULL s" using fail(2) by (simp add: given_def)
          then have "semfs_inv fs q ?u \<and> given s r NULL ?u"
            by (rule creat_undo [OF I vi _ fail(2) _ _ _ _ refl da(2)]) (use placed_undo [OF pl] new(4) in simp_all)
          moreover have "semfs_creat dir name excl s = Ok (r, NULL, ?u)"
            unfolding c fail(1) using fail(2) by (simp add: creat_uninsert_def set_sem_def upd_semfs_def)
          ultimately show ?thesis by blast
        next
          case (new e ds b3)
          let ?t = "upd_semfs (\<lambda>w. w\<lparr>semfs_sems := l, semfs_dents := ds, answers := b3, dent_answers := da\<rparr>) s"
          have t: "upd_semfs (\<lambda>w. w\<lparr>semfs_dents := ds, answers := b3\<rparr>) ?s3 = ?t" by (simp add: upd_semfs_def)
          have "placed (semfs_dents (fs_world s)) e ?d ds" using new(2) by simp
          from creat_vnode [OF I assms(3) refl n pl _ lim' this da(2)]
          have "\<exists>r v u. semfs_creat dir name excl s = Ok (r, v, u) \<and> semfs_inv fs q u \<and> given s r v u" unfolding c new(1) t by simp
          then show ?thesis by blast
        qed
      qed
    qed
  qed
qed

lemma creat_ok:
  assumes I: "semfs_inv fs q s"
  shows "\<exists>r v t. semfs_creat dir name excl s = Ok (r, v, t) \<and> semfs_inv fs q t \<and> (given s r v t \<or> q \<and> r = 0 \<and> v = NULL \<and> same s t)"
proof (cases "dot_name name")
  case True
  then show ?thesis using I by (simp add: semfs_creat_def given_def EEXIST_def)
next
  case nd: False
  show ?thesis
  proof (cases "find_dent name 0 (semfs_dents (fs_world s))")
    case None
    then show ?thesis by (rule creat_fresh [OF I nd])
  next
    case (Some id)
    obtain i d where id: "id = (i, d)" by (cases id)
    obtain r v t where g: "semfs_getvnode (semd_semnum d) s = Ok (r, v, t)" "semfs_inv fs q t" "given s r v t"
      using getvnode_inv [OF I, of "semd_semnum d"] dent_sem(2) [OF I Some [unfolded id]] by auto
    show ?thesis
    proof (cases excl)
      case True
      then have "semfs_creat dir name excl s = Ok (EEXIST, NULL, s)" using nd Some id by (simp add: semfs_creat_def)
      then show ?thesis using I by (simp add: given_def EEXIST_def)
    next
      case False
      then have "semfs_creat dir name excl s = Ok (r, v, t)" using nd Some id g(1) by (simp add: semfs_creat_def)
      then show ?thesis using g(2,3) by blast
    qed
  qed
qed

section \<open>The semaphore file system keeps the contract of the VFS layer\<close>

lemma semfs_vnode:
  assumes "semfs_inv fs q s" "v_refcount s v > 0" "v_fs s v \<noteq> NULL"
  shows "v_fs s v = fs"
proof -
  have "vinv fs q (live s) (v_fs s) (fs_world s)" using assms(1) by (simp add: semfs_inv_def vnodes_inv_def)
  from vinvD(6,7) [OF this, of v] show ?thesis using assms(2,3) by (simp add: live_def)
qed

lemma dev_find_ok:
  assumes "semfs_inv fs q s" "v_refcount s v > 0"
  shows "\<exists>r w t. dev_find v path s = Ok (r, w, t) \<and> semfs_inv fs q t \<and> given s r w t"
  using incref_given [OF assms] assms(1) by (simp add: dev_find_def given_def ENOENT_def)

lemma getroot_ok:
  assumes "semfs_inv fs q s"
  shows "\<exists>r v t. semfs_getroot fs s = Ok (r, v, t) \<and> semfs_inv fs q t \<and> given s r v t"
proof -
  obtain r v t where "semfs_getvnode SEMFS_ROOTDIR s = Ok (r, v, t)" "semfs_inv fs q t" "given s r v t" using getvnode_inv [OF assms, of SEMFS_ROOTDIR] by blast
  then show ?thesis by (cases "r = 0") (auto simp: semfs_getroot_def given_def)
qed

interpretation sf: file_systems semfs_fsops "vnode_table D" "semfs_inv fs q" "{fs}" q for D fs q
proof (unfold_locales, goal_cases)
  case (1 s t)
  then show ?case by (simp add: semfs_inv_def vnodes_inv_def live_def)
next
  case (2 s v)
  then show ?case by (simp add: semfs_inv_def vnodes_inv_def)
next
  case (3 s v)
  then show ?case by (rule incref_given(2))
next
  case (4 s v)
  then show ?case using vnodes_count [of fs q s v "v_refcount s v - 1"] live_nonnull [of fs q s v] by (simp add: semfs_inv_def)
next
  case (5 s v)
  then show ?case using sem_reclaim_ok [of fs q s v] by (auto simp: vnode_table_def by_kind_def)
next
  case (6 s fs')
  then show ?case using getroot_ok [of fs q s] by (simp add: semfs_fsops_def)
next
  case (7 s v path)
  then show ?case using lookup_ok [OF 7] dev_find_ok [OF 7] by (auto simp: vnode_table_def by_kind_def vopfail_defs given_def ENOTDIR_def)
next
  case (8 s v path n)
  then show ?case using lookparent_ok [OF 8] by (auto simp: vnode_table_def by_kind_def vopfail_defs given_def ENOTDIR_def)
next
  case (9 s v name excl)
  then show ?case using creat_ok [OF 9(1)] by (auto simp: vnode_table_def by_kind_def vopfail_defs given_def ENOTDIR_def)
next
  case (10 s v flags)
  then show ?case by (auto simp: vnode_table_def by_kind_def semfs_eachopen_def)
next
  case (11 s v len)
  then show ?case using truncate_ok [of fs q s v len] by (auto simp: vnode_table_def by_kind_def vopfail_defs)
next
  case (12 s v)
  then show ?case using semfs_vnode [of fs q s v] by (auto simp: vnode_table_def by_kind_def semfs_gettype_def dev_gettype_def S_IFDIR_def S_IFBLK_def S_IFCHR_def S_IFREG_def)
next
  case (14 s v name)
  then show ?case using remove_ok [OF 14(1)] by (auto simp: vnode_table_def by_kind_def vopfail_defs)
qed (auto simp: vnode_table_def by_kind_def vopfail_defs)

section \<open>References from the start of the system on\<close>

lemma doadd_done:
  assumes "vfs_doadd F m name mountable dev fs s = Ok (0, t)"
  shows "m_vnode m \<noteq> NULL \<and> v_refcount t = (v_refcount s)(m_vnode m := 1) \<and> v_fs t = (v_fs s)(m_vnode m := NULL) \<and> fs_world t = fs_world s \<and> cwd t = cwd s
    \<and> bootfs_vnode t = bootfs_vnode s
    \<and> knowndevs t = knowndevs s @ [\<lparr>kd_name = name, kd_rawname = (if mountable then Some (mkrawname name) else None), kd_device = dev, kd_vnode = m_vnode m, kd_fs = fs\<rparr>]"
  using assms
  by (simp add: vfs_doadd_def doadd_fail_def vnode_init_def vnode_cleanup_def badnames_def released_def biglock_release_def biglock_do_i_hold_def Let_def ENOMEM_def EEXIST_def
      split: if_splits) auto

text \<open>
  The memory at start-up: no vnode is in use, \<open>kmalloc\<close> puts the vnodes of the two first entries of the table in different
  places, and the semaphore file system is not at the address \<open>SWAP_FS\<close>, which is no pointer.
\<close>

definition boot_ready :: "doadd_mem \<Rightarrow> ptr \<Rightarrow> doadd_mem \<Rightarrow> ssys \<Rightarrow> bool" where
  "boot_ready m1 fs m2 s \<longleftrightarrow> v_refcount s = (\<lambda>v. 0) \<and> cwd s = NULL \<and> bootfs_vnode s = NULL \<and> fs \<noteq> SWAP_FS \<and> m_vnode m1 \<noteq> m_vnode m2"

lemma semfs_create_ok:
  assumes "semfs_create fs s = (f, x)" "f \<noteq> NULL"
  shows "f = fs \<and> (\<exists>bs. x = upd_semfs (\<lambda>w. w\<lparr>semfs_absfs := fs, semfs_vnodes := [], semfs_sems := [], semfs_dents := [], answers := bs\<rparr>) s)"
proof -
  have again: "\<exists>a b. ask (upd_semfs (answers_update (\<lambda>_. bs)) s) = (a, upd_semfs (answers_update (\<lambda>_. b)) s)" for bs
    by (rule ask_cases [of "upd_semfs (answers_update (\<lambda>_. bs)) s"]) (auto simp: upd_semfs_def)
  obtain a1 b1 where 1: "ask s = (a1, upd_semfs (answers_update (\<lambda>_. b1)) s)" by (rule ask_cases)
  obtain a2 b2 where 2: "ask (upd_semfs (answers_update (\<lambda>_. b1)) s) = (a2, upd_semfs (answers_update (\<lambda>_. b2)) s)" using again by blast
  obtain a3 b3 where 3: "ask (upd_semfs (answers_update (\<lambda>_. b2)) s) = (a3, upd_semfs (answers_update (\<lambda>_. b3)) s)" using again by blast
  obtain a4 b4 where 4: "ask (upd_semfs (answers_update (\<lambda>_. b3)) s) = (a4, upd_semfs (answers_update (\<lambda>_. b4)) s)" using again by blast
  obtain a5 b5 where 5: "ask (upd_semfs (answers_update (\<lambda>_. b4)) s) = (a5, upd_semfs (answers_update (\<lambda>_. b5)) s)" using again by blast
  let ?s = "upd_semfs (answers_update (\<lambda>_. b5)) s"
  have "semfs_create fs s = (if fs = NULL \<or> \<not> (a1 \<and> a2 \<and> a3 \<and> a4 \<and> a5) then (NULL, ?s)
      else (fs, upd_semfs (\<lambda>w. w\<lparr>semfs_absfs := fs, semfs_vnodes := [], semfs_sems := [], semfs_dents := []\<rparr>) ?s))"
    by (simp only: semfs_create_def 1 2 3 4 5 Let_def prod.case)
  then have "f = fs" "x = upd_semfs (\<lambda>w. w\<lparr>semfs_absfs := fs, semfs_vnodes := [], semfs_sems := [], semfs_dents := []\<rparr>) ?s"
    using assms by (simp_all split: if_splits)
  then show ?thesis by (intro conjI exI [of _ b5]) (simp_all add: upd_semfs_def)
qed

lemma bootstrap_books:
  assumes r: "boot_ready m1 fs m2 s" and b: "vfs_bootstrap array_ok lock_ok dev m1 fs m2 s = Ok t"
  shows "books {fs} (semfs_inv fs (False \<in> set (dent_answers (fs_world s)))) t (\<lambda>v. 0)"
proof -
  let ?s = "s\<lparr>knowndevs := [], biglock_depth := 0\<rparr>"
  obtain u where u: "dev \<noteq> NULL" "vfs_doadd semfs_fsops m1 [110, 117, 108, 108] False dev NULL ?s = Ok (0, u)" "semfs_bootstrap fs m2 u = Ok t"
    using b by (auto simp: vfs_bootstrap_def devnull_create_def vfs_adddev_def split: if_splits)
  obtain f x where x: "semfs_create fs u = (f, x)" by fastforce
  then have f: "f \<noteq> NULL" "vfs_doadd semfs_fsops m2 [115, 101, 109] False NULL f x = Ok (0, t)"
    using u(3) by (auto simp: semfs_bootstrap_def vfs_addfs_def split: if_splits)
  obtain bs where xx: "f = fs" "x = upd_semfs (\<lambda>w. w\<lparr>semfs_absfs := fs, semfs_vnodes := [], semfs_sems := [], semfs_dents := [], answers := bs\<rparr>) u"
    using semfs_create_ok [OF x f(1)] by blast
  have du: "table_inv u" using doadd_inv [of ?s dev NULL False "\<lambda>e. True" semfs_fsops m1 "[110, 117, 108, 108]"] u(1,2) by (simp add: done_ok_def table_inv_def)
  then have dx: "table_inv x" using xx(2) by (simp add: table_inv_def)
  have dt: "table_inv t" using doadd_inv [OF dx, of NULL fs False "\<lambda>e. True" semfs_fsops m2 "[115, 101, 109]"] f xx(1) r by (simp add: done_ok_def boot_ready_def)
  note U = doadd_done [OF u(2)] and T = doadd_done [OF f(2)]
  have c: "v_refcount t = (\<lambda>v. if v = m_vnode m1 \<or> v = m_vnode m2 then 1 else 0)" using U T xx r by (auto simp: boot_ready_def)
  have v: "v_fs t (m_vnode m1) = NULL" "v_fs t (m_vnode m2) = NULL" using U T xx by auto
  have k: "knowndevs t = [\<lparr>kd_name = [110, 117, 108, 108], kd_rawname = None, kd_device = dev, kd_vnode = m_vnode m1, kd_fs = NULL\<rparr>,
      \<lparr>kd_name = [115, 101, 109], kd_rawname = None, kd_device = NULL, kd_vnode = m_vnode m2, kd_fs = fs\<rparr>]" using U T xx by simp
  have w: "fs_world t = (fs_world s)\<lparr>semfs_absfs := fs, semfs_vnodes := [], semfs_sems := [], semfs_dents := [], answers := bs\<rparr>" using U T xx by simp
  have nn: "m_vnode m1 \<noteq> NULL" "m_vnode m2 \<noteq> NULL" using U T by auto
  have "vinv fs (False \<in> set (dent_answers (fs_world s))) (live t) (v_fs t) (fs_world t)"
    using r f(1) xx(1) v by (auto simp: vinv_def w live_def c boot_ready_def at_def inj_on_def split: if_splits)
  then have "semfs_inv fs (False \<in> set (dent_answers (fs_world s))) t" using nn by (simp add: semfs_inv_def vnodes_inv_def c names_inv_def w at_def)
  moreover have "cwd t = NULL" "bootfs_vnode t = NULL" using U T xx r by (auto simp: boot_ready_def)
  ultimately show ?thesis using dt nn r v c k by (auto simp: books_def layer_ok_def holders_def has_fs_def boot_ready_def split: if_splits)
qed

text \<open>The count of every vnode is the number of its holders.\<close>

definition accounted :: "'w vfs \<Rightarrow> ptr list \<Rightarrow> bool" where
  "accounted s held \<longleftrightarrow> (\<forall>v. v \<noteq> NULL \<longrightarrow> v_refcount s v = holders s v + int (count_list held v))"

text \<open>
  (C25) From the start of the system on, with the semaphore file system and the null device, every sequence of operations
  on path names (opening with creation and truncation, closing, changing directory, setting the boot file system, removing, renaming,
  linking and so on, failing or not) returns, and at its end the reference count of every vnode is the number of its holders: the table
  of devices, the current directory, the boot file system, and the programs that opened it. There is one exception: if \<open>kmalloc\<close> fails to give the memory
  of a directory entry, \<open>semfs_creat\<close> returns 0 without a vnode, and the sequence stops at that operation, an opening with creation, in the
  \<open>KASSERT(vn != NULL)\<close> of \<open>vfs_open\<close>; up to there the counts are exact. So no other error path loses or leaks a reference, no
  vnode is reclaimed while in use, and none stays after its last user. Vnodes may get the addresses of freed ones.
\<close>

theorem path_ops_account:
  assumes "boot_ready m1 fs m2 s" "vfs_bootstrap array_ok lock_ok dev m1 fs m2 s = Ok t"
  shows "(\<exists>u held. path_run semfs_fsops (vnode_table D) ops (t, []) = Ok (u, held) \<and> accounted u held)
    \<or> False \<in> set (dent_answers (fs_world s))
      \<and> (\<exists>ops1 p ops2 u held. ops = ops1 @ p # ops2 \<and> path_run semfs_fsops (vnode_table D) ops1 (t, []) = Ok (u, held) \<and> accounted u held
           \<and> open_stops semfs_fsops (vnode_table D) p u)"
proof -
  let ?I = "semfs_inv fs (False \<in> set (dent_answers (fs_world s)))"
  have acc: "books {fs} ?I u (\<lambda>v. int (count_list held v)) \<Longrightarrow> accounted u held" for u held
    by (simp add: accounted_def booksD(2))
  have "books {fs} ?I t (\<lambda>v. int (count_list [] v))" using bootstrap_books [OF assms] by simp
  from sf.path_run_books [OF this, of D ops] show ?thesis using acc by fastforce
qed

definition ex_sem_world :: semfs where
  "ex_sem_world = \<lparr>semfs_absfs = NULL, semfs_vnodes = [], semfs_sems = [], semfs_dents = [], semv_semnum = (\<lambda>v. 0), new_vnodes = [0x80005000, 0x80005000, 0x80006000],
     answers = [True, True, True, True, True, True, True, True, True], dent_answers = []\<rparr>"

definition ex_start :: ssys where
  "ex_start = \<lparr>knowndevs = [], biglock_depth = 0, bootfs_vnode = NULL, cwd = NULL, v_refcount = (\<lambda>v. 0), v_fs = (\<lambda>v. NULL), d_devnumber = (\<lambda>v. 0), fs_world = ex_sem_world\<rparr>"

definition ex_mem2 :: doadd_mem where
  "ex_mem2 = \<lparr>m_name = True, m_rawname = True, m_vnode = 0x80004000, m_kd = True, m_add = True\<rparr>"

text \<open>\<open>sem:a\<close> is opened with creation, the directory becomes the current one, a semaphore that is not there is opened, \<open>sem:a\<close> is removed.\<close>

theorem path_ops_account_witness:
  "\<exists>t u held. vfs_bootstrap True True 0x80003000 ex_mem 0x80007000 ex_mem2 ex_start = Ok t
    \<and> path_run semfs_fsops (vnode_table (\<lambda>v. undefined)) [Open [115, 101, 109, 58, 97] (O_RDWR OR O_CREAT), Chdir [115, 101, 109, 58], Open [98] O_RDONLY, Remove [97]] (t, []) = Ok (u, held)
    \<and> accounted u held"
proof -
  have r: "boot_ready ex_mem 0x80007000 ex_mem2 ex_start" by (simp add: boot_ready_def ex_start_def ex_sem_world_def ex_mem_def ex_mem2_def SWAP_FS_def)
  have d: "False \<notin> set (dent_answers (fs_world ex_start))" by (simp add: ex_start_def ex_sem_world_def)
  have "\<exists>t. vfs_bootstrap True True 0x80003000 ex_mem 0x80007000 ex_mem2 ex_start = Ok t"
    by (simp add: vfs_bootstrap_def devnull_create_def semfs_bootstrap_def semfs_create_def vfs_adddev_def vfs_addfs_def vfs_doadd_def vnode_init_def badnames_def released_def
        biglock_release_def biglock_acquire_def biglock_do_i_hold_def samestring3_def samestring_def has_fs_def Let_def ex_start_def ex_sem_world_def ex_mem_def ex_mem2_def
        ask_def upd_semfs_def semfs_fsops_def semfs_getvolname_def)
  then obtain t where t: "vfs_bootstrap True True 0x80003000 ex_mem 0x80007000 ex_mem2 ex_start = Ok t" by blast
  obtain u held where "path_run semfs_fsops (vnode_table (\<lambda>v. undefined))
      [Open [115, 101, 109, 58, 97] (O_RDWR OR O_CREAT), Chdir [115, 101, 109, 58], Open [98] O_RDONLY, Remove [97]] (t, []) = Ok (u, held)"
    and "accounted u held" using path_ops_account [OF r t] d by blast
  then show ?thesis using t by blast
qed

text \<open>The exception can be met: the first opening with creation when there is no memory for the directory entry.\<close>

lemma creat_without_entry_stops:
  "\<exists>t. vfs_bootstrap True True 0x80003000 ex_mem 0x80007000 ex_mem2 (upd_semfs (dent_answers_update (\<lambda>_. [False])) ex_start) = Ok t
    \<and> open_stops semfs_fsops (vnode_table D) (Open [115, 101, 109, 58, 97] (O_RDWR OR O_CREAT)) t"
proof -
  have e: "(O_RDWR OR O_CREAT) AND O_CREAT \<noteq> 0" "(O_RDWR OR O_CREAT) AND O_ACCMODE = O_RDWR" "O_RDWR \<noteq> O_RDONLY"
    by (simp_all add: O_RDWR_def O_CREAT_def O_ACCMODE_def O_RDONLY_def)
  show ?thesis
    by (simp add: e vfs_bootstrap_def devnull_create_def semfs_bootstrap_def semfs_create_def vfs_adddev_def vfs_addfs_def vfs_doadd_def vnode_init_def badnames_def released_def
        biglock_release_def biglock_acquire_def biglock_do_i_hold_def samestring3_def samestring_def has_fs_def Let_def ex_start_def ex_sem_world_def ex_mem_def ex_mem2_def
        ask_def upd_semfs_def semfs_fsops_def semfs_getvolname_def SWAP_FS_def
        vfs_open_def vfs_lookparent_def getdevice_def vfs_getroot_def semfs_getroot_def semfs_getvnode_def semfs_vnode_create_def incref_def decref_def vnode_check_def
        vnode_table_def by_kind_def semfs_lookparent_def semfs_creat_def dot_name_def semfs_sem_create_def semfs_sem_insert_def ask_dent_def creat_uninsert_def set_sem_def
        semfs_reclaim_def semfs_vnode_destroy_def vnode_cleanup_def NAME_MAX_def SEMFS_ROOTDIR_def)
qed

section \<open>The table of devices with the semaphore file system\<close>

text \<open>
  The semaphore file system leaves the table alone. Its unmount operation can fail with a null pointer (\<open>semfs_destroy\<close>), its sync operation cannot.
\<close>

lemma semfs_unmount_world:
  assumes "semfs_unmount fs s = Ok (r, t)"
  shows "\<exists>f. t = upd_semfs f s"
proof (cases "semfs_vnodes (fs_world s) = []")
  case True
  then have "t = upd_semfs (\<lambda>w. w\<lparr>semfs_sems := [], semfs_dents := []\<rparr>) s"
    using assms by (auto simp: semfs_unmount_def semfs_destroy_def split: if_splits)
  then show ?thesis by blast
next
  case False
  then have "t = upd_semfs (\<lambda>w. w) s" using assms by (simp add: semfs_unmount_def upd_semfs_def)
  then show ?thesis by blast
qed

lemma upd_semfs_quiet: "quiet s (upd_semfs f s)"
  by (simp add: quiet_def)

lemma semfs_quiet: "fs_quiet semfs_fsops"
  unfolding fs_quiet_def using semfs_unmount_world upd_semfs_quiet by (fastforce simp: semfs_fsops_def semfs_sync_def)

text \<open>
  (C26) From an empty table, after any sequence of additions, mounts, unmounts, swap attachments and syncs in which the devices that
  are added are new and every operation returned, no two names of devices and raw devices are equal, every entry is well-formed, and the devices are
  numbered by their places in the table. Every operation on such a table returns, or fails as a file system of the table fails
  in its sync operation, as one on a mountable device fails in its unmount operation, or as the mount function that was handed over fails;
  no assertion of the table itself fails. The file systems are arguments whose sync and unmount operations leave the table and its lock
  alone if they return, as the semaphore file system does.
\<close>

theorem vfs_table_kept:
  assumes "fs_quiet F" "runs F s t" "knowndevs s = []"
  shows "distinct (concat (map kd_names (knowndevs t))) \<and> (\<forall>kd \<in> set (knowndevs t). kd_ok kd)
    \<and> (\<forall>i < length (knowndevs t). kd_device (knowndevs t ! i) \<noteq> NULL \<longrightarrow> d_devnumber t (kd_device (knowndevs t ! i)) = i + 1)
    \<and> (\<forall>p. op_ok t p \<longrightarrow> (\<exists>r u. run_op F p t = Ok (r, u)) \<or> (\<exists>e. run_op F p t = Fail e \<and> op_fault F t p e))"
proof -
  have t: "table_inv t" using table_runs_inv [OF assms(2,1)] assms(3) by (simp add: table_inv_def)
  then show ?thesis using op_returns [OF t assms(1)] by (simp add: table_inv_def)
qed

text \<open>
  The null device and the semaphore file system, as at the start of the system, then a disk. On this table everything can be
  unmounted: the semaphore file system is on no device, so its unmount operation is not called.
\<close>

definition ex_mem3 :: doadd_mem where
  "ex_mem3 = \<lparr>m_name = True, m_rawname = True, m_vnode = 0x80008000, m_kd = True, m_add = True\<rparr>"

theorem vfs_table_kept_witness:
  "\<exists>s t u. run_op semfs_fsops (Adddev ex_mem [110, 117, 108, 108] 0x80003000 False) ex_start = Ok (0, s)
    \<and> run_op semfs_fsops (Addfs ex_mem2 [115, 101, 109] 0x80007000) s = Ok (0, t)
    \<and> run_op semfs_fsops (Adddev ex_mem3 [108] 0x80009000 True) t = Ok (0, u)
    \<and> distinct (concat (map kd_names (knowndevs u))) \<and> d_devnumber u 0x80009000 = 3
    \<and> (\<exists>r x. run_op semfs_fsops Unmountall u = Ok (r, x))"
proof -
  note defs = vfs_adddev_def vfs_addfs_def vfs_doadd_def vnode_init_def badnames_def released_def biglock_release_def biglock_acquire_def biglock_do_i_hold_def
    samestring3_def samestring_def has_fs_def Let_def mkrawname_def semfs_fsops_def semfs_getvolname_def
  let ?a = "\<lparr>kd_name = [110, 117, 108, 108], kd_rawname = None, kd_device = 0x80003000, kd_vnode = 0x80002000, kd_fs = NULL\<rparr>"
  let ?b = "\<lparr>kd_name = [115, 101, 109], kd_rawname = None, kd_device = NULL, kd_vnode = 0x80004000, kd_fs = 0x80007000\<rparr>"
  let ?c = "\<lparr>kd_name = [108], kd_rawname = Some [108, 114, 97, 119], kd_device = 0x80009000, kd_vnode = 0x80008000, kd_fs = NULL\<rparr>"
  obtain s where s: "run_op semfs_fsops (Adddev ex_mem [110, 117, 108, 108] 0x80003000 False) ex_start = Ok (0, s)" "knowndevs s = [?a]" "biglock_depth s = 0"
    by (simp add: defs ex_start_def ex_sem_world_def ex_mem_def)
  obtain t where t: "run_op semfs_fsops (Addfs ex_mem2 [115, 101, 109] 0x80007000) s = Ok (0, t)" "knowndevs t = [?a, ?b]" "biglock_depth t = 0"
    using s by (simp add: defs ex_mem2_def)
  obtain u where u: "run_op semfs_fsops (Adddev ex_mem3 [108] 0x80009000 True) t = Ok (0, u)" "knowndevs u = [?a, ?b, ?c]"
    using t by (simp add: defs ex_mem3_def)
  have "runs semfs_fsops ex_start s" by (rule runs.step [OF runs.start _ s(1)]) (simp add: ex_start_def)
  then have "runs semfs_fsops ex_start t" by (rule runs.step [OF _ _ t(1)]) (simp add: SWAP_FS_def)
  then have "runs semfs_fsops ex_start u" by (rule runs.step [OF _ _ u(1)]) (simp add: t(2))
  moreover have "knowndevs ex_start = []" by (simp add: ex_start_def)
  ultimately have k: "distinct (concat (map kd_names (knowndevs u)))"
      "\<forall>i < length (knowndevs u). kd_device (knowndevs u ! i) \<noteq> NULL \<longrightarrow> d_devnumber u (kd_device (knowndevs u ! i)) = i + 1"
      "\<forall>p. op_ok u p \<longrightarrow> (\<exists>r x. run_op semfs_fsops p u = Ok (r, x)) \<or> (\<exists>e. run_op semfs_fsops p u = Fail e \<and> op_fault semfs_fsops u p e)"
    using vfs_table_kept [OF semfs_quiet] by blast+
  have "d_devnumber u 0x80009000 = 3" using k(2) [rule_format, of 2] by (simp add: u(2))
  moreover have "\<not> op_fault semfs_fsops u Unmountall e" for e by (simp add: op_fault_def fs_fault_def u(2) has_fs_def semfs_fsops_def semfs_sync_def)
  then have "\<exists>r x. run_op semfs_fsops Unmountall u = Ok (r, x)" using k(3) [rule_format, of Unmountall] by auto
  ultimately show ?thesis using s(1) t(1) u(1) k(1) by blast
qed

end
