(* ===== verification/Semfs_Wait.thy ===== *)
theory Semfs_Wait
  imports Semfs_Spec
begin

text \<open>
  Readers and writers of one semaphore of the semaphore file system, as interleaved sections under its lock: a reader
  takes what is there and, if it needs more, sleeps on the condition variable; a writer adds to the count and wakes one sleeper, all, or
  nobody. No unit is lost or made up, but a wake-up can be missed.
\<close>

section \<open>The system\<close>

text \<open>
  \<open>ready\<close> are the requests of the readers that wait for the lock only, \<open>asleep\<close> of those on the
  condition variable, first come first; \<open>given\<close> and \<open>taken\<close> count the units that writers have added and readers have got.
\<close>

record sem_sys =
  the_sem :: semfs_sem
  ready :: "uio list"
  asleep :: "uio list"
  units_given :: nat
  units_taken :: nat

fun wake_up :: "wake \<Rightarrow> sem_sys \<Rightarrow> sem_sys" where
  "wake_up Nobody S = S"
| "wake_up One S = S\<lparr>ready := ready S @ take 1 (asleep S), asleep := drop 1 (asleep S)\<rparr>"
| "wake_up Everybody S = S\<lparr>ready := ready S @ asleep S, asleep := []\<rparr>"

text \<open>A new reader; a section of a reader; a write.\<close>

inductive sem_step :: "sem_sys \<Rightarrow> sem_sys \<Rightarrow> bool" where
  new_reader: "sem_step S (S\<lparr>ready := ready S @ [u]\<rparr>)"
| reader: "\<lbrakk>ready S = us @ u # vs; semfs_read u (the_sem S) = (fin, u', sem)\<rbrakk> \<Longrightarrow>
    sem_step S (S\<lparr>the_sem := sem, ready := us @ vs, asleep := (if fin then asleep S else asleep S @ [u']),
      units_taken := units_taken S + (uio_resid u - uio_resid u')\<rparr>)"
| writer: "\<lbrakk>uio_resid u < 2 ^ 32; semfs_write u (the_sem S) = (r, u', sem, w)\<rbrakk> \<Longrightarrow>
    sem_step S (wake_up w (S\<lparr>the_sem := sem, units_given := units_given S + (uio_resid u - uio_resid u')\<rparr>))"

inductive_cases sem_stepE: "sem_step S T"

definition start_sem :: sem_sys where
  "start_sem = \<lparr>the_sem = \<lparr>sems_count = 0, sems_hasvnode = True, sems_linked = True\<rparr>, ready = [], asleep = [], units_given = 0, units_taken = 0\<rparr>"

section \<open>No unit is lost\<close>

text \<open>The units are those in the semaphore and those taken; a sleeper still needs some.\<close>

definition units_inv :: "sem_sys \<Rightarrow> bool" where
  "units_inv S \<longleftrightarrow> units_given S = units_taken S + unat (sems_count (the_sem S)) \<and> (\<forall>u \<in> set (asleep S). uio_resid u > 0)"

lemma read_units:
  assumes "semfs_read u sem = (fin, u', sem')"
  shows "unat (sems_count sem) = unat (sems_count sem') + (uio_resid u - uio_resid u')" "\<not> fin \<Longrightarrow> uio_resid u' > 0"
    "\<not> fin \<Longrightarrow> sems_count sem' = 0" "fin \<Longrightarrow> uio_resid u' = 0"
proof -
  let ?c = "min (uio_resid u) (unat (sems_count sem))"
  have "of_nat ?c \<le> sems_count sem" "unat (of_nat ?c :: 32 word) = ?c"
  proof -
    have "unat (sems_count sem) < 2 ^ LENGTH(32)" by (rule unsigned_less)
    then have "?c < 2 ^ 32" by (simp add: min_less_iff_disj)
    then show "unat (of_nat ?c :: 32 word) = ?c" by (simp add: unat_of_nat)
    then show "of_nat ?c \<le> sems_count sem" by (simp add: word_le_nat_alt)
  qed
  then have "unat (sems_count sem - of_nat ?c) = unat (sems_count sem) - ?c" by (simp add: unat_sub)
  then show "unat (sems_count sem) = unat (sems_count sem') + (uio_resid u - uio_resid u')" "\<not> fin \<Longrightarrow> uio_resid u' > 0" "fin \<Longrightarrow> uio_resid u' = 0"
    using assms by (auto simp: semfs_read_def Let_def split: if_splits)
  show "\<not> fin \<Longrightarrow> sems_count sem' = 0"
    using assms by (auto simp: semfs_read_def Let_def min_def split: if_splits)
qed

lemma write_units:
  assumes "semfs_write u sem = (r, u', sem', w)" "uio_resid u < 2 ^ 32"
  shows "unat (sems_count sem') = unat (sems_count sem) + (uio_resid u - uio_resid u')"
proof -
  have n: "unat (of_nat (uio_resid u) :: 32 word) = uio_resid u" using assms(2) by (simp add: unat_of_nat)
  have "unat (sems_count sem + of_nat (uio_resid u)) = unat (sems_count sem) + uio_resid u" if "\<not> sems_count sem + of_nat (uio_resid u) < sems_count sem"
    using that n unat_plus_simple [of "sems_count sem" "of_nat (uio_resid u)"] by (simp add: not_less)
  then show ?thesis using assms(1) by (auto simp: semfs_write_def Let_def split: if_splits)
qed

lemma wake_up_simps [simp]:
  "the_sem (wake_up w S) = the_sem S" "units_given (wake_up w S) = units_given S" "units_taken (wake_up w S) = units_taken S"
  "set (asleep (wake_up w S)) \<subseteq> set (asleep S)"
  by (cases w; simp add: set_drop_subset)+

lemma step_units: "sem_step S T \<Longrightarrow> units_inv S \<Longrightarrow> units_inv T"
proof (induction rule: sem_step.induct)
  case (reader S us u vs fin u' sem)
  then show ?case using read_units [OF reader(2)] by (auto simp: units_inv_def)
next
  case (writer u S r u' sem w)
  let ?T = "wake_up w (S\<lparr>the_sem := sem, units_given := units_given S + (uio_resid u - uio_resid u')\<rparr>)"
  have "set (asleep ?T) \<subseteq> set (asleep S)" using wake_up_simps(4) [of w "S\<lparr>the_sem := sem, units_given := units_given S + (uio_resid u - uio_resid u')\<rparr>"] by simp
  then show ?case using writer write_units [OF writer(2,1)] by (auto simp: units_inv_def)
qed (simp add: units_inv_def)

text \<open>
  (C29) Whatever readers and writers do to a semaphore, in whatever order, no unit is lost or made up: what writers have
  added is what readers have taken plus the count, which never wraps around, and a reader only sleeps while it still needs units.
\<close>

theorem semfs_units_conserved:
  assumes "sem_step\<^sup>*\<^sup>* start_sem S"
  shows "units_given S = units_taken S + unat (sems_count (the_sem S)) \<and> (\<forall>u \<in> set (asleep S). uio_resid u > 0)"
proof -
  have "units_inv S" using assms
  proof (induction rule: rtranclp_induct)
    case base
    then show ?case by (simp add: units_inv_def start_sem_def)
  next
    case (step S T)
    then show ?case by (blast intro: step_units)
  qed
  then show ?thesis by (simp add: units_inv_def)
qed

section \<open>A missed wake-up\<close>

definition ex_one :: uio where
  "ex_one = \<lparr>uio_iov = [], uio_offset = 0, uio_resid = 1, uio_segflg = UIO_USERSPACE, uio_dir = UIO_READ, uio_space = NULL\<rparr>"

definition sem_at :: "32 word \<Rightarrow> uio list \<Rightarrow> uio list \<Rightarrow> nat \<Rightarrow> nat \<Rightarrow> sem_sys" where
  "sem_at c r a g t = \<lparr>the_sem = \<lparr>sems_count = c, sems_hasvnode = True, sems_linked = True\<rparr>, ready = r, asleep = a, units_given = g, units_taken = t\<rparr>"

lemma one_step:
  "sem_step (sem_at c r a g t) (sem_at c (r @ [ex_one]) a g t)"
  "sem_step (sem_at 0 (ex_one # r) a g t) (sem_at 0 r (a @ [ex_one]) g t)"
  "c > 0 \<Longrightarrow> sem_step (sem_at c (ex_one # r) a g t) (sem_at (c - 1) r a g (t + 1))"
  "sem_step (sem_at 0 r a g t) (sem_at 1 (r @ take 1 a) (drop 1 a) (g + 1) t)"
  "c > 0 \<Longrightarrow> c + 1 > c \<Longrightarrow> sem_step (sem_at c r a g t) (sem_at (c + 1) r a (g + 1) t)"
proof -
  show "sem_step (sem_at c r a g t) (sem_at c (r @ [ex_one]) a g t)"
    using new_reader [of "sem_at c r a g t" ex_one] by (simp add: sem_at_def)
  let ?sem = "\<lambda>c. \<lparr>sems_count = c, sems_hasvnode = True, sems_linked = True\<rparr>"
  have r0: "semfs_read ex_one (the_sem (sem_at 0 (ex_one # r) a g t)) = (False, ex_one, ?sem 0)" by (simp add: sem_at_def semfs_read_def ex_one_def)
  show "sem_step (sem_at 0 (ex_one # r) a g t) (sem_at 0 r (a @ [ex_one]) g t)"
    using reader [OF _ r0, of "[]" r] by (simp add: sem_at_def)
  show "sem_step (sem_at c (ex_one # r) a g t) (sem_at (c - 1) r a g (t + 1))" if "c > 0"
  proof -
    have "unat c \<ge> 1" using that by (simp add: word_gt_0 unat_gt_0 Suc_le_eq)
    then have m: "min 1 (unat c) = 1" by simp
    have "semfs_read ex_one (the_sem (sem_at c (ex_one # r) a g t)) = (True, ex_one\<lparr>uio_offset := 1, uio_resid := 0\<rparr>, ?sem (c - 1))"
      using m by (simp add: sem_at_def semfs_read_def ex_one_def)
    from reader [OF _ this, of "[]" r] show ?thesis by (simp add: sem_at_def ex_one_def)
  qed
  have w0: "semfs_write ex_one (the_sem (sem_at 0 r a g t)) = (0, ex_one\<lparr>uio_offset := 1, uio_resid := 0\<rparr>, ?sem 1, One)"
    by (simp add: sem_at_def semfs_write_def semfs_wakeup_def ex_one_def)
  show "sem_step (sem_at 0 r a g t) (sem_at 1 (r @ take 1 a) (drop 1 a) (g + 1) t)"
    using writer [OF _ w0] by (simp add: sem_at_def ex_one_def)
  show "sem_step (sem_at c r a g t) (sem_at (c + 1) r a (g + 1) t)" if "c > 0" "c + 1 > c"
  proof -
    have "semfs_write ex_one (the_sem (sem_at c r a g t)) = (0, ex_one\<lparr>uio_offset := 1, uio_resid := 0\<rparr>, ?sem (c + 1), Nobody)"
      using that less_asym [OF that(2)] by (simp add: sem_at_def semfs_write_def semfs_wakeup_def ex_one_def Let_def)
    from writer [OF _ this] show ?thesis by (simp add: sem_at_def ex_one_def)
  qed
qed

text \<open>Two readers go to sleep, two units are written one after the other, and only one reader is woken up and gets its unit.\<close>

lemma missed_run: "sem_step\<^sup>*\<^sup>* start_sem (sem_at 1 [] [ex_one] 2 1)"
proof -
  have into: "sem_step\<^sup>*\<^sup>* start_sem T \<Longrightarrow> sem_step T U \<Longrightarrow> sem_step\<^sup>*\<^sup>* start_sem U" for T U by (rule rtranclp.rtrancl_into_rtrancl)
  have "start_sem = sem_at 0 [] [] 0 0" by (simp add: start_sem_def sem_at_def)
  then have "sem_step\<^sup>*\<^sup>* start_sem (sem_at 0 [] [] 0 0)" by simp
  then have "sem_step\<^sup>*\<^sup>* start_sem (sem_at 0 [ex_one] [] 0 0)" using into [OF _ one_step(1) [of 0 "[]"]] by simp
  then have "sem_step\<^sup>*\<^sup>* start_sem (sem_at 0 [ex_one, ex_one] [] 0 0)" using into [OF _ one_step(1) [of 0 "[ex_one]"]] by simp
  then have "sem_step\<^sup>*\<^sup>* start_sem (sem_at 0 [ex_one] [ex_one] 0 0)" using into [OF _ one_step(2) [of "[ex_one]" "[]"]] by simp
  then have "sem_step\<^sup>*\<^sup>* start_sem (sem_at 0 [] [ex_one, ex_one] 0 0)" using into [OF _ one_step(2) [of "[]" "[ex_one]"]] by simp
  then have "sem_step\<^sup>*\<^sup>* start_sem (sem_at 1 [ex_one] [ex_one] 1 0)" using into [OF _ one_step(4) [of "[]" "[ex_one, ex_one]" 0 0]] by simp
  then have "sem_step\<^sup>*\<^sup>* start_sem (sem_at 2 [ex_one] [ex_one] 2 0)" using into [OF _ one_step(5) [of 1 "[ex_one]" "[ex_one]" 1 0]] by (simp add: numeral_2_eq_2)
  then show ?thesis using into [OF _ one_step(3) [of 2 "[]" "[ex_one]" 2 0]] by simp
qed

theorem semfs_units_conserved_witness:
  "sem_step\<^sup>*\<^sup>* start_sem (sem_at 1 [] [ex_one] 2 1) \<and> units_given (sem_at 1 [] [ex_one] 2 1) = units_taken (sem_at 1 [] [ex_one] 2 1) + 1"
  using semfs_units_conserved [OF missed_run] missed_run by (simp add: sem_at_def)

text \<open>
  The semaphore has a unit and a sleeper that needs one, and nobody is about to run: the second write found a positive
  count and woke nobody, although there were two sleepers, contrary to the comment of \<open>semfs_wakeup\<close>.
\<close>

theorem semfs_lost_wakeup:
  "\<exists>S u. sem_step\<^sup>*\<^sup>* start_sem S \<and> sems_count (the_sem S) = 1 \<and> asleep S = [u] \<and> uio_resid u = 1 \<and> ready S = []"
  using missed_run by (intro exI [of _ "sem_at 1 [] [ex_one] 2 1"] exI [of _ ex_one]) (simp add: sem_at_def ex_one_def)

end
