(* ===== verification/Spec2Isabelle.thy ===== *)
theory Spec2Isabelle
  imports Load_ELF Thread_List VM_Boot SFS_Remove Mksfs Semfs_Wait
begin

text \<open>
  A verification of the memory management and process layer of an OS/161 kernel with demand paging
  (\<^verbatim>\<open>src/os161-base-2.0.3/kern\<close>, configuration \<^verbatim>\<open>PROGETTOVM\<close>: options
  \<open>project\<close>, \<open>sw_list\<close>, \<open>fork\<close>).

  \<^bold>\<open>The program.\<close> A process touches a page that the TLB does not map; the trap handler calls
  \<open>vm_fault\<close> (\<^verbatim>\<open>vm/vm_tlb.c\<close>), which asks \<open>get_page\<close> (\<^verbatim>\<open>vm/pt.c\<close>) for a frame. The
  inverted page table finds the frame through a hash index; if the page has none, a free frame or a
  victim chosen by the second-chance clock is claimed, the victim goes to the swap file
  (\<^verbatim>\<open>vm/swapfile.c\<close>), and \<open>load_page\<close> (\<^verbatim>\<open>vm/segments.c\<close>) fills the frame from the
  swap file, from the executable, or with zeros. The swap file is a raw disk, written and read
  through a device vnode (\<^verbatim>\<open>vfs/device.c\<close>) and the disk driver
  (\<^verbatim>\<open>dev/lamebus/lhd.c\<close>). \<open>fork\<close> copies frames and swapped pages, \<open>exit\<close> gives them back,
  the kernel takes frames of its own with \<open>alloc_kpages\<close>. Processes
  (\<^verbatim>\<open>proc/proc.c\<close>, \<^verbatim>\<open>syscall/proc_syscalls.c\<close>) wait for each other on condition
  variables (\<^verbatim>\<open>thread/synch.c\<close>). Executables come from a file system such as SFS
  (\<^verbatim>\<open>fs/sfs\<close>), which lives on the same disk driver; path names and mounts are the matter of the VFS
  layer (\<^verbatim>\<open>vfs\<close>).

  \<^bold>\<open>Theories.\<close>
  \<^item> \<open>VM_Prelude\<close>: machine types, results of kernel code (\<open>kres\<close>: a value, or the reason why the
    kernel stops: panic, failed assertion, null pointer, array bound, endless loop, sleep), loops,
    byte-addressed memory, linked lists in a heap.
  \<^item> \<open>Hash_Table\<close>: the hash index of \<^verbatim>\<open>vm/pt.c\<close>. Interface \<open>frame_index\<close> (a partial map with a
    bounded number of free cells), interpreted by the index.
  \<^item> \<open>VM_Stats\<close>: \<^verbatim>\<open>vm/vmstats.c\<close>; what every counter update does to the three equations
    printed at shutdown.
  \<^item> \<open>Disk_IO\<close>: \<^verbatim>\<open>lib/uio.c\<close>, \<^verbatim>\<open>vfs/device.c\<close>, \<^verbatim>\<open>dev/lamebus/lhd.c\<close>. Interface
    \<open>page_device\<close> (a page written is read back, other pages are untouched), interpreted by the disk.
  \<^item> \<open>Addr_Space\<close>: \<^verbatim>\<open>vm/addrspace.c\<close> without the parts that need the page table, reference
    counts of vnodes.
  \<^item> \<open>Swapfile\<close>, \<open>Swapfile_Spec\<close>: \<^verbatim>\<open>vm/swapfile.c\<close> and its specification as lists of (address,
    contents) per segment and process. Interface \<open>page_store\<close>, interpreted by the swap file.
  \<^item> \<open>Segments\<close>: \<^verbatim>\<open>vm/segments.c\<close>; what a page holds when it is first touched.
  \<^item> \<open>Page_Table\<close>, \<open>Page_Clock\<close>, \<open>Page_Inv\<close>: \<^verbatim>\<open>vm/pt.c\<close>, the replacement algorithm, the invariant
    that couples the table and its index.
  \<^item> \<open>VM_Paging\<close>: the logical contents of a page (\<open>vpage\<close>: those of its frame, else those in the swap
    file) and the theorem that paging does not change them.
  \<^item> \<open>TLB\<close>: \<^verbatim>\<open>vm/vm_tlb.c\<close>; a fault maps the page, a process switch leaves no mapping behind.
  \<^item> \<open>VM_System\<close>: shutdown, kernel pages, \<open>as_copy\<close> (\<^verbatim>\<open>vm/addrspace.c\<close>, \<^verbatim>\<open>arch/mips/vm/ram.c\<close>).
  \<^item> \<open>Proc_Memory\<close>: the memory of a process at fork and exit, in terms of logical contents.
  \<^item> \<open>Synch\<close>: \<^verbatim>\<open>thread/synch.c\<close> and wait channels as a step relation of interleaved atomic
    sections; mutual exclusion and absence of lost wake-ups by rule induction.
  \<^item> \<open>Proc\<close>, \<open>Proc_Spec\<close>: \<^verbatim>\<open>proc/proc.c\<close>, \<^verbatim>\<open>thread/spl.c\<close>,
    \<^verbatim>\<open>syscall/proc_syscalls.c\<close>, parts of \<^verbatim>\<open>thread/thread.c\<close>; process ids, exit and wait.
  \<^item> \<open>Thread_List\<close>: \<^verbatim>\<open>thread/threadlist.c\<close> and the wake-up loops of \<^verbatim>\<open>thread/thread.c\<close> on
    doubly linked nodes. Interface \<open>thread_queues\<close> (lists of threads that share no thread),
    interpreted by the pointer operations.
  \<^item> \<open>Load_ELF\<close>: \<^verbatim>\<open>syscall/loadelf.c\<close>, \<^verbatim>\<open>syscall/runprogram.c\<close>; what the loader accepts, the
    address space it lays out, and the bytes a program then finds in memory.
  \<^item> \<open>Kmalloc\<close>, \<open>Kmalloc_Spec\<close>, \<open>Kmalloc_Free\<close>: \<^verbatim>\<open>vm/kmalloc.c\<close> with free lists as words in memory;
    the invariant of the heap with its set of allocated blocks, allocation and release. Interface
    \<open>kernel_pages\<close> (pages are given and taken back, nothing else changes), interpreted by \<open>alloc_kpages\<close>
    and \<open>free_kpages\<close>; the pages stolen before the page table is active (\<open>boot_pages\<close>) are never taken back.
  \<^item> \<open>VM_Boot\<close>: \<open>vm_bootstrap\<close> (\<^verbatim>\<open>vm/addrspace.c\<close>). The hash index is allocated with \<open>kmalloc\<close> once the page
    table is active, so that start-up takes up to six frames, and fails on machines with more than 512 of them.
  \<^item> \<open>Containers\<close>: \<^verbatim>\<open>lib/bitmap.c\<close>, \<^verbatim>\<open>lib/array.c\<close>; bitmaps are sets of numbers, arrays are lists.
    Interface \<open>number_allocator\<close>, interpreted by bitmaps.
  \<^item> \<open>SFS\<close>, \<open>SFS_Spec\<close>, \<open>SFS_File\<close>, \<open>SFS_Trunc\<close>: the block level of the file system
    (\<^verbatim>\<open>fs/sfs/sfs_balloc.c\<close>, \<^verbatim>\<open>sfs_bmap.c\<close>, \<^verbatim>\<open>sfs_io.c\<close>) on the disk driver and a bitmap.
    \<open>SFS_Spec\<close> has the well-formedness of a volume (\<open>sfs_ok\<close>) and of a file (\<open>file_ok\<close>) and the block map,
    \<open>SFS_File\<close> shows that \<open>sfs_io\<close> reads and writes files as sequences of bytes, \<open>SFS_Trunc\<close> what
    truncation gives back.
  \<^item> \<open>SFS_Dir\<close>, \<open>SFS_Vnops\<close>, \<open>SFS_Dir_Spec\<close>, \<open>SFS_Inode\<close>: \<^verbatim>\<open>fs/sfs/sfs_dir.c\<close>, \<^verbatim>\<open>sfs_inode.c\<close> and
    \<^verbatim>\<open>sfs_vnops.c\<close>. \<open>SFS_Dir_Spec\<close> shows that a directory (\<open>dir_ok\<close>) is a finite map from names to inode
    numbers (\<open>dmap\<close>) for the search, link and unlink operations; \<open>SFS_Inode\<close> that the table of vnodes is
    a cache of the inodes on the disk.
  \<^item> \<open>SFS_Volume\<close>, \<open>SFS_Sync\<close>: \<^verbatim>\<open>fs/sfs/sfs_fsops.c\<close>; what \<open>sfs_sync\<close> wrote is found again when the
    disk is mounted (\<open>vol_ok\<close>: a mounted volume, \<open>disk_vol\<close>: the volume on the disk).
  \<^item> \<open>SFS_Names\<close>, \<open>SFS_Remove\<close>: creation and removal of files as a whole, from the name to the free map.
  \<^item> \<open>Mksfs\<close>: the program \<^verbatim>\<open>userland/sbin/mksfs\<close>; the kernel mounts the volumes it makes.
  \<^item> \<open>VFS\<close>, \<open>VFS_Spec\<close>: \<^verbatim>\<open>vfs/vfslist.c\<close>, \<^verbatim>\<open>vfslookup.c\<close>, \<^verbatim>\<open>vfscwd.c\<close>, \<^verbatim>\<open>vfspath.c\<close>, \<^verbatim>\<open>vnode.c\<close>
    over function tables for file systems and vnodes; the invariant of the device table (\<open>table_inv\<close>), for file
    systems whose sync and unmount operations leave the table alone if they return (\<open>fs_quiet\<close>), and what a device
    name and a path name refer to.
  \<^item> \<open>VFS_Refs\<close>: reference counts. Interface \<open>file_systems\<close> (what \<^verbatim>\<open>include/vnode.h\<close> demands of the
    operations of vnodes, and whether \<open>vop_creat\<close> may break it); \<open>books\<close> says that every count is the number of holders, and every operation on path names keeps it.
  \<^item> \<open>Semfs\<close>, \<open>Semfs_Spec\<close>, \<open>Semfs_Wait\<close>: \<^verbatim>\<open>fs/semfs\<close>, \<^verbatim>\<open>vfs/vfsfail.c\<close>, \<^verbatim>\<open>vfs/devnull.c\<close>;
    \<open>semfs_inv\<close> couples vnodes, semaphores and names, and the semaphore file system with the devices
    interprets \<open>file_systems\<close>; the account of references and the table of devices from the start of the system on; readers and writers of a semaphore as a step relation.

  \<^bold>\<open>State.\<close> The records follow the globals of the code: \<open>ksys\<close> (memory, statistics, swap file,
  vnodes, current process and address space), extended by \<open>vm\<close> (page table, hash index, clock hand,
  physical memory at start-up), beside it \<open>tlb_state\<close>; \<open>pstate\<close> holds the process table, threads,
  the interrupt level, a \<open>synch\<close> and a \<open>vm\<close>; \<open>vfs\<close> the device table, the current directory and the
  vnodes, with the file system's own state as its last field. Operations take the state and return it in \<open>kres\<close>.
  What the code leaves to others is an argument: what \<open>kmalloc\<close> answers to the swap file, the
  process code and the file systems, the read operation of the
  executable's vnode, the disk hardware, \<open>copyin\<close> and \<open>copyout\<close>.

  \<^bold>\<open>Loops.\<close> Loops with an obvious bound are recursions with a measure or folds over the range of
  the index. The clock of \<open>find_victim\<close>, the walks along chains and the search for a process id are
  \<open>partial_function\<close>s, so that an endless loop is the value \<open>None\<close>; that they end is part of the
  theorems about them.

  \<^bold>\<open>Sequential and concurrent parts.\<close> The paging code runs with interrupts off or on one processor; it
  is modelled as uninterrupted, and a sleep is the result \<open>Blocked\<close>. \<open>Synch\<close> treats interleaving
  explicitly, and \<open>Semfs_Wait\<close> the readers and writers of a semaphore.

  \<^bold>\<open>Limits of the theorems.\<close> Pages are those of one address space (\<open>page_ok\<close>), since the swap file
  sorts every page by the address space of the current process; process ids are below 100, since
  the arrays of the swap file have 100 entries; the heap theorems are about requests of up to a page,
  since larger ones run into the assertion of \<open>contiguous_run_fails\<close>; files of SFS are read and
  written through a kernel buffer, by a thread that holds the VFS lock, on a disk that completes every
  command, on volumes of up to \<open>2 ^ 23\<close> blocks; frames lie in \<open>kseg0\<close> below the buffer of the disk;
  the reference counts of the VFS layer are proved with the semaphore file system mounted (SFS counts its own vnodes in
  \<open>SFS_Inode\<close>), where an allocation of a directory entry that fails stops \<open>vfs_open\<close> in an assertion, since \<open>semfs_creat\<close> then
  reports success without a vnode; executables have their two loadable segments at the positions 1 and 2 of the table
  of program headers, on page boundaries and at least a page apart, since the loader and \<open>load_page\<close> fail for others.

  \<^bold>\<open>Not modelled.\<close> The scheduler and context switch (assembler), the
  emulator file system, the other drivers, the menu, the C library and user programs: they come with
  OS/161 and the code above relies on them only through the arguments named. Print and debug
  functions have no effect on the state.
\<close>

end
